(* ===== verification/DB_Prelude.thy ===== *)
theory DB_Prelude
  imports Main "HOL-Library.Word" "HOL-Library.Monad_Syntax"
begin

text \<open>
  The shared vocabulary of the development: the C scalar types the sources use, the
  outcome of a C computation as an option (\<open>None\<close> is an abort: a failed
  \<^verbatim>\<open>assert\<close>, an \<^verbatim>\<open>exit\<close>, or a step the C standard leaves undefined, such as a
  dereference of \<^verbatim>\<open>NULL\<close> or an array access out of bounds), and the lemmas on
  options, lists and sorted association lists that the components share.
\<close>

section \<open>C scalar types\<close>

text \<open>\<^verbatim>\<open>unsigned long\<close>, \<^verbatim>\<open>size_t\<close> and \<^verbatim>\<open>keyslice_t\<close> are 64 bits wide; a heap
  address is a natural number and a pointer is an optional address (\<open>None\<close> is \<^verbatim>\<open>NULL\<close>).\<close>

type_synonym u64 = "64 word"
type_synonym addr = nat
type_synonym cptr = "addr option"

section \<open>Outcomes\<close>

named_theorems outcome_simps \<open>unfolding of successful computations\<close>

definition assert_c :: "bool \<Rightarrow> unit option" where
  "assert_c b = (if b then Some () else None)"

lemma assert_c_True [simp]: "assert_c True = Some ()"
  by (simp add: assert_c_def)

lemma assert_c_False [simp]: "assert_c False = None"
  by (simp add: assert_c_def)

lemma assert_c_eq_Some [simp]: "assert_c b = Some u \<longleftrightarrow> b"
  by (simp add: assert_c_def)

lemma bind_Some_iff: "Option.bind x f = Some z \<longleftrightarrow> (\<exists>y. x = Some y \<and> f y = Some z)"
  by (cases x) auto

section \<open>Arrays\<close>

text \<open>A read \<^verbatim>\<open>a[i]\<close> with a signed index: undefined out of bounds.\<close>

definition array_at :: "'a list \<Rightarrow> int \<Rightarrow> 'a option" where
  "array_at xs i = (if 0 \<le> i \<and> nat i < length xs then Some (xs ! nat i) else None)"

text \<open>A write \<^verbatim>\<open>a[i] = v\<close> with a signed index: undefined out of bounds.\<close>

definition array_set :: "'a list \<Rightarrow> int \<Rightarrow> 'a \<Rightarrow> 'a list option" where
  "array_set xs i v = (if 0 \<le> i \<and> nat i < length xs then Some (xs[nat i := v]) else None)"

lemma array_at_of_nat [simp]: "array_at xs (int i) = (if i < length xs then Some (xs ! i) else None)"
  by (simp add: array_at_def)

lemma array_set_of_nat [simp]:
  "array_set xs (int i) v = (if i < length xs then Some (xs[i := v]) else None)"
  by (simp add: array_set_def)

lemma array_at_Some_bounds: "array_at xs i = Some x \<Longrightarrow> 0 \<le> i \<and> i < int (length xs)"
  by (auto simp: array_at_def split: if_splits)

section \<open>Sorted association lists\<close>

text \<open>
  The abstract value of an ordered index is the list of its key/record pairs in strictly
  increasing key order. \<open>ins_list\<close> inserts a pair, or replaces the record of its key.
\<close>

fun ins_list :: "'k::linorder \<Rightarrow> 'v \<Rightarrow> ('k \<times> 'v) list \<Rightarrow> ('k \<times> 'v) list" where
  "ins_list k v [] = [(k, v)]"
| "ins_list k v ((a, b) # ps) =
     (if k < a then (k, v) # (a, b) # ps
      else if k = a then (k, v) # ps
      else (a, b) # ins_list k v ps)"

abbreviation keys_of :: "('k \<times> 'v) list \<Rightarrow> 'k list" where
  "keys_of ps \<equiv> map fst ps"

abbreviation strict_sorted :: "'k::linorder list \<Rightarrow> bool" where
  "strict_sorted ks \<equiv> sorted_wrt (<) ks"

text \<open>The number of keys strictly below, respectively at most, a given key.\<close>

definition below :: "'k::linorder \<Rightarrow> 'k list \<Rightarrow> nat" where
  "below k ks = length (takeWhile (\<lambda>x. x < k) ks)"

definition upto_key :: "'k::linorder \<Rightarrow> 'k list \<Rightarrow> nat" where
  "upto_key k ks = length (takeWhile (\<lambda>x. x \<le> k) ks)"

lemma set_keys_ins_list [simp]: "fst ` set (ins_list k v ps) = insert k (fst ` set ps)"
  by (induction k v ps rule: ins_list.induct) auto

lemma set_keys_of_ins_list: "set (keys_of (ins_list k v ps)) = insert k (set (keys_of ps))"
  by simp

lemma ins_list_neq_Nil [simp]: "ins_list k v ps \<noteq> []"
  by (induction k v ps rule: ins_list.induct) auto

lemma strict_sorted_ins_list: "strict_sorted (keys_of ps) \<Longrightarrow> strict_sorted (keys_of (ins_list k v ps))"
proof (induction k v ps rule: ins_list.induct)
  case (2 k v a b ps)
  have "\<forall>x\<in>set (keys_of (ins_list k v ps)). a < x" if "\<not> k < a" "k \<noteq> a"
    using 2(2) that by (auto simp: set_keys_of_ins_list)
  with 2 show ?case by auto
qed simp

lemma map_of_ins_list: "strict_sorted (keys_of ps) \<Longrightarrow> map_of (ins_list k v ps) = (map_of ps)(k \<mapsto> v)"
proof (induction k v ps rule: ins_list.induct)
  case (2 k v a b ps)
  then show ?case by (auto simp: fun_eq_iff)
qed (simp add: fun_eq_iff)

lemma ins_list_append_left:
  assumes "\<forall>x\<in>set (keys_of ys). k < x"
  shows "ins_list k v (xs @ ys) = ins_list k v xs @ ys"
  using assms
proof (induction k v xs rule: ins_list.induct)
  case (1 k v)
  then show ?case by (cases ys) auto
qed auto

lemma ins_list_append_right:
  assumes "\<forall>x\<in>set (keys_of xs). x < k"
  shows "ins_list k v (xs @ ys) = xs @ ins_list k v ys"
  using assms by (induction xs) auto

lemma length_ins_list:
  "strict_sorted (keys_of ps) \<Longrightarrow>
   length (ins_list k v ps) = length ps + (if k \<in> fst ` set ps then 0 else 1)"
proof (induction k v ps rule: ins_list.induct)
  case (2 k v a b ps)
  then show ?case by auto
qed simp

section \<open>Positions in sorted lists\<close>

lemma below_le_length: "below k ks \<le> length ks"
  by (simp add: below_def length_takeWhile_le)

lemma upto_key_le_length: "upto_key k ks \<le> length ks"
  by (simp add: upto_key_def length_takeWhile_le)

lemma below_Nil [simp]: "below k [] = 0"
  by (simp add: below_def)

lemma below_Cons: "below k (a # ks) = (if a < k then Suc (below k ks) else 0)"
  by (simp add: below_def)

lemma upto_key_Nil [simp]: "upto_key k [] = 0"
  by (simp add: upto_key_def)

lemma upto_key_Cons: "upto_key k (a # ks) = (if a \<le> k then Suc (upto_key k ks) else 0)"
  by (simp add: upto_key_def)

lemma nth_less_below: "i < below k ks \<Longrightarrow> ks ! i < k"
  unfolding below_def by (metis nth_mem set_takeWhileD takeWhile_nth)

lemma nth_below_ge: "below k ks < length ks \<Longrightarrow> k \<le> ks ! below k ks"
  unfolding below_def by (metis linorder_not_less nth_length_takeWhile)

lemma nth_le_upto_key: "i < upto_key k ks \<Longrightarrow> ks ! i \<le> k"
  unfolding upto_key_def by (metis nth_mem set_takeWhileD takeWhile_nth)

lemma nth_upto_key_gt: "upto_key k ks < length ks \<Longrightarrow> k < ks ! upto_key k ks"
  unfolding upto_key_def by (metis linorder_not_less nth_length_takeWhile)

lemma upto_key_eqI:
  assumes "j \<le> length ks" "\<And>i. i < j \<Longrightarrow> ks ! i \<le> k" "j < length ks \<Longrightarrow> k < ks ! j"
  shows "upto_key k ks = j"
proof (rule ccontr)
  assume "upto_key k ks \<noteq> j"
  then consider "upto_key k ks < j" | "j < upto_key k ks" by linarith
  then show False
  proof cases
    case 1
    then show False using assms(1,2) nth_upto_key_gt [of k ks] by fastforce
  next
    case 2
    then show False using assms(3) nth_le_upto_key [of j k ks] upto_key_le_length [of k ks] by fastforce
  qed
qed

lemma below_eqI:
  assumes "j \<le> length ks" "\<And>i. i < j \<Longrightarrow> ks ! i < k" "j < length ks \<Longrightarrow> k \<le> ks ! j"
  shows "below k ks = j"
proof (rule ccontr)
  assume "below k ks \<noteq> j"
  then consider "below k ks < j" | "j < below k ks" by linarith
  then show False
  proof cases
    case 1
    then show False using assms(1,2) nth_below_ge [of k ks] by fastforce
  next
    case 2
    then show False using assms(3) nth_less_below [of j k ks] below_le_length [of k ks] by fastforce
  qed
qed

lemma ins_list_take_drop:
  assumes "strict_sorted (keys_of ps)"
  shows "ins_list k v ps = take (below k (keys_of ps)) ps @ (k, v) #
           drop (if k \<in> set (keys_of ps) then Suc (below k (keys_of ps)) else below k (keys_of ps)) ps"
  using assms
proof (induction k v ps rule: ins_list.induct)
  case (2 k v a b ps)
  then show ?case by (auto simp: below_Cons)
qed simp

lemma in_set_dropE:
  assumes "x \<in> set (drop n xs)"
  obtains i where "n \<le> i" "i < length xs" "x = xs ! i"
proof -
  from assms obtain j where "j < length xs - n" "x = drop n xs ! j" by (auto simp: in_set_conv_nth)
  then show thesis using that [of "n + j"] by simp
qed

lemma strict_sorted_nth_le:
  "strict_sorted ks \<Longrightarrow> i \<le> j \<Longrightarrow> j < length ks \<Longrightarrow> ks ! i \<le> ks ! j"
  by (cases "i = j") (auto dest: sorted_wrt_nth_less [of "(<)" ks i j] intro: less_imp_le)

lemma mem_below:
  assumes "strict_sorted ks"
  shows "k \<in> set ks \<longleftrightarrow> below k ks < length ks \<and> ks ! below k ks = k"
  using assms by (induction ks) (auto simp: below_Cons)

end
