(* ===== verification/BTree_Model.thy ===== *)
theory BTree_Model
  imports DB_Prelude
begin

text \<open>
  The cursored B+-tree of \<^verbatim>\<open>src/btrees_and_tries/relation_mem.c\<close>, function by function.
  A relation is the \<^verbatim>\<open>Relation\<close> struct together with the heap its nodes live in; a cursor
  holds the array of node addresses and the array of indices of the C struct, so that
  the model shares nodes between the relation and its cursors the way the code does.
  Every function returns \<open>None\<close> where the C aborts or is undefined: a failed assertion, a
  dereference of \<^verbatim>\<open>NULL\<close>, an index out of an array, a read of an entry that was never
  written, or a read of the wrong member of the union.
\<close>

section \<open>Data\<close>

type_synonym Key = u64

definition FANOUT :: nat where
  "FANOUT = 15"

definition MAX_TREE_DEPTH :: nat where
  "MAX_TREE_DEPTH = 20"

datatype 'r Child_or_Record = Child addr | Record 'r

record 'r Entry =
  ekey :: Key
  eptr :: "'r Child_or_Record"

text \<open>An entry of the array that was never assigned is \<open>None\<close>.\<close>

record 'r BtNode =
  isLeaf :: bool
  FirstLeaf :: bool
  LastLeaf :: bool
  numKeys :: nat
  ptr0 :: cptr
  entries :: "'r Entry option list"

text \<open>
  The struct \<^verbatim>\<open>Relation\<close> (\<open>root\<close>, \<open>numRecords\<close>, \<open>depth\<close>) with the heap: \<open>nodes\<close> holds
  the live nodes, \<open>brk\<close> numbers the calls of \<^verbatim>\<open>malloc\<close> (call number \<open>n\<close> returns address
  \<open>n\<close>), and \<open>avail n\<close> says whether call number \<open>n\<close> succeeds, so a failing \<^verbatim>\<open>malloc\<close> is a
  choice of the environment.
\<close>

record 'r Relation =
  nodes :: "addr \<Rightarrow> 'r BtNode option"
  brk :: addr
  avail :: "addr \<Rightarrow> bool"
  root :: cptr
  numRecords :: u64
  depth :: int

record Cursor =
  level :: int
  ancestorsIdx :: "int list"
  ancestors :: "cptr list"

section \<open>Reading and writing through pointers\<close>

definition node_at :: "'r Relation \<Rightarrow> cptr \<Rightarrow> 'r BtNode option" where
  "node_at s p = Option.bind p (nodes s)"

definition set_node :: "'r Relation \<Rightarrow> addr \<Rightarrow> 'r BtNode \<Rightarrow> 'r Relation" where
  "set_node s a n = s\<lparr>nodes := (nodes s)(a \<mapsto> n)\<rparr>"

definition entry_at :: "'r BtNode \<Rightarrow> int \<Rightarrow> 'r Entry option" where
  "entry_at n i = Option.bind (array_at (entries n) i) id"

definition child_of :: "'r Entry \<Rightarrow> addr option" where
  "child_of e = (case eptr e of Child a \<Rightarrow> Some a | Record _ \<Rightarrow> None)"

definition record_of :: "'r Entry \<Rightarrow> 'r option" where
  "record_of e = (case eptr e of Child _ \<Rightarrow> None | Record r \<Rightarrow> Some r)"

definition set_ancestor :: "Cursor \<Rightarrow> int \<Rightarrow> cptr \<Rightarrow> Cursor option" where
  "set_ancestor c l p = do { as \<leftarrow> array_set (ancestors c) l p; Some (c\<lparr>ancestors := as\<rparr>) }"

definition set_index :: "Cursor \<Rightarrow> int \<Rightarrow> int \<Rightarrow> Cursor option" where
  "set_index c l i = do { is \<leftarrow> array_set (ancestorsIdx c) l i; Some (c\<lparr>ancestorsIdx := is\<rparr>) }"

text \<open>\<^verbatim>\<open>entryIndex\<close>, \<^verbatim>\<open>currNode\<close>, \<^verbatim>\<open>isValid\<close>, \<^verbatim>\<open>isFirst\<close>.\<close>

definition entryIndex :: "Cursor \<Rightarrow> int option" where
  "entryIndex c = array_at (ancestorsIdx c) (level c)"

definition currNode :: "Cursor \<Rightarrow> cptr" where
  "currNode c = Option.bind (array_at (ancestors c) (level c)) id"

definition isValid :: "'r Relation \<Rightarrow> Cursor \<Rightarrow> bool option" where
  "isValid s c = do {
     i \<leftarrow> entryIndex c;
     n \<leftarrow> node_at s (currNode c);
     Some (if i = int (numKeys n) \<and> LastLeaf n then False else True) }"

definition isFirst :: "'r Relation \<Rightarrow> Cursor \<Rightarrow> bool option" where
  "isFirst s c = do {
     i \<leftarrow> entryIndex c;
     n \<leftarrow> node_at s (currNode c);
     Some (if i = 0 \<and> FirstLeaf n then True else False) }"

section \<open>Searching a node\<close>

text \<open>The loop of \<^verbatim>\<open>findChildIndex\<close> runs while \<^verbatim>\<open>i <= numKeys - 2\<close>.\<close>

function findChildIndex_loop :: "'r BtNode \<Rightarrow> Key \<Rightarrow> nat \<Rightarrow> int option" where
  "findChildIndex_loop n k i =
     (if int i \<le> int (numKeys n) - 2 then do {
        e \<leftarrow> entry_at n (int i);
        e' \<leftarrow> entry_at n (int i + 1);
        if ekey e \<le> k \<and> k < ekey e' then Some (int i)
        else findChildIndex_loop n k (Suc i) }
      else Some (int (numKeys n) - 1))"
  by pat_completeness auto
termination
  by (relation "measure (\<lambda>(n, k, i). numKeys n - i)") auto

declare findChildIndex_loop.simps [simp del]

definition findChildIndex :: "'r BtNode \<Rightarrow> Key \<Rightarrow> int option" where
  "findChildIndex n k = do {
     assert_c (numKeys n > 0);
     e \<leftarrow> entry_at n 0;
     if k < ekey e then Some (-1) else findChildIndex_loop n k 0 }"

function findRecordIndex_loop :: "'r BtNode \<Rightarrow> Key \<Rightarrow> nat \<Rightarrow> int option" where
  "findRecordIndex_loop n k i =
     (if int i \<le> int (numKeys n) - 1 then do {
        e \<leftarrow> entry_at n (int i);
        if k \<le> ekey e then Some (int i)
        else findRecordIndex_loop n k (Suc i) }
      else Some (int (numKeys n)))"
  by pat_completeness auto
termination
  by (relation "measure (\<lambda>(n, k, i). numKeys n - i)") auto

declare findRecordIndex_loop.simps [simp del]

definition findRecordIndex :: "'r BtNode \<Rightarrow> Key \<Rightarrow> int option" where
  "findRecordIndex n k = (if numKeys n = 0 then Some 0 else findRecordIndex_loop n k 0)"

section \<open>Moving a cursor down\<close>

text \<open>
  The recursion of \<^verbatim>\<open>moveToKey\<close> writes \<^verbatim>\<open>ancestors[level]\<close> at every call, so it leaves the
  defined behaviour at level \<open>MAX_TREE_DEPTH\<close>, which bounds it.
\<close>

function moveToKey :: "'r Relation \<Rightarrow> cptr \<Rightarrow> Key \<Rightarrow> Cursor \<Rightarrow> int \<Rightarrow> Cursor option" where
  "moveToKey s p k c l =
     (if 0 \<le> l \<and> l < int MAX_TREE_DEPTH then do {
        c \<leftarrow> set_ancestor c l p;
        n \<leftarrow> node_at s p;
        if isLeaf n then do {
          i \<leftarrow> findRecordIndex n k;
          set_index (c\<lparr>level := l\<rparr>) l i }
        else do {
          i \<leftarrow> findChildIndex n k;
          c \<leftarrow> set_index c l i;
          child \<leftarrow> (if i = -1 then Some (ptr0 n)
                     else do { e \<leftarrow> entry_at n i; a \<leftarrow> child_of e; Some (Some a) });
          moveToKey s child k c (l + 1) } }
      else None)"
  by pat_completeness auto
termination
  by (relation "measure (\<lambda>(s, p, k, c, l). nat (int MAX_TREE_DEPTH - l))") auto

declare moveToKey.simps [simp del]

function moveToFirst :: "'r Relation \<Rightarrow> cptr \<Rightarrow> Cursor \<Rightarrow> int \<Rightarrow> Cursor option" where
  "moveToFirst s p c l =
     (if 0 \<le> l \<and> l < int MAX_TREE_DEPTH then do {
        c \<leftarrow> set_ancestor c l p;
        let c = c\<lparr>level := l\<rparr>;
        n \<leftarrow> node_at s p;
        if isLeaf n then set_index c l 0
        else do {
          c \<leftarrow> set_index c l (-1);
          moveToFirst s (ptr0 n) c (l + 1) } }
      else None)"
  by pat_completeness auto
termination
  by (relation "measure (\<lambda>(s, p, c, l). nat (int MAX_TREE_DEPTH - l))") auto

declare moveToFirst.simps [simp del]

text \<open>\<^verbatim>\<open>moveToLast\<close> of this version descends with \<^verbatim>\<open>moveToFirst\<close> below an interior node.\<close>

definition moveToLast :: "'r Relation \<Rightarrow> cptr \<Rightarrow> Cursor \<Rightarrow> int \<Rightarrow> Cursor option" where
  "moveToLast s p c l = do {
     assert_c (p \<noteq> None);
     assert_c (0 \<le> l);
     c \<leftarrow> set_ancestor c l p;
     let c = c\<lparr>level := l\<rparr>;
     n \<leftarrow> node_at s p;
     if isLeaf n then set_index c l (int (numKeys n))
     else do {
       c \<leftarrow> set_index c l (int (numKeys n) - 1);
       e \<leftarrow> entry_at n (int (numKeys n) - 1);
       a \<leftarrow> child_of e;
       moveToFirst s (Some a) c (l + 1) } }"

section \<open>Creating relations and cursors\<close>

definition createNewNode :: "'r Relation \<Rightarrow> bool \<Rightarrow> bool \<Rightarrow> bool \<Rightarrow> cptr \<times> 'r Relation" where
  "createNewNode s leaf fl ll =
     (let a = brk s; s = s\<lparr>brk := Suc a\<rparr> in
      if avail s a then
        (Some a, set_node s a \<lparr>isLeaf = leaf, FirstLeaf = fl, LastLeaf = ll, numKeys = 0,
                              ptr0 = None, entries = replicate FANOUT None\<rparr>)
      else (None, s))"

definition RL_NewRelation :: "(addr \<Rightarrow> bool) \<Rightarrow> 'r Relation option" where
  "RL_NewRelation ok =
     (let s = \<lparr>nodes = Map.empty, brk = 0, avail = ok, root = None, numRecords = 0, depth = 0\<rparr>;
          (pRootNode, s) = createNewNode s True True True
      in case pRootNode of
           None \<Rightarrow> None
         | Some a \<Rightarrow>
             if avail s (brk s)
             then Some (s\<lparr>brk := Suc (brk s), root := Some a, numRecords := 0, depth := 0\<rparr>)
             else None)"

text \<open>
  \<^verbatim>\<open>RL_NewCursor\<close>: \<open>Some (None, s)\<close> is the \<^verbatim>\<open>NULL\<close> result. The arrays of the fresh struct are
  written up to the leaf level by \<^verbatim>\<open>moveToFirst\<close> and cleared above it by the loop.
\<close>

definition clear_above :: "Cursor \<Rightarrow> Cursor" where
  "clear_above c = fold (\<lambda>i c. c\<lparr>ancestorsIdx := (ancestorsIdx c)[i := 0],
                                ancestors := (ancestors c)[i := None]\<rparr>)
                     [nat (level c + 1)..<MAX_TREE_DEPTH] c"

definition RL_NewCursor :: "'r Relation \<Rightarrow> (Cursor option \<times> 'r Relation) option" where
  "RL_NewCursor s =
     (let a = brk s; s = s\<lparr>brk := Suc a\<rparr> in
      if \<not> avail s a then Some (None, s)
      else do {
        c \<leftarrow> moveToFirst s (root s)
               \<lparr>level = -1, ancestorsIdx = replicate MAX_TREE_DEPTH 0,
                ancestors = replicate MAX_TREE_DEPTH None\<rparr> 0;
        Some (Some (clear_above c), s) })"

definition RL_CursorIsValid :: "'r Relation \<Rightarrow> Cursor \<Rightarrow> bool option" where
  "RL_CursorIsValid s c = isValid s c"

section \<open>Moving to a key\<close>

definition isNodeParent :: "'r BtNode \<Rightarrow> Key \<Rightarrow> bool option" where
  "isNodeParent n k = do {
     idx \<leftarrow> findChildIndex n k;
     Some (if idx = -1 \<or> idx = int (numKeys n) - 1 then False else True) }"

function AscendToParent :: "'r Relation \<Rightarrow> Cursor \<Rightarrow> Key \<Rightarrow> Cursor option" where
  "AscendToParent s c k =
     (if level c = 0 then Some c
      else if level c < 0 then None
      else do {
        n \<leftarrow> node_at s (currNode c);
        if isLeaf n then do {
          lowest \<leftarrow> entry_at n 0;
          highest \<leftarrow> entry_at n (int (numKeys n) - 1);
          if (k \<ge> ekey lowest \<and> k \<le> ekey highest) \<or>
             (k \<ge> ekey lowest \<and> LastLeaf n) \<or>
             (k \<le> ekey highest \<and> FirstLeaf n)
          then Some c
          else AscendToParent s (c\<lparr>level := level c - 1\<rparr>) k }
        else do {
          b \<leftarrow> isNodeParent n k;
          if b then Some c
          else AscendToParent s (c\<lparr>level := level c - 1\<rparr>) k } })"
  by pat_completeness auto
termination
  by (relation "measure (\<lambda>(s, c, k). nat (level c))") auto

declare AscendToParent.simps [simp del]

definition goToKey :: "'r Relation \<Rightarrow> Cursor \<Rightarrow> Key \<Rightarrow> Cursor option" where
  "goToKey s c k = do {
     c \<leftarrow> AscendToParent s c k;
     moveToKey s (currNode c) k c (level c) }"

section \<open>Moving to the next and the previous position\<close>

definition lastpointer :: "bool \<Rightarrow> nat \<Rightarrow> int" where
  "lastpointer leaf n = (if leaf then int n else int n - 1)"

definition firstpointer :: "bool \<Rightarrow> int" where
  "firstpointer leaf = (if leaf then 0 else -1)"

text \<open>The two \<^verbatim>\<open>while\<close> loops that ascend.\<close>

function ascend_last :: "'r Relation \<Rightarrow> Cursor \<Rightarrow> Cursor option" where
  "ascend_last s c =
     (if level c > 0 then do {
        i \<leftarrow> entryIndex c;
        n \<leftarrow> node_at s (currNode c);
        if i = lastpointer (isLeaf n) (numKeys n)
        then ascend_last s (c\<lparr>level := level c - 1\<rparr>)
        else Some c }
      else Some c)"
  by pat_completeness auto
termination
  by (relation "measure (\<lambda>(s, c). nat (level c))") auto

declare ascend_last.simps [simp del]

function ascend_first :: "'r Relation \<Rightarrow> Cursor \<Rightarrow> Cursor option" where
  "ascend_first s c =
     (if level c > 0 then do {
        i \<leftarrow> entryIndex c;
        n \<leftarrow> node_at s (currNode c);
        if i = firstpointer (isLeaf n)
        then ascend_first s (c\<lparr>level := level c - 1\<rparr>)
        else Some c }
      else Some c)"
  by pat_completeness auto
termination
  by (relation "measure (\<lambda>(s, c). nat (level c))") auto

declare ascend_first.simps [simp del]

definition moveToNext :: "'r Relation \<Rightarrow> Cursor \<Rightarrow> Cursor option" where
  "moveToNext s c =
     (if numRecords s = 0 then Some c
      else do {
        valid \<leftarrow> isValid s c;
        if \<not> valid then Some c
        else do {
          c \<leftarrow> ascend_last s c;
          i \<leftarrow> entryIndex c;
          c \<leftarrow> set_index c (level c) (i + 1);
          n \<leftarrow> node_at s (currNode c);
          if isLeaf n then Some c
          else do {
            e \<leftarrow> entry_at n (i + 1);
            a \<leftarrow> child_of e;
            moveToFirst s (Some a) c (level c + 1) } } })"

definition moveToPrev :: "'r Relation \<Rightarrow> Cursor \<Rightarrow> Cursor option" where
  "moveToPrev s c =
     (if numRecords s = 0 then Some c
      else do {
        atFirst \<leftarrow> isFirst s c;
        if atFirst then Some c
        else do {
          c \<leftarrow> ascend_first s c;
          i \<leftarrow> entryIndex c;
          c \<leftarrow> set_index c (level c) (i - 1);
          n \<leftarrow> node_at s (currNode c);
          if isLeaf n then Some c
          else do {
            e \<leftarrow> entry_at n (i - 1);
            a \<leftarrow> child_of e;
            moveToLast s (Some a) c (level c + 1) } } })"

definition RL_MoveToNext :: "'r Relation \<Rightarrow> Cursor \<Rightarrow> Cursor option" where
  "RL_MoveToNext s c = do {
     i \<leftarrow> entryIndex c;
     n \<leftarrow> node_at s (currNode c);
     c \<leftarrow> (if i = int (numKeys n) then moveToNext s c else Some c);
     moveToNext s c }"

definition RL_MoveToPrevious :: "'r Relation \<Rightarrow> Cursor \<Rightarrow> Cursor option" where
  "RL_MoveToPrevious s c = do {
     i \<leftarrow> entryIndex c;
     c \<leftarrow> (if i = 0 then moveToPrev s c else Some c);
     moveToPrev s c }"

definition RL_MoveToNextValid :: "'r Relation \<Rightarrow> Cursor \<Rightarrow> (bool \<times> Cursor) option" where
  "RL_MoveToNextValid s c = do {
     c \<leftarrow> RL_MoveToNext s c;
     b \<leftarrow> RL_CursorIsValid s c;
     Some (b, c) }"

definition RL_MoveToPreviousNotFirst :: "'r Relation \<Rightarrow> Cursor \<Rightarrow> (bool \<times> Cursor) option" where
  "RL_MoveToPreviousNotFirst s c = do {
     c \<leftarrow> RL_MoveToPrevious s c;
     b \<leftarrow> isFirst s c;
     Some (\<not> b, c) }"

definition RL_MoveToFirst :: "'r Relation \<Rightarrow> Cursor \<Rightarrow> (bool \<times> Cursor) option" where
  "RL_MoveToFirst s c = do {
     c \<leftarrow> moveToFirst s (root s) (c\<lparr>level := -1\<rparr>) 0;
     b \<leftarrow> isValid s c;
     Some (b, c) }"

section \<open>Reading at a cursor\<close>

text \<open>Both reads move a cursor at the end of a leaf to the equivalent next position.\<close>

definition settle :: "'r Relation \<Rightarrow> Cursor \<Rightarrow> Cursor option" where
  "settle s c = do {
     b \<leftarrow> isValid s c;
     assert_c b;
     i \<leftarrow> entryIndex c;
     n \<leftarrow> node_at s (currNode c);
     if i = int (numKeys n) then moveToNext s c else Some c }"

definition RL_GetRecord :: "'r Relation \<Rightarrow> Cursor \<Rightarrow> ('r \<times> Cursor) option" where
  "RL_GetRecord s c = do {
     c \<leftarrow> settle s c;
     n \<leftarrow> node_at s (currNode c);
     i \<leftarrow> entryIndex c;
     e \<leftarrow> entry_at n i;
     r \<leftarrow> record_of e;
     Some (r, c) }"

definition RL_GetKey :: "'r Relation \<Rightarrow> Cursor \<Rightarrow> (Key \<times> Cursor) option" where
  "RL_GetKey s c = do {
     c \<leftarrow> settle s c;
     n \<leftarrow> node_at s (currNode c);
     i \<leftarrow> entryIndex c;
     e \<leftarrow> entry_at n i;
     Some (ekey e, c) }"

definition RL_MoveToKey :: "'r Relation \<Rightarrow> Cursor \<Rightarrow> Key \<Rightarrow> (bool \<times> Cursor) option" where
  "RL_MoveToKey s c k = do {
     c \<leftarrow> goToKey s c k;
     valid \<leftarrow> isValid s c;
     if \<not> valid then Some (False, c)
     else do {
       (k', c) \<leftarrow> RL_GetKey s c;
       if k' = k then Some (True, c) else Some (False, c) } }"

definition RL_IsEmpty :: "'r Relation \<Rightarrow> bool option" where
  "RL_IsEmpty s = do { n \<leftarrow> node_at s (root s); Some (if numKeys n = 0 then True else False) }"

definition RL_NumRecords :: "'r Relation \<Rightarrow> u64" where
  "RL_NumRecords s = numRecords s"

text \<open>The body of \<^verbatim>\<open>RL_DeleteRecord\<close> is commented out: it returns \<^verbatim>\<open>False\<close> and changes nothing.\<close>

definition RL_DeleteRecord :: "'r Relation \<Rightarrow> Cursor \<Rightarrow> Key \<Rightarrow> bool \<times> 'r Relation \<times> Cursor" where
  "RL_DeleteRecord s c k = (False, s, c)"

section \<open>Inserting\<close>

text \<open>The loop that lists the \<open>FANOUT + 1\<close> entries of a full node and the new entry, in order:
  \<open>j\<close> runs over the entries of the node, \<open>inserted\<close> records that the new entry was placed.\<close>

fun allEntries_loop :: "nat \<Rightarrow> 'r Entry option list \<Rightarrow> 'r Entry \<Rightarrow> int \<Rightarrow> nat \<Rightarrow> bool \<Rightarrow> 'r Entry option list option" where
  "allEntries_loop 0 es e tgtIdx j inserted = Some []"
| "allEntries_loop (Suc m) es e tgtIdx j inserted =
     (if \<not> inserted \<and> int j = tgtIdx
      then do { r \<leftarrow> allEntries_loop m es e tgtIdx j True; Some (Some e # r) }
      else do { x \<leftarrow> array_at es (int j);
                r \<leftarrow> allEntries_loop m es e tgtIdx (Suc j) inserted; Some (x # r) })"

text \<open>The loops that copy \<open>allEntries[i]\<close>, for \<open>i\<close> from \<open>a\<close> to \<open>b - 1\<close>, to \<open>entries[i - d]\<close>.\<close>

definition copy_entries ::
  "nat \<Rightarrow> nat \<Rightarrow> nat \<Rightarrow> 'r Entry option list \<Rightarrow> 'r Entry option list \<Rightarrow> 'r Entry option list" where
  "copy_entries a b d all es = fold (\<lambda>i es. es[i - d := all ! i]) [a..<b] es"

text \<open>
  \<^verbatim>\<open>splitnode\<close>: the node at address \<open>a\<close> is full. The result is the entry for the parent and
  the new state.
\<close>

definition splitnode :: "'r Relation \<Rightarrow> cptr \<Rightarrow> 'r Entry \<Rightarrow> bool \<Rightarrow> ('r Entry \<times> 'r Relation) option" where
  "splitnode s p entry leaf = do {
     a \<leftarrow> p;
     node \<leftarrow> nodes s a;
     let middle = (FANOUT + 1) div 2;
     tgtIdx \<leftarrow> findRecordIndex node (ekey entry);
     allEntries \<leftarrow> allEntries_loop (FANOUT + 1) (entries node) entry tgtIdx 0 False;
     let node = (if tgtIdx < int middle
                 then node\<lparr>entries := copy_entries (nat tgtIdx) middle 0 allEntries (entries node)\<rparr>
                 else node);
     let node = node\<lparr>numKeys := middle\<rparr>;
     let (newp, s) = createNewNode (set_node s a node) leaf False False;
     b \<leftarrow> newp;
     newNode \<leftarrow> nodes s b;
     let (node, newNode) = (if LastLeaf node
                            then (node\<lparr>LastLeaf := False\<rparr>, newNode\<lparr>LastLeaf := True\<rparr>)
                            else (node, newNode));
     let startIdx = (if leaf then middle else middle + 1);
     let newNode = newNode\<lparr>entries := copy_entries startIdx (FANOUT + 1) startIdx allEntries
                                               (entries newNode)\<rparr>;
     let newNode = newNode\<lparr>numKeys := FANOUT + 1 - startIdx\<rparr>;
     if leaf then do {
       e \<leftarrow> allEntries ! startIdx;
       Some (\<lparr>ekey = ekey e, eptr = Child b\<rparr>, set_node (set_node s a node) b newNode) }
     else do {
       e \<leftarrow> allEntries ! (startIdx - 1);
       q \<leftarrow> child_of e;
       Some (\<lparr>ekey = ekey e, eptr = Child b\<rparr>,
             set_node (set_node s a node) b (newNode\<lparr>ptr0 := Some q\<rparr>)) } }"

text \<open>The loop that moves the entries from \<open>tgtIdx\<close> on one place to the right.\<close>

fun shift_right :: "'r Entry option list \<Rightarrow> nat \<Rightarrow> int \<Rightarrow> 'r Entry option list option" where
  "shift_right es 0 tgtIdx = Some es"
| "shift_right es (Suc i) tgtIdx =
     (if int (Suc i) > tgtIdx
      then do { x \<leftarrow> array_at es (int i);
                es \<leftarrow> array_set es (int (Suc i)) x;
                shift_right es i tgtIdx }
      else Some es)"

definition insert_entry :: "'r BtNode \<Rightarrow> int \<Rightarrow> 'r Entry \<Rightarrow> 'r BtNode option" where
  "insert_entry n tgtIdx e = do {
     es \<leftarrow> shift_right (entries n) (numKeys n) tgtIdx;
     es \<leftarrow> array_set es tgtIdx (Some e);
     Some (n\<lparr>entries := es, numKeys := numKeys n + 1\<rparr>) }"

lemma currNode_level: "currNode c = Some a \<Longrightarrow> 0 \<le> level c"
  by (auto simp: currNode_def array_at_def split: if_splits)

function putEntry :: "'r Relation \<Rightarrow> Cursor \<Rightarrow> int \<Rightarrow> 'r Entry \<Rightarrow> Key \<Rightarrow> ('r Relation \<times> Cursor) option" where
  "putEntry s c l newEntry k =
     (if l = -1 then do {
        let (p, s) = createNewNode s False False False;
        a \<leftarrow> p;
        n \<leftarrow> nodes s a;
        es \<leftarrow> array_set (entries n) 0 (Some newEntry);
        let s = set_node s a (n\<lparr>ptr0 := root s, numKeys := 1, entries := es\<rparr>);
        let s = s\<lparr>root := Some a, depth := depth s + 1, numRecords := numRecords s + 1\<rparr>;
        c \<leftarrow> set_ancestor c 0 (Some a);
        c \<leftarrow> moveToKey s (Some a) k c 0;
        Some (s, c) }
      else do {
        a \<leftarrow> currNode c;
        n \<leftarrow> nodes s a;
        if isLeaf n then do {
          i \<leftarrow> entryIndex c;
          found \<leftarrow> (if i < int (numKeys n) then do {
                       e \<leftarrow> entry_at n i; Some (ekey e = ekey newEntry) } else Some False);
          if found then do {
            e \<leftarrow> entry_at n i;
            es \<leftarrow> array_set (entries n) i (Some (e\<lparr>eptr := eptr newEntry\<rparr>));
            Some (set_node s a (n\<lparr>entries := es\<rparr>), c) }
          else if numKeys n < FANOUT then do {
            n \<leftarrow> insert_entry n i newEntry;
            let s = set_node s a n;
            Some (s\<lparr>numRecords := numRecords s + 1\<rparr>, c) }
          else do {
            (newEntry, s) \<leftarrow> splitnode s (currNode c) newEntry True;
            putEntry s (c\<lparr>level := level c - 1\<rparr>) (l - 1) newEntry k } }
        else if numKeys n < FANOUT then do {
          i \<leftarrow> array_at (ancestorsIdx c) l;
          n \<leftarrow> insert_entry n (i + 1) newEntry;
          let s = set_node s a n;
          let s = s\<lparr>numRecords := numRecords s + 1\<rparr>;
          c \<leftarrow> moveToKey s (currNode c) k c l;
          Some (s, c) }
        else do {
          (newEntry, s) \<leftarrow> splitnode s (currNode c) newEntry False;
          putEntry s (c\<lparr>level := level c - 1\<rparr>) (l - 1) newEntry k } })"
  by pat_completeness auto
termination
  by (relation "measure (\<lambda>(s, c, l, e, k). nat (level c + 1))") (auto dest: currNode_level)

declare putEntry.simps [simp del]

definition RL_PutRecord :: "'r Relation \<Rightarrow> Cursor \<Rightarrow> Key \<Rightarrow> 'r \<Rightarrow> ('r Relation \<times> Cursor) option" where
  "RL_PutRecord s c k r = do {
     c \<leftarrow> goToKey s c k;
     (s, c) \<leftarrow> putEntry s c (level c) \<lparr>ekey = k, eptr = Record r\<rparr> k;
     c \<leftarrow> RL_MoveToNext s c;
     Some (s, c) }"

end
