(* ===== verification/BTree_Abs.thy ===== *)
theory BTree_Abs
  imports BTree_Model "HOL-Library.Multiset"
begin

text \<open>
  Abstract B+-trees: the shape of the node graph of a relation, each node labelled with its
  address. The invariant has four parts (key order, balance, node sizes, distinct addresses);
  \<open>ins\<close> is insertion as a recursion from the root, which the code's bottom-up \<open>putEntry\<close> is shown
  to implement, and this theory proves what it does to the contents and to each part of the
  invariant.
\<close>

section \<open>Trees and their invariant\<close>

text \<open>A leaf has its records; an interior node has \<open>n\<close> separators and \<open>n + 1\<close> children.\<close>

datatype 'r btree = Lf addr "(Key \<times> 'r) list" | Nd addr "Key list" "'r btree list"

fun root_addr :: "'r btree \<Rightarrow> addr" where
  "root_addr (Lf a kvs) = a"
| "root_addr (Nd a ks ts) = a"

fun addr_list :: "'r btree \<Rightarrow> addr list" where
  "addr_list (Lf a kvs) = [a]"
| "addr_list (Nd a ks ts) = a # concat (map addr_list ts)"

fun contents :: "'r btree \<Rightarrow> (Key \<times> 'r) list" where
  "contents (Lf a kvs) = kvs"
| "contents (Nd a ks ts) = concat (map contents ts)"

text \<open>All keys of a tree, those of its records and its separators.\<close>

fun allkeys :: "'r btree \<Rightarrow> Key set" where
  "allkeys (Lf a kvs) = fst ` set kvs"
| "allkeys (Nd a ks ts) = set ks \<union> (\<Union>t\<in>set ts. allkeys t)"

fun ordered :: "'r btree \<Rightarrow> bool" where
  "ordered (Lf a kvs) = strict_sorted (keys_of kvs)"
| "ordered (Nd a ks ts) =
     (strict_sorted ks \<and>
      (\<forall>i<length ks. (\<forall>x\<in>allkeys (ts ! i). x < ks ! i) \<and> (\<forall>x\<in>allkeys (ts ! Suc i). ks ! i \<le> x)) \<and>
      (\<forall>t\<in>set ts. ordered t))"

fun bal :: "nat \<Rightarrow> 'r btree \<Rightarrow> bool" where
  "bal h (Lf a kvs) = (h = 0)"
| "bal h (Nd a ks ts) = (\<exists>h'. h = Suc h' \<and> (\<forall>t\<in>set ts. bal h' t))"

fun wf_size :: "bool \<Rightarrow> 'r btree \<Rightarrow> bool" where
  "wf_size r (Lf a kvs) = (length kvs \<le> FANOUT \<and> (r \<or> 8 \<le> length kvs))"
| "wf_size r (Nd a ks ts) =
     (length ts = Suc (length ks) \<and> length ks \<le> FANOUT \<and> (if r then 1 else 7) \<le> length ks \<and>
      (\<forall>t\<in>set ts. wf_size False t))"

section \<open>Insertion from the root\<close>

datatype 'r ins_res = Done "'r btree" | Split "'r btree" Key "'r btree"

text \<open>\<open>b\<close> is the address the next call of \<^verbatim>\<open>malloc\<close> returns.\<close>

definition put_at :: "nat \<Rightarrow> 'a \<Rightarrow> 'a list \<Rightarrow> 'a list" where
  "put_at j x xs = take j xs @ x # drop j xs"

definition split_child :: "nat \<Rightarrow> 'a \<Rightarrow> 'a \<Rightarrow> 'a list \<Rightarrow> 'a list" where
  "split_child j x y xs = take j xs @ x # y # drop (Suc j) xs"

function ins :: "addr \<Rightarrow> Key \<Rightarrow> 'r \<Rightarrow> 'r btree \<Rightarrow> 'r ins_res \<times> addr" where
  "ins b k r (Lf a kvs) =
     (let es = ins_list k r kvs in
      if length es \<le> FANOUT then (Done (Lf a es), b)
      else (Split (Lf a (take 8 es)) (fst (es ! 8)) (Lf b (drop 8 es)), Suc b))"
| "ins b k r (Nd a ks ts) =
     (if upto_key k ks < length ts then
        (case ins b k r (ts ! upto_key k ks) of
           (Done t', b') \<Rightarrow> (Done (Nd a ks (ts[upto_key k ks := t'])), b')
         | (Split t1 s t2, b') \<Rightarrow>
             let ks' = put_at (upto_key k ks) s ks; ts' = split_child (upto_key k ks) t1 t2 ts in
             if length ks < FANOUT then (Done (Nd a ks' ts'), b')
             else (Split (Nd a (take 8 ks') (take 9 ts')) (ks' ! 8) (Nd b' (drop 9 ks') (drop 9 ts')),
                   Suc b'))
      else (Done (Nd a ks ts), b))"
  by pat_completeness auto
termination
  by (relation "measure (\<lambda>(b, k, r, t). size t)") (auto simp: less_Suc_eq_le intro!: size_list_estimation' nth_mem)

fun res_contents :: "'r ins_res \<Rightarrow> (Key \<times> 'r) list" where
  "res_contents (Done t) = contents t"
| "res_contents (Split t1 s t2) = contents t1 @ contents t2"

fun res_keys :: "'r ins_res \<Rightarrow> Key set" where
  "res_keys (Done t) = allkeys t"
| "res_keys (Split t1 s t2) = allkeys t1 \<union> {s} \<union> allkeys t2"

fun res_addrs :: "'r ins_res \<Rightarrow> addr list" where
  "res_addrs (Done t) = addr_list t"
| "res_addrs (Split t1 s t2) = addr_list t1 @ addr_list t2"

fun res_ordered :: "'r ins_res \<Rightarrow> bool" where
  "res_ordered (Done t) = ordered t"
| "res_ordered (Split t1 s t2) =
     (ordered t1 \<and> ordered t2 \<and> (\<forall>x\<in>allkeys t1. x < s) \<and> (\<forall>x\<in>allkeys t2. s \<le> x))"

fun res_bal :: "nat \<Rightarrow> 'r ins_res \<Rightarrow> bool" where
  "res_bal h (Done t) = bal h t"
| "res_bal h (Split t1 s t2) = (bal h t1 \<and> bal h t2)"

fun res_size :: "bool \<Rightarrow> 'r ins_res \<Rightarrow> bool" where
  "res_size r (Done t) = wf_size r t"
| "res_size r (Split t1 s t2) = (wf_size False t1 \<and> wf_size False t2)"

section \<open>Lists of separators and children\<close>

lemma length_put_at [simp]: "j \<le> length xs \<Longrightarrow> length (put_at j x xs) = Suc (length xs)"
  by (simp add: put_at_def)

lemma length_split_child [simp]: "j < length xs \<Longrightarrow> length (split_child j x y xs) = Suc (length xs)"
  by (simp add: split_child_def)

lemma nth_put_at:
  "j \<le> length xs \<Longrightarrow> i \<le> length xs \<Longrightarrow>
   put_at j x xs ! i = (if i < j then xs ! i else if i = j then x else xs ! (i - 1))"
  by (auto simp: put_at_def nth_append nth_Cons' min_def)

lemma nth_split_child:
  "j < length xs \<Longrightarrow> i \<le> length xs \<Longrightarrow>
   split_child j x y xs ! i =
     (if i < j then xs ! i else if i = j then x else if i = Suc j then y else xs ! (i - 1))"
  by (auto simp: split_child_def nth_append nth_Cons' min_def intro!: arg_cong [where f = "(!) xs"])

lemma set_put_at: "set (put_at j x xs) = insert x (set xs)"
  by (metis append_take_drop_id insert_is_Un list.simps(15) put_at_def set_append sup_left_commute)

lemma split_at_nth: "j < length xs \<Longrightarrow> xs = take j xs @ xs ! j # drop (Suc j) xs"
  by (rule id_take_nth_drop)

lemma child_bounds:
  assumes "length ts = Suc (length ks)"
  shows "upto_key k ks < length ts"
  using assms upto_key_le_length [of k ks] by simp

lemma concat_map_split_child:
  "concat (map f (split_child j x y xs)) =
   concat (map f (take j xs)) @ f x @ f y @ concat (map f (drop (Suc j) xs))"
  by (simp add: split_child_def)

lemma concat_map_nth:
  assumes "j < length xs"
  shows "concat (map f xs) = concat (map f (take j xs)) @ f (xs ! j) @ concat (map f (drop (Suc j) xs))"
  by (subst split_at_nth [OF assms]) simp

lemma concat_map_update:
  assumes "j < length xs"
  shows "concat (map f (xs[j := y])) = concat (map f (take j xs)) @ f y @ concat (map f (drop (Suc j) xs))"
  using assms by (simp add: upd_conv_take_nth_drop)

lemma set_children_cases:
  assumes "j < length ts" "t \<in> set ts"
  shows "t = ts ! j \<or> t \<in> set (take j ts) \<or> t \<in> set (drop (Suc j) ts)"
  using assms by (metis Un_iff set_ConsD set_append split_at_nth)

section \<open>Keys and contents\<close>

lemma contents_keys_subset: "fst ` set (contents t) \<subseteq> allkeys t"
  by (induction t) auto

lemma sep_le:
  assumes "ordered (Nd a ks ts)" "length ts = Suc (length ks)" "i < j" "j \<le> length ks" "x \<in> allkeys (ts ! i)"
  shows "x < ks ! (j - 1)"
proof -
  have "x < ks ! i" using assms by auto
  also have "ks ! i \<le> ks ! (j - 1)"
    using assms by (cases "i = j - 1") (auto dest!: sorted_wrt_nth_less [of "(<)" ks i "j - 1"] intro: less_imp_le)
  finally show ?thesis .
qed

lemma sep_ge:
  assumes "ordered (Nd a ks ts)" "length ts = Suc (length ks)" "j < i" "i \<le> length ks" "x \<in> allkeys (ts ! i)"
  shows "ks ! j \<le> x"
proof -
  have "ks ! (i - 1) \<le> x" using assms(1)
    using assms(2-) by (auto dest!: spec [of _ "i - 1"])
  moreover have "ks ! j \<le> ks ! (i - 1)"
    using assms by (cases "j = i - 1") (auto dest!: sorted_wrt_nth_less [of "(<)" ks j "i - 1"] intro: less_imp_le)
  ultimately show ?thesis by simp
qed

text \<open>Relative to a search key, the children left of its route hold smaller keys only, the
  children right of it larger keys only.\<close>

lemma left_of_route:
  assumes "ordered (Nd a ks ts)" "length ts = Suc (length ks)" "t \<in> set (take (upto_key k ks) ts)"
    and "x \<in> allkeys t"
  shows "x < k"
proof -
  let ?j = "upto_key k ks"
  obtain i where i: "i < ?j" "i < length ts" "t = ts ! i"
    using assms(3) by (auto simp: in_set_conv_nth)
  have "x < ks ! (?j - 1)"
    using sep_le [OF assms(1,2) i(1) upto_key_le_length] assms(4) i(3) by simp
  also have "\<dots> \<le> k" using i by (intro nth_le_upto_key) auto
  finally show ?thesis .
qed

lemma right_of_route:
  assumes "ordered (Nd a ks ts)" "length ts = Suc (length ks)" "t \<in> set (drop (Suc (upto_key k ks)) ts)"
    and "x \<in> allkeys t"
  shows "k < x"
proof -
  let ?j = "upto_key k ks"
  obtain i where "i < length (drop (Suc ?j) ts)" "t = drop (Suc ?j) ts ! i"
    using assms(3) by (metis in_set_conv_nth)
  then have i: "Suc ?j + i < length ts" "t = ts ! (Suc ?j + i)"
    by auto
  have "ks ! ?j \<le> x"
    by (rule sep_ge [OF assms(1,2), of ?j "Suc ?j + i"]) (use i assms in auto)
  moreover have "k < ks ! ?j" using i assms(2) by (intro nth_upto_key_gt) auto
  ultimately show ?thesis by simp
qed

lemma keys_left_of_route:
  assumes "ordered (Nd a ks ts)" "length ts = Suc (length ks)"
  shows "\<forall>x\<in>set (keys_of (concat (map contents (take (upto_key k ks) ts)))). x < k"
  using left_of_route [OF assms] contents_keys_subset by fastforce

lemma keys_right_of_route:
  assumes "ordered (Nd a ks ts)" "length ts = Suc (length ks)"
  shows "\<forall>x\<in>set (keys_of (concat (map contents (drop (Suc (upto_key k ks)) ts)))). k < x"
  using right_of_route [OF assms] contents_keys_subset by fastforce

lemma strict_sorted_concat:
  assumes "\<forall>t\<in>set ts. strict_sorted (keys_of (contents t))"
    and "\<And>i j. i < j \<Longrightarrow> j < length ts \<Longrightarrow>
          \<forall>x\<in>fst ` set (contents (ts ! i)). \<forall>y\<in>fst ` set (contents (ts ! j)). x < y"
  shows "strict_sorted (keys_of (concat (map contents ts)))"
  using assms
proof (induction ts)
  case (Cons t ts)
  have "strict_sorted (keys_of (concat (map contents ts)))"
  proof (rule Cons.IH)
    show "\<forall>t\<in>set ts. strict_sorted (keys_of (contents t))" using Cons.prems(1) by simp
    fix i j assume "i < j" "j < length ts"
    then show "\<forall>x\<in>fst ` set (contents (ts ! i)). \<forall>y\<in>fst ` set (contents (ts ! j)). x < y"
      using Cons.prems(2) [of "Suc i" "Suc j"] by simp
  qed
  moreover have "\<forall>x\<in>set (keys_of (contents t)). \<forall>y\<in>set (keys_of (concat (map contents ts))). x < y"
  proof (intro ballI)
    fix x y assume x: "x \<in> set (keys_of (contents t))" and y: "y \<in> set (keys_of (concat (map contents ts)))"
    from y obtain t' where "t' \<in> set ts" "y \<in> fst ` set (contents t')" by auto
    then obtain j where "j < length ts" "y \<in> fst ` set (contents (ts ! j))"
      by (metis in_set_conv_nth)
    then show "x < y" using Cons.prems(2) [of 0 "Suc j"] x by auto
  qed
  ultimately show ?case using Cons.prems(1) by (simp add: sorted_wrt_append)
qed simp

lemma sorted_contents:
  "ordered t \<Longrightarrow> wf_size r t \<Longrightarrow> strict_sorted (keys_of (contents t))"
proof (induction t arbitrary: r)
  case (Nd a ks ts)
  have len: "length ts = Suc (length ks)" using Nd.prems by simp
  show ?case unfolding contents.simps
  proof (rule strict_sorted_concat)
    show "\<forall>t\<in>set ts. strict_sorted (keys_of (contents t))"
      using Nd.IH Nd.prems by auto
    fix i j assume ij: "i < j" "j < length ts"
    show "\<forall>x\<in>fst ` set (contents (ts ! i)). \<forall>y\<in>fst ` set (contents (ts ! j)). x < y"
    proof (intro ballI)
      fix x y assume "x \<in> fst ` set (contents (ts ! i))" "y \<in> fst ` set (contents (ts ! j))"
      then have xy: "x \<in> allkeys (ts ! i)" "y \<in> allkeys (ts ! j)"
        using contents_keys_subset by blast+
      have "x < ks ! (j - 1)" using sep_le [OF Nd.prems(1) len ij(1)] ij(2) len xy(1) by simp
      also have "\<dots> \<le> y" using sep_ge [OF Nd.prems(1) len, of "j - 1" j y] ij len xy(2) by simp
      finally show "x < y" .
    qed
  qed
qed simp

end
