(* ===== verification/BTree_Ins.thy ===== *)
theory BTree_Ins
  imports BTree_Abs
begin

text \<open>
  What insertion from the root does to a tree: the contents, the keys, the addresses, and each
  part of the invariant.
\<close>

section \<open>Contents\<close>

lemma ins_contents:
  "ordered t \<Longrightarrow> wf_size rt t \<Longrightarrow> res_contents (fst (ins b k r t)) = ins_list k r (contents t)"
proof (induction b k r t arbitrary: rt rule: ins.induct)
  case (1 b k r a kvs)
  then show ?case by (simp add: Let_def)
next
  case (2 b k r a ks ts)
  let ?j = "upto_key k ks"
  have len: "length ts = Suc (length ks)" using "2.prems" by simp
  have j: "?j < length ts" by (rule child_bounds [OF len])
  have IH: "res_contents (fst (ins b k r (ts ! ?j))) = ins_list k r (contents (ts ! ?j))"
    by (rule "2.IH" [OF j, where rt = False]) (use "2.prems" j in auto)
  have ins: "ins_list k r (concat (map contents ts)) =
      concat (map contents (take ?j ts)) @ ins_list k r (contents (ts ! ?j)) @
      concat (map contents (drop (Suc ?j) ts))"
    by (subst concat_map_nth [OF j])
      (simp only: ins_list_append_right [OF keys_left_of_route [OF "2.prems"(1) len]]
        ins_list_append_left [OF keys_right_of_route [OF "2.prems"(1) len]])
  show ?case
  proof (cases "ins b k r (ts ! ?j)")
    case (Pair res b')
    show ?thesis
    proof (cases res)
      case (Done t')
      then show ?thesis using Pair j IH
        by (simp add: concat_map_update ins)
    next
      case (Split t1 s t2)
      have c: "concat (map contents (split_child ?j t1 t2 ts)) = ins_list k r (concat (map contents ts))"
        using IH Pair Split by (simp add: concat_map_split_child ins)
      have "concat (map contents (take n xs)) @ concat (map contents (drop n xs)) = concat (map contents xs)" for n xs
        by (metis append_take_drop_id concat_append map_append)
      from this [of 9 "split_child ?j t1 t2 ts"] show ?thesis using Pair Split j c by (simp add: Let_def)
    qed
  qed
qed

section \<open>Addresses\<close>

lemma mset_concat_addrs: "mset (concat (map addr_list ts)) = (\<Sum>t\<in>#mset ts. mset (addr_list t))"
  by (induction ts) auto

lemma ins_mono: "b \<le> snd (ins b k r t)"
  by (induction b k r t rule: ins.induct)
    (auto simp: Let_def split: ins_res.splits prod.splits)

lemma mset_set_add_last:
  assumes "b \<le> b'"
  shows "mset_set {b..<Suc b'} = add_mset b' (mset_set {b..<b'})"
proof -
  have "mset [b..<Suc b'] = add_mset b' (mset [b..<b'])" using assms by simp
  then show ?thesis by (simp only: mset_upt)
qed

lemma ins_addrs: "mset (res_addrs (fst (ins b k r t))) = mset (addr_list t @ [b..<snd (ins b k r t)])"
proof (induction b k r t rule: ins.induct)
  case (1 b k r a kvs)
  then show ?case by (simp add: Let_def)
next
  case (2 b k r a ks ts)
  let ?j = "upto_key k ks"
  show ?case
  proof (cases "?j < length ts")
    case False
    then show ?thesis by simp
  next
    case j: True
    note IH = "2.IH" [OF j]
    have le: "b \<le> snd (ins b k r (ts ! ?j))" by (rule ins_mono)
    show ?thesis
    proof (cases "ins b k r (ts ! ?j)")
      case (Pair res b')
      show ?thesis
      proof (cases res)
        case (Done t')
        then show ?thesis using Pair j IH
          by (simp add: concat_map_update concat_map_nth [OF j, of addr_list])
      next
        case (Split t1 s t2)
        have c: "mset (concat (map addr_list (split_child ?j t1 t2 ts))) =
                 mset (concat (map addr_list ts)) + mset [b..<b']"
          using IH Pair Split by (simp add: concat_map_split_child concat_map_nth [OF j, of addr_list])
        have tk: "mset (concat (map addr_list (take n xs))) + mset (concat (map addr_list (drop n xs))) =
                 mset (concat (map addr_list xs))" for n and xs :: "'r btree list"
          by (metis append_take_drop_id concat_append map_append mset_append)
        show ?thesis
          using Pair Split j c le tk [of 9 "split_child ?j t1 t2 ts"]
          by (simp add: Let_def ac_simps mset_set_add_last)
      qed
    qed
  qed
qed

lemma ins_addrs_set:
  "set (res_addrs (fst (ins b k r t))) = set (addr_list t) \<union> {b..<snd (ins b k r t)}"
  using arg_cong [OF ins_addrs [of b k r t], of set_mset] by simp

lemma ins_addrs_distinct:
  assumes "distinct (addr_list t)" "\<forall>a\<in>set (addr_list t). a < b"
  shows "distinct (res_addrs (fst (ins b k r t)))"
proof -
  have "distinct (addr_list t @ [b..<snd (ins b k r t)])" using assms by auto
  then show ?thesis using mset_eq_imp_distinct_iff [OF ins_addrs [of b k r t]] by simp
qed

section \<open>Balance and sizes\<close>

lemma all_split_child:
  assumes "\<forall>t\<in>set ts. P t" "P t1" "P t2"
  shows "\<forall>t\<in>set (split_child j t1 t2 ts). P t"
  using assms by (auto simp: split_child_def dest: in_set_takeD in_set_dropD)

lemma all_update: "\<forall>t\<in>set ts. P t \<Longrightarrow> P t' \<Longrightarrow> \<forall>t\<in>set (ts[j := t']). P t"
  using set_update_subset_insert [of ts j t'] by blast

lemma all_take_drop: "\<forall>t\<in>set xs. P t \<Longrightarrow> (\<forall>t\<in>set (take n xs). P t) \<and> (\<forall>t\<in>set (drop n xs). P t)"
  by (auto dest: in_set_takeD in_set_dropD)

lemma ins_bal: "bal h t \<Longrightarrow> res_bal h (fst (ins b k r t))"
proof (induction b k r t arbitrary: h rule: ins.induct)
  case (1 b k r a kvs)
  then show ?case by (simp add: Let_def)
next
  case (2 b k r a ks ts)
  let ?j = "upto_key k ks"
  obtain h' where h: "h = Suc h'" "\<forall>t\<in>set ts. bal h' t" using "2.prems" by auto
  show ?case
  proof (cases "?j < length ts")
    case False
    then show ?thesis using "2.prems" by simp
  next
    case j: True
    have IH: "res_bal h' (fst (ins b k r (ts ! ?j)))" by (rule "2.IH" [OF j]) (use h j in auto)
    show ?thesis
    proof (cases "ins b k r (ts ! ?j)")
      case (Pair res b')
      show ?thesis
      proof (cases res)
        case (Done t')
        then have "\<forall>t\<in>set (ts[?j := t']). bal h' t" using Pair IH h by (intro all_update) auto
        then show ?thesis using Pair Done j h by simp
      next
        case (Split t1 s t2)
        have "\<forall>t\<in>set (split_child ?j t1 t2 ts). bal h' t"
          using IH Pair Split h by (intro all_split_child) auto
        with all_take_drop [OF this, of 9] show ?thesis using Pair Split j h by (simp add: Let_def)
      qed
    qed
  qed
qed

lemma ins_size:
  "ordered t \<Longrightarrow> wf_size rt t \<Longrightarrow> res_size rt (fst (ins b k r t))"
proof (induction b k r t arbitrary: rt rule: ins.induct)
  case (1 b k r a kvs)
  then have "length (ins_list k r kvs) \<le> 16" "length kvs \<le> length (ins_list k r kvs)"
    by (auto simp: length_ins_list FANOUT_def)
  then show ?case using 1 by (auto simp: Let_def FANOUT_def)
next
  case (2 b k r a ks ts)
  let ?j = "upto_key k ks"
  have len: "length ts = Suc (length ks)" using "2.prems" by simp
  have j: "?j < length ts" by (rule child_bounds [OF len])
  have jk: "?j \<le> length ks" by (rule upto_key_le_length)
  have IH: "res_size False (fst (ins b k r (ts ! ?j)))"
    by (rule "2.IH" [OF j]) (use "2.prems" j in auto)
  show ?case
  proof (cases "ins b k r (ts ! ?j)")
    case (Pair res b')
    show ?thesis
    proof (cases res)
      case (Done t')
      then have "\<forall>t\<in>set (ts[?j := t']). wf_size False t" using Pair IH "2.prems" by (intro all_update) auto
      then show ?thesis using Pair Done j "2.prems" by simp
    next
      case (Split t1 s t2)
      have "\<forall>t\<in>set (split_child ?j t1 t2 ts). wf_size False t"
        using IH Pair Split "2.prems" by (intro all_split_child) auto
      note all_take_drop [OF this, of 9]
      moreover have "length ks - 7 = Suc (length ks - 8) \<and> 7 \<le> length ks - 8" if "\<not> length ks < FANOUT"
        using that "2.prems" by (simp add: FANOUT_def)
      moreover have "length ks - 8 \<le> 15" using "2.prems"(2) by (auto simp: FANOUT_def)
      ultimately show ?thesis using Pair Split j jk "2.prems" \<open>\<forall>t\<in>set (split_child ?j t1 t2 ts). wf_size False t\<close>
        by (simp add: Let_def FANOUT_def)
    qed
  qed
qed

section \<open>Keys and order\<close>

lemma ins_keys:
  "wf_size rt t \<Longrightarrow> ordered t \<Longrightarrow> res_keys (fst (ins b k r t)) = insert k (allkeys t)"
proof (induction b k r t arbitrary: rt rule: ins.induct)
  case (1 b k r a kvs)
  let ?es = "ins_list k r kvs"
  have set_es: "fst ` set ?es = insert k (fst ` set kvs)" by simp
  have "fst (?es ! 8) \<in> fst ` set ?es" if "8 < length ?es" using that by (intro imageI nth_mem)
  moreover have "set (take 8 ?es) \<union> set (drop 8 ?es) = set ?es"
    by (metis append_take_drop_id set_append)
  then have "fst ` set (take 8 ?es) \<union> fst ` set (drop 8 ?es) = fst ` set ?es"
    by (metis image_Un)
  ultimately show ?case using set_es by (auto simp: Let_def FANOUT_def)
next
  case (2 b k r a ks ts)
  let ?j = "upto_key k ks"
  have len: "length ts = Suc (length ks)" using "2.prems" by simp
  have j: "?j < length ts" by (rule child_bounds [OF len])
  have jk: "?j \<le> length ks" by (rule upto_key_le_length)
  have IH: "res_keys (fst (ins b k r (ts ! ?j))) = insert k (allkeys (ts ! ?j))"
    by (rule "2.IH" [OF j, where rt = False]) (use "2.prems" j in auto)
  have un: "(\<Union>t\<in>set ts. allkeys t) = (\<Union>t\<in>set (take ?j ts). allkeys t) \<union> allkeys (ts ! ?j) \<union>
            (\<Union>t\<in>set (drop (Suc ?j) ts). allkeys t)"
    by (subst split_at_nth [OF j]) auto
  show ?case
  proof (cases "ins b k r (ts ! ?j)")
    case (Pair res b')
    show ?thesis
    proof (cases res)
      case (Done t')
      have "(\<Union>t\<in>set (ts[?j := t']). allkeys t) = insert k (\<Union>t\<in>set ts. allkeys t)"
        using IH Pair Done by (simp add: upd_conv_take_nth_drop [OF j] un) blast
      then show ?thesis using Pair Done j by simp
    next
      case (Split t1 s t2)
      let ?ks = "put_at ?j s ks" and ?ts = "split_child ?j t1 t2 ts"
      have u: "set ?ks \<union> (\<Union>t\<in>set ?ts. allkeys t) = insert k (set ks \<union> (\<Union>t\<in>set ts. allkeys t))"
        using IH Pair Split unfolding set_put_at split_child_def un by (simp add: image_Un) blast
      show ?thesis
      proof (cases "length ks < FANOUT")
        case True
        then show ?thesis using u Pair Split j by (simp add: Let_def)
      next
        case False
        then have l8: "8 < length ?ks" using jk by (simp add: FANOUT_def)
        have "set ?ks = set (take 8 ?ks) \<union> {?ks ! 8} \<union> set (drop 9 ?ks)"
          by (subst split_at_nth [OF l8]) auto
        moreover have "set ?ts = set (take 9 ?ts) \<union> set (drop 9 ?ts)"
          by (metis append_take_drop_id set_append)
        then have "(\<Union>t\<in>set ?ts. allkeys t) = (\<Union>t\<in>set (take 9 ?ts). allkeys t) \<union> (\<Union>t\<in>set (drop 9 ?ts). allkeys t)"
          by (metis UN_Un)
        ultimately show ?thesis using u Pair Split j False by (simp add: Let_def Un_ac)
      qed
    qed
  qed
qed

lemma res_keys_Split:
  "ins b k r t = (Split t1 s t2, b') \<Longrightarrow> wf_size rt t \<Longrightarrow> ordered t \<Longrightarrow>
   allkeys t1 \<union> {s} \<union> allkeys t2 = insert k (allkeys t)"
  using ins_keys [of rt t b k r] by simp

lemma allkeys_nonempty: "wf_size False t \<Longrightarrow> allkeys t \<noteq> {}"
  by (cases t) auto

lemma strict_sorted_put_at:
  assumes "strict_sorted ks" "j \<le> length ks"
    and "\<And>i. i < j \<Longrightarrow> ks ! i < s" "\<And>i. j \<le> i \<Longrightarrow> i < length ks \<Longrightarrow> s < ks ! i"
  shows "strict_sorted (put_at j s ks)"
proof -
  have 1: "\<forall>x\<in>set (take j ks). x < s" and 2: "\<forall>x\<in>set (drop j ks). s < x"
    using assms(3,4) by (auto simp: in_set_conv_nth)
  have "strict_sorted (take j ks)" "strict_sorted (drop j ks)"
    using assms(1) by (auto simp: sorted_wrt_take sorted_wrt_drop)
  with 1 2 show ?thesis by (auto simp: put_at_def sorted_wrt_append intro: less_trans)
qed

text \<open>The route of a key splits the separators of a node.\<close>

lemma route_seps:
  assumes "strict_sorted ks"
  shows "i < upto_key k ks \<Longrightarrow> ks ! i \<le> k"
    and "upto_key k ks \<le> i \<Longrightarrow> i < length ks \<Longrightarrow> k < ks ! i"
proof -
  show "i < upto_key k ks \<Longrightarrow> ks ! i \<le> k" by (rule nth_le_upto_key)
  assume i: "upto_key k ks \<le> i" "i < length ks"
  have "k < ks ! upto_key k ks" using i by (intro nth_upto_key_gt) auto
  also have "\<dots> \<le> ks ! i"
    using i by (intro strict_sorted_nth_le [OF assms]) auto
  finally show "k < ks ! i" .
qed

text \<open>All keys of the child on the route, and the key itself, lie between its separators.\<close>

lemma route_between:
  assumes "ordered (Nd a ks ts)" "length ts = Suc (length ks)"
    and "x \<in> insert k (allkeys (ts ! upto_key k ks))"
  shows "i < upto_key k ks \<Longrightarrow> ks ! i \<le> x"
    and "upto_key k ks \<le> i \<Longrightarrow> i < length ks \<Longrightarrow> x < ks ! i"
proof -
  let ?j = "upto_key k ks"
  have ss: "strict_sorted ks" using assms(1) by simp
  show "ks ! i \<le> x" if i: "i < ?j"
  proof (cases "x = k")
    case True
    then show ?thesis using route_seps(1) [OF ss i] by simp
  next
    case False
    then show ?thesis
      using sep_ge [OF assms(1,2) i upto_key_le_length] assms(3) by simp
  qed
  show "x < ks ! i" if i: "?j \<le> i" "i < length ks"
  proof (cases "x = k")
    case True
    then show ?thesis using route_seps(2) [OF ss i] by simp
  next
    case False
    have "x < ks ! (Suc i - 1)"
      by (rule sep_le [OF assms(1,2), of ?j "Suc i"]) (use i False assms(3) in auto)
    then show ?thesis by simp
  qed
qed

lemma ordered_NdI:
  assumes "strict_sorted ks"
    and "\<And>i x. i < length ks \<Longrightarrow> x \<in> allkeys (ts ! i) \<Longrightarrow> x < ks ! i"
    and "\<And>i x. i < length ks \<Longrightarrow> x \<in> allkeys (ts ! Suc i) \<Longrightarrow> ks ! i \<le> x"
    and "\<And>t. t \<in> set ts \<Longrightarrow> ordered t"
  shows "ordered (Nd a ks ts)"
  using assms by simp

lemma ordered_NdD:
  assumes "ordered (Nd a ks ts)"
  shows "strict_sorted ks"
    and "\<And>i x. i < length ks \<Longrightarrow> x \<in> allkeys (ts ! i) \<Longrightarrow> x < ks ! i"
    and "\<And>i x. i < length ks \<Longrightarrow> x \<in> allkeys (ts ! Suc i) \<Longrightarrow> ks ! i \<le> x"
    and "\<And>t. t \<in> set ts \<Longrightarrow> ordered t"
  using assms by auto

text \<open>Replacing the child on the route by a tree with at most the new key more.\<close>

lemma ordered_update:
  assumes o: "ordered (Nd a ks ts)" and len: "length ts = Suc (length ks)"
    and t': "ordered t'" "allkeys t' \<subseteq> insert k (allkeys (ts ! upto_key k ks))"
  shows "ordered (Nd a ks (ts[upto_key k ks := t']))"
proof (rule ordered_NdI)
  let ?j = "upto_key k ks"
  have j: "?j < length ts" by (rule child_bounds [OF len])
  show "strict_sorted ks" using o by simp
  show "x < ks ! i" if "i < length ks" "x \<in> allkeys (ts[?j := t'] ! i)" for i x
    using that j t' route_between(2) [OF o len, of x k i] ordered_NdD(2) [OF o, of i x]
    by (cases "i = ?j") auto
  show "ks ! i \<le> x" if "i < length ks" "x \<in> allkeys (ts[?j := t'] ! Suc i)" for i x
    using that j t' route_between(1) [OF o len, of x k i] ordered_NdD(3) [OF o, of i x]
    by (cases "Suc i = ?j") auto
  show "ordered t" if "t \<in> set (ts[?j := t'])" for t
    using that t'(1) ordered_NdD(4) [OF o] by (auto dest: set_update_subset_insert [THEN subsetD])
qed

text \<open>Splitting the child on the route in two.\<close>

lemma ordered_split_child:
  assumes o: "ordered (Nd a ks ts)" and len: "length ts = Suc (length ks)"
    and t: "ordered t1" "ordered t2" "\<forall>x\<in>allkeys t1. x < s" "\<forall>x\<in>allkeys t2. s \<le> x"
    and ne: "allkeys t1 \<noteq> {}"
    and sub: "allkeys t1 \<union> {s} \<union> allkeys t2 = insert k (allkeys (ts ! upto_key k ks))"
  shows "ordered (Nd a (put_at (upto_key k ks) s ks) (split_child (upto_key k ks) t1 t2 ts))"
proof (rule ordered_NdI)
  let ?j = "upto_key k ks"
  have j: "?j < length ts" by (rule child_bounds [OF len])
  have jk: "?j \<le> length ks" by (rule upto_key_le_length)
  have lo: "ks ! i \<le> x" if "i < ?j" "x \<in> allkeys t1 \<union> {s} \<union> allkeys t2" for i x
    using that route_between(1) [OF o len] sub by blast
  have hi: "x < ks ! i" if "?j \<le> i" "i < length ks" "x \<in> allkeys t1 \<union> {s} \<union> allkeys t2" for i x
    using that route_between(2) [OF o len] sub by blast
  obtain x0 where x0: "x0 \<in> allkeys t1" using ne by blast
  show "strict_sorted (put_at ?j s ks)"
  proof (rule strict_sorted_put_at [OF _ jk])
    show "strict_sorted ks" using o by simp
    show "ks ! i < s" if "i < ?j" for i
      using lo [OF that, of x0] x0 t(3) by fastforce
    show "s < ks ! i" if "?j \<le> i" "i < length ks" for i using hi [OF that, of s] by simp
  qed
  show "x < put_at ?j s ks ! i"
    if "i < length (put_at ?j s ks)" "x \<in> allkeys (split_child ?j t1 t2 ts ! i)" for i x
  proof -
    have i: "i \<le> length ks" "i \<le> length ts" using that(1) jk len by auto
    consider "i < ?j" | "i = ?j" | "i = Suc ?j" | "Suc ?j < i" by linarith
    then show ?thesis
    proof cases
      case 1
      then show ?thesis using that(2) i j jk ordered_NdD(2) [OF o, of i x]
        by (simp add: nth_put_at nth_split_child)
    next
      case 2
      then show ?thesis using that(2) i j jk t(3) by (simp add: nth_put_at nth_split_child)
    next
      case 3
      then show ?thesis using that(2) i j jk hi [of ?j x] by (simp add: nth_put_at nth_split_child)
    next
      case 4
      then show ?thesis using that(2) i j jk ordered_NdD(2) [OF o, of "i - 1" x]
        by (simp add: nth_put_at nth_split_child)
    qed
  qed
  show "put_at ?j s ks ! i \<le> x"
    if "i < length (put_at ?j s ks)" "x \<in> allkeys (split_child ?j t1 t2 ts ! Suc i)" for i x
  proof -
    have i: "i \<le> length ks" "Suc i \<le> length ts" using that(1) jk len by auto
    consider "Suc i < ?j" | "Suc i = ?j" | "i = ?j" | "?j < i" by linarith
    then show ?thesis
    proof cases
      case 1
      then show ?thesis using that(2) i j jk ordered_NdD(3) [OF o, of i x]
        by (simp add: nth_put_at nth_split_child)
    next
      case 2
      then have "ks ! i \<le> x" using that(2) i j lo [of i x] by (simp add: nth_split_child)
      then show ?thesis using 2 i jk by (simp add: nth_put_at)
    next
      case 3
      then show ?thesis using that(2) i j jk t(4) by (simp add: nth_put_at nth_split_child)
    next
      case 4
      then show ?thesis using that(2) i j jk ordered_NdD(3) [OF o, of "i - 1" x]
        by (simp add: nth_put_at nth_split_child)
    qed
  qed
  show "ordered t" if "t \<in> set (split_child ?j t1 t2 ts)" for t
    using that t(1,2) ordered_NdD(4) [OF o]
    by (auto simp: split_child_def dest: in_set_takeD in_set_dropD)
qed

text \<open>Cutting a node in two: separator \<open>m\<close> moves up.\<close>

lemma ordered_cut:
  assumes o: "ordered (Nd a ks ts)" and len: "length ts = Suc (length ks)" and m: "m < length ks"
  shows "ordered (Nd a' (take m ks) (take (Suc m) ts))"
    and "ordered (Nd b' (drop (Suc m) ks) (drop (Suc m) ts))"
    and "x \<in> allkeys (Nd a' (take m ks) (take (Suc m) ts)) \<Longrightarrow> x < ks ! m"
    and "x \<in> allkeys (Nd b' (drop (Suc m) ks) (drop (Suc m) ts)) \<Longrightarrow> ks ! m \<le> x"
proof -
  have ss: "strict_sorted ks" using o by simp
  show "ordered (Nd a' (take m ks) (take (Suc m) ts))"
    by (rule ordered_NdI) (use o len m in \<open>auto simp: sorted_wrt_take dest!: in_set_takeD\<close>)
  show "ordered (Nd b' (drop (Suc m) ks) (drop (Suc m) ts))"
  proof (rule ordered_NdI)
    show "x < drop (Suc m) ks ! i" if "i < length (drop (Suc m) ks)" "x \<in> allkeys (drop (Suc m) ts ! i)" for i x
      using that len ordered_NdD(2) [OF o, of "Suc m + i" x] by simp
    show "drop (Suc m) ks ! i \<le> x"
      if "i < length (drop (Suc m) ks)" "x \<in> allkeys (drop (Suc m) ts ! Suc i)" for i x
      using that len ordered_NdD(3) [OF o, of "Suc m + i" x] by simp
  qed (use o ss in \<open>auto simp: sorted_wrt_drop dest!: in_set_dropD\<close>)
  show "x < ks ! m" if "x \<in> allkeys (Nd a' (take m ks) (take (Suc m) ts))"
  proof -
    from that consider i where "i < m" "x = ks ! i" | i where "i \<le> m" "x \<in> allkeys (ts ! i)"
      using len m by (auto simp: in_set_conv_nth less_Suc_eq_le)
    then show ?thesis
    proof cases
      case 1
      then show ?thesis using ss m by (auto dest: sorted_wrt_nth_less [of "(<)" ks])
    next
      case 2
      then show ?thesis using sep_le [OF o len, of i "Suc m" x] m by simp
    qed
  qed
  show "ks ! m \<le> x" if "x \<in> allkeys (Nd b' (drop (Suc m) ks) (drop (Suc m) ts))"
  proof -
    from that consider i where "m < i" "i < length ks" "x = ks ! i"
      | i where "m < i" "i \<le> length ks" "x \<in> allkeys (ts ! i)"
      using len by (auto simp: Suc_le_eq less_Suc_eq_le elim!: in_set_dropE)
    then show ?thesis
    proof cases
      case 1
      then show ?thesis using ss m by (auto dest!: sorted_wrt_nth_less [of "(<)" ks m] intro: less_imp_le)
    next
      case 2
      then show ?thesis using sep_ge [OF o len, of m i x] by simp
    qed
  qed
qed

lemma ins_ordered: "ordered t \<Longrightarrow> wf_size rt t \<Longrightarrow> res_ordered (fst (ins b k r t))"
proof (induction b k r t arbitrary: rt rule: ins.induct)
  case (1 b k r a kvs)
  let ?es = "ins_list k r kvs"
  have ss: "strict_sorted (keys_of ?es)" using 1 by (simp add: strict_sorted_ins_list)
  show ?case
  proof (cases "length ?es \<le> FANOUT")
    case True
    then show ?thesis using ss by (simp add: Let_def)
  next
    case False
    then have l8: "8 < length ?es" by (simp add: FANOUT_def)
    let ?l = "take 8 ?es" and ?r = "drop 9 ?es"
    have d8: "drop 8 ?es = ?es ! 8 # ?r"
      using Cons_nth_drop_Suc [OF l8] by simp
    have "keys_of ?es = keys_of (?l @ drop 8 ?es)" by simp
    then have eq: "keys_of ?es = keys_of ?l @ fst (?es ! 8) # keys_of ?r" by (simp only: d8) simp
    have "strict_sorted (keys_of ?l)" "strict_sorted (keys_of (drop 8 ?es))"
      "\<forall>x\<in>set (keys_of ?l). x < fst (?es ! 8)" "\<forall>x\<in>set (keys_of (drop 8 ?es)). fst (?es ! 8) \<le> x"
      using ss unfolding eq d8 by (auto simp: sorted_wrt_append intro: less_imp_le)
    then show ?thesis using False by (simp add: Let_def)
  qed
next
  case (2 b k r a ks ts)
  let ?j = "upto_key k ks"
  have len: "length ts = Suc (length ks)" using "2.prems" by simp
  have j: "?j < length ts" by (rule child_bounds [OF len])
  have jk: "?j \<le> length ks" by (rule upto_key_le_length)
  have c: "ordered (ts ! ?j)" "wf_size False (ts ! ?j)" using "2.prems" j by auto
  note IH = "2.IH" [OF j c]
  have keys: "res_keys (fst (ins b k r (ts ! ?j))) = insert k (allkeys (ts ! ?j))"
    by (rule ins_keys [OF c(2,1)])
  have sz: "res_size False (fst (ins b k r (ts ! ?j)))" by (rule ins_size [OF c])
  show ?case
  proof (cases "ins b k r (ts ! ?j)")
    case (Pair res b')
    show ?thesis
    proof (cases res)
      case (Done t')
      then have "ordered (Nd a ks (ts[?j := t']))"
        using Pair IH keys by (intro ordered_update [OF "2.prems"(1) len]) auto
      then show ?thesis using Pair Done j by simp
    next
      case (Split t1 s t2)
      let ?ks = "put_at ?j s ks" and ?ts = "split_child ?j t1 t2 ts"
      have o: "ordered (Nd a ?ks ?ts)"
        using Pair Split IH keys sz allkeys_nonempty [of t1]
        by (intro ordered_split_child [OF "2.prems"(1) len]) auto
      show ?thesis
      proof (cases "length ks < FANOUT")
        case True
        then show ?thesis using o Pair Split j by (simp add: Let_def)
      next
        case False
        have len': "length ?ts = Suc (length ?ks)" and m: "8 < length ?ks"
          using False j jk len by (auto simp: FANOUT_def)
        note cut = ordered_cut [OF o len' m]
        have "ordered (Nd a (take 8 ?ks) (take 9 ?ts))" "ordered (Nd b' (drop 9 ?ks) (drop 9 ?ts))"
          "\<forall>x\<in>allkeys (Nd a (take 8 ?ks) (take 9 ?ts)). x < ?ks ! 8"
          "\<forall>x\<in>allkeys (Nd b' (drop 9 ?ks) (drop 9 ?ts)). ?ks ! 8 \<le> x"
          using cut(1) [of a] cut(2) [of b'] cut(3) [of _ a] cut(4) [of _ b'] by auto
        then show ?thesis using Pair Split j False by (simp add: Let_def)
      qed
    qed
  qed
qed

end
