(* ===== verification/BTree_Repr.thy ===== *)
theory BTree_Repr
  imports BTree_Ins
begin

text \<open>
  The relation between the heap of a relation and an abstract tree, the paths that a cursor's
  arrays describe, and the searching functions: within a node, down the tree, and from an
  arbitrary cursor position to the leaf of a key.
\<close>

section \<open>Nodes\<close>

definition node_keys :: "Key list \<Rightarrow> 'r BtNode \<Rightarrow> bool" where
  "node_keys ks n \<longleftrightarrow> numKeys n = length ks \<and> length ks \<le> FANOUT \<and> length (entries n) = FANOUT \<and>
     (\<forall>i<length ks. \<exists>p. entries n ! i = Some \<lparr>ekey = ks ! i, eptr = p\<rparr>)"

definition leaf_node :: "bool \<Rightarrow> bool \<Rightarrow> (Key \<times> 'r) list \<Rightarrow> 'r BtNode \<Rightarrow> bool" where
  "leaf_node f l kvs n \<longleftrightarrow> isLeaf n \<and> FirstLeaf n = f \<and> LastLeaf n = l \<and>
     numKeys n = length kvs \<and> length kvs \<le> FANOUT \<and> length (entries n) = FANOUT \<and>
     (\<forall>i<length kvs. entries n ! i = Some \<lparr>ekey = fst (kvs ! i), eptr = Record (snd (kvs ! i))\<rparr>)"

definition intern_node :: "Key list \<Rightarrow> addr list \<Rightarrow> 'r BtNode \<Rightarrow> bool" where
  "intern_node ks as n \<longleftrightarrow> \<not> isLeaf n \<and> numKeys n = length ks \<and> length ks \<le> FANOUT \<and>
     length (entries n) = FANOUT \<and> ptr0 n = Some (as ! 0) \<and>
     (\<forall>i<length ks. entries n ! i = Some \<lparr>ekey = ks ! i, eptr = Child (as ! Suc i)\<rparr>)"

lemma leaf_node_keys: "leaf_node f l kvs n \<Longrightarrow> node_keys (keys_of kvs) n"
  by (auto simp: leaf_node_def node_keys_def)

lemma intern_node_keys: "intern_node ks as n \<Longrightarrow> node_keys ks n"
  by (auto simp: intern_node_def node_keys_def)

lemma entry_at_keys:
  "node_keys ks n \<Longrightarrow> i < length ks \<Longrightarrow> \<exists>p. entry_at n (int i) = Some \<lparr>ekey = ks ! i, eptr = p\<rparr>"
  by (auto simp: node_keys_def entry_at_def)

lemma entry_at_leaf:
  "leaf_node f l kvs n \<Longrightarrow> i < length kvs \<Longrightarrow>
   entry_at n (int i) = Some \<lparr>ekey = fst (kvs ! i), eptr = Record (snd (kvs ! i))\<rparr>"
  by (simp add: leaf_node_def entry_at_def)

lemma entry_at_intern:
  "intern_node ks as n \<Longrightarrow> i < length ks \<Longrightarrow>
   entry_at n (int i) = Some \<lparr>ekey = ks ! i, eptr = Child (as ! Suc i)\<rparr>"
  by (simp add: intern_node_def entry_at_def)

section \<open>Searching a node\<close>

lemma findRecordIndex_loop_below:
  assumes "node_keys ks n" "i \<le> length ks" "\<forall>j<i. ks ! j < k"
  shows "findRecordIndex_loop n k i = Some (int (below k ks))"
  using assms
proof (induction n k i rule: findRecordIndex_loop.induct)
  case (1 n k i)
  show ?case
  proof (cases "i < length ks")
    case True
    then obtain p where p: "entry_at n (int i) = Some \<lparr>ekey = ks ! i, eptr = p\<rparr>"
      using entry_at_keys "1.prems"(1) by blast
    have le: "int i \<le> int (numKeys n) - 1" using True "1.prems"(1) by (auto simp: node_keys_def)
    show ?thesis
    proof (cases "k \<le> ks ! i")
      case True
      then have "below k ks = i" using "1.prems" by (intro below_eqI) auto
      then show ?thesis using True p le by (subst findRecordIndex_loop.simps) simp
    next
      case False
      then have "findRecordIndex_loop n k (Suc i) = Some (int (below k ks))"
        using "1.prems" \<open>i < length ks\<close> le p by (intro "1.IH") (auto simp: less_Suc_eq)
      then show ?thesis using False p le by (subst findRecordIndex_loop.simps) simp
    qed
  next
    case False
    then have i: "i = length ks" using "1.prems" by simp
    then have "below k ks = length ks" using "1.prems" by (intro below_eqI) auto
    moreover have "\<not> int i \<le> int (numKeys n) - 1" "numKeys n = length ks"
      using i "1.prems"(1) by (auto simp: node_keys_def)
    ultimately show ?thesis by (subst findRecordIndex_loop.simps) simp
  qed
qed

lemma findRecordIndex_below: "node_keys ks n \<Longrightarrow> findRecordIndex n k = Some (int (below k ks))"
  using findRecordIndex_loop_below [of ks n 0 k]
  by (auto simp: findRecordIndex_def node_keys_def)

lemma findChildIndex_loop_upto:
  assumes "node_keys ks n" "i < length ks" "\<forall>j\<le>i. ks ! j \<le> k"
  shows "findChildIndex_loop n k i = Some (int (upto_key k ks) - 1)"
  using assms
proof (induction n k i rule: findChildIndex_loop.induct)
  case (1 n k i)
  have nk: "numKeys n = length ks" using "1.prems"(1) by (simp add: node_keys_def)
  show ?case
  proof (cases "Suc i < length ks")
    case True
    obtain p where p: "entry_at n (int i) = Some \<lparr>ekey = ks ! i, eptr = p\<rparr>"
      using entry_at_keys "1.prems"(1,2) by blast
    obtain q where "entry_at n (int (Suc i)) = Some \<lparr>ekey = ks ! Suc i, eptr = q\<rparr>"
      using entry_at_keys [OF "1.prems"(1) True] by blast
    then have q: "entry_at n (int i + 1) = Some \<lparr>ekey = ks ! Suc i, eptr = q\<rparr>"
      by (simp add: add.commute)
    have le: "int i \<le> int (numKeys n) - 2" using True nk by auto
    show ?thesis
    proof (cases "k < ks ! Suc i")
      case less: True
      then have "upto_key k ks = Suc i" using "1.prems" True by (intro upto_key_eqI) auto
      then show ?thesis using less p q le "1.prems"(3) by (subst findChildIndex_loop.simps) simp
    next
      case False
      then have "\<forall>j\<le>Suc i. ks ! j \<le> k" using "1.prems"(3) by (auto simp: le_Suc_eq)
      then have "findChildIndex_loop n k (Suc i) = Some (int (upto_key k ks) - 1)"
        using "1.prems" True le p q False by (intro "1.IH") auto
      then show ?thesis using False p q le by (subst findChildIndex_loop.simps) simp
    qed
  next
    case False
    then have i: "length ks = Suc i" using "1.prems" by simp
    then have "upto_key k ks = length ks" using "1.prems" by (intro upto_key_eqI) auto
    then show ?thesis using i nk by (subst findChildIndex_loop.simps) simp
  qed
qed

lemma findChildIndex_upto:
  assumes "node_keys ks n" "ks \<noteq> []"
  shows "findChildIndex n k = Some (int (upto_key k ks) - 1)"
proof -
  have nk: "0 < numKeys n" "0 < length ks" using assms by (auto simp: node_keys_def)
  obtain p where p: "entry_at n 0 = Some \<lparr>ekey = ks ! 0, eptr = p\<rparr>"
    using entry_at_keys [OF assms(1) nk(2)] by auto
  show ?thesis
  proof (cases "k < ks ! 0")
    case True
    then have "upto_key k ks = 0" using nk by (intro upto_key_eqI) auto
    then show ?thesis using True nk p by (simp add: findChildIndex_def)
  next
    case False
    then have "findChildIndex_loop n k 0 = Some (int (upto_key k ks) - 1)"
      using assms nk by (intro findChildIndex_loop_upto) auto
    then show ?thesis using False nk p by (simp add: findChildIndex_def)
  qed
qed

section \<open>Trees in the heap\<close>

text \<open>\<open>f\<close> and \<open>l\<close> say whether the tree holds the first, respectively the last, leaf of the relation.\<close>

function repr :: "'r Relation \<Rightarrow> bool \<Rightarrow> bool \<Rightarrow> 'r btree \<Rightarrow> bool" where
  "repr s f l (Lf a kvs) = (\<exists>n. nodes s a = Some n \<and> leaf_node f l kvs n)"
| "repr s f l (Nd a ks ts) =
     ((\<exists>n. nodes s a = Some n \<and> intern_node ks (map root_addr ts) n) \<and>
      (\<forall>i<length ts. repr s (f \<and> i = 0) (l \<and> i = length ts - 1) (ts ! i)))"
  by pat_completeness auto
termination
  by (relation "measure (\<lambda>(s, f, l, t). size t)") (auto simp: less_Suc_eq_le intro!: size_list_estimation' nth_mem)

abbreviation addrs :: "'r btree \<Rightarrow> addr set" where
  "addrs t \<equiv> set (addr_list t)"

lemma root_addr_in [simp]: "root_addr t \<in> addrs t"
  by (cases t) auto

lemma repr_frame:
  "\<forall>a\<in>addrs t. nodes s' a = nodes s a \<Longrightarrow> repr s' f l t = repr s f l t"
proof (induction s f l t rule: repr.induct)
  case (2 s f l a ks ts)
  have "repr s' (f \<and> i = 0) (l \<and> i = length ts - 1) (ts ! i) = repr s (f \<and> i = 0) (l \<and> i = length ts - 1) (ts ! i)"
    if i: "i < length ts" for i
  proof (rule 2(1) [OF i])
    show "\<forall>a\<in>addrs (ts ! i). nodes s' a = nodes s a" using 2(2) nth_mem [OF i] by auto
  qed
  with 2(2) show ?case by auto
qed simp

lemma repr_nodes: "repr s f l t \<Longrightarrow> a \<in> addrs t \<Longrightarrow> nodes s a \<noteq> None"
proof (induction s f l t rule: repr.induct)
  case (2 s f l a' ks ts)
  from "2.prems"(2) consider "a = a'" | i where "i < length ts" "a \<in> addrs (ts ! i)"
    by (auto simp: in_set_conv_nth [of _ ts])
  then show ?case using 2 by cases auto
qed auto

lemma repr_childD:
  "repr s f l (Nd a ks ts) \<Longrightarrow> i < length ts \<Longrightarrow> repr s (f \<and> i = 0) (l \<and> i = length ts - 1) (ts ! i)"
  by auto

lemma repr_update_simps [simp]:
  "repr (s\<lparr>numRecords := x\<rparr>) f l t = repr s f l t"
  "repr (s\<lparr>root := y\<rparr>) f l t = repr s f l t"
  "repr (s\<lparr>depth := z\<rparr>) f l t = repr s f l t"
  "repr (s\<lparr>brk := b\<rparr>) f l t = repr s f l t"
  by (rule repr_frame, simp)+

section \<open>Cursor arrays\<close>

definition arrays :: "Cursor \<Rightarrow> bool" where
  "arrays c \<longleftrightarrow> length (ancestorsIdx c) = MAX_TREE_DEPTH \<and> length (ancestors c) = MAX_TREE_DEPTH"

definition agree_below :: "nat \<Rightarrow> Cursor \<Rightarrow> Cursor \<Rightarrow> bool" where
  "agree_below lv c c' \<longleftrightarrow> (\<forall>i<lv. ancestors c' ! i = ancestors c ! i \<and> ancestorsIdx c' ! i = ancestorsIdx c ! i)"

lemma agree_below_refl [simp]: "agree_below lv c c"
  by (simp add: agree_below_def)

lemma agree_below_trans: "agree_below lv c d \<Longrightarrow> agree_below lv d e \<Longrightarrow> agree_below lv c e"
  by (simp add: agree_below_def)

lemma agree_below_mono: "agree_below m c d \<Longrightarrow> lv \<le> m \<Longrightarrow> agree_below lv c d"
  by (simp add: agree_below_def)

lemma arrays_level [simp]: "arrays (c\<lparr>level := x\<rparr>) = arrays c"
  by (simp add: arrays_def)

lemma agree_below_level [simp]:
  "agree_below lv (c\<lparr>level := x\<rparr>) d = agree_below lv c d"
  "agree_below lv c (d\<lparr>level := x\<rparr>) = agree_below lv c d"
  by (simp_all add: agree_below_def)

lemma set_ancestor_ok:
  "arrays c \<Longrightarrow> lv < MAX_TREE_DEPTH \<Longrightarrow>
   set_ancestor c (int lv) p = Some (c\<lparr>ancestors := (ancestors c)[lv := p]\<rparr>)"
  by (simp add: set_ancestor_def arrays_def)

lemma set_index_ok:
  "arrays c \<Longrightarrow> lv < MAX_TREE_DEPTH \<Longrightarrow>
   set_index c (int lv) i = Some (c\<lparr>ancestorsIdx := (ancestorsIdx c)[lv := i]\<rparr>)"
  by (simp add: set_index_def arrays_def)

lemma arrays_upd [simp]:
  "arrays c \<Longrightarrow> arrays (c\<lparr>ancestors := (ancestors c)[lv := p]\<rparr>)"
  "arrays c \<Longrightarrow> arrays (c\<lparr>ancestorsIdx := (ancestorsIdx c)[lv := i]\<rparr>)"
  by (simp_all add: arrays_def)

lemma currNode_ok: "arrays c \<Longrightarrow> level c = int lv \<Longrightarrow> lv < MAX_TREE_DEPTH \<Longrightarrow> currNode c = ancestors c ! lv"
  by (simp add: currNode_def arrays_def)

lemma entryIndex_ok:
  "arrays c \<Longrightarrow> level c = int lv \<Longrightarrow> lv < MAX_TREE_DEPTH \<Longrightarrow> entryIndex c = Some (ancestorsIdx c ! lv)"
  by (simp add: entryIndex_def arrays_def)

text \<open>From level \<open>lv\<close> on, the cursor holds a path down the tree to a position in a leaf.\<close>

function cur :: "Cursor \<Rightarrow> nat \<Rightarrow> 'r btree \<Rightarrow> bool" where
  "cur c lv (Lf a kvs) =
     (lv < MAX_TREE_DEPTH \<and> level c = int lv \<and> ancestors c ! lv = Some a \<and>
      0 \<le> ancestorsIdx c ! lv \<and> ancestorsIdx c ! lv \<le> int (length kvs))"
| "cur c lv (Nd a ks ts) =
     (lv < MAX_TREE_DEPTH \<and> ancestors c ! lv = Some a \<and> -1 \<le> ancestorsIdx c ! lv \<and>
      (if nat (ancestorsIdx c ! lv + 1) < length ts
       then cur c (Suc lv) (ts ! nat (ancestorsIdx c ! lv + 1)) else False))"
  by pat_completeness auto
termination
  by (relation "measure (\<lambda>(c, lv, t). size t)") (auto simp: less_Suc_eq_le intro!: size_list_estimation' nth_mem)

text \<open>The path is the one the search for key \<open>k\<close> takes.\<close>

function route :: "Cursor \<Rightarrow> nat \<Rightarrow> Key \<Rightarrow> 'r btree \<Rightarrow> bool" where
  "route c lv k (Lf a kvs) =
     (lv < MAX_TREE_DEPTH \<and> level c = int lv \<and> ancestors c ! lv = Some a \<and>
      ancestorsIdx c ! lv = int (below k (keys_of kvs)))"
| "route c lv k (Nd a ks ts) =
     (lv < MAX_TREE_DEPTH \<and> ancestors c ! lv = Some a \<and>
      ancestorsIdx c ! lv = int (upto_key k ks) - 1 \<and>
      (if upto_key k ks < length ts then route c (Suc lv) k (ts ! upto_key k ks) else False))"
  by pat_completeness auto
termination
  by (relation "measure (\<lambda>(c, lv, k, t). size t)") (auto simp: less_Suc_eq_le intro!: size_list_estimation' nth_mem)

lemma route_cur: "route c lv k t \<Longrightarrow> cur c lv t"
proof (induction c lv k t rule: route.induct)
  case (1 c lv k a kvs)
  then show ?case using below_le_length [of k "keys_of kvs"] by simp
qed (auto split: if_splits)

lemma cur_lt: "cur c lv t \<Longrightarrow> lv < MAX_TREE_DEPTH"
  by (cases t) auto

lemma cur_root: "cur c lv t \<Longrightarrow> ancestors c ! lv = Some (root_addr t)"
  by (cases t) auto

lemma cur_level_ge: "cur c lv t \<Longrightarrow> int lv \<le> level c"
  by (induction c lv t rule: cur.induct) (auto split: if_splits)

lemma cur_level: "cur c lv t \<Longrightarrow> bal h t \<Longrightarrow> level c = int (lv + h)"
proof (induction c lv t arbitrary: h rule: cur.induct)
  case (2 c lv a ks ts)
  let ?j = "nat (ancestorsIdx c ! lv + 1)"
  obtain h' where "h = Suc h'" "\<forall>t\<in>set ts. bal h' t" using "2.prems" by auto
  then show ?case using "2.IH" [of h'] "2.prems" by (auto split: if_splits)
qed auto

section \<open>Descending to a key\<close>

lemma moveToKey_route:
  assumes "repr s f l t" "ordered t" "wf_size rt t" "bal h t" "lv + h < MAX_TREE_DEPTH" "arrays c"
  shows "\<exists>c'. moveToKey s (Some (root_addr t)) k c (int lv) = Some c' \<and> route c' lv k t \<and>
              arrays c' \<and> agree_below lv c c'"
  using assms
proof (induction s f l t arbitrary: rt h lv c rule: repr.induct)
  case (1 s f l a kvs)
  then obtain n where n: "nodes s a = Some n" "leaf_node f l kvs n" by auto
  have lv: "lv < MAX_TREE_DEPTH" using 1 by simp
  have leaf: "isLeaf n" using n by (simp add: leaf_node_def)
  have fr: "findRecordIndex n k = Some (int (below k (keys_of kvs)))"
    by (rule findRecordIndex_below [OF leaf_node_keys [OF n(2)]])
  let ?c = "c\<lparr>ancestors := (ancestors c)[lv := Some a]\<rparr>"
  let ?c' = "?c\<lparr>level := int lv, ancestorsIdx := (ancestorsIdx c)[lv := int (below k (keys_of kvs))]\<rparr>"
  have "moveToKey s (Some a) k c (int lv) = Some ?c'"
    using n lv leaf fr "1.prems"(6)
    by (subst moveToKey.simps) (simp add: node_at_def set_ancestor_ok set_index_ok)
  moreover have "route ?c' lv k (Lf a kvs)" "arrays ?c'" "agree_below lv c ?c'"
    using lv "1.prems"(6) by (auto simp: arrays_def agree_below_def)
  ultimately show ?case by auto
next
  case (2 s f l a ks ts)
  then obtain n where n: "nodes s a = Some n" "intern_node ks (map root_addr ts) n" by auto
  obtain h' where h: "h = Suc h'" "\<forall>t\<in>set ts. bal h' t" using "2.prems" by auto
  have len: "length ts = Suc (length ks)" and ks: "ks \<noteq> []" using "2.prems"(3) by (auto split: if_splits)
  let ?j = "upto_key k ks"
  have j: "?j < length ts" by (rule child_bounds [OF len])
  have lv: "lv < MAX_TREE_DEPTH" using "2.prems" by simp
  have leaf: "\<not> isLeaf n" using n by (simp add: intern_node_def)
  have fc: "findChildIndex n k = Some (int ?j - 1)"
    by (rule findChildIndex_upto [OF intern_node_keys [OF n(2)] ks])
  let ?c = "c\<lparr>ancestors := (ancestors c)[lv := Some a], ancestorsIdx := (ancestorsIdx c)[lv := int ?j - 1]\<rparr>"
  have arr: "arrays ?c" using "2.prems"(6) by (simp add: arrays_def)
  have child: "(if int ?j - 1 = -1 then Some (ptr0 n)
      else do { e \<leftarrow> entry_at n (int ?j - 1); a \<leftarrow> child_of e; Some (Some a) }) = Some (Some (root_addr (ts ! ?j)))"
  proof (cases ?j)
    case 0
    then show ?thesis using n(2) len by (auto simp: intern_node_def)
  next
    case (Suc i)
    then have "i < length ks" using j len by simp
    then have "entry_at n (int i) = Some \<lparr>ekey = ks ! i, eptr = Child (map root_addr ts ! Suc i)\<rparr>"
      by (rule entry_at_intern [OF n(2)])
    then show ?thesis using Suc j by (simp add: child_of_def)
  qed
  have step: "moveToKey s (Some a) k c (int lv) = moveToKey s (Some (root_addr (ts ! ?j))) k ?c (int (Suc lv))"
    using lv n leaf fc child "2.prems"(6)
    by (subst moveToKey.simps) (simp add: node_at_def set_ancestor_ok set_index_ok add.commute)
  have "\<exists>c'. moveToKey s (Some (root_addr (ts ! ?j))) k ?c (int (Suc lv)) = Some c' \<and>
      route c' (Suc lv) k (ts ! ?j) \<and> arrays c' \<and> agree_below (Suc lv) ?c c'"
    by (rule "2.IH" [OF j, where rt = False and h = h']) (use "2.prems" j h arr in auto)
  then obtain c' where c': "moveToKey s (Some (root_addr (ts ! ?j))) k ?c (int (Suc lv)) = Some c'"
    "route c' (Suc lv) k (ts ! ?j)" "arrays c'" "agree_below (Suc lv) ?c c'" by blast
  have "route c' lv k (Nd a ks ts)" "agree_below lv c c'"
    using c' lv j "2.prems"(6) by (auto simp: agree_below_def arrays_def)
  then show ?case using step c' j by auto
qed

section \<open>From any position to a key\<close>

text \<open>The key certainly belongs into this tree, judging from the keys it holds.\<close>

definition in_range :: "bool \<Rightarrow> bool \<Rightarrow> Key \<Rightarrow> 'r btree \<Rightarrow> bool" where
  "in_range f l k t \<longleftrightarrow> (f \<or> (\<exists>x\<in>allkeys t. x \<le> k)) \<and> (l \<or> (\<exists>y\<in>allkeys t. k \<le> y))"

lemma in_range_parent:
  assumes "in_range (f \<and> j = 0) (l \<and> j = length ts - 1) k (ts ! j)" "ordered (Nd a ks ts)"
    and "length ts = Suc (length ks)" "j < length ts"
  shows "upto_key k ks = j" and "in_range f l k (Nd a ks ts)"
proof -
  show "upto_key k ks = j"
  proof (rule upto_key_eqI)
    show "j \<le> length ks" using assms by simp
    show "ks ! i \<le> k" if i: "i < j" for i
    proof -
      obtain x where "x \<in> allkeys (ts ! j)" "x \<le> k" using assms(1) i by (auto simp: in_range_def)
      then show ?thesis using sep_ge [OF assms(2,3) i] assms(3,4) by fastforce
    qed
    show "k < ks ! j" if j: "j < length ks"
    proof -
      obtain y where "y \<in> allkeys (ts ! j)" "k \<le> y" using assms(1,3) j by (auto simp: in_range_def)
      then show ?thesis using ordered_NdD(2) [OF assms(2) j] by fastforce
    qed
  qed
  show "in_range f l k (Nd a ks ts)"
    using assms(1,4) by (auto simp: in_range_def dest!: nth_mem)
qed

text \<open>
  \<open>goToKey\<close> from inside a tree at level \<open>lv\<close>: either it turns round inside the tree, which then
  holds the key's place, or it leaves the tree upwards.
\<close>

definition turned :: "'r Relation \<Rightarrow> Cursor \<Rightarrow> nat \<Rightarrow> Key \<Rightarrow> 'r btree \<Rightarrow> bool" where
  "turned s c lv k t \<longleftrightarrow>
     (\<exists>c'. goToKey s c k = Some c' \<and> route c' lv k t \<and> arrays c' \<and> agree_below lv c c')"

lemma goToKey_stop:
  assumes "AscendToParent s c k = Some c" "level c = int lv" "ancestors c ! lv = Some (root_addr t)"
    and "repr s f l t" "ordered t" "wf_size rt t" "bal h t" "lv + h < MAX_TREE_DEPTH" "arrays c"
  shows "turned s c lv k t"
  using moveToKey_route [OF assms(4-9), of k] assms(1-3,8,9)
  by (auto simp: turned_def goToKey_def currNode_ok)

lemma goToKey_up:
  assumes "AscendToParent s c k = AscendToParent s c' k"
  shows "goToKey s c k = goToKey s c' k"
  by (simp add: goToKey_def assms)

lemma turned_level: "goToKey s c k = goToKey s (c\<lparr>level := x\<rparr>) k \<Longrightarrow> turned s (c\<lparr>level := x\<rparr>) lv k t = turned s c lv k t"
  by (simp add: turned_def)

lemma leaf_AscendToParent:
  assumes "leaf_node f l kvs n" "kvs \<noteq> []" "node_at s (currNode c) = Some n" "0 < level c"
  shows "AscendToParent s c k =
    (if in_range f l k (Lf a kvs) then Some c else AscendToParent s (c\<lparr>level := level c - 1\<rparr>) k)
    \<or> (AscendToParent s c k = Some c \<and> in_range f l k (Lf a kvs))
    \<or> AscendToParent s c k = AscendToParent s (c\<lparr>level := level c - 1\<rparr>) k"
proof -
  have e0: "entry_at n 0 = Some \<lparr>ekey = fst (kvs ! 0), eptr = Record (snd (kvs ! 0))\<rparr>"
    using entry_at_leaf [OF assms(1), of 0] assms(2) by simp
  have "int (numKeys n) - 1 = int (length kvs - 1)" using assms(1,2)
    by (simp add: leaf_node_def of_nat_diff Suc_leI)
  then have e1: "entry_at n (int (numKeys n) - 1) =
      Some \<lparr>ekey = fst (kvs ! (length kvs - 1)), eptr = Record (snd (kvs ! (length kvs - 1)))\<rparr>"
    using entry_at_leaf [OF assms(1), of "length kvs - 1"] assms(2) by simp
  have lo: "fst (kvs ! 0) \<in> allkeys (Lf a kvs)" and hi: "fst (kvs ! (length kvs - 1)) \<in> allkeys (Lf a kvs)"
    using assms(2) by auto
  show ?thesis
    using assms e0 e1 lo hi unfolding in_range_def
    by (subst (1 3 4) AscendToParent.simps) (auto simp: leaf_node_def simp del: allkeys.simps)
qed

lemma goToKey_cases:
  assumes "repr s f l t" "ordered t" "wf_size rt t" "bal h t" "lv + h < MAX_TREE_DEPTH" "arrays c"
    and "cur c lv t" "0 < lv \<Longrightarrow> \<not> rt"
  shows "(turned s c lv k t \<and> (0 < lv \<longrightarrow> in_range f l k t)) \<or>
         (0 < lv \<and> goToKey s c k = goToKey s (c\<lparr>level := int lv - 1\<rparr>) k)"
  using assms
proof (induction s f l t arbitrary: rt h lv c rule: repr.induct)
  case (1 s f l a kvs)
  then obtain n where n: "nodes s a = Some n" "leaf_node f l kvs n" by auto
  have lv: "lv < MAX_TREE_DEPTH" "level c = int lv" "ancestors c ! lv = Some a" using "1.prems" by auto
  have stop: "AscendToParent s c k = Some c \<Longrightarrow> turned s c lv k (Lf a kvs)"
    by (rule goToKey_stop [OF _ lv(2) _ "1.prems"(1-6)]) (use lv in auto)
  show ?case
  proof (cases "lv = 0")
    case True
    then show ?thesis using stop lv by (simp add: AscendToParent.simps)
  next
    case False
    have "kvs \<noteq> []" using "1.prems"(3,8) False by auto
    moreover have "node_at s (currNode c) = Some n"
      using n lv "1.prems"(6) by (simp add: currNode_ok node_at_def)
    ultimately have "(AscendToParent s c k = Some c \<and> in_range f l k (Lf a kvs)) \<or>
        AscendToParent s c k = AscendToParent s (c\<lparr>level := int lv - 1\<rparr>) k"
      using leaf_AscendToParent [OF n(2), of s c k a] lv False by (auto split: if_splits)
    then show ?thesis using stop goToKey_up False by blast
  qed
next
  case (2 s f l a ks ts)
  then obtain n where n: "nodes s a = Some n" "intern_node ks (map root_addr ts) n" by auto
  obtain h' where h: "h = Suc h'" "\<forall>t\<in>set ts. bal h' t" using "2.prems" by auto
  have len: "length ts = Suc (length ks)" and ks: "ks \<noteq> []" using "2.prems"(3) by (auto split: if_splits)
  define j where "j = nat (ancestorsIdx c ! lv + 1)"
  have lv: "lv < MAX_TREE_DEPTH" "ancestors c ! lv = Some a" "-1 \<le> ancestorsIdx c ! lv"
    and j: "j < length ts" and cur: "cur c (Suc lv) (ts ! j)"
    using "2.prems"(7) by (auto simp: j_def split: if_splits)
  have "(turned s c (Suc lv) k (ts ! j) \<and> (0 < Suc lv \<longrightarrow> in_range (f \<and> j = 0) (l \<and> j = length ts - 1) k (ts ! j))) \<or>
        (0 < Suc lv \<and> goToKey s c k = goToKey s (c\<lparr>level := int (Suc lv) - 1\<rparr>) k)"
    by (rule "2.IH" [OF j, where rt = False and h = h']) (use "2.prems" h j cur in auto)
  then consider (T) "turned s c (Suc lv) k (ts ! j)" "in_range (f \<and> j = 0) (l \<and> j = length ts - 1) k (ts ! j)"
    | (U) "goToKey s c k = goToKey s (c\<lparr>level := int lv\<rparr>) k" by auto
  then show ?case
  proof cases
    case T
    note ir = in_range_parent [OF T(2) "2.prems"(2) len j]
    have "ancestorsIdx c ! lv = int j - 1" using lv(3) by (simp add: j_def)
    then have "turned s c lv k (Nd a ks ts)"
      using T(1) ir(1) lv j unfolding turned_def by (fastforce simp: agree_below_def)
    then show ?thesis using ir(2) by blast
  next
    case U
    let ?c = "c\<lparr>level := int lv\<rparr>"
    have stop: "turned s c lv k (Nd a ks ts)" if "AscendToParent s ?c k = Some ?c"
    proof -
      have "turned s ?c lv k (Nd a ks ts)"
        by (rule goToKey_stop [OF that _ _ "2.prems"(1-5)]) (use lv "2.prems"(6) in auto)
      then show ?thesis using turned_level [OF U] by simp
    qed
    show ?thesis
    proof (cases "lv = 0")
      case True
      then show ?thesis using stop by (simp add: AscendToParent.simps)
    next
      case False
      have na: "node_at s (currNode ?c) = Some n"
        using n lv "2.prems"(6) by (simp add: currNode_ok [of _ lv] node_at_def)
      let ?u = "upto_key k ks"
      have np: "isNodeParent n k = Some (\<not> (int ?u - 1 = -1 \<or> int ?u - 1 = int (length ks) - 1))"
        using findChildIndex_upto [OF intern_node_keys [OF n(2)] ks, of k] n(2)
        by (simp add: isNodeParent_def intern_node_def)
      have step: "AscendToParent s ?c k =
          (if 0 < ?u \<and> ?u < length ks then Some ?c else AscendToParent s (c\<lparr>level := int lv - 1\<rparr>) k)"
        using na np n(2) False upto_key_le_length [of k ks]
        by (subst AscendToParent.simps) (auto simp: intern_node_def)
      show ?thesis
      proof (cases "0 < ?u \<and> ?u < length ks")
        case True
        have "ks ! 0 \<le> k" "k < ks ! ?u" using True by (auto intro: nth_le_upto_key nth_upto_key_gt)
        moreover have "ks ! 0 \<in> allkeys (Nd a ks ts)" "ks ! ?u \<in> allkeys (Nd a ks ts)" using True ks by auto
        ultimately have "in_range f l k (Nd a ks ts)" unfolding in_range_def by (meson less_imp_le)
        then show ?thesis using stop step True by simp
      next
        case F: False
        then have "goToKey s ?c k = goToKey s (c\<lparr>level := int lv - 1\<rparr>) k"
          using step by (intro goToKey_up) auto
        then show ?thesis using U False by simp
      qed
    qed
  qed
qed

lemma goToKey_root:
  assumes "repr s True True t" "ordered t" "wf_size True t" "bal h t" "h < MAX_TREE_DEPTH" "arrays c" "cur c 0 t"
  shows "\<exists>c'. goToKey s c k = Some c' \<and> route c' 0 k t \<and> arrays c'"
  using goToKey_cases [OF assms(1-4) _ assms(6,7), of k] assms(5) by (auto simp: turned_def)

end
