(* ===== verification/BTree_Put.thy ===== *)
theory BTree_Put
  imports BTree_Repr
begin

text \<open>
  \<open>putEntry\<close> implements insertion from the root: the loops over the entry array of a node, the
  splitting of leaves and interior nodes, and the climb along the cursor's path.
\<close>

section \<open>The loops over the entry array\<close>

lemma shift_right_nth:
  assumes "i < length es"
  shows "\<exists>es'. shift_right es i (int t) = Some es' \<and> length es' = length es \<and>
           (\<forall>m<length es. es' ! m = (if t < m \<and> m \<le> i then es ! (m - 1) else es ! m))"
  using assms
proof (induction es i "int t" rule: shift_right.induct)
  case (1 es)
  then show ?case by auto
next
  case (2 es i)
  show ?case
  proof (cases "t < Suc i")
    case True
    let ?es = "es[Suc i := es ! i]"
    have at: "array_at es (int i) = Some (es ! i)" "array_set es (int (Suc i)) (es ! i) = Some ?es"
      using "2.prems" by (simp_all only: array_at_of_nat array_set_of_nat) auto
    have "\<exists>es'. shift_right ?es i (int t) = Some es' \<and> length es' = length ?es \<and>
        (\<forall>m<length ?es. es' ! m = (if t < m \<and> m \<le> i then ?es ! (m - 1) else ?es ! m))"
      by (rule "2.hyps") (use True at "2.prems" in auto)
    then obtain es' where es': "shift_right ?es i (int t) = Some es'" "length es' = length es"
      "\<forall>m<length es. es' ! m = (if t < m \<and> m \<le> i then ?es ! (m - 1) else ?es ! m)" by auto
    have "es' ! m = (if t < m \<and> m \<le> Suc i then es ! (m - 1) else es ! m)" if "m < length es" for m
      using es'(3) that True by (auto simp: nth_list_update le_Suc_eq)
    then show ?thesis using es' at True by (auto simp del: of_nat_Suc)
  next
    case False
    then show ?thesis by auto
  qed
qed

lemma insert_entry_nth:
  assumes "node_keys ks n" "length ks < FANOUT" "t \<le> length ks"
  shows "\<exists>es. insert_entry n (int t) e = Some (n\<lparr>entries := es, numKeys := numKeys n + 1\<rparr>) \<and>
           length es = FANOUT \<and>
           (\<forall>m\<le>length ks. es ! m = (if m < t then entries n ! m else if m = t then Some e else entries n ! (m - 1)))"
proof -
  have n: "numKeys n = length ks" "length (entries n) = FANOUT" using assms(1) by (auto simp: node_keys_def)
  obtain es where es: "shift_right (entries n) (numKeys n) (int t) = Some es" "length es = FANOUT"
    "\<forall>m<FANOUT. es ! m = (if t < m \<and> m \<le> length ks then entries n ! (m - 1) else entries n ! m)"
    using shift_right_nth [of "numKeys n" "entries n" t] n assms(2) by auto
  have "insert_entry n (int t) e = Some (n\<lparr>entries := es[t := Some e], numKeys := numKeys n + 1\<rparr>)"
    using es assms by (simp add: insert_entry_def)
  moreover have "es[t := Some e] ! m = (if m < t then entries n ! m else if m = t then Some e else entries n ! (m - 1))"
    if "m \<le> length ks" for m
    using es that assms by (auto simp: nth_list_update)
  ultimately show ?thesis using es(2) by (intro exI [of _ "es[t := Some e]"]) auto
qed

lemma allEntries_loop_rest:
  "j + m \<le> length es \<Longrightarrow> allEntries_loop m es e tgt j True = Some (take m (drop j es))"
  by (induction m arbitrary: j) (auto simp: array_at_def Cons_nth_drop_Suc [symmetric])

lemma put_at_Suc: "put_at (Suc t) x (y # ys) = y # put_at t x ys"
  by (simp add: put_at_def)

lemma drop_put_at:
  "j < t \<Longrightarrow> t \<le> length es \<Longrightarrow> drop j (put_at t x es) = es ! j # drop (Suc j) (put_at t x es)"
  by (subst Cons_nth_drop_Suc [symmetric]) (auto simp: nth_put_at)

lemma allEntries_loop_eq:
  "j \<le> t \<Longrightarrow> t \<le> length es \<Longrightarrow> m + j = Suc (length es) \<Longrightarrow>
   allEntries_loop m es e (int t) j False = Some (drop j (put_at t (Some e) es))"
proof (induction m arbitrary: j)
  case 0
  then show ?case by simp
next
  case (Suc m)
  show ?case
  proof (cases "j = t")
    case True
    have "drop t (put_at t (Some e) es) = Some e # drop t es" using Suc.prems by (simp add: put_at_def)
    then show ?thesis using True Suc.prems by (simp add: allEntries_loop_rest)
  next
    case False
    then have j: "j < t" using Suc.prems by simp
    then have "allEntries_loop m es e (int t) (Suc j) False = Some (drop (Suc j) (put_at t (Some e) es))"
      using Suc.prems by (intro Suc.IH) auto
    then show ?thesis using j Suc.prems by (simp add: drop_put_at)
  qed
qed

lemma copy_entries_length [simp]: "length (copy_entries a b d all es) = length es"
proof -
  have "length (fold (\<lambda>i es. es[i - d := all ! i]) is es) = length es" for "is"
    by (induction "is" arbitrary: es) auto
  then show ?thesis by (simp add: copy_entries_def)
qed

lemma copy_entries_nth:
  assumes "d \<le> a" "m < length es"
  shows "copy_entries a b d all es ! m = (if a \<le> m + d \<and> m + d < b then all ! (m + d) else es ! m)"
proof (induction b)
  case (Suc b)
  show ?case
  proof (cases "a \<le> b")
    case True
    then have "copy_entries a (Suc b) d all es = (copy_entries a b d all es)[b - d := all ! b]"
      by (simp add: copy_entries_def)
    then show ?thesis using Suc True assms by (auto simp: nth_list_update less_Suc_eq)
  next
    case False
    then show ?thesis using Suc by (auto simp: copy_entries_def)
  qed
qed (simp add: copy_entries_def)

section \<open>Splitting a node\<close>

text \<open>What \<open>splitnode\<close> does to the two entry arrays, for both kinds of node.\<close>

lemma splitnode_arrays:
  assumes "nodes s a = Some n" "node_keys ks n" "length ks = FANOUT" "below (ekey e) ks = t"
    and "avail s (brk s)" "a \<noteq> brk s"
    and "st = (if leaf then 8 else 9)" and "all = put_at t (Some e) (entries n)"
    and "if leaf then all ! 8 = Some e' else all ! 8 = Some e' \<and> eptr e' = Child q"
  shows "\<exists>n1 n2. splitnode s (Some a) e leaf =
      Some (\<lparr>ekey = ekey e', eptr = Child (brk s)\<rparr>, s\<lparr>nodes := (nodes s)(a \<mapsto> n1, brk s \<mapsto> n2), brk := Suc (brk s)\<rparr>) \<and>
      isLeaf n1 = isLeaf n \<and> FirstLeaf n1 = FirstLeaf n \<and> \<not> LastLeaf n1 \<and> numKeys n1 = 8 \<and> ptr0 n1 = ptr0 n \<and>
      length (entries n1) = FANOUT \<and> (\<forall>m<8. entries n1 ! m = all ! m) \<and>
      isLeaf n2 = leaf \<and> \<not> FirstLeaf n2 \<and> LastLeaf n2 = LastLeaf n \<and> numKeys n2 = 16 - st \<and>
      ptr0 n2 = (if leaf then None else Some q) \<and>
      length (entries n2) = FANOUT \<and> (\<forall>m<16 - st. entries n2 ! m = all ! (m + st))"
proof -
  have n: "numKeys n = 15" "length (entries n) = 15" and t: "t \<le> 15"
    using assms(2,3,4) below_le_length [of "ekey e" ks] by (auto simp: node_keys_def FANOUT_def)
  have fr: "findRecordIndex n (ekey e) = Some (int t)"
    using findRecordIndex_below [OF assms(2)] assms(4) by simp
  have ae: "allEntries_loop 16 (entries n) e (int t) 0 False = Some all"
    using allEntries_loop_eq [of 0 t "entries n" 16 e] n t assms(8) by simp
  have lall: "length all = 16" using n t assms(8) by simp
  define es1 where "es1 = (if t < 8 then copy_entries t 8 0 all (entries n) else entries n)"
  define es2 where "es2 = copy_entries st 16 st all (replicate 15 None)"
  have l1: "length es1 = 15" and l2: "length es2 = 15" using n by (simp_all add: es1_def es2_def)
  have es1: "es1 ! m = all ! m" if "m < 8" for m
  proof -
    have m: "m < length (entries n)" "m \<le> length (entries n)" using that n(2) by auto
    have "m < t \<Longrightarrow> all ! m = entries n ! m" using n t m assms(8) by (simp add: nth_put_at)
    then show ?thesis
      using copy_entries_nth [of 0 t m "entries n" 8 all] m that by (auto simp: es1_def)
  qed
  have st: "8 \<le> st" "st \<le> 16" using assms(7) by auto
  have es2: "es2 ! m = all ! (m + st)" if "m < 16 - st" for m
  proof -
    have "m < length (replicate 15 None :: 'a Entry option list)" using that st by simp
    moreover have "m + st < 16" using that by simp
    ultimately show ?thesis
      using copy_entries_nth [OF order_refl, of m "replicate 15 None" st 16 all] by (simp add: es2_def)
  qed
  let ?n1 = "n\<lparr>entries := es1, numKeys := 8, LastLeaf := False\<rparr>"
  let ?n2 = "\<lparr>isLeaf = leaf, FirstLeaf = False, LastLeaf = LastLeaf n, numKeys = 16 - st,
              ptr0 = (if leaf then None else Some q), entries = es2\<rparr>"
  have "splitnode s (Some a) e leaf =
      Some (\<lparr>ekey = ekey e', eptr = Child (brk s)\<rparr>, s\<lparr>nodes := (nodes s)(a \<mapsto> ?n1, brk s \<mapsto> ?n2), brk := Suc (brk s)\<rparr>)"
    using assms(1,5,6,7,9) fr ae
    by (cases n; cases leaf; cases "LastLeaf n"; cases "t < 8")
      (simp_all add: splitnode_def FANOUT_def Let_def createNewNode_def set_node_def es1_def es2_def
        child_of_def fun_upd_twist)
  then show ?thesis using es1 es2 l1 l2
    by (intro exI [of _ ?n1] exI [of _ ?n2]) (simp add: FANOUT_def)
qed

section \<open>What insertion and splitting make of the two kinds of node\<close>

lemma ins_list_new: "strict_sorted (keys_of kvs) \<Longrightarrow> k \<notin> set (keys_of kvs) \<Longrightarrow>
   ins_list k r kvs = put_at (below k (keys_of kvs)) (k, r) kvs"
  by (simp add: ins_list_take_drop put_at_def)

lemma leaf_all:
  assumes "leaf_node f l kvs n" "t \<le> length kvs" "m \<le> length kvs"
  shows "(if m < t then entries n ! m else if m = t then Some \<lparr>ekey = k, eptr = Record r\<rparr> else entries n ! (m - 1)) =
    Some \<lparr>ekey = fst (put_at t (k, r) kvs ! m), eptr = Record (snd (put_at t (k, r) kvs ! m))\<rparr>"
  using assms by (auto simp: nth_put_at leaf_node_def)

lemma intern_all:
  assumes "intern_node ks as n" "length as = Suc (length ks)" "j \<le> length ks" "m \<le> length ks"
  shows "(if m < j then entries n ! m else if m = j then Some \<lparr>ekey = x, eptr = Child q\<rparr> else entries n ! (m - 1)) =
    Some \<lparr>ekey = put_at j x ks ! m, eptr = Child (put_at (Suc j) q as ! Suc m)\<rparr>"
  using assms by (auto simp: nth_put_at intern_node_def)

lemma insert_leaf:
  assumes "leaf_node f l kvs n" "length kvs < FANOUT" "strict_sorted (keys_of kvs)" "k \<notin> set (keys_of kvs)"
  shows "\<exists>n'. insert_entry n (int (below k (keys_of kvs))) \<lparr>ekey = k, eptr = Record r\<rparr> = Some n' \<and>
           leaf_node f l (ins_list k r kvs) n'"
proof -
  let ?t = "below k (keys_of kvs)"
  have t: "?t \<le> length kvs" using below_le_length [of k "keys_of kvs"] by simp
  obtain es where "insert_entry n (int ?t) \<lparr>ekey = k, eptr = Record r\<rparr> =
      Some (n\<lparr>entries := es, numKeys := numKeys n + 1\<rparr>)" "length es = FANOUT"
    "\<forall>m\<le>length kvs. es ! m = (if m < ?t then entries n ! m else if m = ?t then Some \<lparr>ekey = k, eptr = Record r\<rparr>
        else entries n ! (m - 1))"
    using insert_entry_nth [OF leaf_node_keys [OF assms(1)], of ?t] assms(2) t by auto
  then show ?thesis
    using assms(1,2) t leaf_all [OF assms(1) t]
    by (auto simp: leaf_node_def ins_list_new [OF assms(3,4)] less_Suc_eq_le)
qed

lemma insert_intern:
  assumes "intern_node ks as n" "length as = Suc (length ks)" "length ks < FANOUT" "j \<le> length ks"
  shows "\<exists>n'. insert_entry n (int j) \<lparr>ekey = x, eptr = Child q\<rparr> = Some n' \<and>
           intern_node (put_at j x ks) (put_at (Suc j) q as) n'"
proof -
  obtain es where "insert_entry n (int j) \<lparr>ekey = x, eptr = Child q\<rparr> =
      Some (n\<lparr>entries := es, numKeys := numKeys n + 1\<rparr>)" "length es = FANOUT"
    "\<forall>m\<le>length ks. es ! m = (if m < j then entries n ! m else if m = j then Some \<lparr>ekey = x, eptr = Child q\<rparr>
        else entries n ! (m - 1))"
    using insert_entry_nth [OF intern_node_keys [OF assms(1)], of j] assms(3,4) by auto
  moreover have "put_at (Suc j) q as ! 0 = as ! 0" using assms(2,4) by (simp add: nth_put_at)
  ultimately show ?thesis
    using assms intern_all [OF assms(1,2,4)]
    by (auto simp: intern_node_def less_Suc_eq_le)
qed

lemma splitnode_leaf:
  assumes "nodes s a = Some n" "leaf_node f l kvs n" "length kvs = FANOUT"
    and "strict_sorted (keys_of kvs)" "k \<notin> set (keys_of kvs)" "avail s (brk s)" "a \<noteq> brk s"
    and es: "es = ins_list k r kvs"
  shows "\<exists>n1 n2. splitnode s (Some a) \<lparr>ekey = k, eptr = Record r\<rparr> True =
      Some (\<lparr>ekey = fst (es ! 8), eptr = Child (brk s)\<rparr>,
            s\<lparr>nodes := (nodes s)(a \<mapsto> n1, brk s \<mapsto> n2), brk := Suc (brk s)\<rparr>) \<and>
      leaf_node f False (take 8 es) n1 \<and> leaf_node False l (drop 8 es) n2"
proof -
  let ?t = "below k (keys_of kvs)" and ?e = "\<lparr>ekey = k, eptr = Record r\<rparr>"
  let ?all = "put_at ?t (Some ?e) (entries n)"
  have t: "?t \<le> length kvs" using below_le_length [of k "keys_of kvs"] by simp
  have len: "length kvs = 15" "length (entries n) = 15" using assms(2,3) by (simp_all add: leaf_node_def FANOUT_def)
  have es': "es = put_at ?t (k, r) kvs" "length es = 16"
    using es ins_list_new [OF assms(4,5)] t len by simp_all
  have all: "?all ! m = Some \<lparr>ekey = fst (es ! m), eptr = Record (snd (es ! m))\<rparr>" if "m < 16" for m
    using leaf_all [OF assms(2) t, of m k r] that t len by (simp add: es' nth_put_at)
  obtain n1 n2 where s: "splitnode s (Some a) ?e True =
      Some (\<lparr>ekey = fst (es ! 8), eptr = Child (brk s)\<rparr>,
            s\<lparr>nodes := (nodes s)(a \<mapsto> n1, brk s \<mapsto> n2), brk := Suc (brk s)\<rparr>)"
    "isLeaf n1 = isLeaf n" "FirstLeaf n1 = FirstLeaf n" "\<not> LastLeaf n1" "numKeys n1 = 8"
    "length (entries n1) = FANOUT" "\<forall>m<8. entries n1 ! m = ?all ! m"
    "isLeaf n2" "\<not> FirstLeaf n2" "LastLeaf n2 = LastLeaf n" "numKeys n2 = 8"
    "length (entries n2) = FANOUT" "\<forall>m<8. entries n2 ! m = ?all ! (m + 8)"
    using splitnode_arrays [OF assms(1) leaf_node_keys [OF assms(2)], of ?e ?t 8 True ?all
        "\<lparr>ekey = fst (es ! 8), eptr = Record (snd (es ! 8))\<rparr>"] assms all by auto
  have "leaf_node f False (take 8 es) n1" "leaf_node False l (drop 8 es) n2"
    using s es' len assms(2) all by (auto simp: leaf_node_def FANOUT_def add.commute)
  with s(1) show ?thesis by blast
qed

lemma splitnode_intern:
  assumes "nodes s a = Some n" "intern_node ks as n" "length as = Suc (length ks)" "length ks = FANOUT"
    and "below x ks = j" "avail s (brk s)" "a \<noteq> brk s"
    and ks': "ks' = put_at j x ks" and as': "as' = put_at (Suc j) q as"
  shows "\<exists>n1 n2. splitnode s (Some a) \<lparr>ekey = x, eptr = Child q\<rparr> False =
      Some (\<lparr>ekey = ks' ! 8, eptr = Child (brk s)\<rparr>,
            s\<lparr>nodes := (nodes s)(a \<mapsto> n1, brk s \<mapsto> n2), brk := Suc (brk s)\<rparr>) \<and>
      intern_node (take 8 ks') (take 9 as') n1 \<and> intern_node (drop 9 ks') (drop 9 as') n2"
proof -
  let ?e = "\<lparr>ekey = x, eptr = Child q\<rparr>"
  let ?all = "put_at j (Some ?e) (entries n)"
  have j: "j \<le> length ks" using below_le_length [of x ks] assms(5) by simp
  have len: "length ks = 15" "length (entries n) = 15" "length as = 16"
    using assms(2,3,4) by (simp_all add: intern_node_def FANOUT_def)
  have len': "length ks' = 16" "length as' = 17" using ks' as' j len by simp_all
  have all: "?all ! m = Some \<lparr>ekey = ks' ! m, eptr = Child (as' ! Suc m)\<rparr>" if "m < 16" for m
    using intern_all [OF assms(2,3) j, of m x q] that j len by (simp add: ks' as' nth_put_at)
  have "?all ! 8 = Some \<lparr>ekey = ks' ! 8, eptr = Child (as' ! 9)\<rparr>" using all [of 8] by simp
  then obtain n1 n2 where s: "splitnode s (Some a) ?e False =
      Some (\<lparr>ekey = ks' ! 8, eptr = Child (brk s)\<rparr>,
            s\<lparr>nodes := (nodes s)(a \<mapsto> n1, brk s \<mapsto> n2), brk := Suc (brk s)\<rparr>)"
    "isLeaf n1 = isLeaf n" "numKeys n1 = 8" "ptr0 n1 = ptr0 n"
    "length (entries n1) = FANOUT" "\<forall>m<8. entries n1 ! m = ?all ! m"
    "\<not> isLeaf n2" "numKeys n2 = 7" "ptr0 n2 = Some (as' ! 9)"
    "length (entries n2) = FANOUT" "\<forall>m<7. entries n2 ! m = ?all ! (m + 9)"
    using splitnode_arrays [OF assms(1) intern_node_keys [OF assms(2)], of ?e j 9 False ?all
        "\<lparr>ekey = ks' ! 8, eptr = Child (as' ! 9)\<rparr>" "as' ! 9"] assms by auto
  have "as' ! 0 = as ! 0" using as' j len by (simp add: nth_put_at)
  then have "intern_node (take 8 ks') (take 9 as') n1" "intern_node (drop 9 ks') (drop 9 as') n2"
    using s len' len assms(2) all by (auto simp: intern_node_def FANOUT_def add.commute)
  with s(1) show ?thesis by blast
qed

lemma ins_root_addr:
  "ins b k r t = (Done t', b') \<Longrightarrow> root_addr t' = root_addr t"
  "ins b k r t = (Split t1 x t2, b') \<Longrightarrow> root_addr t1 = root_addr t"
  by (cases t; auto simp: Let_def split: if_splits prod.splits ins_res.splits)+

lemma map_root_split_child:
  "j < length ts \<Longrightarrow> root_addr t1 = root_addr (ts ! j) \<Longrightarrow>
   map root_addr (split_child j t1 t2 ts) = put_at (Suc j) (root_addr t2) (map root_addr ts)"
  by (simp add: split_child_def put_at_def take_map drop_map take_Suc_conv_app_nth)

end
