(* ===== verification/BTree_PutR.thy ===== *)
theory BTree_PutR
  imports BTree_Put
begin

text \<open>
  \<open>putEntry\<close> on the heap implements \<open>ins\<close> on the abstract tree: the climb from the leaf along the
  cursor's path, one node at a time, and the growth of a new root.
\<close>

section \<open>Preparation\<close>

lemma below_ins_list: "below k (keys_of (ins_list k r kvs)) = below k (keys_of kvs)"
  by (induction k r kvs rule: ins_list.induct) (auto simp: below_Cons)

lemma ins_list_old:
  assumes "strict_sorted (keys_of kvs)" "k \<in> set (keys_of kvs)"
  shows "ins_list k r kvs = kvs[below k (keys_of kvs) := (k, r)]"
proof -
  have "below k (keys_of kvs) < length kvs" using mem_below [OF assms(1), of k] assms(2) by simp
  then show ?thesis using assms by (simp add: ins_list_take_drop upd_conv_take_nth_drop)
qed

lemma strict_sorted_put_atD:
  assumes "strict_sorted (put_at j x ks)" "j \<le> length ks"
  shows "below x ks = j"
proof (rule below_eqI)
  have s: "strict_sorted (take j ks @ x # drop j ks)" using assms(1) by (simp add: put_at_def)
  show "ks ! i < x" if "i < j" for i
  proof -
    have "ks ! i \<in> set (take j ks)" using that assms(2) by (auto simp: in_set_conv_nth)
    then show ?thesis using s by (auto simp: sorted_wrt_append)
  qed
  show "x \<le> ks ! j" if "j < length ks"
  proof -
    have "ks ! j \<in> set (drop j ks)" using that by (simp add: Cons_nth_drop_Suc [symmetric])
    then show ?thesis using s by (auto simp: sorted_wrt_append intro: less_imp_le)
  qed
qed (rule assms)

lemma disjoint_children:
  "distinct (concat (map g ts)) \<Longrightarrow> i < length ts \<Longrightarrow> j < length ts \<Longrightarrow> i \<noteq> j \<Longrightarrow>
   set (g (ts ! i)) \<inter> set (g (ts ! j)) = {}"
proof (induction ts arbitrary: i j)
  case (Cons t ts)
  have *: "set (g t) \<inter> set (g (ts ! m)) = {}" if "m < length ts" for m
    using Cons.prems(1) that by (auto dest!: nth_mem)
  show ?case
    using Cons * [of "i - 1"] * [of "j - 1"] by (cases i; cases j) auto
qed simp

lemma concat_distinct_nth: "distinct (concat (map g ts)) \<Longrightarrow> j < length ts \<Longrightarrow> distinct (g (ts ! j))"
  by (simp add: distinct_concat_iff)

definition frame :: "'r Relation \<Rightarrow> 'r Relation \<Rightarrow> addr set \<Rightarrow> addr \<Rightarrow> bool" where
  "frame s s' A b \<longleftrightarrow> root s' = root s \<and> depth s' = depth s \<and> avail s' = avail s \<and> brk s' = b \<and>
     (\<forall>a. a \<notin> A \<longrightarrow> a < brk s \<longrightarrow> nodes s' a = nodes s a)"

text \<open>The children of a node after one of them was replaced, or split in two.\<close>

lemma reprs_update:
  assumes "\<forall>i<length ts. i \<noteq> j \<longrightarrow> repr s (f \<and> i = 0) (l \<and> i = length ts - 1) (ts ! i)"
    and "repr s (f \<and> j = 0) (l \<and> j = length ts - 1) t'"
  shows "\<forall>i<length ts. repr s (f \<and> i = 0) (l \<and> i = length ts - 1) (ts[j := t'] ! i)"
proof (intro allI impI)
  fix i assume "i < length ts"
  then show "repr s (f \<and> i = 0) (l \<and> i = length ts - 1) (ts[j := t'] ! i)"
    using assms by (cases "i = j") (simp_all add: nth_list_update)
qed

lemma reprs_split:
  assumes "\<forall>i<length ts. i \<noteq> j \<longrightarrow> repr s (f \<and> i = 0) (l \<and> i = length ts - 1) (ts ! i)"
    and "repr s (f \<and> j = 0) False t1" "repr s False (l \<and> j = length ts - 1) t2" "j < length ts"
    and "i \<le> length ts"
  shows "repr s (f \<and> i = 0) (l \<and> i = length ts) (split_child j t1 t2 ts ! i)"
proof -
  consider "i < j" | "i = j" | "i = Suc j" | "Suc j < i" by linarith
  then show ?thesis
  proof cases
    case 4
    then have "repr s (f \<and> i - 1 = 0) (l \<and> i - 1 = length ts - 1) (ts ! (i - 1))"
      using assms(1) [rule_format, of "i - 1"] assms(5) by auto
    moreover have "(i - 1 = 0) = (i = 0)" "(i - 1 = length ts - 1) = (i = length ts)" using 4 assms by auto
    ultimately show ?thesis using assms(4,5) 4 by (simp add: nth_split_child)
  next
    case 1
    then have "repr s (f \<and> i = 0) (l \<and> i = length ts - 1) (ts ! i)" using assms by auto
    moreover have "(i = length ts - 1) = False" "(i = length ts) = False" using 1 assms by auto
    ultimately show ?thesis using assms(4,5) 1 by (simp add: nth_split_child)
  next
    case 2
    moreover have "(i = length ts) = False" using 2 assms by auto
    ultimately show ?thesis using assms by (simp add: nth_split_child)
  next
    case 3
    moreover have "(j = length ts - 1) = (i = length ts)" "(i = 0) = False" using 3 assms by auto
    ultimately show ?thesis using assms by (simp add: nth_split_child)
  qed
qed

section \<open>The leaf\<close>

definition put_ok :: "'r Relation \<Rightarrow> bool \<Rightarrow> bool \<Rightarrow> nat \<Rightarrow> Cursor \<Rightarrow> Key \<Rightarrow> 'r \<Rightarrow> 'r btree \<Rightarrow> bool" where
  "put_ok s f l lv c k r t =
     (case ins (brk s) k r t of
        (Done t', b') \<Rightarrow>
          (\<exists>s' c'. putEntry s c (level c) \<lparr>ekey = k, eptr = Record r\<rparr> k = Some (s', c') \<and>
             repr s' f l t' \<and> frame s s' (addrs t) b' \<and>
             numRecords s' = numRecords s + (if k \<in> fst ` set (contents t) then 0 else 1) \<and>
             route c' lv k t' \<and> arrays c' \<and> agree_below lv c c')
      | (Split t1 x t2, b') \<Rightarrow>
          k \<notin> fst ` set (contents t) \<and>
          (\<exists>s'. putEntry s c (level c) \<lparr>ekey = k, eptr = Record r\<rparr> k =
                 putEntry s' (c\<lparr>level := int lv - 1\<rparr>) (int lv - 1) \<lparr>ekey = x, eptr = Child (root_addr t2)\<rparr> k \<and>
             repr s' f False t1 \<and> repr s' False l t2 \<and> frame s s' (addrs t) b' \<and>
             numRecords s' = numRecords s))"

lemma put_leaf:
  assumes "repr s f l (Lf a kvs)" "ordered (Lf a kvs)" "length kvs \<le> FANOUT" "arrays c" "route c lv k (Lf a kvs)"
    and "a < brk s" "avail s (brk s)"
  shows "put_ok s f l lv c k r (Lf a kvs)"
proof -
  obtain n where n: "nodes s a = Some n" "leaf_node f l kvs n" using assms(1) by auto
  let ?t = "below k (keys_of kvs)" and ?e = "\<lparr>ekey = k, eptr = Record r\<rparr>" and ?es = "ins_list k r kvs"
  have sorted: "strict_sorted (keys_of kvs)" using assms(2) by simp
  have lv: "lv < MAX_TREE_DEPTH" "level c = int lv" "ancestors c ! lv = Some a" "ancestorsIdx c ! lv = int ?t"
    using assms(5) by auto
  have cn: "currNode c = Some a" and ei: "entryIndex c = Some (int ?t)"
    using currNode_ok [OF assms(4) lv(2,1)] entryIndex_ok [OF assms(4) lv(2,1)] lv(3,4) by auto
  have lf: "isLeaf n" "numKeys n = length kvs" "length (entries n) = FANOUT" using n(2) by (auto simp: leaf_node_def)
  show ?thesis
  proof (cases "k \<in> set (keys_of kvs)")
    case True
    then have t: "?t < length kvs" using mem_below [OF sorted, of k] by simp
    let ?n = "n\<lparr>entries := (entries n)[?t := Some ?e]\<rparr>"
    have es: "?es = kvs[?t := (k, r)]" by (rule ins_list_old [OF sorted True])
    have "fst (kvs ! ?t) = k" using mem_below [OF sorted, of k] True t by (metis nth_map)
    then have "putEntry s c (level c) ?e k = Some (set_node s a ?n, c)"
      using n lf t assms(3) cn ei lv(2) entry_at_leaf [OF n(2) t] True
      by (subst putEntry.simps) (simp add: array_set_of_nat)
    moreover have "leaf_node f l ?es ?n"
      using n(2) t by (auto simp: es leaf_node_def nth_list_update)
    moreover have "route c lv k (Lf a ?es)" using assms(5) by (simp add: below_ins_list)
    ultimately show ?thesis
      using assms(3,4) True t by (auto simp: put_ok_def Let_def es frame_def set_node_def)
  next
    case new: False
    have ne: "entry_at n (int ?t) = Some \<lparr>ekey = fst (kvs ! ?t), eptr = Record (snd (kvs ! ?t))\<rparr> \<and> fst (kvs ! ?t) \<noteq> k"
      if "?t < length kvs"
      using entry_at_leaf [OF n(2) that] new that by (force simp: in_set_conv_nth)
    show ?thesis
    proof (cases "length kvs < FANOUT")
      case True
      obtain n' where n': "insert_entry n (int ?t) ?e = Some n'" "leaf_node f l ?es n'"
        using insert_leaf [OF n(2) True sorted new] by blast
      let ?s = "(set_node s a n')\<lparr>numRecords := numRecords (set_node s a n') + 1\<rparr>"
      have "putEntry s c (level c) ?e k = Some (?s, c)"
        using n lf ne cn ei lv(2) True n'(1)
        by (subst putEntry.simps) (cases "?t < length kvs"; simp add: Let_def)
      moreover have "route c lv k (Lf a ?es)" using assms(5) by (simp add: below_ins_list)
      moreover have "length ?es \<le> FANOUT" using length_ins_list [OF sorted, of k r] True by simp
      ultimately show ?thesis
        using n'(2) assms(4) new by (auto simp: put_ok_def Let_def frame_def set_node_def)
    next
      case False
      then have len: "length kvs = FANOUT" using assms(3) by simp
      obtain n1 n2 where sp: "splitnode s (Some a) ?e True = Some (\<lparr>ekey = fst (?es ! 8), eptr = Child (brk s)\<rparr>,
            s\<lparr>nodes := (nodes s)(a \<mapsto> n1, brk s \<mapsto> n2), brk := Suc (brk s)\<rparr>)"
        "leaf_node f False (take 8 ?es) n1" "leaf_node False l (drop 8 ?es) n2"
        using splitnode_leaf [OF n len sorted new assms(7) _ refl] assms(6) by blast
      have "putEntry s c (level c) ?e k =
          putEntry (s\<lparr>nodes := (nodes s)(a \<mapsto> n1, brk s \<mapsto> n2), brk := Suc (brk s)\<rparr>) (c\<lparr>level := int lv - 1\<rparr>) (int lv - 1)
            \<lparr>ekey = fst (?es ! 8), eptr = Child (brk s)\<rparr> k"
        using n lf ne cn ei lv(2) False sp(1)
        by (subst putEntry.simps) (cases "?t < length kvs"; simp add: Let_def)
      moreover have "\<not> length ?es \<le> FANOUT" using length_ins_list [OF sorted, of k r] len new by simp
      ultimately show ?thesis
        using sp(2,3) new assms(6) by (auto simp: put_ok_def Let_def frame_def)
    qed
  qed
qed

section \<open>An interior node\<close>

lemma mem_route:
  assumes "ordered (Nd a ks ts)" "length ts = Suc (length ks)"
  shows "k \<in> fst ` set (contents (Nd a ks ts)) \<longleftrightarrow> k \<in> fst ` set (contents (ts ! upto_key k ks))"
proof -
  let ?j = "upto_key k ks"
  have j: "?j < length ts" by (rule child_bounds [OF assms(2)])
  have "k \<notin> fst ` set (concat (map contents (take ?j ts)))" "k \<notin> fst ` set (concat (map contents (drop (Suc ?j) ts)))"
    using keys_left_of_route [OF assms, of k] keys_right_of_route [OF assms, of k] by auto
  then show ?thesis unfolding contents.simps concat_map_nth [OF j, of contents] by auto
qed

lemma intern_node_map: "intern_node ks as n \<Longrightarrow> as = as' \<Longrightarrow> intern_node ks as' n"
  by simp

text \<open>The setting of the interior step: a node of the relation, and a state in which only its
  child at position \<open>j\<close> was rewritten.\<close>

lemma node_siblings:
  assumes "repr s f l (Nd a ks ts)" "distinct (addr_list (Nd a ks ts))" "\<forall>x\<in>addrs (Nd a ks ts). x < brk s"
    and "j < length ts" "frame s s' (addrs (ts ! j)) b'"
  shows "nodes s' a = nodes s a"
    and "\<forall>i<length ts. i \<noteq> j \<longrightarrow> repr s' (f \<and> i = 0) (l \<and> i = length ts - 1) (ts ! i)"
    and "a \<notin> addrs (ts ! j)"
proof -
  have aj: "a \<notin> addrs (ts ! i)" if "i < length ts" for i using assms(2) that by auto
  then show "a \<notin> addrs (ts ! j)" using assms(4) by simp
  then show "nodes s' a = nodes s a" using assms(3,5) by (simp add: frame_def)
  show "\<forall>i<length ts. i \<noteq> j \<longrightarrow> repr s' (f \<and> i = 0) (l \<and> i = length ts - 1) (ts ! i)"
  proof (intro allI impI)
    fix i assume i: "i < length ts" "i \<noteq> j"
    have "addrs (ts ! i) \<inter> addrs (ts ! j) = {}"
      using assms(2,4) i by (intro disjoint_children) auto
    moreover have "\<forall>x\<in>addrs (ts ! i). x < brk s" using assms(3) nth_mem [OF i(1)] by auto
    ultimately have "\<forall>x\<in>addrs (ts ! i). nodes s' x = nodes s x" using assms(5) by (auto simp: frame_def)
    then show "repr s' (f \<and> i = 0) (l \<and> i = length ts - 1) (ts ! i)"
      using repr_frame repr_childD [OF assms(1) i(1)] by blast
  qed
qed

lemma put_node_done:
  assumes "repr s f l (Nd a ks ts)" "ordered (Nd a ks ts)" "length ts = Suc (length ks)"
    and "route c lv k (Nd a ks ts)" "distinct (addr_list (Nd a ks ts))" "\<forall>x\<in>addrs (Nd a ks ts). x < brk s"
    and j: "j = upto_key k ks" and child: "ins (brk s) k r (ts ! j) = (Done t', b')"
    and IH: "put_ok s (f \<and> j = 0) (l \<and> j = length ts - 1) (Suc lv) c k r (ts ! j)"
  shows "put_ok s f l lv c k r (Nd a ks ts)"
proof -
  have jl: "j < length ts" using child_bounds [OF assms(3)] j by simp
  obtain n where n: "nodes s a = Some n" "intern_node ks (map root_addr ts) n" using assms(1) by auto
  obtain s' c' where s': "putEntry s c (level c) \<lparr>ekey = k, eptr = Record r\<rparr> k = Some (s', c')"
      "repr s' (f \<and> j = 0) (l \<and> j = length ts - 1) t'" "frame s s' (addrs (ts ! j)) b'"
      "numRecords s' = numRecords s + (if k \<in> fst ` set (contents (ts ! j)) then 0 else 1)"
      "route c' (Suc lv) k t'" "arrays c'" "agree_below (Suc lv) c c'"
    using IH child by (auto simp: put_ok_def)
  note sib = node_siblings [OF assms(1,5,6) jl s'(3)]
  have ins: "ins (brk s) k r (Nd a ks ts) = (Done (Nd a ks (ts[j := t'])), b')"
    using child jl j by simp
  have "map root_addr ts = map root_addr (ts[j := t'])"
    using ins_root_addr(1) [OF child] jl by (metis list_update_id map_update nth_map)
  then have "repr s' f l (Nd a ks (ts[j := t']))"
    using sib(1) n reprs_update [OF sib(2) s'(2)] intern_node_map [OF n(2)] by auto
  moreover have "frame s s' (addrs (Nd a ks ts)) b'"
    using s'(3) nth_mem [OF jl] by (auto simp: frame_def)
  moreover have "route c' lv k (Nd a ks (ts[j := t']))" "agree_below lv c c'"
    using assms(4) s'(5,7) jl j by (auto simp: agree_below_def)
  moreover have "numRecords s' = numRecords s + (if k \<in> fst ` set (contents (Nd a ks ts)) then 0 else 1)"
    using s'(4) mem_route [OF assms(2,3), of k] j by simp
  ultimately show ?thesis using s'(1,6) ins by (auto simp: put_ok_def simp del: repr.simps route.simps addr_list.simps contents.simps)
qed

text \<open>The facts about a child that was split, in the abstract tree and in the heap.\<close>

lemma child_split:
  assumes "ordered (Nd a ks ts)" "wf_size rt (Nd a ks ts)" "j = upto_key k ks"
    and child: "ins b k r (ts ! j) = (Split t1 x t2, b')"
  shows "ordered (Nd a (put_at j x ks) (split_child j t1 t2 ts))" and "below x ks = j" and "j < length ts"
    and "map root_addr (split_child j t1 t2 ts) = put_at (Suc j) (root_addr t2) (map root_addr ts)"
proof -
  have len: "length ts = Suc (length ks)" using assms(2) by (auto split: if_splits)
  show j: "j < length ts" using child_bounds [OF len] assms(3) by simp
  have oj: "ordered (ts ! j)" "wf_size False (ts ! j)" using assms(1,2) j by auto
  have o: "ordered t1" "ordered t2" "\<forall>x'\<in>allkeys t1. x' < x" "\<forall>x'\<in>allkeys t2. x \<le> x'"
    using ins_ordered [OF oj, of b k r] child by simp_all
  have ne: "allkeys t1 \<noteq> {}" using ins_size [OF oj, of b k r] child by (auto intro!: allkeys_nonempty)
  have sub: "allkeys t1 \<union> {x} \<union> allkeys t2 = insert k (allkeys (ts ! j))"
    by (rule res_keys_Split [OF child oj(2,1)])
  show ord: "ordered (Nd a (put_at j x ks) (split_child j t1 t2 ts))"
    using ordered_split_child [OF assms(1) len o ne] sub assms(3) by simp
  show "below x ks = j"
    using strict_sorted_put_atD [of j x ks] ordered_NdD(1) [OF ord] j len by simp
  show "map root_addr (split_child j t1 t2 ts) = put_at (Suc j) (root_addr t2) (map root_addr ts)"
    by (rule map_root_split_child [OF j ins_root_addr(2) [OF child]])
qed

lemma child_split_addrs:
  assumes "ins b k r (ts ! j) = (Split t1 x t2, b')" "j < length ts" "i \<le> length ts"
    and "\<forall>y\<in>addrs (Nd a ks ts). y < b" "a \<notin> (\<Union>t\<in>set ts. addrs t)"
  shows "\<forall>y\<in>addrs (split_child j t1 t2 ts ! i). y \<noteq> a \<and> y < b'"
proof -
  have u: "addrs t1 \<union> addrs t2 = addrs (ts ! j) \<union> {b..<b'}" and m: "b \<le> b'"
    using ins_addrs_set [of b k r "ts ! j"] ins_mono [of b k r "ts ! j"] assms(1) by simp_all
  have old: "y \<noteq> a \<and> y < b'" if "m < length ts" "y \<in> addrs (ts ! m)" for m y
    using assms(4,5) m that nth_mem [OF that(1)] by fastforce
  have new: "y \<noteq> a \<and> y < b'" if "y \<in> addrs t1 \<union> addrs t2" for y
    using that u old [OF assms(2)] assms(4) m by auto
  show ?thesis
    using old [of i] old [of "i - 1"] new assms(2,3) by (auto simp: nth_split_child split: if_splits)
qed

lemma put_split_setting:
  assumes "repr s f l (Nd a ks ts)" "distinct (addr_list (Nd a ks ts))" "\<forall>x\<in>addrs (Nd a ks ts). x < brk s"
    and "j < length ts" "frame s s' (addrs (ts ! j)) b'"
    and "repr s' (f \<and> j = 0) False t1" "repr s' False (l \<and> j = length ts - 1) t2"
    and child: "ins (brk s) k r (ts ! j) = (Split t1 x t2, b')"
    and eq: "\<And>y. y \<noteq> a \<Longrightarrow> y < b' \<Longrightarrow> nodes s'' y = nodes s' y"
  shows "\<forall>i\<le>length ts. repr s'' (f \<and> i = 0) (l \<and> i = length ts) (split_child j t1 t2 ts ! i)"
proof (intro allI impI)
  fix i assume i: "i \<le> length ts"
  have "repr s' (f \<and> i = 0) (l \<and> i = length ts) (split_child j t1 t2 ts ! i)"
    by (rule reprs_split [OF node_siblings(2) [OF assms(1-5)] assms(6,7,4) i])
  moreover have a: "a \<notin> (\<Union>t\<in>set ts. addrs t)" using assms(2) by auto
  have "\<forall>y\<in>addrs (split_child j t1 t2 ts ! i). nodes s'' y = nodes s' y"
    using child_split_addrs [OF child assms(4) i assms(3) a] eq by blast
  note repr_frame [OF this, of "f \<and> i = 0" "l \<and> i = length ts"]
  ultimately show "repr s'' (f \<and> i = 0) (l \<and> i = length ts) (split_child j t1 t2 ts ! i)" by simp
qed

lemma cursor_at_node:
  assumes "route c lv k (Nd a ks ts)" "arrays c"
  shows "lv < MAX_TREE_DEPTH" and "currNode (c\<lparr>level := int lv\<rparr>) = Some a"
    and "array_at (ancestorsIdx c) (int lv) = Some (int (upto_key k ks) - 1)"
  using assms currNode_ok [of "c\<lparr>level := int lv\<rparr>" lv] by (auto simp: arrays_def)

lemma put_node_room:
  assumes "repr s f l (Nd a ks ts)" "ordered (Nd a ks ts)" "wf_size rt (Nd a ks ts)" "bal h (Nd a ks ts)"
    and "lv + h < MAX_TREE_DEPTH" "arrays c"
    and "route c lv k (Nd a ks ts)" "distinct (addr_list (Nd a ks ts))" "\<forall>x\<in>addrs (Nd a ks ts). x < brk s"
    and j: "j = upto_key k ks" and child: "ins (brk s) k r (ts ! j) = (Split t1 x t2, b')"
    and IH: "put_ok s (f \<and> j = 0) (l \<and> j = length ts - 1) (Suc lv) c k r (ts ! j)"
    and room: "length ks < FANOUT"
  shows "put_ok s f l lv c k r (Nd a ks ts)"
proof -
  note cs = child_split [OF assms(2,3) j child]
  have len: "length ts = Suc (length ks)" using assms(3) by (auto split: if_splits)
  obtain n where n: "nodes s a = Some n" "intern_node ks (map root_addr ts) n" using assms(1) by auto
  let ?e = "\<lparr>ekey = x, eptr = Child (root_addr t2)\<rparr>"
  obtain s' where s': "putEntry s c (level c) \<lparr>ekey = k, eptr = Record r\<rparr> k =
        putEntry s' (c\<lparr>level := int lv\<rparr>) (int lv) ?e k"
      "repr s' (f \<and> j = 0) False t1" "repr s' False (l \<and> j = length ts - 1) t2"
      "frame s s' (addrs (ts ! j)) b'" "numRecords s' = numRecords s" "k \<notin> fst ` set (contents (ts ! j))"
    using IH child by (auto simp: put_ok_def)
  note sib = node_siblings [OF assms(1,8,9) cs(3) s'(4)]
  note at = cursor_at_node [OF assms(7,6)]
  let ?ks = "put_at j x ks" and ?ts = "split_child j t1 t2 ts"
  obtain n' where n': "insert_entry n (int j) ?e = Some n'" "intern_node ?ks (map root_addr ?ts) n'"
    using insert_intern [OF n(2) _ room, of j x "root_addr t2"] len cs(3,4) by auto
  let ?s = "(set_node s' a n')\<lparr>numRecords := numRecords (set_node s' a n') + 1\<rparr>"
  have ins: "ins (brk s) k r (Nd a ks ts) = (Done (Nd a ?ks ?ts), b')"
    using child cs(3) j room by (simp add: Let_def)
  have "\<forall>i\<le>length ts. repr ?s (f \<and> i = 0) (l \<and> i = length ts) (?ts ! i)"
    by (rule put_split_setting [OF assms(1,8,9) cs(3) s'(4,2,3) child]) (simp add: set_node_def)
  then have rep: "repr ?s f l (Nd a ?ks ?ts)"
    using n'(2) cs(3) by (simp add: set_node_def less_Suc_eq_le)
  have "wf_size rt (Nd a ?ks ?ts)" "bal h (Nd a ?ks ?ts)"
    using ins_size [OF assms(2,3), of "brk s" k r] ins_bal [OF assms(4), of "brk s" k r] ins
    by (simp_all del: wf_size.simps bal.simps)
  then obtain c' where c': "moveToKey ?s (Some a) k (c\<lparr>level := int lv\<rparr>) (int lv) = Some c'"
      "route c' lv k (Nd a ?ks ?ts)" "arrays c'" "agree_below lv c c'"
    using moveToKey_route [OF rep cs(1) _ _ assms(5), of rt "c\<lparr>level := int lv\<rparr>" k] assms(6)
    by (auto simp del: repr.simps wf_size.simps bal.simps route.simps)
  have "putEntry s' (c\<lparr>level := int lv\<rparr>) (int lv) ?e k = Some (?s, c')"
    using n n' sib(1) at j c'(1) room
    by (subst putEntry.simps) (simp add: intern_node_def Let_def)
  moreover have "frame s ?s (addrs (Nd a ks ts)) b'"
    using s'(4) nth_mem [OF cs(3)] by (auto simp: frame_def set_node_def)
  moreover have "k \<notin> fst ` set (contents (Nd a ks ts))"
    using s'(6) mem_route [OF assms(2) len, of k] j by simp
  moreover have "numRecords ?s = numRecords s + 1" using s'(5) by (simp add: set_node_def)
  ultimately show ?thesis
    unfolding put_ok_def ins prod.case ins_res.case using s'(1) rep c'(2,3,4)
    by (intro exI [of _ ?s] exI [of _ c']) (simp only: if_False simp_thms)
qed

lemma put_node_full:
  assumes "repr s f l (Nd a ks ts)" "ordered (Nd a ks ts)" "wf_size rt (Nd a ks ts)"
    and "arrays c" "\<forall>n. avail s n"
    and "route c lv k (Nd a ks ts)" "distinct (addr_list (Nd a ks ts))" "\<forall>x\<in>addrs (Nd a ks ts). x < brk s"
    and j: "j = upto_key k ks" and child: "ins (brk s) k r (ts ! j) = (Split t1 x t2, b')"
    and IH: "put_ok s (f \<and> j = 0) (l \<and> j = length ts - 1) (Suc lv) c k r (ts ! j)"
    and full: "length ks = FANOUT"
  shows "put_ok s f l lv c k r (Nd a ks ts)"
proof -
  note cs = child_split [OF assms(2,3) j child]
  have len: "length ts = Suc (length ks)" using assms(3) by (auto split: if_splits)
  obtain n where n: "nodes s a = Some n" "intern_node ks (map root_addr ts) n" using assms(1) by auto
  let ?e = "\<lparr>ekey = x, eptr = Child (root_addr t2)\<rparr>"
  obtain s' where s': "putEntry s c (level c) \<lparr>ekey = k, eptr = Record r\<rparr> k =
        putEntry s' (c\<lparr>level := int lv\<rparr>) (int lv) ?e k"
      "repr s' (f \<and> j = 0) False t1" "repr s' False (l \<and> j = length ts - 1) t2"
      "frame s s' (addrs (ts ! j)) b'" "numRecords s' = numRecords s" "k \<notin> fst ` set (contents (ts ! j))"
    using IH child by (auto simp: put_ok_def)
  note sib = node_siblings [OF assms(1,7,8) cs(3) s'(4)]
  note at = cursor_at_node [OF assms(6,4)]
  let ?ks = "put_at j x ks" and ?ts = "split_child j t1 t2 ts"
  have b': "brk s' = b'" "avail s' b'" "brk s \<le> b'" "a < brk s"
    using s'(4) assms(5,8) ins_mono [of "brk s" k r "ts ! j"] child by (auto simp: frame_def)
  obtain n1 n2 where sp: "splitnode s' (Some a) ?e False = Some (\<lparr>ekey = ?ks ! 8, eptr = Child b'\<rparr>,
          s'\<lparr>nodes := (nodes s')(a \<mapsto> n1, b' \<mapsto> n2), brk := Suc b'\<rparr>)"
      "intern_node (take 8 ?ks) (take 9 (map root_addr ?ts)) n1"
      "intern_node (drop 9 ?ks) (drop 9 (map root_addr ?ts)) n2"
    using splitnode_intern [OF sib(1) [unfolded n(1)] n(2) _ full cs(2) _ _ refl refl, of "root_addr t2"] b' len cs(4)
    by auto
  let ?s = "s'\<lparr>nodes := (nodes s')(a \<mapsto> n1, b' \<mapsto> n2), brk := Suc b'\<rparr>"
  let ?u1 = "Nd a (take 8 ?ks) (take 9 ?ts)" and ?u2 = "Nd b' (drop 9 ?ks) (drop 9 ?ts)"
  have lts: "length ?ts = 17" "length ts = 16" using cs(3) len full by (simp_all add: FANOUT_def)
  have ins: "ins (brk s) k r (Nd a ks ts) = (Split ?u1 (?ks ! 8) ?u2, Suc b')"
    using child cs(3) j full by (simp add: Let_def)
  have ch: "\<forall>i\<le>length ts. repr ?s (f \<and> i = 0) (l \<and> i = length ts) (?ts ! i)"
    by (rule put_split_setting [OF assms(1,7,8) cs(3) s'(4,2,3) child]) simp
  have "repr ?s f False ?u1"
  proof -
    have "repr ?s (f \<and> i = 0) (False \<and> i = length (take 9 ?ts) - 1) (take 9 ?ts ! i)" if "i < 9" for i
      using ch [rule_format, of i] that lts by simp
    then show ?thesis using sp(2) lts b' by (simp add: take_map)
  qed
  moreover have "repr ?s False l ?u2"
  proof -
    have "repr ?s (False \<and> i = 0) (l \<and> i = length (drop 9 ?ts) - 1) (drop 9 ?ts ! i)" if "i < 8" for i
    proof -
      have "(9 + i = 16) = (i = 7)" by auto
      then show ?thesis using ch [rule_format, of "9 + i"] that lts by simp
    qed
    then show ?thesis using sp(3) lts b' by (simp add: drop_map)
  qed
  moreover have "putEntry s' (c\<lparr>level := int lv\<rparr>) (int lv) ?e k =
      putEntry ?s (c\<lparr>level := int lv - 1\<rparr>) (int lv - 1) \<lparr>ekey = ?ks ! 8, eptr = Child (root_addr ?u2)\<rparr> k"
    using n sib(1) at full sp(1)
    by (subst putEntry.simps) (simp add: intern_node_def)
  moreover have "frame s ?s (addrs (Nd a ks ts)) (Suc b')"
    using s'(4) nth_mem [OF cs(3)] b' by (auto simp: frame_def)
  moreover have "k \<notin> fst ` set (contents (Nd a ks ts))"
    using s'(6) mem_route [OF assms(2) len, of k] j by simp
  moreover have "numRecords ?s = numRecords s" using s'(5) by simp
  ultimately show ?thesis
    unfolding put_ok_def ins prod.case ins_res.case using s'(1) by (metis (no_types, lifting))
qed

section \<open>The whole climb\<close>

theorem putEntry_ok:
  assumes "repr s f l t" "ordered t" "wf_size rt t" "bal h t" "lv + h < MAX_TREE_DEPTH" "arrays c" "route c lv k t"
    and "distinct (addr_list t)" "\<forall>x\<in>addrs t. x < brk s" "\<forall>n. avail s n"
  shows "put_ok s f l lv c k r t"
  using assms
proof (induction s f l t arbitrary: rt h lv rule: repr.induct)
  case (1 s f l a kvs)
  show ?case by (rule put_leaf) (use 1 in auto)
next
  case (2 s f l a ks ts)
  define j where "j = upto_key k ks"
  have len: "length ts = Suc (length ks)" using "2.prems"(3) by (auto split: if_splits)
  have j: "j < length ts" using child_bounds [OF len] by (simp add: j_def)
  obtain h' where h: "h = Suc h'" "\<forall>t\<in>set ts. bal h' t" using "2.prems"(4) by auto
  have rc: "route c (Suc lv) k (ts ! j)" using "2.prems"(7) j by (simp add: j_def)
  have IH: "put_ok s (f \<and> j = 0) (l \<and> j = length ts - 1) (Suc lv) c k r (ts ! j)"
  proof (rule "2.IH" [OF j])
    show "distinct (addr_list (ts ! j))"
      by (rule concat_distinct_nth [OF _ j]) (use "2.prems"(8) in simp)
    show "\<forall>x\<in>addrs (ts ! j). x < brk s" using "2.prems"(9) nth_mem [OF j] by auto
    show "wf_size False (ts ! j)" using "2.prems"(3) j by simp
  qed (use "2.prems" j h rc in auto)
  show ?case
  proof (cases "fst (ins (brk s) k r (ts ! j))")
    case (Done t')
    then have child: "ins (brk s) k r (ts ! j) = (Done t', snd (ins (brk s) k r (ts ! j)))"
      by (metis prod.collapse)
    show ?thesis by (rule put_node_done [OF "2.prems"(1,2) len "2.prems"(7,8,9) j_def child IH])
  next
    case (Split t1 x t2)
    then have child: "ins (brk s) k r (ts ! j) = (Split t1 x t2, snd (ins (brk s) k r (ts ! j)))"
      by (metis prod.collapse)
    show ?thesis
    proof (cases "length ks < FANOUT")
      case True
      show ?thesis by (rule put_node_room [OF "2.prems"(1-9) j_def child IH True])
    next
      case False
      then have full: "length ks = FANOUT" using "2.prems"(3) by (auto split: if_splits)
      show ?thesis
        by (rule put_node_full [OF "2.prems"(1-3,6,10,7-9) j_def child IH full])
    qed
  qed
qed

section \<open>The relation invariant\<close>

definition rel_inv :: "'r Relation \<Rightarrow> nat \<Rightarrow> 'r btree \<Rightarrow> bool" where
  "rel_inv s h t \<longleftrightarrow> root s = Some (root_addr t) \<and> repr s True True t \<and> ordered t \<and> wf_size True t \<and> bal h t \<and>
     distinct (addr_list t) \<and> (\<forall>a\<in>addrs t. a < brk s) \<and> (\<forall>n. avail s n) \<and>
     numRecords s = of_nat (length (contents t)) \<and> depth s = int h"

definition put_tree :: "addr \<Rightarrow> Key \<Rightarrow> 'r \<Rightarrow> 'r btree \<Rightarrow> 'r btree" where
  "put_tree b k r t =
     (case ins b k r t of (Done t', b') \<Rightarrow> t' | (Split t1 x t2, b') \<Rightarrow> Nd b' [x] [t1, t2])"

definition put_height :: "addr \<Rightarrow> Key \<Rightarrow> 'r \<Rightarrow> 'r btree \<Rightarrow> nat \<Rightarrow> nat" where
  "put_height b k r t h = (case ins b k r t of (Done t', b') \<Rightarrow> h | (Split t1 x t2, b') \<Rightarrow> Suc h)"

lemma contents_put_tree:
  "ordered t \<Longrightarrow> wf_size rt t \<Longrightarrow> contents (put_tree b k r t) = ins_list k r (contents t)"
  using ins_contents [of t rt b k r] by (auto simp: put_tree_def split: ins_res.splits prod.splits)

lemma put_tree_Done:
  "ins b k r t = (Done t', b') \<Longrightarrow> put_tree b k r t = t' \<and> put_height b k r t h = h"
  by (simp add: put_tree_def put_height_def)

lemma put_tree_Split:
  "ins b k r t = (Split t1 x t2, b') \<Longrightarrow>
   put_tree b k r t = Nd b' [x] [t1, t2] \<and> put_height b k r t h = Suc h"
  by (simp add: put_tree_def put_height_def)

lemma put_tree_abs:
  assumes "ordered t" "wf_size True t" "bal h t" "distinct (addr_list t)" "\<forall>a\<in>addrs t. a < b"
  shows "ordered (put_tree b k r t)" "wf_size True (put_tree b k r t)"
    "bal (put_height b k r t h) (put_tree b k r t)" "distinct (addr_list (put_tree b k r t))"
proof -
  note o = ins_ordered [OF assms(1,2), of b k r] and z = ins_size [OF assms(1,2), of b k r]
    and bl = ins_bal [OF assms(3), of b k r] and d = ins_addrs_distinct [OF assms(4,5), of k r]
    and st = ins_addrs_set [of b k r t] and m = ins_mono [of b k r t]
  have "ordered (put_tree b k r t) \<and> wf_size True (put_tree b k r t) \<and>
    bal (put_height b k r t h) (put_tree b k r t) \<and> distinct (addr_list (put_tree b k r t))"
  proof (cases "ins b k r t")
    case (Pair res b')
    show ?thesis
    proof (cases res)
      case (Done t')
      then show ?thesis using o z bl d put_tree_Done [of b k r t] Pair by simp
    next
      case (Split t1 x t2)
      have "\<forall>y\<in>addrs t1 \<union> addrs t2. y < b'" using st m assms(5) Pair Split by auto
      then show ?thesis using o z bl d put_tree_Split [of b k r t] Pair Split
        by (auto simp: FANOUT_def nth_Cons' less_Suc_eq)
    qed
  qed
  then show "ordered (put_tree b k r t)" "wf_size True (put_tree b k r t)"
    "bal (put_height b k r t h) (put_tree b k r t)" "distinct (addr_list (put_tree b k r t))" by blast+
qed

lemma createNewNode_ok:
  "avail s (brk s) \<Longrightarrow> createNewNode s leaf f l = (Some (brk s), s\<lparr>brk := Suc (brk s), nodes := (nodes s)(brk s \<mapsto>
     \<lparr>isLeaf = leaf, FirstLeaf = f, LastLeaf = l, numKeys = 0, ptr0 = None, entries = replicate FANOUT None\<rparr>)\<rparr>)"
  by (simp add: createNewNode_def set_node_def Let_def)

text \<open>Growing a new root over the two halves of the old one.\<close>

lemma put_new_root:
  assumes "root s = Some (root_addr t1)" "repr s True False t1" "repr s False True t2"
    and "\<forall>a\<in>addrs t1 \<union> addrs t2. a < brk s" "avail s (brk s)" "arrays c"
    and "u = Nd (brk s) [x] [t1, t2]" "ordered u" "wf_size True u" "bal h u" "h < MAX_TREE_DEPTH"
  shows "\<exists>s' c'. putEntry s c (-1) \<lparr>ekey = x, eptr = Child (root_addr t2)\<rparr> k = Some (s', c') \<and>
     root s' = Some (brk s) \<and> repr s' True True u \<and> depth s' = depth s + 1 \<and> avail s' = avail s \<and>
     brk s' = Suc (brk s) \<and> numRecords s' = numRecords s + 1 \<and> route c' 0 k u \<and> arrays c'"
proof -
  let ?e = "\<lparr>ekey = x, eptr = Child (root_addr t2)\<rparr>"
  let ?n = "\<lparr>isLeaf = False, FirstLeaf = False, LastLeaf = False, numKeys = 1, ptr0 = root s,
             entries = (replicate FANOUT None)[0 := Some ?e]\<rparr>"
  let ?s = "s\<lparr>brk := Suc (brk s), nodes := (nodes s)(brk s \<mapsto> ?n), root := Some (brk s),
              depth := depth s + 1, numRecords := numRecords s + 1\<rparr>"
  have "repr ?s f l t1 = repr s f l t1" "repr ?s f l t2 = repr s f l t2" for f l
    using assms(4) by (auto intro!: repr_frame)
  then have rep: "repr ?s True True u"
    using assms(1-3) unfolding assms(7)
    by (auto simp: less_Suc_eq nth_Cons' intern_node_def FANOUT_def)
  have arr: "arrays (c\<lparr>ancestors := (ancestors c)[0 := Some (brk s)]\<rparr>)" using assms(6) by simp
  have sa: "set_ancestor c 0 p = Some (c\<lparr>ancestors := (ancestors c)[0 := p]\<rparr>)" for p
    using set_ancestor_ok [OF assms(6), of 0 p] by (simp add: MAX_TREE_DEPTH_def)
  have as0: "array_set (replicate FANOUT None) 0 v = Some ((replicate FANOUT None)[0 := v])" for v :: "'a Entry option"
    by (simp add: array_set_def FANOUT_def)
  obtain c' where c': "moveToKey ?s (Some (brk s)) k (c\<lparr>ancestors := (ancestors c)[0 := Some (brk s)]\<rparr>) 0 = Some c'"
      "route c' 0 k u" "arrays c'"
    using moveToKey_route [OF rep assms(8,9,10) _ arr, of 0 k] assms(7,11) by auto
  have "putEntry s c (-1) ?e k = Some (?s, c')"
    using c'(1) assms(5) as0 sa
    by (subst putEntry.simps) (simp add: createNewNode_ok set_node_def Let_def)
  then show ?thesis using rep c'(2,3) by (intro exI [of _ ?s] exI [of _ c']) simp
qed

theorem putEntry_root:
  assumes inv: "rel_inv s h t" and "Suc h < MAX_TREE_DEPTH" "arrays c" "route c 0 k t"
  shows "\<exists>s' c'. putEntry s c (level c) \<lparr>ekey = k, eptr = Record r\<rparr> k = Some (s', c') \<and>
     rel_inv s' (put_height (brk s) k r t h) (put_tree (brk s) k r t) \<and>
     route c' 0 k (put_tree (brk s) k r t) \<and> arrays c'"
proof -
  from inv have i: "root s = Some (root_addr t)" "repr s True True t" "ordered t" "wf_size True t" "bal h t"
    "distinct (addr_list t)" "\<forall>a\<in>addrs t. a < brk s" "\<forall>n. avail s n"
    "numRecords s = of_nat (length (contents t))" "depth s = int h"
    by (simp_all add: rel_inv_def)
  have ok: "put_ok s True True 0 c k r t"
    by (rule putEntry_ok [OF i(2-5) _ assms(3,4) i(6-8)]) (use assms(2) in simp)
  note abs = put_tree_abs [OF i(3-7), of k r] and cont = contents_put_tree [OF i(3,4), of "brk s" k r]
  have num: "length (ins_list k r (contents t)) =
      length (contents t) + (if k \<in> fst ` set (contents t) then 0 else 1)"
    by (rule length_ins_list [OF sorted_contents [OF i(3,4)]])
  show ?thesis
  proof (cases "ins (brk s) k r t")
    case (Pair res b')
    have addrs': "set (res_addrs res) = addrs t \<union> {brk s..<b'}" "brk s \<le> b'"
      using ins_addrs_set [of "brk s" k r t] ins_mono [of "brk s" k r t] Pair by simp_all
    show ?thesis
    proof (cases res)
      case (Done t')
      note pt = put_tree_Done [of "brk s" k r t t' b' h, OF Pair [unfolded Done]]
      have ra: "root_addr t' = root_addr t" by (rule ins_root_addr(1) [OF Pair [unfolded Done]])
      obtain s' c' where s': "putEntry s c (level c) \<lparr>ekey = k, eptr = Record r\<rparr> k = Some (s', c')"
        "repr s' True True t'" "frame s s' (addrs t) b'"
        "numRecords s' = numRecords s + (if k \<in> fst ` set (contents t) then 0 else 1)"
        "route c' 0 k t'" "arrays c'"
        using ok Pair Done by (auto simp: put_ok_def)
      have "rel_inv s' h t'"
        using abs cont num s' i pt addrs' Done ra by (auto simp: rel_inv_def frame_def)
      then show ?thesis using s' pt by auto
    next
      case (Split t1 x t2)
      note pt = put_tree_Split [of "brk s" k r t t1 x t2 b' h, OF Pair [unfolded Split]]
      have ra: "root_addr t1 = root_addr t" by (rule ins_root_addr(2) [OF Pair [unfolded Split]])
      obtain s' where s': "putEntry s c (level c) \<lparr>ekey = k, eptr = Record r\<rparr> k =
          putEntry s' (c\<lparr>level := -1\<rparr>) (-1) \<lparr>ekey = x, eptr = Child (root_addr t2)\<rparr> k"
        "repr s' True False t1" "repr s' False True t2" "frame s s' (addrs t) b'"
        "numRecords s' = numRecords s" "k \<notin> fst ` set (contents t)"
        using ok Pair Split by (auto simp: put_ok_def)
      have fr: "brk s' = b'" "root s' = Some (root_addr t1)" "avail s' = avail s" "depth s' = int h"
        using s'(4) i ra by (auto simp: frame_def)
      have lt: "\<forall>a\<in>addrs t1 \<union> addrs t2. a < brk s'" using addrs' i(7) fr Split by auto
      obtain s'' c'' where s'': "putEntry s' (c\<lparr>level := -1\<rparr>) (-1) \<lparr>ekey = x, eptr = Child (root_addr t2)\<rparr> k = Some (s'', c'')"
        "root s'' = Some b'" "repr s'' True True (put_tree (brk s) k r t)" "depth s'' = int h + 1"
        "avail s'' = avail s" "brk s'' = Suc b'" "numRecords s'' = numRecords s + 1"
        "route c'' 0 k (put_tree (brk s) k r t)" "arrays c''"
        using put_new_root [OF fr(2) s'(2,3) lt _ _ _ abs(1-3), of "c\<lparr>level := -1\<rparr>" x k] assms(2,3) pt fr i s'(5)
        by auto
      have "rel_inv s'' (Suc h) (put_tree (brk s) k r t)"
        using abs cont num s''(2-7) i pt addrs' Split s'(6) lt fr(1)
        by (auto simp: rel_inv_def add.commute)
      then show ?thesis using s'(1) s''(1,8,9) pt by (auto simp del: route.simps)
    qed
  qed
qed

end
