(* ===== verification/BTree_Cursor.thy ===== *)
theory BTree_Cursor
  imports BTree_PutR
begin

text \<open>
  The meaning of a cursor: a position in the list of records of the relation. Moving a cursor to
  the first record or to the next one, testing it for validity and reading the key and the record
  it points to are described by that position.
\<close>

section \<open>Positions\<close>

text \<open>The end of a leaf and the beginning of the next leaf are the same position; \<open>leaf_end\<close> tells
  them apart.\<close>

function pos :: "Cursor \<Rightarrow> nat \<Rightarrow> 'r btree \<Rightarrow> nat" where
  "pos c lv (Lf a kvs) = nat (ancestorsIdx c ! lv)"
| "pos c lv (Nd a ks ts) =
     (let j = nat (ancestorsIdx c ! lv + 1) in
      if j < length ts then length (concat (map contents (take j ts))) + pos c (Suc lv) (ts ! j) else 0)"
  by pat_completeness auto
termination
  by (relation "measure (\<lambda>(c, lv, t). size t)") (auto simp: less_Suc_eq_le intro!: size_list_estimation' nth_mem)

function leaf_end :: "Cursor \<Rightarrow> nat \<Rightarrow> 'r btree \<Rightarrow> bool" where
  "leaf_end c lv (Lf a kvs) = (ancestorsIdx c ! lv = int (length kvs))"
| "leaf_end c lv (Nd a ks ts) =
     (let j = nat (ancestorsIdx c ! lv + 1) in
      if j < length ts then leaf_end c (Suc lv) (ts ! j) else False)"
  by pat_completeness auto
termination
  by (relation "measure (\<lambda>(c, lv, t). size t)") (auto simp: less_Suc_eq_le intro!: size_list_estimation' nth_mem)

lemma length_take_Suc:
  "j < length ts \<Longrightarrow> length (concat (map contents (take (Suc j) ts))) =
     length (concat (map contents (take j ts))) + length (contents (ts ! j))"
  by (simp add: take_Suc_conv_app_nth)

lemma length_contents_split:
  "j < length ts \<Longrightarrow> length (contents (Nd a ks ts)) =
     length (concat (map contents (take j ts))) + length (contents (ts ! j)) +
     length (concat (map contents (drop (Suc j) ts)))"
  by (simp only: contents.simps concat_map_nth [of j ts contents] length_append add.assoc)

lemma contents_nonempty: "wf_size False t \<Longrightarrow> contents t \<noteq> []"
proof (induction t)
  case (Nd a ks ts)
  then obtain t where "t \<in> set ts" "contents t \<noteq> []" by (cases ts) auto
  then show ?case by auto
qed auto

lemma pos_le: "cur c lv t \<Longrightarrow> pos c lv t \<le> length (contents t)"
proof (induction c lv t rule: cur.induct)
  case (2 c lv a ks ts)
  let ?j = "nat (ancestorsIdx c ! lv + 1)"
  have j: "?j < length ts" "cur c (Suc lv) (ts ! ?j)" using "2.prems" by (auto split: if_splits)
  have "pos c (Suc lv) (ts ! ?j) \<le> length (contents (ts ! ?j))" by (rule "2.IH" [OF j])
  then show ?case using j(1) length_contents_split [OF j(1), of a ks] by (simp add: Let_def del: contents.simps)
qed auto

text \<open>A cursor that followed the route of a key stands on the first record whose key is not smaller.\<close>

lemma below_append_left: "\<forall>x\<in>set xs. x < k \<Longrightarrow> below k (xs @ ys) = length xs + below k ys"
  by (induction xs) (auto simp: below_Cons)

lemma below_append_right: "\<forall>y\<in>set ys. k \<le> y \<Longrightarrow> below k (xs @ ys) = below k xs"
proof (induction xs)
  case Nil
  then show ?case by (cases ys) (auto simp: below_Cons)
qed (auto simp: below_Cons)

lemma route_pos:
  "route c lv k t \<Longrightarrow> ordered t \<Longrightarrow> wf_size rt t \<Longrightarrow> pos c lv t = below k (keys_of (contents t))"
proof (induction c lv k t arbitrary: rt rule: route.induct)
  case (2 c lv k a ks ts)
  let ?j = "upto_key k ks"
  have len: "length ts = Suc (length ks)" using "2.prems"(3) by (auto split: if_splits)
  have j: "?j < length ts" by (rule child_bounds [OF len])
  have IH: "pos c (Suc lv) (ts ! ?j) = below k (keys_of (contents (ts ! ?j)))"
    by (rule "2.IH" [OF j, of False]) (use "2.prems" j in auto)
  have idx: "ancestorsIdx c ! lv = int ?j - 1" using "2.prems"(1) by simp
  have "below k (keys_of (contents (Nd a ks ts))) =
      length (concat (map contents (take ?j ts))) + below k (keys_of (contents (ts ! ?j)))"
  proof -
    note L = keys_left_of_route [OF "2.prems"(2) len, of k] and R = keys_right_of_route [OF "2.prems"(2) len, of k]
    have R': "\<forall>y\<in>set (keys_of (concat (map contents (drop (Suc ?j) ts)))). k \<le> y" using R by (auto intro: less_imp_le)
    show ?thesis
      unfolding contents.simps concat_map_nth [OF j, of contents] map_append append_assoc
      by (simp only: below_append_left [OF L] below_append_right [OF R'] length_map)
  qed
  then show ?case using IH idx j by (simp add: Let_def)
qed auto

section \<open>Reading at a position\<close>

text \<open>The node and the index a cursor points at.\<close>

definition looks_at ::
  "'r Relation \<Rightarrow> bool \<Rightarrow> bool \<Rightarrow> Cursor \<Rightarrow> (Key \<times> 'r) list \<Rightarrow> nat \<Rightarrow> bool \<Rightarrow> bool" where
  "looks_at s f l c xs p e \<longleftrightarrow>
     (\<exists>n i. node_at s (currNode c) = Some n \<and> entryIndex c = Some (int i) \<and> isLeaf n \<and> i \<le> numKeys n \<and>
        e = (i = numKeys n) \<and> p \<le> length xs \<and>
        (LastLeaf n \<and> i = numKeys n) = (l \<and> p = length xs) \<and> (FirstLeaf n \<and> i = 0) = (f \<and> p = 0) \<and>
        (i < numKeys n \<longrightarrow> p < length xs \<and>
           entry_at n (int i) = Some \<lparr>ekey = fst (xs ! p), eptr = Record (snd (xs ! p))\<rparr>))"

lemma looks_at_extend:
  assumes "looks_at s f' l' c ys q e" "f' = (f \<and> us = [])" "l' = (l \<and> vs = [])"
  shows "looks_at s f l c (us @ ys @ vs) (length us + q) e"
proof -
  obtain n i where n: "node_at s (currNode c) = Some n" "entryIndex c = Some (int i)" "isLeaf n" "i \<le> numKeys n"
    "e = (i = numKeys n)" "q \<le> length ys"
    "(LastLeaf n \<and> i = numKeys n) = (l' \<and> q = length ys)" "(FirstLeaf n \<and> i = 0) = (f' \<and> q = 0)"
    "i < numKeys n \<longrightarrow> q < length ys \<and>
       entry_at n (int i) = Some \<lparr>ekey = fst (ys ! q), eptr = Record (snd (ys ! q))\<rparr>"
    using assms(1) unfolding looks_at_def by (elim exE conjE) (rule that; assumption)
  have 1: "(LastLeaf n \<and> i = numKeys n) = (l \<and> length us + q = length (us @ ys @ vs))"
    using n(7,6) assms(3) by auto
  have 2: "(FirstLeaf n \<and> i = 0) = (f \<and> length us + q = 0)" using n(8) assms(2) by auto
  have 3: "(us @ ys @ vs) ! (length us + q) = ys ! q" if "q < length ys" using that by (simp add: nth_append)
  have 4: "length us + q \<le> length (us @ ys @ vs)" using n(6) by simp
  show ?thesis unfolding looks_at_def using n(1-5,9) 1 2 3 4
    by (intro exI [of _ n] exI [of _ i]) (auto simp del: append_assoc)
qed

lemma concat_contents_Nil:
  assumes "\<forall>t\<in>set ts. wf_size False t"
  shows "concat (map contents ts) = [] \<longleftrightarrow> ts = []"
  using assms contents_nonempty by (cases ts) auto

lemma cur_leaf:
  assumes "repr s f l t" "cur c lv t" "arrays c" "wf_size rt t"
  shows "looks_at s f l c (contents t) (pos c lv t) (leaf_end c lv t)"
  using assms
proof (induction s f l t arbitrary: lv rt rule: repr.induct)
  case (1 s f l a kvs)
  then obtain n where n: "nodes s a = Some n" "leaf_node f l kvs n" by auto
  have lv: "lv < MAX_TREE_DEPTH" "level c = int lv" "ancestors c ! lv = Some a"
    "0 \<le> ancestorsIdx c ! lv" "ancestorsIdx c ! lv \<le> int (length kvs)" using "1.prems"(2) by auto
  then obtain i where i: "ancestorsIdx c ! lv = int i" "i \<le> length kvs" by (metis nonneg_int_cases of_nat_le_iff)
  have "node_at s (currNode c) = Some n" "entryIndex c = Some (int i)"
    using n lv i "1.prems"(3) by (simp_all add: currNode_ok entryIndex_ok node_at_def)
  moreover have "entry_at n (int i) = Some \<lparr>ekey = fst (kvs ! i), eptr = Record (snd (kvs ! i))\<rparr>" if "i < length kvs"
    by (rule entry_at_leaf [OF n(2) that])
  ultimately show ?case using n(2) i unfolding looks_at_def
    by (intro exI [of _ n] exI [of _ i]) (auto simp: leaf_node_def)
next
  case (2 s f l a ks ts)
  define j where "j = nat (ancestorsIdx c ! lv + 1)"
  have j: "j < length ts" and cur: "cur c (Suc lv) (ts ! j)" using "2.prems"(2) by (auto simp: j_def split: if_splits)
  have wf: "\<forall>t\<in>set ts. wf_size False t" using "2.prems"(4) by auto
  have IH: "looks_at s (f \<and> j = 0) (l \<and> j = length ts - 1) c (contents (ts ! j)) (pos c (Suc lv) (ts ! j))
      (leaf_end c (Suc lv) (ts ! j))"
    by (rule "2.IH" [OF j _ cur "2.prems"(3), of False]) (use "2.prems"(1) j wf in auto)
  have "\<forall>t\<in>set (take j ts). wf_size False t" "\<forall>t\<in>set (drop (Suc j) ts). wf_size False t"
    using wf by (auto dest: in_set_takeD in_set_dropD)
  note nil = this [THEN concat_contents_Nil]
  have "concat (map contents (take j ts)) = [] \<longleftrightarrow> j = 0"
    "concat (map contents (drop (Suc j) ts)) = [] \<longleftrightarrow> j = length ts - 1"
    unfolding nil using j by auto
  then have "looks_at s f l c (concat (map contents ts))
      (length (concat (map contents (take j ts))) + pos c (Suc lv) (ts ! j)) (leaf_end c (Suc lv) (ts ! j))"
    unfolding concat_map_nth [OF j, of contents] by (intro looks_at_extend [OF IH]) auto
  then show ?case using j by (simp add: j_def Let_def)
qed

lemma pos_child:
  assumes "ancestorsIdx c ! lv = int j - 1" "j < length ts"
  shows "pos c lv (Nd a ks ts) = length (concat (map contents (take j ts))) + pos c (Suc lv) (ts ! j)"
    and "leaf_end c lv (Nd a ks ts) = leaf_end c (Suc lv) (ts ! j)"
  using assms by (simp_all add: Let_def)

lemma cur_NdI:
  assumes "lv < MAX_TREE_DEPTH" "ancestors c ! lv = Some a" "ancestorsIdx c ! lv = int j - 1" "j < length ts"
    and "cur c (Suc lv) (ts ! j)"
  shows "cur c lv (Nd a ks ts)"
  using assms by simp

lemma cur_NdE:
  assumes "cur c lv (Nd a ks ts)"
  obtains j where "lv < MAX_TREE_DEPTH" "ancestors c ! lv = Some a" "ancestorsIdx c ! lv = int j - 1"
    "j < length ts" "cur c (Suc lv) (ts ! j)"
proof -
  define j where "j = nat (ancestorsIdx c ! lv + 1)"
  have "lv < MAX_TREE_DEPTH" "ancestors c ! lv = Some a" "j < length ts" "cur c (Suc lv) (ts ! j)"
    using assms by (auto simp: j_def split: if_splits)
  moreover have "ancestorsIdx c ! lv = int j - 1" using assms by (auto simp: j_def)
  ultimately show thesis using that by blast
qed

text \<open>The child a node holds at position \<open>j\<close>, read through its entries.\<close>

lemma child_at:
  assumes "intern_node ks as n" "0 < j" "j \<le> length ks"
  shows "\<exists>e. entry_at n (int j - 1) = Some e \<and> child_of e = Some (as ! j)"
proof -
  obtain i where i: "j = Suc i" using assms(2) by (cases j) auto
  then show ?thesis using entry_at_intern [OF assms(1), of i] assms(3) by (auto simp: child_of_def)
qed

section \<open>The first record of a tree\<close>

lemma moveToFirst_cur:
  assumes "repr s f l t" "wf_size rt t" "bal h t" "lv + h < MAX_TREE_DEPTH" "arrays c"
  shows "\<exists>c'. moveToFirst s (Some (root_addr t)) c (int lv) = Some c' \<and> cur c' lv t \<and> pos c' lv t = 0 \<and>
           (leaf_end c' lv t \<longleftrightarrow> contents t = []) \<and> arrays c' \<and> agree_below lv c c'"
  using assms
proof (induction s f l t arbitrary: rt h lv c rule: repr.induct)
  case (1 s f l a kvs)
  then obtain n where n: "nodes s a = Some n" "leaf_node f l kvs n" by auto
  have lv: "lv < MAX_TREE_DEPTH" using "1.prems" by simp
  let ?c = "c\<lparr>ancestors := (ancestors c)[lv := Some a]\<rparr>"
  let ?c' = "?c\<lparr>level := int lv, ancestorsIdx := (ancestorsIdx c)[lv := 0]\<rparr>"
  have "isLeaf n" using n(2) by (simp add: leaf_node_def)
  then have "moveToFirst s (Some a) c (int lv) = Some ?c'"
    using n lv "1.prems"(5) by (subst moveToFirst.simps) (simp add: node_at_def set_ancestor_ok set_index_ok Let_def)
  moreover have "cur ?c' lv (Lf a kvs)" "arrays ?c'" "agree_below lv c ?c'" "pos ?c' lv (Lf a kvs) = 0"
    "leaf_end ?c' lv (Lf a kvs) = (kvs = [])"
    using lv "1.prems"(5) by (auto simp: arrays_def agree_below_def)
  ultimately show ?case by auto
next
  case (2 s f l a ks ts)
  then obtain n where n: "nodes s a = Some n" "intern_node ks (map root_addr ts) n" by auto
  obtain h' where h: "h = Suc h'" "\<forall>t\<in>set ts. bal h' t" using "2.prems" by auto
  have ts: "0 < length ts" using "2.prems"(2) by (auto split: if_splits)
  have lv: "lv < MAX_TREE_DEPTH" using "2.prems" by simp
  have wf0: "wf_size False (ts ! 0)" using "2.prems"(2) ts by auto
  let ?c = "c\<lparr>ancestors := (ancestors c)[lv := Some a], level := int lv, ancestorsIdx := (ancestorsIdx c)[lv := -1]\<rparr>"
  have arr: "arrays ?c" using "2.prems"(5) by (simp add: arrays_def)
  have step: "moveToFirst s (Some a) c (int lv) = moveToFirst s (Some (root_addr (ts ! 0))) ?c (int (Suc lv))"
    using lv n "2.prems"(5) ts
    by (subst moveToFirst.simps) (simp add: node_at_def set_ancestor_ok set_index_ok add.commute Let_def intern_node_def)
  have "\<exists>c'. moveToFirst s (Some (root_addr (ts ! 0))) ?c (int (Suc lv)) = Some c' \<and>
      cur c' (Suc lv) (ts ! 0) \<and> pos c' (Suc lv) (ts ! 0) = 0 \<and> (leaf_end c' (Suc lv) (ts ! 0) \<longleftrightarrow> contents (ts ! 0) = []) \<and>
      arrays c' \<and> agree_below (Suc lv) ?c c'"
    by (rule "2.IH" [OF ts, where rt = False and h = h']) (use "2.prems" ts h arr wf0 in auto)
  then obtain c' where c': "moveToFirst s (Some (root_addr (ts ! 0))) ?c (int (Suc lv)) = Some c'"
    "cur c' (Suc lv) (ts ! 0)" "pos c' (Suc lv) (ts ! 0) = 0" "\<not> leaf_end c' (Suc lv) (ts ! 0)"
    "arrays c'" "agree_below (Suc lv) ?c c'" using contents_nonempty [OF wf0] by blast
  have ag: "agree_below lv c c'" "ancestors c' ! lv = Some a" "ancestorsIdx c' ! lv = int 0 - 1"
    using c'(6) lv "2.prems"(5) by (auto simp: agree_below_def arrays_def)
  note p = pos_child [OF ag(3) ts, of a ks] and cur = cur_NdI [OF lv ag(2,3) ts c'(2), of ks]
  have "contents (Nd a ks ts) \<noteq> []" using contents_nonempty [OF wf0] ts by (auto intro!: bexI [of _ "ts ! 0"])
  then show ?case using step c' ag p cur
    by (intro exI [of _ c']) (simp del: cur.simps pos.simps leaf_end.simps contents.simps)
qed

section \<open>The next position\<close>

text \<open>\<open>moveToNext\<close> without its guards.\<close>

definition advance :: "'r Relation \<Rightarrow> Cursor \<Rightarrow> Cursor option" where
  "advance s c = do {
     c \<leftarrow> ascend_last s c;
     i \<leftarrow> entryIndex c;
     c \<leftarrow> set_index c (level c) (i + 1);
     n \<leftarrow> node_at s (currNode c);
     if isLeaf n then Some c
     else do {
       e \<leftarrow> entry_at n (i + 1);
       a \<leftarrow> child_of e;
       moveToFirst s (Some a) c (level c + 1) } }"

definition advanced :: "'r Relation \<Rightarrow> Cursor \<Rightarrow> nat \<Rightarrow> 'r btree \<Rightarrow> bool" where
  "advanced s c lv t \<longleftrightarrow>
     (\<exists>c'. advance s c = Some c' \<and> cur c' lv t \<and> arrays c' \<and> agree_below lv c c' \<and>
           (if leaf_end c lv t then pos c' lv t = pos c lv t \<and> \<not> leaf_end c' lv t
            else pos c' lv t = Suc (pos c lv t)))"

lemma advance_up: "ascend_last s c = ascend_last s c' \<Longrightarrow> advance s c = advance s c'"
  by (simp add: advance_def)

text \<open>A node whose last child is used up is left upwards; otherwise its next child is entered.\<close>

lemma advance_to_child:
  assumes "repr s f l (Nd a ks ts)" "wf_size rt (Nd a ks ts)" "bal h (Nd a ks ts)" "lv + h < MAX_TREE_DEPTH" "arrays c"
    and "ancestors c ! lv = Some a" "ancestorsIdx c ! lv = int j - 1" "Suc j < length ts"
    and "ascend_last s c = Some (c\<lparr>level := int lv\<rparr>)"
    and "pos c (Suc lv) (ts ! j) = length (contents (ts ! j))" "leaf_end c (Suc lv) (ts ! j)"
  shows "advanced s c lv (Nd a ks ts)"
proof -
  obtain n where n: "nodes s a = Some n" "intern_node ks (map root_addr ts) n" using assms(1) by auto
  have len: "length ts = Suc (length ks)" using assms(2) by (auto split: if_splits)
  obtain h' where h: "h = Suc h'" "\<forall>t\<in>set ts. bal h' t" using assms(3) by auto
  have lv: "lv < MAX_TREE_DEPTH" using assms(4) by simp
  have wf: "wf_size False (ts ! Suc j)" using assms(2,8) by auto
  let ?c = "c\<lparr>level := int lv, ancestorsIdx := (ancestorsIdx c)[lv := int j]\<rparr>"
  have arr: "arrays ?c" using assms(5) by (simp add: arrays_def)
  obtain c' where c': "moveToFirst s (Some (root_addr (ts ! Suc j))) ?c (int (Suc lv)) = Some c'"
    "cur c' (Suc lv) (ts ! Suc j)" "pos c' (Suc lv) (ts ! Suc j) = 0" "\<not> leaf_end c' (Suc lv) (ts ! Suc j)"
    "arrays c'" "agree_below (Suc lv) ?c c'"
    using moveToFirst_cur [OF repr_childD [OF assms(1,8)] wf, of h' "Suc lv" ?c] contents_nonempty [OF wf]
      arr h assms(4,8) by auto
  obtain e where e: "entry_at n (int j) = Some e" "child_of e = Some (root_addr (ts ! Suc j))"
    using child_at [OF n(2), of "Suc j"] len assms(8) by auto
  have "advance s c = Some c'"
    using assms(5-7,9) lv n e c'(1) currNode_ok [OF arr, of lv]
    by (simp add: advance_def entryIndex_ok [of _ lv] set_index_ok node_at_def intern_node_def add.commute)
  moreover have ag: "agree_below lv c c'" "ancestors c' ! lv = Some a" "ancestorsIdx c' ! lv = int (Suc j) - 1"
    using c'(6) lv assms(5,6) by (auto simp: agree_below_def arrays_def)
  moreover note pos_child [OF ag(3) assms(8), of a ks] cur_NdI [OF lv ag(2,3) assms(8) c'(2), of ks]
  moreover note pos_child [OF assms(7) Suc_lessD [OF assms(8)], of a ks] length_take_Suc [OF Suc_lessD [OF assms(8)]]
  ultimately show ?thesis unfolding advanced_def using c'(3-5) assms(10,11)
    by (intro exI [of _ c']) (simp del: cur.simps pos.simps leaf_end.simps)
qed

lemma advance_cases:
  assumes "repr s f l t" "wf_size rt t" "bal h t" "lv + h < MAX_TREE_DEPTH" "arrays c" "cur c lv t"
  shows "advanced s c lv t \<or>
         (pos c lv t = length (contents t) \<and> leaf_end c lv t \<and>
          (0 < lv \<longrightarrow> ascend_last s c = ascend_last s (c\<lparr>level := int lv - 1\<rparr>)))"
  using assms
proof (induction s f l t arbitrary: rt h lv rule: repr.induct)
  case (1 s f l a kvs)
  then obtain n where n: "nodes s a = Some n" "leaf_node f l kvs n" by auto
  have lv: "lv < MAX_TREE_DEPTH" "level c = int lv" "ancestors c ! lv = Some a"
    "0 \<le> ancestorsIdx c ! lv" "ancestorsIdx c ! lv \<le> int (length kvs)" using "1.prems"(6) by auto
  then obtain i where i: "ancestorsIdx c ! lv = int i" "i \<le> length kvs" by (metis nonneg_int_cases of_nat_le_iff)
  have at: "entryIndex c = Some (int i)" "node_at s (currNode c) = Some n" "isLeaf n" "numKeys n = length kvs"
    using entryIndex_ok [OF "1.prems"(5) lv(2,1)] currNode_ok [OF "1.prems"(5) lv(2,1)] lv(3) i n
    by (auto simp: node_at_def leaf_node_def)
  show ?case
  proof (cases "i = length kvs")
    case True
    have "ascend_last s c = ascend_last s (c\<lparr>level := int lv - 1\<rparr>)" if "0 < lv"
      using that lv(2) at True by (subst ascend_last.simps) (simp add: lastpointer_def)
    then show ?thesis using True i by simp
  next
    case False
    let ?c' = "c\<lparr>ancestorsIdx := (ancestorsIdx c)[lv := int (Suc i)]\<rparr>"
    have "ascend_last s c = Some c"
      using lv(2) at False i by (subst ascend_last.simps) (simp add: lastpointer_def)
    moreover have "node_at s (currNode ?c') = Some n" using at(2) by (simp add: currNode_def)
    ultimately have "advance s c = Some ?c'"
      using lv at "1.prems"(5) by (simp add: advance_def set_index_ok add.commute)
    moreover have "cur ?c' lv (Lf a kvs)" "arrays ?c'" "agree_below lv c ?c'" "pos ?c' lv (Lf a kvs) = Suc i"
      using lv i False "1.prems"(5) by (auto simp: arrays_def agree_below_def)
    ultimately show ?thesis using i False by (auto simp: advanced_def)
  qed
next
  case (2 s f l a ks ts)
  obtain n where n: "nodes s a = Some n" "intern_node ks (map root_addr ts) n" using "2.prems"(1) by auto
  have len: "length ts = Suc (length ks)" using "2.prems"(2) by (auto split: if_splits)
  obtain h' where h: "h = Suc h'" "\<forall>t\<in>set ts. bal h' t" using "2.prems"(3) by auto
  obtain j where j: "lv < MAX_TREE_DEPTH" "ancestors c ! lv = Some a" "ancestorsIdx c ! lv = int j - 1"
    "j < length ts" "cur c (Suc lv) (ts ! j)" by (rule cur_NdE [OF "2.prems"(6)])
  note pc = pos_child [OF j(3,4), of a ks]
  have "advanced s c (Suc lv) (ts ! j) \<or>
      (pos c (Suc lv) (ts ! j) = length (contents (ts ! j)) \<and> leaf_end c (Suc lv) (ts ! j) \<and>
       (0 < Suc lv \<longrightarrow> ascend_last s c = ascend_last s (c\<lparr>level := int (Suc lv) - 1\<rparr>)))"
    by (rule "2.IH" [OF j(4), where rt = False and h = h']) (use "2.prems" h j in auto)
  then consider (A) "advanced s c (Suc lv) (ts ! j)"
    | (E) "pos c (Suc lv) (ts ! j) = length (contents (ts ! j))" "leaf_end c (Suc lv) (ts ! j)"
        "ascend_last s c = ascend_last s (c\<lparr>level := int lv\<rparr>)" by auto
  then show ?case
  proof cases
    case A
    then obtain c' where c': "advance s c = Some c'" "cur c' (Suc lv) (ts ! j)" "arrays c'" "agree_below (Suc lv) c c'"
      "if leaf_end c (Suc lv) (ts ! j) then pos c' (Suc lv) (ts ! j) = pos c (Suc lv) (ts ! j) \<and> \<not> leaf_end c' (Suc lv) (ts ! j)
       else pos c' (Suc lv) (ts ! j) = Suc (pos c (Suc lv) (ts ! j))" unfolding advanced_def by blast
    have ag: "agree_below lv c c'" "ancestors c' ! lv = Some a" "ancestorsIdx c' ! lv = int j - 1"
      using c'(4) j by (auto simp: agree_below_def)
    note pos_child [OF ag(3) j(4), of a ks] cur_NdI [OF j(1) ag(2,3) j(4) c'(2), of ks]
    then have "advanced s c lv (Nd a ks ts)" unfolding advanced_def using c'(1,3,5) ag(1) pc
      by (intro exI [of _ c']) (simp del: cur.simps pos.simps leaf_end.simps)
    then show ?thesis by blast
  next
    case E
    let ?c = "c\<lparr>level := int lv\<rparr>"
    have at: "entryIndex ?c = Some (int j - 1)" "node_at s (currNode ?c) = Some n" "\<not> isLeaf n" "numKeys n = length ks"
      using entryIndex_ok [of ?c lv] currNode_ok [of ?c lv] "2.prems"(5) j n
      by (auto simp: node_at_def intern_node_def)
    show ?thesis
    proof (cases "Suc j = length ts")
      case True
      have "ascend_last s ?c = ascend_last s (c\<lparr>level := int lv - 1\<rparr>)" if "0 < lv"
        using that at True len by (subst ascend_last.simps) (simp add: lastpointer_def)
      moreover have "pos c lv (Nd a ks ts) = length (contents (Nd a ks ts))"
        using pc E(1) length_contents_split [OF j(4), of a ks] True by simp
      ultimately show ?thesis using pc E by (simp del: pos.simps leaf_end.simps contents.simps)
    next
      case False
      then have sj: "Suc j < length ts" using j by simp
      have "ascend_last s ?c = Some ?c"
        using at sj len by (subst ascend_last.simps) (simp add: lastpointer_def)
      then have "ascend_last s c = Some ?c" using E(3) by simp
      then show ?thesis
        using advance_to_child [OF "2.prems"(1-5) j(2,3) sj _ E(1,2)] by blast
    qed
  qed
qed

end
