(* ===== verification/BTree_Ops.thy ===== *)
theory BTree_Ops
  imports BTree_Cursor
begin

text \<open>
  The interface of the relation, \<^verbatim>\<open>RL_*\<close>, against its specification: a relation holds a list of
  records in increasing key order, a cursor stands at a position of that list.
\<close>

section \<open>The height of a tree\<close>

text \<open>
  A tree of height \<open>h > 0\<close> holds at least \<open>2 * 8 ^ h\<close> records, so up to \<open>2 ^ 58\<close> records fit
  below \<open>MAX_TREE_DEPTH\<close>.
\<close>

definition capacity :: nat where
  "capacity = 2 ^ 58"

lemma sum_list_ge: "\<forall>t\<in>set ts. m \<le> g t \<Longrightarrow> length ts * m \<le> sum_list (map g ts)"
  by (induction ts) (auto intro: add_mono)

lemma min_records: "wf_size False t \<Longrightarrow> bal h t \<Longrightarrow> 8 * 8 ^ h \<le> length (contents t)"
proof (induction t arbitrary: h)
  case (Nd a ks ts)
  obtain h' where h: "h = Suc h'" "\<forall>t\<in>set ts. bal h' t" using Nd.prems by auto
  have ts: "8 \<le> length ts" using Nd.prems(1) by auto
  have "\<forall>t\<in>set ts. 8 * 8 ^ h' \<le> length (contents t)" using Nd h by auto
  then have "length ts * (8 * 8 ^ h') \<le> sum_list (map (\<lambda>t. length (contents t)) ts)" by (rule sum_list_ge)
  then have "8 * (8 * 8 ^ h') \<le> sum_list (map (\<lambda>t. length (contents t)) ts)"
    using mult_le_mono1 [OF ts, of "8 * 8 ^ h'"] by (rule le_trans [rotated])
  then show ?case using h(1) by (simp add: length_concat comp_def)
qed simp

lemma min_records_root: "wf_size True t \<Longrightarrow> bal (Suc h) t \<Longrightarrow> 2 * 8 ^ Suc h \<le> length (contents t)"
proof (cases t)
  case (Nd a ks ts)
  assume a: "wf_size True t" "bal (Suc h) t"
  have ts: "2 \<le> length ts" "\<forall>t\<in>set ts. 8 * 8 ^ h \<le> length (contents t)"
    using a Nd by (auto intro!: min_records)
  have "length ts * (8 * 8 ^ h) \<le> sum_list (map (\<lambda>t. length (contents t)) ts)" by (rule sum_list_ge [OF ts(2)])
  then have "2 * (8 * 8 ^ h) \<le> sum_list (map (\<lambda>t. length (contents t)) ts)"
    using mult_le_mono1 [OF ts(1), of "8 * 8 ^ h"] by (rule le_trans [rotated])
  then show ?thesis using Nd by (simp add: length_concat comp_def)
qed simp

lemma height_bound:
  assumes "wf_size True t" "bal h t" "length (contents t) \<le> capacity"
  shows "h < MAX_TREE_DEPTH" and "length (contents t) < capacity \<Longrightarrow> Suc h < MAX_TREE_DEPTH"
proof -
  have *: "2 * 8 ^ h \<le> length (contents t)" if "0 < h"
    using min_records_root [OF assms(1), of "h - 1"] assms(2) that by simp
  have pw: "(2::nat) * 8 ^ h = 2 ^ (3 * h + 1)" by (simp add: power_mult)
  show "h < MAX_TREE_DEPTH"
  proof (rule ccontr)
    assume "\<not> h < MAX_TREE_DEPTH"
    then have h: "20 \<le> h" by (simp add: MAX_TREE_DEPTH_def)
    then have "(2::nat) ^ 61 \<le> 2 ^ (3 * h + 1)" by (intro power_increasing) auto
    also have "\<dots> \<le> 2 ^ 58" using * h assms(3) pw by (simp add: capacity_def)
    finally show False by simp
  qed
  show "Suc h < MAX_TREE_DEPTH" if l: "length (contents t) < capacity"
  proof (rule ccontr)
    assume "\<not> Suc h < MAX_TREE_DEPTH"
    then have h: "19 \<le> h" by (simp add: MAX_TREE_DEPTH_def)
    then have "(2::nat) ^ 58 \<le> 2 ^ (3 * h + 1)" by (intro power_increasing) auto
    also have "\<dots> < 2 ^ 58" using * h l pw by (simp add: capacity_def)
    finally show False by simp
  qed
qed

section \<open>The abstraction\<close>

definition rel_holds :: "'r Relation \<Rightarrow> (Key \<times> 'r) list \<Rightarrow> bool" where
  "rel_holds s xs \<longleftrightarrow> (\<exists>h t. rel_inv s h t \<and> contents t = xs \<and> length xs \<le> capacity)"

definition cursor_at :: "'r Relation \<Rightarrow> Cursor \<Rightarrow> (Key \<times> 'r) list \<Rightarrow> nat \<Rightarrow> bool" where
  "cursor_at s c xs p \<longleftrightarrow>
     (\<exists>h t. rel_inv s h t \<and> contents t = xs \<and> length xs \<le> capacity \<and> arrays c \<and> cur c 0 t \<and> pos c 0 t = p)"

lemma cursor_at_holds: "cursor_at s c xs p \<Longrightarrow> rel_holds s xs"
  by (auto simp: cursor_at_def rel_holds_def)

lemma cursor_atI:
  "rel_inv s h t \<Longrightarrow> contents t = xs \<Longrightarrow> length xs \<le> capacity \<Longrightarrow> arrays c \<Longrightarrow> cur c 0 t \<Longrightarrow>
   cursor_at s c xs (pos c 0 t)"
  by (auto simp: cursor_at_def)

lemma rel_invD:
  assumes "rel_inv s h t"
  shows "root s = Some (root_addr t)" "repr s True True t" "ordered t" "wf_size True t" "bal h t"
    "distinct (addr_list t)" "\<forall>a\<in>addrs t. a < brk s" "\<forall>n. avail s n"
    "numRecords s = of_nat (length (contents t))" "depth s = int h"
  using assms by (simp_all add: rel_inv_def)

lemma rel_holds_sorted: "rel_holds s xs \<Longrightarrow> strict_sorted (keys_of xs)"
  by (auto simp: rel_holds_def dest: rel_invD(3,4) intro!: sorted_contents)

lemma capacity_u64: "n \<le> capacity \<Longrightarrow> n < 2 ^ LENGTH(64)"
  by (simp add: capacity_def)

lemma numRecords_0: "rel_inv s h t \<Longrightarrow> length (contents t) \<le> capacity \<Longrightarrow> numRecords s = 0 \<longleftrightarrow> contents t = []"
proof -
  assume a: "rel_inv s h t" "length (contents t) \<le> capacity"
  then have "numRecords s = of_nat (length (contents t))" by (simp add: rel_inv_def)
  moreover have "length (contents t) < 2 ^ LENGTH(64)" by (rule capacity_u64 [OF a(2)])
  ultimately show ?thesis
    by (auto simp: word_of_nat_eq_0_iff dest!: dvd_imp_le)
qed

lemma cursor_atE:
  assumes "cursor_at s c xs p"
  obtains h t where "rel_inv s h t" "contents t = xs" "length xs \<le> capacity" "arrays c" "cur c 0 t" "pos c 0 t = p"
    "h < MAX_TREE_DEPTH" "length xs < capacity \<Longrightarrow> Suc h < MAX_TREE_DEPTH" "p \<le> length xs"
    "looks_at s True True c xs p (leaf_end c 0 t)"
proof -
  obtain h t where t: "rel_inv s h t" "contents t = xs" "length xs \<le> capacity" "arrays c" "cur c 0 t" "pos c 0 t = p"
    using assms by (auto simp: cursor_at_def)
  note i = rel_invD [OF t(1)]
  show thesis
  proof (rule that [OF t])
    show "h < MAX_TREE_DEPTH" "length xs < capacity \<Longrightarrow> Suc h < MAX_TREE_DEPTH"
      using height_bound [OF i(4,5)] t(2,3) by simp_all
    show "p \<le> length xs" using pos_le [OF t(5)] t by simp
    show "looks_at s True True c xs p (leaf_end c 0 t)"
      using cur_leaf [OF i(2) t(5,4) i(4)] t by simp
  qed
qed

lemma looks_at_valid: "looks_at s True True c xs p e \<Longrightarrow> isValid s c = Some (p < length xs)"
  by (auto simp: looks_at_def isValid_def split: if_splits)

lemma looks_at_first: "looks_at s True True c xs p e \<Longrightarrow> isFirst s c = Some (p = 0)"
  by (auto simp: looks_at_def isFirst_def split: if_splits)

lemma RL_CursorIsValid_at: "cursor_at s c xs p \<Longrightarrow> RL_CursorIsValid s c = Some (p < length xs)"
  by (auto simp: RL_CursorIsValid_def elim!: cursor_atE dest: looks_at_valid)

section \<open>Creation\<close>

lemma new_relation_at:
  assumes "\<forall>n. ok n"
  shows "\<exists>s. RL_NewRelation ok = Some s \<and> rel_holds s []"
proof -
  let ?n = "\<lparr>isLeaf = True, FirstLeaf = True, LastLeaf = True, numKeys = 0, ptr0 = None, entries = replicate FANOUT None\<rparr>"
  let ?s = "\<lparr>nodes = [0 \<mapsto> ?n], brk = 2, avail = ok, root = Some 0, numRecords = 0, depth = 0\<rparr>"
  have "RL_NewRelation ok = Some ?s"
    using assms by (simp add: RL_NewRelation_def createNewNode_def set_node_def Let_def)
  moreover have "rel_inv ?s 0 (Lf 0 [])"
    using assms by (simp add: rel_inv_def leaf_node_def)
  ultimately show ?thesis by (auto simp: rel_holds_def capacity_def intro!: exI [of _ ?s] exI [of _ 0] exI [of _ "Lf 0 []"])
qed

lemma clear_above_fold:
  "fold (\<lambda>i c. c\<lparr>ancestorsIdx := (ancestorsIdx c)[i := 0], ancestors := (ancestors c)[i := None]\<rparr>) [m..<b] c = c' \<Longrightarrow>
   level c' = level c \<and> agree_below m c c' \<and> (arrays c \<longrightarrow> arrays c')"
proof (induction b arbitrary: c')
  case (Suc b)
  show ?case
  proof (cases "m \<le> b")
    case True
    then show ?thesis using Suc.prems Suc.IH [OF refl] by (auto simp: agree_below_def arrays_def nth_list_update)
  next
    case False
    then show ?thesis using Suc by simp
  qed
qed auto

lemma cur_agree:
  assumes "cur c lv t" "agree_below m c c'" "level c' = level c" "level c < int m"
  shows "cur c' lv t \<and> pos c' lv t = pos c lv t \<and> leaf_end c' lv t = leaf_end c lv t"
  using assms
proof (induction c lv t rule: cur.induct)
  case (1 c lv a kvs)
  then show ?case by (auto simp: agree_below_def)
next
  case (2 c lv a ks ts)
  have lv: "lv < m" using cur_level_ge [OF "2.prems"(1)] "2.prems"(4) by simp
  obtain j where j: "lv < MAX_TREE_DEPTH" "ancestors c ! lv = Some a" "ancestorsIdx c ! lv = int j - 1"
    "j < length ts" "cur c (Suc lv) (ts ! j)" by (rule cur_NdE [OF "2.prems"(1)])
  have j': "nat (ancestorsIdx c ! lv + 1) = j" using j(3) by simp
  have IH: "cur c' (Suc lv) (ts ! j) \<and> pos c' (Suc lv) (ts ! j) = pos c (Suc lv) (ts ! j) \<and>
      leaf_end c' (Suc lv) (ts ! j) = leaf_end c (Suc lv) (ts ! j)"
    using "2.IH" "2.prems" j unfolding j' by blast
  have ag: "ancestors c' ! lv = Some a" "ancestorsIdx c' ! lv = int j - 1"
    using "2.prems"(2) lv j by (auto simp: agree_below_def)
  show ?case
    using pos_child [OF ag(2) j(4), of a ks] pos_child [OF j(3,4), of a ks] IH
      cur_NdI [OF j(1) ag j(4), of ks] by (simp del: cur.simps pos.simps leaf_end.simps)
qed

lemma rel_inv_brk: "rel_inv s h t \<Longrightarrow> brk s \<le> b \<Longrightarrow> rel_inv (s\<lparr>brk := b\<rparr>) h t"
  by (auto simp: rel_inv_def)

lemma new_cursor_at:
  assumes "rel_holds s xs"
  shows "\<exists>c s'. RL_NewCursor s = Some (Some c, s') \<and> cursor_at s' c xs 0"
proof -
  obtain h t where t: "rel_inv s h t" "contents t = xs" "length xs \<le> capacity" using assms by (auto simp: rel_holds_def)
  let ?s = "s\<lparr>brk := Suc (brk s)\<rparr>"
  have inv: "rel_inv ?s h t" by (rule rel_inv_brk [OF t(1)]) simp
  note i = rel_invD [OF inv]
  let ?c = "\<lparr>level = -1, ancestorsIdx = replicate MAX_TREE_DEPTH 0, ancestors = replicate MAX_TREE_DEPTH None\<rparr>"
  have h: "0 + h < MAX_TREE_DEPTH" using height_bound [OF i(4,5)] t by simp
  have arr: "arrays ?c" by (simp add: arrays_def)
  obtain c where c: "moveToFirst ?s (Some (root_addr t)) ?c 0 = Some c" "cur c 0 t" "pos c 0 t = 0" "arrays c"
    using moveToFirst_cur [OF i(2,4,5) h arr] by auto
  have lv: "level c = int h" using cur_level [OF c(2) i(5)] by simp
  have cl: "level (clear_above c) = level c" "agree_below (nat (level c + 1)) c (clear_above c)" "arrays (clear_above c)"
    using clear_above_fold [of "nat (level c + 1)" MAX_TREE_DEPTH c "clear_above c"] c(4) by (auto simp: clear_above_def)
  have "cur (clear_above c) 0 t \<and> pos (clear_above c) 0 t = pos c 0 t"
    using cur_agree [OF c(2) cl(2,1)] lv by simp
  then have "cursor_at ?s (clear_above c) xs 0" using inv t c cl by (auto simp: cursor_at_def)
  moreover have "RL_NewCursor s = Some (Some (clear_above c), ?s)"
    using i(1,8) c(1) by (simp add: RL_NewCursor_def Let_def)
  ultimately show ?thesis by blast
qed

section \<open>Moving\<close>

lemma moveToNext_at:
  assumes "rel_inv s h t" "length (contents t) \<le> capacity" "h < MAX_TREE_DEPTH" "arrays c" "cur c 0 t"
  shows "\<exists>c'. moveToNext s c = Some c' \<and> arrays c' \<and> cur c' 0 t \<and>
     (if pos c 0 t = length (contents t) then c' = c
      else if leaf_end c 0 t then pos c' 0 t = pos c 0 t \<and> \<not> leaf_end c' 0 t
      else pos c' 0 t = Suc (pos c 0 t))"
proof -
  note i = rel_invD [OF assms(1)]
  have v: "isValid s c = Some (pos c 0 t < length (contents t))"
    by (rule looks_at_valid [OF cur_leaf [OF i(2) assms(5,4) i(4)]])
  have eq: "moveToNext s c = (if numRecords s = 0 \<or> \<not> pos c 0 t < length (contents t) then Some c else advance s c)"
    using v by (simp add: moveToNext_def advance_def)
  have le: "pos c 0 t \<le> length (contents t)" by (rule pos_le [OF assms(5)])
  show ?thesis
  proof (cases "pos c 0 t = length (contents t)")
    case True
    then show ?thesis using eq assms(4,5) by simp
  next
    case False
    then have "moveToNext s c = advance s c" using eq le numRecords_0 [OF assms(1,2)] by auto
    moreover have "advanced s c 0 t" using advance_cases [OF i(2,4,5) _ assms(4,5)] assms(3) False by auto
    ultimately show ?thesis using False unfolding advanced_def by auto
  qed
qed

lemma RL_MoveToNext_at:
  assumes "cursor_at s c xs p"
  shows "\<exists>c'. RL_MoveToNext s c = Some c' \<and> cursor_at s c' xs (if p < length xs then Suc p else p)"
proof -
  obtain h t where t: "rel_inv s h t" "contents t = xs" "length xs \<le> capacity" "arrays c" "cur c 0 t" "pos c 0 t = p"
    "h < MAX_TREE_DEPTH" "p \<le> length xs" "looks_at s True True c xs p (leaf_end c 0 t)"
    by (rule cursor_atE [OF assms])
  note i = rel_invD [OF t(1)]
  obtain n j where n: "node_at s (currNode c) = Some n" "entryIndex c = Some (int j)" "leaf_end c 0 t = (j = numKeys n)"
    using t(9) by (auto simp: looks_at_def)
  have next1: "\<exists>c'. moveToNext s d = Some c' \<and> arrays c' \<and> cur c' 0 t \<and>
      (if pos d 0 t = length xs then c' = d
       else if leaf_end d 0 t then pos c' 0 t = pos d 0 t \<and> \<not> leaf_end c' 0 t
       else pos c' 0 t = Suc (pos d 0 t))" if "arrays d" "cur d 0 t" for d
    using moveToNext_at [OF t(1) _ t(7) that] t(2,3) by simp
  obtain d where d: "(if leaf_end c 0 t then moveToNext s c else Some c) = Some d" "arrays d" "cur d 0 t" "pos d 0 t = p"
    "p < length xs \<longrightarrow> \<not> leaf_end d 0 t"
    using next1 [OF t(4,5)] t(4-6) by (auto split: if_splits)
  obtain c' where c': "moveToNext s d = Some c'" "arrays c'" "cur c' 0 t"
    "pos c' 0 t = (if p < length xs then Suc p else p)"
    using next1 [OF d(2,3)] d(4,5) t(8) by (auto split: if_splits)
  have "RL_MoveToNext s c = Some c'" using n d(1) c'(1) by (simp add: RL_MoveToNext_def)
  then show ?thesis using cursor_atI [OF t(1-3) c'(2,3)] c'(4) by simp
qed

lemma RL_MoveToFirst_at:
  assumes "cursor_at s c xs p"
  shows "\<exists>c'. RL_MoveToFirst s c = Some (xs \<noteq> [], c') \<and> cursor_at s c' xs 0"
proof -
  obtain h t where t: "rel_inv s h t" "contents t = xs" "length xs \<le> capacity" "arrays c" "h < MAX_TREE_DEPTH"
    by (rule cursor_atE [OF assms])
  note i = rel_invD [OF t(1)]
  obtain c' where c': "moveToFirst s (root s) (c\<lparr>level := -1\<rparr>) 0 = Some c'" "cur c' 0 t" "pos c' 0 t = 0" "arrays c'"
    using moveToFirst_cur [OF i(2,4,5), of 0 "c\<lparr>level := -1\<rparr>"] t i(1) by auto
  then have at: "cursor_at s c' xs 0" using t by (auto simp: cursor_at_def)
  then have "isValid s c' = Some (0 < length xs)"
    using RL_CursorIsValid_at by (fastforce simp: RL_CursorIsValid_def)
  then show ?thesis using c'(1) at by (simp add: RL_MoveToFirst_def)
qed

lemma settle_at:
  assumes "cursor_at s c xs p" "p < length xs"
  shows "\<exists>c'. settle s c = Some c' \<and> cursor_at s c' xs p \<and> looks_at s True True c' xs p False"
proof -
  obtain h t where t: "rel_inv s h t" "contents t = xs" "length xs \<le> capacity" "arrays c" "cur c 0 t" "pos c 0 t = p"
    "h < MAX_TREE_DEPTH" "looks_at s True True c xs p (leaf_end c 0 t)"
    by (rule cursor_atE [OF assms(1)])
  note i = rel_invD [OF t(1)]
  obtain n j where n: "node_at s (currNode c) = Some n" "entryIndex c = Some (int j)" "leaf_end c 0 t = (j = numKeys n)"
    using t(8) by (auto simp: looks_at_def)
  have st: "settle s c = (if leaf_end c 0 t then moveToNext s c else Some c)"
    using n looks_at_valid [OF t(8)] assms(2) by (simp add: settle_def)
  obtain c' where c': "settle s c = Some c'" "arrays c'" "cur c' 0 t" "pos c' 0 t = p" "\<not> leaf_end c' 0 t"
    using moveToNext_at [OF t(1) _ t(7,4,5)] st t assms(2) by (cases "leaf_end c 0 t") auto
  have "looks_at s True True c' xs p False" using cur_leaf [OF i(2) c'(3,2) i(4)] c' t(2) by simp
  then show ?thesis using c' t(1-3) by (auto simp: cursor_at_def)
qed

lemma settle_end: "cursor_at s c xs p \<Longrightarrow> p = length xs \<Longrightarrow> settle s c = None"
  by (auto simp: settle_def elim!: cursor_atE dest!: looks_at_valid)

lemma looks_at_entry:
  assumes "looks_at s f l c xs p False"
  obtains n i where "node_at s (currNode c) = Some n" "entryIndex c = Some (int i)"
    "entry_at n (int i) = Some \<lparr>ekey = fst (xs ! p), eptr = Record (snd (xs ! p))\<rparr>"
  using assms by (auto simp: looks_at_def)

lemma RL_GetRecord_at:
  assumes "cursor_at s c xs p" "p < length xs"
  shows "\<exists>c'. RL_GetRecord s c = Some (snd (xs ! p), c') \<and> cursor_at s c' xs p"
proof -
  obtain c' where c': "settle s c = Some c'" "cursor_at s c' xs p" "looks_at s True True c' xs p False"
    using settle_at [OF assms] by blast
  show ?thesis by (rule looks_at_entry [OF c'(3)]) (simp add: RL_GetRecord_def record_of_def c'(1,2))
qed

lemma RL_GetKey_at:
  assumes "cursor_at s c xs p" "p < length xs"
  shows "\<exists>c'. RL_GetKey s c = Some (fst (xs ! p), c') \<and> cursor_at s c' xs p"
proof -
  obtain c' where c': "settle s c = Some c'" "cursor_at s c' xs p" "looks_at s True True c' xs p False"
    using settle_at [OF assms] by blast
  show ?thesis by (rule looks_at_entry [OF c'(3)]) (simp add: RL_GetKey_def c'(1,2))
qed

lemma goToKey_at:
  assumes "cursor_at s c xs p"
  shows "\<exists>c' h t. goToKey s c k = Some c' \<and> rel_inv s h t \<and> contents t = xs \<and> length xs \<le> capacity \<and>
     h < MAX_TREE_DEPTH \<and> (length xs < capacity \<longrightarrow> Suc h < MAX_TREE_DEPTH) \<and> arrays c' \<and> route c' 0 k t \<and>
     cursor_at s c' xs (below k (keys_of xs))"
proof -
  obtain h t where t: "rel_inv s h t" "contents t = xs" "length xs \<le> capacity" "arrays c" "cur c 0 t"
    "h < MAX_TREE_DEPTH" "length xs < capacity \<Longrightarrow> Suc h < MAX_TREE_DEPTH"
    by (rule cursor_atE [OF assms]) (rule that; assumption)
  note i = rel_invD [OF t(1)]
  obtain c' where c': "goToKey s c k = Some c'" "route c' 0 k t" "arrays c'"
    using goToKey_root [OF i(2-5) t(6,4,5)] by blast
  have "cursor_at s c' xs (below k (keys_of xs))"
    using t(1-3) c'(3) route_cur [OF c'(2)] route_pos [OF c'(2) i(3,4)] by (auto simp: cursor_at_def)
  then show ?thesis using c' t by blast
qed

lemma below_found:
  assumes "strict_sorted (keys_of xs)"
  shows "k \<in> set (keys_of xs) \<longleftrightarrow> below k (keys_of xs) < length xs \<and> fst (xs ! below k (keys_of xs)) = k"
  using mem_below [OF assms, of k] by auto

lemma RL_MoveToKey_at:
  assumes "cursor_at s c xs p"
  shows "\<exists>c'. RL_MoveToKey s c k = Some (k \<in> set (keys_of xs), c') \<and> cursor_at s c' xs (below k (keys_of xs))"
proof -
  let ?p = "below k (keys_of xs)"
  have fd: "k \<in> set (keys_of xs) \<longleftrightarrow> ?p < length xs \<and> fst (xs ! ?p) = k"
    by (rule below_found [OF rel_holds_sorted [OF cursor_at_holds [OF assms]]])
  obtain d where d: "goToKey s c k = Some d" "cursor_at s d xs ?p" using goToKey_at [OF assms, of k] by blast
  have v: "isValid s d = Some (?p < length xs)" using RL_CursorIsValid_at [OF d(2)] by (simp add: RL_CursorIsValid_def)
  show ?thesis
  proof (cases "?p < length xs")
    case True
    obtain c' where "RL_GetKey s d = Some (fst (xs ! ?p), c')" "cursor_at s c' xs ?p"
      using RL_GetKey_at [OF d(2) True] by blast
    then show ?thesis using d(1) v True fd by (auto simp: RL_MoveToKey_def simp del: set_map)
  next
    case False
    then show ?thesis using d v fd by (auto simp: RL_MoveToKey_def simp del: set_map)
  qed
qed

lemma RL_MoveToNextValid_at:
  assumes "cursor_at s c xs p"
  shows "\<exists>c'. RL_MoveToNextValid s c = Some (Suc p < length xs, c') \<and>
           cursor_at s c' xs (if p < length xs then Suc p else p)"
proof -
  obtain c' where c': "RL_MoveToNext s c = Some c'" "cursor_at s c' xs (if p < length xs then Suc p else p)"
    using RL_MoveToNext_at [OF assms] by blast
  show ?thesis using c' RL_CursorIsValid_at [OF c'(2)] by (auto simp: RL_MoveToNextValid_def)
qed

section \<open>The whole relation\<close>

lemma RL_NumRecords_holds: "rel_holds s xs \<Longrightarrow> RL_NumRecords s = of_nat (length xs)"
  by (auto simp: rel_holds_def RL_NumRecords_def rel_inv_def)

lemma RL_IsEmpty_holds:
  assumes "rel_holds s xs"
  shows "RL_IsEmpty s = Some (xs = [])"
proof -
  obtain h t where t: "rel_inv s h t" "contents t = xs" using assms by (auto simp: rel_holds_def)
  note i = rel_invD [OF t(1)]
  show ?thesis
  proof (cases t)
    case (Lf a kvs)
    then show ?thesis using i(1,2) t(2) by (auto simp: RL_IsEmpty_def node_at_def leaf_node_def)
  next
    case (Nd a ks ts)
    then have ts: "0 < length ts" and ks: "ks \<noteq> []" using i(4) by (auto split: if_splits)
    then have "contents (ts ! 0) \<noteq> []" using i(4) Nd by (intro contents_nonempty) auto
    then have "contents t \<noteq> []" using Nd ts by (auto intro!: bexI [of _ "ts ! 0"])
    then show ?thesis using i(1,2) t(2) Nd ks by (auto simp: RL_IsEmpty_def node_at_def intern_node_def)
  qed
qed

lemma RL_PutRecord_at:
  assumes "cursor_at s c xs p" "length xs < capacity"
  shows "\<exists>s' c'. RL_PutRecord s c k r = Some (s', c') \<and>
           cursor_at s' c' (ins_list k r xs) (Suc (below k (keys_of xs)))"
proof -
  obtain d h t where d: "goToKey s c k = Some d" "rel_inv s h t" "contents t = xs" "Suc h < MAX_TREE_DEPTH"
    "arrays d" "route d 0 k t"
    using goToKey_at [OF assms(1), of k] assms(2) by blast
  note i = rel_invD [OF d(2)]
  let ?t = "put_tree (brk s) k r t"
  obtain s' e where e: "putEntry s d (level d) \<lparr>ekey = k, eptr = Record r\<rparr> k = Some (s', e)"
    "rel_inv s' (put_height (brk s) k r t h) ?t" "route e 0 k ?t" "arrays e"
    using putEntry_root [OF d(2,4,5,6)] by blast
  note j = rel_invD [OF e(2)]
  let ?ys = "ins_list k r xs"
  have ys: "contents ?t = ?ys" using contents_put_tree [OF i(3,4)] d(3) by simp
  have sorted: "strict_sorted (keys_of xs)" using sorted_contents [OF i(3,4)] d(3) by simp
  have len: "length ?ys \<le> capacity" "length xs \<le> length ?ys" using length_ins_list [OF sorted] assms(2) by auto
  have b: "below k (keys_of ?ys) = below k (keys_of xs)" by (rule below_ins_list)
  have "pos e 0 ?t = below k (keys_of xs)" using route_pos [OF e(3) j(3,4)] ys b by simp
  then have at: "cursor_at s' e ?ys (below k (keys_of xs))"
    using e ys len route_cur [OF e(3)] by (auto simp: cursor_at_def)
  have "k \<in> set (keys_of ?ys)" by simp
  then have lt: "below k (keys_of xs) < length ?ys"
    using mem_below [OF strict_sorted_ins_list [OF sorted], of k k r] b by (simp del: set_map)
  obtain c' where "RL_MoveToNext s' e = Some c'" "cursor_at s' c' ?ys (Suc (below k (keys_of xs)))"
    using RL_MoveToNext_at [OF at] lt by auto
  then show ?thesis using d(1) e(1) by (simp add: RL_PutRecord_def)
qed

section \<open>A relation of one leaf\<close>

text \<open>The heap that holds a given list of at most \<open>FANOUT\<close> records, and a cursor at its first.\<close>

definition one_leaf :: "(Key \<times> 'r) list \<Rightarrow> 'r Relation" where
  "one_leaf kvs =
     \<lparr>nodes = [0 \<mapsto> \<lparr>isLeaf = True, FirstLeaf = True, LastLeaf = True, numKeys = length kvs, ptr0 = None,
                      entries = map (\<lambda>(k, r). Some \<lparr>ekey = k, eptr = Record r\<rparr>) kvs @
                                replicate (FANOUT - length kvs) None\<rparr>],
      brk = 1, avail = (\<lambda>n. True), root = Some 0, numRecords = of_nat (length kvs), depth = 0\<rparr>"

definition start_cursor :: Cursor where
  "start_cursor = \<lparr>level = 0, ancestorsIdx = replicate MAX_TREE_DEPTH 0,
                   ancestors = (replicate MAX_TREE_DEPTH None)[0 := Some 0]\<rparr>"

lemma one_leaf_inv:
  assumes "strict_sorted (keys_of kvs)" "length kvs \<le> FANOUT"
  shows "rel_inv (one_leaf kvs) 0 (Lf 0 kvs)"
  using assms by (auto simp: rel_inv_def one_leaf_def leaf_node_def nth_append case_prod_beta)

lemma one_leaf_at:
  assumes "strict_sorted (keys_of kvs)" "length kvs \<le> FANOUT"
  shows "cursor_at (one_leaf kvs) start_cursor kvs 0"
proof -
  have "cur start_cursor 0 (Lf 0 kvs)" "pos start_cursor 0 (Lf 0 kvs) = 0" "arrays start_cursor"
    by (simp_all add: start_cursor_def MAX_TREE_DEPTH_def arrays_def)
  moreover have "length kvs \<le> capacity" using assms(2) by (simp add: FANOUT_def capacity_def)
  ultimately show ?thesis using cursor_atI [OF one_leaf_inv [OF assms], of kvs start_cursor] by simp
qed

end
