(* ===== verification/BTree_Index.thy ===== *)
theory BTree_Index
  imports BTree_Ops
begin

text \<open>
  The contract of a cursored ordered index, as its clients rely on it, with what follows from the
  contract alone; the B+-tree of this program provides it.
\<close>

locale record_index =
  fixes at :: "'s \<Rightarrow> 'c \<Rightarrow> ('k::linorder \<times> 'r) list \<Rightarrow> nat \<Rightarrow> bool"
    and put :: "'s \<Rightarrow> 'c \<Rightarrow> 'k \<Rightarrow> 'r \<Rightarrow> ('s \<times> 'c) option"
    and move_to_key :: "'s \<Rightarrow> 'c \<Rightarrow> 'k \<Rightarrow> (bool \<times> 'c) option"
    and move_to_first :: "'s \<Rightarrow> 'c \<Rightarrow> (bool \<times> 'c) option"
    and move_to_next :: "'s \<Rightarrow> 'c \<Rightarrow> 'c option"
    and get_key :: "'s \<Rightarrow> 'c \<Rightarrow> ('k \<times> 'c) option"
    and get_record :: "'s \<Rightarrow> 'c \<Rightarrow> ('r \<times> 'c) option"
    and valid :: "'s \<Rightarrow> 'c \<Rightarrow> bool option"
    and cap :: nat
  assumes at_sorted: "at s c xs p \<Longrightarrow> strict_sorted (keys_of xs)"
    and at_bound: "at s c xs p \<Longrightarrow> p \<le> length xs"
    and put_at: "at s c xs p \<Longrightarrow> length xs < cap \<Longrightarrow>
      \<exists>s' c'. put s c k r = Some (s', c') \<and> at s' c' (ins_list k r xs) (Suc (below k (keys_of xs)))"
    and move_to_key_at: "at s c xs p \<Longrightarrow>
      \<exists>c'. move_to_key s c k = Some (k \<in> set (keys_of xs), c') \<and> at s c' xs (below k (keys_of xs))"
    and move_to_first_at: "at s c xs p \<Longrightarrow> \<exists>c'. move_to_first s c = Some (xs \<noteq> [], c') \<and> at s c' xs 0"
    and move_to_next_at: "at s c xs p \<Longrightarrow>
      \<exists>c'. move_to_next s c = Some c' \<and> at s c' xs (if p < length xs then Suc p else p)"
    and get_key_at: "at s c xs p \<Longrightarrow> p < length xs \<Longrightarrow> \<exists>c'. get_key s c = Some (fst (xs ! p), c') \<and> at s c' xs p"
    and get_record_at: "at s c xs p \<Longrightarrow> p < length xs \<Longrightarrow>
      \<exists>c'. get_record s c = Some (snd (xs ! p), c') \<and> at s c' xs p"
    and valid_at: "at s c xs p \<Longrightarrow> valid s c = Some (p < length xs)"
begin

lemma find_at:
  assumes "at s c xs p"
  shows "\<exists>c'. move_to_key s c k = Some (map_of xs k \<noteq> None, c') \<and> at s c' xs (below k (keys_of xs)) \<and>
     (\<forall>r. map_of xs k = Some r \<longrightarrow> (\<exists>c''. get_record s c' = Some (r, c'') \<and> at s c'' xs (below k (keys_of xs))))"
proof -
  let ?p = "below k (keys_of xs)"
  obtain c' where c': "move_to_key s c k = Some (k \<in> set (keys_of xs), c')" "at s c' xs ?p"
    using move_to_key_at [OF assms, of k] by blast
  have sorted: "strict_sorted (keys_of xs)" by (rule at_sorted [OF assms])
  have d: "distinct (keys_of xs)" using sorted by (simp add: strict_sorted_iff)
  have k: "k \<in> set (keys_of xs) \<longleftrightarrow> map_of xs k \<noteq> None" by (simp add: map_of_eq_None_iff)
  have "\<exists>c''. get_record s c' = Some (r, c'') \<and> at s c'' xs ?p" if r: "map_of xs k = Some r" for r
  proof -
    have "k \<in> set (keys_of xs)" using r k by simp
    then have i: "?p < length xs" "fst (xs ! ?p) = k" using below_found [OF sorted] by blast+
    then have "map_of xs k = Some (snd (xs ! ?p))" using d by (metis map_of_eq_Some_iff nth_mem prod.collapse)
    then show ?thesis using get_record_at [OF c'(2) i(1)] r by simp
  qed
  then show ?thesis using c' k by auto
qed

text \<open>A run of insertions, one after the other with the same cursor.\<close>

lemma put_run:
  assumes "at s c xs p" "length xs + length kvs \<le> cap"
  shows "\<exists>s' c' p'. fold (\<lambda>(k, r) x. Option.bind x (\<lambda>(s, c). put s c k r)) kvs (Some (s, c)) = Some (s', c') \<and>
     at s' c' (fold (\<lambda>(k, r). ins_list k r) kvs xs) p'"
  using assms
proof (induction kvs arbitrary: s c xs p)
  case (Cons kv kvs)
  obtain k r where kv: "kv = (k, r)" by (cases kv)
  obtain s' c' where s': "put s c k r = Some (s', c')" "at s' c' (ins_list k r xs) (Suc (below k (keys_of xs)))"
    using put_at [OF Cons.prems(1)] Cons.prems(2) by fastforce
  have "length (ins_list k r xs) \<le> Suc (length xs)"
    using length_ins_list [OF at_sorted [OF Cons.prems(1)], of k r] by simp
  then show ?case using Cons.IH [OF s'(2)] Cons.prems(2) s'(1) kv by simp
qed auto

text \<open>Reading on from a position, record by record, visits the rest of the list in order.\<close>

fun scan :: "nat \<Rightarrow> 's \<Rightarrow> 'c \<Rightarrow> (('k \<times> 'r) list \<times> 'c) option" where
  "scan 0 s c = Some ([], c)"
| "scan (Suc n) s c = do {
     v \<leftarrow> valid s c;
     if \<not> v then Some ([], c)
     else do {
       (k, c) \<leftarrow> get_key s c;
       (r, c) \<leftarrow> get_record s c;
       c \<leftarrow> move_to_next s c;
       (rs, c) \<leftarrow> scan n s c;
       Some ((k, r) # rs, c) } }"

lemma scan_at:
  "at s c xs p \<Longrightarrow> \<exists>c'. scan n s c = Some (take n (drop p xs), c') \<and> at s c' xs (min (p + n) (length xs))"
proof (induction n arbitrary: c p)
  case 0
  then show ?case using at_bound [OF 0] by (auto simp: min_def)
next
  case (Suc n)
  show ?case
  proof (cases "p < length xs")
    case True
    obtain c1 where c1: "get_key s c = Some (fst (xs ! p), c1)" "at s c1 xs p"
      using get_key_at [OF Suc.prems True] by blast
    obtain c2 where c2: "get_record s c1 = Some (snd (xs ! p), c2)" "at s c2 xs p"
      using get_record_at [OF c1(2) True] by blast
    obtain c3 where c3: "move_to_next s c2 = Some c3" "at s c3 xs (Suc p)"
      using move_to_next_at [OF c2(2)] True by auto
    obtain c' where "scan n s c3 = Some (take n (drop (Suc p) xs), c')" "at s c' xs (min (Suc p + n) (length xs))"
      using Suc.IH [OF c3(2)] by blast
    then show ?thesis
      using valid_at [OF Suc.prems] True c1(1) c2(1) c3(1) by (simp add: Cons_nth_drop_Suc [symmetric])
  next
    case False
    then have "p = length xs" using at_bound [OF Suc.prems] by simp
    then show ?thesis using valid_at [OF Suc.prems] Suc.prems by simp
  qed
qed

end

interpretation btree: record_index cursor_at RL_PutRecord RL_MoveToKey RL_MoveToFirst RL_MoveToNext
    RL_GetKey RL_GetRecord RL_CursorIsValid capacity
proof unfold_locales
  show "cursor_at s c xs p \<Longrightarrow> strict_sorted (keys_of xs)" for s c p and xs :: "(Key \<times> 'r) list"
    by (rule rel_holds_sorted [OF cursor_at_holds])
  show "cursor_at s c xs p \<Longrightarrow> p \<le> length xs" for s c p and xs :: "(Key \<times> 'r) list"
    by (erule cursor_atE)
qed (fact RL_PutRecord_at RL_MoveToKey_at RL_MoveToFirst_at RL_MoveToNext_at RL_GetKey_at RL_GetRecord_at
    RL_CursorIsValid_at)+

end
