(* ===== verification/Util.thy ===== *)
theory Util
  imports DB_Prelude "HOL-Library.Multiset"
begin

text \<open>
  The helpers of \<^verbatim>\<open>src/btrees_and_tries/util.c\<close>: binary search, the conversions between byte strings
  and 64-bit key slices, string comparison, array growth and the random shuffle. A C string or array is
  the list of its elements; a read past its end is \<open>None\<close>.
\<close>

type_synonym byte = "8 word"

definition keyslice_length :: nat where
  "keyslice_length = 8"

section \<open>Binary search\<close>

definition INT_MAX :: int where
  "INT_MAX = 2147483647"

text \<open>The sum \<^verbatim>\<open>lo + hi\<close> is an \<^verbatim>\<open>int\<close>: its overflow is undefined.\<close>

function UTIL_BinarySearch :: "int list \<Rightarrow> int \<Rightarrow> int \<Rightarrow> int \<Rightarrow> int option" where
  "UTIL_BinarySearch a tgt lo hi =
     (if lo < hi then
        if lo + hi > INT_MAX \<or> lo < 0 then None
        else case array_at a ((lo + hi) div 2) of
               None \<Rightarrow> None
             | Some val \<Rightarrow>
                 if val = tgt then Some ((lo + hi) div 2)
                 else if val < tgt then UTIL_BinarySearch a tgt ((lo + hi) div 2 + 1) hi
                 else UTIL_BinarySearch a tgt lo ((lo + hi) div 2)
      else Some (-1))"
  by pat_completeness auto
termination
  by (relation "measure (\<lambda>(a, tgt, lo, hi). nat (hi - lo))") auto

declare UTIL_BinarySearch.simps [simp del]

section \<open>Arrays\<close>

text \<open>\<^verbatim>\<open>realloc\<close> keeps the old elements; new ones are indeterminate (\<open>None\<close>). The result \<open>None\<close> of
  the inner option is \<^verbatim>\<open>NULL\<close>.\<close>

definition UTIL_ResizeArray ::
  "bool \<Rightarrow> 'a option list option \<Rightarrow> nat \<Rightarrow> nat \<Rightarrow> 'a option list option option" where
  "UTIL_ResizeArray ok arr currLength desiredLength = do {
     a \<leftarrow> arr;
     assert_c (currLength \<noteq> 0);
     if \<not> ok then Some None
     else Some (Some (take desiredLength a @ replicate (desiredLength - length a) None)) }"

definition UTIL_Min :: "'a::linorder \<Rightarrow> 'a \<Rightarrow> 'a" where
  "UTIL_Min a b = (if a \<le> b then a else b)"

text \<open>\<^verbatim>\<open>for (i = 0; i < lenA; ++i) if (a[i] != b[i]) return False;\<close>\<close>

fun bytes_equal :: "byte list \<Rightarrow> byte list \<Rightarrow> nat \<Rightarrow> nat \<Rightarrow> bool option" where
  "bytes_equal a b i 0 = Some True"
| "bytes_equal a b i (Suc n) = do {
     x \<leftarrow> array_at a (int i);
     y \<leftarrow> array_at b (int i);
     if x \<noteq> y then Some False else bytes_equal a b (Suc i) n }"

definition UTIL_StrEqual :: "byte list \<Rightarrow> nat \<Rightarrow> byte list \<Rightarrow> nat \<Rightarrow> bool option" where
  "UTIL_StrEqual a lenA b lenB = (if lenA \<noteq> lenB then Some False else bytes_equal a b 0 lenA)"

section \<open>Key slices\<close>

definition push_byte :: "u64 \<Rightarrow> byte \<Rightarrow> u64" where
  "push_byte res b = or (push_bit 8 res) (and (ucast b) 255)"

fun pad :: "nat \<Rightarrow> u64 \<Rightarrow> u64" where
  "pad 0 res = res"
| "pad (Suc n) res = pad n (push_bit 8 res)"

text \<open>The condition of the first loop of \<^verbatim>\<open>UTIL_StrToUl\<close> reads the byte before it compares \<^verbatim>\<open>i\<close>.\<close>

fun str_loop :: "byte list \<Rightarrow> nat \<Rightarrow> u64 \<Rightarrow> (u64 \<times> nat) option" where
  "str_loop [] i res = None"
| "str_loop (b # str) i res =
     (if b \<noteq> 0 \<and> i < keyslice_length then str_loop str (Suc i) (push_byte res b) else Some (res, i))"

definition UTIL_StrToUl :: "byte list \<Rightarrow> u64 option" where
  "UTIL_StrToUl str = do { (res, i) \<leftarrow> str_loop str 0 0; Some (pad (keyslice_length - i) res) }"

fun take_bytes :: "nat \<Rightarrow> byte list \<Rightarrow> u64 \<Rightarrow> u64 option" where
  "take_bytes 0 str res = Some res"
| "take_bytes (Suc n) [] res = None"
| "take_bytes (Suc n) (b # str) res = take_bytes n str (push_byte res b)"

definition UTIL_GetNextKeySlice :: "byte list \<Rightarrow> nat \<Rightarrow> u64 option" where
  "UTIL_GetNextKeySlice str len = do {
     assert_c (len \<le> keyslice_length);
     res \<leftarrow> take_bytes len str 0;
     Some (pad (keyslice_length - len) res) }"

text \<open>The loops \<^verbatim>\<open>for (i = 7; i >= 0; i--)\<close>, with \<open>i + 1\<close> as the counter; \<open>ok\<close> is the success of
  \<^verbatim>\<open>calloc\<close>.\<close>

fun ul_loop :: "nat \<Rightarrow> byte list \<Rightarrow> u64 \<Rightarrow> byte list" where
  "ul_loop 0 res ul = res"
| "ul_loop (Suc i) res ul = ul_loop i (res[i := ucast ul]) (drop_bit 8 ul)"

definition UTIL_UlToStr :: "bool \<Rightarrow> u64 \<Rightarrow> byte list option" where
  "UTIL_UlToStr ok ul = (if ok then Some (ul_loop 8 (replicate 9 0) ul) else None)"

fun slice_loop :: "nat \<Rightarrow> nat \<Rightarrow> byte list \<Rightarrow> u64 \<Rightarrow> byte list" where
  "slice_loop 0 len res ks = res"
| "slice_loop (Suc i) len res ks =
     slice_loop i len (if i < len then res[i := ucast ks] else res) (drop_bit 8 ks)"

definition UTIL_KeySliceToStr :: "bool \<Rightarrow> u64 \<Rightarrow> nat \<Rightarrow> byte list option" where
  "UTIL_KeySliceToStr ok ks len = do {
     assert_c (len \<le> keyslice_length);
     if ok then Some (slice_loop 8 len (replicate len 0) ks) else None }"

section \<open>Shuffling\<close>

text \<open>\<open>rnd i\<close> is the value of the call of \<^verbatim>\<open>rand\<close> in iteration \<open>i\<close>.\<close>

fun shuffle_loop :: "nat \<Rightarrow> (nat \<Rightarrow> int) \<Rightarrow> nat \<Rightarrow> int list \<Rightarrow> int list option" where
  "shuffle_loop 0 rnd i arr = Some arr"
| "shuffle_loop (Suc n) rnd i arr = do {
     let r = (if rnd i < 0 then rnd i * -1 else rnd i);
     let r = r mod (int i + 1);
     temp \<leftarrow> array_at arr (int i);
     x \<leftarrow> array_at arr r;
     arr \<leftarrow> array_set arr (int i) x;
     arr \<leftarrow> array_set arr r temp;
     shuffle_loop n rnd (Suc i) arr }"

definition UTIL_Shuffle :: "(nat \<Rightarrow> int) \<Rightarrow> int list \<Rightarrow> nat \<Rightarrow> int list option" where
  "UTIL_Shuffle rnd arr len = shuffle_loop len rnd 0 arr"

section \<open>Binary search finds the target of a sorted array\<close>

lemma BinarySearch_correct:
  assumes "sorted a" "0 \<le> lo" "lo \<le> hi" "hi \<le> int (length a)"
  shows "case UTIL_BinarySearch a tgt lo hi of
      None \<Rightarrow> 2 ^ 30 < hi
    | Some r \<Rightarrow> if tgt \<in> set (drop (nat lo) (take (nat hi) a)) then lo \<le> r \<and> r < hi \<and> a ! nat r = tgt else r = -1"
  using assms
proof (induction a tgt lo hi rule: UTIL_BinarySearch.induct)
  case (1 a tgt lo hi)
  show ?case
  proof (cases "lo < hi")
    case False
    then show ?thesis using "1.prems" by (subst UTIL_BinarySearch.simps) simp
  next
    case True
    define mid where "mid = (lo + hi) div 2"
    have mid: "lo \<le> mid" "mid < hi" using True by (auto simp: mid_def)
    have at: "array_at a mid = Some (a ! nat mid)" using mid "1.prems" by (simp add: array_at_def)
    have le: "i \<le> j \<Longrightarrow> j < length a \<Longrightarrow> a ! i \<le> a ! j" for i j
      using "1.prems"(1) by (simp add: sorted_iff_nth_mono)
    have mem: "tgt \<in> set (drop (nat l) (take (nat h) a)) \<longleftrightarrow> (\<exists>i. l \<le> int i \<and> int i < h \<and> a ! i = tgt)"
      if "0 \<le> l" "h \<le> int (length a)" for l h
    proof
      assume "tgt \<in> set (drop (nat l) (take (nat h) a))"
      then obtain i where "nat l \<le> i" "i < length (take (nat h) a)" "tgt = take (nat h) a ! i"
        by (rule in_set_dropE)
      then show "\<exists>i. l \<le> int i \<and> int i < h \<and> a ! i = tgt" using that by (intro exI [of _ i]) auto
    next
      assume "\<exists>i. l \<le> int i \<and> int i < h \<and> a ! i = tgt"
      then obtain i where i: "l \<le> int i" "int i < h" "a ! i = tgt" by blast
      then have "drop (nat l) (take (nat h) a) ! (i - nat l) = tgt" "i - nat l < length (drop (nat l) (take (nat h) a))"
        using that by auto
      then show "tgt \<in> set (drop (nat l) (take (nat h) a))" by (metis nth_mem)
    qed
    note m = "1.prems"(2,4)
    consider "lo + hi > INT_MAX" | "lo + hi \<le> INT_MAX" "a ! nat mid = tgt" | "lo + hi \<le> INT_MAX" "a ! nat mid < tgt"
      | "lo + hi \<le> INT_MAX" "tgt < a ! nat mid" by linarith
    then show ?thesis
    proof cases
      case 1
      then show ?thesis using True by (subst UTIL_BinarySearch.simps) (simp add: INT_MAX_def)
    next
      case 2
      have ok: "\<not> (lo + hi > INT_MAX \<or> lo < 0)" using "1.prems" 2 by auto
      have "lo \<le> int (nat mid) \<and> int (nat mid) < hi" using mid "1.prems"(2) by simp
      then have "tgt \<in> set (drop (nat lo) (take (nat hi) a))" using mem [OF m] 2(2) by blast
      then show ?thesis using 2 True ok at mid
        by (subst UTIL_BinarySearch.simps) (simp add: mid_def [symmetric])
    next
      case 3
      have ok: "\<not> (lo + hi > INT_MAX \<or> lo < 0)" using "1.prems" 3 by auto
      have step: "UTIL_BinarySearch a tgt lo hi = UTIL_BinarySearch a tgt (mid + 1) hi"
        using 3 True ok at by (subst UTIL_BinarySearch.simps) (simp add: mid_def [symmetric])
      have "tgt \<in> set (drop (nat lo) (take (nat hi) a)) \<longleftrightarrow> tgt \<in> set (drop (nat (mid + 1)) (take (nat hi) a))"
      proof -
        have "mid + 1 \<le> int i" if "lo \<le> int i" "int i < hi" "a ! i = tgt" for i
          using le [of i "nat mid"] that 3(2) mid "1.prems" by force
        then show ?thesis using mem [OF m] mem [of "mid + 1" hi] mid "1.prems" by fastforce
      qed
      moreover have "case UTIL_BinarySearch a tgt (mid + 1) hi of None \<Rightarrow> 2 ^ 30 < hi
        | Some r \<Rightarrow> if tgt \<in> set (drop (nat (mid + 1)) (take (nat hi) a)) then mid + 1 \<le> r \<and> r < hi \<and> a ! nat r = tgt else r = -1"
        using "1.IH"(1) [OF True ok] at 3(2) mid "1.prems" unfolding mid_def [symmetric] by simp
      ultimately show ?thesis using step mid by (auto split: option.splits if_splits)
    next
      case 4
      have ok: "\<not> (lo + hi > INT_MAX \<or> lo < 0)" using "1.prems" 4 by auto
      have step: "UTIL_BinarySearch a tgt lo hi = UTIL_BinarySearch a tgt lo mid"
        using 4 True ok at by (subst UTIL_BinarySearch.simps) (simp add: mid_def [symmetric])
      have "tgt \<in> set (drop (nat lo) (take (nat hi) a)) \<longleftrightarrow> tgt \<in> set (drop (nat lo) (take (nat mid) a))"
      proof -
        have "int i < mid" if "lo \<le> int i" "int i < hi" "a ! i = tgt" for i
          using le [of "nat mid" i] that 4(2) mid "1.prems" by force
        then show ?thesis using mem [OF m] mem [of lo mid] mid "1.prems" by fastforce
      qed
      moreover have "case UTIL_BinarySearch a tgt lo mid of None \<Rightarrow> 2 ^ 30 < mid
        | Some r \<Rightarrow> if tgt \<in> set (drop (nat lo) (take (nat mid) a)) then lo \<le> r \<and> r < mid \<and> a ! nat r = tgt else r = -1"
        using "1.IH"(2) [OF True ok] at 4(2) mid "1.prems" unfolding mid_def [symmetric] by simp
      ultimately show ?thesis using step mid by (auto split: option.splits if_splits)
    qed
  qed
qed

text \<open>A target above all elements drives the search to the right end, where the sum leaves the range of an \<^verbatim>\<open>int\<close>.\<close>

lemma BinarySearch_overflows:
  assumes "0 \<le> lo" "lo < hi" "2 ^ 30 < hi" "hi \<le> int (length a)" "\<And>i. lo \<le> int i \<Longrightarrow> int i < hi \<Longrightarrow> a ! i < tgt"
  shows "UTIL_BinarySearch a tgt lo hi = None"
  using assms
proof (induction a tgt lo hi rule: UTIL_BinarySearch.induct)
  case (1 a tgt lo hi)
  define mid where "mid = (lo + hi) div 2"
  have mid: "lo \<le> mid" "mid < hi" using "1.prems" by (auto simp: mid_def)
  show ?case
  proof (cases "lo + hi > INT_MAX")
    case True
    then show ?thesis using "1.prems"(2) by (subst UTIL_BinarySearch.simps) simp
  next
    case False
    then have ok: "\<not> (lo + hi > INT_MAX \<or> lo < 0)" and less: "mid + 1 < hi"
      using "1.prems" by (auto simp: mid_def INT_MAX_def)
    have at: "array_at a mid = Some (a ! nat mid)" using mid "1.prems" by (simp add: array_at_def)
    have low: "a ! nat mid < tgt" using "1.prems"(5) [of "nat mid"] mid "1.prems"(1) by simp
    have "UTIL_BinarySearch a tgt (mid + 1) hi = None"
      using "1.IH"(1) [OF "1.prems"(2) ok] at low less mid "1.prems" unfolding mid_def [symmetric] by simp
    then show ?thesis using "1.prems"(2) ok at low
      by (subst UTIL_BinarySearch.simps) (simp add: mid_def [symmetric])
  qed
qed

section \<open>Comparison, shuffling\<close>

lemma bytes_equal_iff:
  "i + n \<le> length a \<Longrightarrow> i + n \<le> length b \<Longrightarrow>
   bytes_equal a b i n = Some (take n (drop i a) = take n (drop i b))"
proof (induction a b i n rule: bytes_equal.induct)
  case (2 a b i n)
  then have "drop i a = a ! i # drop (Suc i) a" "drop i b = b ! i # drop (Suc i) b"
    by (simp_all add: Cons_nth_drop_Suc)
  then show ?case using 2 by simp
qed simp

lemma UTIL_StrEqual_iff: "UTIL_StrEqual a (length a) b (length b) = Some (a = b)"
  by (auto simp: UTIL_StrEqual_def bytes_equal_iff)

lemma shuffle_loop_mset:
  "i + n \<le> length arr \<Longrightarrow>
   \<exists>arr'. shuffle_loop n rnd i arr = Some arr' \<and> mset arr' = mset arr \<and> length arr' = length arr"
proof (induction n rnd i arr rule: shuffle_loop.induct)
  case (2 n rnd i arr)
  define r where "r = (if rnd i < 0 then rnd i * -1 else rnd i) mod (int i + 1)"
  have rb: "0 \<le> r" "r < int i + 1" unfolding r_def by (rule pos_mod_sign pos_mod_bound, simp)+
  obtain m where m: "r = int m" using nonneg_int_cases [OF rb(1)] by blast
  have mi: "m \<le> i" using rb(2) m by simp
  let ?a = "arr[i := arr ! m, m := arr ! i]"
  have at: "array_at arr (int i) = Some (arr ! i)" "array_at arr r = Some (arr ! m)"
    "array_set arr (int i) (arr ! m) = Some (arr[i := arr ! m])"
    "array_set (arr[i := arr ! m]) r (arr ! i) = Some ?a"
    using m mi "2.prems" by auto
  have step: "shuffle_loop (Suc n) rnd i arr = shuffle_loop n rnd (Suc i) ?a"
    using at by (simp add: Let_def r_def [symmetric])
  have "\<exists>arr'. shuffle_loop n rnd (Suc i) ?a = Some arr' \<and> mset arr' = mset ?a \<and> length arr' = length ?a"
    by (rule "2.IH" [OF refl refl]) (use at "2.prems" r_def in auto)
  moreover have "mset ?a = mset arr" using m mi "2.prems" by (intro mset_swap) auto
  ultimately show ?case using step by simp
qed simp

section \<open>Key slices as numbers\<close>

text \<open>The number that a list of bytes writes in base 256, most significant byte first.\<close>

definition bytes_val :: "byte list \<Rightarrow> nat" where
  "bytes_val bs = foldl (\<lambda>r b. r * 256 + unat b) 0 bs"

lemma bytes_val_snoc [simp]: "bytes_val (bs @ [b]) = bytes_val bs * 256 + unat b"
  by (simp add: bytes_val_def)

lemma bytes_val_Nil [simp]: "bytes_val [] = 0"
  by (simp add: bytes_val_def)

lemma unat_byte: "unat (b :: byte) < 256"
  using unsigned_less [of b, where 'a = nat] by simp

lemma bytes_val_less: "bytes_val bs < 256 ^ length bs"
proof (induction bs rule: rev_induct)
  case (snoc b bs)
  have "bytes_val (bs @ [b]) < (bytes_val bs + 1) * 256" using unat_byte [of b] by simp
  also have "\<dots> \<le> 256 ^ length bs * 256" using snoc by (intro mult_le_mono1) simp
  finally show ?case by simp
qed simp

lemma bytes_val_inj: "length as = length bs \<Longrightarrow> bytes_val as = bytes_val bs \<Longrightarrow> as = bs"
proof (induction as arbitrary: bs rule: rev_induct)
  case (snoc a as)
  then obtain b bs' where bs: "bs = bs' @ [b]" by (cases bs rule: rev_cases) auto
  have eq: "bytes_val as * 256 + unat a = bytes_val bs' * 256 + unat b" using snoc.prems bs by simp
  have "unat a = unat b" using arg_cong [OF eq, of "\<lambda>x. x mod 256"] unat_byte [of a] unat_byte [of b] by simp
  moreover have "bytes_val as = bytes_val bs'" using eq \<open>unat a = unat b\<close> by simp
  ultimately show ?case using snoc.IH [of bs'] snoc.prems(1) bs by (simp add: word_unat_eq_iff)
qed simp

lemma unat_push_byte:
  assumes "unat res < 256 ^ 7"
  shows "unat (push_byte res b) = unat res * 256 + unat b"
proof -
  have lt: "unat res * 256 < 2 ^ LENGTH(64)" using assms by simp
  have ub: "unat (ucast b :: u64) = unat b"
    using unat_byte [of b] by (simp add: unsigned_ucast_eq take_bit_nat_eq_self)
  have b8: "bit b n \<Longrightarrow> n < 8" for n using bit_imp_le_length [of b n] by simp
  have "and x (255 :: u64) = take_bit 8 x" for x by (simp add: take_bit_eq_mask mask_eq_exp_minus_1)
  then have a: "and (ucast b) 255 = (ucast b :: u64)"
    by (auto intro!: bit_word_eqI simp: bit_take_bit_iff bit_ucast_iff dest: b8)
  have p: "unat (push_bit 8 res) = unat res * 256"
    unfolding unsigned_push_bit_eq using lt by (simp add: push_bit_eq_mult take_bit_nat_eq_self)
  have d: "and (push_bit 8 res) (ucast b) = 0"
  proof (rule bit_word_eqI)
    show "bit (and (push_bit 8 res) (ucast b)) n = bit (0 :: u64) n" for n
      using b8 [of n] by (auto simp: bit_and_iff bit_push_bit_iff bit_ucast_iff)
  qed
  have "push_byte res b = push_bit 8 res + ucast b"
    using d by (simp add: push_byte_def a disjunctive_add_eq_or [symmetric])
  moreover have "unat (push_bit 8 res) + unat (ucast b :: u64) < 2 ^ LENGTH(64)"
    using p ub assms unat_byte [of b] by simp
  ultimately show ?thesis using p ub by (simp add: unat_word_ariths)
qed

text \<open>A key slice is the number of its bytes, filled up with zero bytes on the right.\<close>

lemma take_bytes_val:
  "n \<le> length str \<Longrightarrow> unat res < 256 ^ m \<Longrightarrow> m + n \<le> 8 \<Longrightarrow>
   \<exists>r. take_bytes n str res = Some r \<and> unat r = foldl (\<lambda>r b. r * 256 + unat b) (unat res) (take n str) \<and>
       unat r < 256 ^ (m + n)"
proof (induction n str res arbitrary: m rule: take_bytes.induct)
  case (3 n b str res)
  have "unat res < 256 ^ 7" using 3(3,4) power_increasing [of m 7 "256::nat"] by simp
  then have p: "unat (push_byte res b) = unat res * 256 + unat b" by (rule unat_push_byte)
  have "unat res * 256 + unat b < (unat res + 1) * 256" using unat_byte [of b] by simp
  also have "\<dots> \<le> 256 ^ m * 256" using 3(3) by (intro mult_le_mono1) simp
  finally have lt: "unat (push_byte res b) < 256 ^ Suc m" using p by simp
  show ?case using "3.IH" [OF _ lt] 3(2,4) p by simp
qed auto

lemma pad_val:
  "unat r * 256 ^ n < 2 ^ 64 \<Longrightarrow> unat (pad n r) = unat r * 256 ^ n"
proof (induction n r rule: pad.induct)
  case (2 n r)
  have "unat r * 256 * 1 \<le> unat r * 256 * 256 ^ n" by (rule mult_le_mono2) simp
  also have "\<dots> < 2 ^ 64" using 2(2) by (simp only: power_Suc mult.assoc)
  finally have lt: "unat r * 256 < 2 ^ LENGTH(64)" by simp
  have "unat (push_bit 8 r) = unat r * 256"
    unfolding unsigned_push_bit_eq using lt by (simp add: push_bit_eq_mult take_bit_nat_eq_self)
  then show ?case using 2 by (simp add: mult.assoc)
qed simp

definition slice_val :: "byte list \<Rightarrow> nat" where
  "slice_val bs = bytes_val (bs @ replicate (8 - length bs) 0)"

lemma bytes_val_zeros: "bytes_val (bs @ replicate n 0) = bytes_val bs * 256 ^ n"
proof (induction n)
  case (Suc n)
  have "bs @ replicate (Suc n) 0 = (bs @ replicate n 0) @ [0]" by (simp add: replicate_append_same)
  then show ?case using Suc by (simp only: bytes_val_snoc) simp
qed simp

lemma slice_val_less: "length bs \<le> 8 \<Longrightarrow> slice_val bs < 2 ^ 64"
  using bytes_val_less [of "bs @ replicate (8 - length bs) 0"] by (simp add: slice_val_def)

lemma GetNextKeySlice_val:
  assumes "len \<le> 8" "len \<le> length str"
  shows "\<exists>ks. UTIL_GetNextKeySlice str len = Some ks \<and> unat ks = slice_val (take len str)"
proof -
  obtain r where r: "take_bytes len str 0 = Some r" "unat r = bytes_val (take len str)" "unat r < 256 ^ len"
    using take_bytes_val [OF assms(2), of 0 0] assms(1) by (auto simp: bytes_val_def)
  have "unat r * 256 ^ (8 - len) = slice_val (take len str)"
    using r(2) assms by (simp add: slice_val_def bytes_val_zeros)
  moreover have "\<dots> < 2 ^ 64" using assms by (intro slice_val_less) simp
  ultimately show ?thesis using r(1) assms(1) pad_val [of r "8 - len"]
    by (simp add: UTIL_GetNextKeySlice_def keyslice_length_def)
qed

text \<open>Slices of byte strings compare like the strings, filled up with zero bytes.\<close>

lemma slice_val_inj:
  "length as = length bs \<Longrightarrow> slice_val as = slice_val bs \<Longrightarrow> as = bs"
  using bytes_val_inj [of "as @ replicate (8 - length as) 0" "bs @ replicate (8 - length bs) 0"]
  by (simp add: slice_val_def)

section \<open>From slices back to strings\<close>

lemma unat_drop_bit8: "unat (drop_bit 8 (w :: u64)) = unat w div 256"
  unfolding unsigned_drop_bit_eq using unsigned_less [of w, where 'a = nat]
  by (simp add: drop_bit_eq_div take_bit_nat_eq_self)

lemma unat_ucast8: "unat (ucast (w :: u64) :: byte) = unat w mod 256"
  by (simp add: unsigned_ucast_eq take_bit_eq_mod)

lemma slice_loop_bytes:
  assumes "length bs = i" "i \<le> 8" "unat ks = bytes_val bs" "len \<le> length res"
  shows "slice_loop i len res ks = take (min i len) bs @ drop (min i len) res"
  using assms
proof (induction i len res ks arbitrary: bs rule: slice_loop.induct)
  case (2 i len res ks)
  then obtain bs' b where bs: "bs = bs' @ [b]" by (cases bs rule: rev_cases) auto
  have v: "unat ks = bytes_val bs' * 256 + unat b" using "2.prems"(3) bs by simp
  have b: "ucast ks = b" using v unat_byte [of b] unat_ucast8 [of ks] by (simp add: word_unat_eq_iff)
  have d: "unat (drop_bit 8 ks) = bytes_val bs'" using v unat_byte [of b] by (simp add: unat_drop_bit8)
  let ?res = "if i < len then res[i := ucast ks] else res"
  have "slice_loop i len ?res (drop_bit 8 ks) = take (min i len) bs' @ drop (min i len) ?res"
    by (rule "2.IH") (use "2.prems" bs d in auto)
  then show ?case using "2.prems" bs b
    by (auto simp: min_def Cons_nth_drop_Suc [symmetric] not_less less_Suc_eq_le)
qed simp

lemma ul_loop_slice: "ul_loop i res ul = slice_loop i i res ul"
proof -
  have "i \<le> len \<Longrightarrow> ul_loop i res ul = slice_loop i len res ul" for len
    by (induction i res ul rule: ul_loop.induct) auto
  then show ?thesis by simp
qed

lemma u64_bytes:
  obtains bs where "length bs = 8" "unat (w :: u64) = bytes_val bs"
proof -
  have "\<exists>bs. length bs = n \<and> m = bytes_val bs" if "m < 256 ^ n" for m n
    using that
  proof (induction n arbitrary: m)
    case (Suc n)
    have "m div 256 < 256 ^ n" using Suc.prems by (simp add: less_mult_imp_div_less mult.commute)
    then obtain bs where bs: "length bs = n" "m div 256 = bytes_val bs" using Suc.IH by blast
    have "unat (word_of_nat (m mod 256) :: byte) = m mod 256"
      by (simp add: unsigned_of_nat take_bit_eq_mod)
    moreover have "bytes_val bs * 256 + m mod 256 = m" using bs(2) div_mult_mod_eq [of m 256] by simp
    ultimately show ?case using bs(1) by (intro exI [of _ "bs @ [word_of_nat (m mod 256)]"]) simp
  qed simp
  moreover have "unat w < 256 ^ 8" using unsigned_less [of w, where 'a = nat] by simp
  ultimately show thesis using that by blast
qed

text \<open>The round trips: the bytes of a slice come back, and every number is the slice of its bytes.\<close>

lemma KeySliceToStr_GetNextKeySlice:
  assumes "len \<le> 8" "len \<le> length str"
  shows "Option.bind (UTIL_GetNextKeySlice str len) (\<lambda>ks. UTIL_KeySliceToStr True ks len) = Some (take len str)"
proof -
  obtain ks where ks: "UTIL_GetNextKeySlice str len = Some ks" "unat ks = slice_val (take len str)"
    using GetNextKeySlice_val [OF assms] by blast
  let ?bs = "take len str @ replicate (8 - len) 0"
  have "slice_loop 8 len (replicate len 0) ks = take (min 8 len) ?bs @ drop (min 8 len) (replicate len 0)"
    by (rule slice_loop_bytes) (use assms ks(2) in \<open>auto simp: slice_val_def\<close>)
  then show ?thesis using assms ks(1)
    by (simp add: UTIL_KeySliceToStr_def keyslice_length_def min_absorb2)
qed

lemma UlToStr_bytes:
  assumes "length bs = 8" "unat ul = bytes_val bs"
  shows "UTIL_UlToStr True ul = Some (bs @ [0])"
proof -
  have "slice_loop 8 8 (replicate 9 0) ul = take (min 8 8) bs @ drop (min 8 8) (replicate 9 0)"
    by (rule slice_loop_bytes) (use assms in auto)
  then show ?thesis using assms(1) by (simp add: UTIL_UlToStr_def ul_loop_slice)
qed

lemma str_loop_take:
  "\<forall>b\<in>set bs. b \<noteq> 0 \<Longrightarrow> length bs + i \<le> 8 \<Longrightarrow>
   str_loop (bs @ 0 # rest) i res = Some (the (take_bytes (length bs) (bs @ rest) res), i + length bs)"
  by (induction bs arbitrary: i res) (auto simp: keyslice_length_def)

lemma UlToStr_StrToUl:
  assumes "\<forall>b\<in>set bs. b \<noteq> 0" "length bs \<le> 8"
  shows "Option.bind (UTIL_StrToUl (bs @ 0 # rest)) (UTIL_UlToStr True) = Some (bs @ replicate (9 - length bs) 0)"
proof -
  obtain ks where ks: "UTIL_GetNextKeySlice bs (length bs) = Some ks" "unat ks = slice_val bs"
    using GetNextKeySlice_val [OF assms(2), of bs] by auto
  have l: "length bs \<le> length (bs @ rest)" "unat (0 :: u64) < 256 ^ 0" "0 + length bs \<le> 8" using assms(2) by auto
  have "take_bytes n bs r = take_bytes n (bs @ rest) r" if "n \<le> length bs" for n r
    using that by (induction n bs r rule: take_bytes.induct) auto
  then have "the (take_bytes (length bs) (bs @ rest) 0) = the (take_bytes (length bs) bs 0)" by simp
  then have "UTIL_StrToUl (bs @ 0 # rest) = Some ks"
    using str_loop_take [OF assms(1), of 0 rest 0] assms(2) ks(1)
    by (auto simp: UTIL_StrToUl_def UTIL_GetNextKeySlice_def bind_Some_iff)
  moreover have "UTIL_UlToStr True ks = Some ((bs @ replicate (8 - length bs) 0) @ [0])"
    by (rule UlToStr_bytes) (use assms(2) ks(2) in \<open>simp_all add: slice_val_def\<close>)
  moreover have "replicate (8 - length bs) 0 @ [0] = replicate (9 - length bs) (0 :: byte)"
    using assms(2) by (simp add: replicate_append_same Suc_diff_le [symmetric] del: replicate_Suc)
      (simp flip: replicate_Suc)
  ultimately show ?thesis by simp
qed

text \<open>Eight bytes without a terminator are read past the end.\<close>

lemma StrToUl_overrun:
  assumes "length bs = 8" "\<forall>b\<in>set bs. b \<noteq> 0"
  shows "UTIL_StrToUl bs = None"
proof -
  have "str_loop bs i res = None" if "\<forall>b\<in>set bs. b \<noteq> 0" "i + length bs \<le> 8" for i res
    using that by (induction bs arbitrary: i res) (auto simp: keyslice_length_def)
  then show ?thesis using assms by (simp add: UTIL_StrToUl_def)
qed

end
