(* ===== verification/KV_Model.thy ===== *)
theory KV_Model
  imports BTree_Index Util
begin

text \<open>
  The trie of B+-trees of \<^verbatim>\<open>src/btrees_and_tries/bordernode.c\<close> and \<^verbatim>\<open>kvstore.c\<close>, function by function.
  A node of the trie is a relation whose keys are the 8-byte slices of the store's keys and whose records are
  pointers to border nodes; a border node holds the values of the keys that end in its slice, and either the
  suffix and value of one longer key, or the link to the trie node of the next slice. Border nodes and trie
  nodes live in an explicit heap and are updated in place.
\<close>

section \<open>Data\<close>

definition KEY_SLICE_LENGTH :: nat where
  "KEY_SLICE_LENGTH = keyslice_length"

definition MAX_BN_SIZE :: nat where
  "MAX_BN_SIZE = keyslice_length"

text \<open>What a \<^verbatim>\<open>void *\<close> of the store points to: a value of the client or a trie node.\<close>

datatype 'v Ptr = Val 'v | Node addr

type_synonym 'v vptr = "'v Ptr option"

record 'v BorderNode =
  prefixLinks :: "'v vptr list"
  suffixLink :: "'v vptr"
  keySuffix :: "byte list option"
  keySuffixLength :: nat

record KVKey =
  kstr :: "byte list option"
  klen :: nat

record KVNode =
  tree :: "addr Relation"
  ncursor :: Cursor

text \<open>
  The store with its heap. Call number \<open>n\<close> of \<^verbatim>\<open>malloc\<close> in these files succeeds if \<open>kmem n\<close>; the
  relation of trie node \<open>a\<close> has the calls \<open>rmem a\<close>.
\<close>

record 'v KVStore =
  bns :: "addr \<Rightarrow> 'v BorderNode option"
  kvnodes :: "addr \<Rightarrow> KVNode option"
  kbrk :: addr
  kmem :: "addr \<Rightarrow> bool"
  rmem :: "addr \<Rightarrow> addr \<Rightarrow> bool"
  rootNode :: cptr
  numKeys :: u64

definition malloc :: "'v KVStore \<Rightarrow> cptr \<times> 'v KVStore" where
  "malloc s = (if kmem s (kbrk s) then Some (kbrk s) else None, s\<lparr>kbrk := Suc (kbrk s)\<rparr>)"

text \<open>
  \<^verbatim>\<open>surely_malloc\<close> exits when \<^verbatim>\<open>malloc\<close> fails. Its parameter is an \<^verbatim>\<open>unsigned int\<close>, so that the \<^verbatim>\<open>size_t\<close> its
  callers pass is cut to 32 bits; the second component of the result is the number of bytes of the block. Lengths and
  sizes are natural numbers below \<open>2 ^ 64\<close>, and a caller that writes past the end of its block is undefined.
\<close>

definition surely_malloc :: "'v KVStore \<Rightarrow> nat \<Rightarrow> (addr \<times> nat \<times> 'v KVStore) option" where
  "surely_malloc s n = (case malloc s of (None, s) \<Rightarrow> None | (Some a, s) \<Rightarrow> Some (a, n mod 2 ^ 32, s))"

lemma surely_malloc_code [code]:
  "surely_malloc s n = (case malloc s of (None, s) \<Rightarrow> None | (Some a, s) \<Rightarrow> Some (a, nat (int n mod 4294967296), s))"
proof -
  have "nat (int n mod 4294967296) = n mod 2 ^ 32" by (simp add: nat_mod_distrib)
  then show ?thesis by (simp only: surely_malloc_def)
qed

definition sizeof_KVKey :: nat where
  "sizeof_KVKey = 16"

definition sizeof_BorderNode :: nat where
  "sizeof_BorderNode = 88"

section \<open>Keys\<close>

definition KV_NewKey :: "'v KVStore \<Rightarrow> byte list option \<Rightarrow> nat \<Rightarrow> (KVKey \<times> 'v KVStore) option" where
  "KV_NewKey s str len = do {
     (newStr, s) \<leftarrow> (if len > 0 then do {
         str \<leftarrow> str;
         (a, room, s) \<leftarrow> surely_malloc s len;
         assert_c (len \<le> room);
         assert_c (len \<le> length str);
         Some (Some (take len str), s) }
       else Some (None, s));
     (a, room, s) \<leftarrow> surely_malloc s sizeof_KVKey;
     assert_c (sizeof_KVKey \<le> room);
     Some (\<lparr>kstr = newStr, klen = len\<rparr>, s) }"

definition KV_MoveKey :: "'v KVStore \<Rightarrow> byte list option \<Rightarrow> nat \<Rightarrow> (KVKey \<times> 'v KVStore) option" where
  "KV_MoveKey s str len = do {
     assert_c (len > 0 \<longrightarrow> str \<noteq> None);
     (a, room, s) \<leftarrow> surely_malloc s sizeof_KVKey;
     assert_c (sizeof_KVKey \<le> room);
     Some (\<lparr>kstr = str, klen = len\<rparr>, s) }"

definition KV_GetCharArray :: "KVKey option \<Rightarrow> byte list option option" where
  "KV_GetCharArray key = do { k \<leftarrow> key; Some (kstr k) }"

definition KV_GetCharArraySize :: "KVKey option \<Rightarrow> nat option" where
  "KV_GetCharArraySize key = do { k \<leftarrow> key; Some (klen k) }"

text \<open>The bytes a pointer \<^verbatim>\<open>const char *\<close> reaches; \<^verbatim>\<open>NULL\<close> reaches none.\<close>

definition chars :: "byte list option \<Rightarrow> byte list" where
  "chars p = (case p of None \<Rightarrow> [] | Some bs \<Rightarrow> bs)"

definition KV_KeyEqual :: "KVKey \<Rightarrow> KVKey \<Rightarrow> bool option" where
  "KV_KeyEqual key1 key2 = UTIL_StrEqual (chars (kstr key1)) (klen key1) (chars (kstr key2)) (klen key2)"

section \<open>Border nodes\<close>

definition set_bn :: "'v KVStore \<Rightarrow> addr \<Rightarrow> 'v BorderNode \<Rightarrow> 'v KVStore" where
  "set_bn s b n = s\<lparr>bns := (bns s)(b \<mapsto> n)\<rparr>"

definition BN_NewBorderNode :: "'v KVStore \<Rightarrow> (addr \<times> 'v KVStore) option" where
  "BN_NewBorderNode s = do {
     (b, room, s) \<leftarrow> surely_malloc s sizeof_BorderNode;
     assert_c (sizeof_BorderNode \<le> room);
     Some (b, set_bn s b \<lparr>prefixLinks = replicate MAX_BN_SIZE None, suffixLink = None,
                           keySuffix = None, keySuffixLength = 0\<rparr>) }"

definition BN_FreeBorderNode :: "'v KVStore \<Rightarrow> cptr \<Rightarrow> 'v KVStore option" where
  "BN_FreeBorderNode s p =
     (case p of None \<Rightarrow> Some s
      | Some b \<Rightarrow> do { n \<leftarrow> bns s b; Some (s\<lparr>bns := (bns s)(b := None)\<rparr>) })"

definition BN_SetPrefixValue :: "'v KVStore \<Rightarrow> addr \<Rightarrow> nat \<Rightarrow> 'v vptr \<Rightarrow> 'v KVStore option" where
  "BN_SetPrefixValue s b i val = do {
     n \<leftarrow> bns s b;
     assert_c (i > 0);
     assert_c (i \<le> MAX_BN_SIZE);
     ps \<leftarrow> array_set (prefixLinks n) (int i - 1) val;
     Some (set_bn s b (n\<lparr>prefixLinks := ps\<rparr>)) }"

definition BN_GetPrefixValue :: "'v KVStore \<Rightarrow> addr \<Rightarrow> nat \<Rightarrow> 'v vptr option" where
  "BN_GetPrefixValue s b i = do {
     n \<leftarrow> bns s b;
     assert_c (i > 0);
     assert_c (i \<le> MAX_BN_SIZE);
     array_at (prefixLinks n) (int i - 1) }"

text \<open>The loop that copies the suffix writes \<open>len\<close> bytes of the new block.\<close>

definition BN_SetSuffixValue :: "'v KVStore \<Rightarrow> addr \<Rightarrow> byte list \<Rightarrow> nat \<Rightarrow> 'v vptr \<Rightarrow> 'v KVStore option" where
  "BN_SetSuffixValue s b suffix len val = do {
     n \<leftarrow> bns s b;
     (a, room, s) \<leftarrow> surely_malloc s len;
     assert_c (len \<le> room);
     assert_c (len \<le> length suffix);
     Some (set_bn s b (n\<lparr>keySuffix := Some (take len suffix), keySuffixLength := len, suffixLink := val\<rparr>)) }"

definition BN_TestSuffix :: "'v KVStore \<Rightarrow> addr \<Rightarrow> KVKey \<Rightarrow> bool option" where
  "BN_TestSuffix s b key = do {
     n \<leftarrow> bns s b;
     case keySuffix n of
       Some suf \<Rightarrow> UTIL_StrEqual (drop keyslice_length (chars (kstr key))) (klen key - keyslice_length)
                                suf (keySuffixLength n)
     | None \<Rightarrow> Some False }"

definition BN_GetSuffixValue :: "'v KVStore \<Rightarrow> addr \<Rightarrow> byte list \<Rightarrow> nat \<Rightarrow> 'v vptr option" where
  "BN_GetSuffixValue s b suf len = do {
     n \<leftarrow> bns s b;
     case keySuffix n of
       None \<Rightarrow> Some None
     | Some sf \<Rightarrow> do {
         e \<leftarrow> UTIL_StrEqual suf len sf (keySuffixLength n);
         Some (if e then suffixLink n else None) } }"

definition BN_ExportSuffixValue ::
  "'v KVStore \<Rightarrow> addr \<Rightarrow> ('v vptr \<times> KVKey option \<times> 'v KVStore) option" where
  "BN_ExportSuffixValue s b = do {
     n \<leftarrow> bns s b;
     (key, n, s) \<leftarrow> (case keySuffix n of
         Some sf \<Rightarrow> do {
           (k, s) \<leftarrow> KV_MoveKey s (Some sf) (keySuffixLength n);
           Some (Some k, n\<lparr>keySuffix := None, keySuffixLength := 0\<rparr>, s) }
       | None \<Rightarrow> Some (None, n, s));
     Some (suffixLink n, key, set_bn s b (n\<lparr>suffixLink := None\<rparr>)) }"

definition BN_SetLink :: "'v KVStore \<Rightarrow> addr \<Rightarrow> 'v vptr \<Rightarrow> 'v KVStore option" where
  "BN_SetLink s b val = do {
     n \<leftarrow> bns s b;
     Some (set_bn s b (n\<lparr>keySuffix := None, keySuffixLength := 0, suffixLink := val\<rparr>)) }"

definition BN_GetLink :: "'v KVStore \<Rightarrow> addr \<Rightarrow> 'v vptr option" where
  "BN_GetLink s b = do {
     n \<leftarrow> bns s b;
     Some (if keySuffix n \<noteq> None then None else suffixLink n) }"

definition BN_HasSuffix :: "'v KVStore \<Rightarrow> addr \<Rightarrow> bool option" where
  "BN_HasSuffix s b = do { n \<leftarrow> bns s b; Some (keySuffix n \<noteq> None) }"

definition BN_SetValue :: "'v KVStore \<Rightarrow> addr \<Rightarrow> KVKey \<Rightarrow> 'v vptr \<Rightarrow> 'v KVStore option" where
  "BN_SetValue s b key val =
     (if klen key > keyslice_length
      then BN_SetSuffixValue s b (drop keyslice_length (chars (kstr key))) (klen key - keyslice_length) val
      else BN_SetPrefixValue s b (klen key) val)"

section \<open>Trie nodes\<close>

definition newKVNode :: "'v KVStore \<Rightarrow> (cptr \<times> 'v KVStore) option" where
  "newKVNode s =
     (case malloc s of
        (None, s) \<Rightarrow> Some (None, s)
      | (Some a, s) \<Rightarrow>
          (case RL_NewRelation (rmem s a) of
             None \<Rightarrow> Some (None, s)
           | Some r \<Rightarrow> do {
               (c, r) \<leftarrow> RL_NewCursor r;
               case c of
                 None \<Rightarrow> Some (None, s)
               | Some c \<Rightarrow> Some (Some a, s\<lparr>kvnodes := (kvnodes s)(a \<mapsto> \<lparr>tree = r, ncursor = c\<rparr>)\<rparr>) }))"

definition KV_NewKVStore :: "(addr \<Rightarrow> bool) \<Rightarrow> (addr \<Rightarrow> addr \<Rightarrow> bool) \<Rightarrow> 'v KVStore option option" where
  "KV_NewKVStore ok rok = do {
     let s = \<lparr>bns = Map.empty, kvnodes = Map.empty, kbrk = 0, kmem = ok, rmem = rok, rootNode = None, numKeys = 0\<rparr>;
     case malloc s of
       (None, s) \<Rightarrow> Some None
     | (Some a, s) \<Rightarrow> do {
         (root, s) \<leftarrow> newKVNode s;
         case root of
           None \<Rightarrow> Some None
         | Some r \<Rightarrow> Some (Some (s\<lparr>rootNode := Some r, numKeys := 0\<rparr>)) } }"

text \<open>The calls of the relation's interface through a trie node's cursor.\<close>

definition node_move :: "'v KVStore \<Rightarrow> addr \<Rightarrow> Key \<Rightarrow> (bool \<times> 'v KVStore) option" where
  "node_move s a k = do {
     n \<leftarrow> kvnodes s a;
     (b, c) \<leftarrow> RL_MoveToKey (tree n) (ncursor n) k;
     Some (b, s\<lparr>kvnodes := (kvnodes s)(a \<mapsto> n\<lparr>ncursor := c\<rparr>)\<rparr>) }"

definition node_record :: "'v KVStore \<Rightarrow> addr \<Rightarrow> (addr \<times> 'v KVStore) option" where
  "node_record s a = do {
     n \<leftarrow> kvnodes s a;
     (b, c) \<leftarrow> RL_GetRecord (tree n) (ncursor n);
     Some (b, s\<lparr>kvnodes := (kvnodes s)(a \<mapsto> n\<lparr>ncursor := c\<rparr>)\<rparr>) }"

definition node_put :: "'v KVStore \<Rightarrow> addr \<Rightarrow> Key \<Rightarrow> addr \<Rightarrow> 'v KVStore option" where
  "node_put s a k b = do {
     n \<leftarrow> kvnodes s a;
     (t, c) \<leftarrow> RL_PutRecord (tree n) (ncursor n) k b;
     Some (s\<lparr>kvnodes := (kvnodes s)(a \<mapsto> \<lparr>tree = t, ncursor = c\<rparr>)\<rparr>) }"

definition node_addr :: "'v vptr \<Rightarrow> addr option" where
  "node_addr p = (case p of Some (Node a) \<Rightarrow> Some a | _ \<Rightarrow> None)"

section \<open>Put\<close>

definition key_slice :: "KVKey \<Rightarrow> u64 option" where
  "key_slice key = UTIL_GetNextKeySlice (chars (kstr key)) (UTIL_Min KEY_SLICE_LENGTH (klen key))"

text \<open>\<^verbatim>\<open>key->str += KEY_SLICE_LENGTH; key->len -= KEY_SLICE_LENGTH\<close>, in place.\<close>

definition next_part :: "KVKey \<Rightarrow> KVKey" where
  "next_part key = \<lparr>kstr = map_option (drop KEY_SLICE_LENGTH) (kstr key), klen = klen key - KEY_SLICE_LENGTH\<rparr>"

text \<open>
  The loop \<^verbatim>\<open>while (putCompleted == False)\<close>; \<open>sndPair\<close> is the pair \<^verbatim>\<open>sndKey\<close>, \<^verbatim>\<open>sndValue\<close> once the loop has
  taken the suffix of another key out of its border node. The result is the store and the key struct the
  caller passed, as the loop leaves it.
\<close>

partial_function (option) put_loop ::
  "'v KVStore \<Rightarrow> addr \<Rightarrow> KVKey \<Rightarrow> 'v vptr \<Rightarrow> (KVKey \<times> 'v vptr) option \<Rightarrow> ('v KVStore \<times> KVKey) option" where
  "put_loop s nd key value sndPair = do {
     nextKeySlice \<leftarrow> key_slice key;
     case sndPair of
       Some (sndKey, sndValue) \<Rightarrow> do {
         sndKeySlice \<leftarrow> key_slice sndKey;
         if nextKeySlice = sndKeySlice then
           if klen key \<le> KEY_SLICE_LENGTH \<or> klen sndKey \<le> KEY_SLICE_LENGTH then do {
             (b, s) \<leftarrow> BN_NewBorderNode s;
             s \<leftarrow> BN_SetValue s b key value;
             s \<leftarrow> BN_SetValue s b key sndValue;
             s \<leftarrow> node_put s nd nextKeySlice b;
             Some (s\<lparr>numKeys := numKeys s + 1\<rparr>, key) }
           else do {
             (p, s) \<leftarrow> newKVNode s;
             link \<leftarrow> p;
             (b, s) \<leftarrow> BN_NewBorderNode s;
             s \<leftarrow> BN_SetLink s b (Some (Node link));
             s \<leftarrow> node_put s nd nextKeySlice b;
             put_loop s link (next_part key) value (Some (next_part sndKey, sndValue)) }
         else do {
           (b, s) \<leftarrow> BN_NewBorderNode s;
           s \<leftarrow> BN_SetValue s b key value;
           s \<leftarrow> node_put s nd nextKeySlice b;
           (b, s) \<leftarrow> BN_NewBorderNode s;
           s \<leftarrow> BN_SetValue s b sndKey sndValue;
           s \<leftarrow> node_put s nd sndKeySlice b;
           Some (s\<lparr>numKeys := numKeys s + 1\<rparr>, key) } }
     | None \<Rightarrow> do {
         (btreeStatus, s) \<leftarrow> node_move s nd nextKeySlice;
         if \<not> btreeStatus then do {
           (b, s) \<leftarrow> BN_NewBorderNode s;
           s \<leftarrow> BN_SetValue s b key value;
           s \<leftarrow> node_put s nd nextKeySlice b;
           put_loop (s\<lparr>numKeys := numKeys s + 1\<rparr>) nd key value None }
         else do {
           (b, s) \<leftarrow> node_record s nd;
           if klen key \<le> KEY_SLICE_LENGTH then do {
             old \<leftarrow> BN_GetPrefixValue s b (klen key);
             let s = (if old = None then s\<lparr>numKeys := numKeys s + 1\<rparr> else s);
             s \<leftarrow> BN_SetPrefixValue s b (klen key) value;
             Some (s, key) }
           else do {
             hasSuffix \<leftarrow> BN_HasSuffix s b;
             if hasSuffix then do {
               same \<leftarrow> BN_TestSuffix s b key;
               if same then do {
                 s \<leftarrow> BN_SetSuffixValue s b (drop KEY_SLICE_LENGTH (chars (kstr key)))
                       (klen key - KEY_SLICE_LENGTH) value;
                 Some (s, key) }
               else do {
                 (sndValue, sndKey, s) \<leftarrow> BN_ExportSuffixValue s b;
                 (p, s) \<leftarrow> newKVNode s;
                 s \<leftarrow> BN_SetLink s b (map_option Node p);
                 link \<leftarrow> p;
                 sndKey \<leftarrow> sndKey;
                 put_loop s link (next_part key) value (Some (sndKey, sndValue)) } }
             else do {
               link \<leftarrow> BN_GetLink s b;
               if link \<noteq> None then do {
                 a \<leftarrow> node_addr link;
                 put_loop s a (next_part key) value None }
               else do {
                 s \<leftarrow> BN_SetSuffixValue s b (drop KEY_SLICE_LENGTH (chars (kstr key)))
                       (klen key - KEY_SLICE_LENGTH) value;
                 Some (s\<lparr>numKeys := numKeys s + 1\<rparr>, key) } } } } } }"

declare put_loop.simps [code]

definition KV_Put :: "'v KVStore \<Rightarrow> KVKey option \<Rightarrow> 'v option \<Rightarrow> (bool \<times> 'v KVStore \<times> KVKey) option" where
  "KV_Put s key value = do {
     key \<leftarrow> key;
     assert_c (kstr key \<noteq> None \<or> klen key = 0);
     v \<leftarrow> value;
     root \<leftarrow> rootNode s;
     (s, key) \<leftarrow> put_loop s root key (Some (Val v)) None;
     Some (True, s, key) }"

section \<open>Get\<close>

function getValueOfPartialKey :: "'v KVStore \<Rightarrow> addr \<Rightarrow> byte list \<Rightarrow> nat \<Rightarrow> ('v vptr \<times> 'v KVStore) option" where
  "getValueOfPartialKey s node partialKey len = do {
     keySlice \<leftarrow> UTIL_GetNextKeySlice partialKey (UTIL_Min KEY_SLICE_LENGTH len);
     (btreeStatus, s) \<leftarrow> node_move s node keySlice;
     if \<not> btreeStatus then Some (None, s)
     else do {
       (b, s) \<leftarrow> node_record s node;
       if len \<le> KEY_SLICE_LENGTH then do { v \<leftarrow> BN_GetPrefixValue s b len; Some (v, s) }
       else do {
         hasSuffix \<leftarrow> BN_HasSuffix s b;
         if hasSuffix then do {
           v \<leftarrow> BN_GetSuffixValue s b (drop KEY_SLICE_LENGTH partialKey) (len - KEY_SLICE_LENGTH);
           Some (v, s) }
         else do {
           link \<leftarrow> BN_GetLink s b;
           if link \<noteq> None then do {
             a \<leftarrow> node_addr link;
             getValueOfPartialKey s a (drop KEY_SLICE_LENGTH partialKey) (len - KEY_SLICE_LENGTH) }
           else Some (None, s) } } } }"
  by pat_completeness auto
termination
  by (relation "measure (\<lambda>(s, node, partialKey, len). len)") (auto simp: KEY_SLICE_LENGTH_def keyslice_length_def)

declare getValueOfPartialKey.simps [simp del]

definition KV_Get :: "'v KVStore \<Rightarrow> KVKey option \<Rightarrow> ('v vptr \<times> 'v KVStore) option" where
  "KV_Get s key = do {
     key \<leftarrow> key;
     root \<leftarrow> rootNode s;
     getValueOfPartialKey s root (chars (kstr key)) (klen key) }"

definition KV_NumKeys :: "'v KVStore \<Rightarrow> u64" where
  "KV_NumKeys s = numKeys s"

end
