(* ===== verification/KV_Abs.thy ===== *)
theory KV_Abs
  imports KV_Model
begin

text \<open>
  Abstract tries: the shape of the store's heap, with the map from byte strings to values it stands for.
\<close>

section \<open>Tries\<close>

datatype 'v trie = Trie addr "(Key \<times> 'v slot) list"
  and 'v slot = Slot addr "'v option list" "'v tail"
  and 'v tail = NoTail | Suffix "byte list" 'v | Layer "'v trie"

fun trie_addr :: "'v trie \<Rightarrow> addr" where
  "trie_addr (Trie a es) = a"

fun slot_addr :: "'v slot \<Rightarrow> addr" where
  "slot_addr (Slot b ps tt) = b"

text \<open>The key slice a byte string begins with.\<close>

definition ks_of :: "byte list \<Rightarrow> u64" where
  "ks_of bs = word_of_nat (slice_val (take 8 bs))"

function tget :: "'v trie \<Rightarrow> byte list \<Rightarrow> 'v option" where
  "tget (Trie a es) bs =
     (case map_of es (ks_of bs) of
        None \<Rightarrow> None
      | Some (Slot b ps tt) \<Rightarrow>
          if length bs \<le> 8 then ps ! (length bs - 1)
          else (case tt of
                  NoTail \<Rightarrow> None
                | Suffix sf v \<Rightarrow> if drop 8 bs = sf then Some v else None
                | Layer t \<Rightarrow> tget t (drop 8 bs)))"
  by pat_completeness auto
termination
  by (relation "measure (\<lambda>(t, bs). length bs)") auto

declare tget.simps [simp del]

text \<open>The addresses a trie occupies.\<close>

primrec tfoot :: "'v trie \<Rightarrow> addr set" and sfoot :: "'v slot \<Rightarrow> addr set" and lfoot :: "'v tail \<Rightarrow> addr set" where
  "tfoot (Trie a es) = insert a (\<Union> (snd ` set (map (map_prod id sfoot) es)))"
| "sfoot (Slot b ps tt) = insert b (lfoot tt)"
| "lfoot NoTail = {}"
| "lfoot (Suffix sf v) = {}"
| "lfoot (Layer t) = tfoot t"

definition entries_sep :: "(Key \<times> 'v slot) list \<Rightarrow> bool" where
  "entries_sep es \<longleftrightarrow> strict_sorted (keys_of es) \<and>
     (\<forall>k x k' x'. map_of es k = Some x \<longrightarrow> map_of es k' = Some x' \<longrightarrow> k \<noteq> k' \<longrightarrow> sfoot x \<inter> sfoot x' = {})"

text \<open>The key slices of a node increase, and its parts occupy different addresses.\<close>

primrec tsep :: "'v trie \<Rightarrow> bool" and ssep :: "'v slot \<Rightarrow> bool" and lsep :: "'v tail \<Rightarrow> bool" where
  "tsep (Trie a es) \<longleftrightarrow> entries_sep es \<and> a \<notin> \<Union> (sfoot ` snd ` set es) \<and>
     (\<forall>y\<in>snd ` set (map (map_prod id ssep) es). y)"
| "ssep (Slot b ps tt) \<longleftrightarrow> b \<notin> lfoot tt \<and> length ps = 8 \<and> lsep tt"
| "lsep NoTail \<longleftrightarrow> True"
| "lsep (Suffix sf v) \<longleftrightarrow> sf \<noteq> []"
| "lsep (Layer t) \<longleftrightarrow> tsep t"

lemma map_of_in_set: "strict_sorted (keys_of es) \<Longrightarrow> map_of es k = Some x \<longleftrightarrow> (k, x) \<in> set es"
  by (simp add: map_of_eq_Some_iff strict_sorted_iff)

lemma in_snd_set: "strict_sorted (keys_of es) \<Longrightarrow> x \<in> snd ` set es \<longleftrightarrow> (\<exists>k. map_of es k = Some x)"
  by (force simp: map_of_in_set)

lemma tfoot_Trie: "strict_sorted (keys_of es) \<Longrightarrow> tfoot (Trie a es) = insert a (\<Union>{sfoot x | k x. map_of es k = Some x})"
  by (auto simp: map_of_in_set image_iff) blast+

lemma tsep_Trie: "tsep (Trie a es) \<longleftrightarrow>
   entries_sep es \<and> (\<forall>k x. map_of es k = Some x \<longrightarrow> a \<notin> sfoot x \<and> ssep x)"
proof (cases "entries_sep es")
  case True
  then have "strict_sorted (keys_of es)" by (simp add: entries_sep_def)
  then show ?thesis using True by (auto simp: map_of_in_set image_iff)
qed simp

section \<open>Replacing the slot of a key slice\<close>

lemma entries_sep_ins:
  assumes "entries_sep es" "\<And>k' x'. k' \<noteq> k \<Longrightarrow> map_of es k' = Some x' \<Longrightarrow> sfoot x \<inter> sfoot x' = {}"
  shows "entries_sep (ins_list k x es)"
  using assms unfolding entries_sep_def
  by (auto simp: map_of_ins_list strict_sorted_ins_list split: if_splits)

lemma tsep_ins:
  assumes "tsep (Trie a es)" "ssep x" "a \<notin> sfoot x"
    and "\<And>k' x'. k' \<noteq> k \<Longrightarrow> map_of es k' = Some x' \<Longrightarrow> sfoot x \<inter> sfoot x' = {}"
  shows "tsep (Trie a (ins_list k x es))"
proof -
  have es: "entries_sep es" "strict_sorted (keys_of es)" using assms(1) by (auto simp: entries_sep_def)
  show ?thesis
    using assms(1-3) entries_sep_ins [OF es(1) assms(4)] unfolding tsep_Trie
    by (simp add: map_of_ins_list [OF es(2)])
qed

lemma tfoot_ins:
  assumes "strict_sorted (keys_of es)"
  shows "tfoot (Trie a (ins_list k x es)) \<subseteq> tfoot (Trie a es) \<union> sfoot x"
proof
  fix y assume "y \<in> tfoot (Trie a (ins_list k x es))"
  then consider "y = a" | l z where "map_of (ins_list k x es) l = Some z" "y \<in> sfoot z"
    unfolding tfoot_Trie [OF strict_sorted_ins_list [OF assms]] by blast
  then show "y \<in> tfoot (Trie a es) \<union> sfoot x"
  proof cases
    case 2
    then show ?thesis unfolding tfoot_Trie [OF assms]
      by (cases "l = k") (auto simp: map_of_ins_list [OF assms])
  qed simp
qed

lemma sfoot_subset: "strict_sorted (keys_of es) \<Longrightarrow> map_of es k = Some x \<Longrightarrow> sfoot x \<subseteq> tfoot (Trie a es)"
  by (auto simp: tfoot_Trie simp del: tfoot.simps)

text \<open>The records of the node's relation are the addresses of its border nodes.\<close>

definition records :: "(Key \<times> 'v slot) list \<Rightarrow> (Key \<times> addr) list" where
  "records es = map (map_prod id slot_addr) es"

lemma keys_of_records [simp]: "keys_of (records es) = keys_of es"
  by (simp add: records_def)

lemma length_records [simp]: "length (records es) = length es"
  by (simp add: records_def)

lemma map_of_records: "map_of (records es) k = map_option slot_addr (map_of es k)"
  by (induction es) (auto simp: records_def)

lemma records_ins: "records (ins_list k x es) = ins_list k (slot_addr x) (records es)"
  by (induction k x es rule: ins_list.induct) (auto simp: records_def)

lemma ins_list_same:
  "strict_sorted (keys_of xs) \<Longrightarrow> map_of xs k = Some b \<Longrightarrow> ins_list k b xs = xs"
proof (induction k b xs rule: ins_list.induct)
  case (2 k v a b ps)
  have "a < k" if "k \<noteq> a" using 2(2,3) that by (auto dest!: map_of_SomeD)
  then show ?case using 2 by auto
qed simp

text \<open>A node has fewer entries than addresses are in use.\<close>

lemma length_entries_less:
  assumes "tsep (Trie a es)" "\<forall>x\<in>tfoot (Trie a es). x < b"
  shows "length es < b"
proof -
  have es: "entries_sep es" "strict_sorted (keys_of es)" using assms(1) by (auto simp: entries_sep_def)
  let ?f = "\<lambda>e. slot_addr (snd e)"
  have b: "slot_addr x \<in> sfoot x" for x :: "'a slot" by (cases x) simp
  have "inj_on ?f (set es)"
  proof (rule inj_onI)
    fix e e' assume e: "e \<in> set es" "e' \<in> set es" "?f e = ?f e'"
    obtain k x k' x' where x: "e = (k, x)" "e' = (k', x')" by (cases e; cases e') auto
    have m: "map_of es k = Some x" "map_of es k' = Some x'" using e x map_of_in_set [OF es(2)] by auto
    have "k = k'"
      using es(1) m e(3) x b [of x] b [of x'] unfolding entries_sep_def by (metis disjoint_iff snd_conv)
    then show "e = e'" using m x by simp
  qed
  then have "length es = card (?f ` set es)"
    using es(2) distinct_map [of fst es] by (simp add: card_image distinct_card strict_sorted_iff)
  moreover have "?f ` set es \<subseteq> {..<b} - {a}"
  proof
    fix y assume "y \<in> ?f ` set es"
    then obtain k x where x: "(k, x) \<in> set es" "y = slot_addr x" by auto
    then have "map_of es k = Some x" using map_of_in_set [OF es(2)] by simp
    then show "y \<in> {..<b} - {a}"
      using assms(1,2) sfoot_subset [OF es(2)] b [of x] x(2) unfolding tsep_Trie by blast
  qed
  then have "card (?f ` set es) \<le> card ({..<b} - {a})" by (rule card_mono [rotated]) simp
  moreover have "a < b" using assms(2) by simp
  ultimately show ?thesis by simp
qed

section \<open>Keys in conflict\<close>

text \<open>
  Two remainders of keys are pushed down together as long as their next slices agree; they clash when one of
  them ends at a slice in which they agree.
\<close>

function clash :: "byte list \<Rightarrow> byte list \<Rightarrow> bool" where
  "clash as bs \<longleftrightarrow> ks_of as = ks_of bs \<and>
     (if length as \<le> 8 \<or> length bs \<le> 8 then True else clash (drop 8 as) (drop 8 bs))"
  by pat_completeness auto
termination
  by (relation "measure (\<lambda>(as, bs). length as)") auto

declare clash.simps [simp del]

text \<open>The same, of whole keys: the first slice is never the place of a clash.\<close>

definition collide :: "byte list \<Rightarrow> byte list \<Rightarrow> bool" where
  "collide as bs \<longleftrightarrow> length as > 8 \<and> length bs > 8 \<and> take 8 as = take 8 bs \<and> clash (drop 8 as) (drop 8 bs)"

text \<open>A put is safe when it meets no suffix that clashes, and none that is too long to be copied.\<close>

function safe :: "'v trie \<Rightarrow> byte list \<Rightarrow> bool" where
  "safe (Trie a es) bs =
     (case map_of es (ks_of bs) of
        None \<Rightarrow> True
      | Some (Slot b ps tt) \<Rightarrow>
          if length bs \<le> 8 then True
          else (case tt of
                  NoTail \<Rightarrow> True
                | Suffix sf v \<Rightarrow> sf = drop 8 bs \<or> \<not> clash (drop 8 bs) sf \<and> length sf < 2 ^ 32
                | Layer t \<Rightarrow> safe t (drop 8 bs)))"
  by pat_completeness auto
termination
  by (relation "measure (\<lambda>(t, bs). length bs)") auto

declare safe.simps [simp del]

section \<open>Lookups\<close>

definition slot_get :: "'v slot \<Rightarrow> byte list \<Rightarrow> 'v option" where
  "slot_get x bs =
     (case x of Slot b ps tt \<Rightarrow>
        if length bs \<le> 8 then ps ! (length bs - 1)
        else (case tt of
                NoTail \<Rightarrow> None
              | Suffix sf v \<Rightarrow> if drop 8 bs = sf then Some v else None
              | Layer t \<Rightarrow> tget t (drop 8 bs)))"

lemma tget_slot: "tget (Trie a es) bs = Option.bind (map_of es (ks_of bs)) (\<lambda>x. slot_get x bs)"
  by (subst tget.simps) (auto simp: slot_get_def split: option.splits slot.splits)

lemma tget_ins:
  "strict_sorted (keys_of es) \<Longrightarrow>
   tget (Trie a (ins_list k x es)) y = (if ks_of y = k then slot_get x y else tget (Trie a es) y)"
  by (simp add: tget_slot map_of_ins_list)

lemma unat_ks_of: "unat (ks_of bs) = slice_val (take 8 bs)"
  using slice_val_less [of "take 8 bs"] by (simp add: ks_of_def unsigned_of_nat take_bit_nat_eq_self)

lemma ks_of_inj:
  assumes "ks_of x = ks_of y" "length (take 8 x) = length (take 8 y)"
  shows "take 8 x = take 8 y"
  using assms slice_val_inj [of "take 8 x" "take 8 y"] by (simp add: unat_ks_of [symmetric])

lemma ks_of_short: "ks_of x = ks_of y \<Longrightarrow> length x = length y \<Longrightarrow> length x \<le> 8 \<Longrightarrow> x = y"
  using ks_of_inj [of x y] by simp

lemma ks_of_long:
  assumes "ks_of x = ks_of y" "8 < length x" "8 < length y"
  shows "x = y \<longleftrightarrow> drop 8 x = drop 8 y"
proof -
  have "take 8 x = take 8 y" using ks_of_inj [OF assms(1)] assms(2,3) by simp
  then show ?thesis by (metis append_take_drop_id)
qed

lemma ks_of_take: "8 \<le> length x \<Longrightarrow> ks_of (take 8 x @ y) = ks_of x"
  by (simp add: ks_of_def)

section \<open>Updates of one slot\<close>

text \<open>
  A map after a put of \<open>bs\<close>: it has the value \<open>v\<close> there, has lost the keys \<open>L\<close>, and is unchanged elsewhere. A put
  that works loses no key.
\<close>

definition after_put :: "(byte list \<Rightarrow> 'v option) \<Rightarrow> byte list \<Rightarrow> 'v \<Rightarrow> byte list set \<Rightarrow> byte list \<Rightarrow> 'v option" where
  "after_put f bs v L y = (if y = bs then Some v else if y \<in> L then None else f y)"

lemma after_put_none [simp]: "after_put f bs v {} y = (if y = bs then Some v else f y)"
  by (simp add: after_put_def)

text \<open>\<open>updates x x' bs v L\<close>: so the slot \<open>x'\<close> differs from \<open>x\<close> among the keys of one slice.\<close>

definition updates :: "'v slot \<Rightarrow> 'v slot \<Rightarrow> byte list \<Rightarrow> 'v \<Rightarrow> byte list set \<Rightarrow> bool" where
  "updates x x' bs v L \<longleftrightarrow>
     (\<forall>y. y \<noteq> [] \<longrightarrow> ks_of y = ks_of bs \<longrightarrow> slot_get x' y = after_put (slot_get x) bs v L y)"

lemma updates_prefix:
  assumes "bs \<noteq> []" "length bs \<le> 8" "length ps = 8"
  shows "updates (Slot b ps tt) (Slot b (ps[length bs - 1 := Some v]) tt) bs v {}"
  unfolding updates_def
proof (intro allI impI)
  fix y assume y: "y \<noteq> []" "ks_of y = ks_of bs"
  have l: "0 < length y" "0 < length bs" using y(1) assms(1) by auto
  show "slot_get (Slot b (ps[length bs - 1 := Some v]) tt) y = after_put (slot_get (Slot b ps tt)) bs v {} y"
  proof (cases "length y = length bs")
    case True
    then have "y = bs" using ks_of_short [OF y(2)] assms(2) by simp
    then show ?thesis using assms l by (simp add: slot_get_def)
  next
    case False
    then have "length bs - 1 \<noteq> length y - 1" "y \<noteq> bs" using l by (linarith, auto)
    then show ?thesis using assms l by (simp add: slot_get_def)
  qed
qed

lemma take_app_eq [simp]: "take n xs @ ys = xs \<longleftrightarrow> ys = drop n xs"
  by (metis append_take_drop_id same_append_eq)

lemma updates_tail:
  assumes "8 < length bs" "\<forall>k\<in>L. 8 < length k"
    and "\<And>y. y \<noteq> [] \<Longrightarrow> slot_get (Slot b ps tt') (take 8 bs @ y) =
           after_put (slot_get (Slot b ps tt)) bs v L (take 8 bs @ y)"
  shows "updates (Slot b ps tt) (Slot b ps tt') bs v L"
  unfolding updates_def
proof (intro allI impI)
  fix y assume y: "y \<noteq> []" "ks_of y = ks_of bs"
  show "slot_get (Slot b ps tt') y = after_put (slot_get (Slot b ps tt)) bs v L y"
  proof (cases "length y \<le> 8")
    case True
    then show ?thesis using assms(1,2) by (auto simp: slot_get_def after_put_def)
  next
    case False
    then have "take 8 y = take 8 bs" using ks_of_inj [OF y(2)] assms(1) by simp
    then have "y = take 8 bs @ drop 8 y" by (metis append_take_drop_id)
    then show ?thesis using assms(3) [of "drop 8 y"] False by (metis drop_eq_Nil)
  qed
qed

lemma tget_updates:
  assumes "strict_sorted (keys_of es)" "map_of es (ks_of bs) = Some x" "updates x x' bs v L" "\<forall>k\<in>L. ks_of k = ks_of bs" "y \<noteq> []"
  shows "tget (Trie a (ins_list (ks_of bs) x' es)) y = after_put (tget (Trie a es)) bs v L y"
  using assms(2-) tget_ins [OF assms(1), of a "ks_of bs" x' y] by (auto simp: updates_def tget_slot after_put_def)

text \<open>A slot that can take the suffix of \<open>bs\<close>, or has it, and one that holds it with a value.\<close>

fun plain :: "byte list \<Rightarrow> 'v slot option \<Rightarrow> bool" where
  "plain bs None \<longleftrightarrow> True"
| "plain bs (Some (Slot b ps tt)) \<longleftrightarrow> tt = NoTail \<or> (\<exists>w. tt = Suffix (drop 8 bs) w)"

definition suffix_slot :: "byte list \<Rightarrow> 'v \<Rightarrow> 'v slot option \<Rightarrow> bool" where
  "suffix_slot bs v x \<longleftrightarrow> (\<exists>b ps. x = Some (Slot b ps (Suffix (drop 8 bs) v)))"

fun entries_of :: "'v trie \<Rightarrow> (Key \<times> 'v slot) list" where
  "entries_of (Trie a es) = es"


text \<open>Keys that collide are what \<open>safe\<close> excludes.\<close>

lemma safe_no_collision:
  "(\<And>k'. tget t k' \<noteq> None \<Longrightarrow> k' \<noteq> bs \<Longrightarrow> k' \<noteq> [] \<Longrightarrow> \<not> collide bs k' \<and> length k' < 2 ^ 32) \<Longrightarrow> lsep (Layer t) \<Longrightarrow> safe t bs"
proof (induction t bs rule: safe.induct)
  case (1 a es bs)
  have es: "strict_sorted (keys_of es)" using "1.prems"(2) by (simp add: entries_sep_def)
  show ?case
  proof (cases "map_of es (ks_of bs)")
    case None
    then show ?thesis by (simp add: safe.simps)
  next
    case (Some x)
    obtain b ps tt where x: "x = Slot b ps tt" by (cases x)
    show ?thesis
    proof (cases "length bs \<le> 8")
      case True
      then show ?thesis using Some x by (simp add: safe.simps)
    next
      case False
      have ssep: "ssep x" using "1.prems"(2) Some by (simp add: tsep_Trie del: tsep.simps)
      have get: "tget (Trie a es) (take 8 bs @ y) = slot_get x (take 8 bs @ y)" for y
        using Some False by (simp add: tget_slot ks_of_take)
      show ?thesis
      proof (cases tt)
        case NoTail
        then show ?thesis using Some x False by (simp add: safe.simps)
      next
        case (Suffix sf v)
        then have sf: "sf \<noteq> []" using ssep x by simp
        have g: "tget (Trie a es) (take 8 bs @ sf) = Some v"
          using get [of sf] x Suffix False sf by (simp add: slot_get_def)
        have "\<not> clash (drop 8 bs) sf \<and> length sf < 2 ^ 32" if ne: "sf \<noteq> drop 8 bs"
        proof -
          have "take 8 bs @ sf \<noteq> bs" using ne by (metis append_eq_conv_conj append_take_drop_id same_append_eq)
          then have "\<not> collide bs (take 8 bs @ sf) \<and> length (take 8 bs @ sf) < 2 ^ 32" using "1.prems"(1) [of "take 8 bs @ sf"] g sf by simp
          then show ?thesis using False sf by (simp add: collide_def)
        qed
        then show ?thesis using Some x False Suffix by (auto simp: safe.simps)
      next
        case (Layer t)
        have "safe t (drop 8 bs)"
        proof (rule "1.IH" [OF Some x False Layer])
          fix k' assume k': "tget t k' \<noteq> None" "k' \<noteq> drop 8 bs" "k' \<noteq> []"
          have "tget (Trie a es) (take 8 bs @ k') = tget t k'"
            using get [of k'] x Layer False k'(3) by (simp add: slot_get_def)
          moreover have "take 8 bs @ k' \<noteq> bs" using k'(2) by (metis append_take_drop_id same_append_eq)
          ultimately have nc: "\<not> collide bs (take 8 bs @ k')" "length (take 8 bs @ k') < 2 ^ 32"
            using "1.prems"(1) [of "take 8 bs @ k'"] k' by simp_all
          have "\<not> clash (drop 8 bs) k'" using nc(1) False k'(3) by (simp add: collide_def)
          moreover have "clash (drop 8 bs) k'" if "collide (drop 8 bs) k'"
            using that by (subst clash.simps) (simp add: collide_def ks_of_def)
          moreover have "length k' < 2 ^ 32" using nc(2) by simp
          ultimately show "\<not> collide (drop 8 bs) k' \<and> length k' < 2 ^ 32" by blast
        next
          show "lsep (Layer t)" using ssep x Layer by simp
        qed
        then show ?thesis using Some x False Layer by (simp add: safe.simps)
      qed
    qed
  qed
qed

end
