(* ===== verification/KV_Repr.thy ===== *)
theory KV_Repr
  imports KV_Abs
begin

text \<open>
  The relation between the store's heap and an abstract trie, its frame properties, and the operations on
  border nodes and trie nodes in terms of it.
\<close>

section \<open>The heap holds a trie\<close>

definition knode :: "'v KVStore \<Rightarrow> addr \<Rightarrow> (Key \<times> addr) list \<Rightarrow> bool" where
  "knode s a xs \<longleftrightarrow> (\<exists>n p. kvnodes s a = Some n \<and> cursor_at (tree n) (ncursor n) xs p)"

fun tail_node :: "'v BorderNode \<Rightarrow> 'v tail \<Rightarrow> bool" where
  "tail_node n NoTail = (keySuffix n = None \<and> suffixLink n = None)"
| "tail_node n (Suffix sf v) =
     (keySuffix n = Some sf \<and> keySuffixLength n = length sf \<and> suffixLink n = Some (Val v))"
| "tail_node n (Layer t) = (keySuffix n = None \<and> suffixLink n = Some (Node (trie_addr t)))"

primrec krep :: "'v KVStore \<Rightarrow> 'v trie \<Rightarrow> bool"
  and srep :: "'v KVStore \<Rightarrow> 'v slot \<Rightarrow> bool"
  and lrep :: "'v KVStore \<Rightarrow> 'v tail \<Rightarrow> bool" where
  "krep s (Trie a es) \<longleftrightarrow> knode s a (records es) \<and> (\<forall>y\<in>snd ` set (map (map_prod id (srep s)) es). y)"
| "srep s (Slot b ps tt) \<longleftrightarrow>
     (\<exists>n. bns s b = Some n \<and> prefixLinks n = map (map_option Val) ps \<and> tail_node n tt) \<and> lrep s tt"
| "lrep s NoTail \<longleftrightarrow> True"
| "lrep s (Suffix sf v) \<longleftrightarrow> True"
| "lrep s (Layer t) \<longleftrightarrow> krep s t"

lemma krep_Trie:
  assumes "strict_sorted (keys_of es)"
  shows "krep s (Trie a es) \<longleftrightarrow> knode s a (records es) \<and> (\<forall>k x. map_of es k = Some x \<longrightarrow> srep s x)"
  using assms by (auto simp: map_of_in_set image_iff)

lemma rep_frame:
  "(\<forall>x\<in>tfoot t. kvnodes s' x = kvnodes s x \<and> bns s' x = bns s x) \<Longrightarrow> krep s' t = krep s t"
  "(\<forall>x\<in>sfoot y. kvnodes s' x = kvnodes s x \<and> bns s' x = bns s x) \<Longrightarrow> srep s' y = srep s y"
  "(\<forall>x\<in>lfoot z. kvnodes s' x = kvnodes s x \<and> bns s' x = bns s x) \<Longrightarrow> lrep s' z = lrep s z"
proof (induction t and y and z rule: trie.induct slot.induct tail.induct)
  case (Trie a es)
  have "srep s' x = srep s x" if "e \<in> set es" "x \<in> Basic_BNFs.snds e" for e x
    by (rule Trie.IH [OF that]) (use Trie.prems that in \<open>force simp: snds.simps\<close>)
  then have "\<forall>e\<in>set es. srep s' (snd e) = srep s (snd e)" by (auto simp: snds.simps)
  moreover have "knode s' a xs = knode s a xs" for xs using Trie.prems by (simp add: knode_def)
  ultimately show ?case by auto
qed auto

section \<open>Frames\<close>

definition memok :: "'v KVStore \<Rightarrow> bool" where
  "memok s \<longleftrightarrow> (\<forall>n. kmem s n) \<and> (\<forall>a n. rmem s a n)"

definition kframe :: "'v KVStore \<Rightarrow> 'v KVStore \<Rightarrow> addr set \<Rightarrow> bool" where
  "kframe s s' A \<longleftrightarrow> kbrk s \<le> kbrk s' \<and> kmem s' = kmem s \<and> rmem s' = rmem s \<and> rootNode s' = rootNode s \<and>
     (\<forall>x. x \<notin> A \<longrightarrow> x < kbrk s \<longrightarrow> kvnodes s' x = kvnodes s x \<and> bns s' x = bns s x)"

lemma kframe_refl [simp]: "kframe s s A"
  by (simp add: kframe_def)

lemma kframe_trans:
  "kframe s s' A \<Longrightarrow> kframe s' s'' B \<Longrightarrow> B \<subseteq> A \<union> {kbrk s..<kbrk s'} \<Longrightarrow> kframe s s'' A"
  by (force simp: kframe_def)

lemma kframe_mono: "kframe s s' A \<Longrightarrow> A \<subseteq> B \<Longrightarrow> kframe s s' B"
  by (auto simp: kframe_def)

lemma kframe_memok: "kframe s s' A \<Longrightarrow> memok s \<Longrightarrow> memok s'"
  by (simp add: kframe_def memok_def)

lemma kframe_krep:
  "krep s t \<Longrightarrow> kframe s s' A \<Longrightarrow> tfoot t \<inter> A = {} \<Longrightarrow> \<forall>x\<in>tfoot t. x < kbrk s \<Longrightarrow> krep s' t"
  using rep_frame(1) [of t s' s] by (auto simp: kframe_def)

lemma kframe_srep:
  "srep s y \<Longrightarrow> kframe s s' A \<Longrightarrow> sfoot y \<inter> A = {} \<Longrightarrow> \<forall>x\<in>sfoot y. x < kbrk s \<Longrightarrow> srep s' y"
  using rep_frame(2) [of y s' s] by (auto simp: kframe_def)

lemma kframe_numKeys [simp]: "kframe s (s'\<lparr>numKeys := n\<rparr>) A = kframe s s' A" "kframe (s\<lparr>numKeys := n\<rparr>) s' A = kframe s s' A"
  by (simp_all add: kframe_def)

lemma rep_numKeys [simp]: "krep (s\<lparr>numKeys := n\<rparr>) t = krep s t" "srep (s\<lparr>numKeys := n\<rparr>) y = srep s y"
  by (rule rep_frame, simp)+

lemma memok_numKeys [simp]: "memok (s\<lparr>numKeys := n\<rparr>) = memok s"
  by (simp add: memok_def)

lemma knode_numKeys [simp]: "knode (s\<lparr>numKeys := n\<rparr>) a xs = knode s a xs"
  by (simp add: knode_def)

section \<open>Replacing a slot in the heap\<close>

definition trie_ok :: "'v KVStore \<Rightarrow> 'v trie \<Rightarrow> bool" where
  "trie_ok s t \<longleftrightarrow> krep s t \<and> tsep t \<and> (\<forall>x\<in>tfoot t. x < kbrk s)"

lemma slot_replace:
  assumes t: "trie_ok s (Trie a es)"
    and fr: "kframe s s' (insert a (case map_of es k of None \<Rightarrow> {} | Some x \<Rightarrow> sfoot x))"
    and node: "knode s' a (records (ins_list k x' es))"
    and x': "srep s' x'" "ssep x'" "sfoot x' \<subseteq> (case map_of es k of None \<Rightarrow> {} | Some x \<Rightarrow> sfoot x) \<union> {kbrk s..<kbrk s'}"
  shows "trie_ok s' (Trie a (ins_list k x' es))"
    and "tfoot (Trie a (ins_list k x' es)) \<subseteq> tfoot (Trie a es) \<union> {kbrk s..<kbrk s'}"
proof -
  let ?old = "case map_of es k of None \<Rightarrow> {} | Some x \<Rightarrow> sfoot x"
  have ts: "tsep (Trie a es)" "krep s (Trie a es)" "\<forall>x\<in>tfoot (Trie a es). x < kbrk s"
    using t unfolding trie_ok_def by blast+
  have es: "entries_sep es" "strict_sorted (keys_of es)" using ts(1) by (auto simp: entries_sep_def)
  have le: "kbrk s \<le> kbrk s'" using fr by (simp add: kframe_def)
  have a: "a < kbrk s" using ts(3) by simp
  have old: "?old \<subseteq> tfoot (Trie a es)" using sfoot_subset [OF es(2)] by (auto split: option.splits)
  have aold: "a \<notin> ?old" using ts(1) by (auto simp: tsep_Trie simp del: tsep.simps split: option.splits)
  have other: "sfoot y \<inter> ?old = {}" "sfoot y \<subseteq> tfoot (Trie a es)" "a \<notin> sfoot y" "srep s y"
    if "k' \<noteq> k" "map_of es k' = Some y" for k' y
    using es(1) that sfoot_subset [OF es(2) that(2)] ts(1,2)
    unfolding tsep_Trie krep_Trie [OF es(2)] entries_sep_def by (auto split: option.splits)
  have disj: "sfoot x' \<inter> sfoot y = {}" if "k' \<noteq> k" "map_of es k' = Some y" for k' y
    using other(1,2) [OF that] x'(3) ts(3) by fastforce
  show fo: "tfoot (Trie a (ins_list k x' es)) \<subseteq> tfoot (Trie a es) \<union> {kbrk s..<kbrk s'}"
    using tfoot_ins [OF es(2), of a k x'] x'(3) old by blast
  have "a \<notin> sfoot x'" using x'(3) aold a by fastforce
  then have "tsep (Trie a (ins_list k x' es))" using tsep_ins [OF ts(1) x'(2)] disj by blast
  moreover have "krep s' (Trie a (ins_list k x' es))"
    unfolding krep_Trie [OF strict_sorted_ins_list [OF es(2)]]
  proof (intro conjI allI impI)
    fix l y assume y: "map_of (ins_list k x' es) l = Some y"
    show "srep s' y"
    proof (cases "l = k")
      case True
      then show ?thesis using y x'(1) by (simp add: map_of_ins_list [OF es(2)])
    next
      case False
      then have y': "map_of es l = Some y" using y by (simp add: map_of_ins_list [OF es(2)])
      note o = other [OF False y']
      show ?thesis by (rule kframe_srep [OF o(4) fr]) (use o ts(3) in auto)
    qed
  qed (rule node)
  moreover have "\<forall>x\<in>tfoot (Trie a (ins_list k x' es)). x < kbrk s'" using fo ts(3) le by fastforce
  ultimately show "trie_ok s' (Trie a (ins_list k x' es))" by (simp add: trie_ok_def)
qed

section \<open>The relation of a trie node\<close>

lemma kframe_node: "kframe s (s\<lparr>kvnodes := (kvnodes s)(a \<mapsto> n)\<rparr>) (insert a A)"
  by (simp add: kframe_def)

lemma node_move_ok:
  assumes "knode s a xs"
  shows "\<exists>n p. node_move s a k = Some (map_of xs k \<noteq> None, s\<lparr>kvnodes := (kvnodes s)(a \<mapsto> n)\<rparr>) \<and>
     cursor_at (tree n) (ncursor n) xs p \<and>
     (\<forall>b. map_of xs k = Some b \<longrightarrow>
        (\<exists>n'. node_record (s\<lparr>kvnodes := (kvnodes s)(a \<mapsto> n)\<rparr>) a = Some (b, s\<lparr>kvnodes := (kvnodes s)(a \<mapsto> n')\<rparr>) \<and>
              cursor_at (tree n') (ncursor n') xs p))"
proof -
  obtain n p where n: "kvnodes s a = Some n" "cursor_at (tree n) (ncursor n) xs p" using assms by (auto simp: knode_def)
  let ?p = "below k (keys_of xs)"
  obtain c where c: "RL_MoveToKey (tree n) (ncursor n) k = Some (map_of xs k \<noteq> None, c)"
    "cursor_at (tree n) c xs ?p"
    "\<forall>b. map_of xs k = Some b \<longrightarrow> (\<exists>c'. RL_GetRecord (tree n) c = Some (b, c') \<and> cursor_at (tree n) c' xs ?p)"
    using btree.find_at [OF n(2), of k] by blast
  have "\<exists>n'. node_record (s\<lparr>kvnodes := (kvnodes s)(a \<mapsto> n\<lparr>ncursor := c\<rparr>)\<rparr>) a = Some (b, s\<lparr>kvnodes := (kvnodes s)(a \<mapsto> n')\<rparr>) \<and>
              cursor_at (tree n') (ncursor n') xs ?p" if b: "map_of xs k = Some b" for b
  proof -
    obtain c' where "RL_GetRecord (tree n) c = Some (b, c')" "cursor_at (tree n) c' xs ?p" using c(3) b by blast
    then show ?thesis by (intro exI [of _ "n\<lparr>ncursor := c'\<rparr>"]) (simp add: node_record_def)
  qed
  then show ?thesis using n(1) c(1,2)
    by (intro exI [of _ "n\<lparr>ncursor := c\<rparr>"] exI [of _ ?p]) (simp add: node_move_def)
qed

lemma node_put_ok:
  assumes "knode s a xs" "length xs < capacity"
  shows "\<exists>n p. node_put s a k b = Some (s\<lparr>kvnodes := (kvnodes s)(a \<mapsto> n)\<rparr>) \<and> cursor_at (tree n) (ncursor n) (ins_list k b xs) p"
proof -
  obtain n p where n: "kvnodes s a = Some n" "cursor_at (tree n) (ncursor n) xs p" using assms(1) by (auto simp: knode_def)
  obtain t c where "RL_PutRecord (tree n) (ncursor n) k b = Some (t, c)"
    "cursor_at t c (ins_list k b xs) (Suc (below k (keys_of xs)))"
    using btree.put_at [OF n(2) assms(2), of k b] by blast
  then show ?thesis using n(1) by (intro exI [of _ "\<lparr>tree = t, ncursor = c\<rparr>"]) (auto simp: node_put_def)
qed

lemma newKVNode_ok:
  assumes "memok s"
  shows "\<exists>n. newKVNode s = Some (Some (kbrk s), s\<lparr>kbrk := Suc (kbrk s), kvnodes := (kvnodes s)(kbrk s \<mapsto> n)\<rparr>) \<and>
     cursor_at (tree n) (ncursor n) [] 0"
proof -
  obtain r :: "addr Relation" where r: "RL_NewRelation (rmem s (kbrk s)) = Some r" "rel_holds r []"
    using new_relation_at assms by (metis memok_def)
  obtain c r' where c: "RL_NewCursor r = Some (Some c, r')" "cursor_at r' c [] 0" using new_cursor_at [OF r(2)] by blast
  then show ?thesis using assms r(1)
    by (intro exI [of _ "\<lparr>tree = r', ncursor = c\<rparr>"]) (simp add: newKVNode_def malloc_def memok_def)
qed

section \<open>New border nodes\<close>

definition kkey :: "byte list \<Rightarrow> KVKey" where
  "kkey bs = \<lparr>kstr = Some bs, klen = length bs\<rparr>"

lemma klen_kkey [simp]: "klen (kkey bs) = length bs"
  by (simp add: kkey_def)

lemma chars_kkey [simp]: "chars (kstr (kkey bs)) = bs"
  by (simp add: kkey_def chars_def)

lemma next_part_kkey: "next_part (kkey bs) = kkey (drop 8 bs)"
  by (simp add: next_part_def kkey_def KEY_SLICE_LENGTH_def keyslice_length_def)

lemma key_slice_ks: "UTIL_GetNextKeySlice bs (UTIL_Min KEY_SLICE_LENGTH (length bs)) = Some (ks_of bs)"
proof -
  let ?l = "UTIL_Min KEY_SLICE_LENGTH (length bs)"
  have l: "?l \<le> 8" "?l \<le> length bs" "take ?l bs = take 8 bs"
    by (auto simp: UTIL_Min_def KEY_SLICE_LENGTH_def keyslice_length_def)
  obtain ks where "UTIL_GetNextKeySlice bs ?l = Some ks" "unat ks = slice_val (take 8 bs)"
    using GetNextKeySlice_val [OF l(1,2)] l(3) by auto
  then show ?thesis by (simp add: unat_ks_of [symmetric] word_unat_eq_iff [symmetric])
qed

lemma key_slice_kkey [simp]: "key_slice (kkey bs) = Some (ks_of bs)"
  by (simp add: key_slice_def key_slice_ks)

definition new_slot :: "addr \<Rightarrow> byte list \<Rightarrow> 'v \<Rightarrow> 'v slot" where
  "new_slot b bs v =
     (if length bs \<le> 8 then Slot b ((replicate 8 None)[length bs - 1 := Some v]) NoTail
      else Slot b (replicate 8 None) (Suffix (drop 8 bs) v))"

lemma new_slot_simps [simp]: "slot_addr (new_slot b bs v) = b" "sfoot (new_slot b bs v) = {b}" "ssep (new_slot b bs v)"
  by (simp_all add: new_slot_def)

lemma empty_slot_get: "y \<noteq> [] \<Longrightarrow> slot_get (Slot b (replicate 8 None) NoTail) y = None"
  by (cases y) (auto simp: slot_get_def simp del: replicate.simps)

lemma new_slot_get:
  assumes "bs \<noteq> []" "y \<noteq> []" "ks_of y = ks_of bs"
  shows "slot_get (new_slot b bs v) y = (if y = bs then Some v else None)"
proof (cases "length bs \<le> 8")
  case True
  have "updates (Slot b (replicate 8 None) NoTail) (new_slot b bs v) bs v {}"
    using updates_prefix [OF assms(1) True, of "replicate 8 None"] True by (simp add: new_slot_def)
  then have "slot_get (new_slot b bs v) y = (if y = bs then Some v else slot_get (Slot b (replicate 8 None) NoTail) y)"
    using assms(2,3) unfolding updates_def by simp
  then show ?thesis by (simp add: empty_slot_get [OF assms(2)])
next
  case False
  have "updates (Slot b (replicate 8 None) NoTail) (new_slot b bs v) bs v {}"
    unfolding new_slot_def using False
    by (simp add: updates_tail slot_get_def)
  then have "slot_get (new_slot b bs v) y = (if y = bs then Some v else slot_get (Slot b (replicate 8 None) NoTail) y)"
    using assms(2,3) unfolding updates_def by simp
  then show ?thesis by (simp add: empty_slot_get [OF assms(2)])
qed

text \<open>A suffix that is shorter than \<open>2 ^ 32\<close> bytes is stored; a longer one is written past the end of its block.\<close>

lemma kv_malloc_ok:
  "memok s \<Longrightarrow> surely_malloc s n = Some (kbrk s, n mod 2 ^ 32, s\<lparr>kbrk := Suc (kbrk s)\<rparr>)"
  by (simp add: surely_malloc_def malloc_def memok_def)

lemma alloc_sizes [simp]: "sizeof_KVKey mod 4294967296 = sizeof_KVKey" "sizeof_BorderNode mod 4294967296 = sizeof_BorderNode"
  by (simp_all add: sizeof_KVKey_def sizeof_BorderNode_def)

lemma BN_SetSuffixValue_ok:
  assumes "bns s b = Some n" "memok s" "len < 2 ^ 32" "len \<le> length sf"
  shows "BN_SetSuffixValue s b sf len val =
    Some (set_bn (s\<lparr>kbrk := Suc (kbrk s)\<rparr>) b (n\<lparr>keySuffix := Some (take len sf), keySuffixLength := len, suffixLink := val\<rparr>))"
  using assms by (simp add: BN_SetSuffixValue_def kv_malloc_ok)

lemma BN_SetSuffixValue_overflows:
  assumes "2 ^ 32 \<le> len"
  shows "BN_SetSuffixValue s b sf len val = None"
proof -
  have "len mod 2 ^ 32 < 2 ^ 32" by simp
  then have "\<not> len \<le> len mod 2 ^ 32" using assms by linarith
  then show ?thesis
    by (auto simp: BN_SetSuffixValue_def surely_malloc_def assert_c_def split: prod.splits option.splits Option.bind_splits)
qed

text \<open>Creating a border node and setting the value of one key in it.\<close>

lemma new_bn_ok:
  assumes "memok s" "bs \<noteq> []" "length bs < 2 ^ 32"
  shows "\<exists>s1 s2. BN_NewBorderNode s = Some (kbrk s, s1) \<and> BN_SetValue s1 (kbrk s) (kkey bs) (Some (Val v)) = Some s2 \<and>
     kvnodes s2 = kvnodes s \<and> srep s2 (new_slot (kbrk s) bs v) \<and> kframe s s2 {} \<and> kbrk s < kbrk s2 \<and> numKeys s2 = numKeys s"
proof -
  let ?n = "\<lparr>prefixLinks = replicate MAX_BN_SIZE None, suffixLink = None, keySuffix = None, keySuffixLength = 0\<rparr>"
  let ?s1 = "set_bn (s\<lparr>kbrk := Suc (kbrk s)\<rparr>) (kbrk s) ?n"
  have 1: "BN_NewBorderNode s = Some (kbrk s, ?s1)"
    using assms(1) by (simp add: BN_NewBorderNode_def kv_malloc_ok)
  show ?thesis
  proof (cases "length bs \<le> 8")
    case True
    let ?s2 = "set_bn ?s1 (kbrk s) (?n\<lparr>prefixLinks := (replicate MAX_BN_SIZE None)[length bs - 1 := Some (Val v)]\<rparr>)"
    have "0 < length bs" using assms(2) by simp
    then have at: "array_set (replicate MAX_BN_SIZE None) (int (length bs) - 1) (Some (Val v)) =
        Some ((replicate MAX_BN_SIZE None)[length bs - 1 := Some (Val v)])"
      using True array_set_of_nat [of "replicate MAX_BN_SIZE None" "length bs - 1" "Some (Val v)"]
      by (simp add: MAX_BN_SIZE_def keyslice_length_def of_nat_diff Suc_leI)
    have "BN_SetValue ?s1 (kbrk s) (kkey bs) (Some (Val v)) = Some ?s2"
      using True at \<open>0 < length bs\<close>
      by (simp add: BN_SetValue_def BN_SetPrefixValue_def set_bn_def keyslice_length_def MAX_BN_SIZE_def)
    then show ?thesis using 1 True
      by (intro exI [of _ ?s1] exI [of _ ?s2])
        (simp add: set_bn_def kframe_def new_slot_def map_update MAX_BN_SIZE_def keyslice_length_def)
  next
    case False
    let ?s2 = "set_bn (?s1\<lparr>kbrk := Suc (Suc (kbrk s))\<rparr>) (kbrk s)
        (?n\<lparr>keySuffix := Some (drop 8 bs), keySuffixLength := length bs - 8, suffixLink := Some (Val v)\<rparr>)"
    have "BN_SetValue ?s1 (kbrk s) (kkey bs) (Some (Val v)) = Some ?s2"
      using False assms(1,3)
      by (simp add: BN_SetValue_def BN_SetSuffixValue_ok [where n = ?n] set_bn_def keyslice_length_def memok_def)
    then show ?thesis using 1 False
      by (intro exI [of _ ?s1] exI [of _ ?s2])
        (simp add: set_bn_def kframe_def new_slot_def MAX_BN_SIZE_def keyslice_length_def)
  qed
qed

end
