(* ===== verification/KV_Put.thy ===== *)
theory KV_Put
  imports KV_Repr
begin

text \<open>
  \<open>put_loop\<close> on the heap updates the map a trie stands for at one key, and at no other, unless the key clashes
  with the suffix it meets. Then the key that was stored is lost, and its value goes to the new key.
\<close>

section \<open>A new border node in a trie node\<close>

lemma trie_okD:
  assumes "trie_ok s (Trie a es)"
  shows "knode s a (records es)" "strict_sorted (keys_of es)" "entries_sep es" "a < kbrk s"
    "map_of es k = Some x \<Longrightarrow> srep s x \<and> ssep x \<and> a \<notin> sfoot x \<and> sfoot x \<subseteq> tfoot (Trie a es)"
    "\<forall>x\<in>tfoot (Trie a es). x < kbrk s"
proof -
  have t: "krep s (Trie a es)" "tsep (Trie a es)" "\<forall>x\<in>tfoot (Trie a es). x < kbrk s"
    using assms unfolding trie_ok_def by blast+
  show "entries_sep es" using t(2) by simp
  then show es: "strict_sorted (keys_of es)" by (simp add: entries_sep_def)
  show "knode s a (records es)" using t(1) by simp
  show "a < kbrk s" "\<forall>x\<in>tfoot (Trie a es). x < kbrk s" using t(3) by simp_all
  show "srep s x \<and> ssep x \<and> a \<notin> sfoot x \<and> sfoot x \<subseteq> tfoot (Trie a es)" if x: "map_of es k = Some x"
    using x t(1,2) sfoot_subset [OF es x, of a] unfolding krep_Trie [OF es] tsep_Trie by blast
qed

lemma knode_kvs: "kvnodes s' a = kvnodes s a \<Longrightarrow> knode s' a xs = knode s a xs"
  by (simp add: knode_def)

text \<open>A border node that was made and filled is entered in the trie node under its slice.\<close>

lemma insert_bn:
  assumes t: "trie_ok s (Trie a es)" and new: "map_of es (ks_of bs) = None" "length es < capacity"
    and x: "slot_addr x = kbrk s" "sfoot x = {kbrk s}" "ssep x"
    and s2: "kvnodes s2 = kvnodes s" "srep s2 x" "kframe s s2 {}" "kbrk s < kbrk s2" "numKeys s2 = numKeys s"
  shows "\<exists>s3. node_put s2 a (ks_of bs) (kbrk s) = Some s3 \<and>
     trie_ok s3 (Trie a (ins_list (ks_of bs) x es)) \<and>
     tfoot (Trie a (ins_list (ks_of bs) x es)) \<subseteq> tfoot (Trie a es) \<union> {kbrk s..<kbrk s3} \<and>
     kframe s s3 {a} \<and> kbrk s < kbrk s3 \<and> numKeys s3 = numKeys s"
proof -
  let ?k = "ks_of bs"
  note d = trie_okD [OF t]
  have "knode s2 a (records es)" using d(1) s2(1) by (simp add: knode_def)
  then obtain n p where n: "node_put s2 a ?k (kbrk s) = Some (s2\<lparr>kvnodes := (kvnodes s2)(a \<mapsto> n)\<rparr>)"
    "cursor_at (tree n) (ncursor n) (ins_list ?k (kbrk s) (records es)) p"
    using node_put_ok [of s2 a "records es" ?k "kbrk s"] new(2) by auto
  let ?s3 = "s2\<lparr>kvnodes := (kvnodes s2)(a \<mapsto> n)\<rparr>"
  have kn: "knode ?s3 a (records (ins_list ?k x es))" using n(2) x(1) by (auto simp: knode_def records_ins)
  have fr: "kframe s ?s3 {a}" using s2(3) by (auto simp: kframe_def)
  have "\<forall>y\<in>sfoot x. kvnodes ?s3 y = kvnodes s2 y \<and> bns ?s3 y = bns s2 y" using d(4) x(2) by auto
  then have rep: "srep ?s3 x" using rep_frame(2) s2(2) by blast
  have r: "trie_ok ?s3 (Trie a (ins_list ?k x es))"
    "tfoot (Trie a (ins_list ?k x es)) \<subseteq> tfoot (Trie a es) \<union> {kbrk s..<kbrk ?s3}"
    by (rule slot_replace [OF t _ kn rep x(3)]; use fr s2(4) new(1) x(2) in simp)+
  then show ?thesis using s2 n(1) fr by (intro exI [of _ ?s3]) simp
qed

lemma insert_new:
  assumes t: "trie_ok s (Trie a es)" and "memok s" "map_of es (ks_of bs) = None" "length es < capacity" "bs \<noteq> []"
    "length bs < 2 ^ 32"
  shows "\<exists>s1 s2 s3. BN_NewBorderNode s = Some (kbrk s, s1) \<and>
     BN_SetValue s1 (kbrk s) (kkey bs) (Some (Val v)) = Some s2 \<and>
     node_put s2 a (ks_of bs) (kbrk s) = Some s3 \<and>
     trie_ok s3 (Trie a (ins_list (ks_of bs) (new_slot (kbrk s) bs v) es)) \<and>
     tfoot (Trie a (ins_list (ks_of bs) (new_slot (kbrk s) bs v) es)) \<subseteq> tfoot (Trie a es) \<union> {kbrk s..<kbrk s3} \<and>
     kframe s s3 {a} \<and> kbrk s < kbrk s3 \<and> numKeys s3 = numKeys s"
proof -
  obtain s1 s2 where s2: "BN_NewBorderNode s = Some (kbrk s, s1)"
    "BN_SetValue s1 (kbrk s) (kkey bs) (Some (Val v)) = Some s2"
    "kvnodes s2 = kvnodes s" "srep s2 (new_slot (kbrk s) bs v)" "kframe s s2 {}" "kbrk s < kbrk s2" "numKeys s2 = numKeys s"
    using new_bn_ok [OF assms(2,5,6)] by blast
  then show ?thesis using insert_bn [OF t assms(3,4) _ _ _ s2(3-7)] by fastforce
qed

text \<open>Setting the value of the one key of a border node again.\<close>

lemma set_value_again:
  assumes "srep s (new_slot b bs v)" "memok s" "bs \<noteq> []" "length bs < 2 ^ 32"
  shows "\<exists>s'. BN_SetValue s b (kkey bs) (Some (Val w)) = Some s' \<and> kvnodes s' = kvnodes s \<and>
     srep s' (new_slot b bs w) \<and> kframe s s' {b} \<and> numKeys s' = numKeys s"
proof (cases "length bs \<le> 8")
  case True
  obtain n where n: "bns s b = Some n" "prefixLinks n = map (map_option Val) ((replicate 8 None)[length bs - 1 := Some v])"
    "tail_node n NoTail" using assms(1) True by (auto simp: new_slot_def simp del: replicate.simps)
  let ?s = "set_bn s b (n\<lparr>prefixLinks := (prefixLinks n)[length bs - 1 := Some (Val w)]\<rparr>)"
  have "0 < length bs" using assms(3) by simp
  then have "array_set (prefixLinks n) (int (length bs) - 1) (Some (Val w)) = Some ((prefixLinks n)[length bs - 1 := Some (Val w)])"
    using True array_set_of_nat [of "prefixLinks n" "length bs - 1" "Some (Val w)"] n(2) by (simp add: of_nat_diff Suc_leI)
  then have "BN_SetValue s b (kkey bs) (Some (Val w)) = Some ?s"
    using True n(1) \<open>0 < length bs\<close> by (simp add: BN_SetValue_def BN_SetPrefixValue_def keyslice_length_def MAX_BN_SIZE_def)
  then show ?thesis using n True
    by (intro exI [of _ ?s]) (simp add: set_bn_def kframe_def new_slot_def map_update del: replicate.simps)
next
  case False
  obtain n where n: "bns s b = Some n" "prefixLinks n = map (map_option Val) (replicate 8 None)"
    using assms(1) False by (auto simp: new_slot_def simp del: replicate.simps)
  let ?s = "set_bn (s\<lparr>kbrk := Suc (kbrk s)\<rparr>) b
      (n\<lparr>keySuffix := Some (drop 8 bs), keySuffixLength := length bs - 8, suffixLink := Some (Val w)\<rparr>)"
  have "BN_SetValue s b (kkey bs) (Some (Val w)) = Some ?s"
    using False assms(2,4) by (simp add: BN_SetValue_def BN_SetSuffixValue_ok [OF n(1)] keyslice_length_def)
  then show ?thesis using n False
    by (intro exI [of _ ?s]) (simp add: set_bn_def kframe_def new_slot_def del: replicate.simps)
qed

section \<open>Two keys in a fresh trie node\<close>

text \<open>The loop with two keys ends in a trie that has the values \<open>x\<close> and \<open>z\<close> for them.\<close>

definition build_res ::
  "'v KVStore \<Rightarrow> addr \<Rightarrow> byte list \<Rightarrow> 'v option \<Rightarrow> byte list \<Rightarrow> 'v option \<Rightarrow> ('v KVStore \<times> KVKey) option \<Rightarrow> bool" where
  "build_res s a bs x sf z r \<longleftrightarrow>
     (\<exists>s' t' key'. r = Some (s', key') \<and> trie_ok s' t' \<and> trie_addr t' = a \<and> kframe s s' {a} \<and>
        tfoot t' \<subseteq> {a} \<union> {kbrk s..<kbrk s'} \<and>
        (\<forall>y. y \<noteq> [] \<longrightarrow> tget t' y = (if y = bs then x else if y = sf then z else None)) \<and>
        numKeys s' = numKeys s + 1)"

lemma tget_Nil [simp]: "tget (Trie a []) y = None"
  by (simp add: tget_slot)

lemma build_apart:
  assumes "trie_ok s (Trie a [])" "memok s" "bs \<noteq> []" "sf \<noteq> []" "ks_of bs \<noteq> ks_of sf"
    and len: "length bs < 2 ^ 32" "length sf < 2 ^ 32"
  shows "build_res s a bs (Some v) sf (Some w) (put_loop s a (kkey bs) (Some (Val v)) (Some (kkey sf, Some (Val w))))"
proof -
  let ?k = "ks_of bs" and ?l = "ks_of sf" and ?x = "new_slot (kbrk s) bs v"
  have e: "map_of [] ?k = (None :: 'a slot option)" "length ([] :: (Key \<times> 'a slot) list) < capacity"
    "length [(?k, ?x)] < capacity" by (simp_all add: capacity_def)
  obtain s1 s2 s3 where "BN_NewBorderNode s = Some (kbrk s, s1)"
     "BN_SetValue s1 (kbrk s) (kkey bs) (Some (Val v)) = Some s2" "node_put s2 a ?k (kbrk s) = Some s3"
     "trie_ok s3 (Trie a (ins_list ?k ?x []))" "tfoot (Trie a (ins_list ?k ?x [])) \<subseteq> tfoot (Trie a [] :: 'a trie) \<union> {kbrk s..<kbrk s3}"
     "kframe s s3 {a}" "kbrk s < kbrk s3" "numKeys s3 = numKeys s"
    using insert_new [OF assms(1,2) e(1,2) assms(3) len(1), of v] by blast
  then have s3: "BN_NewBorderNode s = Some (kbrk s, s1)"
     "BN_SetValue s1 (kbrk s) (kkey bs) (Some (Val v)) = Some s2" "node_put s2 a ?k (kbrk s) = Some s3"
     "trie_ok s3 (Trie a [(?k, ?x)])" "tfoot (Trie a [(?k, ?x)]) \<subseteq> {a} \<union> {kbrk s..<kbrk s3}"
     "kframe s s3 {a}" "kbrk s < kbrk s3" "numKeys s3 = numKeys s"
    by simp_all
  let ?y = "new_slot (kbrk s3) sf w"
  let ?t = "Trie a (ins_list ?l ?y [(?k, ?x)])"
  have m: "map_of [(?k, ?x)] ?l = None" using assms(5) by simp
  obtain s4 s5 s6 where s6: "BN_NewBorderNode s3 = Some (kbrk s3, s4)"
     "BN_SetValue s4 (kbrk s3) (kkey sf) (Some (Val w)) = Some s5" "node_put s5 a ?l (kbrk s3) = Some s6"
     "trie_ok s6 ?t" "tfoot ?t \<subseteq> tfoot (Trie a [(?k, ?x)]) \<union> {kbrk s3..<kbrk s6}"
     "kframe s3 s6 {a}" "kbrk s3 < kbrk s6" "numKeys s6 = numKeys s3"
    using insert_new [OF s3(4) kframe_memok [OF s3(6) assms(2)] m e(3) assms(4) len(2), of w] by blast
  let ?s = "s6\<lparr>numKeys := numKeys s6 + 1\<rparr>"
  have "put_loop s a (kkey bs) (Some (Val v)) (Some (kkey sf, Some (Val w))) = Some (?s, kkey bs)"
    using s3(1-3) s6(1-3) assms(5) by (subst put_loop.simps) simp
  moreover have "kframe s s6 {a}" by (rule kframe_trans [OF s3(6) s6(6)]) simp
  moreover have "tfoot ?t \<subseteq> {a} \<union> {kbrk s..<kbrk s6}" using s3(5,7) s6(5,7) by fastforce
  moreover have "tget ?t y = (if y = bs then Some v else if y = sf then Some w else None)" if "y \<noteq> []" for y
    using that assms(3-5) new_slot_get [OF assms(3) that, of "kbrk s" v] new_slot_get [OF assms(4) that, of "kbrk s3" w]
    by (subst tget_ins) (auto simp: tget_slot)
  moreover have "trie_ok ?s ?t" using s6(4) by (simp add: trie_ok_def del: tfoot.simps krep.simps tsep.simps ins_list.simps)
  moreover have "numKeys ?s = numKeys s + 1" using s3(8) s6(8) by simp
  ultimately show ?thesis unfolding build_res_def
    by (intro exI [of _ ?s] exI [of _ ?t] exI [of _ "kkey bs"]) (simp del: tfoot.simps ins_list.simps)
qed

text \<open>The slices agree and one of the keys ends: both values are stored under the first key, the second one last.\<close>

lemma build_clash:
  assumes "trie_ok s (Trie a [])" "memok s" "bs \<noteq> []" "ks_of bs = ks_of sf" "length bs \<le> 8 \<or> length sf \<le> 8" "length bs < 2 ^ 32"
  shows "build_res s a bs (Some w) sf None (put_loop s a (kkey bs) (Some (Val v)) (Some (kkey sf, Some (Val w))))"
proof -
  let ?k = "ks_of bs" and ?x = "new_slot (kbrk s) bs w"
  obtain s1 s2 where s2: "BN_NewBorderNode s = Some (kbrk s, s1)"
    "BN_SetValue s1 (kbrk s) (kkey bs) (Some (Val v)) = Some s2"
    "kvnodes s2 = kvnodes s" "srep s2 (new_slot (kbrk s) bs v)" "kframe s s2 {}" "kbrk s < kbrk s2" "numKeys s2 = numKeys s"
    using new_bn_ok [OF assms(2,3,6)] by blast
  obtain s3 where s3: "BN_SetValue s2 (kbrk s) (kkey bs) (Some (Val w)) = Some s3" "kvnodes s3 = kvnodes s2"
     "srep s3 ?x" "kframe s2 s3 {kbrk s}" "numKeys s3 = numKeys s2"
    using set_value_again [OF s2(4) kframe_memok [OF s2(5) assms(2)] assms(3,6)] by blast
  have fr: "kframe s s3 {}" by (rule kframe_trans [OF s2(5) s3(4)]) (use s2(6) in simp)
  have le: "kbrk s < kbrk s3" using s2(6) s3(4) by (simp add: kframe_def)
  obtain s4 where s4: "node_put s3 a ?k (kbrk s) = Some s4" "trie_ok s4 (Trie a (ins_list ?k ?x []))"
     "tfoot (Trie a (ins_list ?k ?x [])) \<subseteq> tfoot (Trie a [] :: 'a trie) \<union> {kbrk s..<kbrk s4}"
     "kframe s s4 {a}" "numKeys s4 = numKeys s"
    using insert_bn [OF assms(1), of bs ?x s3] s2(3,7) s3(2,3,5) fr le by (auto simp: capacity_def)
  let ?s = "s4\<lparr>numKeys := numKeys s4 + 1\<rparr>" and ?t = "Trie a (ins_list ?k ?x [])"
  have "put_loop s a (kkey bs) (Some (Val v)) (Some (kkey sf, Some (Val w))) = Some (?s, kkey bs)"
    using s2(1,2) s3(1) s4(1) assms(4,5) by (subst put_loop.simps) (auto simp: KEY_SLICE_LENGTH_def keyslice_length_def)
  moreover have "tget ?t y = (if y = bs then Some w else if y = sf then None else None)" if "y \<noteq> []" for y
    using that new_slot_get [OF assms(3) that, of "kbrk s" w] by (subst tget_ins) (auto simp: tget_slot)
  moreover have "trie_ok ?s ?t" using s4(2) by (simp add: trie_ok_def del: tfoot.simps krep.simps tsep.simps ins_list.simps)
  ultimately show ?thesis unfolding build_res_def using s4(3-5)
    by (intro exI [of _ ?s] exI [of _ ?t] exI [of _ "kkey bs"]) (simp del: ins_list.simps)
qed

text \<open>The slices agree and both keys go on: a link to the next layer.\<close>

abbreviation link_slot :: "addr \<Rightarrow> 'v option list \<Rightarrow> 'v trie \<Rightarrow> 'v slot" where
  "link_slot b ps t \<equiv> Slot b ps (Layer t)"

lemma fresh_trie:
  assumes "cursor_at (tree n) (ncursor n) [] 0" "kvnodes s a = Some n" "a < kbrk s"
  shows "trie_ok s (Trie a [])"
proof -
  have "knode s a (records [])" using assms(1,2) by (auto simp: knode_def records_def)
  then show ?thesis using assms(3) by (simp add: trie_ok_def entries_sep_def)
qed

lemma BN_new_link_ok:
  assumes "memok s"
  shows "\<exists>s1. BN_NewBorderNode s = Some (kbrk s, s1) \<and>
     (\<exists>s2 n. BN_SetLink s1 (kbrk s) (Some (Node link)) = Some s2 \<and> s2 = (set_bn s (kbrk s) n)\<lparr>kbrk := Suc (kbrk s)\<rparr> \<and>
        prefixLinks n = map (map_option Val) (replicate 8 None) \<and> keySuffix n = None \<and> suffixLink n = Some (Node link))"
proof -
  let ?n = "\<lparr>prefixLinks = replicate MAX_BN_SIZE None, suffixLink = None, keySuffix = None, keySuffixLength = 0\<rparr>"
  let ?s1 = "set_bn (s\<lparr>kbrk := Suc (kbrk s)\<rparr>) (kbrk s) ?n"
  have 1: "BN_NewBorderNode s = Some (kbrk s, ?s1)"
    using assms(1) by (simp add: BN_NewBorderNode_def kv_malloc_ok)
  show ?thesis using 1
    by (intro exI [of _ ?s1] conjI exI [of _ "(set_bn s (kbrk s) (?n\<lparr>suffixLink := Some (Node link)\<rparr>))\<lparr>kbrk := Suc (kbrk s)\<rparr>"]
          exI [of _ "?n\<lparr>suffixLink := Some (Node link)\<rparr>"])
      (simp_all add: BN_SetLink_def set_bn_def MAX_BN_SIZE_def keyslice_length_def)
qed

lemma build_step:
  assumes "trie_ok s (Trie a [])" "memok s" "8 < length bs" "8 < length sf" "ks_of bs = ks_of sf"
    and IH: "\<And>s' a'. trie_ok s' (Trie a' []) \<Longrightarrow> memok s' \<Longrightarrow>
        build_res s' a' (drop 8 bs) x (drop 8 sf) z
          (put_loop s' a' (kkey (drop 8 bs)) (Some (Val v)) (Some (kkey (drop 8 sf), Some (Val w))))"
  shows "build_res s a bs x sf z (put_loop s a (kkey bs) (Some (Val v)) (Some (kkey sf, Some (Val w))))"
proof -
  let ?k = "ks_of bs"
  have a: "a < kbrk s" and kn: "knode s a []" using trie_okD(1,4) [OF assms(1)] by (simp_all add: records_def)
  define link where "link = kbrk s"
  obtain n where n: "newKVNode s = Some (Some link, s\<lparr>kbrk := Suc link, kvnodes := (kvnodes s)(link \<mapsto> n)\<rparr>)"
    "cursor_at (tree n) (ncursor n) [] 0" using newKVNode_ok [OF assms(2)] by (auto simp: link_def)
  let ?s1 = "s\<lparr>kbrk := Suc link, kvnodes := (kvnodes s)(link \<mapsto> n)\<rparr>"
  have mem1: "memok ?s1" using assms(2) by (simp add: memok_def)
  let ?b = "Suc link"
  obtain s2 bn where s2: "BN_NewBorderNode ?s1 = Some (?b, s2)"
    "BN_SetLink s2 ?b (Some (Node link)) = Some ((set_bn ?s1 ?b bn)\<lparr>kbrk := Suc ?b\<rparr>)"
    "prefixLinks bn = map (map_option Val) (replicate 8 None)" "keySuffix bn = None" "suffixLink bn = Some (Node link)"
    using BN_new_link_ok [OF mem1, of link] by auto
  let ?s3 = "(set_bn ?s1 ?b bn)\<lparr>kbrk := Suc ?b\<rparr>"
  have "knode ?s3 a []" using kn a by (simp add: knode_def set_bn_def link_def)
  then obtain m p where m: "node_put ?s3 a ?k ?b = Some (?s3\<lparr>kvnodes := (kvnodes ?s3)(a \<mapsto> m)\<rparr>)"
    "cursor_at (tree m) (ncursor m) (ins_list ?k ?b []) p"
    using node_put_ok [of ?s3 a "[]" ?k ?b] by (auto simp: capacity_def)
  let ?s4 = "?s3\<lparr>kvnodes := (kvnodes ?s3)(a \<mapsto> m)\<rparr>"
  have al: "a \<noteq> link" using a by (simp add: link_def)
  have t4: "trie_ok ?s4 (Trie link [])"
    by (rule fresh_trie [OF n(2)]) (use al in \<open>simp_all add: set_bn_def link_def\<close>)
  have mem4: "memok ?s4" using assms(2) by (simp add: memok_def set_bn_def)
  obtain s5 t' key' where s5: "put_loop ?s4 link (kkey (drop 8 bs)) (Some (Val v)) (Some (kkey (drop 8 sf), Some (Val w))) = Some (s5, key')"
    "trie_ok s5 t'" "trie_addr t' = link" "kframe ?s4 s5 {link}" "tfoot t' \<subseteq> {link} \<union> {kbrk ?s4..<kbrk s5}"
    "\<And>y. y \<noteq> [] \<Longrightarrow> tget t' y = (if y = drop 8 bs then x else if y = drop 8 sf then z else None)"
    "numKeys s5 = numKeys s + 1"
    using IH [OF t4 mem4] by (auto simp: build_res_def set_bn_def)
  let ?x = "link_slot ?b (replicate 8 None) t'"
  have fr4: "kframe s ?s4 {a}" by (simp add: kframe_def set_bn_def link_def)
  have fr: "kframe s s5 {a}" by (rule kframe_trans [OF fr4 s5(4)]) (simp add: link_def set_bn_def)
  have b5: "bns s5 ?b = Some bn" "kvnodes s5 a = Some m"
    using s5(4) a by (simp_all add: kframe_def set_bn_def link_def)
  have le: "Suc ?b \<le> kbrk s5" using s5(4) by (simp add: kframe_def set_bn_def)
  have "krep s5 t'" "tsep t'" using s5(2) by (simp_all add: trie_ok_def)
  have rep: "srep s5 ?x" using b5(1) s2(3-5) s5(3) \<open>krep s5 t'\<close> by simp
  have bt: "?b \<notin> tfoot t'" using s5(5) by (auto simp: set_bn_def)
  then have sep: "ssep ?x" using \<open>tsep t'\<close> by simp
  have foot: "sfoot ?x \<subseteq> {kbrk s..<kbrk s5}" using s5(5) le by (auto simp: link_def set_bn_def)
  have kn5: "knode s5 a (records (ins_list ?k ?x []))"
    using b5(2) m(2) by (auto simp: knode_def records_def)
  have r: "trie_ok s5 (Trie a (ins_list ?k ?x []))"
    "tfoot (Trie a (ins_list ?k ?x [])) \<subseteq> tfoot (Trie a [] :: 'a trie) \<union> {kbrk s..<kbrk s5}"
    by (rule slot_replace [OF assms(1) _ kn5 rep sep]; use fr foot in simp)+
  have get: "tget (Trie a (ins_list ?k ?x [])) y = (if y = bs then x else if y = sf then z else None)"
    if y: "y \<noteq> []" for y
  proof (cases "ks_of y = ?k \<and> 8 < length y")
    case True
    have "tget (Trie a (ins_list ?k ?x [])) y = tget t' (drop 8 y)"
      using True by (simp add: tget_slot slot_get_def)
    also have "\<dots> = (if drop 8 y = drop 8 bs then x else if drop 8 y = drop 8 sf then z else None)"
      by (rule s5(6)) (use True in simp)
    finally show ?thesis using ks_of_long [of y bs] ks_of_long [of y sf] True assms(3-5) by simp
  next
    case False
    then have "y \<noteq> bs" "y \<noteq> sf" using assms(3-5) by auto
    moreover have "tget (Trie a (ins_list ?k ?x [])) y = None"
      using False y by (cases y) (auto simp: tget_slot slot_get_def simp del: replicate.simps)
    ultimately show ?thesis by simp
  qed
  have "put_loop s a (kkey bs) (Some (Val v)) (Some (kkey sf, Some (Val w))) = Some (s5, key')"
    using n(1) s2(1,2) m(1) s5(1) assms(3-5)
    by (subst put_loop.simps) (simp add: next_part_kkey KEY_SLICE_LENGTH_def keyslice_length_def)
  then show ?thesis unfolding build_res_def using r fr get s5(7)
    by (intro exI [of _ s5] exI [of _ "Trie a (ins_list ?k ?x [])"] exI [of _ key']) (simp del: ins_list.simps)
qed

lemma build_ok:
  assumes "trie_ok s (Trie a [])" "memok s" "bs \<noteq> []" "sf \<noteq> []" "length bs < 2 ^ 32" "length sf < 2 ^ 32"
  shows "build_res s a bs (Some (if clash bs sf then w else v)) sf (if clash bs sf then None else Some w)
    (put_loop s a (kkey bs) (Some (Val v)) (Some (kkey sf, Some (Val w))))"
  using assms
proof (induction bs sf arbitrary: s a rule: clash.induct)
  case (1 bs sf)
  note cl = clash.simps [of bs sf]
  consider "ks_of bs \<noteq> ks_of sf" | "ks_of bs = ks_of sf" "length bs \<le> 8 \<or> length sf \<le> 8"
    | "ks_of bs = ks_of sf" "\<not> (length bs \<le> 8 \<or> length sf \<le> 8)" by blast
  then show ?case
  proof cases
    case 1
    then show ?thesis using build_apart [OF "1.prems"(1-4) _ "1.prems"(5,6)] cl by simp
  next
    case 2
    then show ?thesis using build_clash [OF "1.prems"(1-3) _ _ "1.prems"(5)] cl by simp
  next
    case 3
    have "build_res s a bs (Some (if clash (drop 8 bs) (drop 8 sf) then w else v)) sf
        (if clash (drop 8 bs) (drop 8 sf) then None else Some w)
        (put_loop s a (kkey bs) (Some (Val v)) (Some (kkey sf, Some (Val w))))"
    proof (rule build_step [OF "1.prems"(1,2) _ _ 3(1)])
      fix s' :: "'a KVStore" and a' assume "trie_ok s' (Trie a' [])" "memok s'"
      then show "build_res s' a' (drop 8 bs) (Some (if clash (drop 8 bs) (drop 8 sf) then w else v)) (drop 8 sf)
          (if clash (drop 8 bs) (drop 8 sf) then None else Some w)
          (put_loop s' a' (kkey (drop 8 bs)) (Some (Val v)) (Some (kkey (drop 8 sf), Some (Val w))))"
        by (rule "1.IH" [OF 3(2)]) (use 3 "1.prems"(5,6) in auto)
    qed (use 3 in auto)
    then show ?thesis using 3 cl by simp
  qed
qed

section \<open>A slot that is there\<close>

text \<open>
  The result of a put into a trie, with the keys \<open>L\<close> lost. A key that found no border node, or one with room for
  its suffix, is then the suffix of one.
\<close>

definition put_res :: "'v KVStore \<Rightarrow> 'v trie \<Rightarrow> byte list \<Rightarrow> 'v \<Rightarrow> byte list set \<Rightarrow> ('v KVStore \<times> KVKey) option \<Rightarrow> bool" where
  "put_res s t bs v L r \<longleftrightarrow>
     (\<exists>s' t' key'. r = Some (s', key') \<and> trie_ok s' t' \<and> trie_addr t' = trie_addr t \<and> kframe s s' (tfoot t) \<and>
        tfoot t' \<subseteq> tfoot t \<union> {kbrk s..<kbrk s'} \<and>
        (\<forall>y. y \<noteq> [] \<longrightarrow> tget t' y = after_put (tget t) bs v L y) \<and>
        (8 < length bs \<and> plain bs (map_of (entries_of t) (ks_of bs)) \<longrightarrow> suffix_slot bs v (map_of (entries_of t') (ks_of bs))) \<and>
        numKeys s' = numKeys s + (if tget t bs = None then 1 else 0))"

text \<open>Looking a slice up moves the cursor of the trie node and changes nothing else.\<close>

lemma node_lookup:
  assumes t: "trie_ok s (Trie a es)"
  shows "\<exists>n. node_move s a k = Some (map_of es k \<noteq> None, s\<lparr>kvnodes := (kvnodes s)(a \<mapsto> n)\<rparr>) \<and>
     trie_ok (s\<lparr>kvnodes := (kvnodes s)(a \<mapsto> n)\<rparr>) (Trie a es) \<and>
     (\<forall>x. map_of es k = Some x \<longrightarrow>
        (\<exists>n'. node_record (s\<lparr>kvnodes := (kvnodes s)(a \<mapsto> n)\<rparr>) a = Some (slot_addr x, s\<lparr>kvnodes := (kvnodes s)(a \<mapsto> n')\<rparr>) \<and>
              trie_ok (s\<lparr>kvnodes := (kvnodes s)(a \<mapsto> n')\<rparr>) (Trie a es)))"
proof -
  note d = trie_okD [OF t]
  obtain n p where n: "node_move s a k = Some (map_of (records es) k \<noteq> None, s\<lparr>kvnodes := (kvnodes s)(a \<mapsto> n)\<rparr>)"
     "cursor_at (tree n) (ncursor n) (records es) p"
     "\<forall>b. map_of (records es) k = Some b \<longrightarrow>
        (\<exists>n'. node_record (s\<lparr>kvnodes := (kvnodes s)(a \<mapsto> n)\<rparr>) a = Some (b, s\<lparr>kvnodes := (kvnodes s)(a \<mapsto> n')\<rparr>) \<and>
              cursor_at (tree n') (ncursor n') (records es) p)"
    using node_move_ok [OF d(1), of k] by blast
  have ok: "trie_ok (s\<lparr>kvnodes := (kvnodes s)(a \<mapsto> m)\<rparr>) (Trie a es)" if m: "cursor_at (tree m) (ncursor m) (records es) p" for m
  proof -
    let ?s = "s\<lparr>kvnodes := (kvnodes s)(a \<mapsto> m)\<rparr>"
    have "krep ?s (Trie a es)" unfolding krep_Trie [OF d(2)]
    proof (intro conjI allI impI)
      show "knode ?s a (records es)" using m by (auto simp: knode_def)
      fix k x assume "map_of es k = Some x"
      then have x: "srep s x" "a \<notin> sfoot x" using d(5) by blast+
      then have "\<forall>y\<in>sfoot x. kvnodes ?s y = kvnodes s y \<and> bns ?s y = bns s y" by auto
      then show "srep ?s x" using rep_frame(2) x(1) by blast
    qed
    then show ?thesis using t unfolding trie_ok_def by simp
  qed
  have "\<exists>n'. node_record (s\<lparr>kvnodes := (kvnodes s)(a \<mapsto> n)\<rparr>) a = Some (slot_addr x, s\<lparr>kvnodes := (kvnodes s)(a \<mapsto> n')\<rparr>) \<and>
        trie_ok (s\<lparr>kvnodes := (kvnodes s)(a \<mapsto> n')\<rparr>) (Trie a es)" if x: "map_of es k = Some x" for x
    using n(3) x ok by (auto simp: map_of_records)
  then show ?thesis using n(1,2) ok by (intro exI [of _ n]) (simp add: map_of_records)
qed

lemma slot_update:
  assumes t: "trie_ok s (Trie a es)" and x: "map_of es k = Some x" and fr: "kframe s s' (sfoot x)"
    and x': "srep s' x'" "ssep x'" "sfoot x' \<subseteq> sfoot x \<union> {kbrk s..<kbrk s'}" "slot_addr x' = slot_addr x"
  shows "trie_ok s' (Trie a (ins_list k x' es))"
    and "tfoot (Trie a (ins_list k x' es)) \<subseteq> tfoot (Trie a es) \<union> {kbrk s..<kbrk s'}"
    and "kframe s s' (tfoot (Trie a es))"
proof -
  note d = trie_okD [OF t]
  have xx: "srep s x" "ssep x" "a \<notin> sfoot x" "sfoot x \<subseteq> tfoot (Trie a es)" using d(5) [OF x] by blast+
  have "records (ins_list k x' es) = records es"
    unfolding records_ins x'(4) by (rule ins_list_same) (use d(2) x in \<open>simp_all add: map_of_records\<close>)
  moreover have "kvnodes s' a = kvnodes s a" using fr xx(3) d(4) by (simp add: kframe_def)
  ultimately have kn: "knode s' a (records (ins_list k x' es))" using d(1) knode_kvs by metis
  show "trie_ok s' (Trie a (ins_list k x' es))"
    "tfoot (Trie a (ins_list k x' es)) \<subseteq> tfoot (Trie a es) \<union> {kbrk s..<kbrk s'}"
    by (rule slot_replace [OF t _ kn x'(1,2)]; use kframe_mono [OF fr] x x'(3) in auto)+
  show "kframe s s' (tfoot (Trie a es))" by (rule kframe_mono [OF fr xx(4)])
qed

lemma put_res_slot:
  assumes t: "trie_ok s (Trie a es)" and x: "map_of es (ks_of bs) = Some x" and fr: "kframe s s' (sfoot x)"
    and x': "srep s' x'" "ssep x'" "sfoot x' \<subseteq> sfoot x \<union> {kbrk s..<kbrk s'}" "slot_addr x' = slot_addr x"
    and up: "updates x x' bs v L" "\<forall>k\<in>L. ks_of k = ks_of bs"
    and shape: "8 < length bs \<Longrightarrow> plain bs (Some x) \<Longrightarrow> suffix_slot bs v (Some x')"
    and num: "numKeys s' = numKeys s + (if slot_get x bs = None then 1 else 0)"
  shows "put_res s (Trie a es) bs v L (Some (s', key'))"
proof -
  note u = slot_update [OF t x fr x'] and d = trie_okD [OF t]
  have "tget (Trie a es) bs = slot_get x bs" using x by (simp add: tget_slot)
  moreover have "map_of (ins_list (ks_of bs) x' es) (ks_of bs) = Some x'" by (simp add: map_of_ins_list [OF d(2)])
  ultimately show ?thesis unfolding put_res_def
    using u tget_updates [OF d(2) x up] num shape x
    by (intro exI [of _ s'] exI [of _ "Trie a (ins_list (ks_of bs) x' es)"] exI [of _ key']) (simp del: tfoot.simps)
qed

text \<open>The result of the lookup's state carries over to the state before it.\<close>

lemma put_res_node:
  assumes "put_res (s\<lparr>kvnodes := (kvnodes s)(a \<mapsto> n)\<rparr>) t bs v L r" "a \<in> tfoot t"
  shows "put_res s t bs v L r"
proof -
  let ?s = "s\<lparr>kvnodes := (kvnodes s)(a \<mapsto> n)\<rparr>"
  have "kframe s s' (tfoot t)" if "kframe ?s s' (tfoot t)" for s'
    by (rule kframe_trans [OF _ that]) (use assms(2) in \<open>auto simp: kframe_def\<close>)
  moreover have "kbrk ?s = kbrk s" "numKeys ?s = numKeys s" by simp_all
  ultimately show ?thesis using assms(1) unfolding put_res_def by metis
qed

lemma slot_ops:
  assumes "srep s (Slot b ps tt)"
  obtains n where "bns s b = Some n" "prefixLinks n = map (map_option Val) ps" "tail_node n tt"
  using assms by auto

lemma hit_prefix:
  assumes t: "trie_ok s (Trie a es)" and x: "map_of es (ks_of bs) = Some (Slot b ps tt)" "bs \<noteq> []" "length bs \<le> 8"
  shows "put_res s (Trie a es) bs v {}
    (do { old \<leftarrow> BN_GetPrefixValue s b (length bs);
          let s = (if old = None then s\<lparr>numKeys := numKeys s + 1\<rparr> else s);
          s \<leftarrow> BN_SetPrefixValue s b (length bs) (Some (Val v));
          Some (s, key) })"
proof -
  note d = trie_okD(5) [OF t x(1)]
  have ps: "length ps = 8" "b \<notin> lfoot tt" "srep s (Slot b ps tt)" using d by auto
  obtain n where n: "bns s b = Some n" "prefixLinks n = map (map_option Val) ps" "tail_node n tt"
    by (rule slot_ops [OF ps(3)])
  let ?i = "length bs - 1" and ?x' = "Slot b (ps[length bs - 1 := Some v]) tt"
  have i: "int (length bs) - 1 = int ?i" "?i < 8" "0 < length bs" using x(2,3) by (cases bs; simp)+
  let ?s' = "(set_bn s b (n\<lparr>prefixLinks := (map (map_option Val) ps)[?i := Some (Val v)]\<rparr>))
      \<lparr>numKeys := numKeys s + (if slot_get (Slot b ps tt) bs = None then 1 else 0)\<rparr>"
  have get: "slot_get (Slot b ps tt) bs = ps ! ?i" using x(3) by (simp add: slot_get_def)
  have op: "(do { old \<leftarrow> BN_GetPrefixValue s b (length bs);
          let s = (if old = None then s\<lparr>numKeys := numKeys s + 1\<rparr> else s);
          s \<leftarrow> BN_SetPrefixValue s b (length bs) (Some (Val v));
          Some (s, key) }) = Some (?s', key)"
    using n i x(3) ps(1) get
    by (auto simp: BN_GetPrefixValue_def BN_SetPrefixValue_def MAX_BN_SIZE_def keyslice_length_def set_bn_def Let_def
        simp del: of_nat_diff)
  have "\<forall>y\<in>lfoot tt. kvnodes ?s' y = kvnodes s y \<and> bns ?s' y = bns s y" using ps(2) by (auto simp: set_bn_def)
  then have "lrep ?s' tt" using rep_frame(3) ps(3) by fastforce
  moreover have "tail_node (n\<lparr>prefixLinks := z\<rparr>) tt" for z using n(3) by (cases tt) auto
  ultimately have "srep ?s' ?x'" by (simp add: set_bn_def map_update)
  moreover have "ssep ?x'" using d ps(1) by auto
  moreover have "kframe s ?s' (sfoot (Slot b ps tt))" by (auto simp: kframe_def set_bn_def)
  ultimately show ?thesis unfolding op
    by (intro put_res_slot [OF t x(1), where x' = ?x'] updates_prefix [OF x(2,3) ps(1)]) (use x(3) in \<open>auto simp: set_bn_def\<close>)
qed

lemma hit_suffix:
  assumes t: "trie_ok s (Trie a es)" and x: "map_of es (ks_of bs) = Some (Slot b ps tt)" "8 < length bs" "memok s"
    and len: "length bs < 2 ^ 32" and tt: "tt = NoTail \<or> (\<exists>w. tt = Suffix (drop 8 bs) w)"
  shows "\<exists>s'. BN_SetSuffixValue s b (drop 8 bs) (length bs - 8) (Some (Val v)) = Some s' \<and>
    put_res s (Trie a es) bs v {}
      (Some (s'\<lparr>numKeys := numKeys s + (if tt = NoTail then 1 else 0)\<rparr>, key)) \<and> numKeys s' = numKeys s"
proof -
  note d = trie_okD(5) [OF t x(1)]
  have ps: "length ps = 8" "srep s (Slot b ps tt)" using d by auto
  obtain n where n: "bns s b = Some n" "prefixLinks n = map (map_option Val) ps" "tail_node n tt"
    by (rule slot_ops [OF ps(2)])
  let ?n = "n\<lparr>keySuffix := Some (drop 8 bs), keySuffixLength := length bs - 8, suffixLink := Some (Val v)\<rparr>"
  let ?s' = "set_bn (s\<lparr>kbrk := Suc (kbrk s)\<rparr>) b ?n" and ?x' = "Slot b ps (Suffix (drop 8 bs) v)"
  let ?s'' = "?s'\<lparr>numKeys := numKeys s + (if tt = NoTail then 1 else 0)\<rparr>"
  have op: "BN_SetSuffixValue s b (drop 8 bs) (length bs - 8) (Some (Val v)) = Some ?s'"
    using x(2,3) len by (simp add: BN_SetSuffixValue_ok [OF n(1)])
  have up: "updates (Slot b ps tt) ?x' bs v {}"
    by (rule updates_tail [OF x(2)]) (use tt x(2) in \<open>auto simp: slot_get_def\<close>)
  have "put_res s (Trie a es) bs v {} (Some (?s'', key))"
    by (rule put_res_slot [OF t x(1) _ _ _ _ _ up])
      (use n(2) ps x(2) tt in \<open>auto simp: set_bn_def kframe_def slot_get_def suffix_slot_def\<close>)
  then show ?thesis using op by (intro exI [of _ ?s']) (simp add: set_bn_def)
qed

text \<open>A slot that links to a trie: what happens to that trie happens to the whole.\<close>

lemma layer_replace:
  assumes t: "trie_ok s (Trie a es)" and x: "map_of es (ks_of bs) = Some (Slot b ps tt)" "8 < length bs"
    and fr: "kframe s s' (sfoot (Slot b ps tt))"
    and n: "bns s' b = Some n" "prefixLinks n = map (map_option Val) ps" "keySuffix n = None"
      "suffixLink n = Some (Node (trie_addr t'))"
    and t': "trie_ok s' t'" "b \<notin> tfoot t'" "tfoot t' \<subseteq> lfoot tt \<union> {kbrk s..<kbrk s'}"
    and L: "\<forall>k\<in>L. 8 < length k \<and> ks_of k = ks_of bs" and np: "\<not> plain bs (Some (Slot b ps tt))"
    and get: "\<And>y. y \<noteq> [] \<Longrightarrow> tget t' y = after_put (slot_get (Slot b ps tt)) bs v L (take 8 bs @ y)"
    and num: "numKeys s' = numKeys s + (if slot_get (Slot b ps tt) bs = None then 1 else 0)"
  shows "put_res s (Trie a es) bs v L (Some (s', key))"
proof -
  have ps: "length ps = 8" using trie_okD(5) [OF t x(1)] by auto
  have up: "updates (Slot b ps tt) (Slot b ps (Layer t')) bs v L"
    by (rule updates_tail [OF x(2)]) (use get x(2) L in \<open>simp_all add: slot_get_def\<close>)
  show ?thesis
    by (rule put_res_slot [OF t x(1) fr _ _ _ _ up _ _ num])
      (use n t' ps L np in \<open>auto simp: trie_ok_def\<close>)
qed

lemma hit_layer:
  assumes t: "trie_ok s (Trie a es)" and x: "map_of es (ks_of bs) = Some (Slot b ps (Layer t2))" "8 < length bs"
    and IH: "put_res s t2 (drop 8 bs) v {} r"
  shows "put_res s (Trie a es) bs v {} r"
proof -
  note d = trie_okD(5) [OF t x(1)]
  have ps: "length ps = 8" "srep s (Slot b ps (Layer t2))" "b \<notin> tfoot t2" using d by auto
  obtain n where n: "bns s b = Some n" "prefixLinks n = map (map_option Val) ps" "tail_node n (Layer t2)"
    by (rule slot_ops [OF ps(2)])
  obtain s' t' key' where r: "r = Some (s', key')" "trie_ok s' t'" "trie_addr t' = trie_addr t2" "kframe s s' (tfoot t2)"
    "tfoot t' \<subseteq> tfoot t2 \<union> {kbrk s..<kbrk s'}"
    "\<And>y. y \<noteq> [] \<Longrightarrow> tget t' y = after_put (tget t2) (drop 8 bs) v {} y"
    "numKeys s' = numKeys s + (if tget t2 (drop 8 bs) = None then 1 else 0)"
    using IH unfolding put_res_def by blast
  have b: "b < kbrk s" using d trie_okD(6) [OF t] by auto
  have bn: "bns s' b = Some n" using r(4) b ps(3) n(1) by (simp add: kframe_def)
  have bt: "b \<notin> tfoot t'" using r(5) ps(3) b by auto
  show ?thesis unfolding r(1)
  proof (rule layer_replace [OF t x _ bn n(2)])
    show "kframe s s' (sfoot (Slot b ps (Layer t2)))" by (rule kframe_mono [OF r(4)]) auto
    show "keySuffix n = None" "suffixLink n = Some (Node (trie_addr t'))" using n(3) r(3) by auto
    show "trie_ok s' t'" "b \<notin> tfoot t'" by fact+
    show "tfoot t' \<subseteq> lfoot (Layer t2) \<union> {kbrk s..<kbrk s'}" using r(5) by simp
    show "tget t' y = after_put (slot_get (Slot b ps (Layer t2))) bs v {} (take 8 bs @ y)"
      if "y \<noteq> []" for y
      using r(6) [OF that] x(2) that by (simp add: slot_get_def)
    show "numKeys s' = numKeys s + (if slot_get (Slot b ps (Layer t2)) bs = None then 1 else 0)"
      using r(7) x(2) by (simp add: slot_get_def)
  qed simp_all
qed

lemma hit_differ:
  assumes t: "trie_ok s (Trie a es)" and x: "map_of es (ks_of bs) = Some (Slot b ps (Suffix sf w))" "8 < length bs"
    and m: "memok s" and ne: "sf \<noteq> drop 8 bs" and len: "length bs < 2 ^ 32" "length sf < 2 ^ 32"
  shows "put_res s (Trie a es) bs (if clash (drop 8 bs) sf then w else v) (if clash (drop 8 bs) sf then {take 8 bs @ sf} else {})
    (do { (sndValue, sndKey, s) \<leftarrow> BN_ExportSuffixValue s b;
          (p, s) \<leftarrow> newKVNode s;
          s \<leftarrow> BN_SetLink s b (map_option Node p);
          link \<leftarrow> p;
          sndKey \<leftarrow> sndKey;
          put_loop s link (kkey (drop 8 bs)) (Some (Val v)) (Some (sndKey, sndValue)) })"
proof -
  note d = trie_okD(5) [OF t x(1)]
  have ps: "length ps = 8" "srep s (Slot b ps (Suffix sf w))" "sf \<noteq> []" using d by auto
  obtain n where n: "bns s b = Some n" "prefixLinks n = map (map_option Val) ps" "tail_node n (Suffix sf w)"
    by (rule slot_ops [OF ps(2)])
  have b: "b < kbrk s" using d trie_okD(6) [OF t] by auto
  let ?n1 = "n\<lparr>keySuffix := None, keySuffixLength := 0, suffixLink := None\<rparr>"
  let ?s1 = "set_bn (s\<lparr>kbrk := Suc (kbrk s)\<rparr>) b ?n1"
  have ex: "BN_ExportSuffixValue s b = Some (Some (Val w), Some (kkey sf), ?s1)"
    using n m by (simp add: BN_ExportSuffixValue_def KV_MoveKey_def kv_malloc_ok kkey_def set_bn_def)
  define link where "link = Suc (kbrk s)"
  have "memok ?s1" using m by (simp add: memok_def set_bn_def)
  then obtain k where k: "newKVNode ?s1 = Some (Some link, ?s1\<lparr>kbrk := Suc link, kvnodes := (kvnodes ?s1)(link \<mapsto> k)\<rparr>)"
    "cursor_at (tree k) (ncursor k) [] 0" using newKVNode_ok [of ?s1] by (auto simp: set_bn_def link_def)
  let ?s2 = "?s1\<lparr>kbrk := Suc link, kvnodes := (kvnodes ?s1)(link \<mapsto> k)\<rparr>"
  let ?n2 = "?n1\<lparr>suffixLink := Some (Node link)\<rparr>"
  let ?s3 = "set_bn ?s2 b ?n2"
  have sl: "BN_SetLink ?s2 b (Some (Node link)) = Some ?s3" by (simp add: BN_SetLink_def set_bn_def)
  have t3: "trie_ok ?s3 (Trie link [])" by (rule fresh_trie [OF k(2)]) (simp_all add: set_bn_def link_def)
  have m3: "memok ?s3" using m by (simp add: memok_def set_bn_def)
  have dn: "drop 8 bs \<noteq> []" and dl: "length (drop 8 bs) < 2 ^ 32" using x(2) len(1) by simp_all
  define c where "c = clash (drop 8 bs) sf"
  obtain s' t' key' where r:
    "put_loop ?s3 link (kkey (drop 8 bs)) (Some (Val v)) (Some (kkey sf, Some (Val w))) = Some (s', key')"
    "trie_ok s' t'" "trie_addr t' = link" "kframe ?s3 s' {link}" "tfoot t' \<subseteq> {link} \<union> {kbrk ?s3..<kbrk s'}"
    "\<And>y. y \<noteq> [] \<Longrightarrow> tget t' y = (if y = drop 8 bs then Some (if c then w else v) else if y = sf then if c then None else Some w else None)"
    "numKeys s' = numKeys ?s3 + 1"
    using build_ok [OF t3 m3 dn ps(3) dl len(2), of w v] unfolding build_res_def c_def by blast
  have fr3: "kframe s ?s3 {b}" by (simp add: kframe_def set_bn_def link_def)
  have fr: "kframe s s' {b}" by (rule kframe_trans [OF fr3 r(4)]) (simp add: link_def set_bn_def)
  have bn: "bns s' b = Some ?n2" using r(4) b by (simp add: kframe_def set_bn_def link_def)
  have le: "Suc link \<le> kbrk s'" using r(4) by (simp add: kframe_def set_bn_def)
  have bt: "b \<notin> tfoot t'" using r(5) b by (auto simp: set_bn_def link_def)
  have "put_res s (Trie a es) bs (if c then w else v) (if c then {take 8 bs @ sf} else {}) (Some (s', key'))"
  proof (rule layer_replace [OF t x _ bn])
    show "kframe s s' (sfoot (Slot b ps (Suffix sf w)))" using fr by simp
    show "prefixLinks ?n2 = map (map_option Val) ps" "keySuffix ?n2 = None" "suffixLink ?n2 = Some (Node (trie_addr t'))"
      using n(2) r(3) by simp_all
    show "trie_ok s' t'" "b \<notin> tfoot t'" by fact+
    show "tfoot t' \<subseteq> lfoot (Suffix sf w) \<union> {kbrk s..<kbrk s'}" using r(5) le by (auto simp: set_bn_def link_def)
    show "tget t' y = after_put (slot_get (Slot b ps (Suffix sf w))) bs (if c then w else v) (if c then {take 8 bs @ sf} else {}) (take 8 bs @ y)"
      if "y \<noteq> []" for y
      using r(6) [OF that] x(2) that by (auto simp: slot_get_def after_put_def)
    show "\<forall>k\<in>if c then {take 8 bs @ sf} else {}. 8 < length k \<and> ks_of k = ks_of bs"
      using x(2) ps(3) by (auto simp: ks_of_take)
    show "\<not> plain bs (Some (Slot b ps (Suffix sf w)))" using ne by simp
    show "numKeys s' = numKeys s + (if slot_get (Slot b ps (Suffix sf w)) bs = None then 1 else 0)"
      using r(7) x(2) ne by (simp add: slot_get_def set_bn_def)
  qed
  then show ?thesis using ex k(1) sl r(1) by (simp add: c_def)
qed

section \<open>The loop\<close>

lemma KSL [simp]: "KEY_SLICE_LENGTH = 8"
  by (simp add: KEY_SLICE_LENGTH_def keyslice_length_def)

lemma slot_tests:
  assumes "srep s (Slot b ps tt)"
  shows "BN_HasSuffix s b = Some (\<exists>sf w. tt = Suffix sf w)"
    and "BN_GetLink s b = Some (case tt of Layer t \<Rightarrow> Some (Node (trie_addr t)) | _ \<Rightarrow> None)"
    and "8 < length bs \<Longrightarrow> BN_TestSuffix s b (kkey bs) = Some (\<exists>w. tt = Suffix (drop 8 bs) w)"
proof -
  obtain n where n: "bns s b = Some n" "tail_node n tt" using assms by auto
  show "BN_HasSuffix s b = Some (\<exists>sf w. tt = Suffix sf w)" using n by (cases tt) (auto simp: BN_HasSuffix_def)
  show "BN_GetLink s b = Some (case tt of Layer t \<Rightarrow> Some (Node (trie_addr t)) | _ \<Rightarrow> None)"
    using n by (cases tt) (auto simp: BN_GetLink_def)
  show "BN_TestSuffix s b (kkey bs) = Some (\<exists>w. tt = Suffix (drop 8 bs) w)" if l: "8 < length bs"
  proof (cases tt)
    case (Suffix sf w)
    have "UTIL_StrEqual (drop 8 bs) (length bs - 8) sf (length sf) = Some (drop 8 bs = sf)"
      using UTIL_StrEqual_iff [of "drop 8 bs" sf] by simp
    then show ?thesis using n Suffix by (auto simp: BN_TestSuffix_def keyslice_length_def)
  qed (use n in \<open>auto simp: BN_TestSuffix_def\<close>)
qed

lemma put_loop_hit:
  assumes t: "trie_ok s (Trie a es)" and x: "map_of es (ks_of bs) = Some (Slot b ps tt)" and bs: "bs \<noteq> []"
    and m: "memok s" and safe: "safe (Trie a es) bs" and len: "length bs < 2 ^ 32"
    and IH: "\<And>s t2. tt = Layer t2 \<Longrightarrow> 8 < length bs \<Longrightarrow> trie_ok s t2 \<Longrightarrow> memok s \<Longrightarrow> kbrk s = K \<Longrightarrow> safe t2 (drop 8 bs) \<Longrightarrow>
      put_res s t2 (drop 8 bs) v {} (put_loop s (trie_addr t2) (kkey (drop 8 bs)) (Some (Val v)) None)"
    and K: "kbrk s = K"
  shows "put_res s (Trie a es) bs v {} (put_loop s a (kkey bs) (Some (Val v)) None)"
proof -
  obtain n1 n2 where n: "node_move s a (ks_of bs) = Some (True, s\<lparr>kvnodes := (kvnodes s)(a \<mapsto> n1)\<rparr>)"
     "node_record (s\<lparr>kvnodes := (kvnodes s)(a \<mapsto> n1)\<rparr>) a = Some (b, s\<lparr>kvnodes := (kvnodes s)(a \<mapsto> n2)\<rparr>)"
     "trie_ok (s\<lparr>kvnodes := (kvnodes s)(a \<mapsto> n2)\<rparr>) (Trie a es)"
    using node_lookup [OF t, of "ks_of bs"] x by auto
  let ?s = "s\<lparr>kvnodes := (kvnodes s)(a \<mapsto> n2)\<rparr>"
  have m': "memok ?s" using m by (simp add: memok_def)
  note d = trie_okD(5) [OF n(3) x]
  note tests = slot_tests [OF conjunct1 [OF d]]
  have "put_res ?s (Trie a es) bs v {} (put_loop s a (kkey bs) (Some (Val v)) None)"
  proof (cases "length bs \<le> 8")
    case True
    show ?thesis using hit_prefix [OF n(3) x bs True, of v "kkey bs"] n(1,2) True
      by (subst put_loop.simps) simp
  next
    case False
    then have l: "8 < length bs" by simp
    show ?thesis
    proof (cases tt)
      case NoTail
      obtain s' where s': "BN_SetSuffixValue ?s b (drop 8 bs) (length bs - 8) (Some (Val v)) = Some s'"
        "put_res ?s (Trie a es) bs v {} (Some (s'\<lparr>numKeys := numKeys ?s + 1\<rparr>, kkey bs))" "numKeys s' = numKeys ?s"
        using hit_suffix [OF n(3) x l m' len, of v "kkey bs"] NoTail by auto
      have "put_loop s a (kkey bs) (Some (Val v)) None = Some (s'\<lparr>numKeys := numKeys s' + 1\<rparr>, kkey bs)"
        using n(1,2) False tests s'(1) NoTail by (subst put_loop.simps) simp
      then show ?thesis using s'(2,3) by simp
    next
      case (Suffix sf w)
      show ?thesis
      proof (cases "sf = drop 8 bs")
        case True
        obtain s' where s': "BN_SetSuffixValue ?s b (drop 8 bs) (length bs - 8) (Some (Val v)) = Some s'"
          "put_res ?s (Trie a es) bs v {} (Some (s'\<lparr>numKeys := numKeys ?s\<rparr>, kkey bs))" "numKeys s' = numKeys ?s"
          using hit_suffix [OF n(3) x l m' len, of v "kkey bs"] Suffix True by auto
        have "put_loop s a (kkey bs) (Some (Val v)) None = Some (s', kkey bs)"
          using n(1,2) False tests(1,2) tests(3) [OF l] s'(1) Suffix True by (subst put_loop.simps) simp
        moreover have "s'\<lparr>numKeys := numKeys ?s\<rparr> = s'" using s'(3) by (cases s') simp
        ultimately show ?thesis using s'(2) by simp
      next
        case differ: False
        have nc: "\<not> clash (drop 8 bs) sf" "length sf < 2 ^ 32" using safe x Suffix differ False by (simp_all add: safe.simps)
        show ?thesis
          using hit_differ [OF n(3) x [unfolded Suffix] l m' differ len nc(2), of v] nc(1) n(1,2) False tests(1,2) tests(3) [OF l]
            Suffix differ by (subst put_loop.simps) (simp add: next_part_kkey)
      qed
    next
      case (Layer t2)
      have sf2: "safe t2 (drop 8 bs)" using safe x Layer False by (simp add: safe.simps)
      have t2: "trie_ok ?s t2" using d Layer trie_okD(6) [OF n(3)] by (auto simp: trie_ok_def)
      have "put_res ?s t2 (drop 8 bs) v {} (put_loop ?s (trie_addr t2) (kkey (drop 8 bs)) (Some (Val v)) None)"
        by (rule IH [OF Layer l t2 m' _ sf2]) (use K in simp)
      then have "put_res ?s (Trie a es) bs v {} (put_loop ?s (trie_addr t2) (kkey (drop 8 bs)) (Some (Val v)) None)"
        using hit_layer [OF n(3) x [unfolded Layer] l] by blast
      moreover have "put_loop s a (kkey bs) (Some (Val v)) None =
          put_loop ?s (trie_addr t2) (kkey (drop 8 bs)) (Some (Val v)) None"
        using n(1,2) False tests Layer by (subst put_loop.simps) (simp add: next_part_kkey node_addr_def)
      ultimately show ?thesis by simp
    qed
  qed
  then show ?thesis by (rule put_res_node) simp
qed

lemma new_slot_cases:
  obtains ps tt where "new_slot b bs v = Slot b ps tt" "\<And>t. tt \<noteq> Layer t"
    "\<And>sf w. tt = Suffix sf w \<Longrightarrow> sf = drop 8 bs"
  by (cases "length bs \<le> 8") (auto simp: new_slot_def intro: that)

text \<open>A slice that is absent: the loop puts a new border node and runs once more, which changes nothing.\<close>

lemma put_loop_miss:
  assumes t: "trie_ok s (Trie a es)" and x: "map_of es (ks_of bs) = None" and bs: "bs \<noteq> []"
    and m: "memok s" and K: "kbrk s < capacity" and len32: "length bs < 2 ^ 32"
  shows "put_res s (Trie a es) bs v {} (put_loop s a (kkey bs) (Some (Val v)) None)"
proof -
  let ?k = "ks_of bs"
  obtain n1 where n: "node_move s a ?k = Some (False, s\<lparr>kvnodes := (kvnodes s)(a \<mapsto> n1)\<rparr>)"
     "trie_ok (s\<lparr>kvnodes := (kvnodes s)(a \<mapsto> n1)\<rparr>) (Trie a es)"
    using node_lookup [OF t, of ?k] x by auto
  let ?s = "s\<lparr>kvnodes := (kvnodes s)(a \<mapsto> n1)\<rparr>"
  have m': "memok ?s" using m by (simp add: memok_def)
  have len: "length es < capacity"
    using length_entries_less [of a es "kbrk s"] t K unfolding trie_ok_def by simp
  let ?x = "new_slot (kbrk ?s) bs v"
  let ?es = "ins_list ?k ?x es"
  obtain s1 s2 s3 where s3: "BN_NewBorderNode ?s = Some (kbrk ?s, s1)"
     "BN_SetValue s1 (kbrk ?s) (kkey bs) (Some (Val v)) = Some s2" "node_put s2 a ?k (kbrk ?s) = Some s3"
     "trie_ok s3 (Trie a ?es)" "tfoot (Trie a ?es) \<subseteq> tfoot (Trie a es) \<union> {kbrk ?s..<kbrk s3}"
     "kframe ?s s3 {a}" "kbrk ?s < kbrk s3" "numKeys s3 = numKeys ?s"
    using insert_new [OF n(2) m' x len bs len32, of v] by blast
  let ?s3 = "s3\<lparr>numKeys := numKeys s3 + 1\<rparr>"
  have t3: "trie_ok ?s3 (Trie a ?es)" using s3(4) unfolding trie_ok_def by simp
  define b where "b = kbrk ?s"
  obtain ps tt where sl: "new_slot b bs v = Slot b ps tt" "\<And>t'. tt \<noteq> Layer t'" "\<And>sf w. tt = Suffix sf w \<Longrightarrow> sf = drop 8 bs"
    using new_slot_cases [of b bs v] by metis
  have es: "strict_sorted (keys_of es)" by (rule trie_okD(2) [OF t])
  have x3: "map_of ?es ?k = Some (Slot b ps tt)" using sl(1) by (simp add: map_of_ins_list [OF es] b_def)
  have safe: "safe (Trie a ?es) bs" using x3 sl(2,3) by (cases tt) (auto simp: safe.simps)
  have "put_res ?s3 (Trie a ?es) bs v {} (put_loop ?s3 a (kkey bs) (Some (Val v)) None)"
    by (rule put_loop_hit [OF t3 x3 bs _ safe len32 _ refl]) (use kframe_memok [OF s3(6) m'] sl(2) in auto)
  then obtain s' t' key' where r: "put_loop ?s3 a (kkey bs) (Some (Val v)) None = Some (s', key')"
    "trie_ok s' t'" "trie_addr t' = a" "kframe ?s3 s' (tfoot (Trie a ?es))"
    "tfoot t' \<subseteq> tfoot (Trie a ?es) \<union> {kbrk ?s3..<kbrk s'}"
    "\<And>y. y \<noteq> [] \<Longrightarrow> tget t' y = after_put (tget (Trie a ?es)) bs v {} y"
    "8 < length bs \<Longrightarrow> plain bs (map_of ?es ?k) \<Longrightarrow> suffix_slot bs v (map_of (entries_of t') ?k)"
    "numKeys s' = numKeys ?s3 + (if tget (Trie a ?es) bs = None then 1 else 0)"
    unfolding put_res_def by auto
  have get: "tget (Trie a ?es) y = (if y = bs then Some v else tget (Trie a es) y)" if "y \<noteq> []" for y
    using that x bs new_slot_get [OF bs that, of "kbrk ?s" v]
    by (cases "ks_of y = ?k") (auto simp: tget_ins [OF es] tget_slot [of a es])
  have gb: "tget (Trie a es) bs = None" using x by (simp add: tget_slot)
  have "put_loop s a (kkey bs) (Some (Val v)) None = Some (s', key')"
    using n(1) s3(1-3) r(1) by (subst put_loop.simps) simp
  moreover have le: "kbrk s3 \<le> kbrk s'" using r(4) by (simp add: kframe_def)
  moreover have "kframe ?s s' (tfoot (Trie a es))"
  proof (rule kframe_trans)
    show "kframe ?s ?s3 (tfoot (Trie a es))" using kframe_mono [OF s3(6)] by simp
    show "kframe ?s3 s' (tfoot (Trie a ?es))" by (rule r(4))
  qed (use s3(5) in simp)
  moreover have "tfoot t' \<subseteq> tfoot (Trie a es) \<union> {kbrk ?s..<kbrk s'}" using r(5) s3(5,7) le by fastforce
  moreover have "numKeys s' = numKeys ?s + 1" using r(8) s3(8) get [OF bs] by simp
  moreover have "plain bs (map_of ?es ?k)" if "8 < length bs" using that x3 sl by (cases tt) auto
  ultimately have "put_res ?s (Trie a es) bs v {} (put_loop s a (kkey bs) (Some (Val v)) None)"
    unfolding put_res_def using r(2,3,6,7) get gb
    by (intro exI [of _ s'] exI [of _ t'] exI [of _ key']) (simp del: tfoot.simps)
  then show ?thesis by (rule put_res_node) simp
qed

theorem put_loop_ok:
  assumes "trie_ok s t" "memok s" "kbrk s < capacity" "bs \<noteq> []" "safe t bs" "length bs < 2 ^ 32"
  shows "put_res s t bs v {} (put_loop s (trie_addr t) (kkey bs) (Some (Val v)) None)"
  using assms
proof (induction "length bs" arbitrary: bs s t rule: less_induct)
  case less
  obtain a es where t: "t = Trie a es" by (cases t)
  show ?case
  proof (cases "map_of es (ks_of bs)")
    case None
    then show ?thesis using put_loop_miss less.prems t by simp
  next
    case (Some x)
    obtain b ps tt where x: "x = Slot b ps tt" by (cases x)
    have "put_res s (Trie a es) bs v {} (put_loop s a (kkey bs) (Some (Val v)) None)"
    proof (rule put_loop_hit [OF _ Some [unfolded x] less.prems(4,2) _ less.prems(6) _ refl])
      show "trie_ok s (Trie a es)" "safe (Trie a es) bs" using less.prems t by auto
      fix s' :: "'a KVStore" and t2
      assume a: "8 < length bs" "trie_ok s' t2" "memok s'" "kbrk s' = kbrk s" "safe t2 (drop 8 bs)"
      show "put_res s' t2 (drop 8 bs) v {} (put_loop s' (trie_addr t2) (kkey (drop 8 bs)) (Some (Val v)) None)"
        by (rule less.hyps) (use a less.prems(3,6) in auto)
    qed
    then show ?thesis using t by simp
  qed
qed

text \<open>A clash with a stored suffix: the new key gets the value of the stored one, which is lost.\<close>

lemma put_loop_clash:
  assumes t: "trie_ok s (Trie a es)" and x: "map_of es (ks_of bs) = Some (Slot b ps (Suffix sf w))"
    and l: "8 < length bs" "length bs < 2 ^ 32" "length sf < 2 ^ 32" and m: "memok s"
    and cl: "sf \<noteq> drop 8 bs" "clash (drop 8 bs) sf"
  shows "put_res s (Trie a es) bs w {take 8 bs @ sf} (put_loop s a (kkey bs) (Some (Val v)) None)"
proof -
  obtain n1 n2 where n: "node_move s a (ks_of bs) = Some (True, s\<lparr>kvnodes := (kvnodes s)(a \<mapsto> n1)\<rparr>)"
     "node_record (s\<lparr>kvnodes := (kvnodes s)(a \<mapsto> n1)\<rparr>) a = Some (b, s\<lparr>kvnodes := (kvnodes s)(a \<mapsto> n2)\<rparr>)"
     "trie_ok (s\<lparr>kvnodes := (kvnodes s)(a \<mapsto> n2)\<rparr>) (Trie a es)"
    using node_lookup [OF t, of "ks_of bs"] x by auto
  let ?s = "s\<lparr>kvnodes := (kvnodes s)(a \<mapsto> n2)\<rparr>"
  have m': "memok ?s" using m by (simp add: memok_def)
  note tests = slot_tests [OF conjunct1 [OF trie_okD(5) [OF n(3) x]]]
  have "put_res ?s (Trie a es) bs w {take 8 bs @ sf} (put_loop s a (kkey bs) (Some (Val v)) None)"
    using hit_differ [OF n(3) x l(1) m' cl(1) l(2,3), of v] cl n(1,2) l(1) tests(1,2) tests(3) [OF l(1)]
    by (subst put_loop.simps) (simp add: next_part_kkey)
  then show ?thesis by (rule put_res_node) simp
qed

section \<open>Get\<close>

lemma BN_GetPrefixValue_rep:
  assumes "srep s (Slot b ps tt)" "length ps = 8" "bs \<noteq> []" "length bs \<le> 8"
  shows "BN_GetPrefixValue s b (length bs) = Some (map_option Val (slot_get (Slot b ps tt) bs))"
proof -
  obtain n where n: "bns s b = Some n" "prefixLinks n = map (map_option Val) ps" by (rule slot_ops [OF assms(1)])
  have "int (length bs) - 1 = int (length bs - 1)" "0 < length bs" using assms(3) by (cases bs; simp)+
  then show ?thesis using n assms
    by (simp add: BN_GetPrefixValue_def MAX_BN_SIZE_def keyslice_length_def slot_get_def del: of_nat_diff)
qed

lemma BN_GetSuffixValue_rep:
  assumes "srep s (Slot b ps (Suffix sf w))" "8 < length bs"
  shows "BN_GetSuffixValue s b (drop 8 bs) (length bs - 8) =
    Some (map_option Val (slot_get (Slot b ps (Suffix sf w)) bs))"
proof -
  obtain n where n: "bns s b = Some n" "tail_node n (Suffix sf w)" by (rule slot_ops [OF assms(1)])
  have "UTIL_StrEqual (drop 8 bs) (length bs - 8) sf (length sf) = Some (drop 8 bs = sf)"
    using UTIL_StrEqual_iff [of "drop 8 bs" sf] by simp
  then show ?thesis using n assms(2) by (simp add: BN_GetSuffixValue_def slot_get_def)
qed

definition get_res :: "'v KVStore \<Rightarrow> 'v trie \<Rightarrow> byte list \<Rightarrow> ('v vptr \<times> 'v KVStore) option \<Rightarrow> bool" where
  "get_res s t bs r \<longleftrightarrow>
     (\<exists>s'. r = Some (map_option Val (tget t bs), s') \<and> trie_ok s' t \<and> kframe s s' (tfoot t) \<and>
        kbrk s' = kbrk s \<and> numKeys s' = numKeys s)"

lemma get_res_node:
  assumes "get_res (s\<lparr>kvnodes := (kvnodes s)(a \<mapsto> n)\<rparr>) t bs r" "a \<in> tfoot t"
  shows "get_res s t bs r"
proof -
  let ?s = "s\<lparr>kvnodes := (kvnodes s)(a \<mapsto> n)\<rparr>"
  have "kframe s s' (tfoot t)" if "kframe ?s s' (tfoot t)" for s'
    by (rule kframe_trans [OF _ that]) (use assms(2) in \<open>auto simp: kframe_def\<close>)
  moreover have "kbrk ?s = kbrk s" "numKeys ?s = numKeys s" by simp_all
  ultimately show ?thesis using assms(1) unfolding get_res_def by metis
qed

lemma get_layer:
  assumes t: "trie_ok s (Trie a es)" and x: "map_of es (ks_of bs) = Some (Slot b ps (Layer t2))" "8 < length bs"
    and IH: "get_res s t2 (drop 8 bs) r"
  shows "get_res s (Trie a es) bs r"
proof -
  obtain s' where s': "r = Some (map_option Val (tget t2 (drop 8 bs)), s')" "trie_ok s' t2" "kframe s s' (tfoot t2)"
    "kbrk s' = kbrk s" "numKeys s' = numKeys s" using IH by (auto simp: get_res_def)
  let ?x = "Slot b ps (Layer t2)"
  note d = trie_okD(5) [OF t x(1)]
  have es: "strict_sorted (keys_of es)" by (rule trie_okD(2) [OF t])
  obtain n where n: "bns s b = Some n" "prefixLinks n = map (map_option Val) ps" "tail_node n (Layer t2)"
    by (rule slot_ops [OF conjunct1 [OF d]])
  have b: "b < kbrk s" "b \<notin> tfoot t2" using d trie_okD(6) [OF t] by auto
  have "bns s' b = Some n" using s'(3) b n(1) by (simp add: kframe_def)
  then have rep: "srep s' ?x" using n(2,3) s'(2) by (simp add: trie_ok_def)
  have fr: "kframe s s' (sfoot ?x)" by (rule kframe_mono [OF s'(3)]) auto
  have ok: "trie_ok s' (Trie a (ins_list (ks_of bs) ?x es))" "kframe s s' (tfoot (Trie a es))"
    by (rule slot_update [OF t x(1) fr rep]; use d in auto)+
  have "ins_list (ks_of bs) ?x es = es" by (rule ins_list_same [OF es x(1)])
  moreover have "tget (Trie a es) bs = tget t2 (drop 8 bs)" using x by (simp add: tget_slot slot_get_def)
  ultimately show ?thesis using ok s' by (simp add: get_res_def del: tfoot.simps)
qed

theorem getValueOfPartialKey_ok:
  assumes "trie_ok s t" "bs \<noteq> []"
  shows "get_res s t bs (getValueOfPartialKey s (trie_addr t) bs (length bs))"
  using assms
proof (induction "length bs" arbitrary: bs s t rule: less_induct)
  case less
  obtain a es where t: "t = Trie a es" by (cases t)
  have ok: "trie_ok s (Trie a es)" using less.prems(1) t by simp
  obtain n1 where n1: "node_move s a (ks_of bs) = Some (map_of es (ks_of bs) \<noteq> None, s\<lparr>kvnodes := (kvnodes s)(a \<mapsto> n1)\<rparr>)"
    "trie_ok (s\<lparr>kvnodes := (kvnodes s)(a \<mapsto> n1)\<rparr>) (Trie a es)"
    "\<And>x. map_of es (ks_of bs) = Some x \<Longrightarrow>
        \<exists>n'. node_record (s\<lparr>kvnodes := (kvnodes s)(a \<mapsto> n1)\<rparr>) a = Some (slot_addr x, s\<lparr>kvnodes := (kvnodes s)(a \<mapsto> n')\<rparr>) \<and>
              trie_ok (s\<lparr>kvnodes := (kvnodes s)(a \<mapsto> n')\<rparr>) (Trie a es)"
    using node_lookup [OF ok, of "ks_of bs"] by blast
  have self: "get_res s0 (Trie a es) bs (Some (map_option Val (tget (Trie a es) bs), s0))"
    if "trie_ok s0 (Trie a es)" for s0 using that by (simp add: get_res_def del: tfoot.simps)
  show ?case
  proof (cases "map_of es (ks_of bs)")
    case None
    have "getValueOfPartialKey s a bs (length bs) = Some (map_option Val (tget (Trie a es) bs), s\<lparr>kvnodes := (kvnodes s)(a \<mapsto> n1)\<rparr>)"
      using None n1(1) by (subst getValueOfPartialKey.simps) (simp add: key_slice_ks [simplified] tget_slot)
    then show ?thesis using get_res_node [OF self [OF n1(2)]] t by simp
  next
    case (Some x)
    obtain b ps tt where x: "x = Slot b ps tt" by (cases x)
    obtain n2 where n2: "node_record (s\<lparr>kvnodes := (kvnodes s)(a \<mapsto> n1)\<rparr>) a = Some (b, s\<lparr>kvnodes := (kvnodes s)(a \<mapsto> n2)\<rparr>)"
      "trie_ok (s\<lparr>kvnodes := (kvnodes s)(a \<mapsto> n2)\<rparr>) (Trie a es)" using n1(3) [OF Some] x by auto
    let ?s = "s\<lparr>kvnodes := (kvnodes s)(a \<mapsto> n2)\<rparr>"
    note d = trie_okD(5) [OF n2(2) Some [unfolded x]]
    note tests = slot_tests(1,2) [OF conjunct1 [OF d]]
    have get: "tget (Trie a es) bs = slot_get (Slot b ps tt) bs" using Some x by (simp add: tget_slot)
    have step: "getValueOfPartialKey s a bs (length bs) = (
       if length bs \<le> 8 then do { v \<leftarrow> BN_GetPrefixValue ?s b (length bs); Some (v, ?s) }
       else (case tt of
         NoTail \<Rightarrow> Some (None, ?s)
       | Suffix sf w \<Rightarrow> do { v \<leftarrow> BN_GetSuffixValue ?s b (drop 8 bs) (length bs - 8); Some (v, ?s) }
       | Layer t2 \<Rightarrow> getValueOfPartialKey ?s (trie_addr t2) (drop 8 bs) (length bs - 8)))"
      using n1(1) n2(1) Some tests
      by (subst getValueOfPartialKey.simps) (cases tt; simp add: key_slice_ks [simplified] node_addr_def)
    have "get_res ?s (Trie a es) bs (getValueOfPartialKey s a bs (length bs))"
    proof (cases "length bs \<le> 8")
      case True
      have "BN_GetPrefixValue ?s b (length bs) = Some (map_option Val (slot_get (Slot b ps tt) bs))"
        by (rule BN_GetPrefixValue_rep) (use d less.prems True in auto)
      then show ?thesis using step True self [OF n2(2)] get by simp
    next
      case False
      show ?thesis
      proof (cases tt)
        case NoTail
        then show ?thesis using step False self [OF n2(2)] get by (simp add: slot_get_def)
      next
        case (Suffix sf w)
        have "BN_GetSuffixValue ?s b (drop 8 bs) (length bs - 8) = Some (map_option Val (slot_get (Slot b ps tt) bs))"
          unfolding Suffix by (rule BN_GetSuffixValue_rep) (use d False Suffix in auto)
        then show ?thesis using step False self [OF n2(2)] get Suffix by simp
      next
        case (Layer t2)
        have t2: "trie_ok ?s t2" using d Layer trie_okD(6) [OF n2(2)] by (auto simp: trie_ok_def)
        have "get_res ?s t2 (drop 8 bs) (getValueOfPartialKey ?s (trie_addr t2) (drop 8 bs) (length (drop 8 bs)))"
          by (rule less.hyps) (use t2 False in auto)
        then have "get_res ?s (Trie a es) bs (getValueOfPartialKey ?s (trie_addr t2) (drop 8 bs) (length bs - 8))"
          using get_layer [OF n2(2), of bs b ps t2] Some x Layer False by simp
        then show ?thesis using step False Layer by simp
      qed
    qed
    then show ?thesis using get_res_node [of s a n2 "Trie a es" bs] t by simp
  qed
qed

section \<open>The store\<close>

text \<open>The store holds a map from the non-empty byte strings to values.\<close>

definition store_holds :: "'v KVStore \<Rightarrow> (byte list \<Rightarrow> 'v option) \<Rightarrow> bool" where
  "store_holds s m \<longleftrightarrow> memok s \<and>
     (\<exists>t. rootNode s = Some (trie_addr t) \<and> trie_ok s t \<and> (\<forall>y. y \<noteq> [] \<longrightarrow> tget t y = m y))"

lemma KV_Get_holds:
  assumes "store_holds s m" "bs \<noteq> []"
  shows "\<exists>s'. KV_Get s (Some (kkey bs)) = Some (map_option Val (m bs), s') \<and> store_holds s' m \<and>
    kbrk s' = kbrk s \<and> numKeys s' = numKeys s"
proof -
  obtain t where t: "memok s" "rootNode s = Some (trie_addr t)" "trie_ok s t" "\<And>y. y \<noteq> [] \<Longrightarrow> tget t y = m y"
    using assms(1) by (auto simp: store_holds_def)
  obtain s' where s': "getValueOfPartialKey s (trie_addr t) bs (length bs) = Some (map_option Val (tget t bs), s')"
    "trie_ok s' t" "kframe s s' (tfoot t)" "kbrk s' = kbrk s" "numKeys s' = numKeys s"
    using getValueOfPartialKey_ok [OF t(3) assms(2)] by (auto simp: get_res_def)
  have "store_holds s' m" using t s'(2,3) kframe_memok [OF s'(3) t(1)] by (auto simp: store_holds_def kframe_def)
  then show ?thesis using s' t(2) t(4) [OF assms(2)] by (simp add: KV_Get_def)
qed

lemma KV_Put_holds:
  assumes "store_holds s m" "bs \<noteq> []" "kbrk s < capacity" "length bs < 2 ^ 32"
    and "\<And>k'. m k' \<noteq> None \<Longrightarrow> k' \<noteq> bs \<Longrightarrow> k' \<noteq> [] \<Longrightarrow> \<not> collide bs k' \<and> length k' < 2 ^ 32"
  shows "\<exists>s' key'. KV_Put s (Some (kkey bs)) (Some v) = Some (True, s', key') \<and> store_holds s' (m(bs \<mapsto> v)) \<and>
    numKeys s' = numKeys s + (if m bs = None then 1 else 0)"
proof -
  obtain t where t: "memok s" "rootNode s = Some (trie_addr t)" "trie_ok s t" "\<And>y. y \<noteq> [] \<Longrightarrow> tget t y = m y"
    using assms(1) by (auto simp: store_holds_def)
  have "lsep (Layer t)" using t(3) by (simp add: trie_ok_def)
  then have safe: "safe t bs" using safe_no_collision [of t bs] assms(5) t(4) by metis
  obtain s' t' key' where r: "put_loop s (trie_addr t) (kkey bs) (Some (Val v)) None = Some (s', key')"
    "trie_ok s' t'" "trie_addr t' = trie_addr t" "kframe s s' (tfoot t)"
    "\<And>y. y \<noteq> [] \<Longrightarrow> tget t' y = after_put (tget t) bs v {} y"
    "numKeys s' = numKeys s + (if tget t bs = None then 1 else 0)"
    using put_loop_ok [OF t(3,1) assms(3,2) safe assms(4), of v] unfolding put_res_def by blast
  have "store_holds s' (m(bs \<mapsto> v))"
    unfolding store_holds_def using t(2,4) r(2-5) kframe_memok [OF r(4) t(1)]
    by (intro conjI exI [of _ t']) (auto simp: kframe_def)
  moreover have "KV_Put s (Some (kkey bs)) (Some v) = Some (True, s', key')"
    using r(1) t(2) by (simp add: KV_Put_def kkey_def)
  ultimately show ?thesis using r(6) t(4) [OF assms(2)] by simp
qed

text \<open>The root has no border node for the first slice of the key.\<close>

definition slice_free :: "'v KVStore \<Rightarrow> byte list \<Rightarrow> bool" where
  "slice_free s k \<longleftrightarrow> (\<exists>root s'. rootNode s = Some root \<and> node_move s root (ks_of k) = Some (False, s'))"

lemma collide_slice:
  assumes "collide bs k"
  shows "8 < length bs" "8 < length k" "ks_of bs = ks_of k" "take 8 bs = take 8 k" "clash (drop 8 bs) (drop 8 k)"
  using assms by (simp_all add: collide_def ks_of_def)

text \<open>Two puts of colliding keys, the first of which found no border node.\<close>

lemma KV_Put_collides:
  assumes "store_holds s m" "kbrk s < capacity" "slice_free s k1" "collide k2 k1" "k1 \<noteq> k2" "length k1 < 2 ^ 32" "length k2 < 2 ^ 32"
  shows "\<exists>s1 key1 s2 key2. KV_Put s (Some (kkey k1)) (Some w) = Some (True, s1, key1) \<and> store_holds s1 (m(k1 \<mapsto> w)) \<and>
    KV_Put s1 (Some (kkey k2)) (Some v) = Some (True, s2, key2) \<and> store_holds s2 (m(k2 \<mapsto> w, k1 := None)) \<and>
    numKeys s2 = numKeys s + 2"
proof -
  note c = collide_slice [OF assms(4)]
  have ne: "k1 \<noteq> []" "k2 \<noteq> []" using c by auto
  obtain t where t: "memok s" "rootNode s = Some (trie_addr t)" "trie_ok s t" "\<And>y. y \<noteq> [] \<Longrightarrow> tget t y = m y"
    using assms(1) by (auto simp: store_holds_def)
  obtain a es where te: "t = Trie a es" by (cases t)
  have none: "map_of es (ks_of k1) = None"
    using assms(3) t(2) node_lookup [OF t(3) [unfolded te], of "ks_of k1"] te by (auto simp: slice_free_def)
  then have mnone: "m k1 = None" "m k2 = None"
    using t(4) [OF ne(1)] t(4) [OF ne(2)] c(3) te by (simp_all add: tget_slot)
  obtain s1 t1 key1 where r1: "put_loop s a (kkey k1) (Some (Val w)) None = Some (s1, key1)"
    "trie_ok s1 t1" "trie_addr t1 = a" "kframe s s1 (tfoot t)"
    "\<And>y. y \<noteq> [] \<Longrightarrow> tget t1 y = after_put (tget t) k1 w {} y"
    "suffix_slot k1 w (map_of (entries_of t1) (ks_of k1))" "numKeys s1 = numKeys s + 1"
    using put_loop_miss [OF t(3) [unfolded te] none ne(1) t(1) assms(2,6), of w] none c(2) te
    unfolding put_res_def by (auto simp: tget_slot)
  have m1: "memok s1" by (rule kframe_memok [OF r1(4) t(1)])
  have root1: "rootNode s1 = Some a" using r1(4) t(2) te by (simp add: kframe_def)
  have held1: "tget t1 y = (m(k1 \<mapsto> w)) y" if "y \<noteq> []" for y using r1(5) [OF that] t(4) [OF that] by simp
  obtain es1 where t1: "t1 = Trie a es1" using r1(3) by (cases t1) simp
  obtain b ps where x: "map_of es1 (ks_of k2) = Some (Slot b ps (Suffix (drop 8 k1) w))"
    using r1(6) c(3) t1 by (auto simp: suffix_slot_def)
  have dne: "drop 8 k1 \<noteq> drop 8 k2" using assms(5) c(4) by (metis append_take_drop_id)
  have lost: "take 8 k2 @ drop 8 k1 = k1" using c(4) by (metis append_take_drop_id)
  have get2: "tget t1 k2 = None" using held1 [OF ne(2)] assms(5) mnone(2) by simp
  have l1: "length (drop 8 k1) < 2 ^ 32" using assms(6) by simp
  obtain s2 t2 key2 where r2: "put_loop s1 a (kkey k2) (Some (Val v)) None = Some (s2, key2)"
    "trie_ok s2 t2" "trie_addr t2 = a" "kframe s1 s2 (tfoot t1)"
    "\<And>y. y \<noteq> [] \<Longrightarrow> tget t2 y = after_put (tget t1) k2 w {k1} y" "numKeys s2 = numKeys s1 + 1"
    using put_loop_clash [OF r1(2) [unfolded t1] x c(1) assms(7) l1 m1 dne c(5), of v] get2
    unfolding put_res_def lost t1 by auto
  have "tget t2 y = (m(k2 \<mapsto> w, k1 := None)) y" if "y \<noteq> []" for y
    using r2(5) [OF that] held1 [OF that] assms(5) by (auto simp: after_put_def)
  then have "store_holds s2 (m(k2 \<mapsto> w, k1 := None))"
    unfolding store_holds_def using r2(2-4) root1 kframe_memok [OF r2(4) m1]
    by (intro conjI exI [of _ t2]) (auto simp: kframe_def)
  moreover have "store_holds s1 (m(k1 \<mapsto> w))"
    unfolding store_holds_def using r1(2,3) root1 m1 held1 by (intro conjI exI [of _ t1]) auto
  moreover have "KV_Put s (Some (kkey k1)) (Some w) = Some (True, s1, key1)"
    using r1(1) t(2) te by (simp add: KV_Put_def kkey_def)
  moreover have "KV_Put s1 (Some (kkey k2)) (Some v) = Some (True, s2, key2)"
    using r2(1) root1 by (simp add: KV_Put_def kkey_def)
  ultimately show ?thesis using r1(7) r2(6) by (auto simp: add.assoc)
qed

lemma KV_NewKVStore_holds:
  assumes "\<forall>n. ok n" "\<forall>a n. rok a n"
  shows "\<exists>s :: 'v KVStore. KV_NewKVStore ok rok = Some (Some s) \<and> store_holds s Map.empty \<and> kbrk s = 2 \<and> KV_NumKeys s = 0 \<and>
    (\<forall>k. slice_free s k)"
proof -
  let ?s = "\<lparr>bns = Map.empty, kvnodes = Map.empty, kbrk = 1, kmem = ok, rmem = rok, rootNode = None, numKeys = 0\<rparr> :: 'v KVStore"
  have "memok ?s" using assms by (simp add: memok_def)
  then obtain n where n: "newKVNode ?s = Some (Some 1, ?s\<lparr>kbrk := 2, kvnodes := [1 \<mapsto> n]\<rparr>)"
    "cursor_at (tree n) (ncursor n) [] 0" using newKVNode_ok [of ?s] by (auto simp: numeral_2_eq_2)
  let ?r = "?s\<lparr>kbrk := 2, kvnodes := [1 \<mapsto> n], rootNode := Some 1, numKeys := 0\<rparr>"
  have "KV_NewKVStore ok rok = Some (Some ?r)"
    using assms n(1) by (simp add: KV_NewKVStore_def malloc_def Let_def)
  moreover have t: "trie_ok ?r (Trie 1 [])" by (rule fresh_trie [OF n(2)]) simp_all
  then have "store_holds ?r Map.empty"
    using assms by (auto simp: store_holds_def memok_def intro!: exI [of _ "Trie 1 []"])
  moreover have "\<forall>k. slice_free ?r k"
  proof
    show "slice_free ?r k" for k using node_lookup [OF t, of "ks_of k"] by (auto simp: slice_free_def)
  qed
  ultimately show ?thesis by (simp add: KV_NumKeys_def)
qed

end
