(* ===== verification/BTree2_Model.thy ===== *)
theory BTree2_Model
  imports BTree_Model
begin

text \<open>
  The second version of the B+-tree, \<^verbatim>\<open>verif/btrees/relation_mem.c\<close> (\<^verbatim>\<open>verif/indices/client\<close> holds the same
  file). The structs are those of the first version, with the fields \<^verbatim>\<open>First\<close> and \<^verbatim>\<open>Last\<close> for
  \<open>FirstLeaf\<close> and \<open>LastLeaf\<close>, and so are \<^verbatim>\<open>entryIndex\<close>, \<^verbatim>\<open>currNode\<close>, \<^verbatim>\<open>isValid\<close>, \<^verbatim>\<open>isFirst\<close>,
  \<^verbatim>\<open>findRecordIndex\<close>, \<^verbatim>\<open>moveToFirst\<close>, \<^verbatim>\<open>lastpointer\<close>, \<^verbatim>\<open>firstpointer\<close> with the loops that ascend,
  \<^verbatim>\<open>RL_CursorIsValid\<close>, \<^verbatim>\<open>RL_MoveToFirst\<close>, \<^verbatim>\<open>RL_IsEmpty\<close> and \<^verbatim>\<open>RL_NumRecords\<close>, which are used from
  \<^theory_text>\<open>BTree_Model\<close>. The functions whose code differs, and those that call them, are modelled
  here under the source's names with the suffix \<open>2\<close>.
\<close>

definition MIDDLE :: nat where
  "MIDDLE = (FANOUT + 1) div 2"

section \<open>Creating relations and cursors\<close>

text \<open>\<^verbatim>\<open>surely_malloc\<close> exits where \<^verbatim>\<open>malloc\<close> fails.\<close>

definition surely_malloc2 :: "'r Relation \<Rightarrow> (addr \<times> 'r Relation) option" where
  "surely_malloc2 s = (if avail s (brk s) then Some (brk s, s\<lparr>brk := Suc (brk s)\<rparr>) else None)"

definition createNewNode2 :: "'r Relation \<Rightarrow> bool \<Rightarrow> bool \<Rightarrow> bool \<Rightarrow> (addr \<times> 'r Relation) option" where
  "createNewNode2 s leaf fst_leaf lst_leaf = do {
     (a, s) \<leftarrow> surely_malloc2 s;
     Some (a, set_node s a \<lparr>isLeaf = leaf, FirstLeaf = fst_leaf, LastLeaf = lst_leaf, numKeys = 0,
                            ptr0 = None, entries = replicate FANOUT None\<rparr>) }"

definition RL_NewRelation2 :: "(addr \<Rightarrow> bool) \<Rightarrow> 'r Relation option" where
  "RL_NewRelation2 ok = do {
     let s = \<lparr>nodes = Map.empty, brk = 0, avail = ok, root = None, numRecords = 0, depth = 0\<rparr>;
     (pRootNode, s) \<leftarrow> createNewNode2 s True True True;
     (pNewRelation, s) \<leftarrow> surely_malloc2 s;
     Some (s\<lparr>root := Some pRootNode, numRecords := 0, depth := 0\<rparr>) }"

text \<open>The arrays of the fresh cursor are not cleared: \<open>is\<close> and \<open>as\<close> are what \<^verbatim>\<open>malloc\<close> left there.\<close>

definition RL_NewCursor2 :: "int list \<Rightarrow> cptr list \<Rightarrow> 'r Relation \<Rightarrow> (Cursor \<times> 'r Relation) option" where
  "RL_NewCursor2 is as s = do {
     (a, s) \<leftarrow> surely_malloc2 s;
     c \<leftarrow> moveToFirst s (root s) \<lparr>level = -1, ancestorsIdx = is, ancestors = as\<rparr> 0;
     Some (c, s) }"

section \<open>Moving to a key\<close>

function findChildIndex2_loop :: "'r BtNode \<Rightarrow> Key \<Rightarrow> nat \<Rightarrow> int option" where
  "findChildIndex2_loop n k i =
     (if i < numKeys n then do {
        e \<leftarrow> entry_at n (int i);
        if k < ekey e then Some (int i - 1)
        else findChildIndex2_loop n k (Suc i) }
      else Some (int (numKeys n) - 1))"
  by pat_completeness auto
termination
  by (relation "measure (\<lambda>(n, k, i). numKeys n - i)") auto

declare findChildIndex2_loop.simps [simp del]

definition findChildIndex2 :: "'r BtNode \<Rightarrow> Key \<Rightarrow> int option" where
  "findChildIndex2 n k = do { assert_c (numKeys n > 0); findChildIndex2_loop n k 0 }"

text \<open>This version sets the level of the cursor at every node on the way down.\<close>

function moveToKey2 :: "'r Relation \<Rightarrow> cptr \<Rightarrow> Key \<Rightarrow> Cursor \<Rightarrow> int \<Rightarrow> Cursor option" where
  "moveToKey2 s p k c l =
     (if 0 \<le> l \<and> l < int MAX_TREE_DEPTH then do {
        c \<leftarrow> set_ancestor c l p;
        let c = c\<lparr>level := l\<rparr>;
        n \<leftarrow> node_at s p;
        if isLeaf n then do {
          i \<leftarrow> findRecordIndex n k;
          set_index c l i }
        else do {
          i \<leftarrow> findChildIndex2 n k;
          c \<leftarrow> set_index c l i;
          child \<leftarrow> (if i = -1 then Some (ptr0 n)
                     else do { e \<leftarrow> entry_at n i; a \<leftarrow> child_of e; Some (Some a) });
          moveToKey2 s child k c (l + 1) } }
      else None)"
  by pat_completeness auto
termination
  by (relation "measure (\<lambda>(s, p, k, c, l). nat (int MAX_TREE_DEPTH - l))") auto

declare moveToKey2.simps [simp del]

definition isNodeParent2 :: "'r BtNode \<Rightarrow> Key \<Rightarrow> bool option" where
  "isNodeParent2 n k =
     (if isLeaf n then
        if numKeys n = 0 then Some True
        else do {
          lowest \<leftarrow> entry_at n 0;
          highest \<leftarrow> entry_at n (int (numKeys n) - 1);
          if (k \<ge> ekey lowest \<or> FirstLeaf n) \<and> (k \<le> ekey highest \<or> LastLeaf n)
          then Some True else Some False }
      else do {
        idx \<leftarrow> findChildIndex2 n k;
        if idx = -1 \<or> idx = int (numKeys n) - 1 then Some False else Some True })"

function AscendToParent2 :: "'r Relation \<Rightarrow> Cursor \<Rightarrow> Key \<Rightarrow> Cursor option" where
  "AscendToParent2 s c k =
     (if level c = 0 then Some c
      else if level c < 0 then None
      else do {
        n \<leftarrow> node_at s (currNode c);
        b \<leftarrow> isNodeParent2 n k;
        if b then Some c else AscendToParent2 s (c\<lparr>level := level c - 1\<rparr>) k })"
  by pat_completeness auto
termination
  by (relation "measure (\<lambda>(s, c, k). nat (level c))") auto

declare AscendToParent2.simps [simp del]

definition goToKey2 :: "'r Relation \<Rightarrow> Cursor \<Rightarrow> Key \<Rightarrow> Cursor option" where
  "goToKey2 s c k = do {
     c \<leftarrow> AscendToParent2 s c k;
     moveToKey2 s (currNode c) k c (level c) }"

section \<open>Moving to the next and the previous position\<close>

function moveToLast2 :: "'r Relation \<Rightarrow> cptr \<Rightarrow> Cursor \<Rightarrow> int \<Rightarrow> Cursor option" where
  "moveToLast2 s p c l =
     (if 0 \<le> l \<and> l < int MAX_TREE_DEPTH then do {
        c \<leftarrow> set_ancestor c l p;
        let c = c\<lparr>level := l\<rparr>;
        n \<leftarrow> node_at s p;
        if isLeaf n then set_index c l (int (numKeys n))
        else do {
          c \<leftarrow> set_index c l (int (numKeys n) - 1);
          e \<leftarrow> entry_at n (int (numKeys n) - 1);
          a \<leftarrow> child_of e;
          moveToLast2 s (Some a) c (l + 1) } }
      else None)"
  by pat_completeness auto
termination
  by (relation "measure (\<lambda>(s, p, c, l). nat (int MAX_TREE_DEPTH - l))") auto

declare moveToLast2.simps [simp del]

definition moveToNext2 :: "'r Relation \<Rightarrow> Cursor \<Rightarrow> Cursor option" where
  "moveToNext2 s c = do {
     valid \<leftarrow> isValid s c;
     if \<not> valid then Some c
     else do {
       c \<leftarrow> ascend_last s c;
       i \<leftarrow> entryIndex c;
       c \<leftarrow> set_index c (level c) (i + 1);
       n \<leftarrow> node_at s (currNode c);
       if isLeaf n then Some c
       else do {
         e \<leftarrow> entry_at n (i + 1);
         a \<leftarrow> child_of e;
         moveToFirst s (Some a) c (level c + 1) } } }"

text \<open>
  When the index at an interior node drops to -1 the code reads \<^verbatim>\<open>entries[-1]\<close>, outside the array.
\<close>

definition moveToPrev2 :: "'r Relation \<Rightarrow> Cursor \<Rightarrow> Cursor option" where
  "moveToPrev2 s c = do {
     atFirst \<leftarrow> isFirst s c;
     if atFirst then Some c
     else do {
       c \<leftarrow> ascend_first s c;
       i \<leftarrow> entryIndex c;
       c \<leftarrow> set_index c (level c) (i - 1);
       n \<leftarrow> node_at s (currNode c);
       if isLeaf n then Some c
       else do {
         e \<leftarrow> entry_at n (i - 1);
         a \<leftarrow> child_of e;
         moveToLast2 s (Some a) c (level c + 1) } } }"

definition RL_MoveToNext2 :: "'r Relation \<Rightarrow> Cursor \<Rightarrow> Cursor option" where
  "RL_MoveToNext2 s c = do {
     i \<leftarrow> entryIndex c;
     n \<leftarrow> node_at s (currNode c);
     c \<leftarrow> (if i = int (numKeys n) then moveToNext2 s c else Some c);
     moveToNext2 s c }"

definition RL_MoveToPrevious2 :: "'r Relation \<Rightarrow> Cursor \<Rightarrow> Cursor option" where
  "RL_MoveToPrevious2 s c = do {
     i \<leftarrow> entryIndex c;
     c \<leftarrow> (if i = 0 then moveToPrev2 s c else Some c);
     moveToPrev2 s c }"

definition RL_MoveToNextValid2 :: "'r Relation \<Rightarrow> Cursor \<Rightarrow> (bool \<times> Cursor) option" where
  "RL_MoveToNextValid2 s c = do {
     c \<leftarrow> RL_MoveToNext2 s c;
     b \<leftarrow> RL_CursorIsValid s c;
     Some (b, c) }"

definition RL_MoveToPreviousNotFirst2 :: "'r Relation \<Rightarrow> Cursor \<Rightarrow> (bool \<times> Cursor) option" where
  "RL_MoveToPreviousNotFirst2 s c = do {
     c \<leftarrow> RL_MoveToPrevious2 s c;
     b \<leftarrow> isFirst s c;
     Some (if b then False else True, c) }"

section \<open>Reading at a cursor\<close>

definition RL_GetRecord2 :: "'r Relation \<Rightarrow> Cursor \<Rightarrow> ('r \<times> Cursor) option" where
  "RL_GetRecord2 s c = do {
     valid \<leftarrow> isValid s c;
     assert_c valid;
     i \<leftarrow> entryIndex c;
     n \<leftarrow> node_at s (currNode c);
     c \<leftarrow> (if i = int (numKeys n) then moveToNext2 s c else Some c);
     n \<leftarrow> node_at s (currNode c);
     i \<leftarrow> entryIndex c;
     e \<leftarrow> entry_at n i;
     r \<leftarrow> record_of e;
     Some (r, c) }"

definition RL_GetKey2 :: "'r Relation \<Rightarrow> Cursor \<Rightarrow> (Key \<times> Cursor) option" where
  "RL_GetKey2 s c = do {
     valid \<leftarrow> isValid s c;
     assert_c valid;
     i \<leftarrow> entryIndex c;
     n \<leftarrow> node_at s (currNode c);
     c \<leftarrow> (if i = int (numKeys n) then moveToNext2 s c else Some c);
     n \<leftarrow> node_at s (currNode c);
     i \<leftarrow> entryIndex c;
     e \<leftarrow> entry_at n i;
     Some (ekey e, c) }"

definition RL_MoveToKey2 :: "'r Relation \<Rightarrow> Cursor \<Rightarrow> Key \<Rightarrow> (bool \<times> Cursor) option" where
  "RL_MoveToKey2 s c k = do {
     c \<leftarrow> goToKey2 s c k;
     valid \<leftarrow> isValid s c;
     if \<not> valid then Some (False, c)
     else do {
       (k', c) \<leftarrow> RL_GetKey2 s c;
       if k' = k then Some (True, c) else Some (False, c) } }"

section \<open>Inserting\<close>

text \<open>
  Entries are copied member by member: the key, and the record in a leaf or the child in an interior
  node. \<open>copy_loop leaf n i j src dst\<close> is the loop that copies \<open>n\<close> entries from \<open>src[i]\<close> on to
  \<open>dst[j]\<close> on.
\<close>

definition copy_entry :: "bool \<Rightarrow> 'r Entry option \<Rightarrow> 'r Entry option" where
  "copy_entry leaf x = do {
     e \<leftarrow> x;
     if leaf then do { r \<leftarrow> record_of e; Some \<lparr>ekey = ekey e, eptr = Record r\<rparr> }
     else do { a \<leftarrow> child_of e; Some \<lparr>ekey = ekey e, eptr = Child a\<rparr> } }"

fun copy_loop ::
  "bool \<Rightarrow> nat \<Rightarrow> int \<Rightarrow> int \<Rightarrow> 'r Entry option list \<Rightarrow> 'r Entry option list \<Rightarrow> 'r Entry option list option" where
  "copy_loop leaf 0 i j src dst = Some dst"
| "copy_loop leaf (Suc n) i j src dst = do {
     x \<leftarrow> array_at src i;
     e \<leftarrow> copy_entry leaf x;
     dst \<leftarrow> array_set dst j (Some e);
     copy_loop leaf n (i + 1) (j + 1) src dst }"

text \<open>The local array of \<open>FANOUT + 1\<close> entries is not initialised.\<close>

definition all_entries :: "bool \<Rightarrow> 'r BtNode \<Rightarrow> 'r Entry \<Rightarrow> int \<Rightarrow> 'r Entry option list option" where
  "all_entries leaf node entry tgtIdx = do {
     all \<leftarrow> copy_loop leaf (nat tgtIdx) 0 0 (entries node) (replicate (FANOUT + 1) None);
     e \<leftarrow> copy_entry leaf (Some entry);
     all \<leftarrow> array_set all tgtIdx (Some e);
     copy_loop leaf (FANOUT - nat tgtIdx) tgtIdx (tgtIdx + 1) (entries node) all }"

definition splitnode2 :: "'r Relation \<Rightarrow> cptr \<Rightarrow> 'r Entry \<Rightarrow> bool \<Rightarrow> ('r Entry \<times> 'r Relation) option" where
  "splitnode2 s p entry leaf = do {
     a \<leftarrow> p;
     node \<leftarrow> nodes s a;
     tgtIdx \<leftarrow> findRecordIndex node (ekey entry);
     (b, s) \<leftarrow> createNewNode2 s leaf False (LastLeaf node);
     newNode \<leftarrow> nodes s b;
     let node = node\<lparr>LastLeaf := False\<rparr>;
     let lf = isLeaf node;
     allEntries \<leftarrow> all_entries lf node entry tgtIdx;
     let node = node\<lparr>numKeys := MIDDLE\<rparr>;
     es \<leftarrow> (if tgtIdx < int MIDDLE
            then copy_loop lf (nat (int MIDDLE - tgtIdx)) tgtIdx tgtIdx allEntries (entries node)
            else Some (entries node));
     let node = node\<lparr>entries := es\<rparr>;
     if lf then do {
       es \<leftarrow> copy_loop lf (FANOUT + 1 - MIDDLE) (int MIDDLE) 0 allEntries (entries newNode);
       let newNode = newNode\<lparr>entries := es, numKeys := FANOUT + 1 - MIDDLE\<rparr>;
       e \<leftarrow> allEntries ! MIDDLE;
       Some (\<lparr>ekey = ekey e, eptr = Child b\<rparr>, set_node (set_node s a node) b newNode) }
     else do {
       es \<leftarrow> copy_loop lf (FANOUT - MIDDLE) (int MIDDLE + 1) 0 allEntries (entries newNode);
       e \<leftarrow> allEntries ! MIDDLE;
       q \<leftarrow> child_of e;
       let newNode = newNode\<lparr>entries := es, numKeys := FANOUT - MIDDLE, ptr0 := Some q\<rparr>;
       Some (\<lparr>ekey = ekey e, eptr = Child b\<rparr>, set_node (set_node s a node) b newNode) } }"

text \<open>The loop \<^verbatim>\<open>for (i = numKeys; i > tgtIdx; i--)\<close> and the writes behind it.\<close>

fun shift_right2 :: "bool \<Rightarrow> 'r Entry option list \<Rightarrow> nat \<Rightarrow> int \<Rightarrow> 'r Entry option list option" where
  "shift_right2 leaf es 0 tgtIdx = Some es"
| "shift_right2 leaf es (Suc i) tgtIdx =
     (if int (Suc i) > tgtIdx
      then do { x \<leftarrow> array_at es (int i);
                e \<leftarrow> copy_entry leaf x;
                es \<leftarrow> array_set es (int (Suc i)) (Some e);
                shift_right2 leaf es i tgtIdx }
      else Some es)"

definition insert_entry2 :: "bool \<Rightarrow> 'r BtNode \<Rightarrow> int \<Rightarrow> 'r Entry \<Rightarrow> 'r BtNode option" where
  "insert_entry2 leaf n tgtIdx newEntry = do {
     es \<leftarrow> shift_right2 leaf (entries n) (numKeys n) tgtIdx;
     e \<leftarrow> copy_entry leaf (Some newEntry);
     es \<leftarrow> array_set es tgtIdx (Some e);
     Some (n\<lparr>entries := es, numKeys := numKeys n + 1\<rparr>) }"

function putEntry2 :: "'r Relation \<Rightarrow> Cursor \<Rightarrow> 'r Entry \<Rightarrow> Key \<Rightarrow> ('r Relation \<times> Cursor) option" where
  "putEntry2 s c newEntry k =
     (if level c = -1 then do {
        (a, s) \<leftarrow> createNewNode2 s False True True;
        n \<leftarrow> nodes s a;
        e \<leftarrow> copy_entry False (Some newEntry);
        es \<leftarrow> array_set (entries n) 0 (Some e);
        let s = set_node s a (n\<lparr>ptr0 := root s, numKeys := 1, entries := es\<rparr>);
        let s = s\<lparr>root := Some a, depth := depth s + 1, numRecords := numRecords s + 1\<rparr>;
        c \<leftarrow> set_ancestor c 0 (Some a);
        c \<leftarrow> moveToKey2 s (Some a) k c 0;
        Some (s, c) }
      else do {
        a \<leftarrow> currNode c;
        n \<leftarrow> nodes s a;
        i \<leftarrow> entryIndex c;
        if isLeaf n then do {
          found \<leftarrow> (if i < int (numKeys n) then do {
                       e \<leftarrow> entry_at n i; Some (ekey e = ekey newEntry) } else Some False);
          if found then do {
            e \<leftarrow> entry_at n i;
            r \<leftarrow> record_of newEntry;
            es \<leftarrow> array_set (entries n) i (Some (e\<lparr>eptr := Record r\<rparr>));
            Some (set_node s a (n\<lparr>entries := es\<rparr>), c) }
          else if numKeys n < FANOUT then do {
            n \<leftarrow> insert_entry2 True n i newEntry;
            let s = set_node s a n;
            Some (s\<lparr>numRecords := numRecords s + 1\<rparr>, c) }
          else do {
            (newEntry, s) \<leftarrow> splitnode2 s (currNode c) newEntry True;
            putEntry2 s (c\<lparr>level := level c - 1\<rparr>) newEntry k } }
        else if numKeys n < FANOUT then do {
          n \<leftarrow> insert_entry2 False n (i + 1) newEntry;
          let s = set_node s a n;
          let s = s\<lparr>numRecords := numRecords s + 1\<rparr>;
          c \<leftarrow> moveToKey2 s (currNode c) k c (level c);
          Some (s, c) }
        else do {
          (newEntry, s) \<leftarrow> splitnode2 s (currNode c) newEntry False;
          putEntry2 s (c\<lparr>level := level c - 1\<rparr>) newEntry k } })"
  by pat_completeness auto
termination
  by (relation "measure (\<lambda>(s, c, e, k). nat (level c + 1))") (auto dest: currNode_level)

declare putEntry2.simps [simp del]

definition RL_PutRecord2 :: "'r Relation \<Rightarrow> Cursor \<Rightarrow> Key \<Rightarrow> 'r \<Rightarrow> ('r Relation \<times> Cursor) option" where
  "RL_PutRecord2 s c k r = do {
     c \<leftarrow> goToKey2 s c k;
     (s, c) \<leftarrow> putEntry2 s c \<lparr>ekey = k, eptr = Record r\<rparr> k;
     c \<leftarrow> RL_MoveToNext2 s c;
     Some (s, c) }"

end
