(* ===== verification/BTree2_Sim.thy ===== *)
theory BTree2_Sim
  imports BTree_Index BTree2_Model
begin

text \<open>
  The second version of the B+-tree against the first: on relations that satisfy the invariant the
  searching, climbing and reading functions agree, and a split or an insertion computes the same nodes,
  up to the flags of a new root. So the second version provides the same index.
\<close>

section \<open>Searching a node\<close>

lemma findChildIndex2_loop_upto:
  assumes "node_keys ks n" "i \<le> length ks" "\<forall>j<i. ks ! j \<le> k"
  shows "findChildIndex2_loop n k i = Some (int (upto_key k ks) - 1)"
  using assms
proof (induction n k i rule: findChildIndex2_loop.induct)
  case (1 n k i)
  have nk: "numKeys n = length ks" using "1.prems"(1) by (simp add: node_keys_def)
  show ?case
  proof (cases "i < length ks")
    case True
    then obtain p where p: "entry_at n (int i) = Some \<lparr>ekey = ks ! i, eptr = p\<rparr>"
      using entry_at_keys "1.prems"(1) by blast
    show ?thesis
    proof (cases "k < ks ! i")
      case less: True
      then have "upto_key k ks = i" using "1.prems" by (intro upto_key_eqI) auto
      then show ?thesis using less True p nk by (subst findChildIndex2_loop.simps) simp
    next
      case False
      then have "findChildIndex2_loop n k (Suc i) = Some (int (upto_key k ks) - 1)"
        using "1.prems" True nk p by (intro "1.IH") (auto simp: less_Suc_eq)
      then show ?thesis using False True p nk by (subst findChildIndex2_loop.simps) simp
    qed
  next
    case False
    then have "upto_key k ks = length ks" using "1.prems" by (intro upto_key_eqI) auto
    then show ?thesis using False nk by (subst findChildIndex2_loop.simps) simp
  qed
qed

lemma findChildIndex2_upto:
  "node_keys ks n \<Longrightarrow> ks \<noteq> [] \<Longrightarrow> findChildIndex2 n k = Some (int (upto_key k ks) - 1)"
  using findChildIndex2_loop_upto [of ks n 0 k] by (auto simp: findChildIndex2_def node_keys_def)

lemma findChildIndex2_eq: "node_keys ks n \<Longrightarrow> ks \<noteq> [] \<Longrightarrow> findChildIndex2 n k = findChildIndex n k"
  by (simp add: findChildIndex2_upto findChildIndex_upto)

section \<open>The nodes of a path\<close>

text \<open>Every tree but a single leaf has the two ends of its leaves in different leaves.\<close>

definition same_search :: "'r BtNode \<Rightarrow> Key \<Rightarrow> bool" where
  "same_search n k \<longleftrightarrow> (if isLeaf n then numKeys n \<noteq> 0 \<and> \<not> (FirstLeaf n \<and> LastLeaf n)
                       else findChildIndex2 n k = findChildIndex n k)"

lemma path_nodes:
  assumes "repr s f l t" "wf_size rt t" "cur c lv t" "lv \<le> i" "int i \<le> level c"
    and "0 < i" "0 < lv \<longrightarrow> \<not> (f \<and> l) \<and> \<not> rt"
  shows "\<exists>n. node_at s (ancestors c ! i) = Some n \<and> same_search n k"
  using assms
proof (induction s f l t arbitrary: rt lv rule: repr.induct)
  case (1 s f l a kvs)
  then obtain n where n: "nodes s a = Some n" "leaf_node f l kvs n" by auto
  then have "same_search n k" "ancestors c ! i = Some a"
    using "1.prems" by (auto simp: same_search_def leaf_node_def)
  then show ?case using n(1) by (simp add: node_at_def)
next
  case (2 s f l a ks ts)
  obtain n where n: "nodes s a = Some n" "intern_node ks (map root_addr ts) n" using "2.prems"(1) by auto
  have ks: "ks \<noteq> []" "length ts = Suc (length ks)" using "2.prems"(2) by (auto split: if_splits)
  obtain j where j: "ancestors c ! lv = Some a" "j < length ts" "cur c (Suc lv) (ts ! j)"
    using cur_NdE [OF "2.prems"(3)] by blast
  show ?case
  proof (cases "lv = i")
    case True
    then show ?thesis using n ks findChildIndex2_eq [OF intern_node_keys [OF n(2)] ks(1), of k] j(1)
      by (auto simp: same_search_def node_at_def intern_node_def)
  next
    case False
    have nd: "\<not> ((f \<and> j = 0) \<and> (l \<and> j = length ts - 1))" using ks by auto
    show ?thesis
      by (rule "2.IH" [OF j(2) repr_childD [OF "2.prems"(1) j(2)] _ j(3), of False])
        (use "2.prems" False nd j(2) in auto)
  qed
qed

section \<open>Climbing and descending\<close>

lemma AscendToParent2_eq:
  assumes "arrays c" "level c < int MAX_TREE_DEPTH"
    and "\<forall>i. 0 < i \<longrightarrow> int i \<le> level c \<longrightarrow> (\<exists>n. node_at s (ancestors c ! i) = Some n \<and> same_search n k)"
  shows "AscendToParent2 s c k = AscendToParent s c k"
  using assms
proof (induction s c k rule: AscendToParent2.induct)
  case (1 s c k)
  show ?case
  proof (cases "0 < level c")
    case False
    then show ?thesis by (subst AscendToParent2.simps, subst AscendToParent.simps) auto
  next
    case True
    then obtain i where i: "level c = int i" "0 < i" by (metis of_nat_0_less_iff pos_int_cases)
    then obtain n where n: "node_at s (ancestors c ! i) = Some n" "same_search n k" using "1.prems"(3) by auto
    have cn: "currNode c = ancestors c ! i" using currNode_ok [OF "1.prems"(1) i(1)] "1.prems"(2) i(1) by simp
    have up: "AscendToParent2 s (c\<lparr>level := level c - 1\<rparr>) k = AscendToParent s (c\<lparr>level := level c - 1\<rparr>) k"
      if "isNodeParent2 n k = Some False"
      using that True n(1) cn "1.prems" by (intro "1.IH") auto
    show ?thesis
      using True n cn up
      by (subst AscendToParent2.simps, subst AscendToParent.simps)
        (auto simp: same_search_def isNodeParent2_def isNodeParent_def bind_Some_iff split: bind_splits if_splits)
  qed
qed

text \<open>A descent in the first version fixes the descent in the second, also in a heap whose nodes on the
  way differ in their flags only.\<close>

definition same_node :: "'r BtNode \<Rightarrow> 'r BtNode \<Rightarrow> Key \<Rightarrow> bool" where
  "same_node n m k \<longleftrightarrow> isLeaf m = isLeaf n \<and> ptr0 m = ptr0 n \<and> entries m = entries n \<and>
     numKeys m = numKeys n \<and> (\<not> isLeaf n \<longrightarrow> findChildIndex2 n k = findChildIndex n k)"

lemma findRecordIndex_cong:
  assumes "entries m = entries n" "numKeys m = numKeys n"
  shows "findRecordIndex m k = findRecordIndex n k"
proof -
  have "findRecordIndex_loop m k i = findRecordIndex_loop n k i" for i
    using assms
  proof (induction n k i rule: findRecordIndex_loop.induct)
    case (1 n k i)
    have e: "entry_at m j = entry_at n j" for j using "1.prems" by (simp add: entry_at_def)
    show ?case using "1.IH" "1.prems"
      by (subst (1 2) findRecordIndex_loop.simps) (auto simp: e split: bind_splits)
  qed
  then show ?thesis using assms by (simp add: findRecordIndex_def)
qed

lemma findChildIndex2_cong:
  assumes "entries m = entries n" "numKeys m = numKeys n"
  shows "findChildIndex2 m k = findChildIndex2 n k"
proof -
  have "findChildIndex2_loop m k i = findChildIndex2_loop n k i" for i
    using assms
  proof (induction n k i rule: findChildIndex2_loop.induct)
    case (1 n k i)
    have e: "entry_at m j = entry_at n j" for j using "1.prems" by (simp add: entry_at_def)
    show ?case using "1.IH" "1.prems"
      by (subst (1 2) findChildIndex2_loop.simps) (auto simp: e split: bind_splits)
  qed
  then show ?thesis using assms by (simp add: findChildIndex2_def)
qed

lemma set_ancestor_Some: "set_ancestor c l p = Some d \<Longrightarrow> 0 \<le> l \<and> nat l < length (ancestors c) \<and>
   d = c\<lparr>ancestors := (ancestors c)[nat l := p]\<rparr>"
  by (auto simp: set_ancestor_def array_set_def split: if_splits)

lemma set_index_Some: "set_index c l x = Some d \<Longrightarrow> 0 \<le> l \<and> nat l < length (ancestorsIdx c) \<and>
   d = c\<lparr>ancestorsIdx := (ancestorsIdx c)[nat l := x]\<rparr>"
  by (auto simp: set_index_def array_set_def split: if_splits)

lemma moveToKey_path:
  "moveToKey s p k c l = Some d \<Longrightarrow> 0 \<le> l \<and> l \<le> level d \<and> ancestors d ! nat l = p \<and>
     (\<forall>i<nat l. ancestors d ! i = ancestors c ! i)"
proof (induction s p k c l rule: moveToKey.induct)
  case (1 s p k c l)
  have l: "0 \<le> l" "l < int MAX_TREE_DEPTH" using "1.prems" by (auto simp: moveToKey.simps [of s p] split: if_splits)
  obtain c1 n where c1: "set_ancestor c l p = Some c1" "node_at s p = Some n"
    using "1.prems" l by (auto simp: moveToKey.simps [of s p] bind_Some_iff)
  note sa = set_ancestor_Some [OF c1(1)]
  show ?case
  proof (cases "isLeaf n")
    case True
    then show ?thesis using "1.prems" l c1 sa
      by (auto simp: moveToKey.simps [of s p] bind_Some_iff dest!: set_index_Some)
  next
    case False
    obtain i c2 child where *: "findChildIndex n k = Some i" "set_index c1 l i = Some c2"
      "(if i = -1 then Some (ptr0 n) else do { e \<leftarrow> entry_at n i; a \<leftarrow> child_of e; Some (Some a) }) = Some child"
      "moveToKey s child k c2 (l + 1) = Some d"
      using "1.prems" l c1 False by (auto simp: moveToKey.simps [of s p] bind_Some_iff simp del: if_split)
    have "0 \<le> l + 1 \<and> l + 1 \<le> level d \<and> ancestors d ! nat (l + 1) = child \<and>
        (\<forall>i<nat (l + 1). ancestors d ! i = ancestors c2 ! i)"
      using l c1 False * by (intro "1.IH") auto
    then show ?thesis using l sa set_index_Some [OF *(2)] by (auto simp: nat_add_distrib)
  qed
qed

lemma moveToKey2_sim:
  assumes "moveToKey s p k c l = Some d"
    and "\<forall>i. l \<le> int i \<longrightarrow> int i \<le> level d \<longrightarrow>
          (\<exists>n m. node_at s (ancestors d ! i) = Some n \<and> node_at s2 (ancestors d ! i) = Some m \<and> same_node n m k)"
  shows "moveToKey2 s2 p k (c\<lparr>level := x\<rparr>) l = Some d"
  using assms
proof (induction s p k c l arbitrary: x rule: moveToKey.induct)
  case (1 s p k c l)
  note path = moveToKey_path [OF "1.prems"(1)]
  have l: "0 \<le> l" "l < int MAX_TREE_DEPTH" using "1.prems" by (auto simp: moveToKey.simps [of s p] split: if_splits)
  obtain c1 n where c1: "set_ancestor c l p = Some c1" "node_at s p = Some n"
    using "1.prems" l by (auto simp: moveToKey.simps [of s p] bind_Some_iff)
  note sa = set_ancestor_Some [OF c1(1)]
  obtain m where m: "node_at s2 p = Some m" "same_node n m k"
    using "1.prems"(2) [rule_format, of "nat l"] path l c1(2) by auto
  note sm = m(2) [unfolded same_node_def]
  have sa2: "set_ancestor (c\<lparr>level := x\<rparr>) l p = Some (c1\<lparr>level := x\<rparr>)"
    using sa c1(1) by (auto simp: set_ancestor_def array_set_def)
  show ?case
  proof (cases "isLeaf n")
    case True
    then show ?thesis using "1.prems"(1) l c1 m sa2 sm findRecordIndex_cong [of m n k]
      by (auto simp: moveToKey.simps [of s p] moveToKey2.simps [of s2 p] bind_Some_iff Let_def)
  next
    case False
    obtain i c2 child where *: "findChildIndex n k = Some i" "set_index c1 l i = Some c2"
      "(if i = -1 then Some (ptr0 n) else do { e \<leftarrow> entry_at n i; a \<leftarrow> child_of e; Some (Some a) }) = Some child"
      "moveToKey s child k c2 (l + 1) = Some d"
      using "1.prems"(1) l c1 False by (auto simp: moveToKey.simps [of s p] bind_Some_iff simp del: if_split)
    have e: "entry_at m j = entry_at n j" for j using sm by (simp add: entry_at_def)
    have fc: "findChildIndex2 m k = Some i" using findChildIndex2_cong [of m n k] sm False *(1) by simp
    have si: "set_index (c1\<lparr>level := l\<rparr>) l i = Some (c2\<lparr>level := l\<rparr>)"
      using *(2) by (auto simp: set_index_def array_set_def split: if_splits)
    have ch: "(if i = -1 then Some (ptr0 m) else do { e \<leftarrow> entry_at m i; a \<leftarrow> child_of e; Some (Some a) }) = Some child"
      using *(3) unfolding e sm [THEN conjunct2, THEN conjunct1] .
    have "moveToKey2 s2 child k (c2\<lparr>level := l\<rparr>) (l + 1) = Some d"
      using "1.prems"(2) by (intro "1.IH" [OF _ c1 False *]) (use l *(4) in auto)
    then show ?thesis
      using l m sa2 sm False fc si ch by (subst moveToKey2.simps) (simp add: Let_def)
  qed
qed

section \<open>Copying entries member by member\<close>

text \<open>An entry that was written and has the member that belongs to its kind of node.\<close>

definition own :: "bool \<Rightarrow> 'r Entry option \<Rightarrow> bool" where
  "own leaf x \<longleftrightarrow> x \<noteq> None \<and> copy_entry leaf x = x"

lemma own_copy: "own leaf x \<Longrightarrow> \<exists>e. x = Some e \<and> copy_entry leaf x = Some e"
  by (auto simp: own_def)

lemma own_record [simp]: "own leaf (Some \<lparr>ekey = k, eptr = Record r\<rparr>) = leaf"
  by (simp add: own_def copy_entry_def record_of_def child_of_def)

lemma own_child [simp]: "own leaf (Some \<lparr>ekey = k, eptr = Child a\<rparr>) = (\<not> leaf)"
  by (simp add: own_def copy_entry_def record_of_def child_of_def)

lemma copy_loop_eq:
  assumes "i + n \<le> length src" "j + n \<le> length dst" "\<forall>m<n. own leaf (src ! (i + m))"
  shows "copy_loop leaf n (int i) (int j) src dst = Some (take j dst @ take n (drop i src) @ drop (j + n) dst)"
  using assms
proof (induction n arbitrary: i j dst)
  case (Suc n)
  let ?dst = "dst[j := src ! i]"
  have "own leaf (src ! i)" using Suc.prems(3) by force
  then obtain e where e: "src ! i = Some e" "copy_entry leaf (src ! i) = Some e" using own_copy by blast
  have "copy_loop leaf n (int (Suc i)) (int (Suc j)) src ?dst =
      Some (take (Suc j) ?dst @ take n (drop (Suc i) src) @ drop (Suc j + n) ?dst)"
  proof (rule Suc.IH)
    show "\<forall>m<n. own leaf (src ! (Suc i + m))"
      using Suc.prems(3) by (metis Suc_less_eq add_Suc_right add_Suc)
  qed (use Suc.prems in auto)
  moreover have "take (Suc j) ?dst = take j dst @ [src ! i]" "drop (Suc j + n) ?dst = drop (Suc j + n) dst"
    using Suc.prems by (simp_all add: take_Suc_conv_app_nth)
  moreover have "take (Suc n) (drop i src) = src ! i # take n (drop (Suc i) src)"
    using Suc.prems by (simp add: Cons_nth_drop_Suc [symmetric])
  ultimately show ?case using e Suc.prems by (simp add: add.commute)
qed simp

lemma copy_loop_0: "copy_loop leaf n 0 0 src dst = copy_loop leaf n (int 0) (int 0) src dst"
  by simp

lemma all_entries_eq:
  assumes "length (entries n) = FANOUT" "\<forall>m<FANOUT. own leaf (entries n ! m)" "own leaf (Some e)" "t \<le> FANOUT"
  shows "all_entries leaf n e (int t) = Some (put_at t (Some e) (entries n))"
proof -
  let ?u = "replicate (FANOUT + 1) None :: 'a Entry option list"
  let ?a = "take t (entries n) @ drop t ?u"
  have 1: "copy_loop leaf t 0 0 (entries n) ?u = Some ?a"
    using copy_loop_eq [of 0 t "entries n" 0 ?u leaf] assms by simp
  have la: "length ?a = FANOUT + 1" using assms(1,4) by simp
  have 2: "array_set ?a (int t) (Some e) = Some (?a[t := Some e])" using la assms(4) by simp
  have "copy_loop leaf (FANOUT - t) (int t) (int (Suc t)) (entries n) (?a[t := Some e]) =
      Some (take (Suc t) (?a[t := Some e]) @ take (FANOUT - t) (drop t (entries n)) @ drop (Suc t + (FANOUT - t)) (?a[t := Some e]))"
    by (rule copy_loop_eq) (use la assms in auto)
  moreover have "take (Suc t) (?a[t := Some e]) = take t (entries n) @ [Some e]"
    using assms(1,4) la by (simp add: take_Suc_conv_app_nth list_update_append)
  ultimately have 3: "copy_loop leaf (FANOUT - t) (int t) (int t + 1) (entries n) (?a[t := Some e]) =
      Some (put_at t (Some e) (entries n))"
    using assms(1,4) la by (simp add: put_at_def add.commute)
  have "copy_entry leaf (Some e) = Some e" using assms(3) by (simp add: own_def)
  then show ?thesis using 1 2 3 by (simp add: all_entries_def)
qed

lemma copy_entries_list:
  assumes "d \<le> a" "a \<le> b" "b - d \<le> length es" "b \<le> length all"
  shows "copy_entries a b d all es = take (a - d) es @ take (b - a) (drop a all) @ drop (b - d) es"
proof (rule nth_equalityI)
  show "length (copy_entries a b d all es) = length (take (a - d) es @ take (b - a) (drop a all) @ drop (b - d) es)"
    using assms by auto
  fix m assume "m < length (copy_entries a b d all es)"
  then have m: "m < length es" by simp
  show "copy_entries a b d all es ! m = (take (a - d) es @ take (b - a) (drop a all) @ drop (b - d) es) ! m"
    using copy_entries_nth [OF assms(1) m, of b all] m assms
    by (cases "length all = b")
      (auto simp: nth_append min_def add.commute intro!: arg_cong [where f = "(!) all"])
qed

section \<open>Splitting a node\<close>

text \<open>A node all of whose entries have their own kind.\<close>

definition uniform :: "'r BtNode \<Rightarrow> bool" where
  "uniform n \<longleftrightarrow> length (entries n) = FANOUT \<and> numKeys n \<le> FANOUT \<and> (\<forall>i<numKeys n. own (isLeaf n) (entries n ! i))"

lemma leaf_uniform: "leaf_node f l kvs n \<Longrightarrow> uniform n"
  by (auto simp: leaf_node_def uniform_def)

lemma intern_uniform: "intern_node ks as n \<Longrightarrow> uniform n"
  by (auto simp: intern_node_def uniform_def)

lemma uniform_keys: "uniform (n :: 'r BtNode) \<Longrightarrow> node_keys (map (\<lambda>i. ekey (the (entries n ! i))) [0..<numKeys n]) n"
proof -
  have e: "x \<noteq> None \<Longrightarrow> \<exists>p. x = Some \<lparr>ekey = ekey (the x), eptr = p\<rparr>" for x :: "'r Entry option"
    by (rule exI [of _ "eptr (the x)"]) auto
  assume "uniform n"
  then show ?thesis using e by (simp add: uniform_def node_keys_def own_def)
qed

lemma uniform_find:
  assumes "uniform n"
  obtains t where "findRecordIndex n k = Some (int t)" "t \<le> numKeys n"
proof -
  let ?ks = "map (\<lambda>i. ekey (the (entries n ! i))) [0..<numKeys n]"
  show thesis
    by (rule that [OF findRecordIndex_below [OF uniform_keys [OF assms]]])
      (use below_le_length [of k ?ks] in simp)
qed

lemma put_at_own:
  assumes "\<forall>m<length es. own leaf (es ! m)" "own leaf x" "t \<le> length es" "m \<le> length es"
  shows "own leaf (put_at t x es ! m)"
  using assms by (auto simp: nth_put_at)

lemma splitnode2_eq:
  assumes "nodes s a = Some n" "uniform n" "numKeys n = FANOUT" "own (isLeaf n) (Some e)" "a \<noteq> brk s" "avail s (brk s)"
  shows "splitnode2 s (Some a) e (isLeaf n) = splitnode s (Some a) e (isLeaf n)"
proof -
  obtain t where t: "findRecordIndex n (ekey e) = Some (int t)" "t \<le> FANOUT"
    using uniform_find [OF assms(2), of "ekey e"] assms(3) by metis
  have len: "length (entries n) = 15" and ow: "\<forall>m<15. own (isLeaf n) (entries n ! m)"
    using assms(2,3) by (auto simp: uniform_def FANOUT_def)
  define all where "all = put_at t (Some e) (entries n)"
  have lall: "length all = 16" using len t by (simp add: all_def FANOUT_def)
  have oall: "own (isLeaf n) (all ! m)" if "m < 16" for m
    using put_at_own [of "entries n" "isLeaf n" "Some e" t m] ow assms(4) t that len
    by (simp add: all_def FANOUT_def)
  have ae: "all_entries (isLeaf n) (n\<lparr>LastLeaf := False\<rparr>) e (int t) = Some all"
    using all_entries_eq [of "n\<lparr>LastLeaf := False\<rparr>" "isLeaf n" e t] len ow assms(4) t
    by (simp add: all_def FANOUT_def)
  have al: "allEntries_loop 16 (entries n) e (int t) 0 False = Some all"
    using allEntries_loop_eq [of 0 t "entries n" 16 e] len t by (simp add: all_def FANOUT_def)
  have c1: "copy_loop (isLeaf n) (nat (8 - int t)) (int t) (int t) all (entries n) =
      Some (copy_entries t 8 0 all (entries n))" if "t < 8"
    using copy_loop_eq [of t "8 - t" all t "entries n" "isLeaf n"] copy_entries_list [of 0 t 8 "entries n" all]
      that lall len oall by (simp add: nat_diff_distrib)
  have c2: "copy_loop (isLeaf n) (16 - st) (int st) 0 all (replicate 15 None) =
      Some (copy_entries st 16 st all (replicate 15 None))" if "8 \<le> st" "st \<le> 16" for st
    using copy_loop_eq [of st "16 - st" all 0 "replicate 15 None" "isLeaf n"]
      copy_entries_list [of st st 16 "replicate 15 None" all] that lall oall by simp
  obtain e8 where e8: "all ! 8 = Some e8" using oall [of 8] by (auto simp: own_def)
  have crt: "createNewNode2 s leaf f l = Some (brk s, s\<lparr>brk := Suc (brk s), nodes := (nodes s)(brk s \<mapsto>
     \<lparr>isLeaf = leaf, FirstLeaf = f, LastLeaf = l, numKeys = 0, ptr0 = None, entries = replicate 15 None\<rparr>)\<rparr>)" for leaf f l
    using assms(6) by (simp add: createNewNode2_def surely_malloc2_def set_node_def FANOUT_def)
  show ?thesis
  proof (cases "isLeaf n")
    case True
    then show ?thesis
      using assms(1,5,6) t(1) ae al c1 c2 [of 8] e8
      by (cases n; cases "LastLeaf n"; cases "t < 8")
        (simp_all add: splitnode2_def splitnode_def crt FANOUT_def MIDDLE_def Let_def createNewNode_def set_node_def
          fun_upd_twist)
  next
    case False
    then show ?thesis
      using assms(1,5,6) t(1) ae al c1 c2 [of 9] e8
      by (cases n; cases "LastLeaf n"; cases "t < 8"; cases "child_of e8")
        (simp_all add: splitnode2_def splitnode_def crt FANOUT_def MIDDLE_def Let_def createNewNode_def set_node_def
          fun_upd_twist)
  qed
qed

text \<open>What a split leaves behind: both halves are uniform, nothing else in the heap changed.\<close>

lemma splitnode_uniform:
  assumes "nodes s a = Some n" "uniform n" "numKeys n = FANOUT" "own (isLeaf n) (Some e)" "a \<noteq> brk s" "avail s (brk s)"
    and "splitnode s (Some a) e (isLeaf n) = Some (e', s')"
  shows "own False (Some e') \<and> avail s' = avail s \<and> brk s' = Suc (brk s) \<and>
    (\<exists>n1 n2. nodes s' = (nodes s)(a \<mapsto> n1, brk s \<mapsto> n2) \<and> uniform n1 \<and> uniform n2 \<and> isLeaf n1 = isLeaf n)"
proof -
  define ks where "ks = map (\<lambda>i. ekey (the (entries n ! i))) [0..<numKeys n]"
  have nk: "node_keys ks n" unfolding ks_def by (rule uniform_keys [OF assms(2)])
  have lk: "length ks = FANOUT" using assms(3) by (simp add: ks_def)
  have t: "below (ekey e) ks \<le> 15" using below_le_length [of "ekey e" ks] lk by (simp add: FANOUT_def)
  define all where "all = put_at (below (ekey e) ks) (Some e) (entries n)"
  have len: "length (entries n) = 15" using assms(2) by (simp add: uniform_def FANOUT_def)
  have oall: "own (isLeaf n) (all ! m)" if "m < 16" for m
    using put_at_own [of "entries n" "isLeaf n" "Some e" "below (ekey e) ks" m] assms(2,3,4) t that len
    by (simp add: all_def uniform_def FANOUT_def)
  obtain e8 where e8: "all ! 8 = Some e8" "copy_entry (isLeaf n) (Some e8) = Some e8"
    using oall [of 8] by (auto simp: own_def)
  obtain q where q: "\<not> isLeaf n \<Longrightarrow> eptr e8 = Child q"
    using e8(2) by (cases "eptr e8") (auto simp: copy_entry_def child_of_def split: if_splits)
  have pr: "if isLeaf n then all ! 8 = Some e8 else all ! 8 = Some e8 \<and> eptr e8 = Child q" using e8(1) q by simp
  obtain n1 n2 where s: "splitnode s (Some a) e (isLeaf n) =
      Some (\<lparr>ekey = ekey e8, eptr = Child (brk s)\<rparr>, s\<lparr>nodes := (nodes s)(a \<mapsto> n1, brk s \<mapsto> n2), brk := Suc (brk s)\<rparr>)"
    "isLeaf n1 = isLeaf n" "numKeys n1 = 8" "length (entries n1) = FANOUT" "\<forall>m<8. entries n1 ! m = all ! m"
    "isLeaf n2 = isLeaf n" "numKeys n2 = 16 - (if isLeaf n then 8 else 9)" "length (entries n2) = FANOUT"
    "\<forall>m<16 - (if isLeaf n then 8 else 9). entries n2 ! m = all ! (m + (if isLeaf n then 8 else 9))"
    using splitnode_arrays [OF assms(1) nk lk refl assms(6,5) refl all_def pr]
    by (elim exE conjE) (rule that; assumption)
  have "uniform n1" "uniform n2"
    using s oall by (auto simp: uniform_def FANOUT_def split: if_splits)
  then show ?thesis using s(1,2) assms(7) by auto
qed

section \<open>Inserting into a node\<close>

lemma own_nonempty: "own leaf x \<Longrightarrow> \<exists>e. x = Some e" by (auto simp: own_def)

lemma shift_right2_eq:
  assumes "\<forall>m<i. own leaf (es ! m)" "i < length es"
  shows "shift_right2 leaf es i t = shift_right es i t"
  using assms
proof (induction leaf es i t rule: shift_right2.induct)
  case (2 leaf es i t)
  have "own leaf (es ! i)" using "2.prems"(1) by simp
  then obtain e where e: "es ! i = Some e" "copy_entry leaf (es ! i) = Some e" using own_copy by blast
  have at: "array_set es (1 + int i) (Some e) = Some (es[Suc i := Some e])"
    using "2.prems"(2) by (simp add: array_set_def nat_add_distrib)
  have "shift_right2 leaf (es[Suc i := Some e]) i t = shift_right (es[Suc i := Some e]) i t" if "int (Suc i) > t"
    using that "2.prems" e at by (intro "2.IH") auto
  with at show ?case using e "2.prems"(2) by simp
qed simp

lemma insert_entry2_eq:
  assumes "uniform n" "numKeys n < FANOUT" "own (isLeaf n) (Some e)"
  shows "insert_entry2 (isLeaf n) n t e = insert_entry n t e"
proof -
  have "shift_right2 (isLeaf n) (entries n) (numKeys n) t = shift_right (entries n) (numKeys n) t"
    using assms by (intro shift_right2_eq) (auto simp: uniform_def)
  then show ?thesis using assms(3) by (simp add: insert_entry2_def insert_entry_def own_def)
qed

section \<open>The climb of an insertion\<close>

definition uniform_path :: "'r Relation \<Rightarrow> Cursor \<Rightarrow> bool" where
  "uniform_path s c \<longleftrightarrow> (\<forall>i. int i \<le> level c \<longrightarrow>
     (\<exists>a n. ancestors c ! i = Some a \<and> nodes s a = Some n \<and> uniform n \<and> a < brk s))"

text \<open>The nodes of the path of a cursor are searched alike by the two versions.\<close>

definition searched_path :: "'r Relation \<Rightarrow> Cursor \<Rightarrow> Key \<Rightarrow> bool" where
  "searched_path s c k \<longleftrightarrow> (\<forall>i. int i \<le> level c \<longrightarrow>
     (\<exists>n. node_at s (ancestors c ! i) = Some n \<and> (\<not> isLeaf n \<longrightarrow> findChildIndex2 n k = findChildIndex n k)))"

text \<open>The second version flags a new root as first and last.\<close>

definition reflag :: "addr \<Rightarrow> 'r Relation \<Rightarrow> 'r Relation" where
  "reflag a s = s\<lparr>nodes := (nodes s)(a := map_option (\<lambda>n. n\<lparr>FirstLeaf := True, LastLeaf := True\<rparr>) (nodes s a))\<rparr>"

lemma searched_sim:
  assumes "moveToKey s p k c l = Some d" "searched_path s d k" "s2 = s \<or> s2 = reflag a s"
  shows "moveToKey2 s2 p k c l = Some d"
proof -
  have "moveToKey2 s2 p k (c\<lparr>level := level c\<rparr>) l = Some d"
  proof (rule moveToKey2_sim [OF assms(1)], intro allI impI)
    fix i assume i: "l \<le> int i" "int i \<le> level d"
    then obtain n where n: "node_at s (ancestors d ! i) = Some n" "\<not> isLeaf n \<longrightarrow> findChildIndex2 n k = findChildIndex n k"
      using assms(2) by (auto simp: searched_path_def)
    then obtain b where b: "ancestors d ! i = Some b" "nodes s b = Some n" by (auto simp: node_at_def bind_Some_iff)
    have "\<exists>m. nodes s2 b = Some m \<and> same_node n m k"
      using assms(3) b(2) n(2)
      by (cases "b = a") (auto simp: reflag_def same_node_def intro: exI [of _ "n\<lparr>FirstLeaf := True, LastLeaf := True\<rparr>"])
    then show "\<exists>n m. node_at s (ancestors d ! i) = Some n \<and> node_at s2 (ancestors d ! i) = Some m \<and> same_node n m k"
      using n(1) b(1) by (auto simp: node_at_def)
  qed
  then show ?thesis by simp
qed

definition same_put :: "'r Relation \<Rightarrow> 'r Relation \<Rightarrow> bool" where
  "same_put s' s2 \<longleftrightarrow> s2 = s' \<or>
     (\<exists>a n. root s' = Some a \<and> nodes s' a = Some n \<and> \<not> isLeaf n \<and> s2 = reflag a s')"

lemma putEntry2_new_root:
  assumes "putEntry s c l e k = Some (s', c')" "l = -1" "level c = -1" "own False (Some e)" "avail s (brk s)"
    and "searched_path s' c' k"
  shows "\<exists>s2. putEntry2 s c e k = Some (s2, c') \<and> same_put s' s2"
proof -
  let ?n = "\<lparr>isLeaf = False, FirstLeaf = False, LastLeaf = False, numKeys = 1, ptr0 = root s,
             entries = (replicate FANOUT None)[0 := Some e]\<rparr>"
  let ?s = "s\<lparr>brk := Suc (brk s), nodes := (nodes s)(brk s \<mapsto> ?n), root := Some (brk s),
              depth := depth s + 1, numRecords := numRecords s + 1\<rparr>"
  have as0: "array_set (replicate FANOUT None) 0 v = Some ((replicate FANOUT None)[0 := v])" for v :: "'a Entry option"
    by (simp add: array_set_def FANOUT_def)
  obtain c1 where c1: "set_ancestor c 0 (Some (brk s)) = Some c1" "moveToKey ?s (Some (brk s)) k c1 0 = Some c'" "s' = ?s"
    using assms(1,2,5) as0
    by (subst (asm) putEntry.simps) (auto simp: createNewNode_ok set_node_def Let_def bind_Some_iff)
  let ?s2 = "reflag (brk s) ?s"
  have "moveToKey2 ?s2 (Some (brk s)) k c1 0 = Some c'"
    by (rule searched_sim [OF c1(2)]) (use assms(6) c1(3) in auto)
  moreover have "?s2 = s\<lparr>brk := Suc (brk s), nodes := (nodes s)(brk s \<mapsto> ?n\<lparr>FirstLeaf := True, LastLeaf := True\<rparr>),
      root := Some (brk s), depth := depth s + 1, numRecords := numRecords s + 1\<rparr>"
    by (simp add: reflag_def)
  ultimately have "putEntry2 s c e k = Some (?s2, c')"
    using assms(3,4,5) c1(1) as0
    by (subst putEntry2.simps) (simp add: createNewNode2_def surely_malloc2_def set_node_def Let_def own_def)
  moreover have "same_put s' ?s2" using c1(3) by (auto simp: same_put_def)
  ultimately show ?thesis by blast
qed

lemma uniform_path_split:
  assumes "uniform_path s c" "nodes s' = (nodes s)(a \<mapsto> n1, brk s \<mapsto> n2)" "uniform n1" "uniform n2" "a < brk s" "brk s' = Suc (brk s)"
  shows "uniform_path s' (c\<lparr>level := level c - 1\<rparr>)"
  unfolding uniform_path_def
proof (intro allI impI)
  fix i assume "int i \<le> level (c\<lparr>level := level c - 1\<rparr>)"
  then have "int i \<le> level c" by simp
  then obtain b n where b: "ancestors c ! i = Some b" "nodes s b = Some n" "uniform n" "b < brk s"
    using assms(1) by (auto simp: uniform_path_def)
  have "\<exists>m. nodes s' b = Some m \<and> uniform m" using b assms by (cases "b = a") auto
  then show "\<exists>b m. ancestors (c\<lparr>level := level c - 1\<rparr>) ! i = Some b \<and> nodes s' b = Some m \<and> uniform m \<and> b < brk s'"
    using b assms(6) by auto
qed

lemma putEntry2_sim:
  assumes "putEntry s c l e k = Some (s', c')" "l = level c" "-1 \<le> l" "arrays c" "level c < int MAX_TREE_DEPTH"
    and "uniform_path s c" "\<forall>n. avail s n" "searched_path s' c' k"
    and "\<forall>a n. currNode c = Some a \<longrightarrow> nodes s a = Some n \<longrightarrow> own (isLeaf n) (Some e)"
    and "l = -1 \<longrightarrow> own False (Some e)"
    and "\<forall>i. 0 \<le> i \<longrightarrow> i < l \<longrightarrow> (\<forall>n. node_at s (ancestors c ! nat i) = Some n \<longrightarrow> \<not> isLeaf n)"
  shows "\<exists>s2. putEntry2 s c e k = Some (s2, c') \<and> same_put s' s2"
  using assms
proof (induction s c l e k rule: putEntry.induct)
  case (1 s c l e k)
  show ?case
  proof (cases "l = -1")
    case True
    then show ?thesis using "1.prems" by (intro putEntry2_new_root) auto
  next
    case False
    then have l0: "0 \<le> l" using "1.prems"(3) by simp
    then obtain i where i: "level c = int i" "l = int i" "i < MAX_TREE_DEPTH"
      using "1.prems"(2,5) by (metis nonneg_int_cases of_nat_less_iff)
    obtain a n where n: "ancestors c ! i = Some a" "nodes s a = Some n" "uniform n" "a < brk s"
      using "1.prems"(6) i(1) by (auto simp: uniform_path_def)
    have cn: "currNode c = Some a" using currNode_ok [OF "1.prems"(4) i(1,3)] n(1) by simp
    have ow: "own (isLeaf n) (Some e)" using "1.prems"(9) cn n(2) by blast
    obtain x where x: "entryIndex c = Some x" "array_at (ancestorsIdx c) l = Some x"
      using entryIndex_ok [OF "1.prems"(4) i(1,3)] i by (auto simp: entryIndex_def)
    note ins = insert_entry2_eq [OF n(3) _ ow]
    have av: "avail s (brk s)" using "1.prems"(7) by simp
    have up: "uniform_path s1 (c\<lparr>level := level c - 1\<rparr>) \<and> (\<forall>m. avail s1 m) \<and> own False (Some e1) \<and>
        (\<forall>b m. currNode (c\<lparr>level := level c - 1\<rparr>) = Some b \<longrightarrow> nodes s1 b = Some m \<longrightarrow> own (isLeaf m) (Some e1)) \<and>
        (\<forall>j. 0 \<le> j \<longrightarrow> j < l - 1 \<longrightarrow> (\<forall>m. node_at s1 (ancestors c ! nat j) = Some m \<longrightarrow> \<not> isLeaf m))"
      if sp: "splitnode s (Some a) e (isLeaf n) = Some (e1, s1)" and full: "numKeys n = FANOUT" for e1 s1
    proof -
      obtain n1 n2 where s1: "own False (Some e1)" "avail s1 = avail s" "brk s1 = Suc (brk s)"
        "nodes s1 = (nodes s)(a \<mapsto> n1, brk s \<mapsto> n2)" "uniform n1" "uniform n2" "isLeaf n1 = isLeaf n"
        using splitnode_uniform [OF n(2,3) full ow _ av sp] n(4) by auto
      have nl: "\<not> isLeaf m" if j: "0 \<le> j" "j < l" and m: "node_at s1 (ancestors c ! nat j) = Some m" for j m
      proof -
        obtain b k where b: "ancestors c ! nat j = Some b" "nodes s b = Some k" "b < brk s"
          using "1.prems"(6) [unfolded uniform_path_def, rule_format, of "nat j"] i(1,2) j by auto
        then have "\<not> isLeaf k" using "1.prems"(11) j by (auto simp: node_at_def)
        then show ?thesis using b m s1(4,7) n(2) by (cases "b = a") (auto simp: node_at_def)
      qed
      have "own (isLeaf m) (Some e1)"
        if "currNode (c\<lparr>level := level c - 1\<rparr>) = Some b" "nodes s1 b = Some m" for b m
      proof -
        have "0 \<le> level c - 1" using currNode_level [OF that(1)] by simp
        then have "ancestors c ! nat (l - 1) = Some b"
          using that(1) "1.prems"(2,4,5) by (auto simp: currNode_def array_at_def arrays_def nat_diff_distrib split: if_splits)
        then have "\<not> isLeaf m" using nl [of "l - 1" m] that(2) \<open>0 \<le> level c - 1\<close> "1.prems"(2) by (auto simp: node_at_def)
        then show ?thesis using s1(1) by simp
      qed
      then show ?thesis
        using s1 nl uniform_path_split [OF "1.prems"(6) s1(4,5,6) n(4) s1(3)] "1.prems"(7) by auto
    qed
    have sp2: "splitnode2 s (Some a) e (isLeaf n) = splitnode s (Some a) e (isLeaf n)" if "numKeys n = FANOUT"
      by (rule splitnode2_eq [OF n(2,3) that ow _ av]) (use n(4) in simp)
    have full: "numKeys n = FANOUT" if "\<not> numKeys n < FANOUT" using that n(3) by (simp add: uniform_def)
    let ?c = "c\<lparr>level := level c - 1\<rparr>"
    have climb: "\<exists>s2. putEntry2 s1 ?c e1 k = Some (s2, c') \<and> same_put s' s2"
      if ih: "putEntry s1 ?c (l - 1) e1 k = Some (s', c') \<Longrightarrow> l - 1 = level ?c \<Longrightarrow> -1 \<le> l - 1 \<Longrightarrow> arrays ?c \<Longrightarrow>
          level ?c < int MAX_TREE_DEPTH \<Longrightarrow> uniform_path s1 ?c \<Longrightarrow> \<forall>n. avail s1 n \<Longrightarrow> searched_path s' c' k \<Longrightarrow>
          \<forall>a n. currNode ?c = Some a \<longrightarrow> nodes s1 a = Some n \<longrightarrow> own (isLeaf n) (Some e1) \<Longrightarrow>
          l - 1 = -1 \<longrightarrow> own False (Some e1) \<Longrightarrow>
          \<forall>i. 0 \<le> i \<longrightarrow> i < l - 1 \<longrightarrow> (\<forall>n. node_at s1 (ancestors ?c ! nat i) = Some n \<longrightarrow> \<not> isLeaf n) \<Longrightarrow>
          \<exists>s2. putEntry2 s1 ?c e1 k = Some (s2, c') \<and> same_put s' s2"
        and "splitnode s (Some a) e (isLeaf n) = Some (e1, s1)" "numKeys n = FANOUT"
        and "putEntry s1 ?c (l - 1) e1 k = Some (s', c')" for s1 e1
      using ih [OF that(4)] up [OF that(2,3)] "1.prems" l0 by simp
    show ?thesis
    proof (cases "isLeaf n")
      case leaf: True
      obtain found where fd: "(if x < int (numKeys n) then do {
          e' \<leftarrow> entry_at n x; Some (ekey e' = ekey e) } else Some False) = Some found"
        using "1.prems"(1) False cn n(2) leaf x(1)
        by (subst (asm) putEntry.simps) (auto simp: bind_Some_iff)
      obtain r where r: "eptr e = Record r" "record_of e = Some r"
        using ow leaf by (cases "eptr e") (auto simp: own_def copy_entry_def record_of_def)
      show ?thesis
      proof (cases "\<not> found \<and> \<not> numKeys n < FANOUT")
        case True
        then obtain e1 s1 where sp: "splitnode s (Some a) e (isLeaf n) = Some (e1, s1)"
          "putEntry s1 ?c (l - 1) e1 k = Some (s', c')"
          using "1.prems"(1) False cn n(2) leaf x(1) fd
          by (subst (asm) putEntry.simps) (auto simp: bind_Some_iff)
        have "\<exists>s2. putEntry2 s1 ?c e1 k = Some (s2, c') \<and> same_put s' s2"
          by (rule climb [OF "1.IH"(1) [OF False cn n(2) leaf x(1) fd _ _ _ refl] sp(1) full sp(2)])
            (use True sp(1) cn leaf in auto)
        then show ?thesis
          using True False "1.prems"(2) cn n(2) leaf x(1) fd sp2 full sp(1) by (subst putEntry2.simps) simp
      next
        case nf: False
        then have "putEntry2 s c e k = Some (s', c')"
          using "1.prems"(1) False "1.prems"(2) cn n(2) leaf x(1) fd ins r
          by (subst putEntry2.simps, subst (asm) putEntry.simps) (cases found; simp add: Let_def)
        then show ?thesis by (auto simp: same_put_def)
      qed
    next
      case inner: False
      show ?thesis
      proof (cases "numKeys n < FANOUT")
        case True
        then obtain m where m: "insert_entry n (x + 1) e = Some m"
          "moveToKey (set_node s a m\<lparr>numRecords := numRecords s + 1\<rparr>) (Some a) k c l = Some c'"
          "s' = set_node s a m\<lparr>numRecords := numRecords s + 1\<rparr>"
          using "1.prems"(1) False cn n(2) inner x(2)
          by (subst (asm) putEntry.simps) (auto simp: bind_Some_iff Let_def set_node_def)
        have "moveToKey2 s' (Some a) k c l = Some c'"
          by (rule searched_sim [OF m(2)]) (use "1.prems"(8) m(3) in auto)
        then have "putEntry2 s c e k = Some (s', c')"
          using True False "1.prems"(2) cn n(2) inner x(1) ins [OF True] m
          by (subst putEntry2.simps) (simp add: Let_def set_node_def)
        then show ?thesis by (auto simp: same_put_def)
      next
        case nf: False
        then obtain e1 s1 where sp: "splitnode s (Some a) e (isLeaf n) = Some (e1, s1)"
          "putEntry s1 ?c (l - 1) e1 k = Some (s', c')"
          using "1.prems"(1) False cn n(2) inner x(1)
          by (subst (asm) putEntry.simps) (auto simp: bind_Some_iff)
        have "\<exists>s2. putEntry2 s1 ?c e1 k = Some (s2, c') \<and> same_put s' s2"
          by (rule climb [OF "1.IH"(2) [OF False cn n(2) inner nf _ refl] sp(1) full [OF nf] sp(2)])
            (use sp(1) cn inner in auto)
        then show ?thesis
          using nf False "1.prems"(2) cn n(2) inner x(1) sp2 full sp(1) by (subst putEntry2.simps) simp
      qed
    qed
  qed
qed

end
