(* ===== verification/BTree2_Ops.thy ===== *)
theory BTree2_Ops
  imports BTree2_Sim
begin

text \<open>
  The interface of the second version of the B+-tree: on a relation that holds a list of records every
  operation of the interface returns what the first version returns, and so provides the same contract.
\<close>

section \<open>The path of a cursor\<close>

lemma path_props:
  assumes "repr s f l t" "wf_size rt t" "cur c lv t" "lv \<le> i" "int i \<le> level c" "\<forall>a\<in>addrs t. a < brk s"
  shows "\<exists>a n. ancestors c ! i = Some a \<and> nodes s a = Some n \<and> uniform n \<and> a < brk s \<and>
    isLeaf n = (int i = level c) \<and> (\<not> isLeaf n \<longrightarrow> findChildIndex2 n k = findChildIndex n k)"
  using assms
proof (induction s f l t arbitrary: rt lv rule: repr.induct)
  case (1 s f l a kvs)
  then obtain n where n: "nodes s a = Some n" "leaf_node f l kvs n" by auto
  then show ?case using leaf_uniform [OF n(2)] "1.prems" by (auto simp: leaf_node_def)
next
  case (2 s f l a ks ts)
  obtain n where n: "nodes s a = Some n" "intern_node ks (map root_addr ts) n" using "2.prems"(1) by auto
  have ks: "ks \<noteq> []" "length ts = Suc (length ks)" using "2.prems"(2) by (auto split: if_splits)
  obtain j where j: "ancestors c ! lv = Some a" "j < length ts" "cur c (Suc lv) (ts ! j)"
    using cur_NdE [OF "2.prems"(3)] by blast
  show ?case
  proof (cases "lv = i")
    case True
    have "int lv < level c" using cur_level_ge [OF j(3)] by simp
    then show ?thesis using n findChildIndex2_eq [OF intern_node_keys [OF n(2)] ks(1), of k] intern_uniform [OF n(2)]
        j(1) True "2.prems"(6) by (auto simp: intern_node_def)
  next
    case False
    show ?thesis
      by (rule "2.IH" [OF j(2) repr_childD [OF "2.prems"(1) j(2)] _ j(3), of False])
        (use "2.prems" False j(2) in auto)
  qed
qed

lemma searched_route:
  assumes "rel_inv s h t" "cur c 0 t"
  shows "searched_path s c k"
  unfolding searched_path_def
proof (intro allI impI)
  fix i assume "int i \<le> level c"
  then show "\<exists>n. node_at s (ancestors c ! i) = Some n \<and> (\<not> isLeaf n \<longrightarrow> findChildIndex2 n k = findChildIndex n k)"
    using path_props [OF rel_invD(2,4) [OF assms(1)] assms(2), of i k] rel_invD(7) [OF assms(1)]
    by (auto simp: node_at_def)
qed

section \<open>Moving and reading\<close>

lemma goToKey2_eq:
  assumes "cursor_at s c xs p"
  shows "goToKey2 s c k = goToKey s c k"
proof -
  obtain h t where t: "rel_inv s h t" "arrays c" "cur c 0 t" "h < MAX_TREE_DEPTH" by (rule cursor_atE [OF assms])
  note i = rel_invD [OF t(1)]
  have lv: "level c = int h" using cur_level [OF t(3) i(5)] by simp
  have asc: "AscendToParent2 s c k = AscendToParent s c k"
  proof (rule AscendToParent2_eq [OF t(2)])
    show "level c < int MAX_TREE_DEPTH" using lv t(4) by simp
    show "\<forall>i. 0 < i \<longrightarrow> int i \<le> level c \<longrightarrow> (\<exists>n. node_at s (ancestors c ! i) = Some n \<and> same_search n k)"
      using path_nodes [OF i(2,4) t(3)] by auto
  qed
  obtain d where d: "goToKey s c k = Some d" "route d 0 k t" using goToKey_root [OF i(2-5) t(4,2,3)] by blast
  then obtain b where b: "AscendToParent s c k = Some b" "moveToKey s (currNode b) k b (level b) = Some d"
    by (auto simp: goToKey_def bind_Some_iff)
  have "moveToKey2 s (currNode b) k b (level b) = Some d"
    by (rule searched_sim [OF b(2) searched_route [OF t(1) route_cur [OF d(2)]]]) simp
  then show ?thesis using asc b d(1) by (simp add: goToKey2_def)
qed

lemma moveToNext2_eq:
  assumes "cursor_at s c xs p"
  shows "moveToNext2 s c = moveToNext s c"
proof (cases "numRecords s = 0")
  case True
  obtain h t where t: "rel_inv s h t" "contents t = xs" "length xs \<le> capacity" by (rule cursor_atE [OF assms])
  have "xs = []" using numRecords_0 [OF t(1)] t(2,3) True by simp
  then have "isValid s c = Some False" using RL_CursorIsValid_at [OF assms] by (simp add: RL_CursorIsValid_def)
  then show ?thesis using True by (simp add: moveToNext2_def moveToNext_def)
next
  case False
  then show ?thesis by (simp add: moveToNext2_def moveToNext_def)
qed

lemma moveToNext_keeps:
  assumes "cursor_at s c xs p" "moveToNext s c = Some d"
  shows "\<exists>q. cursor_at s d xs q"
proof -
  obtain h t where t: "rel_inv s h t" "contents t = xs" "length xs \<le> capacity" "arrays c" "cur c 0 t" "h < MAX_TREE_DEPTH"
    by (rule cursor_atE [OF assms(1)])
  have "arrays d \<and> cur d 0 t" using moveToNext_at [OF t(1) _ t(6,4,5)] t(2,3) assms(2) by auto
  then show ?thesis using t by (auto simp: cursor_at_def)
qed

lemma RL_MoveToNext2_eq: "cursor_at s c xs p \<Longrightarrow> RL_MoveToNext2 s c = RL_MoveToNext s c"
  using moveToNext2_eq [of s c xs p] moveToNext_keeps [of s c xs p] moveToNext2_eq [of s _ xs]
  by (fastforce simp: RL_MoveToNext2_def RL_MoveToNext_def split: bind_splits)

lemma RL_GetKey2_eq: "cursor_at s c xs p \<Longrightarrow> RL_GetKey2 s c = RL_GetKey s c"
  using moveToNext2_eq [of s c xs p]
  by (auto simp: RL_GetKey2_def RL_GetKey_def settle_def split: bind_splits)

lemma RL_GetRecord2_eq: "cursor_at s c xs p \<Longrightarrow> RL_GetRecord2 s c = RL_GetRecord s c"
  using moveToNext2_eq [of s c xs p]
  by (auto simp: RL_GetRecord2_def RL_GetRecord_def settle_def split: bind_splits)

lemma RL_MoveToKey2_eq:
  assumes "cursor_at s c xs p"
  shows "RL_MoveToKey2 s c k = RL_MoveToKey s c k"
proof -
  obtain d where d: "goToKey s c k = Some d" "cursor_at s d xs (below k (keys_of xs))"
    using goToKey_at [OF assms, of k] by blast
  then show ?thesis using goToKey2_eq [OF assms, of k] RL_GetKey2_eq [OF d(2)]
    by (cases "isValid s d") (simp_all add: RL_MoveToKey2_def RL_MoveToKey_def)
qed

lemma RL_MoveToNextValid2_eq: "cursor_at s c xs p \<Longrightarrow> RL_MoveToNextValid2 s c = RL_MoveToNextValid s c"
  by (simp add: RL_MoveToNextValid2_def RL_MoveToNextValid_def RL_MoveToNext2_eq)

section \<open>Creation\<close>

lemma RL_NewRelation2_eq: "\<forall>n. ok n \<Longrightarrow> RL_NewRelation2 ok = RL_NewRelation ok"
  by (simp add: RL_NewRelation2_def RL_NewRelation_def createNewNode2_def createNewNode_def surely_malloc2_def
      set_node_def Let_def)

lemma RL_NewCursor2_at:
  assumes "rel_holds s xs" "length is = MAX_TREE_DEPTH" "length as = MAX_TREE_DEPTH"
  shows "\<exists>c s'. RL_NewCursor2 is as s = Some (c, s') \<and> cursor_at s' c xs 0"
proof -
  obtain h t where t: "rel_inv s h t" "contents t = xs" "length xs \<le> capacity" using assms(1) by (auto simp: rel_holds_def)
  let ?s = "s\<lparr>brk := Suc (brk s)\<rparr>"
  have inv: "rel_inv ?s h t" by (rule rel_inv_brk [OF t(1)]) simp
  note i = rel_invD [OF inv]
  let ?c = "\<lparr>level = -1, ancestorsIdx = is, ancestors = as\<rparr>"
  have h: "0 + h < MAX_TREE_DEPTH" using height_bound [OF i(4,5)] t by simp
  have arr: "arrays ?c" using assms by (simp add: arrays_def)
  obtain c where c: "moveToFirst ?s (Some (root_addr t)) ?c 0 = Some c" "cur c 0 t" "pos c 0 t = 0" "arrays c"
    using moveToFirst_cur [OF i(2,4,5) h arr] by auto
  then have "RL_NewCursor2 is as s = Some (c, ?s)"
    using i(1,8) by (simp add: RL_NewCursor2_def surely_malloc2_def)
  then show ?thesis using inv t c by (auto simp: cursor_at_def)
qed

section \<open>Inserting\<close>

lemma node_uniform_path:
  assumes "rel_inv s h t" "cur c 0 t"
  shows "uniform_path s c"
  unfolding uniform_path_def
proof (intro allI impI)
  fix i assume "int i \<le> level c"
  then show "\<exists>a n. ancestors c ! i = Some a \<and> nodes s a = Some n \<and> uniform n \<and> a < brk s"
    using path_props [OF rel_invD(2,4) [OF assms(1)] assms(2), of i] rel_invD(7) [OF assms(1)] by blast
qed

lemma reflag_inv:
  assumes "rel_inv s h t" "root s = Some a" "nodes s a = Some n" "\<not> isLeaf n"
  shows "rel_inv (reflag a s) h t"
proof -
  note i = rel_invD [OF assms(1)]
  have ra: "root_addr t = a" using i(1) assms(2) by simp
  have "repr (reflag a s) True True t"
  proof (cases t)
    case (Lf b kvs)
    then show ?thesis using i(2) assms(3,4) ra by (auto simp: leaf_node_def)
  next
    case (Nd b ks ts)
    then have b: "b = a" using ra by simp
    have "repr (reflag a s) f l (ts ! j) = repr s f l (ts ! j)" if "j < length ts" for j f l
    proof (rule repr_frame)
      have "addrs (ts ! j) \<subseteq> set (concat (map addr_list ts))" using nth_mem [OF that] by auto
      then have "a \<notin> addrs (ts ! j)" using i(6) Nd b by auto
      then show "\<forall>x\<in>addrs (ts ! j). nodes (reflag a s) x = nodes s x" by (auto simp: reflag_def)
    qed
    then show ?thesis using i(2) Nd b by (auto simp: reflag_def intern_node_def)
  qed
  then show ?thesis using i by (simp add: rel_inv_def reflag_def)
qed

lemma RL_PutRecord2_at:
  assumes "cursor_at s c xs p" "length xs < capacity"
  shows "\<exists>s' c'. RL_PutRecord2 s c k r = Some (s', c') \<and>
           cursor_at s' c' (ins_list k r xs) (Suc (below k (keys_of xs)))"
proof -
  obtain d h t where d: "goToKey s c k = Some d" "rel_inv s h t" "contents t = xs" "Suc h < MAX_TREE_DEPTH"
    "arrays d" "route d 0 k t"
    using goToKey_at [OF assms(1), of k] assms(2) by blast
  note i = rel_invD [OF d(2)] and cur = route_cur [OF d(6)]
  let ?t = "put_tree (brk s) k r t" and ?e = "\<lparr>ekey = k, eptr = Record r\<rparr>" and ?ys = "ins_list k r xs"
  obtain s' e where e: "putEntry s d (level d) ?e k = Some (s', e)"
    "rel_inv s' (put_height (brk s) k r t h) ?t" "route e 0 k ?t" "arrays e"
    using putEntry_root [OF d(2,4,5,6)] by blast
  have lv: "level d = int h" using cur_level [OF cur i(5)] by simp
  note pp = path_props [OF i(2,4) cur le0 _ i(7)]
  have cn: "currNode d = ancestors d ! h" by (rule currNode_ok [OF d(5) lv]) (use d(4) in simp)
  have "\<exists>s2. putEntry2 s d ?e k = Some (s2, e) \<and> same_put s' s2"
  proof (rule putEntry2_sim [OF e(1) refl])
    show "uniform_path s d" by (rule node_uniform_path [OF d(2) cur])
    show "searched_path s' e k" by (rule searched_route [OF e(2) route_cur [OF e(3)]])
    show "\<forall>a n. currNode d = Some a \<longrightarrow> nodes s a = Some n \<longrightarrow> own (isLeaf n) (Some ?e)"
      using pp [of h k] cn lv by auto
    show "\<forall>j. 0 \<le> j \<longrightarrow> j < level d \<longrightarrow> (\<forall>n. node_at s (ancestors d ! nat j) = Some n \<longrightarrow> \<not> isLeaf n)"
    proof (intro allI impI)
      fix j n assume "0 \<le> j" "j < level d" "node_at s (ancestors d ! nat j) = Some n"
      then show "\<not> isLeaf n" using pp [of "nat j" k] by (auto simp: node_at_def)
    qed
  qed (use lv d(4,5) i(8) in auto)
  then obtain s2 where s2: "putEntry2 s d ?e k = Some (s2, e)" "same_put s' s2" by blast
  have inv: "rel_inv s2 (put_height (brk s) k r t h) ?t"
    using s2(2) e(2) reflag_inv unfolding same_put_def by blast
  note j = rel_invD [OF inv]
  have ys: "contents ?t = ?ys" using contents_put_tree [OF i(3,4)] d(3) by simp
  have sorted: "strict_sorted (keys_of xs)" using sorted_contents [OF i(3,4)] d(3) by simp
  have len: "length ?ys \<le> capacity" using length_ins_list [OF sorted] assms(2) by auto
  have b: "below k (keys_of ?ys) = below k (keys_of xs)" by (rule below_ins_list)
  have "pos e 0 ?t = below k (keys_of xs)" using route_pos [OF e(3) j(3,4)] ys b by simp
  then have at: "cursor_at s2 e ?ys (below k (keys_of xs))"
    using e inv ys len route_cur [OF e(3)] by (auto simp: cursor_at_def)
  have "k \<in> set (keys_of ?ys)" by simp
  then have lt: "below k (keys_of xs) < length ?ys"
    using mem_below [OF strict_sorted_ins_list [OF sorted], of k k r] b by (simp del: set_map)
  obtain c' where "RL_MoveToNext2 s2 e = Some c'" "cursor_at s2 c' ?ys (Suc (below k (keys_of xs)))"
    using RL_MoveToNext_at [OF at] lt RL_MoveToNext2_eq [OF at] by auto
  then show ?thesis using d(1) s2(1) goToKey2_eq [OF assms(1), of k] by (simp add: RL_PutRecord2_def)
qed

interpretation btree2: record_index cursor_at RL_PutRecord2 RL_MoveToKey2 RL_MoveToFirst RL_MoveToNext2
    RL_GetKey2 RL_GetRecord2 RL_CursorIsValid capacity
proof unfold_locales
  fix s :: "'r Relation" and c xs p
  assume at: "cursor_at s c xs p"
  show "strict_sorted (keys_of xs)" by (rule btree.at_sorted [OF at])
  show "p \<le> length xs" by (rule btree.at_bound [OF at])
  show "\<exists>c'. RL_MoveToKey2 s c k = Some (k \<in> set (keys_of xs), c') \<and> cursor_at s c' xs (below k (keys_of xs))" for k
    using btree.move_to_key_at [OF at] RL_MoveToKey2_eq [OF at] by simp
  show "\<exists>c'. RL_MoveToNext2 s c = Some c' \<and> cursor_at s c' xs (if p < length xs then Suc p else p)"
    using btree.move_to_next_at [OF at] RL_MoveToNext2_eq [OF at] by simp
  show "p < length xs \<Longrightarrow> \<exists>c'. RL_GetKey2 s c = Some (fst (xs ! p), c') \<and> cursor_at s c' xs p"
    using btree.get_key_at [OF at] RL_GetKey2_eq [OF at] by simp
  show "p < length xs \<Longrightarrow> \<exists>c'. RL_GetRecord2 s c = Some (snd (xs ! p), c') \<and> cursor_at s c' xs p"
    using btree.get_record_at [OF at] RL_GetRecord2_eq [OF at] by simp
qed (fact RL_PutRecord2_at RL_MoveToFirst_at RL_CursorIsValid_at)+

end
