(* ===== verification/BTree_Prev.thy ===== *)
theory BTree_Prev
  imports BTree2_Ops
begin

text \<open>
  Moving a cursor back. In the second version \<^verbatim>\<open>RL_MoveToPrevious\<close> goes back by one position, except that
  a step into the leftmost child of a node reads \<^verbatim>\<open>entries[-1]\<close>; in the first version \<^verbatim>\<open>moveToLast\<close> goes
  to the first position of the last child of an interior node, not to its last one.
\<close>

section \<open>The last position of a tree\<close>

lemma moveToLast2_cur:
  assumes "repr s f l t" "wf_size rt t" "bal h t" "lv + h < MAX_TREE_DEPTH" "arrays c"
  shows "\<exists>c'. moveToLast2 s (Some (root_addr t)) c (int lv) = Some c' \<and> cur c' lv t \<and>
           pos c' lv t = length (contents t) \<and> leaf_end c' lv t \<and> arrays c' \<and> agree_below lv c c'"
  using assms
proof (induction s f l t arbitrary: rt h lv c rule: repr.induct)
  case (1 s f l a kvs)
  then obtain n where n: "nodes s a = Some n" "leaf_node f l kvs n" by auto
  have lv: "lv < MAX_TREE_DEPTH" using "1.prems" by simp
  let ?c' = "c\<lparr>ancestors := (ancestors c)[lv := Some a], level := int lv,
               ancestorsIdx := (ancestorsIdx c)[lv := int (length kvs)]\<rparr>"
  have "isLeaf n" "numKeys n = length kvs" using n(2) by (auto simp: leaf_node_def)
  then have "moveToLast2 s (Some a) c (int lv) = Some ?c'"
    using n lv "1.prems"(5) by (subst moveToLast2.simps) (simp add: node_at_def set_ancestor_ok set_index_ok Let_def)
  moreover have "cur ?c' lv (Lf a kvs)" "arrays ?c'" "agree_below lv c ?c'" "pos ?c' lv (Lf a kvs) = length kvs"
    "leaf_end ?c' lv (Lf a kvs)"
    using lv "1.prems"(5) by (auto simp: arrays_def agree_below_def)
  ultimately show ?case by auto
next
  case (2 s f l a ks ts)
  then obtain n where n: "nodes s a = Some n" "intern_node ks (map root_addr ts) n" by auto
  obtain h' where h: "h = Suc h'" "\<forall>t\<in>set ts. bal h' t" using "2.prems" by auto
  have len: "length ts = Suc (length ks)" "ks \<noteq> []" using "2.prems"(2) by (auto split: if_splits)
  let ?j = "length ks"
  have j: "?j < length ts" using len by simp
  have lv: "lv < MAX_TREE_DEPTH" using "2.prems" by simp
  have wf: "wf_size False (ts ! ?j)" using "2.prems"(2) j by auto
  let ?c = "c\<lparr>ancestors := (ancestors c)[lv := Some a], level := int lv, ancestorsIdx := (ancestorsIdx c)[lv := int ?j - 1]\<rparr>"
  have arr: "arrays ?c" using "2.prems"(5) by (simp add: arrays_def)
  obtain e where e: "entry_at n (int ?j - 1) = Some e" "child_of e = Some (root_addr (ts ! ?j))"
    using child_at [OF n(2), of ?j] len by auto
  have step: "moveToLast2 s (Some a) c (int lv) = moveToLast2 s (Some (root_addr (ts ! ?j))) ?c (int (Suc lv))"
    using lv n "2.prems"(5) e
    by (subst moveToLast2.simps) (simp add: node_at_def set_ancestor_ok set_index_ok add.commute Let_def intern_node_def)
  have "\<exists>c'. moveToLast2 s (Some (root_addr (ts ! ?j))) ?c (int (Suc lv)) = Some c' \<and>
      cur c' (Suc lv) (ts ! ?j) \<and> pos c' (Suc lv) (ts ! ?j) = length (contents (ts ! ?j)) \<and> leaf_end c' (Suc lv) (ts ! ?j) \<and>
      arrays c' \<and> agree_below (Suc lv) ?c c'"
    by (rule "2.IH" [OF j, where rt = False and h = h']) (use "2.prems" j h arr wf in auto)
  then obtain c' where c': "moveToLast2 s (Some (root_addr (ts ! ?j))) ?c (int (Suc lv)) = Some c'"
    "cur c' (Suc lv) (ts ! ?j)" "pos c' (Suc lv) (ts ! ?j) = length (contents (ts ! ?j))" "leaf_end c' (Suc lv) (ts ! ?j)"
    "arrays c'" "agree_below (Suc lv) ?c c'" by blast
  have ag: "agree_below lv c c'" "ancestors c' ! lv = Some a" "ancestorsIdx c' ! lv = int ?j - 1"
    using c'(6) lv "2.prems"(5) by (auto simp: agree_below_def arrays_def)
  note p = pos_child [OF ag(3) j, of a ks] and cur = cur_NdI [OF lv ag(2,3) j c'(2), of ks]
  show ?case using step c' ag p cur length_contents_split [OF j, of a ks] len
    by (intro exI [of _ c']) (simp del: cur.simps pos.simps leaf_end.simps contents.simps)
qed

section \<open>The first version goes to the wrong place\<close>

lemma moveToLast_interior:
  assumes "repr s f l (Nd a ks ts)" "wf_size rt (Nd a ks ts)" "bal h (Nd a ks ts)" "lv + h < MAX_TREE_DEPTH" "arrays c"
  shows "\<exists>c'. moveToLast s (Some a) c (int lv) = Some c' \<and> cur c' lv (Nd a ks ts) \<and>
           pos c' lv (Nd a ks ts) + length (contents (last ts)) = length (contents (Nd a ks ts)) \<and> contents (last ts) \<noteq> []"
proof -
  obtain n where n: "nodes s a = Some n" "intern_node ks (map root_addr ts) n" using assms(1) by auto
  obtain h' where h: "h = Suc h'" "\<forall>t\<in>set ts. bal h' t" using assms by auto
  have len: "length ts = Suc (length ks)" "ks \<noteq> []" using assms(2) by (auto split: if_splits)
  let ?j = "length ks"
  have j: "?j < length ts" using len by simp
  have last: "last ts = ts ! ?j" using len by (cases ts) (auto simp: last_conv_nth)
  have lv: "lv < MAX_TREE_DEPTH" using assms by simp
  have wf: "wf_size False (ts ! ?j)" using assms(2) j by auto
  let ?c = "c\<lparr>ancestors := (ancestors c)[lv := Some a], level := int lv, ancestorsIdx := (ancestorsIdx c)[lv := int ?j - 1]\<rparr>"
  have arr: "arrays ?c" using assms(5) by (simp add: arrays_def)
  obtain e where e: "entry_at n (int ?j - 1) = Some e" "child_of e = Some (root_addr (ts ! ?j))"
    using child_at [OF n(2), of ?j] len by auto
  have step: "moveToLast s (Some a) c (int lv) = moveToFirst s (Some (root_addr (ts ! ?j))) ?c (int (Suc lv))"
    using lv n assms(5) e
    by (simp add: moveToLast_def node_at_def set_ancestor_ok set_index_ok add.commute Let_def intern_node_def)
  obtain c' where c': "moveToFirst s (Some (root_addr (ts ! ?j))) ?c (int (Suc lv)) = Some c'"
    "cur c' (Suc lv) (ts ! ?j)" "pos c' (Suc lv) (ts ! ?j) = 0" "agree_below (Suc lv) ?c c'"
    using moveToFirst_cur [OF repr_childD [OF assms(1) j] wf, of h' "Suc lv" ?c] arr h j assms(4) by auto
  have ag: "ancestors c' ! lv = Some a" "ancestorsIdx c' ! lv = int ?j - 1"
    using c'(4) lv assms(5) by (auto simp: agree_below_def arrays_def)
  note p = pos_child [OF ag(2) j, of a ks] and cur = cur_NdI [OF lv ag j c'(2), of ks]
  show ?thesis using step c' p cur length_contents_split [OF j, of a ks] len last contents_nonempty [OF wf]
    by (intro exI [of _ c']) (simp del: cur.simps pos.simps leaf_end.simps contents.simps)
qed

section \<open>The previous position\<close>

text \<open>\<open>moveToPrev2\<close> without its guard.\<close>

definition retreat :: "'r Relation \<Rightarrow> Cursor \<Rightarrow> Cursor option" where
  "retreat s c = do {
     c \<leftarrow> ascend_first s c;
     i \<leftarrow> entryIndex c;
     c \<leftarrow> set_index c (level c) (i - 1);
     n \<leftarrow> node_at s (currNode c);
     if isLeaf n then Some c
     else do {
       e \<leftarrow> entry_at n (i - 1);
       a \<leftarrow> child_of e;
       moveToLast2 s (Some a) c (level c + 1) } }"

text \<open>The cursor stands at the beginning of its leaf.\<close>

function leaf_start :: "Cursor \<Rightarrow> nat \<Rightarrow> 'r btree \<Rightarrow> bool" where
  "leaf_start c lv (Lf a kvs) = (ancestorsIdx c ! lv = 0)"
| "leaf_start c lv (Nd a ks ts) =
     (let j = nat (ancestorsIdx c ! lv + 1) in
      if j < length ts then leaf_start c (Suc lv) (ts ! j) else False)"
  by pat_completeness auto
termination
  by (relation "measure (\<lambda>(c, lv, t). size t)") (auto simp: less_Suc_eq_le intro!: size_list_estimation' nth_mem)

text \<open>The step back from the beginning of a leaf leads into the leftmost child of some node.\<close>

function to_leftmost :: "Cursor \<Rightarrow> nat \<Rightarrow> 'r btree \<Rightarrow> bool" where
  "to_leftmost c lv (Lf a kvs) = False"
| "to_leftmost c lv (Nd a ks ts) =
     (let j = nat (ancestorsIdx c ! lv + 1) in
      if j < length ts then
        if pos c (Suc lv) (ts ! j) = 0 then j = 1 else to_leftmost c (Suc lv) (ts ! j)
      else False)"
  by pat_completeness auto
termination
  by (relation "measure (\<lambda>(c, lv, t). size t)") (auto simp: less_Suc_eq_le intro!: size_list_estimation' nth_mem)

definition retreated :: "'r Relation \<Rightarrow> Cursor \<Rightarrow> nat \<Rightarrow> 'r btree \<Rightarrow> bool" where
  "retreated s c lv t \<longleftrightarrow>
     (\<exists>c'. retreat s c = Some c' \<and> cur c' lv t \<and> arrays c' \<and> agree_below lv c c' \<and>
           (if leaf_start c lv t then pos c' lv t = pos c lv t \<and> \<not> leaf_start c' lv t
            else Suc (pos c' lv t) = pos c lv t))"

lemma start_child:
  assumes "ancestorsIdx c ! lv = int j - 1" "j < length ts"
  shows "leaf_start c lv (Nd a ks ts) = leaf_start c (Suc lv) (ts ! j)"
    and "to_leftmost c lv (Nd a ks ts) =
      (if pos c (Suc lv) (ts ! j) = 0 then j = 1 else to_leftmost c (Suc lv) (ts ! j))"
  using assms by (simp_all add: Let_def)

lemma start_of_first: "cur c lv t \<Longrightarrow> pos c lv t = 0 \<Longrightarrow> leaf_start c lv t"
proof (induction c lv t rule: cur.induct)
  case (2 c lv a ks ts)
  obtain j where j: "ancestorsIdx c ! lv = int j - 1" "j < length ts" "cur c (Suc lv) (ts ! j)"
    using cur_NdE [OF "2.prems"(1)] by metis
  have "pos c (Suc lv) (ts ! j) = 0" using "2.prems"(2) pos_child(1) [OF j(1,2), of a ks] by simp
  moreover have "nat (ancestorsIdx c ! lv + 1) = j" using j(1) by simp
  ultimately have "leaf_start c (Suc lv) (ts ! j)" using "2.IH" j by simp
  then show ?case using start_child(1) [OF j(1,2)] by simp
qed auto

lemma start_not_end:
  "cur c lv t \<Longrightarrow> wf_size rt t \<Longrightarrow> contents t \<noteq> [] \<Longrightarrow> \<not> (leaf_start c lv t \<and> leaf_end c lv t)"
proof (induction c lv t arbitrary: rt rule: cur.induct)
  case (2 c lv a ks ts)
  obtain j where j: "ancestorsIdx c ! lv = int j - 1" "j < length ts" "cur c (Suc lv) (ts ! j)"
    using cur_NdE [OF "2.prems"(1)] by metis
  have jj: "nat (ancestorsIdx c ! lv + 1) = j" using j(1) by simp
  have wf: "wf_size False (ts ! j)" using "2.prems"(2) j(2) by auto
  then show ?case
    using "2.IH" [of False] jj j contents_nonempty [OF wf] start_child(1) [OF j(1,2)] pos_child(2) [OF j(1,2)] by auto
qed auto

lemma retreat_up: "ascend_first s c = ascend_first s c' \<Longrightarrow> retreat s c = retreat s c'"
  by (simp add: retreat_def)

text \<open>The step back from the first position of the child at \<open>Suc j\<close> to the end of the child at \<open>j\<close>.\<close>

lemma retreat_to_child:
  assumes "repr s f l (Nd a ks ts)" "wf_size rt (Nd a ks ts)" "bal h (Nd a ks ts)" "lv + h < MAX_TREE_DEPTH" "arrays c"
    and "ancestors c ! lv = Some a" "ancestorsIdx c ! lv = int j" "Suc j < length ts"
    and "ascend_first s c = Some (c\<lparr>level := int lv\<rparr>)"
    and "pos c (Suc lv) (ts ! Suc j) = 0" "leaf_start c (Suc lv) (ts ! Suc j)"
  shows "if j = 0 then retreat s c = None else retreated s c lv (Nd a ks ts)"
proof -
  obtain n where n: "nodes s a = Some n" "intern_node ks (map root_addr ts) n" using assms(1) by auto
  have len: "length ts = Suc (length ks)" using assms(2) by (auto split: if_splits)
  obtain h' where h: "h = Suc h'" "\<forall>t\<in>set ts. bal h' t" using assms(3) by auto
  have lv: "lv < MAX_TREE_DEPTH" and j: "j < length ts" using assms(4,8) by auto
  have wf: "wf_size False (ts ! j)" using assms(2) j by auto
  let ?c = "c\<lparr>level := int lv, ancestorsIdx := (ancestorsIdx c)[lv := int j - 1]\<rparr>"
  have arr: "arrays ?c" using assms(5) by (simp add: arrays_def)
  have step: "retreat s c = do { e \<leftarrow> entry_at n (int j - 1); a \<leftarrow> child_of e; moveToLast2 s (Some a) ?c (int lv + 1) }"
    using assms(5-7,9) lv n currNode_ok [OF arr, of lv]
    by (simp add: retreat_def entryIndex_ok [of _ lv] set_index_ok node_at_def intern_node_def)
  show ?thesis
  proof (cases "j = 0")
    case True
    then show ?thesis using step by (simp add: entry_at_def array_at_def)
  next
    case False
    obtain e where e: "entry_at n (int j - 1) = Some e" "child_of e = Some (root_addr (ts ! j))"
      using child_at [OF n(2), of j] len j False by auto
    obtain c' where c': "moveToLast2 s (Some (root_addr (ts ! j))) ?c (int (Suc lv)) = Some c'"
      "cur c' (Suc lv) (ts ! j)" "pos c' (Suc lv) (ts ! j) = length (contents (ts ! j))" "leaf_end c' (Suc lv) (ts ! j)"
      "arrays c'" "agree_below (Suc lv) ?c c'"
      using moveToLast2_cur [OF repr_childD [OF assms(1) j] wf, of h' "Suc lv" ?c] arr h assms(4) j by auto
    have ag: "agree_below lv c c'" "ancestors c' ! lv = Some a" "ancestorsIdx c' ! lv = int j - 1"
      using c'(6) lv assms(5,6) by (auto simp: agree_below_def arrays_def)
    have ns: "\<not> leaf_start c' (Suc lv) (ts ! j)"
      using start_not_end [OF c'(2) wf contents_nonempty [OF wf]] c'(4) by simp
    have idx: "ancestorsIdx c ! lv = int (Suc j) - 1" using assms(7) by simp
    note pos_child [OF ag(3) j, of a ks] cur_NdI [OF lv ag(2,3) j c'(2), of ks] start_child(1) [OF ag(3) j, of a ks]
      pos_child [OF idx assms(8), of a ks] start_child(1) [OF idx assms(8), of a ks] length_take_Suc [OF j]
    then have "retreated s c lv (Nd a ks ts)" unfolding retreated_def
      using step e c'(1,3,5) ag(1) ns assms(10,11)
      by (intro exI [of _ c']) (simp add: add.commute del: cur.simps pos.simps leaf_start.simps)
    then show ?thesis using False by simp
  qed
qed

lemma retreat_cases:
  assumes "repr s f l t" "wf_size rt t" "bal h t" "lv + h < MAX_TREE_DEPTH" "arrays c" "cur c lv t"
  shows "if pos c lv t = 0 then 0 < lv \<longrightarrow> ascend_first s c = ascend_first s (c\<lparr>level := int lv - 1\<rparr>)
         else if leaf_start c lv t \<and> to_leftmost c lv t then retreat s c = None
         else retreated s c lv t"
  using assms
proof (induction s f l t arbitrary: rt h lv rule: repr.induct)
  case (1 s f l a kvs)
  then obtain n where n: "nodes s a = Some n" "leaf_node f l kvs n" by auto
  have lv: "lv < MAX_TREE_DEPTH" "level c = int lv" "ancestors c ! lv = Some a"
    "0 \<le> ancestorsIdx c ! lv" "ancestorsIdx c ! lv \<le> int (length kvs)" using "1.prems"(6) by auto
  then obtain i where i: "ancestorsIdx c ! lv = int i" "i \<le> length kvs" by (metis nonneg_int_cases of_nat_le_iff)
  have at: "entryIndex c = Some (int i)" "node_at s (currNode c) = Some n" "isLeaf n" "numKeys n = length kvs"
    using entryIndex_ok [OF "1.prems"(5) lv(2,1)] currNode_ok [OF "1.prems"(5) lv(2,1)] lv(3) i n
    by (auto simp: node_at_def leaf_node_def)
  show ?case
  proof (cases "i = 0")
    case True
    have "ascend_first s c = ascend_first s (c\<lparr>level := int lv - 1\<rparr>)" if "0 < lv"
      using that lv(2) at True by (subst ascend_first.simps) (simp add: firstpointer_def)
    then show ?thesis using True i by simp
  next
    case False
    let ?c' = "c\<lparr>ancestorsIdx := (ancestorsIdx c)[lv := int i - 1]\<rparr>"
    have "ascend_first s c = Some c"
      using lv(2) at False i by (subst ascend_first.simps) (simp add: firstpointer_def)
    moreover have "node_at s (currNode ?c') = Some n" using at(2) by (simp add: currNode_def)
    ultimately have "retreat s c = Some ?c'"
      using lv at "1.prems"(5) by (simp add: retreat_def set_index_ok)
    moreover have "cur ?c' lv (Lf a kvs)" "arrays ?c'" "agree_below lv c ?c'" "Suc (pos ?c' lv (Lf a kvs)) = i"
      using lv i False "1.prems"(5) by (auto simp: arrays_def agree_below_def nat_diff_distrib)
    ultimately show ?thesis using i False by (auto simp: retreated_def)
  qed
next
  case (2 s f l a ks ts)
  obtain n where n: "nodes s a = Some n" "intern_node ks (map root_addr ts) n" using "2.prems"(1) by auto
  obtain h' where h: "h = Suc h'" "\<forall>t\<in>set ts. bal h' t" using "2.prems"(3) by auto
  obtain j where j: "lv < MAX_TREE_DEPTH" "ancestors c ! lv = Some a" "ancestorsIdx c ! lv = int j - 1"
    "j < length ts" "cur c (Suc lv) (ts ! j)" by (rule cur_NdE [OF "2.prems"(6)])
  have wf: "wf_size False (ts ! i)" if "i < length ts" for i using "2.prems"(2) that by auto
  note pc = pos_child [OF j(3,4), of a ks] start_child [OF j(3,4), of a ks]
  have IH: "if pos c (Suc lv) (ts ! j) = 0
      then 0 < Suc lv \<longrightarrow> ascend_first s c = ascend_first s (c\<lparr>level := int (Suc lv) - 1\<rparr>)
      else if leaf_start c (Suc lv) (ts ! j) \<and> to_leftmost c (Suc lv) (ts ! j) then retreat s c = None
      else retreated s c (Suc lv) (ts ! j)"
    by (rule "2.IH" [OF j(4), where rt = False and h = h']) (use "2.prems" h j in auto)
  show ?case
  proof (cases "pos c (Suc lv) (ts ! j) = 0")
    case p0: True
    let ?c = "c\<lparr>level := int lv\<rparr>"
    have st: "leaf_start c (Suc lv) (ts ! j)" by (rule start_of_first [OF j(5) p0])
    have up: "ascend_first s c = ascend_first s ?c" using IH p0 by simp
    have at: "entryIndex ?c = Some (int j - 1)" "node_at s (currNode ?c) = Some n" "\<not> isLeaf n"
      using entryIndex_ok [of ?c lv] currNode_ok [of ?c lv] "2.prems"(5) j n
      by (auto simp: node_at_def intern_node_def)
    show ?thesis
    proof (cases j)
      case 0
      have "ascend_first s ?c = ascend_first s (c\<lparr>level := int lv - 1\<rparr>)" if "0 < lv"
        using that at 0 by (subst ascend_first.simps) (simp add: firstpointer_def)
      then show ?thesis using up pc(1) p0 0 by simp
    next
      case (Suc i)
      have "ascend_first s ?c = Some ?c"
        using at Suc by (subst ascend_first.simps) (simp add: firstpointer_def)
      then have "if i = 0 then retreat s c = None else retreated s c lv (Nd a ks ts)"
        using retreat_to_child [OF "2.prems"(1-5) j(2) _ _ _ , of i] up j(3,4) Suc p0 st by simp
      moreover have "contents (ts ! 0) \<noteq> []" by (rule contents_nonempty [OF wf]) (use j(4) in auto)
      then have "concat (map contents (take j ts)) \<noteq> []" using Suc j(4) by (cases ts) auto
      then have "pos c lv (Nd a ks ts) \<noteq> 0" using pc(1) by (simp del: pos.simps)
      ultimately show ?thesis using pc(3,4) st p0 Suc
        by (auto simp del: pos.simps leaf_start.simps to_leftmost.simps split: if_splits)
    qed
  next
    case pn: False
    have pn': "pos c lv (Nd a ks ts) \<noteq> 0" using pc(1) pn by (simp del: pos.simps)
    have "retreated s c lv (Nd a ks ts)" if rt: "retreated s c (Suc lv) (ts ! j)"
    proof -
      from rt obtain c' where c': "retreat s c = Some c'" "cur c' (Suc lv) (ts ! j)" "arrays c'" "agree_below (Suc lv) c c'"
        "if leaf_start c (Suc lv) (ts ! j) then pos c' (Suc lv) (ts ! j) = pos c (Suc lv) (ts ! j) \<and> \<not> leaf_start c' (Suc lv) (ts ! j)
         else Suc (pos c' (Suc lv) (ts ! j)) = pos c (Suc lv) (ts ! j)" unfolding retreated_def by blast
      have ag: "agree_below lv c c'" "ancestors c' ! lv = Some a" "ancestorsIdx c' ! lv = int j - 1"
        using c'(4) j by (auto simp: agree_below_def)
      note pos_child(1) [OF ag(3) j(4), of a ks] start_child(1) [OF ag(3) j(4), of a ks] cur_NdI [OF j(1) ag(2,3) j(4) c'(2), of ks]
      then show ?thesis unfolding retreated_def using c'(1,3,5) ag(1) pc
        by (intro exI [of _ c']) (simp del: cur.simps pos.simps leaf_start.simps)
    qed
    then show ?thesis using IH pn pn' pc by (simp del: pos.simps leaf_start.simps to_leftmost.simps)
  qed
qed

section \<open>The interface\<close>

text \<open>Where a cursor stands, with the two facts that decide a step back: whether it stands at the beginning
  of its leaf, and whether the step from there leads into the leftmost child of a node.\<close>

definition cursor_back :: "'r Relation \<Rightarrow> Cursor \<Rightarrow> (Key \<times> 'r) list \<Rightarrow> nat \<Rightarrow> bool \<Rightarrow> bool \<Rightarrow> bool" where
  "cursor_back s c xs p b u \<longleftrightarrow>
     (\<exists>h t. rel_inv s h t \<and> contents t = xs \<and> length xs \<le> capacity \<and> arrays c \<and> cur c 0 t \<and> pos c 0 t = p \<and>
        leaf_start c 0 t = b \<and> to_leftmost c 0 t = u)"

lemma cursor_back_exists: "cursor_at s c xs p \<Longrightarrow> \<exists>b u. cursor_back s c xs p b u"
  by (auto simp: cursor_at_def cursor_back_def)

lemma cursor_back_at: "cursor_back s c xs p b u \<Longrightarrow> cursor_at s c xs p"
  by (auto simp: cursor_at_def cursor_back_def)

lemma leaf_start_index:
  assumes "cur c lv t" "arrays c"
  shows "leaf_start c lv t \<longleftrightarrow> entryIndex c = Some 0"
  using assms
proof (induction c lv t rule: cur.induct)
  case (1 c lv a kvs)
  then show ?case using entryIndex_ok [of c lv] by auto
next
  case (2 c lv a ks ts)
  obtain j where j: "ancestorsIdx c ! lv = int j - 1" "j < length ts" "cur c (Suc lv) (ts ! j)"
    using cur_NdE [OF "2.prems"(1)] by metis
  have "nat (ancestorsIdx c ! lv + 1) = j" using j(1) by simp
  then show ?case using "2.IH" j "2.prems"(2) start_child(1) [OF j(1,2)] by auto
qed

lemma moveToPrev2_at:
  assumes "cursor_back s c xs p b u"
  shows "if p = 0 then moveToPrev2 s c = Some c
    else if b \<and> u then moveToPrev2 s c = None
    else \<exists>c' b' u'. moveToPrev2 s c = Some c' \<and> cursor_back s c' xs (if b then p else p - 1) b' u' \<and> (b \<longrightarrow> \<not> b')"
proof -
  obtain h t where t: "rel_inv s h t" "contents t = xs" "length xs \<le> capacity" "arrays c" "cur c 0 t" "pos c 0 t = p"
    "leaf_start c 0 t = b" "to_leftmost c 0 t = u" using assms by (auto simp: cursor_back_def)
  note i = rel_invD [OF t(1)]
  have h: "0 + h < MAX_TREE_DEPTH" using height_bound [OF i(4,5)] t by simp
  have "isFirst s c = Some (p = 0)"
    using looks_at_first [OF cur_leaf [OF i(2) t(5,4) i(4)]] t(6) by simp
  then have eq: "moveToPrev2 s c = (if p = 0 then Some c else retreat s c)"
    by (simp add: moveToPrev2_def retreat_def)
  show ?thesis
  proof (cases "p = 0 \<or> b \<and> u")
    case True
    then show ?thesis using eq retreat_cases [OF i(2,4,5) h t(4,5)] t by auto
  next
    case False
    then have "retreated s c 0 t" using retreat_cases [OF i(2,4,5) h t(4,5)] t by auto
    then obtain c' where c': "retreat s c = Some c'" "cur c' 0 t" "arrays c'"
      "if b then pos c' 0 t = p \<and> \<not> leaf_start c' 0 t else Suc (pos c' 0 t) = p"
      using t(6,7) unfolding retreated_def by blast
    have "cursor_back s c' xs (pos c' 0 t) (leaf_start c' 0 t) (to_leftmost c' 0 t)"
      using t(1-3) c'(2,3) by (auto simp: cursor_back_def)
    moreover have "pos c' 0 t = (if b then p else p - 1)" using c'(4) by auto
    ultimately have "moveToPrev2 s c = Some c' \<and>
        cursor_back s c' xs (if b then p else p - 1) (leaf_start c' 0 t) (to_leftmost c' 0 t) \<and> (b \<longrightarrow> \<not> leaf_start c' 0 t)"
      using False eq c'(1,4) by auto
    then have "\<exists>c' b' u'. moveToPrev2 s c = Some c' \<and> cursor_back s c' xs (if b then p else p - 1) b' u' \<and> (b \<longrightarrow> \<not> b')"
      by blast
    moreover have "(p = 0) = False" "(b \<and> u) = False" using False by auto
    ultimately show ?thesis by (simp only: if_False)
  qed
qed

lemma RL_MoveToPrevious2_at:
  assumes "cursor_back s c xs p b u"
  shows "if p = 0 then RL_MoveToPrevious2 s c = Some c
    else if b \<and> u then RL_MoveToPrevious2 s c = None
    else \<exists>c'. RL_MoveToPrevious2 s c = Some c' \<and> cursor_at s c' xs (p - 1)"
proof -
  obtain h t where t: "rel_inv s h t" "arrays c" "cur c 0 t" "leaf_start c 0 t = b" using assms by (auto simp: cursor_back_def)
  obtain i where i: "entryIndex c = Some i" "b = (i = 0)"
    using leaf_start_index [OF t(3,2)] t(4) cur_leaf [OF rel_invD(2) [OF t(1)] t(3,2) rel_invD(4) [OF t(1)]]
    by (auto simp: looks_at_def)
  have eq: "RL_MoveToPrevious2 s c = (if b then Option.bind (moveToPrev2 s c) (moveToPrev2 s) else moveToPrev2 s c)"
    using i by (simp add: RL_MoveToPrevious2_def)
  note m = moveToPrev2_at [OF assms]
  show ?thesis
  proof (cases "p = 0 \<or> b \<and> u")
    case True
    then show ?thesis using m eq by (auto split: if_splits)
  next
    case False
    then obtain c' b' u' where c': "moveToPrev2 s c = Some c'" "cursor_back s c' xs (if b then p else p - 1) b' u'" "b \<longrightarrow> \<not> b'"
      using m by auto
    show ?thesis
    proof (cases b)
      case True
      then show ?thesis using eq c' False moveToPrev2_at [OF c'(2)] by (auto dest: cursor_back_at)
    next
      case nb: False
      then show ?thesis using eq c' False by (auto dest: cursor_back_at)
    qed
  qed
qed

end
