(* ===== verification/Conc_Sync.thy ===== *)
theory Conc_Sync
  imports DB_Prelude
begin

text \<open>
  The synchronisation primitives of \<^verbatim>\<open>src/concurrency\<close>: the mutexes of \<^verbatim>\<open>threads.c\<close> and the
  sequentially consistent atomics of \<^verbatim>\<open>SC_atomics.c\<close>. A mutex is unlocked or held by a thread.
  \<open>None\<close> from \<open>acquire\<close> means that the calling thread waits; \<open>None\<close> from \<open>release\<close> is the unlock of
  a mutex the thread does not own, which POSIX leaves undefined. An atomic variable is its content:
  each operation takes the content and returns the new one with its result, and is one step of a
  thread in the step relations of the other theories.
\<close>

section \<open>Mutexes\<close>

type_synonym tid = nat

datatype mutex = Unlocked | LockedBy tid | Destroyed

definition mutex_init :: mutex where
  "mutex_init = Unlocked"

definition acquire :: "tid \<Rightarrow> mutex \<Rightarrow> mutex option" where
  "acquire t m = (case m of Unlocked \<Rightarrow> Some (LockedBy t) | _ \<Rightarrow> None)"

definition release :: "tid \<Rightarrow> mutex \<Rightarrow> mutex option" where
  "release t m = (if m = LockedBy t then Some Unlocked else None)"

definition release2 :: "tid \<Rightarrow> mutex \<Rightarrow> mutex option" where
  "release2 t m = (if m = LockedBy t then Some Unlocked else None)"

text \<open>\<^verbatim>\<open>pthread_mutex_destroy\<close>. The programs destroy locks that the caller holds. POSIX leaves this undefined, and the
  programs rely on an implementation, like that of Linux, which lets it pass: \<open>freelock\<close> and \<open>freelock2\<close> model that
  implementation, and succeed on any initialised mutex. \<open>freelock2_posix\<close> is what POSIX promises: only an unlocked
  mutex may be destroyed.\<close>

definition freelock :: "mutex \<Rightarrow> mutex option" where
  "freelock m = (if m = Destroyed then None else Some Destroyed)"

definition freelock2 :: "mutex \<Rightarrow> mutex option" where
  "freelock2 m = (if m = Destroyed then None else Some Destroyed)"

definition freelock2_posix :: "mutex \<Rightarrow> mutex option" where
  "freelock2_posix m = (if m = Unlocked then Some Destroyed else None)"

text \<open>A new lock is held by the thread that makes it. The block behind the lock is taken to be large enough for a mutex; the
  programs allocate \<^verbatim>\<open>sizeof(lock_t)\<close> bytes, which \<^verbatim>\<open>threads.h\<close> makes two pointers and which on 64-bit Linux is less
  than a \<^verbatim>\<open>pthread_mutex_t\<close>, as its comment says.\<close>

definition makelock :: "tid \<Rightarrow> mutex option" where
  "makelock t = acquire t mutex_init"

lemma acquire_simps [simp]:
  "acquire t Unlocked = Some (LockedBy t)"
  "acquire t (LockedBy u) = None"
  "acquire t Destroyed = None"
  by (simp_all add: acquire_def)

lemma acquire_eq_Some [simp]: "acquire t m = Some m' \<longleftrightarrow> m = Unlocked \<and> m' = LockedBy t"
  by (cases m) auto

lemma release_simps [simp]:
  "release t (LockedBy t) = Some Unlocked"
  "release t Unlocked = None"
  by (simp_all add: release_def)

lemma release_eq_Some [simp]: "release t m = Some m' \<longleftrightarrow> m = LockedBy t \<and> m' = Unlocked"
  by (auto simp: release_def)

lemma release2_eq_release: "release2 = release"
  by (simp add: fun_eq_iff release_def release2_def)

lemma freelock_simps [simp]:
  "freelock (LockedBy t) = Some Destroyed"
  "freelock2 (LockedBy t) = Some Destroyed"
  by (simp_all add: freelock_def freelock2_def)

lemma makelock_held [simp]: "makelock t = Some (LockedBy t)"
  by (simp add: makelock_def mutex_init_def)

section \<open>Atomics\<close>

definition make_atomic :: "'a \<Rightarrow> 'a" where
  "make_atomic v = v"

definition make_atomic_ptr :: "'a \<Rightarrow> 'a" where
  "make_atomic_ptr v = v"

definition atom_load :: "'a \<Rightarrow> 'a" where
  "atom_load c = c"

definition atom_store :: "'a \<Rightarrow> 'a \<Rightarrow> 'a" where
  "atom_store c v = v"

text \<open>The compare-and-swap returns its result, the new content, and the new value of the variable
  that held the expected value: after a failure that variable holds the content that was seen.\<close>

definition atom_CAS :: "'a \<Rightarrow> 'a \<Rightarrow> 'a \<Rightarrow> bool \<times> 'a \<times> 'a" where
  "atom_CAS c e v = (if c = e then (True, v, e) else (False, c, c))"

definition atom_exchange :: "'a \<Rightarrow> 'a \<Rightarrow> 'a \<times> 'a" where
  "atom_exchange c v = (c, v)"

definition atomic_load_ptr :: "'a \<Rightarrow> 'a" where
  "atomic_load_ptr c = c"

definition atomic_store_ptr :: "'a \<Rightarrow> 'a \<Rightarrow> 'a" where
  "atomic_store_ptr c v = v"

definition atomic_CAS_ptr :: "'a \<Rightarrow> 'a \<Rightarrow> 'a \<Rightarrow> bool \<times> 'a \<times> 'a" where
  "atomic_CAS_ptr c e v = (if c = e then (True, v, e) else (False, c, c))"

definition atomic_exchange_ptr :: "'a \<Rightarrow> 'a \<Rightarrow> 'a \<times> 'a" where
  "atomic_exchange_ptr c v = (c, v)"

end
