(* ===== verification/Conc_Tree.thy ===== *)
theory Conc_Tree
  imports Conc_Sync "HOL-Library.Tree"
begin

text \<open>
  The abstract binary search trees the concurrent programs refine. A node of the abstract tree
  carries the address of its cell, its key and its value; \<open>pairs\<close> is the list of key/value pairs in
  order, the common specification: insertion is \<open>ins_list\<close> on it, deletion a filter.
\<close>

type_synonym 'v atree = "(addr \<times> int \<times> 'v) tree"

definition pairs :: "'v atree \<Rightarrow> (int \<times> 'v) list" where
  "pairs T = map snd (inorder T)"

definition addrs :: "'v atree \<Rightarrow> addr list" where
  "addrs T = map fst (inorder T)"

abbreviation search_tree :: "'v atree \<Rightarrow> bool" where
  "search_tree T \<equiv> strict_sorted (keys_of (pairs T))"

lemma pairs_simps [simp]:
  "pairs \<langle>\<rangle> = []"
  "pairs \<langle>l, (a, k, v), r\<rangle> = pairs l @ (k, v) # pairs r"
  by (simp_all add: pairs_def)

lemma addrs_simps [simp]:
  "addrs \<langle>\<rangle> = []"
  "addrs \<langle>l, (a, k, v), r\<rangle> = addrs l @ a # addrs r"
  by (simp_all add: addrs_def)

section \<open>Insertion\<close>

fun ains :: "addr \<Rightarrow> int \<Rightarrow> 'v \<Rightarrow> 'v atree \<Rightarrow> 'v atree" where
  "ains a x v \<langle>\<rangle> = \<langle>\<langle>\<rangle>, (a, x, v), \<langle>\<rangle>\<rangle>"
| "ains a x v \<langle>l, (b, k, w), r\<rangle> =
     (if x < k then \<langle>ains a x v l, (b, k, w), r\<rangle>
      else if k < x then \<langle>l, (b, k, w), ains a x v r\<rangle>
      else \<langle>l, (b, k, v), r\<rangle>)"

lemma search_tree_Node:
  "search_tree \<langle>l, (a, k, v), r\<rangle> \<longleftrightarrow>
     search_tree l \<and> search_tree r \<and>
     (\<forall>y\<in>set (keys_of (pairs l)). y < k) \<and> (\<forall>y\<in>set (keys_of (pairs r)). k < y)"
  by (auto simp: sorted_wrt_append; force)

lemma pairs_ains: "search_tree T \<Longrightarrow> pairs (ains a x v T) = ins_list x v (pairs T)"
proof (induction a x v T rule: ains.induct)
  case (2 a x v l b k w r)
  from "2.prems" [unfolded search_tree_Node] have st: "search_tree l" "search_tree r" and lo: "\<forall>y\<in>set (keys_of (pairs l)). y < k"
    and hi: "\<forall>y\<in>set (keys_of (pairs r)). k < y"
    by blast+
  consider "x < k" | "k < x" | "x = k" by linarith
  then show ?case
  proof cases
    case 1
    with hi have "\<forall>y\<in>set (keys_of ((k, w) # pairs r)). x < y" by auto
    with 1 "2.IH"(1) st show ?thesis by (simp add: ins_list_append_left)
  next
    case 2
    with lo have "\<forall>y\<in>set (keys_of (pairs l)). y < x" by auto
    with 2 "2.IH"(2) st show ?thesis by (simp add: ins_list_append_right)
  next
    case 3
    with lo have "\<forall>y\<in>set (keys_of (pairs l)). y < x" by auto
    with 3 show ?thesis by (simp add: ins_list_append_right)
  qed
qed simp

lemma search_tree_ains: "search_tree T \<Longrightarrow> search_tree (ains a x v T)"
  by (simp add: pairs_ains strict_sorted_ins_list)

lemma set_addrs_ains: "set (addrs (ains a x v T)) \<subseteq> insert a (set (addrs T))"
  by (induction a x v T rule: ains.induct) auto

lemma distinct_addrs_ains:
  "distinct (addrs T) \<Longrightarrow> a \<notin> set (addrs T) \<Longrightarrow> distinct (addrs (ains a x v T))"
proof (induction a x v T rule: ains.induct)
  case (2 a x v l b k w r)
  then show ?case using set_addrs_ains [of a x v l] set_addrs_ains [of a x v r]
    by (auto simp: disjoint_iff)
qed simp

section \<open>Deletion by rotation\<close>

function (sequential) apush :: "'v atree \<Rightarrow> 'v atree" where
  "apush \<langle>\<rangle> = \<langle>\<rangle>"
| "apush \<langle>l, e, \<langle>\<rangle>\<rangle> = l"
| "apush \<langle>l, e, \<langle>m, f, r\<rangle>\<rangle> = \<langle>apush \<langle>l, e, m\<rangle>, f, r\<rangle>"
  by pat_completeness auto
termination by (relation "measure size") auto

fun adel :: "int \<Rightarrow> 'v atree \<Rightarrow> 'v atree" where
  "adel x \<langle>\<rangle> = \<langle>\<rangle>"
| "adel x \<langle>l, (b, k, w), r\<rangle> =
     (if x < k then \<langle>adel x l, (b, k, w), r\<rangle>
      else if k < x then \<langle>l, (b, k, w), adel x r\<rangle>
      else apush \<langle>l, (b, k, w), r\<rangle>)"

lemma inorder_apush: "inorder (apush \<langle>l, e, r\<rangle>) = inorder l @ inorder r"
  by (induction "\<langle>l, e, r\<rangle>" arbitrary: l e r rule: apush.induct) auto

lemma pairs_apush [simp]: "pairs (apush \<langle>l, e, r\<rangle>) = pairs l @ pairs r"
  by (simp add: pairs_def inorder_apush)

lemma addrs_apush [simp]: "addrs (apush \<langle>l, e, r\<rangle>) = addrs l @ addrs r"
  by (simp add: addrs_def inorder_apush)

abbreviation del_list :: "int \<Rightarrow> (int \<times> 'v) list \<Rightarrow> (int \<times> 'v) list" where
  "del_list x ps \<equiv> filter (\<lambda>p. fst p \<noteq> x) ps"

lemma del_list_idle: "x \<notin> fst ` set ps \<Longrightarrow> del_list x ps = ps"
  by (induction ps) auto

lemma pairs_adel: "search_tree T \<Longrightarrow> pairs (adel x T) = del_list x (pairs T)"
proof (induction x T rule: adel.induct)
  case (2 x l b k w r)
  from "2.prems" [unfolded search_tree_Node] have st: "search_tree l" "search_tree r" and lo: "\<forall>y\<in>set (keys_of (pairs l)). y < k"
    and hi: "\<forall>y\<in>set (keys_of (pairs r)). k < y"
    by blast+
  have il: "k \<le> x \<Longrightarrow> del_list x (pairs l) = pairs l" and ir: "x \<le> k \<Longrightarrow> del_list x (pairs r) = pairs r"
    using lo hi by (force intro: del_list_idle)+
  consider "x < k" | "k < x" | "x = k" by linarith
  then show ?case using "2.IH" st il ir by cases simp_all
qed simp

lemma search_tree_adel: "search_tree T \<Longrightarrow> search_tree (adel x T)"
  by (simp add: pairs_adel sorted_wrt_map sorted_wrt_filter)

lemma addrs_adel_subset: "set (addrs (adel x T)) \<subseteq> set (addrs T)"
  by (induction x T rule: adel.induct) auto

lemma distinct_addrs_adel: "distinct (addrs T) \<Longrightarrow> distinct (addrs (adel x T))"
proof (induction x T rule: adel.induct)
  case (2 x l b k w r)
  then show ?case using addrs_adel_subset [of x l] addrs_adel_subset [of x r] by auto
qed simp

section \<open>Look-up\<close>

lemma map_of_pairs_Node:
  assumes "search_tree \<langle>l, (a, k, v), r\<rangle>"
  shows "map_of (pairs \<langle>l, (a, k, v), r\<rangle>) x =
    (if x < k then map_of (pairs l) x else if k < x then map_of (pairs r) x else Some v)"
proof -
  have nl: "map_of (pairs l) x = None" if "k \<le> x"
    using assms [unfolded search_tree_Node] that by (force simp: map_of_eq_None_iff)
  have nr: "map_of (pairs r) x = None" if "x \<le> k"
    using assms [unfolded search_tree_Node] that by (force simp: map_of_eq_None_iff)
  consider "x < k" | "k < x" | "x = k" by linarith
  then show ?thesis using nl nr by cases (simp_all add: map_add_def split: option.split)
qed

lemma map_of_del_list: "map_of (del_list x ps) = (map_of ps)(x := None)"
  by (induction ps) (auto simp: fun_eq_iff)

end
