(* ===== verification/Conc_Coarse.thy ===== *)
theory Conc_Coarse
  imports Conc_Tree
begin

text \<open>
  The binary search trees under one lock: \<^verbatim>\<open>src/concurrency/bst_conc_cglock.c\<close> (suffix \<open>_cg\<close>), where
  every operation takes the lock itself, and \<^verbatim>\<open>src/concurrency/bst_conc_cglock3.c\<close> (suffix \<open>_cg3\<close>), where
  sequential operations on a \<^verbatim>\<open>struct tree **\<close> are wrapped in the lock. A \<open>tree_mem\<close> is the memory
  behind one treebox: the pointer \<^verbatim>\<open>tgt->t\<close>, the nodes, the lock, and which of the three other
  blocks of the treebox are allocated. A C pointer to a pointer is an \<open>lval\<close>. Each \<open>_iter\<close> function
  is one turn of the \<^verbatim>\<open>for(;;)\<close> of its operation: it says where the loop continues, or that it returns.
\<close>

section \<open>Memory\<close>

record tnode =
  tkey :: int
  tval :: cptr
  tleft :: cptr
  tright :: cptr

datatype obj = BoxObj | TreeObj | LockObj

record tree_mem =
  tb_root :: cptr
  tb_nodes :: "addr \<Rightarrow> tnode option"
  tb_next :: addr
  tb_lock :: mutex
  tb_objs :: "obj set"

datatype lval = Root | LeftOf addr | RightOf addr

fun lread :: "tree_mem \<Rightarrow> lval \<Rightarrow> cptr option" where
  "lread s Root = Some (tb_root s)"
| "lread s (LeftOf a) = map_option tleft (tb_nodes s a)"
| "lread s (RightOf a) = map_option tright (tb_nodes s a)"

fun lput :: "tree_mem \<Rightarrow> lval \<Rightarrow> cptr \<Rightarrow> tree_mem" where
  "lput s Root p = s\<lparr>tb_root := p\<rparr>"
| "lput s (LeftOf a) p =
     s\<lparr>tb_nodes := (tb_nodes s)(a := map_option (\<lambda>n. n\<lparr>tleft := p\<rparr>) (tb_nodes s a))\<rparr>"
| "lput s (RightOf a) p =
     s\<lparr>tb_nodes := (tb_nodes s)(a := map_option (\<lambda>n. n\<lparr>tright := p\<rparr>) (tb_nodes s a))\<rparr>"

definition lwrite :: "tree_mem \<Rightarrow> lval \<Rightarrow> cptr \<Rightarrow> tree_mem option" where
  "lwrite s lv p = (case lread s lv of None \<Rightarrow> None | Some _ \<Rightarrow> Some (lput s lv p))"

definition free_node :: "tree_mem \<Rightarrow> addr \<Rightarrow> tree_mem option" where
  "free_node s a = (case tb_nodes s a of None \<Rightarrow> None | Some _ \<Rightarrow> Some (s\<lparr>tb_nodes := (tb_nodes s)(a := None)\<rparr>))"

definition free_obj :: "tree_mem \<Rightarrow> obj \<Rightarrow> tree_mem option" where
  "free_obj s x = (if x \<in> tb_objs s then Some (s\<lparr>tb_objs := tb_objs s - {x}\<rparr>) else None)"

definition lock_op :: "(mutex \<Rightarrow> mutex option) \<Rightarrow> tree_mem \<Rightarrow> tree_mem option" where
  "lock_op f s = (if LockObj \<in> tb_objs s
     then (case f (tb_lock s) of None \<Rightarrow> None | Some m \<Rightarrow> Some (s\<lparr>tb_lock := m\<rparr>)) else None)"

section \<open>The locked operations of \<^verbatim>\<open>bst_conc_cglock.c\<close>\<close>

definition treebox_new_cg :: "tid \<Rightarrow> tree_mem option" where
  "treebox_new_cg t = do {
     m \<leftarrow> makelock t;
     m \<leftarrow> release t m;
     Some \<lparr>tb_root = None, tb_nodes = (\<lambda>_. None), tb_next = 0, tb_lock = m,
           tb_objs = {BoxObj, TreeObj, LockObj}\<rparr> }"

partial_function (option) tree_free_cg :: "tree_mem \<Rightarrow> cptr \<Rightarrow> tree_mem option" where
  "tree_free_cg s p = (case p of None \<Rightarrow> Some s
     | Some a \<Rightarrow> do {
         n \<leftarrow> tb_nodes s a;
         s \<leftarrow> free_node s a;
         s \<leftarrow> tree_free_cg s (tleft n);
         tree_free_cg s (tright n) })"

definition treebox_free_cg :: "tid \<Rightarrow> tree_mem \<Rightarrow> tree_mem option" where
  "treebox_free_cg t s = do {
     s \<leftarrow> lock_op (acquire t) s;
     s \<leftarrow> lock_op freelock s;
     s \<leftarrow> tree_free_cg s (tb_root s);
     s \<leftarrow> free_obj s TreeObj;
     s \<leftarrow> free_obj s LockObj;
     free_obj s BoxObj }"

definition insert_iter :: "tree_mem \<Rightarrow> lval \<Rightarrow> int \<Rightarrow> cptr \<Rightarrow> (tree_mem \<times> lval option) option" where
  "insert_iter s tr x v = do {
     p \<leftarrow> lread s tr;
     (case p of
        None \<Rightarrow> do {
          let a = tb_next s;
          let s = s\<lparr>tb_next := tb_next s + 1\<rparr>;
          s \<leftarrow> lwrite s tr (Some a);
          Some (s\<lparr>tb_nodes := (tb_nodes s)(a \<mapsto> \<lparr>tkey = x, tval = v, tleft = None, tright = None\<rparr>)\<rparr>, None) }
      | Some a \<Rightarrow> do {
          n \<leftarrow> tb_nodes s a;
          let y = tkey n;
          if x < y then Some (s, Some (LeftOf a))
          else if y < x then Some (s, Some (RightOf a))
          else Some (s\<lparr>tb_nodes := (tb_nodes s)(a \<mapsto> n\<lparr>tval := v\<rparr>)\<rparr>, None) }) }"

partial_function (option) insert_loop :: "tree_mem \<Rightarrow> lval \<Rightarrow> int \<Rightarrow> cptr \<Rightarrow> tree_mem option" where
  "insert_loop s tr x v = do {
     (s, c) \<leftarrow> insert_iter s tr x v;
     (case c of None \<Rightarrow> Some s | Some tr \<Rightarrow> insert_loop s tr x v) }"

definition insert_cg :: "tid \<Rightarrow> tree_mem \<Rightarrow> int \<Rightarrow> cptr \<Rightarrow> tree_mem option" where
  "insert_cg t s x v = do {
     s \<leftarrow> lock_op (acquire t) s;
     s \<leftarrow> insert_loop s Root x v;
     lock_op (release t) s }"

text \<open>One turn of the \<^verbatim>\<open>while\<close> of \<^verbatim>\<open>lookup\<close>: the next pointer, or the value to return.\<close>

definition lookup_iter :: "tree_mem \<Rightarrow> cptr \<Rightarrow> int \<Rightarrow> (cptr + cptr) option" where
  "lookup_iter s p x = (case p of
     None \<Rightarrow> Some (Inr None)
   | Some a \<Rightarrow> do {
       n \<leftarrow> tb_nodes s a;
       let y = tkey n;
       if x < y then Some (Inl (tleft n))
       else if y < x then Some (Inl (tright n))
       else Some (Inr (tval n)) })"

partial_function (option) lookup_loop :: "tree_mem \<Rightarrow> cptr \<Rightarrow> int \<Rightarrow> cptr option" where
  "lookup_loop s p x = do {
     c \<leftarrow> lookup_iter s p x;
     (case c of Inl p \<Rightarrow> lookup_loop s p x | Inr v \<Rightarrow> Some v) }"

definition lookup_cg :: "tid \<Rightarrow> tree_mem \<Rightarrow> int \<Rightarrow> (tree_mem \<times> cptr) option" where
  "lookup_cg t s x = do {
     s \<leftarrow> lock_op (acquire t) s;
     v \<leftarrow> lookup_loop s (tb_root s) x;
     s \<leftarrow> lock_op (release t) s;
     Some (s, v) }"

text \<open>\<^verbatim>\<open>turn_left(_l, l, r)\<close>: \<open>r\<close> becomes the root and \<open>l\<close> its left child.\<close>

definition turn_left :: "tree_mem \<Rightarrow> lval \<Rightarrow> addr \<Rightarrow> addr \<Rightarrow> tree_mem option" where
  "turn_left s lv l r = do {
     mid \<leftarrow> lread s (LeftOf r);
     s \<leftarrow> lwrite s (RightOf l) mid;
     s \<leftarrow> lwrite s (LeftOf r) (Some l);
     lwrite s lv (Some r) }"

definition pushdown_iter :: "tree_mem \<Rightarrow> lval \<Rightarrow> (tree_mem \<times> lval option) option" where
  "pushdown_iter s t = do {
     p \<leftarrow> lread s t;
     p \<leftarrow> p;
     q \<leftarrow> lread s (RightOf p);
     (case q of
        None \<Rightarrow> do {
          q \<leftarrow> lread s (LeftOf p);
          s \<leftarrow> lwrite s t q;
          s \<leftarrow> free_node s p;
          Some (s, None) }
      | Some q \<Rightarrow> do {
          s \<leftarrow> turn_left s t p q;
          Some (s, Some (LeftOf q)) }) }"

partial_function (option) pushdown_left :: "tree_mem \<Rightarrow> lval \<Rightarrow> tree_mem option" where
  "pushdown_left s t = do {
     (s, c) \<leftarrow> pushdown_iter s t;
     (case c of None \<Rightarrow> Some s | Some t \<Rightarrow> pushdown_left s t) }"

datatype del_next = DelReturn | DelAt lval | DelPush lval

definition delete_iter :: "tree_mem \<Rightarrow> lval \<Rightarrow> int \<Rightarrow> del_next option" where
  "delete_iter s tr x = do {
     p \<leftarrow> lread s tr;
     (case p of
        None \<Rightarrow> Some DelReturn
      | Some a \<Rightarrow> do {
          n \<leftarrow> tb_nodes s a;
          let y = tkey n;
          if x < y then Some (DelAt (LeftOf a))
          else if y < x then Some (DelAt (RightOf a))
          else Some (DelPush tr) }) }"

partial_function (option) delete_loop :: "tree_mem \<Rightarrow> lval \<Rightarrow> int \<Rightarrow> tree_mem option" where
  "delete_loop s tr x = do {
     c \<leftarrow> delete_iter s tr x;
     (case c of DelReturn \<Rightarrow> Some s | DelAt tr \<Rightarrow> delete_loop s tr x | DelPush tr \<Rightarrow> pushdown_left s tr) }"

definition delete_cg :: "tid \<Rightarrow> tree_mem \<Rightarrow> int \<Rightarrow> tree_mem option" where
  "delete_cg t s x = do {
     s \<leftarrow> lock_op (acquire t) s;
     s \<leftarrow> delete_loop s Root x;
     lock_op (release t) s }"

section \<open>The wrapped operations of \<^verbatim>\<open>bst_conc_cglock3.c\<close>\<close>

definition treebox_new_cg3 :: "tid \<Rightarrow> tree_mem option" where
  "treebox_new_cg3 t = do {
     m \<leftarrow> makelock t;
     m \<leftarrow> release t m;
     Some \<lparr>tb_root = None, tb_nodes = (\<lambda>_. None), tb_next = 0, tb_lock = m,
           tb_objs = {BoxObj, TreeObj, LockObj}\<rparr> }"

partial_function (option) tree_free_cg3 :: "tree_mem \<Rightarrow> cptr \<Rightarrow> tree_mem option" where
  "tree_free_cg3 s p = (case p of None \<Rightarrow> Some s
     | Some a \<Rightarrow> do {
         n \<leftarrow> tb_nodes s a;
         s \<leftarrow> free_node s a;
         s \<leftarrow> tree_free_cg3 s (tleft n);
         tree_free_cg3 s (tright n) })"

definition treebox_free_cg3 :: "tid \<Rightarrow> tree_mem \<Rightarrow> tree_mem option" where
  "treebox_free_cg3 t s = do {
     s \<leftarrow> lock_op (acquire t) s;
     s \<leftarrow> tree_free_cg3 s (tb_root s);
     s \<leftarrow> lock_op freelock2 s;
     s \<leftarrow> free_obj s LockObj;
     free_obj s BoxObj }"

partial_function (option) insert_cg3 :: "tree_mem \<Rightarrow> lval \<Rightarrow> int \<Rightarrow> cptr \<Rightarrow> tree_mem option" where
  "insert_cg3 s t x v = do {
     p \<leftarrow> lread s t;
     (case p of
        None \<Rightarrow> do {
          let a = tb_next s;
          let s = s\<lparr>tb_next := tb_next s + 1,
                    tb_nodes := (tb_nodes s)(a \<mapsto> \<lparr>tkey = x, tval = v, tleft = None, tright = None\<rparr>)\<rparr>;
          lwrite s t (Some a) }
      | Some a \<Rightarrow> do {
          n \<leftarrow> tb_nodes s a;
          let y = tkey n;
          if x < y then insert_cg3 s (LeftOf a) x v
          else if y < x then insert_cg3 s (RightOf a) x v
          else Some (s\<lparr>tb_nodes := (tb_nodes s)(a \<mapsto> n\<lparr>tval := v\<rparr>)\<rparr>) }) }"

definition turn_left_cg3 :: "tree_mem \<Rightarrow> lval \<Rightarrow> addr \<Rightarrow> addr \<Rightarrow> tree_mem option" where
  "turn_left_cg3 s lv l r = do {
     mid \<leftarrow> lread s (LeftOf r);
     s \<leftarrow> lwrite s (RightOf l) mid;
     s \<leftarrow> lwrite s (LeftOf r) (Some l);
     lwrite s lv (Some r) }"

partial_function (option) pushdown_left_cg3 :: "tree_mem \<Rightarrow> lval \<Rightarrow> tree_mem option" where
  "pushdown_left_cg3 s t = do {
     p \<leftarrow> lread s t;
     p \<leftarrow> p;
     q \<leftarrow> lread s (RightOf p);
     (case q of
        None \<Rightarrow> do {
          q \<leftarrow> lread s (LeftOf p);
          s \<leftarrow> lwrite s t q;
          free_node s p }
      | Some q \<Rightarrow> do {
          s \<leftarrow> turn_left_cg3 s t p q;
          pushdown_left_cg3 s (LeftOf q) }) }"

partial_function (option) delete_cg3 :: "tree_mem \<Rightarrow> lval \<Rightarrow> int \<Rightarrow> tree_mem option" where
  "delete_cg3 s t x = do {
     p \<leftarrow> lread s t;
     (case p of
        None \<Rightarrow> Some s
      | Some a \<Rightarrow> do {
          n \<leftarrow> tb_nodes s a;
          let y = tkey n;
          if x < y then delete_cg3 s (LeftOf a) x
          else if y < x then delete_cg3 s (RightOf a) x
          else pushdown_left_cg3 s t }) }"

partial_function (option) lookup_cg3_loop :: "tree_mem \<Rightarrow> cptr \<Rightarrow> int \<Rightarrow> cptr option" where
  "lookup_cg3_loop s p x = (case p of
     None \<Rightarrow> Some None
   | Some a \<Rightarrow> do {
       n \<leftarrow> tb_nodes s a;
       let y = tkey n;
       if x < y then lookup_cg3_loop s (tleft n) x
       else if y < x then lookup_cg3_loop s (tright n) x
       else Some (tval n) })"

definition lookup_cg3 :: "tree_mem \<Rightarrow> lval \<Rightarrow> int \<Rightarrow> cptr option" where
  "lookup_cg3 s t x = do { p \<leftarrow> lread s t; lookup_cg3_loop s p x }"

definition lookup_conc :: "tid \<Rightarrow> tree_mem \<Rightarrow> int \<Rightarrow> (tree_mem \<times> cptr) option" where
  "lookup_conc t s x = do {
     s \<leftarrow> lock_op (acquire t) s;
     v \<leftarrow> lookup_cg3 s Root x;
     s \<leftarrow> lock_op (release t) s;
     Some (s, v) }"

definition insert_conc :: "tid \<Rightarrow> tree_mem \<Rightarrow> int \<Rightarrow> cptr \<Rightarrow> tree_mem option" where
  "insert_conc t s x v = do {
     s \<leftarrow> lock_op (acquire t) s;
     s \<leftarrow> insert_cg3 s Root x v;
     lock_op (release t) s }"

definition delete_conc :: "tid \<Rightarrow> tree_mem \<Rightarrow> int \<Rightarrow> tree_mem option" where
  "delete_conc t s x = do {
     s \<leftarrow> lock_op (acquire t) s;
     s \<leftarrow> delete_cg3 s Root x;
     lock_op (release t) s }"

end
