(* ===== verification/Conc_CoarseSeq.thy ===== *)
theory Conc_CoarseSeq
  imports Conc_Coarse
begin

text \<open>
  Sequential correctness of the tree operations of the coarse-locked programs: on a well-formed tree
  every loop returns, and it acts on the abstract tree as \<open>ains\<close>, \<open>adel\<close> and \<open>map_of\<close>. A sub-tree is
  reached through an \<open>lval\<close>; \<open>changed\<close> says that an operation replaced the sub-tree below it and
  touched nothing else.
\<close>

section \<open>Trees in memory\<close>

fun ptr_of :: "'v atree \<Rightarrow> cptr" where
  "ptr_of \<langle>\<rangle> = None"
| "ptr_of \<langle>l, (a, k, v), r\<rangle> = Some a"

fun heap_tree :: "(addr \<Rightarrow> tnode option) \<Rightarrow> cptr atree \<Rightarrow> bool" where
  "heap_tree h \<langle>\<rangle> = True"
| "heap_tree h \<langle>l, (a, k, v), r\<rangle> \<longleftrightarrow>
     h a = Some \<lparr>tkey = k, tval = v, tleft = ptr_of l, tright = ptr_of r\<rparr> \<and> heap_tree h l \<and> heap_tree h r"

lemma heap_tree_cong:
  "(\<And>a. a \<in> set (addrs T) \<Longrightarrow> h a = h' a) \<Longrightarrow> heap_tree h T = heap_tree h' T"
  by (induction T rule: heap_tree.induct) (simp_all del: option.inject)

lemma heap_tree_upd [simp]: "b \<notin> set (addrs T) \<Longrightarrow> heap_tree (h(b := c)) T = heap_tree h T"
  by (rule heap_tree_cong) auto

lemma heap_tree_dom: "heap_tree h T \<Longrightarrow> a \<in> set (addrs T) \<Longrightarrow> h a \<noteq> None"
  by (induction h T rule: heap_tree.induct) auto

fun lv_addrs :: "lval \<Rightarrow> addr set" where
  "lv_addrs Root = {}"
| "lv_addrs (LeftOf a) = {a}"
| "lv_addrs (RightOf a) = {a}"

definition sub_tree :: "tree_mem \<Rightarrow> lval \<Rightarrow> cptr atree \<Rightarrow> bool" where
  "sub_tree s lv T \<longleftrightarrow>
     lread s lv = Some (ptr_of T) \<and> heap_tree (tb_nodes s) T \<and> distinct (addrs T) \<and>
     lv_addrs lv \<inter> set (addrs T) = {} \<and> (\<forall>a\<in>dom (tb_nodes s). a < tb_next s)"

text \<open>The operation that took \<open>s\<close> to \<open>s'\<close> replaced the sub-tree \<open>T\<close> at \<open>lv\<close> by \<open>T'\<close>.\<close>

definition changed :: "tree_mem \<Rightarrow> lval \<Rightarrow> cptr atree \<Rightarrow> cptr atree \<Rightarrow> tree_mem \<Rightarrow> bool" where
  "changed s lv T T' s' \<longleftrightarrow>
     sub_tree s' lv T' \<and> tb_root s' = tb_root (lput s lv (ptr_of T')) \<and>
     tb_lock s' = tb_lock s \<and> tb_objs s' = tb_objs s \<and>
     (\<forall>a. a \<notin> set (addrs T) \<union> set (addrs T') \<longrightarrow> tb_nodes s' a = tb_nodes (lput s lv (ptr_of T')) a) \<and>
     (\<forall>a\<in>set (addrs T') - set (addrs T). tb_nodes s a = None) \<and>
     (\<forall>a\<in>set (addrs T) - set (addrs T'). tb_nodes s' a = None)"

lemma lput_fields [simp]:
  "tb_lock (lput s lv p) = tb_lock s" "tb_objs (lput s lv p) = tb_objs s" "tb_next (lput s lv p) = tb_next s"
  by (cases lv; simp)+

lemma lput_other: "a \<notin> lv_addrs lv \<Longrightarrow> tb_nodes (lput s lv p) a = tb_nodes s a"
  by (cases lv) auto

lemma heap_tree_lput [simp]:
  "lv_addrs lv \<inter> set (addrs T) = {} \<Longrightarrow> heap_tree (tb_nodes (lput s lv p)) T = heap_tree (tb_nodes s) T"
  by (rule heap_tree_cong) (metis disjoint_iff lput_other)

lemma lput_dom [simp]: "tb_nodes (lput s lv p) a = None \<longleftrightarrow> tb_nodes s a = None"
  by (cases lv) auto

lemma lread_lput: "lread s lv \<noteq> None \<Longrightarrow> lread (lput s lv p) lv = Some p"
  by (cases lv) auto

lemma lread_dom: "lread s lv = Some p \<Longrightarrow> a \<in> lv_addrs lv \<Longrightarrow> tb_nodes s a \<noteq> None"
  by (cases lv) auto

lemma lwrite_eq: "lread s lv = Some q \<Longrightarrow> lwrite s lv p = Some (lput s lv p)"
  by (simp add: lwrite_def)

lemma lput_same: "lread s lv = Some p \<Longrightarrow> lput s lv p = s"
  by (cases lv) (auto simp: fun_eq_iff intro!: tree_mem.equality)

text \<open>A sub-tree's own sub-trees, and the way back up.\<close>

lemma sub_tree_left:
  "sub_tree s lv \<langle>l, (a, k, v), r\<rangle> \<Longrightarrow> sub_tree s (LeftOf a) l"
  by (auto simp: sub_tree_def)

lemma sub_tree_right:
  "sub_tree s lv \<langle>l, (a, k, v), r\<rangle> \<Longrightarrow> sub_tree s (RightOf a) r"
  by (auto simp: sub_tree_def)

lemma lread_frame:
  "(\<And>a. a \<in> lv_addrs lv \<Longrightarrow> tb_nodes s' a = tb_nodes s a) \<Longrightarrow> tb_root s' = tb_root s \<Longrightarrow> lread s' lv = lread s lv"
  by (cases lv) auto

lemma changed_left:
  assumes "sub_tree s lv \<langle>l, (a, k, v), r\<rangle>" and "changed s (LeftOf a) l l' s'"
  shows "changed s lv \<langle>l, (a, k, v), r\<rangle> \<langle>l', (a, k, v), r\<rangle> s'"
proof -
  note st = assms(1) [unfolded sub_tree_def] and ch = assms(2) [unfolded changed_def sub_tree_def]
  have dom: "tb_nodes s b \<noteq> None" if "b \<in> set (addrs \<langle>l, (a, k, v), r\<rangle>) \<union> lv_addrs lv" for b
    using that st heap_tree_dom lread_dom by blast
  have new: "b \<notin> set (addrs l')" if "b \<in> insert a (set (addrs r)) \<union> lv_addrs lv" for b
    using that dom [of b] st ch by (cases "b \<in> set (addrs l)") auto
  have same: "tb_nodes s' b = tb_nodes s b" if "b \<in> set (addrs r) \<union> lv_addrs lv" for b
    using that new [of b] st ch by auto
  have here: "tb_nodes s' a = Some \<lparr>tkey = k, tval = v, tleft = ptr_of l', tright = ptr_of r\<rparr>"
    using new [of a] st ch by auto
  have r: "heap_tree (tb_nodes s') r"
    using st same heap_tree_cong [of r "tb_nodes s'" "tb_nodes s"] by auto
  have root: "tb_root s' = tb_root s" using ch by simp
  have lv: "lread s' lv = lread s lv" using same root by (intro lread_frame) auto
  have sub: "sub_tree s' lv \<langle>l', (a, k, v), r\<rangle>"
    using st ch lv here r new by (auto simp: sub_tree_def disjoint_iff)
  have id: "lput s lv (Some a) = s" using st by (simp add: lput_same)
  show ?thesis using ch sub root id by (auto simp: changed_def)
qed

lemma changed_right:
  assumes "sub_tree s lv \<langle>l, (a, k, v), r\<rangle>" and "changed s (RightOf a) r r' s'"
  shows "changed s lv \<langle>l, (a, k, v), r\<rangle> \<langle>l, (a, k, v), r'\<rangle> s'"
proof -
  note st = assms(1) [unfolded sub_tree_def] and ch = assms(2) [unfolded changed_def sub_tree_def]
  have dom: "tb_nodes s b \<noteq> None" if "b \<in> set (addrs \<langle>l, (a, k, v), r\<rangle>) \<union> lv_addrs lv" for b
    using that st heap_tree_dom lread_dom by blast
  have new: "b \<notin> set (addrs r')" if "b \<in> insert a (set (addrs l)) \<union> lv_addrs lv" for b
    using that dom [of b] st ch by (cases "b \<in> set (addrs r)") auto
  have same: "tb_nodes s' b = tb_nodes s b" if "b \<in> set (addrs l) \<union> lv_addrs lv" for b
    using that new [of b] st ch by auto
  have here: "tb_nodes s' a = Some \<lparr>tkey = k, tval = v, tleft = ptr_of l, tright = ptr_of r'\<rparr>"
    using new [of a] st ch by auto
  have l: "heap_tree (tb_nodes s') l"
    using st same heap_tree_cong [of l "tb_nodes s'" "tb_nodes s"] by auto
  have root: "tb_root s' = tb_root s" using ch by simp
  have lv: "lread s' lv = lread s lv" using same root by (intro lread_frame) auto
  have sub: "sub_tree s' lv \<langle>l, (a, k, v), r'\<rangle>"
    using st ch lv here l new by (auto simp: sub_tree_def disjoint_iff)
  have id: "lput s lv (Some a) = s" using st by (simp add: lput_same)
  show ?thesis using ch sub root id by (auto simp: changed_def)
qed

section \<open>Insertion\<close>

lemma insert_loop_changes:
  "sub_tree s lv T \<Longrightarrow> \<exists>s'. insert_loop s lv x v = Some s' \<and> changed s lv T (ains (tb_next s) x v T) s' \<and>
     tb_next s \<le> tb_next s'"
proof (induction T arbitrary: lv)
  case Leaf
  let ?a = "tb_next s"
  let ?s' = "lput (s\<lparr>tb_next := ?a + 1\<rparr>) lv (Some ?a)"
  let ?n = "\<lparr>tkey = x, tval = v, tleft = None, tright = None\<rparr>"
  let ?s'' = "?s'\<lparr>tb_nodes := (tb_nodes ?s')(?a \<mapsto> ?n)\<rparr>"
  from Leaf have rd: "lread s lv = Some None" and fr: "\<forall>a\<in>dom (tb_nodes s). a < ?a"
    by (auto simp: sub_tree_def)
  have new: "tb_nodes s ?a = None" using fr by (metis domIff order_less_irrefl)
  have lv: "?a \<notin> lv_addrs lv" using rd new lread_dom by blast
  have rd1: "lread (s\<lparr>tb_next := ?a + 1\<rparr>) lv = Some None" using rd by (cases lv) auto
  have it: "insert_iter s lv x v = Some (?s'', None)"
    using lwrite_eq [OF rd1, of "Some ?a"] by (simp add: insert_iter_def rd Let_def)
  have rd2: "lread ?s'' lv = Some (Some ?a)"
    using lv rd by (cases lv) (auto split: option.splits)
  have "changed s lv \<langle>\<rangle> \<langle>\<langle>\<rangle>, (?a, x, v), \<langle>\<rangle>\<rangle> ?s''"
    using lv rd2 fr new by (cases lv) (auto simp: changed_def sub_tree_def less_Suc_eq domI)
  then show ?case by (subst insert_loop.simps) (simp add: it)
next
  case (Node l e r)
  obtain b k w where e: "e = (b, k, w)" by (cases e)
  note st = Node.prems [unfolded e]
  then have h: "lread s lv = Some (Some b)"
      "tb_nodes s b = Some \<lparr>tkey = k, tval = w, tleft = ptr_of l, tright = ptr_of r\<rparr>"
    by (simp_all add: sub_tree_def)
  consider "x < k" | "k < x" | "x = k" by linarith
  then show ?case
  proof cases
    case 1
    then have it: "insert_iter s lv x v = Some (s, Some (LeftOf b))" by (simp add: insert_iter_def h)
    show ?thesis using Node.IH(1) [OF sub_tree_left [OF st]] 1
      by (subst insert_loop.simps) (auto simp: it e changed_left [OF st])
  next
    case 2
    then have it: "insert_iter s lv x v = Some (s, Some (RightOf b))" by (simp add: insert_iter_def h)
    show ?thesis using Node.IH(2) [OF sub_tree_right [OF st]] 2
      by (subst insert_loop.simps) (auto simp: it e changed_right [OF st])
  next
    case 3
    let ?s' = "s\<lparr>tb_nodes := (tb_nodes s)(b \<mapsto> \<lparr>tkey = k, tval = v, tleft = ptr_of l, tright = ptr_of r\<rparr>)\<rparr>"
    from 3 have it: "insert_iter s lv x v = Some (?s', None)" by (simp add: insert_iter_def h)
    have "lread ?s' lv = lread s lv" using st by (intro lread_frame) (auto simp: sub_tree_def)
    then have ch: "changed s lv \<langle>l, (b, k, w), r\<rangle> \<langle>l, (b, k, v), r\<rangle> ?s'"
      using st by (auto simp: changed_def sub_tree_def lput_same h(1))
    show ?thesis by (subst insert_loop.simps) (use it ch 3 in \<open>simp add: e\<close>)
  qed
qed

section \<open>Deletion\<close>

lemma turn_left_changes:
  assumes st: "sub_tree s lv \<langle>l, (p, k, v), \<langle>m, (q, j, w), r\<rangle>\<rangle>"
  obtains s' where "turn_left s lv p q = Some s'"
    and "changed s lv \<langle>l, (p, k, v), \<langle>m, (q, j, w), r\<rangle>\<rangle> \<langle>\<langle>l, (p, k, v), m\<rangle>, (q, j, w), r\<rangle> s'"
    and "tb_next s' = tb_next s"
proof -
  let ?s1 = "lput s (RightOf p) (ptr_of m)"
  let ?s2 = "lput ?s1 (LeftOf q) (Some p)"
  let ?s3 = "lput ?s2 lv (Some q)"
  note u = st [unfolded sub_tree_def]
  have np: "tb_nodes s p = Some \<lparr>tkey = k, tval = v, tleft = ptr_of l, tright = Some q\<rparr>"
    and nq: "tb_nodes s q = Some \<lparr>tkey = j, tval = w, tleft = ptr_of m, tright = ptr_of r\<rparr>"
    and pq: "p \<noteq> q" "p \<notin> lv_addrs lv" "q \<notin> lv_addrs lv" using u by auto
  have rd: "lread ?s2 lv = Some (Some p)" using u pq by (cases lv) auto
  have t: "turn_left s lv p q = Some ?s3"
    using np nq pq lwrite_eq [OF rd, of "Some q"] by (simp add: turn_left_def lwrite_def)
  have dm: "tb_nodes ?s3 a = None \<longleftrightarrow> tb_nodes s a = None" for a by (metis lput_dom)
  have other: "tb_nodes ?s3 a = tb_nodes (lput s lv (Some q)) a" if "a \<noteq> p" "a \<noteq> q" for a
    using that by (cases lv) auto
  have np': "tb_nodes ?s3 p = Some \<lparr>tkey = k, tval = v, tleft = ptr_of l, tright = ptr_of m\<rparr>"
    and nq': "tb_nodes ?s3 q = Some \<lparr>tkey = j, tval = w, tleft = Some p, tright = ptr_of r\<rparr>"
    using np nq pq by (simp_all add: lput_other)
  have frame: "heap_tree (tb_nodes ?s3) l" "heap_tree (tb_nodes ?s3) m" "heap_tree (tb_nodes ?s3) r"
    using u by (simp_all add: Int_Un_distrib)
  have rd3: "lread ?s3 lv = Some (Some q)" using rd by (simp add: lread_lput)
  have sub: "sub_tree ?s3 lv \<langle>\<langle>l, (p, k, v), m\<rangle>, (q, j, w), r\<rangle>"
    unfolding sub_tree_def using u np' nq' rd3 pq dm frame
    by (auto simp: domIff simp del: lput.simps)
  have "tb_root ?s3 = tb_root (lput s lv (Some q))" by (cases lv) auto
  then have "changed s lv \<langle>l, (p, k, v), \<langle>m, (q, j, w), r\<rangle>\<rangle> \<langle>\<langle>l, (p, k, v), m\<rangle>, (q, j, w), r\<rangle> ?s3"
    using sub other by (auto simp: changed_def)
  from that [OF t this] show thesis by simp
qed

lemma changed_trans:
  assumes "changed s lv T U s'" "changed s' lv U V s''" "sub_tree s lv T"
    and "set (addrs U) = set (addrs T)" "set (addrs V) \<subseteq> set (addrs U)"
  shows "changed s lv T V s''"
proof -
  have "tb_nodes (lput s' lv p) a = tb_nodes (lput s lv p) a" if "a \<notin> set (addrs T)" for a p
    using assms(1,4) that by (cases lv) (auto simp: changed_def option.map_comp comp_def)
  moreover have "tb_root (lput s' lv p) = tb_root (lput s lv p)" for p
    using assms(1) by (cases lv) (auto simp: changed_def)
  ultimately show ?thesis using assms by (auto simp: changed_def)
qed

lemma pushdown_left_changes:
  "sub_tree s lv \<langle>l, e, r\<rangle> \<Longrightarrow>
   \<exists>s'. pushdown_left s lv = Some s' \<and> changed s lv \<langle>l, e, r\<rangle> (apush \<langle>l, e, r\<rangle>) s' \<and> tb_next s' = tb_next s"
proof (induction "\<langle>l, e, r\<rangle>" arbitrary: s lv l e r rule: apush.induct)
  case (2 l e)
  obtain p k v where e: "e = (p, k, v)" by (cases e)
  let ?s1 = "lput s lv (ptr_of l)"
  let ?s2 = "?s1\<lparr>tb_nodes := (tb_nodes ?s1)(p := None)\<rparr>"
  note u = "2.prems" [unfolded sub_tree_def e]
  have np: "tb_nodes s p = Some \<lparr>tkey = k, tval = v, tleft = ptr_of l, tright = None\<rparr>"
    and rd: "lread s lv = Some (Some p)" and pl: "p \<notin> lv_addrs lv" using u by auto
  have fr: "free_node ?s1 p = Some ?s2" using np pl by (simp add: free_node_def lput_other)
  have it: "pushdown_iter s lv = Some (?s2, None)"
    by (simp add: pushdown_iter_def rd np lwrite_eq [OF rd] fr)
  have rd2: "lread ?s2 lv = Some (ptr_of l)" using rd pl by (cases lv) auto
  have dm: "tb_nodes ?s1 a = None \<longleftrightarrow> tb_nodes s a = None" for a by simp
  have l: "heap_tree (tb_nodes ?s2) l" using u by (simp add: Int_Un_distrib)
  have "sub_tree ?s2 lv l" using u rd2 l dm by (auto simp: sub_tree_def domIff)
  then have "changed s lv \<langle>l, e, \<langle>\<rangle>\<rangle> l ?s2" by (auto simp: changed_def e)
  then show ?case by (subst pushdown_left.simps) (simp add: it)
next
  case (3 l e m f r)
  obtain p k v q j w where e: "e = (p, k, v)" "f = (q, j, w)" by (cases e, cases f)
  note st = "3.prems" [unfolded e]
  obtain s1 where s1: "turn_left s lv p q = Some s1"
      "changed s lv \<langle>l, (p, k, v), \<langle>m, (q, j, w), r\<rangle>\<rangle> \<langle>\<langle>l, (p, k, v), m\<rangle>, (q, j, w), r\<rangle> s1" "tb_next s1 = tb_next s"
    using turn_left_changes [OF st] by blast
  then have st1: "sub_tree s1 lv \<langle>\<langle>l, (p, k, v), m\<rangle>, (q, j, w), r\<rangle>" by (simp add: changed_def)
  from "3.hyps" [OF sub_tree_left [OF st1, folded e(1)]] obtain s2 where
    s2: "pushdown_left s1 (LeftOf q) = Some s2" "tb_next s2 = tb_next s1"
        "changed s1 (LeftOf q) \<langle>l, e, m\<rangle> (apush \<langle>l, e, m\<rangle>) s2" by blast
  have it: "pushdown_iter s lv = Some (s1, Some (LeftOf q))"
    using st s1(1) by (simp add: pushdown_iter_def sub_tree_def)
  have "changed s1 lv \<langle>\<langle>l, e, m\<rangle>, f, r\<rangle> \<langle>apush \<langle>l, e, m\<rangle>, f, r\<rangle> s2"
    using changed_left [OF st1 s2(3) [unfolded e(1)]] by (simp add: e)
  then have "changed s lv \<langle>l, e, \<langle>m, f, r\<rangle>\<rangle> \<langle>apush \<langle>l, e, m\<rangle>, f, r\<rangle> s2"
    by (rule changed_trans [OF s1(2) [folded e] _ "3.prems"]) (auto simp: e addrs_def inorder_apush)
  with s1 s2 show ?case by (subst pushdown_left.simps) (simp add: it)
qed

lemma delete_loop_changes:
  "sub_tree s lv T \<Longrightarrow> \<exists>s'. delete_loop s lv x = Some s' \<and> changed s lv T (adel x T) s' \<and> tb_next s' = tb_next s"
proof (induction T arbitrary: lv)
  case Leaf
  then have "delete_iter s lv x = Some DelReturn" by (simp add: delete_iter_def sub_tree_def)
  moreover have "changed s lv \<langle>\<rangle> \<langle>\<rangle> s" using Leaf by (simp add: changed_def sub_tree_def lput_same)
  ultimately show ?case by (subst delete_loop.simps) simp
next
  case (Node l e r)
  obtain b k w where e: "e = (b, k, w)" by (cases e)
  note st = Node.prems [unfolded e]
  then have h: "lread s lv = Some (Some b)"
      "tb_nodes s b = Some \<lparr>tkey = k, tval = w, tleft = ptr_of l, tright = ptr_of r\<rparr>"
    by (simp_all add: sub_tree_def)
  consider "x < k" | "k < x" | "x = k" by linarith
  then show ?case
  proof cases
    case 1
    then have it: "delete_iter s lv x = Some (DelAt (LeftOf b))" by (simp add: delete_iter_def h)
    show ?thesis using Node.IH(1) [OF sub_tree_left [OF st]] 1
      by (subst delete_loop.simps) (auto simp: it e changed_left [OF st])
  next
    case 2
    then have it: "delete_iter s lv x = Some (DelAt (RightOf b))" by (simp add: delete_iter_def h)
    show ?thesis using Node.IH(2) [OF sub_tree_right [OF st]] 2
      by (subst delete_loop.simps) (auto simp: it e changed_right [OF st])
  next
    case 3
    then have it: "delete_iter s lv x = Some (DelPush lv)" by (simp add: delete_iter_def h)
    show ?thesis using pushdown_left_changes [OF Node.prems] 3
      by (subst delete_loop.simps) (use it in \<open>simp add: e\<close>)
  qed
qed

section \<open>Look-up\<close>

definition found :: "(int \<times> cptr) list \<Rightarrow> int \<Rightarrow> cptr" where
  "found ps x = (case map_of ps x of None \<Rightarrow> None | Some v \<Rightarrow> v)"

lemma lookup_loop_finds:
  "heap_tree (tb_nodes s) T \<Longrightarrow> search_tree T \<Longrightarrow> lookup_loop s (ptr_of T) x = Some (found (pairs T) x)"
proof (induction T)
  case Leaf
  then show ?case by (subst lookup_loop.simps) (simp add: lookup_iter_def found_def)
next
  case (Node l e r)
  obtain b k w where e: "e = (b, k, w)" by (cases e)
  note st = Node.prems(2) [unfolded e]
  have h: "tb_nodes s b = Some \<lparr>tkey = k, tval = w, tleft = ptr_of l, tright = ptr_of r\<rparr>"
    using Node.prems(1) by (simp add: e)
  have it: "lookup_iter s (Some b) x = Some (if x < k then Inl (ptr_of l)
      else if k < x then Inl (ptr_of r) else Inr w)"
    by (simp add: lookup_iter_def h)
  have fd: "found (pairs \<langle>l, (b, k, w), r\<rangle>) x =
      (if x < k then found (pairs l) x else if k < x then found (pairs r) x else w)"
    by (simp add: found_def map_of_pairs_Node [OF st] del: pairs_simps)
  show ?case using Node.IH Node.prems(1) st [unfolded search_tree_Node]
    by (subst lookup_loop.simps) (simp add: it fd e del: pairs_simps)
qed

section \<open>The treebox and its locked operations\<close>

definition tree_at :: "tree_mem \<Rightarrow> cptr atree \<Rightarrow> bool" where
  "tree_at s T \<longleftrightarrow> sub_tree s Root T \<and> dom (tb_nodes s) = set (addrs T) \<and> search_tree T"

text \<open>An idle treebox that holds the pairs \<open>ps\<close>.\<close>

definition cg_repr :: "tree_mem \<Rightarrow> (int \<times> cptr) list \<Rightarrow> bool" where
  "cg_repr s ps \<longleftrightarrow> tb_lock s = Unlocked \<and> tb_objs s = {BoxObj, TreeObj, LockObj} \<and>
     (\<exists>T. tree_at s T \<and> pairs T = ps)"

lemma tree_at_lock [simp]: "tree_at (s\<lparr>tb_lock := m\<rparr>) T = tree_at s T"
  by (simp add: tree_at_def sub_tree_def)

lemma changed_Root_dom:
  assumes "changed s Root T T' s'" "dom (tb_nodes s) = set (addrs T)"
  shows "dom (tb_nodes s') = set (addrs T')"
proof -
  note ch = assms(1) [unfolded changed_def sub_tree_def]
  have "a \<in> set (addrs T')" if "tb_nodes s' a \<noteq> None" for a
    using that ch assms(2) by (cases "a \<in> set (addrs T)") auto
  then show ?thesis using ch heap_tree_dom by blast
qed

lemma insert_loop_at:
  assumes "tree_at s T"
  obtains s' where "insert_loop s Root x v = Some s'" "tree_at s' (ains (tb_next s) x v T)"
    "tb_lock s' = tb_lock s" "tb_objs s' = tb_objs s"
proof -
  from assms have st: "sub_tree s Root T" by (simp add: tree_at_def)
  from insert_loop_changes [OF this] obtain s' where
    "insert_loop s Root x v = Some s'" and ch: "changed s Root T (ains (tb_next s) x v T) s'" by blast
  moreover have "tree_at s' (ains (tb_next s) x v T)"
    using assms changed_Root_dom [OF ch] ch by (simp add: tree_at_def changed_def search_tree_ains)
  ultimately show thesis using that by (simp add: changed_def)
qed

lemma delete_loop_at:
  assumes "tree_at s T"
  obtains s' where "delete_loop s Root x = Some s'" "tree_at s' (adel x T)"
    "tb_lock s' = tb_lock s" "tb_objs s' = tb_objs s"
proof -
  from assms have st: "sub_tree s Root T" by (simp add: tree_at_def)
  from delete_loop_changes [OF this] obtain s' where
    "delete_loop s Root x = Some s'" and ch: "changed s Root T (adel x T) s'" by blast
  moreover have "tree_at s' (adel x T)"
    using assms changed_Root_dom [OF ch] ch by (simp add: tree_at_def changed_def search_tree_adel)
  ultimately show thesis using that by (simp add: changed_def)
qed

lemma lookup_loop_at: "tree_at s T \<Longrightarrow> lookup_loop s (tb_root s) x = Some (found (pairs T) x)"
  using lookup_loop_finds [of s T x] by (simp add: tree_at_def sub_tree_def)

lemma lock_op_acquire [simp]:
  "tb_lock s = Unlocked \<Longrightarrow> LockObj \<in> tb_objs s \<Longrightarrow> lock_op (acquire t) s = Some (s\<lparr>tb_lock := LockedBy t\<rparr>)"
  by (simp add: lock_op_def)

lemma lock_op_release [simp]:
  "tb_lock s = LockedBy t \<Longrightarrow> LockObj \<in> tb_objs s \<Longrightarrow> lock_op (release t) s = Some (s\<lparr>tb_lock := Unlocked\<rparr>)"
  by (simp add: lock_op_def)

lemma treebox_new_cg_repr: "\<exists>s. treebox_new_cg t = Some s \<and> cg_repr s []"
  by (simp add: treebox_new_cg_def cg_repr_def tree_at_def sub_tree_def)
     (rule exI [of _ "\<langle>\<rangle>"], simp)

lemma insert_cg_repr:
  assumes "cg_repr s ps"
  shows "\<exists>s'. insert_cg t s x v = Some s' \<and> cg_repr s' (ins_list x v ps)"
proof -
  from assms obtain T where T: "tree_at s T" "pairs T = ps" by (auto simp: cg_repr_def)
  obtain s' where "insert_loop (s\<lparr>tb_lock := LockedBy t\<rparr>) Root x v = Some s'" "tree_at s' (ains (tb_next s) x v T)"
      "tb_lock s' = LockedBy t" "tb_objs s' = tb_objs s"
    using insert_loop_at [of "s\<lparr>tb_lock := LockedBy t\<rparr>" T x v] T(1) by auto
  moreover have "pairs (ains (tb_next s) x v T) = ins_list x v ps"
    using T by (simp add: pairs_ains tree_at_def)
  ultimately show ?thesis using assms by (auto simp: insert_cg_def cg_repr_def)
qed

lemma delete_cg_repr:
  assumes "cg_repr s ps"
  shows "\<exists>s'. delete_cg t s x = Some s' \<and> cg_repr s' (del_list x ps)"
proof -
  from assms obtain T where T: "tree_at s T" "pairs T = ps" by (auto simp: cg_repr_def)
  obtain s' where "delete_loop (s\<lparr>tb_lock := LockedBy t\<rparr>) Root x = Some s'" "tree_at s' (adel x T)"
      "tb_lock s' = LockedBy t" "tb_objs s' = tb_objs s"
    using delete_loop_at [of "s\<lparr>tb_lock := LockedBy t\<rparr>" T x] T(1) by auto
  moreover have "pairs (adel x T) = del_list x ps"
    using T by (simp add: pairs_adel tree_at_def)
  ultimately show ?thesis using assms by (auto simp: delete_cg_def cg_repr_def)
qed

lemma lookup_cg_repr:
  assumes "cg_repr s ps"
  shows "lookup_cg t s x = Some (s, found ps x)"
proof -
  from assms obtain T where T: "tree_at s T" "pairs T = ps" by (auto simp: cg_repr_def)
  have "lookup_loop (s\<lparr>tb_lock := LockedBy t\<rparr>) (tb_root s) x = Some (found ps x)"
    using lookup_loop_at [of "s\<lparr>tb_lock := LockedBy t\<rparr>" T x] T by simp
  moreover have "s\<lparr>tb_lock := Unlocked\<rparr> = s" using assms by (simp add: cg_repr_def)
  ultimately show ?thesis using assms by (simp add: lookup_cg_def cg_repr_def)
qed

section \<open>Freeing the tree\<close>

lemma tree_free_cg_frees:
  "heap_tree (tb_nodes s) T \<Longrightarrow> distinct (addrs T) \<Longrightarrow>
   tree_free_cg s (ptr_of T) = Some (s\<lparr>tb_nodes := (tb_nodes s) |` (- set (addrs T))\<rparr>)"
proof (induction T arbitrary: s)
  case Leaf
  then show ?case by (subst tree_free_cg.simps) (simp add: restrict_map_def)
next
  case (Node l e r)
  obtain b k w where e: "e = (b, k, w)" by (cases e)
  have h: "tb_nodes s b = Some \<lparr>tkey = k, tval = w, tleft = ptr_of l, tright = ptr_of r\<rparr>"
    using Node.prems(1) by (simp add: e)
  let ?s1 = "s\<lparr>tb_nodes := (tb_nodes s)(b := None)\<rparr>"
  let ?s2 = "?s1\<lparr>tb_nodes := (tb_nodes ?s1) |` (- set (addrs l))\<rparr>"
  have fr: "free_node s b = Some ?s1" by (simp add: free_node_def h)
  have l: "tree_free_cg ?s1 (ptr_of l) = Some ?s2"
    using Node.prems by (intro Node.IH(1)) (simp_all add: e del: fun_upd_apply)
  have "heap_tree (tb_nodes ?s2) r"
    using Node.prems heap_tree_cong [of r "tb_nodes ?s2" "tb_nodes s"]
    by (fastforce simp: e restrict_map_def)
  then have r: "tree_free_cg ?s2 (ptr_of r) = Some (?s2\<lparr>tb_nodes := (tb_nodes ?s2) |` (- set (addrs r))\<rparr>)"
    using Node.prems by (intro Node.IH(2)) (simp_all add: e)
  have eq: "((tb_nodes s)(b := None)) |` (- set (addrs l)) |` (- set (addrs r)) =
      (tb_nodes s) |` (- set (addrs \<langle>l, e, r\<rangle>))"
    by (auto simp: e restrict_map_def fun_eq_iff)
  show ?case
    by (subst tree_free_cg.simps) (use h fr l r eq in \<open>simp add: e\<close>)
qed

lemma tree_free_cg3_eq: "tree_free_cg3 = tree_free_cg"
proof -
  have "tree_free_cg3 s p = Some s' \<Longrightarrow> tree_free_cg s p = Some s'" for s p s'
    apply (erule tree_free_cg3.raw_induct [where P = "\<lambda>s p s'. tree_free_cg s p = Some s'", rotated])
    by (subst tree_free_cg.simps) (auto simp: bind_Some_iff split: option.splits)
  moreover have "tree_free_cg s p = Some s' \<Longrightarrow> tree_free_cg3 s p = Some s'" for s p s'
    apply (erule tree_free_cg.raw_induct [where P = "\<lambda>s p s'. tree_free_cg3 s p = Some s'", rotated])
    by (subst tree_free_cg3.simps) (auto simp: bind_Some_iff split: option.splits)
  ultimately show ?thesis by (metis ext not_None_eq)
qed

lemma tree_at_restrict: "tree_at s T \<Longrightarrow> tb_nodes s |` (- set (addrs T)) = Map.empty"
  by (auto simp: tree_at_def restrict_map_def fun_eq_iff)

lemma treebox_free_cg_frees:
  assumes "cg_repr s ps"
  shows "\<exists>s'. treebox_free_cg t s = Some s' \<and> tb_nodes s' = Map.empty \<and> tb_objs s' = {}"
proof -
  from assms obtain T where T: "tree_at s T" by (auto simp: cg_repr_def)
  have "tb_nodes s |` (- set (addrs T)) = Map.empty"
    using T by (simp add: tree_at_restrict)
  then have "tree_free_cg (s\<lparr>tb_lock := Destroyed\<rparr>) (tb_root s) =
      Some (s\<lparr>tb_lock := Destroyed, tb_nodes := Map.empty\<rparr>)"
    using tree_free_cg_frees [of "s\<lparr>tb_lock := Destroyed\<rparr>" T] T by (simp add: tree_at_def sub_tree_def)
  then show ?thesis using assms by (auto simp: treebox_free_cg_def cg_repr_def lock_op_def free_obj_def)
qed

text \<open>In \<^verbatim>\<open>bst_conc_cglock3.c\<close> the block of type \<^verbatim>\<open>tree_t\<close> is never freed.\<close>

lemma treebox_free_cg3_leaks:
  assumes "cg_repr s ps"
  shows "\<exists>s'. treebox_free_cg3 t s = Some s' \<and> tb_nodes s' = Map.empty \<and> tb_objs s' = {TreeObj}"
proof -
  from assms obtain T where T: "tree_at s T" by (auto simp: cg_repr_def)
  have "tb_nodes s |` (- set (addrs T)) = Map.empty"
    using T by (simp add: tree_at_restrict)
  then have "tree_free_cg (s\<lparr>tb_lock := LockedBy t\<rparr>) (tb_root s) =
      Some (s\<lparr>tb_lock := LockedBy t, tb_nodes := Map.empty\<rparr>)"
    using tree_free_cg_frees [of "s\<lparr>tb_lock := LockedBy t\<rparr>" T] T by (simp add: tree_at_def sub_tree_def)
  then show ?thesis using assms
    by (auto simp: treebox_free_cg3_def tree_free_cg3_eq cg_repr_def lock_op_def free_obj_def)
qed

section \<open>The two programs agree\<close>

lemma insert_cg3_eq: "sub_tree s lv T \<Longrightarrow> insert_cg3 s lv x v = insert_loop s lv x v"
proof (induction T arbitrary: lv)
  case Leaf
  then have rd: "lread s lv = Some None" and fr: "\<forall>a\<in>dom (tb_nodes s). a < tb_next s"
    by (auto simp: sub_tree_def)
  then have "tb_next s \<notin> lv_addrs lv" using lread_dom by (metis domIff order_less_irrefl)
  with rd show ?case
    by (subst insert_cg3.simps, subst insert_loop.simps)
       (cases lv; auto simp: insert_iter_def lwrite_def Let_def fun_upd_twist)
next
  case (Node l e r)
  obtain b k w where e: "e = (b, k, w)" by (cases e)
  note st = Node.prems [unfolded e]
  then have h: "lread s lv = Some (Some b)"
      "tb_nodes s b = Some \<lparr>tkey = k, tval = w, tleft = ptr_of l, tright = ptr_of r\<rparr>"
    by (simp_all add: sub_tree_def)
  show ?case
    by (subst insert_cg3.simps, subst insert_loop.simps)
       (simp add: insert_iter_def h Node.IH(1) [OF sub_tree_left [OF st]] Node.IH(2) [OF sub_tree_right [OF st]])
qed

lemma turn_left_cg3_eq: "turn_left_cg3 = turn_left"
  by (simp add: fun_eq_iff turn_left_cg3_def turn_left_def)

lemma pushdown_left_cg3_eq: "pushdown_left_cg3 = pushdown_left"
proof -
  have "pushdown_left_cg3 s lv = Some s' \<Longrightarrow> pushdown_left s lv = Some s'" for s lv s'
    apply (erule pushdown_left_cg3.raw_induct [where P = "\<lambda>s lv s'. pushdown_left s lv = Some s'", rotated])
    by (subst pushdown_left.simps) (auto simp: pushdown_iter_def turn_left_cg3_eq split: option.splits bind_splits)
  moreover have "pushdown_left s lv = Some s' \<Longrightarrow> pushdown_left_cg3 s lv = Some s'" for s lv s'
    apply (erule pushdown_left.raw_induct [where P = "\<lambda>s lv s'. pushdown_left_cg3 s lv = Some s'", rotated])
    by (subst pushdown_left_cg3.simps) (auto simp: pushdown_iter_def turn_left_cg3_eq split: option.splits bind_splits)
  ultimately show ?thesis by (intro ext) (metis not_None_eq)
qed

lemma delete_cg3_eq: "sub_tree s lv T \<Longrightarrow> delete_cg3 s lv x = delete_loop s lv x"
proof (induction T arbitrary: lv)
  case Leaf
  then have "lread s lv = Some None" by (simp add: sub_tree_def)
  then show ?case
    by (subst delete_cg3.simps, subst delete_loop.simps) (simp add: delete_iter_def)
next
  case (Node l e r)
  obtain b k w where e: "e = (b, k, w)" by (cases e)
  note st = Node.prems [unfolded e]
  then have h: "lread s lv = Some (Some b)"
      "tb_nodes s b = Some \<lparr>tkey = k, tval = w, tleft = ptr_of l, tright = ptr_of r\<rparr>"
    by (simp_all add: sub_tree_def)
  show ?case
    by (subst delete_cg3.simps, subst delete_loop.simps)
       (simp add: delete_iter_def h pushdown_left_cg3_eq
         Node.IH(1) [OF sub_tree_left [OF st]] Node.IH(2) [OF sub_tree_right [OF st]])
qed

lemma lookup_cg3_loop_eq: "lookup_cg3_loop = lookup_loop"
proof -
  have "lookup_cg3_loop s p x = Some v \<Longrightarrow> lookup_loop s p x = Some v" for s p x v
    apply (erule lookup_cg3_loop.raw_induct [where P = "\<lambda>s p x v. lookup_loop s p x = Some v" and xa = "((s, p), x)", unfolded prod.case, rotated])
    by (subst lookup_loop.simps) (auto simp: lookup_iter_def Let_def split: option.splits bind_splits if_splits)
  moreover have "lookup_loop s p x = Some v \<Longrightarrow> lookup_cg3_loop s p x = Some v" for s p x v
    apply (erule lookup_loop.raw_induct [where P = "\<lambda>s p x v. lookup_cg3_loop s p x = Some v" and xa = "((s, p), x)", unfolded prod.case, rotated])
    by (subst lookup_cg3_loop.simps) (auto simp: lookup_iter_def Let_def split: option.splits bind_splits if_splits)
  ultimately show ?thesis by (intro ext) (metis not_None_eq)
qed

lemma cg_repr_sub_tree: "cg_repr s ps \<Longrightarrow> \<exists>T. sub_tree (s\<lparr>tb_lock := m\<rparr>) Root T"
  by (auto simp: cg_repr_def tree_at_def sub_tree_def)

lemma insert_conc_eq:
  assumes "cg_repr s ps"
  shows "insert_conc t s x v = insert_cg t s x v"
proof -
  obtain T where "sub_tree (s\<lparr>tb_lock := LockedBy t\<rparr>) Root T" using cg_repr_sub_tree [OF assms] by blast
  then show ?thesis using assms by (simp add: insert_conc_def insert_cg_def insert_cg3_eq cg_repr_def)
qed

lemma delete_conc_eq:
  assumes "cg_repr s ps"
  shows "delete_conc t s x = delete_cg t s x"
proof -
  obtain T where "sub_tree (s\<lparr>tb_lock := LockedBy t\<rparr>) Root T" using cg_repr_sub_tree [OF assms] by blast
  then show ?thesis using assms by (simp add: delete_conc_def delete_cg_def delete_cg3_eq cg_repr_def)
qed

lemma lookup_conc_eq: "lookup_conc t s x = lookup_cg t s x"
  by (simp add: lookup_conc_def lookup_cg_def lookup_cg3_def lookup_cg3_loop_eq)

lemma treebox_new_cg3_eq: "treebox_new_cg3 t = treebox_new_cg t"
  by (simp add: treebox_new_cg3_def treebox_new_cg_def)

end
