(* ===== verification/Conc_CoarseLin.thy ===== *)
theory Conc_CoarseLin
  imports Conc_CoarseSeq
begin

text \<open>
  Threads that run the operations of \<^verbatim>\<open>bst_conc_cglock.c\<close> against one treebox, interleaved at every
  lock operation and every turn of a loop. The state records each thread's program point and, as a
  ghost, the history of the calls that have returned. The theorems: at most one thread is past the
  acquire, none of its steps goes wrong, the history is one of the sequential map, and the calls
  complete.
\<close>

section \<open>The machine\<close>

datatype call = CInsert int cptr | CLookup int | CDelete int

datatype point = AtLv lval | AtPtr cptr | PushAt lval | Exiting cptr

datatype pc = Idle | Waiting call | Inside call point

record cg_sys =
  sys_mem :: tree_mem
  sys_pc :: "tid \<Rightarrow> pc"
  sys_hist :: "(tid \<times> call \<times> cptr) list"

text \<open>Where an operation starts once it has the lock.\<close>

fun entry :: "tree_mem \<Rightarrow> call \<Rightarrow> point" where
  "entry s (CInsert x v) = AtLv Root"
| "entry s (CDelete x) = AtLv Root"
| "entry s (CLookup x) = AtPtr (tb_root s)"

text \<open>One turn of the loop an operation is in.\<close>

fun op_step :: "tree_mem \<Rightarrow> call \<Rightarrow> point \<Rightarrow> (tree_mem \<times> point) option" where
  "op_step s (CInsert x v) (AtLv lv) = do {
     (s, c) \<leftarrow> insert_iter s lv x v;
     Some (s, case c of None \<Rightarrow> Exiting None | Some lv \<Rightarrow> AtLv lv) }"
| "op_step s (CDelete x) (AtLv lv) = do {
     c \<leftarrow> delete_iter s lv x;
     Some (s, case c of DelReturn \<Rightarrow> Exiting None | DelAt lv \<Rightarrow> AtLv lv | DelPush lv \<Rightarrow> PushAt lv) }"
| "op_step s (CDelete x) (PushAt lv) = do {
     (s, c) \<leftarrow> pushdown_iter s lv;
     Some (s, case c of None \<Rightarrow> Exiting None | Some lv \<Rightarrow> PushAt lv) }"
| "op_step s (CLookup x) (AtPtr p) = do {
     c \<leftarrow> lookup_iter s p x;
     Some (s, case c of Inl p \<Rightarrow> AtPtr p | Inr v \<Rightarrow> Exiting v) }"
| "op_step s _ _ = None"

inductive cg_step :: "cg_sys \<Rightarrow> cg_sys \<Rightarrow> bool" where
  invoke: "sys_pc \<sigma> t = Idle \<Longrightarrow> cg_step \<sigma> (\<sigma>\<lparr>sys_pc := (sys_pc \<sigma>)(t := Waiting c)\<rparr>)"
| enter: "sys_pc \<sigma> t = Waiting c \<Longrightarrow> lock_op (acquire t) (sys_mem \<sigma>) = Some m \<Longrightarrow>
     cg_step \<sigma> (\<sigma>\<lparr>sys_mem := m, sys_pc := (sys_pc \<sigma>)(t := Inside c (entry m c))\<rparr>)"
| turn: "sys_pc \<sigma> t = Inside c l \<Longrightarrow> op_step (sys_mem \<sigma>) c l = Some (m, l') \<Longrightarrow>
     cg_step \<sigma> (\<sigma>\<lparr>sys_mem := m, sys_pc := (sys_pc \<sigma>)(t := Inside c l')\<rparr>)"
| leave: "sys_pc \<sigma> t = Inside c (Exiting r) \<Longrightarrow> lock_op (release t) (sys_mem \<sigma>) = Some m \<Longrightarrow>
     cg_step \<sigma> (\<sigma>\<lparr>sys_mem := m, sys_pc := (sys_pc \<sigma>)(t := Idle), sys_hist := sys_hist \<sigma> @ [(t, c, r)]\<rparr>)"

inductive_cases cg_stepE: "cg_step \<sigma> \<sigma>'"

definition cg_start :: "tree_mem \<Rightarrow> cg_sys" where
  "cg_start s = \<lparr>sys_mem = s, sys_pc = (\<lambda>_. Idle), sys_hist = []\<rparr>"

section \<open>The sequential map the history must be one of\<close>

fun spec_op :: "call \<Rightarrow> (int \<times> cptr) list \<Rightarrow> (int \<times> cptr) list \<times> cptr" where
  "spec_op (CInsert x v) ps = (ins_list x v ps, None)"
| "spec_op (CDelete x) ps = (del_list x ps, None)"
| "spec_op (CLookup x) ps = (ps, found ps x)"

fun replay :: "(tid \<times> call \<times> cptr) list \<Rightarrow> (int \<times> cptr) list \<Rightarrow> (int \<times> cptr) list option" where
  "replay [] ps = Some ps"
| "replay ((t, c, r) # h) ps = (if snd (spec_op c ps) = r then replay h (fst (spec_op c ps)) else None)"

lemma replay_append: "replay (h @ h') ps = Option.bind (replay h ps) (replay h')"
  by (induction h ps rule: replay.induct) auto

section \<open>The rest of an operation\<close>

text \<open>What an operation still has to do from a program point, run without interruption.\<close>

fun op_rest :: "tree_mem \<Rightarrow> call \<Rightarrow> point \<Rightarrow> (tree_mem \<times> cptr) option" where
  "op_rest s (CInsert x v) (AtLv lv) = map_option (\<lambda>s. (s, None)) (insert_loop s lv x v)"
| "op_rest s (CDelete x) (AtLv lv) = map_option (\<lambda>s. (s, None)) (delete_loop s lv x)"
| "op_rest s (CDelete x) (PushAt lv) = map_option (\<lambda>s. (s, None)) (pushdown_left s lv)"
| "op_rest s (CLookup x) (AtPtr p) = map_option (\<lambda>v. (s, v)) (lookup_loop s p x)"
| "op_rest s _ (Exiting r) = Some (s, r)"
| "op_rest s _ _ = None"

lemma op_rest_unfold:
  "\<forall>r. l \<noteq> Exiting r \<Longrightarrow> op_rest s c l = Option.bind (op_step s c l) (\<lambda>(s', l'). op_rest s' c l')"
proof (induction s c l rule: op_step.induct)
  case (1 s x v lv)
  show ?case by (simp, subst insert_loop.simps) (auto split: option.splits bind_splits)
next
  case (2 s x lv)
  show ?case by (simp, subst delete_loop.simps) (auto split: del_next.splits bind_splits)
next
  case (3 s x lv)
  show ?case by (simp, subst pushdown_left.simps) (auto split: option.splits bind_splits)
next
  case (4 s x p)
  show ?case by (simp, subst lookup_loop.simps) (auto split: sum.splits bind_splits)
qed auto

lemma op_rest_step:
  "op_step s c l = Some (s', l') \<Longrightarrow> op_rest s c l = op_rest s' c l'"
  by (cases "\<exists>r. l = Exiting r") (auto simp: op_rest_unfold)

lemma op_step_enabled:
  "op_rest s c l \<noteq> None \<Longrightarrow> \<forall>r. l \<noteq> Exiting r \<Longrightarrow> op_step s c l \<noteq> None"
  by (auto simp: op_rest_unfold bind_Some_iff)

text \<open>An operation that has the lock does what the sequential map does.\<close>

lemma op_rest_entry:
  assumes "tree_at s T"
  obtains s' T' r where "op_rest s c (entry s c) = Some (s', r)" "tree_at s' T'"
    "tb_lock s' = tb_lock s" "tb_objs s' = tb_objs s" "spec_op c (pairs T) = (pairs T', r)"
proof (cases c)
  case (CInsert x v)
  from insert_loop_at [OF assms] obtain s' where "insert_loop s Root x v = Some s'"
    "tree_at s' (ains (tb_next s) x v T)" "tb_lock s' = tb_lock s" "tb_objs s' = tb_objs s" by metis
  moreover have "pairs (ains (tb_next s) x v T) = ins_list x v (pairs T)"
    using assms by (simp add: tree_at_def pairs_ains)
  ultimately show thesis using that CInsert by simp
next
  case (CLookup x)
  then show thesis using lookup_loop_at [OF assms] assms that by auto
next
  case (CDelete x)
  from delete_loop_at [OF assms] obtain s' where "delete_loop s Root x = Some s'"
    "tree_at s' (adel x T)" "tb_lock s' = tb_lock s" "tb_objs s' = tb_objs s" by metis
  moreover have "pairs (adel x T) = del_list x (pairs T)"
    using assms by (simp add: tree_at_def pairs_adel)
  ultimately show thesis using that CDelete by simp
qed

section \<open>The invariant\<close>

definition outside :: "pc \<Rightarrow> bool" where
  "outside p \<longleftrightarrow> (case p of Inside _ _ \<Rightarrow> False | _ \<Rightarrow> True)"

lemma outside_simps [simp]: "outside Idle" "outside (Waiting c)" "\<not> outside (Inside c l)"
  by (simp_all add: outside_def)

text \<open>The thread \<open>u\<close> is at \<open>l\<close> in the call \<open>c\<close>, and what is left of it completes the call.\<close>

definition completes :: "tree_mem \<Rightarrow> tid \<Rightarrow> call \<Rightarrow> point \<Rightarrow> (int \<times> cptr) list \<Rightarrow> bool" where
  "completes s u c l ps \<longleftrightarrow> (\<exists>s' r T. op_rest s c l = Some (s', r) \<and> tree_at s' T \<and>
     tb_lock s' = LockedBy u \<and> tb_objs s' = {BoxObj, TreeObj, LockObj} \<and> spec_op c ps = (pairs T, r))"

definition cg_inv :: "cg_sys \<Rightarrow> bool" where
  "cg_inv \<sigma> \<longleftrightarrow> tb_objs (sys_mem \<sigma>) = {BoxObj, TreeObj, LockObj} \<and>
     (\<exists>ps. replay (sys_hist \<sigma>) [] = Some ps \<and>
       (case tb_lock (sys_mem \<sigma>) of
          Unlocked \<Rightarrow> (\<forall>t. outside (sys_pc \<sigma> t)) \<and> cg_repr (sys_mem \<sigma>) ps
        | LockedBy u \<Rightarrow> (\<forall>t. t \<noteq> u \<longrightarrow> outside (sys_pc \<sigma> t)) \<and>
            (\<exists>c l. sys_pc \<sigma> u = Inside c l \<and> completes (sys_mem \<sigma>) u c l ps)
        | Destroyed \<Rightarrow> False))"

text \<open>A turn of a loop leaves the lock and the blocks of the treebox alone.\<close>

lemma lwrite_fields:
  "lwrite s lv p = Some s' \<Longrightarrow> tb_lock s' = tb_lock s \<and> tb_objs s' = tb_objs s"
  by (auto simp: lwrite_def split: option.splits)

lemma op_step_fields:
  "op_step s c l = Some (s', l') \<Longrightarrow> tb_lock s' = tb_lock s \<and> tb_objs s' = tb_objs s"
  by (induction s c l rule: op_step.induct)
     (auto simp: insert_iter_def pushdown_iter_def turn_left_def free_node_def Let_def bind_Some_iff
       dest!: lwrite_fields split: option.splits if_splits)

lemma completes_enter:
  assumes "cg_repr s ps"
  shows "completes (s\<lparr>tb_lock := LockedBy u\<rparr>) u c (entry (s\<lparr>tb_lock := LockedBy u\<rparr>) c) ps"
proof -
  from assms obtain T where T: "tree_at (s\<lparr>tb_lock := LockedBy u\<rparr>) T" "pairs T = ps"
    by (auto simp: cg_repr_def)
  show ?thesis
  proof (rule op_rest_entry [OF T(1), of c])
    fix s' T' r
    assume "op_rest (s\<lparr>tb_lock := LockedBy u\<rparr>) c (entry (s\<lparr>tb_lock := LockedBy u\<rparr>) c) = Some (s', r)"
      "tree_at s' T'" "tb_lock s' = tb_lock (s\<lparr>tb_lock := LockedBy u\<rparr>)"
      "tb_objs s' = tb_objs (s\<lparr>tb_lock := LockedBy u\<rparr>)" "spec_op c (pairs T) = (pairs T', r)"
    then show ?thesis using assms T(2) by (auto simp: completes_def cg_repr_def)
  qed
qed

lemma completes_step:
  "completes s u c l ps \<Longrightarrow> op_step s c l = Some (s', l') \<Longrightarrow> completes s' u c l' ps"
  by (simp add: completes_def op_rest_step)

lemma completes_exit:
  "completes s u c (Exiting r) ps \<Longrightarrow>
   tb_lock s = LockedBy u \<and> spec_op c ps = (fst (spec_op c ps), r) \<and> cg_repr (s\<lparr>tb_lock := Unlocked\<rparr>) (fst (spec_op c ps))"
  by (cases c) (auto simp: completes_def cg_repr_def)

lemma cg_inv_cases:
  assumes "cg_inv \<sigma>"
  obtains (free) ps where "tb_lock (sys_mem \<sigma>) = Unlocked" "replay (sys_hist \<sigma>) [] = Some ps"
    "\<forall>t. outside (sys_pc \<sigma> t)" "cg_repr (sys_mem \<sigma>) ps" "tb_objs (sys_mem \<sigma>) = {BoxObj, TreeObj, LockObj}"
  | (held) u c l ps where "tb_lock (sys_mem \<sigma>) = LockedBy u" "replay (sys_hist \<sigma>) [] = Some ps"
    "\<forall>t. t \<noteq> u \<longrightarrow> outside (sys_pc \<sigma> t)" "sys_pc \<sigma> u = Inside c l" "completes (sys_mem \<sigma>) u c l ps"
    "tb_objs (sys_mem \<sigma>) = {BoxObj, TreeObj, LockObj}"
  using assms by (cases "tb_lock (sys_mem \<sigma>)") (auto simp: cg_inv_def)

lemma cg_inv_inside:
  assumes "cg_inv \<sigma>" "sys_pc \<sigma> t = Inside c l"
  obtains ps where "tb_lock (sys_mem \<sigma>) = LockedBy t" "replay (sys_hist \<sigma>) [] = Some ps"
    "\<forall>u. u \<noteq> t \<longrightarrow> outside (sys_pc \<sigma> u)" "completes (sys_mem \<sigma>) t c l ps"
    "tb_objs (sys_mem \<sigma>) = {BoxObj, TreeObj, LockObj}"
  using assms(1)
proof (cases rule: cg_inv_cases)
  case free
  then show thesis using assms(2) outside_simps(3) by metis
next
  case (held u c' l' ps)
  then have "u = t" using assms(2) by (metis outside_simps(3))
  with held assms(2) show thesis using that by simp
qed

lemma cg_inv_start: "cg_repr s [] \<Longrightarrow> cg_inv (cg_start s)"
  by (auto simp: cg_inv_def cg_start_def cg_repr_def)

lemma cg_inv_step:
  assumes "cg_inv \<sigma>" "cg_step \<sigma> \<sigma>'"
  shows "cg_inv \<sigma>'"
  using assms(2,1)
proof (induction rule: cg_step.induct)
  case (invoke \<sigma> t c)
  from invoke.prems show ?case
  proof (cases rule: cg_inv_cases)
    case free
    then show ?thesis by (simp add: cg_inv_def)
  next
    case (held u c' l ps)
    then have "u \<noteq> t" using invoke.hyps by auto
    with held show ?thesis by (simp add: cg_inv_def)
  qed
next
  case (enter \<sigma> t c m)
  then have u: "tb_lock (sys_mem \<sigma>) = Unlocked" and m: "m = (sys_mem \<sigma>)\<lparr>tb_lock := LockedBy t\<rparr>"
    by (auto simp: lock_op_def split: if_splits option.splits)
  with enter.prems obtain ps where ps: "replay (sys_hist \<sigma>) [] = Some ps" "cg_repr (sys_mem \<sigma>) ps"
      "\<forall>t. outside (sys_pc \<sigma> t)" "tb_objs (sys_mem \<sigma>) = {BoxObj, TreeObj, LockObj}"
    by (auto simp: cg_inv_def)
  then show ?case using completes_enter [OF ps(2), of t c] by (simp add: cg_inv_def m)
next
  case (turn \<sigma> t c l m l')
  from op_step_fields [OF turn.hyps(2)] have m: "tb_lock m = tb_lock (sys_mem \<sigma>)" "tb_objs m = tb_objs (sys_mem \<sigma>)"
    by simp_all
  from cg_inv_inside [OF turn.prems turn.hyps(1)] obtain ps where
    "tb_lock (sys_mem \<sigma>) = LockedBy t" "replay (sys_hist \<sigma>) [] = Some ps"
    "\<forall>u. u \<noteq> t \<longrightarrow> outside (sys_pc \<sigma> u)" "completes (sys_mem \<sigma>) t c l ps"
    "tb_objs (sys_mem \<sigma>) = {BoxObj, TreeObj, LockObj}" .
  then show ?case using completes_step [OF _ turn.hyps(2)] m by (simp add: cg_inv_def)
next
  case (leave \<sigma> t c r m)
  then have m: "m = (sys_mem \<sigma>)\<lparr>tb_lock := Unlocked\<rparr>"
    by (auto simp: lock_op_def split: if_splits option.splits)
  from cg_inv_inside [OF leave.prems leave.hyps(1)] obtain ps where ps:
    "replay (sys_hist \<sigma>) [] = Some ps" "\<forall>u. u \<noteq> t \<longrightarrow> outside (sys_pc \<sigma> u)"
    "completes (sys_mem \<sigma>) t c (Exiting r) ps" "tb_objs (sys_mem \<sigma>) = {BoxObj, TreeObj, LockObj}" .
  from completes_exit [OF ps(3)] have "snd (spec_op c ps) = r"
      "cg_repr ((sys_mem \<sigma>)\<lparr>tb_lock := Unlocked\<rparr>) (fst (spec_op c ps))"
    by (metis snd_conv)+
  with ps show ?case by (simp add: cg_inv_def m replay_append)
qed

lemma cg_inv_reach: "cg_step\<^sup>*\<^sup>* \<sigma> \<sigma>' \<Longrightarrow> cg_inv \<sigma> \<Longrightarrow> cg_inv \<sigma>'"
  by (induction rule: rtranclp_induct) (auto intro: cg_inv_step)

section \<open>Nothing goes wrong, and calls complete\<close>

text \<open>A thread past the acquire can always take its next step: no read of a missing node, no release
  of a lock it does not hold.\<close>

lemma cg_inside_steps:
  assumes "cg_inv \<sigma>" "sys_pc \<sigma> t = Inside c l"
  shows "(\<exists>r. l = Exiting r \<and> lock_op (release t) (sys_mem \<sigma>) \<noteq> None) \<or>
    (\<exists>m l'. op_step (sys_mem \<sigma>) c l = Some (m, l'))"
proof -
  from cg_inv_inside [OF assms] obtain ps where u: "tb_lock (sys_mem \<sigma>) = LockedBy t"
    "completes (sys_mem \<sigma>) t c l ps" "tb_objs (sys_mem \<sigma>) = {BoxObj, TreeObj, LockObj}" .
  then have "op_rest (sys_mem \<sigma>) c l \<noteq> None" by (auto simp: completes_def)
  then show ?thesis using op_step_enabled [of "sys_mem \<sigma>" c l] u by auto
qed

text \<open>The uninterrupted rest of a call is a finite run of turns.\<close>

inductive op_run :: "call \<Rightarrow> tree_mem \<times> point \<Rightarrow> tree_mem \<times> cptr \<Rightarrow> bool" where
  "op_run c (s, Exiting r) (s, r)"
| "op_step s c l = Some (s', l') \<Longrightarrow> op_run c (s', l') res \<Longrightarrow> op_run c (s, l) res"

lemma op_run_turn:
  "op_step s c l = Some (s', l') \<Longrightarrow> op_run c (s', l') (s'', r) \<Longrightarrow> op_run c (s, l) (s'', r)"
  by (rule op_run.intros)

lemma insert_loop_run:
  "insert_loop s lv x v = Some s' \<Longrightarrow> op_run (CInsert x v) (s, AtLv lv) (s', None)"
proof (erule insert_loop.raw_induct [where P = "\<lambda>s lv x v s'. op_run (CInsert x v) (s, AtLv lv) (s', None)"
      and xa = "(((s, lv), x), v)", unfolded prod.case, rotated])
  fix f s lv x v s'
  assume IH: "\<And>s lv x v s'. f s lv x v = Some s' \<Longrightarrow> op_run (CInsert x v) (s, AtLv lv) (s', None)"
    and body: "Option.bind (insert_iter s lv x v) (\<lambda>(s, c). case c of None \<Rightarrow> Some s | Some tr \<Rightarrow> f s tr x v) = Some s'"
  then obtain s1 c where it: "insert_iter s lv x v = Some (s1, c)"
    and rest: "(case c of None \<Rightarrow> Some s1 | Some tr \<Rightarrow> f s1 tr x v) = Some s'"
    by (auto simp: bind_Some_iff)
  show "op_run (CInsert x v) (s, AtLv lv) (s', None)"
    by (rule op_run_turn [of s "CInsert x v" "AtLv lv" s1 "case c of None \<Rightarrow> Exiting None | Some lv \<Rightarrow> AtLv lv"])
       (use it rest in \<open>auto intro: op_run.intros IH split: option.splits\<close>)
qed

lemma pushdown_left_run:
  "pushdown_left s lv = Some s' \<Longrightarrow> op_run (CDelete x) (s, PushAt lv) (s', None)"
proof (erule pushdown_left.raw_induct [where P = "\<lambda>s lv s'. op_run (CDelete x) (s, PushAt lv) (s', None)", rotated])
  fix f s lv s'
  assume IH: "\<And>s lv s'. f s lv = Some s' \<Longrightarrow> op_run (CDelete x) (s, PushAt lv) (s', None)"
    and body: "Option.bind (pushdown_iter s lv) (\<lambda>(s, c). case c of None \<Rightarrow> Some s | Some tr \<Rightarrow> f s tr) = Some s'"
  then obtain s1 c where it: "pushdown_iter s lv = Some (s1, c)"
    and rest: "(case c of None \<Rightarrow> Some s1 | Some tr \<Rightarrow> f s1 tr) = Some s'"
    by (auto simp: bind_Some_iff)
  show "op_run (CDelete x) (s, PushAt lv) (s', None)"
    by (rule op_run_turn [of s "CDelete x" "PushAt lv" s1 "case c of None \<Rightarrow> Exiting None | Some lv \<Rightarrow> PushAt lv"])
       (use it rest in \<open>auto intro: op_run.intros IH split: option.splits\<close>)
qed

lemma delete_loop_run:
  "delete_loop s lv x = Some s' \<Longrightarrow> op_run (CDelete x) (s, AtLv lv) (s', None)"
proof (erule delete_loop.raw_induct [where P = "\<lambda>s lv x s'. op_run (CDelete x) (s, AtLv lv) (s', None)"
      and xa = "((s, lv), x)", unfolded prod.case, rotated])
  fix f s lv x s'
  assume IH: "\<And>s lv x s'. f s lv x = Some s' \<Longrightarrow> op_run (CDelete x) (s, AtLv lv) (s', None)"
    and body: "Option.bind (delete_iter s lv x) (\<lambda>c. case c of DelReturn \<Rightarrow> Some s
      | DelAt tr \<Rightarrow> f s tr x | DelPush tr \<Rightarrow> pushdown_left s tr) = Some s'"
  then obtain c where it: "delete_iter s lv x = Some c"
    and rest: "(case c of DelReturn \<Rightarrow> Some s | DelAt tr \<Rightarrow> f s tr x | DelPush tr \<Rightarrow> pushdown_left s tr) = Some s'"
    by (auto simp: bind_Some_iff)
  show "op_run (CDelete x) (s, AtLv lv) (s', None)"
    by (rule op_run_turn [of s "CDelete x" "AtLv lv" s
          "case c of DelReturn \<Rightarrow> Exiting None | DelAt lv \<Rightarrow> AtLv lv | DelPush lv \<Rightarrow> PushAt lv"])
       (use it rest in \<open>auto intro: op_run.intros IH pushdown_left_run split: del_next.splits\<close>)
qed

lemma lookup_loop_run:
  "lookup_loop s p x = Some v \<Longrightarrow> op_run (CLookup x) (s, AtPtr p) (s, v)"
proof (erule lookup_loop.raw_induct [where P = "\<lambda>s p x v. op_run (CLookup x) (s, AtPtr p) (s, v)"
      and xa = "((s, p), x)", unfolded prod.case, rotated])
  fix f s p x v
  assume IH: "\<And>s p x v. f s p x = Some v \<Longrightarrow> op_run (CLookup x) (s, AtPtr p) (s, v)"
    and body: "Option.bind (lookup_iter s p x) (\<lambda>c. case c of Inl p \<Rightarrow> f s p x | Inr v \<Rightarrow> Some v) = Some v"
  then obtain c where it: "lookup_iter s p x = Some c"
    and rest: "(case c of Inl p \<Rightarrow> f s p x | Inr v \<Rightarrow> Some v) = Some v"
    by (auto simp: bind_Some_iff)
  show "op_run (CLookup x) (s, AtPtr p) (s, v)"
    by (rule op_run_turn [of s "CLookup x" "AtPtr p" s "case c of Inl p \<Rightarrow> AtPtr p | Inr v \<Rightarrow> Exiting v"])
       (use it rest in \<open>auto intro: op_run.intros IH split: sum.splits\<close>)
qed

lemma op_rest_run: "op_rest s c l = Some (s', r) \<Longrightarrow> op_run c (s, l) (s', r)"
  by (cases c; cases l)
     (auto intro: op_run.intros(1) insert_loop_run pushdown_left_run delete_loop_run lookup_loop_run)

lemma op_run_steps:
  "op_run c (m, l) (m', r) \<Longrightarrow> sys_mem \<sigma> = m \<Longrightarrow> sys_pc \<sigma> t = Inside c l \<Longrightarrow>
   cg_step\<^sup>*\<^sup>* \<sigma> (\<sigma>\<lparr>sys_mem := m', sys_pc := (sys_pc \<sigma>)(t := Inside c (Exiting r))\<rparr>)"
proof (induction c "(m, l)" "(m', r)" arbitrary: m l \<sigma> rule: op_run.induct)
  case (1 c)
  then have "\<sigma>\<lparr>sys_mem := m', sys_pc := (sys_pc \<sigma>)(t := Inside c (Exiting r))\<rparr> = \<sigma>"
    by (auto intro!: cg_sys.equality simp: fun_eq_iff)
  then show ?case by (metis rtranclp.rtrancl_refl)
next
  case (2 s c l s' l')
  let ?\<sigma>1 = "\<sigma>\<lparr>sys_mem := s', sys_pc := (sys_pc \<sigma>)(t := Inside c l')\<rparr>"
  have "cg_step \<sigma> ?\<sigma>1" using 2 by (intro cg_step.turn) auto
  moreover have "cg_step\<^sup>*\<^sup>* ?\<sigma>1 (?\<sigma>1\<lparr>sys_mem := m', sys_pc := (sys_pc ?\<sigma>1)(t := Inside c (Exiting r))\<rparr>)"
    by (rule "2.hyps") simp_all
  ultimately show ?case by (simp add: converse_rtranclp_into_rtranclp)
qed

text \<open>The thread that holds the lock returns, and its call enters the history.\<close>

lemma cg_holder_returns:
  assumes inv: "cg_inv \<sigma>" and pc: "sys_pc \<sigma> t = Inside c l"
  obtains \<sigma>' r where "cg_step\<^sup>*\<^sup>* \<sigma> \<sigma>'" "sys_hist \<sigma>' = sys_hist \<sigma> @ [(t, c, r)]" "sys_pc \<sigma>' = (sys_pc \<sigma>)(t := Idle)"
    "tb_lock (sys_mem \<sigma>') = Unlocked"
proof -
  from cg_inv_inside [OF assms] obtain ps where "completes (sys_mem \<sigma>) t c l ps" by metis
  then obtain s' r where rest: "op_rest (sys_mem \<sigma>) c l = Some (s', r)" and
      s': "tb_lock s' = LockedBy t" "LockObj \<in> tb_objs s'"
    by (auto simp: completes_def)
  let ?\<sigma>1 = "\<sigma>\<lparr>sys_mem := s', sys_pc := (sys_pc \<sigma>)(t := Inside c (Exiting r))\<rparr>"
  let ?\<sigma>2 = "?\<sigma>1\<lparr>sys_mem := s'\<lparr>tb_lock := Unlocked\<rparr>, sys_pc := (sys_pc ?\<sigma>1)(t := Idle),
    sys_hist := sys_hist ?\<sigma>1 @ [(t, c, r)]\<rparr>"
  have "cg_step\<^sup>*\<^sup>* \<sigma> ?\<sigma>1" by (rule op_run_steps [OF op_rest_run [OF rest] refl pc])
  moreover have "cg_step ?\<sigma>1 ?\<sigma>2" using s' by (intro cg_step.leave) simp_all
  ultimately have "cg_step\<^sup>*\<^sup>* \<sigma> ?\<sigma>2" by simp
  then show thesis by (rule that) simp_all
qed

text \<open>In every reachable state a waiting thread can be served, whoever holds the lock now.\<close>

lemma cg_waiting_served:
  assumes inv: "cg_inv \<sigma>" and pc: "sys_pc \<sigma> t = Waiting c"
  shows "\<exists>\<sigma>' h r. cg_step\<^sup>*\<^sup>* \<sigma> \<sigma>' \<and> sys_hist \<sigma>' = sys_hist \<sigma> @ h @ [(t, c, r)] \<and> length h \<le> 1"
proof -
  obtain \<sigma>1 h where s1: "cg_step\<^sup>*\<^sup>* \<sigma> \<sigma>1" "sys_pc \<sigma>1 t = Waiting c" "tb_lock (sys_mem \<sigma>1) = Unlocked"
      "sys_hist \<sigma>1 = sys_hist \<sigma> @ h" "length h \<le> 1"
    using inv
  proof (cases rule: cg_inv_cases)
    case free
    then show thesis using that [of \<sigma> "[]"] pc by simp
  next
    case (held u c' l ps)
    then have "u \<noteq> t" using pc by auto
    from cg_holder_returns [OF inv held(4)] obtain \<sigma>' r where "cg_step\<^sup>*\<^sup>* \<sigma> \<sigma>'"
      "sys_hist \<sigma>' = sys_hist \<sigma> @ [(u, c', r)]" "sys_pc \<sigma>' = (sys_pc \<sigma>)(u := Idle)"
      "tb_lock (sys_mem \<sigma>') = Unlocked" .
    then show thesis using that [of \<sigma>' "[(u, c', r)]"] pc \<open>u \<noteq> t\<close> by simp
  qed
  have inv1: "cg_inv \<sigma>1" by (rule cg_inv_reach [OF s1(1) inv])
  then have "tb_objs (sys_mem \<sigma>1) = {BoxObj, TreeObj, LockObj}" by (simp add: cg_inv_def)
  with s1 have en: "lock_op (acquire t) (sys_mem \<sigma>1) = Some ((sys_mem \<sigma>1)\<lparr>tb_lock := LockedBy t\<rparr>)" by simp
  define \<sigma>2 where "\<sigma>2 = \<sigma>1\<lparr>sys_mem := (sys_mem \<sigma>1)\<lparr>tb_lock := LockedBy t\<rparr>, sys_pc := (sys_pc \<sigma>1)
      (t := Inside c (entry ((sys_mem \<sigma>1)\<lparr>tb_lock := LockedBy t\<rparr>) c))\<rparr>"
  have step: "cg_step \<sigma>1 \<sigma>2" unfolding \<sigma>2_def by (rule cg_step.enter [OF s1(2) en])
  have pc2: "sys_pc \<sigma>2 t = Inside c (entry ((sys_mem \<sigma>1)\<lparr>tb_lock := LockedBy t\<rparr>) c)"
    and h2: "sys_hist \<sigma>2 = sys_hist \<sigma>1" by (simp_all add: \<sigma>2_def)
  from cg_holder_returns [OF cg_inv_step [OF inv1 step] pc2] obtain \<sigma>' r where
    run: "cg_step\<^sup>*\<^sup>* \<sigma>2 \<sigma>'" "sys_hist \<sigma>' = sys_hist \<sigma>2 @ [(t, c, r)]" by metis
  have "cg_step\<^sup>*\<^sup>* \<sigma> \<sigma>'"
    using s1(1) step run(1) by (meson converse_rtranclp_into_rtranclp rtranclp_trans)
  then show ?thesis using run(2) s1(4,5) h2 by auto
qed

section \<open>Running a schedule\<close>

text \<open>One move of a given thread: a new call if it is idle, else its next step if it can take one.\<close>

definition cg_act :: "cg_sys \<Rightarrow> tid \<times> call \<Rightarrow> cg_sys" where
  "cg_act \<sigma> a = (case a of (t, c) \<Rightarrow> case sys_pc \<sigma> t of
     Idle \<Rightarrow> \<sigma>\<lparr>sys_pc := (sys_pc \<sigma>)(t := Waiting c)\<rparr>
   | Waiting c \<Rightarrow> (case lock_op (acquire t) (sys_mem \<sigma>) of None \<Rightarrow> \<sigma>
       | Some m \<Rightarrow> \<sigma>\<lparr>sys_mem := m, sys_pc := (sys_pc \<sigma>)(t := Inside c (entry m c))\<rparr>)
   | Inside c (Exiting r) \<Rightarrow> (case lock_op (release t) (sys_mem \<sigma>) of None \<Rightarrow> \<sigma>
       | Some m \<Rightarrow> \<sigma>\<lparr>sys_mem := m, sys_pc := (sys_pc \<sigma>)(t := Idle), sys_hist := sys_hist \<sigma> @ [(t, c, r)]\<rparr>)
   | Inside c l \<Rightarrow> (case op_step (sys_mem \<sigma>) c l of None \<Rightarrow> \<sigma>
       | Some (m, l') \<Rightarrow> \<sigma>\<lparr>sys_mem := m, sys_pc := (sys_pc \<sigma>)(t := Inside c l')\<rparr>))"

lemma cg_act_reach: "cg_step\<^sup>*\<^sup>* \<sigma> (foldl cg_act \<sigma> as)"
proof (induction as arbitrary: \<sigma>)
  case (Cons a as)
  have "cg_step\<^sup>*\<^sup>* \<sigma> (cg_act \<sigma> a)"
    by (cases a) (auto simp: cg_act_def split: pc.splits point.splits option.splits
      intro!: r_into_rtranclp intro: cg_step.intros)
  with Cons show ?case by (simp add: rtranclp_trans)
qed simp

end
