(* ===== verification/Conc_Map.thy ===== *)
theory Conc_Map
  imports Conc_CoarseLin
begin

text \<open>
  The interface of a sequential map from C integers to pointers: what a client may rely on, and what
  a run of calls then returns. Both coarse-locked programs provide it.
\<close>

section \<open>Running calls\<close>

fun run_calls :: "('s \<Rightarrow> int \<Rightarrow> cptr \<Rightarrow> 's option) \<Rightarrow> ('s \<Rightarrow> int \<Rightarrow> ('s \<times> cptr) option) \<Rightarrow> ('s \<Rightarrow> int \<Rightarrow> 's option) \<Rightarrow>
    's \<Rightarrow> call list \<Rightarrow> ('s \<times> cptr list) option" where
  "run_calls ins look del s [] = Some (s, [])"
| "run_calls ins look del s (c # cs) = do {
     (s, r) \<leftarrow> (case c of
        CInsert x v \<Rightarrow> map_option (\<lambda>s. (s, None)) (ins s x v)
      | CLookup x \<Rightarrow> look s x
      | CDelete x \<Rightarrow> map_option (\<lambda>s. (s, None)) (del s x));
     (s, rs) \<leftarrow> run_calls ins look del s cs;
     Some (s, r # rs) }"

text \<open>The answers of the sequential map.\<close>

fun spec_calls :: "(int \<times> cptr) list \<Rightarrow> call list \<Rightarrow> (int \<times> cptr) list \<times> cptr list" where
  "spec_calls ps [] = (ps, [])"
| "spec_calls ps (c # cs) = (case spec_op c ps of (ps, r) \<Rightarrow>
     case spec_calls ps cs of (ps, rs) \<Rightarrow> (ps, r # rs))"

section \<open>The interface\<close>

locale seq_map =
  fixes repr :: "'s \<Rightarrow> (int \<times> cptr) list \<Rightarrow> bool"
    and ins :: "'s \<Rightarrow> int \<Rightarrow> cptr \<Rightarrow> 's option"
    and look :: "'s \<Rightarrow> int \<Rightarrow> ('s \<times> cptr) option"
    and del :: "'s \<Rightarrow> int \<Rightarrow> 's option"
  assumes ins_repr: "repr s ps \<Longrightarrow> \<exists>s'. ins s x v = Some s' \<and> repr s' (ins_list x v ps)"
    and look_repr: "repr s ps \<Longrightarrow> look s x = Some (s, found ps x)"
    and del_repr: "repr s ps \<Longrightarrow> \<exists>s'. del s x = Some s' \<and> repr s' (del_list x ps)"
begin

lemma call_answers:
  assumes "repr s ps"
  shows "\<exists>s'. (case c of
        CInsert x v \<Rightarrow> map_option (\<lambda>s. (s, None)) (ins s x v)
      | CLookup x \<Rightarrow> look s x
      | CDelete x \<Rightarrow> map_option (\<lambda>s. (s, None)) (del s x)) = Some (s', snd (spec_op c ps)) \<and>
     repr s' (fst (spec_op c ps))"
proof (cases c)
  case (CInsert x v)
  then show ?thesis using ins_repr [OF assms, of x v] by auto
next
  case (CLookup x)
  then show ?thesis using look_repr [OF assms, of x] assms by auto
next
  case (CDelete x)
  then show ?thesis using del_repr [OF assms, of x] by auto
qed

text \<open>A run of calls returns what the map answers.\<close>

lemma run_answers:
  "repr s ps \<Longrightarrow> \<exists>s'. run_calls ins look del s cs = Some (s', snd (spec_calls ps cs)) \<and>
     repr s' (fst (spec_calls ps cs))"
proof (induction cs arbitrary: s ps)
  case (Cons c cs)
  obtain s1 where s1: "(case c of
        CInsert x v \<Rightarrow> map_option (\<lambda>s. (s, None)) (ins s x v)
      | CLookup x \<Rightarrow> look s x
      | CDelete x \<Rightarrow> map_option (\<lambda>s. (s, None)) (del s x)) = Some (s1, snd (spec_op c ps))"
    "repr s1 (fst (spec_op c ps))"
    using call_answers [OF Cons.prems] by blast
  from Cons.IH [OF s1(2)] s1(1) show ?case by (auto split: prod.split)
qed simp

end

interpretation cg: seq_map cg_repr "insert_cg t" "lookup_cg t" "delete_cg t" for t
  by unfold_locales (rule insert_cg_repr lookup_cg_repr delete_cg_repr; assumption)+

interpretation cg3: seq_map cg_repr "insert_conc t" "lookup_conc t" "delete_conc t" for t
proof unfold_locales
  fix s ps x v
  assume s: "cg_repr s ps"
  show "\<exists>s'. insert_conc t s x v = Some s' \<and> cg_repr s' (ins_list x v ps)"
    using insert_cg_repr [OF s] by (simp add: insert_conc_eq [OF s])
  show "lookup_conc t s x = Some (s, found ps x)"
    using lookup_cg_repr [OF s] by (simp add: lookup_conc_eq)
  show "\<exists>s'. delete_conc t s x = Some s' \<and> cg_repr s' (del_list x ps)"
    using delete_cg_repr [OF s] by (simp add: delete_conc_eq [OF s])
qed

end
