(* ===== verification/Conc_Cells.thy ===== *)
theory Conc_Cells
  imports Conc_CoarseLin
begin

text \<open>
  Search trees over cells, shared by the hand-over-hand and the lock-free programs: a cell (a
  \<^verbatim>\<open>tree_t\<close>, or an atomic pointer) holds a pointer to a node, a node names two cells. \<open>ctree\<close>
  records which cell and node each part lives in, \<open>vrep\<close> says that a memory, seen through a view,
  holds it, \<open>plug\<close> puts a sub-tree into a context, and \<open>cpath\<close> is the set of cells a search passes.
\<close>

record hnode =
  hkey :: int
  hval :: cptr
  hleft :: addr
  hright :: addr

section \<open>Steps of threads\<close>

text \<open>The outcome of a thread's step: it waits for a lock, does something undefined, or goes on.\<close>

datatype 'a outcome = Blocked | Fault | Go 'a

definition need :: "'a option \<Rightarrow> ('a \<Rightarrow> 'b outcome) \<Rightarrow> 'b outcome" where
  "need x f = (case x of None \<Rightarrow> Fault | Some y \<Rightarrow> f y)"

text \<open>The history grows when a step of a call settles its result.\<close>

definition settle :: "tid \<Rightarrow> call option \<Rightarrow> cptr option \<Rightarrow> (tid \<times> call \<times> cptr) list" where
  "settle t c ev = (case (c, ev) of (Some c, Some r) \<Rightarrow> [(t, c, r)] | _ \<Rightarrow> [])"

section \<open>Trees of cells\<close>

datatype ctree = CLeaf addr | CNode addr addr int cptr ctree ctree

fun cell_of :: "ctree \<Rightarrow> addr" where
  "cell_of (CLeaf c) = c"
| "cell_of (CNode c n k v l r) = c"

fun cell_list :: "ctree \<Rightarrow> addr list" where
  "cell_list (CLeaf c) = [c]"
| "cell_list (CNode c n k v l r) = cell_list l @ c # cell_list r"

fun node_list :: "ctree \<Rightarrow> addr list" where
  "node_list (CLeaf c) = []"
| "node_list (CNode c n k v l r) = node_list l @ n # node_list r"

fun cpairs :: "ctree \<Rightarrow> (int \<times> cptr) list" where
  "cpairs (CLeaf c) = []"
| "cpairs (CNode c n k v l r) = cpairs l @ (k, v) # cpairs r"

text \<open>The cells a search for \<open>x\<close> passes.\<close>

fun cpath :: "ctree \<Rightarrow> int \<Rightarrow> addr set" where
  "cpath (CLeaf c) x = {c}"
| "cpath (CNode c n k v l r) x =
     insert c (if x < k then cpath l x else if k < x then cpath r x else {})"

text \<open>A memory is seen through a view: at a cell, the pointer in it and the node behind it.\<close>

type_synonym cview = "addr \<Rightarrow> (cptr \<times> hnode option) option"

fun vrep :: "cview \<Rightarrow> ctree \<Rightarrow> bool" where
  "vrep m (CLeaf c) \<longleftrightarrow> m c = Some (None, None)"
| "vrep m (CNode c n k v l r) \<longleftrightarrow>
     m c = Some (Some n, Some \<lparr>hkey = k, hval = v, hleft = cell_of l, hright = cell_of r\<rparr>) \<and>
     vrep m l \<and> vrep m r"

lemma vrep_cong: "(\<And>c. c \<in> set (cell_list T) \<Longrightarrow> m c = m' c) \<Longrightarrow> vrep m T = vrep m' T"
  by (induction T) auto

lemma cell_of_in [simp]: "cell_of T \<in> set (cell_list T)"
  by (cases T) auto

lemma cpath_cells: "cpath T x \<subseteq> set (cell_list T)"
  by (induction T) auto

lemma cell_of_path [simp]: "cell_of T \<in> cpath T x"
  by (cases T) auto

section \<open>Contexts\<close>

datatype cframe = FL addr addr int cptr ctree | FR addr addr int cptr ctree

fun plug :: "cframe list \<Rightarrow> ctree \<Rightarrow> ctree" where
  "plug [] S = S"
| "plug (FL c n k v r # C) S = plug C (CNode c n k v S r)"
| "plug (FR c n k v l # C) S = plug C (CNode c n k v l S)"

text \<open>What a context adds to the left and to the right of its hole, for each of the three lists.\<close>

fun ctx_list :: "(ctree \<Rightarrow> 'a list) \<Rightarrow> (addr \<Rightarrow> addr \<Rightarrow> int \<Rightarrow> cptr \<Rightarrow> 'a) \<Rightarrow> cframe list \<Rightarrow> 'a list \<times> 'a list" where
  "ctx_list f g [] = ([], [])"
| "ctx_list f g (FL c n k v r # C) = (fst (ctx_list f g C), g c n k v # f r @ snd (ctx_list f g C))"
| "ctx_list f g (FR c n k v l # C) = (fst (ctx_list f g C) @ f l @ [g c n k v], snd (ctx_list f g C))"

abbreviation "ctx_cells \<equiv> ctx_list cell_list (\<lambda>c n k v. c)"
abbreviation "ctx_nodes \<equiv> ctx_list node_list (\<lambda>c n k v. n)"
abbreviation "ctx_pairs \<equiv> ctx_list cpairs (\<lambda>c n k v. (k, v))"

lemma plug_cells: "cell_list (plug C S) = fst (ctx_cells C) @ cell_list S @ snd (ctx_cells C)"
  by (induction C S rule: plug.induct) auto

lemma plug_nodes: "node_list (plug C S) = fst (ctx_nodes C) @ node_list S @ snd (ctx_nodes C)"
  by (induction C S rule: plug.induct) auto

lemma plug_pairs: "cpairs (plug C S) = fst (ctx_pairs C) @ cpairs S @ snd (ctx_pairs C)"
  by (induction C S rule: plug.induct) auto

fun ctx_thru :: "cframe list \<Rightarrow> int \<Rightarrow> bool" where
  "ctx_thru [] x = True"
| "ctx_thru (FL c n k v r # C) x \<longleftrightarrow> x < k \<and> ctx_thru C x"
| "ctx_thru (FR c n k v l # C) x \<longleftrightarrow> k < x \<and> ctx_thru C x"

lemma plug_path_mono:
  "cpath S x \<inter> H \<subseteq> cpath S' x \<Longrightarrow> cpath (plug C S) x \<inter> H \<subseteq> cpath (plug C S') x"
proof (induction C S arbitrary: S' rule: plug.induct)
  case (2 c n k v r C S)
  show ?case by (simp, rule "2.IH") (use "2.prems" in auto)
next
  case (3 c n k v l C S)
  show ?case by (simp, rule "3.IH") (use "3.prems" in auto)
qed simp

lemma plug_path_thru:
  "distinct (cell_list (plug C S)) \<Longrightarrow> d \<in> set (cell_list S) \<Longrightarrow>
   d \<in> cpath (plug C S) x \<longleftrightarrow> ctx_thru C x \<and> d \<in> cpath S x"
proof (induction C S rule: plug.induct)
  case (2 c n k v r C S)
  have "c \<noteq> d" "d \<notin> set (cell_list r)" using "2.prems" by (auto simp: plug_cells)
  then show ?case using "2.IH" "2.prems" cpath_cells [of r x] by auto
next
  case (3 c n k v l C S)
  have "c \<noteq> d" "d \<notin> set (cell_list l)" using "3.prems" by (auto simp: plug_cells)
  then show ?case using "3.IH" "3.prems" cpath_cells [of l x] by auto
qed simp

fun ctx_vrep :: "cview \<Rightarrow> cframe list \<Rightarrow> addr \<Rightarrow> bool" where
  "ctx_vrep m [] h = True"
| "ctx_vrep m (FL c n k v r # C) h \<longleftrightarrow>
     m c = Some (Some n, Some \<lparr>hkey = k, hval = v, hleft = h, hright = cell_of r\<rparr>) \<and> vrep m r \<and> ctx_vrep m C c"
| "ctx_vrep m (FR c n k v l # C) h \<longleftrightarrow>
     m c = Some (Some n, Some \<lparr>hkey = k, hval = v, hleft = cell_of l, hright = h\<rparr>) \<and> vrep m l \<and> ctx_vrep m C c"

lemma plug_vrep: "vrep m (plug C S) \<longleftrightarrow> vrep m S \<and> ctx_vrep m C (cell_of S)"
  by (induction C S rule: plug.induct) auto

lemma ctx_vrep_cong:
  "(\<And>c. c \<in> set (fst (ctx_cells C)) \<union> set (snd (ctx_cells C)) \<Longrightarrow> m c = m' c) \<Longrightarrow>
   ctx_vrep m C h = ctx_vrep m' C h"
proof (induction C arbitrary: h)
  case (Cons fr C)
  obtain c n k v S where fr: "fr = FL c n k v S \<or> fr = FR c n k v S" by (cases fr) auto
  have "m c = m' c" "vrep m S = vrep m' S"
    using fr Cons.prems by (auto intro!: vrep_cong)
  moreover have "ctx_vrep m C h = ctx_vrep m' C h" for h
    using fr Cons.prems by (intro Cons.IH) auto
  ultimately show ?case using fr by auto
qed simp

lemma plug_cell_of: "cell_of S' = cell_of S \<Longrightarrow> cell_of (plug C S') = cell_of (plug C S)"
proof (induction C S arbitrary: S' rule: plug.induct)
  case (2 c n k v r C S)
  from "2.prems" show ?case by (simp, intro "2.IH") simp
next
  case (3 c n k v l C S)
  from "3.prems" show ?case by (simp, intro "3.IH") simp
qed simp

lemma plug_split:
  assumes "c \<in> set (cell_list T)"
  obtains C S where "T = plug C S" "cell_of S = c"
proof -
  have "c \<in> set (cell_list T) \<Longrightarrow> \<exists>C' S. plug C T = plug C' S \<and> cell_of S = c" for C
  proof (induction T arbitrary: C)
    case (CLeaf d)
    then show ?case by (intro exI [of _ C] exI [of _ "CLeaf d"]) simp
  next
    case (CNode d n k v l r)
    from CNode.prems consider "c \<in> set (cell_list l)" | "c \<in> set (cell_list r)" | "c = d" by auto
    then show ?case
    proof cases
      case 1
      then show ?thesis using CNode.IH(1) [of "FL d n k v r # C"] by simp
    next
      case 2
      then show ?thesis using CNode.IH(2) [of "FR d n k v l # C"] by simp
    next
      case 3
      then show ?thesis by (intro exI [of _ C] exI [of _ "CNode d n k v l r"]) simp
    qed
  qed
  from this [of "[]"] assms that show thesis by auto
qed

text \<open>A search that goes through a context looks for a key between its two sides.\<close>

lemma ctx_thru_bounds:
  "strict_sorted (keys_of (cpairs (plug C S))) \<Longrightarrow> ctx_thru C x \<Longrightarrow>
   (\<forall>y\<in>set (keys_of (fst (ctx_pairs C))). y < x) \<and> (\<forall>y\<in>set (keys_of (snd (ctx_pairs C))). x < y)"
proof (induction C S rule: plug.induct)
  case (2 c n k v r C S)
  then have "\<forall>y\<in>set (keys_of (cpairs r)). k < y"
    by (auto simp: plug_pairs sorted_wrt_append)
  with 2 show ?case by fastforce
next
  case (3 c n k v l C S)
  then have "\<forall>y\<in>set (keys_of (cpairs l)). y < k"
    by (auto simp: plug_pairs sorted_wrt_append)
  with 3 show ?case by fastforce
qed simp

section \<open>Sorted lists around a key\<close>

lemma sorted_around:
  assumes "strict_sorted (keys_of (A @ (x, w) # B))"
  shows "\<forall>y\<in>set (keys_of A). y < x" "\<forall>y\<in>set (keys_of B). x < y"
  using assms by (auto simp: sorted_wrt_append)

lemma ins_list_around:
  "\<forall>y\<in>set (keys_of A). y < x \<Longrightarrow> \<forall>y\<in>set (keys_of B). x < y \<Longrightarrow> ins_list x v (A @ B) = A @ (x, v) # B"
  using ins_list_append_left [of B x v A] ins_list_append_right [of A x v "[]"] by simp

lemma ins_list_replace:
  "strict_sorted (keys_of (A @ (x, w) # B)) \<Longrightarrow> ins_list x v (A @ (x, w) # B) = A @ (x, v) # B"
  using sorted_around(1) [of A x w B] by (simp add: ins_list_append_right)

lemma del_list_around:
  assumes "strict_sorted (keys_of (A @ (x, w) # B))"
  shows "del_list x (A @ (x, w) # B) = A @ B"
proof -
  have "del_list x A = A" "del_list x B = B"
    using sorted_around [OF assms] by (force intro: del_list_idle)+
  then show ?thesis by simp
qed

lemma found_around:
  assumes "strict_sorted (keys_of (A @ (x, w) # B))"
  shows "found (A @ (x, w) # B) x = w"
proof -
  have "distinct (keys_of (A @ (x, w) # B))" using assms strict_sorted_iff by blast
  then have "map_of (A @ (x, w) # B) x = Some w" by (intro map_of_is_SomeI) auto
  then show ?thesis by (simp add: found_def)
qed

lemma found_between:
  assumes "\<forall>y\<in>set (keys_of A). y < x" "\<forall>y\<in>set (keys_of B). x < y"
  shows "found (A @ B) x = None" "del_list x (A @ B) = A @ B"
proof -
  have "x \<notin> fst ` set (A @ B)" using assms by force
  then show "found (A @ B) x = None" "del_list x (A @ B) = A @ B"
    by (simp_all add: found_def map_of_eq_None_iff [symmetric] del_list_idle del: set_append filter_append map_of_append)
qed

section \<open>Well-formed trees in memory\<close>

lemma vrep_node_in:
  "vrep m T \<Longrightarrow> c \<in> set (cell_list T) \<Longrightarrow> m c = Some (Some n, x) \<Longrightarrow> n \<in> set (node_list T)"
  by (induction T) auto

lemma vrep_inj:
  "vrep m T \<Longrightarrow> distinct (node_list T) \<Longrightarrow> c \<in> set (cell_list T) \<Longrightarrow> d \<in> set (cell_list T) \<Longrightarrow>
   m c = Some (Some n, x) \<Longrightarrow> m d = Some (Some n, y) \<Longrightarrow> c = d"
proof (induction T)
  case (CNode e p k v l r)
  have sub: "n \<in> set (node_list U)" if "vrep m U" "b \<in> set (cell_list U)" "b = c \<or> b = d" for U b
    using vrep_node_in [OF that(1,2)] CNode.prems(5,6) that(3) by blast
  have "n \<in> set (node_list l) \<longleftrightarrow> c \<in> set (cell_list l)" "n \<in> set (node_list l) \<longleftrightarrow> d \<in> set (cell_list l)"
       "n \<in> set (node_list r) \<longleftrightarrow> c \<in> set (cell_list r)" "n \<in> set (node_list r) \<longleftrightarrow> d \<in> set (cell_list r)"
    using sub [of l c] sub [of l d] sub [of r c] sub [of r d] CNode.prems by (auto simp: disjoint_iff)
  then show ?case using CNode by auto
qed simp

definition cwf :: "cview \<Rightarrow> ctree \<Rightarrow> bool" where
  "cwf m T \<longleftrightarrow> vrep m T \<and> distinct (cell_list T) \<and> distinct (node_list T) \<and> strict_sorted (keys_of (cpairs T))"

text \<open>The sub-tree at a cell, by what is seen there.\<close>

lemma cwf_leaf_at:
  assumes "cwf m T" "c \<in> set (cell_list T)" "m c = Some (None, x)"
  obtains C where "T = plug C (CLeaf c)"
proof -
  obtain C S where T: "T = plug C S" "cell_of S = c" using assms(2) by (rule plug_split)
  then have "vrep m S" using assms(1) by (simp add: cwf_def plug_vrep)
  with assms(3) T(2) have "S = CLeaf c" by (cases S) auto
  with T(1) show thesis by (intro that) simp
qed

lemma cwf_node_at:
  assumes "cwf m T" "c \<in> set (cell_list T)" "m c = Some (Some n, Some nd)"
  obtains C l r where "T = plug C (CNode c n (hkey nd) (hval nd) l r)" "cell_of l = hleft nd" "cell_of r = hright nd"
proof -
  obtain C S where T: "T = plug C S" "cell_of S = c" using assms(2) by (rule plug_split)
  then have "vrep m S" using assms(1) by (simp add: cwf_def plug_vrep)
  then obtain k v l r where "S = CNode c n k v l r" "nd = \<lparr>hkey = k, hval = v, hleft = cell_of l, hright = cell_of r\<rparr>"
    using assms(3) T(2) by (cases S) auto
  with T(1) show thesis by (intro that [of C l r]) simp_all
qed

text \<open>The cell a search for \<open>x\<close> goes to next from a cell that it sees a node at.\<close>

definition next_cell :: "cview \<Rightarrow> int \<Rightarrow> addr \<Rightarrow> addr \<Rightarrow> bool" where
  "next_cell m x a b \<longleftrightarrow> (\<exists>n nd. m a = Some (Some n, Some nd) \<and> hkey nd \<noteq> x \<and>
     b = (if x < hkey nd then hleft nd else hright nd))"

lemma cwf_children:
  assumes "cwf m T" "a \<in> set (cell_list T)" "m a = Some (Some n, Some nd)"
  shows "hleft nd \<in> set (cell_list T)" "hright nd \<in> set (cell_list T)"
    "a \<noteq> hleft nd" "a \<noteq> hright nd" "hleft nd \<noteq> hright nd"
proof -
  obtain C l r where T: "T = plug C (CNode a n (hkey nd) (hval nd) l r)" "cell_of l = hleft nd" "cell_of r = hright nd"
    using cwf_node_at [OF assms] by metis
  have "distinct (cell_list T)" using assms(1) by (simp add: cwf_def)
  moreover have "hleft nd \<in> set (cell_list l)" "hright nd \<in> set (cell_list r)"
    using cell_of_in [of l] cell_of_in [of r] T by simp_all
  ultimately show "hleft nd \<in> set (cell_list T)" "hright nd \<in> set (cell_list T)"
    "a \<noteq> hleft nd" "a \<noteq> hright nd" "hleft nd \<noteq> hright nd"
    using T(1) by (auto simp: plug_cells)
qed

lemma cwf_next_path:
  assumes "cwf m T" "a \<in> cpath T x" "next_cell m x a b"
  shows "b \<in> cpath T x" "b \<in> set (cell_list T)" "a \<noteq> b"
proof -
  have aT: "a \<in> set (cell_list T)" using assms(2) cpath_cells by blast
  obtain n nd where v: "m a = Some (Some n, Some nd)" "hkey nd \<noteq> x"
      "b = (if x < hkey nd then hleft nd else hright nd)"
    using assms(3) by (auto simp: next_cell_def)
  obtain C l r where T: "T = plug C (CNode a n (hkey nd) (hval nd) l r)" "cell_of l = hleft nd" "cell_of r = hright nd"
    using cwf_node_at [OF assms(1) aT v(1)] by metis
  have dist: "distinct (cell_list T)" using assms(1) by (simp add: cwf_def)
  then have thru: "ctx_thru C x" using assms(2) T(1) plug_path_thru [of C _ a x] by simp
  let ?S = "CNode a n (hkey nd) (hval nd) l r"
  have "b \<in> set (cell_list ?S)" "b \<in> cpath ?S x"
    using v(2,3) T cell_of_in [of l] cell_of_in [of r] cell_of_path [of l x] cell_of_path [of r x] by auto
  then show "b \<in> cpath T x" using thru dist T(1) plug_path_thru [of C ?S b x] by simp
  show "b \<in> set (cell_list T)" "a \<noteq> b" using cwf_children [OF assms(1) aT v(1)] v(3) by (auto split: if_splits)
qed

text \<open>The answer of a search, at the cell where it ends.\<close>

lemma cwf_answer:
  assumes wf: "cwf m T" and a: "a \<in> cpath T x"
  shows "m a = Some (None, y) \<Longrightarrow> found (cpairs T) x = None \<and> del_list x (cpairs T) = cpairs T"
    and "m a = Some (Some n, Some nd) \<Longrightarrow> hkey nd = x \<Longrightarrow> found (cpairs T) x = hval nd"
proof -
  have aT: "a \<in> set (cell_list T)" using a cpath_cells by blast
  {
    assume v: "m a = Some (None, y)"
    then obtain C where T: "T = plug C (CLeaf a)" using cwf_leaf_at [OF wf aT] by metis
    have "ctx_thru C x" using a wf T plug_path_thru [of C "CLeaf a" a x] by (simp add: cwf_def)
    then show "found (cpairs T) x = None \<and> del_list x (cpairs T) = cpairs T"
      using ctx_thru_bounds [of C "CLeaf a" x] found_between [of "fst (ctx_pairs C)" x "snd (ctx_pairs C)"] wf T
      by (simp add: cwf_def plug_pairs del: filter_append)
  }
  {
    assume v: "m a = Some (Some n, Some nd)" "hkey nd = x"
    obtain C l r where T: "T = plug C (CNode a n (hkey nd) (hval nd) l r)"
      using cwf_node_at [OF wf aT v(1)] by metis
    then show "found (cpairs T) x = hval nd"
      using found_around [of "fst (ctx_pairs C) @ cpairs l" x "hval nd" "cpairs r @ snd (ctx_pairs C)"] wf v(2)
      by (simp add: cwf_def plug_pairs)
  }
qed

lemma plug_split_node:
  assumes "n \<in> set (node_list T)"
  obtains C c k v l r where "T = plug C (CNode c n k v l r)"
proof -
  have "n \<in> set (node_list T) \<Longrightarrow> \<exists>C' c k v l r. plug C T = plug C' (CNode c n k v l r)" for C
  proof (induction T arbitrary: C)
    case (CNode d p k v l r)
    from CNode.prems consider "n \<in> set (node_list l)" | "n \<in> set (node_list r)" | "n = p" by auto
    then show ?case
    proof cases
      case 1
      then show ?thesis using CNode.IH(1) [of "FL d p k v r # C"] by simp
    next
      case 2
      then show ?thesis using CNode.IH(2) [of "FR d p k v l # C"] by simp
    qed blast
  qed simp
  from this [of "[]"] assms that show thesis by auto
qed

text \<open>Growing a leaf on the search path into a node, and overwriting a value.\<close>

lemma cwf_grow:
  assumes wf: "cwf m (plug C (CLeaf c))" and thru: "ctx_thru C x"
    and new: "a \<noteq> b" "a \<notin> set (cell_list (plug C (CLeaf c)))" "b \<notin> set (cell_list (plug C (CLeaf c)))"
      "n \<notin> set (node_list (plug C (CLeaf c)))"
    and m': "m' c = Some (Some n, Some \<lparr>hkey = x, hval = v, hleft = a, hright = b\<rparr>)"
      "m' a = Some (None, None)" "m' b = Some (None, None)"
      "\<And>d. d \<in> set (cell_list (plug C (CLeaf c))) \<Longrightarrow> d \<noteq> c \<Longrightarrow> m' d = m d"
  shows "cwf m' (plug C (CNode c n x v (CLeaf a) (CLeaf b)))"
    "cpairs (plug C (CNode c n x v (CLeaf a) (CLeaf b))) = ins_list x v (cpairs (plug C (CLeaf c)))"
proof -
  let ?T = "plug C (CLeaf c)" and ?T' = "plug C (CNode c n x v (CLeaf a) (CLeaf b))"
  have srt: "strict_sorted (keys_of (cpairs ?T))" using wf by (simp add: cwf_def)
  show keys: "cpairs ?T' = ins_list x v (cpairs ?T)"
    using ins_list_around [of "fst (ctx_pairs C)" x "snd (ctx_pairs C)" v] ctx_thru_bounds [OF srt thru]
    by (simp add: plug_pairs)
  have "c \<notin> set (fst (ctx_cells C)) \<union> set (snd (ctx_cells C))" using wf by (auto simp: cwf_def plug_cells)
  then have "ctx_vrep m' C c = ctx_vrep m C c"
    using m'(4) by (intro ctx_vrep_cong) (auto simp: plug_cells)
  then have "vrep m' ?T'" using wf m'(1-3) by (simp add: cwf_def plug_vrep)
  moreover have "strict_sorted (keys_of (cpairs ?T'))"
    unfolding keys using srt by (rule strict_sorted_ins_list)
  moreover have "distinct (cell_list ?T')" "distinct (node_list ?T')"
    using wf new by (auto simp: cwf_def plug_cells plug_nodes)
  ultimately show "cwf m' ?T'" by (simp add: cwf_def)
qed

lemma cwf_store:
  assumes wf: "cwf m (plug C (CNode c n x w l r))"
    and m': "m' c = Some (Some n, Some \<lparr>hkey = x, hval = v, hleft = cell_of l, hright = cell_of r\<rparr>)"
      "\<And>d. d \<in> set (cell_list (plug C (CNode c n x w l r))) \<Longrightarrow> d \<noteq> c \<Longrightarrow> m' d = m d"
  shows "cwf m' (plug C (CNode c n x v l r))"
    "cpairs (plug C (CNode c n x v l r)) = ins_list x v (cpairs (plug C (CNode c n x w l r)))"
proof -
  let ?T = "plug C (CNode c n x w l r)" and ?T' = "plug C (CNode c n x v l r)"
  have srt: "strict_sorted (keys_of (cpairs ?T))" using wf by (simp add: cwf_def)
  show keys: "cpairs ?T' = ins_list x v (cpairs ?T)"
    using ins_list_replace [of "fst (ctx_pairs C) @ cpairs l" x w "cpairs r @ snd (ctx_pairs C)" v] srt
    by (simp add: plug_pairs)
  have dist: "distinct (cell_list ?T)" using wf by (simp add: cwf_def)
  have "ctx_vrep m' C c = ctx_vrep m C c"
    by (rule ctx_vrep_cong, rule m'(2)) (use dist in \<open>auto simp: plug_cells\<close>)
  moreover have "vrep m' l = vrep m l" "vrep m' r = vrep m r"
    by (rule vrep_cong, rule m'(2); use dist in \<open>auto simp: plug_cells\<close>)+
  ultimately have "vrep m' ?T'" using wf m'(1) by (simp add: cwf_def plug_vrep)
  moreover have "strict_sorted (keys_of (cpairs ?T'))"
    unfolding keys using srt by (rule strict_sorted_ins_list)
  moreover have "distinct (cell_list ?T')" "distinct (node_list ?T')"
    using wf by (simp_all add: cwf_def plug_cells plug_nodes)
  ultimately show "cwf m' ?T'" by (simp add: cwf_def)
qed

end
