(* ===== verification/Conc_Hoh.thy ===== *)
theory Conc_Hoh
  imports Conc_Cells
begin

text \<open>
  The hand-over-hand locking binary search tree, \<^verbatim>\<open>src/concurrency/bst_conc.c\<close>. Every \<^verbatim>\<open>tree_t\<close> is a
  cell with its own lock and a pointer to a node, and a node points to two cells. A thread that goes
  down the tree acquires the lock of the next cell before it releases the one it comes from. The lock
  of a cell is allocated with the cell, never replaced and freed with it, so the model keeps it in the cell.

  Each C function is a function from a program point to the outcome of the thread's next step: it goes
  on, it is blocked on a lock, or it does something undefined. A step ends at each lock operation, and
  the accesses between two lock operations are one step; the invariant shows that they touch only
  cells whose locks the thread holds. A step that settles the result of the call says so.
\<close>

section \<open>Memory\<close>

record hcell =
  ht :: cptr
  hlock :: mutex

record hmem =
  hcells :: "addr \<Rightarrow> hcell option"
  hnodes :: "addr \<Rightarrow> hnode option"
  hnext :: addr
  hroot :: addr

definition set_cell :: "hmem \<Rightarrow> addr \<Rightarrow> hcell \<Rightarrow> hmem" where
  "set_cell m c cl = m\<lparr>hcells := (hcells m)(c \<mapsto> cl)\<rparr>"

definition set_node :: "hmem \<Rightarrow> addr \<Rightarrow> hnode \<Rightarrow> hmem" where
  "set_node m n nd = m\<lparr>hnodes := (hnodes m)(n \<mapsto> nd)\<rparr>"

definition acquire_cell :: "tid \<Rightarrow> addr \<Rightarrow> hmem \<Rightarrow> (hmem \<Rightarrow> 'b outcome) \<Rightarrow> 'b outcome" where
  "acquire_cell t c m f = need (hcells m c) (\<lambda>cl.
     if hlock cl = Destroyed then Fault
     else case acquire t (hlock cl) of None \<Rightarrow> Blocked | Some l \<Rightarrow> f (set_cell m c (cl\<lparr>hlock := l\<rparr>)))"

definition release_cell :: "tid \<Rightarrow> addr \<Rightarrow> hmem \<Rightarrow> (hmem \<Rightarrow> 'b outcome) \<Rightarrow> 'b outcome" where
  "release_cell t c m f = need (hcells m c) (\<lambda>cl.
     need (release2 t (hlock cl)) (\<lambda>l. f (set_cell m c (cl\<lparr>hlock := l\<rparr>))))"

text \<open>\<^verbatim>\<open>freelock2\<close> of a cell's lock, and the \<^verbatim>\<open>free\<close> of the lock and the cell; once where a held mutex may be
  destroyed and once as POSIX has it.\<close>

definition free_cell :: "addr \<Rightarrow> hmem \<Rightarrow> hmem option" where
  "free_cell c m = do {
     cl \<leftarrow> hcells m c;
     l \<leftarrow> freelock2 (hlock cl);
     Some (m\<lparr>hcells := (hcells m)(c := None)\<rparr>) }"

definition free_cell_posix :: "addr \<Rightarrow> hmem \<Rightarrow> hmem option" where
  "free_cell_posix c m = do {
     cl \<leftarrow> hcells m c;
     l \<leftarrow> freelock2_posix (hlock cl);
     Some (m\<lparr>hcells := (hcells m)(c := None)\<rparr>) }"

definition free_hnode :: "addr \<Rightarrow> hmem \<Rightarrow> hmem option" where
  "free_hnode n m = (case hnodes m n of None \<Rightarrow> None | Some _ \<Rightarrow> Some (m\<lparr>hnodes := (hnodes m)(n := None)\<rparr>))"

text \<open>A new cell: its lock is made, held by the caller, and released.\<close>

definition new_cell :: "tid \<Rightarrow> hcell option" where
  "new_cell t = do { l \<leftarrow> makelock t; l \<leftarrow> release2 t l; Some \<lparr>ht = None, hlock = l\<rparr> }"

definition treebox_new_hoh :: "tid \<Rightarrow> hmem option" where
  "treebox_new_hoh t = do {
     cl \<leftarrow> new_cell t;
     Some \<lparr>hcells = [0 \<mapsto> cl], hnodes = Map.empty, hnext = 1, hroot = 0\<rparr> }"

section \<open>Program points\<close>

datatype hpc =
    HIdle
  | HStart call
  | HAt call addr
  | HDown call addr addr
  | HDrop call addr addr
  | HSeen int addr cptr
  | HDropSeen int addr addr cptr
  | HDone call addr cptr
  | PAt int addr
  | PWaitQ int addr addr addr
  | PHasQ int addr addr addr
  | PWaitL int addr addr addr addr
  | PHasL int addr addr addr addr
  | PDrop int addr addr

type_synonym hstep = "(hmem \<times> hpc \<times> cptr option) outcome"

section \<open>Insertion\<close>

definition insert_hoh :: "tid \<Rightarrow> int \<Rightarrow> cptr \<Rightarrow> hpc \<Rightarrow> hmem \<Rightarrow> hstep" where
  "insert_hoh t x v pc m = (case pc of
     HStart c \<Rightarrow> acquire_cell t (hroot m) m (\<lambda>m. Go (m, HAt c (hroot m), None))
   | HAt c tgt \<Rightarrow> need (hcells m tgt) (\<lambda>cl. case ht cl of
       None \<Rightarrow> need (new_cell t) (\<lambda>new.
         let p1 = hnext m; p2 = hnext m + 1; p = hnext m + 2;
             m = m\<lparr>hnext := hnext m + 3\<rparr>;
             m = set_cell (set_cell m p1 new) p2 new;
             m = set_cell m tgt (cl\<lparr>ht := Some p\<rparr>);
             m = set_node m p \<lparr>hkey = x, hval = v, hleft = p1, hright = p2\<rparr>
         in Go (m, HDone c tgt None, Some None))
     | Some p \<Rightarrow> need (hnodes m p) (\<lambda>nd.
         let y = hkey nd in
         if x < y then Go (m, HDown c tgt (hleft nd), None)
         else if y < x then Go (m, HDown c tgt (hright nd), None)
         else Go (set_node m p (nd\<lparr>hval := v\<rparr>), HDone c tgt None, Some None)))
   | HDown c l_old l \<Rightarrow> acquire_cell t l m (\<lambda>m. Go (m, HDrop c l_old l, None))
   | HDrop c l_old l \<Rightarrow> release_cell t l_old m (\<lambda>m. Go (m, HAt c l, None))
   | HDone c l r \<Rightarrow> release_cell t l m (\<lambda>m. Go (m, HIdle, None))
   | _ \<Rightarrow> Fault)"

section \<open>Look-up\<close>

definition lookup_hoh :: "tid \<Rightarrow> int \<Rightarrow> hpc \<Rightarrow> hmem \<Rightarrow> hstep" where
  "lookup_hoh t x pc m = (case pc of
     HStart c \<Rightarrow> acquire_cell t (hroot m) m (\<lambda>m. need (hcells m (hroot m)) (\<lambda>cl. Go (m, HSeen x (hroot m) (ht cl), None)))
   | HSeen x tgt q \<Rightarrow> (case q of
       None \<Rightarrow> Go (m, HDone (CLookup x) tgt None, Some None)
     | Some p \<Rightarrow> need (hnodes m p) (\<lambda>nd.
         let y = hkey nd in
         if x < y then Go (m, HDown (CLookup x) tgt (hleft nd), None)
         else if y < x then Go (m, HDown (CLookup x) tgt (hright nd), None)
         else Go (m, HDone (CLookup x) tgt (hval nd), Some (hval nd))))
   | HDown c l_old l \<Rightarrow> acquire_cell t l m (\<lambda>m. need (hcells m l) (\<lambda>cl. Go (m, HDropSeen x l_old l (ht cl), None)))
   | HDropSeen x l_old l p \<Rightarrow> release_cell t l_old m (\<lambda>m. Go (m, HSeen x l p, None))
   | HDone c l r \<Rightarrow> release_cell t l m (\<lambda>m. Go (m, HIdle, None))
   | _ \<Rightarrow> Fault)"

section \<open>Deletion\<close>

definition turn_left_hoh :: "addr \<Rightarrow> addr \<Rightarrow> hmem \<Rightarrow> hmem option" where
  "turn_left_hoh tgl tgr m = do {
     cr \<leftarrow> hcells m tgr;
     r \<leftarrow> ht cr;
     rn \<leftarrow> hnodes m r;
     let mid = hleft rn;
     cl \<leftarrow> hcells m tgl;
     l \<leftarrow> ht cl;
     ln \<leftarrow> hnodes m l;
     let m = set_node m l (ln\<lparr>hright := mid\<rparr>);
     rn \<leftarrow> hnodes m r;
     let m = set_node m r (rn\<lparr>hleft := tgr\<rparr>);
     let m = set_cell m tgl (cl\<lparr>ht := Some r\<rparr>);
     cr \<leftarrow> hcells m tgr;
     Some (set_cell m tgr (cr\<lparr>ht := Some l\<rparr>)) }"

definition pushdown_left_hoh :: "tid \<Rightarrow> hpc \<Rightarrow> hmem \<Rightarrow> hstep" where
  "pushdown_left_hoh t pc m = (case pc of
     PAt x tgp \<Rightarrow> need (hcells m tgp) (\<lambda>cl. need (ht cl) (\<lambda>p. need (hnodes m p) (\<lambda>nd.
       Go (m, PWaitQ x tgp p (hright nd), None))))
   | PWaitQ x tgp p tgq \<Rightarrow> acquire_cell t tgq m (\<lambda>m. Go (m, PHasQ x tgp p tgq, None))
   | PHasQ x tgp p tgq \<Rightarrow> need (hcells m tgq) (\<lambda>cq. case ht cq of
       None \<Rightarrow> need (hnodes m p) (\<lambda>nd. Go (m, PWaitL x tgp p tgq (hleft nd), None))
     | Some q \<Rightarrow> need (turn_left_hoh tgp tgq m) (\<lambda>m. need (hnodes m q) (\<lambda>qn.
         Go (m, PDrop x tgp (hleft qn), None))))
   | PDrop x lp tgp \<Rightarrow> release_cell t lp m (\<lambda>m. Go (m, PAt x tgp, None))
   | PWaitL x tgp p tgq tgl \<Rightarrow> acquire_cell t tgl m (\<lambda>m. Go (m, PHasL x tgp p tgq tgl, None))
   | PHasL x tgp p tgq tgl \<Rightarrow> need (hcells m tgl) (\<lambda>cl. need (hcells m tgp) (\<lambda>cp.
       need (do {
         m \<leftarrow> free_hnode p (set_cell m tgp (cp\<lparr>ht := ht cl\<rparr>));
         m \<leftarrow> free_cell tgq m;
         free_cell tgl m }) (\<lambda>m. Go (m, HDone (CDelete x) tgp None, Some None))))
   | _ \<Rightarrow> Fault)"

definition delete_hoh :: "tid \<Rightarrow> int \<Rightarrow> hpc \<Rightarrow> hmem \<Rightarrow> hstep" where
  "delete_hoh t x pc m = (case pc of
     HStart c \<Rightarrow> acquire_cell t (hroot m) m (\<lambda>m. Go (m, HAt c (hroot m), None))
   | HAt c tgt \<Rightarrow> need (hcells m tgt) (\<lambda>cl. case ht cl of
       None \<Rightarrow> Go (m, HDone c tgt None, Some None)
     | Some p \<Rightarrow> need (hnodes m p) (\<lambda>nd.
         let y = hkey nd in
         if x < y then Go (m, HDown c tgt (hleft nd), None)
         else if y < x then Go (m, HDown c tgt (hright nd), None)
         else Go (m, PAt x tgt, None)))
   | HDown c l_old l \<Rightarrow> acquire_cell t l m (\<lambda>m. Go (m, HDrop c l_old l, None))
   | HDrop c l_old l \<Rightarrow> release_cell t l_old m (\<lambda>m. Go (m, HAt c l, None))
   | HDone c l r \<Rightarrow> release_cell t l m (\<lambda>m. Go (m, HIdle, None))
   | _ \<Rightarrow> pushdown_left_hoh t pc m)"

section \<open>Threads\<close>

fun call_of :: "hpc \<Rightarrow> call option" where
  "call_of HIdle = None"
| "call_of (HStart c) = Some c"
| "call_of (HAt c a) = Some c"
| "call_of (HDown c a b) = Some c"
| "call_of (HDrop c a b) = Some c"
| "call_of (HSeen x a p) = Some (CLookup x)"
| "call_of (HDropSeen x a b p) = Some (CLookup x)"
| "call_of (HDone c a r) = Some c"
| "call_of (PAt x a) = Some (CDelete x)"
| "call_of (PWaitQ x a b c) = Some (CDelete x)"
| "call_of (PHasQ x a b c) = Some (CDelete x)"
| "call_of (PWaitL x a b c d) = Some (CDelete x)"
| "call_of (PHasL x a b c d) = Some (CDelete x)"
| "call_of (PDrop x a b) = Some (CDelete x)"

definition hoh_turn :: "tid \<Rightarrow> hpc \<Rightarrow> hmem \<Rightarrow> hstep" where
  "hoh_turn t pc m = (case call_of pc of
     None \<Rightarrow> Blocked
   | Some (CInsert x v) \<Rightarrow> insert_hoh t x v pc m
   | Some (CLookup x) \<Rightarrow> lookup_hoh t x pc m
   | Some (CDelete x) \<Rightarrow> delete_hoh t x pc m)"

text \<open>The same by the letter of POSIX. The last step of a deletion is the only one that destroys a mutex.\<close>

definition hoh_turn_posix :: "tid \<Rightarrow> hpc \<Rightarrow> hmem \<Rightarrow> hstep" where
  "hoh_turn_posix t pc m = (case pc of
     PHasL x tgp p tgq tgl \<Rightarrow> need (hcells m tgl) (\<lambda>cl. need (hcells m tgp) (\<lambda>cp.
       need (do {
         m \<leftarrow> free_hnode p (set_cell m tgp (cp\<lparr>ht := ht cl\<rparr>));
         m \<leftarrow> free_cell_posix tgq m;
         free_cell_posix tgl m }) (\<lambda>m. Go (m, HDone (CDelete x) tgp None, Some None))))
   | _ \<Rightarrow> hoh_turn t pc m)"

record hsys =
  h_mem :: hmem
  h_pc :: "tid \<Rightarrow> hpc"
  h_hist :: "(tid \<times> call \<times> cptr) list"

inductive hoh_step :: "hsys \<Rightarrow> hsys \<Rightarrow> bool" where
  hoh_invoke: "h_pc \<sigma> t = HIdle \<Longrightarrow> hoh_step \<sigma> (\<sigma>\<lparr>h_pc := (h_pc \<sigma>)(t := HStart c)\<rparr>)"
| hoh_go: "hoh_turn t (h_pc \<sigma> t) (h_mem \<sigma>) = Go (m, pc, ev) \<Longrightarrow>
     hoh_step \<sigma> (\<sigma>\<lparr>h_mem := m, h_pc := (h_pc \<sigma>)(t := pc), h_hist := h_hist \<sigma> @ settle t (call_of (h_pc \<sigma> t)) ev\<rparr>)"

definition hoh_start :: "hmem \<Rightarrow> hsys" where
  "hoh_start m = \<lparr>h_mem = m, h_pc = (\<lambda>_. HIdle), h_hist = []\<rparr>"

section \<open>Freeing the tree\<close>

partial_function (option) tree_free_hoh :: "tid \<Rightarrow> addr \<Rightarrow> hmem \<Rightarrow> hmem option" where
  "tree_free_hoh t tgp m = do {
     cl \<leftarrow> hcells m tgp;
     l \<leftarrow> acquire t (hlock cl);
     let m = set_cell m tgp (cl\<lparr>hlock := l\<rparr>);
     m \<leftarrow> (case ht cl of None \<Rightarrow> Some m | Some p \<Rightarrow> do {
        nd \<leftarrow> hnodes m p;
        m \<leftarrow> free_hnode p m;
        m \<leftarrow> tree_free_hoh t (hleft nd) m;
        tree_free_hoh t (hright nd) m });
     free_cell tgp m }"

definition treebox_free_hoh :: "tid \<Rightarrow> hmem \<Rightarrow> hmem option" where
  "treebox_free_hoh t m = tree_free_hoh t (hroot m) m"

end
