(* ===== verification/Conc_HohInv.thy ===== *)
theory Conc_HohInv
  imports Conc_Hoh
begin

text \<open>
  The invariant of the hand-over-hand tree. The abstract tree \<open>ctree\<close> records which cell and node each
  part lives in; \<open>plug\<close> puts a sub-tree into a context, so that a step of a thread replaces the
  sub-tree at a cell whose lock the thread holds. A thread at a cell on the search path of its key
  stays on that path whatever the other threads do, rotations included.
\<close>

section \<open>Memory as a view\<close>

text \<open>What a thread sees at a cell: the pointer, and the node behind it.\<close>

definition view :: "hmem \<Rightarrow> addr \<Rightarrow> (cptr \<times> hnode option) option" where
  "view m c = map_option (\<lambda>cl. (ht cl, Option.bind (ht cl) (hnodes m))) (hcells m c)"

abbreviation crep :: "hmem \<Rightarrow> ctree \<Rightarrow> bool" where
  "crep m \<equiv> vrep (view m)"

abbreviation ctx_crep :: "hmem \<Rightarrow> cframe list \<Rightarrow> addr \<Rightarrow> bool" where
  "ctx_crep m \<equiv> ctx_vrep (view m)"

section \<open>Well-formed memory\<close>

definition hwf :: "hmem \<Rightarrow> ctree \<Rightarrow> bool" where
  "hwf m T \<longleftrightarrow> crep m T \<and> distinct (cell_list T) \<and> distinct (node_list T) \<and>
     strict_sorted (keys_of (cpairs T)) \<and> dom (hcells m) = set (cell_list T) \<and>
     dom (hnodes m) = set (node_list T) \<and> (\<forall>a\<in>dom (hcells m) \<union> dom (hnodes m). a < hnext m) \<and>
     cell_of T = hroot m"

text \<open>The cells whose locks a thread holds at each program point.\<close>

fun held :: "hpc \<Rightarrow> addr set" where
  "held HIdle = {}"
| "held (HStart c) = {}"
| "held (HAt c a) = {a}"
| "held (HDown c a b) = {a}"
| "held (HDrop c a b) = {a, b}"
| "held (HSeen x a p) = {a}"
| "held (HDropSeen x a b p) = {a, b}"
| "held (HDone c a r) = {a}"
| "held (PAt x a) = {a}"
| "held (PWaitQ x a p b) = {a}"
| "held (PHasQ x a p b) = {a, b}"
| "held (PWaitL x a p b c) = {a, b}"
| "held (PHasL x a p b c) = {a, b, c}"
| "held (PDrop x a b) = {a, b}"

fun call_key :: "call \<Rightarrow> int" where
  "call_key (CInsert x v) = x"
| "call_key (CLookup x) = x"
| "call_key (CDelete x) = x"

fun pc_ok :: "ctree \<Rightarrow> hmem \<Rightarrow> hpc \<Rightarrow> bool" where
  "pc_ok T m (HAt c a) \<longleftrightarrow> (\<forall>x. c \<noteq> CLookup x) \<and> a \<in> cpath T (call_key c)"
| "pc_ok T m (HDown c a b) \<longleftrightarrow> a \<in> cpath T (call_key c) \<and> next_cell (view m) (call_key c) a b"
| "pc_ok T m (HDrop c a b) \<longleftrightarrow> (\<forall>x. c \<noteq> CLookup x) \<and> a \<in> cpath T (call_key c) \<and> next_cell (view m) (call_key c) a b \<and> a \<noteq> b"
| "pc_ok T m (HSeen x a p) \<longleftrightarrow> a \<in> cpath T x \<and> (\<exists>nd. view m a = Some (p, nd))"
| "pc_ok T m (HDropSeen x a b p) \<longleftrightarrow> a \<in> cpath T x \<and> next_cell (view m) x a b \<and> a \<noteq> b \<and> (\<exists>nd. view m b = Some (p, nd))"
| "pc_ok T m (PAt x a) \<longleftrightarrow> (\<exists>n nd. view m a = Some (Some n, Some nd) \<and> hkey nd = x)"
| "pc_ok T m (PWaitQ x a p b) \<longleftrightarrow> (\<exists>nd. view m a = Some (Some p, Some nd) \<and> hkey nd = x \<and> hright nd = b)"
| "pc_ok T m (PHasQ x a p b) \<longleftrightarrow> a \<noteq> b \<and> (\<exists>nd. view m a = Some (Some p, Some nd) \<and> hkey nd = x \<and> hright nd = b)"
| "pc_ok T m (PWaitL x a p b c) \<longleftrightarrow> a \<noteq> b \<and> view m b = Some (None, None) \<and>
     (\<exists>nd. view m a = Some (Some p, Some nd) \<and> hkey nd = x \<and> hright nd = b \<and> hleft nd = c)"
| "pc_ok T m (PHasL x a p b c) \<longleftrightarrow> a \<noteq> b \<and> a \<noteq> c \<and> b \<noteq> c \<and> view m b = Some (None, None) \<and>
     (\<exists>nd. view m a = Some (Some p, Some nd) \<and> hkey nd = x \<and> hright nd = b \<and> hleft nd = c)"
| "pc_ok T m (PDrop x a b) \<longleftrightarrow> a \<noteq> b \<and> (\<exists>n nd. view m b = Some (Some n, Some nd) \<and> hkey nd = x)"
| "pc_ok T m _ \<longleftrightarrow> True"

text \<open>A thread's assertion depends on the cells it holds, and on their place on search paths.\<close>

lemma ok_frame:
  assumes "pc_ok T m pc" "\<And>c. c \<in> held pc \<Longrightarrow> view m' c = view m c"
    and "\<And>x. cpath T x \<inter> held pc \<subseteq> cpath T' x"
  shows "pc_ok T' m' pc"
proof -
  have v: "view m' c = view m c" if "c \<in> held pc" for c using assms(2) that .
  have p: "c \<in> cpath T' x" if "c \<in> cpath T x" "c \<in> held pc" for c x using assms(3) that by blast
  have n: "next_cell (view m') x c d = next_cell (view m) x c d" if "c \<in> held pc" for x c d
    by (simp only: next_cell_def v [OF that])
  show ?thesis
  proof (cases pc)
    case (PAt x a)
    then show ?thesis using assms(1) v [of a] by simp
  next
    case (PDrop x a b)
    then show ?thesis using assms(1) v [of b] by simp
  next
    case (PWaitQ x a q b)
    then show ?thesis using assms(1) v [of a] by simp
  next
    case (PHasQ x a q b)
    then show ?thesis using assms(1) v [of a] by simp
  next
    case (PWaitL x a q b c)
    then show ?thesis using assms(1) v [of a] v [of b] by simp
  next
    case (PHasL x a q b c)
    then show ?thesis using assms(1) v [of a] v [of b] by simp
  next
    case (HSeen x a q)
    then show ?thesis using assms(1) v [of a] p [of a] by simp
  next
    case (HDropSeen x a b q)
    then show ?thesis using assms(1) v [of b] p [of a] n [of a] by simp
  next
    case (HAt c a)
    then show ?thesis using assms(1) p [of a] by simp
  next
    case (HDown c a b)
    then show ?thesis using assms(1) p [of a] n [of a] by simp
  next
    case (HDrop c a b)
    then show ?thesis using assms(1) p [of a] n [of a] by simp
  qed simp_all
qed

definition locks_ok :: "hmem \<Rightarrow> (tid \<Rightarrow> hpc) \<Rightarrow> bool" where
  "locks_ok m pcs \<longleftrightarrow> (\<forall>c cl. hcells m c = Some cl \<longrightarrow> hlock cl \<noteq> Destroyed \<and>
       (\<forall>t. hlock cl = LockedBy t \<longleftrightarrow> c \<in> held (pcs t))) \<and>
     (\<forall>t. held (pcs t) \<subseteq> dom (hcells m))"

definition settled :: "(tid \<Rightarrow> hpc) \<Rightarrow> (tid \<times> call \<times> cptr) list \<Rightarrow> bool" where
  "settled pcs h \<longleftrightarrow> (\<forall>t c a r. pcs t = HDone c a r \<longrightarrow>
     (\<exists>h1 h2. h = h1 @ (t, c, r) # h2 \<and> t \<notin> fst ` set h2))"

definition good :: "ctree \<Rightarrow> hmem \<Rightarrow> (tid \<Rightarrow> hpc) \<Rightarrow> (tid \<times> call \<times> cptr) list \<Rightarrow> bool" where
  "good T m pcs h \<longleftrightarrow> hwf m T \<and> locks_ok m pcs \<and> (\<forall>t. pc_ok T m (pcs t)) \<and>
     replay h [] = Some (cpairs T) \<and> settled pcs h"

lemma locks_ok_iff:
  "locks_ok m pcs \<Longrightarrow> hcells m c = Some cl \<Longrightarrow> hlock cl = LockedBy t \<longleftrightarrow> c \<in> held (pcs t)"
  by (simp add: locks_ok_def)

lemma locks_ok_dom: "locks_ok m pcs \<Longrightarrow> c \<in> held (pcs t) \<Longrightarrow> \<exists>cl. hcells m c = Some cl"
  by (auto simp: locks_ok_def)

text \<open>Changing who holds one lock, by one thread.\<close>

lemma locks_ok_set:
  assumes "locks_ok m pcs" "hcells m c = Some cl" "l \<noteq> Destroyed"
    and "\<And>u. l = LockedBy u \<longleftrightarrow> c \<in> held ((pcs(t := pc)) u)"
    and "\<And>d. d \<noteq> c \<Longrightarrow> d \<in> held pc \<longleftrightarrow> d \<in> held (pcs t)"
  shows "locks_ok (set_cell m c (cl\<lparr>hlock := l\<rparr>)) (pcs(t := pc))"
  unfolding locks_ok_def
proof (intro conjI allI impI subsetI)
  fix d dl u
  assume d: "hcells (set_cell m c (cl\<lparr>hlock := l\<rparr>)) d = Some dl"
  show "hlock dl \<noteq> Destroyed"
    using d assms(1,3) by (cases "d = c") (auto simp: set_cell_def locks_ok_def)
  show "hlock dl = LockedBy u \<longleftrightarrow> d \<in> held ((pcs(t := pc)) u)"
    using d assms(4) [of u] assms(5) [of d] locks_ok_iff [OF assms(1)]
    by (cases "d = c") (auto simp: set_cell_def)
next
  fix u d
  assume "d \<in> held ((pcs(t := pc)) u)"
  then show "d \<in> dom (hcells (set_cell m c (cl\<lparr>hlock := l\<rparr>)))"
    using assms(5) [of d] locks_ok_dom [OF assms(1)]
    by (cases "d = c") (auto simp: set_cell_def split: if_splits)
qed

lemma locks_disjoint: "locks_ok m pcs \<Longrightarrow> t \<noteq> u \<Longrightarrow> held (pcs t) \<inter> held (pcs u) = {}"
  using locks_ok_iff [of m pcs _ _ t] locks_ok_iff [of m pcs _ _ u] locks_ok_dom [of m pcs _ t]
  by (fastforce simp: disjoint_iff)

section \<open>Steps that change no data\<close>

lemma view_set_lock [simp]:
  "hcells m c = Some cl \<Longrightarrow> view (set_cell m c (cl\<lparr>hlock := l\<rparr>)) = view m"
  by (auto simp: fun_eq_iff view_def set_cell_def)

lemma hwf_set_lock:
  assumes "hcells m c = Some cl"
  shows "hwf (set_cell m c (cl\<lparr>hlock := l\<rparr>)) T = hwf m T"
proof -
  have "crep (set_cell m c (cl\<lparr>hlock := l\<rparr>)) T = crep m T"
    using assms by (intro vrep_cong) simp
  moreover have "insert c (dom (hcells m)) = dom (hcells m)" using assms by auto
  ultimately show ?thesis by (simp add: hwf_def set_cell_def)
qed

lemma settled_other: "settled pcs h \<Longrightarrow> (\<And>c a r. pc \<noteq> HDone c a r) \<Longrightarrow> settled (pcs(t := pc)) h"
  by (simp add: settled_def)

lemma ok_same_view: "view m' = view m \<Longrightarrow> pc_ok T m pc \<Longrightarrow> pc_ok T m' pc"
  by (rule ok_frame) auto

lemma good_move:
  assumes "good T m pcs h" "held pc = held (pcs t)" "pc_ok T m pc" "\<And>c a r. pc \<noteq> HDone c a r"
  shows "good T m (pcs(t := pc)) h"
  using assms settled_other [of pcs h pc t] by (simp add: good_def locks_ok_def)

lemma good_acquire:
  assumes g: "good T m pcs h" and c: "hcells m c = Some cl" "hlock cl = Unlocked"
    and pc: "held pc = insert c (held (pcs t))" "pc_ok T m pc" "\<And>c a r. pc \<noteq> HDone c a r"
  shows "good T (set_cell m c (cl\<lparr>hlock := LockedBy t\<rparr>)) (pcs(t := pc)) h"
proof -
  have free: "c \<notin> held (pcs u)" for u
    using g c locks_ok_iff [of m pcs c cl u] by (simp add: good_def)
  have "locks_ok (set_cell m c (cl\<lparr>hlock := LockedBy t\<rparr>)) (pcs(t := pc))"
  proof (rule locks_ok_set)
    show "locks_ok m pcs" using g by (simp add: good_def)
    show "LockedBy t = LockedBy u \<longleftrightarrow> c \<in> held ((pcs(t := pc)) u)" for u
      using pc(1) free [of u] by simp
    show "d \<in> held pc \<longleftrightarrow> d \<in> held (pcs t)" if "d \<noteq> c" for d using that pc(1) by simp
  qed (simp_all add: c)
  moreover have "pc_ok T (set_cell m c (cl\<lparr>hlock := LockedBy t\<rparr>)) ((pcs(t := pc)) u)" for u
    using g pc(2) ok_same_view [OF view_set_lock [OF c(1)]] by (simp add: good_def)
  ultimately show ?thesis
    using g pc(3) c settled_other [of pcs h pc t] by (simp add: good_def hwf_set_lock)
qed

lemma good_release:
  assumes g: "good T m pcs h" and c: "hcells m c = Some cl"
    and pc: "held (pcs t) = insert c (held pc)" "c \<notin> held pc" "pc_ok T m pc" "\<And>c a r. pc \<noteq> HDone c a r"
  shows "good T (set_cell m c (cl\<lparr>hlock := Unlocked\<rparr>)) (pcs(t := pc)) h"
proof -
  have other: "c \<notin> held (pcs u)" if "u \<noteq> t" for u
    using g pc(1) that locks_disjoint [of m pcs t u] by (auto simp: good_def)
  have "locks_ok (set_cell m c (cl\<lparr>hlock := Unlocked\<rparr>)) (pcs(t := pc))"
  proof (rule locks_ok_set)
    show "locks_ok m pcs" using g by (simp add: good_def)
    show "Unlocked = LockedBy u \<longleftrightarrow> c \<in> held ((pcs(t := pc)) u)" for u
      using pc(2) other [of u] by simp
    show "d \<in> held pc \<longleftrightarrow> d \<in> held (pcs t)" if "d \<noteq> c" for d using that pc(1) by simp
  qed (simp_all add: c)
  moreover have "pc_ok T (set_cell m c (cl\<lparr>hlock := Unlocked\<rparr>)) ((pcs(t := pc)) u)" for u
    using g pc(3) ok_same_view [OF view_set_lock [OF c]] by (simp add: good_def)
  ultimately show ?thesis
    using g pc(4) c settled_other [of pcs h pc t] by (simp add: good_def hwf_set_lock)
qed

lemma settled_new: "settled pcs h \<Longrightarrow> settled (pcs(t := HDone c a r)) (h @ [(t, c, r)])"
proof -
  assume s: "settled pcs h"
  have "\<exists>h1 h2. h @ [(t, c, r)] = h1 @ (u, c', r') # h2 \<and> u \<notin> fst ` set h2"
    if "(pcs(t := HDone c a r)) u = HDone c' a' r'" for u c' a' r'
  proof (cases "u = t")
    case True
    with that show ?thesis by (intro exI [of _ h] exI [of _ "[]"]) simp
  next
    case False
    with that s obtain h1 h2 where "h = h1 @ (u, c', r') # h2" "u \<notin> fst ` set h2"
      unfolding settled_def by (metis fun_upd_apply)
    with False show ?thesis by (intro exI [of _ h1] exI [of _ "h2 @ [(t, c, r)]"]) simp
  qed
  then show ?thesis by (auto simp: settled_def)
qed

section \<open>What POSIX leaves undefined\<close>

text \<open>The last step of a deletion destroys a mutex that is held; all other steps are the same.\<close>

lemma posix_turn:
  assumes locked: "\<forall>c\<in>held pc. \<exists>cl. hcells m c = Some cl \<and> hlock cl = LockedBy t" and turn: "hoh_turn t pc m \<noteq> Fault"
  shows "hoh_turn_posix t pc m = Fault \<longleftrightarrow> (\<exists>x tgp p tgq tgl. pc = PHasL x tgp p tgq tgl)"
proof (cases pc)
  case (PHasL x tgp p tgq tgl)
  obtain cq where cq: "hcells m tgq = Some cq" "hlock cq = LockedBy t" using locked PHasL by auto
  have "free_hnode p (set_cell m tgp (cp\<lparr>ht := v\<rparr>)) \<bind> (\<lambda>m. free_cell_posix tgq m \<bind> free_cell_posix tgl) = None"
    if cp: "hcells m tgp = Some cp" for cp v
  proof (cases "free_hnode p (set_cell m tgp (cp\<lparr>ht := v\<rparr>))")
    case (Some m')
    then have "hcells m' = (hcells m)(tgp \<mapsto> cp\<lparr>ht := v\<rparr>)"
      by (auto simp: free_hnode_def set_cell_def split: option.splits)
    then have "\<exists>cl. hcells m' tgq = Some cl \<and> hlock cl = LockedBy t" using cp cq by auto
    then have "free_cell_posix tgq m' = None" by (auto simp: free_cell_posix_def freelock2_posix_def)
    then show ?thesis by (simp add: Some)
  qed simp
  then show ?thesis
    by (auto simp: PHasL hoh_turn_posix_def need_def split: option.splits)
qed (use turn in \<open>simp_all add: hoh_turn_posix_def\<close>)

end
