(* ===== verification/Conc_HohSteps.thy ===== *)
theory Conc_HohSteps
  imports Conc_HohInv
begin

text \<open>
  The steps of the hand-over-hand tree that change data: overwriting a value, inserting a node,
  rotating, and cutting out a node with its two cells. Each keeps the memory well-formed and leaves
  the assertions of the other threads true.
\<close>

section \<open>What is seen where\<close>

lemma view_hnext [simp]: "view (m\<lparr>hnext := k\<rparr>) = view m"
  by (simp add: view_def fun_eq_iff)

lemma view_set_cell_other: "d \<noteq> c \<Longrightarrow> view (set_cell m c cl) d = view m d"
  by (simp add: view_def set_cell_def)

lemma view_set_cell_same: "view (set_cell m c cl) c = Some (ht cl, Option.bind (ht cl) (hnodes m))"
  by (simp add: view_def set_cell_def)

lemma view_set_node_other:
  "(\<And>x. view m d \<noteq> Some (Some n, x)) \<Longrightarrow> view (set_node m n nd) d = view m d"
  by (cases "hcells m d") (auto simp: view_def set_node_def bind_eq_None_conv split: option.splits bind_splits)

lemma view_set_node_same:
  "view m d = Some (Some n, x) \<Longrightarrow> view (set_node m n nd) d = Some (Some n, Some nd)"
  by (auto simp: view_def set_node_def)

lemma view_cell: "view m c = Some (p, x) \<Longrightarrow> \<exists>cl. hcells m c = Some cl \<and> ht cl = p \<and> x = Option.bind p (hnodes m)"
  by (auto simp: view_def)

lemma hwf_elsewhere:
  assumes "hwf m T" "view m c = Some (Some n, x)" "d \<in> set (cell_list T)" "d \<noteq> c"
  shows "view m d \<noteq> Some (Some n, y)"
proof -
  have "c \<in> set (cell_list T)" using assms(1,2) view_cell by (fastforce simp: hwf_def)
  with assms vrep_inj show ?thesis unfolding hwf_def by metis
qed

text \<open>The sub-tree at a cell, by what is seen there.\<close>

lemma hwf_cwf: "hwf m T \<Longrightarrow> cwf (view m) T"
  by (simp add: hwf_def cwf_def)

lemma hwf_in: "hwf m T \<Longrightarrow> view m c = Some y \<Longrightarrow> c \<in> set (cell_list T)"
  by (auto simp: hwf_def view_def)

lemma hwf_leaf_at:
  assumes "hwf m T" "view m c = Some (None, x)"
  obtains C where "T = plug C (CLeaf c)"
  using cwf_leaf_at [OF hwf_cwf hwf_in] assms by metis

lemma hwf_node_at:
  assumes "hwf m T" "view m c = Some (Some n, Some nd)"
  obtains C l r where "T = plug C (CNode c n (hkey nd) (hval nd) l r)" "cell_of l = hleft nd" "cell_of r = hright nd"
  using cwf_node_at [OF hwf_cwf hwf_in] assms by metis

lemma hwf_view_node:
  assumes "hwf m T" "view m c = Some (Some n, x)"
  obtains nd where "x = Some nd" "hnodes m n = Some nd"
proof -
  have "c \<in> set (cell_list T)" using assms view_cell by (fastforce simp: hwf_def)
  with assms have "n \<in> set (node_list T)" by (intro vrep_node_in [of "view m" T c n x]) (simp_all add: hwf_def)
  then have "n \<in> dom (hnodes m)" using assms(1) by (simp add: hwf_def)
  then obtain nd where nd: "hnodes m n = Some nd" by blast
  with view_cell [OF assms(2)] have "x = Some nd" by auto
  with nd show thesis by (intro that)
qed

section \<open>Changing the tree below a held cell\<close>

lemma good_change:
  assumes g: "good T m pcs h" and wf: "hwf m' T'"
    and sub: "held pc \<subseteq> held (pcs t)" "held pc \<subseteq> dom (hcells m')"
    and freed: "\<And>c. c \<notin> held pc \<Longrightarrow> c \<in> held (pcs t) \<Longrightarrow> hcells m' c = None"
    and kept: "\<And>c. hcells m c \<noteq> None \<Longrightarrow> hcells m' c = None \<Longrightarrow> c \<in> held (pcs t)"
    and lock: "\<And>c cl. hcells m' c = Some cl \<Longrightarrow>
        hlock cl = (case hcells m c of None \<Rightarrow> Unlocked | Some cl' \<Rightarrow> hlock cl')"
    and views: "\<And>d. d \<in> set (cell_list T) \<Longrightarrow> d \<notin> held (pcs t) \<Longrightarrow> view m' d = view m d"
    and paths: "\<And>x H. H \<inter> held (pcs t) = {} \<Longrightarrow> cpath T x \<inter> H \<subseteq> cpath T' x"
    and me: "pc_ok T' m' pc" and hist: "replay h' [] = Some (cpairs T')" "settled (pcs(t := pc)) h'"
  shows "good T' m' (pcs(t := pc)) h'"
proof -
  have lk: "locks_ok m pcs" and dm: "dom (hcells m) = set (cell_list T)" using g by (simp_all add: good_def hwf_def)
  have dis: "held (pcs u) \<inter> held (pcs t) = {}" if "u \<noteq> t" for u
    using locks_disjoint [OF lk that] .
  have "pc_ok T' m' ((pcs(t := pc)) u)" for u
  proof (cases "u = t")
    case False
    have "pc_ok T' m' (pcs u)"
    proof (rule ok_frame [of T m])
      show "view m' c = view m c" if "c \<in> held (pcs u)" for c
        using views [of c] that dis [OF False] locks_ok_dom [OF lk that] dm by auto
      show "cpath T x \<inter> held (pcs u) \<subseteq> cpath T' x" for x by (rule paths [OF dis [OF False]])
    qed (use g in \<open>simp add: good_def\<close>)
    with False show ?thesis by simp
  qed (simp add: me)
  moreover have "locks_ok m' (pcs(t := pc))"
    unfolding locks_ok_def
  proof (intro conjI allI impI)
    fix c cl u
    assume c: "hcells m' c = Some cl"
    show "hlock cl \<noteq> Destroyed"
      using lock [OF c] lk by (auto simp: locks_ok_def split: option.splits)
    have tc: "c \<in> held pc \<longleftrightarrow> c \<in> held (pcs t)" using c freed [of c] sub(1) by auto
    show "hlock cl = LockedBy u \<longleftrightarrow> c \<in> held ((pcs(t := pc)) u)"
    proof (cases "hcells m c")
      case None
      then show ?thesis using lock [OF c] tc locks_ok_dom [OF lk, of c u] locks_ok_dom [OF lk, of c t] by auto
    next
      case (Some cl')
      then show ?thesis using lock [OF c] tc locks_ok_iff [OF lk Some] by simp
    qed
  next
    fix u
    show "held ((pcs(t := pc)) u) \<subseteq> dom (hcells m')"
    proof (cases "u = t")
      case False
      then show ?thesis using dis [OF False] kept locks_ok_dom [OF lk, of _ u] by fastforce
    qed (simp add: sub)
  qed
  ultimately show ?thesis using wf hist by (simp add: good_def)
qed

lemma hwf_plug:
  assumes wf: "hwf m (plug C S)" and S': "cell_of S' = cell_of S" "crep m' S'"
    and views: "\<And>d. d \<in> set (fst (ctx_cells C)) \<union> set (snd (ctx_cells C)) \<Longrightarrow> view m' d = view m d"
    and dist: "distinct (cell_list (plug C S'))" "distinct (node_list (plug C S'))"
    and keys: "strict_sorted (keys_of (cpairs (plug C S')))"
    and doms: "dom (hcells m') = set (cell_list (plug C S'))" "dom (hnodes m') = set (node_list (plug C S'))"
    and bound: "\<forall>a\<in>dom (hcells m') \<union> dom (hnodes m'). a < hnext m'" and root: "hroot m' = hroot m"
  shows "hwf m' (plug C S')"
proof -
  have "ctx_crep m' C (cell_of S) = ctx_crep m C (cell_of S)"
    by (rule ctx_vrep_cong) (rule views)
  then have "crep m' (plug C S')" using wf S' by (simp add: hwf_def plug_vrep)
  moreover have "cell_of (plug C S') = hroot m'"
    using plug_cell_of [OF S'(1), of C] wf root by (simp add: hwf_def)
  ultimately show ?thesis using dist keys doms bound by (simp add: hwf_def)
qed

lemma keys_of_pairs_eq: "keys_of xs = keys_of ys \<Longrightarrow> strict_sorted (keys_of ys) \<Longrightarrow> strict_sorted (keys_of xs)"
  by simp

text \<open>Overwriting the value of a node.\<close>

lemma good_set_value:
  fixes v :: cptr
  assumes g: "good T m pcs h" and c: "held (pcs t) = {c}" "view m c = Some (Some n, Some nd)"
  defines "x \<equiv> hkey nd" and "m' \<equiv> set_node m n (nd\<lparr>hval := v\<rparr>)"
  shows "\<exists>T'. good T' m' (pcs(t := HDone (CInsert x v) c None)) (h @ [(t, CInsert x v, None)])"
proof -
  from g have wf: "hwf m T" and rp: "replay h [] = Some (cpairs T)" and st: "settled pcs h"
    by (simp_all add: good_def)
  obtain C l r where T: "T = plug C (CNode c n x (hval nd) l r)" "cell_of l = hleft nd" "cell_of r = hright nd"
    using hwf_node_at [OF wf c(2)] x_def by metis
  let ?T' = "plug C (CNode c n x v l r)"
  have dist: "distinct (cell_list T)" using wf by (simp add: hwf_def)
  have other: "view m' d = view m d" if "d \<in> set (cell_list T)" "d \<noteq> c" for d
    unfolding m'_def using hwf_elsewhere [OF wf c(2) that] by (rule view_set_node_other)
  have here: "view m' c = Some (Some n, Some \<lparr>hkey = x, hval = v, hleft = cell_of l, hright = cell_of r\<rparr>)"
    unfolding m'_def using view_set_node_same [OF c(2), of "nd\<lparr>hval := v\<rparr>"] T by (simp add: x_def)
  have lr: "crep m' l" "crep m' r"
    using wf T(1) other dist vrep_cong [of l "view m'" "view m"] vrep_cong [of r "view m'" "view m"]
    by (auto simp: hwf_def plug_vrep plug_cells)
  have keys: "cpairs ?T' = ins_list x v (cpairs T)"
    using ins_list_replace [of "fst (ctx_pairs C) @ cpairs l" x "hval nd" "cpairs r @ snd (ctx_pairs C)" v] wf T(1)
    by (simp add: hwf_def plug_pairs)
  have "hnodes m n \<noteq> None" using hwf_view_node [OF wf c(2)] by auto
  then have dn: "dom (hnodes m') = dom (hnodes m)" by (auto simp: m'_def set_node_def)
  have dc: "hcells m' = hcells m" "hnext m' = hnext m" "hroot m' = hroot m" by (simp_all add: m'_def set_node_def)
  have wf': "hwf m' ?T'"
  proof (rule hwf_plug [of m C "CNode c n x (hval nd) l r"])
    show "strict_sorted (keys_of (cpairs ?T'))"
      unfolding keys using wf strict_sorted_ins_list [of "cpairs T" x v] by (simp add: hwf_def)
    show "view m' d = view m d" if "d \<in> set (fst (ctx_cells C)) \<union> set (snd (ctx_cells C))" for d
      using that dist T(1) by (intro other) (auto simp: plug_cells)
  qed (use wf T(1) here lr dn dc in \<open>simp_all add: hwf_def plug_cells plug_nodes\<close>)
  have "good ?T' m' (pcs(t := HDone (CInsert x v) c None)) (h @ [(t, CInsert x v, None)])"
  proof (rule good_change [OF g wf'])
    show "replay (h @ [(t, CInsert x v, None)]) [] = Some (cpairs ?T')" using rp keys by (simp add: replay_append)
    show "settled (pcs(t := HDone (CInsert x v) c None)) (h @ [(t, CInsert x v, None)])" by (rule settled_new [OF st])
    show "view m' d = view m d" if "d \<in> set (cell_list T)" "d \<notin> held (pcs t)" for d
      using that c(1) by (intro other) auto
    show "cpath T y \<inter> H \<subseteq> cpath ?T' y" for y H unfolding T(1) by (rule plug_path_mono) auto
    show "held (HDone (CInsert x v) c None) \<subseteq> dom (hcells m')"
      using wf T(1) dc by (auto simp: hwf_def plug_cells)
  qed (auto simp: c(1) dc split: option.splits)
  then show ?thesis by blast
qed

text \<open>Inserting a node and its two empty cells.\<close>

lemma good_insert:
  fixes x :: int and v :: cptr
  assumes g: "good T m pcs h" and c: "held (pcs t) = {c}" "hcells m c = Some cl" "ht cl = None" "c \<in> cpath T x"
  defines "p1 \<equiv> hnext m" and "p2 \<equiv> Suc (hnext m)" and "p \<equiv> Suc (Suc (hnext m))"
  defines "new \<equiv> \<lparr>ht = None, hlock = Unlocked\<rparr>"
  defines "m' \<equiv> set_node (set_cell (set_cell (set_cell (m\<lparr>hnext := Suc (Suc (Suc (hnext m)))\<rparr>) p1 new) p2 new) c (cl\<lparr>ht := Some p\<rparr>))
    p \<lparr>hkey = x, hval = v, hleft = p1, hright = p2\<rparr>"
  shows "\<exists>T'. good T' m' (pcs(t := HDone (CInsert x v) c None)) (h @ [(t, CInsert x v, None)])"
proof -
  from g have wf: "hwf m T" and rp: "replay h [] = Some (cpairs T)" and st: "settled pcs h"
    by (simp_all add: good_def)
  have "view m c = Some (None, None)" using c by (simp add: view_def)
  then obtain C where T: "T = plug C (CLeaf c)" using hwf_leaf_at [OF wf] by metis
  let ?T' = "plug C (CNode c p x v (CLeaf p1) (CLeaf p2))"
  have dist: "distinct (cell_list T)" and dm: "dom (hcells m) = set (cell_list T)" "dom (hnodes m) = set (node_list T)"
    and bd: "\<And>a. a \<in> set (cell_list T) \<union> set (node_list T) \<Longrightarrow> a < hnext m"
    using wf by (simp_all add: hwf_def)
  have cT: "c \<in> set (cell_list T)" using T by (simp add: plug_cells)
  have cp: "c \<noteq> p1" "c \<noteq> p2" "p1 \<noteq> p2" using bd [of c] cT by (auto simp: p1_def p2_def)
  have fresh: "p1 \<notin> set (cell_list T)" "p2 \<notin> set (cell_list T)" "p \<notin> set (node_list T)"
    using bd [of p1] bd [of p2] bd [of p] by (auto simp: p1_def p2_def p_def)
  have nop: "view m d \<noteq> Some (Some p, y)" if "d \<in> set (cell_list T)" for d y
    using vrep_node_in [of "view m" T d p y] that fresh(3) wf by (auto simp: hwf_def)
  have other: "view m' d = view m d" if "d \<in> set (cell_list T)" "d \<noteq> c" for d
  proof -
    have "d \<noteq> p1" "d \<noteq> p2" using that fresh by auto
    with that nop [OF that(1)] show ?thesis
      by (simp add: m'_def view_set_node_other view_set_cell_other)
  qed
  have here: "view m' c = Some (Some p, Some \<lparr>hkey = x, hval = v, hleft = p1, hright = p2\<rparr>)"
    "view m' p1 = Some (None, None)" "view m' p2 = Some (None, None)"
    using cp by (simp_all add: m'_def view_def set_node_def set_cell_def new_def)
  have thru: "ctx_thru C x"
    using c(4) plug_path_thru [of C "CLeaf c" c x] T dist by simp
  have srt: "strict_sorted (keys_of (cpairs (plug C (CLeaf c))))" using wf T by (simp add: hwf_def)
  have keys: "cpairs ?T' = ins_list x v (cpairs T)"
    using ins_list_around [of "fst (ctx_pairs C)" x "snd (ctx_pairs C)" v] ctx_thru_bounds [OF srt thru] T
    by (simp add: plug_pairs)
  have dc: "dom (hcells m') = set (cell_list T) \<union> {p1, p2}" "dom (hnodes m') = insert p (set (node_list T))"
    using dm cT by (auto simp: m'_def set_node_def set_cell_def)
  have nx: "hnext m' = Suc (Suc (Suc (hnext m)))" "hroot m' = hroot m" by (simp_all add: m'_def set_node_def set_cell_def)
  have wf': "hwf m' ?T'"
  proof (rule hwf_plug [of m C "CLeaf c"])
    show "strict_sorted (keys_of (cpairs ?T'))"
      unfolding keys using wf strict_sorted_ins_list [of "cpairs T" x v] by (simp add: hwf_def)
    show "view m' d = view m d" if "d \<in> set (fst (ctx_cells C)) \<union> set (snd (ctx_cells C))" for d
      using that dist T by (intro other) (auto simp: plug_cells)
    show "distinct (cell_list ?T')" "distinct (node_list ?T')"
      using wf T fresh cp by (auto simp: hwf_def plug_cells plug_nodes)
    show "dom (hcells m') = set (cell_list ?T')" "dom (hnodes m') = set (node_list ?T')"
      using dc T by (auto simp: plug_cells plug_nodes)
    show "\<forall>a\<in>dom (hcells m') \<union> dom (hnodes m'). a < hnext m'"
      using bd unfolding dc nx by (fastforce simp: p1_def p2_def p_def less_Suc_eq)
  qed (use wf T here nx in \<open>simp_all add: hwf_def\<close>)
  have "good ?T' m' (pcs(t := HDone (CInsert x v) c None)) (h @ [(t, CInsert x v, None)])"
  proof (rule good_change [OF g wf'])
    show "replay (h @ [(t, CInsert x v, None)]) [] = Some (cpairs ?T')" using rp keys by (simp add: replay_append)
    show "settled (pcs(t := HDone (CInsert x v) c None)) (h @ [(t, CInsert x v, None)])" by (rule settled_new [OF st])
    show "view m' d = view m d" if "d \<in> set (cell_list T)" "d \<notin> held (pcs t)" for d
      using that c(1) by (intro other) auto
    show "cpath T y \<inter> H \<subseteq> cpath ?T' y" for y H unfolding T by (rule plug_path_mono) auto
    show "hlock dl = (case hcells m d of None \<Rightarrow> Unlocked | Some cl' \<Rightarrow> hlock cl')" if "hcells m' d = Some dl" for d dl
    proof -
      have "hcells m p1 = None" "hcells m p2 = None" using fresh dm by (metis domIff)+
      then show ?thesis using that c(2) cp
        by (auto simp: m'_def set_node_def set_cell_def new_def split: if_splits)
    qed
    show "d \<in> held (pcs t)" if "hcells m d \<noteq> None" "hcells m' d = None" for d
      using that dc(1) dm(1) by (metis UnCI domIff)
  qed (use c(1) dc cT in auto)
  then show ?thesis by blast
qed

text \<open>Rotating at a held cell whose right cell is held.\<close>

lemma good_rotate:
  assumes g: "good T m pcs h" and ab: "held (pcs t) = {a, b}" "a \<noteq> b"
    and a: "hcells m a = Some ca" "ht ca = Some p" "hnodes m p = Some pn" "hright pn = b"
    and b: "hcells m b = Some cb" "ht cb = Some q" "hnodes m q = Some qn"
  defines "m' \<equiv> set_cell (set_cell (set_node (set_node m p (pn\<lparr>hright := hleft qn\<rparr>)) q (qn\<lparr>hleft := b\<rparr>))
     a (ca\<lparr>ht := Some q\<rparr>)) b (cb\<lparr>ht := Some p\<rparr>)"
  shows "p \<noteq> q" "\<exists>T'. good T' m' (pcs(t := PDrop (hkey pn) a b)) h"
proof -
  from g have wf: "hwf m T" and rp: "replay h [] = Some (cpairs T)" and st: "settled pcs h"
    by (simp_all add: good_def)
  have va: "view m a = Some (Some p, Some pn)" and vb: "view m b = Some (Some q, Some qn)"
    using a b by (simp_all add: view_def)
  have dist: "distinct (cell_list T)" and dm: "dom (hcells m) = set (cell_list T)" "dom (hnodes m) = set (node_list T)"
    using wf by (simp_all add: hwf_def)
  obtain C l r0 where T0: "T = plug C (CNode a p (hkey pn) (hval pn) l r0)" "cell_of l = hleft pn" "cell_of r0 = b"
    using hwf_node_at [OF wf va] a(4) by metis
  have "crep m r0" using wf T0(1) by (simp add: hwf_def plug_vrep)
  then obtain k w mid r where "r0 = CNode b q k w mid r" "qn = \<lparr>hkey = k, hval = w, hleft = cell_of mid, hright = cell_of r\<rparr>"
    using T0(3) vb by (cases r0) auto
  then have r0: "r0 = CNode b q (hkey qn) (hval qn) mid r" "cell_of mid = hleft qn" "cell_of r = hright qn"
    by simp_all
  let ?S = "CNode a p (hkey pn) (hval pn) l (CNode b q (hkey qn) (hval qn) mid r)"
  let ?S' = "CNode a q (hkey qn) (hval qn) (CNode b p (hkey pn) (hval pn) l mid) r"
  have T: "T = plug C ?S" using T0 r0 by simp
  let ?T' = "plug C ?S'"
  show pq: "p \<noteq> q" using wf T by (simp add: hwf_def plug_nodes)
  have ins: "a \<in> set (cell_list T)" "b \<in> set (cell_list T)" "p \<in> set (node_list T)" "q \<in> set (node_list T)"
    using T by (simp_all add: plug_cells plug_nodes)
  have other: "view m' d = view m d" if "d \<in> set (cell_list T)" "d \<noteq> a" "d \<noteq> b" for d
    using that hwf_elsewhere [OF wf va that(1,2)] hwf_elsewhere [OF wf vb that(1,3)]
    by (simp add: m'_def view_set_node_other view_set_cell_other)
  have here: "view m' a = Some (Some q, Some (qn\<lparr>hleft := b\<rparr>))"
    "view m' b = Some (Some p, Some (pn\<lparr>hright := hleft qn\<rparr>))"
    using ab(2) pq by (simp_all add: m'_def view_def set_node_def set_cell_def)
  have sub: "crep m' l" "crep m' mid" "crep m' r"
  proof -
    have "view m' d = view m d" if "d \<in> set (cell_list U)" "U = l \<or> U = mid \<or> U = r" for d U
      using that dist T by (intro other) (auto simp: plug_cells)
    then have "crep m' U = crep m U" if "U = l \<or> U = mid \<or> U = r" for U
      using that by (intro vrep_cong) blast
    then show "crep m' l" "crep m' mid" "crep m' r" using wf T by (simp_all add: hwf_def plug_vrep)
  qed
  have keys: "cpairs ?T' = cpairs T" using T by (simp add: plug_pairs)
  have dc: "dom (hcells m') = dom (hcells m)" "dom (hnodes m') = dom (hnodes m)" "hnext m' = hnext m" "hroot m' = hroot m"
    using ins dm by (auto simp: m'_def set_node_def set_cell_def)
  have wf': "hwf m' ?T'"
  proof (rule hwf_plug [of m C ?S])
    show "view m' d = view m d" if "d \<in> set (fst (ctx_cells C)) \<union> set (snd (ctx_cells C))" for d
      using that dist T by (intro other) (auto simp: plug_cells)
    show "crep m' ?S'" using here sub T0(2) r0(2,3) by (simp add: hnode.equality)
    show "distinct (cell_list ?T')" "distinct (node_list ?T')"
      using wf T by (auto simp: hwf_def plug_cells plug_nodes)
    show "dom (hcells m') = set (cell_list ?T')" "dom (hnodes m') = set (node_list ?T')"
      using dc dm T by (auto simp: plug_cells plug_nodes)
    show "strict_sorted (keys_of (cpairs ?T'))" unfolding keys using wf by (simp add: hwf_def)
    show "\<forall>d\<in>dom (hcells m') \<union> dom (hnodes m'). d < hnext m'"
      using wf unfolding dc by (simp add: hwf_def)
  qed (use wf T dc in simp_all)
  have lt: "hkey pn < hkey qn" using wf T by (simp add: hwf_def plug_pairs sorted_wrt_append)
  have "good ?T' m' (pcs(t := PDrop (hkey pn) a b)) h"
  proof (rule good_change [OF g wf'])
    show "view m' d = view m d" if "d \<in> set (cell_list T)" "d \<notin> held (pcs t)" for d
      using that ab(1) by (intro other) auto
    show "cpath T y \<inter> H \<subseteq> cpath ?T' y" if "H \<inter> held (pcs t) = {}" for y H
      unfolding T using that lt ab(1) by (intro plug_path_mono) auto
    show "replay h [] = Some (cpairs ?T')" using rp keys by simp
    show "settled (pcs(t := PDrop (hkey pn) a b)) h" using st by (simp add: settled_def)
    show "hlock dl = (case hcells m d of None \<Rightarrow> Unlocked | Some cl' \<Rightarrow> hlock cl')" if "hcells m' d = Some dl" for d dl
      using that a(1) b(1) by (auto simp: m'_def set_node_def set_cell_def split: if_splits)
    show "d \<in> held (pcs t)" if "hcells m d \<noteq> None" "hcells m' d = None" for d
      using that dc(1) by (metis domIff)
  qed (use ab dc dm ins here in auto)
  then show "\<exists>T'. good T' m' (pcs(t := PDrop (hkey pn) a b)) h" by blast
qed

text \<open>Cutting out a node whose right cell is empty: its left sub-tree moves up into its cell.\<close>

fun recell :: "addr \<Rightarrow> ctree \<Rightarrow> ctree" where
  "recell a (CLeaf c) = CLeaf a"
| "recell a (CNode c n k v l r) = CNode a n k v l r"

lemma recell_simps [simp]:
  "cell_of (recell a L) = a" "node_list (recell a L) = node_list L" "cpairs (recell a L) = cpairs L"
  by (cases L; simp)+

lemma recell_cells:
  "distinct (cell_list L) \<Longrightarrow> set (cell_list (recell a L)) = insert a (set (cell_list L) - {cell_of L})"
  "distinct (cell_list L) \<Longrightarrow> a \<notin> set (cell_list L) \<Longrightarrow> distinct (cell_list (recell a L))"
  by (cases L; auto)+

lemma recell_path: "cpath L x - {cell_of L} \<subseteq> cpath (recell a L) x"
  by (cases L) auto

lemma good_cut:
  assumes g: "good T m pcs h" and abc: "held (pcs t) = {a, b, c}" "a \<noteq> b" "a \<noteq> c" "b \<noteq> c"
    and a: "hcells m a = Some ca" "ht ca = Some p" "hnodes m p = Some pn" "hright pn = b" "hleft pn = c"
    and bc: "hcells m b = Some cb" "ht cb = None" "hcells m c = Some cl"
  defines "m' \<equiv> m\<lparr>hcells := (hcells m)(a \<mapsto> ca\<lparr>ht := ht cl\<rparr>, b := None, c := None),
    hnodes := (hnodes m)(p := None)\<rparr>" and "x \<equiv> hkey pn"
  shows "\<exists>T'. good T' m' (pcs(t := HDone (CDelete x) a None)) (h @ [(t, CDelete x, None)])"
proof -
  from g have wf: "hwf m T" and rp: "replay h [] = Some (cpairs T)" and st: "settled pcs h"
    by (simp_all add: good_def)
  have va: "view m a = Some (Some p, Some pn)" and vb: "view m b = Some (None, None)"
    using a bc by (simp_all add: view_def)
  have dist: "distinct (cell_list T)" and dm: "dom (hcells m) = set (cell_list T)" "dom (hnodes m) = set (node_list T)"
    using wf by (simp_all add: hwf_def)
  obtain C L r0 where T0: "T = plug C (CNode a p x (hval pn) L r0)" "cell_of L = c" "cell_of r0 = b"
    using hwf_node_at [OF wf va] a(4,5) x_def by metis
  have "crep m r0" using wf T0(1) by (simp add: hwf_def plug_vrep)
  then have "r0 = CLeaf b" using T0(3) vb by (cases r0) auto
  with T0 have T: "T = plug C (CNode a p x (hval pn) L (CLeaf b))" by simp
  let ?S' = "recell a L"
  let ?T' = "plug C ?S'"
  have dL: "distinct (cell_list L)" "a \<notin> set (cell_list L)" "b \<notin> set (cell_list L)" "c \<in> set (cell_list L)"
    using dist T T0(2) by (auto simp: plug_cells)
  have cl_eq: "set (cell_list ?S') = insert a (set (cell_list L) - {c})" "distinct (cell_list ?S')"
    using recell_cells [OF dL(1)] dL(2) T0(2) by simp_all
  have other: "view m' d = view m d" if "d \<in> set (cell_list T)" "d \<noteq> a" "d \<noteq> b" "d \<noteq> c" for d
  proof -
    have "ht dl \<noteq> Some p" if "hcells m d = Some dl" for dl
      using hwf_elsewhere [OF wf va \<open>d \<in> set (cell_list T)\<close> \<open>d \<noteq> a\<close>] that by (auto simp: view_def)
    then have "hcells m d = Some dl \<Longrightarrow> Option.bind (ht dl) ((hnodes m)(p := None)) = Option.bind (ht dl) (hnodes m)" for dl
      by (cases "ht dl") auto
    with that show ?thesis by (cases "hcells m d") (simp_all add: m'_def view_def)
  qed
  have cc: "c \<in> set (cell_list T)" using T dL(4) by (simp add: plug_cells)
  have va': "view m' a = view m c"
  proof -
    have "ht cl \<noteq> Some p" using hwf_elsewhere [OF wf va cc] abc(3) bc(3) by (auto simp: view_def)
    then have "Option.bind (ht cl) ((hnodes m)(p := None)) = Option.bind (ht cl) (hnodes m)" by (cases "ht cl") auto
    then show ?thesis using abc bc(3) by (simp add: m'_def view_def)
  qed
  have rep: "crep m' ?S'"
  proof -
    have cL: "crep m L" using wf T by (simp add: hwf_def plug_vrep)
    have vL: "view m' d = view m d" if "d \<in> set (cell_list L)" "d \<noteq> c" for d
      using that dL T by (intro other) (auto simp: plug_cells)
    show ?thesis
    proof (cases L)
      case (CLeaf d)
      then show ?thesis using cL va' T0(2) by simp
    next
      case (CNode d n k w l r)
      then have "crep m' l = crep m l" "crep m' r = crep m r"
        using vL dL(1) T0(2) by (intro vrep_cong; auto)+
      then show ?thesis using cL va' T0(2) CNode by simp
    qed
  qed
  have ctxd: "d \<noteq> a \<and> d \<noteq> b \<and> d \<notin> set (cell_list L)" if "d \<in> set (fst (ctx_cells C)) \<union> set (snd (ctx_cells C))" for d
    using that dist T by (auto simp: plug_cells)
  have keys: "cpairs ?T' = del_list x (cpairs T)"
    using del_list_around [of "fst (ctx_pairs C) @ cpairs L" x "hval pn" "snd (ctx_pairs C)"] wf T
    by (simp add: hwf_def plug_pairs)
  have "dom (hcells m') = set (cell_list T) - {b, c}"
    using dm(1) T abc by (auto simp: m'_def plug_cells)
  then have dc: "dom (hcells m') = set (cell_list ?T')"
    using T cl_eq(1) dL abc ctxd T0(2) by (auto simp: plug_cells)
  have "dom (hnodes m') = set (node_list T) - {p}" using dm(2) by (auto simp: m'_def)
  then have dn: "dom (hnodes m') = set (node_list ?T')"
    using T wf by (auto simp: plug_nodes hwf_def)
  have wf': "hwf m' ?T'"
  proof (rule hwf_plug [of m C "CNode a p x (hval pn) L (CLeaf b)"])
    show "view m' d = view m d" if "d \<in> set (fst (ctx_cells C)) \<union> set (snd (ctx_cells C))" for d
      using that ctxd [OF that] T dL(4) by (intro other) (auto simp: plug_cells)
    show "distinct (cell_list ?T')"
      using dist T cl_eq ctxd by (auto simp: plug_cells)
    show "distinct (node_list ?T')" using wf T by (auto simp: hwf_def plug_nodes)
    show "strict_sorted (keys_of (cpairs ?T'))"
      unfolding keys using wf by (simp add: hwf_def sorted_wrt_map sorted_wrt_filter)
    show "\<forall>d\<in>dom (hcells m') \<union> dom (hnodes m'). d < hnext m'"
    proof -
      have "a \<in> set (cell_list T)" using T by (simp add: plug_cells)
      then show ?thesis using wf by (auto simp: hwf_def m'_def)
    qed
    show "hroot m' = hroot m" by (simp add: m'_def)
  qed (use wf T rep dc dn in simp_all)
  have "good ?T' m' (pcs(t := HDone (CDelete x) a None)) (h @ [(t, CDelete x, None)])"
  proof (rule good_change [OF g wf'])
    show "replay (h @ [(t, CDelete x, None)]) [] = Some (cpairs ?T')" using rp keys by (simp add: replay_append)
    show "settled (pcs(t := HDone (CDelete x) a None)) (h @ [(t, CDelete x, None)])" by (rule settled_new [OF st])
    show "view m' d = view m d" if "d \<in> set (cell_list T)" "d \<notin> held (pcs t)" for d
      using that abc(1) by (intro other) auto
    show "cpath T y \<inter> H \<subseteq> cpath ?T' y" if "H \<inter> held (pcs t) = {}" for y H
      unfolding T
    proof (rule plug_path_mono)
      have "cpath L y \<inter> H \<subseteq> cpath (recell a L) y"
        using recell_path [of L y a] that T0(2) unfolding abc(1) by blast
      moreover have "a \<in> cpath (recell a L) y" using cell_of_path [of "recell a L" y] by simp
      ultimately show "cpath (CNode a p x (hval pn) L (CLeaf b)) y \<inter> H \<subseteq> cpath (recell a L) y"
        using that unfolding abc(1) by auto
    qed
    show "hlock dl = (case hcells m d of None \<Rightarrow> Unlocked | Some cl' \<Rightarrow> hlock cl')" if "hcells m' d = Some dl" for d dl
      using that a(1) abc by (auto simp: m'_def split: if_splits)
    show "hcells m' d = None" if "d \<notin> held (HDone (CDelete x) a None)" "d \<in> held (pcs t)" for d
      using that abc by (auto simp: m'_def)
    show "d \<in> held (pcs t)" if "hcells m d \<noteq> None" "hcells m' d = None" for d
      using that abc by (auto simp: m'_def split: if_splits)
    show "held (HDone (CDelete x) a None) \<subseteq> dom (hcells m')" using abc by (simp add: m'_def)
  qed (use abc in auto)
  then show ?thesis by blast
qed

end
