(* ===== verification/Conc_HohLin.thy ===== *)
theory Conc_HohLin
  imports Conc_HohSteps
begin

text \<open>
  Every step of every thread keeps the invariant of the hand-over-hand tree and none goes wrong; the
  order in which the calls settle is a run of the sequential map; and the threads never deadlock.
\<close>

section \<open>The cells below a cell\<close>

lemma hwf_children:
  assumes "hwf m T" "view m a = Some (Some n, Some nd)"
  shows "hleft nd \<in> set (cell_list T)" "hright nd \<in> set (cell_list T)"
    "a \<noteq> hleft nd" "a \<noteq> hright nd" "hleft nd \<noteq> hright nd"
  using cwf_children [OF hwf_cwf [OF assms(1)] hwf_in [OF assms] assms(2)] .

lemmas next_cell_path = cwf_next_path [OF hwf_cwf]

lemmas path_answer = cwf_answer [OF hwf_cwf]

section \<open>Every step is a good step\<close>

definition steps_well :: "(tid \<Rightarrow> hpc) \<Rightarrow> (tid \<times> call \<times> cptr) list \<Rightarrow> tid \<Rightarrow> hstep \<Rightarrow> bool" where
  "steps_well pcs h t out \<longleftrightarrow> (case out of Fault \<Rightarrow> False | Blocked \<Rightarrow> True
     | Go (m', pc', ev) \<Rightarrow> (\<exists>T'. good T' m' (pcs(t := pc')) (h @ settle t (call_of (pcs t)) ev)))"

lemma steps_well_Go:
  "good T' m' (pcs(t := pc')) (h @ settle t (call_of (pcs t)) ev) \<Longrightarrow> steps_well pcs h t (Go (m', pc', ev))"
  by (auto simp: steps_well_def)

lemma steps_well_None:
  "good T' m' (pcs(t := pc')) h \<Longrightarrow> steps_well pcs h t (Go (m', pc', None))"
  by (rule steps_well_Go [of T']) (simp add: settle_def split: option.split)

lemma steps_well_Some:
  "\<exists>T'. good T' m' (pcs(t := pc')) (h @ [(t, c, r)]) \<Longrightarrow> call_of (pcs t) = Some c \<Longrightarrow>
   steps_well pcs h t (Go (m', pc', Some r))"
  by (auto simp: steps_well_def settle_def)

lemma well_acquire:
  assumes "good T m pcs h" "c \<in> set (cell_list T)"
    and "\<And>cl. hcells m c = Some cl \<Longrightarrow> hlock cl = Unlocked \<Longrightarrow>
           steps_well pcs h t (f (set_cell m c (cl\<lparr>hlock := LockedBy t\<rparr>)))"
  shows "steps_well pcs h t (acquire_cell t c m f)"
proof -
  have "c \<in> dom (hcells m)" using assms(1,2) by (simp add: good_def hwf_def)
  then obtain cl where cl: "hcells m c = Some cl" by blast
  moreover have "hlock cl \<noteq> Destroyed" using assms(1) cl by (simp add: good_def locks_ok_def)
  ultimately show ?thesis using assms(3) [OF cl]
    by (cases "hlock cl") (simp_all add: acquire_cell_def need_def steps_well_def [of _ _ _ Blocked])
qed

lemma release_held:
  assumes "good T m pcs h" "c \<in> held (pcs t)"
  obtains cl where "hcells m c = Some cl"
    "\<And>f. release_cell t c m f = f (set_cell m c (cl\<lparr>hlock := Unlocked\<rparr>))"
proof -
  have lk: "locks_ok m pcs" using assms(1) by (simp add: good_def)
  obtain cl where cl: "hcells m c = Some cl" using locks_ok_dom [OF lk assms(2)] by blast
  then have "hlock cl = LockedBy t" using locks_ok_iff [OF lk cl] assms(2) by simp
  with cl that show thesis by (simp add: release_cell_def need_def release2_def)
qed

lemma well_release:
  assumes g: "good T m pcs h" and c: "held (pcs t) = insert c (held pc)" "c \<notin> held pc"
    and pc: "pc_ok T m pc" "\<And>c a r. pc \<noteq> HDone c a r"
  shows "steps_well pcs h t (release_cell t c m (\<lambda>m. Go (m, pc, None)))"
proof -
  have "c \<in> held (pcs t)" using c(1) by simp
  with g obtain cl where cl: "hcells m c = Some cl"
    "release_cell t c m (\<lambda>m. Go (m, pc, None)) = (Go (set_cell m c (cl\<lparr>hlock := Unlocked\<rparr>), pc, None) :: hstep)"
    by (metis (lifting) release_held)
  show ?thesis unfolding cl(2)
    by (rule steps_well_None [of T]) (rule good_release [OF g cl(1) c pc])
qed

text \<open>Acquiring the next lock, when the program point that follows needs nothing from the new cell.\<close>

lemma well_acquire_Go:
  assumes g: "good T m pcs h" and c: "c \<in> set (cell_list T)"
    and pc: "held pc = insert c (held (pcs t))" "c \<notin> held (pcs t) \<Longrightarrow> pc_ok T m pc" "\<And>c a r. pc \<noteq> HDone c a r"
  shows "steps_well pcs h t (acquire_cell t c m (\<lambda>m. Go (m, pc, None)))"
proof (rule well_acquire [OF g c])
  fix cl
  assume cl: "hcells m c = Some cl" "hlock cl = Unlocked"
  then have "c \<notin> held (pcs t)" using g locks_ok_iff [of m pcs c cl t] by (simp add: good_def)
  then show "steps_well pcs h t (Go (set_cell m c (cl\<lparr>hlock := LockedBy t\<rparr>), pc, None))"
    using good_acquire [OF g cl pc(1) _ pc(3)] pc(2) by (intro steps_well_None [of T]) blast
qed

lemma hroot_in: "good T m pcs h \<Longrightarrow> hroot m \<in> set (cell_list T) \<and> hroot m \<in> cpath T x"
  using cell_of_in [of T] cell_of_path [of T x] by (simp add: good_def hwf_def)

lemma well_start:
  assumes g: "good T m pcs h" and pc: "pcs t = HStart c" "\<forall>x. c \<noteq> CLookup x"
  shows "steps_well pcs h t (acquire_cell t (hroot m) m (\<lambda>m. Go (m, HAt c (hroot m), None)))"
proof -
  have "steps_well pcs h t (acquire_cell t (hroot m) m (\<lambda>m'. Go (m', HAt c (hroot m), None)))"
    using hroot_in [OF g] pc by (intro well_acquire_Go [OF g]) simp_all
  moreover have "acquire_cell t (hroot m) m (\<lambda>m'. Go (m', HAt c (hroot m), None)) =
      acquire_cell t (hroot m) m (\<lambda>m. Go (m, HAt c (hroot m), None) :: hstep)"
    by (auto simp: acquire_cell_def need_def set_cell_def split: option.split)
  ultimately show ?thesis by simp
qed

lemma acquire_seen_eq:
  "acquire_cell t c m (\<lambda>m. need (hcells m c) (\<lambda>cl. Go (m, f (ht cl), None))) =
   acquire_cell t c m (\<lambda>m'. Go (m', f (case hcells m c of None \<Rightarrow> None | Some cl \<Rightarrow> ht cl), None))"
  by (cases "hcells m c") (auto simp: acquire_cell_def need_def set_cell_def split: option.splits)

lemma good_settle:
  assumes g: "good T m pcs h" and pc: "held (pcs t) = {a}" and sp: "spec_op c (cpairs T) = (cpairs T, r)"
  shows "\<exists>T'. good T' m (pcs(t := HDone c a r)) (h @ [(t, c, r)])"
proof -
  have "good T m (pcs(t := HDone c a r)) (h @ [(t, c, r)])"
    using g pc sp settled_new [of pcs h t c a r] locks_ok_dom [of m pcs a t]
    by (simp add: good_def locks_ok_def replay_append domIff)
  then show ?thesis by blast
qed

section \<open>The steps of each operation\<close>

text \<open>The read of the new cell's pointer that \<^verbatim>\<open>lookup\<close> does before it releases the old lock.\<close>

lemma well_seen:
  assumes g: "good T m pcs h" and c: "c \<in> set (cell_list T)"
    and pc: "\<And>p. held (f p) = insert c (held (pcs t))" "\<And>p c a r. f p \<noteq> HDone c a r"
    and seen: "\<And>p nd. c \<notin> held (pcs t) \<Longrightarrow> view m c = Some (p, nd) \<Longrightarrow> pc_ok T m (f p)"
  shows "steps_well pcs h t (acquire_cell t c m (\<lambda>m. need (hcells m c) (\<lambda>cl. Go (m, f (ht cl), None))))"
proof -
  have "c \<in> dom (hcells m)" using g c by (simp add: good_def hwf_def)
  then obtain cl where cl: "hcells m c = Some cl" by blast
  then have "view m c = Some (ht cl, Option.bind (ht cl) (hnodes m))" by (simp add: view_def)
  then have "steps_well pcs h t (acquire_cell t c m (\<lambda>m'. Go (m', f (ht cl), None)))"
    using pc seen by (intro well_acquire_Go [OF g c]) auto
  moreover have "acquire_cell t c m (\<lambda>m'. Go (m', f (ht cl), None)) =
      acquire_cell t c m (\<lambda>m. need (hcells m c) (\<lambda>cl. Go (m, f (ht cl), None) :: hstep))"
    using cl by (auto simp: acquire_cell_def need_def set_cell_def split: option.split)
  ultimately show ?thesis by simp
qed

lemma well_move:
  "good T m pcs h \<Longrightarrow> held pc = held (pcs t) \<Longrightarrow> pc_ok T m pc \<Longrightarrow> (\<And>c a r. pc \<noteq> HDone c a r) \<Longrightarrow>
   steps_well pcs h t (Go (m, pc, None))"
  by (rule steps_well_None [of T]) (rule good_move)

lemma held_cell:
  assumes "good T m pcs h" "a \<in> held (pcs t)"
  obtains cl where "hcells m a = Some cl" "view m a = Some (ht cl, Option.bind (ht cl) (hnodes m))"
  using assms locks_ok_dom [of m pcs a t] that by (auto simp: good_def view_def)

lemma held_node:
  assumes "good T m pcs h" "hcells m a = Some cl" "ht cl = Some p"
  obtains nd where "hnodes m p = Some nd" "view m a = Some (Some p, Some nd)"
proof -
  have v: "view m a = Some (Some p, hnodes m p)" using assms(2,3) by (simp add: view_def)
  have "hwf m T" using assms(1) by (simp add: good_def)
  from hwf_view_node [OF this v] obtain nd where "hnodes m p = Some nd" by metis
  with v that show thesis by simp
qed

lemma insert_well:
  assumes g: "good T m pcs h" and c: "call_of (pcs t) = Some (CInsert x v)"
  shows "steps_well pcs h t (insert_hoh t x v (pcs t) m)"
proof -
  have ok: "pc_ok T m (pcs t)" and wf: "hwf m T" using g by (simp_all add: good_def)
  from c consider (start) "pcs t = HStart (CInsert x v)" | (at) a where "pcs t = HAt (CInsert x v) a"
    | (down) a b where "pcs t = HDown (CInsert x v) a b" | (drop) a b where "pcs t = HDrop (CInsert x v) a b"
    | (fin) a r where "pcs t = HDone (CInsert x v) a r"
    by (cases "pcs t") auto
  then show ?thesis
  proof cases
    case start
    then show ?thesis using well_start [OF g start] by (simp add: insert_hoh_def)
  next
    case at
    then have hd: "held (pcs t) = {a}" and ap: "a \<in> cpath T x" using ok by simp_all
    then obtain cl where cl: "hcells m a = Some cl" using held_cell [OF g, of a t] by auto
    show ?thesis
    proof (cases "ht cl")
      case None
      have "new_cell t = Some \<lparr>ht = None, hlock = Unlocked\<rparr>" by (simp add: new_cell_def release2_def)
      then show ?thesis using good_insert [OF g hd cl None ap, of v] at None
        by (auto simp: insert_hoh_def cl need_def Let_def numeral_3_eq_3 intro!: steps_well_Some)
    next
      case (Some p)
      obtain nd where nd: "hnodes m p = Some nd" "view m a = Some (Some p, Some nd)"
        using held_node [OF g cl Some] by metis
      show ?thesis
      proof (cases "x = hkey nd")
        case True
        then show ?thesis using good_set_value [OF g hd nd(2), of v] at
          by (auto simp: insert_hoh_def cl need_def Some nd intro!: steps_well_Some)
      next
        case False
        then have "next_cell (view m) x a (if x < hkey nd then hleft nd else hright nd)"
          using nd(2) by (auto simp: next_cell_def)
        with False at hd ap show ?thesis
          by (auto simp: insert_hoh_def cl need_def Some nd Let_def intro!: well_move [OF g])
      qed
    qed
  next
    case down
    then have "next_cell (view m) x a b" "a \<in> cpath T x" using ok by simp_all
    note nx = this next_cell_path [OF wf this(2,1)]
    have "steps_well pcs h t (acquire_cell t b m (\<lambda>m. Go (m, HDrop (CInsert x v) a b, None)))"
      using nx down by (intro well_acquire_Go [OF g]) auto
    with down show ?thesis by (simp add: insert_hoh_def)
  next
    case drop
    then have nx: "next_cell (view m) x a b" "a \<in> cpath T x" using ok by simp_all
    have "steps_well pcs h t (release_cell t a m (\<lambda>m. Go (m, HAt (CInsert x v) b, None)))"
      using next_cell_path [OF wf nx(2,1)] drop by (intro well_release [OF g]) auto
    with drop show ?thesis by (simp add: insert_hoh_def)
  next
    case fin
    have "steps_well pcs h t (release_cell t a m (\<lambda>m. Go (m, HIdle, None)))"
      using fin by (intro well_release [OF g]) auto
    with fin show ?thesis by (simp add: insert_hoh_def)
  qed
qed

lemma lookup_well:
  assumes g: "good T m pcs h" and c: "call_of (pcs t) = Some (CLookup x)"
  shows "steps_well pcs h t (lookup_hoh t x (pcs t) m)"
proof -
  have ok: "pc_ok T m (pcs t)" and wf: "hwf m T" using g by (simp_all add: good_def)
  from c ok consider (start) "pcs t = HStart (CLookup x)" | (seen) a p where "pcs t = HSeen x a p"
    | (down) a b where "pcs t = HDown (CLookup x) a b" | (drop) a b p where "pcs t = HDropSeen x a b p"
    | (fin) a r where "pcs t = HDone (CLookup x) a r"
    by (cases "pcs t") auto
  then show ?thesis
  proof cases
    case start
    have "steps_well pcs h t (acquire_cell t (hroot m) m
        (\<lambda>m'. need (hcells m' (hroot m)) (\<lambda>cl. Go (m', HSeen x (hroot m) (ht cl), None))))"
      using hroot_in [OF g] start by (intro well_seen [OF g]) auto
    moreover have "acquire_cell t (hroot m) m (\<lambda>m'. need (hcells m' (hroot m)) (\<lambda>cl. Go (m', HSeen x (hroot m) (ht cl), None))) =
       acquire_cell t (hroot m) m (\<lambda>m. need (hcells m (hroot m)) (\<lambda>cl. Go (m, HSeen x (hroot m) (ht cl), None) :: hstep))"
      by (auto simp: acquire_cell_def need_def set_cell_def split: option.split)
    ultimately show ?thesis using start by (simp add: lookup_hoh_def)
  next
    case seen
    then have hd: "held (pcs t) = {a}" and ap: "a \<in> cpath T x" and v: "\<exists>nd. view m a = Some (p, nd)"
      using ok by simp_all
    show ?thesis
    proof (cases p)
      case None
      then obtain y where "view m a = Some (None, y)" using v by auto
      then have "spec_op (CLookup x) (cpairs T) = (cpairs T, None)" using path_answer(1) [OF wf ap] by simp
      from good_settle [OF g hd this] show ?thesis
        using seen None by (auto simp: lookup_hoh_def intro!: steps_well_Some)
    next
      case (Some q)
      then obtain y where y: "view m a = Some (Some q, y)" using v by auto
      obtain nd where nd: "y = Some nd" "hnodes m q = Some nd" using hwf_view_node [OF wf y] by metis
      show ?thesis
      proof (cases "x = hkey nd")
        case True
        then have "spec_op (CLookup x) (cpairs T) = (cpairs T, hval nd)"
          using path_answer(2) [OF wf ap] y nd by simp
        from good_settle [OF g hd this] show ?thesis
          using seen Some True nd by (auto simp: lookup_hoh_def need_def Let_def intro!: steps_well_Some)
      next
        case False
        then have "next_cell (view m) x a (if x < hkey nd then hleft nd else hright nd)"
          using y nd by (auto simp: next_cell_def)
        with False seen hd ap Some show ?thesis
          by (auto simp: lookup_hoh_def need_def nd Let_def intro!: well_move [OF g])
      qed
    qed
  next
    case down
    then have "next_cell (view m) x a b" "a \<in> cpath T x" using ok by simp_all
    note nx = this next_cell_path [OF wf this(2,1)]
    have "steps_well pcs h t (acquire_cell t b m (\<lambda>m. need (hcells m b) (\<lambda>cl. Go (m, HDropSeen x a b (ht cl), None))))"
      using nx down by (intro well_seen [OF g]) auto
    with down show ?thesis by (simp add: lookup_hoh_def)
  next
    case drop
    then have nx: "next_cell (view m) x a b" "a \<in> cpath T x" "a \<noteq> b" "\<exists>nd. view m b = Some (p, nd)" using ok by simp_all
    have "steps_well pcs h t (release_cell t a m (\<lambda>m. Go (m, HSeen x b p, None)))"
      using next_cell_path [OF wf nx(2,1)] drop nx by (intro well_release [OF g]) auto
    with drop show ?thesis by (simp add: lookup_hoh_def)
  next
    case fin
    have "steps_well pcs h t (release_cell t a m (\<lambda>m. Go (m, HIdle, None)))"
      using fin by (intro well_release [OF g]) auto
    with fin show ?thesis by (simp add: lookup_hoh_def)
  qed
qed

fun pushing :: "hpc \<Rightarrow> bool" where
  "pushing (PAt x a) = True"
| "pushing (PWaitQ x a p b) = True"
| "pushing (PHasQ x a p b) = True"
| "pushing (PWaitL x a p b c) = True"
| "pushing (PHasL x a p b c) = True"
| "pushing (PDrop x a b) = True"
| "pushing _ = False"

lemma pushdown_well:
  assumes g: "good T m pcs h"
    and pc: "pushing (pcs t)"
  shows "steps_well pcs h t (pushdown_left_hoh t (pcs t) m)"
proof -
  have ok: "pc_ok T m (pcs t)" and wf: "hwf m T" using g by (simp_all add: good_def)
  from pc consider (pat) x a where "pcs t = PAt x a" | (wq) x a p b where "pcs t = PWaitQ x a p b"
    | (hq) x a p b where "pcs t = PHasQ x a p b" | (wl) x a p b c where "pcs t = PWaitL x a p b c"
    | (hl) x a p b c where "pcs t = PHasL x a p b c" | (drop) x a b where "pcs t = PDrop x a b"
    by (cases "pcs t") auto
  then show ?thesis
  proof cases
    case pat
    then obtain n nd where v: "view m a = Some (Some n, Some nd)" "hkey nd = x" using ok by auto
    then obtain cl where "hcells m a = Some cl" "ht cl = Some n" "hnodes m n = Some nd"
      using view_cell [OF v(1)] by auto
    then show ?thesis using v pat
      by (auto simp: pushdown_left_hoh_def need_def intro!: well_move [OF g])
  next
    case wq
    then obtain nd where v: "view m a = Some (Some p, Some nd)" "hkey nd = x" "hright nd = b" using ok by auto
    have "steps_well pcs h t (acquire_cell t b m (\<lambda>m. Go (m, PHasQ x a p b, None)))"
      using hwf_children [OF wf v(1)] v wq by (intro well_acquire_Go [OF g]) auto
    with wq show ?thesis by (simp add: pushdown_left_hoh_def)
  next
    case hq
    then obtain nd where v: "view m a = Some (Some p, Some nd)" "hkey nd = x" "hright nd = b" and ab: "a \<noteq> b"
      using ok by auto
    obtain ca where ca: "hcells m a = Some ca" "ht ca = Some p" "hnodes m p = Some nd"
      using view_cell [OF v(1)] by auto
    obtain cb where cb: "hcells m b = Some cb" "view m b = Some (ht cb, Option.bind (ht cb) (hnodes m))"
      using held_cell [OF g, of b t] hq by auto
    show ?thesis
    proof (cases "ht cb")
      case None
      then have "pc_ok T m (PWaitL x a p b (hleft nd))" using v ab cb by simp
      then have "steps_well pcs h t (Go (m, PWaitL x a p b (hleft nd), None))"
        using hq by (intro well_move [OF g]) (simp_all del: pc_ok.simps)
      then show ?thesis using hq None by (simp add: pushdown_left_hoh_def need_def cb ca)
    next
      case (Some q)
      obtain qn where qn: "hnodes m q = Some qn" using held_node [OF g cb(1) Some] by metis
      let ?m = "set_cell (set_cell (set_node (set_node m p (nd\<lparr>hright := hleft qn\<rparr>)) q (qn\<lparr>hleft := b\<rparr>))
        a (ca\<lparr>ht := Some q\<rparr>)) b (cb\<lparr>ht := Some p\<rparr>)"
      have hd: "held (pcs t) = {a, b}" using hq by simp
      have rot: "p \<noteq> q" "\<exists>T'. good T' ?m (pcs(t := PDrop x a b)) h"
        using good_rotate [OF g hd ab ca v(3) cb(1) Some qn] v(2) by simp_all
      have "turn_left_hoh a b m = Some ?m"
        using ca cb(1) Some qn rot(1) ab
        by (simp add: turn_left_hoh_def set_node_def set_cell_def Let_def)
      moreover have "hnodes ?m q = Some (qn\<lparr>hleft := b\<rparr>)" by (simp add: set_node_def set_cell_def)
      ultimately show ?thesis using rot(2) hq Some
        by (auto simp: pushdown_left_hoh_def need_def cb intro: steps_well_None)
    qed
  next
    case wl
    then obtain nd where v: "view m a = Some (Some p, Some nd)" "hkey nd = x" "hright nd = b" "hleft nd = c"
      using ok by auto
    have "steps_well pcs h t (acquire_cell t c m (\<lambda>m. Go (m, PHasL x a p b c, None)))"
      using hwf_children [OF wf v(1)] v wl ok by (intro well_acquire_Go [OF g]) auto
    with wl show ?thesis by (simp add: pushdown_left_hoh_def)
  next
    case hl
    then obtain nd where v: "view m a = Some (Some p, Some nd)" "hkey nd = x" "hright nd = b" "hleft nd = c"
      and ne: "a \<noteq> b" "a \<noteq> c" "b \<noteq> c" and vb: "view m b = Some (None, None)"
      using ok by auto
    obtain ca where ca: "hcells m a = Some ca" "ht ca = Some p" "hnodes m p = Some nd"
      using view_cell [OF v(1)] by auto
    obtain cb where cb: "hcells m b = Some cb" "ht cb = None" using view_cell [OF vb] by auto
    obtain cl where cl: "hcells m c = Some cl" using held_cell [OF g, of c t] hl by auto
    have hd: "held (pcs t) = {a, b, c}" using hl by simp
    have lk: "hlock cb \<noteq> Destroyed" "hlock cl \<noteq> Destroyed"
      using g cb cl by (auto simp: good_def locks_ok_def)
    let ?m = "m\<lparr>hcells := (hcells m)(a \<mapsto> ca\<lparr>ht := ht cl\<rparr>, b := None, c := None), hnodes := (hnodes m)(p := None)\<rparr>"
    have "do { m1 \<leftarrow> free_hnode p (set_cell m a (ca\<lparr>ht := ht cl\<rparr>)); m1 \<leftarrow> free_cell b m1; free_cell c m1 } = Some ?m"
      using ca cb cl ne lk by (simp add: free_hnode_def free_cell_def set_cell_def freelock2_def)
    then show ?thesis using good_cut [OF g hd ne ca v(3,4) cb cl] v(2) hl
      by (auto simp: pushdown_left_hoh_def need_def ca cl intro!: steps_well_Some)
  next
    case drop
    have "steps_well pcs h t (release_cell t a m (\<lambda>m. Go (m, PAt x b, None)))"
      using drop ok by (intro well_release [OF g]) auto
    with drop show ?thesis by (simp add: pushdown_left_hoh_def)
  qed
qed

lemma delete_well:
  assumes g: "good T m pcs h" and c: "call_of (pcs t) = Some (CDelete x)"
  shows "steps_well pcs h t (delete_hoh t x (pcs t) m)"
proof -
  have ok: "pc_ok T m (pcs t)" and wf: "hwf m T" using g by (simp_all add: good_def)
  from c consider (start) "pcs t = HStart (CDelete x)" | (at) a where "pcs t = HAt (CDelete x) a"
    | (down) a b where "pcs t = HDown (CDelete x) a b" | (drop) a b where "pcs t = HDrop (CDelete x) a b"
    | (fin) a r where "pcs t = HDone (CDelete x) a r"
    | (push) "pushing (pcs t)"
    by (cases "pcs t") auto
  then show ?thesis
  proof cases
    case start
    then show ?thesis using well_start [OF g start] by (simp add: delete_hoh_def)
  next
    case at
    then have hd: "held (pcs t) = {a}" and ap: "a \<in> cpath T x" using ok by simp_all
    then obtain cl where cl: "hcells m a = Some cl" "view m a = Some (ht cl, Option.bind (ht cl) (hnodes m))"
      using held_cell [OF g, of a t] by auto
    show ?thesis
    proof (cases "ht cl")
      case None
      then have "spec_op (CDelete x) (cpairs T) = (cpairs T, None)" using path_answer(1) [OF wf ap] cl by simp
      from good_settle [OF g hd this] show ?thesis
        using at None cl by (auto simp: delete_hoh_def need_def intro!: steps_well_Some)
    next
      case (Some p)
      obtain nd where nd: "hnodes m p = Some nd" "view m a = Some (Some p, Some nd)"
        using held_node [OF g cl(1) Some] by metis
      show ?thesis
      proof (cases "x = hkey nd")
        case True
        then show ?thesis using at hd nd
          by (auto simp: delete_hoh_def cl need_def Some nd intro!: well_move [OF g])
      next
        case False
        then have "next_cell (view m) x a (if x < hkey nd then hleft nd else hright nd)"
          using nd(2) by (auto simp: next_cell_def)
        with False at hd ap show ?thesis
          by (auto simp: delete_hoh_def cl need_def Some nd Let_def intro!: well_move [OF g])
      qed
    qed
  next
    case down
    then have "next_cell (view m) x a b" "a \<in> cpath T x" using ok by simp_all
    note nx = this next_cell_path [OF wf this(2,1)]
    have "steps_well pcs h t (acquire_cell t b m (\<lambda>m. Go (m, HDrop (CDelete x) a b, None)))"
      using nx down by (intro well_acquire_Go [OF g]) auto
    with down show ?thesis by (simp add: delete_hoh_def)
  next
    case drop
    then have nx: "next_cell (view m) x a b" "a \<in> cpath T x" using ok by simp_all
    have "steps_well pcs h t (release_cell t a m (\<lambda>m. Go (m, HAt (CDelete x) b, None)))"
      using next_cell_path [OF wf nx(2,1)] drop by (intro well_release [OF g]) auto
    with drop show ?thesis by (simp add: delete_hoh_def)
  next
    case fin
    have "steps_well pcs h t (release_cell t a m (\<lambda>m. Go (m, HIdle, None)))"
      using fin by (intro well_release [OF g]) auto
    with fin show ?thesis by (simp add: delete_hoh_def)
  next
    case push
    then have "delete_hoh t x (pcs t) m = pushdown_left_hoh t (pcs t) m"
      by (cases "pcs t") (simp_all add: delete_hoh_def)
    then show ?thesis using pushdown_well [OF g push] by simp
  qed
qed

theorem hoh_turn_well:
  assumes "good T m pcs h"
  shows "steps_well pcs h t (hoh_turn t (pcs t) m)"
proof (cases "call_of (pcs t)")
  case None
  then show ?thesis by (simp add: hoh_turn_def steps_well_def)
next
  case (Some c)
  then show ?thesis
    using insert_well [OF assms] lookup_well [OF assms] delete_well [OF assms]
    by (cases c) (simp_all add: hoh_turn_def)
qed

section \<open>Reachable states\<close>

definition hinv :: "hsys \<Rightarrow> bool" where
  "hinv \<sigma> \<longleftrightarrow> (\<exists>T. good T (h_mem \<sigma>) (h_pc \<sigma>) (h_hist \<sigma>))"

lemma hinv_step: "hoh_step \<sigma> \<sigma>' \<Longrightarrow> hinv \<sigma> \<Longrightarrow> hinv \<sigma>'"
proof (induction rule: hoh_step.induct)
  case (hoh_invoke \<sigma> t c)
  then obtain T where g: "good T (h_mem \<sigma>) (h_pc \<sigma>) (h_hist \<sigma>)" by (auto simp: hinv_def)
  have "good T (h_mem \<sigma>) ((h_pc \<sigma>)(t := HStart c)) (h_hist \<sigma>)"
    by (rule good_move [OF g]) (simp_all add: hoh_invoke)
  then show ?case by (auto simp: hinv_def)
next
  case (hoh_go t \<sigma> m pc ev)
  then obtain T where g: "good T (h_mem \<sigma>) (h_pc \<sigma>) (h_hist \<sigma>)" by (auto simp: hinv_def)
  from hoh_turn_well [OF g, of t] hoh_go.hyps show ?case by (auto simp: hinv_def steps_well_def)
qed

lemma hinv_reach: "hoh_step\<^sup>*\<^sup>* \<sigma> \<sigma>' \<Longrightarrow> hinv \<sigma> \<Longrightarrow> hinv \<sigma>'"
  by (induction rule: rtranclp_induct) (auto intro: hinv_step)

lemma hinv_start: "treebox_new_hoh t = Some m \<Longrightarrow> hinv (hoh_start m)"
  unfolding hinv_def
  by (rule exI [of _ "CLeaf 0"])
     (auto simp: treebox_new_hoh_def new_cell_def release2_def hoh_start_def good_def hwf_def locks_ok_def
       settled_def view_def split: if_splits)

section \<open>Freedom from deadlock\<close>

text \<open>The cell whose lock a thread waits for.\<close>

fun awaits :: "hmem \<Rightarrow> hpc \<Rightarrow> addr option" where
  "awaits m (HStart c) = Some (hroot m)"
| "awaits m (HDown c a b) = Some b"
| "awaits m (PWaitQ x a p b) = Some b"
| "awaits m (PWaitL x a p b c) = Some c"
| "awaits m _ = None"

lemma acquire_blocked:
  "acquire_cell t c m f = Blocked \<Longrightarrow> (\<And>m. f m \<noteq> Blocked) \<Longrightarrow> \<exists>cl u. hcells m c = Some cl \<and> hlock cl = LockedBy u"
  by (auto simp: acquire_cell_def need_def acquire_def split: option.splits if_splits mutex.splits)

lemma not_blocked:
  "release_cell t c m (\<lambda>m. Go (m, pc, None)) \<noteq> (Blocked :: hstep)"
  "(\<And>y. f y \<noteq> Blocked) \<Longrightarrow> need x f \<noteq> (Blocked :: hstep)"
  by (auto simp: release_cell_def need_def split: option.splits)

lemma need_blocked: "need x f = (Blocked :: hstep) \<Longrightarrow> \<exists>y. x = Some y \<and> f y = Blocked"
  by (cases x) (auto simp: need_def)

lemma insert_blocked:
  "insert_hoh t x v pc m = Blocked \<Longrightarrow> \<exists>c cl u. awaits m pc = Some c \<and> hcells m c = Some cl \<and> hlock cl = LockedBy u"
  by (cases pc)
     (auto simp: insert_hoh_def not_blocked Let_def split: option.splits if_splits dest!: acquire_blocked need_blocked)

lemma lookup_blocked:
  "lookup_hoh t x pc m = Blocked \<Longrightarrow> \<exists>c cl u. awaits m pc = Some c \<and> hcells m c = Some cl \<and> hlock cl = LockedBy u"
  by (cases pc)
     (auto simp: lookup_hoh_def not_blocked Let_def split: option.splits if_splits dest!: acquire_blocked need_blocked)

lemma delete_blocked:
  "delete_hoh t x pc m = Blocked \<Longrightarrow> \<exists>c cl u. awaits m pc = Some c \<and> hcells m c = Some cl \<and> hlock cl = LockedBy u"
  by (cases pc)
     (auto simp: delete_hoh_def pushdown_left_hoh_def not_blocked Let_def split: option.splits if_splits
       dest!: acquire_blocked need_blocked)

lemma blocked_awaits:
  assumes "pc \<noteq> HIdle" "hoh_turn t pc m = Blocked"
  shows "\<exists>c cl u. awaits m pc = Some c \<and> hcells m c = Some cl \<and> hlock cl = LockedBy u"
proof -
  have "call_of pc \<noteq> None" using assms(1) by (cases pc) auto
  then obtain c where c: "call_of pc = Some c" by auto
  show ?thesis
    using assms(2) c insert_blocked [of t _ _ pc m] lookup_blocked [of t _ pc m] delete_blocked [of t _ pc m]
    by (cases c) (simp_all add: hoh_turn_def)
qed

text \<open>Parents in the tree are unique, and a cell is one deeper than its parent.\<close>

definition is_child :: "hmem \<Rightarrow> addr \<Rightarrow> addr \<Rightarrow> bool" where
  "is_child m a b \<longleftrightarrow> (\<exists>n nd. view m a = Some (Some n, Some nd) \<and> (b = hleft nd \<or> b = hright nd))"

fun cdepth :: "ctree \<Rightarrow> addr \<Rightarrow> nat" where
  "cdepth (CLeaf d) c = 0"
| "cdepth (CNode d n k v l r) c =
     (if c = d then 0 else if c \<in> set (cell_list l) then Suc (cdepth l c) else Suc (cdepth r c))"

lemma cdepth_le: "c \<in> set (cell_list T) \<Longrightarrow> cdepth T c \<le> length (cell_list T)"
  by (induction T) auto

lemma cdepth_root [simp]: "cdepth T (cell_of T) = 0"
  by (cases T) auto

lemma child_below:
  "crep m U \<Longrightarrow> distinct (cell_list U) \<Longrightarrow> a \<in> set (cell_list U) \<Longrightarrow> is_child m a b \<Longrightarrow>
   b \<in> set (cell_list U) \<and> cdepth U b = Suc (cdepth U a)"
proof (induction U)
  case (CLeaf c)
  then show ?case by (auto simp: is_child_def)
next
  case (CNode d n k v l r)
  have dis: "x \<notin> set (cell_list r)" "x \<noteq> d" if "x \<in> set (cell_list l)" for x
    using that CNode.prems(2) by auto
  have dis': "x \<noteq> d" if "x \<in> set (cell_list r)" for x
    using that CNode.prems(2) by auto
  consider "a = d" | "a \<in> set (cell_list l)" | "a \<in> set (cell_list r)" using CNode.prems(3) by auto
  then show ?case
  proof cases
    case 1
    then have "b = cell_of l \<or> b = cell_of r" using CNode.prems(1,4) by (auto simp: is_child_def)
    moreover have "cell_of r \<notin> set (cell_list l)" using dis [of "cell_of r"] by auto
    moreover have "cell_of l \<noteq> d" "cell_of r \<noteq> d" using dis [of "cell_of l"] dis' [of "cell_of r"] by auto
    ultimately show ?thesis using 1 by auto
  next
    case 2
    then have "b \<in> set (cell_list l) \<and> cdepth l b = Suc (cdepth l a)" using CNode by auto
    then show ?thesis using 2 dis [of a] dis [of b] by auto
  next
    case 3
    then have "b \<in> set (cell_list r) \<and> cdepth r b = Suc (cdepth r a)" using CNode by auto
    then show ?thesis using 3 dis [of a] dis [of b] dis' [of a] dis' [of b] by auto
  qed
qed

lemma parent_unique:
  "crep m U \<Longrightarrow> distinct (cell_list U) \<Longrightarrow> a \<in> set (cell_list U) \<Longrightarrow> a' \<in> set (cell_list U) \<Longrightarrow>
   is_child m a b \<Longrightarrow> is_child m a' b \<Longrightarrow> a = a'"
proof (induction U arbitrary: a a')
  case (CNode d n k v l r)
  have dis: "x \<notin> set (cell_list r)" if "x \<in> set (cell_list l)" for x
    using that CNode.prems(2) by auto
  have root: "b = cell_of l \<or> b = cell_of r" if "is_child m d b"
    using that CNode.prems(1) by (auto simp: is_child_def)
  have sub: "crep m l" "crep m r" "distinct (cell_list l)" "distinct (cell_list r)" using CNode.prems(1,2) by auto
  have inl: "b \<in> set (cell_list l) \<and> b \<noteq> cell_of l" if "x \<in> set (cell_list l)" "is_child m x b" for x
    using child_below [OF sub(1,3) that] by (metis cdepth_root nat.distinct(1))
  have inr: "b \<in> set (cell_list r) \<and> b \<noteq> cell_of r" if "x \<in> set (cell_list r)" "is_child m x b" for x
    using child_below [OF sub(2,4) that] by (metis cdepth_root nat.distinct(1))
  have top: False if "is_child m d b" "x \<in> set (cell_list l) \<union> set (cell_list r)" "is_child m x b" for x
    using root [OF that(1)] that(2,3) inl [of x] inr [of x] dis [of b] cell_of_in [of l] cell_of_in [of r] by auto
  have lr: False if "x \<in> set (cell_list l)" "y \<in> set (cell_list r)" "is_child m x b" "is_child m y b" for x y
    using inl [OF that(1,3)] inr [OF that(2,4)] dis by auto
  show ?case
    using CNode.prems(3-6) CNode.IH(1) [OF sub(1,3), of a a'] CNode.IH(2) [OF sub(2,4), of a a']
      top [of a] top [of a'] lr [of a a'] lr [of a' a] by auto
qed simp

lemma next_cell_child: "next_cell (view m) x a b \<Longrightarrow> is_child m a b"
  by (auto simp: next_cell_def is_child_def)

text \<open>A thread that waits for a cell below the root holds its parent.\<close>

lemma awaits_parent:
  "pc_ok T m pc \<Longrightarrow> awaits m pc = Some c \<Longrightarrow> (\<exists>c'. pc = HStart c') \<or> (\<exists>a\<in>held pc. is_child m a c)"
  by (cases pc) (auto simp: is_child_def dest: next_cell_child)

text \<open>The thread that holds the awaited lock, if it waits itself, waits for a deeper one.\<close>

lemma waits_deeper:
  assumes g: "good T m pcs h" and tu: "t \<noteq> u" and t: "awaits m (pcs t) = Some c" and u: "c \<in> held (pcs u)"
    and u': "awaits m (pcs u) = Some c'"
  shows "cdepth T c < cdepth T c'" "c' \<in> set (cell_list T)"
proof -
  have wf: "hwf m T" and lk: "locks_ok m pcs" and okt: "pc_ok T m (pcs t)" and oku: "pc_ok T m (pcs u)"
    using g by (simp_all add: good_def)
  have rep: "crep m T" "distinct (cell_list T)" and hr: "hroot m = cell_of T" using wf by (simp_all add: hwf_def)
  have inT: "a \<in> set (cell_list T)" if "a \<in> held (pcs w)" for a w
    using locks_ok_dom [OF lk that] wf by (auto simp: hwf_def)
  have "\<not> (\<exists>c''. pcs u = HStart c'')" using u by auto
  then obtain a where a: "a \<in> held (pcs u)" "is_child m a c'" using awaits_parent [OF oku u'] by blast
  note below = child_below [OF rep inT [OF a(1)] a(2)]
  then show "c' \<in> set (cell_list T)" by simp
  have "c = a \<or> is_child m a c"
    using u u' oku a parent_unique [OF rep] inT
    by (cases "pcs u") (auto simp: is_child_def dest: next_cell_child)
  then show "cdepth T c < cdepth T c'"
  proof
    assume "c = a"
    then show ?thesis using below by simp
  next
    assume ac: "is_child m a c"
    then have "cdepth T c \<noteq> 0" using child_below [OF rep inT [OF a(1)] ac] by simp
    then have "\<not> (\<exists>c'. pcs t = HStart c')" using t hr by auto
    then obtain b where b: "b \<in> held (pcs t)" "is_child m b c" using awaits_parent [OF okt t] by blast
    then have "a = b" using parent_unique [OF rep inT [OF a(1)] inT [OF b(1)] ac] by simp
    then show ?thesis using a(1) b(1) locks_disjoint [OF lk tu] by auto
  qed
qed

theorem some_thread_moves:
  assumes g: "good T m pcs h" and t: "pcs t \<noteq> HIdle"
  shows "\<exists>u res. pcs u \<noteq> HIdle \<and> hoh_turn u (pcs u) m = Go res"
proof (rule ccontr)
  assume stuck: "\<not> ?thesis"
  have wf: "hwf m T" and lk: "locks_ok m pcs" using g by (simp_all add: good_def)
  have blk: "hoh_turn u (pcs u) m = Blocked" if "pcs u \<noteq> HIdle" for u
    using stuck that hoh_turn_well [OF g, of u]
    by (cases "hoh_turn u (pcs u) m") (auto simp: steps_well_def)
  have more: "\<exists>w c'. pcs w \<noteq> HIdle \<and> awaits m (pcs w) = Some c' \<and> c' \<in> set (cell_list T) \<and> cdepth T c < cdepth T c'"
    if u: "pcs u \<noteq> HIdle" "awaits m (pcs u) = Some c" for u c
  proof -
    obtain cl w where cl: "hcells m c = Some cl" "hlock cl = LockedBy w"
      using blocked_awaits [OF u(1) blk [OF u(1)]] u(2) by auto
    then have hw: "c \<in> held (pcs w)" using locks_ok_iff [OF lk cl(1)] by simp
    then have nw: "pcs w \<noteq> HIdle" by auto
    obtain c' where c': "awaits m (pcs w) = Some c'" using blocked_awaits [OF nw blk [OF nw]] by auto
    have "u \<noteq> w"
    proof
      assume "u = w"
      then have "c \<in> held (pcs u)" using hw by simp
      moreover have "pc_ok T m (pcs u)" using g by (simp add: good_def)
      ultimately show False
        using u(2) next_cell_path(3) [OF wf] hwf_children [OF wf]
        by (cases "pcs u") (auto, metis+)
    qed
    from waits_deeper [OF g this u(2) hw c'] nw c' show ?thesis by blast
  qed
  have "\<exists>w c. pcs w \<noteq> HIdle \<and> awaits m (pcs w) = Some c \<and> c \<in> set (cell_list T) \<and> n \<le> cdepth T c" for n
  proof (induction n)
    case 0
    obtain c where "awaits m (pcs t) = Some c" using blocked_awaits [OF t blk [OF t]] by auto
    from more [OF t this] show ?case by auto
  next
    case (Suc n)
    then obtain w c where "pcs w \<noteq> HIdle" "awaits m (pcs w) = Some c" "n \<le> cdepth T c" by blast
    with more [of w c] show ?case by (meson Suc_leI order_le_less_trans)
  qed
  from this [of "Suc (length (cell_list T))"] cdepth_le show False by fastforce
qed

section \<open>Freeing the tree\<close>

lemma view_frame:
  assumes "vrep (view m) U" "d \<in> set (cell_list U)"
    and "hcells m' d = hcells m d" "\<And>n. n \<in> set (node_list U) \<Longrightarrow> hnodes m' n = hnodes m n"
  shows "view m' d = view m d"
proof (cases "hcells m d")
  case None
  with assms(3) show ?thesis by (simp add: view_def)
next
  case (Some cl)
  have "Option.bind (ht cl) (hnodes m') = Option.bind (ht cl) (hnodes m)"
  proof (cases "ht cl")
    case (Some n)
    with \<open>hcells m d = Some cl\<close> have "view m d = Some (Some n, hnodes m n)" by (simp add: view_def)
    from vrep_node_in [OF assms(1,2) this] assms(4) Some show ?thesis by simp
  qed simp
  with Some assms(3) show ?thesis by (simp add: view_def)
qed

lemma vrep_frame:
  "vrep (view m) U \<Longrightarrow> (\<And>d. d \<in> set (cell_list U) \<Longrightarrow> hcells m' d = hcells m d) \<Longrightarrow>
   (\<And>n. n \<in> set (node_list U) \<Longrightarrow> hnodes m' n = hnodes m n) \<Longrightarrow> vrep (view m') U"
  using vrep_cong [of U "view m'" "view m"] view_frame [of m U _ m'] by blast

lemma tree_free_hoh_frees:
  assumes "vrep (view m) T" "distinct (cell_list T)" "distinct (node_list T)"
    and "\<forall>c\<in>set (cell_list T). \<exists>cl. hcells m c = Some cl \<and> hlock cl = Unlocked"
  shows "tree_free_hoh t (cell_of T) m =
    Some (m\<lparr>hcells := hcells m |` (- set (cell_list T)), hnodes := hnodes m |` (- set (node_list T))\<rparr>)"
  using assms
proof (induction T arbitrary: m)
  case (CLeaf c)
  then obtain cl where cl: "hcells m c = Some cl" "hlock cl = Unlocked" "ht cl = None"
    by (auto simp: view_def)
  have "(hcells m)(c := None) = hcells m |` (- {c})" "hnodes m = hnodes m |` (- {})"
    by (auto simp: restrict_map_def fun_eq_iff)
  with cl show ?case
    by (subst tree_free_hoh.simps) (simp add: free_cell_def set_cell_def freelock2_def Let_def)
next
  case (CNode c n k v l r)
  then obtain cl where cl: "hcells m c = Some cl" "hlock cl = Unlocked" by auto
  from CNode.prems(1) cl have n: "ht cl = Some n"
      "hnodes m n = Some \<lparr>hkey = k, hval = v, hleft = cell_of l, hright = cell_of r\<rparr>"
    by (auto simp: view_def)
  let ?m1 = "set_cell m c (cl\<lparr>hlock := LockedBy t\<rparr>)"
  let ?m2 = "?m1\<lparr>hnodes := (hnodes m)(n := None)\<rparr>"
  let ?m3 = "?m2\<lparr>hcells := hcells ?m2 |` (- set (cell_list l)), hnodes := hnodes ?m2 |` (- set (node_list l))\<rparr>"
  let ?m4 = "?m3\<lparr>hcells := hcells ?m3 |` (- set (cell_list r)), hnodes := hnodes ?m3 |` (- set (node_list r))\<rparr>"
  have dis: "c \<notin> set (cell_list l)" "c \<notin> set (cell_list r)" "n \<notin> set (node_list l)" "n \<notin> set (node_list r)"
    "set (cell_list l) \<inter> set (cell_list r) = {}" "set (node_list l) \<inter> set (node_list r) = {}"
    using CNode.prems(2,3) by auto
  have l: "tree_free_hoh t (cell_of l) ?m2 = Some ?m3"
  proof (rule CNode.IH(1))
    show "vrep (view ?m2) l"
    proof (rule vrep_frame [of m])
      show "vrep (view m) l" using CNode.prems(1) by simp
      show "hcells ?m2 d = hcells m d" if "d \<in> set (cell_list l)" for d
        using that dis(1) by (auto simp: set_cell_def)
      show "hnodes ?m2 p = hnodes m p" if "p \<in> set (node_list l)" for p
        using that dis(3) by auto
    qed
    show "\<forall>d\<in>set (cell_list l). \<exists>dl. hcells ?m2 d = Some dl \<and> hlock dl = Unlocked"
      using CNode.prems(4) dis by (auto simp: set_cell_def)
  qed (use CNode.prems in simp_all)
  have r: "tree_free_hoh t (cell_of r) ?m3 = Some ?m4"
  proof (rule CNode.IH(2))
    show "vrep (view ?m3) r"
    proof (rule vrep_frame [of m])
      show "vrep (view m) r" using CNode.prems(1) by simp
      show "hcells ?m3 d = hcells m d" if "d \<in> set (cell_list r)" for d
        using that dis(2,5) by (auto simp: set_cell_def restrict_map_def)
      show "hnodes ?m3 p = hnodes m p" if "p \<in> set (node_list r)" for p
        using that dis(4,6) by (auto simp: set_cell_def restrict_map_def)
    qed
    show "\<forall>d\<in>set (cell_list r). \<exists>dl. hcells ?m3 d = Some dl \<and> hlock dl = Unlocked"
      using CNode.prems(4) dis by (auto simp: set_cell_def restrict_map_def disjoint_iff)
  qed (use CNode.prems in simp_all)
  have fr: "free_hnode n ?m1 = Some ?m2" using n by (simp add: free_hnode_def set_cell_def)
  let ?m5 = "?m4\<lparr>hcells := (hcells ?m4)(c := None)\<rparr>"
  have fc: "free_cell c ?m4 = Some ?m5" using dis by (simp add: free_cell_def set_cell_def freelock2_def)
  have "hcells ?m5 = hcells m |` (- set (cell_list (CNode c n k v l r)))"
      "hnodes ?m5 = hnodes m |` (- set (node_list (CNode c n k v l r)))"
    by (auto simp: set_cell_def restrict_map_def fun_eq_iff)
  then have "?m5 = m\<lparr>hcells := hcells m |` (- set (cell_list (CNode c n k v l r))),
      hnodes := hnodes m |` (- set (node_list (CNode c n k v l r)))\<rparr>"
    by (simp add: set_cell_def)
  moreover have "tree_free_hoh t (cell_of (CNode c n k v l r)) m = Some ?m5"
  proof -
    let ?nd = "\<lparr>hkey = k, hval = v, hleft = cell_of l, hright = cell_of r\<rparr>"
    have comp: "tree_free_hoh t c m = Some m5" if "hnodes ?m1 n = Some nd" "free_hnode n ?m1 = Some m2"
      "tree_free_hoh t (hleft nd) m2 = Some m3" "tree_free_hoh t (hright nd) m3 = Some m4" "free_cell c m4 = Some m5"
      for nd m2 m3 m4 m5
      by (subst tree_free_hoh.simps) (use that cl n(1) in \<open>simp add: Let_def\<close>)
    have hn: "hnodes ?m1 n = Some ?nd" using n(2) by (simp add: set_cell_def)
    have "tree_free_hoh t (hleft ?nd) ?m2 = Some ?m3" "tree_free_hoh t (hright ?nd) ?m3 = Some ?m4"
      using l r by (simp_all only: hnode.select_convs)
    from comp [OF hn fr this fc] show ?thesis by (simp only: cell_of.simps)
  qed
  ultimately show ?case by simp
qed

section \<open>Running a schedule\<close>

text \<open>One move of a given thread: a new call if it is idle, else its next step if it can take one.\<close>

definition hoh_act :: "hsys \<Rightarrow> tid \<times> call \<Rightarrow> hsys" where
  "hoh_act \<sigma> a = (case a of (t, c) \<Rightarrow>
     if h_pc \<sigma> t = HIdle then \<sigma>\<lparr>h_pc := (h_pc \<sigma>)(t := HStart c)\<rparr>
     else case hoh_turn t (h_pc \<sigma> t) (h_mem \<sigma>) of
       Go (m, pc, ev) \<Rightarrow> \<sigma>\<lparr>h_mem := m, h_pc := (h_pc \<sigma>)(t := pc), h_hist := h_hist \<sigma> @ settle t (call_of (h_pc \<sigma> t)) ev\<rparr>
     | _ \<Rightarrow> \<sigma>)"

lemma hoh_act_reach: "hoh_step\<^sup>*\<^sup>* \<sigma> (foldl hoh_act \<sigma> as)"
proof (induction as arbitrary: \<sigma>)
  case (Cons a as)
  have "hoh_step\<^sup>*\<^sup>* \<sigma> (hoh_act \<sigma> a)"
    by (cases a; cases "hoh_turn (fst a) (h_pc \<sigma> (fst a)) (h_mem \<sigma>)")
       (auto simp: hoh_act_def intro: hoh_step.intros r_into_rtranclp)
  with Cons show ?case by (simp add: rtranclp_trans)
qed simp

end
