(* ===== verification/Conc_Nb.thy ===== *)
theory Conc_Nb
  imports Conc_Cells
begin

text \<open>
  The lock-free binary search tree without deletion, \<^verbatim>\<open>src/concurrency/bst_conc_nblocking.c\<close>. All
  shared pointers are \<^verbatim>\<open>atom_ptr\<close>s, kept in one store; a node owns three of them, for its value and
  its two children. A step of a thread does one atomic access. Insertion allocates a node privately
  and publishes it by a compare-and-swap on the empty child pointer where its search ended; the
  expected value is kept in \<^verbatim>\<open>*ref\<close>, which a failed compare-and-swap overwrites and the next
  attempt uses as it is.
\<close>

section \<open>Memory\<close>

record nnode =
  nkey :: int
  nvalue :: addr
  nleft :: addr
  nright :: addr

record nmem =
  natoms :: "addr \<Rightarrow> cptr option"
  nnodes :: "addr \<Rightarrow> nnode option"
  nnext :: addr
  nroot :: addr

definition load_nb :: "nmem \<Rightarrow> addr \<Rightarrow> cptr option" where
  "load_nb m a = map_option atomic_load_ptr (natoms m a)"

definition store_nb :: "nmem \<Rightarrow> addr \<Rightarrow> cptr \<Rightarrow> nmem option" where
  "store_nb m a v = (case natoms m a of None \<Rightarrow> None
     | Some w \<Rightarrow> Some (m\<lparr>natoms := (natoms m)(a \<mapsto> atomic_store_ptr w v)\<rparr>))"

definition treebox_new_nb :: nmem where
  "treebox_new_nb = \<lparr>natoms = [0 \<mapsto> make_atomic_ptr None], nnodes = Map.empty, nnext = 1, nroot = 0\<rparr>"

partial_function (option) treebox_free_nb :: "addr \<Rightarrow> nmem \<Rightarrow> nmem option" where
  "treebox_free_nb at m = do {
     t \<leftarrow> load_nb m at;
     m \<leftarrow> (case t of None \<Rightarrow> Some m | Some n \<Rightarrow> do {
       nd \<leftarrow> nnodes m n;
       m \<leftarrow> treebox_free_nb (nright nd) m;
       m \<leftarrow> treebox_free_nb (nleft nd) m;
       _ \<leftarrow> natoms m (nvalue nd);
       Some (m\<lparr>natoms := (natoms m)(nvalue nd := None), nnodes := (nnodes m)(n := None)\<rparr>) });
     _ \<leftarrow> natoms m at;
     Some (m\<lparr>natoms := (natoms m)(at := None)\<rparr>) }"

section \<open>Program points\<close>

datatype npc =
    NIdle
  | NStart call
  | NLoad int cptr addr cptr
  | NCas int cptr addr cptr addr
  | NStore int cptr addr
  | LAt int addr
  | LVal int addr
  | NDone call cptr

type_synonym nstep = "(nmem \<times> npc \<times> cptr option) outcome"

text \<open>The node \<^verbatim>\<open>p\<close> with its three atoms, before it is published.\<close>

definition new_node_nb :: "int \<Rightarrow> cptr \<Rightarrow> nmem \<Rightarrow> nmem \<times> addr" where
  "new_node_nb x v m = (let p = nnext m; val = nnext m + 1; left = nnext m + 2; right = nnext m + 3 in
     (m\<lparr>nnext := nnext m + 4,
        natoms := (natoms m)(val \<mapsto> make_atomic_ptr v, left \<mapsto> make_atomic_ptr None, right \<mapsto> make_atomic_ptr None),
        nnodes := (nnodes m)(p \<mapsto> \<lparr>nkey = x, nvalue = val, nleft = left, nright = right\<rparr>)\<rparr>, p))"

definition free_node_nb :: "addr \<Rightarrow> nmem \<Rightarrow> nmem option" where
  "free_node_nb p m = (case nnodes m p of None \<Rightarrow> None
     | Some nd \<Rightarrow> Some (m\<lparr>natoms := (natoms m)(nvalue nd := None, nleft nd := None, nright nd := None),
         nnodes := (nnodes m)(p := None)\<rparr>))"

definition insert_nb :: "int \<Rightarrow> cptr \<Rightarrow> npc \<Rightarrow> nmem \<Rightarrow> nstep" where
  "insert_nb x v pc m = (case pc of
     NStart c \<Rightarrow> Go (m, NLoad x v (nroot m) None, None)
   | NLoad x v temp ref \<Rightarrow> need (load_nb m temp) (\<lambda>tp. case tp of
       None \<Rightarrow> (case new_node_nb x v m of (m, p) \<Rightarrow> Go (m, NCas x v temp ref p, None))
     | Some n \<Rightarrow> need (nnodes m n) (\<lambda>nd.
         let y = nkey nd in
         if x < y then Go (m, NLoad x v (nleft nd) ref, None)
         else if y < x then Go (m, NLoad x v (nright nd) ref, None)
         else Go (m, NStore x v (nvalue nd), None)))
   | NCas x v temp ref p \<Rightarrow> need (natoms m temp) (\<lambda>cur.
       case atomic_CAS_ptr cur ref (Some p) of (result, cur', ref') \<Rightarrow>
         let m = m\<lparr>natoms := (natoms m)(temp \<mapsto> cur')\<rparr> in
         if \<not> result then need (free_node_nb p m) (\<lambda>m. Go (m, NLoad x v temp ref', None))
         else Go (m, NDone (CInsert x v) None, Some None))
   | NStore x v val \<Rightarrow> need (store_nb m val v) (\<lambda>m. Go (m, NDone (CInsert x v) None, Some None))
   | NDone c r \<Rightarrow> Go (m, NIdle, None)
   | _ \<Rightarrow> Fault)"

definition lookup_nb :: "int \<Rightarrow> npc \<Rightarrow> nmem \<Rightarrow> nstep" where
  "lookup_nb x pc m = (case pc of
     NStart c \<Rightarrow> Go (m, LAt x (nroot m), None)
   | LAt x ap \<Rightarrow> need (load_nb m ap) (\<lambda>p. case p of
       None \<Rightarrow> Go (m, NDone (CLookup x) None, Some None)
     | Some n \<Rightarrow> need (nnodes m n) (\<lambda>nd.
         let y = nkey nd in
         if x < y then Go (m, LAt x (nleft nd), None)
         else if y < x then Go (m, LAt x (nright nd), None)
         else Go (m, LVal x (nvalue nd), None)))
   | LVal x val \<Rightarrow> need (load_nb m val) (\<lambda>v. Go (m, NDone (CLookup x) v, Some v))
   | NDone c r \<Rightarrow> Go (m, NIdle, None)
   | _ \<Rightarrow> Fault)"

fun ncall :: "npc \<Rightarrow> call option" where
  "ncall NIdle = None"
| "ncall (NStart c) = Some c"
| "ncall (NLoad x v a r) = Some (CInsert x v)"
| "ncall (NCas x v a r p) = Some (CInsert x v)"
| "ncall (NStore x v a) = Some (CInsert x v)"
| "ncall (LAt x a) = Some (CLookup x)"
| "ncall (LVal x a) = Some (CLookup x)"
| "ncall (NDone c r) = Some c"

text \<open>The program has no deletion.\<close>

definition nb_turn :: "npc \<Rightarrow> nmem \<Rightarrow> nstep" where
  "nb_turn pc m = (case ncall pc of
     None \<Rightarrow> Blocked
   | Some (CInsert x v) \<Rightarrow> insert_nb x v pc m
   | Some (CLookup x) \<Rightarrow> lookup_nb x pc m
   | Some (CDelete x) \<Rightarrow> Fault)"

record nsys =
  n_mem :: nmem
  n_pc :: "tid \<Rightarrow> npc"
  n_hist :: "(tid \<times> call \<times> cptr) list"

inductive nb_step :: "nsys \<Rightarrow> nsys \<Rightarrow> bool" where
  nb_invoke: "n_pc \<sigma> t = NIdle \<Longrightarrow> (\<And>x. c \<noteq> CDelete x) \<Longrightarrow> nb_step \<sigma> (\<sigma>\<lparr>n_pc := (n_pc \<sigma>)(t := NStart c)\<rparr>)"
| nb_go: "nb_turn (n_pc \<sigma> t) (n_mem \<sigma>) = Go (m, pc, ev) \<Longrightarrow>
     nb_step \<sigma> (\<sigma>\<lparr>n_mem := m, n_pc := (n_pc \<sigma>)(t := pc), n_hist := n_hist \<sigma> @ settle t (ncall (n_pc \<sigma> t)) ev\<rparr>)"

definition nb_start :: nsys where
  "nb_start = \<lparr>n_mem = treebox_new_nb, n_pc = (\<lambda>_. NIdle), n_hist = []\<rparr>"

end
