(* ===== verification/Conc_NbLin.thy ===== *)
theory Conc_NbLin
  imports Conc_Nb
begin

text \<open>
  Linearisability of the lock-free tree. Nodes are only ever added, so a thread's place on the search
  path of its key stays valid; a compare-and-swap succeeds only on an empty child pointer, also when
  \<^verbatim>\<open>*ref\<close> still holds the pointer an earlier attempt saw, because that pointer sits in another cell.
\<close>

section \<open>The invariant\<close>

definition nview :: "nmem \<Rightarrow> cview" where
  "nview m a = map_option (\<lambda>p. (p, Option.bind p (\<lambda>n. Option.bind (nnodes m n) (\<lambda>nd.
     map_option (\<lambda>v. \<lparr>hkey = nkey nd, hval = v, hleft = nleft nd, hright = nright nd\<rparr>) (natoms m (nvalue nd)))))) (natoms m a)"

definition owns :: "nnode \<Rightarrow> addr set" where
  "owns nd = {nvalue nd, nleft nd, nright nd}"

definition nwf :: "nmem \<Rightarrow> ctree \<Rightarrow> bool" where
  "nwf m T \<longleftrightarrow> cwf (nview m) T \<and> cell_of T = nroot m \<and>
     (\<forall>a\<in>dom (natoms m) \<union> dom (nnodes m). a < nnext m) \<and>
     (\<forall>n nd. nnodes m n = Some nd \<longrightarrow> distinct [nvalue nd, nleft nd, nright nd] \<and>
        owns nd \<subseteq> dom (natoms m) \<and> nroot m \<notin> owns nd) \<and>
     (\<forall>n n' nd nd'. nnodes m n = Some nd \<longrightarrow> nnodes m n' = Some nd' \<longrightarrow> n \<noteq> n' \<longrightarrow> owns nd \<inter> owns nd' = {})"

fun priv :: "npc \<Rightarrow> addr set" where
  "priv (NCas x v a r p) = {p}"
| "priv _ = {}"

text \<open>A stale expected value is the content of a cell of the tree.\<close>

definition stale :: "ctree \<Rightarrow> nmem \<Rightarrow> cptr \<Rightarrow> addr set \<Rightarrow> bool" where
  "stale T m ref A \<longleftrightarrow> (\<forall>q. ref = Some q \<longrightarrow> (\<exists>a\<in>set (cell_list T) - A. natoms m a = Some (Some q)))"

definition value_of :: "ctree \<Rightarrow> nmem \<Rightarrow> int \<Rightarrow> addr \<Rightarrow> bool" where
  "value_of T m x val \<longleftrightarrow> (\<exists>n nd. n \<in> set (node_list T) \<and> nnodes m n = Some nd \<and> nkey nd = x \<and> nvalue nd = val)"

fun nok :: "ctree \<Rightarrow> nmem \<Rightarrow> npc \<Rightarrow> bool" where
  "nok T m (NStart c) \<longleftrightarrow> (\<forall>x. c \<noteq> CDelete x)"
| "nok T m (NLoad x v a ref) \<longleftrightarrow> a \<in> cpath T x \<and> stale T m ref {}"
| "nok T m (NCas x v a ref p) \<longleftrightarrow> a \<in> cpath T x \<and> stale T m ref {a} \<and> p \<notin> set (node_list T) \<and>
     (\<exists>nd. nnodes m p = Some nd \<and> nkey nd = x \<and> natoms m (nvalue nd) = Some v \<and>
        natoms m (nleft nd) = Some None \<and> natoms m (nright nd) = Some None)"
| "nok T m (NStore x v val) \<longleftrightarrow> value_of T m x val"
| "nok T m (LAt x a) \<longleftrightarrow> a \<in> cpath T x"
| "nok T m (LVal x val) \<longleftrightarrow> value_of T m x val"
| "nok T m (NDone c r) \<longleftrightarrow> (\<forall>x. c \<noteq> CDelete x)"
| "nok T m NIdle \<longleftrightarrow> True"

definition nsettled :: "(tid \<Rightarrow> npc) \<Rightarrow> (tid \<times> call \<times> cptr) list \<Rightarrow> bool" where
  "nsettled pcs h \<longleftrightarrow> (\<forall>t c r. pcs t = NDone c r \<longrightarrow>
     (\<exists>h1 h2. h = h1 @ (t, c, r) # h2 \<and> t \<notin> fst ` set h2))"

definition ngood :: "ctree \<Rightarrow> nmem \<Rightarrow> (tid \<Rightarrow> npc) \<Rightarrow> (tid \<times> call \<times> cptr) list \<Rightarrow> bool" where
  "ngood T m pcs h \<longleftrightarrow> nwf m T \<and> (\<forall>t. nok T m (pcs t)) \<and>
     (\<forall>t u. t \<noteq> u \<longrightarrow> priv (pcs t) \<inter> priv (pcs u) = {}) \<and>
     replay h [] = Some (cpairs T) \<and> nsettled pcs h"

lemma nview_atom: "nview m a = Some (p, x) \<Longrightarrow> natoms m a = Some p"
  by (auto simp: nview_def)

lemma vrep_cell_owner:
  "vrep (nview m) T \<Longrightarrow> c \<in> set (cell_list T) \<Longrightarrow>
   c = cell_of T \<or> (\<exists>n\<in>set (node_list T). \<exists>nd. nnodes m n = Some nd \<and> c \<in> {nleft nd, nright nd})"
proof (induction T)
  case (CNode d n k v l r)
  then obtain nd where nd: "nnodes m n = Some nd" "nleft nd = cell_of l" "nright nd = cell_of r"
    by (auto simp: nview_def bind_eq_Some_conv)
  from CNode nd show ?case by auto
qed simp

lemma vrep_node:
  "vrep (nview m) T \<Longrightarrow> n \<in> set (node_list T) \<Longrightarrow> \<exists>nd. nnodes m n = Some nd"
  by (induction T) (auto simp: nview_def bind_eq_Some_conv)

lemma vrep_cell: "vrep (nview m) T \<Longrightarrow> c \<in> set (cell_list T) \<Longrightarrow> \<exists>p x. nview m c = Some (p, x)"
  by (induction T) auto

text \<open>The atoms of a node that is not in the tree, and the value atoms of all nodes, are no cells of it.\<close>

lemma nwf_not_cell:
  assumes wf: "nwf m T" and n: "nnodes m n = Some nd" and a: "a \<in> owns nd" "a = nvalue nd \<or> n \<notin> set (node_list T)"
  shows "a \<notin> set (cell_list T)"
proof
  assume "a \<in> set (cell_list T)"
  moreover have "vrep (nview m) T" "a \<noteq> cell_of T" using wf n a(1) by (auto simp: nwf_def cwf_def)
  ultimately obtain n' nd' where n': "n' \<in> set (node_list T)" "nnodes m n' = Some nd'" "a \<in> {nleft nd', nright nd'}"
    using vrep_cell_owner by metis
  show False
  proof (cases "n = n'")
    case True
    have "distinct [nvalue nd, nleft nd, nright nd]" using wf n by (auto simp: nwf_def)
    then show ?thesis using True n n' a(2) by auto
  next
    case False
    then have "owns nd \<inter> owns nd' = {}" using wf n n'(2) unfolding nwf_def by blast
    then show ?thesis using a(1) n'(3) by (auto simp: owns_def)
  qed
qed

text \<open>Changing the memory away from what a cell shows leaves its view alone.\<close>

lemma nview_frame:
  assumes rep: "vrep (nview m) T" and a: "a \<in> set (cell_list T)" and at: "natoms m' a = natoms m a"
    and nd: "\<And>n nd. n \<in> set (node_list T) \<Longrightarrow> nnodes m n = Some nd \<Longrightarrow>
       nnodes m' n = Some nd \<and> natoms m' (nvalue nd) = natoms m (nvalue nd)"
  shows "nview m' a = nview m a"
proof -
  obtain p x where px: "nview m a = Some (p, x)" using vrep_cell [OF rep a] by blast
  show ?thesis
  proof (cases p)
    case None
    then show ?thesis using nview_atom [OF px] at by (simp add: nview_def)
  next
    case (Some n)
    then have "n \<in> set (node_list T)" using vrep_node_in [OF rep a] px by blast
    with vrep_node [OF rep this] nd show ?thesis
      using Some nview_atom [OF px] at by (auto simp: nview_def)
  qed
qed

section \<open>Frames\<close>

lemma stale_frame:
  "stale T m ref A \<Longrightarrow> set (cell_list T) \<subseteq> set (cell_list T') \<Longrightarrow>
   (\<And>a q. a \<in> set (cell_list T) \<Longrightarrow> natoms m a = Some (Some q) \<Longrightarrow> natoms m' a = Some (Some q)) \<Longrightarrow> stale T' m' ref A"
  unfolding stale_def by blast

lemma value_of_frame:
  "value_of T m x val \<Longrightarrow> set (node_list T) \<subseteq> set (node_list T') \<Longrightarrow>
   (\<And>n nd. n \<in> set (node_list T) \<Longrightarrow> nnodes m n = Some nd \<Longrightarrow> nnodes m' n = Some nd) \<Longrightarrow> value_of T' m' x val"
  unfolding value_of_def by blast

lemma nok_frame:
  assumes "nok T m pc"
    and "\<And>x. cpath T x \<subseteq> cpath T' x" "set (cell_list T) \<subseteq> set (cell_list T')" "set (node_list T) \<subseteq> set (node_list T')"
    and "\<And>p. p \<in> priv pc \<Longrightarrow> p \<notin> set (node_list T) \<Longrightarrow> p \<notin> set (node_list T')"
    and "\<And>a q. a \<in> set (cell_list T) \<Longrightarrow> natoms m a = Some (Some q) \<Longrightarrow> natoms m' a = Some (Some q)"
    and "\<And>n nd. n \<in> set (node_list T) \<Longrightarrow> nnodes m n = Some nd \<Longrightarrow> nnodes m' n = Some nd"
    and "\<And>p nd a. p \<in> priv pc \<Longrightarrow> p \<notin> set (node_list T) \<Longrightarrow> nnodes m p = Some nd \<Longrightarrow>
       nnodes m' p = Some nd \<and> (a \<in> owns nd \<longrightarrow> natoms m' a = natoms m a)"
  shows "nok T' m' pc"
proof -
  have path: "a \<in> cpath T' x" if "a \<in> cpath T x" for a x using assms(2) that by blast
  have st: "stale T' m' ref A" if "stale T m ref A" for ref A
    by (rule stale_frame [OF that assms(3)]) (rule assms(6))
  have vo: "value_of T' m' x val" if "value_of T m x val" for x val
    by (rule value_of_frame [OF that assms(4)]) (rule assms(7))
  show ?thesis
  proof (cases pc)
    case (NCas x v a ref p)
    with assms(1) obtain nd where nd: "nnodes m p = Some nd" "nkey nd = x" "natoms m (nvalue nd) = Some v"
      "natoms m (nleft nd) = Some None" "natoms m (nright nd) = Some None" and p: "p \<notin> set (node_list T)"
      and a: "a \<in> cpath T x" "stale T m ref {a}" by auto
    have pp: "p \<in> priv pc" using NCas by simp
    have "natoms m' (nvalue nd) = Some v" "natoms m' (nleft nd) = Some None" "natoms m' (nright nd) = Some None"
      using assms(8) [OF pp p nd(1)] nd by (auto simp: owns_def)
    then show ?thesis
      using NCas assms(8) [OF pp p nd(1)] nd(2) path [OF a(1)] st [OF a(2)] assms(5) [OF pp p] by auto
  qed (use assms(1) path st vo in auto)
qed

lemma ngood_change:
  assumes g: "ngood T m pcs h" and wf: "nwf m' T'"
    and grow: "\<And>x. cpath T x \<subseteq> cpath T' x" "set (cell_list T) \<subseteq> set (cell_list T')" "set (node_list T) \<subseteq> set (node_list T')"
    and others: "\<And>u p. u \<noteq> t \<Longrightarrow> p \<in> priv (pcs u) \<Longrightarrow> p \<notin> set (node_list T) \<Longrightarrow> p \<notin> set (node_list T')"
    and keep: "\<And>a q. a \<in> set (cell_list T) \<Longrightarrow> natoms m a = Some (Some q) \<Longrightarrow> natoms m' a = Some (Some q)"
      "\<And>n nd. n \<in> set (node_list T) \<Longrightarrow> nnodes m n = Some nd \<Longrightarrow> nnodes m' n = Some nd"
    and privs: "\<And>u p nd a. u \<noteq> t \<Longrightarrow> p \<in> priv (pcs u) \<Longrightarrow> p \<notin> set (node_list T) \<Longrightarrow> nnodes m p = Some nd \<Longrightarrow>
       nnodes m' p = Some nd \<and> (a \<in> owns nd \<longrightarrow> natoms m' a = natoms m a)"
    and me: "nok T' m' pc" "\<And>u. u \<noteq> t \<Longrightarrow> priv pc \<inter> priv (pcs u) = {}"
    and hist: "replay h' [] = Some (cpairs T')" "nsettled (pcs(t := pc)) h'"
  shows "ngood T' m' (pcs(t := pc)) h'"
proof -
  have "nok T' m' ((pcs(t := pc)) u)" for u
  proof (cases "u = t")
    case False
    have "nok T' m' (pcs u)"
    proof (rule nok_frame [OF _ grow others [OF False] keep privs [OF False]])
      show "nok T m (pcs u)" using g by (simp add: ngood_def)
    qed
    with False show ?thesis by simp
  qed (simp add: me)
  moreover have "priv ((pcs(t := pc)) u) \<inter> priv ((pcs(t := pc)) w) = {}" if "u \<noteq> w" for u w
    using me(2) g that by (auto simp: ngood_def)
  ultimately show ?thesis using wf hist by (simp add: ngood_def)
qed

lemma nsettled_other: "nsettled pcs h \<Longrightarrow> (\<And>c r. pc \<noteq> NDone c r) \<Longrightarrow> nsettled (pcs(t := pc)) h"
  by (simp add: nsettled_def)

lemma nsettled_new: "nsettled pcs h \<Longrightarrow> nsettled (pcs(t := NDone c r)) (h @ [(t, c, r)])"
proof -
  assume s: "nsettled pcs h"
  have "\<exists>h1 h2. h @ [(t, c, r)] = h1 @ (u, c', r') # h2 \<and> u \<notin> fst ` set h2"
    if "(pcs(t := NDone c r)) u = NDone c' r'" for u c' r'
  proof (cases "u = t")
    case True
    with that show ?thesis by (intro exI [of _ h] exI [of _ "[]"]) simp
  next
    case False
    with that s obtain h1 h2 where "h = h1 @ (u, c', r') # h2" "u \<notin> fst ` set h2"
      unfolding nsettled_def by (metis fun_upd_apply)
    with False show ?thesis by (intro exI [of _ h1] exI [of _ "h2 @ [(t, c, r)]"]) simp
  qed
  then show ?thesis by (auto simp: nsettled_def)
qed

text \<open>Steps that leave the memory alone.\<close>

lemma ngood_move:
  assumes "ngood T m pcs h" "nok T m pc" "priv pc = {}" "\<And>c r. pc \<noteq> NDone c r"
  shows "ngood T m (pcs(t := pc)) h"
  using assms nsettled_other [of pcs h pc t]
  by (intro ngood_change [of T m pcs h m T]) (auto simp: ngood_def)

lemma ngood_settle:
  assumes "ngood T m pcs h" "spec_op c (cpairs T) = (cpairs T, r)" "\<forall>x. c \<noteq> CDelete x"
  shows "ngood T m (pcs(t := NDone c r)) (h @ [(t, c, r)])"
  using assms nsettled_new [of pcs h t c r]
  by (intro ngood_change [of T m pcs h m T]) (auto simp: ngood_def replay_append)

section \<open>Allocating and freeing a private node\<close>

lemma nwf_rep: "nwf m T \<Longrightarrow> vrep (nview m) T"
  by (simp add: nwf_def cwf_def)

lemma cwf_cong: "(\<And>c. c \<in> set (cell_list T) \<Longrightarrow> m' c = m c) \<Longrightarrow> cwf m T \<Longrightarrow> cwf m' T"
  using vrep_cong [of T m' m] by (simp add: cwf_def)

lemma nwf_cell_bound: "nwf m T \<Longrightarrow> a \<in> set (cell_list T) \<Longrightarrow> a \<in> dom (natoms m) \<and> a < nnext m"
  using vrep_cell [OF nwf_rep, of m T a] nview_atom [of m a] unfolding nwf_def by blast

lemma nwf_node_bound: "nwf m T \<Longrightarrow> n \<in> set (node_list T) \<Longrightarrow> n \<in> dom (nnodes m) \<and> n < nnext m"
  using vrep_node [OF nwf_rep, of m T n] unfolding nwf_def by blast

lemma ngood_new_node:
  assumes g: "ngood T m pcs h" and a: "a \<in> cpath T x" "natoms m a = Some None" and st: "stale T m ref {}"
    and new: "new_node_nb x v m = (m', p)"
  shows "ngood T m' (pcs(t := NCas x v a ref p)) h"
proof -
  have wf: "nwf m T" using g by (simp add: ngood_def)
  let ?k = "nnext m"
  have p: "p = ?k" and at: "natoms m' = (natoms m)(Suc ?k \<mapsto> v, Suc (Suc ?k) \<mapsto> None, Suc (Suc (Suc ?k)) \<mapsto> None)"
    and nd: "nnodes m' = (nnodes m)(?k \<mapsto> \<lparr>nkey = x, nvalue = Suc ?k, nleft = Suc (Suc ?k), nright = Suc (Suc (Suc ?k))\<rparr>)"
    and nx: "nnext m' = Suc (Suc (Suc (Suc ?k)))" "nroot m' = nroot m"
    using new by (auto simp: new_node_nb_def Let_def make_atomic_ptr_def numeral_eq_Suc)
  have bound: "b < ?k" if "b \<in> dom (natoms m) \<union> dom (nnodes m)" for b using wf that by (simp add: nwf_def)
  have old: "natoms m' b = natoms m b" "nnodes m' b = nnodes m b" if "b < ?k" for b
    using that by (auto simp: at nd)
  have own: "owns nd' \<subseteq> dom (natoms m)" if "nnodes m n = Some nd'" for n nd' using wf that unfolding nwf_def by blast
  have vw: "nview m' c = nview m c" if c: "c \<in> set (cell_list T)" for c
  proof (rule nview_frame [OF nwf_rep [OF wf] c])
    show "natoms m' c = natoms m c" using old nwf_cell_bound [OF wf c] by blast
    show "nnodes m' n = Some nd' \<and> natoms m' (nvalue nd') = natoms m (nvalue nd')"
      if "n \<in> set (node_list T)" "nnodes m n = Some nd'" for n nd'
    proof -
      have "nvalue nd' \<in> dom (natoms m)" using own [OF that(2)] by (auto simp: owns_def)
      then have "natoms m' (nvalue nd') = natoms m (nvalue nd')" by (intro old(1) bound) simp
      moreover have "nnodes m' n = nnodes m n" using that(2) by (intro old(2) bound) auto
      ultimately show ?thesis using that(2) by simp
    qed
  qed
  have wf': "nwf m' T"
    unfolding nwf_def
  proof (intro conjI allI impI ballI)
    show "cwf (nview m') T" using cwf_cong [of T "nview m'" "nview m"] vw wf by (simp add: nwf_def)
    show "cell_of T = nroot m'" using wf nx by (simp add: nwf_def)
    show "b < nnext m'" if "b \<in> dom (natoms m') \<union> dom (nnodes m')" for b
      using that bound [of b] by (auto simp: at nd nx less_Suc_eq split: if_splits)
    fix n nd'
    assume n: "nnodes m' n = Some nd'"
    have root: "nroot m < ?k" using nwf_cell_bound [OF wf, of "nroot m"] wf cell_of_in [of T] by (simp add: nwf_def)
    show "distinct [nvalue nd', nleft nd', nright nd']"
      using n wf by (cases "n = ?k") (auto simp: nd nwf_def)
    show "owns nd' \<subseteq> dom (natoms m')"
      using n own [of n nd'] by (cases "n = ?k") (auto simp: nd at owns_def)
    show "nroot m' \<notin> owns nd'"
      using n root wf nx by (cases "n = ?k") (auto simp: nd owns_def nwf_def)
    fix n' nd''
    assume n': "nnodes m' n' = Some nd''" "n \<noteq> n'"
    have far: "owns e \<inter> {Suc ?k, Suc (Suc ?k), Suc (Suc (Suc ?k))} = {}" if "nnodes m b = Some e" for b e
      using own [OF that] bound by (auto simp: disjoint_iff) fastforce+
    show "owns nd' \<inter> owns nd'' = {}"
      using n n' far [of n nd'] far [of n' nd''] wf
      by (cases "n = ?k"; cases "n' = ?k") (auto simp: nd owns_def nwf_def)
  qed
  show ?thesis
  proof (rule ngood_change [OF g wf'])
    show "natoms m' b = Some (Some q)" if "b \<in> set (cell_list T)" "natoms m b = Some (Some q)" for b q
      using old(1) [of b] nwf_cell_bound [OF wf that(1)] that(2) by simp
    show "nnodes m' n = Some nd'" if "n \<in> set (node_list T)" "nnodes m n = Some nd'" for n nd'
      using old(2) [of n] nwf_node_bound [OF wf that(1)] that(2) by simp
    show "nnodes m' q = Some e \<and> (b \<in> owns e \<longrightarrow> natoms m' b = natoms m b)"
      if "q \<in> priv (pcs u)" "nnodes m q = Some e" for u q e b
      using old(2) [of q] old(1) [of b] bound [of q] bound [of b] own [OF that(2)] that(2) by auto
    have ac: "a \<in> set (cell_list T)" using a(1) cpath_cells by blast
    have "stale T m' ref {a}"
      using st a(2) old(1) nwf_cell_bound [OF wf] unfolding stale_def by (metis Diff_iff empty_iff option.inject option.distinct(1) singletonD)
    moreover have "p \<notin> set (node_list T)" using nwf_node_bound [OF wf] p by auto
    ultimately show "nok T m' (NCas x v a ref p)" using a(1) by (simp add: p nd at)
    show "priv (NCas x v a ref p) \<inter> priv (pcs u) = {}" for u
    proof -
      have "q < ?k" if "q \<in> priv (pcs u)" for q
      proof -
        have "nok T m (pcs u)" using g by (simp add: ngood_def)
        with that have "nnodes m q \<noteq> None" by (cases "pcs u") auto
        then show ?thesis by (intro bound) auto
      qed
      then show ?thesis by (auto simp: p)
    qed
    show "replay h [] = Some (cpairs T)" "nsettled (pcs(t := NCas x v a ref p)) h"
      using g by (simp_all add: ngood_def nsettled_def)
  qed auto
qed

text \<open>After a failed compare-and-swap the private node is freed.\<close>

lemma ngood_free_node:
  assumes g: "ngood T m pcs h" and pc: "pcs t = NCas x v a ref p" and a: "natoms m a = Some cur"
    and fr: "free_node_nb p m = Some m'"
  shows "ngood T m' (pcs(t := NLoad x v a cur)) h"
proof -
  have wf: "nwf m T" using g by (simp add: ngood_def)
  have okp: "nok T m (NCas x v a ref p)" using g pc unfolding ngood_def by metis
  obtain nd where nd: "nnodes m p = Some nd" and p: "p \<notin> set (node_list T)" and ap: "a \<in> cpath T x"
    using okp by auto
  have m': "natoms m' = (natoms m)(nvalue nd := None, nleft nd := None, nright nd := None)"
    "nnodes m' = (nnodes m)(p := None)" "nnext m' = nnext m" "nroot m' = nroot m"
    using fr nd by (auto simp: free_node_nb_def)
  have at: "natoms m' b = natoms m b" if "b \<notin> owns nd" for b using that by (auto simp: m' owns_def)
  have own: "owns nd' \<inter> owns nd = {}" if "nnodes m n = Some nd'" "n \<noteq> p" for n nd'
    using wf nd that unfolding nwf_def by blast
  have cell: "b \<notin> owns nd" if "b \<in> set (cell_list T)" for b using nwf_not_cell [OF wf nd] p that by blast
  have vw: "nview m' c = nview m c" if c: "c \<in> set (cell_list T)" for c
  proof (rule nview_frame [OF nwf_rep [OF wf] c])
    show "natoms m' c = natoms m c" using at cell c by blast
    show "nnodes m' n = Some nd' \<and> natoms m' (nvalue nd') = natoms m (nvalue nd')"
      if "n \<in> set (node_list T)" "nnodes m n = Some nd'" for n nd'
    proof -
      have np: "n \<noteq> p" using that(1) p by blast
      then have "nvalue nd' \<notin> owns nd" using own [OF that(2)] by (auto simp: owns_def)
      then show ?thesis using at np that(2) by (simp add: m'(2))
    qed
  qed
  have wf': "nwf m' T"
    unfolding nwf_def
  proof (intro conjI allI impI ballI)
    show "cwf (nview m') T" using cwf_cong [of T "nview m'" "nview m"] vw wf by (simp add: nwf_def)
    show "cell_of T = nroot m'" using wf m' by (simp add: nwf_def)
    show "b < nnext m'" if "b \<in> dom (natoms m') \<union> dom (nnodes m')" for b
      using that wf by (auto simp: m' nwf_def split: if_splits)
    fix n nd'
    assume "nnodes m' n = Some nd'"
    then have n: "nnodes m n = Some nd'" "n \<noteq> p" by (auto simp: m' split: if_splits)
    show "distinct [nvalue nd', nleft nd', nright nd']" "nroot m' \<notin> owns nd'"
      using wf n m'(4) by (simp_all add: nwf_def)
    show "owns nd' \<subseteq> dom (natoms m')"
    proof
      fix b
      assume b: "b \<in> owns nd'"
      then have "natoms m' b = natoms m b" using own [OF n] by (intro at) blast
      moreover have "b \<in> dom (natoms m)" using b wf n(1) unfolding nwf_def by blast
      ultimately show "b \<in> dom (natoms m')" by (simp add: domIff)
    qed
    fix n' nd''
    assume n': "nnodes m' n' = Some nd''" "n \<noteq> n'"
    then have "nnodes m n' = Some nd''" by (auto simp: m' split: if_splits)
    with n n'(2) wf show "owns nd' \<inter> owns nd'' = {}" unfolding nwf_def by blast
  qed
  show ?thesis
  proof (rule ngood_change [OF g wf'])
    show "natoms m' b = Some (Some q)" if "b \<in> set (cell_list T)" "natoms m b = Some (Some q)" for b q
      using at cell that by simp
    show "nnodes m' n = Some nd'" if "n \<in> set (node_list T)" "nnodes m n = Some nd'" for n nd'
      using that p by (auto simp: m')
    show "nnodes m' q = Some e \<and> (b \<in> owns e \<longrightarrow> natoms m' b = natoms m b)"
      if u: "u \<noteq> t" "q \<in> priv (pcs u)" "nnodes m q = Some e" for u q e b
    proof -
      have "q \<noteq> p" using g u(1,2) pc unfolding ngood_def by (metis disjoint_iff insertI1 priv.simps(1))
      then show ?thesis using at [of b] own [OF u(3)] u(3) by (auto simp: m'(2))
    qed
    have ac: "a \<in> set (cell_list T)" using ap cpath_cells by blast
    have "natoms m' a = Some cur" using at cell [OF ac] a by simp
    then have "stale T m' cur {}" using ac by (auto simp: stale_def)
    then show "nok T m' (NLoad x v a cur)" using ap by simp
    show "replay h [] = Some (cpairs T)" "nsettled (pcs(t := NLoad x v a cur)) h"
      using g by (simp_all add: ngood_def nsettled_def)
  qed auto
qed

section \<open>Publishing a node\<close>

text \<open>A compare-and-swap that succeeds found the child pointer empty.\<close>

lemma cas_finds_empty:
  assumes wf: "nwf m T" and okp: "nok T m (NCas x v a ref p)" and a: "natoms m a = Some ref"
  shows "ref = None"
proof (cases ref)
  case (Some q)
  with okp obtain b where b: "b \<in> set (cell_list T)" "b \<noteq> a" "natoms m b = Some (Some q)" and ap: "a \<in> cpath T x"
    by (auto simp: stale_def)
  have ac: "a \<in> set (cell_list T)" using ap cpath_cells by blast
  have va: "\<exists>y. nview m a = Some (Some q, y)" using a Some by (simp add: nview_def)
  moreover have vb: "\<exists>y. nview m b = Some (Some q, y)" using b(3) by (simp add: nview_def)
  ultimately have "a = b" using vrep_inj [OF nwf_rep [OF wf] _ ac b(1)] wf by (auto simp: nwf_def cwf_def)
  with b(2) show ?thesis by simp
qed

lemma ngood_publish:
  assumes g: "ngood T m pcs h" and pc: "pcs t = NCas x v a ref p" and a: "natoms m a = Some None"
  defines "m' \<equiv> m\<lparr>natoms := (natoms m)(a \<mapsto> Some p)\<rparr>"
  shows "\<exists>T'. ngood T' m' (pcs(t := NDone (CInsert x v) None)) (h @ [(t, CInsert x v, None)])"
proof -
  have wf: "nwf m T" using g by (simp add: ngood_def)
  have okp: "nok T m (NCas x v a ref p)" using g pc unfolding ngood_def by metis
  have rp: "replay h [] = Some (cpairs T)" and ns: "nsettled pcs h" using g by (simp_all add: ngood_def)
  obtain nd where nd: "nnodes m p = Some nd" "nkey nd = x" "natoms m (nvalue nd) = Some v"
      "natoms m (nleft nd) = Some None" "natoms m (nright nd) = Some None"
    and p: "p \<notin> set (node_list T)" and ap: "a \<in> cpath T x"
    using okp by auto
  have ac: "a \<in> set (cell_list T)" using ap cpath_cells by blast
  have cw: "cwf (nview m) T" using wf by (simp add: nwf_def)
  have "nview m a = Some (None, None)" using a by (simp add: nview_def)
  then obtain C where T: "T = plug C (CLeaf a)" using cwf_leaf_at [OF cw ac] by metis
  let ?T' = "plug C (CNode a p x v (CLeaf (nleft nd)) (CLeaf (nright nd)))"
  have dist3: "distinct [nvalue nd, nleft nd, nright nd]" using wf nd(1) by (auto simp: nwf_def)
  have nc: "nleft nd \<notin> set (cell_list T)" "nright nd \<notin> set (cell_list T)" "nvalue nd \<notin> set (cell_list T)"
    using nwf_not_cell [OF wf nd(1)] p by (auto simp: owns_def)
  then have ne: "nleft nd \<noteq> a" "nright nd \<noteq> a" "nvalue nd \<noteq> a" using ac by auto
  have vw: "nview m' c = nview m c" if c: "c \<in> set (cell_list T)" "c \<noteq> a" for c
  proof (rule nview_frame [OF nwf_rep [OF wf] c(1)])
    show "natoms m' c = natoms m c" using c by (simp add: m'_def)
    show "nnodes m' n = Some nd' \<and> natoms m' (nvalue nd') = natoms m (nvalue nd')"
      if "n \<in> set (node_list T)" "nnodes m n = Some nd'" for n nd'
    proof -
      have "nvalue nd' \<notin> set (cell_list T)" using nwf_not_cell [OF wf that(2)] by (auto simp: owns_def)
      then have "nvalue nd' \<noteq> a" using ac by auto
      then show ?thesis using that(2) by (simp add: m'_def)
    qed
  qed
  have thru: "ctx_thru C x" using ap plug_path_thru [of C "CLeaf a" a x] T cw by (simp add: cwf_def)
  have new: "cwf (nview m') ?T'" "cpairs ?T' = ins_list x v (cpairs T)"
  proof -
    have v: "nview m' a = Some (Some p, Some \<lparr>hkey = x, hval = v, hleft = nleft nd, hright = nright nd\<rparr>)"
      "nview m' (nleft nd) = Some (None, None)" "nview m' (nright nd) = Some (None, None)"
      using nd ne by (simp_all add: m'_def nview_def)
    note grow = cwf_grow [of "nview m" C a x "nleft nd" "nright nd" p "nview m'" v]
    show "cwf (nview m') ?T'" "cpairs ?T' = ins_list x v (cpairs T)"
      using grow cw thru dist3 nc p v vw unfolding T by simp_all
  qed
  have wf': "nwf m' ?T'"
    unfolding nwf_def
  proof (intro conjI allI impI ballI)
    show "cell_of ?T' = nroot m'"
      using wf plug_cell_of [of "CNode a p x v (CLeaf (nleft nd)) (CLeaf (nright nd))" "CLeaf a" C] T
      by (simp add: nwf_def m'_def)
    show "b < nnext m'" if "b \<in> dom (natoms m') \<union> dom (nnodes m')" for b
      using that wf a by (auto simp: m'_def nwf_def split: if_splits)
    fix n nd'
    assume n: "nnodes m' n = Some nd'"
    show "distinct [nvalue nd', nleft nd', nright nd']" "nroot m' \<notin> owns nd'"
      using wf n a by (auto simp: nwf_def m'_def)
    have "owns nd' \<subseteq> dom (natoms m)" using wf n unfolding nwf_def m'_def by simp
    then show "owns nd' \<subseteq> dom (natoms m')" by (auto simp: m'_def)
    fix n' nd''
    assume "nnodes m' n' = Some nd''" "n \<noteq> n'"
    with n wf show "owns nd' \<inter> owns nd'' = {}" unfolding nwf_def m'_def by (metis nmem.select_convs(2) nmem.surjective nmem.update_convs(1))
  qed (rule new)
  have "ngood ?T' m' (pcs(t := NDone (CInsert x v) None)) (h @ [(t, CInsert x v, None)])"
  proof (rule ngood_change [OF g wf'])
    show "cpath T y \<subseteq> cpath ?T' y" for y
      using plug_path_mono [of "CLeaf a" y UNIV "CNode a p x v (CLeaf (nleft nd)) (CLeaf (nright nd))" C] T by auto
    show "set (cell_list T) \<subseteq> set (cell_list ?T')" "set (node_list T) \<subseteq> set (node_list ?T')"
      unfolding T by (auto simp: plug_cells plug_nodes)
    show "q \<notin> set (node_list ?T')" if "u \<noteq> t" "q \<in> priv (pcs u)" "q \<notin> set (node_list T)" for u q
    proof -
      have "q \<noteq> p" using g that(1,2) pc unfolding ngood_def by (metis disjoint_iff insertI1 priv.simps(1))
      then show ?thesis using that(3) T by (auto simp: plug_nodes)
    qed
    show "natoms m' b = Some (Some q)" if "b \<in> set (cell_list T)" "natoms m b = Some (Some q)" for b q
      using that a by (auto simp: m'_def)
    show "nnodes m' q = Some e \<and> (b \<in> owns e \<longrightarrow> natoms m' b = natoms m b)"
      if "q \<notin> set (node_list T)" "nnodes m q = Some e" for q e b
      using nwf_not_cell [OF wf that(2), of b] that ac by (auto simp: m'_def)
    show "replay (h @ [(t, CInsert x v, None)]) [] = Some (cpairs ?T')" using rp new by (simp add: replay_append)
    show "nsettled (pcs(t := NDone (CInsert x v) None)) (h @ [(t, CInsert x v, None)])" by (rule nsettled_new [OF ns])
  qed (simp_all add: m'_def)
  then show ?thesis by blast
qed

section \<open>Reading and overwriting a value\<close>

lemma value_of_at:
  assumes wf: "nwf m T" and val: "value_of T m x val"
  obtains C c n w l r nd where "T = plug C (CNode c n x w l r)" "nnodes m n = Some nd" "nvalue nd = val"
    "natoms m val = Some w" "nview m c = Some (Some n, Some \<lparr>hkey = x, hval = w, hleft = cell_of l, hright = cell_of r\<rparr>)"
proof -
  obtain n nd where n: "n \<in> set (node_list T)" "nnodes m n = Some nd" "nkey nd = x" "nvalue nd = val"
    using val by (auto simp: value_of_def)
  obtain C c k w l r where T: "T = plug C (CNode c n k w l r)" using plug_split_node [OF n(1)] by metis
  then have v: "nview m c = Some (Some n, Some \<lparr>hkey = k, hval = w, hleft = cell_of l, hright = cell_of r\<rparr>)"
    using nwf_rep [OF wf] by (simp add: plug_vrep)
  then have "k = x" "natoms m val = Some w" using n by (auto simp: nview_def bind_eq_Some_conv)
  with T n v that show thesis by blast
qed

lemma ngood_store:
  assumes g: "ngood T m pcs h" and val: "value_of T m x val"
  shows "natoms m val \<noteq> None"
    "\<exists>T'. ngood T' (m\<lparr>natoms := (natoms m)(val \<mapsto> v)\<rparr>) (pcs(t := NDone (CInsert x v) None)) (h @ [(t, CInsert x v, None)])"
proof -
  have wf: "nwf m T" and rp: "replay h [] = Some (cpairs T)" and ns: "nsettled pcs h" using g by (simp_all add: ngood_def)
  obtain C c n w l r nd where T: "T = plug C (CNode c n x w l r)" and nd: "nnodes m n = Some nd" "nvalue nd = val"
    and at: "natoms m val = Some w"
    and vc: "nview m c = Some (Some n, Some \<lparr>hkey = x, hval = w, hleft = cell_of l, hright = cell_of r\<rparr>)"
    using value_of_at [OF wf val] by metis
  from at show "natoms m val \<noteq> None" by simp
  let ?m' = "m\<lparr>natoms := (natoms m)(val \<mapsto> v)\<rparr>" and ?T' = "plug C (CNode c n x v l r)"
  have nT: "n \<in> set (node_list T)" and cT: "c \<in> set (cell_list T)" using T by (simp_all add: plug_nodes plug_cells)
  have vcell: "val \<notin> set (cell_list T)" using nwf_not_cell [OF wf nd(1)] nd(2) by (auto simp: owns_def)
  have own: "val \<notin> owns nd'" if "nnodes m n' = Some nd'" "n' \<noteq> n" for n' nd'
  proof -
    have "owns nd \<inter> owns nd' = {}" using wf nd(1) that unfolding nwf_def by blast
    then show ?thesis using nd(2) by (auto simp: owns_def)
  qed
  have vw: "nview ?m' d = nview m d" if d: "d \<in> set (cell_list T)" "d \<noteq> c" for d
  proof -
    obtain p y where py: "nview m d = Some (p, y)" using vrep_cell [OF nwf_rep [OF wf] d(1)] by blast
    have at_d: "natoms m d = Some p" by (rule nview_atom [OF py])
    have dv: "d \<noteq> val" using d(1) vcell by auto
    show ?thesis
    proof (cases p)
      case None
      then show ?thesis using at_d dv by (simp add: nview_def)
    next
      case (Some n')
      have "n' \<noteq> n"
      proof
        assume "n' = n"
        with Some py have "nview m d = Some (Some n, y)" by simp
        from vrep_inj [OF nwf_rep [OF wf] _ d(1) cT this vc] wf d(2) show False by (simp add: nwf_def cwf_def)
      qed
      obtain nd' where nd': "nnodes m n' = Some nd'"
        using vrep_node [OF nwf_rep [OF wf]] vrep_node_in [OF nwf_rep [OF wf] d(1)] py Some by metis
      from own [OF this \<open>n' \<noteq> n\<close>] have "nvalue nd' \<noteq> val" by (auto simp: owns_def)
      then show ?thesis using at_d dv Some nd' by (simp add: nview_def)
    qed
  qed
  have here: "nview ?m' c = Some (Some n, Some \<lparr>hkey = x, hval = v, hleft = cell_of l, hright = cell_of r\<rparr>)"
  proof -
    have "c \<noteq> val" using cT vcell by auto
    then show ?thesis using vc nd by (auto simp: nview_def bind_eq_Some_conv)
  qed
  have cw: "cwf (nview m) T" using wf by (simp add: nwf_def)
  note store = cwf_store [OF cw [unfolded T] here vw [unfolded T]]
  have wf': "nwf ?m' ?T'"
    unfolding nwf_def
  proof (intro conjI allI impI ballI)
    show "cell_of ?T' = nroot ?m'"
      using wf plug_cell_of [of "CNode c n x v l r" "CNode c n x w l r" C] T by (simp add: nwf_def)
    show "b < nnext ?m'" if "b \<in> dom (natoms ?m') \<union> dom (nnodes ?m')" for b
      using that wf at by (auto simp: nwf_def split: if_splits)
    fix n' nd'
    assume n': "nnodes ?m' n' = Some nd'"
    show "distinct [nvalue nd', nleft nd', nright nd']" "nroot ?m' \<notin> owns nd'"
      using wf n' at by (auto simp: nwf_def)
    have "owns nd' \<subseteq> dom (natoms m)" using wf n' unfolding nwf_def by simp
    then show "owns nd' \<subseteq> dom (natoms ?m')" by auto
    fix n'' nd''
    assume "nnodes ?m' n'' = Some nd''" "n' \<noteq> n''"
    with n' wf show "owns nd' \<inter> owns nd'' = {}" unfolding nwf_def by simp
  qed (rule store(1))
  have "ngood ?T' ?m' (pcs(t := NDone (CInsert x v) None)) (h @ [(t, CInsert x v, None)])"
  proof (rule ngood_change [OF g wf'])
    show "cpath T y \<subseteq> cpath ?T' y" for y
      using plug_path_mono [of "CNode c n x w l r" y UNIV "CNode c n x v l r" C] T by auto
    show "natoms ?m' b = Some (Some q)" if "b \<in> set (cell_list T)" "natoms m b = Some (Some q)" for b q
      using that vcell by auto
    show "nnodes ?m' q = Some e \<and> (b \<in> owns e \<longrightarrow> natoms ?m' b = natoms m b)"
      if "q \<notin> set (node_list T)" "nnodes m q = Some e" for q e b
      using own [OF that(2)] that nT by auto
    show "replay (h @ [(t, CInsert x v, None)]) [] = Some (cpairs ?T')" using rp store(2) T by (simp add: replay_append)
    show "nsettled (pcs(t := NDone (CInsert x v) None)) (h @ [(t, CInsert x v, None)])" by (rule nsettled_new [OF ns])
  qed (auto simp: T plug_cells plug_nodes)
  then show "\<exists>T'. ngood T' ?m' (pcs(t := NDone (CInsert x v) None)) (h @ [(t, CInsert x v, None)])" by blast
qed

section \<open>Every step is a good step\<close>

definition nsteps_well :: "(tid \<Rightarrow> npc) \<Rightarrow> (tid \<times> call \<times> cptr) list \<Rightarrow> tid \<Rightarrow> nstep \<Rightarrow> bool" where
  "nsteps_well pcs h t out \<longleftrightarrow> (\<exists>m' pc' ev. out = Go (m', pc', ev) \<and>
     (\<exists>T'. ngood T' m' (pcs(t := pc')) (h @ settle t (ncall (pcs t)) ev)))"

lemma nsteps_well_None:
  "ngood T' m' (pcs(t := pc')) h \<Longrightarrow> nsteps_well pcs h t (Go (m', pc', None))"
  by (auto simp: nsteps_well_def settle_def split: option.split)

lemma nsteps_well_Some:
  "\<exists>T'. ngood T' m' (pcs(t := pc')) (h @ [(t, c, r)]) \<Longrightarrow> ncall (pcs t) = Some c \<Longrightarrow>
   nsteps_well pcs h t (Go (m', pc', Some r))"
  by (auto simp: nsteps_well_def settle_def)

lemma nsteps_well_move:
  "ngood T m pcs h \<Longrightarrow> nok T m pc \<Longrightarrow> priv pc = {} \<Longrightarrow> (\<And>c r. pc \<noteq> NDone c r) \<Longrightarrow> nsteps_well pcs h t (Go (m, pc, None))"
  by (rule nsteps_well_None [of T]) (rule ngood_move)

lemma nroot_path: "nwf m T \<Longrightarrow> nroot m \<in> cpath T x"
  using cell_of_path [of T x] by (simp add: nwf_def)

text \<open>What a thread reads at a cell on its search path.\<close>

lemma read_cell:
  assumes wf: "nwf m T" and a: "a \<in> cpath T x"
  obtains (empty) "natoms m a = Some None" "nview m a = Some (None, None)"
  | (node) n nd w where "natoms m a = Some (Some n)" "nnodes m n = Some nd" "n \<in> set (node_list T)"
      "nview m a = Some (Some n, Some \<lparr>hkey = nkey nd, hval = w, hleft = nleft nd, hright = nright nd\<rparr>)"
proof -
  have ac: "a \<in> set (cell_list T)" using a cpath_cells by blast
  obtain p y where py: "nview m a = Some (p, y)" using vrep_cell [OF nwf_rep [OF wf] ac] by blast
  show thesis
  proof (cases p)
    case None
    then show thesis using empty nview_atom [OF py] by (simp add: nview_def)
  next
    case (Some n)
    then have n: "n \<in> set (node_list T)" using vrep_node_in [OF nwf_rep [OF wf] ac] py by metis
    obtain nd where nd: "nnodes m n = Some nd" using vrep_node [OF nwf_rep [OF wf] n] by blast
    have "nvalue nd \<in> dom (natoms m)" using wf nd by (auto simp: nwf_def owns_def)
    then obtain w where "natoms m (nvalue nd) = Some w" by blast
    then show thesis using node [OF _ nd n] nview_atom [OF py] Some nd by (simp add: nview_def)
  qed
qed

lemma step_down:
  assumes wf: "nwf m T" and a: "a \<in> cpath T x" and n: "x \<noteq> nkey nd"
    and v: "nview m a = Some (Some n, Some \<lparr>hkey = nkey nd, hval = w, hleft = nleft nd, hright = nright nd\<rparr>)"
  shows "x < nkey nd \<Longrightarrow> nleft nd \<in> cpath T x" "nkey nd < x \<Longrightarrow> nright nd \<in> cpath T x"
proof -
  have cw: "cwf (nview m) T" using wf by (simp add: nwf_def)
  have "next_cell (nview m) x a (if x < nkey nd then nleft nd else nright nd)"
    using n v by (auto simp: next_cell_def)
  from cwf_next_path(1) [OF cw a this]
  show "x < nkey nd \<Longrightarrow> nleft nd \<in> cpath T x" "nkey nd < x \<Longrightarrow> nright nd \<in> cpath T x" by simp_all
qed

lemma insert_nb_well:
  assumes g: "ngood T m pcs h" and c: "ncall (pcs t) = Some (CInsert x v)"
  shows "nsteps_well pcs h t (insert_nb x v (pcs t) m)"
proof -
  have ok: "nok T m (pcs t)" and wf: "nwf m T" using g by (simp_all add: ngood_def)
  from c consider (start) "pcs t = NStart (CInsert x v)" | (load) a r where "pcs t = NLoad x v a r"
    | (cas) a r p where "pcs t = NCas x v a r p" | (store) val where "pcs t = NStore x v val"
    | (fin) r where "pcs t = NDone (CInsert x v) r"
    by (cases "pcs t") auto
  then show ?thesis
  proof cases
    case start
    then show ?thesis using nroot_path [OF wf, of x]
      by (auto simp: insert_nb_def stale_def intro!: nsteps_well_move [OF g])
  next
    case load
    then have ap: "a \<in> cpath T x" and st: "stale T m r {}" using ok by simp_all
    show ?thesis
    proof (cases rule: read_cell [OF wf ap])
      case 1
      obtain m' p where new: "new_node_nb x v m = (m', p)" by (cases "new_node_nb x v m")
      show ?thesis using ngood_new_node [OF g ap 1(1) st new, of t] load 1 new
        by (auto simp: insert_nb_def load_nb_def need_def atomic_load_ptr_def intro: nsteps_well_None)
    next
      case (2 n nd w)
      have "value_of T m x (nvalue nd)" if "x = nkey nd" using 2 that by (auto simp: value_of_def)
      then show ?thesis using step_down [OF wf ap _ 2(4)] load 2 st
        by (auto simp: insert_nb_def load_nb_def need_def atomic_load_ptr_def Let_def intro!: nsteps_well_move [OF g])
    qed
  next
    case cas
    have okc: "nok T m (NCas x v a r p)" using ok cas by simp
    then obtain nd where nd: "nnodes m p = Some nd" and ap: "a \<in> cpath T x" by auto
    have "a \<in> set (cell_list T)" using ap cpath_cells by blast
    then obtain cur where cur: "natoms m a = Some cur" using nwf_cell_bound [OF wf] by blast
    have same: "m\<lparr>natoms := (natoms m)(a \<mapsto> cur)\<rparr> = m" using cur by (simp add: fun_upd_idem)
    show ?thesis
    proof (cases "cur = r")
      case True
      have "r = None" using cas_finds_empty [OF wf okc] cur True by simp
      then show ?thesis using ngood_publish [OF g cas] cas cur True
        by (auto simp: insert_nb_def need_def atomic_CAS_ptr_def Let_def intro!: nsteps_well_Some)
    next
      case False
      obtain m' where fr: "free_node_nb p m = Some m'" using nd by (simp add: free_node_nb_def)
      show ?thesis using ngood_free_node [OF g cas cur fr] cas cur False fr same
        by (auto simp: insert_nb_def need_def atomic_CAS_ptr_def Let_def intro: nsteps_well_None)
    qed
  next
    case store
    then have "value_of T m x val" using ok by simp
    from ngood_store(1) [OF g this] ngood_store(2) [OF g this, of v t] show ?thesis using store
      by (auto simp: insert_nb_def store_nb_def need_def atomic_store_ptr_def intro!: nsteps_well_Some)
  next
    case fin
    then show ?thesis by (auto simp: insert_nb_def intro!: nsteps_well_move [OF g])
  qed
qed

lemma lookup_nb_well:
  assumes g: "ngood T m pcs h" and c: "ncall (pcs t) = Some (CLookup x)"
  shows "nsteps_well pcs h t (lookup_nb x (pcs t) m)"
proof -
  have ok: "nok T m (pcs t)" and wf: "nwf m T" using g by (simp_all add: ngood_def)
  have cw: "cwf (nview m) T" using wf by (simp add: nwf_def)
  from c consider (start) "pcs t = NStart (CLookup x)" | (at) a where "pcs t = LAt x a"
    | (val) val where "pcs t = LVal x val" | (fin) r where "pcs t = NDone (CLookup x) r"
    by (cases "pcs t") auto
  then show ?thesis
  proof cases
    case start
    then show ?thesis using nroot_path [OF wf, of x]
      by (auto simp: lookup_nb_def intro!: nsteps_well_move [OF g])
  next
    case at
    then have ap: "a \<in> cpath T x" using ok by simp
    show ?thesis
    proof (cases rule: read_cell [OF wf ap])
      case 1
      then have "spec_op (CLookup x) (cpairs T) = (cpairs T, None)" using cwf_answer(1) [OF cw ap] by simp
      from ngood_settle [OF g this] show ?thesis using at 1
        by (auto simp: lookup_nb_def load_nb_def need_def atomic_load_ptr_def intro!: nsteps_well_Some)
    next
      case (2 n nd w)
      have "value_of T m x (nvalue nd)" if "x = nkey nd" using 2 that by (auto simp: value_of_def)
      then show ?thesis using step_down [OF wf ap _ 2(4)] at 2
        by (auto simp: lookup_nb_def load_nb_def need_def atomic_load_ptr_def Let_def intro!: nsteps_well_move [OF g])
    qed
  next
    case val
    then have "value_of T m x val" using ok by simp
    then obtain C c n w l r nd where T: "T = plug C (CNode c n x w l r)" and w: "natoms m val = Some w"
      using value_of_at [OF wf] by metis
    have "found (cpairs T) x = w"
      using found_around [of "fst (ctx_pairs C) @ cpairs l" x w "cpairs r @ snd (ctx_pairs C)"] cw T
      by (simp add: cwf_def plug_pairs)
    then have "spec_op (CLookup x) (cpairs T) = (cpairs T, w)" by simp
    from ngood_settle [OF g this] show ?thesis using val w
      by (auto simp: lookup_nb_def load_nb_def need_def atomic_load_ptr_def intro!: nsteps_well_Some)
  next
    case fin
    then show ?thesis by (auto simp: lookup_nb_def intro!: nsteps_well_move [OF g])
  qed
qed

theorem nb_turn_well:
  assumes g: "ngood T m pcs h" and t: "pcs t \<noteq> NIdle"
  shows "nsteps_well pcs h t (nb_turn (pcs t) m)"
proof -
  have "nok T m (pcs t)" using g by (simp add: ngood_def)
  then obtain c where c: "ncall (pcs t) = Some c" "\<forall>x. c \<noteq> CDelete x" using t by (cases "pcs t") auto
  then show ?thesis using insert_nb_well [OF g] lookup_nb_well [OF g]
    by (cases c) (simp_all add: nb_turn_def)
qed

section \<open>Reachable states\<close>

definition ninv :: "nsys \<Rightarrow> bool" where
  "ninv \<sigma> \<longleftrightarrow> (\<exists>T. ngood T (n_mem \<sigma>) (n_pc \<sigma>) (n_hist \<sigma>))"

lemma ninv_step: "nb_step \<sigma> \<sigma>' \<Longrightarrow> ninv \<sigma> \<Longrightarrow> ninv \<sigma>'"
proof (induction rule: nb_step.induct)
  case (nb_invoke \<sigma> t c)
  then obtain T where g: "ngood T (n_mem \<sigma>) (n_pc \<sigma>) (n_hist \<sigma>)" by (auto simp: ninv_def)
  have "ngood T (n_mem \<sigma>) ((n_pc \<sigma>)(t := NStart c)) (n_hist \<sigma>)"
    by (rule ngood_move [OF g]) (simp_all add: nb_invoke)
  then show ?case by (auto simp: ninv_def)
next
  case (nb_go \<sigma> t m pc ev)
  then obtain T where g: "ngood T (n_mem \<sigma>) (n_pc \<sigma>) (n_hist \<sigma>)" by (auto simp: ninv_def)
  have "n_pc \<sigma> t \<noteq> NIdle" using nb_go.hyps by (auto simp: nb_turn_def)
  from nb_turn_well [OF g this] nb_go.hyps show ?case by (auto simp: ninv_def nsteps_well_def)
qed

lemma ninv_reach: "nb_step\<^sup>*\<^sup>* \<sigma> \<sigma>' \<Longrightarrow> ninv \<sigma> \<Longrightarrow> ninv \<sigma>'"
  by (induction rule: rtranclp_induct) (auto intro: ninv_step)

lemma ninv_start: "ninv nb_start"
  unfolding ninv_def
  by (rule exI [of _ "CLeaf 0"])
     (simp add: nb_start_def treebox_new_nb_def ngood_def nwf_def cwf_def nview_def nsettled_def make_atomic_ptr_def)

text \<open>One move of a given thread: a new call if it is idle, else its next step.\<close>

definition nb_act :: "nsys \<Rightarrow> tid \<times> call \<Rightarrow> nsys" where
  "nb_act \<sigma> a = (case a of (t, c) \<Rightarrow>
     if n_pc \<sigma> t = NIdle then (case c of CDelete x \<Rightarrow> \<sigma> | _ \<Rightarrow> \<sigma>\<lparr>n_pc := (n_pc \<sigma>)(t := NStart c)\<rparr>)
     else case nb_turn (n_pc \<sigma> t) (n_mem \<sigma>) of
       Go (m, pc, ev) \<Rightarrow> \<sigma>\<lparr>n_mem := m, n_pc := (n_pc \<sigma>)(t := pc), n_hist := n_hist \<sigma> @ settle t (ncall (n_pc \<sigma> t)) ev\<rparr>
     | _ \<Rightarrow> \<sigma>)"

lemma nb_act_reach: "nb_step\<^sup>*\<^sup>* \<sigma> (foldl nb_act \<sigma> as)"
proof (induction as arbitrary: \<sigma>)
  case (Cons a as)
  have "nb_step\<^sup>*\<^sup>* \<sigma> (nb_act \<sigma> a)"
    by (cases a; cases "snd a"; cases "nb_turn (n_pc \<sigma> (fst a)) (n_mem \<sigma>)")
       (auto simp: nb_act_def intro!: r_into_rtranclp nb_step.intros)
  with Cons show ?case by (simp add: rtranclp_trans)
qed simp

end
