(* ===== verification/Conc_List.thy ===== *)
theory Conc_List
  imports Conc_Sync
begin

text \<open>
  The singly linked list of \<^verbatim>\<open>src/concurrency/linked_list.c\<close>, which holds the retired nodes of the
  non-blocking trees: cells in a heap, the five operations as loops over it, and their action on the
  list of cells a pointer leads to. \<open>None\<close> is a dereference of a pointer that is not a live cell, a
  signed overflow of the counter, or a loop that does not end.
\<close>

section \<open>Memory and operations\<close>

record lcell =
  lptr :: cptr
  ltail :: cptr

record lmem =
  lcells :: "addr \<Rightarrow> lcell option"
  lnext :: addr

definition createNode :: "lmem \<Rightarrow> cptr \<Rightarrow> lmem \<times> cptr" where
  "createNode m v = (m\<lparr>lcells := (lcells m)(lnext m \<mapsto> \<lparr>lptr = v, ltail = None\<rparr>), lnext := lnext m + 1\<rparr>, Some (lnext m))"

partial_function (option) size_loop :: "lmem \<Rightarrow> cptr \<Rightarrow> int \<Rightarrow> int option" where
  "size_loop m t count = (case t of None \<Rightarrow> Some count
     | Some a \<Rightarrow> do {
         assert_c (count + 1 < 2 ^ 31);
         c \<leftarrow> lcells m a;
         size_loop m (ltail c) (count + 1) })"

definition size_ll :: "lmem \<Rightarrow> cptr \<Rightarrow> int option" where
  "size_ll m x = size_loop m x 0"

partial_function (option) search_ll :: "lmem \<Rightarrow> cptr \<Rightarrow> cptr \<Rightarrow> bool option" where
  "search_ll m t y = (case t of None \<Rightarrow> Some False
     | Some a \<Rightarrow> do {
         c \<leftarrow> lcells m a;
         if lptr c = y then Some True else search_ll m (ltail c) y })"

text \<open>The walk to the last cell, and the write of its tail.\<close>

partial_function (option) append_loop :: "lmem \<Rightarrow> addr \<Rightarrow> cptr \<Rightarrow> lmem option" where
  "append_loop m t y = do {
     c \<leftarrow> lcells m t;
     (case ltail c of
        None \<Rightarrow> Some (m\<lparr>lcells := (lcells m)(t \<mapsto> c\<lparr>ltail := y\<rparr>)\<rparr>)
      | Some u \<Rightarrow> append_loop m u y) }"

definition append_ll :: "lmem \<Rightarrow> cptr \<Rightarrow> cptr \<Rightarrow> (lmem \<times> cptr) option" where
  "append_ll m x y = (case x of None \<Rightarrow> Some (m, y)
     | Some t \<Rightarrow> do { m \<leftarrow> append_loop m t y; Some (m, x) })"

partial_function (option) detach_loop :: "lmem \<Rightarrow> addr \<Rightarrow> cptr \<Rightarrow> lmem option" where
  "detach_loop m t y = do {
     c \<leftarrow> lcells m t;
     (case ltail c of
        None \<Rightarrow> Some m
      | Some u \<Rightarrow>
          if Some u = y then do {
            d \<leftarrow> lcells m u;
            Some (m\<lparr>lcells := (lcells m)(t \<mapsto> c\<lparr>ltail := ltail d\<rparr>, u := None)\<rparr>) }
          else detach_loop m u y) }"

definition detach_ll :: "lmem \<Rightarrow> cptr \<Rightarrow> cptr \<Rightarrow> (lmem \<times> cptr) option" where
  "detach_ll m x y = (case x of None \<Rightarrow> Some (m, x)
     | Some a \<Rightarrow>
         if x = y then do {
           c \<leftarrow> lcells m a;
           Some (m\<lparr>lcells := (lcells m)(a := None)\<rparr>, ltail c) }
         else do { m \<leftarrow> detach_loop m a y; Some (m, x) })"

section \<open>The list a pointer leads to\<close>

fun llist :: "lmem \<Rightarrow> cptr \<Rightarrow> (addr \<times> cptr) list \<Rightarrow> bool" where
  "llist m p [] \<longleftrightarrow> p = None"
| "llist m p ((a, v) # xs) \<longleftrightarrow> p = Some a \<and> (\<exists>c. lcells m a = Some c \<and> lptr c = v \<and> llist m (ltail c) xs)"

lemma llist_cong:
  "(\<And>a. a \<in> fst ` set xs \<Longrightarrow> lcells m a = lcells m' a) \<Longrightarrow> llist m p xs = llist m' p xs"
  by (induction m p xs rule: llist.induct) auto

lemma llist_upd [simp]:
  "a \<notin> fst ` set xs \<Longrightarrow> llist (m\<lparr>lcells := (lcells m)(a := c)\<rparr>) p xs = llist m p xs"
  by (rule llist_cong) auto

lemma llist_new [simp]: "llist (m\<lparr>lnext := k\<rparr>) p xs = llist m p xs"
  by (induction m p xs rule: llist.induct) auto

lemma size_loop_counts:
  "llist m p xs \<Longrightarrow> 0 \<le> n \<Longrightarrow> n + int (length xs) < 2 ^ 31 \<Longrightarrow> size_loop m p n = Some (n + int (length xs))"
proof (induction xs arbitrary: p n)
  case Nil
  then show ?case by (subst size_loop.simps) simp
next
  case (Cons x xs)
  then show ?case by (cases x, subst size_loop.simps) auto
qed

lemma search_ll_finds: "llist m p xs \<Longrightarrow> search_ll m p y = Some (y \<in> snd ` set xs)"
proof (induction xs arbitrary: p)
  case Nil
  then show ?case by (subst search_ll.simps) simp
next
  case (Cons x xs)
  then show ?case by (cases x, subst search_ll.simps) auto
qed

lemma append_loop_appends:
  "llist m (Some t) xs \<Longrightarrow> llist m y ys \<Longrightarrow> distinct (map fst xs) \<Longrightarrow> fst ` set xs \<inter> fst ` set ys = {} \<Longrightarrow>
   \<exists>m'. append_loop m t y = Some m' \<and> llist m' (Some t) (xs @ ys) \<and> lnext m' = lnext m \<and>
     (\<forall>a. a \<notin> fst ` set xs \<longrightarrow> lcells m' a = lcells m a)"
proof (induction xs arbitrary: t)
  case (Cons x xs)
  obtain v where x: "x = (t, v)" using Cons.prems(1) by (cases x) auto
  obtain c where c: "lcells m t = Some c" "lptr c = v" "llist m (ltail c) xs"
    using Cons.prems(1) x by auto
  show ?case
  proof (cases "ltail c")
    case None
    then have "xs = []" using c(3) by (cases xs) auto
    have "t \<notin> fst ` set ys" using Cons.prems(4) x by auto
    then show ?thesis using c None Cons.prems(2) x \<open>xs = []\<close>
      by (subst append_loop.simps) simp
  next
    case (Some u)
    then have "xs \<noteq> []" using c(3) by auto
    have "t \<notin> fst ` set xs" using Cons.prems(3) x by auto
    have "\<exists>m'. append_loop m u y = Some m' \<and> llist m' (Some u) (xs @ ys) \<and> lnext m' = lnext m \<and>
        (\<forall>a. a \<notin> fst ` set xs \<longrightarrow> lcells m' a = lcells m a)"
      using c(3) Some Cons.prems by (intro Cons.IH) auto
    then show ?thesis using c Some x \<open>t \<notin> fst ` set xs\<close>
      by (subst append_loop.simps) auto
  qed
qed simp

lemma detach_loop_detaches:
  "llist m (Some t) xs \<Longrightarrow> distinct (map fst xs) \<Longrightarrow> y \<noteq> Some t \<Longrightarrow>
   \<exists>m'. detach_loop m t y = Some m' \<and> llist m' (Some t) (filter (\<lambda>e. Some (fst e) \<noteq> y) xs) \<and> lnext m' = lnext m \<and>
     (\<forall>a. a \<notin> fst ` set xs \<longrightarrow> lcells m' a = lcells m a) \<and> (\<forall>a\<in>fst ` set xs. y = Some a \<longrightarrow> lcells m' a = None)"
proof (induction xs arbitrary: t)
  case (Cons x xs)
  obtain v where x: "x = (t, v)" using Cons.prems(1) by (cases x) auto
  obtain c where c: "lcells m t = Some c" "lptr c = v" "llist m (ltail c) xs"
    using Cons.prems(1) x by auto
  have tn: "t \<notin> fst ` set xs" using Cons.prems(2) x by auto
  show ?case
  proof (cases "ltail c")
    case None
    then have "xs = []" using c(3) by (cases xs) auto
    then show ?thesis using c None x Cons.prems(3) by (subst detach_loop.simps) auto
  next
    case (Some u)
    then obtain w zs where xs: "xs = (u, w) # zs" using c(3) by (cases xs) auto
    then obtain d where d: "lcells m u = Some d" "lptr d = w" "llist m (ltail d) zs" using c(3) Some by auto
    show ?thesis
    proof (cases "Some u = y")
      case True
      let ?m' = "m\<lparr>lcells := (lcells m)(t \<mapsto> c\<lparr>ltail := ltail d\<rparr>, u := None)\<rparr>"
      have zs: "t \<noteq> u" "t \<notin> fst ` set zs" "u \<notin> fst ` set zs" using Cons.prems(2) x xs by auto
      have "filter (\<lambda>e. Some (fst e) \<noteq> y) zs = zs" using zs(3) True by (intro filter_True) auto
      moreover have "llist ?m' (ltail d) zs" using d(3) zs by (subst llist_cong [of _ _ m]) auto
      ultimately have "llist ?m' (Some t) (filter (\<lambda>e. Some (fst e) \<noteq> y) (x # xs))"
        using x xs c zs True Cons.prems(3) by simp
      moreover have "detach_loop m t y = Some ?m'" using c d Some True [symmetric] by (subst detach_loop.simps) simp
      ultimately show ?thesis using x xs zs True by auto
    next
      case False
      have "\<exists>m'. detach_loop m u y = Some m' \<and> llist m' (Some u) (filter (\<lambda>e. Some (fst e) \<noteq> y) xs) \<and> lnext m' = lnext m \<and>
        (\<forall>a. a \<notin> fst ` set xs \<longrightarrow> lcells m' a = lcells m a) \<and> (\<forall>a\<in>fst ` set xs. y = Some a \<longrightarrow> lcells m' a = None)"
        using c(3) Some Cons.prems False by (intro Cons.IH) auto
      then show ?thesis using c Some x tn False Cons.prems(3)
        by (subst detach_loop.simps) auto
    qed
  qed
qed simp

lemma detach_ll_detaches:
  assumes "llist m x xs" "distinct (map fst xs)"
  shows "\<exists>m' x'. detach_ll m x y = Some (m', x') \<and> llist m' x' (filter (\<lambda>e. Some (fst e) \<noteq> y) xs) \<and>
     (\<forall>a\<in>fst ` set xs. y = Some a \<longrightarrow> lcells m' a = None)"
proof (cases x)
  case None
  then show ?thesis using assms by (cases xs) (auto simp: detach_ll_def)
next
  case (Some a)
  then obtain v zs c where xs: "xs = (a, v) # zs" and c: "lcells m a = Some c" "llist m (ltail c) zs"
    using assms(1) by (cases xs) auto
  show ?thesis
  proof (cases "x = y")
    case True
    have "a \<notin> fst ` set zs" using assms(2) xs by auto
    moreover have "filter (\<lambda>e. Some (fst e) \<noteq> y) zs = zs"
      using \<open>a \<notin> fst ` set zs\<close> True Some by (intro filter_True) auto
    ultimately show ?thesis using c xs True Some by (auto simp: detach_ll_def)
  next
    case False
    then show ?thesis using detach_loop_detaches [of m a xs y] assms Some by (auto simp: detach_ll_def)
  qed
qed

lemma createNode_list:
  assumes "createNode m v = (m', p)"
  shows "llist m' p [(lnext m, v)]" "lnext m \<notin> fst ` set xs \<Longrightarrow> llist m' q xs = llist m q xs"
proof -
  have m': "m' = m\<lparr>lcells := (lcells m)(lnext m \<mapsto> \<lparr>lptr = v, ltail = None\<rparr>), lnext := lnext m + 1\<rparr>" "p = Some (lnext m)"
    using assms by (auto simp: createNode_def)
  then show "llist m' p [(lnext m, v)]" by simp
  show "llist m' q xs = llist m q xs" if "lnext m \<notin> fst ` set xs"
  proof (rule llist_cong)
    fix a
    assume "a \<in> fst ` set xs"
    then have "a \<noteq> lnext m" using that by metis
    then show "lcells m' a = lcells m a" by (simp add: m')
  qed
qed

end
