(* ===== verification/Conc_Properties.thy ===== *)
theory Conc_Properties
  imports Conc_Map Conc_HohLin Conc_NbLin Conc_List
begin

text \<open>
  The properties of the concurrent trees: linearisability, safety, progress and release of memory for
  the coarse-locked, the hand-over-hand and the lock-free program, and the list of retired nodes.
\<close>

section \<open>One lock for the whole tree\<close>

text \<open>C22: whatever way the calls of any number of threads on the coarse-locked tree interleave, the history of
  the returned calls is a run of the sequential map, and whenever the lock is free the tree in memory
  holds the map the history leads to.\<close>

theorem coarse_linearizable:
  assumes "treebox_new_cg t = Some s" "cg_step\<^sup>*\<^sup>* (cg_start s) \<sigma>"
  shows "\<exists>ps. replay (sys_hist \<sigma>) [] = Some ps \<and>
    (tb_lock (sys_mem \<sigma>) = Unlocked \<longrightarrow> cg_repr (sys_mem \<sigma>) ps)"
proof -
  have "cg_repr s []" using treebox_new_cg_repr [of t] assms(1) by simp
  then have "cg_inv \<sigma>" using cg_inv_reach [OF assms(2)] cg_inv_start by blast
  then show ?thesis by (cases rule: cg_inv_cases) auto
qed

text \<open>A schedule of two threads: both insert, then the first deletes and the second looks the key up.\<close>

definition cg_demo :: cg_sys where
  "cg_demo = foldl cg_act (cg_start (the (treebox_new_cg 0)))
     ([(1, CInsert 3 (Some 30)), (2, CInsert 1 (Some 10))] @ replicate 3 (2, CInsert 1 (Some 10)) @
      replicate 4 (1, CInsert 3 (Some 30)) @ [(2, CLookup 3)] @ replicate 6 (1, CDelete 1) @ replicate 4 (2, CLookup 3))"

lemma cg_demo_reach: "cg_step\<^sup>*\<^sup>* (cg_start (the (treebox_new_cg 0))) cg_demo"
  unfolding cg_demo_def by (rule cg_act_reach)

theorem coarse_linearizable_witness:
  "sys_hist cg_demo = [(2, CInsert 1 (Some 10), None), (1, CInsert 3 (Some 30), None), (1, CDelete 1, None),
     (2, CLookup 3, Some 30)] \<and> (\<exists>ps. replay (sys_hist cg_demo) [] = Some ps \<and>
    (tb_lock (sys_mem cg_demo) = Unlocked \<longrightarrow> cg_repr (sys_mem cg_demo) ps))"
proof
  show "sys_hist cg_demo = [(2, CInsert 1 (Some 10), None), (1, CInsert 3 (Some 30), None), (1, CDelete 1, None),
     (2, CLookup 3, Some 30)]" by code_simp
  have "treebox_new_cg 0 = Some (the (treebox_new_cg 0))" by (simp add: treebox_new_cg_def)
  then show "\<exists>ps. replay (sys_hist cg_demo) [] = Some ps \<and>
    (tb_lock (sys_mem cg_demo) = Unlocked \<longrightarrow> cg_repr (sys_mem cg_demo) ps)"
    by (rule coarse_linearizable [OF _ cg_demo_reach])
qed

text \<open>C23: in every reachable state of the coarse-locked tree a waiting call can be served after at most one
  other call, and the thread that holds the lock can always take its next step: it never reads a node
  that is not there and never releases a lock it does not hold.\<close>

theorem coarse_calls_complete:
  assumes "treebox_new_cg t0 = Some s" "cg_step\<^sup>*\<^sup>* (cg_start s) \<sigma>"
  shows "(sys_pc \<sigma> t = Waiting c \<longrightarrow>
      (\<exists>\<sigma>' h r. cg_step\<^sup>*\<^sup>* \<sigma> \<sigma>' \<and> sys_hist \<sigma>' = sys_hist \<sigma> @ h @ [(t, c, r)] \<and> length h \<le> 1)) \<and>
    (sys_pc \<sigma> t = Inside c l \<longrightarrow> (\<exists>r. l = Exiting r \<and> lock_op (release t) (sys_mem \<sigma>) \<noteq> None) \<or>
      (\<exists>m l'. op_step (sys_mem \<sigma>) c l = Some (m, l')))"
proof -
  have "cg_repr s []" using treebox_new_cg_repr [of t0] assms(1) by simp
  then have "cg_inv \<sigma>" using cg_inv_reach [OF assms(2)] cg_inv_start by blast
  then show ?thesis using cg_waiting_served [of \<sigma> t c] cg_inside_steps [of \<sigma> t c l] by blast
qed

theorem coarse_calls_complete_witness:
  "\<exists>\<sigma>' h r. cg_step\<^sup>*\<^sup>* ((cg_start (the (treebox_new_cg 0)))\<lparr>sys_pc := (\<lambda>_. Idle)(3 := Waiting (CLookup 5))\<rparr>) \<sigma>' \<and>
     sys_hist \<sigma>' = h @ [(3, CLookup 5, r)] \<and> length h \<le> 1"
proof -
  let ?s = "the (treebox_new_cg 0)"
  let ?\<sigma> = "(cg_start ?s)\<lparr>sys_pc := (\<lambda>_. Idle)(3 := Waiting (CLookup 5))\<rparr>"
  have new: "treebox_new_cg 0 = Some ?s" by (simp add: treebox_new_cg_def)
  have "cg_step (cg_start ?s) ((cg_start ?s)\<lparr>sys_pc := (sys_pc (cg_start ?s))(3 := Waiting (CLookup 5))\<rparr>)"
    by (rule cg_step.invoke) (simp add: cg_start_def)
  then have "cg_step\<^sup>*\<^sup>* (cg_start ?s) ?\<sigma>" by (simp add: cg_start_def)
  from coarse_calls_complete [OF new this, of 3 "CLookup 5"] show ?thesis by (simp add: cg_start_def)
qed

text \<open>C24: the two coarse-locked programs answer every sequence of calls alike, as the sequential map does.\<close>

theorem coarse_programs_agree:
  assumes "cg_repr s ps"
  shows "\<exists>s1 s2. run_calls (insert_cg t) (lookup_cg t) (delete_cg t) s cs = Some (s1, snd (spec_calls ps cs)) \<and>
    run_calls (insert_conc t) (lookup_conc t) (delete_conc t) s cs = Some (s2, snd (spec_calls ps cs)) \<and>
    cg_repr s1 (fst (spec_calls ps cs)) \<and> cg_repr s2 (fst (spec_calls ps cs))"
  using cg.run_answers [OF assms, of t cs] cg3.run_answers [OF assms, of t cs] by blast

theorem coarse_programs_agree_witness:
  "\<exists>s1. run_calls (insert_conc 1) (lookup_conc 1) (delete_conc 1) (the (treebox_new_cg 0))
      [CInsert 5 (Some 50), CInsert 2 (Some 20), CDelete 5, CLookup 2, CLookup 5] = Some (s1, [None, None, None, Some 20, None])"
proof -
  have "cg_repr (the (treebox_new_cg 0)) []" using treebox_new_cg_repr [of 0] by auto
  from coarse_programs_agree [OF this, of 1 "[CInsert 5 (Some 50), CInsert 2 (Some 20), CDelete 5, CLookup 2, CLookup 5]"]
  show ?thesis by (auto simp: found_def)
qed

text \<open>\<^verbatim>\<open>treebox_free\<close> of \<^verbatim>\<open>bst_conc_cglock.c\<close> releases every node and all blocks of the treebox; the one
  of \<^verbatim>\<open>bst_conc_cglock3.c\<close> leaves the \<^verbatim>\<open>tree_t\<close> block allocated.\<close>

theorem coarse_free:
  assumes "cg_repr s ps"
  shows "(\<exists>s'. treebox_free_cg t s = Some s' \<and> tb_nodes s' = Map.empty \<and> tb_objs s' = {}) \<and>
    (\<exists>s'. treebox_free_cg3 t s = Some s' \<and> tb_nodes s' = Map.empty \<and> tb_objs s' = {TreeObj})"
  using treebox_free_cg_frees [OF assms] treebox_free_cg3_leaks [OF assms] by blast

theorem coarse_free_witness:
  "\<exists>s s'. insert_cg 1 (the (treebox_new_cg 0)) 4 (Some 40) = Some s \<and>
     treebox_free_cg3 1 s = Some s' \<and> tb_objs s' = {TreeObj}"
proof -
  have "cg_repr (the (treebox_new_cg 0)) []" using treebox_new_cg_repr [of 0] by auto
  then obtain s where "insert_cg 1 (the (treebox_new_cg 0)) 4 (Some 40) = Some s" "cg_repr s [(4, Some 40)]"
    using insert_cg_repr [of "the (treebox_new_cg 0)" "[]" 1 4 "Some 40"] by auto
  with coarse_free [of s "[(4, Some 40)]" 1] show ?thesis by blast
qed

section \<open>A lock in every cell\<close>

text \<open>C26: the hand-over-hand tree is linearisable: in every reachable state of any number of threads that
  insert, look up and delete, the calls in the order their results settled are a run of the sequential map,
  the tree in memory is a search tree that holds the map this run leads to, and a thread about to return
  returns the result its last call has in that order. The mutexes are those of an implementation that lets the last
  step of a deletion destroy two locks which its thread holds; POSIX leaves this step undefined (C27).\<close>

theorem hoh_linearizable:
  assumes "treebox_new_hoh t0 = Some m0" "hoh_step\<^sup>*\<^sup>* (hoh_start m0) \<sigma>"
  shows "(\<exists>T. hwf (h_mem \<sigma>) T \<and> replay (h_hist \<sigma>) [] = Some (cpairs T)) \<and>
    (\<forall>t c a r. h_pc \<sigma> t = HDone c a r \<longrightarrow>
       (\<exists>h1 h2. h_hist \<sigma> = h1 @ (t, c, r) # h2 \<and> t \<notin> fst ` set h2))"
proof -
  obtain T where "good T (h_mem \<sigma>) (h_pc \<sigma>) (h_hist \<sigma>)"
    using hinv_reach [OF assms(2) hinv_start [OF assms(1)]] by (auto simp: hinv_def)
  then show ?thesis by (auto simp: good_def settled_def)
qed

text \<open>Three threads: a deletion rotates a node down while another thread searches below it.\<close>

definition hoh_demo :: hsys where
  "hoh_demo = foldl hoh_act (hoh_start (the (treebox_new_hoh 0)))
     (replicate 4 (1, CInsert 4 (Some 40)) @ replicate 7 (1, CInsert 6 (Some 60)) @ replicate 7 (1, CInsert 2 (Some 20)) @
      [(2, CDelete 4), (2, CDelete 4), (2, CDelete 4), (2, CDelete 4), (2, CDelete 4), (3, CLookup 2)] @
      replicate 8 (2, CDelete 4) @ replicate 8 (3, CLookup 2) @ replicate 8 (2, CDelete 4))"

lemma hoh_demo_reach: "hoh_step\<^sup>*\<^sup>* (hoh_start (the (treebox_new_hoh 0))) hoh_demo"
  unfolding hoh_demo_def by (rule hoh_act_reach)

lemma treebox_new_hoh_Some: "treebox_new_hoh t = Some (the (treebox_new_hoh t))"
  by (simp add: treebox_new_hoh_def new_cell_def release2_def)

theorem hoh_linearizable_witness:
  "h_hist hoh_demo = [(1, CInsert 4 (Some 40), None), (1, CInsert 6 (Some 60), None), (1, CInsert 2 (Some 20), None),
     (2, CDelete 4, None), (3, CLookup 2, Some 20)] \<and>
   (\<exists>T. hwf (h_mem hoh_demo) T \<and> replay (h_hist hoh_demo) [] = Some (cpairs T))"
proof
  show "h_hist hoh_demo = [(1, CInsert 4 (Some 40), None), (1, CInsert 6 (Some 60), None), (1, CInsert 2 (Some 20), None),
     (2, CDelete 4, None), (3, CLookup 2, Some 20)]" by code_simp
  show "\<exists>T. hwf (h_mem hoh_demo) T \<and> replay (h_hist hoh_demo) [] = Some (cpairs T)"
    using hoh_linearizable [OF treebox_new_hoh_Some hoh_demo_reach] by simp
qed

text \<open>A deletion that has come to its last step.\<close>

definition hoh_last :: hsys where
  "hoh_last = foldl hoh_act (hoh_start (the (treebox_new_hoh 0))) (replicate 4 (1, CInsert 4 (Some 40)) @ replicate 7 (2, CDelete 4))"

text \<open>C27: in every reachable state of the hand-over-hand tree, no two threads are at program points that need the lock of
  the same cell, and the lock of each of these cells is held by that thread. The next step of a thread is defined by the
  letter of POSIX (\<open>hoh_turn_posix\<close>) with one exception: the last step of a deletion, which \<^verbatim>\<open>pushdown_left\<close> takes when it
  holds the locks of both children of the node it unlinks (\<open>PHasL\<close>), is always undefined, for it destroys mutexes its own
  thread holds. Where the implementation of mutexes lets this pass (\<open>hoh_turn\<close>), no step is undefined.\<close>

theorem hoh_safe:
  assumes "treebox_new_hoh t0 = Some m0" "hoh_step\<^sup>*\<^sup>* (hoh_start m0) \<sigma>"
  shows "(t \<noteq> u \<longrightarrow> held (h_pc \<sigma> t) \<inter> held (h_pc \<sigma> u) = {}) \<and>
    (\<forall>c\<in>held (h_pc \<sigma> t). \<exists>cl. hcells (h_mem \<sigma>) c = Some cl \<and> hlock cl = LockedBy t) \<and>
    (hoh_turn_posix t (h_pc \<sigma> t) (h_mem \<sigma>) = Fault \<longleftrightarrow> (\<exists>x tgp p tgq tgl. h_pc \<sigma> t = PHasL x tgp p tgq tgl)) \<and>
    hoh_turn t (h_pc \<sigma> t) (h_mem \<sigma>) \<noteq> Fault"
proof -
  obtain T where g: "good T (h_mem \<sigma>) (h_pc \<sigma>) (h_hist \<sigma>)"
    using hinv_reach [OF assms(2) hinv_start [OF assms(1)]] by (auto simp: hinv_def)
  then have lk: "locks_ok (h_mem \<sigma>) (h_pc \<sigma>)" by (simp add: good_def)
  have locked: "\<forall>c\<in>held (h_pc \<sigma> t). \<exists>cl. hcells (h_mem \<sigma>) c = Some cl \<and> hlock cl = LockedBy t"
    using locks_ok_dom [OF lk] locks_ok_iff [OF lk] by fastforce
  have turn: "hoh_turn t (h_pc \<sigma> t) (h_mem \<sigma>) \<noteq> Fault"
    using hoh_turn_well [OF g, of t] by (auto simp: steps_well_def)
  show ?thesis
    using turn locked locks_disjoint [OF lk, of t u] posix_turn [OF locked turn] by blast
qed

theorem hoh_safe_witness:
  "hoh_turn 3 (h_pc hoh_demo 3) (h_mem hoh_demo) \<noteq> Fault \<and>
   held (h_pc hoh_demo 2) \<inter> held (h_pc hoh_demo 3) = {} \<and>
   hoh_turn_posix 2 (h_pc hoh_last 2) (h_mem hoh_last) = Fault"
proof (intro conjI)
  note safe = hoh_safe [OF treebox_new_hoh_Some hoh_demo_reach, of 2 3] hoh_safe [OF treebox_new_hoh_Some hoh_demo_reach, of 3 2]
  show "hoh_turn 3 (h_pc hoh_demo 3) (h_mem hoh_demo) \<noteq> Fault" "held (h_pc hoh_demo 2) \<inter> held (h_pc hoh_demo 3) = {}"
    using safe by auto
  have reach: "hoh_step\<^sup>*\<^sup>* (hoh_start (the (treebox_new_hoh 0))) hoh_last"
    unfolding hoh_last_def by (rule hoh_act_reach)
  have "case h_pc hoh_last 2 of PHasL x tgp p tgq tgl \<Rightarrow> True | _ \<Rightarrow> False" by code_simp
  then show "hoh_turn_posix 2 (h_pc hoh_last 2) (h_mem hoh_last) = Fault"
    using hoh_safe [OF treebox_new_hoh_Some reach, of 2 3] by (auto split: hpc.splits)
qed

text \<open>C28: the hand-over-hand tree does not deadlock: in every reachable state in which some call is under way, some
  thread with a call under way can take its next step; with mutexes that may be destroyed while held, as in C27.\<close>

theorem hoh_deadlock_free:
  assumes "treebox_new_hoh t0 = Some m0" "hoh_step\<^sup>*\<^sup>* (hoh_start m0) \<sigma>" "h_pc \<sigma> t \<noteq> HIdle"
  shows "\<exists>u res. h_pc \<sigma> u \<noteq> HIdle \<and> hoh_turn u (h_pc \<sigma> u) (h_mem \<sigma>) = Go res"
proof -
  obtain T where g: "good T (h_mem \<sigma>) (h_pc \<sigma>) (h_hist \<sigma>)"
    using hinv_reach [OF assms(2) hinv_start [OF assms(1)]] by (auto simp: hinv_def)
  show ?thesis using some_thread_moves [OF g assms(3)] .
qed

text \<open>A deletion and a search that waits for it.\<close>

definition hoh_busy :: hsys where
  "hoh_busy = foldl hoh_act (hoh_start (the (treebox_new_hoh 0)))
     (replicate 4 (1, CInsert 4 (Some 40)) @ replicate 7 (1, CInsert 6 (Some 60)) @
      replicate 5 (2, CDelete 4) @ replicate 4 (3, CLookup 6))"

theorem hoh_deadlock_free_witness:
  "(case hoh_turn 3 (h_pc hoh_busy 3) (h_mem hoh_busy) of Blocked \<Rightarrow> True | _ \<Rightarrow> False) \<and>
   (\<exists>u res. h_pc hoh_busy u \<noteq> HIdle \<and> hoh_turn u (h_pc hoh_busy u) (h_mem hoh_busy) = Go res)"
proof
  show "case hoh_turn 3 (h_pc hoh_busy 3) (h_mem hoh_busy) of Blocked \<Rightarrow> True | _ \<Rightarrow> False" by code_simp
  have "h_pc hoh_busy 3 \<noteq> HIdle" by code_simp
  moreover have "hoh_step\<^sup>*\<^sup>* (hoh_start (the (treebox_new_hoh 0))) hoh_busy"
    unfolding hoh_busy_def by (rule hoh_act_reach)
  ultimately show "\<exists>u res. h_pc hoh_busy u \<noteq> HIdle \<and> hoh_turn u (h_pc hoh_busy u) (h_mem hoh_busy) = Go res"
    using hoh_deadlock_free [OF treebox_new_hoh_Some] by blast
qed

text \<open>\<^verbatim>\<open>treebox_free\<close> of the hand-over-hand tree, when no call is under way, returns and releases every cell with
  its lock and every node.\<close>

theorem hoh_free:
  assumes "treebox_new_hoh t0 = Some m0" "hoh_step\<^sup>*\<^sup>* (hoh_start m0) \<sigma>" "\<forall>t. h_pc \<sigma> t = HIdle"
  shows "\<exists>m. treebox_free_hoh t (h_mem \<sigma>) = Some m \<and> hcells m = Map.empty \<and> hnodes m = Map.empty"
proof -
  obtain T where g: "good T (h_mem \<sigma>) (h_pc \<sigma>) (h_hist \<sigma>)"
    using hinv_reach [OF assms(2) hinv_start [OF assms(1)]] by (auto simp: hinv_def)
  then have wf: "hwf (h_mem \<sigma>) T" and lk: "locks_ok (h_mem \<sigma>) (h_pc \<sigma>)" by (simp_all add: good_def)
  have "\<exists>cl. hcells (h_mem \<sigma>) c = Some cl \<and> hlock cl = Unlocked" if "c \<in> set (cell_list T)" for c
  proof -
    from that wf have "c \<in> dom (hcells (h_mem \<sigma>))" by (simp add: hwf_def)
    then obtain cl where cl: "hcells (h_mem \<sigma>) c = Some cl" by blast
    then have "hlock cl \<noteq> Destroyed" "\<forall>u. hlock cl \<noteq> LockedBy u"
      using lk assms(3) by (simp_all add: locks_ok_def)
    with cl show ?thesis by (cases "hlock cl") auto
  qed
  then have "tree_free_hoh t (cell_of T) (h_mem \<sigma>) = Some ((h_mem \<sigma>)
      \<lparr>hcells := hcells (h_mem \<sigma>) |` (- set (cell_list T)), hnodes := hnodes (h_mem \<sigma>) |` (- set (node_list T))\<rparr>)"
    using wf by (intro tree_free_hoh_frees) (simp_all add: hwf_def)
  moreover have "hcells (h_mem \<sigma>) |` (- set (cell_list T)) = Map.empty"
    "hnodes (h_mem \<sigma>) |` (- set (node_list T)) = Map.empty"
    using wf by (auto simp: hwf_def restrict_map_def fun_eq_iff)
  ultimately show ?thesis using wf by (simp add: treebox_free_hoh_def hwf_def)
qed

theorem hoh_free_witness:
  "\<exists>m. treebox_free_hoh 1 (the (treebox_new_hoh 0)) = Some m \<and> hcells m = Map.empty"
  using hoh_free [OF treebox_new_hoh_Some [of 0] rtranclp.rtrancl_refl, of 1] by (auto simp: hoh_start_def)

section \<open>No lock at all\<close>

text \<open>C30: the lock-free tree is linearisable: in every reachable state of any number of threads that insert and look
  up, the calls in the order their results settled are a run of the sequential map, the tree in memory is a search
  tree that holds the map this run leads to, and a thread about to return returns the result of its last call.\<close>

theorem nb_linearizable:
  assumes "nb_step\<^sup>*\<^sup>* nb_start \<sigma>"
  shows "(\<exists>T. nwf (n_mem \<sigma>) T \<and> replay (n_hist \<sigma>) [] = Some (cpairs T)) \<and>
    (\<forall>t c r. n_pc \<sigma> t = NDone c r \<longrightarrow>
       (\<exists>h1 h2. n_hist \<sigma> = h1 @ (t, c, r) # h2 \<and> t \<notin> fst ` set h2))"
proof -
  obtain T where "ngood T (n_mem \<sigma>) (n_pc \<sigma>) (n_hist \<sigma>)"
    using ninv_reach [OF assms ninv_start] by (auto simp: ninv_def)
  then show ?thesis by (auto simp: ngood_def nsettled_def)
qed

text \<open>Two threads race for the empty root: the second compare-and-swap fails and its thread goes on below the
  first thread's node with the stale expected value.\<close>

definition nb_demo :: nsys where
  "nb_demo = foldl nb_act nb_start
     ([(1, CInsert 4 (Some 40)), (2, CInsert 6 (Some 60)), (1, CInsert 4 (Some 40)), (2, CInsert 6 (Some 60)),
       (1, CInsert 4 (Some 40)), (2, CInsert 6 (Some 60)), (1, CInsert 4 (Some 40))] @
      replicate 8 (2, CInsert 6 (Some 60)) @ replicate 6 (1, CLookup 6))"

lemma nb_demo_reach: "nb_step\<^sup>*\<^sup>* nb_start nb_demo"
  unfolding nb_demo_def by (rule nb_act_reach)

theorem nb_linearizable_witness:
  "n_hist nb_demo = [(1, CInsert 4 (Some 40), None), (2, CInsert 6 (Some 60), None), (1, CLookup 6, Some 60)] \<and>
   (\<exists>T. nwf (n_mem nb_demo) T \<and> replay (n_hist nb_demo) [] = Some (cpairs T))"
proof
  show "n_hist nb_demo = [(1, CInsert 4 (Some 40), None), (2, CInsert 6 (Some 60), None), (1, CLookup 6, Some 60)]"
    by code_simp
  show "\<exists>T. nwf (n_mem nb_demo) T \<and> replay (n_hist nb_demo) [] = Some (cpairs T)"
    using nb_linearizable [OF nb_demo_reach] by simp
qed

text \<open>In every reachable state of the lock-free tree every thread with a call under way can take its next step: it
  neither waits nor does anything undefined, and a compare-and-swap whose expected value is stale never succeeds.\<close>

theorem nb_never_waits:
  assumes "nb_step\<^sup>*\<^sup>* nb_start \<sigma>" "n_pc \<sigma> t \<noteq> NIdle"
  shows "(\<exists>res. nb_turn (n_pc \<sigma> t) (n_mem \<sigma>) = Go res) \<and>
    (\<forall>x v a ref p. n_pc \<sigma> t = NCas x v a ref p \<longrightarrow> natoms (n_mem \<sigma>) a = Some ref \<longrightarrow> ref = None)"
proof -
  obtain T where g: "ngood T (n_mem \<sigma>) (n_pc \<sigma>) (n_hist \<sigma>)"
    using ninv_reach [OF assms(1) ninv_start] by (auto simp: ninv_def)
  have wf: "nwf (n_mem \<sigma>) T" and okt: "nok T (n_mem \<sigma>) (n_pc \<sigma> t)" using g by (simp_all add: ngood_def)
  have "ref = None" if "n_pc \<sigma> t = NCas x v a ref p" "natoms (n_mem \<sigma>) a = Some ref" for x v a ref p
    using cas_finds_empty [OF wf _ that(2)] okt that(1) by metis
  then show ?thesis using nb_turn_well [OF g assms(2)] by (auto simp: nsteps_well_def)
qed

theorem nb_never_waits_witness:
  "\<exists>res. nb_turn (NStart (CInsert 4 (Some 40))) treebox_new_nb = Go res"
proof -
  have "nb_step nb_start (nb_start\<lparr>n_pc := (n_pc nb_start)(1 := NStart (CInsert 4 (Some 40)))\<rparr>)"
    by (rule nb_step.intros) (simp_all add: nb_start_def)
  from nb_never_waits [OF r_into_rtranclp [of nb_step, OF this], of 1] show ?thesis by (simp add: nb_start_def)
qed

section \<open>The list of retired nodes\<close>

text \<open>On the list a pointer leads to, \<^verbatim>\<open>detach\<close> removes exactly the given cell and frees it, \<^verbatim>\<open>append\<close> links
  a second list behind it, \<^verbatim>\<open>size\<close> counts it when the count fits an \<^verbatim>\<open>int\<close>, and \<^verbatim>\<open>search\<close> finds its pointers.\<close>

theorem list_operations:
  assumes "llist m x xs" "distinct (map fst xs)" "llist m y ys" "fst ` set xs \<inter> fst ` set ys = {}"
    and "int (length xs) < 2 ^ 31"
  shows "(\<exists>m' x'. detach_ll m x z = Some (m', x') \<and> llist m' x' (filter (\<lambda>e. Some (fst e) \<noteq> z) xs) \<and>
      (\<forall>a\<in>fst ` set xs. z = Some a \<longrightarrow> lcells m' a = None)) \<and>
    (\<exists>m' x'. append_ll m x y = Some (m', x') \<and> llist m' x' (xs @ ys)) \<and>
    size_ll m x = Some (int (length xs)) \<and> search_ll m x q = Some (q \<in> snd ` set xs)"
proof -
  have "\<exists>m' x'. append_ll m x y = Some (m', x') \<and> llist m' x' (xs @ ys)"
  proof (cases x)
    case None
    then have "xs = []" using assms(1) by (cases xs) auto
    then show ?thesis using None assms(3) by (simp add: append_ll_def)
  next
    case (Some t)
    then show ?thesis using append_loop_appends [of m t xs y ys] assms(1-4) by (auto simp: append_ll_def)
  qed
  moreover have "size_ll m x = Some (int (length xs))"
    using size_loop_counts [OF assms(1), of 0] assms(5) by (simp add: size_ll_def)
  ultimately show ?thesis using detach_ll_detaches [OF assms(1,2), of z] search_ll_finds [OF assms(1)] by blast
qed

theorem list_operations_witness:
  "case createNode \<lparr>lcells = Map.empty, lnext = 0\<rparr> (Some 7) of (m, p) \<Rightarrow>
     case createNode m (Some 8) of (m, q) \<Rightarrow>
       size_ll m p = Some 1 \<and> (\<exists>m' x'. append_ll m p q = Some (m', x') \<and> llist m' x' [(0, Some 7), (1, Some 8)])"
proof -
  define m where "m = \<lparr>lcells = [0 \<mapsto> \<lparr>lptr = Some 7, ltail = None\<rparr>, 1 \<mapsto> \<lparr>lptr = Some 8, ltail = None\<rparr>], lnext = 2\<rparr>"
  have "llist m (Some 0) [(0, Some 7)]" "llist m (Some 1) [(1, Some 8)]" by (simp_all add: m_def)
  from list_operations [OF this(1) _ this(2), of None None]
  have "size_ll m (Some 0) = Some 1" "\<exists>m' x'. append_ll m (Some 0) (Some 1) = Some (m', x') \<and>
      llist m' x' [(0, Some 7), (1, Some 8)]" by simp_all
  then show ?thesis by (simp add: createNode_def m_def numeral_2_eq_2)
qed

end
