(* ===== verification/TK_Model.thy ===== *)
theory TK_Model
  imports DB_Prelude
begin

text \<open>
  The tuple-key index (\<^verbatim>\<open>src/tuplekey\<close>): the chained hash table of \<^verbatim>\<open>inthash.c\<close>, the string list
  of \<^verbatim>\<open>stringlist.c\<close> with its cursors, the method tables of \<^verbatim>\<open>inthash_schema.c\<close> and
  \<^verbatim>\<open>stringlist_schema.c\<close>, the dispatch of \<^verbatim>\<open>index.c\<close> and the composite index of
  \<^verbatim>\<open>tuple_schema.c\<close>, all over one heap of C objects.
\<close>

section \<open>Memory\<close>

text \<open>\<^verbatim>\<open>void *\<close>, \<^verbatim>\<open>size_t\<close> and every pointer type are machine words (the code casts between
  them); 0 is \<^verbatim>\<open>NULL\<close>. A string is its characters without the terminator.\<close>

type_synonym cword = u64

record icell =
  ic_key :: cword
  ic_value :: cword
  ic_next :: cword

record scell =
  sc_key :: cword
  sc_value :: cword
  sc_next :: cword

record keypair =
  kp_a :: cword
  kp_b :: cword

record kvpair =
  pr_key :: cword
  pr_value :: cword

record lcursor =
  lc_list :: cword
  lc_cur :: int

text \<open>The list elements and queues of \<^verbatim>\<open>src/db_ops/queue2.c\<close>, whose operators share this memory.\<close>

record elem_c =
  el_data :: cword
  el_next :: cword

record fifo_c =
  fq_head :: cword
  fq_tail :: cword

datatype cobj =
    Icell icell
  | Inthash "cword list"
  | Scell scell
  | Stringlist cword
  | Str string
  | Keypair keypair
  | Pair kvpair
  | Cursor lcursor
  | Tuple "cword list"
  | Elem elem_c
  | Fifo fifo_c

text \<open>\<open>tbrk\<close> is the first address not yet handed out; \<^verbatim>\<open>malloc\<close> answers \<^verbatim>\<open>NULL\<close> when no address
  is left.\<close>

record theap =
  tmem :: "cword \<Rightarrow> cobj option"
  tbrk :: nat

definition poke :: "theap \<Rightarrow> cword \<Rightarrow> cobj \<Rightarrow> theap" where
  "poke h a ob = h\<lparr>tmem := (tmem h)(a \<mapsto> ob)\<rparr>"

definition malloc_c :: "theap \<Rightarrow> cobj \<Rightarrow> cword \<times> theap" where
  "malloc_c h ob = (if tbrk h < 2 ^ 64
     then (word_of_nat (tbrk h), (poke h (word_of_nat (tbrk h)) ob)\<lparr>tbrk := Suc (tbrk h)\<rparr>)
     else (0, h))"

definition icell_at :: "theap \<Rightarrow> cword \<Rightarrow> icell option" where
  "icell_at h p = (case tmem h p of Some (Icell c) \<Rightarrow> Some c | _ \<Rightarrow> None)"

definition scell_at :: "theap \<Rightarrow> cword \<Rightarrow> scell option" where
  "scell_at h p = (case tmem h p of Some (Scell c) \<Rightarrow> Some c | _ \<Rightarrow> None)"

definition hash_at :: "theap \<Rightarrow> cword \<Rightarrow> cword list option" where
  "hash_at h p = (case tmem h p of Some (Inthash b) \<Rightarrow> Some b | _ \<Rightarrow> None)"

definition root_at :: "theap \<Rightarrow> cword \<Rightarrow> cword option" where
  "root_at h p = (case tmem h p of Some (Stringlist q) \<Rightarrow> Some q | _ \<Rightarrow> None)"

definition str_at :: "theap \<Rightarrow> cword \<Rightarrow> string option" where
  "str_at h p = (case tmem h p of Some (Str s) \<Rightarrow> Some s | _ \<Rightarrow> None)"

definition keypair_at :: "theap \<Rightarrow> cword \<Rightarrow> keypair option" where
  "keypair_at h p = (case tmem h p of Some (Keypair k) \<Rightarrow> Some k | _ \<Rightarrow> None)"

definition cursor_c_at :: "theap \<Rightarrow> cword \<Rightarrow> lcursor option" where
  "cursor_c_at h p = (case tmem h p of Some (Cursor c) \<Rightarrow> Some c | _ \<Rightarrow> None)"

text \<open>The address of a pointer variable, \<^verbatim>\<open>&p->buckets[i]\<close>, \<^verbatim>\<open>&p->root\<close> or \<^verbatim>\<open>&p->next\<close>: the object it
  lies in, and the field.\<close>

datatype loc = BucketOf cword nat | RootOf cword | INextOf cword | SNextOf cword

fun loc_obj :: "loc \<Rightarrow> cword" where
  "loc_obj (BucketOf p i) = p"
| "loc_obj (RootOf p) = p"
| "loc_obj (INextOf p) = p"
| "loc_obj (SNextOf p) = p"

fun get_field :: "loc \<Rightarrow> cobj \<Rightarrow> cword option" where
  "get_field (BucketOf p i) (Inthash b) = array_at b (int i)"
| "get_field (RootOf p) (Stringlist q) = Some q"
| "get_field (INextOf p) (Icell c) = Some (ic_next c)"
| "get_field (SNextOf p) (Scell c) = Some (sc_next c)"
| "get_field _ _ = None"

fun set_field :: "loc \<Rightarrow> cword \<Rightarrow> cobj \<Rightarrow> cobj option" where
  "set_field (BucketOf p i) v (Inthash b) = map_option Inthash (array_set b (int i) v)"
| "set_field (RootOf p) v (Stringlist q) = Some (Stringlist v)"
| "set_field (INextOf p) v (Icell c) = Some (Icell (c\<lparr>ic_next := v\<rparr>))"
| "set_field (SNextOf p) v (Scell c) = Some (Scell (c\<lparr>sc_next := v\<rparr>))"
| "set_field _ _ _ = None"

definition load_loc :: "theap \<Rightarrow> loc \<Rightarrow> cword option" where
  "load_loc h r = Option.bind (tmem h (loc_obj r)) (get_field r)"

definition store_loc :: "theap \<Rightarrow> loc \<Rightarrow> cword \<Rightarrow> theap option" where
  "store_loc h r v = map_option (poke h (loc_obj r)) (Option.bind (tmem h (loc_obj r)) (set_field r v))"

section \<open>inthash.c\<close>

definition N_buckets :: nat where
  "N_buckets = 10"

text \<open>\<^verbatim>\<open>for (i=0; i<N; i++) p->buckets[i]=NULL\<close>, over the contents the fresh memory happens to have.\<close>

fun clear_buckets :: "nat \<Rightarrow> nat \<Rightarrow> cword list \<Rightarrow> cword list" where
  "clear_buckets 0 i b = b"
| "clear_buckets (Suc n) i b = clear_buckets n (Suc i) (b[i := 0])"

definition inthash_new :: "theap \<Rightarrow> (cword \<times> theap) option" where
  "inthash_new h = (case malloc_c h (Inthash (replicate N_buckets (- 1))) of (p, h) \<Rightarrow>
     if p = 0 then None
     else do {
       b \<leftarrow> hash_at h p;
       Some (p, poke h p (Inthash (clear_buckets N_buckets 0 b))) })"

definition new_icell :: "theap \<Rightarrow> cword \<Rightarrow> cword \<Rightarrow> cword \<Rightarrow> (cword \<times> theap) option" where
  "new_icell h key v next = (case malloc_c h (Icell \<lparr>ic_key = key, ic_value = v, ic_next = next\<rparr>) of (p, h) \<Rightarrow>
     if p = 0 then None else Some (p, h))"

definition bucket_of :: "cword \<Rightarrow> nat" where
  "bucket_of key = unat (key mod 10)"

partial_function (option) ilookup_loop :: "theap \<Rightarrow> cword \<Rightarrow> cword \<Rightarrow> cword option" where
  "ilookup_loop h key q = (if q = 0 then Some 0
     else do {
       c \<leftarrow> icell_at h q;
       if ic_key c = key then Some (ic_value c) else ilookup_loop h key (ic_next c) })"

definition inthash_lookup :: "theap \<Rightarrow> cword \<Rightarrow> cword \<Rightarrow> cword option" where
  "inthash_lookup h p key = do {
     b \<leftarrow> hash_at h p;
     q \<leftarrow> array_at b (int (bucket_of key));
     ilookup_loop h key q }"

partial_function (option) inthash_insert_list :: "theap \<Rightarrow> loc \<Rightarrow> cword \<Rightarrow> (cword \<times> theap) option" where
  "inthash_insert_list h r key = do {
     p \<leftarrow> load_loc h r;
     if p = 0 then do {
       (p, h) \<leftarrow> new_icell h key 0 0;
       h \<leftarrow> store_loc h r p;
       Some (p, h) }
     else do {
       c \<leftarrow> icell_at h p;
       if ic_key c = key then Some (p, h)
       else inthash_insert_list h (INextOf p) key } }"

definition inthash_insert :: "theap \<Rightarrow> cword \<Rightarrow> cword \<Rightarrow> cword \<Rightarrow> (cword \<times> theap) option" where
  "inthash_insert h p key v = do {
     (q, h) \<leftarrow> inthash_insert_list h (BucketOf p (bucket_of key)) key;
     c \<leftarrow> icell_at h q;
     Some (ic_value c, poke h q (Icell (c\<lparr>ic_value := v\<rparr>))) }"

section \<open>stringlist.c\<close>

definition stringlist_new :: "theap \<Rightarrow> (cword \<times> theap) option" where
  "stringlist_new h = (case malloc_c h (Stringlist (- 1)) of (p, h) \<Rightarrow>
     if p = 0 then None else Some (p, poke h p (Stringlist 0)))"

text \<open>\<^verbatim>\<open>int n = strlen(s)+1\<close> narrows to 32 bits; \<^verbatim>\<open>malloc(n)\<close> of a negative \<open>n\<close> asks for almost the
  whole address space and fails, and \<^verbatim>\<open>strcpy\<close> writes past a block that is too small.\<close>

definition copy_string :: "theap \<Rightarrow> cword \<Rightarrow> (cword \<times> theap) option" where
  "copy_string h s = do {
     cs \<leftarrow> str_at h s;
     let n = sint (word_of_nat (Suc (length cs)) :: 32 word);
     case malloc_c h (Str cs) of (p, h) \<Rightarrow>
       if n < 0 \<or> p = 0 then None
       else if n < int (Suc (length cs)) then None
       else Some (p, h) }"

definition new_scell :: "theap \<Rightarrow> cword \<Rightarrow> cword \<Rightarrow> cword \<Rightarrow> (cword \<times> theap) option" where
  "new_scell h key v next = (case malloc_c h (Scell \<lparr>sc_key = - 1, sc_value = - 1, sc_next = - 1\<rparr>) of (p, h) \<Rightarrow>
     if p = 0 then None
     else do {
       (k, h) \<leftarrow> copy_string h key;
       Some (p, poke h p (Scell \<lparr>sc_key = k, sc_value = v, sc_next = next\<rparr>)) })"

text \<open>\<^verbatim>\<open>strcmp(s, t) == 0\<close>.\<close>

definition streq :: "theap \<Rightarrow> cword \<Rightarrow> cword \<Rightarrow> bool option" where
  "streq h s t = do { x \<leftarrow> str_at h s; y \<leftarrow> str_at h t; Some (x = y) }"

partial_function (option) sinsert_loop :: "theap \<Rightarrow> loc \<Rightarrow> cword \<Rightarrow> cword \<Rightarrow> (cword \<times> theap) option" where
  "sinsert_loop h r key v = do {
     q \<leftarrow> load_loc h r;
     if q = 0 then do {
       (n, h) \<leftarrow> new_scell h key v 0;
       h \<leftarrow> store_loc h r n;
       Some (0, h) }
     else do {
       c \<leftarrow> scell_at h q;
       e \<leftarrow> streq h (sc_key c) key;
       if e then Some (sc_value c, poke h q (Scell (c\<lparr>sc_value := v\<rparr>)))
       else sinsert_loop h (SNextOf q) key v } }"

definition stringlist_insert :: "theap \<Rightarrow> cword \<Rightarrow> cword \<Rightarrow> cword \<Rightarrow> (cword \<times> theap) option" where
  "stringlist_insert h p key v = sinsert_loop h (RootOf p) key v"

partial_function (option) slookup_loop :: "theap \<Rightarrow> cword \<Rightarrow> cword \<Rightarrow> cword option" where
  "slookup_loop h key q = (if q = 0 then Some 0
     else do {
       c \<leftarrow> scell_at h q;
       e \<leftarrow> streq h (sc_key c) key;
       if e then Some (sc_value c) else slookup_loop h key (sc_next c) })"

definition stringlist_lookup :: "theap \<Rightarrow> cword \<Rightarrow> cword \<Rightarrow> cword option" where
  "stringlist_lookup h p key = do { q \<leftarrow> root_at h p; slookup_loop h key q }"

text \<open>\<^verbatim>\<open>i++\<close> on an \<^verbatim>\<open>int\<close>: undefined past \<^verbatim>\<open>INT_MAX\<close>.\<close>

definition incr_int :: "int \<Rightarrow> int option" where
  "incr_int i = (if i < 2 ^ 31 - 1 then Some (i + 1) else None)"

partial_function (option) card_loop :: "theap \<Rightarrow> cword \<Rightarrow> int \<Rightarrow> int option" where
  "card_loop h q cnt = (if q = 0 then Some cnt
     else do { c \<leftarrow> scell_at h q; cnt \<leftarrow> incr_int cnt; card_loop h (sc_next c) cnt })"

definition stringlist_cardinality :: "theap \<Rightarrow> cword \<Rightarrow> int option" where
  "stringlist_cardinality h p = do { q \<leftarrow> root_at h p; card_loop h q 0 }"

subsection \<open>Cursors\<close>

text \<open>The position of the key, or -1 (the loop ends and the cursor is set to 0).\<close>

partial_function (option) cursor_loop :: "theap \<Rightarrow> cword \<Rightarrow> cword \<Rightarrow> int \<Rightarrow> int option" where
  "cursor_loop h key q cur = (if q = 0 then Some 0
     else do {
       c \<leftarrow> scell_at h q;
       e \<leftarrow> streq h (sc_key c) key;
       if e then Some cur
       else do { cur \<leftarrow> incr_int cur; cursor_loop h key (sc_next c) cur } })"

definition stringlist_get_cursor :: "theap \<Rightarrow> cword \<Rightarrow> cword \<Rightarrow> (cword \<times> theap) option" where
  "stringlist_get_cursor h p key = (case malloc_c h (Cursor \<lparr>lc_list = p, lc_cur = - 1\<rparr>) of (mc, h) \<Rightarrow>
     if mc = 0 then None
     else do {
       q \<leftarrow> root_at h p;
       cur \<leftarrow> cursor_loop h key q 0;
       Some (mc, poke h mc (Cursor \<lparr>lc_list = p, lc_cur = cur\<rparr>)) })"

text \<open>Past the end the loop leaves the local \<^verbatim>\<open>pair\<close> unset, and the code returns it.\<close>

partial_function (option) pair_loop :: "theap \<Rightarrow> int \<Rightarrow> cword \<Rightarrow> int \<Rightarrow> (cword \<times> theap) option" where
  "pair_loop h cur q position = (if q = 0 then None
     else do {
       c \<leftarrow> scell_at h q;
       if cur = position then
         (case malloc_c h (Pair \<lparr>pr_key = sc_key c, pr_value = sc_value c\<rparr>) of (pair, h) \<Rightarrow>
            if pair = 0 then None else Some (pair, h))
       else do { position \<leftarrow> incr_int position; pair_loop h cur (sc_next c) position } })"

definition stringlist_get_pair :: "theap \<Rightarrow> cword \<Rightarrow> (cword \<times> theap) option" where
  "stringlist_get_pair h mc = do {
     m \<leftarrow> cursor_c_at h mc;
     q \<leftarrow> root_at h (lc_list m);
     pair_loop h (lc_cur m) q 0 }"

definition stringlist_move_to_next :: "theap \<Rightarrow> cword \<Rightarrow> theap option" where
  "stringlist_move_to_next h mc = do {
     m \<leftarrow> cursor_c_at h mc;
     len \<leftarrow> stringlist_cardinality h (lc_list m);
     cur \<leftarrow> incr_int (lc_cur m);
     Some (poke h mc (Cursor (m\<lparr>lc_cur := (if cur > len then len - 1 else if cur \<le> 0 then 0 else cur)\<rparr>))) }"

definition stringlist_move_to_first :: "theap \<Rightarrow> cword \<Rightarrow> theap option" where
  "stringlist_move_to_first h mc = do {
     m \<leftarrow> cursor_c_at h mc;
     Some (poke h mc (Cursor (m\<lparr>lc_cur := 0\<rparr>))) }"

section \<open>Method tables and schemas\<close>

text \<open>The methods take the private data of the schema, which the two basic ones ignore.\<close>

definition inthash_new_method :: "theap \<Rightarrow> (cword \<times> theap) option" where
  "inthash_new_method h = inthash_new h"

definition inthash_insert_method :: "theap \<Rightarrow> cword \<Rightarrow> cword \<Rightarrow> cword \<Rightarrow> (cword \<times> theap) option" where
  "inthash_insert_method h ind key v = inthash_insert h ind key v"

definition inthash_lookup_method :: "theap \<Rightarrow> cword \<Rightarrow> cword \<Rightarrow> cword option" where
  "inthash_lookup_method h ind key = inthash_lookup h ind key"

definition stringlist_new_method :: "theap \<Rightarrow> (cword \<times> theap) option" where
  "stringlist_new_method h = stringlist_new h"

definition stringlist_insert_method :: "theap \<Rightarrow> cword \<Rightarrow> cword \<Rightarrow> cword \<Rightarrow> (cword \<times> theap) option" where
  "stringlist_insert_method h ind key v = stringlist_insert h ind key v"

definition stringlist_lookup_method :: "theap \<Rightarrow> cword \<Rightarrow> cword \<Rightarrow> cword option" where
  "stringlist_lookup_method h ind key = stringlist_lookup h ind key"

text \<open>A \<^verbatim>\<open>struct schema_t\<close> is one of the two static schemas or one built by \<^verbatim>\<open>tuple_schema\<close>; its
  constructor stands for the method table it points to, its arguments for the private data.\<close>

datatype schema =
    Inthash_schema
  | Stringlist_schema
  | Schemapair schema schema

definition tuple_schema :: "schema \<Rightarrow> schema \<Rightarrow> schema" where
  "tuple_schema a b = Schemapair a b"

definition build_keypair :: "theap \<Rightarrow> cword \<Rightarrow> cword \<Rightarrow> (cword \<times> theap) option" where
  "build_keypair h a b = (case malloc_c h (Keypair \<lparr>kp_a = a, kp_b = b\<rparr>) of (p, h) \<Rightarrow>
     if p = 0 then None else Some (p, h))"

function (sequential) index_new :: "schema \<Rightarrow> theap \<Rightarrow> (cword \<times> theap) option"
  and tuple_new_method :: "schema \<Rightarrow> schema \<Rightarrow> theap \<Rightarrow> (cword \<times> theap) option" where
  "index_new Inthash_schema h = inthash_new_method h"
| "index_new Stringlist_schema h = stringlist_new_method h"
| "index_new (Schemapair a b) h = tuple_new_method a b h"
| "tuple_new_method a b h = index_new a h"
  by pat_completeness auto
termination
  by (relation "measure (case_sum (\<lambda>(s, _). 2 * size s) (\<lambda>(a, b, _). 2 * size a + 2 * size b + 1))") auto

function (sequential) index_lookup :: "schema \<Rightarrow> theap \<Rightarrow> cword \<Rightarrow> cword \<Rightarrow> cword option"
  and tuple_lookup_method :: "schema \<Rightarrow> schema \<Rightarrow> theap \<Rightarrow> cword \<Rightarrow> cword \<Rightarrow> cword option" where
  "index_lookup Inthash_schema h ind key = inthash_lookup_method h ind key"
| "index_lookup Stringlist_schema h ind key = stringlist_lookup_method h ind key"
| "index_lookup (Schemapair a b) h ind key = tuple_lookup_method a b h ind key"
| "tuple_lookup_method a b h ind key = do {
     k \<leftarrow> keypair_at h key;
     bindex \<leftarrow> index_lookup a h ind (kp_a k);
     if bindex = 0 then Some 0 else index_lookup b h bindex (kp_b k) }"
  by pat_completeness auto
termination
  by (relation "measure (case_sum (\<lambda>(s, _). 2 * size s) (\<lambda>(a, b, _). 2 * size a + 2 * size b + 1))") auto

function (sequential) index_insert :: "schema \<Rightarrow> theap \<Rightarrow> cword \<Rightarrow> cword \<Rightarrow> cword \<Rightarrow> (cword \<times> theap) option"
  and tuple_insert_method :: "schema \<Rightarrow> schema \<Rightarrow> theap \<Rightarrow> cword \<Rightarrow> cword \<Rightarrow> cword \<Rightarrow> (cword \<times> theap) option" where
  "index_insert Inthash_schema h ind key v = inthash_insert_method h ind key v"
| "index_insert Stringlist_schema h ind key v = stringlist_insert_method h ind key v"
| "index_insert (Schemapair a b) h ind key v = tuple_insert_method a b h ind key v"
| "tuple_insert_method a b h ind key v = do {
     k \<leftarrow> keypair_at h key;
     bindex \<leftarrow> index_lookup a h ind (kp_a k);
     (bindex, h) \<leftarrow> (if bindex = 0
        then do {
          (bindex, h) \<leftarrow> index_new b h;
          (_, h) \<leftarrow> index_insert a h ind (kp_a k) bindex;
          Some (bindex, h) }
        else Some (bindex, h));
     index_insert b h bindex (kp_b k) v }"
  by pat_completeness auto
termination
  by (relation "measure (case_sum (\<lambda>(s, _). 2 * size s) (\<lambda>(a, b, _). 2 * size a + 2 * size b + 1))") auto

end
