(* ===== verification/TK_Chain.thy ===== *)
theory TK_Chain
  imports TK_Model
begin

text \<open>
  Heaps of the tuple-key index: what a call may change, fresh memory, and linked lists of cells. The
  insertion loops of \<^verbatim>\<open>inthash.c\<close> and \<^verbatim>\<open>stringlist.c\<close> run over different structs; the locale
  \<open>cell_list\<close> states what a loop does on an empty list, on a cell with the key and on another
  cell, and proves once that it updates the list.
\<close>

section \<open>What a call changes\<close>

definition heap_ok :: "theap \<Rightarrow> bool" where
  "heap_ok h \<longleftrightarrow> 0 < tbrk h \<and> (\<forall>a. tmem h a \<noteq> None \<longrightarrow> a \<noteq> 0 \<and> unat a < tbrk h)"

text \<open>Strings, key pairs and tuples are never written once made.\<close>

fun frozen :: "cobj \<Rightarrow> bool" where
  "frozen (Str s) = True"
| "frozen (Keypair k) = True"
| "frozen (Tuple t) = True"
| "frozen _ = False"

text \<open>\<open>changes G n h h'\<close>: the call writes objects of \<open>G\<close> only, never a frozen one, and allocates at
  most \<open>n\<close> objects.\<close>

definition changes :: "cword set \<Rightarrow> nat \<Rightarrow> theap \<Rightarrow> theap \<Rightarrow> bool" where
  "changes G n h h' \<longleftrightarrow> heap_ok h' \<and> tbrk h' \<le> tbrk h + n \<and>
     (\<forall>a ob. tmem h a = Some ob \<longrightarrow> a \<notin> G \<or> frozen ob \<longrightarrow> tmem h' a = Some ob)"

definition fresh :: "theap \<Rightarrow> cword set \<Rightarrow> bool" where
  "fresh h F \<longleftrightarrow> (\<forall>a\<in>F. tmem h a = None)"

lemma changesD:
  assumes "changes G n h h'"
  shows "heap_ok h'" "tbrk h' \<le> tbrk h + n"
    "tmem h a = Some ob \<Longrightarrow> a \<notin> G \<Longrightarrow> tmem h' a = Some ob"
    "tmem h a = Some ob \<Longrightarrow> frozen ob \<Longrightarrow> tmem h' a = Some ob"
  using assms by (auto simp: changes_def)

lemma changes_refl: "heap_ok h \<Longrightarrow> changes {} 0 h h"
  by (simp add: changes_def)

lemma changes_mono: "changes G n h h' \<Longrightarrow> G \<subseteq> G' \<Longrightarrow> n \<le> n' \<Longrightarrow> changes G' n' h h'"
  by (auto simp: changes_def)

lemma changes_trans:
  assumes "changes G n h h'" "changes G' n' h' h''" "fresh h (G' - G)"
  shows "changes G (n + n') h h''"
proof -
  have "tmem h'' a = Some ob" if "tmem h a = Some ob" "a \<notin> G \<or> frozen ob" for a ob
  proof -
    have "tmem h' a = Some ob" using assms(1) that by (auto simp: changes_def)
    moreover have "a \<notin> G' \<or> frozen ob" using that assms(3) by (force simp: fresh_def)
    ultimately show ?thesis using assms(2) by (auto simp: changes_def)
  qed
  then show ?thesis using assms(1,2) by (auto simp: changes_def)
qed

lemma fresh_changes: "changes G n h h' \<Longrightarrow> fresh h' F \<Longrightarrow> F \<inter> G = {} \<Longrightarrow> fresh h F"
  unfolding fresh_def by (metis IntI changesD(3) empty_iff not_Some_eq)

section \<open>Allocation and stores\<close>

lemma malloc_c_ok:
  assumes "heap_ok h" "tbrk h < 2 ^ 64"
  obtains p h' where "malloc_c h ob = (p, h')" "p \<noteq> 0" "tmem h p = None" "tmem h' = (tmem h)(p \<mapsto> ob)"
    "changes {} 1 h h'" "tbrk h' = Suc (tbrk h)"
proof -
  define p :: cword where "p = word_of_nat (tbrk h)"
  define h' where "h' = (poke h p ob)\<lparr>tbrk := Suc (tbrk h)\<rparr>"
  have u: "unat p = tbrk h" unfolding p_def using assms(2)
    by (simp add: unat_of_nat take_bit_eq_mod)
  have p0: "p \<noteq> 0" using u assms(1) by (auto simp: heap_ok_def)
  have none: "tmem h p = None" using assms(1) u by (metis heap_ok_def less_irrefl)
  have m: "tmem h' = (tmem h)(p \<mapsto> ob)" by (simp add: h'_def poke_def)
  have ok: "heap_ok h'" using assms(1) u p0 by (auto simp: heap_ok_def h'_def poke_def less_Suc_eq)
  have "changes {} 1 h h'"
    using ok none m by (auto simp: changes_def h'_def)
  moreover have "malloc_c h ob = (p, h')" using assms(2) by (simp add: malloc_c_def p_def h'_def)
  ultimately show thesis using that p0 none m by (simp add: h'_def)
qed

lemma poke_changes:
  assumes "heap_ok h" "tmem h a = Some ob" "\<not> frozen ob"
  shows "changes {a} 0 h (poke h a ob')"
  using assms by (auto simp: changes_def poke_def heap_ok_def)

lemma mem_poke [simp]: "tmem (poke h a ob) b = (if b = a then Some ob else tmem h b)"
  by (simp add: poke_def)

lemma brk_poke [simp]: "tbrk (poke h a ob) = tbrk h"
  by (simp add: poke_def)

lemma at_Some:
  "icell_at h p = Some c \<longleftrightarrow> tmem h p = Some (Icell c)"
  "scell_at h p = Some s \<longleftrightarrow> tmem h p = Some (Scell s)"
  "hash_at h p = Some b \<longleftrightarrow> tmem h p = Some (Inthash b)"
  "root_at h p = Some q \<longleftrightarrow> tmem h p = Some (Stringlist q)"
  "str_at h p = Some t \<longleftrightarrow> tmem h p = Some (Str t)"
  "keypair_at h p = Some k \<longleftrightarrow> tmem h p = Some (Keypair k)"
  "cursor_c_at h p = Some m \<longleftrightarrow> tmem h p = Some (Cursor m)"
  by (auto simp: icell_at_def scell_at_def hash_at_def root_at_def str_at_def keypair_at_def
      cursor_c_at_def split: option.splits cobj.splits)

lemma load_set_field: "set_field r v ob = Some ob' \<Longrightarrow> get_field r ob' = Some v"
  by (induction r v ob rule: set_field.induct) (auto simp: array_set_def array_at_def split: if_splits)

lemma set_field_total: "get_field r ob = Some u \<Longrightarrow> \<exists>ob'. set_field r v ob = Some ob'"
  by (induction r ob rule: get_field.induct) (auto simp: array_set_def array_at_def split: if_splits)

lemma set_field_frozen: "set_field r v ob = Some ob' \<Longrightarrow> \<not> frozen ob"
  by (induction r v ob rule: set_field.induct) auto

lemma set_field_same: "get_field r ob = Some u \<Longrightarrow> set_field r u ob = Some ob"
  by (induction r ob rule: get_field.induct) (auto simp: array_set_def array_at_def split: if_splits)

section \<open>Linked lists of cells\<close>

text \<open>The value of a key in a list of cells \<open>(address, key, value)\<close>, and the list after an insertion
  that uses cell \<open>n\<close> when the key is new.\<close>

fun cval :: "(cword \<times> 'k \<times> cword) list \<Rightarrow> 'k \<Rightarrow> cword" where
  "cval [] k = 0"
| "cval ((a, k', v) # cs) k = (if k' = k then v else cval cs k)"

fun cput :: "cword \<Rightarrow> 'k \<Rightarrow> cword \<Rightarrow> (cword \<times> 'k \<times> cword) list \<Rightarrow> (cword \<times> 'k \<times> cword) list" where
  "cput n k v [] = [(n, k, v)]"
| "cput n k v ((a, k', v') # cs) = (if k' = k then (a, k', v) # cs else (a, k', v') # cput n k v cs)"

abbreviation addrs :: "(cword \<times> 'k \<times> cword) list \<Rightarrow> cword set" where
  "addrs cs \<equiv> fst ` set cs"

lemma cval_cput [simp]: "cval (cput n k v cs) k' = (if k' = k then v else cval cs k')"
  by (induction n k v cs rule: cput.induct) auto

lemma addrs_cput: "addrs (cput n k v cs) = (if k \<in> (fst \<circ> snd) ` set cs then addrs cs else insert n (addrs cs))"
  by (induction n k v cs rule: cput.induct) (auto simp: image_iff)

lemma distinct_cput: "distinct (map fst cs) \<Longrightarrow> n \<notin> addrs cs \<Longrightarrow> distinct (map fst (cput n k v cs))"
proof (induction n k v cs rule: cput.induct)
  case (2 n k v a k' v' cs)
  then show ?case using addrs_cput [of n k v cs] by auto
qed simp

text \<open>\<open>chain cv h q cs\<close>: the list of cells \<open>cs\<close> starts at \<open>q\<close>, where \<open>cv\<close> reads a cell.\<close>

fun chain :: "(theap \<Rightarrow> cword \<Rightarrow> ('k \<times> cword \<times> cword) option) \<Rightarrow> theap \<Rightarrow> cword \<Rightarrow>
    (cword \<times> 'k \<times> cword) list \<Rightarrow> bool" where
  "chain cv h q [] \<longleftrightarrow> q = 0"
| "chain cv h q ((a, k, v) # cs) \<longleftrightarrow> q = a \<and> a \<noteq> 0 \<and> (\<exists>n. cv h a = Some (k, v, n) \<and> chain cv h n cs)"

lemma chain_frame:
  "chain cv h q cs \<Longrightarrow> (\<And>a. a \<in> addrs cs \<Longrightarrow> cv h' a = cv h a) \<Longrightarrow> chain cv h' q cs"
proof (induction cs arbitrary: q)
  case (Cons c cs)
  obtain a k v where c: "c = (a, k, v)" by (cases c)
  obtain n where n: "q = a" "a \<noteq> 0" "cv h a = Some (k, v, n)" "chain cv h n cs"
    using Cons.prems(1) by (auto simp: c)
  have "chain cv h' n cs" using Cons.IH [OF n(4)] Cons.prems(2) by simp
  moreover have "cv h' a = Some (k, v, n)" using Cons.prems(2) [of a] n(3) by (simp add: c)
  ultimately show ?case using n by (simp add: c)
qed simp

locale cell_list =
  fixes cv :: "theap \<Rightarrow> cword \<Rightarrow> ('k \<times> cword \<times> cword) option"
    and keyof :: "theap \<Rightarrow> cword \<Rightarrow> 'k \<Rightarrow> bool"
    and nextof :: "cword \<Rightarrow> loc"
    and looploop :: "theap \<Rightarrow> cword \<Rightarrow> cword \<Rightarrow> cword option"
    and insloop :: "theap \<Rightarrow> loc \<Rightarrow> cword \<Rightarrow> cword \<Rightarrow> (cword \<times> theap) option"
    and cost :: nat
  assumes nextof_obj [simp]: "loc_obj (nextof a) = a"
    and cv_cell: "cv h a = Some (k, v, n) \<Longrightarrow> \<exists>ob. tmem h a = Some ob \<and> \<not> frozen ob \<and> get_field (nextof a) ob = Some n"
    and cv_frame: "cv h a = Some x \<Longrightarrow> changes G m h h' \<Longrightarrow> a \<notin> G \<Longrightarrow> cv h' a = Some x"
    and cv_link: "cv h a = Some (k, v, n) \<Longrightarrow> changes G m h h' \<Longrightarrow> tmem h a = Some ob \<Longrightarrow>
        tmem h' a = set_field (nextof a) n' ob \<Longrightarrow> cv h' a = Some (k, v, n')"
    and key_frame: "keyof h key k \<Longrightarrow> changes G m h h' \<Longrightarrow> keyof h' key k"
    and loop_nil: "looploop h key 0 = Some 0"
    and loop_cons: "cv h a = Some (k', v, n) \<Longrightarrow> keyof h key k \<Longrightarrow> a \<noteq> 0 \<Longrightarrow>
        looploop h key a = (if k' = k then Some v else looploop h key n)"
    and ins_nil: "load_loc h r = Some 0 \<Longrightarrow> heap_ok h \<Longrightarrow> tbrk h + cost \<le> 2 ^ 64 \<Longrightarrow> keyof h key k \<Longrightarrow>
        \<exists>p h'. insloop h r key v = Some (0, h') \<and> tmem h p = None \<and> p \<noteq> 0 \<and> cv h' p = Some (k, v, 0) \<and>
          changes {loc_obj r} cost h h' \<and>
          tmem h' (loc_obj r) = Option.bind (tmem h (loc_obj r)) (set_field r p)"
    and ins_hit: "load_loc h r = Some a \<Longrightarrow> a \<noteq> 0 \<Longrightarrow> heap_ok h \<Longrightarrow> cv h a = Some (k, old, n) \<Longrightarrow> keyof h key k \<Longrightarrow>
        \<exists>h'. insloop h r key v = Some (old, h') \<and> changes {a} 0 h h' \<and> cv h' a = Some (k, v, n)"
    and ins_miss: "load_loc h r = Some a \<Longrightarrow> a \<noteq> 0 \<Longrightarrow> cv h a = Some (k', old, n) \<Longrightarrow> keyof h key k \<Longrightarrow> k' \<noteq> k \<Longrightarrow>
        insloop h r key v = insloop h (nextof a) key v"
begin

lemma chain_changes:
  assumes "chain cv h q cs" "changes G m h h'" "G \<inter> addrs cs = {}"
  shows "chain cv h' q cs"
  using assms(1,3)
proof (induction cs arbitrary: q)
  case (Cons c cs)
  obtain a k v where c: "c = (a, k, v)" by (cases c)
  show ?case using Cons cv_frame [OF _ assms(2), of a] by (auto simp: c)
qed simp

lemma addrs_live: "chain cv h q cs \<Longrightarrow> a \<in> addrs cs \<Longrightarrow> tmem h a \<noteq> None"
proof (induction cs arbitrary: q)
  case (Cons c cs)
  then show ?case using cv_cell [of h a] by (cases c) auto
qed simp

lemma lookup_chain: "chain cv h q cs \<Longrightarrow> keyof h key k \<Longrightarrow> looploop h key q = Some (cval cs k)"
proof (induction cs arbitrary: q)
  case Nil
  then show ?case by (simp add: loop_nil)
next
  case (Cons c cs)
  obtain a k' v where c: "c = (a, k', v)" by (cases c)
  show ?case using Cons loop_cons [of h a k' v _ key k] by (auto simp: c)
qed

text \<open>The insertion loop, started at the variable \<open>r\<close> that holds the head of the list.\<close>

lemma insert_chain:
  assumes "chain cv h q cs" "load_loc h r = Some q" "distinct (map fst cs)" "loc_obj r \<notin> addrs cs"
    "heap_ok h" "tbrk h + cost \<le> 2 ^ 64" "keyof h key k"
  shows "\<exists>p h' q'. insloop h r key v = Some (cval cs k, h') \<and> chain cv h' q' (cput p k v cs) \<and>
     tmem h' (loc_obj r) = Option.bind (tmem h (loc_obj r)) (set_field r q') \<and>
     tmem h p = None \<and> changes (insert (loc_obj r) (addrs cs)) cost h h'"
  using assms
proof (induction cs arbitrary: q r)
  case Nil
  then have "q = 0" by simp
  obtain p h' where "insloop h r key v = Some (0, h')" "tmem h p = None" "p \<noteq> 0" "cv h' p = Some (k, v, 0)"
    "changes {loc_obj r} cost h h'" "tmem h' (loc_obj r) = Option.bind (tmem h (loc_obj r)) (set_field r p)"
    using ins_nil [of h r key k v] Nil.prems \<open>q = 0\<close> by blast
  then show ?case by (intro exI [of _ p] exI [of _ h']) auto
next
  case (Cons c cs)
  obtain a k' old where c: "c = (a, k', old)" by (cases c)
  obtain n where n: "q = a" "a \<noteq> 0" "cv h a = Some (k', old, n)" "chain cv h n cs"
    using Cons.prems(1) by (auto simp: c)
  obtain ro where ro: "tmem h (loc_obj r) = Some ro" "get_field r ro = Some a"
    using Cons.prems(2) n(1) by (auto simp: load_loc_def bind_Some_iff)
  have disj: "a \<notin> addrs cs" "loc_obj r \<noteq> a" "loc_obj r \<notin> addrs cs" "distinct (map fst cs)"
    using Cons.prems(3,4) by (auto simp: c)
  show ?case
  proof (cases "k' = k")
    case True
    obtain h' where h': "insloop h r key v = Some (old, h')" "changes {a} 0 h h'" "cv h' a = Some (k, v, n)"
      using ins_hit [OF _ n(2) Cons.prems(5), of r k old n key v] Cons.prems(2,7) n(1,3) True by blast
    have "chain cv h' n cs" using chain_changes [OF n(4) h'(2)] disj by simp
    moreover have "tmem h' (loc_obj r) = Some ro" using changesD(3) [OF h'(2) ro(1)] disj by simp
    moreover have "\<exists>p. tmem h p = None"
      using Cons.prems(5) unfolding heap_ok_def by blast
    moreover have "changes (insert (loc_obj r) (addrs (c # cs))) cost h h'"
      by (rule changes_mono [OF h'(2)]) (auto simp: c)
    ultimately show ?thesis
      using h' n True ro set_field_same [OF ro(2)] by (auto simp: c)
  next
    case False
    have miss: "insloop h r key v = insloop h (nextof a) key v"
      using ins_miss [OF _ n(2,3) Cons.prems(7) False] Cons.prems(2) n(1) by blast
    obtain ao where ao: "tmem h a = Some ao" "\<not> frozen ao" "get_field (nextof a) ao = Some n"
      using cv_cell [OF n(3)] by blast
    have ld: "load_loc h (nextof a) = Some n" using ao by (simp add: load_loc_def)
    obtain p h' q' where IH: "insloop h (nextof a) key v = Some (cval cs k, h')" "chain cv h' q' (cput p k v cs)"
      "tmem h' a = set_field (nextof a) q' ao" "tmem h p = None" "changes (insert a (addrs cs)) cost h h'"
      using Cons.IH [OF n(4) ld] disj Cons.prems(5-7) ao(1) by auto
    have "cv h' a = Some (k', old, q')" using cv_link [OF n(3) IH(5) ao(1) IH(3)] .
    moreover have "tmem h' (loc_obj r) = Some ro" using changesD(3) [OF IH(5) ro(1)] disj by simp
    moreover have "changes (insert (loc_obj r) (addrs (c # cs))) cost h h'"
      by (rule changes_mono [OF IH(5)]) (auto simp: c)
    ultimately show ?thesis
      using IH miss n False ro set_field_same [OF ro(2)] by (auto simp: c)
  qed
qed

end

end
