(* ===== verification/TK_Cells.thy ===== *)
theory TK_Cells
  imports TK_Chain
begin

text \<open>
  The cells of the hash table and of the string list provide the interface of linked cells.
\<close>

section \<open>Cells of the hash table\<close>

definition icell_view :: "theap \<Rightarrow> cword \<Rightarrow> (cword \<times> cword \<times> cword) option" where
  "icell_view h a = map_option (\<lambda>c. (ic_key c, ic_value c, ic_next c)) (icell_at h a)"

definition int_key :: "theap \<Rightarrow> cword \<Rightarrow> cword \<Rightarrow> bool" where
  "int_key h key k \<longleftrightarrow> k = key"

text \<open>The insertion of \<^verbatim>\<open>inthash.c\<close> seen as one loop: find or make the cell, then set its value.\<close>

definition iinsert_at :: "theap \<Rightarrow> loc \<Rightarrow> cword \<Rightarrow> cword \<Rightarrow> (cword \<times> theap) option" where
  "iinsert_at h r key v = do {
     (q, h) \<leftarrow> inthash_insert_list h r key;
     c \<leftarrow> icell_at h q;
     Some (ic_value c, poke h q (Icell (c\<lparr>ic_value := v\<rparr>))) }"

lemma inthash_insert_at: "inthash_insert h p key v = iinsert_at h (BucketOf p (bucket_of key)) key v"
  by (simp add: inthash_insert_def iinsert_at_def)

lemma icell_view_Some:
  "icell_view h a = Some (k, v, n) \<longleftrightarrow> tmem h a = Some (Icell \<lparr>ic_key = k, ic_value = v, ic_next = n\<rparr>)"
  by (auto simp: icell_view_def at_Some)

lemma icell_ins_nil:
  assumes "load_loc h r = Some 0" "heap_ok h" "tbrk h + 1 \<le> 2 ^ 64"
  shows "\<exists>p h'. iinsert_at h r key v = Some (0, h') \<and> tmem h p = None \<and> p \<noteq> 0 \<and>
     icell_view h' p = Some (key, v, 0) \<and> changes {loc_obj r} 1 h h' \<and>
     tmem h' (loc_obj r) = Option.bind (tmem h (loc_obj r)) (set_field r p)"
proof -
  define ob where "ob = Icell \<lparr>ic_key = key, ic_value = 0, ic_next = 0\<rparr>"
  have room: "tbrk h < 2 ^ 64" using assms(3) by simp
  obtain p h1 where m: "malloc_c h ob = (p, h1)" "p \<noteq> 0" "tmem h p = None" "tmem h1 = (tmem h)(p \<mapsto> ob)"
    "changes {} 1 h h1"
    using malloc_c_ok [OF assms(2) room, of ob] by blast
  obtain ro where ro: "tmem h (loc_obj r) = Some ro" "get_field r ro = Some 0"
    using assms(1) by (auto simp: load_loc_def bind_Some_iff)
  obtain ro' where ro': "set_field r p ro = Some ro'" using set_field_total [OF ro(2)] by blast
  have rp: "loc_obj r \<noteq> p" using ro(1) m(3) by auto
  have st: "store_loc h1 r p = Some (poke h1 (loc_obj r) ro')"
    using ro(1) ro' rp by (simp add: store_loc_def m(4))
  define h2 where "h2 = poke h1 (loc_obj r) ro'"
  define h3 where "h3 = poke h2 p (Icell \<lparr>ic_key = key, ic_value = v, ic_next = 0\<rparr>)"
  have c2: "changes {loc_obj r} 0 h1 h2" unfolding h2_def
    using poke_changes [OF changesD(1) [OF m(5)]] set_field_frozen [OF ro'] ro(1) rp by (simp add: m(4))
  have p2: "tmem h2 p = Some ob" using rp by (simp add: h2_def m(4))
  have c3: "changes {p} 0 h2 h3" unfolding h3_def
    by (rule poke_changes [OF changesD(1) [OF c2] p2]) (simp add: ob_def)
  have c12: "changes {loc_obj r} 1 h h2"
    using changes_trans [OF changes_mono [OF m(5), of "{loc_obj r}" 1] c2] by (simp add: fresh_def)
  have c13: "changes {loc_obj r} 1 h h3"
    using changes_trans [OF c12 c3] m(3) by (simp add: fresh_def)
  have "inthash_insert_list h r key = Some (p, h2)"
    using assms(1) m(1,2) st by (subst inthash_insert_list.simps) (simp add: new_icell_def ob_def [symmetric] h2_def)
  then have "iinsert_at h r key v = Some (0, h3)"
    using p2 by (simp add: iinsert_at_def icell_at_def ob_def h3_def)
  moreover have "icell_view h3 p = Some (key, v, 0)" by (simp add: icell_view_Some h3_def)
  moreover have "tmem h3 (loc_obj r) = Option.bind (tmem h (loc_obj r)) (set_field r p)"
    using rp ro(1) ro' by (simp add: h3_def h2_def)
  ultimately show ?thesis using m(2,3) c13 by blast
qed

interpretation icells: cell_list icell_view int_key INextOf ilookup_loop iinsert_at 1
proof
  show "loc_obj (INextOf a) = a" for a by simp
next
  fix h a k v n assume "icell_view h a = Some (k, v, n)"
  then show "\<exists>ob. tmem h a = Some ob \<and> \<not> frozen ob \<and> get_field (INextOf a) ob = Some n"
    by (simp add: icell_view_Some)
next
  fix h a x G m and h' :: theap assume "icell_view h a = Some x" "changes G m h h'" "a \<notin> G"
  then show "icell_view h' a = Some x" by (cases x) (auto simp: icell_view_Some dest: changesD(3))
next
  fix h a k v n G m and h' :: theap and ob n'
  assume "icell_view h a = Some (k, v, n)" "tmem h a = Some ob" "tmem h' a = set_field (INextOf a) n' ob"
  then show "icell_view h' a = Some (k, v, n')" by (auto simp: icell_view_Some)
next
  fix h key k G m and h' :: theap assume "int_key h key k"
  then show "int_key h' key k" by (simp add: int_key_def)
next
  fix h key show "ilookup_loop h key 0 = Some 0" by (simp add: ilookup_loop.simps)
next
  fix h a k' v n key k assume "icell_view h a = Some (k', v, n)" "int_key h key k" "a \<noteq> 0"
  then show "ilookup_loop h key a = (if k' = k then Some v else ilookup_loop h key n)"
    by (subst ilookup_loop.simps) (simp add: icell_view_Some icell_at_def int_key_def)
next
  fix h r key k v
  assume "load_loc h r = Some 0" "heap_ok h" "tbrk h + 1 \<le> 2 ^ 64" "int_key h key k"
  then show "\<exists>p h'. iinsert_at h r key v = Some (0, h') \<and> tmem h p = None \<and> p \<noteq> 0 \<and>
     icell_view h' p = Some (k, v, 0) \<and> changes {loc_obj r} 1 h h' \<and>
     tmem h' (loc_obj r) = Option.bind (tmem h (loc_obj r)) (set_field r p)"
    using icell_ins_nil [of h r key v] by (simp add: int_key_def)
next
  fix h r a k old n key v
  assume a: "load_loc h r = Some a" "a \<noteq> 0" "heap_ok h" "icell_view h a = Some (k, old, n)" "int_key h key k"
  define c where "c = \<lparr>ic_key = k, ic_value = old, ic_next = n\<rparr>"
  have m: "tmem h a = Some (Icell c)" using a(4) by (simp add: icell_view_Some c_def)
  have "inthash_insert_list h r key = Some (a, h)"
    using a(1,2,5) m by (subst inthash_insert_list.simps) (simp add: icell_at_def int_key_def c_def)
  then have "iinsert_at h r key v = Some (old, poke h a (Icell (c\<lparr>ic_value := v\<rparr>)))"
    using m by (simp add: iinsert_at_def icell_at_def c_def)
  moreover have "changes {a} 0 h (poke h a (Icell (c\<lparr>ic_value := v\<rparr>)))"
    by (rule poke_changes [OF a(3) m]) simp
  ultimately show "\<exists>h'. iinsert_at h r key v = Some (old, h') \<and> changes {a} 0 h h' \<and> icell_view h' a = Some (k, v, n)"
    by (intro exI conjI) (assumption, assumption, simp add: icell_view_Some c_def)
next
  fix h r a k' old n key k v
  assume "load_loc h r = Some a" "a \<noteq> 0" "icell_view h a = Some (k', old, n)" "int_key h key k" "k' \<noteq> k"
  then have "inthash_insert_list h r key = inthash_insert_list h (INextOf a) key"
    by (subst inthash_insert_list.simps) (simp add: icell_view_Some icell_at_def int_key_def)
  then show "iinsert_at h r key v = iinsert_at h (INextOf a) key v" by (simp add: iinsert_at_def)
qed

section \<open>Cells of the string list\<close>

definition scell_view :: "theap \<Rightarrow> cword \<Rightarrow> (string \<times> cword \<times> cword) option" where
  "scell_view h a = do {
     c \<leftarrow> scell_at h a;
     s \<leftarrow> str_at h (sc_key c);
     Some (s, sc_value c, sc_next c) }"

text \<open>A key the list can copy: its length with the terminator fits an \<^verbatim>\<open>int\<close>.\<close>

definition str_key :: "theap \<Rightarrow> cword \<Rightarrow> string \<Rightarrow> bool" where
  "str_key h key s \<longleftrightarrow> tmem h key = Some (Str s) \<and> length s + 1 < 2 ^ 31"

lemma scell_view_Some:
  "scell_view h a = Some (s, v, n) \<longleftrightarrow>
   (\<exists>kp. tmem h a = Some (Scell \<lparr>sc_key = kp, sc_value = v, sc_next = n\<rparr>) \<and> tmem h kp = Some (Str s))"
proof
  assume "scell_view h a = Some (s, v, n)"
  then obtain c where "tmem h a = Some (Scell c)" "tmem h (sc_key c) = Some (Str s)" "v = sc_value c" "n = sc_next c"
    by (auto simp: scell_view_def at_Some bind_Some_iff)
  then show "\<exists>kp. tmem h a = Some (Scell \<lparr>sc_key = kp, sc_value = v, sc_next = n\<rparr>) \<and> tmem h kp = Some (Str s)"
    by (intro exI [of _ "sc_key c"]) simp
qed (auto simp: scell_view_def at_Some bind_Some_iff)

lemma scell_at_eq: "tmem h a = Some (Scell c) \<Longrightarrow> scell_at h a = Some c"
  by (simp add: at_Some)

lemma streq_at: "tmem h a = Some (Str s) \<Longrightarrow> tmem h b = Some (Str t) \<Longrightarrow> streq h a b = Some (s = t)"
  by (simp add: streq_def str_at_def)

lemma sint_small: "n < 2 ^ 31 \<Longrightarrow> sint (word_of_nat n :: 32 word) = int n"
  by (simp add: signed_of_nat signed_take_bit_int_eq_self)

lemma copy_string_ok:
  assumes "str_key h key s" "heap_ok h" "tbrk h + 1 \<le> 2 ^ 64"
  shows "\<exists>p h'. copy_string h key = Some (p, h') \<and> tmem h p = None \<and> tmem h' = (tmem h)(p \<mapsto> Str s) \<and> changes {} 1 h h'"
proof -
  have n: "sint (word_of_nat (Suc (length s)) :: 32 word) = int (Suc (length s))"
    using assms(1) by (intro sint_small) (simp add: str_key_def)
  have room: "tbrk h < 2 ^ 64" using assms(3) by simp
  obtain p h' where m: "malloc_c h (Str s) = (p, h')" "p \<noteq> 0" "tmem h p = None" "tmem h' = (tmem h)(p \<mapsto> Str s)"
    "changes {} 1 h h'"
    using malloc_c_ok [OF assms(2) room, of "Str s"] by blast
  have "str_at h key = Some s" using assms(1) by (simp add: str_key_def at_Some)
  then have "copy_string h key = Some (p, h')"
    by (simp add: copy_string_def Let_def n m del: of_nat_Suc)
  then show ?thesis using m by blast
qed

lemma new_scell_ok:
  assumes "str_key h key s" "heap_ok h" "tbrk h + 2 \<le> 2 ^ 64"
  shows "\<exists>p h'. new_scell h key v 0 = Some (p, h') \<and> p \<noteq> 0 \<and> tmem h p = None \<and> scell_view h' p = Some (s, v, 0) \<and>
     changes {} 2 h h'"
proof -
  define ob where "ob = Scell \<lparr>sc_key = - 1, sc_value = - 1, sc_next = - 1\<rparr>"
  have room: "tbrk h < 2 ^ 64" using assms(3) by simp
  obtain p h1 where m: "malloc_c h ob = (p, h1)" "p \<noteq> 0" "tmem h p = None" "tmem h1 = (tmem h)(p \<mapsto> ob)"
    "changes {} 1 h h1" "tbrk h1 = Suc (tbrk h)"
    using malloc_c_ok [OF assms(2) room, of ob] by blast
  have k1: "str_key h1 key s" using assms(1) m(3) by (auto simp: str_key_def m(4))
  obtain k h2 where c: "copy_string h1 key = Some (k, h2)" "tmem h1 k = None" "tmem h2 = (tmem h1)(k \<mapsto> Str s)" "changes {} 1 h1 h2"
    using copy_string_ok [OF k1 changesD(1) [OF m(5)]] assms(3) m(6) by auto
  define h3 where "h3 = poke h2 p (Scell \<lparr>sc_key = k, sc_value = v, sc_next = 0\<rparr>)"
  have kp: "k \<noteq> p" using c(2) by (auto simp: m(4))
  have p2: "tmem h2 p = Some ob" using kp by (simp add: c(3) m(4))
  have c3: "changes {p} 0 h2 h3" unfolding h3_def
    by (rule poke_changes [OF changesD(1) [OF c(4)] p2]) (simp add: ob_def)
  have c12: "changes {} 2 h h2"
    using changes_trans [OF m(5) c(4)] by (simp add: fresh_def numeral_2_eq_2)
  have c13: "changes {} 2 h h3"
    using changes_trans [OF c12 c3] m(3) by (simp add: fresh_def)
  have "new_scell h key v 0 = Some (p, h3)"
    using m(1,2) c(1) by (simp add: new_scell_def ob_def [symmetric] h3_def)
  moreover have "scell_view h3 p = Some (s, v, 0)"
    using kp by (simp add: scell_view_Some h3_def c(3))
  ultimately show ?thesis using m(2,3) c13 by blast
qed

lemma scell_ins_nil:
  assumes "load_loc h r = Some 0" "heap_ok h" "tbrk h + 2 \<le> 2 ^ 64" "str_key h key s"
  shows "\<exists>p h'. sinsert_loop h r key v = Some (0, h') \<and> tmem h p = None \<and> p \<noteq> 0 \<and>
     scell_view h' p = Some (s, v, 0) \<and> changes {loc_obj r} 2 h h' \<and>
     tmem h' (loc_obj r) = Option.bind (tmem h (loc_obj r)) (set_field r p)"
proof -
  obtain p h1 where m: "new_scell h key v 0 = Some (p, h1)" "p \<noteq> 0" "tmem h p = None"
    "scell_view h1 p = Some (s, v, 0)" "changes {} 2 h h1"
    using new_scell_ok [OF assms(4,2,3), of v] by blast
  obtain ro where ro: "tmem h (loc_obj r) = Some ro" "get_field r ro = Some 0"
    using assms(1) by (auto simp: load_loc_def bind_Some_iff)
  obtain ro' where ro': "set_field r p ro = Some ro'" using set_field_total [OF ro(2)] by blast
  have ro1: "tmem h1 (loc_obj r) = Some ro" using changesD(3) [OF m(5) ro(1)] by simp
  have rp: "loc_obj r \<noteq> p" using ro(1) m(3) by auto
  have st: "store_loc h1 r p = Some (poke h1 (loc_obj r) ro')"
    using ro1 ro' by (simp add: store_loc_def)
  define h2 where "h2 = poke h1 (loc_obj r) ro'"
  have c2: "changes {loc_obj r} 0 h1 h2" unfolding h2_def
    using poke_changes [OF changesD(1) [OF m(5)] ro1] set_field_frozen [OF ro'] by simp
  have c12: "changes {loc_obj r} 2 h h2"
    using changes_trans [OF changes_mono [OF m(5), of "{loc_obj r}" 2] c2] by (simp add: fresh_def)
  have "sinsert_loop h r key v = Some (0, h2)"
    using assms(1) m(1,2) st by (subst sinsert_loop.simps) (simp add: h2_def)
  moreover have "scell_view h2 p = Some (s, v, 0)"
  proof -
    obtain kp where kp: "tmem h1 p = Some (Scell \<lparr>sc_key = kp, sc_value = v, sc_next = 0\<rparr>)" "tmem h1 kp = Some (Str s)"
      using m(4) by (auto simp: scell_view_Some)
    have "tmem h2 p = tmem h1 p" "tmem h2 kp = Some (Str s)"
      using rp changesD(4) [OF c2 kp(2)] by (simp_all add: h2_def)
    then show ?thesis using kp by (simp add: scell_view_Some)
  qed
  moreover have "tmem h2 (loc_obj r) = Option.bind (tmem h (loc_obj r)) (set_field r p)"
    using ro(1) ro' by (simp add: h2_def)
  ultimately show ?thesis using m(2,3) c12 by blast
qed

interpretation scells: cell_list scell_view str_key SNextOf slookup_loop sinsert_loop 2
proof
  show "loc_obj (SNextOf a) = a" for a by simp
next
  fix h a k v n assume "scell_view h a = Some (k, v, n)"
  then show "\<exists>ob. tmem h a = Some ob \<and> \<not> frozen ob \<and> get_field (SNextOf a) ob = Some n"
    by (auto simp: scell_view_Some)
next
  fix h a x G m and h' :: theap assume "scell_view h a = Some x" "changes G m h h'" "a \<notin> G"
  then show "scell_view h' a = Some x"
    by (cases x) (fastforce simp: scell_view_Some dest: changesD(3,4))
next
  fix h a k v n G m and h' :: theap and ob n'
  assume "scell_view h a = Some (k, v, n)" "changes G m h h'" "tmem h a = Some ob" "tmem h' a = set_field (SNextOf a) n' ob"
  then show "scell_view h' a = Some (k, v, n')" by (fastforce simp: scell_view_Some dest: changesD(4))
next
  fix h key k G m and h' :: theap assume "str_key h key k" "changes G m h h'"
  then show "str_key h' key k" by (auto simp: str_key_def dest: changesD(4))
next
  fix h key show "slookup_loop h key 0 = Some 0" by (simp add: slookup_loop.simps)
next
  fix h a k' v n key k assume "scell_view h a = Some (k', v, n)" "str_key h key k" "a \<noteq> 0"
  then show "slookup_loop h key a = (if k' = k then Some v else slookup_loop h key n)"
    by (subst slookup_loop.simps) (auto simp: scell_view_Some scell_at_eq streq_at str_key_def)
next
  fix h r key k v
  assume "load_loc h r = Some 0" "heap_ok h" "tbrk h + 2 \<le> 2 ^ 64" "str_key h key k"
  then show "\<exists>p h'. sinsert_loop h r key v = Some (0, h') \<and> tmem h p = None \<and> p \<noteq> 0 \<and>
     scell_view h' p = Some (k, v, 0) \<and> changes {loc_obj r} 2 h h' \<and>
     tmem h' (loc_obj r) = Option.bind (tmem h (loc_obj r)) (set_field r p)"
    by (rule scell_ins_nil)
next
  fix h r a k old n key v
  assume a: "load_loc h r = Some a" "a \<noteq> 0" "heap_ok h" "scell_view h a = Some (k, old, n)" "str_key h key k"
  obtain kp where kp: "tmem h a = Some (Scell \<lparr>sc_key = kp, sc_value = old, sc_next = n\<rparr>)" "tmem h kp = Some (Str k)"
    using a(4) by (auto simp: scell_view_Some)
  let ?h = "poke h a (Scell \<lparr>sc_key = kp, sc_value = v, sc_next = n\<rparr>)"
  have "sinsert_loop h r key v = Some (old, ?h)"
    using a(1,2,5) kp by (subst sinsert_loop.simps) (simp add: scell_at_eq streq_at str_key_def)
  moreover have c: "changes {a} 0 h ?h" by (rule poke_changes [OF a(3) kp(1)]) simp
  moreover have "scell_view ?h a = Some (k, v, n)"
    using changesD(4) [OF c kp(2)] by (simp add: scell_view_Some)
  ultimately show "\<exists>h'. sinsert_loop h r key v = Some (old, h') \<and> changes {a} 0 h h' \<and> scell_view h' a = Some (k, v, n)"
    by blast
next
  fix h r a k' old n key k v
  assume "load_loc h r = Some a" "a \<noteq> 0" "scell_view h a = Some (k', old, n)" "str_key h key k" "k' \<noteq> k"
  then show "sinsert_loop h r key v = sinsert_loop h (SNextOf a) key v"
    by (subst sinsert_loop.simps) (auto simp: scell_view_Some scell_at_eq streq_at str_key_def)
qed

end
