(* ===== verification/TK_Index.thy ===== *)
theory TK_Index
  imports TK_Cells
begin

text \<open>
  The contract of \<^verbatim>\<open>index.h\<close> as a locale: an index object at an address represents a map from keys
  to values in a set of heap objects, \<^verbatim>\<open>NULL\<close> standing for an absent value. The hash table and the
  string list provide it, and \<^verbatim>\<open>tuple_schema\<close> of two providers provides it again, so that every
  schema does.
\<close>

section \<open>The contract\<close>

datatype akey = KInt cword | KStr string | KPair akey akey

datatype icall = Insert cword cword | Lookup cword

datatype acall = AInsert akey cword | ALookup akey

locale kv_index =
  fixes rep :: "theap \<Rightarrow> cword \<Rightarrow> cword set \<Rightarrow> (akey \<Rightarrow> cword) \<Rightarrow> bool"
    and keyof :: "theap \<Rightarrow> cword \<Rightarrow> akey \<Rightarrow> bool"
    and new :: "theap \<Rightarrow> (cword \<times> theap) option"
    and ins :: "theap \<Rightarrow> cword \<Rightarrow> cword \<Rightarrow> cword \<Rightarrow> (cword \<times> theap) option"
    and look :: "theap \<Rightarrow> cword \<Rightarrow> cword \<Rightarrow> cword option"
    and cnew :: nat
    and cins :: nat
  assumes new_rep: "heap_ok h \<Longrightarrow> tbrk h + cnew \<le> 2 ^ 64 \<Longrightarrow>
      \<exists>p h' F. new h = Some (p, h') \<and> p \<noteq> 0 \<and> rep h' p F (\<lambda>_. 0) \<and> fresh h F \<and> changes {} cnew h h'"
    and look_rep: "rep h p F m \<Longrightarrow> keyof h key k \<Longrightarrow> look h p key = Some (m k)"
    and ins_rep: "rep h p F m \<Longrightarrow> keyof h key k \<Longrightarrow> heap_ok h \<Longrightarrow> tbrk h + cins \<le> 2 ^ 64 \<Longrightarrow>
      \<exists>h' F'. ins h p key v = Some (m k, h') \<and> rep h' p F' (m(k := v)) \<and> F \<subseteq> F' \<and> fresh h (F' - F) \<and>
        changes F cins h h'"
    and rep_frame: "rep h p F m \<Longrightarrow> changes G n h h' \<Longrightarrow> G \<inter> F = {} \<Longrightarrow> rep h' p F m"
    and rep_live: "rep h p F m \<Longrightarrow> a \<in> F \<Longrightarrow> tmem h a \<noteq> None"
    and keyof_frame: "keyof h key k \<Longrightarrow> changes G n h h' \<Longrightarrow> keyof h' key k"

lemma fresh_disjoint: "fresh h A \<Longrightarrow> (\<And>a. a \<in> B \<Longrightarrow> tmem h a \<noteq> None) \<Longrightarrow> A \<inter> B = {}"
  unfolding fresh_def by blast

lemma disjoint_grow: "A' \<subseteq> insert n A \<Longrightarrow> A \<inter> B = {} \<Longrightarrow> n \<notin> B \<Longrightarrow> A' \<inter> B = {}"
  by blast

lemma new_part: "U' \<subseteq> insert n U \<Longrightarrow> insert p U' - insert p U \<subseteq> {n}"
  by blast

lemma fresh_single: "A \<subseteq> {n} \<Longrightarrow> tmem h n = None \<Longrightarrow> fresh h A"
  unfolding fresh_def by blast

section \<open>The hash table\<close>

text \<open>\<open>b\<close> is the bucket array and \<open>cf i\<close> the cells of bucket \<open>i\<close>.\<close>

definition hash_parts :: "theap \<Rightarrow> cword \<Rightarrow> cword set \<Rightarrow> (akey \<Rightarrow> cword) \<Rightarrow> cword list \<Rightarrow>
    (nat \<Rightarrow> (cword \<times> cword \<times> cword) list) \<Rightarrow> bool" where
  "hash_parts h p F m b cf \<longleftrightarrow> tmem h p = Some (Inthash b) \<and> length b = N_buckets \<and>
     (\<forall>i<N_buckets. chain icell_view h (b ! i) (cf i) \<and> distinct (map fst (cf i)) \<and> p \<notin> addrs (cf i)) \<and>
     (\<forall>i<N_buckets. \<forall>j<N_buckets. i \<noteq> j \<longrightarrow> addrs (cf i) \<inter> addrs (cf j) = {}) \<and>
     F = insert p (\<Union>i<N_buckets. addrs (cf i)) \<and>
     (\<forall>k. m (KInt k) = cval (cf (bucket_of k)) k)"

definition hash_rep :: "theap \<Rightarrow> cword \<Rightarrow> cword set \<Rightarrow> (akey \<Rightarrow> cword) \<Rightarrow> bool" where
  "hash_rep h p F m \<longleftrightarrow> (\<exists>b cf. hash_parts h p F m b cf)"

definition hash_key :: "theap \<Rightarrow> cword \<Rightarrow> akey \<Rightarrow> bool" where
  "hash_key h key k \<longleftrightarrow> k = KInt key"

lemma hash_repI:
  assumes "tmem h p = Some (Inthash b)" "length b = N_buckets"
    "\<And>i. i < N_buckets \<Longrightarrow> chain icell_view h (b ! i) (cf i)"
    "\<And>i. i < N_buckets \<Longrightarrow> distinct (map fst (cf i))"
    "\<And>i. i < N_buckets \<Longrightarrow> p \<notin> addrs (cf i)"
    "\<And>i j. i < N_buckets \<Longrightarrow> j < N_buckets \<Longrightarrow> i \<noteq> j \<Longrightarrow> addrs (cf i) \<inter> addrs (cf j) = {}"
    "F = insert p (\<Union>i<N_buckets. addrs (cf i))" "\<And>k. m (KInt k) = cval (cf (bucket_of k)) k"
  shows "hash_rep h p F m"
  unfolding hash_rep_def hash_parts_def using assms by (intro exI [of _ b] exI [of _ cf]) auto

lemma hash_partsD:
  assumes "hash_parts h p F m b cf"
  shows "tmem h p = Some (Inthash b)" "length b = N_buckets"
    "i < N_buckets \<Longrightarrow> chain icell_view h (b ! i) (cf i)"
    "i < N_buckets \<Longrightarrow> distinct (map fst (cf i))"
    "i < N_buckets \<Longrightarrow> p \<notin> addrs (cf i)"
    "i < N_buckets \<Longrightarrow> j < N_buckets \<Longrightarrow> i \<noteq> j \<Longrightarrow> addrs (cf i) \<inter> addrs (cf j) = {}"
    "F = insert p (\<Union>i<N_buckets. addrs (cf i))" "m (KInt k) = cval (cf (bucket_of k)) k"
  using assms unfolding hash_parts_def by simp_all

lemma bucket_bound: "bucket_of k < N_buckets"
proof -
  have "unat (k mod 10) < unat (10 :: cword)"
    by (rule unat_mono) (rule word_mod_less_divisor, simp)
  then show ?thesis by (simp add: bucket_of_def N_buckets_def)
qed

lemma clear_buckets_nth:
  "i + n \<le> length b \<Longrightarrow> length (clear_buckets n i b) = length b \<and>
   (\<forall>j<length b. clear_buckets n i b ! j = (if i \<le> j \<and> j < i + n then 0 else b ! j))"
  by (induction n i b rule: clear_buckets.induct) (auto simp: nth_list_update)

lemma hash_new_rep:
  assumes "heap_ok h" "tbrk h + 1 \<le> 2 ^ 64"
  shows "\<exists>p h' F. inthash_new h = Some (p, h') \<and> p \<noteq> 0 \<and> hash_rep h' p F (\<lambda>_. 0) \<and> fresh h F \<and> changes {} 1 h h'"
proof -
  let ?b = "replicate N_buckets (- 1) :: cword list"
  have room: "tbrk h < 2 ^ 64" using assms(2) by simp
  obtain p h1 where m: "malloc_c h (Inthash ?b) = (p, h1)" "p \<noteq> 0" "tmem h p = None"
    "tmem h1 = (tmem h)(p \<mapsto> Inthash ?b)" "changes {} 1 h h1"
    using malloc_c_ok [OF assms(1) room, of "Inthash ?b"] by blast
  let ?c = "clear_buckets N_buckets 0 ?b"
  let ?h = "poke h1 p (Inthash ?c)"
  have z: "?c ! i = 0" if "i < N_buckets" for i
    using clear_buckets_nth [of 0 N_buckets ?b] that by simp
  have "changes {p} 0 h1 ?h" 
    by (rule poke_changes [OF changesD(1) [OF m(5)]]) (simp add: m(4), simp)
  then have "changes {} 1 h ?h" using changes_trans [OF m(5)] m(3) by (simp add: fresh_def)
  moreover have "hash_rep ?h p {p} (\<lambda>_. 0)"
    by (rule hash_repI [of _ _ ?c "\<lambda>_. []"]) (use clear_buckets_nth [of 0 N_buckets ?b] z in auto)
  moreover have "inthash_new h = Some (p, ?h)"
    using m(1,2) by (simp add: inthash_new_def hash_at_def m(4))
  ultimately show ?thesis using m(2,3) by (auto simp: fresh_def)
qed

lemma hash_look_rep:
  assumes "hash_rep h p F m" "hash_key h key k"
  shows "inthash_lookup h p key = Some (m k)"
proof -
  obtain b cf where parts: "hash_parts h p F m b cf" using assms(1) by (auto simp: hash_rep_def)
  note r = hash_partsD [OF parts]
  have "ilookup_loop h key (b ! bucket_of key) = Some (cval (cf (bucket_of key)) key)"
    by (rule icells.lookup_chain [OF r(3) [OF bucket_bound]]) (simp add: int_key_def)
  then show ?thesis
    using r(1,2,8) assms(2) bucket_bound by (simp add: inthash_lookup_def hash_at_def hash_key_def)
qed

lemma hash_ins_rep:
  assumes "hash_rep h p F m" "hash_key h key k" "heap_ok h" "tbrk h + 1 \<le> 2 ^ 64"
  shows "\<exists>h' F'. inthash_insert h p key v = Some (m k, h') \<and> hash_rep h' p F' (m(k := v)) \<and> F \<subseteq> F' \<and>
     fresh h (F' - F) \<and> changes F 1 h h'"
proof -
  obtain b cf where parts: "hash_parts h p F m b cf" using assms(1) by (auto simp: hash_rep_def)
  note r = hash_partsD [OF parts]
  define i where "i = bucket_of key"
  have i: "i < N_buckets" by (simp add: i_def bucket_bound)
  have ld: "load_loc h (BucketOf p i) = Some (b ! i)" using r(1,2) i by (simp add: load_loc_def)
  obtain n h' q' where x: "iinsert_at h (BucketOf p i) key v = Some (cval (cf i) key, h')"
    "chain icell_view h' q' (cput n key v (cf i))" "tmem h' p = set_field (BucketOf p i) q' (Inthash b)"
    "tmem h n = None" "changes (insert p (addrs (cf i))) 1 h h'"
    using icells.insert_chain [OF r(3) [OF i] ld r(4) [OF i] _ assms(3,4), of key key v] r(1,5) i
    by (auto simp: int_key_def)
  have live: "tmem h a \<noteq> None" if "a \<in> F" for a
    using that r(1,7) icells.addrs_live [OF r(3)] by auto
  then have nF: "n \<notin> F" using x(4) by blast
  define cf' where "cf' = cf(i := cput n key v (cf i))"
  have sub: "addrs (cf' j) \<subseteq> insert n (addrs (cf j))" "addrs (cf j) \<subseteq> addrs (cf' j)" for j
    by (auto simp: cf'_def addrs_cput)
  have only: "addrs (cf' j) = addrs (cf j)" if "j \<noteq> i" for j using that by (simp add: cf'_def)
  have c1: "chain icell_view h' (b[i := q'] ! j) (cf' j)" if j: "j < N_buckets" for j
  proof (cases "j = i")
    case False
    have "chain icell_view h' (b ! j) (cf j)"
      by (rule icells.chain_changes [OF r(3) [OF j] x(5)]) (use r(5,6) i j False in auto)
    then show ?thesis using False by (simp add: cf'_def)
  qed (use x(2) i r(2) in \<open>simp add: cf'_def\<close>)
  have c2: "distinct (map fst (cf' j))" if "j < N_buckets" for j
    using distinct_cput [OF r(4) [OF that], of n key v] r(4) [OF that] nF r(7) that i by (auto simp: cf'_def)
  have c3: "p \<notin> addrs (cf' j)" if "j < N_buckets" for j
    using sub(1) [of j] r(5) [OF that] nF r(7) by auto
  have c4: "addrs (cf' j) \<inter> addrs (cf' l) = {}" if "j < N_buckets" "l < N_buckets" "j \<noteq> l" for j l
  proof -
    have "n \<notin> addrs (cf j)" "n \<notin> addrs (cf l)" using nF that unfolding r(7) by auto
    moreover have "addrs (cf' j) = addrs (cf j) \<or> addrs (cf' l) = addrs (cf l)"
      using only [of j] only [of l] that(3) by blast
    ultimately show ?thesis
      using disjoint_grow [OF sub(1) [of j] r(6) [OF that]] disjoint_grow [OF sub(1) [of l], of "addrs (cf j)"]
        r(6) [OF that] by (metis Int_commute)
  qed
  have c5: "(m(k := v)) (KInt k') = cval (cf' (bucket_of k')) k'" for k'
    using assms(2) r(8) by (auto simp: cf'_def i_def hash_key_def)
  have c6: "tmem h' p = Some (Inthash (b[i := q']))" using x(3) i r(2) by simp
  have "hash_rep h' p (insert p (\<Union>i<N_buckets. addrs (cf' i))) (m(k := v))"
    by (rule hash_repI [OF c6 _ c1 c2 c3 c4 refl c5]) (simp add: r(2))
  moreover have "changes F 1 h h'" by (rule changes_mono [OF x(5)]) (use r(7) i in auto)
  moreover have "F \<subseteq> insert p (\<Union>i<N_buckets. addrs (cf' i))" using sub(2) unfolding r(7) by blast
  moreover have "fresh h (insert p (\<Union>i<N_buckets. addrs (cf' i)) - F)"
  proof -
    have "(\<Union>i<N_buckets. addrs (cf' i)) \<subseteq> insert n (\<Union>i<N_buckets. addrs (cf i))"
    proof (rule UN_least)
      fix j assume "j \<in> {..<N_buckets}"
      then show "addrs (cf' j) \<subseteq> insert n (\<Union>i<N_buckets. addrs (cf i))"
        using sub(1) [of j] by blast
    qed
    then have "insert p (\<Union>i<N_buckets. addrs (cf' i)) - F \<subseteq> {n}" unfolding r(7) by (rule new_part)
    then show ?thesis by (rule fresh_single) (rule x(4))
  qed
  moreover have "inthash_insert h p key v = Some (m k, h')"
    using x(1) assms(2) r(8) by (simp add: inthash_insert_at i_def hash_key_def)
  ultimately show ?thesis by blast
qed

interpretation hash: kv_index hash_rep hash_key inthash_new inthash_insert inthash_lookup 1 1
proof
  fix h :: theap assume "heap_ok h" "tbrk h + 1 \<le> 2 ^ 64"
  then show "\<exists>p h' F. inthash_new h = Some (p, h') \<and> p \<noteq> 0 \<and> hash_rep h' p F (\<lambda>_. 0) \<and> fresh h F \<and> changes {} 1 h h'"
    by (rule hash_new_rep)
next
  fix h p F m G n and h' :: theap assume a: "hash_rep h p F m" "changes G n h h'" "G \<inter> F = {}"
  obtain b cf where parts: "hash_parts h p F m b cf" using a(1) by (auto simp: hash_rep_def)
  note r = hash_partsD [OF parts]
  have "chain icell_view h' (b ! i) (cf i)" if "i < N_buckets" for i
    by (rule icells.chain_changes [OF r(3) [OF that] a(2)]) (use a(3) r(7) that in auto)
  moreover have "tmem h' p = Some (Inthash b)" using changesD(3) [OF a(2) r(1)] a(3) r(7) by auto
  ultimately show "hash_rep h' p F m" using r by (intro hash_repI [of h' p b cf F m]) auto
next
  fix h p F m a assume "hash_rep h p F m" "a \<in> F"
  then show "tmem h a \<noteq> None" unfolding hash_rep_def hash_parts_def using icells.addrs_live by fastforce
next
  fix h p F m key k v
  assume "hash_rep h p F m" "hash_key h key k" "heap_ok h" "tbrk h + 1 \<le> 2 ^ 64"
  then show "\<exists>h' F'. inthash_insert h p key v = Some (m k, h') \<and> hash_rep h' p F' (m(k := v)) \<and> F \<subseteq> F' \<and>
     fresh h (F' - F) \<and> changes F 1 h h'"
    by (rule hash_ins_rep)
next
  fix h p F m key k assume "hash_rep h p F m" "hash_key h key k"
  then show "inthash_lookup h p key = Some (m k)" by (rule hash_look_rep)
qed (simp add: hash_key_def)

section \<open>The string list\<close>

definition slist_parts :: "theap \<Rightarrow> cword \<Rightarrow> cword set \<Rightarrow> (akey \<Rightarrow> cword) \<Rightarrow> cword \<Rightarrow>
    (cword \<times> string \<times> cword) list \<Rightarrow> bool" where
  "slist_parts h p F m q cs \<longleftrightarrow> tmem h p = Some (Stringlist q) \<and> chain scell_view h q cs \<and>
     distinct (map fst cs) \<and> p \<notin> addrs cs \<and> F = insert p (addrs cs) \<and> (\<forall>s. m (KStr s) = cval cs s)"

definition slist_rep :: "theap \<Rightarrow> cword \<Rightarrow> cword set \<Rightarrow> (akey \<Rightarrow> cword) \<Rightarrow> bool" where
  "slist_rep h p F m \<longleftrightarrow> (\<exists>q cs. slist_parts h p F m q cs)"

lemma slist_partsD:
  assumes "slist_parts h p F m q cs"
  shows "tmem h p = Some (Stringlist q)" "chain scell_view h q cs" "distinct (map fst cs)"
    "p \<notin> addrs cs" "F = insert p (addrs cs)" "m (KStr s) = cval cs s"
  using assms unfolding slist_parts_def by simp_all

definition slist_key :: "theap \<Rightarrow> cword \<Rightarrow> akey \<Rightarrow> bool" where
  "slist_key h key k \<longleftrightarrow> (\<exists>s. k = KStr s \<and> str_key h key s)"

lemma slist_new_rep:
  assumes "heap_ok h" "tbrk h + 1 \<le> 2 ^ 64"
  shows "\<exists>p h' F. stringlist_new h = Some (p, h') \<and> p \<noteq> 0 \<and> slist_rep h' p F (\<lambda>_. 0) \<and> fresh h F \<and> changes {} 1 h h'"
proof -
  have room: "tbrk h < 2 ^ 64" using assms(2) by simp
  obtain p h1 where m: "malloc_c h (Stringlist (- 1)) = (p, h1)" "p \<noteq> 0" "tmem h p = None"
    "tmem h1 = (tmem h)(p \<mapsto> Stringlist (- 1))" "changes {} 1 h h1"
    using malloc_c_ok [OF assms(1) room, of "Stringlist (- 1)"] by blast
  let ?h = "poke h1 p (Stringlist 0)"
  have "changes {p} 0 h1 ?h" 
    by (rule poke_changes [OF changesD(1) [OF m(5)]]) (simp add: m(4), simp)
  then have "changes {} 1 h ?h" using changes_trans [OF m(5)] m(3) by (simp add: fresh_def)
  moreover have "slist_rep ?h p {p} (\<lambda>_. 0)"
    unfolding slist_rep_def slist_parts_def by (intro exI [of _ 0] exI [of _ "[]"]) simp
  moreover have "stringlist_new h = Some (p, ?h)" using m(1,2) by (simp add: stringlist_new_def)
  ultimately show ?thesis using m(2,3) by (auto simp: fresh_def)
qed

lemma slist_ins_rep:
  assumes "slist_rep h p F m" "slist_key h key k" "heap_ok h" "tbrk h + 2 \<le> 2 ^ 64"
  shows "\<exists>h' F'. stringlist_insert h p key v = Some (m k, h') \<and> slist_rep h' p F' (m(k := v)) \<and> F \<subseteq> F' \<and>
     fresh h (F' - F) \<and> changes F 2 h h'"
proof -
  obtain q cs where parts: "slist_parts h p F m q cs" using assms(1) by (auto simp: slist_rep_def)
  note r = slist_partsD [OF parts]
  obtain s where s: "k = KStr s" "str_key h key s" using assms(2) by (auto simp: slist_key_def)
  have ld: "load_loc h (RootOf p) = Some q" using r(1) by (simp add: load_loc_def)
  obtain n h' q' where x: "sinsert_loop h (RootOf p) key v = Some (cval cs s, h')"
    "chain scell_view h' q' (cput n s v cs)" "tmem h' p = set_field (RootOf p) q' (Stringlist q)"
    "tmem h n = None" "changes (insert p (addrs cs)) 2 h h'"
    using scells.insert_chain [OF r(2) ld r(3) _ assms(3,4) s(2), of v] r(1,4) by auto
  have nF: "n \<notin> F" using r(1,5) x(4) scells.addrs_live [OF r(2), of n] by auto
  let ?F = "insert p (addrs (cput n s v cs))"
  have sub: "addrs (cput n s v cs) \<subseteq> insert n (addrs cs)" "addrs cs \<subseteq> addrs (cput n s v cs)"
    by (auto simp: addrs_cput)
  have "slist_rep h' p ?F (m(k := v))"
    unfolding slist_rep_def slist_parts_def
    using x(2,3) distinct_cput [OF r(3), of n s v] nF r(4,5,6) sub s(1)
    by (intro exI [of _ q'] exI [of _ "cput n s v cs"]) auto
  moreover have "fresh h (?F - F)" using sub(1) x(4) r(5) by (auto simp: fresh_def)
  moreover have "stringlist_insert h p key v = Some (m k, h')"
    using x(1) r(6) s(1) by (simp add: stringlist_insert_def)
  moreover have "F \<subseteq> ?F" "changes F 2 h h'" using sub(2) x(5) r(5) by auto
  ultimately show ?thesis by blast
qed

interpretation slist: kv_index slist_rep slist_key stringlist_new stringlist_insert stringlist_lookup 1 2
proof
  fix h :: theap assume "heap_ok h" "tbrk h + 1 \<le> 2 ^ 64"
  then show "\<exists>p h' F. stringlist_new h = Some (p, h') \<and> p \<noteq> 0 \<and> slist_rep h' p F (\<lambda>_. 0) \<and> fresh h F \<and> changes {} 1 h h'"
    by (rule slist_new_rep)
next
  fix h p F m key k assume a: "slist_rep h p F m" "slist_key h key k"
  obtain q cs where parts: "slist_parts h p F m q cs" using a(1) by (auto simp: slist_rep_def)
  note r = slist_partsD [OF parts]
  show "stringlist_lookup h p key = Some (m k)"
    using a(2) r(1,6) scells.lookup_chain [OF r(2)]
    by (auto simp: slist_key_def stringlist_lookup_def root_at_def)
next
  fix h p F m G n and h' :: theap assume a: "slist_rep h p F m" "changes G n h h'" "G \<inter> F = {}"
  obtain q cs where parts: "slist_parts h p F m q cs" using a(1) by (auto simp: slist_rep_def)
  note r = slist_partsD [OF parts]
  have "chain scell_view h' q cs" by (rule scells.chain_changes [OF r(2) a(2)]) (use a(3) r(5) in auto)
  moreover have "tmem h' p = Some (Stringlist q)" using changesD(3) [OF a(2) r(1)] a(3) r(5) by auto
  ultimately have "slist_parts h' p F m q cs" using parts by (simp add: slist_parts_def)
  then show "slist_rep h' p F m" by (auto simp: slist_rep_def)
next
  fix h p F m a assume "slist_rep h p F m" "a \<in> F"
  then show "tmem h a \<noteq> None"
    unfolding slist_rep_def slist_parts_def using scells.addrs_live by fastforce
next
  fix h key k G n and h' :: theap assume "slist_key h key k" "changes G n h h'"
  then show "slist_key h' key k" using scells.key_frame unfolding slist_key_def by blast
next
  fix h p F m key k v
  assume "slist_rep h p F m" "slist_key h key k" "heap_ok h" "tbrk h + 2 \<le> 2 ^ 64"
  then show "\<exists>h' F'. stringlist_insert h p key v = Some (m k, h') \<and> slist_rep h' p F' (m(k := v)) \<and> F \<subseteq> F' \<and>
     fresh h (F' - F) \<and> changes F 2 h h'"
    by (rule slist_ins_rep)
qed

end
