(* ===== verification/TK_Schema.thy ===== *)
theory TK_Schema
  imports TK_Index
begin

text \<open>
  Composite indexes: the tuple methods of \<^verbatim>\<open>tuple_schema.c\<close> over two providers of the index contract
  provide it again, with the pairs of keys, hence every schema does. A client that only relies on
  the contract sees a run of calls answered as by a map.
\<close>

section \<open>Clients of an index\<close>

fun run_index :: "(theap \<Rightarrow> cword \<Rightarrow> cword \<Rightarrow> cword \<Rightarrow> (cword \<times> theap) option) \<Rightarrow>
    (theap \<Rightarrow> cword \<Rightarrow> cword \<Rightarrow> cword option) \<Rightarrow> theap \<Rightarrow> cword \<Rightarrow> icall list \<Rightarrow> (cword list \<times> theap) option" where
  "run_index ins look h p [] = Some ([], h)"
| "run_index ins look h p (Insert key v # cs) = do {
     (old, h) \<leftarrow> ins h p key v;
     (rs, h) \<leftarrow> run_index ins look h p cs;
     Some (old # rs, h) }"
| "run_index ins look h p (Lookup key # cs) = do {
     r \<leftarrow> look h p key;
     (rs, h) \<leftarrow> run_index ins look h p cs;
     Some (r # rs, h) }"

text \<open>The answers of a map: an insertion returns the value it replaces.\<close>

fun map_answers :: "(akey \<Rightarrow> cword) \<Rightarrow> acall list \<Rightarrow> cword list" where
  "map_answers m [] = []"
| "map_answers m (AInsert k v # cs) = m k # map_answers (m(k := v)) cs"
| "map_answers m (ALookup k # cs) = m k # map_answers m cs"

text \<open>The call names the abstract key its argument points to.\<close>

fun call_denotes :: "(cword \<Rightarrow> akey \<Rightarrow> bool) \<Rightarrow> icall \<Rightarrow> acall \<Rightarrow> bool" where
  "call_denotes kf (Insert key v) (AInsert k v') \<longleftrightarrow> kf key k \<and> v' = v"
| "call_denotes kf (Lookup key) (ALookup k) \<longleftrightarrow> kf key k"
| "call_denotes kf _ _ \<longleftrightarrow> False"

context kv_index begin

lemma rep_nonempty_disjoint: "rep h p F m \<Longrightarrow> fresh h A \<Longrightarrow> A \<inter> F = {}"
  using fresh_disjoint rep_live by meson

lemma run_answers:
  assumes "rep h p F m" "heap_ok h" "tbrk h + length cs * cins \<le> 2 ^ 64" "list_all2 (call_denotes (keyof h)) cs as"
  shows "\<exists>h'. run_index ins look h p cs = Some (map_answers m as, h')"
  using assms
proof (induction cs arbitrary: h F m as)
  case (Cons c cs)
  from Cons.prems(4) obtain a as' where as: "as = a # as'" "call_denotes (keyof h) c a"
    "list_all2 (call_denotes (keyof h)) cs as'" by (auto simp: list_all2_Cons1)
  show ?case
  proof (cases c)
    case (Insert key v)
    then obtain k where k: "a = AInsert k v" "keyof h key k" using as(2) by (cases a) auto
    have "tbrk h + cins \<le> 2 ^ 64" using Cons.prems(3) by simp
    then obtain h1 F1 where i: "ins h p key v = Some (m k, h1)" "rep h1 p F1 (m(k := v))" "changes F cins h h1"
      using ins_rep [OF Cons.prems(1) k(2) Cons.prems(2)] by blast
    have "tbrk h1 + length cs * cins \<le> 2 ^ 64" using changesD(2) [OF i(3)] Cons.prems(3) by simp
    moreover have "list_all2 (call_denotes (keyof h1)) cs as'"
      using as(3)
    proof (rule list_all2_mono)
      fix c' a' assume "call_denotes (keyof h) c' a'"
      then show "call_denotes (keyof h1) c' a'"
        using keyof_frame [OF _ i(3)] by (cases c'; cases a') auto
    qed
    ultimately obtain h' where "run_index ins look h1 p cs = Some (map_answers (m(k := v)) as', h')"
      using Cons.IH [OF i(2) changesD(1) [OF i(3)]] by blast
    then show ?thesis using i(1) by (simp add: Insert as(1) k(1))
  next
    case (Lookup key)
    then obtain k where k: "a = ALookup k" "keyof h key k" using as(2) by (cases a) auto
    obtain h' where "run_index ins look h p cs = Some (map_answers m as', h')"
      using Cons.IH [OF Cons.prems(1,2) _ as(3)] Cons.prems(3) by auto
    then show ?thesis using look_rep [OF Cons.prems(1) k(2)] by (simp add: Lookup as(1) k(1))
  qed
qed simp

lemma new_run_answers:
  assumes "heap_ok h" "tbrk h + cnew + length cs * cins \<le> 2 ^ 64" "list_all2 (call_denotes (keyof h)) cs as"
  shows "\<exists>p h0 h'. new h = Some (p, h0) \<and> run_index ins look h0 p cs = Some (map_answers (\<lambda>_. 0) as, h')"
proof -
  obtain p h0 F where n: "new h = Some (p, h0)" "rep h0 p F (\<lambda>_. 0)" "changes {} cnew h h0"
    using new_rep [OF assms(1)] assms(2) by fastforce
  have "list_all2 (call_denotes (keyof h0)) cs as"
    using assms(3)
  proof (rule list_all2_mono)
    fix c' a' assume "call_denotes (keyof h) c' a'"
    then show "call_denotes (keyof h0) c' a'"
      using keyof_frame [OF _ n(3)] by (cases c'; cases a') auto
  qed
  then show ?thesis
    using run_answers [OF n(2) changesD(1) [OF n(3)], of cs as] changesD(2) [OF n(3)] assms(2) n(1) by auto
qed

end

section \<open>Pairs of indexes\<close>

text \<open>The first index maps the first component to an index of its own for the second.\<close>

definition tuple_parts :: "(theap \<Rightarrow> cword \<Rightarrow> cword set \<Rightarrow> (akey \<Rightarrow> cword) \<Rightarrow> bool) \<Rightarrow>
    (theap \<Rightarrow> cword \<Rightarrow> cword set \<Rightarrow> (akey \<Rightarrow> cword) \<Rightarrow> bool) \<Rightarrow> theap \<Rightarrow> cword \<Rightarrow>
    cword set \<Rightarrow> (akey \<Rightarrow> cword) \<Rightarrow> (akey \<Rightarrow> cword set) \<Rightarrow> (akey \<Rightarrow> akey \<Rightarrow> cword) \<Rightarrow> bool" where
  "tuple_parts repa repb h p F1 m1 Fs ms \<longleftrightarrow> repa h p F1 m1 \<and>
     (\<forall>k. if m1 k = 0 then Fs k = {} \<and> ms k = (\<lambda>_. 0) else repb h (m1 k) (Fs k) (ms k)) \<and>
     (\<forall>k. F1 \<inter> Fs k = {}) \<and> (\<forall>k k'. k \<noteq> k' \<longrightarrow> Fs k \<inter> Fs k' = {})"

definition tuple_rep :: "(theap \<Rightarrow> cword \<Rightarrow> cword set \<Rightarrow> (akey \<Rightarrow> cword) \<Rightarrow> bool) \<Rightarrow>
    (theap \<Rightarrow> cword \<Rightarrow> cword set \<Rightarrow> (akey \<Rightarrow> cword) \<Rightarrow> bool) \<Rightarrow> theap \<Rightarrow> cword \<Rightarrow>
    cword set \<Rightarrow> (akey \<Rightarrow> cword) \<Rightarrow> bool" where
  "tuple_rep repa repb h p F m \<longleftrightarrow> (\<exists>F1 m1 Fs ms. tuple_parts repa repb h p F1 m1 Fs ms \<and>
     F = F1 \<union> (\<Union>k. Fs k) \<and> (\<forall>k k'. m (KPair k k') = ms k k'))"

definition tuple_key :: "(theap \<Rightarrow> cword \<Rightarrow> akey \<Rightarrow> bool) \<Rightarrow> (theap \<Rightarrow> cword \<Rightarrow> akey \<Rightarrow> bool) \<Rightarrow>
    theap \<Rightarrow> cword \<Rightarrow> akey \<Rightarrow> bool" where
  "tuple_key keya keyb h key k \<longleftrightarrow> (\<exists>kp ka kb. tmem h key = Some (Keypair kp) \<and> keya h (kp_a kp) ka \<and>
     keyb h (kp_b kp) kb \<and> k = KPair ka kb)"

text \<open>\<^verbatim>\<open>tuple_insert_method\<close> and \<^verbatim>\<open>tuple_lookup_method\<close> over the methods of the two schemas.\<close>

definition tuple_ins :: "(theap \<Rightarrow> cword \<Rightarrow> cword \<Rightarrow> cword option) \<Rightarrow>
    (theap \<Rightarrow> cword \<Rightarrow> cword \<Rightarrow> cword \<Rightarrow> (cword \<times> theap) option) \<Rightarrow> (theap \<Rightarrow> (cword \<times> theap) option) \<Rightarrow>
    (theap \<Rightarrow> cword \<Rightarrow> cword \<Rightarrow> cword \<Rightarrow> (cword \<times> theap) option) \<Rightarrow>
    theap \<Rightarrow> cword \<Rightarrow> cword \<Rightarrow> cword \<Rightarrow> (cword \<times> theap) option" where
  "tuple_ins looka insa newb insb h ind key v = do {
     k \<leftarrow> keypair_at h key;
     bindex \<leftarrow> looka h ind (kp_a k);
     (bindex, h) \<leftarrow> (if bindex = 0
        then do {
          (bindex, h) \<leftarrow> newb h;
          (_, h) \<leftarrow> insa h ind (kp_a k) bindex;
          Some (bindex, h) }
        else Some (bindex, h));
     insb h bindex (kp_b k) v }"

definition tuple_look :: "(theap \<Rightarrow> cword \<Rightarrow> cword \<Rightarrow> cword option) \<Rightarrow> (theap \<Rightarrow> cword \<Rightarrow> cword \<Rightarrow> cword option) \<Rightarrow>
    theap \<Rightarrow> cword \<Rightarrow> cword \<Rightarrow> cword option" where
  "tuple_look looka lookb h ind key = do {
     k \<leftarrow> keypair_at h key;
     bindex \<leftarrow> looka h ind (kp_a k);
     if bindex = 0 then Some 0 else lookb h bindex (kp_b k) }"

locale kv_pair =
  a: kv_index repa keya newa insa looka cnewa cinsa +
  b: kv_index repb keyb newb insb lookb cnewb cinsb
  for repa keya newa insa looka cnewa cinsa repb keyb newb insb lookb cnewb cinsb
begin

abbreviation parts where "parts \<equiv> tuple_parts repa repb"

lemma partsD:
  assumes "parts h p F1 m1 Fs ms"
  shows "repa h p F1 m1" "m1 k \<noteq> 0 \<Longrightarrow> repb h (m1 k) (Fs k) (ms k)" "m1 k = 0 \<Longrightarrow> Fs k = {}"
    "m1 k = 0 \<Longrightarrow> ms k = (\<lambda>_. 0)" "F1 \<inter> Fs k = {}" "k \<noteq> k' \<Longrightarrow> Fs k \<inter> Fs k' = {}"
  using assms unfolding tuple_parts_def by (auto split: if_splits)

lemma parts_live:
  assumes "parts h p F1 m1 Fs ms" "x \<in> F1 \<union> (\<Union>k. Fs k)"
  shows "tmem h x \<noteq> None"
proof (cases "x \<in> F1")
  case True
  then show ?thesis using a.rep_live [OF partsD(1) [OF assms(1)]] by blast
next
  case False
  then obtain k where k: "x \<in> Fs k" using assms(2) by blast
  then have "m1 k \<noteq> 0" using partsD(3) [OF assms(1), of k] by blast
  then show ?thesis using b.rep_live [OF partsD(2) [OF assms(1)] k] by blast
qed

lemma parts_frame:
  assumes "parts h p F1 m1 Fs ms" "changes G n h h'" "G \<inter> (F1 \<union> (\<Union>k. Fs k)) = {}"
  shows "parts h' p F1 m1 Fs ms"
proof -
  have "repa h' p F1 m1" by (rule a.rep_frame [OF partsD(1) [OF assms(1)] assms(2)]) (use assms(3) in blast)
  moreover have "repb h' (m1 k) (Fs k) (ms k)" if "m1 k \<noteq> 0" for k
    by (rule b.rep_frame [OF partsD(2) [OF assms(1) that] assms(2)]) (use assms(3) in blast)
  ultimately show ?thesis using assms(1) unfolding tuple_parts_def by simp
qed

text \<open>The index of the first component is there, or is made and entered.\<close>

lemma prepare:
  assumes p: "parts h p F1 m1 Fs ms" and k: "keya h key k" and ok: "heap_ok h"
    and room: "tbrk h + (cnewb + cinsa) \<le> 2 ^ 64"
  shows "\<exists>q h' F1' Fs'. (if m1 k = 0
        then do { (q, h) \<leftarrow> newb h; (_, h) \<leftarrow> insa h p key q; Some (q, h) } else Some (m1 k, h)) = Some (q, h') \<and>
     q \<noteq> 0 \<and> parts h' p F1' (m1(k := q)) Fs' ms \<and> F1 \<union> (\<Union>k. Fs k) \<subseteq> F1' \<union> (\<Union>k. Fs' k) \<and>
     fresh h (F1' \<union> (\<Union>k. Fs' k) - (F1 \<union> (\<Union>k. Fs k))) \<and> changes (F1 \<union> (\<Union>k. Fs k)) (cnewb + cinsa) h h'"
proof (cases "m1 k = 0")
  case False
  have "m1(k := m1 k) = m1" by simp
  then show ?thesis using p False changes_mono [OF changes_refl [OF ok]]
    by (intro exI [of _ "m1 k"] exI [of _ h] exI [of _ F1] exI [of _ Fs]) (simp add: fresh_def)
next
  case True
  obtain q h1 F2 where n: "newb h = Some (q, h1)" "q \<noteq> 0" "repb h1 q F2 (\<lambda>_. 0)" "fresh h F2" "changes {} cnewb h h1"
    using b.new_rep [OF ok] room by fastforce
  have p1: "parts h1 p F1 m1 Fs ms" by (rule parts_frame [OF p n(5)]) simp
  have F2: "F2 \<inter> (F1 \<union> (\<Union>k. Fs k)) = {}" by (rule fresh_disjoint [OF n(4) parts_live [OF p]])
  have room1: "tbrk h1 + cinsa \<le> 2 ^ 64" using changesD(2) [OF n(5)] room by simp
  obtain old h2 F1' where i: "insa h1 p key q = Some (old, h2)" "repa h2 p F1' (m1(k := q))" "F1 \<subseteq> F1'"
    "fresh h1 (F1' - F1)" "changes F1 cinsa h1 h2"
    using a.ins_rep [OF partsD(1) [OF p1] a.keyof_frame [OF k n(5)] changesD(1) [OF n(5)] room1] by blast
  have new1: "(F1' - F1) \<inter> (F1 \<union> (\<Union>k. Fs k)) = {}" by (rule fresh_disjoint [OF i(4) parts_live [OF p1]])
  have new2: "(F1' - F1) \<inter> F2 = {}" by (rule fresh_disjoint [OF i(4) b.rep_live [OF n(3)]])
  have F2r: "repb h2 q F2 (\<lambda>_. 0)" by (rule b.rep_frame [OF n(3) i(5)]) (use F2 in blast)
  let ?Fs = "Fs(k := F2)"
  have Fk: "Fs k = {}" "ms k = (\<lambda>_. 0)" using partsD(3,4) [OF p True] by simp_all
  have "repb h2 (m1 l) (Fs l) (ms l)" if "m1 l \<noteq> 0" for l
    by (rule b.rep_frame [OF partsD(2) [OF p1 that] i(5)]) (use partsD(5) [OF p] in blast)
  moreover have "F1' \<inter> Fs l = {}" "F2 \<inter> Fs l = {}" "Fs l \<inter> F2 = {}" for l
    using new1 F2 partsD(5) [OF p, of l] by blast+
  moreover have "F1' \<inter> F2 = {}" using new2 F2 by blast
  ultimately have "parts h2 p F1' (m1(k := q)) ?Fs ms"
    unfolding tuple_parts_def
    using i(2) F2r Fk(2) n(2) partsD(3,4,6) [OF p] by simp
  moreover have "F1 \<union> (\<Union>k. Fs k) \<subseteq> F1' \<union> (\<Union>k. ?Fs k)" using i(3) Fk(1) by auto
  moreover have "fresh h (F1' \<union> (\<Union>k. ?Fs k) - (F1 \<union> (\<Union>k. Fs k)))"
  proof -
    have "fresh h (F1' - F1)" using fresh_changes [OF n(5) i(4)] by simp
    then show ?thesis using n(4) unfolding fresh_def by (auto split: if_splits)
  qed
  moreover have "changes (F1 \<union> (\<Union>k. Fs k)) (cnewb + cinsa) h h2"
    using changes_trans [OF n(5) i(5)] changes_trans [OF changes_mono [OF n(5), of F1] i(5)]
    by (rule_tac changes_mono [of F1]) (auto simp: fresh_def)
  moreover have "(if m1 k = 0
      then do { (q, h) \<leftarrow> newb h; (_, h) \<leftarrow> insa h p key q; Some (q, h) } else Some (m1 k, h)) = Some (q, h2)"
    using True n(1) i(1) by simp
  ultimately show ?thesis using n(2) by blast
qed

text \<open>The insertion in the index of the second component.\<close>

lemma finish:
  assumes p: "parts h p F1 m1 Fs ms" and q: "m1 k \<noteq> 0" and k: "keyb h key kb" and ok: "heap_ok h"
    and room: "tbrk h + cinsb \<le> 2 ^ 64"
  shows "\<exists>h' Fs'. insb h (m1 k) key v = Some (ms k kb, h') \<and> parts h' p F1 m1 Fs' (ms(k := (ms k)(kb := v))) \<and>
     (\<Union>k. Fs k) \<subseteq> (\<Union>k. Fs' k) \<and> fresh h ((\<Union>k. Fs' k) - (F1 \<union> (\<Union>k. Fs k))) \<and>
     changes (F1 \<union> (\<Union>k. Fs k)) cinsb h h'"
proof -
  obtain h' F2 where i: "insb h (m1 k) key v = Some (ms k kb, h')" "repb h' (m1 k) F2 ((ms k)(kb := v))"
    "Fs k \<subseteq> F2" "fresh h (F2 - Fs k)" "changes (Fs k) cinsb h h'"
    using b.ins_rep [OF partsD(2) [OF p q] k ok room] by blast
  let ?Fs = "Fs(k := F2)"
  have new: "(F2 - Fs k) \<inter> (F1 \<union> (\<Union>k. Fs k)) = {}" by (rule fresh_disjoint [OF i(4) parts_live [OF p]])
  have "repa h' p F1 m1" by (rule a.rep_frame [OF partsD(1) [OF p] i(5)]) (use partsD(5) [OF p] in blast)
  moreover have "repb h' (m1 l) (Fs l) (ms l)" if "m1 l \<noteq> 0" "l \<noteq> k" for l
    by (rule b.rep_frame [OF partsD(2) [OF p that(1)] i(5)]) (use partsD(6) [OF p, of k l] that(2) in blast)
  moreover have "F1 \<inter> F2 = {}" using new partsD(5) [OF p, of k] by blast
  moreover have "F2 \<inter> Fs l = {}" "Fs l \<inter> F2 = {}" if "l \<noteq> k" for l
    using new partsD(6) [OF p, of k l] that by blast+
  ultimately have "parts h' p F1 m1 ?Fs (ms(k := (ms k)(kb := v)))"
    unfolding tuple_parts_def using i(2) q partsD(3-6) [OF p] by simp
  moreover have "(\<Union>k. Fs k) \<subseteq> (\<Union>k. ?Fs k)" using i(3) by auto
  moreover have "fresh h ((\<Union>k. ?Fs k) - (F1 \<union> (\<Union>k. Fs k)))"
    using i(4) unfolding fresh_def by (auto split: if_splits)
  moreover have "changes (F1 \<union> (\<Union>k. Fs k)) cinsb h h'" by (rule changes_mono [OF i(5)]) auto
  ultimately show ?thesis using i(1) by blast
qed

lemma pair_new_rep:
  assumes "heap_ok h" "tbrk h + cnewa \<le> 2 ^ 64"
  shows "\<exists>p h' F. newa h = Some (p, h') \<and> p \<noteq> 0 \<and> tuple_rep repa repb h' p F (\<lambda>_. 0) \<and> fresh h F \<and>
     changes {} cnewa h h'"
proof -
  obtain p h' F where n: "newa h = Some (p, h')" "p \<noteq> 0" "repa h' p F (\<lambda>_. 0)" "fresh h F" "changes {} cnewa h h'"
    using a.new_rep [OF assms] by blast
  have "parts h' p F (\<lambda>_. 0) (\<lambda>_. {}) (\<lambda>_ _. 0)" using n(3) by (simp add: tuple_parts_def)
  then have "tuple_rep repa repb h' p F (\<lambda>_. 0)"
    unfolding tuple_rep_def
    by (intro exI [of _ F] exI [of _ "\<lambda>_. 0"] exI [of _ "\<lambda>_. {}"] exI [of _ "\<lambda>_ _. 0"]) simp
  then show ?thesis using n by blast
qed

lemma pair_look_rep:
  assumes "tuple_rep repa repb h p F m" "tuple_key keya keyb h key k"
  shows "tuple_look looka lookb h p key = Some (m k)"
proof -
  obtain F1 m1 Fs ms where r: "parts h p F1 m1 Fs ms" "\<And>k k'. m (KPair k k') = ms k k'"
    using assms(1) unfolding tuple_rep_def by blast
  obtain kp ka kb where k: "tmem h key = Some (Keypair kp)" "keya h (kp_a kp) ka" "keyb h (kp_b kp) kb" "k = KPair ka kb"
    using assms(2) unfolding tuple_key_def by blast
  have "looka h p (kp_a kp) = Some (m1 ka)" by (rule a.look_rep [OF partsD(1) [OF r(1)] k(2)])
  moreover have "lookb h (m1 ka) (kp_b kp) = Some (ms ka kb)" if "m1 ka \<noteq> 0"
    by (rule b.look_rep [OF partsD(2) [OF r(1) that] k(3)])
  ultimately show ?thesis
    using k(1,4) r(2) partsD(4) [OF r(1), of ka] by (simp add: tuple_look_def keypair_at_def)
qed

lemma pair_ins_rep:
  assumes "tuple_rep repa repb h p F m" "tuple_key keya keyb h key k" "heap_ok h"
    "tbrk h + (cnewb + cinsa + cinsb) \<le> 2 ^ 64"
  shows "\<exists>h' F'. tuple_ins looka insa newb insb h p key v = Some (m k, h') \<and> tuple_rep repa repb h' p F' (m(k := v)) \<and>
     F \<subseteq> F' \<and> fresh h (F' - F) \<and> changes F (cnewb + cinsa + cinsb) h h'"
proof -
  obtain F1 m1 Fs ms where r: "parts h p F1 m1 Fs ms" "F = F1 \<union> (\<Union>k. Fs k)" "\<And>k k'. m (KPair k k') = ms k k'"
    using assms(1) unfolding tuple_rep_def by blast
  obtain kp ka kb where k: "tmem h key = Some (Keypair kp)" "keya h (kp_a kp) ka" "keyb h (kp_b kp) kb" "k = KPair ka kb"
    using assms(2) unfolding tuple_key_def by blast
  have lk: "looka h p (kp_a kp) = Some (m1 ka)" by (rule a.look_rep [OF partsD(1) [OF r(1)] k(2)])
  obtain q h1 F1' Fs' where s1: "(if m1 ka = 0
        then do { (q, h) \<leftarrow> newb h; (_, h) \<leftarrow> insa h p (kp_a kp) q; Some (q, h) } else Some (m1 ka, h)) = Some (q, h1)"
    "q \<noteq> 0" "parts h1 p F1' (m1(ka := q)) Fs' ms" "F1 \<union> (\<Union>k. Fs k) \<subseteq> F1' \<union> (\<Union>k. Fs' k)"
    "fresh h (F1' \<union> (\<Union>k. Fs' k) - (F1 \<union> (\<Union>k. Fs k)))" "changes (F1 \<union> (\<Union>k. Fs k)) (cnewb + cinsa) h h1"
    using prepare [OF r(1) k(2) assms(3)] assms(4) by fastforce
  have room: "tbrk h1 + cinsb \<le> 2 ^ 64" using changesD(2) [OF s1(6)] assms(4) by simp
  obtain h2 Fs2 where s2: "insb h1 q (kp_b kp) v = Some (ms ka kb, h2)"
    "parts h2 p F1' (m1(ka := q)) Fs2 (ms(ka := (ms ka)(kb := v)))"
    "(\<Union>k. Fs' k) \<subseteq> (\<Union>k. Fs2 k)" "fresh h1 ((\<Union>k. Fs2 k) - (F1' \<union> (\<Union>k. Fs' k)))"
    "changes (F1' \<union> (\<Union>k. Fs' k)) cinsb h1 h2"
    using finish [OF s1(3) _ b.keyof_frame [OF k(3) s1(6)] changesD(1) [OF s1(6)] room, of ka v] s1(2) by auto
  let ?F = "F1' \<union> (\<Union>k. Fs2 k)"
  have "tuple_rep repa repb h2 p ?F (m(k := v))"
    unfolding tuple_rep_def
    by (intro exI conjI, rule s2(2)) (auto simp: k(4) r(3))
  moreover have "F \<subseteq> ?F" using s1(4) s2(3) r(2) by blast
  moreover have "changes F (cnewb + cinsa + cinsb) h h2"
    unfolding r(2) by (rule changes_trans [OF s1(6) s2(5) s1(5)])
  moreover have "fresh h (?F - F)"
  proof -
    have "fresh h ((\<Union>k. Fs2 k) - (F1' \<union> (\<Union>k. Fs' k)))"
      by (rule fresh_changes [OF s1(6) s2(4)]) (use s1(4) in blast)
    then show ?thesis using s1(5) unfolding fresh_def r(2) by blast
  qed
  moreover have "tuple_ins looka insa newb insb h p key v = Some (m k, h2)"
    using lk k(1) s1(1) s2(1) by (simp add: tuple_ins_def keypair_at_def k(4) r(3))
  ultimately show ?thesis by blast
qed

lemma pair_index:
  "kv_index (tuple_rep repa repb) (tuple_key keya keyb) newa (tuple_ins looka insa newb insb) (tuple_look looka lookb)
     cnewa (cnewb + cinsa + cinsb)"
proof
  fix h :: theap assume "heap_ok h" "tbrk h + cnewa \<le> 2 ^ 64"
  then show "\<exists>p h' F. newa h = Some (p, h') \<and> p \<noteq> 0 \<and> tuple_rep repa repb h' p F (\<lambda>_. 0) \<and> fresh h F \<and>
     changes {} cnewa h h'"
    by (rule pair_new_rep)
next
  fix h p F m key k assume "tuple_rep repa repb h p F m" "tuple_key keya keyb h key k"
  then show "tuple_look looka lookb h p key = Some (m k)" by (rule pair_look_rep)
next
  fix h p F m key k v
  assume "tuple_rep repa repb h p F m" "tuple_key keya keyb h key k" "heap_ok h"
    "tbrk h + (cnewb + cinsa + cinsb) \<le> 2 ^ 64"
  then show "\<exists>h' F'. tuple_ins looka insa newb insb h p key v = Some (m k, h') \<and> tuple_rep repa repb h' p F' (m(k := v)) \<and>
     F \<subseteq> F' \<and> fresh h (F' - F) \<and> changes F (cnewb + cinsa + cinsb) h h'"
    by (rule pair_ins_rep)
next
  fix h p F m G n and h' :: theap assume a: "tuple_rep repa repb h p F m" "changes G n h h'" "G \<inter> F = {}"
  obtain F1 m1 Fs ms where r: "parts h p F1 m1 Fs ms" "F = F1 \<union> (\<Union>k. Fs k)" "\<forall>k k'. m (KPair k k') = ms k k'"
    using a(1) unfolding tuple_rep_def by auto
  have "parts h' p F1 m1 Fs ms" by (rule parts_frame [OF r(1) a(2) a(3) [unfolded r(2)]])
  then show "tuple_rep repa repb h' p F m" unfolding tuple_rep_def using r(2,3) by (intro exI conjI)
next
  fix h p F m a assume a: "tuple_rep repa repb h p F m" "a \<in> F"
  obtain F1 m1 Fs ms where r: "parts h p F1 m1 Fs ms" "F = F1 \<union> (\<Union>k. Fs k)"
    using a(1) unfolding tuple_rep_def by auto
  show "tmem h a \<noteq> None" by (rule parts_live [OF r(1) a(2) [unfolded r(2)]])
next
  fix h key k G n and h' :: theap assume a: "tuple_key keya keyb h key k" "changes G n h h'"
  then show "tuple_key keya keyb h' key k"
    unfolding tuple_key_def using a.keyof_frame [OF _ a(2)] b.keyof_frame [OF _ a(2)] changesD(4) [OF a(2)]
    by (metis frozen.simps(2))
qed

end

section \<open>Every schema\<close>

primrec index_rep :: "schema \<Rightarrow> theap \<Rightarrow> cword \<Rightarrow> cword set \<Rightarrow> (akey \<Rightarrow> cword) \<Rightarrow> bool" where
  "index_rep Inthash_schema = hash_rep"
| "index_rep Stringlist_schema = slist_rep"
| "index_rep (Schemapair a b) = tuple_rep (index_rep a) (index_rep b)"

text \<open>The object a key of a schema points to: a number, a string or a pair of keys.\<close>

primrec index_key :: "schema \<Rightarrow> theap \<Rightarrow> cword \<Rightarrow> akey \<Rightarrow> bool" where
  "index_key Inthash_schema = hash_key"
| "index_key Stringlist_schema = slist_key"
| "index_key (Schemapair a b) = tuple_key (index_key a) (index_key b)"

text \<open>The number of objects a call allocates at most.\<close>

primrec new_cost :: "schema \<Rightarrow> nat" where
  "new_cost Inthash_schema = 1"
| "new_cost Stringlist_schema = 1"
| "new_cost (Schemapair a b) = new_cost a"

primrec insert_cost :: "schema \<Rightarrow> nat" where
  "insert_cost Inthash_schema = 1"
| "insert_cost Stringlist_schema = 2"
| "insert_cost (Schemapair a b) = new_cost b + insert_cost a + insert_cost b"

lemma tuple_methods:
  "index_new (Schemapair a b) = index_new a"
  "index_insert (Schemapair a b) = tuple_ins (index_lookup a) (index_insert a) (index_new b) (index_insert b)"
  "index_lookup (Schemapair a b) = tuple_look (index_lookup a) (index_lookup b)"
  by (simp_all add: fun_eq_iff tuple_ins_def tuple_look_def)

lemma basic_methods:
  "index_new Inthash_schema = inthash_new" "index_insert Inthash_schema = inthash_insert"
  "index_lookup Inthash_schema = inthash_lookup" "index_new Stringlist_schema = stringlist_new"
  "index_insert Stringlist_schema = stringlist_insert" "index_lookup Stringlist_schema = stringlist_lookup"
  by (simp_all add: fun_eq_iff inthash_new_method_def inthash_insert_method_def inthash_lookup_method_def
      stringlist_new_method_def stringlist_insert_method_def stringlist_lookup_method_def)

lemma schema_index:
  "kv_index (index_rep s) (index_key s) (index_new s) (index_insert s) (index_lookup s) (new_cost s) (insert_cost s)"
proof (induction s)
  case Inthash_schema
  show ?case using hash.kv_index_axioms by (simp add: basic_methods)
next
  case Stringlist_schema
  show ?case using slist.kv_index_axioms by (simp add: basic_methods)
next
  case (Schemapair a b)
  then show ?case using kv_pair.pair_index [OF kv_pair.intro] by (simp add: tuple_methods)
qed

interpretation index: kv_index "index_rep s" "index_key s" "index_new s" "index_insert s" "index_lookup s"
  "new_cost s" "insert_cost s" for s
  by (rule schema_index)

interpretation index_pair: kv_pair
  "index_rep a" "index_key a" "index_new a" "index_insert a" "index_lookup a" "new_cost a" "insert_cost a"
  "index_rep b" "index_key b" "index_new b" "index_insert b" "index_lookup b" "new_cost b" "insert_cost b" for a b
  by (rule kv_pair.intro) (rule schema_index)+

end
