(* ===== verification/TK_Fo.thy ===== *)
theory TK_Fo
  imports TK_Schema
begin

text \<open>
  The first-order variant of the composite index, \<^verbatim>\<open>fo_index.c\<close>: the schema is an array of column
  descriptors ended by \<^verbatim>\<open>desc_End\<close> and a key is an array of column values. Making the index of the
  columns after the last one fails the assertion, so that no record can be entered.
\<close>

datatype descriptor = desc_End | desc_Int | desc_Str

text \<open>A schema pointer is the array from that position on, and so is a key; reading past the end is
  undefined.\<close>

definition fo_index_new :: "descriptor list \<Rightarrow> theap \<Rightarrow> (cword \<times> theap) option" where
  "fo_index_new sch h = (case sch of
     [] \<Rightarrow> None
   | desc_Int # _ \<Rightarrow> inthash_new h
   | desc_Str # _ \<Rightarrow> stringlist_new h
   | desc_End # _ \<Rightarrow> None)"

definition vk_0 :: "cword list \<Rightarrow> cword option" where
  "vk_0 vk = array_at vk 0"

fun fo_index_insert :: "descriptor list \<Rightarrow> theap \<Rightarrow> cword \<Rightarrow> cword list \<Rightarrow> cword \<Rightarrow> (cword \<times> theap) option" where
  "fo_index_insert [] h ind vk v = None"
| "fo_index_insert (desc_End # sch) h ind vk v = Some (ind, h)"
| "fo_index_insert (desc_Int # sch) h ind vk v = do {
     key \<leftarrow> vk_0 vk;
     bindex \<leftarrow> inthash_lookup h ind key;
     (bindex, h) \<leftarrow> (if bindex = 0
        then do {
          (bindex, h) \<leftarrow> fo_index_new sch h;
          (_, h) \<leftarrow> inthash_insert h ind key bindex;
          Some (bindex, h) }
        else Some (bindex, h));
     fo_index_insert sch h bindex (tl vk) v }"
| "fo_index_insert (desc_Str # sch) h ind vk v = do {
     key \<leftarrow> vk_0 vk;
     bindex \<leftarrow> stringlist_lookup h ind key;
     (bindex, h) \<leftarrow> (if bindex = 0
        then do {
          (bindex, h) \<leftarrow> fo_index_new sch h;
          (_, h) \<leftarrow> stringlist_insert h ind key bindex;
          Some (bindex, h) }
        else Some (bindex, h));
     fo_index_insert sch h bindex (tl vk) v }"

fun fo_index_lookup :: "descriptor list \<Rightarrow> theap \<Rightarrow> cword \<Rightarrow> cword list \<Rightarrow> cword option" where
  "fo_index_lookup [] h ind vk = None"
| "fo_index_lookup (desc_End # sch) h ind vk = Some ind"
| "fo_index_lookup (desc_Int # sch) h ind vk = do {
     key \<leftarrow> vk_0 vk;
     bindex \<leftarrow> inthash_lookup h ind key;
     if bindex = 0 then Some 0 else fo_index_lookup sch h bindex (tl vk) }"
| "fo_index_lookup (desc_Str # sch) h ind vk = do {
     key \<leftarrow> vk_0 vk;
     bindex \<leftarrow> stringlist_lookup h ind key;
     if bindex = 0 then Some 0 else fo_index_lookup sch h bindex (tl vk) }"

section \<open>Fresh indexes stay empty\<close>

fun col_key :: "theap \<Rightarrow> descriptor \<Rightarrow> cword \<Rightarrow> bool" where
  "col_key h desc_Str key \<longleftrightarrow> (\<exists>s. str_key h key s)"
| "col_key h _ key \<longleftrightarrow> True"

fun col_rep :: "descriptor \<Rightarrow> theap \<Rightarrow> cword \<Rightarrow> cword set \<Rightarrow> (akey \<Rightarrow> cword) \<Rightarrow> bool" where
  "col_rep desc_Str = slist_rep"
| "col_rep _ = hash_rep"

lemma col_key_frame: "col_key h d key \<Longrightarrow> changes G n h h' \<Longrightarrow> col_key h' d key"
  by (cases d) (auto intro: scells.key_frame)

lemma col_rep_frame: "col_rep d h p F m \<Longrightarrow> changes G n h h' \<Longrightarrow> G \<inter> F = {} \<Longrightarrow> col_rep d h' p F m"
  by (cases d) (auto intro: hash.rep_frame slist.rep_frame)

lemma col_rep_live: "col_rep d h p F m \<Longrightarrow> a \<in> F \<Longrightarrow> tmem h a \<noteq> None"
  by (cases d) (auto dest: hash.rep_live slist.rep_live)

lemma hash_key_self: "hash_key h key (KInt key)"
  by (simp add: hash_key_def)

lemma slist_key_str: "str_key h key s \<Longrightarrow> slist_key h key (KStr s)"
  by (simp add: slist_key_def)

lemma fo_new_rep:
  assumes "heap_ok h" "tbrk h + 1 \<le> 2 ^ 64" "d \<noteq> desc_End"
  shows "\<exists>p h' F. fo_index_new (d # sch) h = Some (p, h') \<and> p \<noteq> 0 \<and> col_rep d h' p F (\<lambda>_. 0) \<and> fresh h F \<and>
     changes {} 1 h h'"
  using hash.new_rep [OF assms(1,2)] slist.new_rep [OF assms(1,2)] assms(3)
  by (cases d) (simp_all add: fo_index_new_def)

text \<open>A look-up in an empty column finds nothing, and an insertion of \<open>b\<close> keeps the objects of others.\<close>

lemma col_empty:
  assumes "col_rep d h p F (\<lambda>_. 0)" "col_key h d key" "d \<noteq> desc_End"
  shows "(d = desc_Int \<longrightarrow> inthash_lookup h p key = Some 0) \<and> (d = desc_Str \<longrightarrow> stringlist_lookup h p key = Some 0)"
  using assms hash.look_rep [OF _ hash_key_self] slist.look_rep [OF _ slist_key_str]
  by (cases d) fastforce+

lemma fo_lookup_empty:
  assumes "col_rep d h p F (\<lambda>_. 0)" "col_key h d key" "d \<noteq> desc_End"
  shows "fo_index_lookup (d # sch) h p (key # vk) = Some 0"
  using col_empty [OF assms] assms(3) by (cases d) (auto simp: vk_0_def array_at_def)

lemma fo_insert_empty:
  assumes "col_rep d h p F (\<lambda>_. 0)" "d \<noteq> desc_End" "desc_End \<notin> set cols" "heap_ok h"
    "tbrk h + 3 * Suc (length cols) \<le> 2 ^ 64" "list_all2 (col_key h) (d # cols) ks"
  shows "fo_index_insert (d # cols @ desc_End # rest) h p ks v = None"
  using assms
proof (induction cols arbitrary: d h p F ks)
  case Nil
  then obtain key where "ks = [key]" "col_key h d key" by (auto simp: list_all2_Cons1)
  then show ?case using col_empty [OF Nil(1) _ Nil(2), of key] Nil(2)
    by (cases d) (simp_all add: vk_0_def array_at_def fo_index_new_def)
next
  case (Cons e cols)
  obtain key ks' where ks: "ks = key # ks'" "col_key h d key" "list_all2 (col_key h) (e # cols) ks'"
    using Cons.prems(6) by (auto simp: list_all2_Cons1)
  have e: "e \<noteq> desc_End" "desc_End \<notin> set cols" using Cons.prems(3) by auto
  obtain q h1 F2 where n: "fo_index_new (e # cols @ desc_End # rest) h = Some (q, h1)" "q \<noteq> 0"
    "col_rep e h1 q F2 (\<lambda>_. 0)" "fresh h F2" "changes {} 1 h h1"
    using fo_new_rep [OF Cons.prems(4) _ e(1)] Cons.prems(5) by fastforce
  have rep1: "col_rep d h1 p F (\<lambda>_. 0)" by (rule col_rep_frame [OF Cons.prems(1) n(5)]) simp
  have key1: "col_key h1 d key" by (rule col_key_frame [OF ks(2) n(5)])
  have dis: "F2 \<inter> F = {}" by (rule fresh_disjoint [OF n(4) col_rep_live [OF Cons.prems(1)]])
  have next_None: "fo_index_insert (e # cols @ desc_End # rest) h2 q ks' v = None"
    if c: "changes F 2 h1 h2" for h2
  proof -
    have "list_all2 (col_key h2) (e # cols) ks'"
      using ks(3) by (rule list_all2_mono) (use col_key_frame [OF _ n(5)] col_key_frame [OF _ c] in blast)
    moreover have "col_rep e h2 q F2 (\<lambda>_. 0)" by (rule col_rep_frame [OF n(3) c]) (use dis in blast)
    moreover have "tbrk h2 + 3 * Suc (length cols) \<le> 2 ^ 64"
      using changesD(2) [OF n(5)] changesD(2) [OF c] Cons.prems(5) by simp
    ultimately show ?thesis using Cons.IH [of e h2 q F2 ks'] e changesD(1) [OF c] by simp
  qed
  have room: "tbrk h1 + 2 \<le> 2 ^ 64" using changesD(2) [OF n(5)] Cons.prems(5) by simp
  show ?case
  proof (cases d)
    case desc_Int
    obtain old h2 where i: "inthash_insert h1 p key q = Some (old, h2)" "changes F 1 h1 h2"
      using hash.ins_rep [OF _ hash_key_self changesD(1) [OF n(5)]] rep1 room desc_Int by fastforce
    then show ?thesis
      using col_empty [OF Cons.prems(1) ks(2)] n(1) next_None [OF changes_mono [OF i(2)]] desc_Int
      by (simp add: ks(1) vk_0_def array_at_def)
  next
    case desc_Str
    obtain s where s: "str_key h1 key s" using key1 desc_Str by auto
    obtain old h2 where i: "stringlist_insert h1 p key q = Some (old, h2)" "changes F 2 h1 h2"
      using slist.ins_rep [OF _ slist_key_str [OF s] changesD(1) [OF n(5)]] rep1 room desc_Str by fastforce
    then show ?thesis
      using col_empty [OF Cons.prems(1) ks(2)] n(1) next_None [OF i(2)] desc_Str
      by (simp add: ks(1) vk_0_def array_at_def)
  qed (use Cons.prems(2) in simp)
qed

end
