(* ===== verification/TK_Cursor.thy ===== *)
theory TK_Cursor
  imports TK_Index
begin

text \<open>
  The cursors of \<^verbatim>\<open>stringlist.c\<close>: what each loop over the cells computes from the list of keys and
  values it represents.
\<close>

text \<open>The position \<^verbatim>\<open>stringlist_get_cursor\<close> looks for: the first cell with the key, else 0.\<close>

definition key_pos :: "string \<Rightarrow> (cword \<times> string \<times> cword) list \<Rightarrow> nat" where
  "key_pos s cs = (if s \<in> (fst \<circ> snd) ` set cs then length (takeWhile (\<lambda>c. fst (snd c) \<noteq> s) cs) else 0)"

lemma incr_int_ok: "i < 2 ^ 31 - 1 \<Longrightarrow> incr_int i = Some (i + 1)"
  by (simp add: incr_int_def)

lemma scell_of_view: "scell_view h a = Some (s, v, n) \<Longrightarrow>
   \<exists>c. scell_at h a = Some c \<and> sc_value c = v \<and> sc_next c = n \<and> tmem h (sc_key c) = Some (Str s)"
  by (auto simp: scell_view_Some at_Some)

lemma card_loop_chain:
  "chain scell_view h q cs \<Longrightarrow> cnt + int (length cs) < 2 ^ 31 \<Longrightarrow> card_loop h q cnt = Some (cnt + int (length cs))"
proof (induction cs arbitrary: q cnt)
  case Nil
  then show ?case by (simp add: card_loop.simps)
next
  case (Cons c cs)
  obtain a s v where c: "c = (a, s, v)" by (cases c)
  obtain n where n: "q = a" "a \<noteq> 0" "scell_view h a = Some (s, v, n)" "chain scell_view h n cs"
    using Cons.prems(1) by (auto simp: c)
  obtain sc where "scell_at h a = Some sc" "sc_next sc = n" using scell_of_view [OF n(3)] by blast
  moreover have "incr_int cnt = Some (cnt + 1)" by (rule incr_int_ok) (use Cons.prems(2) in simp)
  ultimately show ?case
    using Cons.IH [OF n(4), of "cnt + 1"] Cons.prems(2) n(1,2) by (subst card_loop.simps) (simp add: c)
qed

lemma cursor_loop_chain:
  assumes "chain scell_view h q cs" "str_key h key s" "0 \<le> cur" "cur + int (length cs) < 2 ^ 31"
  shows "cursor_loop h key q cur =
    Some (if s \<in> (fst \<circ> snd) ` set cs then cur + int (length (takeWhile (\<lambda>c. fst (snd c) \<noteq> s) cs)) else 0)"
  using assms
proof (induction cs arbitrary: q cur)
  case Nil
  then show ?case by (simp add: cursor_loop.simps)
next
  case (Cons c cs)
  obtain a t v where c: "c = (a, t, v)" by (cases c)
  obtain n where n: "q = a" "a \<noteq> 0" "scell_view h a = Some (t, v, n)" "chain scell_view h n cs"
    using Cons.prems(1) by (auto simp: c)
  obtain sc where sc: "scell_at h a = Some sc" "sc_next sc = n" "tmem h (sc_key sc) = Some (Str t)"
    using scell_of_view [OF n(3)] by blast
  have e: "streq h (sc_key sc) key = Some (t = s)"
    using streq_at [OF sc(3)] Cons.prems(2) by (simp add: str_key_def)
  have i: "incr_int cur = Some (cur + 1)" by (rule incr_int_ok) (use Cons.prems(4) in simp)
  show ?case
    using Cons.IH [OF n(4) Cons.prems(2), of "cur + 1"] Cons.prems(3,4) n(1,2) sc(1,2) e i
    by (subst cursor_loop.simps) (auto simp: c)
qed

lemma key_pos_le: "key_pos s cs \<le> length cs"
  by (simp add: key_pos_def length_takeWhile_le)

lemma pair_loop_chain:
  assumes "chain scell_view h q cs" "j + int (length cs) < 2 ^ 31" "i < length cs" "heap_ok h" "tbrk h < 2 ^ 64"
  shows "\<exists>pair h' kp. pair_loop h (j + int i) q j = Some (pair, h') \<and> tmem h kp = Some (Str (fst (snd (cs ! i)))) \<and>
     tmem h' pair = Some (Pair \<lparr>pr_key = kp, pr_value = snd (snd (cs ! i))\<rparr>) \<and> changes {} 1 h h'"
  using assms(1-3)
proof (induction cs arbitrary: q j i)
  case (Cons c cs)
  obtain a s v where c: "c = (a, s, v)" by (cases c)
  obtain n where n: "q = a" "a \<noteq> 0" "scell_view h a = Some (s, v, n)" "chain scell_view h n cs"
    using Cons.prems(1) by (auto simp: c)
  obtain sc where sc: "scell_at h a = Some sc" "sc_next sc = n" "sc_value sc = v" "tmem h (sc_key sc) = Some (Str s)"
    using scell_of_view [OF n(3)] by blast
  show ?case
  proof (cases i)
    case 0
    obtain p h' where m: "malloc_c h (Pair \<lparr>pr_key = sc_key sc, pr_value = v\<rparr>) = (p, h')" "p \<noteq> 0"
      "tmem h' = (tmem h)(p \<mapsto> Pair \<lparr>pr_key = sc_key sc, pr_value = v\<rparr>)" "changes {} 1 h h'"
      using malloc_c_ok [OF assms(4,5)] by blast
    have "pair_loop h (j + int i) q j = Some (p, h')"
      using sc m(1,2) n(1,2) 0 by (subst pair_loop.simps) simp
    then show ?thesis using m(3,4) sc(4) 0 by (auto simp: c)
  next
    case (Suc i')
    have "incr_int j = Some (j + 1)" by (rule incr_int_ok) (use Cons.prems(2,3) in simp)
    then have "pair_loop h (j + int i) q j = pair_loop h (j + 1 + int i') n (j + 1)"
      using sc(1,2) n(1,2) Suc by (subst pair_loop.simps) (simp add: add.assoc)
    then show ?thesis using Cons.IH [OF n(4), of "j + 1" i'] Cons.prems(2,3) Suc by (simp add: c)
  qed
qed simp

lemma pair_loop_end:
  assumes "chain scell_view h q cs" "j + int (length cs) < 2 ^ 31" "j + int (length cs) \<le> cur"
  shows "pair_loop h cur q j = None"
  using assms
proof (induction cs arbitrary: q j)
  case Nil
  then show ?case by (simp add: pair_loop.simps)
next
  case (Cons c cs)
  obtain a s v where c: "c = (a, s, v)" by (cases c)
  obtain n where n: "q = a" "a \<noteq> 0" "scell_view h a = Some (s, v, n)" "chain scell_view h n cs"
    using Cons.prems(1) by (auto simp: c)
  obtain sc where sc: "scell_at h a = Some sc" "sc_next sc = n" using scell_of_view [OF n(3)] by blast
  have "incr_int j = Some (j + 1)" by (rule incr_int_ok) (use Cons.prems(2) in simp)
  then show ?case
    using Cons.IH [OF n(4), of "j + 1"] Cons.prems(2,3) sc n(1,2) by (subst pair_loop.simps) simp
qed

section \<open>The cursor operations\<close>

text \<open>A cursor object at position \<open>i\<close> of the list at \<open>p\<close>, whose cells are \<open>cs\<close>.\<close>

definition cursor_on :: "theap \<Rightarrow> cword \<Rightarrow> cword \<Rightarrow> (cword \<times> string \<times> cword) list \<Rightarrow> int \<Rightarrow> bool" where
  "cursor_on h mc p cs i \<longleftrightarrow> heap_ok h \<and> tmem h mc = Some (Cursor \<lparr>lc_list = p, lc_cur = i\<rparr>) \<and>
     (\<exists>F m q. slist_parts h p F m q cs) \<and> int (length cs) < 2 ^ 31 - 1"

lemma cursor_onD:
  assumes "cursor_on h mc p cs i"
  shows "heap_ok h" "cursor_c_at h mc = Some \<lparr>lc_list = p, lc_cur = i\<rparr>" "int (length cs) < 2 ^ 31 - 1"
    "\<exists>q. root_at h p = Some q \<and> chain scell_view h q cs"
  using assms by (auto simp: cursor_on_def slist_parts_def at_Some)

lemma cursor_move:
  assumes "cursor_on h mc p cs i"
  shows "cursor_on (poke h mc (Cursor \<lparr>lc_list = p, lc_cur = j\<rparr>)) mc p cs j"
proof -
  let ?h = "poke h mc (Cursor \<lparr>lc_list = p, lc_cur = j\<rparr>)"
  have m: "heap_ok h" "tmem h mc = Some (Cursor \<lparr>lc_list = p, lc_cur = i\<rparr>)"
    using assms by (auto simp: cursor_on_def)
  have c: "changes {mc} 0 h ?h" by (rule poke_changes [OF m]) simp
  obtain F mm q where s: "slist_parts h p F mm q cs" using assms by (auto simp: cursor_on_def)
  note r = slist_partsD [OF s]
  have "mc \<noteq> p" using m(2) r(1) by auto
  have mc: "mc \<notin> addrs cs"
  proof
    assume "mc \<in> addrs cs"
    then show False using r(2) m(2)
    proof (induction cs arbitrary: q)
      case (Cons c cs)
      then show ?case by (cases c) (auto simp: scell_view_Some)
    qed simp
  qed
  have "chain scell_view ?h q cs" by (rule scells.chain_changes [OF r(2) c]) (use mc in simp)
  then have "slist_parts ?h p F mm q cs" using s \<open>mc \<noteq> p\<close> by (simp add: slist_parts_def)
  then show ?thesis using assms changesD(1) [OF c] by (auto simp: cursor_on_def)
qed

lemma move_to_first: "cursor_on h mc p cs i \<Longrightarrow>
   \<exists>h'. stringlist_move_to_first h mc = Some h' \<and> cursor_on h' mc p cs 0"
  using cursor_move [of h mc p cs i 0] cursor_onD(2) [of h mc p cs i] by (simp add: stringlist_move_to_first_def)

lemma cardinality_chain:
  assumes "cursor_on h mc p cs i"
  shows "stringlist_cardinality h p = Some (int (length cs))"
proof -
  obtain q where "root_at h p = Some q" "chain scell_view h q cs" using cursor_onD(4) [OF assms] by blast
  then show ?thesis using card_loop_chain [of h q cs 0] cursor_onD(3) [OF assms]
    by (simp add: stringlist_cardinality_def)
qed

lemma move_to_next:
  assumes "cursor_on h mc p cs i" "i < 2 ^ 31 - 1"
  shows "\<exists>h'. stringlist_move_to_next h mc = Some h' \<and>
     cursor_on h' mc p cs (if i + 1 > int (length cs) then int (length cs) - 1 else if i + 1 \<le> 0 then 0 else i + 1)"
  using cursor_move [OF assms(1)] cursor_onD(2) [OF assms(1)] cardinality_chain [OF assms(1)] incr_int_ok [OF assms(2)]
  by (auto simp: stringlist_move_to_next_def)

lemma get_pair_at:
  assumes "cursor_on h mc p cs (int i)" "i < length cs" "tbrk h < 2 ^ 64"
  shows "\<exists>pair h' kp. stringlist_get_pair h mc = Some (pair, h') \<and> tmem h kp = Some (Str (fst (snd (cs ! i)))) \<and>
     tmem h' pair = Some (Pair \<lparr>pr_key = kp, pr_value = snd (snd (cs ! i))\<rparr>)"
proof -
  obtain q where q: "root_at h p = Some q" "chain scell_view h q cs" using cursor_onD(4) [OF assms(1)] by blast
  show ?thesis
    using pair_loop_chain [OF q(2) _ assms(2) cursor_onD(1) [OF assms(1)] assms(3), of 0] cursor_onD(2,3) [OF assms(1)] q(1)
    by (auto simp: stringlist_get_pair_def)
qed

lemma get_pair_end:
  assumes "cursor_on h mc p cs i" "int (length cs) \<le> i"
  shows "stringlist_get_pair h mc = None"
proof -
  obtain q where q: "root_at h p = Some q" "chain scell_view h q cs" using cursor_onD(4) [OF assms(1)] by blast
  show ?thesis
    using pair_loop_end [OF q(2), of 0 i] cursor_onD(2,3) [OF assms(1)] assms(2) q(1)
    by (simp add: stringlist_get_pair_def)
qed

lemma get_cursor_at:
  assumes "slist_parts h p F m q cs" "str_key h key s" "heap_ok h" "tbrk h < 2 ^ 64" "int (length cs) < 2 ^ 31 - 1"
  shows "\<exists>mc h'. stringlist_get_cursor h p key = Some (mc, h') \<and> cursor_on h' mc p cs (int (key_pos s cs))"
proof -
  let ?c = "\<lambda>i. Cursor \<lparr>lc_list = p, lc_cur = i\<rparr>"
  obtain mc h1 where m: "malloc_c h (?c (- 1)) = (mc, h1)" "mc \<noteq> 0" "tmem h mc = None"
    "tmem h1 = (tmem h)(mc \<mapsto> ?c (- 1))" "changes {} 1 h h1"
    using malloc_c_ok [OF assms(3,4)] by blast
  note r = slist_partsD [OF assms(1)]
  have ch: "chain scell_view h1 q cs" by (rule scells.chain_changes [OF r(2) m(5)]) simp
  have root: "tmem h1 p = Some (Stringlist q)" using changesD(3) [OF m(5) r(1)] by simp
  have "slist_parts h1 p F m q cs" using assms(1) ch root by (simp add: slist_parts_def)
  then have on: "cursor_on h1 mc p cs (- 1)"
    using changesD(1) [OF m(5)] assms(5) by (auto simp: cursor_on_def m(4))
  have "cursor_loop h1 key q 0 = Some (int (key_pos s cs))"
    using cursor_loop_chain [OF ch scells.key_frame [OF assms(2) m(5)], of 0] assms(5) by (simp add: key_pos_def)
  then have "stringlist_get_cursor h p key = Some (mc, poke h1 mc (?c (int (key_pos s cs))))"
    using m(1,2) root by (simp add: stringlist_get_cursor_def at_Some root_at_def)
  then show ?thesis using cursor_move [OF on] by blast
qed

end
