(* ===== verification/TK_Properties.thy ===== *)
theory TK_Properties
  imports TK_Fo TK_Cursor
begin

text \<open>
  The properties of the tuple-key index.
\<close>

section \<open>Every schema is a map\<close>

text \<open>C33: whatever the schema (a hash table, a string list, or any nesting of \<^verbatim>\<open>tuple_schema\<close>), a new index answers
  every run of insertions and look-ups as a map would: a look-up returns the last value entered under
  an equal key (numbers and strings by contents, pairs by components), \<^verbatim>\<open>NULL\<close> if there is none, and
  an insertion returns the value it replaces.\<close>

theorem index_answers:
  assumes "heap_ok h" "tbrk h + new_cost s + length cs * insert_cost s \<le> 2 ^ 64"
    "list_all2 (call_denotes (index_key s h)) cs as"
  shows "\<exists>p h0 h'. index_new s h = Some (p, h0) \<and>
     run_index (index_insert s) (index_lookup s) h0 p cs = Some (map_answers (\<lambda>_. 0) as, h')"
  using assms by (rule index.new_run_answers)

definition hello_heap :: theap where
  "hello_heap = \<lparr>tmem = [1 \<mapsto> Str ''Hello'', 2 \<mapsto> Keypair \<lparr>kp_a = 50, kp_b = 1\<rparr>,
     3 \<mapsto> Keypair \<lparr>kp_a = 60, kp_b = 1\<rparr>], tbrk = 4\<rparr>"

theorem index_answers_witness:
  "\<exists>p h0 h'. index_new (tuple_schema Inthash_schema Stringlist_schema) hello_heap = Some (p, h0) \<and>
     run_index (index_insert (tuple_schema Inthash_schema Stringlist_schema))
       (index_lookup (tuple_schema Inthash_schema Stringlist_schema)) h0 p
       [Insert 2 123, Lookup 2, Lookup 3] = Some ([0, 123, 0], h')"
proof -
  let ?s = "tuple_schema Inthash_schema Stringlist_schema"
  let ?k = "KPair (KInt 50) (KStr ''Hello'')" and ?k' = "KPair (KInt 60) (KStr ''Hello'')"
  have "heap_ok hello_heap" by (auto simp: heap_ok_def hello_heap_def split: if_splits)
  moreover have "tbrk hello_heap + new_cost ?s + length [Insert 2 123, Lookup 2, Lookup 3] * insert_cost ?s \<le> 2 ^ 64"
    by (simp add: hello_heap_def tuple_schema_def)
  moreover have "list_all2 (call_denotes (index_key ?s hello_heap)) [Insert 2 123, Lookup 2, Lookup 3]
      [AInsert ?k 123, ALookup ?k, ALookup ?k']"
    by (simp add: tuple_schema_def tuple_key_def hash_key_def slist_key_def str_key_def hello_heap_def)
  ultimately have "\<exists>p h0 h'. index_new ?s hello_heap = Some (p, h0) \<and>
     run_index (index_insert ?s) (index_lookup ?s) h0 p [Insert 2 123, Lookup 2, Lookup 3] =
       Some (map_answers (\<lambda>_. 0) [AInsert ?k 123, ALookup ?k, ALookup ?k'], h')"
    by (rule index_answers)
  then show ?thesis by simp
qed

section \<open>Cursors of the string list\<close>

fun moves :: "nat \<Rightarrow> theap \<Rightarrow> cword \<Rightarrow> theap option" where
  "moves 0 h mc = Some h"
| "moves (Suc n) h mc = do { h \<leftarrow> stringlist_move_to_next h mc; moves n h mc }"

lemma brk_move: "stringlist_move_to_next h mc = Some h' \<Longrightarrow> tbrk h' = tbrk h"
  by (auto simp: stringlist_move_to_next_def bind_Some_iff)

lemma moves_forward:
  "cursor_on h mc p cs (int i) \<Longrightarrow> i + n \<le> length cs \<Longrightarrow>
   \<exists>h'. moves n h mc = Some h' \<and> cursor_on h' mc p cs (int (i + n)) \<and> tbrk h' = tbrk h"
proof (induction n arbitrary: h i)
  case (Suc n)
  have "int i < 2 ^ 31 - 1" using cursor_onD(3) [OF Suc.prems(1)] Suc.prems(2) by simp
  then obtain h1 where h1: "stringlist_move_to_next h mc = Some h1" "cursor_on h1 mc p cs (int (Suc i))"
    using move_to_next [OF Suc.prems(1)] Suc.prems(2) by (auto simp: add.commute)
  obtain h' where "moves n h1 mc = Some h'" "cursor_on h' mc p cs (int (Suc i + n))" "tbrk h' = tbrk h1"
    using Suc.IH [OF h1(2)] Suc.prems(2) by auto
  then show ?case using h1(1) brk_move [OF h1(1)] by simp
qed simp

text \<open>C34: \<^verbatim>\<open>stringlist_get_cursor\<close> places a cursor at the key, or at the first cell when the list has
  no such key; \<open>n\<close> steps of \<^verbatim>\<open>stringlist_move_to_next\<close> take it \<open>n\<close> cells further, where
  \<^verbatim>\<open>stringlist_get_pair\<close> returns that cell's key and value. The cursor may also step one past the last
  cell, where \<^verbatim>\<open>stringlist_get_pair\<close> returns a pointer it never set, and the step after that goes
  back to the last cell.\<close>

theorem stringlist_scan:
  assumes "slist_parts h p F m q cs" "str_key h key s" "heap_ok h" "tbrk h + 1 < 2 ^ 64"
    "int (length cs) < 2 ^ 31 - 1" "key_pos s cs + n \<le> length cs"
  shows "\<exists>mc h1 h2. stringlist_get_cursor h p key = Some (mc, h1) \<and> moves n h1 mc = Some h2 \<and>
     (if key_pos s cs + n < length cs
      then \<exists>pair h3 kp. stringlist_get_pair h2 mc = Some (pair, h3) \<and>
        tmem h3 pair = Some (Pair \<lparr>pr_key = kp, pr_value = snd (snd (cs ! (key_pos s cs + n)))\<rparr>) \<and>
        tmem h2 kp = Some (Str (fst (snd (cs ! (key_pos s cs + n)))))
      else stringlist_get_pair h2 mc = None \<and>
        (\<exists>h3. stringlist_move_to_next h2 mc = Some h3 \<and> cursor_on h3 mc p cs (int (length cs) - 1)))"
proof -
  have room: "tbrk h < 2 ^ 64" using assms(4) by simp
  obtain mc h1 where c: "stringlist_get_cursor h p key = Some (mc, h1)" "cursor_on h1 mc p cs (int (key_pos s cs))"
    using get_cursor_at [OF assms(1,2,3) room assms(5)] by blast
  have brk1: "tbrk h1 \<le> tbrk h + 1"
    using c(1) by (auto simp: stringlist_get_cursor_def malloc_c_def bind_Some_iff split: if_splits)
  obtain h2 where m: "moves n h1 mc = Some h2" "cursor_on h2 mc p cs (int (key_pos s cs + n))" "tbrk h2 = tbrk h1"
    using moves_forward [OF c(2) assms(6)] by blast
  show ?thesis
  proof (cases "key_pos s cs + n < length cs")
    case True
    have "tbrk h2 < 2 ^ 64" using brk1 m(3) assms(4) by simp
    then show ?thesis using get_pair_at [OF m(2) True] c(1) m(1) True by fastforce
  next
    case False
    have "int (key_pos s cs + n) < 2 ^ 31 - 1" using assms(5,6) by simp
    then show ?thesis
      using get_pair_end [OF m(2)] move_to_next [OF m(2)] c(1) m(1) False assms(6) by auto
  qed
qed

definition list_heap :: theap where
  "list_heap = \<lparr>tmem = [1 \<mapsto> Str ''a'', 2 \<mapsto> Stringlist 3,
     3 \<mapsto> Scell \<lparr>sc_key = 1, sc_value = 7, sc_next = 4\<rparr>, 4 \<mapsto> Scell \<lparr>sc_key = 5, sc_value = 8, sc_next = 0\<rparr>,
     5 \<mapsto> Str ''b''], tbrk = 6\<rparr>"

theorem stringlist_scan_witness:
  "\<exists>mc h1 h2. stringlist_get_cursor list_heap 2 1 = Some (mc, h1) \<and> moves 2 h1 mc = Some h2 \<and>
     stringlist_get_pair h2 mc = None"
proof -
  let ?cs = "[(3, ''a'', 7), (4, ''b'', 8)] :: (cword \<times> string \<times> cword) list"
  have "slist_parts list_heap 2 {2, 3, 4} (\<lambda>k. case k of KStr s \<Rightarrow> cval ?cs s | _ \<Rightarrow> 0) 3 ?cs"
    by (auto simp: slist_parts_def list_heap_def scell_view_def scell_at_def str_at_def)
  moreover have "str_key list_heap 1 ''a''" by (simp add: str_key_def list_heap_def)
  moreover have "heap_ok list_heap" by (auto simp: heap_ok_def list_heap_def split: if_splits)
  moreover have "tbrk list_heap + 1 < 2 ^ 64" "int (length ?cs) < 2 ^ 31 - 1"
    "key_pos ''a'' ?cs + 2 \<le> length ?cs" by (simp_all add: list_heap_def key_pos_def)
  ultimately show ?thesis
    using stringlist_scan [of list_heap 2 "{2, 3, 4}" "\<lambda>k. case k of KStr s \<Rightarrow> cval ?cs s | _ \<Rightarrow> 0" 3 ?cs 1 "''a''" 2]
    by (auto simp: key_pos_def)
qed

section \<open>The first-order index\<close>

text \<open>C35: with any schema of at least one column, entering the first record into a new index of
  \<^verbatim>\<open>fo_index.c\<close> ends in the failed assertion of \<^verbatim>\<open>index_new\<close> (the code makes an index for the columns
  after the last one), so that a new index can never be filled, and looking a key up in it finds
  nothing.\<close>

theorem fo_index_unusable:
  assumes "heap_ok h" "tbrk h + 3 * length cols + 1 \<le> 2 ^ 64" "cols \<noteq> []" "desc_End \<notin> set cols"
    "list_all2 (col_key h) cols vk"
  shows "\<exists>p h0. fo_index_new (cols @ desc_End # rest) h = Some (p, h0) \<and>
     fo_index_lookup (cols @ desc_End # rest) h0 p vk = Some 0 \<and>
     fo_index_insert (cols @ desc_End # rest) h0 p vk v = None"
proof -
  obtain d ds where d: "cols = d # ds" "d \<noteq> desc_End" "desc_End \<notin> set ds" using assms(3,4) by (cases cols) auto
  obtain key ks where vk: "vk = key # ks" using assms(5) d(1) by (auto simp: list_all2_Cons1)
  obtain p h0 F where n: "fo_index_new (d # ds @ desc_End # rest) h = Some (p, h0)" "col_rep d h0 p F (\<lambda>_. 0)"
    "changes {} 1 h h0"
    using fo_new_rep [OF assms(1) _ d(2)] assms(2) by fastforce
  have keys: "list_all2 (col_key h0) (d # ds) vk"
    using assms(5) unfolding d(1) by (rule list_all2_mono) (use col_key_frame [OF _ n(3)] in blast)
  have "tbrk h0 + 3 * Suc (length ds) \<le> 2 ^ 64" using changesD(2) [OF n(3)] assms(2) d(1) by simp
  then have "fo_index_insert (d # ds @ desc_End # rest) h0 p vk v = None"
    by (rule fo_insert_empty [OF n(2) d(2,3) changesD(1) [OF n(3)] _ keys])
  moreover have "fo_index_lookup (d # ds @ desc_End # rest) h0 p vk = Some 0"
    using fo_lookup_empty [OF n(2) _ d(2), of key] keys by (simp add: vk)
  ultimately show ?thesis using n(1) d(1) by auto
qed

theorem fo_index_unusable_witness:
  "\<exists>p h0. fo_index_new [desc_Int, desc_Str, desc_End] hello_heap = Some (p, h0) \<and>
     fo_index_lookup [desc_Int, desc_Str, desc_End] h0 p [50, 1] = Some 0 \<and>
     fo_index_insert [desc_Int, desc_Str, desc_End] h0 p [50, 1] 123 = None"
proof -
  have "heap_ok hello_heap" by (auto simp: heap_ok_def hello_heap_def split: if_splits)
  moreover have "tbrk hello_heap + 3 * length [desc_Int, desc_Str] + 1 \<le> 2 ^ 64" by (simp add: hello_heap_def)
  moreover have "list_all2 (col_key hello_heap) [desc_Int, desc_Str] [50, 1]"
  proof -
    have "str_key hello_heap 1 ''Hello''" by (simp add: str_key_def hello_heap_def)
    then show ?thesis by auto
  qed
  ultimately have "\<exists>p h0. fo_index_new ([desc_Int, desc_Str] @ desc_End # []) hello_heap = Some (p, h0) \<and>
     fo_index_lookup ([desc_Int, desc_Str] @ desc_End # []) h0 p [50, 1] = Some 0 \<and>
     fo_index_insert ([desc_Int, desc_Str] @ desc_End # []) h0 p [50, 1] 123 = None"
    using fo_index_unusable [of hello_heap "[desc_Int, desc_Str]" "[50, 1]" "[]" 123] by simp
  then show ?thesis by simp
qed

end
