(* ===== verification/DB_Model.thy ===== *)
theory DB_Model
  imports TK_Model BTree_Model
begin

text \<open>
  The database operators of \<^verbatim>\<open>src/src/db_ops/db_operations_light.c\<close> over the cursored B+-tree and the
  tuple-key index: attribute lists and projections, the queues of \<^verbatim>\<open>queue2.c\<close>, iterators with their
  method tables, the sequential scan, the index scan, the index join and \<^verbatim>\<open>materialize\<close>.

  Tuples, queues, keys and indexes lie in the memory of the tuple-key index. The blocks that hold an
  iterator, its environment and its B+-tree cursor have one owner and are values; a record of the
  B+-tree is a tuple's address.
\<close>

section \<open>Queues\<close>

definition fifo_at :: "theap \<Rightarrow> cword \<Rightarrow> fifo_c option" where
  "fifo_at h q = (case tmem h q of Some (Fifo f) \<Rightarrow> Some f | _ \<Rightarrow> None)"

definition elem_at :: "theap \<Rightarrow> cword \<Rightarrow> elem_c option" where
  "elem_at h p = (case tmem h p of Some (Elem e) \<Rightarrow> Some e | _ \<Rightarrow> None)"

definition tuple_at :: "theap \<Rightarrow> cword \<Rightarrow> cword list option" where
  "tuple_at h p = (case tmem h p of Some (Tuple t) \<Rightarrow> Some t | _ \<Rightarrow> None)"

definition surely_malloc_c :: "theap \<Rightarrow> cobj \<Rightarrow> (cword \<times> theap) option" where
  "surely_malloc_c h ob = (case malloc_c h ob of (p, h) \<Rightarrow> if p = 0 then None else Some (p, h))"

definition fifo_new :: "theap \<Rightarrow> (cword \<times> theap) option" where
  "fifo_new h = do {
     (q, h) \<leftarrow> surely_malloc_c h (Fifo \<lparr>fq_head = - 1, fq_tail = - 1\<rparr>);
     Some (q, poke h q (Fifo \<lparr>fq_head = 0, fq_tail = 0\<rparr>)) }"

definition fifo_put :: "theap \<Rightarrow> cword \<Rightarrow> cword \<Rightarrow> theap option" where
  "fifo_put h q p = do {
     e \<leftarrow> elem_at h p;
     let h = poke h p (Elem (e\<lparr>el_next := 0\<rparr>));
     f \<leftarrow> fifo_at h q;
     if fq_head f = 0 then Some (poke h q (Fifo \<lparr>fq_head = p, fq_tail = p\<rparr>))
     else do {
       t \<leftarrow> elem_at h (fq_tail f);
       let h = poke h (fq_tail f) (Elem (t\<lparr>el_next := p\<rparr>));
       Some (poke h q (Fifo (f\<lparr>fq_tail := p\<rparr>))) } }"

definition fifo_empty :: "theap \<Rightarrow> cword \<Rightarrow> bool option" where
  "fifo_empty h q = do { f \<leftarrow> fifo_at h q; Some (fq_head f = 0) }"

definition fifo_get :: "theap \<Rightarrow> cword \<Rightarrow> (cword \<times> theap) option" where
  "fifo_get h q = do {
     f \<leftarrow> fifo_at h q;
     e \<leftarrow> elem_at h (fq_head f);
     Some (fq_head f, poke h q (Fifo (f\<lparr>fq_head := el_next e\<rparr>))) }"

definition make_elem :: "theap \<Rightarrow> cword \<Rightarrow> (cword \<times> theap) option" where
  "make_elem h d = surely_malloc_c h (Elem \<lparr>el_data = d, el_next = - 1\<rparr>)"

section \<open>Attributes\<close>

datatype domain = Dom_Int | Dom_Str

record attribute =
  attr_id :: string
  attr_dom :: domain

text \<open>\<^verbatim>\<open>while(x) { x = x->next; n++; }\<close> with \<^verbatim>\<open>size_t n\<close>.\<close>

fun attr_len_loop :: "attribute list \<Rightarrow> u64 \<Rightarrow> u64" where
  "attr_len_loop [] n = n"
| "attr_len_loop (a # as) n = attr_len_loop as (n + 1)"

definition attribute_list_length :: "attribute list \<Rightarrow> u64" where
  "attribute_list_length l = attr_len_loop l 0"

fun get_schema_aux :: "domain \<Rightarrow> schema" where
  "get_schema_aux Dom_Int = Inthash_schema"
| "get_schema_aux Dom_Str = Stringlist_schema"

text \<open>\<open>None\<close> is the \<^verbatim>\<open>NULL\<close> schema of an empty list; every use of it dereferences it.\<close>

fun get_schema :: "attribute list \<Rightarrow> schema option" where
  "get_schema [] = None"
| "get_schema (a # as) = (if as = [] then Some (get_schema_aux (attr_dom a))
     else map_option (tuple_schema (get_schema_aux (attr_dom a))) (get_schema as))"

text \<open>The \<^verbatim>\<open>do ... while\<close> loop, with \<^verbatim>\<open>unsigned int res\<close> returned as an \<^verbatim>\<open>int\<close>.\<close>

fun get_offset_loop :: "attribute list \<Rightarrow> string \<Rightarrow> domain \<Rightarrow> 32 word \<Rightarrow> int option" where
  "get_offset_loop [] name d res = Some (- 1)"
| "get_offset_loop (x # xs) name d res = (if name = attr_id x
     then (if d = attr_dom x then Some (sint res) else None)
     else get_offset_loop xs name d (res + 1))"

definition get_offset :: "attribute list \<Rightarrow> string \<Rightarrow> domain \<Rightarrow> int option" where
  "get_offset attrs_all name d = (if attrs_all = [] then None else get_offset_loop attrs_all name d 0)"

text \<open>\<^verbatim>\<open>*((size_t*) t + ofs)\<close> with \<^verbatim>\<open>size_t ofs\<close>: the offset -1 of a missing attribute becomes
  the largest one.\<close>

definition field :: "cword list \<Rightarrow> int \<Rightarrow> cword option" where
  "field t ofs = array_at t (uint (word_of_int ofs :: u64))"

definition get_field_address :: "attribute list \<Rightarrow> string \<Rightarrow> domain \<Rightarrow> cword \<Rightarrow> cword option" where
  "get_field_address attrs_all name d t = do {
     ofs \<leftarrow> get_offset attrs_all name d;
     Some (t + 8 * word_of_int ofs) }"

fun get_projection :: "theap \<Rightarrow> attribute list \<Rightarrow> cword \<Rightarrow> attribute list \<Rightarrow> (cword \<times> theap) option" where
  "get_projection h attrs_all t [] = None"
| "get_projection h attrs_all t (a # as) = do {
     ofs \<leftarrow> get_offset attrs_all (attr_id a) (attr_dom a);
     tt \<leftarrow> tuple_at h t;
     current \<leftarrow> field tt ofs;
     if as = [] then Some (current, h)
     else do {
       (rest, h) \<leftarrow> get_projection h attrs_all t as;
       build_keypair h current rest } }"

section \<open>Iterators\<close>

text \<open>A method table over environments of type \<open>'e\<close>, and an iterator: its table and its environment.\<close>

record 'e methods =
  m_init :: "'e \<Rightarrow> theap \<Rightarrow> ('e \<times> theap) option"
  m_next :: "'e \<Rightarrow> theap \<Rightarrow> (cword \<times> 'e \<times> theap) option"
  m_close :: "'e \<Rightarrow> theap \<Rightarrow> ('e \<times> theap) option"

record 'e iterator =
  mtable :: "'e methods"
  env :: 'e

definition init_iterator :: "'e iterator \<Rightarrow> theap \<Rightarrow> ('e iterator \<times> theap) option" where
  "init_iterator it h = do { (e, h) \<leftarrow> m_init (mtable it) (env it) h; Some (it\<lparr>env := e\<rparr>, h) }"

definition get_next :: "'e iterator \<Rightarrow> theap \<Rightarrow> (cword \<times> 'e iterator \<times> theap) option" where
  "get_next it h = do { (t, e, h) \<leftarrow> m_next (mtable it) (env it) h; Some (t, it\<lparr>env := e\<rparr>, h) }"

definition close_iterator :: "'e iterator \<Rightarrow> theap \<Rightarrow> ('e iterator \<times> theap) option" where
  "close_iterator it h = do { (e, h) \<leftarrow> m_close (mtable it) (env it) h; Some (it\<lparr>env := e\<rparr>, h) }"

partial_function (option) materialize_loop :: "cword \<Rightarrow> 'e iterator \<Rightarrow> theap \<Rightarrow> ('e iterator \<times> theap) option" where
  "materialize_loop res it h = do {
     (a, it, h) \<leftarrow> get_next it h;
     if a = 0 then Some (it, h)
     else do {
       (p, h) \<leftarrow> make_elem h a;
       h \<leftarrow> fifo_put h res p;
       materialize_loop res it h } }"

definition materialize :: "'e iterator \<Rightarrow> theap \<Rightarrow> (cword \<times> 'e iterator \<times> theap) option" where
  "materialize it h = do {
     (res, h) \<leftarrow> fifo_new h;
     (it, h) \<leftarrow> init_iterator it h;
     (it, h) \<leftarrow> materialize_loop res it h;
     (it, h) \<leftarrow> close_iterator it h;
     Some (res, it, h) }"

section \<open>The sequential scan\<close>

record db_relation =
  attrs :: "attribute list"
  pk_attrs :: "attribute list"
  pk_index :: "cword Relation"

record seq_scan_env =
  bt :: "cword Relation"
  sc_cursor :: "Cursor option"

definition seq_scan_init :: "seq_scan_env \<Rightarrow> theap \<Rightarrow> (seq_scan_env \<times> theap) option" where
  "seq_scan_init e h = do {
     (c, s) \<leftarrow> RL_NewCursor (bt e);
     c \<leftarrow> c;
     (_, c) \<leftarrow> RL_MoveToFirst s c;
     Some (\<lparr>bt = s, sc_cursor = Some c\<rparr>, h) }"

definition seq_scan_next :: "seq_scan_env \<Rightarrow> theap \<Rightarrow> (cword \<times> seq_scan_env \<times> theap) option" where
  "seq_scan_next e h = do {
     c \<leftarrow> sc_cursor e;
     emp \<leftarrow> RL_IsEmpty (bt e);
     if emp then Some (0, e, h)
     else do {
       valid \<leftarrow> RL_CursorIsValid (bt e) c;
       if \<not> valid then Some (0, e, h)
       else do {
         (res, c) \<leftarrow> RL_GetRecord (bt e) c;
         c \<leftarrow> RL_MoveToNext (bt e) c;
         Some (res, e\<lparr>sc_cursor := Some c\<rparr>, h) } } }"

text \<open>The freed cursor is not used again.\<close>

definition seq_scan_close :: "seq_scan_env \<Rightarrow> theap \<Rightarrow> (seq_scan_env \<times> theap) option" where
  "seq_scan_close e h = do { c \<leftarrow> sc_cursor e; Some (e\<lparr>sc_cursor := None\<rparr>, h) }"

definition seq_scan_iterator_mtable :: "seq_scan_env methods" where
  "seq_scan_iterator_mtable = \<lparr>m_init = seq_scan_init, m_next = seq_scan_next, m_close = seq_scan_close\<rparr>"

definition seq_scan :: "db_relation \<Rightarrow> seq_scan_env iterator" where
  "seq_scan r = \<lparr>mtable = seq_scan_iterator_mtable, env = \<lparr>bt = pk_index r, sc_cursor = None\<rparr>\<rparr>"

section \<open>The index scan\<close>

partial_function (option) index_scan_loop :: "schema \<Rightarrow> cword \<Rightarrow> attribute list \<Rightarrow> attribute list \<Rightarrow>
    seq_scan_env iterator \<Rightarrow> theap \<Rightarrow> theap option" where
  "index_scan_loop sch ind rattrs as it h = do {
     (t, it, h) \<leftarrow> get_next it h;
     if t = 0 then Some h
     else do {
       (proj, h) \<leftarrow> get_projection h rattrs t as;
       l \<leftarrow> index_lookup sch h ind proj;
       (l, h) \<leftarrow> (if l = 0 then fifo_new h else Some (l, h));
       (p, h) \<leftarrow> make_elem h t;
       h \<leftarrow> fifo_put h l p;
       (_, h) \<leftarrow> index_insert sch h ind proj l;
       index_scan_loop sch ind rattrs as it h } }"

definition index_scan :: "db_relation \<Rightarrow> attribute list \<Rightarrow> theap \<Rightarrow> (cword \<times> theap) option" where
  "index_scan rel as h = do {
     sch \<leftarrow> get_schema as;
     (ind, h) \<leftarrow> index_new sch h;
     (it, h) \<leftarrow> init_iterator (seq_scan rel) h;
     h \<leftarrow> index_scan_loop sch ind (attrs rel) as it h;
     Some (ind, h) }"

section \<open>The index join\<close>

record 'e index_join_env =
  outer :: "'e iterator"
  outer_attrs :: "attribute list"
  outer_join_attrs :: "attribute list"
  inner_attrs :: "attribute list"
  inner_join_attrs :: "attribute list"
  ind_on_inner :: cword
  ind_on_inner_sch :: "schema option"
  current_inner :: cword
  current_outer :: cword

definition index_join_init :: "'e index_join_env \<Rightarrow> theap \<Rightarrow> ('e index_join_env \<times> theap) option" where
  "index_join_init e h = do {
     (o', h) \<leftarrow> init_iterator (outer e) h;
     Some (e\<lparr>outer := o', current_inner := 0, current_outer := 0\<rparr>, h) }"

partial_function (option) join_loop :: "'e index_join_env \<Rightarrow> theap \<Rightarrow> ('e index_join_env \<times> theap) option" where
  "join_loop e h = do {
     again \<leftarrow> (if current_inner e = 0 then Some True else fifo_empty h (current_inner e));
     if \<not> again then Some (e, h)
     else do {
       (t, o', h) \<leftarrow> get_next (outer e) h;
       let e = e\<lparr>outer := o', current_outer := t\<rparr>;
       if t = 0 then Some (e, h)
       else do {
         (proj, h) \<leftarrow> get_projection h (outer_attrs e) t (outer_join_attrs e);
         sch \<leftarrow> ind_on_inner_sch e;
         q \<leftarrow> index_lookup sch h (ind_on_inner e) proj;
         join_loop (e\<lparr>current_inner := q\<rparr>) h } } }"

text \<open>The loop that appends the attributes of the inner tuple that are not joined on; \<open>n\<close> counts them.\<close>

fun copy_inner :: "attribute list \<Rightarrow> attribute list \<Rightarrow> cword list \<Rightarrow> nat \<Rightarrow> attribute list \<Rightarrow> nat \<Rightarrow> cword list \<Rightarrow>
    cword list option" where
  "copy_inner iattrs ijoin inner_t olen [] n new_t = Some new_t"
| "copy_inner iattrs ijoin inner_t olen (l # ls) n new_t = do {
     ofs \<leftarrow> get_offset iattrs (attr_id l) (attr_dom l);
     j \<leftarrow> get_offset ijoin (attr_id l) (attr_dom l);
     if j < 0 then do {
       x \<leftarrow> field inner_t ofs;
       new_t \<leftarrow> array_set new_t (int (olen + n)) x;
       copy_inner iattrs ijoin inner_t olen ls (n + 1) new_t }
     else copy_inner iattrs ijoin inner_t olen ls n new_t }"

text \<open>\<^verbatim>\<open>memcpy\<close> of \<open>n\<close> words to the start of a block; both blocks must have them.\<close>

definition memcpy_words :: "cword list \<Rightarrow> cword list \<Rightarrow> nat \<Rightarrow> cword list option" where
  "memcpy_words dst src n = (if n \<le> length dst \<and> n \<le> length src then Some (take n src @ drop n dst) else None)"

text \<open>\<^verbatim>\<open>index_join_next\<close> after its loop, when there is an outer tuple: the merged tuple.\<close>

definition join_emit :: "'e index_join_env \<Rightarrow> theap \<Rightarrow> (cword \<times> 'e index_join_env \<times> theap) option" where
  "join_emit e h = do {
     let olen = attribute_list_length (outer_attrs e);
     let ilen = attribute_list_length (inner_attrs e);
     let jlen = attribute_list_length (inner_join_attrs e);
     let buf = replicate (unat (olen + ilen - jlen + 1)) (- 1);
     (p, h) \<leftarrow> (case malloc_c h (Tuple buf) of (p, h) \<Rightarrow> if p = 0 then None else Some (p, h));
     ot \<leftarrow> tuple_at h (current_outer e);
     buf \<leftarrow> memcpy_words buf ot (unat olen);
     (el, h) \<leftarrow> fifo_get h (current_inner e);
     el \<leftarrow> elem_at h el;
     inner_t \<leftarrow> tuple_at h (el_data el);
     buf \<leftarrow> copy_inner (inner_attrs e) (inner_join_attrs e) inner_t (unat olen) (inner_attrs e) 0 buf;
     Some (p, e, poke h p (Tuple buf)) }"

definition index_join_next :: "'e index_join_env \<Rightarrow> theap \<Rightarrow> (cword \<times> 'e index_join_env \<times> theap) option" where
  "index_join_next e h = do {
     (e, h) \<leftarrow> join_loop e h;
     if current_outer e = 0 then Some (0, e, h) else join_emit e h }"

definition index_join_close :: "'e index_join_env \<Rightarrow> theap \<Rightarrow> ('e index_join_env \<times> theap) option" where
  "index_join_close e h = do {
     (o', h) \<leftarrow> close_iterator (outer e) h;
     Some (e\<lparr>outer := o'\<rparr>, h) }"

definition index_join_iterator_mtable :: "'e index_join_env methods" where
  "index_join_iterator_mtable = \<lparr>m_init = index_join_init, m_next = index_join_next, m_close = index_join_close\<rparr>"

definition index_join :: "attribute list \<Rightarrow> attribute list \<Rightarrow> attribute list \<Rightarrow> attribute list \<Rightarrow> 'e iterator \<Rightarrow> cword \<Rightarrow>
    'e index_join_env iterator option" where
  "index_join oattrs iattrs ojoin ijoin it ind = do {
     assert_c (attribute_list_length ojoin = attribute_list_length ijoin);
     Some \<lparr>mtable = index_join_iterator_mtable,
       env = \<lparr>outer = it, outer_attrs = oattrs, outer_join_attrs = ojoin, inner_attrs = iattrs,
         inner_join_attrs = ijoin, ind_on_inner = ind, ind_on_inner_sch = get_schema ijoin,
         current_inner = - 1, current_outer = - 1\<rparr>\<rparr> }"

section \<open>Loading a table\<close>

fun index_data_loop :: "theap \<Rightarrow> cword list \<Rightarrow> int \<Rightarrow> nat \<Rightarrow> nat \<Rightarrow> cword Relation \<Rightarrow> Cursor \<Rightarrow>
    (cword Relation \<times> Cursor) option" where
  "index_data_loop h data ofs i 0 s c = Some (s, c)"
| "index_data_loop h data ofs i (Suc n) s c = do {
     t \<leftarrow> array_at data (int i);
     tt \<leftarrow> tuple_at h t;
     k \<leftarrow> field tt ofs;
     (s, c) \<leftarrow> RL_PutRecord s c k t;
     index_data_loop h data ofs (Suc i) n s c }"

text \<open>\<open>can_alloc\<close> is the outcome of the relation's own allocations, as in \<^verbatim>\<open>RL_NewRelation\<close>.\<close>

definition index_data :: "(addr \<Rightarrow> bool) \<Rightarrow> theap \<Rightarrow> cword list \<Rightarrow> int \<Rightarrow> attribute list \<Rightarrow> attribute list \<Rightarrow>
    cword Relation option" where
  "index_data can_alloc h data tuple_count as primary_key = (case primary_key of
     [k] \<Rightarrow> (if attr_dom k \<noteq> Dom_Int then None
       else do {
         ofs \<leftarrow> get_offset as (attr_id k) (attr_dom k);
         s \<leftarrow> RL_NewRelation can_alloc;
         (c, s) \<leftarrow> RL_NewCursor s;
         c \<leftarrow> c;
         (s, c) \<leftarrow> index_data_loop h data ofs 0 (nat tuple_count) s c;
         Some s })
   | _ \<Rightarrow> None)"

end
