(* ===== verification/DB_Fifo.thy ===== *)
theory DB_Fifo
  imports DB_Model TK_Schema
begin

text \<open>
  The queues of \<^verbatim>\<open>queue2.c\<close>: a queue object represents the list of the data put in and not yet taken
  out, stated as a locale that \<^verbatim>\<open>queue2.c\<close> interprets.
\<close>

section \<open>The contract of a queue\<close>

locale queue_spec =
  fixes rep :: "theap \<Rightarrow> cword \<Rightarrow> cword set \<Rightarrow> cword list \<Rightarrow> bool"
    and new :: "theap \<Rightarrow> (cword \<times> theap) option"
    and put :: "theap \<Rightarrow> cword \<Rightarrow> cword \<Rightarrow> theap option"
    and get :: "theap \<Rightarrow> cword \<Rightarrow> (cword \<times> theap) option"
    and is_empty :: "theap \<Rightarrow> cword \<Rightarrow> bool option"
  assumes new_rep: "heap_ok h \<Longrightarrow> tbrk h + 1 \<le> 2 ^ 64 \<Longrightarrow>
      \<exists>q h'. new h = Some (q, h') \<and> q \<noteq> 0 \<and> rep h' q {q} [] \<and> tmem h q = None \<and> changes {} 1 h h'"
    and put_rep: "rep h q F ds \<Longrightarrow> heap_ok h \<Longrightarrow> tbrk h + 1 \<le> 2 ^ 64 \<Longrightarrow>
      \<exists>p h'. put h q d = Some h' \<and> rep h' q (insert p F) (ds @ [d]) \<and> tmem h p = None \<and> changes F 1 h h'"
    and get_rep: "rep h q F (d # ds) \<Longrightarrow> heap_ok h \<Longrightarrow>
      \<exists>h'. get h q = Some (d, h') \<and> rep h' q F ds \<and> changes F 0 h h'"
    and empty_rep: "rep h q F ds \<Longrightarrow> is_empty h q = Some (ds = [])"
    and rep_frame: "rep h q F ds \<Longrightarrow> changes G n h h' \<Longrightarrow> G \<inter> F = {} \<Longrightarrow> rep h' q F ds"
    and rep_live: "rep h q F ds \<Longrightarrow> a \<in> F \<Longrightarrow> tmem h a \<noteq> None"
begin

text \<open>What is put in comes out in the same order.\<close>

fun put_all :: "theap \<Rightarrow> cword \<Rightarrow> cword list \<Rightarrow> theap option" where
  "put_all h q [] = Some h"
| "put_all h q (d # ds) = do { h \<leftarrow> put h q d; put_all h q ds }"

fun get_all :: "nat \<Rightarrow> theap \<Rightarrow> cword \<Rightarrow> (cword list \<times> theap) option" where
  "get_all 0 h q = Some ([], h)"
| "get_all (Suc n) h q = do { (d, h) \<leftarrow> get h q; (ds, h) \<leftarrow> get_all n h q; Some (d # ds, h) }"

lemma put_all_rep:
  "rep h q F ds \<Longrightarrow> heap_ok h \<Longrightarrow> tbrk h + length xs \<le> 2 ^ 64 \<Longrightarrow>
   \<exists>h' F'. put_all h q xs = Some h' \<and> rep h' q F' (ds @ xs) \<and> heap_ok h'"
proof (induction xs arbitrary: h F ds)
  case (Cons x xs)
  have "tbrk h + 1 \<le> 2 ^ 64" using Cons.prems(3) by simp
  then obtain p h1 where h1: "put h q x = Some h1" "rep h1 q (insert p F) (ds @ [x])" "changes F 1 h h1"
    using put_rep [OF Cons.prems(1,2)] by blast
  have "tbrk h1 + length xs \<le> 2 ^ 64" using changesD(2) [OF h1(3)] Cons.prems(3) by simp
  then show ?case using Cons.IH [OF h1(2) changesD(1) [OF h1(3)]] h1(1) by simp
qed auto

lemma get_all_rep:
  "rep h q F ds \<Longrightarrow> heap_ok h \<Longrightarrow> \<exists>h'. get_all (length ds) h q = Some (ds, h') \<and> rep h' q F [] \<and> heap_ok h'"
proof (induction ds arbitrary: h)
  case (Cons d ds)
  obtain h1 where h1: "get h q = Some (d, h1)" "rep h1 q F ds" "changes F 0 h h1"
    using get_rep [OF Cons.prems] by blast
  show ?case using Cons.IH [OF h1(2) changesD(1) [OF h1(3)]] h1(1) by auto
qed auto

end

section \<open>queue2.c\<close>

text \<open>\<^verbatim>\<open>fifo_put(q, make_elem(d))\<close> and \<^verbatim>\<open>fifo_get(q)->data\<close>, as the operators call them.\<close>

definition fifo_add :: "theap \<Rightarrow> cword \<Rightarrow> cword \<Rightarrow> theap option" where
  "fifo_add h q d = do { (p, h) \<leftarrow> make_elem h d; fifo_put h q p }"

definition fifo_take :: "theap \<Rightarrow> cword \<Rightarrow> (cword \<times> theap) option" where
  "fifo_take h q = do { (p, h) \<leftarrow> fifo_get h q; e \<leftarrow> elem_at h p; Some (el_data e, h) }"

fun echain :: "theap \<Rightarrow> cword \<Rightarrow> (cword \<times> cword) list \<Rightarrow> bool" where
  "echain h q [] \<longleftrightarrow> q = 0"
| "echain h q ((a, d) # es) \<longleftrightarrow> q = a \<and> a \<noteq> 0 \<and>
     (\<exists>n. tmem h a = Some (Elem \<lparr>el_data = d, el_next = n\<rparr>) \<and> echain h n es)"

abbreviation elems :: "(cword \<times> cword) list \<Rightarrow> cword set" where
  "elems es \<equiv> fst ` set es"

text \<open>\<open>F\<close> holds the queue object, its elements, and elements already taken out.\<close>

definition fifo_parts :: "theap \<Rightarrow> cword \<Rightarrow> cword set \<Rightarrow> (cword \<times> cword) list \<Rightarrow> cword \<Rightarrow> cword \<Rightarrow> bool" where
  "fifo_parts h q F es hd_p tl_p \<longleftrightarrow> tmem h q = Some (Fifo \<lparr>fq_head = hd_p, fq_tail = tl_p\<rparr>) \<and> echain h hd_p es \<and>
     distinct (map fst es) \<and> (es \<noteq> [] \<longrightarrow> tl_p = fst (last es)) \<and> insert q (elems es) \<subseteq> F \<and>
     (\<forall>a\<in>F. tmem h a \<noteq> None)"

definition fifo_rep :: "theap \<Rightarrow> cword \<Rightarrow> cword set \<Rightarrow> cword list \<Rightarrow> bool" where
  "fifo_rep h q F ds \<longleftrightarrow> (\<exists>es hd_p tl_p. fifo_parts h q F es hd_p tl_p \<and> ds = map snd es)"

lemma fifo_partsD:
  assumes "fifo_parts h q F es hd_p tl_p"
  shows "tmem h q = Some (Fifo \<lparr>fq_head = hd_p, fq_tail = tl_p\<rparr>)" "echain h hd_p es" "distinct (map fst es)"
    "es \<noteq> [] \<Longrightarrow> tl_p = fst (last es)" "q \<in> F" "elems es \<subseteq> F" "a \<in> F \<Longrightarrow> tmem h a \<noteq> None"
  using assms unfolding fifo_parts_def by simp_all

lemma echain_same: "echain h q es \<Longrightarrow> (\<And>a. a \<in> elems es \<Longrightarrow> tmem h' a = tmem h a) \<Longrightarrow> echain h' q es"
proof (induction es arbitrary: q)
  case (Cons e es)
  obtain a d where "e = (a, d)" by (cases e)
  then show ?case using Cons by auto
qed simp

lemma echain_elem: "echain h q es \<Longrightarrow> (a, d) \<in> set es \<Longrightarrow> a \<noteq> 0 \<and> (\<exists>n. tmem h a = Some (Elem \<lparr>el_data = d, el_next = n\<rparr>))"
proof (induction es arbitrary: q)
  case (Cons e es)
  obtain b c where "e = (b, c)" by (cases e)
  then show ?case using Cons by auto
qed simp

lemma echain_snoc:
  assumes "echain h q (es @ [(a, d)])" "distinct (map fst (es @ [(a, d)]))" "p \<noteq> 0"
    "tmem h' a = Some (Elem \<lparr>el_data = d, el_next = p\<rparr>)" "tmem h' p = Some (Elem \<lparr>el_data = d', el_next = 0\<rparr>)"
    "\<And>x. x \<in> elems es \<Longrightarrow> tmem h' x = tmem h x"
  shows "echain h' q (es @ [(a, d), (p, d')])"
  using assms
proof (induction es arbitrary: q)
  case (Cons e es)
  obtain b c where "e = (b, c)" by (cases e)
  then show ?case using Cons by auto
qed auto

lemma fifo_parts_frame:
  assumes "fifo_parts h q F es hd_p tl_p" "changes G n h h'" "G \<inter> F = {}"
  shows "fifo_parts h' q F es hd_p tl_p"
proof -
  note r = fifo_partsD [OF assms(1)]
  have same: "tmem h' a = tmem h a" if aF: "a \<in> F" for a
  proof -
    obtain ob where ob: "tmem h a = Some ob" using r(7) [OF aF] by blast
    have "a \<notin> G" using assms(3) aF by blast
    then show ?thesis using changesD(3) [OF assms(2) ob] ob by simp
  qed
  have "echain h' hd_p es" by (rule echain_same [OF r(2)]) (use same r(6) in blast)
  then show ?thesis using assms(1) same r(5) unfolding fifo_parts_def by simp
qed

lemma fifo_at_eq: "fifo_at h q = Some f \<longleftrightarrow> tmem h q = Some (Fifo f)"
  by (auto simp: fifo_at_def split: option.splits cobj.splits)

lemma elem_at_eq: "elem_at h q = Some f \<longleftrightarrow> tmem h q = Some (Elem f)"
  by (auto simp: elem_at_def split: option.splits cobj.splits)

lemma surely_malloc_ok:
  assumes "heap_ok h" "tbrk h + 1 \<le> 2 ^ 64"
  shows "\<exists>p h'. surely_malloc_c h ob = Some (p, h') \<and> p \<noteq> 0 \<and> tmem h p = None \<and> tmem h' = (tmem h)(p \<mapsto> ob) \<and>
     changes {} 1 h h'"
proof -
  have room: "tbrk h < 2 ^ 64" using assms(2) by simp
  obtain p h' where "malloc_c h ob = (p, h')" "p \<noteq> 0" "tmem h p = None" "tmem h' = (tmem h)(p \<mapsto> ob)" "changes {} 1 h h'"
    using malloc_c_ok [OF assms(1) room, of ob] by blast
  then show ?thesis by (simp add: surely_malloc_c_def)
qed

lemma fifo_new_rep:
  assumes "heap_ok h" "tbrk h + 1 \<le> 2 ^ 64"
  shows "\<exists>q h'. fifo_new h = Some (q, h') \<and> q \<noteq> 0 \<and> fifo_rep h' q {q} [] \<and> tmem h q = None \<and> changes {} 1 h h'"
proof -
  let ?ob = "Fifo \<lparr>fq_head = - 1, fq_tail = - 1\<rparr>"
  obtain q h1 where m: "surely_malloc_c h ?ob = Some (q, h1)" "q \<noteq> 0" "tmem h q = None" "tmem h1 = (tmem h)(q \<mapsto> ?ob)"
    "changes {} 1 h h1"
    using surely_malloc_ok [OF assms] by blast
  let ?h = "poke h1 q (Fifo \<lparr>fq_head = 0, fq_tail = 0\<rparr>)"
  have "changes {q} 0 h1 ?h"
    by (rule poke_changes [OF changesD(1) [OF m(5)]]) (simp add: m(4), simp)
  then have "changes {} 1 h ?h" using changes_trans [OF m(5)] m(3) by (simp add: fresh_def)
  moreover have "fifo_parts ?h q {q} [] 0 0" by (simp add: fifo_parts_def)
  then have "fifo_rep ?h q {q} []" unfolding fifo_rep_def by force
  ultimately show ?thesis using m(1-3) by (simp add: fifo_new_def)
qed

lemma fifo_add_rep:
  assumes "fifo_rep h q F ds" "heap_ok h" "tbrk h + 1 \<le> 2 ^ 64"
  shows "\<exists>p h'. fifo_add h q d = Some h' \<and> fifo_rep h' q (insert p F) (ds @ [d]) \<and> tmem h p = None \<and> changes F 1 h h'"
proof -
  obtain es hd_p tl_p where parts: "fifo_parts h q F es hd_p tl_p" "ds = map snd es"
    using assms(1) by (auto simp: fifo_rep_def)
  note r = fifo_partsD [OF parts(1)]
  let ?e = "\<lambda>n. Elem \<lparr>el_data = d, el_next = n\<rparr>"
  obtain p h1 where m: "surely_malloc_c h (?e (- 1)) = Some (p, h1)" "p \<noteq> 0" "tmem h p = None"
    "tmem h1 = (tmem h)(p \<mapsto> ?e (- 1))" "changes {} 1 h h1"
    using surely_malloc_ok [OF assms(2,3)] by blast
  have pF: "p \<notin> F" "p \<noteq> q" using r(7) [of p] r(5) m(3) by blast+
  have pe: "p \<notin> elems es" using pF(1) r(6) by blast
  define h2 where "h2 = poke h1 p (?e 0)"
  have m2: "tmem h2 p = Some (?e 0)" "\<And>a. a \<noteq> p \<Longrightarrow> tmem h2 a = tmem h a"
    by (simp_all add: h2_def m(4))
  have c2: "changes {p} 0 h1 h2" unfolding h2_def
    by (rule poke_changes [OF changesD(1) [OF m(5)]]) (simp add: m(4), simp)
  have c12: "changes F 1 h h2"
    using changes_mono [OF changes_trans [OF m(5) c2], of F 1] m(3) by (simp add: fresh_def)
  have make: "make_elem h d = Some (p, h1)" using m(1) by (simp add: make_elem_def)
  have f2: "fifo_at h2 q = Some \<lparr>fq_head = hd_p, fq_tail = tl_p\<rparr>" using r(1) m2(2) [of q] pF(2) by (simp add: fifo_at_eq)
  have e1: "elem_at h1 p = Some \<lparr>el_data = d, el_next = - 1\<rparr>" by (simp add: elem_at_eq m(4))
  have q2: "tmem h2 q = Some (Fifo \<lparr>fq_head = hd_p, fq_tail = tl_p\<rparr>)" using f2 by (simp add: fifo_at_eq)
  show ?thesis
  proof (cases "es = []")
    case True
    then have hd0: "hd_p = 0" using r(2) by simp
    let ?h = "poke h2 q (Fifo \<lparr>fq_head = p, fq_tail = p\<rparr>)"
    have "fifo_add h q d = Some ?h"
      using make e1 f2 hd0 by (simp add: fifo_add_def fifo_put_def h2_def [symmetric])
    moreover have "changes {q} 0 h2 ?h" by (rule poke_changes [OF changesD(1) [OF c12] q2]) simp
    then have "changes F 1 h ?h" using changes_trans [OF c12] r(5) by (simp add: fresh_def)
    moreover have "tmem ?h b \<noteq> None" if "b \<in> insert p F" for b
      using that r(7) [of b] m2 by (cases "b = p") auto
    then have "fifo_parts ?h q (insert p F) [(p, d)] p p"
      using m2 m(2) pF r(5) unfolding fifo_parts_def by simp
    then have "fifo_rep ?h q (insert p F) (ds @ [d])"
      unfolding fifo_rep_def using True parts(2) by (intro exI conjI) (assumption, simp)
    ultimately show ?thesis using m(3) by blast
  next
    case False
    then obtain es' a c where es: "es = es' @ [(a, c)]" by (metis prod.collapse rev_exhaust)
    have tl: "tl_p = a" using r(4) [OF False] es by simp
    obtain n where an: "a \<noteq> 0" "tmem h a = Some (Elem \<lparr>el_data = c, el_next = n\<rparr>)"
      using echain_elem [OF r(2)] es by auto
    have ap: "a \<noteq> p" "a \<noteq> q" "a \<in> F" using pe es r(1) an(2) r(6) by auto
    have hd0: "hd_p \<noteq> 0"
      using r(2) es by (cases es') auto
    define h3 where "h3 = poke h2 a (Elem \<lparr>el_data = c, el_next = p\<rparr>)"
    let ?h = "poke h3 q (Fifo \<lparr>fq_head = hd_p, fq_tail = p\<rparr>)"
    have a2: "tmem h2 a = Some (Elem \<lparr>el_data = c, el_next = n\<rparr>)" using an(2) m2(2) ap(1) by simp
    have "fifo_add h q d = Some ?h"
      using make e1 f2 hd0 tl a2
      by (simp add: fifo_add_def fifo_put_def h2_def [symmetric] elem_at_def [of h2] h3_def)
    moreover have c3: "changes {a} 0 h2 h3" unfolding h3_def
      by (rule poke_changes [OF changesD(1) [OF c12] a2]) simp
    have c4: "changes {q} 0 h3 ?h"
      by (rule poke_changes [OF changesD(1) [OF c3], of q "Fifo \<lparr>fq_head = hd_p, fq_tail = tl_p\<rparr>"])
        (use q2 ap(2) in \<open>simp_all add: h3_def\<close>)
    have c13: "changes F 1 h h3" using changes_trans [OF c12 c3] ap(3) by (simp add: fresh_def)
    have "changes F 1 h ?h" using changes_trans [OF c13 c4] r(5) by (simp add: fresh_def)
    moreover have "fifo_parts ?h q (insert p F) (es @ [(p, d)]) hd_p p"
    proof -
      have "q \<notin> elems es"
      proof
        assume "q \<in> elems es"
        then show False using echain_elem [OF r(2)] r(1) by fastforce
      qed
      have same: "tmem ?h x = tmem h x" if x: "x \<in> elems es'" for x
      proof -
        have "x \<noteq> a" using r(3) x unfolding es by auto
        moreover have "x \<noteq> q" "x \<noteq> p" using \<open>q \<notin> elems es\<close> pe x unfolding es by auto
        ultimately show ?thesis using m2(2) by (simp add: h3_def)
      qed
      have "echain ?h hd_p (es' @ [(a, c), (p, d)])"
        by (rule echain_snoc [OF r(2,3) [unfolded es] m(2) _ _ same]) (use ap pF m2(1) in \<open>simp_all add: h3_def\<close>)
      then have "echain ?h hd_p (es @ [(p, d)])" by (simp add: es)
      moreover have "distinct (map fst (es @ [(p, d)]))" using r(3) pe by simp
      moreover have "tmem ?h b \<noteq> None" if "b \<in> insert p F" for b
        using that r(7) [of b] m2 by (cases "b = p") (auto simp: h3_def)
      ultimately show ?thesis using r(5,6) unfolding fifo_parts_def by auto
    qed
    then have "fifo_rep ?h q (insert p F) (ds @ [d])"
      unfolding fifo_rep_def using parts(2) by (intro exI conjI) (assumption, simp)
    ultimately show ?thesis using m(3) by blast
  qed
qed

lemma fifo_take_rep:
  assumes "fifo_rep h q F (d # ds)" "heap_ok h"
  shows "\<exists>h'. fifo_take h q = Some (d, h') \<and> fifo_rep h' q F ds \<and> changes F 0 h h'"
proof -
  obtain es hd_p tl_p where parts: "fifo_parts h q F es hd_p tl_p" "d # ds = map snd es"
    using assms(1) by (auto simp: fifo_rep_def)
  note r = fifo_partsD [OF parts(1)]
  obtain a es' where es: "es = (a, d) # es'" "ds = map snd es'" using parts(2) by (cases es) auto
  obtain n where n: "hd_p = a" "a \<noteq> 0" "tmem h a = Some (Elem \<lparr>el_data = d, el_next = n\<rparr>)" "echain h n es'"
    using r(2) by (auto simp: es)
  let ?h = "poke h q (Fifo \<lparr>fq_head = n, fq_tail = tl_p\<rparr>)"
  have aq: "a \<noteq> q" using n(3) r(1) by auto
  have "fifo_take h q = Some (d, ?h)"
    using n(1,3) aq r(1) by (simp add: fifo_take_def fifo_get_def fifo_at_def elem_at_def)
  moreover have c: "changes {q} 0 h ?h" by (rule poke_changes [OF assms(2) r(1)]) simp
  then have "changes F 0 h ?h" by (rule changes_mono) (use r(5) in auto)
  moreover have "q \<notin> elems es'"
  proof
    assume "q \<in> elems es'"
    then show False using echain_elem [OF n(4)] r(1) by fastforce
  qed
  then have "echain ?h n es'" by (intro echain_same [OF n(4)]) auto
  then have "fifo_parts ?h q F es' n tl_p"
    using r by (auto simp: fifo_parts_def es)
  then have "fifo_rep ?h q F ds" unfolding fifo_rep_def using es(2) by blast
  ultimately show ?thesis by blast
qed

interpretation fifo: queue_spec fifo_rep fifo_new fifo_add fifo_take fifo_empty
proof
  fix h :: theap assume "heap_ok h" "tbrk h + 1 \<le> 2 ^ 64"
  then show "\<exists>q h'. fifo_new h = Some (q, h') \<and> q \<noteq> 0 \<and> fifo_rep h' q {q} [] \<and> tmem h q = None \<and> changes {} 1 h h'"
    by (rule fifo_new_rep)
next
  fix h q F ds d assume "fifo_rep h q F ds" "heap_ok h" "tbrk h + 1 \<le> 2 ^ 64"
  then show "\<exists>p h'. fifo_add h q d = Some h' \<and> fifo_rep h' q (insert p F) (ds @ [d]) \<and> tmem h p = None \<and> changes F 1 h h'"
    by (rule fifo_add_rep)
next
  fix h q F d ds assume "fifo_rep h q F (d # ds)" "heap_ok h"
  then show "\<exists>h'. fifo_take h q = Some (d, h') \<and> fifo_rep h' q F ds \<and> changes F 0 h h'" by (rule fifo_take_rep)
next
  fix h q F ds assume "fifo_rep h q F ds"
  then obtain es hd_p tl_p where parts: "fifo_parts h q F es hd_p tl_p" "ds = map snd es"
    by (auto simp: fifo_rep_def)
  note r = fifo_partsD [OF parts(1)]
  show "fifo_empty h q = Some (ds = [])"
    using r(1,2) parts(2) by (cases es) (auto simp: fifo_empty_def fifo_at_def)
next
  fix h q F ds G n and h' :: theap assume a: "fifo_rep h q F ds" "changes G n h h'" "G \<inter> F = {}"
  then obtain es hd_p tl_p where "fifo_parts h q F es hd_p tl_p" "ds = map snd es"
    by (auto simp: fifo_rep_def)
  then show "fifo_rep h' q F ds" using fifo_parts_frame [OF _ a(2,3)] unfolding fifo_rep_def by blast
next
  fix h q F ds a assume "fifo_rep h q F ds" "a \<in> F"
  then show "tmem h a \<noteq> None" unfolding fifo_rep_def using fifo_partsD(7) by blast
qed

end
