(* ===== verification/DB_Attr.thy ===== *)
theory DB_Attr
  imports DB_Fifo
begin

text \<open>
  Attribute lists, rows and projections: the offset of an attribute is its position, and a projection
  builds a key that denotes the projected columns of the row.
\<close>

section \<open>Offsets\<close>

definition attrs_ok :: "attribute list \<Rightarrow> bool" where
  "attrs_ok as \<longleftrightarrow> as \<noteq> [] \<and> distinct (map attr_id as) \<and> length as < 2 ^ 31"

definition attr_pos :: "attribute list \<Rightarrow> string \<Rightarrow> nat" where
  "attr_pos as s = length (takeWhile (\<lambda>x. attr_id x \<noteq> s) as)"

abbreviation ids :: "attribute list \<Rightarrow> string set" where
  "ids as \<equiv> attr_id ` set as"

lemma attr_pos_less: "s \<in> ids as \<Longrightarrow> attr_pos as s < length as"
  unfolding attr_pos_def by (induction as) auto

lemma attr_pos_nth: "s \<in> ids as \<Longrightarrow> attr_id (as ! attr_pos as s) = s"
  unfolding attr_pos_def by (induction as) auto

lemma attr_pos_self:
  assumes "a \<in> set as" "distinct (map attr_id as)"
  shows "as ! attr_pos as (attr_id a) = a"
proof -
  have s: "attr_id a \<in> ids as" using assms(1) by blast
  have "as ! attr_pos as (attr_id a) \<in> set as" using attr_pos_less [OF s] by simp
  then show ?thesis using attr_pos_nth [OF s] assms by (metis inj_on_def distinct_map)
qed

lemma get_offset_loop_found:
  "a \<in> set as \<Longrightarrow> distinct (map attr_id as) \<Longrightarrow> n + length as < 2 ^ 31 \<Longrightarrow>
   get_offset_loop as (attr_id a) (attr_dom a) (word_of_nat n) = Some (int (n + attr_pos as (attr_id a)))"
proof (induction as arbitrary: n)
  case (Cons x xs)
  have small: "sint (word_of_nat n :: 32 word) = int n" by (rule sint_small) (use Cons.prems(3) in simp)
  show ?case
  proof (cases "attr_id a = attr_id x")
    case True
    then have "a = x" using Cons.prems(1,2) by (metis (no_types, lifting) distinct.simps(2) image_eqI list.simps(9) set_ConsD set_map)
    then show ?thesis using small by (simp add: attr_pos_def)
  next
    case False
    have "(word_of_nat n :: 32 word) + 1 = word_of_nat (Suc n)" by simp
    moreover have "get_offset_loop xs (attr_id a) (attr_dom a) (word_of_nat (Suc n)) = Some (int (Suc n + attr_pos xs (attr_id a)))"
      by (rule Cons.IH) (use Cons.prems False in auto)
    ultimately show ?thesis using False by (simp add: attr_pos_def del: of_nat_Suc)
  qed
qed simp

lemma get_offset_loop_missing: "s \<notin> ids as \<Longrightarrow> get_offset_loop as s d n = Some (- 1)"
  by (induction as arbitrary: n) auto

lemma get_offset_found:
  assumes "attrs_ok as" "a \<in> set as"
  shows "get_offset as (attr_id a) (attr_dom a) = Some (int (attr_pos as (attr_id a)))"
  using get_offset_loop_found [OF assms(2), of 0] assms(1) by (simp add: get_offset_def attrs_ok_def)

lemma get_offset_missing: "as \<noteq> [] \<Longrightarrow> s \<notin> ids as \<Longrightarrow> get_offset as s d = Some (- 1)"
  by (simp add: get_offset_def get_offset_loop_missing)

lemma attr_len_loop_nat: "attr_len_loop as (word_of_nat n) = word_of_nat (n + length as)"
proof (induction as arbitrary: n)
  case (Cons a as)
  have "(word_of_nat n :: u64) + 1 = word_of_nat (Suc n)" by simp
  then show ?case using Cons.IH [of "Suc n"] by (simp del: of_nat_Suc)
qed simp

lemma attribute_list_length_nat: "attribute_list_length as = word_of_nat (length as)"
  using attr_len_loop_nat [of as 0] by (simp add: attribute_list_length_def)

lemma field_nat:
  assumes "n < length t" "n < 2 ^ 31"
  shows "field t (int n) = Some (t ! n)"
proof -
  have "uint (word_of_int (int n) :: u64) = int n" using assms(2)
    by (simp add: unsigned_of_nat take_bit_nat_eq_self)
  then show ?thesis using assms(1) by (simp add: field_def)
qed

section \<open>Rows and their keys\<close>

text \<open>\<open>st\<close> gives the string each address of a string column holds; strings are never written.\<close>

definition row_ok :: "(cword \<Rightarrow> string) \<Rightarrow> theap \<Rightarrow> attribute list \<Rightarrow> cword list \<Rightarrow> bool" where
  "row_ok st h as r \<longleftrightarrow> length r = length as \<and>
     (\<forall>i<length as. attr_dom (as ! i) = Dom_Str \<longrightarrow> str_key h (r ! i) (st (r ! i)))"

text \<open>The tuple object at \<open>p\<close> starts with the row; a joined tuple has a spare word behind it.\<close>

definition tuple_is :: "theap \<Rightarrow> cword \<Rightarrow> cword list \<Rightarrow> bool" where
  "tuple_is h p r \<longleftrightarrow> (\<exists>x. tmem h p = Some (Tuple (r @ x)))"

lemma row_ok_frame: "row_ok st h as r \<Longrightarrow> changes G n h h' \<Longrightarrow> row_ok st h' as r"
  unfolding row_ok_def using scells.key_frame by blast

lemma tuple_is_frame: "tuple_is h p r \<Longrightarrow> changes G n h h' \<Longrightarrow> tuple_is h' p r"
  unfolding tuple_is_def using changesD(4) frozen.simps(3) by meson

definition col_key_of :: "(cword \<Rightarrow> string) \<Rightarrow> attribute list \<Rightarrow> cword list \<Rightarrow> attribute \<Rightarrow> akey" where
  "col_key_of st as r a = (let x = r ! attr_pos as (attr_id a) in
     case attr_dom a of Dom_Int \<Rightarrow> KInt x | Dom_Str \<Rightarrow> KStr (st x))"

fun row_key :: "(cword \<Rightarrow> string) \<Rightarrow> attribute list \<Rightarrow> cword list \<Rightarrow> attribute list \<Rightarrow> akey" where
  "row_key st as r [] = KInt 0"
| "row_key st as r (a # proj) = (if proj = [] then col_key_of st as r a
     else KPair (col_key_of st as r a) (row_key st as r proj))"

lemma get_schema_same: "map attr_dom as = map attr_dom bs \<Longrightarrow> get_schema as = get_schema bs"
proof (induction as arbitrary: bs)
  case (Cons a as)
  then obtain b bs' where "bs = b # bs'" "attr_dom a = attr_dom b" "map attr_dom as = map attr_dom bs'" by auto
  then show ?case using Cons.IH [of bs'] by auto
qed simp

lemma get_schema_some: "as \<noteq> [] \<Longrightarrow> \<exists>s. get_schema as = Some s"
  by (induction as) auto

lemma col_key_denotes:
  assumes "attrs_ok as" "a \<in> set as" "row_ok st h as r"
  shows "index_key (get_schema_aux (attr_dom a)) h (r ! attr_pos as (attr_id a)) (col_key_of st as r a)"
proof (cases "attr_dom a")
  case Dom_Int
  then show ?thesis by (simp add: col_key_of_def hash_key_def)
next
  case Dom_Str
  have "attr_pos as (attr_id a) < length as" "as ! attr_pos as (attr_id a) = a"
    using attr_pos_less attr_pos_self assms(1,2) by (auto simp: attrs_ok_def)
  then show ?thesis using Dom_Str assms(3) by (auto simp: col_key_of_def slist_key_def row_ok_def)
qed

lemma build_keypair_ok:
  assumes "heap_ok h" "tbrk h + 1 \<le> 2 ^ 64"
  shows "\<exists>p h'. build_keypair h a b = Some (p, h') \<and> tmem h' p = Some (Keypair \<lparr>kp_a = a, kp_b = b\<rparr>) \<and> changes {} 1 h h'"
proof -
  have room: "tbrk h < 2 ^ 64" using assms(2) by simp
  obtain p h' where "malloc_c h (Keypair \<lparr>kp_a = a, kp_b = b\<rparr>) = (p, h')" "p \<noteq> 0"
    "tmem h' = (tmem h)(p \<mapsto> Keypair \<lparr>kp_a = a, kp_b = b\<rparr>)" "changes {} 1 h h'"
    using malloc_c_ok [OF assms(1) room] by blast
  then show ?thesis by (simp add: build_keypair_def)
qed

lemma get_projection_ok:
  assumes "attrs_ok as" "proj \<noteq> []" "set proj \<subseteq> set as" "row_ok st h as r" "tuple_is h t r"
    "heap_ok h" "tbrk h + length proj \<le> 2 ^ 64"
  shows "\<exists>key h' sch. get_projection h as t proj = Some (key, h') \<and> get_schema proj = Some sch \<and>
     index_key sch h' key (row_key st as r proj) \<and> changes {} (length proj) h h'"
  using assms(2-7)
proof (induction proj)
  case (Cons a proj)
  have a: "a \<in> set as" using Cons.prems(2) by simp
  have pos: "attr_pos as (attr_id a) < length as" using attr_pos_less a by blast
  obtain x where x: "tmem h t = Some (Tuple (r @ x))" using Cons.prems(4) by (auto simp: tuple_is_def)
  have len: "length r = length as" "length as < 2 ^ 31" using Cons.prems(3) assms(1) by (simp_all add: row_ok_def attrs_ok_def)
  have f: "field (r @ x) (int (attr_pos as (attr_id a))) = Some (r ! attr_pos as (attr_id a))"
    using field_nat [of "attr_pos as (attr_id a)" "r @ x"] pos len by (simp add: nth_append)
  have o: "get_offset as (attr_id a) (attr_dom a) = Some (int (attr_pos as (attr_id a)))"
    by (rule get_offset_found [OF assms(1) a])
  have key: "index_key (get_schema_aux (attr_dom a)) h (r ! attr_pos as (attr_id a)) (col_key_of st as r a)"
    by (rule col_key_denotes [OF assms(1) a Cons.prems(3)])
  show ?case
  proof (cases "proj = []")
    case True
    have "changes {} (length (a # proj)) h h" by (rule changes_mono [OF changes_refl [OF Cons.prems(5)]]) simp_all
    then show ?thesis using True o f x key by (simp add: tuple_at_def)
  next
    case False
    obtain k1 h1 s1 where r1: "get_projection h as t proj = Some (k1, h1)" "get_schema proj = Some s1"
      "index_key s1 h1 k1 (row_key st as r proj)" "changes {} (length proj) h h1"
      using Cons.IH [OF False _ Cons.prems(3,4,5)] Cons.prems(2,6) by auto
    have "tbrk h1 + 1 \<le> 2 ^ 64" using changesD(2) [OF r1(4)] Cons.prems(6) by simp
    then obtain p h2 where p: "build_keypair h1 (r ! attr_pos as (attr_id a)) k1 = Some (p, h2)"
      "tmem h2 p = Some (Keypair \<lparr>kp_a = r ! attr_pos as (attr_id a), kp_b = k1\<rparr>)" "changes {} 1 h1 h2"
      using build_keypair_ok [OF changesD(1) [OF r1(4)]] by blast
    have c: "changes {} (length (a # proj)) h h2" using changes_trans [OF r1(4) p(3)] by (simp add: fresh_def)
    have "index_key (get_schema_aux (attr_dom a)) h2 (r ! attr_pos as (attr_id a)) (col_key_of st as r a)"
      by (rule index.keyof_frame [OF key c])
    moreover have "index_key s1 h2 k1 (row_key st as r proj)" by (rule index.keyof_frame [OF r1(3) p(3)])
    ultimately have "index_key (tuple_schema (get_schema_aux (attr_dom a)) s1) h2 p (row_key st as r (a # proj))"
      using False p(2) by (simp add: tuple_schema_def tuple_key_def)
    then show ?thesis using False o f x r1(1,2) p(1) c by (simp add: tuple_at_def)
  qed
qed simp

end
