(* ===== verification/DB_Scan.thy ===== *)
theory DB_Scan
  imports DB_Attr BTree_Index
begin

text \<open>
  Iterators: the contract of a method table that enumerates rows, \<^verbatim>\<open>materialize\<close> over any iterator that
  keeps it, and the sequential scan, which keeps it by the contract of the cursored index.
\<close>

section \<open>Sources of rows\<close>

text \<open>\<open>rows e h F n rs\<close>: the environment \<open>e\<close> still enumerates the rows \<open>rs\<close>, writes objects of \<open>F\<close> only
  and makes at most \<open>n\<close> new ones. \<open>ready\<close> is the same before \<^verbatim>\<open>init\<close>.\<close>

locale row_source =
  fixes mt :: "'e methods"
    and rows :: "'e \<Rightarrow> theap \<Rightarrow> cword set \<Rightarrow> nat \<Rightarrow> cword list list \<Rightarrow> bool"
    and ready :: "'e \<Rightarrow> theap \<Rightarrow> cword set \<Rightarrow> nat \<Rightarrow> cword list list \<Rightarrow> bool"
  assumes init_ready: "ready e h F n rs \<Longrightarrow> \<exists>e'. m_init mt e h = Some (e', h) \<and> rows e' h F n rs"
    and next_row: "rows e h F n (r # rs) \<Longrightarrow> heap_ok h \<Longrightarrow> tbrk h + n \<le> 2 ^ 64 \<Longrightarrow>
      \<exists>p e' h' F' k. m_next mt e h = Some (p, e', h') \<and> p \<noteq> 0 \<and> tuple_is h' p r \<and> k \<le> n \<and> rows e' h' F' (n - k) rs \<and>
        F \<subseteq> F' \<and> fresh h (F' - F) \<and> changes F k h h'"
    and next_end: "rows e h F n [] \<Longrightarrow> heap_ok h \<Longrightarrow> tbrk h + n \<le> 2 ^ 64 \<Longrightarrow>
      \<exists>e' h' F' k. m_next mt e h = Some (0, e', h') \<and> k \<le> n \<and> rows e' h' F' (n - k) [] \<and>
        F \<subseteq> F' \<and> fresh h (F' - F) \<and> changes F k h h'"
    and close_rows: "rows e h F n rs \<Longrightarrow> \<exists>e'. m_close mt e h = Some (e', h)"
    and rows_frame: "rows e h F n rs \<Longrightarrow> changes G k h h' \<Longrightarrow> G \<inter> F = {} \<Longrightarrow> rows e h' F n rs"
    and rows_live: "rows e h F n rs \<Longrightarrow> a \<in> F \<Longrightarrow> tmem h a \<noteq> None"
    and ready_frame: "ready e h F n rs \<Longrightarrow> changes G k h h' \<Longrightarrow> G \<inter> F = {} \<Longrightarrow> ready e h' F n rs"
    and ready_live: "ready e h F n rs \<Longrightarrow> a \<in> F \<Longrightarrow> tmem h a \<noteq> None"
begin

lemma get_next_eq: "get_next \<lparr>mtable = mt, env = e\<rparr> h =
   map_option (\<lambda>(t, e, h). (t, \<lparr>mtable = mt, env = e\<rparr>, h)) (m_next mt e h)"
  by (cases "m_next mt e h") (auto simp: get_next_def)

lemma materialize_loop_rows:
  assumes "rows e h F n rs" "fifo_rep h q Q ps" "Q \<inter> F = {}" "heap_ok h" "tbrk h + n + length rs \<le> 2 ^ 64"
    "list_all2 (tuple_is h) ps rs0"
  shows "\<exists>e' h' Q' qs F' n'. materialize_loop q \<lparr>mtable = mt, env = e\<rparr> h = Some (\<lparr>mtable = mt, env = e'\<rparr>, h') \<and>
     fifo_rep h' q Q' qs \<and> list_all2 (tuple_is h') qs (rs0 @ rs) \<and> heap_ok h' \<and> rows e' h' F' n' []"
  using assms
proof (induction rs arbitrary: e h F n Q ps rs0)
  case Nil
  obtain e' h' F' k where x: "m_next mt e h = Some (0, e', h')" "rows e' h' F' (n - k) []" "changes F k h h'"
    using next_end [OF Nil.prems(1,4)] Nil.prems(5) by auto
  have "fifo_rep h' q Q ps" by (rule fifo.rep_frame [OF Nil.prems(2) x(3)]) (use Nil.prems(3) in blast)
  moreover have "list_all2 (tuple_is h') ps rs0"
    using Nil.prems(6) by (rule list_all2_mono) (rule tuple_is_frame [OF _ x(3)])
  moreover have "materialize_loop q \<lparr>mtable = mt, env = e\<rparr> h = Some (\<lparr>mtable = mt, env = e'\<rparr>, h')"
    using x(1) by (subst materialize_loop.simps) (simp add: get_next_eq)
  ultimately show ?case using x(2) changesD(1) [OF x(3)] by auto
next
  case (Cons r rs)
  have room: "tbrk h + n \<le> 2 ^ 64" using Cons.prems(5) by simp
  obtain p e1 h1 F1 k where x: "m_next mt e h = Some (p, e1, h1)" "p \<noteq> 0" "tuple_is h1 p r" "k \<le> n"
    "rows e1 h1 F1 (n - k) rs" "F \<subseteq> F1" "fresh h (F1 - F)" "changes F k h h1"
    using next_row [OF Cons.prems(1,4) room] by blast
  have q1: "fifo_rep h1 q Q ps" by (rule fifo.rep_frame [OF Cons.prems(2) x(8)]) (use Cons.prems(3) in blast)
  have dis: "Q \<inter> F1 = {}"
    using fresh_disjoint [OF x(7), of Q] fifo.rep_live [OF Cons.prems(2)] Cons.prems(3) by blast
  have room1: "tbrk h1 + 1 \<le> 2 ^ 64" using changesD(2) [OF x(8)] x(4) Cons.prems(5) by simp
  obtain el h2 where y: "fifo_add h1 q p = Some h2" "fifo_rep h2 q (insert el Q) (ps @ [p])" "tmem h1 el = None"
    "changes Q 1 h1 h2"
    using fifo.put_rep [OF q1 changesD(1) [OF x(8)] room1] by blast
  have r2: "rows e1 h2 F1 (n - k) rs" by (rule rows_frame [OF x(5) y(4) dis])
  have d2: "insert el Q \<inter> F1 = {}" using dis rows_live [OF x(5), of el] y(3) by blast
  have room2: "tbrk h2 + (n - k) + length rs \<le> 2 ^ 64"
    using changesD(2) [OF x(8)] changesD(2) [OF y(4)] x(4) Cons.prems(5) by simp
  have la2: "list_all2 (tuple_is h2) (ps @ [p]) (rs0 @ [r])"
  proof -
    have "tuple_is h2 a b" if "tuple_is h a b" for a b
      by (rule tuple_is_frame [OF tuple_is_frame [OF that x(8)] y(4)])
    then have "list_all2 (tuple_is h2) ps rs0" using list_all2_mono [OF Cons.prems(6)] by blast
    then show ?thesis using tuple_is_frame [OF x(3) y(4)] by (simp add: list_all2_appendI)
  qed
  obtain e' h' Q' qs F' n' where z:
    "materialize_loop q \<lparr>mtable = mt, env = e1\<rparr> h2 = Some (\<lparr>mtable = mt, env = e'\<rparr>, h')"
    "fifo_rep h' q Q' qs" "list_all2 (tuple_is h') qs ((rs0 @ [r]) @ rs)" "heap_ok h'" "rows e' h' F' n' []"
    using Cons.IH [OF r2 y(2) d2 changesD(1) [OF y(4)] room2 la2] by blast
  have "materialize_loop q \<lparr>mtable = mt, env = e\<rparr> h = materialize_loop q \<lparr>mtable = mt, env = e1\<rparr> h2"
    using x(1,2) y(1) by (subst materialize_loop.simps) (auto simp: get_next_eq fifo_add_def bind_Some_iff)
  then show ?case using z by auto
qed

lemma materialize_rows:
  assumes "ready e h F n rs" "heap_ok h" "tbrk h + 1 + n + length rs \<le> 2 ^ 64"
  shows "\<exists>q it' h' Q qs. materialize \<lparr>mtable = mt, env = e\<rparr> h = Some (q, it', h') \<and>
     fifo_rep h' q Q qs \<and> list_all2 (tuple_is h') qs rs \<and> heap_ok h'"
proof -
  have room: "tbrk h + 1 \<le> 2 ^ 64" using assms(3) by simp
  obtain q h1 where q: "fifo_new h = Some (q, h1)" "fifo_rep h1 q {q} []" "tmem h q = None" "changes {} 1 h h1"
    using fifo.new_rep [OF assms(2) room] by blast
  have "ready e h1 F n rs" by (rule ready_frame [OF assms(1) q(4)]) simp
  then obtain e1 where e1: "m_init mt e h1 = Some (e1, h1)" "rows e1 h1 F n rs" using init_ready by blast
  have dis: "{q} \<inter> F = {}" using ready_live [OF assms(1), of q] q(3) by blast
  have room1: "tbrk h1 + n + length rs \<le> 2 ^ 64" using changesD(2) [OF q(4)] assms(3) by simp
  have nil: "list_all2 (tuple_is h1) [] []" by simp
  obtain e' h' Q' qs F' n' where z:
    "materialize_loop q \<lparr>mtable = mt, env = e1\<rparr> h1 = Some (\<lparr>mtable = mt, env = e'\<rparr>, h')"
    "fifo_rep h' q Q' qs" "list_all2 (tuple_is h') qs ([] @ rs)" "heap_ok h'" "rows e' h' F' n' []"
    using materialize_loop_rows [OF e1(2) q(2) dis changesD(1) [OF q(4)] room1 nil] by blast
  obtain e2 where "m_close mt e' h' = Some (e2, h')" using close_rows [OF z(5)] by blast
  then have "materialize \<lparr>mtable = mt, env = e\<rparr> h = Some (q, \<lparr>mtable = mt, env = e2\<rparr>, h')"
    using q(1) e1(1) z(1) by (simp add: materialize_def init_iterator_def close_iterator_def)
  then show ?thesis using z(2,3,4) by auto
qed

end

section \<open>The sequential scan\<close>

text \<open>The records of the relation are addresses of tuples.\<close>

definition record_row :: "theap \<Rightarrow> Key \<times> cword \<Rightarrow> cword list \<Rightarrow> bool" where
  "record_row h kr r \<longleftrightarrow> snd kr \<noteq> 0 \<and> tuple_is h (snd kr) r"

definition scan_rows :: "seq_scan_env \<Rightarrow> theap \<Rightarrow> cword set \<Rightarrow> nat \<Rightarrow> cword list list \<Rightarrow> bool" where
  "scan_rows e h F n rs \<longleftrightarrow> F = {} \<and> (\<exists>c xs p. sc_cursor e = Some c \<and> cursor_at (bt e) c xs p \<and>
     list_all2 (record_row h) (drop p xs) rs)"

definition scan_ready :: "seq_scan_env \<Rightarrow> theap \<Rightarrow> cword set \<Rightarrow> nat \<Rightarrow> cword list list \<Rightarrow> bool" where
  "scan_ready e h F n rs \<longleftrightarrow> F = {} \<and> (\<exists>xs. rel_holds (bt e) xs \<and> list_all2 (record_row h) xs rs)"

lemma record_row_frame: "record_row h kr r \<Longrightarrow> changes G n h h' \<Longrightarrow> record_row h' kr r"
  unfolding record_row_def using tuple_is_frame by blast

lemma scan_init:
  assumes "scan_ready e h F n rs"
  shows "\<exists>e'. seq_scan_init e h = Some (e', h) \<and> scan_rows e' h F n rs"
proof -
  obtain xs where xs: "rel_holds (bt e) xs" "list_all2 (record_row h) xs rs" "F = {}"
    using assms by (auto simp: scan_ready_def)
  obtain c s where c: "RL_NewCursor (bt e) = Some (Some c, s)" "cursor_at s c xs 0" using new_cursor_at [OF xs(1)] by blast
  obtain c' where c': "RL_MoveToFirst s c = Some (xs \<noteq> [], c')" "cursor_at s c' xs 0"
    using btree.move_to_first_at [OF c(2)] by blast
  have "list_all2 (record_row h) (drop 0 xs) rs" using xs(2) by simp
  then have "scan_rows \<lparr>bt = s, sc_cursor = Some c'\<rparr> h F n rs"
    using c'(2) xs(3) unfolding scan_rows_def
    by (intro conjI exI [of _ c'] exI [of _ xs] exI [of _ 0]) simp_all
  then show ?thesis using c(1) c'(1) by (simp add: seq_scan_init_def)
qed

lemma scan_next:
  assumes "scan_rows e h F n (r # rs)"
  shows "\<exists>p e'. seq_scan_next e h = Some (p, e', h) \<and> p \<noteq> 0 \<and> tuple_is h p r \<and> scan_rows e' h F n rs"
proof -
  obtain c xs p where x: "sc_cursor e = Some c" "cursor_at (bt e) c xs p" "list_all2 (record_row h) (drop p xs) (r # rs)" "F = {}"
    using assms by (auto simp: scan_rows_def)
  have p: "p < length xs" using x(3) by (cases "p < length xs") auto
  then have d: "drop p xs = xs ! p # drop (Suc p) xs" by (simp add: Cons_nth_drop_Suc)
  obtain c1 where c1: "RL_GetRecord (bt e) c = Some (snd (xs ! p), c1)" "cursor_at (bt e) c1 xs p"
    using btree.get_record_at [OF x(2) p] by blast
  obtain c2 where c2: "RL_MoveToNext (bt e) c1 = Some c2" "cursor_at (bt e) c2 xs (Suc p)"
    using btree.move_to_next_at [OF c1(2)] p by auto
  have "xs \<noteq> []" using p by auto
  then have "seq_scan_next e h = Some (snd (xs ! p), e\<lparr>sc_cursor := Some c2\<rparr>, h)"
    using x(1) RL_IsEmpty_holds [OF cursor_at_holds [OF x(2)]] btree.valid_at [OF x(2)] p c1(1) c2(1)
    by (simp add: seq_scan_next_def)
  moreover have "scan_rows (e\<lparr>sc_cursor := Some c2\<rparr>) h F n rs"
    unfolding scan_rows_def using c2(2) x(3,4) d by auto
  ultimately show ?thesis using x(3) d by (simp add: record_row_def)
qed

lemma scan_end:
  assumes "scan_rows e h F n []"
  shows "seq_scan_next e h = Some (0, e, h)"
proof -
  obtain c xs p where x: "sc_cursor e = Some c" "cursor_at (bt e) c xs p" "drop p xs = []"
    using assms by (auto simp: scan_rows_def)
  then show ?thesis
    using RL_IsEmpty_holds [OF cursor_at_holds [OF x(2)]] btree.valid_at [OF x(2)]
    by (auto simp: seq_scan_next_def)
qed

interpretation scan: row_source seq_scan_iterator_mtable scan_rows scan_ready
proof
  fix e h F n rs assume "scan_ready e h F n rs"
  then show "\<exists>e'. m_init seq_scan_iterator_mtable e h = Some (e', h) \<and> scan_rows e' h F n rs"
    using scan_init by (simp add: seq_scan_iterator_mtable_def)
next
  fix e h F n r rs assume a: "scan_rows e h F n (r # rs)" "heap_ok h"
  obtain p e' where "seq_scan_next e h = Some (p, e', h)" "p \<noteq> 0" "tuple_is h p r" "scan_rows e' h F n rs"
    using scan_next [OF a(1)] by blast
  then show "\<exists>p e' h' F' k. m_next seq_scan_iterator_mtable e h = Some (p, e', h') \<and> p \<noteq> 0 \<and> tuple_is h' p r \<and> k \<le> n \<and>
      scan_rows e' h' F' (n - k) rs \<and> F \<subseteq> F' \<and> fresh h (F' - F) \<and> changes F k h h'"
    using changes_mono [OF changes_refl [OF a(2)]]
    by (intro exI [of _ p] exI [of _ e'] exI [of _ h] exI [of _ F] exI [of _ 0])
      (simp add: seq_scan_iterator_mtable_def fresh_def)
next
  fix e h F n assume a: "scan_rows e h F n []" "heap_ok h"
  then show "\<exists>e' h' F' k. m_next seq_scan_iterator_mtable e h = Some (0, e', h') \<and> k \<le> n \<and>
      scan_rows e' h' F' (n - k) [] \<and> F \<subseteq> F' \<and> fresh h (F' - F) \<and> changes F k h h'"
    using changes_mono [OF changes_refl [OF a(2)]] scan_end [OF a(1)]
    by (intro exI [of _ e] exI [of _ h] exI [of _ F] exI [of _ 0])
      (simp add: seq_scan_iterator_mtable_def fresh_def)
next
  fix e h F n rs assume "scan_rows e h F n rs"
  then show "\<exists>e'. m_close seq_scan_iterator_mtable e h = Some (e', h)"
    by (auto simp: scan_rows_def seq_scan_iterator_mtable_def seq_scan_close_def)
next
  fix e h F n rs G k and h' :: theap assume a: "scan_rows e h F n rs" "changes G k h h'"
  obtain c xs p where "sc_cursor e = Some c" "cursor_at (bt e) c xs p" "list_all2 (record_row h) (drop p xs) rs" "F = {}"
    using a(1) by (auto simp: scan_rows_def)
  moreover from this(3) have "list_all2 (record_row h') (drop p xs) rs"
    by (rule list_all2_mono) (rule record_row_frame [OF _ a(2)])
  ultimately show "scan_rows e h' F n rs" unfolding scan_rows_def by blast
next
  fix e h F n rs G k and h' :: theap assume a: "scan_ready e h F n rs" "changes G k h h'"
  obtain xs where "rel_holds (bt e) xs" "list_all2 (record_row h) xs rs" "F = {}"
    using a(1) by (auto simp: scan_ready_def)
  moreover from this(2) have "list_all2 (record_row h') xs rs"
    by (rule list_all2_mono) (rule record_row_frame [OF _ a(2)])
  ultimately show "scan_ready e h' F n rs" unfolding scan_ready_def by blast
qed (simp_all add: scan_rows_def scan_ready_def)

end
