(* ===== verification/DB_IndexScan.thy ===== *)
theory DB_IndexScan
  imports DB_Scan
begin

text \<open>
  The index scan: a tuple-key index whose values are queues, filled by a scan of the relation.
\<close>

section \<open>Indexes of queues\<close>

text \<open>The index at \<open>ind\<close> maps a key to the queue of the tuples \<open>qs k\<close>; \<open>Fs k\<close> are that queue's objects.\<close>

definition queue_index :: "schema \<Rightarrow> theap \<Rightarrow> cword \<Rightarrow> cword set \<Rightarrow> (akey \<Rightarrow> cword) \<Rightarrow> (akey \<Rightarrow> cword set) \<Rightarrow>
    (akey \<Rightarrow> cword list) \<Rightarrow> bool" where
  "queue_index sch h ind F1 m1 Fs qs \<longleftrightarrow> index_rep sch h ind F1 m1 \<and>
     (\<forall>k. if m1 k = 0 then Fs k = {} \<and> qs k = [] else fifo_rep h (m1 k) (Fs k) (qs k)) \<and>
     (\<forall>k. F1 \<inter> Fs k = {}) \<and> (\<forall>k k'. k \<noteq> k' \<longrightarrow> Fs k \<inter> Fs k' = {})"

definition qi_space :: "cword set \<Rightarrow> (akey \<Rightarrow> cword set) \<Rightarrow> cword set" where
  "qi_space F1 Fs = F1 \<union> (\<Union>k. Fs k)"

lemma queue_indexD:
  assumes "queue_index sch h ind F1 m1 Fs qs"
  shows "index_rep sch h ind F1 m1" "m1 k \<noteq> 0 \<Longrightarrow> fifo_rep h (m1 k) (Fs k) (qs k)" "m1 k = 0 \<Longrightarrow> Fs k = {}"
    "m1 k = 0 \<Longrightarrow> qs k = []" "F1 \<inter> Fs k = {}" "k \<noteq> k' \<Longrightarrow> Fs k \<inter> Fs k' = {}"
  using assms unfolding queue_index_def by (auto split: if_splits)

lemma queue_indexI:
  assumes "index_rep sch h ind F1 m1" "\<And>k. m1 k \<noteq> 0 \<Longrightarrow> fifo_rep h (m1 k) (Fs k) (qs k)"
    "\<And>k. m1 k = 0 \<Longrightarrow> Fs k = {} \<and> qs k = []" "\<And>k. F1 \<inter> Fs k = {}" "\<And>k k'. k \<noteq> k' \<Longrightarrow> Fs k \<inter> Fs k' = {}"
  shows "queue_index sch h ind F1 m1 Fs qs"
  using assms unfolding queue_index_def by simp

lemma queue_index_live:
  assumes "queue_index sch h ind F1 m1 Fs qs" "x \<in> qi_space F1 Fs"
  shows "tmem h x \<noteq> None"
proof (cases "x \<in> F1")
  case True
  then show ?thesis using index.rep_live [OF queue_indexD(1) [OF assms(1)]] by blast
next
  case False
  then obtain k where k: "x \<in> Fs k" using assms(2) unfolding qi_space_def by blast
  then have "m1 k \<noteq> 0" using queue_indexD(3) [OF assms(1), of k] by blast
  then show ?thesis using fifo.rep_live [OF queue_indexD(2) [OF assms(1)] k] by blast
qed

lemma queue_index_frame:
  assumes "queue_index sch h ind F1 m1 Fs qs" "changes G n h h'" "G \<inter> qi_space F1 Fs = {}"
  shows "queue_index sch h' ind F1 m1 Fs qs"
proof (rule queue_indexI)
  note d = queue_indexD [OF assms(1)]
  show "index_rep sch h' ind F1 m1"
    by (rule index.rep_frame [OF d(1) assms(2)]) (use assms(3) in \<open>auto simp: qi_space_def\<close>)
  show "fifo_rep h' (m1 k) (Fs k) (qs k)" if "m1 k \<noteq> 0" for k
    by (rule fifo.rep_frame [OF d(2) [OF that] assms(2)]) (use assms(3) in \<open>auto simp: qi_space_def\<close>)
  show "Fs k = {} \<and> qs k = []" if "m1 k = 0" for k using d(3,4) [OF that] by simp
qed (use queue_indexD(5,6) [OF assms(1)] in blast)+

section \<open>One tuple\<close>

text \<open>The body of the loop of \<^verbatim>\<open>index_scan\<close> after the projection.\<close>

definition enqueue :: "schema \<Rightarrow> cword \<Rightarrow> cword \<Rightarrow> cword \<Rightarrow> theap \<Rightarrow> theap option" where
  "enqueue sch ind proj t h = do {
     l \<leftarrow> index_lookup sch h ind proj;
     (l, h) \<leftarrow> (if l = 0 then fifo_new h else Some (l, h));
     (p, h) \<leftarrow> make_elem h t;
     h \<leftarrow> fifo_put h l p;
     (_, h) \<leftarrow> index_insert sch h ind proj l;
     Some h }"

lemma queue_for_key:
  assumes qi: "queue_index sch h ind F1 m1 Fs qs" and ok: "heap_ok h" and room: "tbrk h + 1 \<le> 2 ^ 64"
  shows "\<exists>l h1 L. (if m1 k = 0 then fifo_new h else Some (m1 k, h)) = Some (l, h1) \<and> l \<noteq> 0 \<and>
     fifo_rep h1 l L (qs k) \<and> Fs k \<subseteq> L \<and> fresh h (L - Fs k) \<and> changes {} 1 h h1 \<and> (m1 k \<noteq> 0 \<longrightarrow> l = m1 k)"
proof (cases "m1 k = 0")
  case True
  obtain q h1 where q: "fifo_new h = Some (q, h1)" "q \<noteq> 0" "fifo_rep h1 q {q} []" "tmem h q = None" "changes {} 1 h h1"
    using fifo.new_rep [OF ok room] by blast
  then show ?thesis using True queue_indexD(3,4) [OF qi True] by (auto simp: fresh_def)
next
  case False
  then show ?thesis
    using queue_indexD(2) [OF qi False] changes_mono [OF changes_refl [OF ok], of "{}" 1]
    by (intro exI [of _ "m1 k"] exI [of _ h] exI [of _ "Fs k"]) (simp add: fresh_def)
qed

lemma enqueue_ok:
  assumes qi: "queue_index sch h ind F1 m1 Fs qs" and key: "index_key sch h proj k" and ok: "heap_ok h"
    and room: "tbrk h + (2 + insert_cost sch) \<le> 2 ^ 64"
  shows "\<exists>h' F1' m1' Fs'. enqueue sch ind proj t h = Some h' \<and>
     queue_index sch h' ind F1' m1' Fs' (qs(k := qs k @ [t])) \<and> changes (qi_space F1 Fs) (2 + insert_cost sch) h h' \<and>
     qi_space F1 Fs \<subseteq> qi_space F1' Fs' \<and> fresh h (qi_space F1' Fs' - qi_space F1 Fs)"
proof -
  note d = queue_indexD [OF qi]
  have lk: "index_lookup sch h ind proj = Some (m1 k)" by (rule index.look_rep [OF d(1) key])
  have room0: "tbrk h + 1 \<le> 2 ^ 64" using room by simp
  obtain l h1 L where l: "(if m1 k = 0 then fifo_new h else Some (m1 k, h)) = Some (l, h1)" "l \<noteq> 0"
    "fifo_rep h1 l L (qs k)" "Fs k \<subseteq> L" "fresh h (L - Fs k)" "changes {} 1 h h1"
    using queue_for_key [OF qi ok room0, of k] by blast
  have live: "\<And>x. x \<in> qi_space F1 Fs \<Longrightarrow> tmem h x \<noteq> None" by (rule queue_index_live [OF qi])
  have newL: "(L - Fs k) \<inter> qi_space F1 Fs = {}" by (rule fresh_disjoint [OF l(5) live])
  have LF1: "L \<inter> F1 = {}" using newL d(5) [of k] unfolding qi_space_def by blast
  have LFs: "L \<inter> Fs k' = {}" if "k' \<noteq> k" for k'
    using newL d(6) [of k k'] that unfolding qi_space_def by blast
  have qi1: "queue_index sch h1 ind F1 m1 Fs qs" by (rule queue_index_frame [OF qi l(6)]) simp
  note d1 = queue_indexD [OF qi1]
  have room1: "tbrk h1 + 1 \<le> 2 ^ 64" using changesD(2) [OF l(6)] room by simp
  obtain p h2 where p: "fifo_add h1 l t = Some h2" "fifo_rep h2 l (insert p L) (qs k @ [t])" "tmem h1 p = None"
    "changes L 1 h1 h2"
    using fifo.put_rep [OF l(3) changesD(1) [OF l(6)] room1] by blast
  have live1: "\<And>x. x \<in> qi_space F1 Fs \<Longrightarrow> tmem h1 x \<noteq> None" by (rule queue_index_live [OF qi1])
  have pF: "p \<notin> F1" "p \<notin> Fs k'" for k' using live1 [of p] p(3) unfolding qi_space_def by blast+
  have idx2: "index_rep sch h2 ind F1 m1" by (rule index.rep_frame [OF d1(1) p(4) LF1])
  have key2: "index_key sch h2 proj k" by (rule index.keyof_frame [OF index.keyof_frame [OF key l(6)] p(4)])
  have room2: "tbrk h2 + insert_cost sch \<le> 2 ^ 64" using changesD(2) [OF l(6)] changesD(2) [OF p(4)] room by simp
  obtain h3 F1' where i: "index_insert sch h2 ind proj l = Some (m1 k, h3)" "index_rep sch h3 ind F1' (m1(k := l))"
    "F1 \<subseteq> F1'" "fresh h2 (F1' - F1)" "changes F1 (insert_cost sch) h2 h3"
    using index.ins_rep [OF idx2 key2 changesD(1) [OF p(4)] room2] by blast
  have q2: "fifo_rep h2 (m1 k') (Fs k') (qs k')" if "m1 k' \<noteq> 0" "k' \<noteq> k" for k'
    by (rule fifo.rep_frame [OF d1(2) [OF that(1)] p(4) LFs [OF that(2)]])
  have new3: "(F1' - F1) \<inter> insert p L = {}" by (rule fresh_disjoint [OF i(4) fifo.rep_live [OF p(2)]])
  have new4: "(F1' - F1) \<inter> Fs k' = {}" if "k' \<noteq> k" for k'
  proof (cases "m1 k' = 0")
    case True
    then show ?thesis using d(3) by simp
  next
    case False
    show ?thesis by (rule fresh_disjoint [OF i(4) fifo.rep_live [OF q2 [OF False that]]])
  qed
  let ?Fs = "Fs(k := insert p L)"
  have "queue_index sch h3 ind F1' (m1(k := l)) ?Fs (qs(k := qs k @ [t]))"
  proof (rule queue_indexI [OF i(2)])
    fix k'
    show "fifo_rep h3 ((m1(k := l)) k') (?Fs k') ((qs(k := qs k @ [t])) k')" if a: "(m1(k := l)) k' \<noteq> 0"
    proof (cases "k' = k")
      case True
      have "fifo_rep h3 l (insert p L) (qs k @ [t])"
        by (rule fifo.rep_frame [OF p(2) i(5)]) (use LF1 pF(1) in blast)
      then show ?thesis using True by simp
    next
      case False
      have "fifo_rep h3 (m1 k') (Fs k') (qs k')"
        by (rule fifo.rep_frame [OF q2 i(5) d(5)]) (use a False in auto)
      then show ?thesis using False by simp
    qed
    show "?Fs k' = {} \<and> (qs(k := qs k @ [t])) k' = []" if "(m1(k := l)) k' = 0"
      using that l(2) d(3,4) by (cases "k' = k") auto
    show "F1' \<inter> ?Fs k' = {}"
      using new3 new4 [of k'] LF1 pF(1) d(5) [of k'] by (cases "k' = k") auto
    show "?Fs k' \<inter> ?Fs k'' = {}" if "k' \<noteq> k''" for k''
      using that LFs pF(2) d(6) [of k' k''] by (cases "k' = k"; cases "k'' = k") auto
  qed
  moreover have "changes (qi_space F1 Fs) (2 + insert_cost sch) h h3"
  proof -
    have T: "L - Fs k = L - qi_space F1 Fs" using newL unfolding qi_space_def by blast
    have c1: "changes (qi_space F1 Fs) (1 + 1) h h2"
      by (rule changes_trans [OF changes_mono [OF l(6)] p(4)]) (use l(5) T in auto)
    have "changes (qi_space F1 Fs) (1 + 1 + insert_cost sch) h h3"
      by (rule changes_trans [OF c1 i(5)]) (auto simp: qi_space_def fresh_def)
    then show ?thesis by simp
  qed
  moreover have "qi_space F1 Fs \<subseteq> qi_space F1' ?Fs" using i(3) l(4) unfolding qi_space_def by auto
  moreover have "fresh h (qi_space F1' ?Fs - qi_space F1 Fs)"
  proof -
    have "fresh h1 (F1' - F1)"
      by (rule fresh_changes [OF p(4) i(4)]) (use new3 in blast)
    then have "fresh h (F1' - F1)" using fresh_changes [OF l(6)] by simp
    moreover have "fresh h {p}" by (rule fresh_changes [OF l(6)]) (simp_all add: fresh_def p(3))
    ultimately show ?thesis using l(5) unfolding fresh_def qi_space_def by (auto split: if_splits)
  qed
  moreover have "enqueue sch ind proj t h = Some h3"
  proof -
    obtain el ha where "make_elem h1 t = Some (el, ha)" "fifo_put ha l el = Some h2"
      using p(1) by (auto simp: fifo_add_def bind_Some_iff)
    then show ?thesis using lk l(1) i(1) by (simp add: enqueue_def)
  qed
  ultimately show ?thesis by blast
qed

section \<open>The scan\<close>

lemma enqueue_bind: "Option.bind (enqueue sch ind proj t h) f = do {
     l \<leftarrow> index_lookup sch h ind proj;
     (l, h) \<leftarrow> (if l = 0 then fifo_new h else Some (l, h));
     (p, h) \<leftarrow> make_elem h t;
     h \<leftarrow> fifo_put h l p;
     (_, h) \<leftarrow> index_insert sch h ind proj l;
     f h }"
  unfolding enqueue_def by (simp add: split_def)

lemma index_scan_loop_step: "index_scan_loop sch ind rattrs as it h = do {
     (t, it, h) \<leftarrow> get_next it h;
     if t = 0 then Some h
     else do {
       (proj, h) \<leftarrow> get_projection h rattrs t as;
       h \<leftarrow> enqueue sch ind proj t h;
       index_scan_loop sch ind rattrs as it h } }"
  by (subst index_scan_loop.simps) (simp only: enqueue_bind)

text \<open>What one row costs in objects: its projected key, a queue and its element, and the index's own.\<close>

definition row_cost :: "schema \<Rightarrow> attribute list \<Rightarrow> nat" where
  "row_cost sch as = length as + (2 + insert_cost sch)"

abbreviation scan_it :: "seq_scan_env \<Rightarrow> seq_scan_env iterator" where
  "scan_it e \<equiv> \<lparr>mtable = seq_scan_iterator_mtable, env = e\<rparr>"

lemma scan_get_next: "get_next (scan_it e) h = map_option (\<lambda>(t, e, h). (t, scan_it e, h)) (seq_scan_next e h)"
  by (cases "seq_scan_next e h") (auto simp: get_next_def seq_scan_iterator_mtable_def)

lemma index_scan_loop_ok:
  assumes "scan_rows e h {} n rs" "queue_index sch h ind F1 m1 Fs qs" "get_schema as = Some sch"
    "attrs_ok rattrs" "as \<noteq> []" "set as \<subseteq> set rattrs" "\<forall>r\<in>set rs. row_ok st h rattrs r" "heap_ok h"
    "tbrk h + length rs * row_cost sch as \<le> 2 ^ 64" "\<forall>k. list_all2 (tuple_is h) (qs k) (R k)"
  shows "\<exists>h' F1' m1' Fs' qs'. index_scan_loop sch ind rattrs as (scan_it e) h = Some h' \<and>
     queue_index sch h' ind F1' m1' Fs' qs' \<and>
     (\<forall>k. list_all2 (tuple_is h') (qs' k) (R k @ filter (\<lambda>r. row_key st rattrs r as = k) rs)) \<and>
     changes (qi_space F1 Fs) (length rs * row_cost sch as) h h' \<and> fresh h (qi_space F1' Fs' - qi_space F1 Fs)"
  using assms
proof (induction rs arbitrary: e h F1 m1 Fs qs R)
  case Nil
  have "index_scan_loop sch ind rattrs as (scan_it e) h = Some h"
    using scan_end [OF Nil.prems(1)] by (subst index_scan_loop_step) (simp add: scan_get_next)
  then show ?case using Nil.prems(2,10) changes_mono [OF changes_refl [OF Nil.prems(8)], of "qi_space F1 Fs" 0]
    by (intro exI [of _ h] exI [of _ F1] exI [of _ m1] exI [of _ Fs] exI [of _ qs]) (simp add: fresh_def)
next
  case (Cons r rs)
  obtain t e1 where t: "seq_scan_next e h = Some (t, e1, h)" "t \<noteq> 0" "tuple_is h t r" "scan_rows e1 h {} n rs"
    using scan_next [OF Cons.prems(1)] by blast
  have row: "row_ok st h rattrs r" using Cons.prems(7) by simp
  have room: "tbrk h + length as \<le> 2 ^ 64" using Cons.prems(9) by (simp add: row_cost_def)
  obtain proj h1 where pr: "get_projection h rattrs t as = Some (proj, h1)"
    "index_key sch h1 proj (row_key st rattrs r as)" "changes {} (length as) h h1"
    using get_projection_ok [OF Cons.prems(4,5,6) row t(3) Cons.prems(8) room] Cons.prems(3) by auto
  let ?k = "row_key st rattrs r as"
  have qi1: "queue_index sch h1 ind F1 m1 Fs qs" by (rule queue_index_frame [OF Cons.prems(2) pr(3)]) simp
  have room1: "tbrk h1 + (2 + insert_cost sch) \<le> 2 ^ 64"
    using changesD(2) [OF pr(3)] Cons.prems(9) by (simp add: row_cost_def)
  obtain h2 F2 m2 Fs2 where q: "enqueue sch ind proj t h1 = Some h2"
    "queue_index sch h2 ind F2 m2 Fs2 (qs(?k := qs ?k @ [t]))" "changes (qi_space F1 Fs) (2 + insert_cost sch) h1 h2"
    "qi_space F1 Fs \<subseteq> qi_space F2 Fs2" "fresh h1 (qi_space F2 Fs2 - qi_space F1 Fs)"
    using enqueue_ok [OF qi1 pr(2) changesD(1) [OF pr(3)] room1] by blast
  have c: "changes (qi_space F1 Fs) (row_cost sch as) h h2"
    unfolding row_cost_def
    by (rule changes_trans [OF changes_mono [OF pr(3)] q(3)]) (simp_all add: fresh_def)
  have fr: "fresh h (qi_space F2 Fs2 - qi_space F1 Fs)" by (rule fresh_changes [OF pr(3) q(5)]) simp
  have scan2: "scan_rows e1 h2 {} n rs" by (rule scan.rows_frame [OF t(4) c]) simp
  have rows2: "\<forall>r\<in>set rs. row_ok st h2 rattrs r" using Cons.prems(7) row_ok_frame [OF _ c] by auto
  have room2: "tbrk h2 + length rs * row_cost sch as \<le> 2 ^ 64" using changesD(2) [OF c] Cons.prems(9) by simp
  let ?R = "R(?k := R ?k @ [r])"
  have R2: "\<forall>k. list_all2 (tuple_is h2) ((qs(?k := qs ?k @ [t])) k) (?R k)"
  proof
    fix k
    have la: "list_all2 (tuple_is h2) (qs k) (R k)"
      using spec [OF Cons.prems(10), of k] by (rule list_all2_mono) (rule tuple_is_frame [OF _ c])
    show "list_all2 (tuple_is h2) ((qs(?k := qs ?k @ [t])) k) (?R k)"
      using list_all2_appendI [OF la, of "[t]" "[r]"] la tuple_is_frame [OF t(3) c] by (cases "k = ?k") auto
  qed
  obtain h' F1' m1' Fs' qs' where z: "index_scan_loop sch ind rattrs as (scan_it e1) h2 = Some h'"
    "queue_index sch h' ind F1' m1' Fs' qs'"
    "\<forall>k. list_all2 (tuple_is h') (qs' k) (?R k @ filter (\<lambda>r. row_key st rattrs r as = k) rs)"
    "changes (qi_space F2 Fs2) (length rs * row_cost sch as) h2 h'" "fresh h2 (qi_space F1' Fs' - qi_space F2 Fs2)"
    using Cons.IH [OF scan2 q(2) Cons.prems(3-6) rows2 changesD(1) [OF c] room2 R2] by blast
  have "index_scan_loop sch ind rattrs as (scan_it e) h = Some h'"
    using t(1,2) pr(1) q(1) z(1) by (subst index_scan_loop_step) (simp add: scan_get_next)
  moreover have "\<forall>k. list_all2 (tuple_is h') (qs' k) (R k @ filter (\<lambda>r. row_key st rattrs r as = k) (r # rs))"
    using z(3) by (auto split: if_splits)
  moreover have "changes (qi_space F1 Fs) (length (r # rs) * row_cost sch as) h h'"
    using changes_trans [OF c z(4) fr] by simp
  moreover have "fresh h (qi_space F1' Fs' - qi_space F1 Fs)"
  proof -
    have "fresh h (qi_space F1' Fs' - qi_space F2 Fs2)"
      by (rule fresh_changes [OF c z(5)]) (use q(4) in blast)
    then show ?thesis using fr unfolding fresh_def by blast
  qed
  ultimately show ?case using z(2) by blast
qed

lemma index_scan_ok:
  assumes "rel_holds (pk_index rel) xs" "list_all2 (record_row h) xs rs" "attrs_ok (attrs rel)" "as \<noteq> []"
    "set as \<subseteq> set (attrs rel)" "\<forall>r\<in>set rs. row_ok st h (attrs rel) r" "get_schema as = Some sch" "heap_ok h"
    "tbrk h + new_cost sch + length rs * row_cost sch as \<le> 2 ^ 64"
  shows "\<exists>ind h' F1 m1 Fs qs. index_scan rel as h = Some (ind, h') \<and> queue_index sch h' ind F1 m1 Fs qs \<and>
     (\<forall>k. list_all2 (tuple_is h') (qs k) (filter (\<lambda>r. row_key st (attrs rel) r as = k) rs)) \<and>
     changes {} (new_cost sch + length rs * row_cost sch as) h h' \<and> fresh h (qi_space F1 Fs)"
proof -
  have room0: "tbrk h + new_cost sch \<le> 2 ^ 64" using assms(9) by simp
  obtain ind h1 F where n: "index_new sch h = Some (ind, h1)" "index_rep sch h1 ind F (\<lambda>_. 0)" "fresh h F"
    "changes {} (new_cost sch) h h1"
    using index.new_rep [OF assms(8) room0] by blast
  have qi: "queue_index sch h1 ind F (\<lambda>_. 0) (\<lambda>_. {}) (\<lambda>_. [])" by (rule queue_indexI [OF n(2)]) simp_all
  have "list_all2 (record_row h1) xs rs"
    using assms(2) by (rule list_all2_mono) (rule record_row_frame [OF _ n(4)])
  then have "scan_ready \<lparr>bt = pk_index rel, sc_cursor = None\<rparr> h1 {} 0 rs" using assms(1) by (auto simp: scan_ready_def)
  then obtain e where e: "seq_scan_init \<lparr>bt = pk_index rel, sc_cursor = None\<rparr> h1 = Some (e, h1)" "scan_rows e h1 {} 0 rs"
    using scan_init by blast
  have rows: "\<forall>r\<in>set rs. row_ok st h1 (attrs rel) r" using assms(6) row_ok_frame [OF _ n(4)] by blast
  have room1: "tbrk h1 + length rs * row_cost sch as \<le> 2 ^ 64" using changesD(2) [OF n(4)] assms(9) by simp
  have nil: "\<forall>k. list_all2 (tuple_is h1) ((\<lambda>_. []) k) ((\<lambda>_. []) (k :: akey))" by simp
  obtain h' F1 m1 Fs qs where z: "index_scan_loop sch ind (attrs rel) as (scan_it e) h1 = Some h'"
    "queue_index sch h' ind F1 m1 Fs qs"
    "\<forall>k. list_all2 (tuple_is h') (qs k) ((\<lambda>_. []) k @ filter (\<lambda>r. row_key st (attrs rel) r as = k) rs)"
    "changes (qi_space F (\<lambda>_. {})) (length rs * row_cost sch as) h1 h'"
    "fresh h1 (qi_space F1 Fs - qi_space F (\<lambda>_. {}))"
    using index_scan_loop_ok [OF e(2) qi assms(7,3,4,5) rows changesD(1) [OF n(4)] room1 nil] by blast
  have "index_scan rel as h = Some (ind, h')"
    using assms(7) n(1) e(1) z(1)
    by (simp add: index_scan_def seq_scan_def init_iterator_def seq_scan_iterator_mtable_def)
  moreover have "changes {} (new_cost sch + length rs * row_cost sch as) h h'"
    by (rule changes_trans [OF n(4) z(4)]) (use n(3) in \<open>simp add: qi_space_def\<close>)
  moreover have "fresh h (qi_space F1 Fs)"
  proof -
    have "fresh h (qi_space F1 Fs - qi_space F (\<lambda>_. {}))" using fresh_changes [OF n(4) z(5)] by simp
    then show ?thesis using n(3) unfolding fresh_def qi_space_def by blast
  qed
  ultimately show ?thesis using z(2,3) by auto
qed

end
