(* ===== verification/DB_Join.thy ===== *)
theory DB_Join
  imports DB_IndexScan
begin

text \<open>
  The index join over any source of outer rows and an index of queues of inner tuples. Each match is
  taken out of its queue, so an inner row joins with the first outer row of its key only; the
  specification \<open>join_spec\<close> says so.
\<close>

section \<open>The specification\<close>

text \<open>The outer row, then the inner row's columns that are not joined on.\<close>

definition merge_row :: "attribute list \<Rightarrow> attribute list \<Rightarrow> cword list \<Rightarrow> cword list \<Rightarrow> cword list" where
  "merge_row iattrs ijoin r i =
     r @ map (\<lambda>l. i ! attr_pos iattrs (attr_id l)) (filter (\<lambda>l. attr_id l \<notin> ids ijoin) iattrs)"

fun join_spec :: "(cword list \<Rightarrow> akey) \<Rightarrow> (cword list \<Rightarrow> cword list \<Rightarrow> cword list) \<Rightarrow> (akey \<Rightarrow> cword list list) \<Rightarrow>
    cword list list \<Rightarrow> cword list list" where
  "join_spec key mrg R [] = []"
| "join_spec key mrg R (r # rs) = map (mrg r) (R (key r)) @ join_spec key mrg (R(key r := [])) rs"

text \<open>With distinct outer keys this is the join.\<close>

lemma join_spec_distinct:
  "distinct (map key rs) \<Longrightarrow> (\<And>r. r \<in> set rs \<Longrightarrow> R (key r) = R' (key r)) \<Longrightarrow>
   join_spec key mrg R rs = concat (map (\<lambda>r. map (mrg r) (R' (key r))) rs)"
proof (induction rs arbitrary: R)
  case (Cons r rs)
  have "join_spec key mrg (R(key r := [])) rs = concat (map (\<lambda>r. map (mrg r) (R' (key r))) rs)"
  proof (rule Cons.IH)
    show "distinct (map key rs)" using Cons.prems(1) by simp
    fix x assume x: "x \<in> set rs"
    have "key r \<notin> key ` set rs" using Cons.prems(1) by simp
    then have "key x \<noteq> key r" using x by (metis imageI)
    then show "(R(key r := [])) (key x) = R' (key x)" using Cons.prems(2) x by simp
  qed
  then show ?case using Cons.prems(2) by simp
qed simp

section \<open>Copying the inner columns\<close>

lemma array_set_append: "length xs = n \<Longrightarrow> array_set (xs @ y # ys) (int n) v = Some (xs @ v # ys)"
  by auto

lemma copy_inner_ok:
  assumes "attrs_ok iattrs" "ijoin \<noteq> []" "set ijoin \<subseteq> set iattrs" "distinct (map attr_id ijoin)" "length ijoin < 2 ^ 31"
    "length it \<ge> length iattrs" "set ls \<subseteq> set iattrs" "length pre = olen + n"
    "length (filter (\<lambda>l. attr_id l \<notin> ids ijoin) ls) \<le> length junk"
  shows "copy_inner iattrs ijoin it olen ls n (pre @ junk) =
    Some (pre @ map (\<lambda>l. it ! attr_pos iattrs (attr_id l)) (filter (\<lambda>l. attr_id l \<notin> ids ijoin) ls) @
      drop (length (filter (\<lambda>l. attr_id l \<notin> ids ijoin) ls)) junk)"
  using assms(7-9)
proof (induction ls arbitrary: n pre junk)
  case (Cons l ls)
  have l: "l \<in> set iattrs" using Cons.prems(1) by simp
  have o: "get_offset iattrs (attr_id l) (attr_dom l) = Some (int (attr_pos iattrs (attr_id l)))"
    by (rule get_offset_found [OF assms(1) l])
  have pos: "attr_pos iattrs (attr_id l) < length iattrs" using attr_pos_less l by blast
  show ?case
  proof (cases "attr_id l \<in> ids ijoin")
    case True
    then obtain j where j: "j \<in> set ijoin" "attr_id j = attr_id l" by auto
    have "j = l" using j l assms(1,3) attr_pos_self [of j iattrs] attr_pos_self [of l iattrs]
      by (metis attrs_ok_def subset_iff)
    moreover have "attrs_ok ijoin" using assms(2,4,5) by (simp add: attrs_ok_def)
    ultimately have "get_offset ijoin (attr_id l) (attr_dom l) = Some (int (attr_pos ijoin (attr_id l)))"
      using get_offset_found j(1) by blast
    then show ?thesis using o True Cons.IH [OF _ Cons.prems(2)] Cons.prems(1,3) by simp
  next
    case False
    have m: "get_offset ijoin (attr_id l) (attr_dom l) = Some (- 1)" by (rule get_offset_missing [OF assms(2) False])
    obtain y junk' where jk: "junk = y # junk'" using Cons.prems(3) False by (cases junk) auto
    have "attr_pos iattrs (attr_id l) < 2 ^ 31" using pos assms(1) by (simp add: attrs_ok_def)
    then have f: "field it (int (attr_pos iattrs (attr_id l))) = Some (it ! attr_pos iattrs (attr_id l))"
      using field_nat pos assms(6) by simp
    let ?x = "it ! attr_pos iattrs (attr_id l)"
    have s: "array_set (pre @ junk) (int (olen + n)) ?x = Some ((pre @ [?x]) @ junk')"
      using array_set_append [OF Cons.prems(2)] jk by simp
    have "copy_inner iattrs ijoin it olen ls (n + 1) ((pre @ [?x]) @ junk') =
      Some ((pre @ [?x]) @ map (\<lambda>l. it ! attr_pos iattrs (attr_id l)) (filter (\<lambda>l. attr_id l \<notin> ids ijoin) ls) @
        drop (length (filter (\<lambda>l. attr_id l \<notin> ids ijoin) ls)) junk')"
      by (rule Cons.IH) (use Cons.prems False jk in auto)
    then show ?thesis using o m f s False jk by (simp del: of_nat_add append.assoc append_assoc)
  qed
qed simp

lemma kept_columns:
  assumes "attrs_ok iattrs" "set ijoin \<subseteq> set iattrs" "distinct (map attr_id ijoin)"
  shows "length (filter (\<lambda>l. attr_id l \<notin> ids ijoin) iattrs) + length ijoin = length iattrs"
proof -
  have d: "distinct (map attr_id iattrs)" "distinct iattrs" using assms(1) by (auto simp: attrs_ok_def distinct_map)
  have "set (filter (\<lambda>l. attr_id l \<in> ids ijoin) iattrs) = set ijoin"
  proof
    show "set (filter (\<lambda>l. attr_id l \<in> ids ijoin) iattrs) \<subseteq> set ijoin"
    proof
      fix l assume "l \<in> set (filter (\<lambda>l. attr_id l \<in> ids ijoin) iattrs)"
      then obtain j where j: "l \<in> set iattrs" "j \<in> set ijoin" "attr_id j = attr_id l" by auto
      then have "j = l" using d(1) assms(2) by (metis (mono_tags, lifting) distinct_map inj_on_def subset_iff)
      then show "l \<in> set ijoin" using j(2) by simp
    qed
  qed (use assms(2) in auto)
  then have "length (filter (\<lambda>l. attr_id l \<in> ids ijoin) iattrs) = card (set ijoin)"
    using d(2) by (metis distinct_card distinct_filter)
  also have "\<dots> = length ijoin" using assms(3) by (simp add: distinct_card distinct_map)
  finally show ?thesis using sum_length_filter_compl [of "\<lambda>l. attr_id l \<in> ids ijoin" iattrs] by simp
qed

section \<open>The state of a join\<close>

definition join_static :: "'e index_join_env \<Rightarrow> schema \<Rightarrow> bool" where
  "join_static e sch \<longleftrightarrow> attrs_ok (outer_attrs e) \<and> attrs_ok (inner_attrs e) \<and>
     outer_join_attrs e \<noteq> [] \<and> set (outer_join_attrs e) \<subseteq> set (outer_attrs e) \<and>
     inner_join_attrs e \<noteq> [] \<and> set (inner_join_attrs e) \<subseteq> set (inner_attrs e) \<and>
     distinct (map attr_id (inner_join_attrs e)) \<and> length (inner_join_attrs e) < 2 ^ 31 \<and>
     map attr_dom (outer_join_attrs e) = map attr_dom (inner_join_attrs e) \<and>
     get_schema (inner_join_attrs e) = Some sch \<and> ind_on_inner_sch e = Some sch"

definition same_static :: "'e index_join_env \<Rightarrow> 'e index_join_env \<Rightarrow> bool" where
  "same_static e e' \<longleftrightarrow> outer_attrs e' = outer_attrs e \<and> inner_attrs e' = inner_attrs e \<and>
     outer_join_attrs e' = outer_join_attrs e \<and> inner_join_attrs e' = inner_join_attrs e \<and>
     ind_on_inner e' = ind_on_inner e \<and> ind_on_inner_sch e' = ind_on_inner_sch e"

definition join_key :: "(cword \<Rightarrow> string) \<Rightarrow> 'e index_join_env \<Rightarrow> cword list \<Rightarrow> akey" where
  "join_key st e r = row_key st (outer_attrs e) r (outer_join_attrs e)"

definition join_merge :: "'e index_join_env \<Rightarrow> cword list \<Rightarrow> cword list \<Rightarrow> cword list" where
  "join_merge e = merge_row (inner_attrs e) (inner_join_attrs e)"

text \<open>The outer source has the rows \<open>os\<close> left; the queue of key \<open>k\<close> holds the inner rows \<open>R k\<close>.\<close>

definition join_parts :: "(cword \<Rightarrow> string) \<Rightarrow> 'e methods \<Rightarrow>
    ('e \<Rightarrow> theap \<Rightarrow> cword set \<Rightarrow> nat \<Rightarrow> cword list list \<Rightarrow> bool) \<Rightarrow> schema \<Rightarrow> 'e index_join_env \<Rightarrow> theap \<Rightarrow> cword set \<Rightarrow> nat \<Rightarrow>
    cword list list \<Rightarrow> cword set \<Rightarrow> (akey \<Rightarrow> cword) \<Rightarrow> (akey \<Rightarrow> cword set) \<Rightarrow> (akey \<Rightarrow> cword list) \<Rightarrow>
    (akey \<Rightarrow> cword list list) \<Rightarrow> bool" where
  "join_parts st mt rows sch e h Fo no os F1 m1 Fs qs R \<longleftrightarrow> join_static e sch \<and> mtable (outer e) = mt \<and>
     rows (env (outer e)) h Fo no os \<and> queue_index sch h (ind_on_inner e) F1 m1 Fs qs \<and>
     (\<forall>k. list_all2 (tuple_is h) (qs k) (R k)) \<and> (\<forall>r\<in>set os. row_ok st h (outer_attrs e) r) \<and>
     (\<forall>k. \<forall>r\<in>set (R k). length r = length (inner_attrs e)) \<and> Fo \<inter> qi_space F1 Fs = {}"

text \<open>The matches of the current outer row \<open>r\<close> still to come, and the queues without them.\<close>

definition join_pending :: "'e index_join_env \<Rightarrow> theap \<Rightarrow> (akey \<Rightarrow> cword) \<Rightarrow> (akey \<Rightarrow> cword list list) \<Rightarrow>
    cword list list \<Rightarrow> (akey \<Rightarrow> cword list list) \<Rightarrow> cword list \<Rightarrow> bool" where
  "join_pending e h m1 R pend rest r \<longleftrightarrow> (current_inner e = 0 \<and> pend = [] \<and> rest = R) \<or>
     (\<exists>k. current_inner e = m1 k \<and> m1 k \<noteq> 0 \<and> pend = R k \<and> rest = R(k := []) \<and>
        (R k \<noteq> [] \<longrightarrow> current_outer e \<noteq> 0 \<and> tuple_is h (current_outer e) r \<and> length r = length (outer_attrs e)))"

definition join_rows :: "(cword \<Rightarrow> string) \<Rightarrow> 'e methods \<Rightarrow>
    ('e \<Rightarrow> theap \<Rightarrow> cword set \<Rightarrow> nat \<Rightarrow> cword list list \<Rightarrow> bool) \<Rightarrow> 'e index_join_env \<Rightarrow> theap \<Rightarrow> cword set \<Rightarrow> nat \<Rightarrow>
    cword list list \<Rightarrow> bool" where
  "join_rows st mt rows e h F n rs \<longleftrightarrow> (\<exists>sch Fo no os F1 m1 Fs qs R pend rest r.
     join_parts st mt rows sch e h Fo no os F1 m1 Fs qs R \<and> join_pending e h m1 R pend rest r \<and>
     F = Fo \<union> qi_space F1 Fs \<and> no + length os * length (outer_join_attrs e) + length rs \<le> n \<and>
     rs = map (join_merge e r) pend @ join_spec (join_key st e) (join_merge e) rest os)"

definition join_ready :: "(cword \<Rightarrow> string) \<Rightarrow> 'e methods \<Rightarrow>
    ('e \<Rightarrow> theap \<Rightarrow> cword set \<Rightarrow> nat \<Rightarrow> cword list list \<Rightarrow> bool) \<Rightarrow> 'e index_join_env \<Rightarrow> theap \<Rightarrow> cword set \<Rightarrow> nat \<Rightarrow>
    cword list list \<Rightarrow> bool" where
  "join_ready st mt ready e h F n rs \<longleftrightarrow> (\<exists>sch Fo no os F1 m1 Fs qs R.
     join_parts st mt ready sch e h Fo no os F1 m1 Fs qs R \<and>
     F = Fo \<union> qi_space F1 Fs \<and> no + length os * length (outer_join_attrs e) + length rs \<le> n \<and>
     rs = join_spec (join_key st e) (join_merge e) R os)"

lemma join_partsD:
  assumes "join_parts st mt rows sch e h Fo no os F1 m1 Fs qs R"
  shows "join_static e sch" "mtable (outer e) = mt" "rows (env (outer e)) h Fo no os"
    "queue_index sch h (ind_on_inner e) F1 m1 Fs qs" "list_all2 (tuple_is h) (qs k) (R k)"
    "\<forall>r\<in>set os. row_ok st h (outer_attrs e) r" "\<forall>r\<in>set (R k). length r = length (inner_attrs e)"
    "Fo \<inter> qi_space F1 Fs = {}"
  using assms unfolding join_parts_def by blast+

lemma join_staticD:
  assumes "join_static e sch"
  shows "attrs_ok (outer_attrs e)" "attrs_ok (inner_attrs e)" "outer_join_attrs e \<noteq> []"
    "set (outer_join_attrs e) \<subseteq> set (outer_attrs e)" "inner_join_attrs e \<noteq> []"
    "set (inner_join_attrs e) \<subseteq> set (inner_attrs e)" "distinct (map attr_id (inner_join_attrs e))"
    "length (inner_join_attrs e) < 2 ^ 31" "get_schema (outer_join_attrs e) = Some sch"
    "ind_on_inner_sch e = Some sch"
proof -
  have "get_schema (outer_join_attrs e) = get_schema (inner_join_attrs e)"
    by (rule get_schema_same) (use assms in \<open>simp add: join_static_def\<close>)
  then show "get_schema (outer_join_attrs e) = Some sch" using assms by (simp add: join_static_def)
qed (use assms in \<open>simp_all add: join_static_def\<close>)

lemma pending_empty: "join_pending e h m1 R [] rest r \<Longrightarrow> rest = R"
  unfolding join_pending_def by (metis fun_upd_idem)

lemma pending_frame:
  "join_pending e h m1 R pend rest r \<Longrightarrow> changes G n h h' \<Longrightarrow> join_pending e h' m1 R pend rest r"
  unfolding join_pending_def using tuple_is_frame by blast

lemma pending_head:
  assumes "join_pending e h m1 R (i # pend) rest r"
  shows "\<exists>k. current_inner e = m1 k \<and> m1 k \<noteq> 0 \<and> R k = i # pend \<and> rest = R(k := []) \<and> current_outer e \<noteq> 0 \<and>
     tuple_is h (current_outer e) r \<and> length r = length (outer_attrs e)"
  using assms unfolding join_pending_def by auto

lemma pending_again:
  assumes "join_pending e h m1 R pend rest r" "queue_index sch h ind F1 m1 Fs qs"
    "\<And>k. list_all2 (tuple_is h) (qs k) (R k)"
  shows "(if current_inner e = 0 then Some True else fifo_empty h (current_inner e)) = Some (pend = [])"
proof (cases "current_inner e = 0")
  case True
  then show ?thesis using assms(1) by (auto simp: join_pending_def)
next
  case False
  then obtain k where k: "current_inner e = m1 k" "m1 k \<noteq> 0" "pend = R k" using assms(1) by (auto simp: join_pending_def)
  have "fifo_empty h (m1 k) = Some (qs k = [])" by (rule fifo.empty_rep [OF queue_indexD(2) [OF assms(2) k(2)]])
  moreover have "qs k = [] \<longleftrightarrow> R k = []" using assms(3) [of k] by auto
  ultimately show ?thesis using False k by simp
qed

lemma pending_lookup:
  assumes "queue_index sch h ind F1 m1 Fs qs" "\<And>k. list_all2 (tuple_is h) (qs k) (R k)"
    "t \<noteq> 0" "tuple_is h t r" "length r = length (outer_attrs e)"
  shows "join_pending (e\<lparr>current_outer := t, current_inner := m1 k\<rparr>) h m1 R (R k) (R(k := [])) r"
proof (cases "m1 k = 0")
  case True
  then have "R k = []" using queue_indexD(4) [OF assms(1) True] assms(2) [of k] by simp
  moreover from this have "R(k := []) = R" by (rule fun_upd_idem)
  ultimately show ?thesis using True by (simp add: join_pending_def)
next
  case False
  then show ?thesis using assms(3-5) unfolding join_pending_def by auto
qed

end
