(* ===== verification/DB_JoinRun.thy ===== *)
theory DB_JoinRun
  imports DB_Join
begin

text \<open>
  The index join keeps the contract of a source of rows, whatever its outer source is: the loop that
  advances the outer iterator, then one merged tuple.
\<close>

lemma pending_none:
  assumes "join_pending e h m1 R [] rest r" "current_inner e' = current_inner e"
  shows "join_pending e' h' m1 R [] R r"
proof -
  have "current_inner e = 0 \<or> (\<exists>k. current_inner e = m1 k \<and> m1 k \<noteq> 0 \<and> R k = [])"
    using assms(1) unfolding join_pending_def by auto
  moreover have "R = R(k := [])" if "R k = []" for k using fun_upd_idem [of R k "[]"] that by simp
  ultimately show ?thesis unfolding join_pending_def assms(2) by metis
qed

section \<open>Writing the merged tuple\<close>

lemma poke_new_changes:
  assumes "changes G n h h'" "tmem h p = None" "tmem h' p \<noteq> None"
  shows "changes G n h (poke h' p ob)"
proof -
  have "heap_ok (poke h' p ob)"
    using changesD(1) [OF assms(1)] assms(3) unfolding heap_ok_def by simp
  then show ?thesis using assms(1,2) by (auto simp: changes_def)
qed

lemma fifo_rep_poke:
  assumes "fifo_rep h q F ds" "p \<notin> F"
  shows "fifo_rep (poke h p ob) q F ds"
proof -
  obtain es hd_p tl_p where parts: "fifo_parts h q F es hd_p tl_p" "ds = map snd es"
    using assms(1) by (auto simp: fifo_rep_def)
  note r = fifo_partsD [OF parts(1)]
  have "echain (poke h p ob) hd_p es" by (rule echain_same [OF r(2)]) (use r(6) assms(2) in auto)
  moreover have "tmem (poke h p ob) q = tmem h q" using r(5) assms(2) by auto
  moreover have "\<forall>a\<in>F. tmem (poke h p ob) a \<noteq> None" using r(7) by auto
  ultimately have "fifo_parts (poke h p ob) q F es hd_p tl_p" using parts(1) unfolding fifo_parts_def by simp
  then show ?thesis using parts(2) unfolding fifo_rep_def by blast
qed

lemma buffer_size:
  assumes "attrs_ok as" "attrs_ok bs" "length js \<le> length bs"
  shows "unat (attribute_list_length as + attribute_list_length bs - attribute_list_length js + 1) =
    length as + length bs - length js + 1" "unat (attribute_list_length as) = length as"
proof -
  let ?n = "length as + length bs - length js + 1"
  have "attribute_list_length as + attribute_list_length bs - attribute_list_length js + 1 = (word_of_nat ?n :: u64)"
    using assms(3) by (simp add: attribute_list_length_nat of_nat_diff)
  moreover have "?n < 2 ^ 64" "length as < 2 ^ 64" using assms(1,2) by (auto simp: attrs_ok_def)
  ultimately show "unat (attribute_list_length as + attribute_list_length bs - attribute_list_length js + 1) = ?n"
    "unat (attribute_list_length as) = length as"
    by (simp_all only: attribute_list_length_nat unat_of_nat take_bit_nat_eq_self word_size)
      (simp_all add: take_bit_nat_eq_self)
qed

lemma tuple_at_eq: "tuple_at h p = Some t \<longleftrightarrow> tmem h p = Some (Tuple t)"
  by (auto simp: tuple_at_def split: option.splits cobj.splits)

text \<open>The merged tuple is new and holds the merged row; one element has left the queue.\<close>

lemma join_emit_ok:
  assumes st: "join_static e sch" and out: "tuple_is h (current_outer e) r" "length r = length (outer_attrs e)"
    and q: "fifo_rep h (current_inner e) Q (d # ds)" and inn: "tuple_is h d i" "length i = length (inner_attrs e)"
    and ok: "heap_ok h" and room: "tbrk h + 1 \<le> 2 ^ 64"
  shows "\<exists>p h'. join_emit e h = Some (p, e, h') \<and> p \<noteq> 0 \<and> tuple_is h' p (join_merge e r i) \<and>
     fifo_rep h' (current_inner e) Q ds \<and> changes Q 1 h h'"
proof -
  note sd = join_staticD [OF st]
  let ?O = "outer_attrs e" and ?I = "inner_attrs e" and ?K = "inner_join_attrs e"
  let ?kept = "filter (\<lambda>l. attr_id l \<notin> ids ?K) ?I"
  have kept: "length ?kept + length ?K = length ?I" by (rule kept_columns [OF sd(2,6,7)])
  let ?buf = "replicate (length ?O + length ?I - length ?K + 1) (- 1) :: cword list"
  have lenK: "length ?K \<le> length ?I" using kept by simp
  note size = buffer_size [OF sd(1,2) lenK]
  have room': "tbrk h < 2 ^ 64" using room by simp
  obtain p h1 where m: "malloc_c h (Tuple ?buf) = (p, h1)" "p \<noteq> 0" "tmem h p = None" "tmem h1 = (tmem h)(p \<mapsto> Tuple ?buf)"
    "changes {} 1 h h1"
    using malloc_c_ok [OF ok room', of "Tuple ?buf"] by blast
  obtain x where x: "tmem h1 (current_outer e) = Some (Tuple (r @ x))"
    using tuple_is_frame [OF out(1) m(5)] by (auto simp: tuple_is_def)
  have q1: "fifo_rep h1 (current_inner e) Q (d # ds)" by (rule fifo.rep_frame [OF q m(5)]) simp
  obtain h2 where t: "fifo_take h1 (current_inner e) = Some (d, h2)" "fifo_rep h2 (current_inner e) Q ds" "changes Q 0 h1 h2"
    using fifo.get_rep [OF q1 changesD(1) [OF m(5)]] by blast
  obtain el elc where el: "fifo_get h1 (current_inner e) = Some (el, h2)" "elem_at h2 el = Some elc" "el_data elc = d"
    using t(1) by (auto simp: fifo_take_def bind_Some_iff)
  have c2: "changes Q 1 h h2" using changes_trans [OF changes_mono [OF m(5)] t(3), of Q 1] by (simp add: fresh_def)
  obtain y where y: "tmem h2 d = Some (Tuple (i @ y))" using tuple_is_frame [OF inn(1) c2] by (auto simp: tuple_is_def)
  have pQ: "p \<notin> Q" using fifo.rep_live [OF q, of p] m(3) by blast
  have p2: "tmem h2 p = Some (Tuple ?buf)" using changesD(3) [OF t(3), of p] pQ by (simp add: m(4))
  let ?junk = "replicate (length ?I - length ?K + 1) (- 1) :: cword list"
  have "length ?O + length ?I - length ?K + 1 - length ?O = length ?I - length ?K + 1" using lenK by simp
  then have "drop (length ?O) ?buf = ?junk" by (simp only: drop_replicate)
  moreover have "length ?O \<le> length ?buf" using lenK by simp
  ultimately have cp1: "memcpy_words ?buf (r @ x) (length ?O) = Some (r @ ?junk)"
    using out(2) by (simp only: memcpy_words_def) simp
  have junk: "length ?kept \<le> length ?junk" using kept by simp
  have cp2: "copy_inner ?I ?K (i @ y) (length ?O) ?I 0 (r @ ?junk) =
      Some (r @ map (\<lambda>l. (i @ y) ! attr_pos ?I (attr_id l)) ?kept @ drop (length ?kept) ?junk)"
    by (rule copy_inner_ok [OF sd(2,5,6,7,8)]) (use inn(2) out(2) junk in simp_all)
  have "map (\<lambda>l. (i @ y) ! attr_pos ?I (attr_id l)) ?kept = map (\<lambda>l. i ! attr_pos ?I (attr_id l)) ?kept"
    using attr_pos_less inn(2) by (auto simp: nth_append)
  then have cp3: "copy_inner ?I ?K (i @ y) (length ?O) ?I 0 (r @ ?junk) =
      Some (join_merge e r i @ drop (length ?kept) ?junk)"
    using cp2 by (simp add: join_merge_def merge_row_def)
  let ?h = "poke h2 p (Tuple (join_merge e r i @ drop (length ?kept) ?junk))"
  have "join_emit e h = Some (p, e, ?h)"
    using m(1,2) x y el cp1 cp3 size by (simp add: join_emit_def Let_def tuple_at_def)
  moreover have "changes Q 1 h ?h" by (rule poke_new_changes [OF c2 m(3)]) (simp add: p2)
  moreover have "fifo_rep ?h (current_inner e) Q ds" by (rule fifo_rep_poke [OF t(2) pQ])
  moreover have "tuple_is ?h p (join_merge e r i)" by (auto simp: tuple_is_def)
  ultimately show ?thesis using m(2) by blast
qed

context row_source begin

section \<open>Advancing the outer iterator\<close>

lemma outer_get_next:
  assumes "mtable (outer e) = mt"
  shows "get_next (outer e) h = map_option (\<lambda>(t, e', h). (t, (outer e)\<lparr>env := e'\<rparr>, h)) (m_next mt (env (outer e)) h)"
  using assms by (cases "m_next mt (env (outer e)) h") (auto simp: get_next_def)

lemma join_parts_moved:
  assumes "join_parts st mt rows sch e h Fo no os F1 m1 Fs qs R" "changes G n h h'" "G \<inter> qi_space F1 Fs = {}"
    "rows eo h' Fo' no' os'" "set os' \<subseteq> set os" "Fo \<subseteq> Fo'" "fresh h (Fo' - Fo)"
  shows "join_parts st mt rows sch (e\<lparr>outer := (outer e)\<lparr>env := eo\<rparr>, current_outer := t, current_inner := q\<rparr>) h'
     Fo' no' os' F1 m1 Fs qs R"
proof -
  note d = join_partsD [OF assms(1)]
  have "list_all2 (tuple_is h') (qs k) (R k)" for k
    using d(5) by (rule list_all2_mono) (rule tuple_is_frame [OF _ assms(2)])
  moreover have "\<forall>r\<in>set os'. row_ok st h' (outer_attrs e) r" using d(6) assms(5) row_ok_frame [OF _ assms(2)] by blast
  moreover have "Fo' \<inter> qi_space F1 Fs = {}"
    using d(8) fresh_disjoint [OF assms(7) queue_index_live [OF d(4)]] assms(6) by blast
  ultimately show ?thesis
    using d(1,2,7) queue_index_frame [OF d(4) assms(2,3)] assms(4) unfolding join_parts_def by (simp add: join_static_def)
qed

definition join_end :: "(cword \<Rightarrow> string) \<Rightarrow> 'e index_join_env \<Rightarrow> theap \<Rightarrow> cword set \<Rightarrow> nat \<Rightarrow> cword list list \<Rightarrow> schema \<Rightarrow>
    cword set \<Rightarrow> (akey \<Rightarrow> cword) \<Rightarrow> (akey \<Rightarrow> cword set) \<Rightarrow> (akey \<Rightarrow> cword list) \<Rightarrow> (akey \<Rightarrow> cword list list) \<Rightarrow>
    cword list list \<Rightarrow> ('e index_join_env \<times> theap \<times> cword set \<times> nat \<times> cword list list \<times> cword list list \<times>
      (akey \<Rightarrow> cword list list) \<times> cword list \<times> nat) \<Rightarrow> bool" where
  "join_end st e h Fo no os sch F1 m1 Fs qs R rs = (\<lambda>(e', h', Fo', no', os', pend, rest, r, k).
     join_loop e h = Some (e', h') \<and> same_static e e' \<and>
     join_parts st mt rows sch e' h' Fo' no' os' F1 m1 Fs qs R \<and> join_pending e' h' m1 R pend rest r \<and>
     rs = map (join_merge e r) pend @ join_spec (join_key st e) (join_merge e) rest os' \<and>
     (pend = [] \<longrightarrow> current_outer e' = 0 \<and> os' = []) \<and> Fo \<subseteq> Fo' \<and> fresh h (Fo' - Fo) \<and> changes Fo k h h' \<and>
     k + no' + length os' * length (outer_join_attrs e) \<le> no + length os * length (outer_join_attrs e))"

lemma join_loop_rows:
  assumes "join_parts st mt rows sch e h Fo no os F1 m1 Fs qs R" "join_pending e h m1 R pend rest r" "heap_ok h"
    "tbrk h + no + length os * length (outer_join_attrs e) \<le> 2 ^ 64"
  shows "\<exists>x. join_end st e h Fo no os sch F1 m1 Fs qs R
     (map (join_merge e r) pend @ join_spec (join_key st e) (join_merge e) rest os) x"
  using assms
proof (induction os arbitrary: e h Fo no pend rest r)
  case Nil
  note d = join_partsD [OF Nil.prems(1)]
  note again = pending_again [OF Nil.prems(2) d(4,5)]
  show ?case
  proof (cases "pend = []")
    case False
    have "join_loop e h = Some (e, h)" using again False by (subst join_loop.simps) simp
    then show ?thesis
      using Nil.prems(1,2) False changes_mono [OF changes_refl [OF Nil.prems(3)], of Fo 0]
      by (intro exI [of _ "(e, h, Fo, no, [], pend, rest, r, 0)"])
        (simp add: join_end_def same_static_def fresh_def)
  next
    case True
    have room: "tbrk h + no \<le> 2 ^ 64" using Nil.prems(4) by simp
    obtain eo h' Fo' k where x: "m_next mt (env (outer e)) h = Some (0, eo, h')" "k \<le> no" "rows eo h' Fo' (no - k) []"
      "Fo \<subseteq> Fo'" "fresh h (Fo' - Fo)" "changes Fo k h h'"
      using next_end [OF d(3) Nil.prems(3) room] by blast
    let ?e = "e\<lparr>outer := (outer e)\<lparr>env := eo\<rparr>, current_outer := 0, current_inner := current_inner e\<rparr>"
    have "join_loop e h = Some (?e, h')"
      using again True x(1) by (subst join_loop.simps) (simp add: outer_get_next [OF d(2)])
    moreover have "join_parts st mt rows sch ?e h' Fo' (no - k) [] F1 m1 Fs qs R"
      by (rule join_parts_moved [OF Nil.prems(1) x(6) d(8) x(3) _ x(4,5)]) simp
    moreover have "join_pending ?e h' m1 R [] R r"
      by (rule pending_none [OF Nil.prems(2) [unfolded True]]) simp
    ultimately show ?thesis
      using x(2,4-6) True
      by (intro exI [of _ "(?e, h', Fo', no - k, [], [], R, r, k)"]) (simp add: join_end_def same_static_def)
  qed
next
  case (Cons o1 os)
  note d = join_partsD [OF Cons.prems(1)]
  note sd = join_staticD [OF d(1)]
  note again = pending_again [OF Cons.prems(2) d(4,5)]
  let ?J = "length (outer_join_attrs e)"
  show ?case
  proof (cases "pend = []")
    case False
    have "join_loop e h = Some (e, h)" using again False by (subst join_loop.simps) simp
    then show ?thesis
      using Cons.prems(1,2) False changes_mono [OF changes_refl [OF Cons.prems(3)], of Fo 0]
      by (intro exI [of _ "(e, h, Fo, no, o1 # os, pend, rest, r, 0)"])
        (simp add: join_end_def same_static_def fresh_def)
  next
    case True
    have rest: "rest = R" using pending_empty Cons.prems(2) True by blast
    have room: "tbrk h + no \<le> 2 ^ 64" using Cons.prems(4) by simp
    obtain t eo h1 Fo1 k1 where x: "m_next mt (env (outer e)) h = Some (t, eo, h1)" "t \<noteq> 0" "tuple_is h1 t o1" "k1 \<le> no"
      "rows eo h1 Fo1 (no - k1) os" "Fo \<subseteq> Fo1" "fresh h (Fo1 - Fo)" "changes Fo k1 h h1"
      using next_row [OF d(3) Cons.prems(3) room] by blast
    have row: "row_ok st h1 (outer_attrs e) o1" using d(6) row_ok_frame [OF _ x(8)] by simp
    have room1: "tbrk h1 + length (outer_join_attrs e) \<le> 2 ^ 64"
      using changesD(2) [OF x(8)] x(4) Cons.prems(4) by simp
    obtain proj h2 where p: "get_projection h1 (outer_attrs e) t (outer_join_attrs e) = Some (proj, h2)"
      "index_key sch h2 proj (join_key st e o1)" "changes {} ?J h1 h2"
      using get_projection_ok [OF sd(1,3,4) row x(3) changesD(1) [OF x(8)] room1] sd(9) by (auto simp: join_key_def)
    have c: "changes Fo (k1 + ?J) h h2"
      by (rule changes_trans [OF x(8) p(3)]) (simp add: fresh_def)
    have rows2: "rows eo h2 Fo1 (no - k1) os" by (rule rows_frame [OF x(5) p(3)]) simp
    let ?k = "join_key st e o1"
    let ?e = "e\<lparr>outer := (outer e)\<lparr>env := eo\<rparr>, current_outer := t, current_inner := m1 ?k\<rparr>"
    have parts2: "join_parts st mt rows sch ?e h2 Fo1 (no - k1) os F1 m1 Fs qs R"
      by (rule join_parts_moved [OF Cons.prems(1) c d(8) rows2 _ x(6,7)]) auto
    note d2 = join_partsD [OF parts2]
    have len: "length o1 = length (outer_attrs e)" using row by (simp add: row_ok_def)
    have pend2: "join_pending ?e h2 m1 R (R ?k) (R(?k := [])) o1"
      using pending_lookup [OF d2(4,5) x(2) tuple_is_frame [OF x(3) p(3)], of "e\<lparr>outer := (outer e)\<lparr>env := eo\<rparr>\<rparr>" ?k] len
      by simp
    have room2: "tbrk h2 + (no - k1) + length os * length (outer_join_attrs ?e) \<le> 2 ^ 64"
      using changesD(2) [OF c] x(4) Cons.prems(4) by simp
    obtain z where z: "join_end st ?e h2 Fo1 (no - k1) os sch F1 m1 Fs qs R
        (map (join_merge ?e o1) (R ?k) @ join_spec (join_key st ?e) (join_merge ?e) (R(?k := [])) os) z"
      using Cons.IH [OF parts2 pend2 changesD(1) [OF c] room2] by blast
    obtain e' h' Fo' no' os' pend' rest' r' k' where zz: "z = (e', h', Fo', no', os', pend', rest', r', k')" by (metis prod.collapse)
    have lk: "index_lookup sch h2 (ind_on_inner e) proj = Some (m1 ?k)"
      using index.look_rep [OF queue_indexD(1) [OF d2(4)]] p(2) by simp
    have "join_loop e h = join_loop ?e h2"
      using again True x(1,2) p(1) lk sd(10) by (subst join_loop.simps) (simp add: outer_get_next [OF d(2)])
    moreover have eqs: "join_merge ?e = join_merge e" "join_key st ?e = join_key st e"
      by (simp_all add: join_merge_def join_key_def fun_eq_iff)
    moreover have "changes Fo (k1 + ?J + k') h h'" "fresh h (Fo' - Fo)"
    proof -
      have "changes Fo1 k' h2 h'" "fresh h2 (Fo' - Fo1)" "Fo1 \<subseteq> Fo'" using z by (simp_all add: zz join_end_def)
      then show "changes Fo (k1 + ?J + k') h h'" using changes_trans [OF c _ x(7)] by blast
      have "fresh h (Fo' - Fo1)" by (rule fresh_changes [OF c \<open>fresh h2 (Fo' - Fo1)\<close>]) (use x(6) in blast)
      then show "fresh h (Fo' - Fo)" using x(7) unfolding fresh_def by blast
    qed
    ultimately show ?thesis
      using z x(4,6) True rest
      by (intro exI [of _ "(e', h', Fo', no', os', pend', rest', r', k1 + ?J + k')"])
        (auto simp: zz join_end_def same_static_def eqs)
  qed
qed

section \<open>One row of the join\<close>

lemma join_take:
  assumes "join_parts st mt rows sch e h Fo no os F1 m1 Fs qs R" "join_pending e h m1 R (i # pend) rest r"
    "heap_ok h" "tbrk h + 1 \<le> 2 ^ 64"
  shows "\<exists>p h' qs' R'. join_emit e h = Some (p, e, h') \<and> p \<noteq> 0 \<and> tuple_is h' p (join_merge e r i) \<and>
     join_parts st mt rows sch e h' Fo no os F1 m1 Fs qs' R' \<and> join_pending e h' m1 R' pend rest r \<and>
     changes (qi_space F1 Fs) 1 h h'"
proof -
  note d = join_partsD [OF assms(1)]
  obtain k where k: "current_inner e = m1 k" "m1 k \<noteq> 0" "R k = i # pend" "rest = R(k := [])" "current_outer e \<noteq> 0"
    "tuple_is h (current_outer e) r" "length r = length (outer_attrs e)"
    using pending_head [OF assms(2)] by blast
  have "list_all2 (tuple_is h) (qs k) (i # pend)" using d(5) [of k] k(3) by simp
  then obtain t ds where q: "qs k = t # ds" "tuple_is h t i" "list_all2 (tuple_is h) ds pend"
    by (auto simp: list_all2_Cons2)
  have fq: "fifo_rep h (current_inner e) (Fs k) (t # ds)" using queue_indexD(2) [OF d(4) k(2)] k(1) q(1) by simp
  have len: "length i = length (inner_attrs e)" using d(7) [of k] k(3) by simp
  obtain p h' where em: "join_emit e h = Some (p, e, h')" "p \<noteq> 0" "tuple_is h' p (join_merge e r i)"
    "fifo_rep h' (current_inner e) (Fs k) ds" "changes (Fs k) 1 h h'"
    using join_emit_ok [OF d(1) k(6,7) fq q(2) len assms(3,4)] by blast
  have sub: "Fs k \<subseteq> qi_space F1 Fs" unfolding qi_space_def by blast
  have qi: "queue_index sch h' (ind_on_inner e) F1 m1 Fs (qs(k := ds))"
  proof (rule queue_indexI)
    note qd = queue_indexD [OF d(4)]
    show "index_rep sch h' (ind_on_inner e) F1 m1"
      by (rule index.rep_frame [OF qd(1) em(5)]) (use qd(5) in blast)
    fix k'
    show "fifo_rep h' (m1 k') (Fs k') ((qs(k := ds)) k')" if "m1 k' \<noteq> 0"
    proof (cases "k' = k")
      case True
      then show ?thesis using em(4) k(1) by simp
    next
      case False
      have "fifo_rep h' (m1 k') (Fs k') (qs k')"
        by (rule fifo.rep_frame [OF qd(2) [OF that] em(5)]) (use qd(6) [of k k'] False in blast)
      then show ?thesis using False by simp
    qed
    show "Fs k' = {} \<and> (qs(k := ds)) k' = []" if "m1 k' = 0" using qd(3,4) [OF that] that k(2) by auto
    show "F1 \<inter> Fs k' = {}" by (rule qd(5))
    show "Fs k' \<inter> Fs k'' = {}" if "k' \<noteq> k''" for k'' by (rule qd(6) [OF that])
  qed
  have la: "list_all2 (tuple_is h') ((qs(k := ds)) k') ((R(k := pend)) k')" for k'
  proof -
    have "list_all2 (tuple_is h) ((qs(k := ds)) k') ((R(k := pend)) k')" using d(5) q(3) by simp
    then show ?thesis by (rule list_all2_mono) (rule tuple_is_frame [OF _ em(5)])
  qed
  have rw: "rows (env (outer e)) h' Fo no os"
    by (rule rows_frame [OF d(3) em(5)]) (use d(8) sub in blast)
  have "\<forall>k'. \<forall>x\<in>set ((R(k := pend)) k'). length x = length (inner_attrs e)"
  proof
    fix k'
    show "\<forall>x\<in>set ((R(k := pend)) k'). length x = length (inner_attrs e)"
      using d(7) [of k'] d(7) [of k] k(3) by (cases "k' = k") auto
  qed
  then have "join_parts st mt rows sch e h' Fo no os F1 m1 Fs (qs(k := ds)) (R(k := pend))"
    using d(1,2,8) rw qi la d(6) row_ok_frame [OF _ em(5)] unfolding join_parts_def by blast
  moreover have "join_pending e h' m1 (R(k := pend)) pend rest r"
    unfolding join_pending_def using k(1,2,4-7) tuple_is_frame [OF k(6) em(5)]
    by (intro disjI2 exI [of _ k]) simp
  moreover have "changes (qi_space F1 Fs) 1 h h'" by (rule changes_mono [OF em(5) sub]) simp
  ultimately show ?thesis using em(1-3) by blast
qed

lemma same_staticD:
  assumes "same_static e e'"
  shows "join_merge e' = join_merge e" "join_key st e' = join_key st e" "outer_join_attrs e' = outer_join_attrs e"
  using assms by (simp_all add: same_static_def join_merge_def join_key_def fun_eq_iff)

lemma join_endD:
  assumes "join_end st e h Fo no os sch F1 m1 Fs qs R rs (e1, h1, Fo1, no1, os1, pend1, rest1, r1, k)"
  shows "join_loop e h = Some (e1, h1)" "same_static e e1" "join_parts st mt rows sch e1 h1 Fo1 no1 os1 F1 m1 Fs qs R"
    "join_pending e1 h1 m1 R pend1 rest1 r1"
    "rs = map (join_merge e r1) pend1 @ join_spec (join_key st e) (join_merge e) rest1 os1"
    "pend1 = [] \<Longrightarrow> current_outer e1 = 0 \<and> os1 = []" "Fo \<subseteq> Fo1" "fresh h (Fo1 - Fo)" "changes Fo k h h1"
    "k + no1 + length os1 * length (outer_join_attrs e) \<le> no + length os * length (outer_join_attrs e)"
  using assms unfolding join_end_def by simp_all

lemma join_next_row:
  assumes "join_rows st mt rows e h F n (x # xs)" "heap_ok h" "tbrk h + n \<le> 2 ^ 64"
  shows "\<exists>p e' h' F' k. index_join_next e h = Some (p, e', h') \<and> p \<noteq> 0 \<and> tuple_is h' p x \<and> k \<le> n \<and>
     join_rows st mt rows e' h' F' (n - k) xs \<and> F \<subseteq> F' \<and> fresh h (F' - F) \<and> changes F k h h'"
proof -
  obtain sch Fo no os F1 m1 Fs qs R pend rest r where a: "join_parts st mt rows sch e h Fo no os F1 m1 Fs qs R"
    "join_pending e h m1 R pend rest r" "F = Fo \<union> qi_space F1 Fs"
    "no + length os * length (outer_join_attrs e) + length (x # xs) \<le> n"
    "x # xs = map (join_merge e r) pend @ join_spec (join_key st e) (join_merge e) rest os"
    using assms(1) unfolding join_rows_def by blast
  have room: "tbrk h + no + length os * length (outer_join_attrs e) \<le> 2 ^ 64" using a(4) assms(3) by simp
  obtain z where z: "join_end st e h Fo no os sch F1 m1 Fs qs R (x # xs) z"
    using join_loop_rows [OF a(1,2) assms(2) room] a(5) by metis
  obtain e1 h1 Fo1 no1 os1 pend1 rest1 r1 k where zz: "z = (e1, h1, Fo1, no1, os1, pend1, rest1, r1, k)"
    by (metis prod.collapse)
  note l = join_endD [OF z [unfolded zz]]
  note s = same_staticD [OF l(2)]
  obtain i pend2 where pend: "pend1 = i # pend2" using l(5,6) by (cases pend1) auto
  have x: "x = join_merge e r1 i" "xs = map (join_merge e r1) pend2 @ join_spec (join_key st e) (join_merge e) rest1 os1"
    using l(5) by (simp_all add: pend)
  have room1: "tbrk h1 + 1 \<le> 2 ^ 64" using changesD(2) [OF l(9)] l(10) a(4) assms(3) by simp
  obtain p h2 qs' R' where t: "join_emit e1 h1 = Some (p, e1, h2)" "p \<noteq> 0" "tuple_is h2 p (join_merge e1 r1 i)"
    "join_parts st mt rows sch e1 h2 Fo1 no1 os1 F1 m1 Fs qs' R'" "join_pending e1 h2 m1 R' pend2 rest1 r1"
    "changes (qi_space F1 Fs) 1 h1 h2"
    using join_take [OF l(3) l(4) [unfolded pend] changesD(1) [OF l(9)] room1] by blast
  have "current_outer e1 \<noteq> 0" using pending_head [OF l(4) [unfolded pend]] by blast
  then have "index_join_next e h = Some (p, e1, h2)" using l(1) t(1) by (simp add: index_join_next_def)
  moreover have "changes F (k + 1) h h2"
    by (rule changes_trans [OF changes_mono [OF l(9)] t(6)]) (use a(3) in \<open>auto simp: fresh_def\<close>)
  moreover have "join_rows st mt rows e1 h2 (Fo1 \<union> qi_space F1 Fs) (n - (k + 1)) xs"
  proof -
    have "no1 + length os1 * length (outer_join_attrs e1) + length xs \<le> n - (k + 1)"
      using l(10) a(4) s(3) by simp
    moreover have "xs = map (join_merge e1 r1) pend2 @ join_spec (join_key st e1) (join_merge e1) rest1 os1"
      using x(2) s(1,2) by simp
    ultimately show ?thesis unfolding join_rows_def using t(4,5) by blast
  qed
  moreover have "F \<subseteq> Fo1 \<union> qi_space F1 Fs" using a(3) l(7) by blast
  moreover have "fresh h (Fo1 \<union> qi_space F1 Fs - F)" using a(3) l(8) unfolding fresh_def by blast
  moreover have "tuple_is h2 p x" using t(3) x(1) s(1) by simp
  moreover have "k + 1 \<le> n" using l(10) a(4) by simp
  ultimately show ?thesis using t(2) by blast
qed

lemma join_next_end:
  assumes "join_rows st mt rows e h F n []" "heap_ok h" "tbrk h + n \<le> 2 ^ 64"
  shows "\<exists>e' h' F' k. index_join_next e h = Some (0, e', h') \<and> k \<le> n \<and> join_rows st mt rows e' h' F' (n - k) [] \<and>
     F \<subseteq> F' \<and> fresh h (F' - F) \<and> changes F k h h'"
proof -
  obtain sch Fo no os F1 m1 Fs qs R pend rest r where a: "join_parts st mt rows sch e h Fo no os F1 m1 Fs qs R"
    "join_pending e h m1 R pend rest r" "F = Fo \<union> qi_space F1 Fs"
    "no + length os * length (outer_join_attrs e) + length ([] :: cword list list) \<le> n"
    "[] = map (join_merge e r) pend @ join_spec (join_key st e) (join_merge e) rest os"
    using assms(1) unfolding join_rows_def by blast
  have room: "tbrk h + no + length os * length (outer_join_attrs e) \<le> 2 ^ 64" using a(4) assms(3) by simp
  obtain z where z: "join_end st e h Fo no os sch F1 m1 Fs qs R [] z"
    using join_loop_rows [OF a(1,2) assms(2) room] a(5) by metis
  obtain e1 h1 Fo1 no1 os1 pend1 rest1 r1 k where zz: "z = (e1, h1, Fo1, no1, os1, pend1, rest1, r1, k)"
    by (metis prod.collapse)
  note l = join_endD [OF z [unfolded zz]]
  note s = same_staticD [OF l(2)]
  have "pend1 = []" using l(5) by simp
  then have "index_join_next e h = Some (0, e1, h1)" using l(1,6) by (simp add: index_join_next_def)
  moreover have "changes F k h h1" by (rule changes_mono [OF l(9)]) (use a(3) in auto)
  moreover have "join_rows st mt rows e1 h1 (Fo1 \<union> qi_space F1 Fs) (n - k) []"
  proof -
    have "no1 + length os1 * length (outer_join_attrs e1) + length ([] :: cword list list) \<le> n - k"
      using l(10) a(4) s(3) by simp
    moreover have "[] = map (join_merge e1 r1) pend1 @ join_spec (join_key st e1) (join_merge e1) rest1 os1"
      using l(5) s(1,2) by simp
    ultimately show ?thesis unfolding join_rows_def using l(3,4) by blast
  qed
  moreover have "F \<subseteq> Fo1 \<union> qi_space F1 Fs" using a(3) l(7) by blast
  moreover have "fresh h (Fo1 \<union> qi_space F1 Fs - F)" using a(3) l(8) unfolding fresh_def by blast
  moreover have "k \<le> n" using l(10) a(4) by simp
  ultimately show ?thesis by blast
qed

section \<open>The join as a source of rows\<close>

lemma join_init:
  assumes "join_ready st mt ready e h F n rs"
  shows "\<exists>e'. index_join_init e h = Some (e', h) \<and> join_rows st mt rows e' h F n rs"
proof -
  obtain sch Fo no os F1 m1 Fs qs R where a: "join_parts st mt ready sch e h Fo no os F1 m1 Fs qs R"
    "F = Fo \<union> qi_space F1 Fs" "no + length os * length (outer_join_attrs e) + length rs \<le> n"
    "rs = join_spec (join_key st e) (join_merge e) R os"
    using assms unfolding join_ready_def by blast
  have mt: "mtable (outer e) = mt" "ready (env (outer e)) h Fo no os" using a(1) by (simp_all add: join_parts_def)
  obtain eo where eo: "m_init mt (env (outer e)) h = Some (eo, h)" "rows eo h Fo no os" using init_ready [OF mt(2)] by blast
  let ?e = "e\<lparr>outer := (outer e)\<lparr>env := eo\<rparr>, current_inner := 0, current_outer := 0\<rparr>"
  have "index_join_init e h = Some (?e, h)" using eo(1) mt(1) by (simp add: index_join_init_def init_iterator_def)
  moreover have "join_parts st mt rows sch ?e h Fo no os F1 m1 Fs qs R"
    using a(1) eo(2) unfolding join_parts_def join_static_def by simp
  moreover have "join_pending ?e h m1 R [] R []" by (simp add: join_pending_def)
  moreover have "rs = map (join_merge ?e []) [] @ join_spec (join_key st ?e) (join_merge ?e) R os"
  proof -
    have "join_merge ?e = join_merge e" "join_key st ?e = join_key st e"
      by (simp_all add: join_merge_def join_key_def fun_eq_iff)
    then show ?thesis using a(4) by simp
  qed
  moreover have "no + length os * length (outer_join_attrs ?e) + length rs \<le> n" using a(3) by simp
  ultimately show ?thesis using a(2) unfolding join_rows_def by blast
qed

lemma join_parts_frame:
  assumes "join_parts st mt P sch e h Fo no os F1 m1 Fs qs R" "changes G k h h'" "G \<inter> qi_space F1 Fs = {}"
    "P (env (outer e)) h' Fo no os"
  shows "join_parts st mt P sch e h' Fo no os F1 m1 Fs qs R"
proof -
  note d = join_partsD [OF assms(1)]
  have la: "list_all2 (tuple_is h') (qs k) (R k)" for k
    using d(5) by (rule list_all2_mono) (rule tuple_is_frame [OF _ assms(2)])
  show ?thesis
    using d(1,2,7,8) assms(4) queue_index_frame [OF d(4) assms(2,3)] la d(6) row_ok_frame [OF _ assms(2)]
    unfolding join_parts_def by blast
qed

lemma join_source:
  "row_source index_join_iterator_mtable (join_rows st mt rows) (join_ready st mt ready)"
proof
  fix e h F n rs assume "join_ready st mt ready e h F n rs"
  then show "\<exists>e'. m_init index_join_iterator_mtable e h = Some (e', h) \<and> join_rows st mt rows e' h F n rs"
    using join_init by (simp add: index_join_iterator_mtable_def)
next
  fix e h F n r rs assume "join_rows st mt rows e h F n (r # rs)" "heap_ok h" "tbrk h + n \<le> 2 ^ 64"
  then show "\<exists>p e' h' F' k. m_next index_join_iterator_mtable e h = Some (p, e', h') \<and> p \<noteq> 0 \<and> tuple_is h' p r \<and>
      k \<le> n \<and> join_rows st mt rows e' h' F' (n - k) rs \<and> F \<subseteq> F' \<and> fresh h (F' - F) \<and> changes F k h h'"
    using join_next_row by (simp add: index_join_iterator_mtable_def)
next
  fix e h F n assume "join_rows st mt rows e h F n []" "heap_ok h" "tbrk h + n \<le> 2 ^ 64"
  then show "\<exists>e' h' F' k. m_next index_join_iterator_mtable e h = Some (0, e', h') \<and> k \<le> n \<and>
      join_rows st mt rows e' h' F' (n - k) [] \<and> F \<subseteq> F' \<and> fresh h (F' - F) \<and> changes F k h h'"
    using join_next_end by (simp add: index_join_iterator_mtable_def)
next
  fix e h F n rs assume "join_rows st mt rows e h F n rs"
  then obtain Fo no os where "mtable (outer e) = mt" "rows (env (outer e)) h Fo no os"
    unfolding join_rows_def join_parts_def by blast
  then show "\<exists>e'. m_close index_join_iterator_mtable e h = Some (e', h)"
    using close_rows by (fastforce simp: index_join_iterator_mtable_def index_join_close_def close_iterator_def)
next
  fix e h F n rs G k and h' :: theap assume a: "join_rows st mt rows e h F n rs" "changes G k h h'" "G \<inter> F = {}"
  obtain sch Fo no os F1 m1 Fs qs R pend rest r where b: "join_parts st mt rows sch e h Fo no os F1 m1 Fs qs R"
    "join_pending e h m1 R pend rest r" "F = Fo \<union> qi_space F1 Fs"
    "no + length os * length (outer_join_attrs e) + length rs \<le> n"
    "rs = map (join_merge e r) pend @ join_spec (join_key st e) (join_merge e) rest os"
    using a(1) unfolding join_rows_def by blast
  have "rows (env (outer e)) h' Fo no os"
    by (rule rows_frame [OF join_partsD(3) [OF b(1)] a(2)]) (use a(3) b(3) in blast)
  then have "join_parts st mt rows sch e h' Fo no os F1 m1 Fs qs R"
    by (rule join_parts_frame [OF b(1) a(2), rotated]) (use a(3) b(3) in blast)
  then show "join_rows st mt rows e h' F n rs"
    using pending_frame [OF b(2) a(2)] b(3-5) unfolding join_rows_def by blast
next
  fix e h F n rs G k and h' :: theap assume a: "join_ready st mt ready e h F n rs" "changes G k h h'" "G \<inter> F = {}"
  obtain sch Fo no os F1 m1 Fs qs R where b: "join_parts st mt ready sch e h Fo no os F1 m1 Fs qs R"
    "F = Fo \<union> qi_space F1 Fs" "no + length os * length (outer_join_attrs e) + length rs \<le> n"
    "rs = join_spec (join_key st e) (join_merge e) R os"
    using a(1) unfolding join_ready_def by blast
  have "ready (env (outer e)) h' Fo no os"
    by (rule ready_frame [OF join_partsD(3) [OF b(1)] a(2)]) (use a(3) b(2) in blast)
  then have "join_parts st mt ready sch e h' Fo no os F1 m1 Fs qs R"
    by (rule join_parts_frame [OF b(1) a(2), rotated]) (use a(3) b(2) in blast)
  then show "join_ready st mt ready e h' F n rs" using b(2-4) unfolding join_ready_def by blast
next
  fix e h F n rs a assume a: "join_rows st mt rows e h F n rs" "a \<in> F"
  obtain sch Fo no os F1 m1 Fs qs R where b: "join_parts st mt rows sch e h Fo no os F1 m1 Fs qs R" "F = Fo \<union> qi_space F1 Fs"
    using a(1) unfolding join_rows_def by blast
  show "tmem h a \<noteq> None"
    using a(2) b(2) rows_live [OF join_partsD(3) [OF b(1)]] queue_index_live [OF join_partsD(4) [OF b(1)]] by blast
next
  fix e h F n rs a assume a: "join_ready st mt ready e h F n rs" "a \<in> F"
  obtain sch Fo no os F1 m1 Fs qs R where b: "join_parts st mt ready sch e h Fo no os F1 m1 Fs qs R" "F = Fo \<union> qi_space F1 Fs"
    using a(1) unfolding join_ready_def by blast
  show "tmem h a \<noteq> None"
    using a(2) b(2) ready_live [OF join_partsD(3) [OF b(1)]] queue_index_live [OF join_partsD(4) [OF b(1)]] by blast
qed

end

text \<open>A join whose outer rows come from a sequential scan.\<close>

interpretation scan_join: row_source index_join_iterator_mtable "join_rows st seq_scan_iterator_mtable scan_rows"
  "join_ready st seq_scan_iterator_mtable scan_ready" for st
  by (rule scan.join_source)

end
