(* ===== verification/DB_Properties.thy ===== *)
theory DB_Properties
  imports DB_JoinRun
begin

text \<open>
  The properties of the database operators: loading and scanning a table, and joining two tables
  through an index.
\<close>

section \<open>Loading a table\<close>

text \<open>Records and rows inserted in step.\<close>

definition same_record :: "theap \<Rightarrow> Key \<times> cword \<Rightarrow> Key \<times> cword list \<Rightarrow> bool" where
  "same_record h kp kr \<longleftrightarrow> fst kp = fst kr \<and> snd kp \<noteq> 0 \<and> tuple_is h (snd kp) (snd kr)"

lemma same_record_ins:
  "list_all2 (same_record h) xs ys \<Longrightarrow> p \<noteq> 0 \<Longrightarrow> tuple_is h p r \<Longrightarrow>
   list_all2 (same_record h) (ins_list k p xs) (ins_list k r ys)"
proof (induction xs arbitrary: ys)
  case Nil
  then show ?case by (simp add: same_record_def)
next
  case (Cons x xs)
  obtain y ys' where y: "ys = y # ys'" "same_record h x y" "list_all2 (same_record h) xs ys'"
    using Cons.prems(1) by (auto simp: list_all2_Cons1)
  obtain a b c where x: "x = (a, b)" "y = (a, c)" using y(2) by (cases x; cases y) (auto simp: same_record_def)
  have new: "same_record h (k, p) (k, r)" using Cons.prems(2,3) by (simp add: same_record_def)
  consider "k < a" | "k = a" | "a < k" by fastforce
  then show ?case
  proof cases
    case 1
    then show ?thesis using new y x by simp
  next
    case 2
    then show ?thesis using new y x by simp
  next
    case 3
    then have "\<not> k < a" "k \<noteq> a" by auto
    then show ?thesis using y x Cons.IH [OF y(3) Cons.prems(2,3)] by simp
  qed
qed

text \<open>The rows of a table in the order of the key in column \<open>i\<close>; a later row replaces an earlier one of
  the same key.\<close>

definition keyed :: "nat \<Rightarrow> cword list list \<Rightarrow> (Key \<times> cword list) list" where
  "keyed i rows = fold (\<lambda>r. ins_list (r ! i) r) rows []"

lemma index_data_loop_ok:
  assumes "cursor_at s c xs p" "list_all2 (same_record h) xs ys" "length xs + n \<le> capacity" "i + n = length data"
    "list_all2 (\<lambda>p r. p \<noteq> 0 \<and> tuple_is h p r) data rows" "ofs < 2 ^ 31" "\<forall>r\<in>set rows. ofs < length r"
  shows "\<exists>s' c' xs'. index_data_loop h data (int ofs) i n s c = Some (s', c') \<and> rel_holds s' xs' \<and>
     list_all2 (same_record h) xs' (fold (\<lambda>r. ins_list (r ! ofs) r) (drop i rows) ys)"
  using assms(1-4)
proof (induction n arbitrary: i s c xs p ys)
  case 0
  then have "drop i rows = []" using assms(5) by (simp add: list_all2_lengthD)
  then show ?case using 0(2) cursor_at_holds [OF 0(1)] by (intro exI [of _ s] exI [of _ c] exI [of _ xs]) simp
next
  case (Suc n)
  have i: "i < length data" "i < length rows" using Suc.prems(4) assms(5) by (auto simp: list_all2_lengthD)
  let ?p = "data ! i" and ?r = "rows ! i"
  have pr: "?p \<noteq> 0" "tuple_is h ?p ?r" using list_all2_nthD [OF assms(5) i(1)] by simp_all
  obtain x where x: "tmem h ?p = Some (Tuple (?r @ x))" using pr(2) by (auto simp: tuple_is_def)
  have ofs: "ofs < length ?r" using assms(7) i(2) by simp
  have f: "field (?r @ x) (int ofs) = Some (?r ! ofs)" using field_nat [of ofs "?r @ x"] ofs assms(6) by (simp add: nth_append)
  obtain s1 c1 where p1: "RL_PutRecord s c (?r ! ofs) ?p = Some (s1, c1)"
    "cursor_at s1 c1 (ins_list (?r ! ofs) ?p xs) (Suc (below (?r ! ofs) (keys_of xs)))"
    using btree.put_at [OF Suc.prems(1)] Suc.prems(3) by fastforce
  have len: "length (ins_list (?r ! ofs) ?p xs) + n \<le> capacity"
    using length_ins_list [OF btree.at_sorted [OF Suc.prems(1)], of "?r ! ofs" ?p] Suc.prems(3) by simp
  have next_i: "Suc i + n = length data" using Suc.prems(4) by simp
  obtain s' c' xs' where z: "index_data_loop h data (int ofs) (Suc i) n s1 c1 = Some (s', c')" "rel_holds s' xs'"
    "list_all2 (same_record h) xs' (fold (\<lambda>r. ins_list (r ! ofs) r) (drop (Suc i) rows) (ins_list (?r ! ofs) ?r ys))"
    using Suc.IH [OF p1(2) same_record_ins [OF Suc.prems(2) pr] len next_i] by blast
  have "drop i rows = ?r # drop (Suc i) rows" using i(2) by (simp add: Cons_nth_drop_Suc)
  then show ?case using z i(1) x f p1(1) by (intro exI [of _ s'] exI [of _ c'] exI [of _ xs']) (simp add: tuple_at_def)
qed

lemma index_data_ok:
  assumes "\<forall>n. can_alloc n" "attrs_ok as" "k \<in> set as" "attr_dom k = Dom_Int" "length data \<le> capacity"
    "list_all2 (\<lambda>p r. p \<noteq> 0 \<and> tuple_is h p r) data rows" "\<forall>r\<in>set rows. length r = length as"
  shows "\<exists>s xs. index_data can_alloc h data (int (length data)) as [k] = Some s \<and> rel_holds s xs \<and>
     list_all2 (same_record h) xs (keyed (attr_pos as (attr_id k)) rows)"
proof -
  let ?i = "attr_pos as (attr_id k)"
  have i: "?i < length as" "length as < 2 ^ 31" using attr_pos_less assms(2,3) by (auto simp: attrs_ok_def)
  obtain s0 :: "cword Relation" where s0: "RL_NewRelation can_alloc = Some s0" "rel_holds s0 []"
    using new_relation_at [OF assms(1)] by blast
  obtain c0 s1 where c0: "RL_NewCursor s0 = Some (Some c0, s1)" "cursor_at s1 c0 [] 0"
    using new_cursor_at [OF s0(2)] by blast
  obtain s c xs where z: "index_data_loop h data (int ?i) 0 (length data) s1 c0 = Some (s, c)" "rel_holds s xs"
    "list_all2 (same_record h) xs (fold (\<lambda>r. ins_list (r ! ?i) r) (drop 0 rows) [])"
    using index_data_loop_ok [OF c0(2), of h "[]" "length data" 0 data rows ?i] i assms(5,6,7) by auto
  then show ?thesis
    using s0(1) c0(1) get_offset_found [OF assms(2,3)] assms(4)
    by (intro exI [of _ s] exI [of _ xs]) (simp add: index_data_def keyed_def)
qed

lemma same_record_rows: "list_all2 (same_record h) xs ys \<Longrightarrow> list_all2 (record_row h) xs (map snd ys)"
  by (simp add: list_all2_map2) (erule list_all2_mono, simp add: same_record_def record_row_def)

text \<open>C36: \<^verbatim>\<open>index_data\<close> loads tuples into a B+-tree keyed by an integer column, and materializing a
  sequential scan of the table then yields its rows in key order, the last tuple of each key only.\<close>

theorem table_scan:
  assumes "\<forall>n. can_alloc n" "attrs_ok as" "k \<in> set as" "attr_dom k = Dom_Int" "length data \<le> capacity"
    "list_all2 (\<lambda>p r. p \<noteq> 0 \<and> tuple_is h p r) data rows" "\<forall>r\<in>set rows. length r = length as"
    "heap_ok h" "tbrk h + 1 + length (keyed (attr_pos as (attr_id k)) rows) \<le> 2 ^ 64"
  shows "\<exists>s q it h' Q qs. index_data can_alloc h data (int (length data)) as [k] = Some s \<and>
     materialize (seq_scan \<lparr>attrs = as, pk_attrs = [k], pk_index = s\<rparr>) h = Some (q, it, h') \<and>
     fifo_rep h' q Q qs \<and> list_all2 (tuple_is h') qs (map snd (keyed (attr_pos as (attr_id k)) rows))"
proof -
  let ?rs = "map snd (keyed (attr_pos as (attr_id k)) rows)"
  obtain s xs where s: "index_data can_alloc h data (int (length data)) as [k] = Some s" "rel_holds s xs"
    "list_all2 (same_record h) xs (keyed (attr_pos as (attr_id k)) rows)"
    using index_data_ok [OF assms(1-7)] by blast
  have ready: "scan_ready \<lparr>bt = s, sc_cursor = None\<rparr> h {} 0 ?rs"
    using s(2) same_record_rows [OF s(3)] by (auto simp: scan_ready_def)
  have room: "tbrk h + 1 + 0 + length ?rs \<le> 2 ^ 64" using assms(9) by simp
  then obtain q it h' Q qs where
    "materialize \<lparr>mtable = seq_scan_iterator_mtable, env = \<lparr>bt = s, sc_cursor = None\<rparr>\<rparr> h = Some (q, it, h')"
    "fifo_rep h' q Q qs" "list_all2 (tuple_is h') qs ?rs"
    using scan.materialize_rows [OF ready assms(8) room] by blast
  then show ?thesis using s(1) by (auto simp: seq_scan_def)
qed

abbreviation col :: "string \<Rightarrow> attribute" where
  "col s \<equiv> \<lparr>attr_id = s, attr_dom = Dom_Int\<rparr>"

definition staff_heap :: theap where
  "staff_heap = \<lparr>tmem = [1 \<mapsto> Tuple [2, 10], 2 \<mapsto> Tuple [1, 20], 3 \<mapsto> Tuple [10, 7], 4 \<mapsto> Tuple [3, 10]], tbrk = 5\<rparr>"

lemma staff_heap_ok: "heap_ok staff_heap"
  by (auto simp: heap_ok_def staff_heap_def split: if_splits)

lemma staff_tuples:
  "tuple_is staff_heap 1 [2, 10]" "tuple_is staff_heap 2 [1, 20]" "tuple_is staff_heap 3 [10, 7]" "tuple_is staff_heap 4 [3, 10]"
  by (simp_all add: tuple_is_def staff_heap_def)

theorem table_scan_witness:
  "\<exists>s q it h' Q qs. index_data (\<lambda>_. True) staff_heap [1, 2] 2 [col ''id'', col ''dept''] [col ''id''] = Some s \<and>
     materialize (seq_scan \<lparr>attrs = [col ''id'', col ''dept''], pk_attrs = [col ''id''], pk_index = s\<rparr>) staff_heap =
       Some (q, it, h') \<and> fifo_rep h' q Q qs \<and> list_all2 (tuple_is h') qs [[1, 20], [2, 10]]"
proof -
  let ?as = "[col ''id'', col ''dept'']" and ?rows = "[[2, 10], [1, 20]] :: cword list list"
  have "attr_pos ?as (attr_id (col ''id'')) = 0" by (simp add: attr_pos_def)
  then have k: "keyed (attr_pos ?as (attr_id (col ''id''))) ?rows = [(1, [1, 20]), (2, [2, 10])]"
    by (simp add: keyed_def)
  have "\<forall>n. (\<lambda>_. True) (n :: addr)" "attrs_ok ?as" "col ''id'' \<in> set ?as" "attr_dom (col ''id'') = Dom_Int"
    "length [1 :: cword, 2] \<le> capacity" "\<forall>r\<in>set ?rows. length r = length ?as"
    "list_all2 (\<lambda>p r. p \<noteq> 0 \<and> tuple_is staff_heap p r) [1, 2] ?rows"
    "tbrk staff_heap + 1 + length (keyed (attr_pos ?as (attr_id (col ''id''))) ?rows) \<le> 2 ^ 64"
    unfolding k using staff_tuples by (simp_all add: attrs_ok_def capacity_def staff_heap_def)
  from table_scan [OF this(1-5,7,6) staff_heap_ok this(8)] show ?thesis unfolding k by simp
qed

section \<open>Joining two tables\<close>

text \<open>A table: a relation whose records are tuples with the rows \<open>rs\<close>.\<close>

definition table :: "(cword \<Rightarrow> string) \<Rightarrow> theap \<Rightarrow> db_relation \<Rightarrow> cword list list \<Rightarrow> bool" where
  "table st h r rs \<longleftrightarrow> attrs_ok (attrs r) \<and> (\<exists>xs. rel_holds (pk_index r) xs \<and> list_all2 (record_row h) xs rs) \<and>
     (\<forall>x\<in>set rs. row_ok st h (attrs r) x)"

text \<open>The attributes to join on: some of each table's, of the same domains.\<close>

definition join_attrs_ok :: "db_relation \<Rightarrow> db_relation \<Rightarrow> attribute list \<Rightarrow> attribute list \<Rightarrow> bool" where
  "join_attrs_ok ro ri oj ij \<longleftrightarrow> oj \<noteq> [] \<and> set oj \<subseteq> set (attrs ro) \<and> set ij \<subseteq> set (attrs ri) \<and>
     distinct (map attr_id ij) \<and> length ij < 2 ^ 31 \<and> map attr_dom oj = map attr_dom ij"

definition join_room :: "theap \<Rightarrow> attribute list \<Rightarrow> attribute list \<Rightarrow> nat \<Rightarrow> nat \<Rightarrow> nat \<Rightarrow> bool" where
  "join_room h oj ij nout ninn nres \<longleftrightarrow> tbrk h + new_cost (the (get_schema ij)) + ninn * row_cost (the (get_schema ij)) ij +
     1 + nout * length oj + 2 * nres \<le> 2 ^ 64"

text \<open>\<^verbatim>\<open>materialize(index_join(..., seq_scan(outer), index_scan(inner)))\<close>.\<close>

definition run_join :: "db_relation \<Rightarrow> db_relation \<Rightarrow> attribute list \<Rightarrow> attribute list \<Rightarrow> theap \<Rightarrow>
    (cword \<times> seq_scan_env index_join_env iterator \<times> theap) option" where
  "run_join ro ri oj ij h = do {
     (ind, h) \<leftarrow> index_scan ri ij h;
     it \<leftarrow> index_join (attrs ro) (attrs ri) oj ij (seq_scan ro) ind;
     materialize it h }"

lemma run_join_rows:
  assumes "table st h ro os" "table st h ri is" "join_attrs_ok ro ri oj ij" "heap_ok h"
    "rs = join_spec (\<lambda>r. row_key st (attrs ro) r oj) (merge_row (attrs ri) ij)
       (\<lambda>k. filter (\<lambda>i. row_key st (attrs ri) i ij = k) is) os"
    "join_room h oj ij (length os) (length is) (length rs)"
  shows "\<exists>q it h' Q qs. run_join ro ri oj ij h = Some (q, it, h') \<and> fifo_rep h' q Q qs \<and> list_all2 (tuple_is h') qs rs"
proof -
  let ?R = "\<lambda>k. filter (\<lambda>i. row_key st (attrs ri) i ij = k) is"
  have j: "oj \<noteq> []" "set oj \<subseteq> set (attrs ro)" "set ij \<subseteq> set (attrs ri)" "distinct (map attr_id ij)" "length ij < 2 ^ 31"
    "map attr_dom oj = map attr_dom ij" using assms(3) by (auto simp: join_attrs_ok_def)
  have ij: "ij \<noteq> []" "length oj = length ij" using j(1,6) map_eq_imp_length_eq [OF j(6)] by auto
  obtain sch where sch: "get_schema ij = Some sch" using get_schema_some [OF ij(1)] by blast
  obtain xi where xi: "rel_holds (pk_index ri) xi" "list_all2 (record_row h) xi is" "attrs_ok (attrs ri)"
    "\<forall>x\<in>set is. row_ok st h (attrs ri) x" using assms(2) by (auto simp: table_def)
  obtain xo where xo: "rel_holds (pk_index ro) xo" "list_all2 (record_row h) xo os" "attrs_ok (attrs ro)"
    "\<forall>x\<in>set os. row_ok st h (attrs ro) x" using assms(1) by (auto simp: table_def)
  let ?N = "new_cost sch + length is * row_cost sch ij"
  have room: "tbrk h + ?N + 1 + length os * length oj + 2 * length rs \<le> 2 ^ 64"
    using assms(6) sch by (simp add: join_room_def)
  then have room0: "tbrk h + new_cost sch + length is * row_cost sch ij \<le> 2 ^ 64" by simp
  obtain ind h1 F1 m1 Fs qs where s: "index_scan ri ij h = Some (ind, h1)" "queue_index sch h1 ind F1 m1 Fs qs"
    "\<forall>k. list_all2 (tuple_is h1) (qs k) (?R k)" "changes {} ?N h h1"
    using index_scan_ok [OF xi(1,2,3) ij(1) j(3) xi(4) sch assms(4) room0] by blast
  let ?e = "\<lparr>outer = seq_scan ro, outer_attrs = attrs ro, outer_join_attrs = oj, inner_attrs = attrs ri,
     inner_join_attrs = ij, ind_on_inner = ind, ind_on_inner_sch = Some sch, current_inner = - 1, current_outer = - 1\<rparr>"
  have join: "index_join (attrs ro) (attrs ri) oj ij (seq_scan ro) ind = Some \<lparr>mtable = index_join_iterator_mtable, env = ?e\<rparr>"
    using ij(2) sch by (simp add: index_join_def attribute_list_length_nat)
  have "list_all2 (record_row h1) xo os"
    using xo(2) by (rule list_all2_mono) (rule record_row_frame [OF _ s(4)])
  then have "scan_ready \<lparr>bt = pk_index ro, sc_cursor = None\<rparr> h1 {} 0 os" using xo(1) by (auto simp: scan_ready_def)
  moreover have "\<forall>r\<in>set os. row_ok st h1 (attrs ro) r" using xo(4) row_ok_frame [OF _ s(4)] by blast
  moreover have "\<forall>k. \<forall>r\<in>set (?R k). length r = length (attrs ri)" using xi(4) by (auto simp: row_ok_def)
  ultimately have "join_parts st seq_scan_iterator_mtable scan_ready sch ?e h1 {} 0 os F1 m1 Fs qs ?R"
    using s(2,3) xi(3) xo(3) j ij(1) sch unfolding join_parts_def join_static_def by (simp add: seq_scan_def)
  moreover have "rs = join_spec (join_key st ?e) (join_merge ?e) ?R os"
  proof -
    have "join_key st ?e = (\<lambda>r. row_key st (attrs ro) r oj)" "join_merge ?e = merge_row (attrs ri) ij"
      by (simp_all add: join_key_def join_merge_def fun_eq_iff)
    then show ?thesis using assms(5) by simp
  qed
  moreover have "0 + length os * length (outer_join_attrs ?e) + length rs \<le> length os * length oj + length rs" by simp
  ultimately have "join_ready st seq_scan_iterator_mtable scan_ready ?e h1 ({} \<union> qi_space F1 Fs)
      (length os * length oj + length rs) rs"
    unfolding join_ready_def by blast
  moreover have "tbrk h1 + 1 + (length os * length oj + length rs) + length rs \<le> 2 ^ 64"
    using changesD(2) [OF s(4)] room by simp
  ultimately show ?thesis
    using scan_join.materialize_rows [OF _ changesD(1) [OF s(4)]] s(1) join unfolding run_join_def by fastforce
qed

text \<open>C37: when no two outer rows agree on the joined columns, indexing the inner table by those columns with
  \<^verbatim>\<open>index_scan\<close> and materializing the \<^verbatim>\<open>index_join\<close> of a scan of the outer table with that index
  yields the join: for each outer row in key order, each inner row with the same columns, merged.\<close>

theorem index_join_is_join:
  assumes "table st h ro os" "table st h ri is" "join_attrs_ok ro ri oj ij" "heap_ok h"
    "distinct (map (\<lambda>r. row_key st (attrs ro) r oj) os)"
    "rs = concat (map (\<lambda>r. map (merge_row (attrs ri) ij r)
       (filter (\<lambda>i. row_key st (attrs ri) i ij = row_key st (attrs ro) r oj) is)) os)"
    "join_room h oj ij (length os) (length is) (length rs)"
  shows "\<exists>q it h' Q qs. run_join ro ri oj ij h = Some (q, it, h') \<and> fifo_rep h' q Q qs \<and> list_all2 (tuple_is h') qs rs"
proof (rule run_join_rows [OF assms(1-4) _ assms(7)])
  show "rs = join_spec (\<lambda>r. row_key st (attrs ro) r oj) (merge_row (attrs ri) ij)
       (\<lambda>k. filter (\<lambda>i. row_key st (attrs ri) i ij = k) is) os"
    unfolding assms(6) by (rule join_spec_distinct [OF assms(5), symmetric]) simp
qed

definition staff :: "(Key \<times> cword) list \<Rightarrow> db_relation" where
  "staff kvs = \<lparr>attrs = [col ''id'', col ''dept''], pk_attrs = [col ''id''], pk_index = one_leaf kvs\<rparr>"

definition boss :: db_relation where
  "boss = \<lparr>attrs = [col ''dept'', col ''boss''], pk_attrs = [col ''dept''], pk_index = one_leaf [(10, 3)]\<rparr>"

lemma one_leaf_holds: "strict_sorted (keys_of kvs) \<Longrightarrow> length kvs \<le> FANOUT \<Longrightarrow> rel_holds (one_leaf kvs) kvs"
  using one_leaf_at cursor_at_holds by blast

lemma int_table:
  assumes "rel_holds s xs" "list_all2 (record_row h) xs rs" "attrs_ok as" "\<forall>a\<in>set as. attr_dom a = Dom_Int"
    "\<forall>r\<in>set rs. length r = length as"
  shows "table st h \<lparr>attrs = as, pk_attrs = pk, pk_index = s\<rparr> rs"
  using assms unfolding table_def row_ok_def by auto

lemma staff_table: "table st staff_heap (staff [(1, 2), (2, 1)]) [[1, 20], [2, 10]]"
  "table st staff_heap (staff [(2, 1), (3, 4)]) [[2, 10], [3, 10]]"
  unfolding staff_def using staff_tuples
  by (auto simp: attrs_ok_def record_row_def FANOUT_def
      intro!: int_table [OF one_leaf_holds [of "[(1, 2), (2, 1)]"]] int_table [OF one_leaf_holds [of "[(2, 1), (3, 4)]"]])

lemma boss_table: "table st staff_heap boss [[10, 7]]"
  unfolding boss_def using staff_tuples
  by (auto simp: attrs_ok_def record_row_def FANOUT_def intro!: int_table [OF one_leaf_holds [of "[(10, 3)]"]])

lemma staff_join:
  "join_attrs_ok (staff kvs) boss [col ''dept''] [col ''dept'']"
  "join_room staff_heap [col ''dept''] [col ''dept''] (Suc (Suc 0)) (Suc 0) (Suc 0)"
  "col_key_of st (attrs (staff kvs)) [a, b] (col ''dept'') = KInt b"
  "col_key_of st (attrs boss) [a, b] (col ''dept'') = KInt a"
  "merge_row (attrs boss) [col ''dept''] [a, b] [c, d] = [a, b, d]"
  by (simp_all add: join_attrs_ok_def join_room_def staff_def boss_def staff_heap_def row_cost_def merge_row_def
      col_key_of_def attr_pos_def)

theorem index_join_is_join_witness:
  "\<exists>q it h' Q qs. run_join (staff [(1, 2), (2, 1)]) boss [col ''dept''] [col ''dept''] staff_heap = Some (q, it, h') \<and>
     fifo_rep h' q Q qs \<and> list_all2 (tuple_is h') qs [[2, 10, 7]]"
  by (rule index_join_is_join [OF staff_table(1) boss_table staff_join(1) staff_heap_ok,
      where st = "\<lambda>_. []"]) (simp_all add: staff_join)

text \<open>C38: without that condition the operator answers less than the join: an inner tuple leaves its queue
  when it is taken, so it joins with the first outer row of its columns' values only.\<close>

theorem index_join_consumes:
  assumes "table st h ro os" "table st h ri is" "join_attrs_ok ro ri oj ij" "heap_ok h"
    "rs = join_spec (\<lambda>r. row_key st (attrs ro) r oj) (merge_row (attrs ri) ij)
       (\<lambda>k. filter (\<lambda>i. row_key st (attrs ri) i ij = k) is) os"
    "join_room h oj ij (length os) (length is) (length rs)"
  shows "\<exists>q it h' Q qs. run_join ro ri oj ij h = Some (q, it, h') \<and> fifo_rep h' q Q qs \<and> list_all2 (tuple_is h') qs rs"
  using assms by (rule run_join_rows)

theorem index_join_consumes_witness:
  "\<exists>q it h' Q qs. run_join (staff [(2, 1), (3, 4)]) boss [col ''dept''] [col ''dept''] staff_heap = Some (q, it, h') \<and>
     fifo_rep h' q Q qs \<and> list_all2 (tuple_is h') qs [[2, 10, 7]] \<and>
     concat (map (\<lambda>r. map (merge_row (attrs boss) [col ''dept''] r)
       (filter (\<lambda>i. row_key (\<lambda>_. []) (attrs boss) i [col ''dept''] =
          row_key (\<lambda>_. []) (attrs (staff [(2, 1), (3, 4)])) r [col ''dept'']) [[10, 7]])) [[2, 10], [3, 10]]) =
     [[2, 10, 7], [3, 10, 7]]"
proof -
  have "\<exists>q it h' Q qs. run_join (staff [(2, 1), (3, 4)]) boss [col ''dept''] [col ''dept''] staff_heap =
      Some (q, it, h') \<and> fifo_rep h' q Q qs \<and> list_all2 (tuple_is h') qs [[2, 10, 7]]"
    by (rule index_join_consumes [OF staff_table(2) boss_table staff_join(1) staff_heap_ok,
        where st = "\<lambda>_. []"]) (simp_all add: staff_join)
  then show ?thesis by (auto simp: staff_join)
qed

end
