(* ===== verification/RL_Apps.thy ===== *)
theory RL_Apps
  imports BTree_Prev Util
begin

text \<open>
  Two clients of the cursored B+-tree: the range query of \<^verbatim>\<open>relapps.c\<close> and the integer index of
  \<^verbatim>\<open>index_int.c\<close>.
\<close>

section \<open>The range query\<close>

text \<open>The loop of \<^verbatim>\<open>RLAPP_RangeQuery\<close>. \<open>ok n\<close> tells whether an array of \<open>n\<close> pointers can be had; the
  array is passed as the pointer \<open>records\<close>, \<open>None\<close> is \<^verbatim>\<open>NULL\<close>. \<^verbatim>\<open>arrLength\<close> is never written.\<close>

partial_function (option) range_loop :: "(nat \<Rightarrow> bool) \<Rightarrow> 'r Relation \<Rightarrow> Key \<Rightarrow> u64 \<Rightarrow> 'r option list option \<Rightarrow> u64 \<Rightarrow>
    Cursor \<Rightarrow> ('r option list option \<times> u64 \<times> Cursor) option" where
  "range_loop ok s upper arrLength records nRecords c = do {
     (currKey, c) \<leftarrow> RL_GetKey s c;
     if currKey > upper then Some (records, nRecords, c)
     else do {
       records \<leftarrow> (if arrLength = nRecords
         then UTIL_ResizeArray (ok (unat (arrLength * 2))) records (unat arrLength) (unat (arrLength * 2))
         else Some records);
       if arrLength = nRecords \<and> arrLength = 0 then Some (None, 0, c)
       else do {
         (currRecord, c) \<leftarrow> RL_GetRecord s c;
         a \<leftarrow> records;
         a \<leftarrow> array_set a (uint nRecords) (Some currRecord);
         (notAtLast, c) \<leftarrow> RL_MoveToNextValid s c;
         if notAtLast then range_loop ok s upper arrLength (Some a) (nRecords + 1) c
         else Some (Some a, nRecords + 1, c) } } }"

definition RLAPP_RangeQuery :: "(nat \<Rightarrow> bool) \<Rightarrow> 'r Relation \<Rightarrow> Cursor \<Rightarrow> Key \<Rightarrow> Key \<Rightarrow>
    ('r option list option \<times> u64 \<times> Cursor) option" where
  "RLAPP_RangeQuery ok s c lower upper = do {
     valid \<leftarrow> RL_CursorIsValid s c;
     assert_c valid;
     if \<not> ok 2 then Some (None, 0, c)
     else do {
       (found, c) \<leftarrow> RL_MoveToKey s c lower;
       let moveCursorRes = (if found then 1 else 0 :: int);
       (stop, c) \<leftarrow> (if moveCursorRes < 0 then do {
           (more, c) \<leftarrow> RL_MoveToNextValid s c;
           Some (\<not> more, c) }
         else Some (False, c));
       if stop then Some (None, 0, c)
       else do {
         (records, nRecords, c) \<leftarrow> range_loop ok s upper 2 (Some (replicate 2 None)) 0 c;
         if nRecords = 0 then Some (None, 0, c) else Some (records, nRecords, c) } } }"

lemma range_loop_ok:
  assumes "cursor_at s c xs p" "p < length xs" "k \<le> 4" "length a = (if k \<le> 2 then 2 else 4)" "ok 4"
    "rs = takeWhile (\<lambda>x. fst x \<le> upper) (drop p xs)"
  shows "if k + length rs \<le> 4
    then \<exists>a' c' q. range_loop ok s upper 2 (Some a) (of_nat k) c = Some (Some a', of_nat (k + length rs), c') \<and>
      take (k + length rs) a' = take k a @ map (\<lambda>x. Some (snd x)) rs \<and> cursor_at s c' xs q
    else range_loop ok s upper 2 (Some a) (of_nat k) c = None"
  using assms
proof (induction rs arbitrary: c p k a)
  case Nil
  obtain c1 where c1: "RL_GetKey s c = Some (fst (xs ! p), c1)" "cursor_at s c1 xs p"
    using btree.get_key_at [OF Nil.prems(1,2)] by blast
  have "fst (xs ! p) > upper"
    using Nil.prems(2,6) by (simp add: Cons_nth_drop_Suc [symmetric] split: if_splits)
  then have "range_loop ok s upper 2 (Some a) (of_nat k) c = Some (Some a, of_nat k, c1)"
    using c1(1) by (subst range_loop.simps) simp
  then show ?case using c1(2) Nil.prems(3) by auto
next
  case (Cons x rs)
  have d: "drop p xs = xs ! p # drop (Suc p) xs" using Cons.prems(2) by (simp add: Cons_nth_drop_Suc)
  have x: "x = xs ! p" "\<not> fst (xs ! p) > upper" "rs = takeWhile (\<lambda>x. fst x \<le> upper) (drop (Suc p) xs)"
    using Cons.prems(6) unfolding d by (auto split: if_splits)
  obtain c1 where c1: "RL_GetKey s c = Some (fst (xs ! p), c1)" "cursor_at s c1 xs p"
    using btree.get_key_at [OF Cons.prems(1,2)] by blast
  obtain c2 where c2: "RL_GetRecord s c1 = Some (snd (xs ! p), c2)" "cursor_at s c2 xs p"
    using btree.get_record_at [OF c1(2) Cons.prems(2)] by blast
  obtain c3 where c3: "RL_MoveToNextValid s c2 = Some (Suc p < length xs, c3)" "cursor_at s c3 xs (Suc p)"
    using RL_MoveToNextValid_at [OF c2(2)] Cons.prems(2) by auto
  have k: "(2 = (of_nat k :: u64)) = (k = 2)" "uint (of_nat k :: u64) = int k"
  proof -
    consider "k = 0" | "k = 1" | "k = 2" | "k = 3" | "k = 4" using Cons.prems(3) by linarith
    then show "(2 = (of_nat k :: u64)) = (k = 2)" "uint (of_nat k :: u64) = int k" by (cases, simp_all)+
  qed
  let ?b = "if k = 2 then take 4 a @ replicate (4 - length a) None else a"
  have grow: "(if k = 2 then UTIL_ResizeArray (ok (unat (2 * 2 :: u64))) (Some a) (unat (2 :: u64)) (unat (2 * 2 :: u64))
      else Some (Some a)) = Some (Some ?b)"
    using Cons.prems(5) by (simp add: UTIL_ResizeArray_def)
  have b: "length ?b = (if k \<le> 1 then 2 else 4)" "take k ?b = take k a" using Cons.prems(4) by auto
  have step: "range_loop ok s upper 2 (Some a) (of_nat k) c =
      (if k = 4 then None
       else if Suc p < length xs then range_loop ok s upper 2 (Some (?b[k := Some (snd x)])) (of_nat (Suc k)) c3
       else Some (Some (?b[k := Some (snd x)]), of_nat (Suc k), c3))"
    using c1(1) c2(1) c3(1) x(1,2) b(1) Cons.prems(3,4,5)
    by (subst range_loop.simps) (simp add: k grow add.commute)
  have tk: "take (Suc k) (?b[k := Some (snd x)]) = take k a @ [Some (snd x)]" if "k < 4"
  proof -
    have "k < length ?b" using b(1) that by auto
    then show ?thesis using b(2) by (simp add: take_Suc_conv_app_nth)
  qed
  show ?case
  proof (cases "k = 4")
    case True
    then show ?thesis using step by simp
  next
    case False
    then have k4: "Suc k \<le> 4" using Cons.prems(3) by simp
    have len: "length (?b[k := Some (snd x)]) = (if Suc k \<le> 2 then 2 else 4)" using b(1) by auto
    show ?thesis
    proof (cases "Suc p < length xs")
      case True
      have eq: "range_loop ok s upper 2 (Some a) (of_nat k) c =
          range_loop ok s upper 2 (Some (?b[k := Some (snd x)])) (of_nat (Suc k)) c3"
        using step False True by (simp del: of_nat_Suc)
      have n: "Suc k + length rs = k + length (x # rs)" by simp
      have tk': "take (Suc k) (?b[k := Some (snd x)]) @ map (\<lambda>x. Some (snd x)) rs = take k a @ map (\<lambda>x. Some (snd x)) (x # rs)"
        using tk False Cons.prems(3) by simp
      show ?thesis
        using Cons.IH [OF c3(2) True k4 len Cons.prems(5) x(3)] unfolding eq n tk' .
    next
      case last: False
      then have "rs = []" using x(3) by simp
      then show ?thesis using step False last k4 tk c3(2) by auto
    qed
  qed
qed

lemma drop_below: "strict_sorted (keys_of xs) \<Longrightarrow> drop (below k (keys_of xs)) xs = filter (\<lambda>x. k \<le> fst x) xs"
proof (induction xs)
  case (Cons x xs)
  show ?case
  proof (cases "fst x < k")
    case True
    then show ?thesis using Cons by (simp add: below_Cons)
  next
    case False
    then have "\<forall>y\<in>set xs. k \<le> fst y" using Cons.prems by fastforce
    then show ?thesis using False by (simp add: below_Cons not_less)
  qed
qed simp

lemma takeWhile_sorted: "strict_sorted (keys_of xs) \<Longrightarrow> takeWhile (\<lambda>x. fst x \<le> u) xs = filter (\<lambda>x. fst x \<le> u) xs"
proof (induction xs)
  case (Cons x xs)
  have "filter (\<lambda>x. fst x \<le> u) xs = []" if "\<not> fst x \<le> u"
    using that Cons.prems by (fastforce simp: filter_empty_conv)
  then show ?case using Cons by simp
qed simp

definition in_range :: "Key \<Rightarrow> Key \<Rightarrow> (Key \<times> 'r) list \<Rightarrow> (Key \<times> 'r) list" where
  "in_range lower upper xs = filter (\<lambda>x. lower \<le> fst x \<and> fst x \<le> upper) xs"

lemma range_query_at:
  assumes "cursor_at s c xs p" "p < length xs" "ok 2" "ok 4"
  shows "if (\<forall>k\<in>set (keys_of xs). k < lower) \<or> 4 < length (in_range lower upper xs)
    then RLAPP_RangeQuery ok s c lower upper = None
    else \<exists>a c' q. RLAPP_RangeQuery ok s c lower upper =
        Some (if in_range lower upper xs = [] then None else Some a, of_nat (length (in_range lower upper xs)), c') \<and>
      take (length (in_range lower upper xs)) a = map (\<lambda>x. Some (snd x)) (in_range lower upper xs) \<and> cursor_at s c' xs q"
proof -
  let ?p = "below lower (keys_of xs)" and ?rs = "in_range lower upper xs"
  have sorted: "strict_sorted (keys_of xs)" by (rule btree.at_sorted [OF assms(1)])
  obtain b c1 where c1: "RL_MoveToKey s c lower = Some (b, c1)" "cursor_at s c1 xs ?p"
    using btree.move_to_key_at [OF assms(1)] by blast
  have query: "RLAPP_RangeQuery ok s c lower upper = do {
      (records, nRecords, c) \<leftarrow> range_loop ok s upper 2 (Some (replicate 2 None)) (of_nat 0) c1;
      if nRecords = 0 then Some (None, 0, c) else Some (records, nRecords, c) }"
    using btree.valid_at [OF assms(1)] assms(2,3) c1(1) by (simp add: RLAPP_RangeQuery_def)
  have none: "(\<forall>k\<in>set (keys_of xs). k < lower) \<longleftrightarrow> \<not> ?p < length xs"
  proof -
    have "?p < length xs \<longleftrightarrow> drop ?p xs \<noteq> []" by auto
    also have "\<dots> \<longleftrightarrow> \<not> (\<forall>k\<in>set (keys_of xs). k < lower)"
      unfolding drop_below [OF sorted] by (auto simp: filter_empty_conv not_less)
    finally show ?thesis by blast
  qed
  have rs: "?rs = takeWhile (\<lambda>x. fst x \<le> upper) (drop ?p xs)"
  proof -
    have "strict_sorted (keys_of (drop ?p xs))" using sorted by (simp add: drop_map [symmetric] sorted_wrt_drop)
    then show ?thesis
      unfolding in_range_def by (simp add: takeWhile_sorted) (simp add: drop_below [OF sorted] conj_commute)
  qed
  show ?thesis
  proof (cases "?p < length xs")
    case True
    have a0: "length (replicate 2 (None :: 'a option)) = (if (0::nat) \<le> 2 then 2 else 4)" by simp
    have k0: "(0::nat) \<le> 4" by simp
    note loop = range_loop_ok [where ok = ok, OF c1(2) True k0 a0 assms(4) rs]
    show ?thesis
    proof (cases "length ?rs \<le> 4")
      case small: True
      obtain a' c' q where a': "range_loop ok s upper 2 (Some (replicate 2 None)) (of_nat 0) c1 =
          Some (Some a', of_nat (length ?rs), c')" "take (length ?rs) a' = map (\<lambda>x. Some (snd x)) ?rs" "cursor_at s c' xs q"
        using loop small by auto
      have "(of_nat (length ?rs) :: u64) = 0 \<longleftrightarrow> ?rs = []"
      proof -
        have "length ?rs < 2 ^ LENGTH(64)" using small by simp
        then show ?thesis by (auto simp: word_of_nat_eq_0_iff dest!: dvd_imp_le)
      qed
      then show ?thesis using query a' small True none by auto
    next
      case False
      then show ?thesis using query loop by simp
    qed
  next
    case False
    have "RL_GetKey s c1 = None" using settle_end [OF c1(2)] False btree.at_bound [OF c1(2)] by (simp add: RL_GetKey_def)
    then have "range_loop ok s upper 2 (Some (replicate 2 None)) (of_nat 0) c1 = None"
      by (subst range_loop.simps) simp
    then show ?thesis using query none False by simp
  qed
qed

section \<open>The integer index\<close>

text \<open>\<^verbatim>\<open>ICursor\<close> and \<^verbatim>\<open>IIndex\<close> are pointers that may be \<^verbatim>\<open>NULL\<close>; a cursor's relation is passed beside it.
  \<^verbatim>\<open>*key\<close> and \<^verbatim>\<open>*value\<close> are results, \<open>None\<close> when they are not written; a value is an address.\<close>

definition Iempty :: "(addr \<Rightarrow> bool) \<Rightarrow> 'r Relation option" where
  "Iempty ok = RL_NewRelation ok"

fun Imove_cursor :: "Key \<Rightarrow> 'r Relation \<Rightarrow> Cursor option \<Rightarrow> Cursor option option" where
  "Imove_cursor key s None = Some None"
| "Imove_cursor key s (Some c) = do {
     (found, c) \<leftarrow> RL_MoveToKey s c key;
     if found = False then Some None else Some (Some c) }"

fun Imake_cursor :: "Key \<Rightarrow> 'r Relation option \<Rightarrow> (Cursor option \<times> 'r Relation option) option" where
  "Imake_cursor key None = Some (None, None)"
| "Imake_cursor key (Some s) = do {
     (c, s) \<leftarrow> RL_NewCursor s;
     if c = None then Some (None, Some s)
     else do { c \<leftarrow> Imove_cursor key s c; Some (c, Some s) } }"

fun Ifirst_cursor :: "'r Relation \<Rightarrow> Cursor option \<Rightarrow> Cursor option option" where
  "Ifirst_cursor s None = Some None"
| "Ifirst_cursor s (Some c) = do {
     (b, c) \<leftarrow> RL_MoveToFirst s c;
     if b = False then Some None else Some (Some c) }"

partial_function (option) last_loop :: "'r Relation \<Rightarrow> Cursor \<Rightarrow> Cursor option" where
  "last_loop s c = do {
     (b, c) \<leftarrow> RL_MoveToNextValid s c;
     if b then last_loop s c else Some c }"

fun Ilast_cursor :: "'r Relation \<Rightarrow> Cursor option \<Rightarrow> Cursor option option" where
  "Ilast_cursor s None = Some None"
| "Ilast_cursor s (Some c) = do { c \<leftarrow> last_loop s c; c \<leftarrow> RL_MoveToPrevious s c; Some (Some c) }"

fun Inext_cursor :: "'r Relation \<Rightarrow> Cursor option \<Rightarrow> Cursor option option" where
  "Inext_cursor s None = Some None"
| "Inext_cursor s (Some c) = do { c \<leftarrow> RL_MoveToNext s c; Some (Some c) }"

fun Iprev_cursor :: "'r Relation \<Rightarrow> Cursor option \<Rightarrow> Cursor option option" where
  "Iprev_cursor s None = Some None"
| "Iprev_cursor s (Some c) = do { c \<leftarrow> RL_MoveToPrevious s c; Some (Some c) }"

fun Iget_key :: "'r Relation \<Rightarrow> Cursor option \<Rightarrow> (bool \<times> Key option \<times> Cursor option) option" where
  "Iget_key s None = Some (False, None, None)"
| "Iget_key s (Some c) = do { (k, c) \<leftarrow> RL_GetKey s c; Some (k \<noteq> 0, Some k, Some c) }"

fun Iget_value :: "u64 Relation \<Rightarrow> Cursor option \<Rightarrow> (bool \<times> u64 option \<times> Cursor option) option" where
  "Iget_value s None = Some (False, None, None)"
| "Iget_value s (Some c) = do { (v, c) \<leftarrow> RL_GetRecord s c; Some (v \<noteq> 0, Some v, Some c) }"

fun Iput :: "Key \<Rightarrow> 'r \<Rightarrow> 'r Relation \<Rightarrow> Cursor option \<Rightarrow> ('r Relation \<times> Cursor) option" where
  "Iput key v s None = None"
| "Iput key v s (Some c) = RL_PutRecord s c key v"

text \<open>A cursor is found exactly for the keys of the index, so for none of an empty one.\<close>

lemma Imake_cursor_at:
  assumes "rel_holds s xs"
  shows "\<exists>s' c. Imake_cursor k (Some s) = Some (if k \<in> set (keys_of xs) then Some c else None, Some s') \<and>
     rel_holds s' xs \<and> (k \<in> set (keys_of xs) \<longrightarrow> cursor_at s' c xs (below k (keys_of xs)))"
proof -
  obtain c0 s0 where c0: "RL_NewCursor s = Some (Some c0, s0)" "cursor_at s0 c0 xs 0"
    using new_cursor_at [OF assms] by blast
  obtain c where c: "RL_MoveToKey s0 c0 k = Some (k \<in> set (keys_of xs), c)" "cursor_at s0 c xs (below k (keys_of xs))"
    using btree.move_to_key_at [OF c0(2)] by blast
  show ?thesis using c0(1) c cursor_at_holds [OF c(2)] by (intro exI [of _ s0] exI [of _ c]) simp
qed

text \<open>The loop of \<^verbatim>\<open>Ilast_cursor\<close> runs to the end, from where \<^verbatim>\<open>RL_MoveToPrevious\<close> reaches the last record.\<close>

lemma last_loop_at: "cursor_at s c xs p \<Longrightarrow> \<exists>c'. last_loop s c = Some c' \<and> cursor_at s c' xs (length xs)"
proof (induction "length xs - p" arbitrary: c p rule: less_induct)
  case less
  obtain c1 where c1: "RL_MoveToNextValid s c = Some (Suc p < length xs, c1)"
    "cursor_at s c1 xs (if p < length xs then Suc p else p)" using RL_MoveToNextValid_at [OF less.prems] by blast
  have bound: "p \<le> length xs" by (rule btree.at_bound [OF less.prems])
  show ?case
  proof (cases "Suc p < length xs")
    case True
    then have "last_loop s c = last_loop s c1" using c1(1) by (subst last_loop.simps) simp
    then show ?thesis using less.hyps [of "Suc p" c1] c1(2) True by simp
  next
    case False
    then have "last_loop s c = Some c1" using c1(1) by (subst last_loop.simps) simp
    moreover have "(if p < length xs then Suc p else p) = length xs" using False bound by auto
    ultimately show ?thesis using c1(2) by simp
  qed
qed

lemma previous_at_end:
  assumes "cursor_at s c xs (length xs)" "xs \<noteq> []"
  shows "\<exists>c'. RL_MoveToPrevious s c = Some c' \<and> cursor_at s c' xs (length xs - 1)"
proof -
  obtain h t where t: "rel_inv s h t" "contents t = xs" "length xs \<le> capacity" "arrays c" "cur c 0 t" "pos c 0 t = length xs"
    "looks_at s True True c xs (length xs) (leaf_end c 0 t)"
    using cursor_atE [OF assms(1)] by metis
  note i = rel_invD [OF t(1)]
  obtain n j where n: "node_at s (currNode c) = Some n" "entryIndex c = Some (int j)" "isLeaf n" "j = numKeys n"
    using t(7) unfolding looks_at_def by auto
  have "leaf_end c 0 t" using t(7) n(1,2,4) by (auto simp: looks_at_def)
  then have start: "\<not> leaf_start c 0 t" using start_not_end [OF t(5) i(4)] t(2) assms(2) by blast
  then have j: "j \<noteq> 0" using leaf_start_index [OF t(5,4)] n(2) by auto
  have bk: "cursor_back s c xs (length xs) False (to_leftmost c 0 t)"
    using t(1-6) start unfolding cursor_back_def by blast
  obtain c' where c': "moveToPrev2 s c = Some c'" "cursor_at s c' xs (length xs - 1)"
    using moveToPrev2_at [OF bk] assms(2) by (auto dest: cursor_back_at)
  have up: "ascend_first s c = Some c" using n j by (subst ascend_first.simps) (simp add: firstpointer_def)
  have first: "isFirst s c = Some False" using looks_at_first [OF t(7)] assms(2) by simp
  have "numRecords s \<noteq> 0" using numRecords_0 [OF t(1)] t(2,3) assms(2) by simp
  moreover have "node_at s (currNode d) = Some n" if "set_index c (level c) (int j - 1) = Some d" for d
    using that n(1) by (auto simp: set_index_def bind_Some_iff currNode_def split: if_splits)
  ultimately have "moveToPrev s c = moveToPrev2 s c"
    using first up n
    by (cases "set_index c (level c) (int j - 1)") (auto simp: moveToPrev_def moveToPrev2_def)
  then show ?thesis using c' n(2) j by (simp add: RL_MoveToPrevious_def)
qed

lemma Ilast_cursor_at:
  assumes "cursor_at s c xs p" "xs \<noteq> []"
  shows "\<exists>c'. Ilast_cursor s (Some c) = Some (Some c') \<and> cursor_at s c' xs (length xs - 1)"
  using last_loop_at [OF assms(1)] previous_at_end [OF _ assms(2)] by fastforce

end
