(* ===== verification/StringBag.thy ===== *)
theory StringBag
  imports Util
begin

text \<open>
  The string bag of \<^verbatim>\<open>stringbag.c\<close>: a header with an array of positions and lengths, and behind it, in the
  same block of memory, the strings. The header is a record; \<open>sb_buf\<close> is the whole block, whose first
  \<^verbatim>\<open>SB_Overhead(width)\<close> bytes the header occupies and no string may touch.
\<close>

section \<open>The code\<close>

record info_type =
  ipos :: u64
  ilen :: u64

record string_bag =
  sb_size :: u64
  sb_capacity :: u64
  sb_info :: "info_type list"
  sb_buf :: "byte list"

definition SB_MaxSize :: u64 where
  "SB_MaxSize = - 1"

text \<open>\<^verbatim>\<open>sizeof(struct StringBag)\<close> is 32, \<^verbatim>\<open>sizeof(struct InfoType)\<close> 16.\<close>

definition SB_Overhead :: "int \<Rightarrow> u64 option" where
  "SB_Overhead width = do { assert_c (width > 0); Some (32 + word_of_int (width - 1) * 16) }"

definition SB_SafeSize :: "int \<Rightarrow> u64 \<Rightarrow> u64 option" where
  "SB_SafeSize width n = do { assert_c (width > 0); v \<leftarrow> SB_Overhead width; Some (v + n) }"

definition SB_NewStringBag :: "byte list option \<Rightarrow> int \<Rightarrow> u64 \<Rightarrow> string_bag option" where
  "SB_NewStringBag mem width capacity = do {
     firstPos \<leftarrow> SB_Overhead width;
     buf \<leftarrow> mem;
     assert_c (width > 0);
     assert_c (capacity \<ge> firstPos \<and> capacity \<le> SB_MaxSize);
     assert_c (unat firstPos \<le> length buf);
     Some \<lparr>sb_size = firstPos, sb_capacity = capacity, sb_info = replicate (nat width) \<lparr>ipos = 0, ilen = 0\<rparr>, sb_buf = buf\<rparr> }"

definition SB_Capacity :: "string_bag \<Rightarrow> u64" where
  "SB_Capacity b = sb_capacity b"

definition SB_UsedCapacity :: "string_bag \<Rightarrow> u64" where
  "SB_UsedCapacity b = sb_size b"

text \<open>The string's offset in the block, and its length truncated to an \<^verbatim>\<open>int\<close>.\<close>

definition SB_Get :: "string_bag \<Rightarrow> int \<Rightarrow> (u64 \<times> int) option" where
  "SB_Get b p = do { i \<leftarrow> array_at (sb_info b) p; Some (ipos i, sint (ucast (ilen i) :: 32 word)) }"

text \<open>\<^verbatim>\<open>memcpy\<close> into the block: both areas must have the bytes, and the header is no part of the target.\<close>

definition memcpy_bag :: "string_bag \<Rightarrow> nat \<Rightarrow> byte list \<Rightarrow> nat \<Rightarrow> byte list option" where
  "memcpy_bag b i s n = (if n = 0 then Some (sb_buf b)
     else if n \<le> length s \<and> 16 + 16 * length (sb_info b) \<le> i \<and> i + n \<le> length (sb_buf b)
     then Some (take i (sb_buf b) @ take n s @ drop (i + n) (sb_buf b)) else None)"

definition SB_Assign :: "string_bag \<Rightarrow> int \<Rightarrow> byte list \<Rightarrow> int \<Rightarrow> (bool \<times> string_bag) option" where
  "SB_Assign b p s n = do {
     i \<leftarrow> array_at (sb_info b) p;
     let oldLen = ilen i;
     case (if oldLen \<ge> word_of_int n then Some (ipos i, b)
           else if sb_size b + word_of_int n \<le> sb_capacity b
           then Some (sb_size b, b\<lparr>sb_size := sb_size b + word_of_int n\<rparr>)
           else None) of
       None \<Rightarrow> Some (False, b)
     | Some (q, b) \<Rightarrow> do {
         buf \<leftarrow> memcpy_bag b (unat q) s (unat (word_of_int n :: u64));
         is \<leftarrow> array_set (sb_info b) p \<lparr>ipos = q, ilen = word_of_int n\<rparr>;
         Some (True, b\<lparr>sb_info := is, sb_buf := buf\<rparr>) } }"

section \<open>The bag of strings\<close>

definition overhead :: "nat \<Rightarrow> nat" where
  "overhead w = 16 + 16 * w"

definition slot_from :: "string_bag \<Rightarrow> nat \<Rightarrow> nat" where
  "slot_from b p = unat (ipos (sb_info b ! p))"

definition slot_len :: "string_bag \<Rightarrow> nat \<Rightarrow> nat" where
  "slot_len b p = unat (ilen (sb_info b ! p))"

definition bag_strings :: "string_bag \<Rightarrow> byte list list" where
  "bag_strings b = map (\<lambda>p. take (slot_len b p) (drop (slot_from b p) (sb_buf b))) [0..<length (sb_info b)]"

text \<open>Nonempty strings lie between the header and the used size, and no two overlap.\<close>

definition sb_inv :: "string_bag \<Rightarrow> bool" where
  "sb_inv b \<longleftrightarrow> overhead (length (sb_info b)) \<le> unat (sb_size b) \<and> sb_size b \<le> sb_capacity b \<and>
     unat (sb_capacity b) \<le> length (sb_buf b) \<and>
     (\<forall>p<length (sb_info b). 0 < slot_len b p \<longrightarrow>
        overhead (length (sb_info b)) \<le> slot_from b p \<and> slot_from b p + slot_len b p \<le> unat (sb_size b)) \<and>
     (\<forall>p<length (sb_info b). \<forall>q<length (sb_info b). p \<noteq> q \<longrightarrow> 0 < slot_len b p \<longrightarrow> 0 < slot_len b q \<longrightarrow>
        slot_from b p + slot_len b p \<le> slot_from b q \<or> slot_from b q + slot_len b q \<le> slot_from b p)"

lemma splice_other:
  "f + l \<le> i \<or> i + n \<le> f \<Longrightarrow> length t = n \<Longrightarrow> i + n \<le> length b \<Longrightarrow>
   take l (drop f (take i b @ t @ drop (i + n) b)) = take l (drop f b)"
  by (elim disjE) (auto simp: drop_take min_def)

lemma splice_same:
  "length t = n \<Longrightarrow> i + n \<le> length b \<Longrightarrow> take n (drop i (take i b @ t @ drop (i + n) b)) = t"
  by simp

lemma sb_invD:
  assumes "sb_inv b"
  shows "overhead (length (sb_info b)) \<le> unat (sb_size b)" "sb_size b \<le> sb_capacity b"
    "unat (sb_capacity b) \<le> length (sb_buf b)"
    "p < length (sb_info b) \<Longrightarrow> 0 < slot_len b p \<Longrightarrow> overhead (length (sb_info b)) \<le> slot_from b p"
    "p < length (sb_info b) \<Longrightarrow> 0 < slot_len b p \<Longrightarrow> slot_from b p + slot_len b p \<le> unat (sb_size b)"
    "p < length (sb_info b) \<Longrightarrow> q < length (sb_info b) \<Longrightarrow> p \<noteq> q \<Longrightarrow> 0 < slot_len b p \<Longrightarrow> 0 < slot_len b q \<Longrightarrow>
       slot_from b p + slot_len b p \<le> slot_from b q \<or> slot_from b q + slot_len b q \<le> slot_from b p"
  using assms unfolding sb_inv_def by blast+

text \<open>Storing \<open>t\<close> for position \<open>p\<close> at an offset \<open>i\<close> where no other string lies.\<close>

lemma store_ok:
  assumes inv: "sb_inv b" and p: "p < length (sb_info b)" and z: "sb_size b \<le> z" "z \<le> sb_capacity b"
    and t: "0 < length t \<Longrightarrow> overhead (length (sb_info b)) \<le> unat i \<and> unat i + length t \<le> unat z"
    and apart: "\<And>q. q < length (sb_info b) \<Longrightarrow> q \<noteq> p \<Longrightarrow> 0 < length t \<Longrightarrow> 0 < slot_len b q \<Longrightarrow>
      slot_from b q + slot_len b q \<le> unat i \<or> unat i + length t \<le> slot_from b q"
    and n: "length t < 2 ^ 64"
    and buf: "buf = (if length t = 0 then sb_buf b else take (unat i) (sb_buf b) @ t @ drop (unat i + length t) (sb_buf b))"
    and b': "b' = b\<lparr>sb_size := z, sb_info := (sb_info b)[p := \<lparr>ipos = i, ilen = of_nat (length t)\<rparr>], sb_buf := buf\<rparr>"
  shows "sb_inv b'" "bag_strings b' = (bag_strings b)[p := t]"
proof -
  note d = sb_invD [OF inv]
  have len_t: "unat (of_nat (length t) :: u64) = length t"
    using n by (simp add: unsigned_of_nat take_bit_nat_eq_self)
  have room: "unat i + length t \<le> length (sb_buf b)" if "0 < length t"
    using t that d(3) z(2) by (meson order_trans word_le_nat_alt)
  have at_p: "slot_len b' p = length t" "slot_from b' p = unat i"
    using p len_t by (simp_all add: b' slot_len_def slot_from_def)
  have at_q: "slot_len b' q = slot_len b q" "slot_from b' q = slot_from b q" if "q \<noteq> p" for q
    using that by (simp_all add: b' slot_len_def slot_from_def)
  have len: "length (sb_info b') = length (sb_info b)" "sb_size b' = z" "sb_capacity b' = sb_capacity b" "sb_buf b' = buf"
    by (simp_all add: b')
  have len_buf: "length buf = length (sb_buf b)" using room by (auto simp: buf)
  have size: "unat (sb_size b) \<le> unat z" using z(1) by (simp add: word_le_nat_alt)
  show "sb_inv b'"
    unfolding sb_inv_def len len_buf
  proof (intro conjI allI impI)
    show "overhead (length (sb_info b)) \<le> unat z" using d(1) size by simp
    show "z \<le> sb_capacity b" "unat (sb_capacity b) \<le> length (sb_buf b)" using z(2) d(3) by simp_all
    fix q assume q: "q < length (sb_info b)" "0 < slot_len b' q"
    show "overhead (length (sb_info b)) \<le> slot_from b' q" "slot_from b' q + slot_len b' q \<le> unat z"
      using q at_p at_q [of q] t d(4,5) [of q] size by (cases "q = p"; simp)+
    fix r assume r: "r < length (sb_info b)" "q \<noteq> r" "0 < slot_len b' r"
    show "slot_from b' q + slot_len b' q \<le> slot_from b' r \<or> slot_from b' r + slot_len b' r \<le> slot_from b' q"
    proof -
      consider "q = p" | "r = p" | "q \<noteq> p" "r \<noteq> p" by blast
      then show ?thesis
      proof cases
        case 1
        then show ?thesis using apart [of r] r q(2) at_p at_q [of r] by auto
      next
        case 2
        then show ?thesis using apart [of q] r q at_p at_q [of q] by auto
      next
        case 3
        then show ?thesis using d(6) [of q r] r q at_q [of q] at_q [of r] by simp
      qed
    qed
  qed
  show "bag_strings b' = (bag_strings b)[p := t]"
  proof (rule nth_equalityI)
    fix q assume "q < length (bag_strings b')"
    then have q: "q < length (sb_info b)" by (simp add: bag_strings_def len)
    show "bag_strings b' ! q = (bag_strings b)[p := t] ! q"
    proof (cases "q = p")
      case True
      have "take (length t) (drop (unat i) buf) = t"
      proof (cases "length t = 0")
        case False
        then show ?thesis using splice_same [OF refl room] by (simp add: buf)
      qed simp
      then show ?thesis using True q at_p by (simp add: bag_strings_def len)
    next
      case False
      have "take (slot_len b q) (drop (slot_from b q) buf) = take (slot_len b q) (drop (slot_from b q) (sb_buf b))"
      proof (cases "length t = 0 \<or> slot_len b q = 0")
        case True
        then show ?thesis by (auto simp: buf)
      next
        case nonempty: False
        then show ?thesis using splice_other [OF apart [OF q False] refl room] by (simp add: buf)
      qed
      then show ?thesis using q False at_q [OF False] by (simp add: bag_strings_def len)
    qed
  qed (simp add: bag_strings_def len)
qed

section \<open>The operations on the bag of strings\<close>

lemma length_bag_strings [simp]: "length (bag_strings b) = length (sb_info b)"
  by (simp add: bag_strings_def)

lemma length_bag_string:
  assumes "sb_inv b" "p < length (sb_info b)"
  shows "length (bag_strings b ! p) = slot_len b p"
proof (cases "slot_len b p = 0")
  case False
  note d = sb_invD [OF assms(1)]
  have "unat (sb_size b) \<le> length (sb_buf b)" using d(2,3) by (meson order_trans word_le_nat_alt)
  then show ?thesis using d(5) [OF assms(2)] False assms(2) by (simp add: bag_strings_def)
qed (use assms(2) in \<open>simp add: bag_strings_def\<close>)

lemma new_bag:
  assumes "0 < w" "w < 2 ^ 31" "overhead w \<le> unat capacity" "unat capacity \<le> length mem"
  shows "\<exists>b. SB_NewStringBag (Some mem) (int w) capacity = Some b \<and> sb_inv b \<and> bag_strings b = replicate w [] \<and>
     sb_capacity b = capacity \<and> unat (sb_size b) = overhead w"
proof -
  have over: "SB_Overhead (int w) = Some (of_nat (overhead w))"
    using assms(1) by (simp add: SB_Overhead_def overhead_def algebra_simps)
  have u: "unat (of_nat (overhead w) :: u64) = overhead w"
    using assms(2) by (simp add: overhead_def unsigned_of_nat take_bit_nat_eq_self del: of_nat_add of_nat_mult)
  then have le: "(of_nat (overhead w) :: u64) \<le> capacity" using assms(3) by (simp add: word_le_nat_alt)
  have max: "capacity \<le> SB_MaxSize" by (simp add: SB_MaxSize_def)
  let ?b = "\<lparr>sb_size = of_nat (overhead w), sb_capacity = capacity, sb_info = replicate w \<lparr>ipos = 0, ilen = 0\<rparr>, sb_buf = mem\<rparr>"
  have "SB_NewStringBag (Some mem) (int w) capacity = Some ?b"
    using over u le max assms by (simp add: SB_NewStringBag_def)
  moreover have "sb_inv ?b" using u le assms(4) by (simp add: sb_inv_def slot_len_def)
  moreover have "bag_strings ?b = replicate w []"
    by (rule nth_equalityI) (simp_all add: bag_strings_def slot_len_def)
  ultimately show ?thesis using u by simp
qed

lemma assign_ok:
  assumes inv: "sb_inv b" and p: "p < length (sb_info b)" and n: "length t < 2 ^ 31"
    and cap: "unat (sb_capacity b) + length t < 2 ^ 64"
  shows "if length t \<le> length (bag_strings b ! p) \<or> unat (sb_size b) + length t \<le> unat (sb_capacity b)
    then \<exists>b'. SB_Assign b (int p) t (int (length t)) = Some (True, b') \<and> sb_inv b' \<and>
      bag_strings b' = (bag_strings b)[p := t] \<and> sb_capacity b' = sb_capacity b \<and>
      unat (sb_size b') = unat (sb_size b) + (if length t \<le> length (bag_strings b ! p) then 0 else length t)
    else SB_Assign b (int p) t (int (length t)) = Some (False, b)"
proof -
  note d = sb_invD [OF inv]
  let ?i = "sb_info b ! p" and ?n = "of_nat (length t) :: u64"
  have un: "unat ?n = length t" using n by (simp add: unsigned_of_nat take_bit_nat_eq_self)
  have fits: "ilen ?i \<ge> ?n \<longleftrightarrow> length t \<le> length (bag_strings b ! p)"
    using length_bag_string [OF inv p] un by (simp add: word_le_nat_alt slot_len_def)
  have size: "unat (sb_size b) \<le> unat (sb_capacity b)" using d(2) by (simp add: word_le_nat_alt)
  have sum: "unat (sb_size b + ?n) = unat (sb_size b) + length t"
    using size cap un by (subst unat_add_lem [THEN iffD1]) simp_all
  have grows: "sb_size b + ?n \<le> sb_capacity b \<longleftrightarrow> unat (sb_size b) + length t \<le> unat (sb_capacity b)"
    by (simp add: word_le_nat_alt sum)
  consider "ilen ?i \<ge> ?n" | "\<not> ilen ?i \<ge> ?n" "sb_size b + ?n \<le> sb_capacity b"
    | "\<not> ilen ?i \<ge> ?n" "\<not> sb_size b + ?n \<le> sb_capacity b" by blast
  then show ?thesis
  proof cases
    case 1
    let ?buf = "if length t = 0 then sb_buf b
      else take (unat (ipos ?i)) (sb_buf b) @ t @ drop (unat (ipos ?i) + length t) (sb_buf b)"
    let ?b = "b\<lparr>sb_size := sb_size b, sb_info := (sb_info b)[p := \<lparr>ipos = ipos ?i, ilen = ?n\<rparr>], sb_buf := ?buf\<rparr>"
    have le: "length t \<le> slot_len b p" using 1 un by (simp add: word_le_nat_alt slot_len_def)
    have at: "unat (ipos ?i) = slot_from b p" by (simp add: slot_from_def)
    have room: "0 < length t \<Longrightarrow> overhead (length (sb_info b)) \<le> unat (ipos ?i) \<and> unat (ipos ?i) + length t \<le> unat (sb_size b)"
      using d(4) [OF p] d(5) [OF p] le at by linarith
    have apart: "slot_from b q + slot_len b q \<le> unat (ipos ?i) \<or> unat (ipos ?i) + length t \<le> slot_from b q"
      if "q < length (sb_info b)" "q \<noteq> p" "0 < length t" "0 < slot_len b q" for q
      using d(6) [OF that(1) p that(2,4)] that(3) le at by linarith
    have "memcpy_bag b (unat (ipos ?i)) t (length t) = Some ?buf"
      using room size d(3) by (cases "t = []") (auto simp: memcpy_bag_def overhead_def)
    then have "SB_Assign b (int p) t (int (length t)) = Some (True, ?b)"
      using p 1 un by (simp add: SB_Assign_def)
    moreover have "sb_inv ?b" "bag_strings ?b = (bag_strings b)[p := t]"
      using store_ok [OF inv p order_refl d(2) room apart _ refl refl] n by simp_all
    moreover have "sb_capacity ?b = sb_capacity b" "unat (sb_size ?b) = unat (sb_size b) + 0" by simp_all
    moreover have "length t \<le> length (bag_strings b ! p)" using 1 fits by blast
    ultimately show ?thesis by (simp only: simp_thms if_True if_False) blast
  next
    case 2
    let ?buf = "if length t = 0 then sb_buf b
      else take (unat (sb_size b)) (sb_buf b) @ t @ drop (unat (sb_size b) + length t) (sb_buf b)"
    let ?b = "b\<lparr>sb_size := sb_size b + ?n, sb_info := (sb_info b)[p := \<lparr>ipos = sb_size b, ilen = ?n\<rparr>], sb_buf := ?buf\<rparr>"
    have z: "sb_size b \<le> sb_size b + ?n" by (simp add: word_le_nat_alt sum)
    have room: "0 < length t \<Longrightarrow> overhead (length (sb_info b)) \<le> unat (sb_size b) \<and>
        unat (sb_size b) + length t \<le> unat (sb_size b + ?n)"
      using d(1) sum by simp
    have apart: "slot_from b q + slot_len b q \<le> unat (sb_size b) \<or> unat (sb_size b) + length t \<le> slot_from b q"
      if "q < length (sb_info b)" "q \<noteq> p" "0 < length t" "0 < slot_len b q" for q
      using d(5) [OF that(1,4)] by blast
    have "memcpy_bag (b\<lparr>sb_size := sb_size b + ?n\<rparr>) (unat (sb_size b)) t (length t) = Some ?buf"
      using room 2(2) grows d(3) by (cases "t = []") (auto simp: memcpy_bag_def overhead_def)
    then have "SB_Assign b (int p) t (int (length t)) = Some (True, ?b)"
      using p 2 un by (simp add: SB_Assign_def)
    moreover have "sb_inv ?b" "bag_strings ?b = (bag_strings b)[p := t]"
      using store_ok [OF inv p z 2(2) room apart _ refl refl] n by simp_all
    moreover have "sb_capacity ?b = sb_capacity b" "unat (sb_size ?b) = unat (sb_size b) + length t"
      using sum by simp_all
    moreover have "unat (sb_size b) + length t \<le> unat (sb_capacity b)" "\<not> length t \<le> length (bag_strings b ! p)"
      using 2 fits grows by blast+
    ultimately show ?thesis by (simp only: simp_thms if_True if_False) blast
  next
    case 3
    then have "SB_Assign b (int p) t (int (length t)) = Some (False, b)"
      using p by (simp add: SB_Assign_def)
    then show ?thesis using 3 fits grows by simp
  qed
qed

text \<open>What a client reads with the position and length that \<^verbatim>\<open>SB_Get\<close> returns.\<close>

definition sb_read :: "string_bag \<Rightarrow> nat \<Rightarrow> byte list option" where
  "sb_read b p = do { (i, n) \<leftarrow> SB_Get b (int p); Some (take (nat n) (drop (unat i) (sb_buf b))) }"

lemma read_ok:
  assumes "sb_inv b" "p < length (sb_info b)" "length (bag_strings b ! p) < 2 ^ 31"
  shows "sb_read b p = Some (bag_strings b ! p)"
proof -
  have "uint (ilen (sb_info b ! p)) = int (slot_len b p)" by (simp add: slot_len_def)
  then have "sint (ucast (ilen (sb_info b ! p)) :: 32 word) = int (slot_len b p)"
    using assms(3) length_bag_string [OF assms(1,2)]
    by (simp add: signed_ucast_eq take_bit_int_eq_self signed_take_bit_int_eq_self)
  then show ?thesis using assms(2) by (simp add: sb_read_def SB_Get_def bag_strings_def slot_from_def)
qed

section \<open>Runs of assignments\<close>

fun sb_run :: "string_bag \<Rightarrow> (nat \<times> byte list) list \<Rightarrow> (bool list \<times> string_bag) option" where
  "sb_run b [] = Some ([], b)"
| "sb_run b ((p, t) # as) = do {
     (r, b) \<leftarrow> SB_Assign b (int p) t (int (length t));
     (rs, b) \<leftarrow> sb_run b as;
     Some (r # rs, b) }"

text \<open>The reference: a list of strings and the number of bytes in use. A string no longer than the one it
  replaces takes no new bytes; a longer one takes all its bytes anew.\<close>

fun bag_spec :: "nat \<Rightarrow> nat \<Rightarrow> byte list list \<Rightarrow> (nat \<times> byte list) list \<Rightarrow> bool list \<times> byte list list" where
  "bag_spec cap used ss [] = ([], ss)"
| "bag_spec cap used ss ((p, t) # as) =
     (if length t \<le> length (ss ! p) then case bag_spec cap used (ss[p := t]) as of (rs, ss) \<Rightarrow> (True # rs, ss)
      else if used + length t \<le> cap
      then case bag_spec cap (used + length t) (ss[p := t]) as of (rs, ss) \<Rightarrow> (True # rs, ss)
      else case bag_spec cap used ss as of (rs, ss) \<Rightarrow> (False # rs, ss))"

definition calls_ok :: "nat \<Rightarrow> (nat \<times> byte list) list \<Rightarrow> bool" where
  "calls_ok w as \<longleftrightarrow> (\<forall>(p, t)\<in>set as. p < w \<and> length t < 2 ^ 31)"

lemma run_ok:
  assumes "sb_inv b" "calls_ok (length (sb_info b)) as" "unat (sb_capacity b) + 2 ^ 31 \<le> 2 ^ 64"
    "bag_spec (unat (sb_capacity b)) (unat (sb_size b)) (bag_strings b) as = (rs, ss)"
    "\<forall>u\<in>set (bag_strings b). length u < 2 ^ 31"
  shows "\<exists>b'. sb_run b as = Some (rs, b') \<and> sb_inv b' \<and> bag_strings b' = ss \<and> length (sb_info b') = length (sb_info b) \<and>
    (\<forall>u\<in>set ss. length u < 2 ^ 31)"
  using assms
proof (induction as arbitrary: b rs)
  case Nil
  then show ?case by auto
next
  case (Cons a as)
  obtain p t where a: "a = (p, t)" by (cases a)
  have p: "p < length (sb_info b)" "length t < 2 ^ 31" "calls_ok (length (sb_info b)) as"
    using Cons.prems(2) by (auto simp: a calls_ok_def)
  have cap: "unat (sb_capacity b) + length t < 2 ^ 64" using Cons.prems(3) p(2) by simp
  note step = assign_ok [OF Cons.prems(1) p(1,2) cap]
  show ?case
  proof (cases "length t \<le> length (bag_strings b ! p) \<or> unat (sb_size b) + length t \<le> unat (sb_capacity b)")
    case True
    obtain b1 where b1: "SB_Assign b (int p) t (int (length t)) = Some (True, b1)" "sb_inv b1"
      "bag_strings b1 = (bag_strings b)[p := t]" "sb_capacity b1 = sb_capacity b"
      "unat (sb_size b1) = unat (sb_size b) + (if length t \<le> length (bag_strings b ! p) then 0 else length t)"
      using step True by auto
    have len: "length (sb_info b1) = length (sb_info b)"
      using arg_cong [OF b1(3), of length] by simp
    obtain rs1 where rs1: "rs = True # rs1"
      "bag_spec (unat (sb_capacity b1)) (unat (sb_size b1)) (bag_strings b1) as = (rs1, ss)"
      using Cons.prems(4) True b1(3-5) by (auto simp: a split: if_splits prod.splits)
    have short: "\<forall>u\<in>set (bag_strings b1). length u < 2 ^ 31"
      using Cons.prems(5) p(2) set_update_subset_insert [of "bag_strings b" p t] unfolding b1(3) by auto
    show ?thesis
      using Cons.IH [OF b1(2) _ _ rs1(2) short] p(3) Cons.prems(3) b1(1,4) len rs1(1) a by auto
  next
    case False
    obtain rs1 where rs1: "rs = False # rs1"
      "bag_spec (unat (sb_capacity b)) (unat (sb_size b)) (bag_strings b) as = (rs1, ss)"
      using Cons.prems(4) False by (auto simp: a split: if_splits prod.splits)
    show ?thesis using Cons.IH [OF Cons.prems(1) p(3) Cons.prems(3) rs1(2) Cons.prems(5)] step False rs1(1) a by auto
  qed
qed

end
