(* ===== verification/Permuter.thy ===== *)
theory Permuter
  imports Util
begin

text \<open>
  The permuter of \<^verbatim>\<open>permuter.c\<close>: up to fifteen 4-bit elements and their number in one \<^verbatim>\<open>long\<close>.
\<close>

unbundle bit_operations_syntax

section \<open>The code\<close>

text \<open>\<^verbatim>\<open>x << n\<close> on \<^verbatim>\<open>int\<close>s: defined when the count is below the width and the result fits.\<close>

definition shl_int :: "int \<Rightarrow> int \<Rightarrow> int option" where
  "shl_int x n = (if 0 \<le> n \<and> n < 32 \<and> 0 \<le> x \<and> x * 2 ^ nat n \<le> INT_MAX then Some (x * 2 ^ nat n) else None)"

text \<open>\<^verbatim>\<open>x >> n\<close> on a \<^verbatim>\<open>long\<close>, which keeps the sign.\<close>

definition shr_long :: "64 word \<Rightarrow> int \<Rightarrow> 64 word option" where
  "shr_long x n = (if 0 \<le> n \<and> n < 64 then Some (signed_drop_bit (nat n) x) else None)"

definition Permuter_size :: "64 word \<Rightarrow> int" where
  "Permuter_size p = sint (p AND 15)"

definition Permuter_setSize :: "64 word \<Rightarrow> int \<Rightarrow> 64 word" where
  "Permuter_setSize p sz = (p AND word_of_int (NOT 15)) OR word_of_int (sz AND 15)"

definition Permuter_get :: "64 word \<Rightarrow> int \<Rightarrow> int option" where
  "Permuter_get p i = do { x \<leftarrow> shr_long p (i * 4 + 4); Some (sint (x AND 15)) }"

text \<open>The mask and the value are shifted as \<^verbatim>\<open>int\<close>s and then widened. The function is modelled as \<^verbatim>\<open>permuter.c\<close>
  defines it, with the new permutation as a \<^verbatim>\<open>long\<close> result; \<^verbatim>\<open>permuter.h\<close> declares it \<^verbatim>\<open>void\<close>, a conflict that keeps the
  file from compiling (and a caller of the declared function could not get at the result).\<close>

definition Permuter_set :: "64 word \<Rightarrow> int \<Rightarrow> int \<Rightarrow> 64 word option" where
  "Permuter_set p i val = do {
     m \<leftarrow> shl_int 15 (i * 4 + 4);
     let p = p AND word_of_int (NOT m);
     v \<leftarrow> shl_int (val AND 15) (i * 4 + 4);
     Some (p OR word_of_int v) }"

section \<open>The array of elements\<close>

text \<open>Nibble \<open>k\<close> of a word: the size is nibble 0, element \<open>i\<close> is nibble \<open>i + 1\<close>.\<close>

definition nibble :: "64 word \<Rightarrow> nat \<Rightarrow> 64 word" where
  "nibble p k = drop_bit (4 * k) p AND 15"

lemma bit_15_int: "bit (15 :: int) n \<longleftrightarrow> n < 4"
proof -
  have "(15 :: int) = mask 4" by (simp add: mask_eq_exp_minus_1)
  then show ?thesis by (simp only: bit_mask_iff) auto
qed

lemma bit_nibble: "bit (nibble p k) n \<longleftrightarrow> n < 4 \<and> bit p (4 * k + n)"
  by (auto simp: nibble_def bit_simps bit_15_int)

lemma nibble_eqI: "(\<And>n. n < 4 \<Longrightarrow> bit p (4 * k + n) \<longleftrightarrow> bit q (4 * l + n)) \<Longrightarrow> nibble p k = nibble q l"
  by (rule bit_word_eqI) (auto simp: bit_nibble)

lemma int_low_nibble: "0 \<le> v \<Longrightarrow> v < 16 \<Longrightarrow> v AND (15 :: int) = v"
proof -
  assume v: "0 \<le> v" "v < 16"
  have "(15 :: int) = mask 4" by (simp add: mask_eq_exp_minus_1)
  then show ?thesis using v by (simp only: take_bit_eq_mask [symmetric]) (simp add: take_bit_int_eq_self)
qed

lemma size_nibble: "Permuter_size p = sint (nibble p 0)"
  by (simp add: Permuter_size_def nibble_def)

lemma get_nibble:
  assumes "i < 15"
  shows "Permuter_get p (int i) = Some (sint (nibble p (Suc i)))"
proof -
  have e: "nat (int i * 4 + 4) = 4 * Suc i" by simp
  have "signed_drop_bit (4 * Suc i) p AND 15 = nibble p (Suc i)"
  proof (rule bit_word_eqI)
    fix n assume "n < LENGTH(64)"
    have "bit (signed_drop_bit (4 * Suc i) p) n = bit p (4 * Suc i + n)" if "n < 4"
    proof -
      have "\<not> 64 - Suc 0 \<le> 4 * Suc i + n \<or> 4 * Suc i + n = 63" using that assms by presburger
      then show ?thesis by (auto simp: bit_signed_drop_bit_iff)
    qed
    then show "bit (signed_drop_bit (4 * Suc i) p AND 15) n = bit (nibble p (Suc i)) n"
      by (auto simp: bit_nibble bit_and_iff bit_15_int)
  qed
  then show ?thesis using assms unfolding Permuter_get_def shr_long_def e by simp
qed

lemma setSize_nibble:
  "nibble (Permuter_setSize p n) k = (if k = 0 then word_of_int (n AND 15) else nibble p k)"
proof (rule bit_word_eqI)
  fix m assume m: "m < LENGTH(64)"
  show "bit (nibble (Permuter_setSize p n) k) m = bit (if k = 0 then word_of_int (n AND 15) else nibble p k) m"
    by (cases "4 * k + m < 64")
      (auto simp: Permuter_setSize_def bit_nibble bit_simps bit_15_int dest: bit_imp_le_length)
qed

lemma shl_int_small:
  assumes "i \<le> 5" "0 \<le> x" "x \<le> 15"
  shows "shl_int x (int i * 4 + 4) = Some (push_bit (4 * Suc i) x)"
proof -
  have e: "nat (int i * 4 + 4) = 4 * Suc i" by simp
  have "(2 :: int) ^ (4 * Suc i) \<le> 2 ^ 24" using assms(1) by (intro power_increasing) auto
  then have "x * 2 ^ (4 * Suc i) \<le> 15 * 2 ^ 24" using assms(2,3) by (intro mult_mono) auto
  then have "x * 2 ^ (4 * Suc i) \<le> INT_MAX" by (simp add: INT_MAX_def)
  then show ?thesis using assms(1,2) unfolding shl_int_def e by (simp add: push_bit_eq_mult)
qed

text \<open>The first six elements are set as in an array.\<close>

lemma set_nibble:
  assumes "i \<le> 5"
  shows "\<exists>q. Permuter_set p (int i) val = Some q \<and>
     (\<forall>k. nibble q k = (if k = Suc i then word_of_int (val AND 15) else nibble p k))"
proof -
  let ?s = "4 * Suc i"
  have v: "0 \<le> val AND 15" "val AND 15 \<le> 15" by (simp_all add: AND_upper2')
  let ?q = "(p AND word_of_int (NOT (push_bit ?s 15))) OR word_of_int (push_bit ?s (val AND 15))"
  have "Permuter_set p (int i) val = Some ?q"
    using shl_int_small [OF assms] v by (simp add: Permuter_set_def)
  moreover have "bit ?q n \<longleftrightarrow> n < 64 \<and> (if ?s \<le> n \<and> n < ?s + 4 then bit val (n - ?s) else bit p n)" for n
    by (auto simp: bit_simps bit_15_int dest: bit_imp_le_length)
  ultimately obtain q where q: "Permuter_set p (int i) val = Some q"
    "\<And>n. bit q n \<longleftrightarrow> n < 64 \<and> (if ?s \<le> n \<and> n < ?s + 4 then bit val (n - ?s) else bit p n)"
    by blast
  have "nibble q k = (if k = Suc i then word_of_int (val AND 15) else nibble p k)" for k
  proof (rule bit_word_eqI)
    fix m assume "m < LENGTH(64)"
    show "bit (nibble q k) m = bit (if k = Suc i then word_of_int (val AND 15) else nibble p k) m"
    proof (cases "k = Suc i")
      case True
      have "4 * k + m < 64" if "m < 4" using that True assms by simp
      then show ?thesis using True by (auto simp: bit_nibble q(2) bit_simps bit_15_int)
    next
      case False
      then have "\<not> (?s \<le> 4 * k + m \<and> 4 * k + m < ?s + 4)" if "m < 4" using that by presburger
      then show ?thesis using False by (auto simp: bit_nibble q(2) simp del: mult_Suc_right dest: bit_imp_le_length)
    qed
  qed
  then show ?thesis using q(1) by blast
qed

text \<open>The others are not: the shifts leave the range of an \<^verbatim>\<open>int\<close>.\<close>

lemma set_beyond:
  assumes "6 \<le> i"
  shows "Permuter_set p (int i) val = None"
proof (cases "i = 6")
  case True
  have "shl_int 15 28 = None" by (simp add: shl_int_def INT_MAX_def)
  then show ?thesis using True by (simp add: Permuter_set_def)
next
  case False
  then have "shl_int 15 (int i * 4 + 4) = None" using assms by (simp add: shl_int_def)
  then show ?thesis by (simp add: Permuter_set_def)
qed

end
