(* ===== verification/DB_Client.thy ===== *)
theory DB_Client
  imports BTree_Prev
begin

text \<open>
  The index client \<^verbatim>\<open>src/verif/indices/client/db_client.c\<close>: the method table of ordered indexes, its
  instance on the second version of the B+-tree, and the loop that loads a table.

  A \<^verbatim>\<open>BtreeCursor\<close> is its B+-tree cursor, with the relation it points to passed beside it. A table is the
  array of its entries, row after row; a row's address is the index of its first entry.
\<close>

section \<open>The method table\<close>

record 'r ord_index_mtable =
  create_index :: "(addr \<Rightarrow> bool) \<Rightarrow> 'r Relation option"
  create_cursor :: "'r Relation \<Rightarrow> (Cursor option \<times> 'r Relation) option"
  cardinality :: "'r Relation \<Rightarrow> Cursor \<Rightarrow> u64"
  move_to_next :: "'r Relation \<Rightarrow> Cursor \<Rightarrow> (bool \<times> Cursor) option"
  move_to_first :: "'r Relation \<Rightarrow> Cursor \<Rightarrow> (bool \<times> Cursor) option"
  go_to_key :: "'r Relation \<Rightarrow> Cursor \<Rightarrow> Key \<Rightarrow> (bool \<times> Cursor) option"
  cursor_has_next :: "'r Relation \<Rightarrow> Cursor \<Rightarrow> bool option"
  put_record :: "'r Relation \<Rightarrow> Cursor \<Rightarrow> Key \<Rightarrow> 'r \<Rightarrow> ('r Relation \<times> Cursor) option"
  get_record :: "'r Relation \<Rightarrow> Cursor \<Rightarrow> ('r \<times> Cursor) option"

definition btree_create_index :: "(addr \<Rightarrow> bool) \<Rightarrow> 'r Relation option" where
  "btree_create_index ok = RL_NewRelation ok"

text \<open>The \<^verbatim>\<open>malloc\<close> of the cursor takes an address of the relation's heap; the inner \<open>None\<close> is a cursor whose
  \<^verbatim>\<open>cur\<close> is \<^verbatim>\<open>NULL\<close>.\<close>

definition btree_create_cursor :: "'r Relation \<Rightarrow> (Cursor option \<times> 'r Relation) option" where
  "btree_create_cursor s = do {
     assert_c (avail s (brk s));
     RL_NewCursor (s\<lparr>brk := Suc (brk s)\<rparr>) }"

definition btree_cardinality :: "'r Relation \<Rightarrow> Cursor \<Rightarrow> u64" where
  "btree_cardinality s c = RL_NumRecords s"

definition btree_move_to_next :: "'r Relation \<Rightarrow> Cursor \<Rightarrow> (bool \<times> Cursor) option" where
  "btree_move_to_next s c = RL_MoveToNextValid2 s c"

definition btree_move_to_first :: "'r Relation \<Rightarrow> Cursor \<Rightarrow> (bool \<times> Cursor) option" where
  "btree_move_to_first s c = RL_MoveToFirst s c"

definition btree_go_to_key :: "'r Relation \<Rightarrow> Cursor \<Rightarrow> Key \<Rightarrow> (bool \<times> Cursor) option" where
  "btree_go_to_key s c k = do { c \<leftarrow> goToKey2 s c k; b \<leftarrow> RL_CursorIsValid s c; Some (b, c) }"

definition btree_cursor_has_next :: "'r Relation \<Rightarrow> Cursor \<Rightarrow> bool option" where
  "btree_cursor_has_next s c = RL_CursorIsValid s c"

definition btree_put_record :: "'r Relation \<Rightarrow> Cursor \<Rightarrow> Key \<Rightarrow> 'r \<Rightarrow> ('r Relation \<times> Cursor) option" where
  "btree_put_record s c k v = RL_PutRecord2 s c k v"

definition btree_get_record :: "'r Relation \<Rightarrow> Cursor \<Rightarrow> ('r \<times> Cursor) option" where
  "btree_get_record s c = RL_GetRecord2 s c"

definition btree_mtable :: "'r ord_index_mtable" where
  "btree_mtable = \<lparr>create_index = btree_create_index, create_cursor = btree_create_cursor,
     cardinality = btree_cardinality, move_to_next = btree_move_to_next, move_to_first = btree_move_to_first,
     go_to_key = btree_go_to_key, cursor_has_next = btree_cursor_has_next, put_record = btree_put_record,
     get_record = btree_get_record\<rparr>"

section \<open>Loading a table\<close>

datatype cl_domain = Cl_Int | Cl_Str

record cl_attribute =
  cl_id :: string
  cl_dom :: cl_domain

record index_attributes =
  cl_attrs :: "cl_attribute list"
  cl_pk :: "cl_attribute list"

fun attr_list_loop :: "cl_attribute list \<Rightarrow> u64 \<Rightarrow> u64" where
  "attr_list_loop [] n = n"
| "attr_list_loop (a # as) n = attr_list_loop as (n + 1)"

definition attr_list_length :: "cl_attribute list \<Rightarrow> u64" where
  "attr_list_length as = attr_list_loop as 0"

text \<open>\<^verbatim>\<open>int ind\<close>: its overflow is undefined.\<close>

fun pk_column_loop :: "string \<Rightarrow> cl_attribute list \<Rightarrow> int \<Rightarrow> int option" where
  "pk_column_loop k [] ind = Some (- 1)"
| "pk_column_loop k (a # as) ind = (if k = cl_id a then Some ind
     else if ind + 1 < 2 ^ 31 then pk_column_loop k as (ind + 1) else None)"

fun index_of_pk_column :: "cl_attribute list \<Rightarrow> cl_attribute list \<Rightarrow> int option" where
  "index_of_pk_column as [] = None"
| "index_of_pk_column as (pk # pks) = pk_column_loop (cl_id pk) as 0"

definition malloc_btree_cursor :: "(addr \<Rightarrow> bool) \<Rightarrow> (Cursor option \<times> nat Relation) option" where
  "malloc_btree_cursor ok = do { rel \<leftarrow> create_index btree_mtable ok; create_cursor btree_mtable rel }"

fun fill_loop :: "u64 list \<Rightarrow> u64 \<Rightarrow> u64 \<Rightarrow> u64 \<Rightarrow> nat \<Rightarrow> nat Relation \<Rightarrow> Cursor \<Rightarrow> (nat Relation \<times> Cursor) option" where
  "fill_loop arr numcols pk_num i 0 s c = Some (s, c)"
| "fill_loop arr numcols pk_num i (Suc n) s c = do {
     key \<leftarrow> array_at arr (uint (i * numcols + pk_num));
     (s, c) \<leftarrow> put_record btree_mtable s c key (unat (i * numcols));
     fill_loop arr numcols pk_num (i + 1) n s c }"

definition fill_relation :: "u64 list \<Rightarrow> u64 \<Rightarrow> index_attributes \<Rightarrow> nat Relation \<Rightarrow> Cursor \<Rightarrow>
    (nat Relation \<times> Cursor) option" where
  "fill_relation arr numrows att s c = do {
     let numcols = attr_list_length (cl_attrs att);
     k \<leftarrow> index_of_pk_column (cl_attrs att) (cl_pk att);
     fill_loop arr numcols (word_of_int k) 0 (unat numrows) s c }"

section \<open>Correctness\<close>

lemma attr_list_length_nat: "attr_list_length as = of_nat (length as)"
proof -
  have "attr_list_loop as n = n + of_nat (length as)" for n by (induction as arbitrary: n) simp_all
  then show ?thesis by (simp add: attr_list_length_def)
qed

lemma pk_column_found:
  assumes "j < length as" "cl_id (as ! j) = k" "\<forall>i<j. cl_id (as ! i) \<noteq> k" "ind + int j < 2 ^ 31"
  shows "pk_column_loop k as ind = Some (ind + int j)"
  using assms
proof (induction as arbitrary: ind j)
  case (Cons a as)
  show ?case
  proof (cases j)
    case 0
    then show ?thesis using Cons.prems(2) by simp
  next
    case (Suc i)
    have rest: "\<forall>l<i. cl_id (as ! l) \<noteq> k"
    proof (intro allI impI)
      fix l assume "l < i"
      then show "cl_id (as ! l) \<noteq> k" using spec [OF Cons.prems(3), of "Suc l"] Suc by simp
    qed
    have "k \<noteq> cl_id a" using spec [OF Cons.prems(3), of 0] Suc by auto
    then show ?thesis using Cons.IH [of i "ind + 1"] Cons.prems(1,2,4) Suc rest by auto
  qed
qed simp

text \<open>Row \<open>i\<close> of a table of \<open>n\<close> columns whose key is in column \<open>j\<close>: its key and its address.\<close>

definition row_entry :: "u64 list \<Rightarrow> nat \<Rightarrow> nat \<Rightarrow> nat \<Rightarrow> Key \<times> nat" where
  "row_entry arr n j i = (arr ! (i * n + j), i * n)"

lemma fill_loop_ok:
  assumes "cursor_at s c xs p" "length xs + m \<le> capacity" "j < n" "(i + m) * n \<le> length arr" "length arr < 2 ^ 64"
  shows "\<exists>s' c' q. fill_loop arr (of_nat n) (of_nat j) (of_nat i) m s c = Some (s', c') \<and>
     cursor_at s' c' (fold (\<lambda>(k, r). ins_list k r) (map (row_entry arr n j) [i..<i + m]) xs) q"
  using assms(1,2,4)
proof (induction m arbitrary: s c xs p i)
  case 0
  then show ?case by auto
next
  case (Suc m)
  have at: "i * n + j < length arr" using Suc.prems(3) assms(3) by (simp add: algebra_simps)
  then have u: "unat (of_nat i * of_nat n + of_nat j :: u64) = i * n + j" "unat (of_nat i * of_nat n :: u64) = i * n"
    using assms(5) by (simp_all flip: of_nat_mult of_nat_add add: unsigned_of_nat take_bit_nat_eq_self)
  then have key: "array_at arr (uint (of_nat i * of_nat n + of_nat j :: u64)) = Some (arr ! (i * n + j))"
    using at by (simp only: uint_nat array_at_of_nat if_True)
  obtain s1 c1 where p1: "RL_PutRecord2 s c (arr ! (i * n + j)) (i * n) = Some (s1, c1)"
    "cursor_at s1 c1 (ins_list (arr ! (i * n + j)) (i * n) xs) (Suc (below (arr ! (i * n + j)) (keys_of xs)))"
    using btree2.put_at [OF Suc.prems(1)] Suc.prems(2) by fastforce
  have len: "length (ins_list (arr ! (i * n + j)) (i * n) xs) + m \<le> capacity"
    using length_ins_list [OF btree.at_sorted [OF Suc.prems(1)], of "arr ! (i * n + j)" "i * n"] Suc.prems(2) by simp
  have rest: "(Suc i + m) * n \<le> length arr" using Suc.prems(3) by simp
  obtain s' c' q where z: "fill_loop arr (of_nat n) (of_nat j) (of_nat (Suc i)) m s1 c1 = Some (s', c')"
    "cursor_at s' c' (fold (\<lambda>(k, r). ins_list k r) (map (row_entry arr n j) [Suc i..<Suc i + m])
       (ins_list (arr ! (i * n + j)) (i * n) xs)) q"
    using Suc.IH [OF p1(2) len rest] by blast
  have r: "[i..<i + Suc m] = i # [Suc i..<Suc i + m]" by (simp add: upt_rec)
  have "fill_loop arr (of_nat n) (of_nat j) (of_nat i) (Suc m) s c = Some (s', c')"
    using z(1) key p1(1) u(2) by (simp add: btree_mtable_def btree_put_record_def add.commute)
  moreover have "fold (\<lambda>(k, r). ins_list k r) (map (row_entry arr n j) [i..<i + Suc m]) xs =
      fold (\<lambda>(k, r). ins_list k r) (map (row_entry arr n j) [Suc i..<Suc i + m]) (ins_list (arr ! (i * n + j)) (i * n) xs)"
    unfolding r by (simp add: row_entry_def del: upt_Suc add_Suc)
  ultimately show ?case using z(2) by (metis (no_types, lifting))
qed

lemma malloc_btree_cursor_ok:
  assumes "\<forall>n. ok n"
  shows "\<exists>s c. malloc_btree_cursor ok = Some (Some c, s) \<and> cursor_at s c [] 0"
proof -
  obtain s0 :: "nat Relation" where s0: "RL_NewRelation ok = Some s0" "rel_holds s0 []"
    using new_relation_at [OF assms] by blast
  obtain h t where t: "rel_inv s0 h t" "contents t = []" using s0(2) by (auto simp: rel_holds_def)
  have "rel_inv (s0\<lparr>brk := Suc (brk s0)\<rparr>) h t" by (rule rel_inv_brk [OF t(1)]) simp
  then have "rel_holds (s0\<lparr>brk := Suc (brk s0)\<rparr>) []" using t(2) by (auto simp: rel_holds_def)
  then obtain c s where "RL_NewCursor (s0\<lparr>brk := Suc (brk s0)\<rparr>) = Some (Some c, s)" "cursor_at s c [] 0"
    using new_cursor_at by blast
  then show ?thesis using s0(1) rel_invD(8) [OF t(1)]
    by (simp add: malloc_btree_cursor_def btree_mtable_def btree_create_index_def btree_create_cursor_def)
qed

lemma fill_relation_ok:
  assumes "cursor_at s c xs p" "length xs + m \<le> capacity" "j < length (cl_attrs att)" "j < 2 ^ 31"
    "cl_pk att = pk # pks" "cl_id (cl_attrs att ! j) = cl_id pk" "\<forall>i<j. cl_id (cl_attrs att ! i) \<noteq> cl_id pk"
    "m * length (cl_attrs att) \<le> length arr" "length arr < 2 ^ 64" "m < 2 ^ 64"
  shows "\<exists>s' c' q. fill_relation arr (of_nat m) att s c = Some (s', c') \<and>
     cursor_at s' c' (fold (\<lambda>(k, r). ins_list k r) (map (row_entry arr (length (cl_attrs att)) j) [0..<m]) xs) q"
proof -
  have "index_of_pk_column (cl_attrs att) (cl_pk att) = Some (int j)"
    using pk_column_found [OF assms(3,6,7), of 0] assms(4,5) by simp
  moreover have "unat (of_nat m :: u64) = m" using assms(10) by (simp add: unsigned_of_nat take_bit_nat_eq_self)
  ultimately show ?thesis
    using fill_loop_ok [OF assms(1,2,3), of 0 arr] assms(8,9)
    by (simp add: fill_relation_def attr_list_length_nat)
qed

section \<open>Looking rows up\<close>

lemma go_to_key_at:
  assumes "cursor_at s c xs p"
  shows "\<exists>c'. go_to_key btree_mtable s c k = Some (\<exists>x\<in>set (keys_of xs). k \<le> x, c') \<and>
    (\<forall>r. map_of xs k = Some r \<longrightarrow> (\<exists>d. get_record btree_mtable s c' = Some (r, d)))"
proof -
  let ?p = "below k (keys_of xs)"
  have sorted: "strict_sorted (keys_of xs)" by (rule btree.at_sorted [OF assms])
  then have d: "distinct (keys_of xs)" by (simp add: strict_sorted_iff)
  obtain c' where c': "goToKey2 s c k = Some c'" "cursor_at s c' xs ?p"
    using goToKey_at [OF assms, of k] goToKey2_eq [OF assms, of k] by auto
  have ex: "?p < length xs \<longleftrightarrow> (\<exists>x\<in>set (keys_of xs). k \<le> x)"
  proof
    assume "?p < length xs"
    then show "\<exists>x\<in>set (keys_of xs). k \<le> x" using nth_below_ge [of k "keys_of xs"] by (metis length_map nth_mem)
  next
    assume "\<exists>x\<in>set (keys_of xs). k \<le> x"
    then obtain i where "i < length xs" "k \<le> keys_of xs ! i" by (metis in_set_conv_nth length_map)
    then show "?p < length xs" using nth_less_below [of i k "keys_of xs"] by (meson leD le_less_linear less_le_trans)
  qed
  have "\<exists>d. get_record btree_mtable s c' = Some (r, d)" if r: "map_of xs k = Some r" for r
  proof -
    have "k \<in> set (keys_of xs)" using map_of_SomeD [OF r] by (simp add: rev_image_eqI)
    then have i: "?p < length xs" "fst (xs ! ?p) = k" using below_found [OF sorted] by blast+
    then have "map_of xs k = Some (snd (xs ! ?p))" using d by (metis map_of_eq_Some_iff nth_mem prod.collapse)
    then show ?thesis
      using btree2.get_record_at [OF c'(2) i(1)] r by (auto simp: btree_mtable_def btree_get_record_def)
  qed
  then show ?thesis
    using c'(1) btree.valid_at [OF c'(2)] ex by (simp add: btree_mtable_def btree_go_to_key_def)
qed

lemma fold_ins_list:
  assumes "strict_sorted (keys_of xs)"
  shows "map_of (fold (\<lambda>(k, r). ins_list k r) kvs xs) = map_of xs ++ map_of (rev kvs)"
    "set (keys_of (fold (\<lambda>(k, r). ins_list k r) kvs xs)) = set (keys_of kvs) \<union> set (keys_of xs)"
proof -
  have "map_of (fold (\<lambda>(k, r). ins_list k r) kvs xs) = map_of xs ++ map_of (rev kvs) \<and>
    set (keys_of (fold (\<lambda>(k, r). ins_list k r) kvs xs)) = set (keys_of kvs) \<union> set (keys_of xs)"
    using assms
  proof (induction kvs arbitrary: xs)
    case (Cons kv kvs)
    obtain k r where kv: "kv = (k, r)" by (cases kv)
    have s: "strict_sorted (keys_of (ins_list k r xs))" by (rule strict_sorted_ins_list [OF Cons.prems])
    show ?case
      using Cons.IH [OF s] map_of_ins_list [OF Cons.prems, of k r] by (auto simp: kv map_add_def fun_eq_iff split: option.splits)
  qed simp
  then show "map_of (fold (\<lambda>(k, r). ins_list k r) kvs xs) = map_of xs ++ map_of (rev kvs)"
    "set (keys_of (fold (\<lambda>(k, r). ins_list k r) kvs xs)) = set (keys_of kvs) \<union> set (keys_of xs)" by blast+
qed

lemma last_row:
  "i < m \<Longrightarrow> arr ! (i * n + j) = k \<Longrightarrow> \<forall>l<m. i < l \<longrightarrow> arr ! (l * n + j) \<noteq> k \<Longrightarrow>
   map_of (rev (map (row_entry arr n j) [0..<m])) k = Some (i * n)"
proof (induction m)
  case (Suc m)
  then show ?case by (cases "i = m") (auto simp: row_entry_def)
qed simp

lemma table_lookup:
  assumes "cursor_at s c (fold (\<lambda>(k, r). ins_list k r) (map (row_entry arr n j) [0..<m]) []) p"
  shows "\<exists>c'. go_to_key btree_mtable s c k = Some (\<exists>i<m. k \<le> arr ! (i * n + j), c') \<and>
    (\<forall>i<m. arr ! (i * n + j) = k \<and> (\<forall>l<m. i < l \<longrightarrow> arr ! (l * n + j) \<noteq> k) \<longrightarrow>
       (\<exists>d. get_record btree_mtable s c' = Some (i * n, d)))"
proof -
  let ?kvs = "map (row_entry arr n j) [0..<m]" and ?xs = "fold (\<lambda>(k, r). ins_list k r) (map (row_entry arr n j) [0..<m]) []"
  have f: "map_of ?xs = map_of (rev ?kvs)" "set (keys_of ?xs) = (\<lambda>i. arr ! (i * n + j)) ` {..<m}"
    using fold_ins_list [of "[]" ?kvs] by (auto simp: row_entry_def image_image lessThan_atLeast0)
  have "(\<exists>x\<in>set (keys_of ?xs). k \<le> x) \<longleftrightarrow> (\<exists>i<m. k \<le> arr ! (i * n + j))" unfolding f(2) by auto
  then show ?thesis using go_to_key_at [OF assms, of k] last_row [of _ m arr n j k] f(1) by auto
qed

end
