(* ===== verification/SI_Border.thy ===== *)
theory SI_Border
  imports Permuter
begin

text \<open>
  The border nodes of the string index, \<^verbatim>\<open>index_string.c\<close>, with a flag for each length of a prefix, their
  cursor positions, and the stack of cursors. A \<^verbatim>\<open>void *\<close> is \<open>'v option\<close>, \<open>None\<close> is \<^verbatim>\<open>NULL\<close>; a string is the list of its
  bytes. An operation on a node gives the node it leaves behind.

  Lengths are \<^verbatim>\<open>size_t\<close>, but \<^verbatim>\<open>surely_malloc\<close> takes an \<^verbatim>\<open>unsigned int\<close>: a block is as large as the low 32 bits of the size
  that is asked for, and a longer string that is copied into it is written past its end, which is \<open>None\<close>. Whether
  \<^verbatim>\<open>malloc\<close> has memory for a block of \<open>n\<close> bytes is a parameter, \<open>has_mem n\<close>; the program exits where it has not. The
  stack of cursors is modelled for a \<^verbatim>\<open>malloc\<close> that succeeds.
\<close>

section \<open>The code\<close>

definition MAX_BN_SIZE_s :: nat where
  "MAX_BN_SIZE_s = keyslice_length"

text \<open>The number of bytes of the block.\<close>

definition surely_malloc_s :: "(32 word \<Rightarrow> bool) \<Rightarrow> u64 \<Rightarrow> nat option" where
  "surely_malloc_s has_mem k = (let n = ucast k in if has_mem n then Some (unat n) else None)"

definition sizeof_Key :: u64 where "sizeof_Key = 16"

definition sizeof_SBorderNode :: u64 where "sizeof_SBorderNode = 104"

record 'v SBorderNode =
  s_prefixFlags :: u64
  s_prefixLinks :: "'v option list"
  s_suffixLink :: "'v option"
  s_keySuffix :: "byte list option"
  s_keySuffixLength :: u64

definition setFlag :: "u64 \<Rightarrow> nat \<Rightarrow> u64 option" where
  "setFlag flags index = do { b \<leftarrow> shl_int 1 (int index); Some (flags OR word_of_int b) }"

definition clearFlag :: "u64 \<Rightarrow> nat \<Rightarrow> u64 option" where
  "clearFlag flags index = do { b \<leftarrow> shl_int 1 (int index); Some (flags AND word_of_int (NOT b)) }"

definition readFlag :: "u64 \<Rightarrow> nat \<Rightarrow> bool option" where
  "readFlag flags index = do { b \<leftarrow> shl_int 1 (int index); Some (flags AND word_of_int b \<noteq> 0) }"

definition BN_NewBorderNode_s :: "(32 word \<Rightarrow> bool) \<Rightarrow> 'v SBorderNode option" where
  "BN_NewBorderNode_s has_mem = do {
     room \<leftarrow> surely_malloc_s has_mem sizeof_SBorderNode;
     assert_c (unat sizeof_SBorderNode \<le> room);
     Some \<lparr>s_prefixFlags = 0, s_prefixLinks = replicate (MAX_BN_SIZE_s + 1) None, s_suffixLink = None,
       s_keySuffix = None, s_keySuffixLength = 0\<rparr> }"

definition BN_SetPrefixValue_s :: "'v SBorderNode \<Rightarrow> nat \<Rightarrow> 'v option \<Rightarrow> 'v SBorderNode option" where
  "BN_SetPrefixValue_s bn i val = do {
     f \<leftarrow> setFlag (s_prefixFlags bn) i;
     ps \<leftarrow> array_set (s_prefixLinks bn) (int i) val;
     Some (bn\<lparr>s_prefixFlags := f, s_prefixLinks := ps\<rparr>) }"

definition BN_GetPrefixValue_s :: "'v SBorderNode \<Rightarrow> nat \<Rightarrow> (bool \<times> 'v option) option" where
  "BN_GetPrefixValue_s bn i = do {
     val \<leftarrow> array_at (s_prefixLinks bn) (int i);
     f \<leftarrow> readFlag (s_prefixFlags bn) i;
     Some (f, val) }"

text \<open>The loop that copies the suffix writes \<open>len\<close> bytes of the new block and reads as many of the string.\<close>

definition BN_SetSuffixValue_s ::
  "(32 word \<Rightarrow> bool) \<Rightarrow> 'v SBorderNode \<Rightarrow> byte list \<Rightarrow> u64 \<Rightarrow> 'v option \<Rightarrow> 'v SBorderNode option" where
  "BN_SetSuffixValue_s has_mem bn suffix len val = do {
     room \<leftarrow> surely_malloc_s has_mem len;
     assert_c (unat len \<le> room);
     assert_c (unat len \<le> length suffix);
     Some (bn\<lparr>s_keySuffix := Some (take (unat len) suffix), s_keySuffixLength := len, s_suffixLink := val\<rparr>) }"

text \<open>A \<^verbatim>\<open>SKey\<close> is its content; the length it keeps is \<open>key_len\<close>.\<close>

definition key_len :: "byte list \<Rightarrow> u64" where
  "key_len key = of_nat (length key)"

definition BN_TestSuffix_s :: "'v SBorderNode \<Rightarrow> byte list \<Rightarrow> bool option" where
  "BN_TestSuffix_s bn key = (case s_keySuffix bn of
       Some suf \<Rightarrow> UTIL_StrEqual (drop keyslice_length key) (unat (key_len key - of_nat keyslice_length)) suf
         (unat (s_keySuffixLength bn))
     | None \<Rightarrow> Some False)"

definition BN_GetSuffixValue_s :: "'v SBorderNode \<Rightarrow> byte list \<Rightarrow> u64 \<Rightarrow> 'v option option" where
  "BN_GetSuffixValue_s bn suf len = (case s_keySuffix bn of
       None \<Rightarrow> Some None
     | Some s \<Rightarrow> do {
         e \<leftarrow> UTIL_StrEqual suf (unat len) s (unat (s_keySuffixLength bn));
         Some (if e then s_suffixLink bn else None) })"

text \<open>What is exported, if there is a suffix: its key, made by \<^verbatim>\<open>move_key\<close>, and its value.\<close>

definition BN_ExportSuffixValue_s ::
  "(32 word \<Rightarrow> bool) \<Rightarrow> 'v SBorderNode \<Rightarrow> (((byte list \<times> u64) \<times> 'v option) option \<times> 'v SBorderNode) option" where
  "BN_ExportSuffixValue_s has_mem bn = (case s_keySuffix bn of
       Some s \<Rightarrow> do {
         room \<leftarrow> surely_malloc_s has_mem sizeof_Key;
         assert_c (unat sizeof_Key \<le> room);
         Some (Some ((s, s_keySuffixLength bn), s_suffixLink bn),
           bn\<lparr>s_keySuffix := None, s_keySuffixLength := 0, s_suffixLink := None\<rparr>) }
     | None \<Rightarrow> Some (None, bn))"

definition BN_HasSuffix_s :: "'v SBorderNode \<Rightarrow> bool" where
  "BN_HasSuffix_s bn = (s_keySuffix bn \<noteq> None)"

definition BN_SetLink_s :: "'v SBorderNode \<Rightarrow> 'v option \<Rightarrow> 'v SBorderNode" where
  "BN_SetLink_s bn val = bn\<lparr>s_keySuffix := None, s_keySuffixLength := 0, s_suffixLink := val\<rparr>"

text \<open>\<open>None\<close> is the answer \<^verbatim>\<open>False\<close>, with which \<^verbatim>\<open>*val\<close> is not written.\<close>

definition BN_GetLink_s :: "'v SBorderNode \<Rightarrow> 'v option" where
  "BN_GetLink_s bn = (if s_keySuffix bn \<noteq> None \<or> s_suffixLink bn = None then None else s_suffixLink bn)"

definition BN_SetValue_s :: "(32 word \<Rightarrow> bool) \<Rightarrow> 'v SBorderNode \<Rightarrow> byte list \<Rightarrow> 'v option \<Rightarrow> 'v SBorderNode option" where
  "BN_SetValue_s has_mem bn key val =
     (if key_len key > of_nat keyslice_length
      then BN_SetSuffixValue_s has_mem bn (drop keyslice_length key) (key_len key - of_nat keyslice_length) val
      else BN_SetPrefixValue_s bn (unat (key_len key)) val)"

function next_flag_loop :: "u64 \<Rightarrow> nat \<Rightarrow> nat option option" where
  "next_flag_loop flags i = (if i \<le> keyslice_length then do {
       f \<leftarrow> readFlag flags i;
       if f then Some (Some i) else next_flag_loop flags (i + 1) }
     else Some None)"
  by auto
termination by (relation "measure (\<lambda>(flags, i). Suc keyslice_length - i)") auto

declare next_flag_loop.simps [simp del]

definition bordernode_next_cursor :: "nat \<Rightarrow> 'v SBorderNode \<Rightarrow> nat option" where
  "bordernode_next_cursor bnode_cursor bn = do {
     r \<leftarrow> next_flag_loop (s_prefixFlags bn) bnode_cursor;
     case r of Some i \<Rightarrow> Some i
     | None \<Rightarrow> Some (if bnode_cursor \<le> keyslice_length + 1 \<and> (s_keySuffix bn \<noteq> None \<or> s_suffixLink bn \<noteq> None)
         then keyslice_length + 1 else keyslice_length + 2) }"

definition bordernode_length_to_cursor :: "nat \<Rightarrow> nat" where
  "bordernode_length_to_cursor len = (if len \<le> keyslice_length then len else keyslice_length + 1)"

section \<open>The stack of cursors\<close>

text \<open>A slot of the stack's array; a field that was not written is \<open>None\<close>.\<close>

record ('i, 'c) CursorSlice =
  cs_node :: "'i option"
  cs_node_cursor :: "'c option"
  cs_bnode_cursor :: "nat option"

record ('i, 'c) SCursor =
  sc_capacity :: nat
  sc_size :: nat
  sc_content :: "('i, 'c) CursorSlice list option"

definition new_slots :: "nat \<Rightarrow> ('i, 'c) CursorSlice list" where
  "new_slots n = replicate n \<lparr>cs_node = None, cs_node_cursor = None, cs_bnode_cursor = None\<rparr>"

definition new_cursor :: "('i, 'c) SCursor" where
  "new_cursor = \<lparr>sc_capacity = 0, sc_size = 0, sc_content = None\<rparr>"

text \<open>The loop that copies the slots, \<open>n\<close> of them from \<open>i\<close> on.\<close>

fun copy_slots :: "nat \<Rightarrow> nat \<Rightarrow> ('i, 'c) CursorSlice list \<Rightarrow> ('i, 'c) CursorSlice list \<Rightarrow> ('i, 'c) CursorSlice list option" where
  "copy_slots 0 i old new = Some new"
| "copy_slots (Suc n) i old new = do {
     x \<leftarrow> array_at old (int i);
     y \<leftarrow> array_at new (int i);
     new \<leftarrow> array_set new (int i) (y\<lparr>cs_node_cursor := cs_node_cursor x, cs_bnode_cursor := cs_bnode_cursor x\<rparr>);
     copy_slots n (i + 1) old new }"

text \<open>A slice has 24 bytes, and as many slices fit into a block as its size, cut to 32 bits, has room for.\<close>

definition push_cursor :: "'i \<Rightarrow> 'c \<Rightarrow> nat \<Rightarrow> ('i, 'c) SCursor \<Rightarrow> ('i, 'c) SCursor option" where
  "push_cursor node node_cursor bnode_cursor cu = do {
     cu \<leftarrow> (if sc_capacity cu = 0 then Some (cu\<lparr>sc_content := Some (new_slots 1)\<rparr>)
       else if sc_capacity cu \<le> sc_size cu then do {
         let cu = cu\<lparr>sc_capacity := sc_capacity cu * 2\<rparr>;
         old \<leftarrow> sc_content cu;
         new_addr \<leftarrow> copy_slots (sc_size cu) 0 old (new_slots (24 * sc_capacity cu mod 2 ^ 32 div 24));
         Some (cu\<lparr>sc_content := Some new_addr\<rparr>) }
       else Some cu);
     content \<leftarrow> sc_content cu;
     content \<leftarrow> array_set content (int (sc_size cu))
       \<lparr>cs_node = Some node, cs_node_cursor = Some node_cursor, cs_bnode_cursor = Some bnode_cursor\<rparr>;
     Some (cu\<lparr>sc_content := Some content, sc_size := sc_size cu + 1\<rparr>) }"

text \<open>Popping frees the tree's cursor in the slot, which is not modelled further than that it has to be there.\<close>

definition pop_cursor :: "('i, 'c) SCursor \<Rightarrow> ('i, 'c) SCursor option" where
  "pop_cursor cu = (if sc_size cu \<noteq> 0 then do {
       content \<leftarrow> sc_content cu;
       x \<leftarrow> array_at content (int (sc_size cu) - 1);
       _ \<leftarrow> cs_node_cursor x;
       Some (cu\<lparr>sc_size := sc_size cu - 1\<rparr>) }
     else Some cu)"

definition top_cursor :: "('i, 'c) SCursor \<Rightarrow> ('i, 'c) CursorSlice option option" where
  "top_cursor cu = (if sc_size cu \<noteq> 0 then do {
       content \<leftarrow> sc_content cu;
       x \<leftarrow> array_at content (int (sc_size cu) - 1);
       Some (Some x) }
     else Some None)"

text \<open>The capacity stays \<open>0\<close>, so a second slice never finds room.\<close>

lemma push_cursor_once:
  assumes "push_cursor i c b new_cursor = Some cu"
  shows "top_cursor cu = Some (Some \<lparr>cs_node = Some i, cs_node_cursor = Some c, cs_bnode_cursor = Some b\<rparr>)"
    "push_cursor i' c' b' cu = None"
  using assms by (auto simp: push_cursor_def new_cursor_def new_slots_def top_cursor_def array_at_def array_set_def)

section \<open>What a border node holds\<close>

datatype 'v rest = NoRest | SuffixRest "byte list" "'v option" | LinkRest 'v

record 'v border =
  b_prefix :: "nat \<Rightarrow> 'v option option"
  b_rest :: "'v rest"

definition prefix_of :: "u64 \<Rightarrow> 'v option list \<Rightarrow> nat \<Rightarrow> 'v option option" where
  "prefix_of flags links i = (if i \<le> keyslice_length \<and> bit flags i then Some (links ! i) else None)"

definition rest_of :: "byte list option \<Rightarrow> 'v option \<Rightarrow> 'v rest" where
  "rest_of suffix link = (case suffix of Some s \<Rightarrow> SuffixRest s link
     | None \<Rightarrow> (case link of None \<Rightarrow> NoRest | Some x \<Rightarrow> LinkRest x))"

definition border_of :: "'v SBorderNode \<Rightarrow> 'v border" where
  "border_of bn = \<lparr>b_prefix = prefix_of (s_prefixFlags bn) (s_prefixLinks bn),
     b_rest = rest_of (s_keySuffix bn) (s_suffixLink bn)\<rparr>"

text \<open>The nodes the operations make: a link for each length, flags for these lengths only, \<^verbatim>\<open>NULL\<close> where no flag is set, and the
  length of the suffix, which is below \<open>2 ^ 32\<close>.\<close>

definition border_typed :: "'v SBorderNode \<Rightarrow> bool" where
  "border_typed bn \<longleftrightarrow> length (s_prefixLinks bn) = keyslice_length + 1 \<and>
     (\<forall>i. bit (s_prefixFlags bn) i \<longrightarrow> i \<le> keyslice_length) \<and>
     (\<forall>i\<le>keyslice_length. \<not> bit (s_prefixFlags bn) i \<longrightarrow> s_prefixLinks bn ! i = None) \<and>
     (case s_keySuffix bn of None \<Rightarrow> s_keySuffixLength bn = 0
      | Some s \<Rightarrow> length s < 2 ^ 32 \<and> s_keySuffixLength bn = of_nat (length s))"

lemma unat_len [simp]: "n < 2 ^ 64 \<Longrightarrow> unat (of_nat n :: u64) = n"
  by (simp add: unat_of_nat take_bit_nat_eq_self)

lemma alloc_room:
  "surely_malloc_s has_mem (of_nat n) = (if has_mem (of_nat n) then Some (n mod 2 ^ 32) else None)"
proof -
  have "ucast (of_nat n :: u64) = (of_nat n :: 32 word)" by (simp add: unsigned_of_nat word_of_nat_eq_iff)
  then show ?thesis by (simp add: surely_malloc_s_def Let_def unat_of_nat take_bit_eq_mod)
qed

lemma one_flag: "i \<le> keyslice_length \<Longrightarrow> shl_int 1 (int i) = Some (2 ^ i)"
proof -
  assume i: "i \<le> keyslice_length"
  have "(2 :: int) ^ i \<le> 2 ^ 8" by (rule power_increasing) (use i in \<open>simp_all add: keyslice_length_def\<close>)
  then show ?thesis using i by (simp add: shl_int_def INT_MAX_def keyslice_length_def)
qed

lemma readFlag_bit [simp]: "i \<le> keyslice_length \<Longrightarrow> readFlag f i = Some (bit f i)"
  by (simp add: readFlag_def one_flag and_exp_eq_0_iff_not_bit)

lemma setFlag_bit:
  assumes "i \<le> keyslice_length"
  obtains f' where "setFlag f i = Some f'" "\<And>k. bit f' k \<longleftrightarrow> bit f k \<or> k = i"
proof -
  have "bit (2 ^ i :: u64) k \<longleftrightarrow> k = i" for k
    using assms by (auto simp: bit_exp_iff keyslice_length_def)
  then show thesis using that by (simp add: setFlag_def one_flag [OF assms] bit_or_iff)
qed

text \<open>Clearing a flag, which no operation does, leaves all others.\<close>

lemma clearFlag_bit:
  assumes "i \<le> keyslice_length"
  obtains f' where "clearFlag f i = Some f'" "\<And>k. bit f' k \<longleftrightarrow> bit f k \<and> k \<noteq> i"
proof -
  have "bit (word_of_int (NOT (2 ^ i)) :: u64) k \<longleftrightarrow> k < 64 \<and> k \<noteq> i" for k
    by (auto simp: bit_word_of_int_iff bit_not_iff bit_exp_iff)
  then show thesis using that bit_imp_le_length [of f] by (auto simp: clearFlag_def one_flag [OF assms] bit_and_iff)
qed

lemma alloc_structs:
  assumes "\<forall>n. has_mem n"
  shows "surely_malloc_s has_mem sizeof_SBorderNode = Some 104" "surely_malloc_s has_mem sizeof_Key = Some 16"
  using assms by (simp_all add: surely_malloc_s_def sizeof_SBorderNode_def sizeof_Key_def)

lemma new_border:
  assumes "\<forall>n. has_mem n"
  obtains bn where "BN_NewBorderNode_s has_mem = Some bn" "border_typed bn" "border_of bn = \<lparr>b_prefix = (\<lambda>_. None), b_rest = NoRest\<rparr>"
proof
  let ?bn = "\<lparr>s_prefixFlags = 0, s_prefixLinks = replicate (MAX_BN_SIZE_s + 1) None, s_suffixLink = None,
     s_keySuffix = None, s_keySuffixLength = 0\<rparr>"
  show "BN_NewBorderNode_s has_mem = Some ?bn"
    by (simp add: BN_NewBorderNode_s_def alloc_structs [OF assms]) (simp add: sizeof_SBorderNode_def)
  show "border_typed ?bn" "border_of ?bn = \<lparr>b_prefix = (\<lambda>_. None), b_rest = NoRest\<rparr>"
    by (auto simp: border_typed_def border_of_def prefix_of_def rest_of_def MAX_BN_SIZE_s_def less_Suc_eq_le [symmetric] simp del: replicate_Suc)
qed

lemma set_prefix_ok:
  assumes "border_typed bn" "i \<le> keyslice_length"
  shows "\<exists>bn'. BN_SetPrefixValue_s bn i v = Some bn' \<and> border_typed bn' \<and>
    border_of bn' = (border_of bn)\<lparr>b_prefix := (b_prefix (border_of bn))(i \<mapsto> v)\<rparr>"
proof -
  obtain f where f: "setFlag (s_prefixFlags bn) i = Some f" "\<And>k. bit f k \<longleftrightarrow> bit (s_prefixFlags bn) k \<or> k = i"
    using setFlag_bit [OF assms(2)] by metis
  have l: "i < length (s_prefixLinks bn)" using assms by (simp add: border_typed_def)
  show ?thesis
    using assms l f by (auto simp: BN_SetPrefixValue_s_def border_typed_def border_of_def nth_list_update prefix_of_def [abs_def]
        split: option.splits)
qed

text \<open>A suffix of up to \<open>2 ^ 32 - 1\<close> bytes is stored; a longer one overflows its block.\<close>

lemma set_suffix_ok:
  assumes "border_typed bn" "\<forall>n. has_mem n" "length s < 2 ^ 32"
  shows "\<exists>bn'. BN_SetSuffixValue_s has_mem bn s (of_nat (length s)) v = Some bn' \<and> border_typed bn' \<and>
    border_of bn' = (border_of bn)\<lparr>b_rest := SuffixRest s v\<rparr>"
  using assms by (auto simp: BN_SetSuffixValue_s_def alloc_room border_typed_def border_of_def rest_of_def)

lemma set_suffix_overflows:
  assumes "2 ^ 32 \<le> length s" "length s < 2 ^ 64"
  shows "BN_SetSuffixValue_s has_mem bn s (of_nat (length s)) v = None"
proof -
  have "length s mod 2 ^ 32 < 2 ^ 32" by simp
  then have "\<not> length s \<le> length s mod 2 ^ 32" using assms(1) by linarith
  then show ?thesis using assms(2) by (simp add: BN_SetSuffixValue_s_def alloc_room assert_c_def)
qed

lemma set_value_eq:
  assumes "length key < 2 ^ 64"
  shows "BN_SetValue_s has_mem bn key v = (if length key > keyslice_length
    then BN_SetSuffixValue_s has_mem bn (drop keyslice_length key) (of_nat (length (drop keyslice_length key))) v
    else BN_SetPrefixValue_s bn (length key) v)"
proof -
  have "key_len key > of_nat keyslice_length \<longleftrightarrow> length key > keyslice_length"
    using assms by (simp add: key_len_def word_less_nat_alt keyslice_length_def)
  moreover have "key_len key - of_nat keyslice_length = of_nat (length (drop keyslice_length key))"
    if "length key > keyslice_length"
    using that by (simp add: key_len_def of_nat_diff)
  ultimately show ?thesis using assms by (simp add: BN_SetValue_s_def) (simp add: key_len_def)
qed

section \<open>Runs\<close>

datatype 'v border_call = SetPrefix nat "'v option" | SetSuffix "byte list" "'v option" | SetLink "'v option"
  | SetValue "byte list" "'v option" | Export

fun border_do :: "(32 word \<Rightarrow> bool) \<Rightarrow> 'v border_call \<Rightarrow> 'v SBorderNode \<Rightarrow> 'v SBorderNode option" where
  "border_do has_mem (SetPrefix i v) bn = BN_SetPrefixValue_s bn i v"
| "border_do has_mem (SetSuffix s v) bn = BN_SetSuffixValue_s has_mem bn s (of_nat (length s)) v"
| "border_do has_mem (SetLink v) bn = Some (BN_SetLink_s bn v)"
| "border_do has_mem (SetValue key v) bn = BN_SetValue_s has_mem bn key v"
| "border_do has_mem Export bn = map_option snd (BN_ExportSuffixValue_s has_mem bn)"

fun border_loop :: "(32 word \<Rightarrow> bool) \<Rightarrow> 'v border_call list \<Rightarrow> 'v SBorderNode \<Rightarrow> 'v SBorderNode option" where
  "border_loop has_mem [] bn = Some bn"
| "border_loop has_mem (a # cs) bn = do { bn \<leftarrow> border_do has_mem a bn; border_loop has_mem cs bn }"

text \<open>The calls, on a new node.\<close>

definition border_run :: "(32 word \<Rightarrow> bool) \<Rightarrow> 'v border_call list \<Rightarrow> 'v SBorderNode option" where
  "border_run has_mem cs = do { bn \<leftarrow> BN_NewBorderNode_s has_mem; border_loop has_mem cs bn }"

fun border_spec :: "'v border_call \<Rightarrow> 'v border \<Rightarrow> 'v border" where
  "border_spec (SetPrefix i v) B = B\<lparr>b_prefix := (b_prefix B)(i \<mapsto> v)\<rparr>"
| "border_spec (SetSuffix s v) B = B\<lparr>b_rest := SuffixRest s v\<rparr>"
| "border_spec (SetLink v) B = B\<lparr>b_rest := (case v of None \<Rightarrow> NoRest | Some x \<Rightarrow> LinkRest x)\<rparr>"
| "border_spec (SetValue key v) B = (if length key > keyslice_length then B\<lparr>b_rest := SuffixRest (drop keyslice_length key) v\<rparr>
     else B\<lparr>b_prefix := (b_prefix B)(length key \<mapsto> v)\<rparr>)"
| "border_spec Export B = (case b_rest B of SuffixRest s v \<Rightarrow> B\<lparr>b_rest := NoRest\<rparr> | _ \<Rightarrow> B)"

text \<open>A prefix has at most eight bytes, and the length of a string is a \<^verbatim>\<open>size_t\<close>.\<close>

fun c_call :: "'v border_call \<Rightarrow> bool" where
  "c_call (SetPrefix i v) \<longleftrightarrow> i \<le> keyslice_length"
| "c_call (SetSuffix s v) \<longleftrightarrow> length s < 2 ^ 64"
| "c_call (SetValue key v) \<longleftrightarrow> length key < 2 ^ 64"
| "c_call _ \<longleftrightarrow> True"

text \<open>The suffix of the call, if any, has a length that an \<^verbatim>\<open>unsigned int\<close> holds.\<close>

fun suffix_fits :: "'v border_call \<Rightarrow> bool" where
  "suffix_fits (SetSuffix s v) \<longleftrightarrow> length s < 2 ^ 32"
| "suffix_fits (SetValue key v) \<longleftrightarrow> length key - keyslice_length < 2 ^ 32"
| "suffix_fits _ \<longleftrightarrow> True"

lemma border_do_ok:
  assumes "border_typed bn" "c_call a" "suffix_fits a" "\<forall>n. has_mem n"
  shows "\<exists>bn'. border_do has_mem a bn = Some bn' \<and> border_typed bn' \<and> border_of bn' = border_spec a (border_of bn)"
proof (cases a)
  case (SetPrefix i v)
  then show ?thesis using set_prefix_ok [OF assms(1), of i v] assms(2) by simp
next
  case (SetSuffix s v)
  then show ?thesis using set_suffix_ok [OF assms(1,4)] assms(3) by simp
next
  case (SetLink v)
  then show ?thesis using assms(1) by (simp add: BN_SetLink_s_def border_typed_def border_of_def rest_of_def)
next
  case (SetValue key v)
  then show ?thesis
    using set_suffix_ok [OF assms(1,4), of "drop keyslice_length key" v] set_prefix_ok [OF assms(1), of "length key" v] assms(2,3)
    by (simp add: set_value_eq del: of_nat_diff)
next
  case Export
  have "unat sizeof_Key \<le> 16" by (simp add: sizeof_Key_def)
  then show ?thesis
    using assms(1) Export by (auto simp: BN_ExportSuffixValue_s_def alloc_structs [OF assms(4)] border_typed_def border_of_def
        rest_of_def split: option.splits)
qed

lemma border_do_overflows:
  assumes "c_call a" "\<not> suffix_fits a"
  shows "border_do has_mem a bn = None"
proof (cases a)
  case (SetSuffix s v)
  then show ?thesis using assms set_suffix_overflows [of s] by simp
next
  case (SetValue key v)
  have "length key - keyslice_length < 2 ^ 64" using assms(1) SetValue by simp
  then have "BN_SetSuffixValue_s has_mem bn (drop keyslice_length key) (of_nat (length key - keyslice_length)) v = None"
    using set_suffix_overflows [of "drop keyslice_length key" has_mem bn v] assms(2) SetValue by simp
  then show ?thesis using assms SetValue by (cases "keyslice_length < length key") (simp_all add: set_value_eq del: of_nat_diff)
qed (use assms in simp_all)

lemma border_loop_ok:
  assumes "border_typed bn" "\<forall>a\<in>set cs. c_call a \<and> suffix_fits a" "\<forall>n. has_mem n"
  shows "\<exists>bn'. border_loop has_mem cs bn = Some bn' \<and> border_typed bn' \<and> border_of bn' = fold border_spec cs (border_of bn)"
  using assms(1,2)
proof (induction cs arbitrary: bn)
  case (Cons a cs)
  obtain bn1 where "border_do has_mem a bn = Some bn1" "border_typed bn1" "border_of bn1 = border_spec a (border_of bn)"
    using border_do_ok [OF Cons.prems(1) _ _ assms(3), of a] Cons.prems(2) by auto
  then show ?case using Cons.IH [of bn1] Cons.prems(2) by simp
qed simp

lemma border_loop_overflows:
  assumes "\<forall>a\<in>set cs. c_call a" "\<exists>a\<in>set cs. \<not> suffix_fits a"
  shows "border_loop has_mem cs bn = None"
  using assms
proof (induction cs arbitrary: bn)
  case (Cons a cs)
  then show ?case using border_do_overflows [of a has_mem bn] by (cases "suffix_fits a") (auto split: Option.bind_splits)
qed simp

section \<open>Reading\<close>

lemma get_prefix_ok:
  "border_typed bn \<Longrightarrow> i \<le> keyslice_length \<Longrightarrow>
   BN_GetPrefixValue_s bn i = Some (b_prefix (border_of bn) i \<noteq> None, case b_prefix (border_of bn) i of None \<Rightarrow> None | Some v \<Rightarrow> v)"
  by (auto simp: BN_GetPrefixValue_s_def border_typed_def border_of_def prefix_of_def rest_of_def)

lemma get_suffix_ok:
  "border_typed bn \<Longrightarrow> length s < 2 ^ 64 \<Longrightarrow>
   BN_GetSuffixValue_s bn s (of_nat (length s)) = Some (case b_rest (border_of bn) of SuffixRest t v \<Rightarrow> if s = t then v else None | _ \<Rightarrow> None)"
  by (auto simp: BN_GetSuffixValue_s_def border_typed_def border_of_def prefix_of_def rest_of_def UTIL_StrEqual_iff split: option.splits)

lemma get_link_ok: "BN_GetLink_s bn = (case b_rest (border_of bn) of LinkRest x \<Rightarrow> Some x | _ \<Rightarrow> None)"
  by (auto simp: BN_GetLink_s_def border_of_def prefix_of_def rest_of_def split: option.splits)

text \<open>The entries from a position on: lengths of prefixes, \<open>9\<close> for the suffix or link, \<open>10\<close> for the end.\<close>

definition border_next :: "'v border \<Rightarrow> nat \<Rightarrow> nat" where
  "border_next B i = (case find (\<lambda>j. b_prefix B j \<noteq> None) [i..<keyslice_length + 1] of Some j \<Rightarrow> j
     | None \<Rightarrow> if i \<le> keyslice_length + 1 \<and> b_rest B \<noteq> NoRest then keyslice_length + 1 else keyslice_length + 2)"

lemma next_flag_find: "next_flag_loop f i = Some (find (bit f) [i..<keyslice_length + 1])"
proof (induction f i rule: next_flag_loop.induct)
  case (1 f i)
  show ?case
  proof (cases "i \<le> keyslice_length")
    case True
    then show ?thesis using 1 by (subst next_flag_loop.simps) (simp add: upt_conv_Cons [of i] del: upt_Suc)
  qed (subst next_flag_loop.simps, simp)
qed

lemma next_cursor_ok: "bordernode_next_cursor i bn = Some (border_next (border_of bn) i)"
proof -
  have "find (\<lambda>j. b_prefix (border_of bn) j \<noteq> None) [i..<keyslice_length + 1] =
      find (bit (s_prefixFlags bn)) [i..<keyslice_length + 1]"
    by (rule find_cong) (auto simp: border_of_def prefix_of_def rest_of_def)
  then show ?thesis
    by (auto simp: bordernode_next_cursor_def border_next_def next_flag_find border_of_def prefix_of_def rest_of_def simp del: upt_Suc
        split: option.splits)
qed

end
