(* ===== verification/Apps_Properties.thy ===== *)
theory Apps_Properties
  imports RL_Apps StringBag Permuter DB_Client SI_Border
begin

text \<open>
  The properties of the programs around the B+-trees: the range query, the index client, the string bag,
  the permuter and the border nodes of the string index.
\<close>

section \<open>The range query\<close>

text \<open>C32: \<^verbatim>\<open>RLAPP_RangeQuery\<close>, from any valid cursor and with memory at hand, returns the records whose keys lie
  between the two bounds, in the order of the keys, with their number, or \<^verbatim>\<open>NULL\<close> if there are none; but it is
  undefined when every key is below the range, and when there are more than four results, which it writes
  past its array.\<close>

theorem range_query:
  assumes "cursor_at s c xs p" "p < length xs" "ok 2" "ok 4" "rs = in_range lower upper xs"
  shows "if (\<forall>k\<in>set (keys_of xs). k < lower) \<or> 4 < length rs
    then RLAPP_RangeQuery ok s c lower upper = None
    else \<exists>a c' q. RLAPP_RangeQuery ok s c lower upper = Some (if rs = [] then None else Some a, of_nat (length rs), c') \<and>
      take (length rs) a = map (\<lambda>x. Some (snd x)) rs \<and> cursor_at s c' xs q"
  unfolding assms(5) by (rule range_query_at [OF assms(1-4)])

theorem range_query_witness:
  "\<exists>a c'. RLAPP_RangeQuery (\<lambda>_. True) (one_leaf [(1, ''a''), (3, ''b''), (5, ''c''), (9, ''d'')]) start_cursor 2 5 =
     Some (Some a, 2, c') \<and> take 2 a = [Some ''b'', Some ''c'']"
proof -
  let ?xs = "[(1, ''a''), (3, ''b''), (5, ''c''), (9, ''d'')] :: (Key \<times> string) list"
  let ?rs = "[(3, ''b''), (5, ''c'')] :: (Key \<times> string) list"
  have at: "cursor_at (one_leaf ?xs) start_cursor ?xs 0" by (rule one_leaf_at) (simp_all add: FANOUT_def)
  have rs: "?rs = in_range 2 5 ?xs" by (simp add: in_range_def word_le_nat_alt)
  have "\<not> ((\<forall>k\<in>set (keys_of ?xs). k < 2) \<or> 4 < length ?rs)" by (simp add: word_less_nat_alt)
  then have "\<exists>a c' q. RLAPP_RangeQuery (\<lambda>_. True) (one_leaf ?xs) start_cursor 2 5 =
      Some (if ?rs = [] then None else Some a, of_nat (length ?rs), c') \<and>
      take (length ?rs) a = map (\<lambda>x. Some (snd x)) ?rs \<and> cursor_at (one_leaf ?xs) c' ?xs q"
    using range_query [OF at _ _ _ rs, of "\<lambda>_. True"] by (simp only: if_False) simp
  then show ?thesis by (auto simp: numeral_2_eq_2)
qed

section \<open>The index client\<close>



section \<open>The string bag\<close>

text \<open>C15: a string bag is an array of strings: after any run of assignments to a new bag, those were refused that
  would need more bytes than are left (a string no longer than the one it replaces needs none), and reading
  a position returns the last string assigned to it, whatever the lengths and the order.\<close>

theorem string_bag_run:
  assumes "0 < w" "w < 2 ^ 31" "overhead w \<le> unat cap" "unat cap \<le> length mem" "unat cap + 2 ^ 31 \<le> 2 ^ 64"
    and "calls_ok w as" "bag_spec (unat cap) (overhead w) (replicate w []) as = (rs, ss)"
  shows "\<exists>b b'. SB_NewStringBag (Some mem) (int w) cap = Some b \<and> sb_run b as = Some (rs, b') \<and>
    (\<forall>p<w. sb_read b' p = Some (ss ! p))"
proof -
  obtain b where b: "SB_NewStringBag (Some mem) (int w) cap = Some b" "sb_inv b" "bag_strings b = replicate w []"
    "sb_capacity b = cap" "unat (sb_size b) = overhead w"
    using new_bag [OF assms(1-4)] by blast
  have w: "length (sb_info b) = w" using arg_cong [OF b(3), of length] by simp
  obtain b' where b': "sb_run b as = Some (rs, b')" "sb_inv b'" "bag_strings b' = ss" "length (sb_info b') = w"
    "\<forall>u\<in>set ss. length u < 2 ^ 31"
    using run_ok [OF b(2), of as rs ss] assms(5-7) b(3-5) w by auto
  have "sb_read b' p = Some (ss ! p)" if "p < w" for p
  proof -
    have "length ss = w" using b'(3,4) length_bag_strings by metis
    then have "length (bag_strings b' ! p) < 2 ^ 31" using b'(3,5) that by (metis nth_mem)
    then show ?thesis using read_ok [OF b'(2)] that b'(3,4) by metis
  qed
  then show ?thesis using b(1) b'(1) by blast
qed

theorem string_bag_run_witness:
  "\<exists>b b'. SB_NewStringBag (Some (replicate 60 0)) 2 53 = Some b \<and>
     sb_run b [(0, [1, 2]), (1, [3, 4, 5]), (0, [6, 7]), (1, [8, 9, 8, 9]), (1, [9])] = Some ([True, True, True, False, True], b') \<and>
     sb_read b' 0 = Some [6, 7] \<and> sb_read b' 1 = Some [9]"
proof -
  let ?as = "[(0, [1, 2]), (1, [3, 4, 5]), (0, [6, 7]), (1, [8, 9, 8, 9]), (1, [9])] :: (nat \<times> byte list) list"
  have two: "replicate 2 ([] :: byte list) = [[], []]" by (simp add: numeral_2_eq_2)
  have "\<exists>b b'. SB_NewStringBag (Some (replicate 60 0)) (int 2) 53 = Some b \<and>
     sb_run b ?as = Some ([True, True, True, False, True], b') \<and> (\<forall>p<2. sb_read b' p = Some ([[6, 7], [9]] ! p))"
    by (rule string_bag_run) (simp_all add: overhead_def calls_ok_def two)
  then obtain b b' where "SB_NewStringBag (Some (replicate 60 0)) (int 2) 53 = Some b"
     "sb_run b ?as = Some ([True, True, True, False, True], b')" "\<forall>p<2. sb_read b' p = Some ([[6, 7], [9]] ! p)" by blast
  moreover from this(3) have "sb_read b' 0 = Some [6, 7]" "sb_read b' 1 = Some [9]" by (auto dest: spec [of _ 0] spec [of _ 1])
  ultimately show ?thesis by (metis of_nat_numeral)
qed

section \<open>The permuter\<close>

text \<open>C39: setting one of the first six elements (\<open>i \<le> 5\<close>) of a permuter to the low four bits of a value changes this element
  alone, as in an array of fifteen, and keeps the size, as setting the size keeps the elements; setting an element from
  the seventh on (\<open>6 \<le> i\<close>), which \<^verbatim>\<open>permuter.h\<close> allows, is undefined. The new permutation is the result of
  \<^verbatim>\<open>Permuter_set\<close> as \<^verbatim>\<open>permuter.c\<close> defines it; \<^verbatim>\<open>permuter.h\<close> declares the function \<^verbatim>\<open>void\<close>, so the file does not
  compile before one of the two is corrected.\<close>

theorem permuter_elements:
  fixes p :: "64 word"
  assumes "i < 15" "j < 15" "0 \<le> v" "v < 16"
  shows "(if i \<le> 5 then \<exists>q. Permuter_set p (int i) v = Some q \<and> Permuter_size q = Permuter_size p \<and>
        Permuter_get q (int j) = (if j = i then Some v else Permuter_get p (int j))
      else Permuter_set p (int i) v = None) \<and>
    Permuter_size (Permuter_setSize p v) = v \<and> Permuter_get (Permuter_setSize p v) (int j) = Permuter_get p (int j)"
proof (intro conjI)
  have v: "v AND 15 = v" using assms(3,4) int_low_nibble by blast
  have s: "sint (word_of_int v :: 64 word) = v" using assms(3,4) by (subst signed_of_int) (simp add: signed_take_bit_int_eq_self)
  show "if i \<le> 5 then \<exists>q. Permuter_set p (int i) v = Some q \<and> Permuter_size q = Permuter_size p \<and>
        Permuter_get q (int j) = (if j = i then Some v else Permuter_get p (int j))
      else Permuter_set p (int i) v = None"
  proof (cases "i \<le> 5")
    case True
    obtain q where q: "Permuter_set p (int i) v = Some q" "\<And>k. nibble q k = (if k = Suc i then word_of_int v else nibble p k)"
      using set_nibble [OF True, of p v] unfolding v by blast
    then show ?thesis using True s assms(2) by (simp add: size_nibble get_nibble)
  next
    case False
    then show ?thesis using set_beyond [of i] by simp
  qed
  show "Permuter_size (Permuter_setSize p v) = v" using s v by (simp add: size_nibble setSize_nibble)
  show "Permuter_get (Permuter_setSize p v) (int j) = Permuter_get p (int j)"
    using assms(2) by (simp add: get_nibble setSize_nibble)
qed

theorem permuter_elements_witness:
  "(\<exists>q. Permuter_set (Permuter_setSize 0 3) (int 2) 9 = Some q \<and> Permuter_get q (int 2) = Some 9) \<and>
     Permuter_set (Permuter_setSize 0 3) (int 6) 9 = None"
  using permuter_elements [of 2 2 9 "Permuter_setSize 0 3"] permuter_elements [of 6 2 9 "Permuter_setSize 0 3"] by auto

section \<open>Border nodes of the string index\<close>

text \<open>C21: a run of the operations on a new border node of \<^verbatim>\<open>index_string.c\<close>, with prefixes of at most eight bytes and
  with memory for every block that is asked for, is defined if every suffix is shorter than \<open>2 ^ 32\<close> bytes, and undefined
  otherwise: \<^verbatim>\<open>surely_malloc\<close> takes the length as an \<^verbatim>\<open>unsigned int\<close>, and the suffix is copied past the end of a block
  that is too small. A defined run keeps the node well-typed (nine links, flags for these only, \<^verbatim>\<open>NULL\<close> where there is none, and
  the true length of the suffix); the reads give what an abstract node holds, and \<^verbatim>\<open>bordernode_next_cursor\<close> finds the
  next entry.\<close>

theorem border_node_run:
  fixes cs :: "'v border_call list"
  assumes "\<forall>a\<in>set cs. c_call a" "\<forall>n. has_mem n"
  shows "if \<forall>a\<in>set cs. suffix_fits a then \<exists>bn. border_run has_mem cs = Some bn \<and> border_typed bn \<and>
    (let B = fold border_spec cs \<lparr>b_prefix = (\<lambda>_. None), b_rest = NoRest\<rparr> in
      (\<forall>i\<le>keyslice_length. BN_GetPrefixValue_s bn i =
        Some (case b_prefix B i of None \<Rightarrow> (False, None) | Some v \<Rightarrow> (True, v))) \<and>
      (\<forall>s. length s < 2 ^ 64 \<longrightarrow> BN_GetSuffixValue_s bn s (of_nat (length s)) =
        Some (case b_rest B of SuffixRest t v \<Rightarrow> if s = t then v else None | _ \<Rightarrow> None)) \<and>
      BN_GetLink_s bn = (case b_rest B of LinkRest x \<Rightarrow> Some x | _ \<Rightarrow> None) \<and>
      (\<forall>i. bordernode_next_cursor i bn = Some (border_next B i)))
    else border_run has_mem cs = None"
proof -
  obtain bn0 :: "'v SBorderNode" where bn0: "BN_NewBorderNode_s has_mem = Some bn0" "border_typed bn0"
    "border_of bn0 = \<lparr>b_prefix = (\<lambda>_. None), b_rest = NoRest\<rparr>" by (rule new_border [OF assms(2)])
  show ?thesis
  proof (cases "\<forall>a\<in>set cs. suffix_fits a")
    case True
    then obtain bn where bn: "border_run has_mem cs = Some bn" "border_typed bn"
      "border_of bn = fold border_spec cs \<lparr>b_prefix = (\<lambda>_. None), b_rest = NoRest\<rparr>"
      using border_loop_ok [OF bn0(2) _ assms(2), of cs] assms(1) bn0 by (auto simp: border_run_def)
    then show ?thesis
      by (simp add: True Let_def get_prefix_ok get_suffix_ok get_link_ok next_cursor_ok flip: bn(3))
        (simp split: option.split)
  next
    case False
    then show ?thesis using border_loop_overflows [of cs has_mem bn0] assms(1) bn0(1) by (auto simp: border_run_def)
  qed
qed

theorem border_node_run_witness:
  "(\<exists>bn. border_run (\<lambda>_. True) [SetPrefix 3 (Some ''x''), SetValue [1, 2, 3, 4, 5, 6, 7, 8, 9] (Some ''y''), SetPrefix 0 None, Export,
       SetLink (Some ''z''), SetValue [1, 2, 3, 4, 5] (Some ''u'')] = Some bn \<and>
     BN_GetPrefixValue_s bn 5 = Some (True, Some ''u'') \<and> BN_GetLink_s bn = Some ''z'' \<and>
     bordernode_next_cursor 1 bn = Some 3 \<and> bordernode_next_cursor 6 bn = Some 9) \<and>
   border_run (\<lambda>_. True) [SetPrefix 3 (Some ''x''), SetSuffix (replicate (2 ^ 32) 0) (Some ''y'')] = None"
proof
  let ?cs = "[SetPrefix 3 (Some ''x''), SetValue [1, 2, 3, 4, 5, 6, 7, 8, 9] (Some ''y''), SetPrefix 0 None, Export,
       SetLink (Some ''z''), SetValue [1, 2, 3, 4, 5] (Some ''u'')]"
  let ?B = "\<lparr>b_prefix = [3 \<mapsto> Some ''x'', 0 \<mapsto> None, 5 \<mapsto> Some ''u''], b_rest = LinkRest ''z''\<rparr>"
  have ok: "\<forall>a\<in>set ?cs. c_call a" "\<forall>a\<in>set ?cs. suffix_fits a" by (simp_all add: keyslice_length_def)
  have B: "fold border_spec ?cs \<lparr>b_prefix = (\<lambda>_. None), b_rest = NoRest\<rparr> = ?B" by (simp add: keyslice_length_def eval_nat_numeral)
  have nx: "border_next ?B (Suc 0) = 3" "border_next ?B 6 = 9"
    by (simp_all add: border_next_def keyslice_length_def upt_conv_Cons)
  have "\<forall>n. (\<lambda>_ :: 32 word. True) n" by simp
  from border_node_run [OF ok(1) this, unfolded if_P [OF ok(2)]]
  show "\<exists>bn. border_run (\<lambda>_. True) ?cs = Some bn \<and>
     BN_GetPrefixValue_s bn 5 = Some (True, Some ''u'') \<and> BN_GetLink_s bn = Some ''z'' \<and>
     bordernode_next_cursor 1 bn = Some 3 \<and> bordernode_next_cursor 6 bn = Some 9"
    unfolding B Let_def by (elim ex_forward) (simp add: nx keyslice_length_def)
  let ?long = "[SetPrefix 3 (Some ''x''), SetSuffix (replicate (2 ^ 32) 0) (Some ''y'')]"
  have "\<forall>a\<in>set ?long. c_call a" "\<not> (\<forall>a\<in>set ?long. suffix_fits a)" by (simp_all add: keyslice_length_def)
  then show "border_run (\<lambda>_. True) ?long = None" using border_node_run [of ?long "\<lambda>_. True"] by (simp only: if_False simp_thms)
qed

end
