(* ===== verification/Malloc_Model.thy ===== *)
theory Malloc_Model
  imports DB_Prelude
begin

text \<open>
  The allocator \<^verbatim>\<open>src/memmgr/malloc.c\<close> with \<^verbatim>\<open>mmap0.c\<close>: fifty bins of free chunks threaded through the memory
  they manage, refilled with big blocks from the operating system; larger requests are mapped one by one.

  An address is a natural number, 0 is \<^verbatim>\<open>NULL\<close>. The memory is the map of the mapped 8-byte words; an
  access elsewhere is undefined. The two system calls are parameters over a state \<open>'o\<close> of the system:
  \<open>mmap o len\<close> answers an address or \<^verbatim>\<open>MAP_FAILED\<close> (\<open>None\<close>), \<open>munmap o a len\<close> whether it succeeded.
\<close>

section \<open>Memory\<close>

type_synonym memory = "nat \<Rightarrow> nat option"

record 'o alloc =
  bin :: "nat list"
  cells :: memory
  os :: 'o

definition put_word :: "memory \<Rightarrow> nat \<Rightarrow> nat \<Rightarrow> memory option" where
  "put_word m a v = (if m a = None then None else Some (m(a \<mapsto> v)))"

text \<open>The words of the pages that hold the \<open>len\<close> bytes from a page address.\<close>

definition pages :: "u64 \<Rightarrow> nat" where
  "pages len = (unat len + 4095) div 4096 * 4096"

definition in_words :: "nat \<Rightarrow> nat \<Rightarrow> nat \<Rightarrow> bool" where
  "in_words a n x \<longleftrightarrow> x mod 8 = 0 \<and> a \<le> x \<and> x < a + n"

type_synonym 'o mmap = "'o \<Rightarrow> u64 \<Rightarrow> nat option \<times> 'o"
type_synonym 'o munmap = "'o \<Rightarrow> nat \<Rightarrow> u64 \<Rightarrow> bool \<times> 'o"

text \<open>\<^verbatim>\<open>mmap0\<close>: anonymous pages are zero.\<close>

definition mmap0 :: "'o mmap \<Rightarrow> u64 \<Rightarrow> 'o alloc \<Rightarrow> nat \<times> 'o alloc" where
  "mmap0 mmap len st = (case mmap (os st) len of
     (None, s) \<Rightarrow> (0, st\<lparr>os := s\<rparr>)
   | (Some p, s) \<Rightarrow> (p, st\<lparr>os := s, cells := (\<lambda>x. if in_words p (pages len) x then Some 0 else cells st x)\<rparr>))"

definition call_munmap :: "'o munmap \<Rightarrow> nat \<Rightarrow> u64 \<Rightarrow> 'o alloc \<Rightarrow> 'o alloc" where
  "call_munmap munmap a len st = (case munmap (os st) a len of
     (ok, s) \<Rightarrow> if ok then st\<lparr>os := s, cells := (\<lambda>x. if in_words a (pages len) x then None else cells st x)\<rparr>
       else st\<lparr>os := s\<rparr>)"

section \<open>Sizes and bins\<close>

definition WORD :: int where "WORD = 8"
definition ALIGN :: int where "ALIGN = 2"
definition WASTE :: int where "WASTE = WORD * ALIGN - WORD"
definition BIGBLOCK :: int where "BIGBLOCK = 131072 * WORD"
definition BINS :: int where "BINS = 50"

definition bin2size :: "int \<Rightarrow> u64" where
  "bin2size b = word_of_int (((b + 1) * ALIGN - 1) * WORD)"

definition size2bin :: "u64 \<Rightarrow> int" where
  "size2bin s = (if s > bin2size (BINS - 1) then -1
     else uint ((s + word_of_int (WORD * (ALIGN - 1) - 1)) div word_of_int (WORD * ALIGN)))"

section \<open>Blocks\<close>

text \<open>The \<^verbatim>\<open>while\<close> loop of \<^verbatim>\<open>list_from_block\<close>, which does not end if \<^verbatim>\<open>Nblocks\<close> is 0.\<close>

partial_function (option) block_loop :: "u64 \<Rightarrow> int \<Rightarrow> nat \<Rightarrow> int \<Rightarrow> memory \<Rightarrow> (nat \<times> memory) option" where
  "block_loop s Nblocks q j m = (if j = Nblocks - 1 then Some (q, m)
     else do {
       m \<leftarrow> put_word m q (unat s);
       m \<leftarrow> put_word m (q + 8) (q + 8 + unat (s + word_of_int WORD));
       block_loop s Nblocks (q + unat (s + word_of_int WORD)) (j + 1) m })"

definition list_from_block :: "u64 \<Rightarrow> nat \<Rightarrow> nat \<Rightarrow> memory \<Rightarrow> (nat \<times> memory) option" where
  "list_from_block s p tail m = do {
     let Nblocks = uint (word_of_int (BIGBLOCK - WASTE) div (s + word_of_int WORD));
     (q, m) \<leftarrow> block_loop s Nblocks (p + nat WASTE) 0 m;
     m \<leftarrow> put_word m q (unat s);
     m \<leftarrow> put_word m (q + 8) tail;
     Some (p + nat WASTE + nat WORD, m) }"

definition pre_fill :: "u64 \<Rightarrow> nat \<Rightarrow> 'o alloc \<Rightarrow> 'o alloc option" where
  "pre_fill n p st = do {
     let b = size2bin n;
     tail \<leftarrow> array_at (bin st) b;
     (l, m) \<leftarrow> list_from_block (bin2size b) p tail (cells st);
     bs \<leftarrow> array_set (bin st) b l;
     Some (st\<lparr>bin := bs, cells := m\<rparr>) }"

partial_function (option) pre_fill_loop :: "'o mmap \<Rightarrow> u64 \<Rightarrow> int \<Rightarrow> int \<Rightarrow> int \<Rightarrow> 'o alloc \<Rightarrow> (int \<times> 'o alloc) option" where
  "pre_fill_loop mmap n req chunks ful st = (if 0 < req - ful then
       if 2147483647 - ful < chunks then Some (ful, st)
       else case mmap0 mmap (word_of_int BIGBLOCK) st of (p, st) \<Rightarrow>
         if p = 0 then Some (ful, st)
         else do { st \<leftarrow> pre_fill n p st; pre_fill_loop mmap n req chunks (ful + chunks) st }
     else Some (ful, st))"

definition try_pre_fill :: "'o mmap \<Rightarrow> u64 \<Rightarrow> int \<Rightarrow> 'o alloc \<Rightarrow> (int \<times> 'o alloc) option" where
  "try_pre_fill mmap n req st = (if bin2size (BINS - 1) < n then Some (0, st)
     else let b = size2bin n;
              chunks = uint (word_of_int (BIGBLOCK - WASTE) div (bin2size b + word_of_int WORD))
          in pre_fill_loop mmap n req chunks 0 st)"

definition fill_bin :: "'o mmap \<Rightarrow> int \<Rightarrow> 'o alloc \<Rightarrow> (nat \<times> 'o alloc) option" where
  "fill_bin mmap b st = (case mmap0 mmap (word_of_int BIGBLOCK) st of (p, st) \<Rightarrow>
     if p = 0 then Some (0, st)
     else do { (l, m) \<leftarrow> list_from_block (bin2size b) p 0 (cells st); Some (l, st\<lparr>cells := m\<rparr>) })"

section \<open>Allocation\<close>

definition malloc_small :: "'o mmap \<Rightarrow> u64 \<Rightarrow> 'o alloc \<Rightarrow> (nat \<times> 'o alloc) option" where
  "malloc_small mmap nbytes st = do {
     let b = size2bin nbytes;
     p \<leftarrow> array_at (bin st) b;
     (p, st) \<leftarrow> (if p = 0 then do {
         (p, st) \<leftarrow> fill_bin mmap b st;
         if p = 0 then Some (0, st)
         else do { bs \<leftarrow> array_set (bin st) b p; Some (p, st\<lparr>bin := bs\<rparr>) } }
       else Some (p, st));
     if p = 0 then Some (0, st)
     else do {
       q \<leftarrow> cells st p;
       bs \<leftarrow> array_set (bin st) b q;
       Some (p, st\<lparr>bin := bs\<rparr>) } }"

definition malloc_large :: "'o mmap \<Rightarrow> u64 \<Rightarrow> 'o alloc \<Rightarrow> (nat \<times> 'o alloc) option" where
  "malloc_large mmap nbytes st = (case mmap0 mmap (nbytes + word_of_int WASTE + word_of_int WORD) st of (p, st) \<Rightarrow>
     if p = 0 then Some (0, st)
     else do {
       m \<leftarrow> put_word (cells st) (p + nat WASTE) (unat nbytes);
       Some (p + nat WASTE + nat WORD, st\<lparr>cells := m\<rparr>) })"

definition free_small :: "nat \<Rightarrow> u64 \<Rightarrow> 'o alloc \<Rightarrow> 'o alloc option" where
  "free_small p s st = do {
     let b = size2bin s;
     q \<leftarrow> array_at (bin st) b;
     m \<leftarrow> put_word (cells st) p q;
     bs \<leftarrow> array_set (bin st) b p;
     Some (st\<lparr>bin := bs, cells := m\<rparr>) }"

definition free_large :: "'o munmap \<Rightarrow> nat \<Rightarrow> u64 \<Rightarrow> 'o alloc \<Rightarrow> 'o alloc" where
  "free_large munmap p s st =
     call_munmap munmap (p - nat (WASTE + WORD)) (s + word_of_int WASTE + word_of_int WORD) st"

definition mm_free :: "'o munmap \<Rightarrow> nat \<Rightarrow> 'o alloc \<Rightarrow> 'o alloc option" where
  "mm_free munmap p st = (if p = 0 then Some st
     else do {
       v \<leftarrow> cells st (p - 8);
       let s = (of_nat v :: u64);
       if s \<le> bin2size (BINS - 1) then free_small p s st
       else Some (free_large munmap p s st) })"

definition mm_malloc :: "'o mmap \<Rightarrow> u64 \<Rightarrow> 'o alloc \<Rightarrow> (nat \<times> 'o alloc) option" where
  "mm_malloc mmap nbytes st = (if nbytes > bin2size (BINS - 1) then malloc_large mmap nbytes st
     else malloc_small mmap nbytes st)"

text \<open>The program starts with empty bins.\<close>

definition alloc_init :: "'o \<Rightarrow> 'o alloc" where
  "alloc_init s = \<lparr>bin = replicate (nat BINS) 0, cells = Map.empty, os = s\<rparr>"

section \<open>The values of the constants\<close>

lemmas alloc_consts = WORD_def ALIGN_def WASTE_def BIGBLOCK_def BINS_def

lemma bin2size_nat: "b < 50 \<Longrightarrow> unat (bin2size (int b)) = 16 * b + 8"
proof -
  assume "b < 50"
  have "bin2size (int b) = of_nat (16 * b + 8)" by (simp add: bin2size_def alloc_consts algebra_simps)
  then show ?thesis using \<open>b < 50\<close>
    by (simp only: unsigned_of_nat) (simp add: take_bit_nat_eq_self)
qed

lemma bin2size_last: "bin2size (BINS - 1) = 792"
  by (simp add: bin2size_def alloc_consts)

lemma size2bin_nat:
  assumes "s \<le> 792"
  shows "size2bin s = int ((unat s + 7) div 16)" "(unat s + 7) div 16 < 50"
proof -
  have s: "unat s \<le> 792" using assms by (simp add: word_le_nat_alt)
  then have "unat (s + 7) = unat s + 7" by (subst unat_add_lem [THEN iffD1]) simp_all
  then have "unat ((s + 7) div 16) = (unat s + 7) div 16" by (simp add: unat_div)
  then have u: "uint ((s + 7) div 16) = int ((unat s + 7) div 16)" by (metis uint_nat)
  show "size2bin s = int ((unat s + 7) div 16)"
    using assms unfolding size2bin_def bin2size_last by (simp add: not_less WORD_def ALIGN_def u)
  show "(unat s + 7) div 16 < 50" using s by simp
qed

end
