(* ===== verification/Malloc_List.thy ===== *)
theory Malloc_List
  imports Malloc_Model
begin

text \<open>
  Free lists: what a link word leads to, and the list that \<^verbatim>\<open>list_from_block\<close> builds in a big block.
\<close>

section \<open>Linked chunks\<close>

fun linked :: "memory \<Rightarrow> nat \<Rightarrow> nat list \<Rightarrow> bool" where
  "linked m p [] \<longleftrightarrow> p = 0"
| "linked m p (x # xs) \<longleftrightarrow> p = x \<and> x \<noteq> 0 \<and> (\<exists>n. m x = Some n \<and> linked m n xs)"

lemma linked_frame: "linked m p xs \<Longrightarrow> (\<And>x. x \<in> set xs \<Longrightarrow> m' x = m x) \<Longrightarrow> linked m' p xs"
  by (induction xs arbitrary: p) auto

lemma linked_0: "linked m 0 xs \<longleftrightarrow> xs = []"
  by (cases xs) auto

text \<open>\<open>n\<close> chunks, \<open>S\<close> bytes apart from \<open>x\<close> on, each linked to the next and the last to \<open>t\<close>.\<close>

lemma linked_run:
  assumes "0 < x" "\<And>i. Suc i < n \<Longrightarrow> m (x + i * S) = Some (x + Suc i * S)" "0 < n" "m (x + (n - 1) * S) = Some t"
    "linked m t qs"
  shows "linked m x (map (\<lambda>i. x + i * S) [0..<n] @ qs)"
  using assms
proof (induction n arbitrary: x)
  case (Suc n)
  show ?case
  proof (cases "n = 0")
    case True
    then show ?thesis using Suc.prems by simp
  next
    case False
    have shift: "map (\<lambda>i. x + i * S) [0..<Suc n] = x # map (\<lambda>i. x + S + i * S) [0..<n]"
      by (simp add: upt_rec [of 0 "Suc n"] map_Suc_upt [symmetric] add.assoc del: upt_Suc)
    have last: "m (x + S + (n - 1) * S) = Some t"
    proof -
      have "x + S + (n - 1) * S = x + (Suc n - 1) * S" using False by (cases n) simp_all
      then show ?thesis using Suc.prems(4) by (simp only:)
    qed
    have "linked m (x + S) (map (\<lambda>i. x + S + i * S) [0..<n] @ qs)"
    proof (rule Suc.IH [OF _ _ _ last Suc.prems(5)])
      show "m (x + S + i * S) = Some (x + S + Suc i * S)" if "Suc i < n" for i
        using Suc.prems(2) [of "Suc i"] that by (simp add: add.assoc)
    qed (use Suc.prems(1) False in simp_all)
    moreover have "m x = Some (x + S)" using Suc.prems(2) [of 0] False by simp
    ultimately show ?thesis using shift Suc.prems(1) by simp
  qed
qed simp

section \<open>Carving a block\<close>

lemma put_word_Some: "m a \<noteq> None \<Longrightarrow> put_word m a v = Some (m(a \<mapsto> v))"
  by (simp add: put_word_def)

text \<open>\<open>m'\<close> differs from \<open>m\<close> at words of \<open>X\<close> only, and has the same words.\<close>

definition writes :: "nat set \<Rightarrow> memory \<Rightarrow> memory \<Rightarrow> bool" where
  "writes X m m' \<longleftrightarrow> dom m' = dom m \<and> (\<forall>x. x \<notin> X \<longrightarrow> m' x = m x)"

lemma writesD: "writes X m m' \<Longrightarrow> dom m' = dom m" "writes X m m' \<Longrightarrow> x \<notin> X \<Longrightarrow> m' x = m x"
  by (simp_all add: writes_def)

lemma block_loop_ok:
  assumes "unat (s + word_of_int WORD) = S" "16 \<le> S" "j + int n = N - 1"
    "\<And>i. i < n \<Longrightarrow> m (q + i * S) \<noteq> None \<and> m (q + 8 + i * S) \<noteq> None"
  shows "\<exists>m'. block_loop s N q j m = Some (q + n * S, m') \<and> dom m' = dom m \<and>
     (\<forall>i<n. m' (q + i * S) = Some (unat s) \<and> m' (q + 8 + i * S) = Some (q + 8 + Suc i * S)) \<and>
     (\<forall>x. x < q \<or> q + n * S \<le> x \<longrightarrow> m' x = m x)"
  using assms(3,4)
proof (induction n arbitrary: q j m)
  case 0
  then have "block_loop s N q j m = Some (q, m)" by (subst block_loop.simps) simp
  then show ?case by simp
next
  case (Suc n)
  let ?m = "m(q \<mapsto> unat s, q + 8 \<mapsto> q + 8 + S)"
  have here: "m q \<noteq> None" "m (q + 8) \<noteq> None" using Suc.prems(2) [of 0] by simp_all
  have step: "block_loop s N q j m = block_loop s N (q + S) (j + 1) ?m"
    using Suc.prems(1) here by (subst block_loop.simps) (simp add: put_word_Some assms(1))
  have j: "j + 1 + int n = N - 1" using Suc.prems(1) by simp
  have mapped: "?m (q + S + i * S) \<noteq> None \<and> ?m (q + S + 8 + i * S) \<noteq> None" if "i < n" for i
    using Suc.prems(2) [of "Suc i"] that by (simp add: algebra_simps)
  obtain m' where m': "block_loop s N (q + S) (j + 1) ?m = Some (q + S + n * S, m')" "dom m' = dom ?m"
    "\<forall>i<n. m' (q + S + i * S) = Some (unat s) \<and> m' (q + S + 8 + i * S) = Some (q + S + 8 + Suc i * S)"
    "\<forall>x. x < q + S \<or> q + S + n * S \<le> x \<longrightarrow> m' x = ?m x"
    using Suc.IH [OF j mapped] by blast
  have "\<forall>i<Suc n. m' (q + i * S) = Some (unat s) \<and> m' (q + 8 + i * S) = Some (q + 8 + Suc i * S)"
  proof (intro allI impI)
    fix i assume "i < Suc n"
    then show "m' (q + i * S) = Some (unat s) \<and> m' (q + 8 + i * S) = Some (q + 8 + Suc i * S)"
      using m'(3) m'(4) [THEN spec, of q] m'(4) [THEN spec, of "q + 8"] assms(2)
      by (cases i) (simp_all add: algebra_simps)
  qed
  moreover have "\<forall>x. x < q \<or> q + Suc n * S \<le> x \<longrightarrow> m' x = m x"
  proof (intro allI impI)
    fix x assume x: "x < q \<or> q + Suc n * S \<le> x"
    then have "x < q + S \<or> q + S + n * S \<le> x" "x \<noteq> q" "x \<noteq> q + 8" using assms(2) by (auto simp: algebra_simps)
    then show "m' x = m x" using m'(4) [THEN spec, of x] by auto
  qed
  moreover have "dom m' = dom m" using m'(2) here by auto
  moreover have "block_loop s N q j m = Some (q + Suc n * S, m')" using step m'(1) by (simp add: algebra_simps)
  ultimately show ?case by blast
qed

abbreviation big :: nat where
  "big \<equiv> 1048576"

text \<open>The chunks of bin \<open>b\<close> in a big block at \<open>p\<close>.\<close>

definition nblocks :: "nat \<Rightarrow> nat" where
  "nblocks b = 1048568 div (16 * b + 16)"

definition block_chunk :: "nat \<Rightarrow> nat \<Rightarrow> nat \<Rightarrow> nat" where
  "block_chunk p b i = p + 16 + i * (16 * b + 16)"

definition block_chunks :: "nat \<Rightarrow> nat \<Rightarrow> nat list" where
  "block_chunks p b = map (block_chunk p b) [0..<nblocks b]"

lemma nblocks_pos: "b < 50 \<Longrightarrow> 0 < nblocks b"
  by (simp add: nblocks_def div_greater_zero_iff)

lemma nblocks_room: "nblocks b * (16 * b + 16) \<le> 1048568"
  by (simp add: nblocks_def)

lemma block_chunk_room:
  assumes "i < nblocks b"
  shows "block_chunk p b i + (16 * b + 8) \<le> p + big"
proof -
  have "Suc i * (16 * b + 16) \<le> nblocks b * (16 * b + 16)" using assms by (intro mult_le_mono1) simp
  then show ?thesis using nblocks_room [of b] by (simp add: block_chunk_def)
qed

lemma chunk_words: "b < 50 \<Longrightarrow> unat (bin2size (int b) + word_of_int WORD) = 16 * b + 16"
  using bin2size_nat [of b] by (subst unat_add_lem [THEN iffD1]) (simp_all add: WORD_def)

lemma chunk_count:
  assumes "b < 50"
  shows "uint (word_of_int (BIGBLOCK - WASTE) div (bin2size (int b) + word_of_int WORD)) = int (nblocks b)"
proof -
  have "unat (word_of_int (BIGBLOCK - WASTE) div (bin2size (int b) + word_of_int WORD) :: u64) = nblocks b"
    unfolding unat_div chunk_words [OF assms] by (simp add: alloc_consts nblocks_def)
  then show ?thesis by (metis uint_nat)
qed

lemma list_from_block_ok:
  assumes "b < 50" "0 < p" "p mod 8 = 0" "\<And>x. in_words p big x \<Longrightarrow> m x \<noteq> None"
  shows "\<exists>m'. list_from_block (bin2size (int b)) p t m = Some (p + 16, m') \<and> writes {p..<p + big} m m' \<and>
     (\<forall>i<nblocks b. m' (block_chunk p b i - 8) = Some (16 * b + 8)) \<and>
     (\<forall>qs. linked m' t qs \<longrightarrow> linked m' (p + 16) (block_chunks p b @ qs))"
proof -
  let ?S = "16 * b + 16" and ?n = "nblocks b - 1"
  have n: "Suc ?n = nblocks b" using nblocks_pos [OF assms(1)] by simp
  have "int 0 + int ?n = int (nblocks b) - 1" using n by linarith
  then have j: "0 + int ?n = int (nblocks b) - 1" by simp
  have room: "p + 8 + (i * ?S + ?S) \<le> p + big" if "i < nblocks b" for i
    using block_chunk_room [OF that, of p] by (simp add: block_chunk_def)
  have mapped: "m (p + 8 + i * ?S) \<noteq> None \<and> m (p + 8 + 8 + i * ?S) \<noteq> None" if "i < nblocks b" for i
  proof -
    have "8 dvd i * ?S" by (intro dvd_mult) (simp add: dvd_add)
    then have "(p + 8 + i * ?S) mod 8 = 0" "(p + 8 + 8 + i * ?S) mod 8 = 0"
      using assms(3) by (auto simp flip: dvd_eq_mod_eq_0)
    then show ?thesis using room [OF that] by (intro conjI assms(4)) (simp_all add: in_words_def)
  qed
  obtain m1 where m1: "block_loop (bin2size (int b)) (int (nblocks b)) (p + 8) 0 m = Some (p + 8 + ?n * ?S, m1)"
    "dom m1 = dom m"
    "\<forall>i<?n. m1 (p + 8 + i * ?S) = Some (unat (bin2size (int b))) \<and> m1 (p + 8 + 8 + i * ?S) = Some (p + 8 + 8 + Suc i * ?S)"
    "\<forall>x. x < p + 8 \<or> p + 8 + ?n * ?S \<le> x \<longrightarrow> m1 x = m x"
    using block_loop_ok [OF chunk_words [OF assms(1)] _ j, of m "p + 8"] mapped n by auto
  let ?q = "p + 8 + ?n * ?S"
  let ?m = "m1(?q \<mapsto> 16 * b + 8, ?q + 8 \<mapsto> t)"
  have q: "m1 ?q \<noteq> None" "m1 (?q + 8) \<noteq> None"
  proof -
    have "?n < nblocks b" "?q + 8 = p + 8 + 8 + ?n * ?S" using n by simp_all
    then show "m1 ?q \<noteq> None" "m1 (?q + 8) \<noteq> None" using mapped [of ?n] m1(2) by (simp_all only: domIff [symmetric] simp_thms)
  qed
  have less: "i * ?S + ?S \<le> ?n * ?S" if "i < ?n" for i
  proof -
    have "Suc i * ?S \<le> ?n * ?S" using that by (intro mult_le_mono1) simp
    then show ?thesis by simp
  qed
  have "list_from_block (bin2size (int b)) p t m = Some (p + 16, ?m)"
    using m1(1) q chunk_count [OF assms(1)] bin2size_nat [OF assms(1)]
    by (simp add: list_from_block_def put_word_Some WASTE_def WORD_def ALIGN_def)
  moreover have "writes {p..<p + big} m ?m"
  proof -
    have "?m x = m x" if "x \<notin> {p..<p + big}" for x
      using that room [of ?n] n m1(4) [THEN spec, of x] by auto
    then show ?thesis using m1(2) q by (auto simp: writes_def)
  qed
  moreover have "?m (block_chunk p b i - 8) = Some (16 * b + 8)" if "i < nblocks b" for i
  proof -
    have "block_chunk p b i - 8 = p + 8 + i * ?S" by (simp add: block_chunk_def)
    moreover have "i = ?n \<or> i < ?n" using that n by linarith
    ultimately show ?thesis
      using m1(3) [THEN spec, of i] less [of i] bin2size_nat [OF assms(1)] by auto
  qed
  moreover have "linked ?m (p + 16) (block_chunks p b @ qs)" if "linked ?m t qs" for qs
  proof -
    have "?m (p + 16 + i * ?S) = Some (p + 16 + Suc i * ?S)" if "Suc i < nblocks b" for i
    proof -
      have i: "i < ?n" using that by linarith
      have e: "p + 8 + 8 = p + 16" by simp
      have "m1 (p + 16 + i * ?S) = Some (p + 16 + Suc i * ?S)" using m1(3) [unfolded e] i by blast
      moreover have "p + 16 + i * ?S \<noteq> ?q" "p + 16 + i * ?S \<noteq> ?q + 8"
        using less [OF i] i by simp_all
      ultimately show ?thesis by simp
    qed
    moreover have "?m (p + 16 + (nblocks b - 1) * ?S) = Some t" by (simp add: add.commute add.left_commute)
    ultimately have "linked ?m (p + 16) (map (\<lambda>i. p + 16 + i * ?S) [0..<nblocks b] @ qs)"
      using linked_run [of "p + 16" "nblocks b" ?m ?S t qs] nblocks_pos [OF assms(1)] that by simp
    then show ?thesis by (simp only: block_chunks_def block_chunk_def [abs_def])
  qed
  ultimately show ?thesis by blast
qed

end
