(* ===== verification/Malloc_Inv.thy ===== *)
theory Malloc_Inv
  imports Malloc_List
begin

text \<open>
  The invariant of the allocator: which chunks there are, which of them lie in the free lists and which the
  client holds, and that no two share a word.
\<close>

section \<open>Chunks\<close>

text \<open>The words of the chunk of size \<open>s\<close> at \<open>p\<close>: its header and its data; a chunk that was mapped for itself
  has all the words of its pages.\<close>

definition ext :: "nat \<Rightarrow> nat \<Rightarrow> nat set" where
  "ext p s = (if s \<le> 792 then {x. in_words (p - 8) (s + 8) x} else {x. in_words (p - 16) (pages (of_nat s + 16)) x})"

definition chunk :: "memory \<Rightarrow> nat \<Rightarrow> nat \<Rightarrow> bool" where
  "chunk m p s \<longleftrightarrow> p mod 16 = 0 \<and> 16 \<le> p \<and> s < 2 ^ 64 - 16 \<and> m (p - 8) = Some s \<and> (\<forall>x\<in>ext p s. m x \<noteq> None)"

lemma pages_ge: "unat len \<le> pages len"
proof -
  have "(unat len + 4095) div 4096 * 4096 + (unat len + 4095) mod 4096 = unat len + 4095" by (rule div_mult_mod_eq)
  moreover have "(unat len + 4095) mod 4096 < 4096" by simp
  ultimately show ?thesis unfolding pages_def by linarith
qed

lemma pages_large: "s < 2 ^ 64 - 16 \<Longrightarrow> s + 16 \<le> pages (of_nat s + 16)"
proof -
  assume s: "s < 2 ^ 64 - 16"
  have "unat (of_nat (s + 16) :: u64) = s + 16" using s by (simp only: unsigned_of_nat) (simp add: take_bit_nat_eq_self)
  then show ?thesis using pages_ge [of "of_nat (s + 16)"] by simp
qed

lemma mod_16_8: "(p :: nat) mod 16 = 0 \<Longrightarrow> p mod 8 = 0" "(p :: nat) mod 16 = 0 \<Longrightarrow> 16 \<le> p \<Longrightarrow> (p - 8) mod 8 = 0"
  by presburger+

lemma header_in_ext: "p mod 16 = 0 \<Longrightarrow> 16 \<le> p \<Longrightarrow> s < 2 ^ 64 - 16 \<Longrightarrow> p - 8 \<in> ext p s"
  using pages_large [of s] mod_16_8(2) [of p] by (auto simp: ext_def in_words_def)

lemma data_in_ext:
  assumes "p mod 16 = 0" "16 \<le> p" "s < 2 ^ 64 - 16" "8 * k + 8 \<le> s"
  shows "p + 8 * k \<in> ext p s" "p + 8 * k \<noteq> p - 8"
  using pages_large [of s] mod_16_8(1) [of p] assms by (auto simp: ext_def in_words_def mod_add_eq)

lemma chunkD:
  assumes "chunk m p s"
  shows "p mod 16 = 0" "16 \<le> p" "s < 2 ^ 64 - 16" "m (p - 8) = Some s" "x \<in> ext p s \<Longrightarrow> m x \<noteq> None" "p - 8 \<in> ext p s"
proof -
  show c: "p mod 16 = 0" "16 \<le> p" "s < 2 ^ 64 - 16" "m (p - 8) = Some s" using assms unfolding chunk_def by blast+
  show "x \<in> ext p s \<Longrightarrow> m x \<noteq> None" using assms unfolding chunk_def by blast
  show "p - 8 \<in> ext p s" by (rule header_in_ext [OF c(1-3)])
qed

lemma chunk_frame: "chunk m p s \<Longrightarrow> (\<And>x. x \<in> ext p s \<Longrightarrow> m' x = m x) \<Longrightarrow> chunk m' p s"
  using chunkD(6) unfolding chunk_def by metis

section \<open>The invariant\<close>

text \<open>\<open>sz\<close> are all chunks with their sizes, \<open>fs b\<close> the free list of bin \<open>b\<close> and \<open>U\<close> the chunks in use.\<close>

definition free_list :: "'o alloc \<Rightarrow> (nat \<Rightarrow> nat option) \<Rightarrow> nat set \<Rightarrow> nat \<Rightarrow> nat list \<Rightarrow> bool" where
  "free_list st sz U b xs \<longleftrightarrow> linked (cells st) (bin st ! b) xs \<and> distinct xs \<and>
     (\<forall>x\<in>set xs. sz x = Some (16 * b + 8) \<and> x \<notin> U)"

definition apart :: "(nat \<Rightarrow> nat option) \<Rightarrow> bool" where
  "apart sz \<longleftrightarrow> (\<forall>p q s t. sz p = Some s \<longrightarrow> sz q = Some t \<longrightarrow> p \<noteq> q \<longrightarrow> ext p s \<inter> ext q t = {})"

definition alloc_inv :: "('o \<Rightarrow> nat set) \<Rightarrow> 'o alloc \<Rightarrow> (nat \<Rightarrow> nat option) \<Rightarrow> (nat \<Rightarrow> nat list) \<Rightarrow> nat set \<Rightarrow> bool" where
  "alloc_inv owned st sz fs U \<longleftrightarrow> length (bin st) = 50 \<and> (\<forall>p s. sz p = Some s \<longrightarrow> chunk (cells st) p s) \<and> apart sz \<and>
     (\<forall>b<50. free_list st sz U b (fs b)) \<and>
     (\<forall>p\<in>U. \<exists>s. sz p = Some s \<and> (792 < s \<or> (\<exists>b<50. s = 16 * b + 8))) \<and> dom (cells st) \<subseteq> owned (os st)"

lemma apartD: "apart sz \<Longrightarrow> sz p = Some s \<Longrightarrow> sz q = Some t \<Longrightarrow> p \<noteq> q \<Longrightarrow> x \<in> ext p s \<Longrightarrow> x \<notin> ext q t"
  unfolding apart_def by blast

lemma alloc_invD:
  assumes "alloc_inv owned st sz fs U"
  shows "length (bin st) = 50" "sz p = Some s \<Longrightarrow> chunk (cells st) p s" "apart sz"
    "b < 50 \<Longrightarrow> free_list st sz U b (fs b)"
    "p \<in> U \<Longrightarrow> \<exists>s. sz p = Some s \<and> (792 < s \<or> (\<exists>b<50. s = 16 * b + 8))" "dom (cells st) \<subseteq> owned (os st)"
  using assms unfolding alloc_inv_def by blast+

lemma alloc_invI:
  assumes "length (bin st) = 50" "\<And>p s. sz p = Some s \<Longrightarrow> chunk (cells st) p s" "apart sz"
    "\<And>b. b < 50 \<Longrightarrow> free_list st sz U b (fs b)"
    "\<And>p. p \<in> U \<Longrightarrow> \<exists>s. sz p = Some s \<and> (792 < s \<or> (\<exists>b<50. s = 16 * b + 8))" "dom (cells st) \<subseteq> owned (os st)"
  shows "alloc_inv owned st sz fs U"
  using assms unfolding alloc_inv_def by blast

lemma free_listD:
  assumes "free_list st sz U b xs"
  shows "linked (cells st) (bin st ! b) xs" "distinct xs" "x \<in> set xs \<Longrightarrow> sz x = Some (16 * b + 8)" "x \<in> set xs \<Longrightarrow> x \<notin> U"
  using assms unfolding free_list_def by blast+

lemma link_in_ext: "chunk m p s \<Longrightarrow> 8 \<le> s \<Longrightarrow> p \<in> ext p s \<and> p \<noteq> p - 8"
  using data_in_ext [of p s 0] unfolding chunk_def by simp

text \<open>The program's start.\<close>

lemma alloc_inv_init: "alloc_inv owned (alloc_init s) Map.empty (\<lambda>b. []) {}"
  by (rule alloc_invI) (simp_all add: alloc_init_def BINS_def apart_def free_list_def)

text \<open>What an operation leaves alone: the chunks in \<open>U\<close> with their data.\<close>

definition keeps :: "nat set \<Rightarrow> (nat \<Rightarrow> nat option) \<Rightarrow> 'o alloc \<Rightarrow> (nat \<Rightarrow> nat option) \<Rightarrow> 'o alloc \<Rightarrow> bool" where
  "keeps U sz st sz' st' \<longleftrightarrow> (\<forall>q\<in>U. \<forall>s. sz q = Some s \<longrightarrow> sz' q = Some s \<and> (\<forall>x\<in>ext q s. cells st' x = cells st x))"

lemma keeps_refl: "cells st' = cells st \<Longrightarrow> keeps U sz st sz st'"
  by (simp add: keeps_def)

lemma keeps_trans: "keeps U sz st sz1 st1 \<Longrightarrow> keeps U sz1 st1 sz2 st2 \<Longrightarrow> keeps U sz st sz2 st2"
  unfolding keeps_def by metis

text \<open>Writing to a word of a chunk that is in no free list.\<close>

lemma write_word:
  assumes inv: "alloc_inv owned st sz fs U" and p: "sz p = Some s" "\<And>b. b < 50 \<Longrightarrow> p \<notin> set (fs b)"
    and x: "x \<in> ext p s" "x \<noteq> p - 8"
  shows "alloc_inv owned (st\<lparr>cells := (cells st)(x \<mapsto> v)\<rparr>) sz fs U"
    and "keeps (U - {p}) sz st sz (st\<lparr>cells := (cells st)(x \<mapsto> v)\<rparr>)"
proof -
  note d = alloc_invD [OF inv]
  have other: "y \<noteq> x" if "sz q = Some t" "q \<noteq> p" "y \<in> ext q t" for q t y
    using apartD [OF d(3) that(1) p(1) that(2,3)] x(1) by blast
  let ?m = "(cells st)(x \<mapsto> v)"
  show "alloc_inv owned (st\<lparr>cells := ?m\<rparr>) sz fs U"
  proof (rule alloc_invI)
    fix q t assume q: "sz q = Some t"
    have c: "chunk (cells st) q t" by (rule d(2) [OF q])
    show "chunk (cells (st\<lparr>cells := ?m\<rparr>)) q t"
    proof (cases "q = p")
      case True
      then show ?thesis using c x(2) unfolding chunk_def by simp
    next
      case False
      show ?thesis by (rule chunk_frame [OF c]) (use other [OF q False] in auto)
    qed
  next
    fix b assume b: "b < (50 :: nat)"
    note f = free_listD [OF d(4) [OF b]]
    have "linked ?m (bin st ! b) (fs b)"
    proof (rule linked_frame [OF f(1)])
      fix y assume y: "y \<in> set (fs b)"
      have "y \<in> ext y (16 * b + 8)" using link_in_ext [OF d(2) [OF f(3) [OF y]]] by simp
      moreover have "y \<noteq> p" using y p(2) [OF b] by blast
      ultimately have "y \<noteq> x" using other [OF f(3) [OF y]] by blast
      then show "?m y = cells st y" by simp
    qed
    then show "free_list (st\<lparr>cells := ?m\<rparr>) sz U b (fs b)" using f unfolding free_list_def by simp
  next
    have "cells st x \<noteq> None" using chunkD(5) [OF d(2) [OF p(1)] x(1)] .
    then show "dom (cells (st\<lparr>cells := ?m\<rparr>)) \<subseteq> owned (os (st\<lparr>cells := ?m\<rparr>))" using d(6) by auto
  qed (use d in simp_all)
  show "keeps (U - {p}) sz st sz (st\<lparr>cells := ?m\<rparr>)"
    unfolding keeps_def using other by auto
qed

section \<open>Taking a chunk from a bin and putting it back\<close>

lemma nth_update_cases: "b < length xs \<Longrightarrow> xs[b := v] ! c = (if c = b then v else xs ! c)"
  by (simp add: nth_list_update)

lemma pop_chunk:
  assumes inv: "alloc_inv owned st sz fs U" and b: "b < 50" "fs b = x # xs"
  shows "\<exists>n. bin st ! b = x \<and> x \<noteq> 0 \<and> cells st x = Some n \<and> x \<notin> U \<and> sz x = Some (16 * b + 8) \<and>
    alloc_inv owned (st\<lparr>bin := (bin st)[b := n]\<rparr>) sz (fs(b := xs)) (insert x U)"
proof -
  note d = alloc_invD [OF inv]
  note f = free_listD [OF d(4) [OF b(1)], unfolded b(2)]
  obtain n where n: "bin st ! b = x" "x \<noteq> 0" "cells st x = Some n" "linked (cells st) n xs" using f(1) by auto
  have x: "sz x = Some (16 * b + 8)" "x \<notin> U" using f(3,4) by simp_all
  have "alloc_inv owned (st\<lparr>bin := (bin st)[b := n]\<rparr>) sz (fs(b := xs)) (insert x U)"
  proof (rule alloc_invI)
    fix c assume c: "c < (50 :: nat)"
    show "free_list (st\<lparr>bin := (bin st)[b := n]\<rparr>) sz (insert x U) c ((fs(b := xs)) c)"
    proof (cases "c = b")
      case True
      have "x \<notin> set xs" using f(2) by simp
      then show ?thesis using True f n(4) b(1) d(1) unfolding free_list_def by auto
    next
      case False
      note g = free_listD [OF d(4) [OF c]]
      have "x \<notin> set (fs c)" using g(3) x(1) False by fastforce
      then show ?thesis using False g unfolding free_list_def by auto
    qed
  next
    fix p assume "p \<in> insert x U"
    then show "\<exists>s. sz p = Some s \<and> (792 < s \<or> (\<exists>b<50. s = 16 * b + 8))" using d(5) x(1) b(1) by auto
  qed (use d in simp_all)
  then show ?thesis using n x by blast
qed

lemma push_chunk:
  assumes inv: "alloc_inv owned st sz fs U" and b: "b < 50" and p: "p \<in> U" "sz p = Some (16 * b + 8)"
  shows "cells st p \<noteq> None" "p \<noteq> 0"
    "alloc_inv owned (st\<lparr>bin := (bin st)[b := p], cells := (cells st)(p \<mapsto> bin st ! b)\<rparr>) sz (fs(b := p # fs b)) (U - {p})"
    "keeps (U - {p}) sz st sz (st\<lparr>bin := (bin st)[b := p], cells := (cells st)(p \<mapsto> bin st ! b)\<rparr>)"
proof -
  note d = alloc_invD [OF inv]
  have c: "chunk (cells st) p (16 * b + 8)" by (rule d(2) [OF p(2)])
  have link: "p \<in> ext p (16 * b + 8)" "p \<noteq> p - 8" using link_in_ext [OF c] by simp_all
  have nf: "p \<notin> set (fs c)" if "c < 50" for c using free_listD(4) [OF d(4) [OF that]] p(1) by blast
  let ?st = "st\<lparr>cells := (cells st)(p \<mapsto> bin st ! b)\<rparr>"
  have inv1: "alloc_inv owned ?st sz fs U" by (rule write_word(1) [OF inv p(2) nf link])
  note e = alloc_invD [OF inv1]
  show "cells st p \<noteq> None" by (rule chunkD(5) [OF c link(1)])
  show "p \<noteq> 0" using chunkD(2) [OF c] by simp
  then have p0: "p \<noteq> 0" .
  show "alloc_inv owned (st\<lparr>bin := (bin st)[b := p], cells := (cells st)(p \<mapsto> bin st ! b)\<rparr>) sz (fs(b := p # fs b)) (U - {p})"
  proof (rule alloc_invI)
    fix c assume c: "c < (50 :: nat)"
    show "free_list (st\<lparr>bin := (bin st)[b := p], cells := (cells st)(p \<mapsto> bin st ! b)\<rparr>) sz (U - {p}) c ((fs(b := p # fs b)) c)"
    proof (cases "c = b")
      case True
      then show ?thesis using free_listD [OF e(4) [OF b]] nf [OF b] p p0 b d(1) unfolding free_list_def by auto
    next
      case False
      then show ?thesis using free_listD [OF e(4) [OF c]] unfolding free_list_def by auto
    qed
  qed (use d(1) e in auto)
  show "keeps (U - {p}) sz st sz (st\<lparr>bin := (bin st)[b := p], cells := (cells st)(p \<mapsto> bin st ! b)\<rparr>)"
    using write_word(2) [OF inv p(2) nf link, of "bin st ! b"] by (simp add: keeps_def)
qed

end
