(* ===== verification/Malloc_Ops.thy ===== *)
theory Malloc_Ops
  imports Malloc_Inv
begin

text \<open>
  The operations of the allocator keep its invariant: refilling a bin from a big block, allocation and
  release of small and large chunks, and \<^verbatim>\<open>try_pre_fill\<close>.
\<close>

section \<open>The system calls\<close>

text \<open>What \<^verbatim>\<open>mmap\<close> and \<^verbatim>\<open>munmap\<close> promise (\<^verbatim>\<open>mmap0.h\<close>, \<^verbatim>\<open>malloc.h\<close>): a new mapping is page-aligned, lies in the
  address space and holds no word that was mapped before; \<open>owned\<close> are the words that may be mapped.\<close>

definition os_contract :: "'o mmap \<Rightarrow> 'o munmap \<Rightarrow> ('o \<Rightarrow> nat set) \<Rightarrow> bool" where
  "os_contract mmap munmap owned \<longleftrightarrow>
     (\<forall>s len. case mmap s len of
        (None, s') \<Rightarrow> owned s' = owned s
      | (Some p, s') \<Rightarrow> p mod 4096 = 0 \<and> 0 < p \<and> p + pages len \<le> 2 ^ 64 \<and> (\<forall>x\<in>owned s. \<not> in_words p (pages len) x) \<and>
          owned s' = owned s \<union> {x. in_words p (pages len) x}) \<and>
     (\<forall>s a len. case munmap s a len of
        (ok, s') \<Rightarrow> if ok then owned s - {x. in_words a (pages len) x} \<subseteq> owned s' else owned s \<subseteq> owned s')"

lemma os_mmapD:
  assumes "os_contract mmap munmap owned"
  shows "mmap s len = (None, s') \<Longrightarrow> owned s' = owned s"
    "mmap s len = (Some p, s') \<Longrightarrow> p mod 4096 = 0 \<and> 0 < p \<and> p + pages len \<le> 2 ^ 64 \<and>
       (\<forall>x\<in>owned s. \<not> in_words p (pages len) x) \<and> owned s' = owned s \<union> {x. in_words p (pages len) x}"
proof -
  have c: "case mmap s len of (None, s') \<Rightarrow> owned s' = owned s
      | (Some p, s') \<Rightarrow> p mod 4096 = 0 \<and> 0 < p \<and> p + pages len \<le> 2 ^ 64 \<and> (\<forall>x\<in>owned s. \<not> in_words p (pages len) x) \<and>
          owned s' = owned s \<union> {x. in_words p (pages len) x}"
    using assms [unfolded os_contract_def, THEN conjunct1, THEN spec, THEN spec, of s len] by simp
  show "mmap s len = (None, s') \<Longrightarrow> owned s' = owned s" using c by simp
  show "mmap s len = (Some p, s') \<Longrightarrow> p mod 4096 = 0 \<and> 0 < p \<and> p + pages len \<le> 2 ^ 64 \<and>
       (\<forall>x\<in>owned s. \<not> in_words p (pages len) x) \<and> owned s' = owned s \<union> {x. in_words p (pages len) x}"
    using c by simp
qed

lemma os_munmapD:
  assumes "os_contract mmap munmap owned" "munmap s a len = (ok, s')"
  shows "if ok then owned s - {x. in_words a (pages len) x} \<subseteq> owned s' else owned s \<subseteq> owned s'"
proof -
  have "case munmap s a len of
        (ok, s') \<Rightarrow> if ok then owned s - {x. in_words a (pages len) x} \<subseteq> owned s' else owned s \<subseteq> owned s'"
    using assms(1) [unfolded os_contract_def, THEN conjunct2, THEN spec, THEN spec, THEN spec, of s a len] by simp
  then show ?thesis using assms(2) by simp
qed

text \<open>The \<open>n\<close> bytes from page \<open>p\<close> were mapped, apart from every chunk.\<close>

definition got_pages :: "(nat \<Rightarrow> nat option) \<Rightarrow> nat \<Rightarrow> nat \<Rightarrow> memory \<Rightarrow> memory \<Rightarrow> bool" where
  "got_pages sz p n m m' \<longleftrightarrow> p mod 4096 = 0 \<and> p + n \<le> 2 ^ 64 \<and>
     (\<forall>q s x. sz q = Some s \<longrightarrow> x \<in> ext q s \<longrightarrow> \<not> in_words p n x) \<and>
     m' = (\<lambda>x. if in_words p n x then Some 0 else m x)"

lemma page_mod_16:
  assumes "(p :: nat) mod 4096 = 0"
  shows "p mod 16 = 0"
proof -
  have "(16 :: nat) dvd 4096" by simp
  moreover have "4096 dvd p" using assms by (simp add: dvd_eq_mod_eq_0)
  ultimately have "16 dvd p" by (rule dvd_trans)
  then show ?thesis by (simp add: dvd_eq_mod_eq_0)
qed

lemma got_pagesD:
  assumes "got_pages sz p n m m'"
  shows "p mod 4096 = 0" "p + n \<le> 2 ^ 64" "in_words p n x \<Longrightarrow> m' x \<noteq> None"
    "sz q = Some s \<Longrightarrow> x \<in> ext q s \<Longrightarrow> \<not> in_words p n x" "m' x = (if in_words p n x then Some 0 else m x)"
  using assms unfolding got_pages_def by auto

lemma mmap0_ok:
  assumes os: "os_contract mmap munmap owned" and inv: "alloc_inv owned st sz fs U"
  shows "\<exists>p st'. mmap0 mmap len st = (p, st') \<and> alloc_inv owned st' sz fs U \<and> bin st' = bin st \<and> keeps U sz st sz st' \<and>
    (p = 0 \<longrightarrow> cells st' = cells st) \<and>
    (p \<noteq> 0 \<longrightarrow> got_pages sz p (pages len) (cells st) (cells st'))"
proof -
  note d = alloc_invD [OF inv]
  obtain r s' where call: "mmap (os st) len = (r, s')" by (cases "mmap (os st) len")
  show ?thesis
  proof (cases r)
    case None
    let ?st = "st\<lparr>os := s'\<rparr>"
    have own: "owned s' = owned (os st)" using os_mmapD(1) [OF os] call None by blast
    have "alloc_inv owned ?st sz fs U" using inv own unfolding alloc_inv_def free_list_def by simp
    then show ?thesis using call None by (intro exI [of _ 0] exI [of _ ?st]) (simp add: mmap0_def keeps_refl)
  next
    case (Some p)
    have c: "p mod 4096 = 0" "0 < p" "p + pages len \<le> 2 ^ 64" "\<forall>x\<in>owned (os st). \<not> in_words p (pages len) x"
      "owned s' = owned (os st) \<union> {x. in_words p (pages len) x}"
      using os_mmapD(2) [OF os call [unfolded Some]] by blast+
    let ?m = "\<lambda>x. if in_words p (pages len) x then Some 0 else cells st x"
    let ?st = "st\<lparr>os := s', cells := ?m\<rparr>"
    have new: "\<not> in_words p (pages len) x" if "cells st x \<noteq> None" for x
      using c(4) d(6) that by blast
    have old: "\<not> in_words p (pages len) x" if "sz q = Some s" "x \<in> ext q s" for q s x
      by (rule new) (rule chunkD(5) [OF d(2) [OF that(1)] that(2)])
    have "alloc_inv owned ?st sz fs U"
    proof (rule alloc_invI)
      fix q s assume q: "sz q = Some s"
      show "chunk (cells ?st) q s" by (rule chunk_frame [OF d(2) [OF q]]) (use old [OF q] in simp)
    next
      fix b assume b: "b < (50 :: nat)"
      note f = free_listD [OF d(4) [OF b]]
      have "linked ?m (bin st ! b) (fs b)"
      proof (rule linked_frame [OF f(1)])
        fix y assume y: "y \<in> set (fs b)"
        have "y \<in> ext y (16 * b + 8)" using link_in_ext [OF d(2) [OF f(3) [OF y]]] by simp
        then show "?m y = cells st y" using old [OF f(3) [OF y]] by simp
      qed
      then show "free_list ?st sz U b (fs b)" using f unfolding free_list_def by simp
    next
      show "dom (cells ?st) \<subseteq> owned (os ?st)"
      proof
        fix x assume x: "x \<in> dom (cells ?st)"
        show "x \<in> owned (os ?st)"
        proof (cases "in_words p (pages len) x")
          case True
          then show ?thesis using c(5) by simp
        next
          case False
          then have "x \<in> dom (cells st)" using x by (simp add: domIff)
          then show ?thesis using d(6) c(5) by auto
        qed
      qed
    qed (use d in simp_all)
    moreover have "keeps U sz st sz ?st" unfolding keeps_def using old by simp
    ultimately show ?thesis using call Some c(1-3) old
      by (intro exI [of _ p] exI [of _ ?st]) (simp add: mmap0_def got_pages_def)
  qed
qed

section \<open>Refilling a bin\<close>

lemma ext_aligned: "x \<in> ext p s \<Longrightarrow> x mod 8 = 0"
  by (simp add: ext_def in_words_def split: if_splits)

lemma ext_block: "b < 50 \<Longrightarrow> ext (block_chunk p b i) (16 * b + 8) = {x. in_words (p + 8 + i * (16 * b + 16)) (16 * b + 16) x}"
proof -
  assume "b < 50"
  moreover have "block_chunk p b i - 8 = p + 8 + i * (16 * b + 16)" "16 * b + 8 + 8 = 16 * b + 16"
    by (simp_all add: block_chunk_def)
  ultimately show ?thesis unfolding ext_def by (simp add: add.commute)
qed

lemma ext_block_range:
  assumes "b < 50" "i < nblocks b" "x \<in> ext (block_chunk p b i) (16 * b + 8)"
  shows "x mod 8 = 0" "p + 8 + i * (16 * b + 16) \<le> x" "x < p + 8 + Suc i * (16 * b + 16)" "in_words p big x"
  using assms(3) block_chunk_room [OF assms(2), of p] unfolding ext_block [OF assms(1)]
  by (simp_all add: in_words_def block_chunk_def)

lemma blocks_apart:
  assumes "b < 50" "i < nblocks b" "j < nblocks b" "i \<noteq> j" "x \<in> ext (block_chunk p b i) (16 * b + 8)"
  shows "x \<notin> ext (block_chunk p b j) (16 * b + 8)"
proof
  assume y: "x \<in> ext (block_chunk p b j) (16 * b + 8)"
  consider "Suc i \<le> j" | "Suc j \<le> i" using assms(4) by linarith
  then show False
  proof cases
    case 1
    then have "Suc i * (16 * b + 16) \<le> j * (16 * b + 16)" by (intro mult_le_mono1)
    then show ?thesis using ext_block_range(3) [OF assms(1,2,5)] ext_block_range(2) [OF assms(1,3) y] by linarith
  next
    case 2
    then have "Suc j * (16 * b + 16) \<le> i * (16 * b + 16)" by (intro mult_le_mono1)
    then show ?thesis using ext_block_range(2) [OF assms(1,2,5)] ext_block_range(3) [OF assms(1,3) y] by linarith
  qed
qed

lemma distinct_block_chunks: "distinct (block_chunks p b)"
  by (auto simp: block_chunks_def distinct_map inj_on_def block_chunk_def)

definition add_chunks :: "(nat \<Rightarrow> nat option) \<Rightarrow> nat \<Rightarrow> nat \<Rightarrow> nat \<Rightarrow> nat option" where
  "add_chunks sz p b = (\<lambda>x. if x \<in> set (block_chunks p b) then Some (16 * b + 8) else sz x)"

lemma refill:
  assumes inv: "alloc_inv owned st sz fs U" and b: "b < 50" and p: "0 < p" and g: "got_pages sz p big m0 (cells st)"
    and t: "linked (cells st) t (fs b)"
  shows "\<exists>m'. list_from_block (bin2size (int b)) p t (cells st) = Some (p + 16, m') \<and>
    alloc_inv owned (st\<lparr>bin := (bin st)[b := p + 16], cells := m'\<rparr>) (add_chunks sz p b) (fs(b := block_chunks p b @ fs b)) U \<and>
    keeps U sz st (add_chunks sz p b) (st\<lparr>bin := (bin st)[b := p + 16], cells := m'\<rparr>)"
proof -
  note d = alloc_invD [OF inv]
  note mapped = got_pagesD(3) [OF g] and new = got_pagesD(4) [OF g]
  have p16: "p mod 16 = 0" by (rule page_mod_16 [OF got_pagesD(1) [OF g]])
  then have p8: "p mod 8 = 0" by (rule mod_16_8(1))
  obtain m' where m': "list_from_block (bin2size (int b)) p t (cells st) = Some (p + 16, m')"
    "writes {p..<p + big} (cells st) m'" "\<forall>i<nblocks b. m' (block_chunk p b i - 8) = Some (16 * b + 8)"
    "\<forall>qs. linked m' t qs \<longrightarrow> linked m' (p + 16) (block_chunks p b @ qs)"
    using list_from_block_ok [where m = "cells st" and t = t, OF b p p8 mapped] by simp blast
  have same: "m' x = cells st x" if "sz q = Some s" "x \<in> ext q s" for q s x
    using new [OF that] ext_aligned [OF that(2)] by (intro writesD(2) [OF m'(2)]) (auto simp: in_words_def)
  have fresh_chunk: "sz (block_chunk p b i) = None" if i: "i < nblocks b" for i
  proof (rule ccontr)
    assume "\<not> ?thesis"
    then obtain s where s: "sz (block_chunk p b i) = Some s" by blast
    have "block_chunk p b i - 8 \<in> ext (block_chunk p b i) s" by (rule chunkD(6) [OF d(2) [OF s]])
    then have "\<not> in_words p big (block_chunk p b i - 8)" "(block_chunk p b i - 8) mod 8 = 0"
      using new [OF s] ext_aligned by blast+
    then show False using block_chunk_room [OF i, of p] by (simp add: in_words_def block_chunk_def)
  qed
  have new_chunk: "chunk m' (block_chunk p b i) (16 * b + 8)" if i: "i < nblocks b" for i
    unfolding chunk_def
  proof (intro conjI ballI)
    have "16 dvd i * (16 * b + 16)" by (intro dvd_mult) (simp add: dvd_add)
    then show "block_chunk p b i mod 16 = 0"
      using p16 by (auto simp: block_chunk_def simp flip: dvd_eq_mod_eq_0)
    show "16 \<le> block_chunk p b i" by (simp add: block_chunk_def)
    show "16 * b + 8 < 2 ^ 64 - 16" using b by simp
    show "m' (block_chunk p b i - 8) = Some (16 * b + 8)" using m'(3) i by blast
    fix x assume "x \<in> ext (block_chunk p b i) (16 * b + 8)"
    then have "cells st x \<noteq> None" using mapped ext_block_range(4) [OF b i] by blast
    then show "m' x \<noteq> None" using writesD(1) [OF m'(2)] by blast
  qed
  let ?sz = "add_chunks sz p b" and ?st = "st\<lparr>bin := (bin st)[b := p + 16], cells := m'\<rparr>"
  have in_chunks: "x \<in> set (block_chunks p b) \<longleftrightarrow> (\<exists>i<nblocks b. x = block_chunk p b i)" for x
    by (auto simp: block_chunks_def)
  have sz_cases: "(\<exists>i<nblocks b. x = block_chunk p b i \<and> s = 16 * b + 8) \<or> sz x = Some s" if "?sz x = Some s" for x s
    using that in_chunks [of x] by (auto simp: add_chunks_def split: if_splits)
  have sz_old: "?sz x = sz x" if "sz x = Some s" for x s
    using that in_chunks [of x] fresh_chunk by (auto simp: add_chunks_def)
  have apart_new: "x \<notin> ext q s" if "sz q = Some s" "i < nblocks b" "x \<in> ext (block_chunk p b i) (16 * b + 8)" for q s i x
    using new [OF that(1)] ext_block_range(4) [OF b that(2,3)] by blast
  have "alloc_inv owned ?st ?sz (fs(b := block_chunks p b @ fs b)) U"
  proof (rule alloc_invI)
    show "length (bin ?st) = 50" using d(1) by simp
    show "chunk (cells ?st) q s" if "?sz q = Some s" for q s
      using sz_cases [OF that] new_chunk chunk_frame [OF d(2)] same by auto
    show "apart ?sz"
      unfolding apart_def
    proof (intro allI impI)
      fix q r s u assume a: "?sz q = Some s" "?sz r = Some u" "q \<noteq> r"
      show "ext q s \<inter> ext r u = {}"
        using sz_cases [OF a(1)] sz_cases [OF a(2)]
      proof (elim disjE exE conjE)
        fix i j assume "i < nblocks b" "q = block_chunk p b i" "s = 16 * b + 8" "j < nblocks b" "r = block_chunk p b j" "u = 16 * b + 8"
        then show ?thesis using blocks_apart [OF b, of i j] a(3) by blast
      next
        fix i assume "i < nblocks b" "q = block_chunk p b i" "s = 16 * b + 8" "sz r = Some u"
        then show ?thesis using apart_new [of r u i] by blast
      next
        fix i assume "sz q = Some s" "i < nblocks b" "r = block_chunk p b i" "u = 16 * b + 8"
        then show ?thesis using apart_new [of q s i] by blast
      next
        assume "sz q = Some s" "sz r = Some u"
        then show ?thesis using d(3) a(3) unfolding apart_def by blast
      qed
    qed
    show "\<exists>s. ?sz q = Some s \<and> (792 < s \<or> (\<exists>b<50. s = 16 * b + 8))" if "q \<in> U" for q
      using d(5) [OF that] sz_old by metis
    show "dom (cells ?st) \<subseteq> owned (os ?st)" using d(6) writesD(1) [OF m'(2)] by simp
    fix c assume c: "c < (50 :: nat)"
    note f = free_listD [OF d(4) [OF c]]
    have keep: "m' y = cells st y" if "y \<in> set (fs c)" for y
    proof -
      have "y \<in> ext y (16 * c + 8)" using link_in_ext [OF d(2) [OF f(3) [OF that]]] by simp
      then show ?thesis by (rule same [OF f(3) [OF that]])
    qed
    show "free_list ?st ?sz U c ((fs(b := block_chunks p b @ fs b)) c)"
    proof (cases "c = b")
      case True
      have "linked m' t (fs b)" by (rule linked_frame [OF t]) (use keep True in simp)
      then have "linked m' (p + 16) (block_chunks p b @ fs b)" using m'(4) by blast
      moreover have "distinct (block_chunks p b @ fs b)"
        using distinct_block_chunks f(2,3) fresh_chunk in_chunks True by fastforce
      moreover have "?sz x = Some (16 * b + 8) \<and> x \<notin> U" if "x \<in> set (block_chunks p b @ fs b)" for x
        using that f(3,4) sz_old in_chunks [of x] fresh_chunk d(5) [of x] True by (auto simp: add_chunks_def)
      ultimately show ?thesis using True b d(1) unfolding free_list_def by simp
    next
      case False
      have "linked m' (bin st ! c) (fs c)" by (rule linked_frame [OF f(1) keep])
      then show ?thesis using False f sz_old unfolding free_list_def by auto
    qed
  qed
  moreover have "keeps U sz st ?sz ?st" unfolding keeps_def using sz_old same by auto
  ultimately show ?thesis using m'(1) by blast
qed

end
