(* ===== verification/Malloc_Alloc.thy ===== *)
theory Malloc_Alloc
  imports Malloc_Ops
begin

text \<open>
  Allocation and release: \<^verbatim>\<open>malloc\<close> returns \<^verbatim>\<open>NULL\<close> or a chunk that was not in use and is large enough, \<^verbatim>\<open>free\<close>
  takes any chunk in use, and neither touches another chunk in use.
\<close>

section \<open>Small chunks\<close>

definition malloced :: "('o \<Rightarrow> nat set) \<Rightarrow> nat set \<Rightarrow> 'o alloc \<Rightarrow> (nat \<Rightarrow> nat option) \<Rightarrow> u64 \<Rightarrow> nat \<Rightarrow> 'o alloc \<Rightarrow>
    (nat \<Rightarrow> nat option) \<Rightarrow> (nat \<Rightarrow> nat list) \<Rightarrow> bool" where
  "malloced owned U st sz n p st' sz' fs' \<longleftrightarrow> keeps U sz st sz' st' \<and>
     (if p = 0 then alloc_inv owned st' sz' fs' U
      else p \<notin> U \<and> (\<exists>s. sz' p = Some s \<and> unat n \<le> s) \<and> alloc_inv owned st' sz' fs' (insert p U))"

lemma bin_nat:
  assumes "n \<le> (792 :: u64)"
  obtains b where "size2bin n = int b" "b < 50" "unat n \<le> 16 * b + 8"
proof
  show "size2bin n = int ((unat n + 7) div 16)" "(unat n + 7) div 16 < 50" using size2bin_nat [OF assms] by simp_all
  show "unat n \<le> 16 * ((unat n + 7) div 16) + 8" by linarith
qed

lemma pop_malloc:
  assumes inv: "alloc_inv owned st sz fs U" and b: "b < 50" "fs b \<noteq> []" and n: "unat n \<le> 16 * b + 8"
  shows "\<exists>q fs'. cells st (bin st ! b) = Some q \<and> bin st ! b \<noteq> 0 \<and>
    malloced owned U st sz n (bin st ! b) (st\<lparr>bin := (bin st)[b := q]\<rparr>) sz fs'"
proof -
  obtain x xs where x: "fs b = x # xs" using b(2) by (cases "fs b") auto
  obtain q where q: "bin st ! b = x" "x \<noteq> 0" "cells st x = Some q" "x \<notin> U" "sz x = Some (16 * b + 8)"
    "alloc_inv owned (st\<lparr>bin := (bin st)[b := q]\<rparr>) sz (fs(b := xs)) (insert x U)"
    using pop_chunk [OF inv b(1) x] by blast
  moreover have "keeps U sz st sz (st\<lparr>bin := (bin st)[b := q]\<rparr>)" by (rule keeps_refl) simp
  ultimately show ?thesis using n unfolding malloced_def by auto
qed

lemma malloced_keeps:
  "keeps U sz st sz1 st1 \<Longrightarrow> malloced owned U st1 sz1 n p st' sz' fs' \<Longrightarrow> malloced owned U st sz n p st' sz' fs'"
  unfolding malloced_def using keeps_trans by blast

lemma pages_big: "pages (word_of_int BIGBLOCK) = big"
  by (simp add: pages_def alloc_consts)

lemma fill_bin_ok:
  assumes os: "os_contract mmap munmap owned" and inv: "alloc_inv owned st sz fs U" and b: "b < 50" "fs b = []"
  shows "\<exists>p st' sz' fs'. fill_bin mmap (int b) st = Some (p, st') \<and> length (bin st') = 50 \<and> keeps U sz st sz' st' \<and>
    (if p = 0 then alloc_inv owned st' sz' fs' U
     else alloc_inv owned (st'\<lparr>bin := (bin st')[b := p]\<rparr>) sz' fs' U \<and> fs' b \<noteq> [])"
proof -
  obtain p st1 where p: "mmap0 mmap (word_of_int BIGBLOCK) st = (p, st1)" "alloc_inv owned st1 sz fs U" "bin st1 = bin st"
    "keeps U sz st sz st1"
    "p \<noteq> 0 \<longrightarrow> got_pages sz p big (cells st) (cells st1)"
    using mmap0_ok [OF os inv, of "word_of_int BIGBLOCK"] unfolding pages_big by blast
  show ?thesis
  proof (cases "p = 0")
    case True
    then show ?thesis using p alloc_invD(1) [OF inv] by (auto simp: fill_bin_def)
  next
    case False
    have g: "got_pages sz p big (cells st) (cells st1)" using p(5) False by blast
    have a: "0 < p" using False by simp
    have t: "linked (cells st1) 0 (fs b)" using b(2) by simp
    obtain m' where m': "list_from_block (bin2size (int b)) p 0 (cells st1) = Some (p + 16, m')"
      "alloc_inv owned (st1\<lparr>bin := (bin st1)[b := p + 16], cells := m'\<rparr>) (add_chunks sz p b) (fs(b := block_chunks p b @ fs b)) U"
      "keeps U sz st1 (add_chunks sz p b) (st1\<lparr>bin := (bin st1)[b := p + 16], cells := m'\<rparr>)"
      using refill [OF p(2) b(1) a g t] by blast
    let ?st = "st1\<lparr>cells := m'\<rparr>"
    have "fill_bin mmap (int b) st = Some (p + 16, ?st)" using p(1) False m'(1) by (simp add: fill_bin_def)
    moreover have "keeps U sz st (add_chunks sz p b) ?st"
      using keeps_trans [OF p(4) m'(3)] by (simp add: keeps_def)
    moreover have "alloc_inv owned (?st\<lparr>bin := (bin ?st)[b := p + 16]\<rparr>) (add_chunks sz p b) (fs(b := block_chunks p b @ fs b)) U"
    proof -
      have "?st\<lparr>bin := (bin ?st)[b := p + 16]\<rparr> = st1\<lparr>bin := (bin st1)[b := p + 16], cells := m'\<rparr>" by simp
      then show ?thesis using m'(2) by (simp only:)
    qed
    moreover have "(fs(b := block_chunks p b @ fs b)) b \<noteq> []" using nblocks_pos [OF b(1)] by (simp add: block_chunks_def)
    ultimately show ?thesis
      using p(3) alloc_invD(1) [OF inv]
      by (intro exI [of _ "p + 16"] exI [of _ ?st] exI [of _ "add_chunks sz p b"] exI [of _ "fs(b := block_chunks p b @ fs b)"])
        (simp del: fun_upd_apply)
  qed
qed

lemma malloc_small_ok:
  assumes os: "os_contract mmap munmap owned" and inv: "alloc_inv owned st sz fs U" and n: "n \<le> 792"
  shows "\<exists>p st' sz' fs'. malloc_small mmap n st = Some (p, st') \<and> malloced owned U st sz n p st' sz' fs'"
proof -
  obtain b where b: "size2bin n = int b" "b < 50" "unat n \<le> 16 * b + 8" using bin_nat [OF n] .
  have len: "b < length (bin st)" using alloc_invD(1) [OF inv] b(2) by simp
  have f: "linked (cells st) (bin st ! b) (fs b)" by (rule free_listD(1) [OF alloc_invD(4) [OF inv b(2)]])
  show ?thesis
  proof (cases "bin st ! b = 0")
    case False
    then have "fs b \<noteq> []" using f by (cases "fs b") auto
    then obtain q fs' where q: "cells st (bin st ! b) = Some q"
      "malloced owned U st sz n (bin st ! b) (st\<lparr>bin := (bin st)[b := q]\<rparr>) sz fs'"
      using pop_malloc [where fs = fs, OF inv b(2) _ b(3)] by blast
    have "malloc_small mmap n st = Some (bin st ! b, st\<lparr>bin := (bin st)[b := q]\<rparr>)"
      using False len b(1) q(1) by (simp add: malloc_small_def)
    then show ?thesis using q(2) by blast
  next
    case True
    then have "fs b = []" using f by (simp add: linked_0)
    then obtain p st1 sz1 fs1 where p: "fill_bin mmap (int b) st = Some (p, st1)" "length (bin st1) = 50" "keeps U sz st sz1 st1"
      "if p = 0 then alloc_inv owned st1 sz1 fs1 U
       else alloc_inv owned (st1\<lparr>bin := (bin st1)[b := p]\<rparr>) sz1 fs1 U \<and> fs1 b \<noteq> []"
      using fill_bin_ok [OF os inv b(2)] by blast
    show ?thesis
    proof (cases "p = 0")
      case z: True
      then have "malloc_small mmap n st = Some (0, st1)" using True len b(1) p(1) by (simp add: malloc_small_def)
      moreover have "malloced owned U st sz n 0 st1 sz1 fs1" using p(3,4) z by (simp add: malloced_def)
      ultimately show ?thesis by blast
    next
      case nz: False
      let ?st = "st1\<lparr>bin := (bin st1)[b := p]\<rparr>"
      have inv2: "alloc_inv owned ?st sz1 fs1 U" "fs1 b \<noteq> []" using p(4) nz by simp_all
      have head: "bin ?st ! b = p" using p(2) b(2) by simp
      obtain q fs' where q: "cells ?st p = Some q"
        "malloced owned U ?st sz1 n p (?st\<lparr>bin := (bin ?st)[b := q]\<rparr>) sz1 fs'"
        using pop_malloc [OF inv2(1) b(2) inv2(2) b(3)] unfolding head by blast
      have "keeps U sz st sz1 ?st" using p(3) by (simp add: keeps_def)
      then have "malloced owned U st sz n p (?st\<lparr>bin := (bin ?st)[b := q]\<rparr>) sz1 fs'" using q(2) by (rule malloced_keeps)
      moreover have "malloc_small mmap n st = Some (p, ?st\<lparr>bin := (bin ?st)[b := q]\<rparr>)"
        using True nz len b(1,2) p(1,2) q(1) by (simp add: malloc_small_def)
      ultimately show ?thesis by blast
    qed
  qed
qed

section \<open>Large chunks\<close>

lemma add_large:
  assumes inv: "alloc_inv owned st sz fs U" and p: "p \<noteq> 0" and s: "792 < s" "s < 2 ^ 64 - 16"
    and g: "got_pages sz p (pages (of_nat s + 16)) m0 (cells st)"
  shows "cells st (p + 8) \<noteq> None" "p + 16 \<notin> U"
    "alloc_inv owned (st\<lparr>cells := (cells st)(p + 8 \<mapsto> s)\<rparr>) (sz(p + 16 \<mapsto> s)) fs (insert (p + 16) U)"
    "keeps U sz st (sz(p + 16 \<mapsto> s)) (st\<lparr>cells := (cells st)(p + 8 \<mapsto> s)\<rparr>)"
proof -
  note d = alloc_invD [OF inv]
  let ?q = "p + 16" and ?m = "(cells st)(p + 8 \<mapsto> s)"
  note mapped = got_pagesD(3) [OF g] and new = got_pagesD(4) [OF g]
  have q: "?q mod 16 = 0" "16 \<le> ?q" using page_mod_16 [OF got_pagesD(1) [OF g]] by simp_all
  have e: "ext ?q s = {x. in_words p (pages (of_nat s + 16)) x}" using s(1) by (simp add: ext_def)
  have hdr: "p + 8 \<in> ext ?q s"
  proof -
    have "?q - 8 = p + 8" by simp
    then show ?thesis using header_in_ext [OF q s(2)] by (simp only:)
  qed
  then show m8: "cells st (p + 8) \<noteq> None" using mapped [of "p + 8"] unfolding e by simp
  have old: "y \<noteq> p + 8" if "sz r = Some t" "y \<in> ext r t" for r t y using new [OF that] hdr e by auto
  have none: "sz ?q = None"
  proof (rule ccontr)
    assume "sz ?q \<noteq> None"
    then obtain t where t: "sz ?q = Some t" by blast
    show False using old [OF t chunkD(6) [OF d(2) [OF t]]] by simp
  qed
  then show nU: "?q \<notin> U" using d(5) by fastforce
  let ?st = "st\<lparr>cells := ?m\<rparr>"
  have c: "chunk ?m ?q s" unfolding chunk_def using q s(2) mapped e m8 by auto
  show "alloc_inv owned ?st (sz(?q \<mapsto> s)) fs (insert ?q U)"
  proof (rule alloc_invI)
    fix r t assume r: "(sz(?q \<mapsto> s)) r = Some t"
    show "chunk (cells ?st) r t"
    proof (cases "r = ?q")
      case True
      then show ?thesis using r c by simp
    next
      case False
      then have "sz r = Some t" using r by simp
      then show ?thesis using chunk_frame [OF d(2)] old by simp
    qed
  next
    show "apart (sz(?q \<mapsto> s))"
      unfolding apart_def
    proof (intro allI impI)
      fix r u t v assume a: "(sz(?q \<mapsto> s)) r = Some t" "(sz(?q \<mapsto> s)) u = Some v" "r \<noteq> u"
      consider "r = ?q" "t = s" "sz u = Some v" | "u = ?q" "v = s" "sz r = Some t" | "sz r = Some t" "sz u = Some v"
        by (metis a fun_upd_apply option.inject)
      then show "ext r t \<inter> ext u v = {}"
      proof cases
        case 1
        then show ?thesis using new e by blast
      next
        case 2
        then show ?thesis using new e by blast
      next
        case 3
        then show ?thesis using d(3) a(3) unfolding apart_def by blast
      qed
    qed
  next
    fix b assume b: "b < (50 :: nat)"
    note f = free_listD [OF d(4) [OF b]]
    have "linked ?m (bin st ! b) (fs b)"
    proof (rule linked_frame [OF f(1)])
      fix y assume y: "y \<in> set (fs b)"
      have "y \<in> ext y (16 * b + 8)" using link_in_ext [OF d(2) [OF f(3) [OF y]]] by simp
      then show "?m y = cells st y" using old [OF f(3) [OF y]] by simp
    qed
    moreover have "x \<noteq> ?q" if "x \<in> set (fs b)" for x using f(3) [OF that] none by auto
    ultimately show "free_list ?st (sz(?q \<mapsto> s)) (insert ?q U) b (fs b)" using f unfolding free_list_def by auto
  next
    fix r assume "r \<in> insert ?q U"
    then show "\<exists>t. (sz(?q \<mapsto> s)) r = Some t \<and> (792 < t \<or> (\<exists>b<50. t = 16 * b + 8))" using s(1) d(5) by auto
  next
    show "dom (cells ?st) \<subseteq> owned (os ?st)" using d(6) m8 by auto
  qed (use d in simp_all)
  show "keeps U sz st (sz(?q \<mapsto> s)) ?st" unfolding keeps_def using old nU by auto
qed

lemma malloc_large_ok:
  assumes os: "os_contract mmap munmap owned" and inv: "alloc_inv owned st sz fs U" and n: "792 < n" "unat n < 2 ^ 64 - 16"
  shows "\<exists>p st' sz' fs'. malloc_large mmap n st = Some (p, st') \<and> malloced owned U st sz n p st' sz' fs'"
proof -
  have w: "n + word_of_int WASTE + word_of_int WORD = of_nat (unat n) + 16" "nat WASTE = 8" "nat WORD = 8"
    by (simp_all add: WASTE_def WORD_def ALIGN_def)
  have n': "792 < unat n" using n(1) by (simp add: word_less_nat_alt)
  obtain p st1 where p: "mmap0 mmap (of_nat (unat n) + 16) st = (p, st1)" "alloc_inv owned st1 sz fs U" "keeps U sz st sz st1"
    "p \<noteq> 0 \<longrightarrow> got_pages sz p (pages (of_nat (unat n) + 16)) (cells st) (cells st1)"
    using mmap0_ok [OF os inv, of "of_nat (unat n) + 16"] by blast
  show ?thesis
  proof (cases "p = 0")
    case True
    then have "malloc_large mmap n st = Some (0, st1)" using p(1) by (simp add: malloc_large_def w)
    moreover have "malloced owned U st sz n 0 st1 sz fs" using p(2,3) by (simp add: malloced_def)
    ultimately show ?thesis by blast
  next
    case False
    have gp: "got_pages sz p (pages (of_nat (unat n) + 16)) (cells st) (cells st1)" using p(4) False by blast
    note g = add_large [OF p(2) False n' n(2) gp]
    let ?st = "st1\<lparr>cells := (cells st1)(p + 8 \<mapsto> unat n)\<rparr>"
    have "malloc_large mmap n st = Some (p + 16, ?st)"
      using p(1) False g(1) by (simp only: malloc_large_def w) (simp add: put_word_Some)
    moreover have "malloced owned U st sz n (p + 16) ?st (sz(p + 16 \<mapsto> unat n)) fs"
      using keeps_trans [OF p(3) g(4)] g(2,3) by (simp add: malloced_def)
    ultimately show ?thesis by blast
  qed
qed

lemma malloc_ok:
  assumes "os_contract mmap munmap owned" "alloc_inv owned st sz fs U" "unat n < 2 ^ 64 - 16"
  shows "\<exists>p st' sz' fs'. mm_malloc mmap n st = Some (p, st') \<and> malloced owned U st sz n p st' sz' fs'"
proof (cases "n > bin2size (BINS - 1)")
  case True
  then show ?thesis using malloc_large_ok [OF assms(1,2) _ assms(3)] by (simp add: mm_malloc_def bin2size_last)
next
  case False
  then show ?thesis using malloc_small_ok [OF assms(1,2), of n] by (simp add: mm_malloc_def bin2size_last)
qed

end
