(* ===== verification/Malloc_Client.thy ===== *)
theory Malloc_Client
  imports Malloc_Alloc
begin

text \<open>
  Release and pre-filling, and what a client of the allocator sees: runs of requests against a reference
  in which every chunk has its own memory.
\<close>

section \<open>Release\<close>

lemma remove_chunk:
  assumes inv: "alloc_inv owned st sz fs U" and p: "p \<in> U" "sz p = Some s"
    and st: "bin st' = bin st" "\<And>x. x \<notin> ext p s \<Longrightarrow> cells st' x = cells st x" "dom (cells st') \<subseteq> owned (os st')"
  shows "alloc_inv owned st' (sz(p := None)) fs (U - {p})" "keeps (U - {p}) sz st (sz(p := None)) st'"
proof -
  note d = alloc_invD [OF inv]
  have other: "cells st' x = cells st x" if "sz q = Some t" "q \<noteq> p" "x \<in> ext q t" for q t x
    using st(2) apartD [OF d(3) that(1) p(2) that(2,3)] by blast
  show "alloc_inv owned st' (sz(p := None)) fs (U - {p})"
  proof (rule alloc_invI)
    fix q t assume q: "(sz(p := None)) q = Some t"
    then have "sz q = Some t" "q \<noteq> p" by (auto split: if_splits)
    then show "chunk (cells st') q t" using chunk_frame [OF d(2)] other by blast
  next
    show "apart (sz(p := None))" using d(3) unfolding apart_def by (auto split: if_splits)
  next
    fix b assume b: "b < (50 :: nat)"
    note f = free_listD [OF d(4) [OF b]]
    have np: "y \<noteq> p" if "y \<in> set (fs b)" for y using f(4) [OF that] p(1) by blast
    have "linked (cells st') (bin st ! b) (fs b)"
    proof (rule linked_frame [OF f(1)])
      fix y assume y: "y \<in> set (fs b)"
      have "y \<in> ext y (16 * b + 8)" using link_in_ext [OF d(2) [OF f(3) [OF y]]] by simp
      then show "cells st' y = cells st y" using other [OF f(3) [OF y] np [OF y]] by simp
    qed
    then show "free_list st' (sz(p := None)) (U - {p}) b (fs b)" using f np st(1) unfolding free_list_def by auto
  next
    fix q assume "q \<in> U - {p}"
    then show "\<exists>t. (sz(p := None)) q = Some t \<and> (792 < t \<or> (\<exists>b<50. t = 16 * b + 8))" using d(5) by auto
  qed (use d(1) st in simp_all)
  show "keeps (U - {p}) sz st (sz(p := None)) st'" unfolding keeps_def using other by auto
qed

lemma unat_size: "s < 2 ^ 64 - 16 \<Longrightarrow> unat (of_nat s :: u64) = s"
  by (simp add: unsigned_of_nat take_bit_nat_eq_self)

lemma free_ok:
  assumes os: "os_contract mmap munmap owned" and inv: "alloc_inv owned st sz fs U" and p: "p \<in> U"
  shows "\<exists>st' sz' fs'. mm_free munmap p st = Some st' \<and> alloc_inv owned st' sz' fs' (U - {p}) \<and>
    keeps (U - {p}) sz st sz' st'"
proof -
  note d = alloc_invD [OF inv]
  obtain s where s: "sz p = Some s" "792 < s \<or> (\<exists>b<50. s = 16 * b + 8)" using d(5) [OF p] by blast
  have c: "chunk (cells st) p s" by (rule d(2) [OF s(1)])
  note e = chunkD [OF c]
  have u: "unat (of_nat s :: u64) = s" by (rule unat_size [OF e(3)])
  have small: "(of_nat s :: u64) \<le> 792 \<longleftrightarrow> s \<le> 792" using u by (simp add: word_le_nat_alt)
  show ?thesis
  proof (cases "s \<le> 792")
    case True
    then obtain b where b: "b < 50" "s = 16 * b + 8" using s(2) by auto
    have "size2bin (of_nat s) = int ((s + 7) div 16)" using size2bin_nat(1) [of "of_nat s"] small True u by simp
    moreover have "(s + 7) div 16 = b" by (simp add: b(2))
    ultimately have bin: "size2bin (of_nat s) = int b" by simp
    note f = push_chunk [OF inv b(1) p s(1) [unfolded b(2)]]
    have "mm_free munmap p st = Some (st\<lparr>bin := (bin st)[b := p], cells := (cells st)(p \<mapsto> bin st ! b)\<rparr>)"
      using e(4) f(1,2) small True bin b(1) d(1)
      by (simp add: mm_free_def bin2size_last free_small_def put_word_Some)
    then show ?thesis using f(3,4) by blast
  next
    case False
    have len: "of_nat s + word_of_int WASTE + word_of_int WORD = (of_nat s + 16 :: u64)" "nat (WASTE + WORD) = 16"
      by (simp_all add: WASTE_def WORD_def ALIGN_def)
    obtain r s' where call: "munmap (os st) (p - 16) (of_nat s + 16) = (r, s')"
      by (cases "munmap (os st) (p - 16) (of_nat s + 16)")
    let ?st = "call_munmap munmap (p - 16) (of_nat s + 16) st"
    have free: "mm_free munmap p st = Some ?st"
      using e(2,4) small False by (simp add: mm_free_def bin2size_last free_large_def len)
    have ext: "ext p s = {x. in_words (p - 16) (pages (of_nat s + 16)) x}" using False by (simp add: ext_def)
    have own: "if r then owned (os st) - ext p s \<subseteq> owned s' else owned (os st) \<subseteq> owned s'"
      using os_munmapD [OF os call] unfolding ext .
    have st': "bin ?st = bin st" "os ?st = s'" "cells ?st = (if r then (\<lambda>x. if x \<in> ext p s then None else cells st x) else cells st)"
      using call by (simp_all add: call_munmap_def ext)
    have eq: "cells ?st x = cells st x" if "x \<notin> ext p s" for x using that by (simp add: st'(3))
    have own': "dom (cells ?st) \<subseteq> owned (os ?st)"
    proof
      fix x assume x: "x \<in> dom (cells ?st)"
      then have "x \<in> dom (cells st)" "r \<longrightarrow> x \<notin> ext p s" unfolding st'(3) by (auto split: if_splits)
      then show "x \<in> owned (os ?st)" using own d(6) unfolding st'(2) by (cases r) auto
    qed
    show ?thesis using remove_chunk [OF inv p s(1) st'(1) eq own'] free by blast
  qed
qed

section \<open>Pre-filling\<close>

lemma pre_fill_ok:
  assumes inv: "alloc_inv owned st sz fs U" and n: "n \<le> 792" and p: "0 < p" and g: "got_pages sz p big m0 (cells st)"
  shows "\<exists>st' sz' fs'. pre_fill n p st = Some st' \<and> alloc_inv owned st' sz' fs' U \<and> keeps U sz st sz' st'"
proof -
  obtain b where b: "size2bin n = int b" "b < 50" using bin_nat [OF n] by blast
  have f: "linked (cells st) (bin st ! b) (fs b)" by (rule free_listD(1) [OF alloc_invD(4) [OF inv b(2)]])
  obtain m' where m': "list_from_block (bin2size (int b)) p (bin st ! b) (cells st) = Some (p + 16, m')"
    "alloc_inv owned (st\<lparr>bin := (bin st)[b := p + 16], cells := m'\<rparr>) (add_chunks sz p b) (fs(b := block_chunks p b @ fs b)) U"
    "keeps U sz st (add_chunks sz p b) (st\<lparr>bin := (bin st)[b := p + 16], cells := m'\<rparr>)"
    using refill [OF inv b(2) p g f] by blast
  have "pre_fill n p st = Some (st\<lparr>bin := (bin st)[b := p + 16], cells := m'\<rparr>)"
    using m'(1) b alloc_invD(1) [OF inv] by (simp add: pre_fill_def)
  then show ?thesis using m'(2,3) by blast
qed

lemma pre_fill_loop_ok:
  assumes os: "os_contract mmap munmap owned" and n: "n \<le> 792" and chunks: "0 < chunks"
  shows "alloc_inv owned st sz fs U \<Longrightarrow> 0 \<le> ful \<Longrightarrow> ful \<le> 2147483647 \<Longrightarrow>
    \<exists>r st' sz' fs'. pre_fill_loop mmap n req chunks ful st = Some (r, st') \<and> ful \<le> r \<and> r \<le> 2147483647 \<and>
      alloc_inv owned st' sz' fs' U \<and> keeps U sz st sz' st'"
proof (induction "nat (req - ful)" arbitrary: ful st sz fs rule: less_induct)
  case less
  have stop: ?case if "pre_fill_loop mmap n req chunks ful st = Some (ful, st1)" "alloc_inv owned st1 sz fs U" "keeps U sz st sz st1"
    for st1 using that less.prems by blast
  show ?case
  proof (cases "0 < req - ful \<and> \<not> 2147483647 - ful < chunks")
    case False
    then have "pre_fill_loop mmap n req chunks ful st = Some (ful, st)" by (subst pre_fill_loop.simps) auto
    then show ?thesis using stop less.prems(1) keeps_refl by blast
  next
    case True
    obtain p st1 where p: "mmap0 mmap (word_of_int BIGBLOCK) st = (p, st1)" "alloc_inv owned st1 sz fs U"
      "keeps U sz st sz st1" "p \<noteq> 0 \<longrightarrow> got_pages sz p big (cells st) (cells st1)"
      using mmap0_ok [OF os less.prems(1), of "word_of_int BIGBLOCK"] unfolding pages_big by blast
    show ?thesis
    proof (cases "p = 0")
      case zero: True
      then have "pre_fill_loop mmap n req chunks ful st = Some (ful, st1)"
        using True p(1) by (subst pre_fill_loop.simps) simp
      then show ?thesis using stop p(2,3) by blast
    next
      case False
      then have p0: "0 < p" and g: "got_pages sz p big (cells st) (cells st1)" using p(4) by auto
      obtain st2 sz2 fs2 where f: "pre_fill n p st1 = Some st2" "alloc_inv owned st2 sz2 fs2 U" "keeps U sz st1 sz2 st2"
        using pre_fill_ok [OF p(2) n p0 g] by blast
      have dec: "nat (req - (ful + chunks)) < nat (req - ful)" using True chunks by linarith
      have bounds: "0 \<le> ful + chunks" "ful + chunks \<le> 2147483647" using True chunks less.prems by linarith+
      obtain r st' sz' fs' where r: "pre_fill_loop mmap n req chunks (ful + chunks) st2 = Some (r, st')"
        "ful + chunks \<le> r" "r \<le> 2147483647" "alloc_inv owned st' sz' fs' U" "keeps U sz2 st2 sz' st'"
        using less.hyps [OF dec f(2) bounds] by blast
      have "pre_fill_loop mmap n req chunks ful st = Some (r, st')"
        using True p(1) False f(1) r(1) by (subst pre_fill_loop.simps) simp
      then show ?thesis using r chunks keeps_trans [OF p(3) keeps_trans [OF f(3) r(5)]] by (intro exI [of _ r]) auto
    qed
  qed
qed

lemma try_pre_fill_ok:
  assumes os: "os_contract mmap munmap owned" and inv: "alloc_inv owned st sz fs U"
  shows "\<exists>r st' sz' fs'. try_pre_fill mmap n req st = Some (r, st') \<and> 0 \<le> r \<and> alloc_inv owned st' sz' fs' U \<and> keeps U sz st sz' st'"
proof (cases "n \<le> 792")
  case False
  then show ?thesis using inv keeps_refl [of st st U sz] by (auto simp: try_pre_fill_def bin2size_last)
next
  case True
  obtain b where b: "size2bin n = int b" "b < 50" using bin_nat [OF True] by blast
  have c: "0 < int (nblocks b)" using nblocks_pos [OF b(2)] by simp
  obtain r st' sz' fs' where "pre_fill_loop mmap n req (int (nblocks b)) 0 st = Some (r, st')" "0 \<le> r"
    "alloc_inv owned st' sz' fs' U" "keeps U sz st sz' st'"
    using pre_fill_loop_ok [OF os True c inv, of 0 req] by auto
  then show ?thesis using True b chunk_count [OF b(2)] by (auto simp: try_pre_fill_def bin2size_last not_less)
qed

end
