(* ===== verification/Malloc_Run.thy ===== *)
theory Malloc_Run
  imports Malloc_Client
begin

text \<open>
  What a client of the allocator sees: its requests run against the allocator and against a reference in
  which every chunk has a memory of its own.
\<close>

section \<open>Clients\<close>

text \<open>A client names its chunks by the number of the \<open>Malloc\<close> that gave them, and reads and writes their
  words; it does nothing with a chunk that is \<^verbatim>\<open>NULL\<close> or freed.\<close>

datatype request = Malloc u64 | Free nat | Write nat nat nat | Read nat nat | Prefill u64 int

text \<open>The answers: whether each \<open>Malloc\<close> succeeded, and what each \<open>Read\<close> of a live chunk returned.\<close>

fun run_client :: "'o mmap \<Rightarrow> 'o munmap \<Rightarrow> 'o alloc \<Rightarrow> nat list \<Rightarrow> request list \<Rightarrow> (bool list \<times> nat list) option" where
  "run_client mmap munmap st hs [] = Some ([], [])"
| "run_client mmap munmap st hs (Malloc n # rs) = do {
     (p, st) \<leftarrow> mm_malloc mmap n st;
     (gs, vs) \<leftarrow> run_client mmap munmap st (hs @ [p]) rs;
     Some ((p \<noteq> 0) # gs, vs) }"
| "run_client mmap munmap st hs (Free i # rs) = do {
     st \<leftarrow> mm_free munmap (hs ! i) st;
     run_client mmap munmap st (hs[i := 0]) rs }"
| "run_client mmap munmap st hs (Write i k v # rs) = (if hs ! i = 0 then run_client mmap munmap st hs rs
     else do {
       m \<leftarrow> put_word (cells st) (hs ! i + 8 * k) v;
       run_client mmap munmap (st\<lparr>cells := m\<rparr>) hs rs })"
| "run_client mmap munmap st hs (Read i k # rs) = (if hs ! i = 0 then run_client mmap munmap st hs rs
     else do {
       v \<leftarrow> cells st (hs ! i + 8 * k);
       (gs, vs) \<leftarrow> run_client mmap munmap st hs rs;
       Some (gs, v # vs) })"
| "run_client mmap munmap st hs (Prefill n r # rs) = do {
     (done, st) \<leftarrow> try_pre_fill mmap n r st;
     run_client mmap munmap st hs rs }"

text \<open>The reference: given which \<open>Malloc\<close>s succeed, the expected answer of each \<open>Read\<close>; \<open>None\<close> is a word that
  was not written since its chunk was allocated.\<close>

fun ref_client :: "(nat \<Rightarrow> nat option) option list \<Rightarrow> bool list \<Rightarrow> request list \<Rightarrow> nat option list" where
  "ref_client cs gs [] = []"
| "ref_client cs gs (Malloc n # rs) = ref_client (cs @ [if hd gs then Some Map.empty else None]) (tl gs) rs"
| "ref_client cs gs (Free i # rs) = ref_client (cs[i := None]) gs rs"
| "ref_client cs gs (Write i k v # rs) = (case cs ! i of None \<Rightarrow> ref_client cs gs rs
     | Some c \<Rightarrow> ref_client (cs[i := Some (c(k \<mapsto> v))]) gs rs)"
| "ref_client cs gs (Read i k # rs) = (case cs ! i of None \<Rightarrow> ref_client cs gs rs
     | Some c \<Rightarrow> c k # ref_client cs gs rs)"
| "ref_client cs gs (Prefill n r # rs) = ref_client cs gs rs"

text \<open>A client that stays within the sizes it asked for, none of them within 16 bytes of \<open>2\<^sup>64\<close>.\<close>

fun client_ok :: "u64 list \<Rightarrow> request list \<Rightarrow> bool" where
  "client_ok ns [] = True"
| "client_ok ns (Malloc n # rs) = (unat n < 2 ^ 64 - 16 \<and> client_ok (ns @ [n]) rs)"
| "client_ok ns (Free i # rs) = (i < length ns \<and> client_ok ns rs)"
| "client_ok ns (Write i k v # rs) = (i < length ns \<and> 8 * k + 8 \<le> unat (ns ! i) \<and> client_ok ns rs)"
| "client_ok ns (Read i k # rs) = (i < length ns \<and> 8 * k + 8 \<le> unat (ns ! i) \<and> client_ok ns rs)"
| "client_ok ns (Prefill n r # rs) = client_ok ns rs"

section \<open>The relation of the two\<close>

definition slot :: "'o alloc \<Rightarrow> (nat \<Rightarrow> nat option) \<Rightarrow> nat set \<Rightarrow> nat \<Rightarrow> u64 \<Rightarrow> (nat \<Rightarrow> nat option) option \<Rightarrow> bool" where
  "slot st sz U p n c \<longleftrightarrow> (case c of None \<Rightarrow> p = 0
     | Some f \<Rightarrow> p \<noteq> 0 \<and> p \<in> U \<and> (\<exists>s. sz p = Some s \<and> unat n \<le> s \<and>
         (\<forall>k v. f k = Some v \<longrightarrow> 8 * k + 8 \<le> s \<and> cells st (p + 8 * k) = Some v)))"

definition slots :: "'o alloc \<Rightarrow> (nat \<Rightarrow> nat option) \<Rightarrow> nat set \<Rightarrow> nat list \<Rightarrow> u64 list \<Rightarrow> (nat \<Rightarrow> nat option) option list \<Rightarrow> bool" where
  "slots st sz U hs ns cs \<longleftrightarrow> length hs = length ns \<and> length cs = length ns \<and>
     (\<forall>i<length ns. slot st sz U (hs ! i) (ns ! i) (cs ! i)) \<and>
     (\<forall>i<length ns. \<forall>j<length ns. i \<noteq> j \<longrightarrow> hs ! i \<noteq> 0 \<longrightarrow> hs ! i \<noteq> hs ! j)"

lemma slotsD:
  assumes "slots st sz U hs ns cs"
  shows "length hs = length ns" "length cs = length ns" "i < length ns \<Longrightarrow> slot st sz U (hs ! i) (ns ! i) (cs ! i)"
    "i < length ns \<Longrightarrow> j < length ns \<Longrightarrow> i \<noteq> j \<Longrightarrow> hs ! i \<noteq> 0 \<Longrightarrow> hs ! i \<noteq> hs ! j"
  using assms unfolding slots_def by blast+

lemma slot_live:
  assumes "slot st sz U p n c"
  shows "p = 0 \<longleftrightarrow> c = None" "p \<noteq> 0 \<Longrightarrow> p \<in> U"
  using assms by (auto simp: slot_def split: option.splits)

lemma slot_keeps:
  assumes "slot st sz U p n c" "alloc_inv owned st sz fs U" "keeps V sz st sz' st'" "p \<noteq> 0 \<Longrightarrow> p \<in> V" "p \<noteq> 0 \<Longrightarrow> p \<in> U'"
  shows "slot st' sz' U' p n c"
proof (cases c)
  case None
  then show ?thesis using assms(1) by (simp add: slot_def)
next
  case (Some f)
  obtain s where s: "p \<noteq> 0" "sz p = Some s" "unat n \<le> s" "\<forall>k v. f k = Some v \<longrightarrow> 8 * k + 8 \<le> s \<and> cells st (p + 8 * k) = Some v"
    using assms(1) Some by (auto simp: slot_def)
  note c = chunkD [OF alloc_invD(2) [OF assms(2) s(2)]]
  have k: "sz' p = Some s" "\<forall>x\<in>ext p s. cells st' x = cells st x"
    using assms(3) assms(4) [OF s(1)] s(2) unfolding keeps_def by blast+
  have "8 * k + 8 \<le> s \<and> cells st' (p + 8 * k) = Some v" if "f k = Some v" for k v
    using s(4) that k(2) data_in_ext(1) [OF c(1-3), of k] by auto
  then show ?thesis using s(1,3) k(1) assms(5) Some unfolding slot_def by auto
qed

lemma slots_keeps:
  assumes "slots st sz U hs ns cs" "alloc_inv owned st sz fs U" "keeps U sz st sz' st'" "U \<subseteq> U'"
  shows "slots st' sz' U' hs ns cs"
proof -
  note d = slotsD [OF assms(1)]
  have "slot st' sz' U' (hs ! i) (ns ! i) (cs ! i)" if "i < length ns" for i
    by (rule slot_keeps [OF d(3) [OF that] assms(2,3)]) (use slot_live(2) [OF d(3) [OF that]] assms(4) in auto)
  then show ?thesis using d(1,2,4) unfolding slots_def by blast
qed

lemma slots_malloc:
  assumes sl: "slots st sz U hs ns cs" and inv: "alloc_inv owned st sz fs U" and m: "malloced owned U st sz n p st' sz' fs'"
  shows "\<exists>U'. alloc_inv owned st' sz' fs' U' \<and>
    slots st' sz' U' (hs @ [p]) (ns @ [n]) (cs @ [if p \<noteq> 0 then Some Map.empty else None])"
proof -
  let ?U = "if p = 0 then U else insert p U"
  have k: "keeps U sz st sz' st'" "alloc_inv owned st' sz' fs' ?U" using m unfolding malloced_def by (auto split: if_splits)
  have old: "slots st' sz' ?U hs ns cs" by (rule slots_keeps [OF sl inv k(1)]) auto
  note d = slotsD [OF old]
  have new: "slot st' sz' ?U p n (if p \<noteq> 0 then Some Map.empty else None)"
    using m by (auto simp: malloced_def slot_def)
  have ne: "hs ! i \<noteq> p" if "i < length ns" "hs ! i \<noteq> 0" for i
    using slot_live(2) [OF slotsD(3) [OF sl that(1)] that(2)] m that(2) by (auto simp: malloced_def split: if_splits)
  have "slots st' sz' ?U (hs @ [p]) (ns @ [n]) (cs @ [if p \<noteq> 0 then Some Map.empty else None])"
    unfolding slots_def
  proof (intro conjI allI impI)
    show "length (hs @ [p]) = length (ns @ [n])" "length (cs @ [if p \<noteq> 0 then Some Map.empty else None]) = length (ns @ [n])"
      using d(1,2) by simp_all
    fix i assume i: "i < length (ns @ [n])"
    show "slot st' sz' ?U ((hs @ [p]) ! i) ((ns @ [n]) ! i) ((cs @ [if p \<noteq> 0 then Some Map.empty else None]) ! i)"
      using d(1,2,3) new i by (cases "i < length ns") (simp_all add: nth_append)
    fix j assume "j < length (ns @ [n])" "i \<noteq> j" "(hs @ [p]) ! i \<noteq> 0"
    then show "(hs @ [p]) ! i \<noteq> (hs @ [p]) ! j"
      using i d(1) d(4) [of i j] ne [of i] ne [of j] by (auto simp: nth_append less_Suc_eq split: if_splits)
  qed
  then show ?thesis using k(2) by blast
qed

lemma slots_free:
  assumes sl: "slots st sz U hs ns cs" and inv: "alloc_inv owned st sz fs U" and os: "os_contract mmap munmap owned"
    and i: "i < length ns"
  shows "\<exists>st' sz' fs' U'. mm_free munmap (hs ! i) st = Some st' \<and> alloc_inv owned st' sz' fs' U' \<and>
    slots st' sz' U' (hs[i := 0]) ns (cs[i := None])"
proof (cases "hs ! i = 0")
  case True
  note d = slotsD [OF sl]
  have "hs[i := 0] = hs" "cs[i := None] = cs" using True slot_live(1) [OF d(3) [OF i]] by (metis list_update_id)+
  then show ?thesis using True sl inv by (auto simp: mm_free_def)
next
  case False
  note d = slotsD [OF sl]
  have "hs ! i \<in> U" by (rule slot_live(2) [OF d(3) [OF i] False])
  then obtain st' sz' fs' where f: "mm_free munmap (hs ! i) st = Some st'" "alloc_inv owned st' sz' fs' (U - {hs ! i})"
    "keeps (U - {hs ! i}) sz st sz' st'"
    using free_ok [OF os inv] by blast
  have other: "slot st' sz' (U - {hs ! i}) (hs ! j) (ns ! j) (cs ! j)" if j: "j < length ns" "j \<noteq> i" for j
    by (rule slot_keeps [OF d(3) [OF j(1)] inv f(3)])
      (use slot_live(2) [OF d(3) [OF j(1)]] d(4) [OF j(1) i j(2)] in auto)
  have "slots st' sz' (U - {hs ! i}) (hs[i := 0]) ns (cs[i := None])"
    unfolding slots_def
  proof (intro conjI allI impI)
    fix j assume j: "j < length ns"
    show "slot st' sz' (U - {hs ! i}) (hs[i := 0] ! j) (ns ! j) (cs[i := None] ! j)"
      using other j d(1,2) by (cases "j = i") (simp_all add: slot_def)
    fix k assume "k < length ns" "j \<noteq> k" "hs[i := 0] ! j \<noteq> 0"
    then show "hs[i := 0] ! j \<noteq> hs[i := 0] ! k" using d(1) d(4) [of j k] j i by (cases "j = i"; cases "k = i") auto
  qed (use d(1,2) in simp_all)
  then show ?thesis using f(1,2) by blast
qed

lemma slots_write:
  assumes sl: "slots st sz U hs ns cs" and inv: "alloc_inv owned st sz fs U" and i: "i < length ns" "8 * k + 8 \<le> unat (ns ! i)"
    and c: "cs ! i = Some c"
  shows "\<exists>st'. put_word (cells st) (hs ! i + 8 * k) v = Some (cells st') \<and> st' = st\<lparr>cells := cells st'\<rparr> \<and>
    alloc_inv owned st' sz fs U \<and> slots st' sz U hs ns (cs[i := Some (c(k \<mapsto> v))])"
proof -
  note d = slotsD [OF sl]
  let ?p = "hs ! i"
  obtain s where s: "?p \<noteq> 0" "?p \<in> U" "sz ?p = Some s" "unat (ns ! i) \<le> s"
    "\<forall>k v. c k = Some v \<longrightarrow> 8 * k + 8 \<le> s \<and> cells st (?p + 8 * k) = Some v"
    using d(3) [OF i(1)] c by (auto simp: slot_def)
  note ch = chunkD [OF alloc_invD(2) [OF inv s(3)]]
  have k: "8 * k + 8 \<le> s" using i(2) s(4) by simp
  note x = data_in_ext [OF ch(1-3) k]
  have nf: "?p \<notin> set (fs b)" if "b < 50" for b using free_listD(4) [OF alloc_invD(4) [OF inv that]] s(2) by blast
  let ?st = "st\<lparr>cells := (cells st)(?p + 8 * k \<mapsto> v)\<rparr>"
  note w = write_word [OF inv s(3) nf x, of v]
  have other: "slot ?st sz U (hs ! j) (ns ! j) (cs ! j)" if j: "j < length ns" "j \<noteq> i" for j
    by (rule slot_keeps [OF d(3) [OF j(1)] inv w(2)])
      (use slot_live(2) [OF d(3) [OF j(1)]] d(4) [OF j(1) i(1) j(2)] in auto)
  have here: "slot ?st sz U ?p (ns ! i) (Some (c(k \<mapsto> v)))" using s k by (auto simp: slot_def)
  have "slot ?st sz U (hs ! j) (ns ! j) (cs[i := Some (c(k \<mapsto> v))] ! j)" if j: "j < length ns" for j
  proof (cases "j = i")
    case True
    then show ?thesis using here i(1) d(2) by (simp only: nth_list_update_eq)
  next
    case False
    then show ?thesis using other [OF j False] by (simp only: nth_list_update_neq)
  qed
  then have "slots ?st sz U hs ns (cs[i := Some (c(k \<mapsto> v))])"
    using d(1,2,4) unfolding slots_def by auto
  moreover have "put_word (cells st) (?p + 8 * k) v = Some (cells ?st)" using ch(5) [OF x(1)] by (simp add: put_word_Some)
  ultimately show ?thesis using w(1) by (intro exI [of _ ?st]) simp
qed

lemma slots_read:
  assumes sl: "slots st sz U hs ns cs" and inv: "alloc_inv owned st sz fs U" and i: "i < length ns" "8 * k + 8 \<le> unat (ns ! i)"
    and c: "cs ! i = Some c"
  shows "\<exists>v. cells st (hs ! i + 8 * k) = Some v \<and> (c k = None \<or> c k = Some v)"
proof -
  obtain s where s: "sz (hs ! i) = Some s" "unat (ns ! i) \<le> s"
    "\<forall>k v. c k = Some v \<longrightarrow> 8 * k + 8 \<le> s \<and> cells st (hs ! i + 8 * k) = Some v"
    using slotsD(3) [OF sl i(1)] c by (auto simp: slot_def)
  note ch = chunkD [OF alloc_invD(2) [OF inv s(1)]]
  have k: "8 * k + 8 \<le> s" using i(2) s(2) by simp
  obtain v where v: "cells st (hs ! i + 8 * k) = Some v" using ch(5) [OF data_in_ext(1) [OF ch(1-3) k]] by blast
  then show ?thesis using s(3) by (cases "c k") auto
qed

section \<open>Runs\<close>

definition answers :: "nat option list \<Rightarrow> nat list \<Rightarrow> bool" where
  "answers es vs \<longleftrightarrow> list_all2 (\<lambda>e v. e = None \<or> e = Some v) es vs"

lemma run_client_ok:
  assumes "os_contract mmap munmap owned" "alloc_inv owned st sz fs U" "slots st sz U hs ns cs" "client_ok ns rs"
  shows "\<exists>gs vs. run_client mmap munmap st hs rs = Some (gs, vs) \<and> answers (ref_client cs gs rs) vs"
  using assms(2-4)
proof (induction rs arbitrary: st sz fs U hs ns cs)
  case Nil
  then show ?case by (simp add: answers_def)
next
  case (Cons r rs)
  note inv = Cons.prems(1) and sl = Cons.prems(2)
  note d = slotsD [OF sl]
  show ?case
  proof (cases r)
    case (Malloc n)
    have n: "unat n < 2 ^ 64 - 16" "client_ok (ns @ [n]) rs" using Cons.prems(3) Malloc by simp_all
    obtain p st' sz' fs' where m: "mm_malloc mmap n st = Some (p, st')" "malloced owned U st sz n p st' sz' fs'"
      using malloc_ok [OF assms(1) inv n(1)] by blast
    obtain U' where U': "alloc_inv owned st' sz' fs' U'"
      "slots st' sz' U' (hs @ [p]) (ns @ [n]) (cs @ [if p \<noteq> 0 then Some Map.empty else None])"
      using slots_malloc [OF sl inv m(2)] by blast
    obtain gs vs where "run_client mmap munmap st' (hs @ [p]) rs = Some (gs, vs)"
      "answers (ref_client (cs @ [if p \<noteq> 0 then Some Map.empty else None]) gs rs) vs"
      using Cons.IH [OF U' n(2)] by blast
    then show ?thesis using m(1) Malloc by (intro exI [of _ "(p \<noteq> 0) # gs"] exI [of _ vs]) simp
  next
    case (Free i)
    have i: "i < length ns" "client_ok ns rs" using Cons.prems(3) Free by simp_all
    obtain st' sz' fs' U' where f: "mm_free munmap (hs ! i) st = Some st'" "alloc_inv owned st' sz' fs' U'"
      "slots st' sz' U' (hs[i := 0]) ns (cs[i := None])"
      using slots_free [OF sl inv assms(1) i(1)] by blast
    then show ?thesis using Cons.IH [OF f(2,3) i(2)] Free by simp
  next
    case (Write i k v)
    have i: "i < length ns" "8 * k + 8 \<le> unat (ns ! i)" "client_ok ns rs" using Cons.prems(3) Write by simp_all
    show ?thesis
    proof (cases "cs ! i")
      case None
      then have "hs ! i = 0" using slot_live(1) [OF d(3) [OF i(1)]] by simp
      then show ?thesis using Cons.IH [OF inv sl i(3)] Write None by simp
    next
      case (Some c)
      then have "hs ! i \<noteq> 0" using slot_live(1) [OF d(3) [OF i(1)]] by simp
      moreover obtain st' where w: "put_word (cells st) (hs ! i + 8 * k) v = Some (cells st')" "st' = st\<lparr>cells := cells st'\<rparr>"
        "alloc_inv owned st' sz fs U" "slots st' sz U hs ns (cs[i := Some (c(k \<mapsto> v))])"
        using slots_write [OF sl inv i(1,2) Some] by blast
      ultimately have "run_client mmap munmap st hs (r # rs) = run_client mmap munmap st' hs rs"
        using Write w(2) [symmetric] by simp
      then show ?thesis using Cons.IH [OF w(3,4) i(3)] Write Some by simp
    qed
  next
    case (Read i k)
    have i: "i < length ns" "8 * k + 8 \<le> unat (ns ! i)" "client_ok ns rs" using Cons.prems(3) Read by simp_all
    show ?thesis
    proof (cases "cs ! i")
      case None
      then have "hs ! i = 0" using slot_live(1) [OF d(3) [OF i(1)]] by simp
      then show ?thesis using Cons.IH [OF inv sl i(3)] Read None by simp
    next
      case (Some c)
      then have "hs ! i \<noteq> 0" using slot_live(1) [OF d(3) [OF i(1)]] by simp
      moreover obtain v where v: "cells st (hs ! i + 8 * k) = Some v" "c k = None \<or> c k = Some v"
        using slots_read [OF sl inv i(1,2) Some] by blast
      moreover obtain gs vs where "run_client mmap munmap st hs rs = Some (gs, vs)" "answers (ref_client cs gs rs) vs"
        using Cons.IH [OF inv sl i(3)] by blast
      ultimately show ?thesis using Read Some by (intro exI [of _ gs] exI [of _ "v # vs"]) (simp add: answers_def)
    qed
  next
    case (Prefill n q)
    have ok: "client_ok ns rs" using Cons.prems(3) Prefill by simp
    obtain x st' sz' fs' where f: "try_pre_fill mmap n q st = Some (x, st')" "alloc_inv owned st' sz' fs' U" "keeps U sz st sz' st'"
      using try_pre_fill_ok [OF assms(1) inv] by blast
    have "slots st' sz' U hs ns cs" by (rule slots_keeps [OF sl inv f(3)]) simp
    then show ?thesis using Cons.IH [OF f(2) _ ok] f(1) Prefill by simp
  qed
qed

end
