(* ===== verification/Malloc_Properties.thy ===== *)
theory Malloc_Properties
  imports Malloc_Run
begin

text \<open>
  The properties of the allocator.
\<close>

section \<open>Every chunk is a memory of its own\<close>

text \<open>C25: whatever a client asks of the allocator (chunks of any sizes below \<open>2\<^sup>64 - 16\<close>, released in any order,
  pre-filled or not, read and written within the sizes asked for), no call is undefined and every chunk behaves
  as a memory of its own: a word read back is the last one written to it since its chunk was allocated, so live
  chunks never overlap each other or the free lists.\<close>

theorem client_sees_own_memory:
  assumes "os_contract mmap munmap owned" "client_ok [] rs"
  shows "\<exists>gs vs. run_client mmap munmap (alloc_init s) [] rs = Some (gs, vs) \<and> answers (ref_client [] gs rs) vs"
proof -
  have "slots (alloc_init s) Map.empty {} [] [] []" by (simp add: slots_def)
  then show ?thesis by (rule run_client_ok [OF assms(1) alloc_inv_init _ assms(2)])
qed

text \<open>A system that hands out consecutive pages, keeping the number of the last one, and reclaims none.\<close>

definition next_mmap :: "nat mmap" where
  "next_mmap k len = (if 4096 * (k + 1) + pages len \<le> 2 ^ 64 then (Some (4096 * (k + 1)), k + pages len div 4096) else (None, k))"

definition next_munmap :: "nat munmap" where
  "next_munmap k a len = (True, k)"

definition next_owned :: "nat \<Rightarrow> nat set" where
  "next_owned k = {x. x mod 8 = 0 \<and> x < 4096 * (k + 1)}"

lemma next_contract: "os_contract next_mmap next_munmap next_owned"
proof -
  have p: "pages len = 4096 * (pages len div 4096)" for len by (simp add: pages_def)
  have eq: "next_owned (k + pages len div 4096) = next_owned k \<union> {x. in_words (4096 * (k + 1)) (pages len) x}" for k len
    using p [of len] by (auto simp: next_owned_def in_words_def add_mult_distrib2)
  show ?thesis unfolding os_contract_def next_munmap_def
  proof (intro conjI allI)
    fix k len
    show "case next_mmap k len of (None, s') \<Rightarrow> next_owned s' = next_owned k
      | (Some p, s') \<Rightarrow> p mod 4096 = 0 \<and> 0 < p \<and> p + pages len \<le> 2 ^ 64 \<and> (\<forall>x\<in>next_owned k. \<not> in_words p (pages len) x) \<and>
          next_owned s' = next_owned k \<union> {x. in_words p (pages len) x}"
    proof (cases "4096 * (k + 1) + pages len \<le> 2 ^ 64")
      case True
      have "\<forall>x\<in>next_owned k. \<not> in_words (4096 * (k + 1)) (pages len) x" by (auto simp: next_owned_def in_words_def)
      then show ?thesis using True eq [of k len] by (simp add: next_mmap_def)
    qed (simp add: next_mmap_def)
  qed auto
qed

theorem client_sees_own_memory_witness:
  "\<exists>gs vs. run_client next_mmap next_munmap (alloc_init 0) []
       [Malloc 20, Malloc 20, Malloc 1000, Write 0 1 7, Write 1 1 8, Write 2 124 9, Free 1, Malloc 20, Write 3 1 5, Read 0 1, Read 2 124] =
     Some (gs, vs) \<and>
     answers (ref_client [] gs
       [Malloc 20, Malloc 20, Malloc 1000, Write 0 1 7, Write 1 1 8, Write 2 124 9, Free 1, Malloc 20, Write 3 1 5, Read 0 1, Read 2 124]) vs"
  by (rule client_sees_own_memory [OF next_contract]) simp

section \<open>Failure\<close>

lemma mmap0_null_iff:
  assumes "os_contract mmap munmap owned"
  shows "fst (mmap0 mmap len st) = 0 \<longleftrightarrow> fst (mmap (os st) len) = None"
  using os_mmapD(2) [OF assms, of "os st" len]
  by (cases "mmap (os st) len") (auto simp: mmap0_def split: option.splits)

lemma malloc_null_iff:
  assumes os: "os_contract mmap munmap owned" and m: "mm_malloc mmap n st = Some (p, st')"
  shows "p = 0 \<longleftrightarrow> (if n \<le> 792 then bin st ! nat (size2bin n) = 0 \<and> fst (mmap (os st) (word_of_int BIGBLOCK)) = None
       else fst (mmap (os st) (n + 16)) = None)"
proof (cases "n \<le> 792")
  case True
  obtain b where b: "size2bin n = int b" using size2bin_nat(1) [OF True] by simp
  note nl = mmap0_null_iff [OF os, of "word_of_int BIGBLOCK" st]
  have small: "malloc_small mmap n st = Some (p, st')" using m True by (simp add: mm_malloc_def bin2size_last not_less [symmetric])
  obtain a st1 where a: "mmap0 mmap (word_of_int BIGBLOCK) st = (a, st1)" by (cases "mmap0 mmap (word_of_int BIGBLOCK) st")
  have l: "q \<noteq> 0" if "list_from_block (bin2size (int b)) a 0 m = Some (q, m')" for q m m'
    using that by (auto simp: list_from_block_def bind_Some_iff WASTE_def WORD_def ALIGN_def)
  show ?thesis
  proof (cases "bin st ! b = 0")
    case empty: True
    then show ?thesis
      using small True nl a l
      by (cases "a = 0") (auto simp: malloc_small_def fill_bin_def b Let_def bind_Some_iff split: if_splits)
  next
    case False
    then show ?thesis using small True by (auto simp: malloc_small_def b Let_def bind_Some_iff split: if_splits)
  qed
next
  case False
  have w: "n + word_of_int WASTE + word_of_int WORD = n + 16" by (simp add: WASTE_def WORD_def ALIGN_def)
  have large: "malloc_large mmap n st = Some (p, st')" using m False by (simp add: mm_malloc_def bin2size_last not_le)
  obtain a st1 where a: "mmap0 mmap (n + 16) st = (a, st1)" by (cases "mmap0 mmap (n + 16) st")
  have "p = 0 \<longleftrightarrow> a = 0"
    using large unfolding malloc_large_def w a by (auto simp: bind_Some_iff WORD_def split: if_splits)
  then show ?thesis using False mmap0_null_iff [OF os, of "n + 16" st] a by simp
qed

text \<open>C40: \<^verbatim>\<open>malloc\<close> answers \<^verbatim>\<open>NULL\<close> exactly when its bin has no free chunk and the system does not give it a big
  block, or, for a large request, when the system does not give it the pages; in every other state it returns
  a chunk aligned to 16 bytes with its size in the word before it.\<close>

theorem malloc_null:
  assumes "os_contract mmap munmap owned" "alloc_inv owned st sz fs U" "unat n < 2 ^ 64 - 16"
  shows "\<exists>p st'. mm_malloc mmap n st = Some (p, st') \<and>
    (p = 0 \<longleftrightarrow> (if n \<le> 792 then bin st ! nat (size2bin n) = 0 \<and> fst (mmap (os st) (word_of_int BIGBLOCK)) = None
       else fst (mmap (os st) (n + 16)) = None)) \<and>
    (p \<noteq> 0 \<longrightarrow> p mod 16 = 0 \<and> (\<exists>s. cells st' (p - 8) = Some s \<and> unat n \<le> s))"
proof -
  obtain p st' sz' fs' where m: "mm_malloc mmap n st = Some (p, st')" "malloced owned U st sz n p st' sz' fs'"
    using malloc_ok [OF assms] by blast
  have "p mod 16 = 0 \<and> (\<exists>s. cells st' (p - 8) = Some s \<and> unat n \<le> s)" if "p \<noteq> 0"
  proof -
    have "(\<exists>s. sz' p = Some s \<and> unat n \<le> s) \<and> alloc_inv owned st' sz' fs' (insert p U)"
      using m(2) that by (simp add: malloced_def)
    then obtain s where s: "sz' p = Some s" "unat n \<le> s" "alloc_inv owned st' sz' fs' (insert p U)" by blast
    show ?thesis using chunkD [OF alloc_invD(2) [OF s(3,1)]] s(2) by simp
  qed
  moreover have "p = 0 \<longleftrightarrow> (if n \<le> 792 then bin st ! nat (size2bin n) = 0 \<and> fst (mmap (os st) (word_of_int BIGBLOCK)) = None
       else fst (mmap (os st) (n + 16)) = None)"
    using malloc_null_iff [OF assms(1) m(1)] by simp
  ultimately show ?thesis using m(1) by (intro exI [of _ p] exI [of _ st']) simp
qed

theorem malloc_null_witness:
  "\<exists>p st'. mm_malloc next_mmap 20 (alloc_init 0) = Some (p, st') \<and> p \<noteq> 0"
proof -
  have "\<exists>p st'. mm_malloc next_mmap 20 (alloc_init 0) = Some (p, st') \<and>
    (p = 0 \<longleftrightarrow> (if (20 :: u64) \<le> 792 then bin (alloc_init (0 :: nat)) ! nat (size2bin 20) = 0 \<and>
         fst (next_mmap (os (alloc_init 0)) (word_of_int BIGBLOCK)) = None
       else fst (next_mmap (os (alloc_init 0)) (20 + 16)) = None)) \<and>
    (p \<noteq> 0 \<longrightarrow> p mod 16 = 0 \<and> (\<exists>s. cells st' (p - 8) = Some s \<and> unat (20 :: u64) \<le> s))"
    by (rule malloc_null [OF next_contract alloc_inv_init]) simp
  moreover have "fst (next_mmap (os (alloc_init 0)) (word_of_int BIGBLOCK)) \<noteq> None"
    by (simp add: next_mmap_def alloc_init_def pages_big)
  ultimately show ?thesis by auto
qed

text \<open>The bound on the size is needed: within 16 bytes of \<open>2\<^sup>64\<close> the length wraps, and a client gets a single page
  as a chunk that would leave the address space.\<close>

theorem malloc_wraps:
  assumes "unat n \<ge> 2 ^ 64 - 15" "mmap (os st) (n + 16) = (Some a, o')" "0 < a" "a mod 4096 = 0"
  shows "\<exists>st'. mm_malloc mmap n st = Some (a + 16, st') \<and> pages (n + 16) = 4096 \<and> 2 ^ 64 \<le> a + 16 + unat n"
proof -
  have big: "\<not> n \<le> 792" using assms(1) by (simp add: word_le_nat_alt)
  have lt: "unat n < 2 ^ 64" using unsigned_less [of n] by simp
  have "unat (n + 16) = (unat n + 16) mod 2 ^ 64" by (simp add: unat_word_ariths)
  also have "\<dots> = unat n + 16 - 2 ^ 64" using assms(1) lt by (simp add: mod_if)
  finally have "0 < unat (n + 16)" "unat (n + 16) < 16" using assms(1) lt by linarith+
  then have pages: "pages (n + 16) = 4096" by (simp add: pages_def)
  have w: "n + word_of_int WASTE + word_of_int WORD = n + 16" "nat WASTE = 8" "nat WORD = 8"
    by (simp_all add: WASTE_def WORD_def ALIGN_def)
  have "a mod 8 = 0" by (rule mod_16_8(1) [OF page_mod_16 [OF assms(4)]])
  then have "in_words a 4096 (a + 8)" by (simp add: in_words_def mod_add_eq)
  then have "mm_malloc mmap n st = Some (a + 16, st\<lparr>os := o',
      cells := (\<lambda>x. if in_words a 4096 x then Some 0 else cells st x)(a + 8 \<mapsto> unat n)\<rparr>)"
    using big assms(2,3)
    by (simp add: mm_malloc_def bin2size_last not_less malloc_large_def w mmap0_def pages put_word_def)
  then show ?thesis using pages assms(1) by auto
qed

theorem malloc_wraps_witness:
  "\<exists>st'. mm_malloc next_mmap (- 1) (alloc_init 0) = Some (4112, st')"
proof -
  have "unat (- 1 :: u64) = 18446744073709551615" by (simp add: unsigned_minus_1_eq_mask mask_eq_exp_minus_1)
  then show ?thesis
    using malloc_wraps [of "- 1" next_mmap "alloc_init 0" 4096 1] by (simp add: next_mmap_def alloc_init_def pages_def)
qed

end
