(* ===== verification/Conc_Nb4.thy ===== *)
theory Conc_Nb4
  imports Conc_Cells
begin

text \<open>
  The lock-free search tree with deletion, \<^verbatim>\<open>src/concurrency/bst_conc_nblocking4.c\<close>. A node announces what is
  being done to it in an operation object behind its \<^verbatim>\<open>op\<close> pointer, so that any thread can finish it.

  The functions are those of one thread. What the other threads do is a parameter \<open>E\<close>: before each
  access to an atomic object, \<open>E\<close>, which also gets the number of the access, may change the memory in any way.
  A thread that runs alone is one with the \<open>E\<close> that changes nothing. A \<^verbatim>\<open>void *\<close> is a natural number, so
  that its lowest bit, which \<^verbatim>\<open>SET_NULL\<close> sets, is part of it; objects have even addresses. The lists of
  hazard pointers are not used in this version of the program, whose code for them is commented out.
\<close>

section \<open>Memory\<close>

datatype flag_type = NONE | MARK | CHILDCAS | RELOCATE | VALUESTORE

datatype find_result = ABORT | NOTFOUND_L | NOTFOUND_R | FOUND

datatype operation_state = ONGOING | SUCCESSFUL | FAILED

record tree4 =
  n4_key :: int
  n4_value :: addr
  n4_op :: addr
  n4_left :: addr
  n4_right :: addr

record child_cas_operation =
  cc_is_left :: bool
  cc_expected :: nat
  cc_update :: nat

record relocate_operation =
  rl_state :: addr
  rl_dest :: addr
  rl_dest_op :: nat
  rl_remove_key :: int
  rl_replace_key :: int
  rl_replace_value :: nat

record operation4 =
  o_op :: nat
  o_type :: flag_type

record mem4 =
  atoms :: "addr \<Rightarrow> nat option"
  aints :: "addr \<Rightarrow> operation_state option"
  trees :: "addr \<Rightarrow> tree4 option"
  cas_ops :: "addr \<Rightarrow> child_cas_operation option"
  reloc_ops :: "addr \<Rightarrow> relocate_operation option"
  opers :: "addr \<Rightarrow> operation4 option"
  brk4 :: nat
  base_root :: addr
  clock :: nat

type_synonym others = "nat \<Rightarrow> mem4 \<Rightarrow> mem4"

text \<open>Each access to an atomic object.\<close>

definition meanwhile :: "others \<Rightarrow> mem4 \<Rightarrow> mem4" where
  "meanwhile E m = E (clock m) (m\<lparr>clock := Suc (clock m)\<rparr>)"

definition load4 :: "others \<Rightarrow> addr \<Rightarrow> mem4 \<Rightarrow> (nat \<times> mem4) option" where
  "load4 E a m = (let m = meanwhile E m in do { v \<leftarrow> atoms m a; Some (v, m) })"

definition store4 :: "others \<Rightarrow> addr \<Rightarrow> nat \<Rightarrow> mem4 \<Rightarrow> mem4 option" where
  "store4 E a v m = (let m = meanwhile E m in do { _ \<leftarrow> atoms m a; Some (m\<lparr>atoms := (atoms m)(a \<mapsto> v)\<rparr>) })"

text \<open>A compare-and-swap returns whether it succeeded, and what it leaves in the expected value.\<close>

definition cas4 :: "others \<Rightarrow> addr \<Rightarrow> nat \<Rightarrow> nat \<Rightarrow> mem4 \<Rightarrow> (bool \<times> nat \<times> mem4) option" where
  "cas4 E a c v m = (let m = meanwhile E m in do {
     w \<leftarrow> atoms m a;
     if w = c then Some (True, c, m\<lparr>atoms := (atoms m)(a \<mapsto> v)\<rparr>) else Some (False, w, m) })"

definition load_int4 :: "others \<Rightarrow> addr \<Rightarrow> mem4 \<Rightarrow> (operation_state \<times> mem4) option" where
  "load_int4 E a m = (let m = meanwhile E m in do { v \<leftarrow> aints m a; Some (v, m) })"

definition cas_int4 :: "others \<Rightarrow> addr \<Rightarrow> operation_state \<Rightarrow> operation_state \<Rightarrow> mem4 \<Rightarrow> mem4 option" where
  "cas_int4 E a c v m = (let m = meanwhile E m in do {
     w \<leftarrow> aints m a;
     Some (if w = c then m\<lparr>aints := (aints m)(a \<mapsto> v)\<rparr> else m) })"

text \<open>Allocation, which is taken to succeed: \<^verbatim>\<open>surely_malloc\<close> does not return without memory.\<close>

definition make_atomic_ptr4 :: "nat \<Rightarrow> mem4 \<Rightarrow> addr \<times> mem4" where
  "make_atomic_ptr4 v m = (brk4 m, m\<lparr>atoms := (atoms m)(brk4 m \<mapsto> v), brk4 := brk4 m + 16\<rparr>)"

definition make_atomic4 :: "operation_state \<Rightarrow> mem4 \<Rightarrow> addr \<times> mem4" where
  "make_atomic4 v m = (brk4 m, m\<lparr>aints := (aints m)(brk4 m \<mapsto> v), brk4 := brk4 m + 16\<rparr>)"

definition new_tree4 :: "tree4 \<Rightarrow> mem4 \<Rightarrow> addr \<times> mem4" where
  "new_tree4 nd m = (brk4 m, m\<lparr>trees := (trees m)(brk4 m \<mapsto> nd), brk4 := brk4 m + 16\<rparr>)"

definition new_cas4 :: "child_cas_operation \<Rightarrow> mem4 \<Rightarrow> addr \<times> mem4" where
  "new_cas4 c m = (brk4 m, m\<lparr>cas_ops := (cas_ops m)(brk4 m \<mapsto> c), brk4 := brk4 m + 16\<rparr>)"

definition new_reloc4 :: "relocate_operation \<Rightarrow> mem4 \<Rightarrow> addr \<times> mem4" where
  "new_reloc4 r m = (brk4 m, m\<lparr>reloc_ops := (reloc_ops m)(brk4 m \<mapsto> r), brk4 := brk4 m + 16\<rparr>)"

definition new_op4 :: "nat \<Rightarrow> flag_type \<Rightarrow> mem4 \<Rightarrow> addr \<times> mem4" where
  "new_op4 x ty m = (brk4 m, m\<lparr>opers := (opers m)(brk4 m \<mapsto> \<lparr>o_op = x, o_type = ty\<rparr>), brk4 := brk4 m + 16\<rparr>)"

definition free_op4 :: "addr \<Rightarrow> mem4 \<Rightarrow> mem4" where
  "free_op4 a m = m\<lparr>opers := (opers m)(a := None)\<rparr>"

section \<open>Pointers with a flag\<close>

definition SET_NULL :: "nat \<Rightarrow> nat" where
  "SET_NULL p = (if even p then p + 1 else p)"

definition IS_NULL :: "nat \<Rightarrow> bool" where
  "IS_NULL p = odd p"

definition GET_FLAG :: "nat \<Rightarrow> mem4 \<Rightarrow> flag_type option" where
  "GET_FLAG p m = map_option o_type (opers m p)"

section \<open>Helping\<close>

definition helpChildCAS :: "others \<Rightarrow> nat \<Rightarrow> addr \<Rightarrow> mem4 \<Rightarrow> mem4 option" where
  "helpChildCAS E opn dest m = do {
     ob \<leftarrow> opers m opn;
     c \<leftarrow> cas_ops m (o_op ob);
     d \<leftarrow> trees m dest;
     let address = (if cc_is_left c then n4_left d else n4_right d);
     (_, _, m) \<leftarrow> cas4 E address (cc_expected c) (cc_update c) m;
     let (new_op, m) = new_op4 0 NONE m;
     (clear, _, m) \<leftarrow> cas4 E (n4_op d) opn new_op m;
     Some (if \<not> clear then free_op4 new_op m else m) }"

definition helpMarked :: "others \<Rightarrow> addr \<Rightarrow> nat \<Rightarrow> addr \<Rightarrow> mem4 \<Rightarrow> mem4 option" where
  "helpMarked E pred pred_op cur m = do {
     cn \<leftarrow> trees m cur;
     (new_ref, m) \<leftarrow> (if IS_NULL (n4_left cn)
       then if IS_NULL (n4_right cn) then Some (SET_NULL cur, m) else load4 E (n4_right cn) m
       else load4 E (n4_left cn) m);
     pn \<leftarrow> trees m pred;
     (pl, m) \<leftarrow> load4 E (n4_left pn) m;
     let (cas_op, m) = new_cas4 \<lparr>cc_is_left = (cur = pl), cc_expected = cur, cc_update = new_ref\<rparr> m;
     let (new_op, m) = new_op4 cas_op CHILDCAS m;
     (ok, _, m) \<leftarrow> cas4 E (n4_op pn) pred_op new_op m;
     if ok then helpChildCAS E new_op pred m
     else Some (free_op4 new_op (m\<lparr>cas_ops := (cas_ops m)(cas_op := None)\<rparr>)) }"

definition helpRelocate :: "others \<Rightarrow> nat \<Rightarrow> addr \<Rightarrow> nat \<Rightarrow> addr \<Rightarrow> mem4 \<Rightarrow> (bool \<times> mem4) option" where
  "helpRelocate E opn pred pred_op cur m = do {
     ob \<leftarrow> opers m opn;
     let ra = o_op ob;
     r \<leftarrow> reloc_ops m ra;
     (seen_state, m) \<leftarrow> load_int4 E (rl_state r) m;
     (real_dest, m) \<leftarrow> load4 E (rl_dest r) m;
     (seen_state, m) \<leftarrow> (if seen_state = ONGOING then do {
         d \<leftarrow> trees m real_dest;
         (old_op, m) \<leftarrow> load4 E (n4_op d) m;
         r \<leftarrow> reloc_ops m ra;
         (success, c, m) \<leftarrow> cas4 E (n4_op d) (rl_dest_op r) opn m;
         r \<leftarrow> reloc_ops m ra;
         let m = (if success then m else m\<lparr>reloc_ops := (reloc_ops m)(ra \<mapsto> r\<lparr>rl_dest_op := c\<rparr>)\<rparr>);
         if success \<or> old_op = opn then do {
           m \<leftarrow> cas_int4 E (rl_state r) ONGOING SUCCESSFUL m;
           Some (SUCCESSFUL, m) }
         else do {
           (seen_state, m) \<leftarrow> load_int4 E (rl_state r) m;
           m \<leftarrow> cas_int4 E (rl_state r) ONGOING FAILED m;
           Some (seen_state, m) } }
       else Some (seen_state, m));
     m \<leftarrow> (if seen_state = SUCCESSFUL then do {
         d \<leftarrow> trees m real_dest;
         r \<leftarrow> reloc_ops m ra;
         let m = m\<lparr>trees := (trees m)(real_dest \<mapsto> d\<lparr>n4_key := rl_replace_key r\<rparr>)\<rparr>;
         m \<leftarrow> store4 E (n4_value d) (rl_replace_value r) m;
         let (new_op, m) = new_op4 0 NONE m;
         (clear, _, m) \<leftarrow> cas4 E (n4_op d) opn new_op m;
         Some (if \<not> clear then free_op4 new_op m else m) }
       else Some m);
     let result = (seen_state = SUCCESSFUL);
     if real_dest = cur then Some (result, m)
     else do {
       let (new_op, m) = new_op4 0 (if result then MARK else NONE) m;
       cn \<leftarrow> trees m cur;
       (clear, _, m) \<leftarrow> cas4 E (n4_op cn) opn new_op m;
       let m = (if \<not> clear then free_op4 new_op m else m);
       m \<leftarrow> (if result then
           if real_dest = pred then (case new_op4 0 NONE m of (pred_op, m) \<Rightarrow> helpMarked E pred pred_op cur m)
           else helpMarked E pred pred_op cur m
         else Some m);
       Some (result, m) } }"

definition help4 :: "others \<Rightarrow> addr \<Rightarrow> nat \<Rightarrow> addr \<Rightarrow> nat \<Rightarrow> mem4 \<Rightarrow> mem4 option" where
  "help4 E pred pred_op cur curr_op m = do {
     f \<leftarrow> GET_FLAG curr_op m;
     if f = CHILDCAS then helpChildCAS E curr_op cur m
     else if f = RELOCATE then do { (_, m) \<leftarrow> helpRelocate E curr_op pred pred_op cur m; Some m }
     else if f = MARK then helpMarked E pred pred_op cur m
     else Some m }"

section \<open>Searching\<close>

text \<open>Where a search ended: \<^verbatim>\<open>*pred\<close>, \<^verbatim>\<open>*pred_op\<close> (\<open>None\<close> while they are not set), \<^verbatim>\<open>*curr\<close>, \<^verbatim>\<open>*curr_op\<close> and \<^verbatim>\<open>*v\<close>.\<close>

record found4 =
  f_pred :: "(addr \<times> nat) option"
  f_curr :: addr
  f_curr_op :: nat
  f_v :: "nat option"

text \<open>The inner loop. \<open>vok\<close> tells whether \<^verbatim>\<open>v\<close> is a place that may be written.\<close>

partial_function (option) find_while :: "others \<Rightarrow> int \<Rightarrow> bool \<Rightarrow> find_result \<Rightarrow> found4 \<Rightarrow> addr \<Rightarrow> nat \<Rightarrow> mem4 \<Rightarrow>
    (find_result \<times> found4 \<times> mem4) option" where
  "find_while E key vok result f next tp_next m = (if \<not> IS_NULL tp_next \<and> tp_next \<noteq> 0 then do {
       let pred = f_curr f;
       let pred_op = f_curr_op f;
       n \<leftarrow> trees m tp_next;
       (curr_op, m) \<leftarrow> load4 E (n4_op n) m;
       let f = f\<lparr>f_pred := Some (pred, pred_op), f_curr := next, f_curr_op := curr_op\<rparr>;
       fl \<leftarrow> GET_FLAG curr_op m;
       if fl \<noteq> NONE then do {
         (p, m) \<leftarrow> load4 E pred m;
         m \<leftarrow> help4 E p pred_op tp_next curr_op m;
         Some (result, f, m) }
       else do {
         n \<leftarrow> trees m tp_next;
         if key < n4_key n then do {
           (tp, m) \<leftarrow> load4 E (n4_left n) m;
           find_while E key vok NOTFOUND_L f (n4_left n) tp m }
         else if key > n4_key n then do {
           (tp, m) \<leftarrow> load4 E (n4_right n) m;
           find_while E key vok NOTFOUND_R f (n4_right n) tp m }
         else do {
           (x, m) \<leftarrow> load4 E (n4_value n) m;
           assert_c vok;
           Some (FOUND, f\<lparr>f_v := Some x\<rparr>, m) } } }
     else Some (result, f, m))"

partial_function (option) find4 :: "others \<Rightarrow> int \<Rightarrow> bool \<Rightarrow> found4 \<Rightarrow> addr \<Rightarrow> mem4 \<Rightarrow> (find_result \<times> found4 \<times> mem4) option" where
  "find4 E key vok f auxRoot m = do {
     (tp, m) \<leftarrow> load4 E auxRoot m;
     n \<leftarrow> trees m tp;
     (curr_op, m) \<leftarrow> load4 E (n4_op n) m;
     let f = f\<lparr>f_curr := auxRoot, f_curr_op := curr_op\<rparr>;
     fl \<leftarrow> GET_FLAG curr_op m;
     if fl \<noteq> NONE then
       if auxRoot = base_root m then do {
         m \<leftarrow> helpChildCAS E curr_op tp m;
         find4 E key vok f auxRoot m }
       else Some (ABORT, f, m)
     else do {
       n \<leftarrow> trees m tp;
       (tp_next, m) \<leftarrow> load4 E (n4_right n) m;
       find_while E key vok NOTFOUND_R f (n4_right n) tp_next m } }"

section \<open>Insertion\<close>

definition new_node4 :: "int \<Rightarrow> nat \<Rightarrow> mem4 \<Rightarrow> addr \<times> mem4" where
  "new_node4 key v m = (
     let (val, m) = make_atomic_ptr4 v m;
         (left, m) = make_atomic_ptr4 (SET_NULL 0) m;
         (right, m) = make_atomic_ptr4 (SET_NULL 0) m;
         (opn, m) = new_op4 0 NONE m;
         (a_op, m) = make_atomic_ptr4 opn m
     in new_tree4 \<lparr>n4_key = key, n4_value = val, n4_op = a_op, n4_left = left, n4_right = right\<rparr> m)"

partial_function (option) add_loop :: "others \<Rightarrow> int \<Rightarrow> nat \<Rightarrow> found4 \<Rightarrow> mem4 \<Rightarrow> mem4 option" where
  "add_loop E key v f m = do {
     (result, f, m) \<leftarrow> find4 E key True f (base_root m) m;
     (tp, m) \<leftarrow> load4 E (f_curr f) m;
     if result = FOUND then Some m
     else do {
       n \<leftarrow> trees m tp;
       (left_child, m) \<leftarrow> load4 E (n4_left n) m;
       (right_child, m) \<leftarrow> load4 E (n4_right n) m;
       let (newNode, m) = new_node4 key v m;
       let is_left = (result = NOTFOUND_L);
       let old = (if is_left then left_child else right_child);
       let (cas_op, m) = new_cas4 \<lparr>cc_is_left = is_left, cc_expected = old, cc_update = newNode\<rparr> m;
       let (new_op, m) = new_op4 cas_op CHILDCAS m;
       (ok, c, m) \<leftarrow> cas4 E (n4_op n) (f_curr_op f) new_op m;
       if ok then helpChildCAS E new_op tp m
       else add_loop E key v (f\<lparr>f_curr_op := c\<rparr>)
         (free_op4 new_op (m\<lparr>trees := (trees m)(newNode := None), cas_ops := (cas_ops m)(cas_op := None)\<rparr>)) } }"

text \<open>The locals of a call before its first search.\<close>

definition no_find :: found4 where
  "no_find = \<lparr>f_pred = None, f_curr = 0, f_curr_op = 0, f_v = None\<rparr>"

definition add4 :: "others \<Rightarrow> int \<Rightarrow> nat \<Rightarrow> mem4 \<Rightarrow> mem4 option" where
  "add4 E key v m = add_loop E key v no_find m"

section \<open>Deletion\<close>

text \<open>The second search shares \<^verbatim>\<open>pred\<close> and \<^verbatim>\<open>pred_op\<close> with the first, and is passed \<^verbatim>\<open>v\<close> itself for \<^verbatim>\<open>&v\<close>.\<close>

partial_function (option) delete_loop :: "others \<Rightarrow> int \<Rightarrow> found4 \<Rightarrow> mem4 \<Rightarrow> mem4 option" where
  "delete_loop E key f m = do {
     (result, f, m) \<leftarrow> find4 E key True f (base_root m) m;
     if result \<noteq> FOUND then Some m
     else do {
       (tp, m) \<leftarrow> load4 E (f_curr f) m;
       n \<leftarrow> trees m tp;
       (left, m) \<leftarrow> load4 E (n4_left n) m;
       (right, m) \<leftarrow> load4 E (n4_right n) m;
       if IS_NULL right \<or> IS_NULL left then do {
         let (new_op, m) = new_op4 0 MARK m;
         (ok, c, m) \<leftarrow> cas4 E (n4_op n) (f_curr_op f) new_op m;
         if ok then do {
           (pred, pred_op) \<leftarrow> f_pred f;
           (p, m) \<leftarrow> load4 E pred m;
           helpMarked E p pred_op tp m }
         else delete_loop E key (f\<lparr>f_curr_op := c\<rparr>) (free_op4 new_op m) }
       else do {
         (result, g, m) \<leftarrow> find4 E key False f (f_curr f) m;
         (again, m) \<leftarrow> (if result = ABORT then Some (True, m)
           else do { (w, m) \<leftarrow> load4 E (n4_op n) m; Some (w \<noteq> f_curr_op f, m) });
         if again then delete_loop E key (f\<lparr>f_pred := f_pred g\<rparr>) m
         else do {
           (replace_real, m) \<leftarrow> load4 E (f_curr g) m;
           (curr_real, m) \<leftarrow> load4 E (f_curr f) m;
           (pred, pred_op) \<leftarrow> f_pred g;
           (pred_real, m) \<leftarrow> load4 E pred m;
           rn \<leftarrow> trees m replace_real;
           let (st, m) = make_atomic4 ONGOING m;
           (rv, m) \<leftarrow> load4 E (n4_value rn) m;
           let (reloc_op, m) = new_reloc4 \<lparr>rl_state = st, rl_dest = f_curr f, rl_dest_op = f_curr_op f, rl_remove_key = key,
             rl_replace_key = n4_key rn, rl_replace_value = rv\<rparr> m;
           let (new_op, m) = new_op4 reloc_op RELOCATE m;
           (ok, _, m) \<leftarrow> cas4 E (n4_op rn) (f_curr_op g) new_op m;
           if ok then do {
             (done, m) \<leftarrow> helpRelocate E new_op pred_real pred_op replace_real m;
             if done then Some m
             else delete_loop E key (f\<lparr>f_pred := f_pred g\<rparr>) (m\<lparr>reloc_ops := (reloc_ops m)(reloc_op := None)\<rparr>) }
           else delete_loop E key (f\<lparr>f_pred := f_pred g\<rparr>) (m\<lparr>reloc_ops := (reloc_ops m)(reloc_op := None)\<rparr>) } } } }"

definition delete4 :: "others \<Rightarrow> int \<Rightarrow> mem4 \<Rightarrow> mem4 option" where
  "delete4 E key m = delete_loop E key no_find m"

text \<open>The tree that \<^verbatim>\<open>main\<close> makes: its root has the key \<open>-1\<close>, and all others hang below its right pointer.\<close>

definition new_tree_nb4 :: mem4 where
  "new_tree_nb4 = (
     let m = \<lparr>atoms = Map.empty, aints = Map.empty, trees = Map.empty, cas_ops = Map.empty, reloc_ops = Map.empty,
           opers = Map.empty, brk4 = 16, base_root = 0, clock = 0\<rparr>;
         (base, m) = make_atomic_ptr4 0 m;
         (val, m) = make_atomic_ptr4 0 m;
         (left, m) = make_atomic_ptr4 0 m;
         (right, m) = make_atomic_ptr4 0 m;
         (root_op, m) = new_op4 0 NONE m;
         (opn, m) = make_atomic_ptr4 root_op m;
         (root, m) = new_tree4 \<lparr>n4_key = - 1, n4_value = val, n4_op = opn, n4_left = left, n4_right = right\<rparr> m
     in m\<lparr>atoms := (atoms m)(base \<mapsto> root), base_root := base\<rparr>)"

end
