(* ===== verification/Conc_Nb4Seq.thy ===== *)
theory Conc_Nb4Seq
  imports Conc_Nb4
begin

text \<open>
  A thread that runs alone on the tree of \<^verbatim>\<open>bst_conc_nblocking4.c\<close>: its searches follow the search tree, and its
  insertions extend it. The cells of \<^theory_text>\<open>Conc_Cells\<close> are the atomic child pointers.
\<close>

section \<open>Undisturbed accesses\<close>

definition alone :: others where
  "alone k m = m"

definition later :: "nat \<Rightarrow> mem4 \<Rightarrow> mem4" where
  "later k m = m\<lparr>clock := clock m + k\<rparr>"

lemma later_simps [simp]:
  "atoms (later k m) = atoms m" "aints (later k m) = aints m" "trees (later k m) = trees m" "cas_ops (later k m) = cas_ops m"
  "reloc_ops (later k m) = reloc_ops m" "opers (later k m) = opers m" "brk4 (later k m) = brk4 m"
  "base_root (later k m) = base_root m" "later j (later k m) = later (k + j) m" "later 0 m = m"
  by (simp_all add: later_def)

lemma alone_accesses [simp]:
  "atoms m a = Some v \<Longrightarrow> load4 alone a m = Some (v, later 1 m)"
  "atoms m a = None \<Longrightarrow> load4 alone a m = None"
  "atoms m a = Some v \<Longrightarrow> store4 alone a w m = Some ((later 1 m)\<lparr>atoms := (atoms m)(a \<mapsto> w)\<rparr>)"
  "atoms m a = Some c \<Longrightarrow> cas4 alone a c w m = Some (True, c, (later 1 m)\<lparr>atoms := (atoms m)(a \<mapsto> w)\<rparr>)"
  "atoms m a = Some v \<Longrightarrow> v \<noteq> c \<Longrightarrow> cas4 alone a c w m = Some (False, v, later 1 m)"
  "aints m a = Some st \<Longrightarrow> load_int4 alone a m = Some (st, later 1 m)"
  "aints m a = Some st \<Longrightarrow> cas_int4 alone a st st' m = Some ((later 1 m)\<lparr>aints := (aints m)(a \<mapsto> st')\<rparr>)"
  by (simp_all add: load4_def store4_def cas4_def load_int4_def cas_int4_def meanwhile_def alone_def later_def Let_def)

section \<open>The tree in memory\<close>

definition hnode_of :: "mem4 \<Rightarrow> tree4 \<Rightarrow> hnode" where
  "hnode_of m nd = \<lparr>hkey = n4_key nd, hval = atoms m (n4_value nd), hleft = n4_left nd, hright = n4_right nd\<rparr>"

definition view4 :: "mem4 \<Rightarrow> cview" where
  "view4 m c = (case atoms m c of None \<Rightarrow> None
     | Some p \<Rightarrow> Some (if IS_NULL p \<or> p = 0 then (None, None) else (Some p, map_option (hnode_of m) (trees m p))))"

lemma view4_node:
  "view4 m c = Some (Some n, Some h) \<longleftrightarrow>
     atoms m c = Some n \<and> \<not> IS_NULL n \<and> n \<noteq> 0 \<and> (\<exists>nd. trees m n = Some nd \<and> h = hnode_of m nd)"
  by (auto simp: view4_def split: option.splits if_splits)

lemma view4_leaf:
  "view4 m c = Some (None, x) \<longleftrightarrow> (\<exists>p. atoms m c = Some p \<and> (IS_NULL p \<or> p = 0) \<and> x = None)"
  by (auto simp: view4_def split: option.splits if_splits)

lemma view4_None: "view4 m c = None \<longleftrightarrow> atoms m c = None"
  by (simp add: view4_def split: option.split)

lemma hnode_of_later [simp]: "hnode_of (later k m) = hnode_of m"
  by (rule ext) (simp add: hnode_of_def)

lemma view4_later [simp]: "view4 (later k m) = view4 m"
  by (rule ext) (simp add: view4_def split: option.split)

lemma GET_FLAG_later [simp]: "GET_FLAG p (later k m) = GET_FLAG p m"
  by (simp add: GET_FLAG_def)

text \<open>A node on which no operation is under way.\<close>

definition idle4 :: "mem4 \<Rightarrow> addr \<Rightarrow> bool" where
  "idle4 m n \<longleftrightarrow> (\<exists>nd ob. trees m n = Some nd \<and> (\<exists>x. atoms m (n4_op nd) = Some x \<and> opers m x = Some ob) \<and> o_type ob = NONE \<and>
     atoms m (n4_value nd) \<noteq> None \<and> atoms m (n4_left nd) \<noteq> None \<and> atoms m (n4_right nd) \<noteq> None)"

lemma idle4E:
  assumes "idle4 m n"
  obtains nd x ob v where "trees m n = Some nd" "atoms m (n4_op nd) = Some x" "opers m x = Some ob" "o_type ob = NONE"
    "atoms m (n4_value nd) = Some v" "atoms m (n4_left nd) \<noteq> None" "atoms m (n4_right nd) \<noteq> None"
  using assms unfolding idle4_def by blast

lemma idle4_later [simp]: "idle4 (later k m) n = idle4 m n"
  by (simp add: idle4_def)

section \<open>One step of a search\<close>

definition op_of :: "mem4 \<Rightarrow> addr \<Rightarrow> nat" where
  "op_of m n = the (atoms m (n4_op (the (trees m n))))"

lemma op_of_later [simp]: "op_of (later k m) = op_of m"
  by (rule ext) (simp add: op_of_def)

lemma idle4_op:
  assumes "idle4 m n" "trees m n = Some nd"
  shows "atoms m (n4_op nd) = Some (op_of m n)" "GET_FLAG (op_of m n) m = Some NONE"
  using assms by (auto simp: idle4_def op_of_def GET_FLAG_def)

definition stepped :: "found4 \<Rightarrow> addr \<Rightarrow> nat \<Rightarrow> found4" where
  "stepped f h p = f\<lparr>f_pred := Some (f_curr f, f_curr_op f), f_curr := h, f_curr_op := p\<rparr>"

lemma find_while_leaf:
  "IS_NULL tp \<or> tp = 0 \<Longrightarrow> find_while E x vok res f h tp m = Some (res, f, m)"
  by (subst find_while.simps) auto

lemma find_while_node:
  assumes n: "trees m n = Some nd" "\<not> IS_NULL n" "n \<noteq> 0" "idle4 m n"
  shows "find_while alone x vok res f h n m =
    (if x < n4_key nd then find_while alone x vok NOTFOUND_L (stepped f h (op_of m n)) (n4_left nd) (the (atoms m (n4_left nd))) (later 2 m)
     else if n4_key nd < x then find_while alone x vok NOTFOUND_R (stepped f h (op_of m n)) (n4_right nd) (the (atoms m (n4_right nd))) (later 2 m)
     else if vok then Some (FOUND, (stepped f h (op_of m n))\<lparr>f_v := atoms m (n4_value nd)\<rparr>, later 2 m) else None)"
proof -
  obtain v lp rp where a: "atoms m (n4_value nd) = Some v" "atoms m (n4_left nd) = Some lp" "atoms m (n4_right nd) = Some rp"
    using n(1,4) by (auto simp: idle4_def)
  note o = idle4_op [OF n(4,1)]
  show ?thesis
    by (subst find_while.simps) (simp add: n(1-3) o a stepped_def assert_c_def numeral_2_eq_2)
qed

section \<open>Down a context\<close>

text \<open>Where the hole of a context hangs: the cell of the node above it, that node, and on which side.\<close>

fun pcell :: "mem4 \<Rightarrow> cframe list \<Rightarrow> addr" where
  "pcell m [] = base_root m"
| "pcell m (FL c n k v r # C) = c"
| "pcell m (FR c n k v l # C) = c"

fun pnode :: "addr \<Rightarrow> cframe list \<Rightarrow> addr" where
  "pnode r [] = r"
| "pnode r (FL c n k v t # C) = n"
| "pnode r (FR c n k v t # C) = n"

fun pside :: "cframe list \<Rightarrow> find_result" where
  "pside [] = NOTFOUND_R"
| "pside (FL c n k v t # C) = NOTFOUND_L"
| "pside (FR c n k v t # C) = NOTFOUND_R"

fun ctx_idle :: "mem4 \<Rightarrow> cframe list \<Rightarrow> bool" where
  "ctx_idle m [] = True"
| "ctx_idle m (FL c n k v t # C) \<longleftrightarrow> idle4 m n \<and> ctx_idle m C"
| "ctx_idle m (FR c n k v t # C) \<longleftrightarrow> idle4 m n \<and> ctx_idle m C"

definition root_ok :: "mem4 \<Rightarrow> addr \<Rightarrow> addr \<Rightarrow> bool" where
  "root_ok m r h \<longleftrightarrow> atoms m (base_root m) = Some r \<and> idle4 m r \<and> (\<exists>rn. trees m r = Some rn \<and> n4_right rn = h)"

text \<open>The hole's cell is reached from the root, for a key that belongs there.\<close>

lemma find4_descends:
  assumes "root_ok m r (cell_of (plug C S))" "ctx_vrep (view4 m) C (cell_of S)" "ctx_idle m C" "ctx_thru C x"
  shows "\<exists>f' k. find4 alone x vok f (base_root m) m =
      find_while alone x vok (pside C) f' (cell_of S) (the (atoms m (cell_of S))) (later k m) \<and>
    f_curr f' = pcell m C \<and> f_curr_op f' = op_of m (pnode r C)"
  using assms
proof (induction C S rule: plug.induct)
  case (1 S)
  obtain rn where rn: "atoms m (base_root m) = Some r" "idle4 m r" "trees m r = Some rn" "n4_right rn = cell_of S"
    using "1.prems"(1) by (auto simp: root_ok_def)
  obtain p where p: "atoms m (n4_right rn) = Some p" using rn(2,3) by (auto simp: idle4_def)
  note o = idle4_op [OF rn(2,3)]
  have "find4 alone x vok f (base_root m) m =
      find_while alone x vok NOTFOUND_R (f\<lparr>f_curr := base_root m, f_curr_op := op_of m r\<rparr>) (cell_of S) p (later 3 m)"
    by (subst find4.simps) (simp add: rn(1,3) o p numeral_3_eq_3 flip: rn(4))
  then show ?case using p rn(4) by (intro exI [of _ "f\<lparr>f_curr := base_root m, f_curr_op := op_of m r\<rparr>"] exI [of _ 3]) simp
next
  case (2 c n k v rt C S)
  obtain nd where nd: "atoms m c = Some n" "\<not> IS_NULL n" "n \<noteq> 0" "trees m n = Some nd" "n4_key nd = k" "n4_left nd = cell_of S"
    using "2.prems"(2) by (auto simp: view4_node hnode_of_def)
  obtain f' j where f': "find4 alone x vok f (base_root m) m =
      find_while alone x vok (pside C) f' c n (later j m)"
    using "2.IH" "2.prems" nd(1) by (auto simp: cong: conj_cong)
  have "find_while alone x vok (pside C) f' c n (later j m) =
      find_while alone x vok NOTFOUND_L (stepped f' c (op_of m n)) (cell_of S) (the (atoms m (cell_of S))) (later (j + 2) m)"
    using find_while_node [of "later j m" n nd] nd "2.prems"(3,4) by simp
  then show ?case using f' by (intro exI [of _ "stepped f' c (op_of m n)"] exI [of _ "j + 2"]) (simp add: stepped_def)
next
  case (3 c n k v l C S)
  obtain nd where nd: "atoms m c = Some n" "\<not> IS_NULL n" "n \<noteq> 0" "trees m n = Some nd" "n4_key nd = k" "n4_right nd = cell_of S"
    using "3.prems"(2) by (auto simp: view4_node hnode_of_def)
  obtain f' j where f': "find4 alone x vok f (base_root m) m =
      find_while alone x vok (pside C) f' c n (later j m)"
    using "3.IH" "3.prems" nd(1) by (auto simp: cong: conj_cong)
  have "find_while alone x vok (pside C) f' c n (later j m) =
      find_while alone x vok NOTFOUND_R (stepped f' c (op_of m n)) (cell_of S) (the (atoms m (cell_of S))) (later (j + 2) m)"
    using find_while_node [of "later j m" n nd] nd "3.prems"(3,4) by simp
  then show ?case using f' by (intro exI [of _ "stepped f' c (op_of m n)"] exI [of _ "j + 2"]) (simp add: stepped_def)
qed

section \<open>Well-formed memories\<close>

text \<open>All atomic objects of the tree: no two of them are one.\<close>

definition node4 :: "mem4 \<Rightarrow> addr \<Rightarrow> tree4" where
  "node4 m n = the (trees m n)"

definition atom_list :: "mem4 \<Rightarrow> addr \<Rightarrow> ctree \<Rightarrow> addr list" where
  "atom_list m r T = base_root m # n4_op (node4 m r) # n4_left (node4 m r) # map (\<lambda>n. n4_op (node4 m n)) (node_list T) @
     map (\<lambda>n. n4_value (node4 m n)) (node_list T) @ cell_list T"

definition nb4_ok :: "mem4 \<Rightarrow> addr \<Rightarrow> ctree \<Rightarrow> bool" where
  "nb4_ok m r T \<longleftrightarrow> root_ok m r (cell_of T) \<and> cwf (view4 m) T \<and> (\<forall>n\<in>set (node_list T). idle4 m n) \<and>
     r \<notin> set (node_list T) \<and> distinct (atom_list m r T) \<and> atoms m (n4_left (node4 m r)) = Some 0 \<and>
     even (brk4 m) \<and> 0 < brk4 m \<and>
     dom (atoms m) \<subseteq> {..<brk4 m} \<and> dom (trees m) \<subseteq> {..<brk4 m} \<and> dom (opers m) \<subseteq> {..<brk4 m} \<and>
     (\<forall>c\<in>set (cell_list T). even c \<and> (c \<noteq> cell_of T \<longrightarrow> atoms m c \<noteq> Some 0)) \<and> (\<forall>n\<in>dom (trees m). even n)"

lemma nb4_okD:
  assumes "nb4_ok m r T"
  shows "root_ok m r (cell_of T)" "cwf (view4 m) T" "n \<in> set (node_list T) \<Longrightarrow> idle4 m n" "r \<notin> set (node_list T)"
    "distinct (atom_list m r T)" "atoms m (n4_left (node4 m r)) = Some 0" "even (brk4 m)" "0 < brk4 m"
    "atoms m a = Some x \<Longrightarrow> a < brk4 m" "trees m a = Some nd \<Longrightarrow> a < brk4 m" "opers m a = Some ob \<Longrightarrow> a < brk4 m"
    "c \<in> set (cell_list T) \<Longrightarrow> even c" "c \<in> set (cell_list T) \<Longrightarrow> c \<noteq> cell_of T \<Longrightarrow> atoms m c \<noteq> Some 0"
    "trees m a = Some nd \<Longrightarrow> even a"
  using assms unfolding nb4_ok_def by auto

lemma clock_irrelevant [simp]:
  "atoms (m\<lparr>clock := k\<rparr>) = atoms m" "view4 (m\<lparr>clock := k\<rparr>) = view4 m" "idle4 (m\<lparr>clock := k\<rparr>) n = idle4 m n"
  "nb4_ok (m\<lparr>clock := k\<rparr>) r T = nb4_ok m r T"
proof -
  show v: "view4 (m\<lparr>clock := k\<rparr>) = view4 m" for k
    by (rule ext) (simp add: view4_def hnode_of_def [abs_def] split: option.split)
  show i: "idle4 (m\<lparr>clock := k\<rparr>) n = idle4 m n" for n k by (simp add: idle4_def)
  show "nb4_ok (m\<lparr>clock := k\<rparr>) r T = nb4_ok m r T"
    by (simp add: nb4_ok_def v i root_ok_def atom_list_def node4_def [abs_def])
qed simp

lemma later_ok [simp]: "nb4_ok (later k m) r T = nb4_ok m r T"
  by (simp add: later_def)

lemma ctx_idle_ok: "(\<forall>n\<in>set (fst (ctx_nodes C)) \<union> set (snd (ctx_nodes C)). idle4 m n) \<Longrightarrow> ctx_idle m C"
proof (induction C)
  case (Cons fr C)
  then show ?case by (cases fr) auto
qed simp

lemma ok_descends:
  assumes "nb4_ok m r (plug C S)" "ctx_thru C x"
  shows "\<exists>f' k. find4 alone x vok f (base_root m) m =
      find_while alone x vok (pside C) f' (cell_of S) (the (atoms m (cell_of S))) (later k m) \<and>
    f_curr f' = pcell m C \<and> f_curr_op f' = op_of m (pnode r C)"
proof (rule find4_descends [OF nb4_okD(1) [OF assms(1)] _ _ assms(2)])
  show "ctx_vrep (view4 m) C (cell_of S)" using nb4_okD(2) [OF assms(1)] by (simp add: cwf_def plug_vrep)
  show "ctx_idle m C" using nb4_okD(3) [OF assms(1)] by (intro ctx_idle_ok) (auto simp: plug_nodes)
qed

text \<open>The node above the hole of a context.\<close>

lemma parent_node:
  assumes "nb4_ok m r (plug C S)"
  shows "atoms m (pcell m C) = Some (pnode r C)" "idle4 m (pnode r C)"
    "(if pside C = NOTFOUND_L then n4_left (node4 m (pnode r C)) else n4_right (node4 m (pnode r C))) = cell_of S"
    "pside C = NOTFOUND_L \<or> pside C = NOTFOUND_R" "trees m (pnode r C) = Some (node4 m (pnode r C))"
proof -
  note d = nb4_okD [OF assms]
  have v: "ctx_vrep (view4 m) C (cell_of S)" using d(2) by (simp add: cwf_def plug_vrep)
  show idle: "idle4 m (pnode r C)"
    using d(1,3) by (cases C rule: pside.cases) (auto simp: root_ok_def plug_nodes)
  then show "trees m (pnode r C) = Some (node4 m (pnode r C))" by (auto simp: idle4_def node4_def)
  show "atoms m (pcell m C) = Some (pnode r C)"
    using d(1) v by (cases C rule: pside.cases) (auto simp: root_ok_def view4_node)
  show "pside C = NOTFOUND_L \<or> pside C = NOTFOUND_R" by (cases C rule: pside.cases) auto
  show "(if pside C = NOTFOUND_L then n4_left (node4 m (pnode r C)) else n4_right (node4 m (pnode r C))) = cell_of S"
    using d(1) v by (cases C rule: pside.cases) (auto simp: root_ok_def view4_node hnode_of_def node4_def)
qed

section \<open>Look-up\<close>

lemma find_present:
  assumes "nb4_ok m r (plug C (CNode c n x w l rt))" "ctx_thru C x"
  shows "\<exists>f' k. find4 alone x True f (base_root m) m = Some (FOUND, f', later k m) \<and> f_v f' = w \<and> f_curr f' = c \<and>
    f_curr_op f' = op_of m n \<and> f_pred f' = Some (pcell m C, op_of m (pnode r C))"
proof -
  let ?S = "CNode c n x w l rt"
  obtain f' k where f': "find4 alone x True f (base_root m) m =
      find_while alone x True (pside C) f' c (the (atoms m c)) (later k m)"
    "f_curr f' = pcell m C" "f_curr_op f' = op_of m (pnode r C)"
    using ok_descends [OF assms, of True f] unfolding cell_of.simps by blast
  have "view4 m c = Some (Some n, Some \<lparr>hkey = x, hval = w, hleft = cell_of l, hright = cell_of rt\<rparr>)"
    using nb4_okD(2) [OF assms(1)] by (simp add: cwf_def plug_vrep)
  then obtain nd where nd: "atoms m c = Some n" "\<not> IS_NULL n" "n \<noteq> 0" "trees m n = Some nd" "n4_key nd = x" "atoms m (n4_value nd) = w"
    by (auto simp: view4_node hnode_of_def)
  have idle: "idle4 m n" by (rule nb4_okD(3) [OF assms(1)]) (simp add: plug_nodes)
  show ?thesis
    using f' find_while_node [of "later k m" n nd] nd idle by (simp add: stepped_def) blast
qed

lemma find_absent:
  assumes "nb4_ok m r (plug C (CLeaf c))" "ctx_thru C x"
  shows "\<exists>f' k. find4 alone x vok f (base_root m) m = Some (pside C, f', later k m) \<and> f_curr f' = pcell m C \<and>
    f_curr_op f' = op_of m (pnode r C)"
proof -
  obtain f' k where f': "find4 alone x vok f (base_root m) m =
      find_while alone x vok (pside C) f' c (the (atoms m c)) (later k m)"
    "f_curr f' = pcell m C" "f_curr_op f' = op_of m (pnode r C)"
    using ok_descends [OF assms, of vok f] unfolding cell_of.simps by blast
  have "view4 m c = Some (None, None)" using nb4_okD(2) [OF assms(1)] by (simp add: cwf_def plug_vrep)
  then have "IS_NULL (the (atoms m c)) \<or> the (atoms m c) = 0" by (auto simp: view4_leaf)
  then show ?thesis using f' by (simp add: find_while_leaf) blast
qed

section \<open>Insertion\<close>

lemma helpChildCAS_alone:
  assumes "opers m p = Some \<lparr>o_op = q, o_type = ty\<rparr>" "cas_ops m q = Some cc" "trees m d = Some nd"
    and "a = (if cc_is_left cc then n4_left nd else n4_right nd)" "atoms m a = Some (cc_expected cc)"
    and "atoms m (n4_op nd) = Some p" "a \<noteq> n4_op nd"
  shows "helpChildCAS alone p d m = Some (later 2 (m\<lparr>atoms := (atoms m)(a \<mapsto> cc_update cc, n4_op nd \<mapsto> brk4 m),
     opers := (opers m)(brk4 m \<mapsto> \<lparr>o_op = 0, o_type = NONE\<rparr>), brk4 := brk4 m + 16\<rparr>))"
  using assms by (simp add: helpChildCAS_def new_op4_def Let_def) (simp add: later_def)

definition added :: "mem4 \<Rightarrow> addr \<Rightarrow> addr \<Rightarrow> bool \<Rightarrow> int \<Rightarrow> nat \<Rightarrow> mem4" where
  "added m p c lft x v = (let b = brk4 m in m\<lparr>
     atoms := (atoms m)(b \<mapsto> v, b + 16 \<mapsto> 1, b + 32 \<mapsto> 1, b + 64 \<mapsto> b + 48, c \<mapsto> b + 80, n4_op (node4 m p) \<mapsto> b + 128),
     trees := (trees m)(b + 80 \<mapsto> \<lparr>n4_key = x, n4_value = b, n4_op = b + 64, n4_left = b + 16, n4_right = b + 32\<rparr>),
     cas_ops := (cas_ops m)(b + 96 \<mapsto> \<lparr>cc_is_left = lft, cc_expected = the (atoms m c), cc_update = b + 80\<rparr>),
     opers := (opers m)(b + 48 \<mapsto> \<lparr>o_op = 0, o_type = NONE\<rparr>, b + 112 \<mapsto> \<lparr>o_op = b + 96, o_type = CHILDCAS\<rparr>,
       b + 128 \<mapsto> \<lparr>o_op = 0, o_type = NONE\<rparr>),
     brk4 := b + 144\<rparr>)"

lemma add_runs:
  assumes ok: "nb4_ok m r (plug C (CLeaf c))" and thru: "ctx_thru C x"
  shows "\<exists>k. add4 alone x v m = Some (later k (added m (pnode r C) c (pside C = NOTFOUND_L) x v))"
proof -
  note d = nb4_okD [OF ok] and par = parent_node [OF ok]
  let ?p = "pnode r C" and ?b = "brk4 m" and ?lft = "pside C = NOTFOUND_L"
  let ?P = "node4 m ?p"
  obtain f' k where f': "find4 alone x True no_find (base_root m) m = Some (pside C, f', later k m)"
    "f_curr f' = pcell m C" "f_curr_op f' = op_of m ?p" using find_absent [OF ok thru] by blast
  have opn: "atoms m (n4_op ?P) = Some (op_of m ?p)" by (rule idle4_op(1) [OF par(2,5)])
  obtain l rt where lr: "atoms m (n4_left ?P) = Some l" "atoms m (n4_right ?P) = Some rt"
    using par(2,5) by (auto simp: idle4_def)
  have c: "c = (if ?lft then n4_left ?P else n4_right ?P)" using par(3) by simp
  then have old: "atoms m c = Some (if ?lft then l else rt)" using lr by simp
  have lt: "n4_op ?P < ?b" "c < ?b" "?p < ?b" using d(9) [OF opn] d(9) [OF old] d(10) [OF par(5)] by simp_all
  have ne: "c \<noteq> n4_op ?P"
    using d(5) by (cases C rule: pside.cases) (auto simp: atom_list_def plug_nodes plug_cells)
  let ?m = "added m ?p c ?lft x v"
  let ?n = "\<lparr>n4_key = x, n4_value = ?b, n4_op = ?b + 64, n4_left = ?b + 16, n4_right = ?b + 32\<rparr>"
  let ?cc = "\<lparr>cc_is_left = ?lft, cc_expected = the (atoms m c), cc_update = ?b + 80\<rparr>"
  let ?m1 = "m\<lparr>
     atoms := (atoms m)(?b \<mapsto> v, ?b + 16 \<mapsto> 1, ?b + 32 \<mapsto> 1, ?b + 64 \<mapsto> ?b + 48, n4_op ?P \<mapsto> ?b + 112),
     trees := (trees m)(?b + 80 \<mapsto> ?n), cas_ops := (cas_ops m)(?b + 96 \<mapsto> ?cc),
     opers := (opers m)(?b + 48 \<mapsto> \<lparr>o_op = 0, o_type = NONE\<rparr>, ?b + 112 \<mapsto> \<lparr>o_op = ?b + 96, o_type = CHILDCAS\<rparr>),
     brk4 := ?b + 128\<rparr>"
  have "add4 alone x v m = helpChildCAS alone (?b + 112) ?p (later (Suc (Suc (Suc (Suc k)))) ?m1)"
    using par(4)
  proof
    assume side: "pside C = NOTFOUND_L"
    show ?thesis
      using par(1,5) f' opn lr old lt side unfolding add4_def
      by (subst add_loop.simps) (simp add: new_node4_def make_atomic_ptr4_def new_op4_def new_tree4_def
        new_cas4_def Let_def SET_NULL_def later_def add_ac, rule arg_cong [of _ _ "helpChildCAS alone _ _"], simp)
  next
    assume side: "pside C = NOTFOUND_R"
    show ?thesis
      using par(1,5) f' opn lr old lt side unfolding add4_def
      by (subst add_loop.simps) (simp add: new_node4_def make_atomic_ptr4_def new_op4_def new_tree4_def
        new_cas4_def Let_def SET_NULL_def later_def add_ac, rule arg_cong [of _ _ "helpChildCAS alone _ _"], simp)
  qed
  also have "\<dots> = Some (later 2 ((later (Suc (Suc (Suc (Suc k)))) ?m1)\<lparr>atoms := (atoms ?m1)(c \<mapsto> cc_update ?cc, n4_op ?P \<mapsto> brk4 ?m1),
     opers := (opers ?m1)(brk4 ?m1 \<mapsto> \<lparr>o_op = 0, o_type = NONE\<rparr>), brk4 := brk4 ?m1 + 16\<rparr>))"
    using helpChildCAS_alone [of "later (Suc (Suc (Suc (Suc k)))) ?m1" "?b + 112" "?b + 96" CHILDCAS ?cc ?p ?P c] par(5) old c ne lt
    by simp
  also have "\<dots> = Some (later (k + 6) (added m ?p c ?lft x v))"
    using ne by (simp add: added_def Let_def later_def fun_upd_twist)
  finally show ?thesis by blast
qed

lemma view4_frame:
  assumes "atoms m' d = atoms m d"
    and "\<And>n nd. atoms m d = Some n \<Longrightarrow> \<not> IS_NULL n \<Longrightarrow> n \<noteq> 0 \<Longrightarrow>
       trees m' n = trees m n \<and> (trees m n = Some nd \<longrightarrow> atoms m' (n4_value nd) = atoms m (n4_value nd))"
  shows "view4 m' d = view4 m d"
proof (cases "atoms m d")
  case (Some n)
  show ?thesis
  proof (cases "IS_NULL n \<or> n = 0")
    case False
    then show ?thesis using assms Some by (cases "trees m n") (auto simp: view4_def hnode_of_def)
  qed (use assms(1) Some in \<open>simp add: view4_def\<close>)
qed (use assms(1) in \<open>simp add: view4_def\<close>)

lemma cell_content:
  assumes "nb4_ok m r T" "d \<in> set (cell_list T)" "atoms m d = Some n" "\<not> IS_NULL n" "n \<noteq> 0"
  shows "n \<in> set (node_list T)"
proof -
  have "vrep (view4 m) T" using nb4_okD(2) [OF assms(1)] by (simp add: cwf_def)
  moreover have "view4 m d = Some (Some n, map_option (hnode_of m) (trees m n))" using assms(3-5) by (simp add: view4_def)
  ultimately show ?thesis using vrep_node_in [OF _ assms(2)] by blast
qed

lemma vrep_some: "vrep m T \<Longrightarrow> c \<in> set (cell_list T) \<Longrightarrow> m c \<noteq> None"
  by (induction T) auto

lemma atom_known:
  assumes "nb4_ok m r T" "a \<in> set (atom_list m r T)"
  shows "atoms m a \<noteq> None" "a < brk4 m"
proof -
  note d = nb4_okD [OF assms(1)]
  have root: "atoms m (base_root m) \<noteq> None" "atoms m (n4_op (node4 m r)) \<noteq> None"
    using d(1) by (auto simp: root_ok_def idle4_def node4_def)
  have nodes: "atoms m (n4_op (node4 m n)) \<noteq> None \<and> atoms m (n4_value (node4 m n)) \<noteq> None" if "n \<in> set (node_list T)" for n
    using d(3) [OF that] by (auto simp: idle4_def node4_def)
  have "view4 m c \<noteq> None" if "c \<in> set (cell_list T)" for c using d(2) vrep_some that by (auto simp: cwf_def)
  then have "atoms m c \<noteq> None" if "c \<in> set (cell_list T)" for c using that unfolding view4_None by blast
  then show a: "atoms m a \<noteq> None" using assms(2) root nodes d(6) by (auto simp: atom_list_def)
  then show "a < brk4 m" using d(9) by auto
qed

lemma node_known:
  assumes "nb4_ok m r T" "n \<in> insert r (set (node_list T))"
  shows "trees m n = Some (node4 m n)" "n < brk4 m" "idle4 m n"
proof -
  show i: "idle4 m n" using assms nb4_okD(1,3) [OF assms(1)] by (auto simp: root_ok_def)
  then show t: "trees m n = Some (node4 m n)" by (auto simp: idle4_def node4_def)
  show "n < brk4 m" by (rule nb4_okD(10) [OF assms(1) t])
qed

lemma added_simps:
  assumes "nb4_ok m r T"
  shows "a < brk4 m \<Longrightarrow> a \<noteq> c \<Longrightarrow> a \<noteq> n4_op (node4 m p) \<Longrightarrow> atoms (added m p c lft x v) a = atoms m a"
    "n < brk4 m \<Longrightarrow> trees (added m p c lft x v) n = trees m n" "n < brk4 m \<Longrightarrow> opers (added m p c lft x v) n = opers m n"
    "n < brk4 m \<Longrightarrow> node4 (added m p c lft x v) n = node4 m n" "base_root (added m p c lft x v) = base_root m"
  by (simp_all add: added_def Let_def node4_def)

lemma atoms_apart:
  assumes "distinct (atom_list m r T)" "p \<in> insert r (set (node_list T))"
  shows "a \<in> set (cell_list T) \<Longrightarrow> a \<noteq> n4_op (node4 m p)"
    "n \<in> set (node_list T) \<Longrightarrow> n4_value (node4 m n) \<noteq> n4_op (node4 m p)"
    "n \<in> set (node_list T) \<Longrightarrow> a \<in> set (cell_list T) \<Longrightarrow> n4_value (node4 m n) \<noteq> a"
    "base_root m \<noteq> n4_op (node4 m p)" "a \<in> set (cell_list T) \<Longrightarrow> base_root m \<noteq> a"
    "n4_left (node4 m r) \<noteq> n4_op (node4 m p)" "a \<in> set (cell_list T) \<Longrightarrow> n4_left (node4 m r) \<noteq> a"
proof -
  note d = assms(1) [unfolded atom_list_def distinct.simps distinct_append set_append Un_iff]
  show "a \<in> set (cell_list T) \<Longrightarrow> a \<noteq> n4_op (node4 m p)" using d assms(2) by auto
  have "n4_op (node4 m p) \<notin> set (map (\<lambda>n. n4_value (node4 m n)) (node_list T))" using d assms(2) by (cases "p = r") auto
  then show "n \<in> set (node_list T) \<Longrightarrow> n4_value (node4 m n) \<noteq> n4_op (node4 m p)"
    unfolding set_map using imageI [of n "set (node_list T)" "\<lambda>n. n4_value (node4 m n)"] by metis
  show "n \<in> set (node_list T) \<Longrightarrow> a \<in> set (cell_list T) \<Longrightarrow> n4_value (node4 m n) \<noteq> a" using d by auto
  show "base_root m \<noteq> n4_op (node4 m p)" "a \<in> set (cell_list T) \<Longrightarrow> base_root m \<noteq> a"
    "n4_left (node4 m r) \<noteq> n4_op (node4 m p)" "a \<in> set (cell_list T) \<Longrightarrow> n4_left (node4 m r) \<noteq> a"
    using d assms(2) by auto
qed

lemma atoms_inj:
  assumes "distinct (atom_list m r T)"
  shows "n \<in> insert r (set (node_list T)) \<Longrightarrow> p \<in> insert r (set (node_list T)) \<Longrightarrow> n4_op (node4 m n) = n4_op (node4 m p) \<Longrightarrow> n = p"
    "n \<in> set (node_list T) \<Longrightarrow> p \<in> set (node_list T) \<Longrightarrow> n4_value (node4 m n) = n4_value (node4 m p) \<Longrightarrow> n = p"
proof -
  have "distinct (map (\<lambda>n. n4_op (node4 m n)) (r # node_list T))" "distinct (map (\<lambda>n. n4_value (node4 m n)) (node_list T))"
    using assms by (auto simp: atom_list_def)
  then have i: "inj_on (\<lambda>n. n4_op (node4 m n)) (insert r (set (node_list T)))" "inj_on (\<lambda>n. n4_value (node4 m n)) (set (node_list T))"
    by (simp_all only: distinct_map list.set)
  then show "n \<in> insert r (set (node_list T)) \<Longrightarrow> p \<in> insert r (set (node_list T)) \<Longrightarrow> n4_op (node4 m n) = n4_op (node4 m p) \<Longrightarrow> n = p"
    "n \<in> set (node_list T) \<Longrightarrow> p \<in> set (node_list T) \<Longrightarrow> n4_value (node4 m n) = n4_value (node4 m p) \<Longrightarrow> n = p"
    using inj_onD [OF i(1), of n p] inj_onD [OF i(2), of n p] by blast+
qed

lemma distinct_insert_lists:
  assumes "distinct (xs @ A @ B @ ys @ D @ F @ zs)" "distinct [a, b, l, q]" "set [a, b, l, q] \<inter> set (xs @ A @ B @ ys @ D @ F @ zs) = {}"
    and "zs = X @ [c] @ Y"
  shows "distinct (xs @ (A @ a # B) @ ys @ (D @ b # F) @ X @ [l, c, q] @ Y)"
  using assms by auto

lemma added_ok:
  fixes v :: nat
  assumes ok: "nb4_ok m r (plug C (CLeaf c))" and thru: "ctx_thru C x"
  defines "b \<equiv> brk4 m"
  defines "m' \<equiv> added m (pnode r C) c (pside C = NOTFOUND_L) x v"
  defines "T' \<equiv> plug C (CNode c (b + 80) x (Some v) (CLeaf (b + 16)) (CLeaf (b + 32)))"
  shows "nb4_ok m' r T'"
proof -
  let ?T = "plug C (CLeaf c)" and ?p = "pnode r C"
  note d = nb4_okD [OF ok] and par = parent_node [OF ok] and known = atom_known [OF ok] and nodes = node_known [OF ok]
    and as = added_simps [OF ok, where c = c and p = ?p and lft = "pside C = NOTFOUND_L" and x = x and v = v, folded m'_def]
  let ?q = "n4_op (node4 m ?p)"
  have cT: "c \<in> set (cell_list ?T)" by (simp add: plug_cells)
  have pin: "?p \<in> insert r (set (node_list ?T))" by (cases C rule: pside.cases) (auto simp: plug_nodes)
  have dist: "distinct (atom_list m r ?T)" by (rule d(5))
  have c_in: "c \<in> set (atom_list m r ?T)" "?q \<in> set (atom_list m r ?T)" using cT pin by (auto simp: atom_list_def)
  have lt: "c < b" "?q < b" using known(2) c_in by (auto simp: b_def)
  have ne: "c \<noteq> ?q" using dist cT pin by (auto simp: atom_list_def)
  have new: "atoms m' b = Some v" "atoms m' (b + 16) = Some 1" "atoms m' (b + 32) = Some 1" "atoms m' (b + 64) = Some (b + 48)"
    "atoms m' c = Some (b + 80)" "atoms m' ?q = Some (b + 128)" "opers m' (b + 48) = Some \<lparr>o_op = 0, o_type = NONE\<rparr>"
    "opers m' (b + 128) = Some \<lparr>o_op = 0, o_type = NONE\<rparr>" "brk4 m' = b + 144"
    "trees m' (b + 80) = Some \<lparr>n4_key = x, n4_value = b, n4_op = b + 64, n4_left = b + 16, n4_right = b + 32\<rparr>"
    using lt ne by (simp_all add: m'_def added_def Let_def b_def [symmetric])
  have keep: "atoms m' a = atoms m a" if "a \<in> set (atom_list m r ?T)" "a \<noteq> c" "a \<noteq> ?q" for a
    using as(1) known(2) that by blast
  have some: "atoms m' a \<noteq> None" if "a \<in> set (atom_list m r ?T)" for a
    using keep [OF that] known(1) [OF that] new(5,6) by (cases "a = c"; cases "a = ?q") auto
  note apart = atoms_apart [OF dist pin]
  have view: "view4 m' a = view4 m a" if a: "a \<in> set (cell_list ?T)" "a \<noteq> c" for a
  proof (rule view4_frame)
    show "atoms m' a = atoms m a" by (rule keep) (use a apart in \<open>auto simp: atom_list_def\<close>)
    fix n nd
    assume "atoms m a = Some n" "\<not> IS_NULL n" "n \<noteq> 0"
    then have n: "n \<in> set (node_list ?T)" by (rule cell_content [OF ok a(1)])
    have "atoms m' (n4_value (node4 m n)) = atoms m (n4_value (node4 m n))"
      by (rule keep) (use n apart(2,3) [OF n] cT in \<open>auto simp: atom_list_def\<close>)
    then show "trees m' n = trees m n \<and> (trees m n = Some nd \<longrightarrow> atoms m' (n4_value nd) = atoms m (n4_value nd))"
      using as(2) nodes(1,2) [of n] n by auto
  qed
  have idle: "idle4 m' n" if n: "n \<in> insert r (set (node_list ?T))" for n
  proof -
    obtain nd y ob where i: "trees m n = Some nd" "atoms m (n4_op nd) = Some y" "opers m y = Some ob" "o_type ob = NONE"
      "atoms m (n4_value nd) \<noteq> None" "atoms m (n4_left nd) \<noteq> None" "atoms m (n4_right nd) \<noteq> None"
      using nodes(3) [OF n] by (auto simp: idle4_def)
    have some': "atoms m' a \<noteq> None" if "atoms m a \<noteq> None" for a
      using that as(1) [of a] d(9) [of a] new(5,6) by (cases "a = c"; cases "a = ?q") auto
    have "\<exists>y ob. atoms m' (n4_op nd) = Some y \<and> opers m' y = Some ob \<and> o_type ob = NONE"
    proof (cases "n4_op nd = ?q")
      case True
      then show ?thesis using new(6,8) by simp
    next
      case False
      have nd: "nd = node4 m n" using i(1) by (simp add: node4_def)
      have "n4_op nd \<in> set (atom_list m r ?T)" unfolding nd using n by (auto simp: atom_list_def)
      moreover have "n4_op nd \<noteq> c" unfolding nd using atoms_apart(1) [OF dist n cT] by simp
      ultimately have "atoms m' (n4_op nd) = Some y" using keep False i(2) by simp
      moreover have "opers m' y = Some ob" using as(3) d(11) [OF i(3)] i(3) by simp
      ultimately show ?thesis using i(4) by blast
    qed
    then show ?thesis
      unfolding idle4_def using as(2) [OF nodes(2) [OF n]] i(1) some' [OF i(5)] some' [OF i(6)] some' [OF i(7)] by auto
  qed
  have fresh: "b + i \<notin> set (cell_list ?T)" "b + i \<notin> set (node_list ?T)" "b + i \<notin> set (atom_list m r ?T)" for i
    using known(2) [of "b + i"] nodes(2) [of "b + i"] by (auto simp: b_def atom_list_def)
  have nn: "\<not> IS_NULL (b + 80)" "IS_NULL 1" "0 < b" using d(7,8) by (simp_all add: IS_NULL_def b_def)
  have cwf: "cwf (view4 m') T'" unfolding T'_def
  proof (rule cwf_grow(1) [OF d(2) thru])
    show "view4 m' c = Some (Some (b + 80), Some \<lparr>hkey = x, hval = Some v, hleft = b + 16, hright = b + 32\<rparr>)"
      using new nn by (simp add: view4_def hnode_of_def)
    show "view4 m' (b + 16) = Some (None, None)" "view4 m' (b + 32) = Some (None, None)"
      using new nn by (simp_all add: view4_def)
  qed (use fresh view in simp_all)
  have idle_new: "idle4 m' (b + 80)" using new by (simp add: idle4_def)
  have T': "node_list T' = fst (ctx_nodes C) @ (b + 80) # snd (ctx_nodes C)"
    "cell_list T' = fst (ctx_cells C) @ [b + 16, c, b + 32] @ snd (ctx_cells C)"
    by (simp_all add: T'_def plug_nodes plug_cells)
  have old: "node_list ?T = fst (ctx_nodes C) @ snd (ctx_nodes C)" "cell_list ?T = fst (ctx_cells C) @ [c] @ snd (ctx_cells C)"
    by (simp_all add: plug_nodes plug_cells)
  have same: "node4 m' n = node4 m n" if "n \<in> insert r (set (node_list ?T))" for n by (rule as(4) [OF nodes(2) [OF that]])
  have maps: "map (\<lambda>n. f (node4 m' n)) xs = map (\<lambda>n. f (node4 m n)) xs"
    if "set xs \<subseteq> set (node_list ?T)" for f :: "tree4 \<Rightarrow> addr" and xs
    using same that by (intro map_cong) auto
  have new_node: "node4 m' (b + 80) = \<lparr>n4_key = x, n4_value = b, n4_op = b + 64, n4_left = b + 16, n4_right = b + 32\<rparr>"
    using new(10) by (simp add: node4_def)
  have "distinct (atom_list m' r T')"
  proof -
    let ?o = "\<lambda>n. n4_op (node4 m n)" and ?v = "\<lambda>n. n4_value (node4 m n)" and ?A = "fst (ctx_nodes C)" and ?B = "snd (ctx_nodes C)"
    let ?xs = "[base_root m, n4_op (node4 m r), n4_left (node4 m r)]"
    have l: "atom_list m r ?T = ?xs @ map ?o ?A @ map ?o ?B @ [] @ map ?v ?A @ map ?v ?B @ cell_list ?T"
      by (simp add: atom_list_def old(1))
    have l': "atom_list m' r T' = ?xs @ (map ?o ?A @ (b + 64) # map ?o ?B) @ [] @ (map ?v ?A @ b # map ?v ?B) @
        fst (ctx_cells C) @ [b + 16, c, b + 32] @ snd (ctx_cells C)"
      using maps [of ?A] maps [of ?B] same [of r] by (simp add: atom_list_def T' new_node as(5) old(1))
    have "set [b + 64, b, b + 16, b + 32] \<inter> set (atom_list m r ?T) = {}" using fresh(3) [of 0] fresh(3) by auto
    then show ?thesis
      using distinct_insert_lists [OF dist [unfolded l] _ _ old(2), of "b + 64" b "b + 16" "b + 32"] unfolding l' l by simp
  qed
  moreover have "root_ok m' r (cell_of T')"
  proof -
    have "cell_of T' = cell_of ?T" by (simp add: T'_def plug_cell_of)
    moreover have "base_root m \<noteq> c" "base_root m \<noteq> ?q" using dist cT pin by (auto simp: atom_list_def)
    then have "atoms m' (base_root m) = atoms m (base_root m)" by (intro keep) (auto simp: atom_list_def)
    ultimately show ?thesis
      using d(1) idle [of r] as(2) [OF nodes(2) [of r]] as(5) by (auto simp: root_ok_def)
  qed
  moreover have "atoms m' (n4_left (node4 m' r)) = Some 0"
  proof -
    have "n4_left (node4 m r) \<noteq> c" "n4_left (node4 m r) \<noteq> ?q" using dist cT pin by (auto simp: atom_list_def)
    then have "atoms m' (n4_left (node4 m r)) = atoms m (n4_left (node4 m r))" by (intro keep) (auto simp: atom_list_def)
    then show ?thesis using same [of r] d(6) by simp
  qed
  moreover have below: "atoms m a = Some i \<Longrightarrow> a < b + 144" "trees m a = Some nd \<Longrightarrow> a < b + 144"
    "opers m a = Some ob \<Longrightarrow> a < b + 144" for a i nd ob
    using d(9) [of a i] d(10) [of a nd] d(11) [of a ob] by (simp_all add: b_def)
  moreover have "dom (atoms m') \<subseteq> {..<b + 144}" "dom (trees m') \<subseteq> {..<b + 144}" "dom (opers m') \<subseteq> {..<b + 144}"
    using below lt unfolding m'_def added_def Let_def b_def [symmetric] by (auto split: if_splits)
  moreover have "even c' \<and> (c' \<noteq> cell_of T' \<longrightarrow> atoms m' c' \<noteq> Some 0)" if c': "c' \<in> set (cell_list T')" for c'
  proof (cases "c' \<in> set (cell_list ?T)")
    case True
    have "cell_of T' = cell_of ?T" by (simp add: T'_def plug_cell_of)
    moreover have "atoms m' c' = atoms m c'" if "c' \<noteq> c"
      by (rule keep) (use True that apart(1) [OF True] in \<open>auto simp: atom_list_def\<close>)
    ultimately show ?thesis using d(12,13) [OF True] new(5) by (cases "c' = c") auto
  next
    case False
    then have "c' = b + 16 \<or> c' = b + 32" using c' by (auto simp: T' old)
    then show ?thesis using new(2,3) d(7) by (auto simp: b_def)
  qed
  moreover have "even n" if "n \<in> dom (trees m')" for n
    using that d(14) [of n] d(7) unfolding m'_def added_def Let_def b_def [symmetric] by (auto simp: b_def split: if_splits)
  ultimately show ?thesis
    unfolding nb4_ok_def using cwf idle idle_new d(4,7) fresh(2) [of 80] nodes(2) [of r]
    by (auto simp: T'(1) old(1) new(9) b_def)
qed

end
