(* ===== verification/Conc_Nb4Del.thy ===== *)
theory Conc_Nb4Del
  imports Conc_Nb4Seq
begin

text \<open>
  A thread that runs alone on the tree of \<^verbatim>\<open>bst_conc_nblocking4.c\<close>: what its deletions of nodes with a missing
  child do to the tree in memory.
\<close>

section \<open>Deletion of a node with a missing child\<close>

text \<open>The sub-tree \<open>S\<close>, hanging from the cell \<open>c\<close>.\<close>

fun rehung :: "addr \<Rightarrow> ctree \<Rightarrow> ctree" where
  "rehung c (CLeaf d) = CLeaf c"
| "rehung c (CNode d n k v l r) = CNode c n k v l r"

lemma rehung_simps [simp]:
  "cell_of (rehung c S) = c" "node_list (rehung c S) = node_list S" "cpairs (rehung c S) = cpairs S"
  by (cases S; simp)+

definition unlinked :: "mem4 \<Rightarrow> addr \<Rightarrow> addr \<Rightarrow> addr \<Rightarrow> bool \<Rightarrow> nat \<Rightarrow> mem4" where
  "unlinked m n p c lft x = (let b = brk4 m in m\<lparr>
     atoms := (atoms m)(n4_op (node4 m n) \<mapsto> b, c \<mapsto> x, n4_op (node4 m p) \<mapsto> b + 48),
     cas_ops := (cas_ops m)(b + 16 \<mapsto> \<lparr>cc_is_left = lft, cc_expected = n, cc_update = x\<rparr>),
     opers := (opers m)(b \<mapsto> \<lparr>o_op = 0, o_type = MARK\<rparr>, b + 32 \<mapsto> \<lparr>o_op = b + 16, o_type = CHILDCAS\<rparr>,
       b + 48 \<mapsto> \<lparr>o_op = 0, o_type = NONE\<rparr>),
     brk4 := b + 64\<rparr>)"

lemma helpMarked_alone:
  assumes "trees m n = Some nd" "even (n4_left nd)" "atoms m (n4_left nd) = Some x" "trees m p = Some pn"
    and "atoms m (n4_left pn) = Some pl" "c = (if n = pl then n4_left pn else n4_right pn)" "atoms m c = Some n"
    and "atoms m (n4_op pn) = Some o'" "c \<noteq> n4_op pn" "c < brk4 m"
  shows "helpMarked alone p o' n m = Some (later 5 (m\<lparr>atoms := (atoms m)(c \<mapsto> x, n4_op pn \<mapsto> brk4 m + 32),
     cas_ops := (cas_ops m)(brk4 m \<mapsto> \<lparr>cc_is_left = (n = pl), cc_expected = n, cc_update = x\<rparr>),
     opers := (opers m)(brk4 m + 16 \<mapsto> \<lparr>o_op = brk4 m, o_type = CHILDCAS\<rparr>, brk4 m + 32 \<mapsto> \<lparr>o_op = 0, o_type = NONE\<rparr>),
     brk4 := brk4 m + 48\<rparr>))"
proof -
  let ?b = "brk4 m" and ?cc = "\<lparr>cc_is_left = (n = pl), cc_expected = n, cc_update = x\<rparr>"
  let ?m1 = "later 3 (m\<lparr>atoms := (atoms m)(n4_op pn \<mapsto> ?b + 16), cas_ops := (cas_ops m)(?b \<mapsto> ?cc),
     opers := (opers m)(?b + 16 \<mapsto> \<lparr>o_op = ?b, o_type = CHILDCAS\<rparr>), brk4 := ?b + 32\<rparr>)"
  have "helpMarked alone p o' n m = helpChildCAS alone (?b + 16) p ?m1"
    using assms unfolding helpMarked_def
    by (simp add: IS_NULL_def new_cas4_def new_op4_def Let_def numeral_3_eq_3)
      (rule arg_cong [of _ _ "helpChildCAS alone _ _"], simp add: later_def)
  also have "\<dots> = Some (later 2 (?m1\<lparr>atoms := (atoms ?m1)(c \<mapsto> cc_update ?cc, n4_op pn \<mapsto> brk4 ?m1),
     opers := (opers ?m1)(brk4 ?m1 \<mapsto> \<lparr>o_op = 0, o_type = NONE\<rparr>), brk4 := brk4 ?m1 + 16\<rparr>))"
    by (rule helpChildCAS_alone [where q = ?b and ty = CHILDCAS]) (use assms in auto)
  finally show ?thesis using assms(9) by (simp add: later_def fun_upd_twist add_ac)
qed

lemma node_at_hole:
  assumes "nb4_ok m r (plug C (CNode c n k w l rt))"
  shows "atoms m c = Some n" "n \<noteq> 0" "\<not> IS_NULL n" "n4_key (node4 m n) = k" "n4_left (node4 m n) = cell_of l"
    "n4_right (node4 m n) = cell_of rt" "atoms m (n4_value (node4 m n)) = w" "trees m n = Some (node4 m n)"
    "n \<in> set (node_list (plug C (CNode c n k w l rt)))" "n \<noteq> pnode r C" "c \<noteq> n4_op (node4 m n)" "c \<noteq> n4_op (node4 m (pnode r C))"
    "n4_op (node4 m n) \<noteq> n4_op (node4 m (pnode r C))" "pnode r C \<in> insert r (set (node_list (plug C (CNode c n k w l rt))))"
proof -
  let ?T = "plug C (CNode c n k w l rt)"
  note d = nb4_okD [OF assms]
  have "view4 m c = Some (Some n, Some \<lparr>hkey = k, hval = w, hleft = cell_of l, hright = cell_of rt\<rparr>)"
    using d(2) by (simp add: cwf_def plug_vrep)
  then show "atoms m c = Some n" "n \<noteq> 0" "\<not> IS_NULL n" "n4_key (node4 m n) = k" "n4_left (node4 m n) = cell_of l"
    "n4_right (node4 m n) = cell_of rt" "atoms m (n4_value (node4 m n)) = w" "trees m n = Some (node4 m n)"
    by (auto simp: view4_node hnode_of_def node4_def)
  show n: "n \<in> set (node_list ?T)" by (simp add: plug_nodes)
  have dist: "distinct (node_list ?T)" using d(2) by (simp add: cwf_def)
  show p: "pnode r C \<in> insert r (set (node_list ?T))" by (cases C rule: pside.cases) (auto simp: plug_nodes)
  show ne: "n \<noteq> pnode r C" using dist d(4) by (cases C rule: pside.cases) (auto simp: plug_nodes)
  have c: "c \<in> set (cell_list ?T)" by (simp add: plug_cells)
  show "c \<noteq> n4_op (node4 m n)" using atoms_apart(1) [OF d(5) _ c] n by blast
  show "c \<noteq> n4_op (node4 m (pnode r C))" by (rule atoms_apart(1) [OF d(5) p c])
  show "n4_op (node4 m n) \<noteq> n4_op (node4 m (pnode r C))" using atoms_inj(1) [OF d(5) _ p, of n] n ne by auto
qed

lemma value_known:
  assumes "nb4_ok m r (plug C (CNode c n k w l rt))"
  obtains v where "w = Some v"
  using node_at_hole [OF assms] nb4_okD(3) [OF assms node_at_hole(9) [OF assms]] that by (auto simp: idle4_def)

lemma plug_cell_in: "cell_of (plug C S) \<in> {cell_of S} \<union> set (fst (ctx_cells C)) \<union> set (snd (ctx_cells C))"
  by (induction C S rule: plug.induct) auto

lemma child_cells:
  assumes "nb4_ok m r (plug C (CNode c n k w l rt))" "S = l \<or> S = rt"
  shows "cell_of S \<in> set (cell_list (plug C (CNode c n k w l rt)))" "cell_of S \<noteq> c"
    "\<exists>x. atoms m (cell_of S) = Some x \<and> x \<noteq> 0" "S = CLeaf d \<Longrightarrow> IS_NULL (the (atoms m (cell_of S)))"
proof -
  let ?T = "plug C (CNode c n k w l rt)"
  note d = nb4_okD [OF assms(1)]
  have out: "x \<in> set (cell_list S) \<Longrightarrow> x \<in> set (cell_list ?T) \<and> x \<notin> {c} \<union> set (fst (ctx_cells C)) \<union> set (snd (ctx_cells C))" for x
    using assms(2) d(2) by (auto simp: plug_cells cwf_def)
  from out [OF cell_of_in] show i: "cell_of S \<in> set (cell_list ?T)" and "cell_of S \<noteq> c" by blast+
  have "cell_of S \<noteq> cell_of ?T"
    using plug_cell_in [of C "CNode c n k w l rt"] out [OF cell_of_in] by (metis cell_of.simps(2))
  then have "atoms m (cell_of S) \<noteq> Some 0" by (rule d(13) [OF i])
  moreover have "atoms m (cell_of S) \<noteq> None" by (rule atom_known(1) [OF assms(1)]) (use i in \<open>simp add: atom_list_def\<close>)
  ultimately show x: "\<exists>x. atoms m (cell_of S) = Some x \<and> x \<noteq> 0" by auto
  assume "S = CLeaf d"
  moreover have "vrep (view4 m) S" using assms(2) d(2) by (auto simp: cwf_def plug_vrep)
  ultimately show "IS_NULL (the (atoms m (cell_of S)))" using x by (auto simp: view4_leaf)
qed

lemma child_cell_in:
  assumes "nb4_ok m r T" "q \<in> set (node_list T)"
  shows "n4_left (node4 m q) \<in> set (cell_list T)" "n4_right (node4 m q) \<in> set (cell_list T)"
proof -
  obtain C c k w l rt where T: "T = plug C (CNode c q k w l rt)" by (rule plug_split_node [OF assms(2)])
  show "n4_left (node4 m q) \<in> set (cell_list T)" "n4_right (node4 m q) \<in> set (cell_list T)"
    using node_at_hole(5,6) [OF assms(1) [unfolded T]] child_cells(1) [OF assms(1) [unfolded T]] by (auto simp: T)
qed

text \<open>The left child of the node above is the deleted node exactly if the deleted node hangs on the left.\<close>

lemma left_of_parent:
  assumes "nb4_ok m r (plug C (CNode c n k w l rt))" "atoms m (n4_left (node4 m (pnode r C))) = Some pl"
  shows "n = pl \<longleftrightarrow> pside C = NOTFOUND_L"
proof -
  let ?S = "CNode c n k w l rt"
  note d = nb4_okD [OF assms(1)] and par = parent_node [OF assms(1)] and h = node_at_hole [OF assms(1)]
  show ?thesis
  proof (cases "pside C = NOTFOUND_L")
    case True
    then show ?thesis using par(3) assms(2) h(1) by simp
  next
    case False
    have "n \<noteq> pl"
    proof (cases C rule: pside.cases)
      case 1
      then show ?thesis using d(6) assms(2) h(2) by auto
    next
      case (2 c2 n2 k2 v2 t C2)
      then show ?thesis using False by simp
    next
      case (3 c2 n2 k2 v2 t C2)
      let ?T = "plug C ?S"
      have "c \<notin> set (cell_list t)" using d(2) by (auto simp: 3 cwf_def plug_cells)
      then have ne: "cell_of t \<noteq> c" using cell_of_in by metis
      have t: "n4_left (node4 m n2) = cell_of t" "cell_of t \<in> set (cell_list ?T)"
        using d(2) by (auto simp: 3 cwf_def plug_vrep plug_cells view4_node hnode_of_def node4_def)
      have c: "c \<in> set (cell_list ?T)" by (simp add: plug_cells)
      show ?thesis
      proof
        assume "n = pl"
        then have "atoms m (cell_of t) = Some n" using assms(2) t(1) by (simp add: 3)
        then have "view4 m (cell_of t) = Some (Some n, map_option (hnode_of m) (trees m n))" using h(2,3) by (simp add: view4_def)
        moreover have "view4 m c = Some (Some n, map_option (hnode_of m) (trees m n))" using h(1-3) by (simp add: view4_def)
        moreover have "vrep (view4 m) ?T" "distinct (node_list ?T)" using d(2) by (simp_all add: cwf_def)
        ultimately show False using vrep_inj [OF _ _ t(2) c] ne by blast
      qed
    qed
    then show ?thesis using False by simp
  qed
qed

lemma delete_runs:
  assumes ok: "nb4_ok m r (plug C (CNode c n k w l rt))" and thru: "ctx_thru C k"
    and leaf: "(\<exists>d. l = CLeaf d) \<or> (\<exists>d. rt = CLeaf d)"
  shows "\<exists>j. delete4 alone k m =
    Some (later j (unlinked m n (pnode r C) c (pside C = NOTFOUND_L) (the (atoms m (cell_of l)))))"
proof -
  note d = nb4_okD [OF ok] and par = parent_node [OF ok] and h = node_at_hole [OF ok] and known = atom_known [OF ok]
  let ?T = "plug C (CNode c n k w l rt)" and ?p = "pnode r C" and ?b = "brk4 m"
  obtain f' j where f': "find4 alone k True no_find (base_root m) m = Some (FOUND, f', later j m)" "f_curr f' = c"
    "f_curr_op f' = op_of m n" "f_pred f' = Some (pcell m C, op_of m ?p)" using find_present [OF ok thru] by blast
  note cl = child_cells [OF ok, of l] and cr = child_cells [OF ok, of rt]
  obtain lp rp where lr: "atoms m (cell_of l) = Some lp" "atoms m (cell_of rt) = Some rp" using cl(3) cr(3) by auto
  have null: "IS_NULL rp \<or> IS_NULL lp" using leaf cl(4) cr(4) lr by auto
  have idle: "idle4 m n" by (rule d(3) [OF h(9)])
  note on = idle4_op [OF idle h(8)] and op = idle4_op [OF par(2,5)]
  obtain pl where pl: "atoms m (n4_left (node4 m ?p)) = Some pl" using par(2,5) by (auto simp: idle4_def)
  note side = left_of_parent [OF ok pl]
  have cT: "c \<in> set (cell_list ?T)" by (simp add: plug_cells)
  have pc: "pcell m C \<noteq> n4_op (node4 m n)"
    using d(5) h(9) atoms_apart(1,4) [OF d(5)] by (cases C rule: pside.cases) (auto simp: plug_cells)
  have nT: "n \<in> insert r (set (node_list ?T))" using h(9) by simp
  have ap: "n4_left (node4 m ?p) \<noteq> n4_op (node4 m n)" "cell_of l \<noteq> n4_op (node4 m n)" "c \<noteq> n4_op (node4 m n)"
    using atoms_apart(1) [OF d(5) nT] atoms_apart(6) [OF d(5) nT] child_cell_in(1) [OF ok, of ?p] h(14) cl(1) cT by auto
  let ?m1 = "m\<lparr>atoms := (atoms m)(n4_op (node4 m n) \<mapsto> ?b), opers := (opers m)(?b \<mapsto> \<lparr>o_op = 0, o_type = MARK\<rparr>),
     brk4 := ?b + 16\<rparr>"
  have "delete4 alone k m = helpMarked alone ?p (op_of m ?p) n (later (j + 5) ?m1)"
    using f' h(1,5,6,8) lr null on par(1) pc unfolding delete4_def
    by (subst delete_loop.simps) (simp add: new_op4_def, rule arg_cong [of _ _ "helpMarked alone _ _ _"], simp add: later_def)
  also have "\<dots> = Some (later (j + 10) (unlinked m n ?p c (pside C = NOTFOUND_L) lp))"
  proof -
    have c: "c = (if n = pl then n4_left (node4 m ?p) else n4_right (node4 m ?p))" using par(3) side by auto
    have ev: "even (n4_left (node4 m n))" using d(12) cl(1) h(5) by simp
    have cb: "c < ?b" using known(2) cT by (simp add: atom_list_def)
    note hm = helpMarked_alone [of "later (j + 5) ?m1" n "node4 m n" lp ?p "node4 m ?p" pl c "op_of m ?p"]
    show ?thesis
      using hm h(5,8,11-13) ev lr(1) par(5) pl c h(1) op(1) ap cb side
      by (simp add: unlinked_def Let_def) (simp add: later_def add_ac)
  qed
  finally show ?thesis using lr(1) by auto
qed

lemma vrep_rehung:
  "vrep v l \<Longrightarrow> v' c = v (cell_of l) \<Longrightarrow> (\<And>x. x \<in> set (cell_list l) \<Longrightarrow> x \<noteq> cell_of l \<Longrightarrow> v' x = v x) \<Longrightarrow>
   distinct (cell_list l) \<Longrightarrow> vrep v' (rehung c l)"
proof (cases l)
  case (CNode d n k w ll lr)
  assume a: "vrep v l" "v' c = v (cell_of l)" "\<And>x. x \<in> set (cell_list l) \<Longrightarrow> x \<noteq> cell_of l \<Longrightarrow> v' x = v x" "distinct (cell_list l)"
  have "vrep v' ll = vrep v ll" "vrep v' lr = vrep v lr"
    by (rule vrep_cong, rule a(3); use a(4) CNode in auto)+
  then show ?thesis using a(1,2) CNode by simp
qed simp

lemma sorted_wrt_dropped: "sorted_wrt P (a @ (l @ x) @ b) \<Longrightarrow> sorted_wrt P (a @ l @ b)"
  by (auto simp: sorted_wrt_append)

lemma distinct_part: "distinct (xs @ ys) \<Longrightarrow> distinct xs' \<Longrightarrow> set xs' \<subseteq> set xs \<Longrightarrow> set ys' \<subseteq> set ys \<Longrightarrow> distinct ys' \<Longrightarrow> distinct (xs' @ ys')"
  by auto

lemma distinct_sublists:
  fixes f g :: "'a \<Rightarrow> 'b"
  assumes "distinct (as @ map f xs @ map g xs @ ys)" "set xs' \<subseteq> set xs" "distinct xs'" "set ys' \<subseteq> set ys" "distinct ys'"
  shows "distinct (as @ map f xs' @ map g xs' @ ys')"
proof -
  have m: "distinct (map h xs) \<Longrightarrow> distinct (map h xs')" for h :: "'a \<Rightarrow> 'b"
    using assms(2,3) by (auto simp: distinct_map intro: inj_on_subset)
  have g: "set (map h xs') \<subseteq> set (map h xs)" for h :: "'a \<Rightarrow> 'b" using assms(2) by auto
  have 1: "distinct (map g xs' @ ys')"
    by (rule distinct_part [of "map g xs" ys, OF _ m g assms(4,5)]) (use assms(1) in simp_all)
  have 2: "distinct (map f xs' @ map g xs' @ ys')"
    by (rule distinct_part [of "map f xs" "map g xs @ ys", OF _ m g _ 1]) (use assms(1,4) g [of g] in auto)
  show ?thesis
    by (rule distinct_part [of as "map f xs @ map g xs @ ys", OF assms(1) _ subset_refl _ 2]) (use assms(1,4) g [of f] g [of g] in auto)
qed

lemma unlinked_ok:
  assumes ok: "nb4_ok m r (plug C (CNode c n k w l rt))"
  defines "m' \<equiv> unlinked m n (pnode r C) c (pside C = NOTFOUND_L) (the (atoms m (cell_of l)))"
  shows "nb4_ok m' r (plug C (rehung c l))"
proof -
  let ?T = "plug C (CNode c n k w l rt)" and ?T' = "plug C (rehung c l)" and ?p = "pnode r C" and ?b = "brk4 m"
  note d = nb4_okD [OF ok] and h = node_at_hole [OF ok] and known = atom_known [OF ok] and nodes = node_known [OF ok]
    and cl = child_cells [OF ok, of l]
  let ?q = "n4_op (node4 m ?p)" and ?qn = "n4_op (node4 m n)"
  have nT: "n \<in> insert r (set (node_list ?T))" using h(9) by simp
  obtain lp where lp: "atoms m (cell_of l) = Some lp" "lp \<noteq> 0" using cl(3) by auto
  have at: "atoms m' = (atoms m)(?qn \<mapsto> ?b, c \<mapsto> lp, ?q \<mapsto> ?b + 48)" "trees m' = trees m" "brk4 m' = ?b + 64"
    "base_root m' = base_root m" "opers m' = (opers m)(?b \<mapsto> \<lparr>o_op = 0, o_type = MARK\<rparr>,
       ?b + 32 \<mapsto> \<lparr>o_op = ?b + 16, o_type = CHILDCAS\<rparr>, ?b + 48 \<mapsto> \<lparr>o_op = 0, o_type = NONE\<rparr>)"
    by (simp_all add: m'_def unlinked_def Let_def lp(1))
  have node: "node4 m' = node4 m" by (rule ext) (simp add: node4_def at(2))
  have sub: "set (node_list ?T') \<subseteq> set (node_list ?T) - {n}" "set (cell_list ?T') \<subseteq> set (cell_list ?T) - {cell_of l}"
    "distinct (node_list ?T')" "distinct (cell_list ?T')"
    using d(2) by (cases l; auto simp: cwf_def plug_nodes plug_cells)+
  have cells: "atoms m' a = atoms m a" if "a \<in> set (cell_list ?T)" "a \<noteq> c" for a
    using that atoms_apart(1) [OF d(5) h(14) that(1)] atoms_apart(1) [OF d(5) nT that(1)] by (simp add: at(1))
  have vals: "atoms m' (n4_value (node4 m q)) = atoms m (n4_value (node4 m q))" if "q \<in> set (node_list ?T)" for q
    using atoms_apart(2) [OF d(5) h(14) that] atoms_apart(2) [OF d(5) nT that] atoms_apart(3) [OF d(5) h(14) that, of c]
    by (simp add: at(1) plug_cells)
  have view: "view4 m' a = view4 m a" if a: "a \<in> set (cell_list ?T)" "a \<noteq> c" for a
  proof (rule view4_frame [OF cells [OF a]])
    fix q nd
    assume "atoms m a = Some q" "\<not> IS_NULL q" "q \<noteq> 0"
    then have q: "q \<in> set (node_list ?T)" by (rule cell_content [OF ok a(1)])
    then show "trees m' q = trees m q \<and> (trees m q = Some nd \<longrightarrow> atoms m' (n4_value nd) = atoms m (n4_value nd))"
      using vals [OF q] at(2) nodes(1) [of q] by auto
  qed
  have viewc: "view4 m' c = view4 m (cell_of l)"
  proof -
    have "atoms m' c = Some lp" using h(12) by (simp add: at(1))
    moreover have "trees m' lp = trees m lp \<and> (\<forall>nd. trees m lp = Some nd \<longrightarrow> atoms m' (n4_value nd) = atoms m (n4_value nd))"
      if "\<not> IS_NULL lp"
    proof -
      have q: "lp \<in> set (node_list ?T)" by (rule cell_content [OF ok cl(1) lp(1) that lp(2)]) simp
      then show ?thesis using vals [OF q] at(2) nodes(1) [of lp] by auto
    qed
    ultimately show ?thesis using lp by (cases "trees m lp") (auto simp: view4_def hnode_of_def)
  qed
  have cwf: "cwf (view4 m') ?T'"
  proof -
    have "vrep (view4 m') (rehung c l)"
      by (rule vrep_rehung [of "view4 m"]) (use d(2) viewc view in \<open>auto simp: cwf_def plug_vrep plug_cells\<close>)
    moreover have "ctx_vrep (view4 m') C c"
    proof -
      have "ctx_vrep (view4 m') C c = ctx_vrep (view4 m) C c"
        by (rule ctx_vrep_cong, rule view) (use d(2) in \<open>auto simp: cwf_def plug_cells\<close>)
      then show ?thesis using d(2) by (simp add: cwf_def plug_vrep)
    qed
    moreover have "strict_sorted (keys_of (cpairs ?T'))"
    proof -
      have "strict_sorted (map fst (fst (ctx_pairs C)) @ (map fst (cpairs l) @ k # map fst (cpairs rt)) @ map fst (snd (ctx_pairs C)))"
        using d(2) by (simp add: cwf_def plug_pairs)
      from sorted_wrt_dropped [OF this] show ?thesis by (simp add: plug_pairs)
    qed
    ultimately show ?thesis using sub(3,4) by (simp add: cwf_def plug_vrep)
  qed
  have some': "atoms m' a \<noteq> None" if "atoms m a \<noteq> None" for a using that by (simp add: at(1))
  have ops: "n4_op (node4 m q) \<noteq> ?qn" if "q \<in> insert r (set (node_list ?T'))" for q
    using atoms_inj(1) [OF d(5) _ nT, of q] that sub(1) d(4) h(9) by auto
  have idle: "idle4 m' q" if q: "q \<in> insert r (set (node_list ?T'))" for q
  proof -
    have qT: "q \<in> insert r (set (node_list ?T))" using q sub(1) by auto
    obtain nd y ob where i: "trees m q = Some nd" "atoms m (n4_op nd) = Some y" "opers m y = Some ob" "o_type ob = NONE"
      "atoms m (n4_value nd) \<noteq> None" "atoms m (n4_left nd) \<noteq> None" "atoms m (n4_right nd) \<noteq> None"
      using nodes(3) [OF qT] by (auto simp: idle4_def)
    have nd: "nd = node4 m q" using i(1) by (simp add: node4_def)
    have "c \<noteq> n4_op nd" unfolding nd by (rule atoms_apart(1) [OF d(5) qT]) (simp add: plug_cells)
    then have "\<exists>y ob. atoms m' (n4_op nd) = Some y \<and> opers m' y = Some ob \<and> o_type ob = NONE"
      using ops [OF q] i(2-4) d(11) [OF i(3)] by (cases "n4_op nd = ?q") (auto simp: nd at(1,5))
    then show ?thesis
      unfolding idle4_def using at(2) i(1) some' [OF i(5)] some' [OF i(6)] some' [OF i(7)] by auto
  qed
  have cell: "cell_of ?T' = cell_of ?T" by (rule plug_cell_of) simp
  have base: "base_root m \<noteq> c" "base_root m \<noteq> ?q" "base_root m \<noteq> ?qn"
    using atoms_apart(4,5) [OF d(5) h(14)] atoms_apart(4) [OF d(5) nT] by (auto simp: plug_cells)
  have left: "n4_left (node4 m r) \<noteq> c" "n4_left (node4 m r) \<noteq> ?q" "n4_left (node4 m r) \<noteq> ?qn"
    using atoms_apart(6,7) [OF d(5) h(14)] atoms_apart(6) [OF d(5) nT] by (auto simp: plug_cells)
  have dist: "distinct (atom_list m' r ?T')"
    using distinct_sublists [of "[_, _, _]" _ "node_list ?T" _ "cell_list ?T" "node_list ?T'" "cell_list ?T'"] d(5) sub
    unfolding atom_list_def node at(4) by (simp only: append_Cons append_Nil) blast
  have below: "dom (atoms m') \<subseteq> {..<brk4 m'}" "dom (trees m') \<subseteq> {..<brk4 m'}" "dom (opers m') \<subseteq> {..<brk4 m'}"
  proof -
    have "c < ?b + 64" "?q < ?b + 64" "?qn < ?b + 64"
      using known(2) [of c] known(2) [of ?q] known(2) [of ?qn] h(14) nT by (auto simp: atom_list_def plug_cells)
    moreover have "atoms m a = Some i \<Longrightarrow> a < ?b + 64" "trees m a = Some nd \<Longrightarrow> a < ?b + 64"
      "opers m a = Some ob \<Longrightarrow> a < ?b + 64" for a i nd ob
      using d(9) [of a i] d(10) [of a nd] d(11) [of a ob] by simp_all
    ultimately show "dom (atoms m') \<subseteq> {..<brk4 m'}" "dom (trees m') \<subseteq> {..<brk4 m'}" "dom (opers m') \<subseteq> {..<brk4 m'}"
      by (auto simp: at split: if_splits)
  qed
  have content: "even a \<and> (a \<noteq> cell_of ?T' \<longrightarrow> atoms m' a \<noteq> Some 0)" if "a \<in> set (cell_list ?T')" for a
  proof -
    have a: "a \<in> set (cell_list ?T)" using that sub(2) by blast
    have "atoms m' c = Some lp" using h(12) by (simp add: at(1))
    then show ?thesis using d(12,13) [OF a] cells [OF a] lp(2) cell by (cases "a = c") auto
  qed
  have "root_ok m' r (cell_of ?T')"
    using d(1) idle [of r] base by (auto simp: root_ok_def at(1,2,4) cell)
  moreover have "atoms m' (n4_left (node4 m' r)) = Some 0" using left d(6) by (simp add: node at(1))
  moreover have "\<forall>n\<in>dom (trees m'). even n" using d(14) by (auto simp: at(2))
  ultimately show ?thesis
    unfolding nb4_ok_def using cwf idle sub(1) d(4,7) dist below content by (auto simp: at(3))
qed

end
