(* ===== verification/Conc_Nb4Reloc.thy ===== *)
theory Conc_Nb4Reloc
  imports Conc_Nb4Del
begin

text \<open>
  A thread that runs alone on the tree of \<^verbatim>\<open>bst_conc_nblocking4.c\<close>: the deletion of a node with two children
  whose successor is its right child. The successor's key and value move up, but its node stays in
  the tree with its mark.
\<close>

section \<open>Relocation\<close>

definition relocated :: "mem4 \<Rightarrow> addr \<Rightarrow> addr \<Rightarrow> int \<Rightarrow> nat \<Rightarrow> mem4" where
  "relocated m d cur k v = (let b = brk4 m in m\<lparr>
     atoms := (atoms m)(n4_op (the (trees m d)) \<mapsto> b, n4_value (the (trees m d)) \<mapsto> v, n4_op (the (trees m cur)) \<mapsto> b + 16),
     trees := (trees m)(d \<mapsto> (the (trees m d))\<lparr>n4_key := k\<rparr>),
     opers := (opers m)(b \<mapsto> \<lparr>o_op = 0, o_type = NONE\<rparr>, b + 16 \<mapsto> \<lparr>o_op = 0, o_type = MARK\<rparr>,
       b + 32 \<mapsto> \<lparr>o_op = 0, o_type = NONE\<rparr>, b + 64 := None),
     cas_ops := (cas_ops m)(b + 48 := None),
     brk4 := b + 80\<rparr>)"

lemma helpMarked_refused:
  assumes "trees m n = Some nd" "even (n4_left nd)" "atoms m (n4_left nd) = Some x" "trees m p = Some pn"
    "atoms m (n4_left pn) = Some pl" "atoms m (n4_op pn) = Some o'" "o' \<noteq> po"
  shows "helpMarked alone p po n m = Some (later 3 (m\<lparr>cas_ops := (cas_ops m)(brk4 m := None),
     opers := (opers m)(brk4 m + 16 := None), brk4 := brk4 m + 32\<rparr>))"
  using assms unfolding helpMarked_def
  by (simp add: IS_NULL_def new_cas4_def new_op4_def free_op4_def later_def Let_def numeral_3_eq_3)

lemma helpRelocate_alone:
  assumes o: "opers m opn = Some ob" "reloc_ops m (o_op ob) = Some rr" "aints m (rl_state rr) = Some ONGOING"
    and d: "atoms m (rl_dest rr) = Some d" "trees m d = Some dn" "atoms m (n4_op dn) = Some (rl_dest_op rr)"
      "atoms m (n4_value dn) = Some w" "atoms m (n4_left dn) = Some pl"
    and c: "cur \<noteq> d" "trees m cur = Some cn" "atoms m (n4_op cn) = Some opn" "even (n4_left cn)" "atoms m (n4_left cn) = Some x"
    and ne: "distinct [n4_op dn, n4_value dn, n4_op cn]" "n4_left dn \<notin> {n4_op dn, n4_value dn, n4_op cn}"
      "n4_left cn \<notin> {n4_op dn, n4_value dn, n4_op cn}"
  shows "helpRelocate alone opn d po cur m = Some (True, later 11
    ((relocated m d cur (rl_replace_key rr) (rl_replace_value rr))\<lparr>aints := (aints m)(rl_state rr \<mapsto> SUCCESSFUL)\<rparr>))"
proof -
  let ?b = "brk4 m"
  let ?m = "later 8 (m\<lparr>
     atoms := (atoms m)(n4_op dn \<mapsto> ?b, n4_value dn \<mapsto> rl_replace_value rr, n4_op cn \<mapsto> ?b + 16),
     trees := (trees m)(d \<mapsto> dn\<lparr>n4_key := rl_replace_key rr\<rparr>),
     opers := (opers m)(?b \<mapsto> \<lparr>o_op = 0, o_type = NONE\<rparr>, ?b + 16 \<mapsto> \<lparr>o_op = 0, o_type = MARK\<rparr>,
       ?b + 32 \<mapsto> \<lparr>o_op = 0, o_type = NONE\<rparr>),
     aints := (aints m)(rl_state rr \<mapsto> SUCCESSFUL), brk4 := ?b + 48\<rparr>)"
  have sep: "n4_op dn \<noteq> n4_value dn" "n4_op dn \<noteq> n4_op cn" "n4_value dn \<noteq> n4_op cn" "n4_op cn \<noteq> n4_op dn"
    "n4_value dn \<noteq> n4_op dn" "n4_op cn \<noteq> n4_value dn" using ne(1) by auto
  have "helpRelocate alone opn d po cur m = do { m \<leftarrow> helpMarked alone d (?b + 32) cur ?m; Some (True, m) }"
    unfolding helpRelocate_def
    by (simp add: new_op4_def Let_def o d c c(1) [symmetric] sep add_ac)
      (rule arg_cong2 [of _ _ _ _ Option.bind], rule arg_cong [of _ _ "helpMarked alone _ _ _"],
        simp_all add: later_def fun_upd_twist sep)
  also have "\<dots> = Some (True, later 3 (?m\<lparr>cas_ops := (cas_ops ?m)(?b + 48 := None),
     opers := (opers ?m)(?b + 48 + 16 := None), brk4 := ?b + 48 + 32\<rparr>))"
    using assms helpMarked_refused [of ?m cur cn x d "dn\<lparr>n4_key := rl_replace_key rr\<rparr>" pl ?b "?b + 32"] by simp
  finally show ?thesis using d c by (simp add: relocated_def Let_def later_def add_ac)
qed

section \<open>Deletion of a node with two children\<close>

text \<open>The memory when the relocation starts: the operation object hangs at the successor.\<close>

definition relocating :: "mem4 \<Rightarrow> addr \<Rightarrow> int \<Rightarrow> addr \<Rightarrow> addr \<Rightarrow> mem4" where
  "relocating m c k n s = (let b = brk4 m; sn = the (trees m s) in m\<lparr>
     atoms := (atoms m)(n4_op sn \<mapsto> b + 32), aints := (aints m)(b \<mapsto> ONGOING),
     reloc_ops := (reloc_ops m)(b + 16 \<mapsto> \<lparr>rl_state = b, rl_dest = c, rl_dest_op = op_of m n, rl_remove_key = k,
       rl_replace_key = n4_key sn, rl_replace_value = the (atoms m (n4_value sn))\<rparr>),
     opers := (opers m)(b + 32 \<mapsto> \<lparr>o_op = b + 16, o_type = RELOCATE\<rparr>), brk4 := b + 48\<rparr>)"

lemma find_successor:
  assumes "atoms m c = Some n" "idle4 m n" "trees m n = Some nd" "atoms m (n4_right nd) = Some s" "\<not> IS_NULL s" "s \<noteq> 0"
    "idle4 m s" "trees m s = Some sn" "k < n4_key sn" "atoms m (n4_left sn) = Some e" "IS_NULL e"
  shows "find4 alone k vok f c m = 
    Some (NOTFOUND_L, f\<lparr>f_pred := Some (c, op_of m n), f_curr := n4_right nd, f_curr_op := op_of m s\<rparr>, later 5 m)"
proof -
  note o = idle4_op [OF assms(2,3)]
  show ?thesis
    by (subst find4.simps) (simp add: assms o find_while_node find_while_leaf stepped_def eval_nat_numeral)
qed

lemma delete_relocates:
  assumes ok: "nb4_ok m r (plug C (CNode c n k w l (CNode c2 n2 k2 w2 (CLeaf e) rt)))" and thru: "ctx_thru C k"
    and two: "\<nexists>d. l = CLeaf d"
  shows "\<exists>j. delete4 alone k m = Some (later j ((relocated (relocating m c k n n2) n n2 k2 (the w2))\<lparr>
    aints := (aints m)(brk4 m \<mapsto> SUCCESSFUL)\<rparr>))"
proof -
  let ?S = "CNode c2 n2 k2 w2 (CLeaf e) rt"
  let ?T = "plug C (CNode c n k w l ?S)" and ?b = "brk4 m" and ?n = "node4 m n" and ?n2 = "node4 m n2"
  have ok2: "nb4_ok m r (plug (FR c n k w l # C) ?S)" using ok by simp
  note d = nb4_okD [OF ok] and h = node_at_hole [OF ok] and h2 = node_at_hole [OF ok2]
    and cl = child_cells [OF ok, of l] and cr = child_cells [OF ok, of ?S] and ce = child_cells [OF ok2, of "CLeaf e"]
  obtain f' j where f': "find4 alone k True no_find (base_root m) m = Some (FOUND, f', later j m)" "f_curr f' = c"
    "f_curr_op f' = op_of m n" "f_pred f' = Some (pcell m C, op_of m (pnode r C))" using find_present [OF ok thru] by blast
  have idle: "idle4 m n" "idle4 m n2" by (rule d(3) [OF h(9)], rule nb4_okD(3) [OF ok2 h2(9)])
  note on = idle4_op [OF idle(1) h(8)] and on2 = idle4_op [OF idle(2) h2(8)]
  obtain lp where lp: "atoms m (cell_of l) = Some lp" "\<not> IS_NULL lp"
  proof -
    obtain c3 n3 k3 w3 l3 r3 where l: "l = CNode c3 n3 k3 w3 l3 r3" using two by (cases l) auto
    have "nb4_ok m r (plug (FL c n k w ?S # C) (CNode c3 n3 k3 w3 l3 r3))" using ok l by simp
    from node_at_hole(1,3) [OF this] l that show thesis by simp
  qed
  obtain ep where ep: "atoms m e = Some ep" "IS_NULL ep" using ce(3,4) by auto
  obtain v2 where v2: "w2 = Some v2" by (rule value_known [OF ok2])
  have less: "k < k2"
    using d(2) by (auto simp: cwf_def plug_pairs sorted_wrt_append)
  let ?R = "relocating m c k n n2" and ?po = "op_of m n"
  let ?g = "f'\<lparr>f_pred := Some (c, ?po), f_curr := c2, f_curr_op := op_of m n2\<rparr>"
  have find2: "find4 alone k False f' c (later i m) = Some (NOTFOUND_L, ?g, later (i + 5) m)" for i
    using find_successor [of "later i m" c n ?n n2 ?n2 k ep False f'] h(1,6,8) h2(1-4,8) idle less ep h2(5)
    by simp
  have "\<exists>R. delete4 alone k m = helpRelocate alone (?b + 32) n ?po n2 (later (j + 14) ?R) \<bind>
      (\<lambda>(ok, m). if ok then Some m else R m)"
    unfolding delete4_def
    apply (subst delete_loop.simps)
    apply (simp add: f' h(1,5,6,8) h2(1,3,6-8) v2 lp on on2 find2 make_atomic4_def new_reloc4_def new_op4_def add_ac)
    apply (rule exI)
    apply (rule arg_cong2 [of _ _ _ _ Option.bind])
    apply (rule arg_cong [of _ _ "helpRelocate alone _ _ _ _"])
    apply (simp add: relocating_def Let_def later_def h2(8) h2(7) h2(4) v2 add_ac)
    apply (rule refl)
    done
  then obtain R where run: "delete4 alone k m = helpRelocate alone (?b + 32) n ?po n2 (later (j + 14) ?R) \<bind>
      (\<lambda>(ok, m). if ok then Some m else R m)" by blast
  let ?rr = "\<lparr>rl_state = ?b, rl_dest = c, rl_dest_op = ?po, rl_remove_key = k, rl_replace_key = k2, rl_replace_value = v2\<rparr>"
  have R: "atoms ?R = (atoms m)(n4_op ?n2 \<mapsto> ?b + 32)" "trees ?R = trees m" "reloc_ops ?R (?b + 16) = Some ?rr"
    "opers ?R (?b + 32) = Some \<lparr>o_op = ?b + 16, o_type = RELOCATE\<rparr>" "aints ?R = (aints m)(?b \<mapsto> ONGOING)"
    using h2(4,7) v2 by (simp_all add: relocating_def Let_def h2(8))
  obtain v where v: "w = Some v" by (rule value_known [OF ok])
  have nT: "n \<in> insert r (set (node_list ?T))" "n2 \<in> insert r (set (node_list ?T))" using h(9) h2(9) by simp_all
  note apart = atoms_apart(1,3) [OF d(5) nT(1)] atoms_apart(1) [OF d(5) nT(2)]
  have inT: "c \<in> set (cell_list ?T)" "cell_of l \<in> set (cell_list ?T)" "e \<in> set (cell_list ?T)"
    using cl(1) ce(1) by (auto simp: plug_cells)
  have val: "n4_value ?n \<noteq> n4_op ?n" "n4_value ?n \<noteq> n4_op ?n2" "\<And>a. a \<in> set (cell_list ?T) \<Longrightarrow> a \<noteq> n4_value ?n"
    using atoms_apart(2) [OF d(5) nT(1) h(9)] atoms_apart(2) [OF d(5) nT(2) h(9)] atoms_apart(3) [OF d(5) nT(1) h(9)] by metis+
  have "helpRelocate alone (?b + 32) n ?po n2 (later (j + 14) ?R) = Some (True, later 11
    ((relocated (later (j + 14) ?R) n n2 k2 v2)\<lparr>aints := (aints (later (j + 14) ?R))(?b \<mapsto> SUCCESSFUL)\<rparr>))"
  proof -
    note hr = helpRelocate_alone [of "later (j + 14) ?R" "?b + 32" "\<lparr>o_op = ?b + 16, o_type = RELOCATE\<rparr>" ?rr n ?n v lp n2 ?n2 ep ?po]
    show ?thesis
      using hr R h(1,5,7,8,10) h2(5,8,10,13) on(1) lp(1) ep(1) v d(12) [OF inT(3)] apart inT val by simp
  qed
  with run R(5) show ?thesis
    by (intro exI [of _ "j + 25"]) (simp add: relocated_def Let_def later_def v2 add_ac)
qed

section \<open>The mark that stays\<close>

text \<open>The memory after such a deletion.\<close>

definition after_move :: "mem4 \<Rightarrow> addr \<Rightarrow> int \<Rightarrow> addr \<Rightarrow> addr \<Rightarrow> int \<Rightarrow> nat \<Rightarrow> mem4" where
  "after_move m c k n s k2 v2 = (relocated (relocating m c k n s) n s k2 v2)\<lparr>aints := (aints m)(brk4 m \<mapsto> SUCCESSFUL)\<rparr>"

lemma after_move_simps:
  assumes "trees m n = Some nd" "trees m s = Some sn"
  shows "atoms (after_move m c k n s k2 v2) =
      (atoms m)(n4_op nd \<mapsto> brk4 m + 48, n4_value nd \<mapsto> v2, n4_op sn \<mapsto> brk4 m + 64)"
    "trees (after_move m c k n s k2 v2) = (trees m)(n \<mapsto> nd\<lparr>n4_key := k2\<rparr>)"
    "base_root (after_move m c k n s k2 v2) = base_root m" "brk4 (after_move m c k n s k2 v2) = brk4 m + 128"
    "opers (after_move m c k n s k2 v2) (brk4 m + 64) = Some \<lparr>o_op = 0, o_type = MARK\<rparr>"
    "opers (after_move m c k n s k2 v2) (brk4 m + 48) = Some \<lparr>o_op = 0, o_type = NONE\<rparr>"
    "x < brk4 m \<Longrightarrow> opers (after_move m c k n s k2 v2) x = opers m x"
  using assms by (auto simp: after_move_def relocated_def relocating_def Let_def)

text \<open>A search that comes to the marked node unlinks it and stops there.\<close>

lemma find_while_marked:
  assumes "trees m s = Some sn" "\<not> IS_NULL s" "s \<noteq> 0" "atoms m (n4_op sn) = Some y" "opers m y = Some ob" "o_type ob = MARK"
    and "atoms m (f_curr f) = Some n" "trees m n = Some nd" "even (n4_left sn)" "atoms m (n4_left sn) = Some e"
    "atoms m (n4_left nd) = Some pl" "s \<noteq> pl" "atoms m (n4_right nd) = Some s" "atoms m (n4_op nd) = Some (f_curr_op f)"
    "n4_right nd \<noteq> n4_op nd" "n4_right nd < brk4 m" "n4_right nd = h"
  shows "\<exists>m' g. find_while alone x vok res f h s m = Some (res, g, m') \<and> f_curr g = h \<and> atoms m' h = Some e \<and> trees m' = trees m"
proof -
  have hm: "helpMarked alone n (f_curr_op f) s (later 2 m) = Some (later 5 ((later 2 m)\<lparr>
      atoms := (atoms m)(h \<mapsto> e, n4_op nd \<mapsto> brk4 m + 32),
      cas_ops := (cas_ops m)(brk4 m \<mapsto> \<lparr>cc_is_left = False, cc_expected = s, cc_update = e\<rparr>),
      opers := (opers m)(brk4 m + 16 \<mapsto> \<lparr>o_op = brk4 m, o_type = CHILDCAS\<rparr>, brk4 m + 32 \<mapsto> \<lparr>o_op = 0, o_type = NONE\<rparr>),
      brk4 := brk4 m + 48\<rparr>))"
    using helpMarked_alone [of "later 2 m" s sn e n nd pl h "f_curr_op f"] assms by simp
  show ?thesis
    using assms hm by (subst find_while.simps) (simp add: GET_FLAG_def help4_def eval_nat_numeral)
qed

text \<open>The facts of such a memory that the searches use: the cells of the tree are as before, and only the
  successor's node is marked.\<close>

lemma after_move_apart:
  assumes "nb4_ok m r (plug C (CNode c n k w l (CNode c2 n2 k2 w2 (CLeaf e) rt)))"
    and "a \<in> set (cell_list (plug C (CNode c n k w l (CNode c2 n2 k2 w2 (CLeaf e) rt))))"
  shows "a \<notin> {n4_op (node4 m n), n4_value (node4 m n), n4_op (node4 m n2)}"
    "atoms (after_move m c k n n2 k2 v2) a = atoms m a"
proof -
  have ok2: "nb4_ok m r (plug (FR c n k w l # C) (CNode c2 n2 k2 w2 (CLeaf e) rt))" using assms(1) by simp
  note d = nb4_okD [OF assms(1)] and h = node_at_hole [OF assms(1)] and h2 = node_at_hole [OF ok2]
  have nT: "n \<in> insert r (set (node_list (plug C (CNode c n k w l (CNode c2 n2 k2 w2 (CLeaf e) rt)))))"
    "n2 \<in> insert r (set (node_list (plug C (CNode c n k w l (CNode c2 n2 k2 w2 (CLeaf e) rt)))))"
    using h(9) h2(9) by simp_all
  show apart: "a \<notin> {n4_op (node4 m n), n4_value (node4 m n), n4_op (node4 m n2)}"
    using atoms_apart(1) [OF d(5) nT(1) assms(2)] atoms_apart(1) [OF d(5) nT(2) assms(2)]
      atoms_apart(3) [OF d(5) nT(1) h(9) assms(2)] by auto
  then show "atoms (after_move m c k n n2 k2 v2) a = atoms m a" by (simp add: after_move_simps [OF h(8) h2(8)])
qed

lemma after_move_idle:
  assumes ok: "nb4_ok m r (plug C (CNode c n k w l (CNode c2 n2 k2 w2 (CLeaf e) rt)))"
    and q: "q \<in> insert r (set (node_list (plug C (CNode c n k w l (CNode c2 n2 k2 w2 (CLeaf e) rt)))))" "q \<noteq> n2"
  shows "idle4 (later i (after_move m c k n n2 k2 v2)) q"
proof -
  let ?S = "CNode c2 n2 k2 w2 (CLeaf e) rt"
  let ?T = "plug C (CNode c n k w l ?S)" and ?b = "brk4 m" and ?n = "node4 m n" and ?n2 = "node4 m n2"
  let ?m = "later i (after_move m c k n n2 k2 v2)"
  have ok2: "nb4_ok m r (plug (FR c n k w l # C) ?S)" using ok by simp
  note d = nb4_okD [OF ok] and h = node_at_hole [OF ok] and h2 = node_at_hole [OF ok2] and nodes = node_known [OF ok]
    and sm = after_move_simps [OF h(8) h2(8)]
  have nT: "n \<in> insert r (set (node_list ?T))" "n2 \<in> insert r (set (node_list ?T))" using h(9) h2(9) by simp_all
  have q: "q \<in> insert r (set (node_list ?T))" "q \<noteq> n2" using q by simp_all
  obtain nd y ob where i: "trees m q = Some nd" "atoms m (n4_op nd) = Some y" "opers m y = Some ob" "o_type ob = NONE"
    "atoms m (n4_value nd) \<noteq> None" "atoms m (n4_left nd) \<noteq> None" "atoms m (n4_right nd) \<noteq> None"
    using nodes(3) [OF q(1)] by (auto simp: idle4_def)
  have nd: "nd = node4 m q" using i(1) by (simp add: node4_def)
  have ne: "n4_op nd \<noteq> n4_op ?n2" "n4_op nd \<noteq> n4_value ?n" "q \<noteq> n \<Longrightarrow> n4_op nd \<noteq> n4_op ?n"
    using atoms_inj(1) [OF d(5) q(1) nT(2)] atoms_inj(1) [OF d(5) q(1) nT(1)] atoms_apart(2) [OF d(5) q(1) h(9)] q(2)
    by (auto simp: nd)
  have "\<exists>y ob. atoms ?m (n4_op nd) = Some y \<and> opers ?m y = Some ob \<and> o_type ob = NONE"
  proof (cases "q = n")
    case True
    then show ?thesis using ne(1,2) by (simp add: nd sm)
  next
    case False
    then show ?thesis using ne i(2-4) d(11) [OF i(3)] by (simp add: sm)
  qed
  moreover have "atoms m a \<noteq> None \<Longrightarrow> atoms ?m a \<noteq> None" for a by (simp add: sm)
  moreover have "trees ?m q = Some (if q = n then nd\<lparr>n4_key := k2\<rparr> else nd)" using i(1) by (auto simp: sm nd)
  ultimately show ?thesis using i(5-7) unfolding idle4_def by (cases "q = n") auto
qed

lemma after_move_descends:
  assumes ok: "nb4_ok m r (plug C (CNode c n k w l (CNode c2 n2 k2 w2 (CLeaf e) rt)))" and thru: "ctx_thru C x"
  shows "\<exists>f' j. find4 alone x True no_find (base_root m) (later i (after_move m c k n n2 k2 v2)) =
    find_while alone x True (pside C) f' c n (later j (after_move m c k n n2 k2 v2))"
proof -
  let ?S = "CNode c2 n2 k2 w2 (CLeaf e) rt"
  let ?T = "plug C (CNode c n k w l ?S)" and ?b = "brk4 m" and ?n = "node4 m n" and ?n2 = "node4 m n2"
  let ?m = "later i (after_move m c k n n2 k2 v2)"
  have ok2: "nb4_ok m r (plug (FR c n k w l # C) ?S)" using ok by simp
  note d = nb4_okD [OF ok] and h = node_at_hole [OF ok] and h2 = node_at_hole [OF ok2] and nodes = node_known [OF ok]
    and sm = after_move_simps [OF h(8) h2(8)]
  have nT: "n \<in> insert r (set (node_list ?T))" "n2 \<in> insert r (set (node_list ?T))" using h(9) h2(9) by simp_all
  have cells: "atoms ?m a = atoms m a" if "a \<in> set (cell_list ?T)" for a
    using after_move_apart(2) [OF ok that] by simp
  note idle = after_move_idle [OF ok, of _ i v2]
  have others: "trees ?m q = trees m q \<and> atoms ?m (n4_value (node4 m q)) = atoms m (n4_value (node4 m q))"
    if q: "q \<in> set (node_list ?T)" "q \<noteq> n" for q
  proof -
    have "n4_value (node4 m q) \<noteq> n4_value ?n" using atoms_inj(2) [OF d(5) q(1) h(9)] q(2) by blast
    then show ?thesis using atoms_apart(2) [OF d(5) nT(1) q(1)] atoms_apart(2) [OF d(5) nT(2) q(1)] q(2) by (simp add: sm)
  qed
  have view: "view4 ?m a = view4 m a" if a: "a \<in> set (cell_list ?T)" "a \<noteq> c" for a
  proof (rule view4_frame [OF cells [OF a(1)]])
    fix q nd
    assume at: "atoms m a = Some q" "\<not> IS_NULL q" "q \<noteq> 0"
    then have q: "q \<in> set (node_list ?T)" by (rule cell_content [OF ok a(1)])
    have "q \<noteq> n"
    proof
      assume "q = n"
      then have "view4 m a = Some (Some n, map_option (hnode_of m) (trees m n))"
          "view4 m c = Some (Some n, map_option (hnode_of m) (trees m n))"
        using at h(1-3) by (simp_all add: view4_def)
      moreover have "vrep (view4 m) ?T" "distinct (node_list ?T)" "c \<in> set (cell_list ?T)"
        using d(2) by (simp_all add: cwf_def plug_cells)
      ultimately show False using vrep_inj [OF _ _ a(1)] a(2) by blast
    qed
    then show "trees ?m q = trees m q \<and> (trees m q = Some nd \<longrightarrow> atoms ?m (n4_value nd) = atoms m (n4_value nd))"
      using others [OF q] nodes(1) [of q] q by auto
  qed
  have root: "root_ok ?m r (cell_of ?T)"
  proof -
    have "base_root m \<notin> {n4_op ?n, n4_value ?n, n4_op ?n2}"
      using atoms_apart(4) [OF d(5) nT(1)] atoms_apart(4) [OF d(5) nT(2)] d(5) h(9) by (auto simp: atom_list_def)
    moreover have "r \<noteq> n" "r \<noteq> n2" using d(4) h(9) h2(9) by auto
    ultimately show ?thesis using d(1) idle [of r] by (simp add: root_ok_def sm)
  qed
  have wf: "vrep (view4 m) (CNode c n k w l ?S)" "ctx_vrep (view4 m) C c" "distinct (node_list ?T)" "distinct (cell_list ?T)"
    using d(2) by (simp_all add: cwf_def plug_vrep)
  have "ctx_vrep (view4 ?m) C c"
  proof -
    have "ctx_vrep (view4 ?m) C c = ctx_vrep (view4 m) C c"
      by (rule ctx_vrep_cong, rule view) (use wf(4) in \<open>auto simp: plug_cells\<close>)
    then show ?thesis using wf(2) by simp
  qed
  moreover have "ctx_idle ?m C"
    by (rule ctx_idle_ok) (use wf(3) idle in \<open>auto simp: plug_nodes\<close>)
  ultimately obtain f' j where f': "find4 alone x True no_find (base_root ?m) ?m =
      find_while alone x True (pside C) f' c (the (atoms ?m c)) (later j ?m)"
    using find4_descends [of ?m r C "CNode c n k w l ?S" x True no_find] root thru by auto
  moreover have "c \<in> set (cell_list ?T)" by (auto simp: plug_cells)
  ultimately show ?thesis using cells h(1) by (auto simp: sm)
qed

text \<open>The key of the successor is found in the deleted node's place, and the successor's node is still below, with a mark.\<close>

lemma move_leaves_mark:
  assumes ok: "nb4_ok m r (plug C (CNode c n k w l (CNode c2 n2 k2 w2 (CLeaf e) rt)))" and thru: "ctx_thru C k2"
  shows "\<exists>g m2 nd nd2 y. find4 alone k2 True no_find (base_root m) (later i (after_move m c k n n2 k2 v2)) = Some (FOUND, g, m2) \<and>
    atoms (after_move m c k n n2 k2 v2) (f_curr g) = Some n \<and>
    trees (after_move m c k n n2 k2 v2) n = Some nd \<and> n4_key nd = k2 \<and>
    atoms (after_move m c k n n2 k2 v2) (n4_right nd) = Some n2 \<and> n2 \<noteq> n \<and> trees (after_move m c k n n2 k2 v2) n2 = Some nd2 \<and>
    n4_key nd2 = k2 \<and> atoms (after_move m c k n n2 k2 v2) (n4_op nd2) = Some y \<and>
    GET_FLAG y (after_move m c k n n2 k2 v2) = Some MARK"
proof -
  let ?S = "CNode c2 n2 k2 w2 (CLeaf e) rt"
  let ?T = "plug C (CNode c n k w l ?S)" and ?b = "brk4 m" and ?n = "node4 m n" and ?n2 = "node4 m n2"
  let ?m = "(after_move m c k n n2 k2 v2)"
  have ok2: "nb4_ok m r (plug (FR c n k w l # C) ?S)" using ok by simp
  note d = nb4_okD [OF ok] and h = node_at_hole [OF ok] and h2 = node_at_hole [OF ok2] and nodes = node_known [OF ok]
    and sm = after_move_simps [OF h(8) h2(8)]
  have nT: "n \<in> insert r (set (node_list ?T))" "n2 \<in> insert r (set (node_list ?T))" using h(9) h2(9) by simp_all
  note cells = after_move_apart(2) [OF ok, of _ v2]
  have "n \<noteq> n2" using h2(10) by simp
  have inT: "c \<in> set (cell_list ?T)" "c2 \<in> set (cell_list ?T)" by (auto simp: plug_cells)
  obtain f' j where f': "find4 alone k2 True no_find (base_root m) (later i ?m) =
      find_while alone k2 True (pside C) f' c n (later j ?m)"
    using after_move_descends [OF ok thru] by blast
  have tn: "trees ?m n = Some (?n\<lparr>n4_key := k2\<rparr>)" "trees ?m n2 = Some ?n2" using h2(8) \<open>n \<noteq> n2\<close> by (simp_all add: sm)
  have idn: "idle4 (later j ?m) n" by (rule after_move_idle [OF ok nT(1) \<open>n \<noteq> n2\<close>])
  have "\<exists>g m2. find4 alone k2 True no_find (base_root m) (later i ?m) = Some (FOUND, g, m2) \<and> f_curr g = c"
    unfolding f' using find_while_node [OF _ h(3,2) idn, of "?n\<lparr>n4_key := k2\<rparr>"] tn(1) by (simp add: stepped_def)
  then show ?thesis using tn \<open>n \<noteq> n2\<close> cells [OF inT(1)] cells [OF inT(2)] h(1,6) h2(1,4) by (auto simp: sm GET_FLAG_def)
qed

text \<open>A search for a key beyond it unlinks the marked node and ends at its cell, which now holds no node; the
  insertion of the key goes on to read a node there.\<close>

lemma add_after_move:
  assumes ok: "nb4_ok m r (plug C (CNode c n k w l (CNode c2 n2 k2 w2 (CLeaf e) rt)))" and thru: "ctx_thru C x" and above: "k2 < x"
  shows "\<exists>g m2 q. find4 alone x True no_find (base_root m) (later i (after_move m c k n n2 k2 v2)) = Some (NOTFOUND_R, g, m2) \<and>
      atoms m2 (f_curr g) = Some q \<and> IS_NULL q \<and> trees m2 q = None"
    and "add4 alone x v (later i (after_move m c k n n2 k2 v2)) = None"
proof -
  let ?S = "CNode c2 n2 k2 w2 (CLeaf e) rt"
  let ?T = "plug C (CNode c n k w l ?S)" and ?b = "brk4 m" and ?n = "node4 m n" and ?n2 = "node4 m n2"
  let ?m = "after_move m c k n n2 k2 v2"
  have ok2: "nb4_ok m r (plug (FR c n k w l # C) ?S)" using ok by simp
  note d = nb4_okD [OF ok] and h = node_at_hole [OF ok] and h2 = node_at_hole [OF ok2] and nodes = node_known [OF ok]
    and ce = child_cells [OF ok2, of "CLeaf e"] and cl = child_cells [OF ok, of l] and sm = after_move_simps [OF h(8) h2(8)]
  have nT: "n \<in> insert r (set (node_list ?T))" "n2 \<in> insert r (set (node_list ?T))" using h(9) h2(9) by simp_all
  note cells = after_move_apart(2) [OF ok, of _ v2] and apart = after_move_apart(1) [OF ok]
  obtain f' j where f': "find4 alone x True no_find (base_root m) (later i ?m) =
      find_while alone x True (pside C) f' c n (later j ?m)"
    using after_move_descends [OF ok thru] by blast
  have wf: "distinct (node_list ?T)" "distinct (cell_list ?T)" using d(2) by (simp_all add: cwf_def)
  have inT: "c \<in> set (cell_list ?T)" "c2 \<in> set (cell_list ?T)" "cell_of l \<in> set (cell_list ?T)" "e \<in> set (cell_list ?T)"
    using cl(1) ce(1) by (auto simp: plug_cells)
  note at = cells [OF inT(1)] cells [OF inT(2)] cells [OF inT(3)] cells [OF inT(4)]
  obtain lp ep where lp: "atoms m (cell_of l) = Some lp" "atoms m e = Some ep" "IS_NULL ep" using cl(3) ce(3,4) by auto
  have "n \<noteq> n2" using h2(10) by simp
  let ?nd = "?n\<lparr>n4_key := k2\<rparr>" and ?f = "stepped f' c (op_of ?m n)"
  have tn: "trees ?m n = Some ?nd" "trees ?m n2 = Some ?n2" using h2(8) \<open>n \<noteq> n2\<close> by (simp_all add: sm)
  have idn: "idle4 (later j ?m) n" by (rule after_move_idle [OF ok nT(1) \<open>n \<noteq> n2\<close>])
  have step: "find_while alone x True (pside C) f' c n (later j ?m) =
      find_while alone x True NOTFOUND_R ?f c2 n2 (later (j + 2) ?m)"
    using find_while_node [of "later j ?m" n ?nd] tn(1) h(1-3,6) h2(1) above idn at(2) by simp
  have "n2 \<noteq> lp"
  proof
    assume "n2 = lp"
    then have "view4 m (cell_of l) = Some (Some n2, map_option (hnode_of m) (trees m n2))"
        "view4 m c2 = Some (Some n2, map_option (hnode_of m) (trees m n2))"
      using lp(1) h2(1-3) by (simp_all add: view4_def)
    then have "cell_of l = c2" using vrep_inj [OF _ wf(1) inT(3,2)] d(2) by (auto simp: cwf_def)
    moreover have "cell_of l \<in> set (cell_list l)" by simp
    ultimately show False using wf(2) by (auto simp: plug_cells)
  qed
  moreover have "c2 < brk4 ?m" using atom_known(2) [OF ok, of c2] inT(2) by (simp add: sm atom_list_def)
  ultimately obtain m' g where fin: "find_while alone x True NOTFOUND_R ?f c2 n2 (later (j + 2) ?m) = Some (NOTFOUND_R, g, m')"
      "f_curr g = c2" "atoms m' c2 = Some ep" "trees m' = trees ?m"
    using find_while_marked [of "later (j + 2) ?m" n2 ?n2 "?b + 64" "\<lparr>o_op = 0, o_type = MARK\<rparr>" ?f n ?nd ep lp c2 x True NOTFOUND_R]
      tn h(1,5,6) h2(1-3,5) at lp(1,2) idle4_op(1) [OF idn, of ?nd] apart [OF inT(2)] d(12) [OF inT(4)]
    by (auto simp: stepped_def sm)
  have "trees m ep = None" using d(14) [of ep] lp(3) by (cases "trees m ep") (auto simp: IS_NULL_def)
  moreover have "ep \<noteq> n" using lp(3) h(3) by auto
  ultimately have "trees m' ep = None" using fin(4) by (simp add: sm)
  moreover from this show "add4 alone x v (later i ?m) = None"
    unfolding add4_def by (subst add_loop.simps) (use f' step fin(1-3) sm(3) in \<open>simp\<close>)
  ultimately show "\<exists>g m2 q. find4 alone x True no_find (base_root m) (later i ?m) = Some (NOTFOUND_R, g, m2) \<and>
      atoms m2 (f_curr g) = Some q \<and> IS_NULL q \<and> trees m2 q = None"
    using f' step fin(1-3) lp(3) by auto
qed

end
