(* ===== verification/Conc_Nb4Run.thy ===== *)
theory Conc_Nb4Run
  imports Conc_Nb4Reloc
begin

text \<open>
  Runs of one thread on the tree of \<^verbatim>\<open>bst_conc_nblocking4.c\<close> against a plain search tree and against a map.
\<close>

section \<open>A plain search tree\<close>

datatype bst4 = Tip4 | Bin4 bst4 int nat bst4

fun shape :: "ctree \<Rightarrow> bst4" where
  "shape (CLeaf c) = Tip4"
| "shape (CNode c n k v l r) = Bin4 (shape l) k (the v) (shape r)"

fun bst_find :: "int \<Rightarrow> bst4 \<Rightarrow> nat option" where
  "bst_find x Tip4 = None"
| "bst_find x (Bin4 l k v r) = (if x < k then bst_find x l else if k < x then bst_find x r else Some v)"

fun bst_add :: "int \<Rightarrow> nat \<Rightarrow> bst4 \<Rightarrow> bst4" where
  "bst_add x w Tip4 = Bin4 Tip4 x w Tip4"
| "bst_add x w (Bin4 l k v r) =
     (if x < k then Bin4 (bst_add x w l) k v r else if k < x then Bin4 l k v (bst_add x w r) else Bin4 l k v r)"

text \<open>Deletion of a node with a missing child: its left sub-tree takes its place.\<close>

fun bst_del :: "int \<Rightarrow> bst4 \<Rightarrow> bst4 option" where
  "bst_del x Tip4 = Some Tip4"
| "bst_del x (Bin4 l k v r) =
     (if x < k then map_option (\<lambda>l. Bin4 l k v r) (bst_del x l)
      else if k < x then map_option (Bin4 l k v) (bst_del x r)
      else if l = Tip4 \<or> r = Tip4 then Some l else None)"

lemma shape_rehung [simp]: "shape (rehung c S) = shape S"
  by (cases S) auto

lemma shape_Tip [simp]: "shape S = Tip4 \<longleftrightarrow> (\<exists>c. S = CLeaf c)"
  by (cases S) auto

text \<open>What happens at the hole of a context happens to the whole tree.\<close>

lemma bst_around:
  assumes "ctx_thru C x"
  shows "bst_find x (shape (plug C S)) = bst_find x (shape S)"
    "shape S' = bst_add x w (shape S) \<Longrightarrow> shape (plug C S') = bst_add x w (shape (plug C S))"
    "bst_del x (shape S) = map_option shape So \<Longrightarrow> bst_del x (shape (plug C S)) = map_option (\<lambda>S. shape (plug C S)) So"
proof -
  have "bst_find x (shape (plug C S)) = bst_find x (shape S) \<and>
      (shape S' = bst_add x w (shape S) \<longrightarrow> shape (plug C S') = bst_add x w (shape (plug C S))) \<and>
      (bst_del x (shape S) = map_option shape So \<longrightarrow> bst_del x (shape (plug C S)) = map_option (\<lambda>S. shape (plug C S)) So)"
    using assms
  proof (induction C arbitrary: S S' So)
    case (Cons F C)
    show ?case
    proof (cases F)
      case (FL c n k v r)
      show ?thesis
        using Cons.IH [of "CNode c n k v S r" "CNode c n k v S' r" "map_option (\<lambda>S. CNode c n k v S r) So"] Cons.prems FL
        by (auto simp: option.map_comp comp_def)
    next
      case (FR c n k v l)
      show ?thesis
        using Cons.IH [of "CNode c n k v l S" "CNode c n k v l S'" "map_option (CNode c n k v l) So"] Cons.prems FR
        by (auto simp: option.map_comp comp_def)
    qed
  qed simp
  then show "bst_find x (shape (plug C S)) = bst_find x (shape S)"
    "shape S' = bst_add x w (shape S) \<Longrightarrow> shape (plug C S') = bst_add x w (shape (plug C S))"
    "bst_del x (shape S) = map_option shape So \<Longrightarrow> bst_del x (shape (plug C S)) = map_option (\<lambda>S. shape (plug C S)) So"
    by blast+
qed

section \<open>Runs\<close>

lemma search_ends:
  obtains C c where "T = plug C (CLeaf c)" "ctx_thru C x"
  | C c n w l r where "T = plug C (CNode c n x w l r)" "ctx_thru C x"
proof -
  have "ctx_thru D x \<Longrightarrow> (\<exists>C c. plug D T = plug C (CLeaf c) \<and> ctx_thru C x) \<or>
      (\<exists>C c n w l r. plug D T = plug C (CNode c n x w l r) \<and> ctx_thru C x)" for D
  proof (induction T arbitrary: D)
    case (CNode c n k v l r)
    consider "x < k" | "k < x" | "x = k" by linarith
    then show ?case
    proof cases
      case 1
      then show ?thesis using CNode.IH(1) [of "FL c n k v r # D"] CNode.prems by simp
    next
      case 2
      then show ?thesis using CNode.IH(2) [of "FR c n k v l # D"] CNode.prems by simp
    qed (use CNode.prems in blast)
  qed blast
  from this [of "[]"] that show thesis by auto
qed

datatype call4 = Add int nat | Find int | Delete int

fun run4 :: "mem4 \<Rightarrow> call4 list \<Rightarrow> nat option list option" where
  "run4 m [] = Some []"
| "run4 m (Add x v # cs) = do { m \<leftarrow> add4 alone x v m; run4 m cs }"
| "run4 m (Delete x # cs) = do { m \<leftarrow> delete4 alone x m; run4 m cs }"
| "run4 m (Find x # cs) = do {
     (result, f, m) \<leftarrow> find4 alone x True no_find (base_root m) m;
     as \<leftarrow> run4 m cs;
     Some ((if result = FOUND then f_v f else None) # as) }"

text \<open>The same calls on the plain search tree; no answer where a node with two children is deleted.\<close>

fun spec4 :: "bst4 \<Rightarrow> call4 list \<Rightarrow> nat option list option" where
  "spec4 t [] = Some []"
| "spec4 t (Add x v # cs) = spec4 (bst_add x v t) cs"
| "spec4 t (Delete x # cs) = do { t \<leftarrow> bst_del x t; spec4 t cs }"
| "spec4 t (Find x # cs) = do { as \<leftarrow> spec4 t cs; Some (bst_find x t # as) }"

lemma add_present:
  assumes "nb4_ok m r (plug C (CNode c n x w l rt))" "ctx_thru C x"
  shows "\<exists>k. add4 alone x v m = Some (later k m)"
proof -
  obtain f' k where f': "find4 alone x True no_find (base_root m) m = Some (FOUND, f', later k m)" "f_curr f' = c"
    using find_present [OF assms] by blast
  have "c \<in> set (atom_list m r (plug C (CNode c n x w l rt)))" by (simp add: atom_list_def plug_cells)
  then obtain y where "atoms m c = Some y" using atom_known(1) [OF assms(1)] by blast
  then show ?thesis using f' unfolding add4_def by (subst add_loop.simps) auto
qed

lemma delete_absent:
  assumes "nb4_ok m r (plug C (CLeaf c))" "ctx_thru C x"
  shows "\<exists>k. delete4 alone x m = Some (later k m)"
proof -
  obtain f' k where "find4 alone x True no_find (base_root m) m = Some (pside C, f', later k m)"
    using find_absent [OF assms] by blast
  moreover have "pside C \<noteq> FOUND" using parent_node(4) [OF assms(1)] by auto
  ultimately show ?thesis unfolding delete4_def by (subst delete_loop.simps) auto
qed

lemma run4_spec:
  assumes "nb4_ok m r T" "spec4 (shape T) cs = Some rs"
  shows "run4 m cs = Some rs"
  using assms
proof (induction cs arbitrary: m T rs)
  case (Cons a cs)
  note ok = Cons.prems(1) and run = Cons.prems(2)
  obtain x where x: "(\<exists>v. a = Add x v) \<or> a = Find x \<or> a = Delete x" by (cases a) auto
  have same: "run4 (later k m) cs = Some rs'" if "spec4 (shape T) cs = Some rs'" for k rs'
    by (rule Cons.IH [OF _ that]) (simp add: ok)
  from search_ends [of T x] show ?case
  proof cases
    case (1 C c)
    note thru = 1(2) and okC = ok [unfolded 1(1)] and around = bst_around [OF 1(2), where S = "CLeaf c"]
    from x show ?thesis
    proof (elim disjE exE)
      fix v assume a: "a = Add x v"
      let ?S = "CNode c (brk4 m + 80) x (Some v) (CLeaf (brk4 m + 16)) (CLeaf (brk4 m + 32))"
      let ?m = "added m (pnode r C) c (pside C = NOTFOUND_L) x v"
      obtain k where k: "add4 alone x v m = Some (later k ?m)" using add_runs [OF okC thru] by blast
      have "spec4 (shape (plug C ?S)) cs = Some rs" using run a around(2) [where S' = ?S and w = v] by (simp add: 1(1))
      then show ?thesis using Cons.IH [of "later k ?m"] added_ok [OF okC thru, of v] a k by simp
    next
      assume a: "a = Find x"
      obtain f' k where "find4 alone x True no_find (base_root m) m = Some (pside C, f', later k m)"
        using find_absent [OF okC thru] by blast
      moreover have "pside C \<noteq> FOUND" using parent_node(4) [OF okC] by auto
      ultimately show ?thesis using a run same around(1) by (auto simp: 1(1) split: bind_splits)
    next
      assume a: "a = Delete x"
      then have "spec4 (shape T) cs = Some rs" using run around(3) [where So = "Some (CLeaf c)"] by (simp add: 1(1))
      then show ?thesis using same delete_absent [OF okC thru] a by auto
    qed
  next
    case (2 C c n w l rt)
    let ?S = "CNode c n x w l rt"
    note thru = 2(2) and okC = ok [unfolded 2(1)] and around = bst_around [OF 2(2), where S = ?S]
    from x show ?thesis
    proof (elim disjE exE)
      fix v assume a: "a = Add x v"
      then have "spec4 (shape T) cs = Some rs" using run around(2) [where S' = ?S and w = v] by (simp add: 2(1))
      then show ?thesis using add_present [OF okC thru, of v] same a by auto
    next
      assume a: "a = Find x"
      obtain f' k where "find4 alone x True no_find (base_root m) m = Some (FOUND, f', later k m)" "f_v f' = w"
        using find_present [OF okC thru] by blast
      moreover obtain v where "w = Some v" by (rule value_known [OF okC])
      ultimately show ?thesis
        using a run same around(1) by (auto simp: 2(1) split: bind_splits)
    next
      assume a: "a = Delete x"
      let ?m = "unlinked m n (pnode r C) c (pside C = NOTFOUND_L) (the (atoms m (cell_of l)))"
      have leaf: "(\<exists>d. l = CLeaf d) \<or> (\<exists>d. rt = CLeaf d)"
      proof (rule ccontr)
        assume "\<not> ?thesis"
        then show False using run a around(3) [where So = None] by (simp add: 2(1))
      qed
      then obtain k where k: "delete4 alone x m = Some (later k ?m)" using delete_runs [OF okC thru] by blast
      have "spec4 (shape (plug C (rehung c l))) cs = Some rs"
        using run a around(3) [where So = "Some (rehung c l)"] leaf by (auto simp: 2(1))
      then show ?thesis using Cons.IH [of "later k ?m"] unlinked_ok [OF okC] a k by simp
    qed
  qed
qed simp

lemma new_tree_ok: "nb4_ok new_tree_nb4 112 (CLeaf 64)"
  by (simp add: new_tree_nb4_def make_atomic_ptr4_def new_op4_def new_tree4_def Let_def nb4_ok_def root_ok_def cwf_def
      view4_def idle4_def atom_list_def node4_def)

section \<open>Runs as a map\<close>

fun ref4 :: "(int \<Rightarrow> nat option) \<Rightarrow> call4 list \<Rightarrow> nat option list" where
  "ref4 M [] = []"
| "ref4 M (Add x v # cs) = ref4 (if M x = None then M(x \<mapsto> v) else M) cs"
| "ref4 M (Delete x # cs) = ref4 (M(x := None)) cs"
| "ref4 M (Find x # cs) = M x # ref4 M cs"

text \<open>The right sub-tree below a key, and the runs that delete only keys without one.\<close>

fun bst_right :: "int \<Rightarrow> bst4 \<Rightarrow> bst4" where
  "bst_right x Tip4 = Tip4"
| "bst_right x (Bin4 l k v r) = (if x < k then bst_right x l else if k < x then bst_right x r else r)"

fun keeps4 :: "bst4 \<Rightarrow> call4 list \<Rightarrow> bool" where
  "keeps4 t [] = True"
| "keeps4 t (Add x v # cs) = keeps4 (bst_add x v t) cs"
| "keeps4 t (Delete x # cs) = (bst_right x t = Tip4 \<and> keeps4 (the (bst_del x t)) cs)"
| "keeps4 t (Find x # cs) = keeps4 t cs"

fun bst_keys :: "bst4 \<Rightarrow> int set" where
  "bst_keys Tip4 = {}"
| "bst_keys (Bin4 l k v r) = bst_keys l \<union> insert k (bst_keys r)"

fun bst_sorted :: "bst4 \<Rightarrow> bool" where
  "bst_sorted Tip4 = True"
| "bst_sorted (Bin4 l k v r) = (bst_sorted l \<and> bst_sorted r \<and> (\<forall>x\<in>bst_keys l. x < k) \<and> (\<forall>x\<in>bst_keys r. k < x))"

lemma bst_find_keys: "bst_sorted t \<Longrightarrow> bst_find x t = None \<longleftrightarrow> x \<notin> bst_keys t"
  by (induction t) auto

lemma bst_add_keys: "bst_keys (bst_add x v t) = insert x (bst_keys t)"
  by (induction t) auto

lemma bst_add_sorted: "bst_sorted t \<Longrightarrow> bst_sorted (bst_add x v t)"
  by (induction t) (auto simp: bst_add_keys)

lemma bst_find_add: "bst_find y (bst_add x v t) = (if y = x \<and> bst_find x t = None then Some v else bst_find y t)"
  by (induction t) auto

lemma bst_del_some: "bst_right x t = Tip4 \<Longrightarrow> \<exists>t'. bst_del x t = Some t'"
  by (induction t) (auto split: if_splits)

lemma bst_del_keys: "bst_del x t = Some t' \<Longrightarrow> y \<in> bst_keys t' \<Longrightarrow> y \<in> bst_keys t"
  by (induction t arbitrary: t') (auto split: if_splits)

lemma bst_del_sorted: "bst_sorted t \<Longrightarrow> bst_del x t = Some t' \<Longrightarrow> bst_sorted t'"
proof (induction t arbitrary: t')
  case (Bin4 l k v r)
  consider "x < k" | "k < x" | "x = k" by linarith
  then show ?case
  proof cases
    case 1
    then obtain l' where l': "bst_del x l = Some l'" "t' = Bin4 l' k v r" using Bin4.prems(2) by auto
    then show ?thesis using Bin4.IH(1) [OF _ l'(1)] Bin4.prems(1) bst_del_keys [OF l'(1)] by simp
  next
    case 2
    then obtain r' where r': "bst_del x r = Some r'" "t' = Bin4 l k v r'" using Bin4.prems(2) by auto
    then show ?thesis using Bin4.IH(2) [OF _ r'(1)] Bin4.prems(1) bst_del_keys [OF r'(1)] by simp
  qed (use Bin4.prems in \<open>simp split: if_splits\<close>)
qed simp

lemma bst_find_del:
  "bst_sorted t \<Longrightarrow> bst_right x t = Tip4 \<Longrightarrow> bst_del x t = Some t' \<Longrightarrow> bst_find y t' = (if y = x then None else bst_find y t)"
proof (induction t arbitrary: t')
  case (Bin4 l k v r)
  have out: "bst_find y l = None" if "k \<le> y" using Bin4.prems(1) bst_find_keys [of l y] that by fastforce
  consider "x < k" | "k < x" | "x = k" by linarith
  then show ?case
  proof cases
    case 3
    then show ?thesis using Bin4.prems out by (auto split: if_splits)
  qed (use Bin4 in auto)
qed simp

lemma spec4_map:
  assumes "bst_sorted t" "keeps4 t cs"
  shows "spec4 t cs = Some (ref4 (\<lambda>x. bst_find x t) cs)"
  using assms
proof (induction cs arbitrary: t)
  case (Cons a cs)
  show ?case
  proof (cases a)
    case (Add x v)
    have "(\<lambda>y. bst_find y (bst_add x v t)) =
        (if bst_find x t = None then (\<lambda>y. bst_find y t)(x \<mapsto> v) else (\<lambda>y. bst_find y t))"
      by (rule ext) (simp add: bst_find_add)
    then show ?thesis using Add Cons.IH [OF bst_add_sorted [OF Cons.prems(1)], of x v] Cons.prems(2) by auto
  next
    case (Find x)
    then show ?thesis using Cons.IH [OF Cons.prems(1)] Cons.prems(2) by simp
  next
    case (Delete x)
    then obtain t' where t': "bst_right x t = Tip4" "bst_del x t = Some t'" using Cons.prems(2) bst_del_some by auto
    have "(\<lambda>y. bst_find y t') = (\<lambda>y. bst_find y t)(x := None)"
      by (rule ext) (simp add: bst_find_del [OF Cons.prems(1) t'])
    then show ?thesis using Delete t'(2) Cons.IH [OF bst_del_sorted [OF Cons.prems(1) t'(2)]] Cons.prems(2) by simp
  qed
qed simp

text \<open>Keys that come in ascending order make a tree that is a list, each node the right child of the one before.\<close>

fun chain4 :: "(int \<times> nat) list \<Rightarrow> bst4" where
  "chain4 [] = Tip4"
| "chain4 ((k, v) # ps) = Bin4 Tip4 k v (chain4 ps)"

lemma chain4_add: "(\<forall>k\<in>fst ` set ps. k < x) \<Longrightarrow> bst_add x v (chain4 ps) = chain4 (ps @ [(x, v)])"
  by (induction ps rule: chain4.induct) auto

lemma spec4_adds:
  "strict_sorted (map fst (qs @ ps)) \<Longrightarrow> spec4 (chain4 qs) (map (\<lambda>(k, v). Add k v) ps @ cs) = spec4 (chain4 (qs @ ps)) cs"
proof (induction ps arbitrary: qs)
  case (Cons p ps)
  obtain k v where p: "p = (k, v)" by force
  have "\<forall>j\<in>fst ` set qs. j < k" using Cons.prems by (force simp: p sorted_wrt_append)
  then show ?case using Cons.IH [of "qs @ [p]"] Cons.prems chain4_add [of qs k v] by (simp add: p)
qed simp

section \<open>Deletions that leave a mark\<close>

text \<open>The sub-tree whose root has the key.\<close>

fun bst_at :: "int \<Rightarrow> bst4 \<Rightarrow> bst4" where
  "bst_at x Tip4 = Tip4"
| "bst_at x (Bin4 l k v r) = (if x < k then bst_at x l else if k < x then bst_at x r else Bin4 l k v r)"

lemma bst_at_around: "ctx_thru C x \<Longrightarrow> bst_at x (shape (plug C S)) = bst_at x (shape S)"
proof (induction C arbitrary: S)
  case (Cons F C)
  then show ?case by (cases F) auto
qed simp

lemma shape_keys: "bst_keys (shape T) = set (keys_of (cpairs T))"
  by (induction T) auto

lemma ctx_thru_between:
  "\<forall>y\<in>set (keys_of (fst (ctx_pairs C))). y < x \<Longrightarrow> \<forall>y\<in>set (keys_of (snd (ctx_pairs C))). x < y \<Longrightarrow> ctx_thru C x"
proof (induction C)
  case (Cons F C)
  then show ?case by (cases F) auto
qed simp

text \<open>An insertion, as far as the shape goes.\<close>

lemma add_shape:
  assumes "nb4_ok m r T"
  obtains m' T' where "nb4_ok m' r T'" "shape T' = bst_add x v (shape T)" "add4 alone x v m = Some m'"
proof (cases rule: search_ends [of T x])
  case (1 C c)
  let ?S = "CNode c (brk4 m + 80) x (Some v) (CLeaf (brk4 m + 16)) (CLeaf (brk4 m + 32))"
  let ?m = "added m (pnode r C) c (pside C = NOTFOUND_L) x v"
  have ok: "nb4_ok m r (plug C (CLeaf c))" using assms 1(1) by simp
  obtain k where "add4 alone x v m = Some (later k ?m)" using add_runs [OF ok 1(2)] by blast
  then show thesis
    using that [of "later k ?m" "plug C ?S"] added_ok [OF ok 1(2), of v] bst_around(2) [OF 1(2), of ?S v "CLeaf c"] by (simp add: 1(1))
next
  case (2 C c n w l rt)
  let ?S = "CNode c n x w l rt"
  have ok: "nb4_ok m r (plug C ?S)" using assms 2(1) by simp
  obtain k where "add4 alone x v m = Some (later k m)" using add_present [OF ok 2(2)] by blast
  then show thesis using that [of "later k m" T] assms bst_around(2) [OF 2(2), of ?S v ?S] by (simp add: 2(1))
qed

definition grown :: "(int \<times> nat) list \<Rightarrow> bst4" where
  "grown ps = fold (\<lambda>(x, v). bst_add x v) ps Tip4"

text \<open>The insertions alone, and the memory they leave.\<close>

fun adds4 :: "(int \<times> nat) list \<Rightarrow> mem4 \<Rightarrow> mem4 option" where
  "adds4 [] m = Some m"
| "adds4 ((x, v) # ps) m = do { m \<leftarrow> add4 alone x v m; adds4 ps m }"

lemma adds_shape:
  assumes "nb4_ok m r T"
  shows "\<exists>m' T'. nb4_ok m' r T' \<and> shape T' = fold (\<lambda>(x, v). bst_add x v) ps (shape T) \<and> adds4 ps m = Some m'"
  using assms
proof (induction ps arbitrary: m T)
  case (Cons p ps)
  obtain x v where p: "p = (x, v)" by force
  obtain m1 T1 where "nb4_ok m1 r T1" "shape T1 = bst_add x v (shape T)" "add4 alone x v m = Some m1"
    using add_shape [OF Cons.prems, of x v] by blast
  then show ?case using Cons.IH [of m1 T1] by (simp add: p)
qed auto

text \<open>The state after a deletion that has left the successor's node: the search for the key \<open>s\<close> finds a node with this key, and
  its right child is another node with the key \<open>s\<close> and a mark.\<close>

definition mark_left :: "int \<Rightarrow> mem4 \<Rightarrow> bool" where
  "mark_left s m \<longleftrightarrow> (\<exists>f m2 n nd n2 nd2 y. find4 alone s True no_find (base_root m) m = Some (FOUND, f, m2) \<and>
     atoms m (f_curr f) = Some n \<and> trees m n = Some nd \<and> n4_key nd = s \<and>
     atoms m (n4_right nd) = Some n2 \<and> n2 \<noteq> n \<and> trees m n2 = Some nd2 \<and> n4_key nd2 = s \<and>
     atoms m (n4_op nd2) = Some y \<and> GET_FLAG y m = Some MARK)"

text \<open>A search for the key \<open>x\<close> returns, but with a cell that holds a null pointer instead of a node.\<close>

definition search_astray :: "int \<Rightarrow> mem4 \<Rightarrow> bool" where
  "search_astray x m \<longleftrightarrow> (\<exists>f m2 q. find4 alone x True no_find (base_root m) m = Some (NOTFOUND_R, f, m2) \<and>
     atoms m2 (f_curr f) = Some q \<and> IS_NULL q \<and> trees m2 q = None)"

lemma relocation_breaks:
  assumes ok: "nb4_ok m r T" and at: "bst_at k (shape T) = Bin4 l k w (Bin4 Tip4 s u rt)" "l \<noteq> Tip4"
    and x: "s < x" "\<forall>y\<in>bst_keys (shape T). y \<le> s \<or> x < y"
  shows "\<exists>m'. delete4 alone k m = Some m' \<and> mark_left s m' \<and> search_astray x m' \<and> add4 alone x v m' = None"
proof (cases rule: search_ends [of T k])
  case (1 C c)
  then show ?thesis using at(1) bst_at_around [OF 1(2), of "CLeaf c"] by simp
next
  case (2 C c n w0 l0 r0)
  have "shape l0 = l" "shape r0 = Bin4 Tip4 s u rt"
    using at(1) bst_at_around [OF 2(2), of "CNode c n k w0 l0 r0"] by (auto simp: 2(1))
  then obtain c2 n2 w2 e r2 where r0: "r0 = CNode c2 n2 s w2 (CLeaf e) r2" and l0: "\<nexists>d. l0 = CLeaf d"
    using at(2) by (cases r0) auto
  let ?S = "CNode c n k w0 l0 (CNode c2 n2 s w2 (CLeaf e) r2)"
  have okS: "nb4_ok m r (plug C ?S)" using ok by (simp add: 2(1) r0)
  have sorted: "strict_sorted (keys_of (cpairs (plug C ?S)))" using nb4_okD(2) [OF okS] by (simp add: cwf_def)
  note b = ctx_thru_bounds [OF sorted 2(2)]
  have above: "k < s" "\<forall>y\<in>set (keys_of (snd (ctx_pairs C))). s < y"
    using sorted by (auto simp: plug_pairs sorted_wrt_append)
  have "\<forall>y\<in>set (keys_of (snd (ctx_pairs C))). y \<le> s \<or> x < y" using x(2) by (auto simp: shape_keys 2(1) plug_pairs)
  then have thru: "ctx_thru C x" using b above x(1) by (intro ctx_thru_between) force+
  have "ctx_thru C s" using b above by (intro ctx_thru_between) force+
  note mark = move_leaves_mark [OF okS this] and add = add_after_move [OF okS thru x(1)]
  have n: "trees m n = Some (node4 m n)" "trees m n2 = Some (node4 m n2)"
    using node_at_hole(8) [OF okS] node_at_hole(8) [of m r "FR c n k w0 l0 # C" c2 n2 s w2 "CLeaf e" r2] okS by simp_all
  obtain j where "delete4 alone k m = Some (later j (after_move m c k n n2 s (the w2)))"
    using delete_relocates [OF okS 2(2) l0] by (auto simp: after_move_def)
  moreover have "mark_left s (later j (after_move m c k n n2 s (the w2)))"
    using mark [of j "the w2"] by (auto simp: mark_left_def GET_FLAG_def after_move_simps(3) [OF n])
  moreover have "search_astray x (later j (after_move m c k n n2 s (the w2)))"
    using add(1) [of j "the w2"] by (auto simp: search_astray_def after_move_simps(3) [OF n])
  ultimately show ?thesis using add(2) by blast
qed

end
