(* ===== verification/Nb4_Properties.thy ===== *)
theory Nb4_Properties
  imports Conc_Nb4Run
begin

text \<open>
  The properties of the lock-free tree with deletion, \<^verbatim>\<open>bst_conc_nblocking4.c\<close>, in the hands of one thread.
\<close>

text \<open>C12: one thread's insertions, deletions and searches on a new tree are those of a map, whatever their
  keys and order, as long as every deleted node has no right child.\<close>

theorem nb4_is_map:
  assumes "keeps4 Tip4 cs"
  shows "run4 new_tree_nb4 cs = Some (ref4 Map.empty cs)"
  using run4_spec [OF new_tree_ok, of cs] spec4_map [OF _ assms] by simp

theorem nb4_is_map_witness:
  "keeps4 Tip4 [Add 5 50, Add 3 30, Add 8 80, Add 3 31, Delete 8, Delete 9, Find 3, Delete 5, Find 5, Find 8, Find 3] \<and>
   run4 new_tree_nb4 [Add 5 50, Add 3 30, Add 8 80, Add 3 31, Delete 8, Delete 9, Find 3, Delete 5, Find 5, Find 8, Find 3] =
     Some [Some 30, None, None, Some 30]"
proof
  show k: "keeps4 Tip4 [Add 5 50, Add 3 30, Add 8 80, Add 3 31, Delete 8, Delete 9, Find 3, Delete 5, Find 5, Find 8, Find 3]"
    by simp
  show "run4 new_tree_nb4 [Add 5 50, Add 3 30, Add 8 80, Add 3 31, Delete 8, Delete 9, Find 3, Delete 5, Find 5, Find 8, Find 3] =
     Some [Some 30, None, None, Some 30]"
    by (subst nb4_is_map [OF k]) simp
qed

text \<open>C31: keys inserted in ascending order are all lost when the first of them is deleted: of a node without a left child
  nothing is kept, so that its right sub-tree goes with it.\<close>

theorem nb4_delete_drops:
  assumes "strict_sorted (k # map fst ps)"
  shows "run4 new_tree_nb4 (map (\<lambda>(k, v). Add k v) ((k, v) # ps) @ Delete k # map (\<lambda>p. Find (fst p)) ps) =
    Some (map (\<lambda>_. None) ps)"
proof (rule run4_spec [OF new_tree_ok])
  have "spec4 Tip4 (map (\<lambda>p. Find (fst p)) ps) = Some (map (\<lambda>_. None) ps)" by (induction ps) auto
  then show "spec4 (shape (CLeaf 64)) (map (\<lambda>(k, v). Add k v) ((k, v) # ps) @ Delete k # map (\<lambda>p. Find (fst p)) ps) =
      Some (map (\<lambda>_. None) ps)"
    using spec4_adds [of "[]" "(k, v) # ps" "Delete k # map (\<lambda>p. Find (fst p)) ps"] assms by simp
qed

theorem nb4_delete_drops_witness:
  "run4 new_tree_nb4 [Add 5 50, Add 8 80, Add 9 90, Delete 5, Find 8, Find 9] = Some [None, None]"
  using nb4_delete_drops [of 5 "[(8, 80), (9, 90)]" 50] by simp

text \<open>C14: after any insertions, deleting a key whose node has two children, of which the right one, with the key \<open>s\<close>, is its
  successor, returns, but leaves the successor's node in the tree: the search for \<open>s\<close> finds a node with this key whose right
  child is another node with the key \<open>s\<close>, and a mark (\<open>mark_left\<close>). A search for a key \<open>x\<close> that belongs right of it
  stops when it has helped to unlink this node, and returns with \<^verbatim>\<open>*curr\<close> a cell that holds a null pointer
  (\<open>search_astray\<close>); the insertion of \<open>x\<close>, which reads a node there, is undefined.\<close>

theorem nb4_delete_breaks_add:
  assumes "bst_at k (grown ps) = Bin4 l k w (Bin4 Tip4 s u rt)" "l \<noteq> Tip4"
    and "s < x" "\<forall>y\<in>bst_keys (grown ps). y \<le> s \<or> x < y"
  shows "\<exists>m m'. adds4 ps new_tree_nb4 = Some m \<and> delete4 alone k m = Some m' \<and>
    mark_left s m' \<and> search_astray x m' \<and> add4 alone x v m' = None"
proof -
  obtain m T where m: "nb4_ok m 112 T" "shape T = grown ps" "adds4 ps new_tree_nb4 = Some m"
    using adds_shape [OF new_tree_ok, of ps] by (auto simp: grown_def)
  show ?thesis using relocation_breaks [OF m(1), of k l w s u rt x v] assms m(2,3) by auto
qed

theorem nb4_delete_breaks_add_witness:
  "\<exists>m m'. adds4 [(5, 50), (3, 30), (7, 70), (12, 120)] new_tree_nb4 = Some m \<and> delete4 alone 5 m = Some m' \<and>
     mark_left 7 m' \<and> search_astray 9 m' \<and> add4 alone 9 90 m' = None"
  using nb4_delete_breaks_add [of 5 "[(5, 50), (3, 30), (7, 70), (12, 120)]" "Bin4 Tip4 3 30 Tip4" 50 7 70 "Bin4 Tip4 12 120 Tip4" 9 90]
  by (simp add: grown_def)

end
