(* ===== verification/Spec2Isabelle.thy ===== *)
theory Spec2Isabelle
  imports KV_Put BTree_Prev Conc_Properties TK_Properties DB_Properties Apps_Properties Malloc_Properties Nb4_Properties
begin

text \<open>
  Verification of the deepDB storage engine.

  The repository holds the parts of a database engine, written in C: a B+-tree with cursors and the key-value
  store, indexes and clients built on it (\<^verbatim>\<open>src/src/btrees_and_tries\<close>, a second version of the tree and its client
  under \<^verbatim>\<open>src/verif\<close>), an index on composite keys (\<^verbatim>\<open>src/tuplekey\<close>), database operators that read tables through
  both indexes (\<^verbatim>\<open>src/src/db_ops\<close>), concurrent search trees (\<^verbatim>\<open>src/concurrency\<close>) and a memory allocator
  (\<^verbatim>\<open>src/memmgr\<close>). Each part is modelled function by function under the names of the source; a theory \<open>X_Model\<close>
  (or the theory named below) holds the code, the theories after it its correctness, and \<open>X_Properties\<close> or this
  theory the properties. Properties are numbered \<open>C1\<close> to \<open>C40\<close> in their texts.

  \<^bold>\<open>Conventions.\<close> A C function becomes a function that returns \<open>None\<close> where the C aborts or is undefined: a failed
  \<^verbatim>\<open>assert\<close>, a dereference of \<^verbatim>\<open>NULL\<close>, an access outside an array or to freed or foreign memory, an overflow of
  \<^verbatim>\<open>int\<close>, the wrong member of a union. \<^verbatim>\<open>size_t\<close> and \<^verbatim>\<open>unsigned long\<close> are 64-bit words and wrap; \<^verbatim>\<open>int\<close>s are integers
  with their range checked where the code computes with them. Loops that recur on a list or a counter are \<open>fun\<close>, the
  others are \<open>partial_function (option)\<close>, so that a loop that does not return is \<open>None\<close> as well, and every theorem that
  gives a result \<open>Some\<close> also states termination; no fuel is used. Structs are records, pointers are addresses in
  an explicit heap wherever two pointers may lead to the same object. \<^verbatim>\<open>malloc\<close> is a parameter \<open>ok\<close> or a heap with a
  next free address; memory that was not written is not readable, or holds a fixed value that no result depends on.

  \<^bold>\<open>The cursored B+-tree\<close> (C1-C8; \<^verbatim>\<open>relation_mem.c\<close>). \<open>BTree_Model\<close>: nodes in a heap, the relation, the cursor with
  its arrays of ancestors and indices; \<open>RL_*\<close> and all static functions. \<open>BTree_Abs\<close>, \<open>BTree_Ins\<close>: abstract trees,
  their invariant (key order, balance, node sizes, distinct addresses), and insertion from the root. \<open>BTree_Repr\<close>: the
  heap that holds a tree, cursor paths, searching. \<open>BTree_Put\<close>, \<open>BTree_PutR\<close>: \<open>putEntry\<close> with its splits implements
  insertion. \<open>BTree_Cursor\<close>, \<open>BTree_Ops\<close>: a cursor is a position in the sorted list of records; every \<open>RL_*\<close> operation
  against that. \<open>BTree_Index\<close>: the contract as the locale \<open>record_index\<close>, interpreted on both versions.
  \<open>BTree_Prev\<close>: moving back. Node addresses are natural numbers; \<open>FANOUT\<close> is 15 and \<open>MAX_TREE_DEPTH\<close> 20 as in
  the code, so relations of up to \<open>2\<^sup>58\<close> records (\<open>capacity\<close>) stay below the depth the cursor arrays allow, which
  is proved.

  \<^bold>\<open>Its second version\<close> (C18-C20; \<^verbatim>\<open>src/verif/btrees/relation_mem.c\<close>). \<open>BTree2_Model\<close> has the functions that differ,
  \<open>BTree2_Sim\<close> and \<open>BTree2_Ops\<close> show that both versions compute the same and that the second one provides the contract.

  \<^bold>\<open>Utilities\<close> (C13, C16-C17; \<^verbatim>\<open>util.c\<close>). \<open>Util\<close>: binary search, key slices, conversions, array growth, shuffling. Binary search is
  total up to \<open>2\<^sup>3\<^sup>0\<close> elements; beyond, its midpoint overflows an \<^verbatim>\<open>int\<close>, which the model has as \<open>None\<close>.

  \<^bold>\<open>The key-value store\<close> (C9-C11; \<^verbatim>\<open>kvstore.c\<close>, \<^verbatim>\<open>bordernode.c\<close>). \<open>KV_Model\<close>: a trie of B+-trees over the 8-byte slices
  of the keys with border nodes, in one heap. \<open>KV_Abs\<close>: abstract tries, \<open>KV_Repr\<close>: the heap that holds one, \<open>KV_Put\<close>:
  \<open>KV_Put\<close> and \<open>KV_Get\<close> against it, and what a put of a colliding key does. \<^verbatim>\<open>surely_malloc\<close> cuts the size it is asked for to
  32 bits, here and in \<^verbatim>\<open>index_string.c\<close>; a copy that is longer than the block it got is \<open>None\<close>, so keys are bounded by
  \<open>2\<^sup>3\<^sup>2\<close> bytes where they are stored.

  \<^bold>\<open>Clients of the trees\<close> (C15, C21, C29, C32, C39). \<open>RL_Apps\<close>: \<^verbatim>\<open>relapps.c\<close> and \<^verbatim>\<open>index_int.c\<close>; \<open>DB_Client\<close>: the method table
  and table loading of \<^verbatim>\<open>src/verif/indices/client/db_client.c\<close>; \<open>StringBag\<close>, \<open>Permuter\<close>: \<^verbatim>\<open>stringbag.c\<close>, \<^verbatim>\<open>permuter.c\<close> (by its
  definitions: \<^verbatim>\<open>permuter.h\<close> declares \<^verbatim>\<open>Permuter_set\<close> with another type, so that the file does not compile as it is);
  \<open>SI_Border\<close>: the border nodes and the cursor stack of \<^verbatim>\<open>index_string.c\<close>, with a type invariant and an abstract node.
  The properties are in \<open>Apps_Properties\<close>.

  \<^bold>\<open>The concurrent trees\<close> (C22-C24, C26-C28, C30). \<open>Conc_Sync\<close>: locks and atomics of \<^verbatim>\<open>threads.c\<close>, \<^verbatim>\<open>SC_atomics.c\<close>;
  \<open>Conc_Tree\<close>, \<open>Conc_Map\<close>: abstract search trees and the sequential map; \<open>Conc_Coarse\<close>, \<open>Conc_CoarseSeq\<close>,
  \<open>Conc_CoarseLin\<close>: the trees under one lock; \<open>Conc_Cells\<close>: search trees over cells; \<open>Conc_Hoh\<close>, \<open>Conc_HohInv\<close>,
  \<open>Conc_HohSteps\<close>, \<open>Conc_HohLin\<close>: hand-over-hand locking; \<open>Conc_Nb\<close>, \<open>Conc_NbLin\<close>: the lock-free tree; \<open>Conc_List\<close>:
  \<^verbatim>\<open>linked_list.c\<close>. Any number of threads run as an inductive step relation that interleaves them at every lock
  operation or atomic access; safety, linearizability and progress are shown for every reachable state by rule
  induction, with the history of returned calls as a ghost. The mutexes are those of an implementation that lets a thread destroy a
  mutex it holds, which \<^verbatim>\<open>pushdown_left\<close> does at the end of every deletion; POSIX leaves this undefined. \<open>hoh_turn_posix\<close> has
  the steps by the letter of POSIX, and \<open>hoh_safe\<close> says that this one step is all that differs. Blocks for locks are taken to be
  large enough for a mutex, although \<^verbatim>\<open>lock_t\<close> in \<^verbatim>\<open>threads.h\<close> is not.

  \<^bold>\<open>The lock-free tree with deletion\<close> (C12, C14, C31; \<^verbatim>\<open>bst_conc_nblocking4.c\<close>). \<open>Conc_Nb4\<close>: search, insertion, deletion and the
  helping of other operations. What the other threads do before each access to an atomic object is a parameter of
  the model; the theorems instantiate it with a thread that runs alone (\<open>alone\<close>). \<open>Conc_Nb4Seq\<close>: the invariant \<open>nb4_ok\<close>, searches
  and insertions; \<open>Conc_Nb4Del\<close>: deletions of nodes with a missing child; \<open>Conc_Nb4Reloc\<close>: deletions that move the
  successor's key up, and the mark they leave behind; \<open>Conc_Nb4Run\<close>: runs against a plain search tree and a map;
  \<open>Nb4_Properties\<close>: that runs are those of a map while no deleted node has a right child, and the two defects beyond that:
  the sub-tree that is dropped, and the marked node that stays and makes a later insertion read a null pointer.

  \<^bold>\<open>The tuple-key index\<close> (C33-C35). \<open>TK_Model\<close>: hash table, string list with cursors, method tables and composite
  schemas over one heap of C objects of at most \<open>2\<^sup>64\<close> addresses; the theorems assume that the heap has room for what the
  calls allocate. \<open>TK_Chain\<close>, \<open>TK_Cells\<close>: linked cells once for both structs (locale \<open>cell_list\<close>); \<open>TK_Index\<close>,
  \<open>TK_Schema\<close>: the contract of \<^verbatim>\<open>index.h\<close> (locale \<open>kv_index\<close>) and that every nesting of schemas provides it;
  \<open>TK_Cursor\<close>: cursors; \<open>TK_Fo\<close>: the first-order variant.

  \<^bold>\<open>The database operators\<close> (C36-C38; \<^verbatim>\<open>db_operations_light.c\<close>, \<^verbatim>\<open>queue2.c\<close>). \<open>DB_Model\<close> over the heap of the
  tuple-key index and the B+-tree: queues, attribute lists, projection, sequential scan, index scan, index join,
  materialize. \<open>DB_Fifo\<close>, \<open>DB_Attr\<close>, \<open>DB_Scan\<close>, \<open>DB_IndexScan\<close>, \<open>DB_Join\<close>, \<open>DB_JoinRun\<close>: their correctness.
  Iterators and cursors are values that the caller passes on.

  \<^bold>\<open>The allocator\<close> (C25, C40; \<^verbatim>\<open>malloc.c\<close>, \<^verbatim>\<open>mmap0.c\<close>). \<open>Malloc_Model\<close>: bins, chunks threaded through a word-addressed
  memory. \<^verbatim>\<open>mmap\<close> and \<^verbatim>\<open>munmap\<close> are parameters; \<open>os_contract\<close> states what their documentation promises. \<open>Malloc_List\<close>,
  \<open>Malloc_Inv\<close>, \<open>Malloc_Ops\<close>, \<open>Malloc_Alloc\<close>, \<open>Malloc_Client\<close>: the invariant and that every operation keeps it;
  \<open>Malloc_Run\<close>: clients against a reference in which chunks are separate memories. Requests within 16 bytes of
  \<open>2\<^sup>64\<close> wrap (\<open>malloc_wraps\<close>) and are excluded.

  \<^bold>\<open>Shared.\<close> \<open>DB_Prelude\<close> holds what all share: sorted lists with insertion, positions of keys, checked array access, the option
  monad's simplification rules.

  \<^bold>\<open>Not modelled.\<close> The rest of \<^verbatim>\<open>index_string.c\<close>: it passes an \<^verbatim>\<open>IIndex\<close> where \<^verbatim>\<open>Ifirst_cursor\<close> takes an \<^verbatim>\<open>ICursor\<close>, so that its
  searches and insertions have no defined meaning with the integer index of the repository. Printing, the test drivers, demonstrations (\<^verbatim>\<open>main\<close>) and the release of whole structures where nothing else
  depends on it. \<^verbatim>\<open>verifiable.c\<close> is a copy of \<^verbatim>\<open>kvstore.c\<close> and \<^verbatim>\<open>bordernode.c\<close>, \<^verbatim>\<open>src/verif/indices/client/relation_mem.c\<close>
  one of the second B+-tree, and \<^verbatim>\<open>src/src/db_ops\<close> has copies of the tuple-key index. \<^verbatim>\<open>db_seq_scan.c\<close>, \<^verbatim>\<open>db_index_join.c\<close>
  and \<^verbatim>\<open>db_util.c\<close> are an unfinished split of \<^verbatim>\<open>db_operations_light.c\<close> that does not compile. \<^verbatim>\<open>bst_conc_nblocking2.c\<close>
  does not compile either; \<^verbatim>\<open>bst_conc_nblocking4.c\<close>, its corrected version, is modelled, but only runs of one thread on it are verified. Spawning threads, thread exit and
  condition variables only call the thread library.
\<close>

section \<open>The cursored B+-tree\<close>

text \<open>C1: inserting at any cursor of a relation that holds a sorted list of records leaves the relation
  with the record inserted, or replaced if its key was there, and the cursor just behind the record.\<close>

theorem RL_PutRecord_inserts:
  assumes "cursor_at s c xs p" "length xs < capacity"
  shows "\<exists>s' c'. RL_PutRecord s c k r = Some (s', c') \<and>
           cursor_at s' c' (ins_list k r xs) (Suc (below k (keys_of xs)))"
  using assms by (rule btree.put_at)

theorem RL_PutRecord_inserts_witness:
  "\<exists>s' c'. RL_PutRecord (one_leaf [(3, ''x''), (7, ''y'')]) start_cursor 5 ''z'' = Some (s', c') \<and>
     cursor_at s' c' [(3, ''x''), (5, ''z''), (7, ''y'')] 2"
proof -
  have "cursor_at (one_leaf [(3, ''x''), (7, ''y'')]) start_cursor [(3, ''x''), (7, ''y'')] 0"
    by (rule one_leaf_at) (simp_all add: FANOUT_def)
  moreover have "length [(3 :: Key, ''x''), (7, ''y'')] < capacity" by (simp add: capacity_def)
  ultimately have "\<exists>s' c'. RL_PutRecord (one_leaf [(3, ''x''), (7, ''y'')]) start_cursor 5 ''z'' = Some (s', c') \<and>
      cursor_at s' c' (ins_list 5 ''z'' [(3, ''x''), (7, ''y'')]) (Suc (below 5 (keys_of [(3 :: Key, ''x''), (7, ''y'')])))"
    by (rule RL_PutRecord_inserts)
  moreover have "ins_list 5 ''z'' [(3 :: Key, ''x''), (7, ''y'')] = [(3, ''x''), (5, ''z''), (7, ''y'')]"
    "Suc (below 5 (keys_of [(3 :: Key, ''x''), (7, ''y'')])) = 2" by (simp_all add: below_Cons)
  ultimately show ?thesis by (simp only:)
qed

text \<open>C2: \<^verbatim>\<open>RL_MoveToKey\<close> from any position answers whether the relation has a record for the key, and
  \<^verbatim>\<open>RL_GetRecord\<close> then returns that record.\<close>

theorem RL_MoveToKey_finds:
  assumes "cursor_at s c xs p"
  shows "\<exists>c'. RL_MoveToKey s c k = Some (map_of xs k \<noteq> None, c') \<and> cursor_at s c' xs (below k (keys_of xs)) \<and>
     (\<forall>r. map_of xs k = Some r \<longrightarrow>
        (\<exists>c''. RL_GetRecord s c' = Some (r, c'') \<and> cursor_at s c'' xs (below k (keys_of xs))))"
  using assms by (rule btree.find_at)

theorem RL_MoveToKey_finds_witness:
  "\<exists>c'. RL_MoveToKey (one_leaf [(3, ''x''), (7, ''y'')]) start_cursor 7 = Some (True, c') \<and>
     (\<exists>c''. RL_GetRecord (one_leaf [(3, ''x''), (7, ''y'')]) c' = Some (''y'', c''))"
proof -
  have "cursor_at (one_leaf [(3, ''x''), (7, ''y'')]) start_cursor [(3, ''x''), (7, ''y'')] 0"
    by (rule one_leaf_at) (simp_all add: FANOUT_def)
  from RL_MoveToKey_finds [OF this, of 7] show ?thesis by auto
qed

lemma map_of_fold_ins:
  "strict_sorted (keys_of xs) \<Longrightarrow> map_of (fold (\<lambda>(k, r). ins_list k r) kvs xs) = map_of xs ++ map_of (rev kvs)"
proof (induction kvs arbitrary: xs)
  case (Cons kv kvs)
  obtain k r where kv: "kv = (k, r)" by (cases kv)
  show ?case
    using Cons.IH [OF strict_sorted_ins_list [OF Cons.prems, of k r]] map_of_ins_list [OF Cons.prems, of k r] kv
    by (auto simp: fun_eq_iff map_add_def split: option.splits)
qed simp

text \<open>C3: a fresh relation, after any run of insertions through one cursor, answers every lookup as the
  finite map that the insertions build: the last record put for a key wins.\<close>

theorem RL_behaves_as_map:
  assumes "\<forall>n. ok n" "length kvs \<le> capacity"
  shows "\<exists>s0 c0 s1 s c. RL_NewRelation ok = Some s0 \<and> RL_NewCursor s0 = Some (Some c0, s1) \<and>
     fold (\<lambda>(k, r) x. Option.bind x (\<lambda>(s, c). RL_PutRecord s c k r)) kvs (Some (s1, c0)) = Some (s, c) \<and>
     (\<forall>k. \<exists>c'. RL_MoveToKey s c k = Some (map_of (rev kvs) k \<noteq> None, c') \<and>
        (\<forall>r. map_of (rev kvs) k = Some r \<longrightarrow> (\<exists>c''. RL_GetRecord s c' = Some (r, c''))))"
proof -
  obtain s0 :: "'a Relation" where s0: "RL_NewRelation ok = Some s0" "rel_holds s0 []" using new_relation_at [OF assms(1)] by blast
  obtain c0 s1 where c0: "RL_NewCursor s0 = Some (Some c0, s1)" "cursor_at s1 c0 [] 0"
    using new_cursor_at [OF s0(2)] by blast
  obtain s c p where s: "fold (\<lambda>(k, r) x. Option.bind x (\<lambda>(s, c). RL_PutRecord s c k r)) kvs (Some (s1, c0)) = Some (s, c)"
    "cursor_at s c (fold (\<lambda>(k, r). ins_list k r) kvs []) p"
    using btree.put_run [OF c0(2), of kvs] assms(2) by auto
  have "map_of (fold (\<lambda>(k, r). ins_list k r) kvs []) = map_of (rev kvs)" by (simp add: map_of_fold_ins)
  then show ?thesis using s0(1) c0(1) s(1) btree.find_at [OF s(2)]
    by (intro exI [of _ s0] exI [of _ c0] exI [of _ s1] exI [of _ s] exI [of _ c]) (fastforce)
qed

theorem RL_behaves_as_map_witness:
  "\<exists>s0 c0 s1 s c. RL_NewRelation (\<lambda>n. True) = Some s0 \<and> RL_NewCursor s0 = Some (Some c0, s1) \<and>
     fold (\<lambda>(k, r) x. Option.bind x (\<lambda>(s, c). RL_PutRecord s c k r)) [(9, ''x''), (4, ''y'')] (Some (s1, c0)) =
       Some (s, c) \<and>
     (\<exists>c'. RL_MoveToKey s c 4 = Some (True, c') \<and> (\<exists>c''. RL_GetRecord s c' = Some (''y'', c'')))"
proof -
  let ?kvs = "[(9 :: Key, ''x''), (4, ''y'')]"
  have "\<forall>n. (\<lambda>n. True) (n :: addr)" "length ?kvs \<le> capacity" by (simp_all add: capacity_def)
  from RL_behaves_as_map [OF this] obtain s0 c0 s1 s c where
    *: "RL_NewRelation (\<lambda>n. True) = Some s0" "RL_NewCursor s0 = Some (Some c0, s1)"
    "fold (\<lambda>(k, r) x. Option.bind x (\<lambda>(s, c). RL_PutRecord s c k r)) [(9, ''x''), (4, ''y'')] (Some (s1, c0)) = Some (s, c)"
    "\<exists>c'. RL_MoveToKey s c 4 = Some (map_of (rev ?kvs) 4 \<noteq> None, c') \<and>
        (\<forall>r. map_of (rev ?kvs) 4 = Some r \<longrightarrow> (\<exists>c''. RL_GetRecord s c' = Some (r, c'')))"
    by blast
  from *(4) have "\<exists>c'. RL_MoveToKey s c 4 = Some (True, c') \<and> (\<exists>c''. RL_GetRecord s c' = Some (''y'', c''))" by simp
  with *(1-3) show ?thesis by blast
qed

text \<open>C4: reading on from a position with \<^verbatim>\<open>RL_CursorIsValid\<close>, \<^verbatim>\<open>RL_GetKey\<close>, \<^verbatim>\<open>RL_GetRecord\<close> and
  \<^verbatim>\<open>RL_MoveToNext\<close> visits the rest of the relation's records in key order.\<close>

theorem forward_scan_visits_all:
  assumes "cursor_at s c xs p"
  shows "\<exists>c'. btree.scan n s c = Some (take n (drop p xs), c') \<and> cursor_at s c' xs (min (p + n) (length xs))"
  using assms by (rule btree.scan_at)

theorem forward_scan_visits_all_witness:
  "\<exists>c'. btree.scan 5 (one_leaf [(3, ''x''), (7, ''y'')]) start_cursor = Some ([(3, ''x''), (7, ''y'')], c')"
proof -
  have "cursor_at (one_leaf [(3, ''x''), (7, ''y'')]) start_cursor [(3, ''x''), (7, ''y'')] 0"
    by (rule one_leaf_at) (simp_all add: FANOUT_def)
  from forward_scan_visits_all [OF this, of 5] show ?thesis by auto
qed

text \<open>C5: the climb of \<^verbatim>\<open>putEntry\<close>, with its splits of leaves and interior nodes and the growth of a new root,
  implements insertion into the abstract tree and keeps the invariant of the relation: key order, balance,
  node sizes, disjoint nodes, record count and depth.\<close>

theorem putEntry_refines:
  assumes "rel_inv s h t" "Suc h < MAX_TREE_DEPTH" "arrays c" "route c 0 k t"
  shows "\<exists>s' c'. putEntry s c (level c) \<lparr>ekey = k, eptr = Record r\<rparr> k = Some (s', c') \<and>
     rel_inv s' (put_height (brk s) k r t h) (put_tree (brk s) k r t) \<and>
     route c' 0 k (put_tree (brk s) k r t) \<and> arrays c'"
  using assms by (rule putEntry_root)

theorem putEntry_refines_witness:
  "\<exists>s' c'. putEntry (one_leaf [(3, ''x'')]) start_cursor (level start_cursor) \<lparr>ekey = 2, eptr = Record ''z''\<rparr> 2 =
      Some (s', c') \<and> rel_inv s' 0 (Lf 0 [(2, ''z''), (3, ''x'')])"
proof -
  have i: "rel_inv (one_leaf [(3, ''x'')]) 0 (Lf 0 [(3, ''x'')])" by (rule one_leaf_inv) (simp_all add: FANOUT_def)
  have c: "arrays start_cursor" "route start_cursor 0 2 (Lf 0 [(3, ''x'')])" "Suc 0 < MAX_TREE_DEPTH"
    by (simp_all add: start_cursor_def arrays_def MAX_TREE_DEPTH_def below_Cons)
  have p: "put_tree b 2 ''z'' (Lf 0 [(3, ''x'')]) = Lf 0 [(2, ''z''), (3, ''x'')]"
    "put_height b 2 ''z'' (Lf 0 [(3, ''x'')]) 0 = 0" for b
    by (simp_all add: put_tree_def put_height_def FANOUT_def)
  from putEntry_refines [OF i c(3,1,2), of "''z''"] show ?thesis unfolding p by blast
qed

text \<open>C6: from any position of a cursor, \<^verbatim>\<open>goToKey\<close> (the climb with \<^verbatim>\<open>AscendToParent\<close>, then \<^verbatim>\<open>moveToKey\<close>)
  arrives on the path from the root to the leaf where the key belongs.\<close>

theorem goToKey_reaches:
  assumes "repr s True True t" "ordered t" "wf_size True t" "bal h t" "h < MAX_TREE_DEPTH" "arrays c" "cur c 0 t"
  shows "\<exists>c'. goToKey s c k = Some c' \<and> route c' 0 k t \<and> arrays c'"
  using assms by (rule goToKey_root)

theorem goToKey_reaches_witness:
  "\<exists>c'. goToKey (one_leaf [(3, ''x'')]) start_cursor 9 = Some c' \<and> route c' 0 9 (Lf 0 [(3, ''x'')])"
proof -
  have "rel_inv (one_leaf [(3, ''x'')]) 0 (Lf 0 [(3, ''x'')])" by (rule one_leaf_inv) (simp_all add: FANOUT_def)
  note i = rel_invD [OF this]
  have c: "arrays start_cursor" "cur start_cursor 0 (Lf 0 [(3, ''x'')])" "0 < MAX_TREE_DEPTH"
    by (simp_all add: start_cursor_def arrays_def MAX_TREE_DEPTH_def)
  from goToKey_reaches [OF i(2-5) c(3,1,2), of 9] show ?thesis by blast
qed

text \<open>C7: reads at a position return the key and the record there; at the end they abort; the cursor's validity
  says which.\<close>

theorem reading_at_position:
  assumes "cursor_at s c xs p"
  shows "RL_CursorIsValid s c = Some (p < length xs) \<and>
    (if p < length xs
     then (\<exists>c'. RL_GetKey s c = Some (fst (xs ! p), c') \<and> cursor_at s c' xs p) \<and>
          (\<exists>c'. RL_GetRecord s c = Some (snd (xs ! p), c') \<and> cursor_at s c' xs p)
     else RL_GetKey s c = None \<and> RL_GetRecord s c = None)"
proof (cases "p < length xs")
  case True
  then show ?thesis using btree.valid_at [OF assms] btree.get_key_at [OF assms] btree.get_record_at [OF assms] by simp
next
  case False
  then have "p = length xs" using btree.at_bound [OF assms] by simp
  then show ?thesis using btree.valid_at [OF assms] settle_end [OF assms]
    by (simp add: RL_GetKey_def RL_GetRecord_def)
qed

theorem reading_at_position_witness:
  "\<exists>c'. RL_GetRecord (one_leaf [(3, ''x'')]) start_cursor = Some (''x'', c')"
proof -
  have "cursor_at (one_leaf [(3, ''x'')]) start_cursor [(3, ''x'')] 0"
    by (rule one_leaf_at) (simp_all add: FANOUT_def)
  from reading_at_position [OF this] show ?thesis by auto
qed

text \<open>C8: \<^verbatim>\<open>RL_MoveToNext\<close> advances by one position, across the ends of leaves, and stops behind the last record;
  \<^verbatim>\<open>RL_MoveToFirst\<close> goes to the first.\<close>

theorem moving_forward:
  assumes "cursor_at s c xs p"
  shows "(\<exists>c'. RL_MoveToNext s c = Some c' \<and> cursor_at s c' xs (if p < length xs then Suc p else p)) \<and>
    (\<exists>c'. RL_MoveToFirst s c = Some (xs \<noteq> [], c') \<and> cursor_at s c' xs 0)"
  using btree.move_to_next_at [OF assms] btree.move_to_first_at [OF assms] by blast

theorem moving_forward_witness:
  "\<exists>c'. RL_MoveToNext (one_leaf [(3, ''x'')]) start_cursor = Some c' \<and> cursor_at (one_leaf [(3, ''x'')]) c' [(3, ''x'')] 1"
proof -
  have "cursor_at (one_leaf [(3, ''x'')]) start_cursor [(3, ''x'')] 0"
    by (rule one_leaf_at) (simp_all add: FANOUT_def)
  from moving_forward [OF this] show ?thesis by auto
qed

section \<open>The second version of the B+-tree\<close>

text \<open>C18: through the second version a fresh relation, after any run of insertions, answers every lookup as the
  finite map that the insertions build, whatever \<^verbatim>\<open>malloc\<close> left in the arrays of the cursor.\<close>

theorem second_version_behaves_as_map:
  assumes "\<forall>n. ok n" "length kvs \<le> capacity" "length is = MAX_TREE_DEPTH" "length as = MAX_TREE_DEPTH"
  shows "\<exists>s0 c0 s1 s c. RL_NewRelation2 ok = Some s0 \<and> RL_NewCursor2 is as s0 = Some (c0, s1) \<and>
     fold (\<lambda>(k, r) x. Option.bind x (\<lambda>(s, c). RL_PutRecord2 s c k r)) kvs (Some (s1, c0)) = Some (s, c) \<and>
     (\<forall>k. \<exists>c'. RL_MoveToKey2 s c k = Some (map_of (rev kvs) k \<noteq> None, c') \<and>
        (\<forall>r. map_of (rev kvs) k = Some r \<longrightarrow> (\<exists>c''. RL_GetRecord2 s c' = Some (r, c''))))"
proof -
  obtain s0 :: "'a Relation" where s0: "RL_NewRelation2 ok = Some s0" "rel_holds s0 []"
    using new_relation_at [OF assms(1)] RL_NewRelation2_eq [OF assms(1)] by metis
  obtain c0 s1 where c0: "RL_NewCursor2 is as s0 = Some (c0, s1)" "cursor_at s1 c0 [] 0"
    using RL_NewCursor2_at [OF s0(2) assms(3,4)] by blast
  obtain s c p where s: "fold (\<lambda>(k, r) x. Option.bind x (\<lambda>(s, c). RL_PutRecord2 s c k r)) kvs (Some (s1, c0)) = Some (s, c)"
    "cursor_at s c (fold (\<lambda>(k, r). ins_list k r) kvs []) p"
    using btree2.put_run [OF c0(2), of kvs] assms(2) by auto
  have "map_of (fold (\<lambda>(k, r). ins_list k r) kvs []) = map_of (rev kvs)" by (simp add: map_of_fold_ins)
  then show ?thesis using s0(1) c0(1) s(1) btree2.find_at [OF s(2)]
    by (intro exI [of _ s0] exI [of _ c0] exI [of _ s1] exI [of _ s] exI [of _ c]) (fastforce)
qed

theorem second_version_behaves_as_map_witness:
  "\<exists>s0 c0 s1 s c. RL_NewRelation2 (\<lambda>n. True) = Some s0 \<and>
     RL_NewCursor2 (replicate MAX_TREE_DEPTH 7) (replicate MAX_TREE_DEPTH (Some 3)) s0 = Some (c0, s1) \<and>
     fold (\<lambda>(k, r) x. Option.bind x (\<lambda>(s, c). RL_PutRecord2 s c k r)) [(9, ''x''), (4, ''y'')] (Some (s1, c0)) =
       Some (s, c) \<and>
     (\<exists>c'. RL_MoveToKey2 s c 4 = Some (True, c') \<and> (\<exists>c''. RL_GetRecord2 s c' = Some (''y'', c'')))"
proof -
  let ?kvs = "[(9 :: Key, ''x''), (4, ''y'')]"
  have "\<forall>n. (\<lambda>n. True) (n :: addr)" "length ?kvs \<le> capacity" by (simp_all add: capacity_def)
  from second_version_behaves_as_map [OF this length_replicate length_replicate, of 7 "Some 3"]
  obtain s0 c0 s1 s c where
    *: "RL_NewRelation2 (\<lambda>n. True) = Some s0"
    "RL_NewCursor2 (replicate MAX_TREE_DEPTH 7) (replicate MAX_TREE_DEPTH (Some 3)) s0 = Some (c0, s1)"
    "fold (\<lambda>(k, r) x. Option.bind x (\<lambda>(s, c). RL_PutRecord2 s c k r)) [(9, ''x''), (4, ''y'')] (Some (s1, c0)) = Some (s, c)"
    "\<exists>c'. RL_MoveToKey2 s c 4 = Some (map_of (rev ?kvs) 4 \<noteq> None, c') \<and>
        (\<forall>r. map_of (rev ?kvs) 4 = Some r \<longrightarrow> (\<exists>c''. RL_GetRecord2 s c' = Some (r, c'')))"
    by blast
  from *(4) have "\<exists>c'. RL_MoveToKey2 s c 4 = Some (True, c') \<and> (\<exists>c''. RL_GetRecord2 s c' = Some (''y'', c''))" by simp
  with *(1-3) show ?thesis by blast
qed



text \<open>C20: in the second version \<^verbatim>\<open>RL_MoveToPrevious\<close> stays at the first record and otherwise goes back by one
  position; only where the step leads from the beginning of a leaf into the leftmost child of a node it reads
  \<^verbatim>\<open>entries[-1]\<close>.\<close>

theorem moving_back:
  assumes "cursor_back s c xs p b u"
  shows "if p = 0 then RL_MoveToPrevious2 s c = Some c
    else if b \<and> u then RL_MoveToPrevious2 s c = None
    else \<exists>c'. RL_MoveToPrevious2 s c = Some c' \<and> cursor_at s c' xs (p - 1)"
  using assms by (rule RL_MoveToPrevious2_at)

theorem moving_back_witness:
  "\<exists>c c'. RL_MoveToKey2 (one_leaf [(3, ''x''), (7, ''y'')]) start_cursor 7 = Some (True, c) \<and>
     RL_MoveToPrevious2 (one_leaf [(3, ''x''), (7, ''y'')]) c = Some c' \<and>
     (\<exists>d. RL_GetKey2 (one_leaf [(3, ''x''), (7, ''y'')]) c' = Some (3, d))"
proof -
  let ?s = "one_leaf [(3, ''x''), (7, ''y'')]" and ?xs = "[(3, ''x''), (7, ''y'')]"
  have inv: "rel_inv ?s 0 (Lf 0 ?xs)" by (rule one_leaf_inv) (simp_all add: FANOUT_def)
  let ?c = "start_cursor\<lparr>ancestorsIdx := (replicate MAX_TREE_DEPTH 0)[0 := 1]\<rparr>"
  have "cursor_back ?s ?c ?xs 1 False False"
    unfolding cursor_back_def using inv
    by (intro exI [of _ 0] exI [of _ "Lf 0 ?xs"])
      (simp add: capacity_def start_cursor_def MAX_TREE_DEPTH_def arrays_def)
  from moving_back [OF this] obtain c' where c': "RL_MoveToPrevious2 ?s ?c = Some c'" "cursor_at ?s c' ?xs 0" by auto
  have "cursor_at ?s start_cursor ?xs 0" by (rule one_leaf_at) (simp_all add: FANOUT_def)
  have "RL_MoveToKey2 ?s start_cursor 7 = Some (True, ?c)" by code_simp
  moreover have "\<exists>d. RL_GetKey2 ?s c' = Some (3, d)" using btree2.get_key_at [OF c'(2)] by auto
  ultimately show ?thesis using c'(1) by blast
qed

text \<open>\<^verbatim>\<open>moveToLast\<close> of the first version, called on an interior node, stops at the first position of the
  node's last child, which is not the last position of the tree.\<close>

theorem moveToLast_misses_end:
  assumes "repr s f l (Nd a ks ts)" "wf_size rt (Nd a ks ts)" "bal h (Nd a ks ts)" "lv + h < MAX_TREE_DEPTH" "arrays c"
  shows "\<exists>c'. moveToLast s (Some a) c (int lv) = Some c' \<and> cur c' lv (Nd a ks ts) \<and>
    pos c' lv (Nd a ks ts) < length (contents (Nd a ks ts)) \<and>
    pos c' lv (Nd a ks ts) + length (contents (last ts)) = length (contents (Nd a ks ts))"
proof -
  obtain c' where c': "moveToLast s (Some a) c (int lv) = Some c'" "cur c' lv (Nd a ks ts)"
    "pos c' lv (Nd a ks ts) + length (contents (last ts)) = length (contents (Nd a ks ts))" "contents (last ts) \<noteq> []"
    using moveToLast_interior [OF assms] by blast
  then have "pos c' lv (Nd a ks ts) < length (contents (Nd a ks ts))"
    using length_greater_0_conv [of "contents (last ts)"] by linarith
  with c' show ?thesis by blast
qed

theorem moveToLast_misses_end_witness:
  "\<exists>(s :: string Relation) a ks ts c c'. rel_inv s 1 (Nd a ks ts) \<and> length (contents (Nd a ks ts)) = 16 \<and>
     moveToLast s (Some a) c 0 = Some c' \<and> pos c' 0 (Nd a ks ts) < 16"
proof -
  let ?xs = "map (\<lambda>k. (word_of_nat k :: Key, ''v'')) [0..<15]"
  have *: "strict_sorted (keys_of ?xs)" by code_simp
  then have i: "rel_inv (one_leaf ?xs) 0 (Lf 0 ?xs)" by (rule one_leaf_inv) (simp add: FANOUT_def)
  have r: "route (start_cursor\<lparr>ancestorsIdx := (replicate MAX_TREE_DEPTH 0)[0 := 15]\<rparr>) 0 15 (Lf 0 ?xs)"
    by code_simp
  let ?t = "put_tree (brk (one_leaf ?xs)) 15 ''v'' (Lf 0 ?xs)"
  obtain s' c' where s': "rel_inv s' (put_height (brk (one_leaf ?xs)) 15 ''v'' (Lf 0 ?xs) 0) ?t" "arrays c'"
    using putEntry_root [OF i _ _ r, of "''v''"] by (auto simp: MAX_TREE_DEPTH_def arrays_def start_cursor_def)
  have t: "put_height (brk (one_leaf ?xs)) 15 ''v'' (Lf 0 ?xs) 0 = 1" "case ?t of Nd a ks ts \<Rightarrow> True | Lf a kvs \<Rightarrow> False"
    "length (contents ?t) = 16"
    by code_simp+
  obtain a ks ts where nd: "?t = Nd a ks ts" using t(2) by (cases ?t) simp_all
  have inv: "rel_inv s' 1 (Nd a ks ts)" using s'(1) t(1) nd by simp
  obtain d where "moveToLast s' (Some a) c' (int 0) = Some d" "pos d 0 (Nd a ks ts) < length (contents (Nd a ks ts))"
    using moveToLast_misses_end [OF rel_invD(2,4,5) [OF inv], of 0 c'] s'(2) by (auto simp: MAX_TREE_DEPTH_def)
  then show ?thesis using inv t(3) nd
    by (intro exI [of _ s'] exI [of _ a] exI [of _ ks] exI [of _ ts] exI [of _ c'] exI [of _ d])
      (simp del: pos.simps contents.simps)
qed

section \<open>The key-value store\<close>

text \<open>C9: \<^verbatim>\<open>KV_Put\<close> returns, updates the map the store holds at the key, and at no other key, and counts the keys. The key is
  not empty (an empty one makes \<^verbatim>\<open>BN_SetPrefixValue\<close> abort), it collides with no stored key, memory is available, and it and
  the stored keys are shorter than \<open>2 ^ 32\<close> bytes: \<^verbatim>\<open>surely_malloc\<close> takes the length of a suffix as an \<^verbatim>\<open>unsigned int\<close>, and a
  longer suffix is copied past the end of its block (lemma \<open>BN_SetSuffixValue_overflows\<close>).\<close>

theorem KV_Put_updates:
  assumes "store_holds s m" "bs \<noteq> []" "kbrk s < capacity" "length bs < 2 ^ 32"
    and "\<forall>k'. m k' \<noteq> None \<longrightarrow> k' \<noteq> bs \<longrightarrow> k' \<noteq> [] \<longrightarrow> \<not> collide bs k' \<and> length k' < 2 ^ 32"
  shows "\<exists>s' key'. KV_Put s (Some (kkey bs)) (Some v) = Some (True, s', key') \<and> store_holds s' (m(bs \<mapsto> v)) \<and>
    numKeys s' = numKeys s + (if m bs = None then 1 else 0)"
  using KV_Put_holds [OF assms(1-4)] assms(5) by blast

theorem KV_Put_updates_witness:
  "\<exists>s s' key'. KV_NewKVStore (\<lambda>n. True) (\<lambda>a n. True) = Some (Some s) \<and>
     KV_Put s (Some (kkey [1, 2])) (Some ''v'') = Some (True, s', key') \<and>
     store_holds s' (Map.empty([1, 2] \<mapsto> ''v''))"
proof -
  obtain s :: "string KVStore" where s: "KV_NewKVStore (\<lambda>n. True) (\<lambda>a n. True) = Some (Some s)"
    "store_holds s Map.empty" "kbrk s = 2"
    using KV_NewKVStore_holds [of "\<lambda>n. True" "\<lambda>a n. True"] by auto
  have "kbrk s < capacity" using s(3) by (simp add: capacity_def)
  from KV_Put_updates [OF s(2) _ this, of "[1, 2]" "''v''"] s(1) show ?thesis by (auto simp: fun_upd_def)
qed



text \<open>C11: two keys that collide agree in their first slices, and part in a slice in which one of them ends and which both
  convert to the same number (for instance a key of 16 bytes and any extension of it). In a store that has no border
  node for their first slice, a put of the first key works, but the put of the second one, which also returns success, stores
  the first key's value under the second key and drops both the first key and the new value; the number of keys
  grows by two all the same.\<close>

theorem KV_Put_collision_loses:
  assumes "store_holds s m" "kbrk s < capacity" "slice_free s k1" "collide k2 k1" "k1 \<noteq> k2"
    and "length k1 < 2 ^ 32" "length k2 < 2 ^ 32"
  shows "\<exists>s1 key1 s2 key2. KV_Put s (Some (kkey k1)) (Some w) = Some (True, s1, key1) \<and> store_holds s1 (m(k1 \<mapsto> w)) \<and>
    KV_Put s1 (Some (kkey k2)) (Some v) = Some (True, s2, key2) \<and> store_holds s2 (m(k2 \<mapsto> w, k1 := None)) \<and>
    numKeys s2 = numKeys s + 2"
  using assms by (rule KV_Put_collides)

text \<open>A key of 16 bytes and an extension of it, in a new store.\<close>

theorem KV_Put_collision_loses_witness:
  "\<exists>s s1 key1 s2 key2. KV_NewKVStore (\<lambda>n. True) (\<lambda>a n. True) = Some (Some s) \<and>
     KV_Put s (Some (kkey [1, 1, 1, 1, 1, 1, 1, 1, 1, 2, 3, 4, 5, 6, 7, 8])) (Some ''old'') = Some (True, s1, key1) \<and>
     KV_Put s1 (Some (kkey [1, 1, 1, 1, 1, 1, 1, 1, 1, 2, 3, 4, 5, 6, 7, 8, 9])) (Some ''new'') = Some (True, s2, key2) \<and>
     store_holds s2 [[1, 1, 1, 1, 1, 1, 1, 1, 1, 2, 3, 4, 5, 6, 7, 8, 9] \<mapsto> ''old'']"
proof -
  let ?k1 = "[1, 1, 1, 1, 1, 1, 1, 1, 1, 2, 3, 4, 5, 6, 7, 8] :: byte list"
  let ?k2 = "[1, 1, 1, 1, 1, 1, 1, 1, 1, 2, 3, 4, 5, 6, 7, 8, 9] :: byte list"
  obtain s :: "string KVStore" where s: "KV_NewKVStore (\<lambda>n. True) (\<lambda>a n. True) = Some (Some s)"
    "store_holds s Map.empty" "kbrk s = 2" "slice_free s ?k1"
    using KV_NewKVStore_holds [of "\<lambda>n. True" "\<lambda>a n. True"] by auto
  have cap: "kbrk s < capacity" using s(3) by (simp add: capacity_def)
  have col: "collide ?k2 ?k1" by (simp add: collide_def clash.simps ks_of_def)
  have "(Map.empty(?k2 \<mapsto> ''old'', ?k1 := None)) = [?k2 \<mapsto> ''old'']" by (simp add: fun_upd_def fun_eq_iff)
  then show ?thesis
    using KV_Put_collision_loses [OF s(2) cap s(4) col, of "''old''" "''new''"] s(1) by auto
qed

text \<open>\<^verbatim>\<open>KV_Put\<close> changes the key struct of its caller: a put of a key that leads into the next layer leaves
  the struct with the rest of the key, so that a lookup with it misses the record just put.\<close>

theorem KV_Put_changes_key:
  "do {
      s \<leftarrow> KV_NewKVStore (\<lambda>n. True) (\<lambda>a n. True);
      s \<leftarrow> s;
      (b, s, k1) \<leftarrow> KV_Put s (Some (kkey [1, 1, 1, 1, 1, 1, 1, 1, 5])) (Some ''x'');
      (b, s, k2) \<leftarrow> KV_Put s (Some (kkey [1, 1, 1, 1, 1, 1, 1, 1, 6])) (Some ''y'');
      (v, s) \<leftarrow> KV_Get s (Some k2);
      (w, s) \<leftarrow> KV_Get s (Some (kkey [1, 1, 1, 1, 1, 1, 1, 1, 6]));
      Some (kstr k2, v, w) } = Some (Some [6], None, Some (Val ''y''))"
  by code_simp

section \<open>Key slices\<close>

text \<open>C13: a key slice gives back the bytes it was made of.\<close>

theorem keyslice_roundtrip:
  assumes "len \<le> 8" "len \<le> length str"
  shows "Option.bind (UTIL_GetNextKeySlice str len) (\<lambda>ks. UTIL_KeySliceToStr True ks len) = Some (take len str)"
  using assms by (rule KeySliceToStr_GetNextKeySlice)

theorem keyslice_roundtrip_witness:
  "Option.bind (UTIL_GetNextKeySlice [104, 105, 33] 2) (\<lambda>ks. UTIL_KeySliceToStr True ks 2) = Some [104, 105]"
  using keyslice_roundtrip [of 2 "[104, 105, 33]"] by simp

text \<open>\<^verbatim>\<open>UTIL_UlToStr\<close> gives back the string \<^verbatim>\<open>UTIL_StrToUl\<close> converted, for terminated strings of at most 8
  characters, filled up with NUL bytes.\<close>

theorem strtoul_roundtrip:
  assumes "\<forall>b\<in>set bs. b \<noteq> 0" "length bs \<le> 8"
  shows "Option.bind (UTIL_StrToUl (bs @ 0 # rest)) (UTIL_UlToStr True) = Some (bs @ replicate (9 - length bs) 0)"
  using assms by (rule UlToStr_StrToUl)

theorem strtoul_roundtrip_witness:
  "Option.bind (UTIL_StrToUl ([104, 105] @ 0 # [7])) (UTIL_UlToStr True) = Some ([104, 105] @ replicate 7 0)"
  using strtoul_roundtrip [of "[104, 105]" "[7]"] by simp

text \<open>Eight characters without a terminator, which the interface allows, are read past their end.\<close>

theorem strtoul_overrun:
  assumes "length bs = 8" "\<forall>b\<in>set bs. b \<noteq> 0"
  shows "UTIL_StrToUl bs = None"
  using assms by (rule StrToUl_overrun)

theorem strtoul_overrun_witness: "UTIL_StrToUl [1, 2, 3, 4, 5, 6, 7, 8] = None"
  using strtoul_overrun [of "[1, 2, 3, 4, 5, 6, 7, 8]"] by simp

section \<open>Arrays\<close>

text \<open>C16: when binary search returns from the part \<open>lo..<hi\<close> of a sorted array, the result is a position of the target
  inside this part, or -1 when the part does not hold it. For \<open>hi \<le> 2 ^ 30\<close> it always returns. Beyond this bound the sum
  \<^verbatim>\<open>lo + hi\<close> may leave the range of an \<^verbatim>\<open>int\<close>, which is undefined, and for a target above all elements of a nonempty part it does.\<close>

theorem BinarySearch_finds:
  assumes "sorted a" "0 \<le> lo" "lo \<le> hi" "hi \<le> int (length a)"
  shows "(case UTIL_BinarySearch a tgt lo hi of
      None \<Rightarrow> 2 ^ 30 < hi
    | Some r \<Rightarrow> if tgt \<in> set (drop (nat lo) (take (nat hi) a)) then lo \<le> r \<and> r < hi \<and> a ! nat r = tgt else r = -1) \<and>
    (lo < hi \<and> 2 ^ 30 < hi \<and> (\<forall>i. lo \<le> int i \<and> int i < hi \<longrightarrow> a ! i < tgt) \<longrightarrow>
      UTIL_BinarySearch a tgt lo hi = None)"
  using BinarySearch_correct [OF assms] BinarySearch_overflows [of lo hi a tgt] assms by blast

theorem BinarySearch_finds_witness:
  "(\<exists>r. UTIL_BinarySearch [2, 3, 5, 7] 5 0 4 = Some r \<and> 0 \<le> r \<and> r < 4 \<and> [2, 3, 5, 7] ! nat r = (5 :: int)) \<and>
   UTIL_BinarySearch (replicate (2 ^ 30 + 1) 0) 1 0 (2 ^ 30 + 1) = None"
proof (rule conjI)
  show "\<exists>r. UTIL_BinarySearch [2, 3, 5, 7] 5 0 4 = Some r \<and> 0 \<le> r \<and> r < 4 \<and> [2, 3, 5, 7] ! nat r = (5 :: int)"
    using BinarySearch_finds [of "[2, 3, 5, 7]" 0 4 5] by (auto split: option.splits)
  have low: "replicate n (0 :: int) ! i < 1" if "int i < int n" for i n using that by simp
  have n: "int (2 ^ 30 + 1) = 2 ^ 30 + 1" by simp
  show "UTIL_BinarySearch (replicate (2 ^ 30 + 1) 0) 1 0 (2 ^ 30 + 1) = None"
    by (intro BinarySearch_finds [THEN conjunct2, THEN mp])
      (simp_all only: length_replicate sorted_replicate n, use low [where n = "2 ^ 30 + 1", unfolded n] in simp_all)
qed

text \<open>C17: \<^verbatim>\<open>UTIL_Shuffle\<close> permutes the first \<^verbatim>\<open>len\<close> elements, whatever \<^verbatim>\<open>rand\<close> returns.\<close>

theorem Shuffle_permutes:
  assumes "len \<le> length arr"
  shows "\<exists>arr'. UTIL_Shuffle rnd arr len = Some arr' \<and> mset arr' = mset arr \<and> length arr' = length arr"
  using shuffle_loop_mset [of 0 len arr rnd] assms by (simp add: UTIL_Shuffle_def)

theorem Shuffle_permutes_witness:
  "\<exists>arr'. UTIL_Shuffle (\<lambda>i. 5) [4, 6, 8] 3 = Some arr' \<and> mset arr' = mset [4, 6, 8] \<and> length arr' = length [4, 6, 8 :: int]"
  using Shuffle_permutes [of 3 "[4, 6, 8]" "\<lambda>i. 5"] by simp

end
